(* ===== verification/Lpel_Prelude.thy ===== *)
theory Lpel_Prelude
  imports Main "HOL-Library.Word" "HOL-Library.Multiset"
begin

text \<open>
  Shared vocabulary of the development.

  A C function that may abort (a failing \<open>assert\<close>, a \<open>NULL\<close> or dangling pointer
  dereference, an array access out of range) returns a value of type \<open>'a res\<close>: \<open>Inl\<close>
  names the failure, \<open>Inr\<close> carries the new state and result. Pointers are \<open>nat option\<close>
  (\<open>None\<close> is \<open>NULL\<close>), a heap of structs is a partial map from addresses to records, so that
  \<open>malloc\<close> and \<open>free\<close> change its domain. The second half holds the list abstractions of
  linked structures (null-terminated chains, circular lists addressed by their last node, as
  \<open>streamset.c\<close> and \<open>mailbox.c\<close> use them) and the lemmas on rotation and array swaps that
  the component theories share.
\<close>

section \<open>Results, pointers and heaps\<close>

named_theorems res_simps "evaluation of the error monad"
named_theorems heap_simps "heap reads and updates"

datatype cerror = AssertFail | NullDeref | DanglingDeref | OutOfBounds | Indeterminate
  | BadAlloc | WouldBlock

type_synonym 'a res = "cerror + 'a"
type_synonym addr = nat
type_synonym ptr = "addr option"
type_synonym 'c heap = "addr \<Rightarrow> 'c option"

definition bindR :: "'a res \<Rightarrow> ('a \<Rightarrow> 'b res) \<Rightarrow> 'b res" where
  "bindR m f = (case m of Inl e \<Rightarrow> Inl e | Inr x \<Rightarrow> f x)"

definition assertR :: "bool \<Rightarrow> unit res" where
  "assertR b = (if b then Inr () else Inl AssertFail)"

text \<open>Reading \<open>*p\<close> and the assignment \<open>p->field = v\<close> (an update of the struct at \<open>p\<close>).\<close>

definition deref :: "'c heap \<Rightarrow> ptr \<Rightarrow> 'c res" where
  "deref h p = (case p of None \<Rightarrow> Inl NullDeref
     | Some a \<Rightarrow> (case h a of None \<Rightarrow> Inl DanglingDeref | Some c \<Rightarrow> Inr c))"

definition upd :: "'c heap \<Rightarrow> ptr \<Rightarrow> ('c \<Rightarrow> 'c) \<Rightarrow> 'c heap res" where
  "upd h p f = (case p of None \<Rightarrow> Inl NullDeref
     | Some a \<Rightarrow> (case h a of None \<Rightarrow> Inl DanglingDeref | Some c \<Rightarrow> Inr (h(a \<mapsto> f c))))"

text \<open>
  Allocation: the address \<open>new\<close> is the answer of \<open>malloc\<close>, an argument of the models that
  allocate. \<open>NULL\<close> is passed on and fails where the code first dereferences it; an address
  that is still in use is no answer of an allocator and is set apart as \<open>BadAlloc\<close>.
\<close>

definition alloc_at :: "'c heap \<Rightarrow> ptr \<Rightarrow> 'c \<Rightarrow> 'c heap res" where
  "alloc_at h new c = (case new of None \<Rightarrow> Inl NullDeref
     | Some a \<Rightarrow> if h a = None then Inr (h(a \<mapsto> c)) else Inl BadAlloc)"

definition free_at :: "'c heap \<Rightarrow> ptr \<Rightarrow> 'c heap res" where
  "free_at h p = (case p of None \<Rightarrow> Inr h
     | Some a \<Rightarrow> if h a = None then Inl DanglingDeref else Inr (h(a := None)))"

text \<open>Array accesses \<open>a[i]\<close> and \<open>a[i] = v\<close>, out of range is an error.\<close>

definition aget :: "'a list \<Rightarrow> nat \<Rightarrow> 'a res" where
  "aget xs i = (if i < length xs then Inr (xs ! i) else Inl OutOfBounds)"

definition aset :: "'a list \<Rightarrow> nat \<Rightarrow> 'a \<Rightarrow> 'a list res" where
  "aset xs i v = (if i < length xs then Inr (xs[i := v]) else Inl OutOfBounds)"

lemma bindR_Inr [simp, res_simps]: "bindR (Inr x) f = f x"
  by (simp add: bindR_def)

lemma bindR_Inl [simp, res_simps]: "bindR (Inl e) f = Inl e"
  by (simp add: bindR_def)

lemma bindR_eq_Inr: "bindR m f = Inr y \<longleftrightarrow> (\<exists>x. m = Inr x \<and> f x = Inr y)"
  by (cases m) (auto simp: bindR_def)

lemma bindR_eq_Inl: "bindR m f = Inl e \<longleftrightarrow> m = Inl e \<or> (\<exists>x. m = Inr x \<and> f x = Inl e)"
  by (cases m) (auto simp: bindR_def)

lemma bindR_assoc: "bindR (bindR m f) g = bindR m (\<lambda>x. bindR (f x) g)"
  by (cases m) (simp_all add: bindR_def)

text \<open>
  Functions that contain a loop over a linked structure return \<open>'a run\<close>: \<open>None\<close> is a loop that
  never ends, \<open>Some r\<close> its result.
\<close>

type_synonym 'a run = "'a res option"

definition bindO :: "'a run \<Rightarrow> ('a \<Rightarrow> 'b run) \<Rightarrow> 'b run" where
  "bindO m f = (case m of None \<Rightarrow> None | Some r \<Rightarrow> (case r of Inl e \<Rightarrow> Some (Inl e) | Inr x \<Rightarrow> f x))"

lemma bindO_Some_Inr [simp, res_simps]: "bindO (Some (Inr x)) f = f x"
  by (simp add: bindO_def)

lemma bindO_Some_Inl [simp, res_simps]: "bindO (Some (Inl e)) f = Some (Inl e)"
  by (simp add: bindO_def)

lemma bindO_None [simp, res_simps]: "bindO None f = None"
  by (simp add: bindO_def)

lemma bindO_eq_Inr: "bindO m f = Some (Inr y) \<longleftrightarrow> (\<exists>x. m = Some (Inr x) \<and> f x = Some (Inr y))"
  by (cases m) (auto simp: bindO_def split: sum.splits)

lemma assertR_True [simp, res_simps]: "assertR True = Inr ()"
  by (simp add: assertR_def)

lemma assertR_False [simp, res_simps]: "assertR False = Inl AssertFail"
  by (simp add: assertR_def)

lemma assertR_eq_Inr [simp]: "assertR b = Inr u \<longleftrightarrow> b"
  by (simp add: assertR_def)

lemma deref_Some [simp, heap_simps]: "h a = Some c \<Longrightarrow> deref h (Some a) = Inr c"
  by (simp add: deref_def)

lemma deref_None [simp, heap_simps]: "deref h None = Inl NullDeref"
  by (simp add: deref_def)

lemma deref_dangling [simp, heap_simps]: "h a = None \<Longrightarrow> deref h (Some a) = Inl DanglingDeref"
  by (simp add: deref_def)

lemma deref_eq_Inr: "deref h p = Inr c \<longleftrightarrow> (\<exists>a. p = Some a \<and> h a = Some c)"
  by (auto simp: deref_def split: option.splits)

lemma upd_Some [simp, heap_simps]: "h a = Some c \<Longrightarrow> upd h (Some a) f = Inr (h(a \<mapsto> f c))"
  by (simp add: upd_def)

lemma upd_None [simp, heap_simps]: "upd h None f = Inl NullDeref"
  by (simp add: upd_def)

lemma upd_dangling [simp, heap_simps]: "h a = None \<Longrightarrow> upd h (Some a) f = Inl DanglingDeref"
  by (simp add: upd_def)

lemma upd_eq_Inr: "upd h p f = Inr h' \<longleftrightarrow> (\<exists>a c. p = Some a \<and> h a = Some c \<and> h' = h(a \<mapsto> f c))"
  by (auto simp: upd_def split: option.splits)

lemma alloc_at_eq_Inr: "alloc_at h p c = Inr h' \<longleftrightarrow> (\<exists>a. p = Some a \<and> h a = None \<and> h' = h(a \<mapsto> c))"
  by (auto simp: alloc_at_def split: option.splits if_splits)

lemma alloc_at_fresh [simp, heap_simps]: "h a = None \<Longrightarrow> alloc_at h (Some a) c = Inr (h(a \<mapsto> c))"
  by (simp add: alloc_at_def)

lemma alloc_at_None [simp, heap_simps]: "alloc_at h None c = Inl NullDeref"
  by (simp add: alloc_at_def)

lemma free_at_Some [simp, heap_simps]: "h a = Some c \<Longrightarrow> free_at h (Some a) = Inr (h(a := None))"
  by (simp add: free_at_def)

lemma aget_in [simp]: "i < length xs \<Longrightarrow> aget xs i = Inr (xs ! i)"
  by (simp add: aget_def)

lemma aget_eq_Inr: "aget xs i = Inr x \<longleftrightarrow> i < length xs \<and> x = xs ! i"
  by (auto simp: aget_def)

lemma aset_in [simp]: "i < length xs \<Longrightarrow> aset xs i v = Inr (xs[i := v])"
  by (simp add: aset_def)

lemma aset_eq_Inr: "aset xs i v = Inr ys \<longleftrightarrow> i < length xs \<and> ys = xs[i := v]"
  by (auto simp: aset_def)

section \<open>One pointer field of a heap\<close>

definition fld :: "('c \<Rightarrow> ptr) \<Rightarrow> 'c heap \<Rightarrow> addr \<Rightarrow> ptr" where
  "fld f h a = (case h a of None \<Rightarrow> None | Some c \<Rightarrow> f c)"

lemma fld_Some [simp, heap_simps]: "h a = Some c \<Longrightarrow> fld f h a = f c"
  by (simp add: fld_def)

lemma fld_upd [simp, heap_simps]: "fld f (h(a \<mapsto> c)) = (fld f h)(a := f c)"
  by (auto simp: fld_def fun_eq_iff)

lemma fld_del [simp, heap_simps]: "fld f (h(a := None)) = (fld f h)(a := None)"
  by (auto simp: fld_def fun_eq_iff)

lemma fld_upd_same: "h a = Some c \<Longrightarrow> f c' = f c \<Longrightarrow> fld f (h(a \<mapsto> c')) = fld f h"
  by (auto simp: fld_def fun_eq_iff)

section \<open>Chains: pointer paths through a next field\<close>

primrec chain :: "(addr \<Rightarrow> ptr) \<Rightarrow> ptr \<Rightarrow> addr list \<Rightarrow> ptr \<Rightarrow> bool" where
  "chain nx p [] q \<longleftrightarrow> p = q"
| "chain nx p (a # as) q \<longleftrightarrow> p = Some a \<and> chain nx (nx a) as q"

lemma chain_append [simp]:
  "chain nx p (as @ bs) q \<longleftrightarrow> (\<exists>r. chain nx p as r \<and> chain nx r bs q)"
  by (induction as arbitrary: p) auto

lemma chain_upd [simp]: "a \<notin> set as \<Longrightarrow> chain (nx(a := v)) p as q = chain nx p as q"
  by (induction as arbitrary: p) auto

lemma chain_cong: "(\<And>a. a \<in> set as \<Longrightarrow> nx a = nx' a) \<Longrightarrow> chain nx p as q = chain nx' p as q"
  by (induction as arbitrary: p) auto

lemma chain_unique_end: "chain nx p as q \<Longrightarrow> chain nx p as r \<Longrightarrow> q = r"
  by (induction as arbitrary: p) auto

lemma chain_None [simp]: "chain nx None as q \<longleftrightarrow> as = [] \<and> q = None"
  by (cases as) auto

lemma chain_hd: "chain nx p as q \<Longrightarrow> as \<noteq> [] \<Longrightarrow> p = Some (hd as)"
  by (cases as) auto

section \<open>Circular lists addressed by their last node\<close>

definition clist :: "(addr \<Rightarrow> ptr) \<Rightarrow> ptr \<Rightarrow> addr list \<Rightarrow> bool" where
  "clist nx s xs \<longleftrightarrow>
     (if xs = [] then s = None
      else s = Some (last xs) \<and> distinct xs \<and> chain nx (Some (hd xs)) xs (Some (hd xs)))"

lemma clist_Nil [simp]: "clist nx s [] \<longleftrightarrow> s = None"
  by (simp add: clist_def)

lemma clist_None [simp]: "clist nx None xs \<longleftrightarrow> xs = []"
  by (auto simp: clist_def)

lemma clist_distinct: "clist nx s xs \<Longrightarrow> distinct xs"
  by (auto simp: clist_def split: if_splits)

lemma clist_Some_last: "clist nx (Some l) xs \<Longrightarrow> xs \<noteq> [] \<and> l = last xs"
  by (auto simp: clist_def split: if_splits)

lemma clist_last_in: "clist nx (Some l) xs \<Longrightarrow> l \<in> set xs"
  using clist_Some_last last_in_set by blast

lemma clist_snoc:
  "clist nx s (ys @ [l]) \<longleftrightarrow>
     s = Some l \<and> distinct (ys @ [l]) \<and> chain nx (nx l) ys (Some l) \<and> nx l = Some (hd (ys @ [l]))"
  by (cases ys) (auto simp: clist_def)

lemma clist_Cons:
  "clist nx s (x # xs) \<longleftrightarrow>
     s = Some (last (x # xs)) \<and> distinct (x # xs) \<and> chain nx (nx x) xs (Some x)"
  by (auto simp: clist_def)

lemma clist_upd: "a \<notin> set xs \<Longrightarrow> clist (nx(a := v)) s xs = clist nx s xs"
  by (simp add: clist_def)

lemma clist_cong:
  "(\<And>a. a \<in> set xs \<Longrightarrow> nx a = nx' a) \<Longrightarrow> clist nx s xs = clist nx' s xs"
  unfolding clist_def by (metis chain_cong)

lemma clist_single: "clist (nx(n := Some n)) (Some n) [n]"
  by (simp add: clist_def)

text \<open>The insertion \<open>n->next = l->next; l->next = n; *set = n\<close> appends at the end.\<close>

lemma clist_insert:
  assumes "clist nx (Some l) xs" and "n \<notin> set xs"
  shows "clist (nx(n := nx l, l := Some n)) (Some n) (xs @ [n])"
proof -
  from assms(1) obtain ys where xs: "xs = ys @ [l]"
    by (metis append_butlast_last_id clist_Some_last)
  with assms show ?thesis
    by (cases ys) (auto simp: clist_def)
qed

lemma clist_last_next: "clist nx (Some l) xs \<Longrightarrow> nx l = Some (hd xs)"
  by (metis append_butlast_last_id clist_Some_last clist_snoc)

text \<open>Unlinking the first node: \<open>l->next = l->next->next\<close>.\<close>

lemma clist_pop:
  assumes "clist nx (Some l) (x # xs)" and "xs \<noteq> []"
  shows "clist (nx(l := nx x)) (Some l) xs"
proof -
  from assms obtain ys where xs: "xs = ys @ [l]"
    by (metis append_butlast_last_id clist_Some_last last_ConsR)
  with assms(1) show ?thesis
    by (cases ys) (auto simp: clist_def)
qed

lemma clist_split:
  assumes "clist nx s (ys @ a # b # zs)"
  shows "nx a = Some b"
  using assms by (cases ys) (auto simp: clist_def)

lemma clist_hd_single: "clist nx (Some l) [x] \<Longrightarrow> l = x \<and> nx x = Some x"
  by (simp add: clist_def)

text \<open>Unlinking an inner or last node \<open>b\<close> behind its predecessor \<open>a\<close>.\<close>

lemma clist_unlink:
  assumes "clist nx s (ys @ a # b # zs)"
  shows "clist (nx(a := nx b)) (Some (last (ys @ a # zs))) (ys @ a # zs)"
proof -
  have nb: "nx b = Some (hd (zs @ ys @ [a]))"
    using assms by (cases ys; cases zs) (auto simp: clist_def)
  show ?thesis
    using assms nb by (cases ys; cases zs) (auto simp: clist_def)
qed

section \<open>Null-terminated chains (stacks of free nodes)\<close>

definition nlist :: "(addr \<Rightarrow> ptr) \<Rightarrow> ptr \<Rightarrow> addr list \<Rightarrow> bool" where
  "nlist nx p xs \<longleftrightarrow> distinct xs \<and> chain nx p xs None"

lemma nlist_Nil [simp]: "nlist nx p [] \<longleftrightarrow> p = None"
  by (simp add: nlist_def)

lemma nlist_None [simp]: "nlist nx None xs \<longleftrightarrow> xs = []"
  by (auto simp: nlist_def)

lemma nlist_Cons: "nlist nx p (x # xs) \<longleftrightarrow> p = Some x \<and> x \<notin> set xs \<and> nlist nx (nx x) xs"
  by (auto simp: nlist_def)

lemma nlist_upd: "a \<notin> set xs \<Longrightarrow> nlist (nx(a := v)) p xs = nlist nx p xs"
  by (simp add: nlist_def)

lemma nlist_cong: "(\<And>a. a \<in> set xs \<Longrightarrow> nx a = nx' a) \<Longrightarrow> nlist nx p xs = nlist nx' p xs"
  unfolding nlist_def by (metis chain_cong)

lemma nlist_Some_hd: "nlist nx (Some a) xs \<Longrightarrow> \<exists>ys. xs = a # ys"
  by (cases xs) (auto simp: nlist_def)

text \<open>Following a chain to its end; \<open>None\<close> for a cyclic structure.\<close>

partial_function (option) walk :: "(addr \<Rightarrow> ptr) \<Rightarrow> ptr \<Rightarrow> addr list option" where
  "walk nx p = (case p of None \<Rightarrow> Some []
     | Some a \<Rightarrow> Option.bind (walk nx (nx a)) (\<lambda>xs. Some (a # xs)))"

lemma walk_None [simp]: "walk nx None = Some []"
  by (simp add: walk.simps)

lemma walk_chain: "chain nx p xs None \<Longrightarrow> walk nx p = Some xs"
  by (induction xs arbitrary: p) (auto simp: walk.simps)

section \<open>Rotation of arrays\<close>

lemma mod_add_inj:
  fixes m i j n :: nat
  assumes "i < n" and "j < n"
  shows "(m + i) mod n = (m + j) mod n \<longleftrightarrow> i = j"
proof -
  have "a = b" if "(m + a) mod n = (m + b) mod n" "a \<le> b" "b < n" for a b
  proof -
    from that have "n dvd b - a"
      by (metis add_diff_cancel_left mod_eq_dvd_iff_nat nat_add_left_cancel_le)
    with that show ?thesis by (auto dest: dvd_imp_le)
  qed
  then show ?thesis using assms by (metis nle_le)
qed

lemma rotate_update:
  assumes "i < length xs"
  shows "rotate m (xs[(m + i) mod length xs := v]) = (rotate m xs)[i := v]"
proof (rule nth_equalityI)
  show "length (rotate m (xs[(m + i) mod length xs := v])) = length ((rotate m xs)[i := v])"
    by simp
next
  fix j assume "j < length (rotate m (xs[(m + i) mod length xs := v]))"
  then have j: "j < length xs" by simp
  have "(m + i) mod length xs = (m + j) mod length xs \<longleftrightarrow> i = j"
    using assms j by (rule mod_add_inj)
  then show "rotate m (xs[(m + i) mod length xs := v]) ! j = (rotate m xs)[i := v] ! j"
    using assms j mod_less_divisor [of "length xs" "m + j"]
    by (cases "i = j") (auto simp: nth_rotate nth_list_update length_greater_0_conv [symmetric]
        simp del: length_greater_0_conv)
qed

end
