(* ===== verification/Lpel_Types.thy ===== *)
theory Lpel_Types
  imports Lpel_Prelude
begin

text \<open>
  The task states of \<open>include/lpel_common.h\<close>, with the two extra states of the hierarchical
  scheduler (\<open>include/hrc_lpel.h\<close>). In the source they are values of type \<open>char\<close>.
\<close>

datatype lpel_taskstate_t = TASK_CREATED | TASK_RUNNING | TASK_READY | TASK_BLOCKED | TASK_MUTEX
  | TASK_ZOMBIE | TASK_INQUEUE | TASK_RETURNED

text \<open>Where a task is mapped: outside the workers, or to the master.\<close>

definition LPEL_MAP_OTHERS :: int where "LPEL_MAP_OTHERS = -1"
definition LPEL_MAP_MASTER :: int where "LPEL_MAP_MASTER = 0"

end
