(* ===== verification/Decen_Types.thy ===== *)
theory Decen_Types
  imports Lpel_Types
begin

text \<open>
  The task control block of the decentralised scheduler (\<open>struct lpel_task_t\<close> of
  \<open>decen_task.h\<close>). Pointers to code, user data and
  monitoring objects are opaque addresses; the machine context \<open>mctx\<close> is left out (context
  switches are modelled as steps of the worker). \<open>same_body\<close> relates heaps that differ in the
  queue links of tasks only.
\<close>

record lpel_task_t =
  t_prev :: ptr
  t_next :: ptr
  t_uid :: "32 word"
  t_state :: lpel_taskstate_t
  t_worker_context :: ptr
  t_prio :: int
  t_wakeup_sd :: ptr
  t_poll_token :: int
  t_mon :: ptr
  t_size :: int
  t_func :: ptr
  t_inarg :: ptr
  t_outarg :: ptr
  t_usrdata :: ptr
  t_usrdt_destr :: ptr

type_synonym tasks = "lpel_task_t heap"

text \<open>The contents of a task without its queue links.\<close>

definition body :: "lpel_task_t \<Rightarrow> lpel_task_t" where
  "body t = t\<lparr>t_prev := None, t_next := None\<rparr>"

definition same_body :: "tasks \<Rightarrow> tasks \<Rightarrow> bool" where
  "same_body h h' \<longleftrightarrow> (\<forall>a. map_option body (h a) = map_option body (h' a))"

lemma body_links [simp]:
  "body (t\<lparr>t_prev := p\<rparr>) = body t" "body (t\<lparr>t_next := p\<rparr>) = body t"
  "t_prev (body t) = None" "t_next (body t) = None" "t_prio (body t) = t_prio t"
  "t_state (body t) = t_state t" "t_worker_context (body t) = t_worker_context t"
  by (simp_all add: body_def)

lemma same_body_refl [simp]: "same_body h h"
  by (simp add: same_body_def)

lemma same_body_trans [trans]: "same_body h h' \<Longrightarrow> same_body h' h'' \<Longrightarrow> same_body h h''"
  by (simp add: same_body_def)

lemma same_body_upd: "h a = Some c \<Longrightarrow> body c' = body c \<Longrightarrow> same_body h (h(a \<mapsto> c'))"
  by (simp add: same_body_def)

lemma same_body_upd_right: "same_body h h' \<Longrightarrow> h' a = Some c \<Longrightarrow> body c' = body c \<Longrightarrow> same_body h (h'(a \<mapsto> c'))"
  by (simp add: same_body_def)

lemma same_body_dom: "same_body h h' \<Longrightarrow> dom h' = dom h"
  unfolding same_body_def dom_def by (metis option.map_disc_iff)

lemma body_eq_fields:
  assumes "body c = body c'"
  shows "t_prio c = t_prio c'" "t_state c = t_state c'" "t_worker_context c = t_worker_context c'"
  using assms by (metis body_links)+

lemma same_body_Some:
  assumes "same_body h h'" and "h a = Some c"
  obtains c' where "h' a = Some c'" "body c' = body c"
  using assms unfolding same_body_def by (metis (no_types, lifting) map_option_eq_Some)

text \<open>A task that is in no queue: both links are \<open>NULL\<close>.\<close>

definition unlinked :: "tasks \<Rightarrow> addr \<Rightarrow> bool" where
  "unlinked h t \<longleftrightarrow> (\<exists>c. h t = Some c \<and> t_prev c = None \<and> t_next c = None)"

text \<open>A concrete task for the examples.\<close>

definition ex_task :: "int \<Rightarrow> lpel_task_t" where
  "ex_task p = \<lparr>t_prev = None, t_next = None, t_uid = 0, t_state = TASK_READY, t_worker_context = Some 1,
     t_prio = p, t_wakeup_sd = None, t_poll_token = 0, t_mon = None, t_size = 8192, t_func = None,
     t_inarg = None, t_outarg = None, t_usrdata = None, t_usrdt_destr = None\<rparr>"

lemma ex_task_links [simp]: "t_prev (ex_task p) = None" "t_next (ex_task p) = None" "t_prio (ex_task p) = p"
  "t_state (ex_task p) = TASK_READY"
  by (simp_all add: ex_task_def)

end
