(* ===== verification/Stream_Buffer.thy ===== *)
theory Stream_Buffer
  imports Lpel_Prelude
begin

text \<open>
  The interface between a stream and its buffer (\<open>LpelBufferTop\<close>, \<open>LpelBufferPop\<close>,
  \<open>LpelBufferIsSpace\<close>, \<open>LpelBufferPut\<close>, \<open>LpelBufferIsEmpty\<close>), which both schedulers
  implement under the same function names: a bounded ring buffer (\<open>decen_buffer.c\<close>) and an
  unbounded linked list (\<open>hrc_buffer.c\<close>). The locale states what a stream relies on, over the
  list of queued items; its lemmas hold for both implementations by interpretation. The
  parameter \<open>'e\<close> is what an insertion needs from outside (the address \<open>malloc\<close> returns for
  the linked list, nothing for the ring).
\<close>

section \<open>Runs of a producer and a consumer on one buffer\<close>

datatype 'e buf_op = BPut 'e addr | BGet

fun buf_run :: "('b \<Rightarrow> ptr res) \<Rightarrow> ('b \<Rightarrow> 'b res) \<Rightarrow> ('e \<Rightarrow> 'b \<Rightarrow> ptr \<Rightarrow> 'b res) \<Rightarrow>
    'e buf_op list \<Rightarrow> 'b \<Rightarrow> (addr list \<times> 'b) res" where
  "buf_run btop bpop bput [] b = Inr ([], b)"
| "buf_run btop bpop bput (BPut e x # ops) b =
     bindR (bput e b (Some x)) (\<lambda>b'. buf_run btop bpop bput ops b')"
| "buf_run btop bpop bput (BGet # ops) b =
     bindR (btop b) (\<lambda>p. case p of None \<Rightarrow> Inl WouldBlock
       | Some x \<Rightarrow> bindR (bpop b) (\<lambda>b'. bindR (buf_run btop bpop bput ops b')
           (\<lambda>(outs, b''). Inr (x # outs, b''))))"

fun put_items :: "'e buf_op list \<Rightarrow> addr list" where
  "put_items [] = []"
| "put_items (BPut e x # ops) = x # put_items ops"
| "put_items (BGet # ops) = put_items ops"

section \<open>The contract\<close>

locale stream_buffer =
  fixes btop :: "'b \<Rightarrow> ptr res"
    and bpop :: "'b \<Rightarrow> 'b res"
    and is_space :: "'b \<Rightarrow> bool res"
    and bput :: "'e \<Rightarrow> 'b \<Rightarrow> ptr \<Rightarrow> 'b res"
    and is_empty :: "'b \<Rightarrow> bool res"
    and binv :: "'b \<Rightarrow> bool"
    and items :: "'b \<Rightarrow> addr list"
    and can_put :: "'e \<Rightarrow> 'b \<Rightarrow> bool"
  assumes top_spec: "binv b \<Longrightarrow> btop b = Inr (case items b of [] \<Rightarrow> None | x # _ \<Rightarrow> Some x)"
    and pop_spec: "binv b \<Longrightarrow> items b = x # xs \<Longrightarrow>
      \<exists>b'. bpop b = Inr b' \<and> binv b' \<and> items b' = xs"
    and put_spec: "binv b \<Longrightarrow> can_put e b \<Longrightarrow>
      \<exists>b'. bput e b (Some x) = Inr b' \<and> binv b' \<and> items b' = items b @ [x]"
    and put_null: "binv b \<Longrightarrow> bput e b None = Inl AssertFail"
    and put_only: "binv b \<Longrightarrow> bput e b (Some x) = Inr b' \<Longrightarrow> can_put e b"
    and space_spec: "binv b \<Longrightarrow> can_put e b \<Longrightarrow> is_space b = Inr True"
    and empty_spec: "binv b \<Longrightarrow> is_empty b = Inr (items b = [])"
begin

lemma pop_items: "binv b \<Longrightarrow> items b = x # xs \<Longrightarrow> bpop b = Inr b' \<Longrightarrow> binv b' \<and> items b' = xs"
  using pop_spec by fastforce

lemma put_items_snoc:
  "binv b \<Longrightarrow> bput e b (Some x) = Inr b' \<Longrightarrow> binv b' \<and> items b' = items b @ [x]"
  using put_only put_spec by fastforce

lemma top_Some: "binv b \<Longrightarrow> btop b = Inr (Some x) \<longleftrightarrow> (\<exists>xs. items b = x # xs)"
  by (auto simp: top_spec split: list.splits)

lemma top_None: "binv b \<Longrightarrow> btop b = Inr None \<longleftrightarrow> items b = []"
  by (auto simp: top_spec split: list.splits)

text \<open>Whatever way insertions and removals interleave, items leave in insertion order.\<close>

lemma run_fifo:
  "binv b \<Longrightarrow> buf_run btop bpop bput ops b = Inr (outs, b') \<Longrightarrow>
     binv b' \<and> outs @ items b' = items b @ put_items ops"
proof (induction ops arbitrary: b outs)
  case Nil
  then show ?case by simp
next
  case (Cons op ops)
  show ?case
  proof (cases op)
    case (BPut e x)
    with Cons.prems obtain b1 where b1: "bput e b (Some x) = Inr b1"
      and run: "buf_run btop bpop bput ops b1 = Inr (outs, b')"
      by (auto simp: bindR_eq_Inr)
    from b1 Cons.prems(1) have "binv b1" "items b1 = items b @ [x]"
      by (simp_all add: put_items_snoc)
    with Cons.IH [OF _ run] BPut show ?thesis by simp
  next
    case BGet
    with Cons.prems obtain x b1 outs' where x: "btop b = Inr (Some x)" and b1: "bpop b = Inr b1"
      and run: "buf_run btop bpop bput ops b1 = Inr (outs', b')" and outs: "outs = x # outs'"
      by (auto simp: bindR_eq_Inr split: option.splits)
    from x Cons.prems(1) obtain xs where "items b = x # xs" by (auto simp: top_Some)
    with b1 Cons.prems(1) Cons.IH [OF _ run] BGet outs show ?thesis
      by (auto dest: pop_items)
  qed
qed

text \<open>A removal only fails on an empty buffer, so a run never aborts for another reason.\<close>

lemma get_total: "binv b \<Longrightarrow> items b \<noteq> [] \<Longrightarrow>
    \<exists>x b'. btop b = Inr (Some x) \<and> bpop b = Inr b' \<and> items b = x # items b' \<and> binv b'"
  by (cases "items b") (use pop_spec top_spec in fastforce)+

end

end
