(* ===== verification/Decen_Buffer.thy ===== *)
theory Decen_Buffer
  imports Stream_Buffer
begin

text \<open>
  \<open>src/sched/decentralised/decen_buffer.c\<close>: the single-writer single-reader circular buffer.
  Indices are 64-bit words (\<open>unsigned long\<close>), so that the index step
  \<open>pread += (pread+1 >= size) ? (1-size) : 1\<close> wraps exactly as in C. \<open>NULL\<close> cells mark free
  slots. The abstraction \<open>rb_items\<close> reads the occupied slots from \<open>pread\<close> on.
\<close>

section \<open>Model\<close>

record buffer_t =
  pread :: "64 word"
  pwrite :: "64 word"
  bsize :: "64 word"
  bdata :: "ptr list"

definition LpelBufferInit_decen :: "32 word \<Rightarrow> buffer_t" where
  "LpelBufferInit_decen sz =
     \<lparr>pread = 0, pwrite = 0, bsize = ucast sz, bdata = replicate (unat sz) None\<rparr>"

definition LpelBufferTop_decen :: "buffer_t \<Rightarrow> ptr res" where
  "LpelBufferTop_decen buf = aget (bdata buf) (unat (pread buf))"

definition LpelBufferPop_decen :: "buffer_t \<Rightarrow> buffer_t res" where
  "LpelBufferPop_decen buf =
     bindR (aset (bdata buf) (unat (pread buf)) None) (\<lambda>d.
       Inr (buf\<lparr>bdata := d,
         pread := pread buf + (if pread buf + 1 \<ge> bsize buf then 1 - bsize buf else 1)\<rparr>))"

definition LpelBufferIsSpace_decen :: "buffer_t \<Rightarrow> bool res" where
  "LpelBufferIsSpace_decen buf =
     bindR (aget (bdata buf) (unat (pwrite buf))) (\<lambda>p. Inr (p = None))"

definition LpelBufferPut_decen :: "buffer_t \<Rightarrow> ptr \<Rightarrow> buffer_t res" where
  "LpelBufferPut_decen buf item =
     bindR (assertR (item \<noteq> None)) (\<lambda>_.
     bindR (LpelBufferIsSpace_decen buf) (\<lambda>sp.
     bindR (assertR sp) (\<lambda>_.
     bindR (aset (bdata buf) (unat (pwrite buf)) item) (\<lambda>d.
       Inr (buf\<lparr>bdata := d,
         pwrite := pwrite buf + (if pwrite buf + 1 \<ge> bsize buf then 1 - bsize buf else 1)\<rparr>)))))"

definition LpelBufferIsEmpty_decen :: "buffer_t \<Rightarrow> bool res" where
  "LpelBufferIsEmpty_decen buf =
     bindR (aget (bdata buf) (unat (pread buf))) (\<lambda>p. Inr (p = None))"

section \<open>Abstraction and invariant\<close>

definition rb_items :: "buffer_t \<Rightarrow> addr list" where
  "rb_items buf = map the (takeWhile (\<lambda>p. p \<noteq> None) (rotate (unat (pread buf)) (bdata buf)))"

definition rb_cap :: "buffer_t \<Rightarrow> nat" where
  "rb_cap buf = length (bdata buf)"

definition rb_inv :: "buffer_t \<Rightarrow> bool" where
  "rb_inv buf \<longleftrightarrow>
     0 < rb_cap buf \<and> unat (bsize buf) = rb_cap buf \<and> unat (pread buf) < rb_cap buf \<and>
     length (rb_items buf) \<le> rb_cap buf \<and>
     unat (pwrite buf) = (unat (pread buf) + length (rb_items buf)) mod rb_cap buf \<and>
     rotate (unat (pread buf)) (bdata buf) =
       map Some (rb_items buf) @ replicate (rb_cap buf - length (rb_items buf)) None"

section \<open>Index arithmetic\<close>

text \<open>The wrapping step of the code is the successor modulo the buffer size.\<close>

lemma unat_succ: "unat i < unat n \<Longrightarrow> unat (i + 1) = Suc (unat i)" for i n :: "64 word"
  using unsigned_less [of n, where 'a = nat] by (simp add: unat_word_ariths)

lemma index_step:
  fixes i n :: "64 word"
  assumes "unat i < unat n"
  shows "unat (i + (if i + 1 \<ge> n then 1 - n else 1)) = Suc (unat i) mod unat n"
proof (cases "i + 1 \<ge> n")
  case True
  with assms have eq: "unat (i + 1) = unat n"
    by (simp add: word_le_nat_alt unat_succ)
  then have n: "n = i + 1" by (simp add: word_unat_eq_iff)
  have "i + (1 - n) = 0" unfolding n by simp
  moreover have "Suc (unat i) = unat n" using eq assms by (simp add: unat_succ)
  ultimately show ?thesis using True by simp
next
  case False
  then have "unat (i + 1) < unat n"
    by (simp add: word_less_nat_alt not_le)
  with False show ?thesis by (simp add: unat_succ [OF assms])
qed

section \<open>Operations on the abstraction\<close>

lemma takeWhile_occupied:
  "takeWhile (\<lambda>p. p \<noteq> None) (map Some xs @ replicate k None) = map Some xs"
  by (induction xs) (cases k, auto)

lemma rb_repI:
  assumes "rotate (unat (pread b)) (bdata b) = map Some xs @ replicate (rb_cap b - length xs) None"
    and "0 < rb_cap b" "unat (bsize b) = rb_cap b" "unat (pread b) < rb_cap b"
    and "length xs \<le> rb_cap b" "unat (pwrite b) = (unat (pread b) + length xs) mod rb_cap b"
  shows "rb_inv b \<and> rb_items b = xs"
proof -
  have "rb_items b = xs"
    unfolding rb_items_def assms(1) takeWhile_occupied by (simp add: comp_def)
  with assms show ?thesis by (simp add: rb_inv_def)
qed

lemmas rb_invD = rb_inv_def [THEN iffD1]

lemma rb_cell:
  assumes "rb_inv b" and "k < rb_cap b"
  shows "bdata b ! ((unat (pread b) + k) mod rb_cap b) =
           (if k < length (rb_items b) then Some (rb_items b ! k) else None)"
proof -
  have "bdata b ! ((unat (pread b) + k) mod rb_cap b) = rotate (unat (pread b)) (bdata b) ! k"
    using assms(2) by (simp add: nth_rotate rb_cap_def)
  also have "\<dots> = (map Some (rb_items b) @ replicate (rb_cap b - length (rb_items b)) None) ! k"
    using assms(1) by (simp add: rb_inv_def)
  finally show ?thesis using assms by (auto simp: nth_append rb_inv_def)
qed

lemma rb_cell_top:
  assumes "rb_inv b"
  shows "bdata b ! unat (pread b) = (case rb_items b of [] \<Rightarrow> None | x # _ \<Rightarrow> Some x)"
  using rb_cell [OF assms, of 0] assms
  by (auto simp: rb_inv_def neq_Nil_conv split: list.splits)

lemma rb_Init:
  assumes "sz \<noteq> 0"
  shows "rb_inv (LpelBufferInit_decen sz) \<and> rb_items (LpelBufferInit_decen sz) = []
    \<and> rb_cap (LpelBufferInit_decen sz) = unat sz"
proof -
  have "unat (ucast sz :: 64 word) = unat sz"
    using unsigned_less [of sz, where 'a = nat]
    by (simp add: unsigned_ucast_eq take_bit_nat_eq_self)
  moreover have "0 < unat sz" using assms by (simp add: unat_gt_0)
  ultimately show ?thesis
    using rb_repI [of "LpelBufferInit_decen sz" "[]"]
    by (simp add: LpelBufferInit_decen_def rb_cap_def)
qed

lemma rb_Top:
  assumes "rb_inv b"
  shows "LpelBufferTop_decen b = Inr (case rb_items b of [] \<Rightarrow> None | x # _ \<Rightarrow> Some x)"
  using assms rb_cell_top [OF assms]
  by (simp add: LpelBufferTop_decen_def rb_inv_def rb_cap_def)

lemma rb_IsEmpty:
  assumes "rb_inv b"
  shows "LpelBufferIsEmpty_decen b = Inr (rb_items b = [])"
  using assms rb_cell_top [OF assms]
  by (simp add: LpelBufferIsEmpty_decen_def rb_inv_def rb_cap_def split: list.splits)

lemma rb_IsSpace:
  assumes "rb_inv b"
  shows "LpelBufferIsSpace_decen b = Inr (length (rb_items b) < rb_cap b)"
proof (cases "length (rb_items b) < rb_cap b")
  case True
  then have "bdata b ! unat (pwrite b) = None"
    using rb_cell [OF assms, of "length (rb_items b)"] assms by (simp add: rb_inv_def)
  moreover have "unat (pwrite b) < length (bdata b)"
    using assms by (simp add: rb_inv_def rb_cap_def)
  ultimately show ?thesis using True by (simp add: LpelBufferIsSpace_decen_def)
next
  case False
  then have len: "length (rb_items b) = rb_cap b" using assms by (simp add: rb_inv_def)
  then have "bdata b ! unat (pwrite b) \<noteq> None"
    using rb_cell [OF assms, of 0] assms by (simp add: rb_inv_def)
  moreover have "unat (pwrite b) < length (bdata b)"
    using assms by (simp add: rb_inv_def rb_cap_def)
  ultimately show ?thesis using False by (simp add: LpelBufferIsSpace_decen_def)
qed

lemma rb_Pop:
  assumes inv: "rb_inv b" and items: "rb_items b = x # xs"
  shows "\<exists>b'. LpelBufferPop_decen b = Inr b' \<and> rb_inv b' \<and> rb_items b' = xs \<and>
    rb_cap b' = rb_cap b \<and> pwrite b' = pwrite b \<and> bsize b' = bsize b"
proof -
  let ?p = "unat (pread b)" and ?n = "rb_cap b"
  let ?b = "b\<lparr>bdata := (bdata b)[?p := None],
    pread := pread b + (if pread b + 1 \<ge> bsize b then 1 - bsize b else 1)\<rparr>"
  note I = rb_invD [OF inv]
  have pr: "unat (pread ?b) = Suc ?p mod ?n"
    using index_step [of "pread b" "bsize b"] I by simp
  have upd: "rotate ?p ((bdata b)[?p := None]) = (rotate ?p (bdata b))[0 := None]"
    using rotate_update [of 0 "bdata b" ?p None] I by (simp add: rb_cap_def)
  have "rotate (Suc ?p mod ?n) ((bdata b)[?p := None]) = rotate1 (rotate ?p ((bdata b)[?p := None]))"
    by (metis length_list_update rb_cap_def rotate_Suc rotate_conv_mod)
  also have "\<dots> = map Some xs @ replicate (?n - length xs) None"
    using I items Suc_diff_Suc [of "length xs" ?n]
    by (simp add: upd replicate_append_same flip: replicate_Suc)
  finally have "rb_inv ?b \<and> rb_items ?b = xs"
    using rb_repI [of ?b xs] pr I items by (simp add: rb_cap_def mod_add_left_eq)
  then show ?thesis
    using I by (simp add: LpelBufferPop_decen_def rb_cap_def)
qed

lemma rb_Put:
  assumes inv: "rb_inv b" and space: "length (rb_items b) < rb_cap b"
  shows "\<exists>b'. LpelBufferPut_decen b (Some x) = Inr b' \<and> rb_inv b' \<and>
    rb_items b' = rb_items b @ [x] \<and> rb_cap b' = rb_cap b \<and> pread b' = pread b \<and> bsize b' = bsize b"
proof -
  let ?p = "unat (pread b)" and ?w = "unat (pwrite b)" and ?n = "rb_cap b"
  let ?b = "b\<lparr>bdata := (bdata b)[?w := Some x],
    pwrite := pwrite b + (if pwrite b + 1 \<ge> bsize b then 1 - bsize b else 1)\<rparr>"
  note I = rb_invD [OF inv]
  have w: "?w < ?n" using I by simp
  have pw: "unat (pwrite ?b) = Suc ?w mod ?n"
    using index_step [of "pwrite b" "bsize b"] I w by simp
  have "rotate ?p ((bdata b)[?w := Some x]) = (rotate ?p (bdata b))[length (rb_items b) := Some x]"
    using rotate_update [of "length (rb_items b)" "bdata b" ?p "Some x"] I space
    by (simp add: rb_cap_def)
  also have "\<dots> = map Some (rb_items b @ [x]) @ replicate (?n - length (rb_items b @ [x])) None"
  proof -
    obtain k where k: "?n - length (rb_items b) = Suc k"
      using space by (metis Suc_diff_Suc)
    then have "?n - Suc (length (rb_items b)) = k" by simp
    then show ?thesis using I k by (simp add: list_update_append)
  qed
  finally have "rb_inv ?b \<and> rb_items ?b = rb_items b @ [x]"
    using rb_repI [of ?b "rb_items b @ [x]"] pw I space by (simp add: rb_cap_def mod_Suc_eq)
  then show ?thesis
    using I w space by (simp add: LpelBufferPut_decen_def rb_IsSpace [OF inv] rb_cap_def)
qed

lemma rb_Put_full:
  assumes "rb_inv b" and "\<not> length (rb_items b) < rb_cap b"
  shows "LpelBufferPut_decen b p = Inl AssertFail"
  using assms by (cases p) (simp_all add: LpelBufferPut_decen_def rb_IsSpace)


section \<open>The ring buffer implements the stream buffer interface\<close>

interpretation ring: stream_buffer LpelBufferTop_decen LpelBufferPop_decen LpelBufferIsSpace_decen
  "\<lambda>_::unit. LpelBufferPut_decen" LpelBufferIsEmpty_decen rb_inv rb_items
  "\<lambda>_ b. length (rb_items b) < rb_cap b"
proof unfold_locales
  show "\<And>b x xs. rb_inv b \<Longrightarrow> rb_items b = x # xs \<Longrightarrow>
      \<exists>b'. LpelBufferPop_decen b = Inr b' \<and> rb_inv b' \<and> rb_items b' = xs"
    using rb_Pop by blast
  show "\<And>b (e::unit) x. rb_inv b \<Longrightarrow> length (rb_items b) < rb_cap b \<Longrightarrow>
      \<exists>b'. LpelBufferPut_decen b (Some x) = Inr b' \<and> rb_inv b' \<and> rb_items b' = rb_items b @ [x]"
    using rb_Put by blast
  show "\<And>b (e::unit). rb_inv b \<Longrightarrow> LpelBufferPut_decen b None = Inl AssertFail"
    by (simp add: LpelBufferPut_decen_def)
  show "\<And>b (e::unit) x b'. rb_inv b \<Longrightarrow> LpelBufferPut_decen b (Some x) = Inr b' \<Longrightarrow>
      length (rb_items b) < rb_cap b"
    using rb_Put_full by fastforce
qed (simp_all add: rb_Top rb_IsSpace rb_IsEmpty)

abbreviation ring_run :: "unit buf_op list \<Rightarrow> buffer_t \<Rightarrow> (addr list \<times> buffer_t) res" where
  "ring_run \<equiv> buf_run LpelBufferTop_decen LpelBufferPop_decen (\<lambda>_. LpelBufferPut_decen)"

text \<open>Which schedules of insertions and removals fit a buffer of \<open>n\<close> slots holding \<open>k\<close> items.\<close>

fun fits :: "nat \<Rightarrow> nat \<Rightarrow> unit buf_op list \<Rightarrow> bool" where
  "fits n k [] = True"
| "fits n k (BPut e x # ops) = (k < n \<and> fits n (Suc k) ops)"
| "fits n k (BGet # ops) = (0 < k \<and> fits n (k - 1) ops)"

lemma ring_run_total:
  "rb_inv b \<Longrightarrow> (case ring_run ops b of
      Inl e \<Rightarrow> \<not> fits (rb_cap b) (length (rb_items b)) ops
    | Inr (outs, b') \<Rightarrow> fits (rb_cap b) (length (rb_items b)) ops \<and> rb_cap b' = rb_cap b)"
proof (induction ops arbitrary: b)
  case Nil
  then show ?case by simp
next
  case (Cons op ops)
  show ?case
  proof (cases op)
    case (BPut e x)
    show ?thesis
    proof (cases "length (rb_items b) < rb_cap b")
      case True
      then obtain b1 where "LpelBufferPut_decen b (Some x) = Inr b1" "rb_inv b1"
        "rb_items b1 = rb_items b @ [x]" "rb_cap b1 = rb_cap b"
        using rb_Put [OF Cons.prems] by blast
      with BPut True Cons.IH [of b1] show ?thesis by (auto split: sum.splits)
    next
      case False
      then show ?thesis using rb_Put_full [OF Cons.prems] BPut by simp
    qed
  next
    case BGet
    show ?thesis
    proof (cases "rb_items b")
      case Nil
      then show ?thesis using BGet Cons.prems by (simp add: rb_Top)
    next
      case (Cons x xs)
      then obtain b1 where "LpelBufferPop_decen b = Inr b1" "rb_inv b1" "rb_items b1 = xs"
        "rb_cap b1 = rb_cap b"
        using rb_Pop [OF Cons.prems] by blast
      with BGet Cons Cons.IH [of b1] Cons.prems show ?thesis
        by (auto simp: rb_Top bindR_def split: sum.splits)
    qed
  qed
qed

text \<open>
  C17: Ring buffer, functional correctness of every producer/consumer schedule. A run of
  \<open>LpelBufferPut\<close> and \<open>LpelBufferTop\<close>/\<open>LpelBufferPop\<close> calls on a buffer fresh from
  \<open>LpelBufferInit\<close> with a non-zero size succeeds exactly when it never puts into a full or
  takes from an empty buffer, and then the items come out in insertion order, nothing is lost
  or duplicated and at most \<open>size\<close> items are held.
\<close>

theorem ring_buffer_fifo:
  assumes "sz \<noteq> 0"
  shows "case ring_run ops (LpelBufferInit_decen sz) of
      Inl e \<Rightarrow> \<not> fits (unat sz) 0 ops
    | Inr (outs, b) \<Rightarrow> fits (unat sz) 0 ops \<and> outs @ rb_items b = put_items ops \<and>
        length (rb_items b) \<le> unat sz"
proof -
  let ?b = "LpelBufferInit_decen sz"
  have I: "rb_inv ?b" "rb_items ?b = []" "rb_cap ?b = unat sz"
    using rb_Init [OF assms] by simp_all
  show ?thesis
  proof (cases "ring_run ops ?b")
    case (Inl e)
    then show ?thesis using ring_run_total [OF I(1), of ops] I by simp
  next
    case (Inr r)
    then obtain outs b where r: "ring_run ops ?b = Inr (outs, b)" by (cases r) simp
    then show ?thesis
      using ring_run_total [OF I(1), of ops] ring.run_fifo [OF I(1) r] I
      by (simp add: rb_inv_def)
  qed
qed

theorem ring_buffer_fifo_witness:
  "(3 :: 32 word) \<noteq> 0 \<and>
   (case ring_run [BPut () 7, BPut () 8, BGet, BPut () 9, BPut () 5, BGet] (LpelBufferInit_decen 3) of
      Inl e \<Rightarrow> False
    | Inr (outs, b) \<Rightarrow> outs = [7, 8] \<and> rb_items b = [9, 5])"
proof -
  let ?ops = "[BPut () 7, BPut () 8, BGet, BPut () 9, BPut () 5, BGet]"
  have "fits (unat (3 :: 32 word)) 0 ?ops" by simp
  moreover have "case ring_run ?ops (LpelBufferInit_decen 3) of
      Inl e \<Rightarrow> False | Inr (outs, b) \<Rightarrow> outs = [7, 8]"
    by code_simp
  ultimately show ?thesis
    using ring_buffer_fifo [of 3 ?ops] by (auto split: sum.splits)
qed

text \<open>
  The producer's and the consumer's step commute: on a buffer that is neither empty nor
  full, inserting and then removing gives exactly the same state (every index and every cell)
  as removing and then inserting, so the unlocked \<open>LpelBufferPop\<close> of a reader may overlap the
  writer's \<open>LpelBufferPut\<close> in either order.
\<close>

theorem ring_put_pop_commute:
  assumes "rb_inv b" and "rb_items b \<noteq> []" and "length (rb_items b) < rb_cap b"
  shows "bindR (LpelBufferPut_decen b (Some x)) LpelBufferPop_decen
       = bindR (LpelBufferPop_decen b) (\<lambda>b'. LpelBufferPut_decen b' (Some x))"
proof -
  let ?p = "unat (pread b)" and ?w = "unat (pwrite b)"
  note I = rb_invD [OF assms(1)]
  have len: "0 < length (rb_items b)" using assms(2) by simp
  have w: "?w < length (bdata b)" and p: "?p < length (bdata b)"
    using I by (simp_all add: rb_cap_def)
  have neq: "?w \<noteq> ?p"
    using I len assms(3) mod_add_inj [of "length (rb_items b)" "rb_cap b" 0 ?p] by simp
  have "bdata b ! ?w = None"
    using rb_cell [OF assms(1), of "length (rb_items b)"] I assms(3) by simp
  with w p neq show ?thesis
    by (simp add: LpelBufferPut_decen_def LpelBufferPop_decen_def LpelBufferIsSpace_decen_def
        list_update_swap)
qed

theorem ring_put_pop_commute_witness:
  "\<exists>b. rb_inv b \<and> rb_items b = [7] \<and>
     bindR (LpelBufferPut_decen b (Some 9)) LpelBufferPop_decen
       = bindR (LpelBufferPop_decen b) (\<lambda>b'. LpelBufferPut_decen b' (Some 9))"
proof -
  have I: "rb_inv (LpelBufferInit_decen 2)" "rb_items (LpelBufferInit_decen 2) = []"
    "rb_cap (LpelBufferInit_decen 2) = 2"
    using rb_Init [of 2] by simp_all
  then obtain b where b: "rb_inv b" "rb_items b = [7]" "rb_cap b = 2"
    using rb_Put [OF I(1), of 7] by auto
  then have "bindR (LpelBufferPut_decen b (Some 9)) LpelBufferPop_decen
       = bindR (LpelBufferPop_decen b) (\<lambda>b'. LpelBufferPut_decen b' (Some 9))"
    by (intro ring_put_pop_commute) simp_all
  with b show ?thesis by blast
qed

end
