(* ===== verification/Stream_Protocol.thy ===== *)
theory Stream_Protocol
  imports Lpel_Prelude
begin

text \<open>
  The protocol by which the tasks of a stream network block and wake each other, as both stream
  modules (\<open>decen_stream.c\<close>, \<open>hrc_stream.c\<close>) implement it: a consumer task with several streams,
  each written by a producer task of its own. A state holds per stream the queued items, the two
  counters \<open>n_sem\<close> (items) and \<open>e_sem\<close> (free places), the poll flag and where the producer
  stands, and for the consumer its place in \<open>LpelStreamRead\<close> or \<open>LpelStreamPoll\<close>, the poll token
  and the pending wakeups. An event is one atomic section of the code: an atomic counter
  operation, a section under \<open>prod_lock\<close>, a look at or removal of the first item. The scheduler is
  seen as a counter of wakeups per task: a blocked task goes on when one is pending. The invariant
  proved here is carried over to the code of both modules by simulation.
\<close>

section \<open>States and events\<close>

datatype wpc = WIdle | WBlocked addr | WPut addr | WSignal bool

datatype cpc = CIdle | RBlocked nat | RPop nat | RSignal nat
  | PFast nat | PReg nat | PBlocked nat | PUnreg nat int | PFinish

record astream =
  a_items :: "addr list"
  a_cap :: "nat option"
  a_n :: int
  a_e :: int
  a_poll :: bool
  a_wpc :: wpc
  a_wake :: nat
  a_sent :: "addr list"
  a_got :: "addr list"

record asys =
  a_str :: "nat \<Rightarrow> astream"
  a_ns :: nat
  a_cpc :: cpc
  a_token :: bool
  a_cwake :: nat
  a_wsd :: "nat option"
  a_set :: "nat list"
  a_ret :: "nat option"

datatype event = EvWrite nat addr | EvWResume nat | EvPut nat ptr | EvSignal nat
  | EvRead nat | EvRResume | EvPop | EvRSignal
  | EvPoll | EvFast | EvReg | EvPResume | EvUnreg | EvFinish

definition ups :: "nat \<Rightarrow> (astream \<Rightarrow> astream) \<Rightarrow> asys \<Rightarrow> asys" where
  "ups i f a = a\<lparr>a_str := (a_str a)(i := f (a_str a i))\<rparr>"

abbreviation setc :: "cpc \<Rightarrow> asys \<Rightarrow> asys" where
  "setc c a \<equiv> a\<lparr>a_cpc := c\<rparr>"

text \<open>The order of the poll set after it was turned so that \<open>i\<close> comes last.\<close>

definition turn :: "nat \<Rightarrow> nat list \<Rightarrow> nat list" where
  "turn i xs = tl (dropWhile (\<lambda>x. x \<noteq> i) xs) @ takeWhile (\<lambda>x. x \<noteq> i) xs @ [i]"

section \<open>The atomic sections\<close>

definition a_write :: "nat \<Rightarrow> addr \<Rightarrow> asys \<Rightarrow> asys option" where
  "a_write i x a =
     (if i < a_ns a \<and> a_wpc (a_str a i) = WIdle then
        if a_cap (a_str a i) = None then Some (ups i (\<lambda>s. s\<lparr>a_wpc := WPut x\<rparr>) a)
        else Some (ups i (\<lambda>s. s\<lparr>a_e := a_e s - 1, a_wpc := (if a_e s = 0 then WBlocked x else WPut x)\<rparr>) a)
      else None)"

definition a_wresume :: "nat \<Rightarrow> asys \<Rightarrow> asys option" where
  "a_wresume i a =
     (if i < a_ns a \<and> 0 < a_wake (a_str a i) then
        (case a_wpc (a_str a i) of WBlocked x \<Rightarrow> Some (ups i (\<lambda>s. s\<lparr>a_wake := a_wake s - 1, a_wpc := WPut x\<rparr>) a)
         | _ \<Rightarrow> None)
      else None)"

definition a_put :: "nat \<Rightarrow> asys \<Rightarrow> asys option" where
  "a_put i a =
     (if i < a_ns a then
        (case a_wpc (a_str a i) of WPut x \<Rightarrow>
           Some ((ups i (\<lambda>s. s\<lparr>a_items := a_items s @ [x], a_sent := a_sent s @ [x], a_poll := False,
                    a_wpc := WSignal (a_poll s \<and> a_token a)\<rparr>) a)
                 \<lparr>a_token := a_token a \<and> \<not> a_poll (a_str a i)\<rparr>)
         | _ \<Rightarrow> None)
      else None)"

definition a_signal :: "nat \<Rightarrow> asys \<Rightarrow> asys option" where
  "a_signal i a =
     (if i < a_ns a then
        (case a_wpc (a_str a i) of WSignal pw \<Rightarrow>
           (let a1 = ups i (\<lambda>s. s\<lparr>a_n := a_n s + 1, a_wpc := WIdle\<rparr>) a in
            if a_n (a_str a i) < 0 then Some (a1\<lparr>a_cwake := a_cwake a + 1\<rparr>)
            else if pw then Some (a1\<lparr>a_cwake := a_cwake a + 1, a_wsd := Some i\<rparr>)
            else Some a1)
         | _ \<Rightarrow> None)
      else None)"

definition a_read :: "nat \<Rightarrow> asys \<Rightarrow> asys option" where
  "a_read i a =
     (if i < a_ns a \<and> a_cpc a = CIdle then
        Some (setc (if a_n (a_str a i) = 0 then RBlocked i else RPop i) (ups i (\<lambda>s. s\<lparr>a_n := a_n s - 1\<rparr>) a))
      else None)"

definition a_rresume :: "asys \<Rightarrow> asys option" where
  "a_rresume a = (case a_cpc a of RBlocked i \<Rightarrow>
      if 0 < a_cwake a then Some (a\<lparr>a_cwake := a_cwake a - 1, a_cpc := RPop i\<rparr>) else None
    | _ \<Rightarrow> None)"

definition a_pop :: "asys \<Rightarrow> asys option" where
  "a_pop a = (case a_cpc a of RPop i \<Rightarrow>
      (case a_items (a_str a i) of [] \<Rightarrow> None
       | x # xs \<Rightarrow> Some (setc (RSignal i)
           (ups i (\<lambda>s. s\<lparr>a_items := xs, a_got := a_got s @ [x]\<rparr>) a)))
    | _ \<Rightarrow> None)"

definition a_rsignal :: "asys \<Rightarrow> asys option" where
  "a_rsignal a = (case a_cpc a of RSignal i \<Rightarrow>
      if a_cap (a_str a i) = None then Some (setc CIdle a)
      else Some (setc CIdle (ups i (\<lambda>s. s\<lparr>a_e := a_e s + 1, a_wake := (if a_e s < 0 then a_wake s + 1 else a_wake s)\<rparr>) a))
    | _ \<Rightarrow> None)"

definition a_begin_poll :: "asys \<Rightarrow> asys option" where
  "a_begin_poll a = (if a_cpc a = CIdle \<and> a_set a \<noteq> [] then Some (setc (PFast 0) a) else None)"

definition a_fast :: "asys \<Rightarrow> asys option" where
  "a_fast a = (case a_cpc a of PFast k \<Rightarrow>
      if k < length (a_set a) then
        let i = a_set a ! k in
        if a_items (a_str a i) \<noteq> [] then Some (a\<lparr>a_cpc := CIdle, a_set := turn i (a_set a), a_ret := Some i\<rparr>)
        else Some (setc (PFast (k + 1)) a)
      else Some (a\<lparr>a_cpc := PReg 0, a_token := True\<rparr>)
    | _ \<Rightarrow> None)"

definition a_reg :: "asys \<Rightarrow> asys option" where
  "a_reg a = (case a_cpc a of PReg k \<Rightarrow>
      if k < length (a_set a) then
        let i = a_set a ! k in
        if a_items (a_str a i) \<noteq> [] then
          if a_token a then Some (a\<lparr>a_cpc := PUnreg 0 (int k), a_token := False, a_wsd := Some i\<rparr>)
          else Some (setc (PBlocked k) a)
        else Some (setc (PReg (k + 1)) (ups i (\<lambda>s. s\<lparr>a_poll := True\<rparr>) a))
      else Some (setc (PBlocked k) a)
    | _ \<Rightarrow> None)"

definition a_presume :: "asys \<Rightarrow> asys option" where
  "a_presume a = (case a_cpc a of PBlocked k \<Rightarrow>
      if 0 < a_cwake a \<and> \<not> a_token a then Some (a\<lparr>a_cwake := a_cwake a - 1, a_cpc := PUnreg 0 (int k)\<rparr>) else None
    | _ \<Rightarrow> None)"

definition a_unreg :: "asys \<Rightarrow> asys option" where
  "a_unreg a = (case a_cpc a of PUnreg k cnt \<Rightarrow>
      if k < length (a_set a) then
        Some (setc (if cnt - 1 = 0 then PFinish else PUnreg (k + 1) (cnt - 1))
          (ups (a_set a ! k) (\<lambda>s. s\<lparr>a_poll := False\<rparr>) a))
      else Some (setc PFinish a)
    | _ \<Rightarrow> None)"

definition a_finish :: "asys \<Rightarrow> asys option" where
  "a_finish a = (if a_cpc a = PFinish then
      (case a_wsd a of None \<Rightarrow> None
       | Some i \<Rightarrow> Some (a\<lparr>a_cpc := CIdle, a_set := turn i (a_set a), a_ret := Some i\<rparr>))
    else None)"

fun aexec :: "event \<Rightarrow> asys \<Rightarrow> asys option" where
  "aexec (EvWrite i x) a = a_write i x a"
| "aexec (EvWResume i) a = a_wresume i a"
| "aexec (EvPut i new) a = a_put i a"
| "aexec (EvSignal i) a = a_signal i a"
| "aexec (EvRead i) a = a_read i a"
| "aexec EvRResume a = a_rresume a"
| "aexec EvPop a = a_pop a"
| "aexec EvRSignal a = a_rsignal a"
| "aexec EvPoll a = a_begin_poll a"
| "aexec EvFast a = a_fast a"
| "aexec EvReg a = a_reg a"
| "aexec EvPResume a = a_presume a"
| "aexec EvUnreg a = a_unreg a"
| "aexec EvFinish a = a_finish a"

section \<open>Invariant\<close>

fun at_signal :: "wpc \<Rightarrow> int" where
  "at_signal (WSignal pw) = 1"
| "at_signal _ = 0"

fun in_write :: "wpc \<Rightarrow> int" where
  "in_write (WBlocked x) = 1"
| "in_write (WPut x) = 1"
| "in_write _ = 0"

fun blocked_w :: "wpc \<Rightarrow> bool" where
  "blocked_w (WBlocked x) = True"
| "blocked_w _ = False"

definition in_read :: "cpc \<Rightarrow> nat \<Rightarrow> int" where
  "in_read c i = (if c = RBlocked i \<or> c = RPop i then 1 else 0)"

definition at_rsignal :: "cpc \<Rightarrow> nat \<Rightarrow> int" where
  "at_rsignal c i = (if c = RSignal i then 1 else 0)"

definition e_inv :: "astream \<Rightarrow> cpc \<Rightarrow> nat \<Rightarrow> bool" where
  "e_inv s c i = (case a_cap s of
      None \<Rightarrow> \<not> blocked_w (a_wpc s) \<and> a_wake s = 0
    | Some n \<Rightarrow> 0 < n \<and> a_e s = int n - int (length (a_items s)) - in_write (a_wpc s) - at_rsignal c i \<and>
        - 1 \<le> a_e s \<and> (a_e s = - 1 \<longleftrightarrow> blocked_w (a_wpc s) \<and> a_wake s = 0) \<and>
        a_wake s \<le> 1 \<and> (0 < a_wake s \<longrightarrow> blocked_w (a_wpc s)))"

definition n_inv :: "astream \<Rightarrow> cpc \<Rightarrow> nat \<Rightarrow> nat \<Rightarrow> bool" where
  "n_inv s c cw i \<longleftrightarrow> a_n s = int (length (a_items s)) - at_signal (a_wpc s) - in_read c i \<and>
     - 1 \<le> a_n s \<and> (a_n s = - 1 \<longleftrightarrow> c = RBlocked i \<and> cw = 0)"

definition str_inv :: "astream \<Rightarrow> cpc \<Rightarrow> nat \<Rightarrow> nat \<Rightarrow> bool" where
  "str_inv s c cw i \<longleftrightarrow> a_sent s = a_got s @ a_items s \<and> n_inv s c cw i \<and> e_inv s c i \<and>
     (a_wpc s = WSignal True \<longrightarrow> a_items s \<noteq> [])"

text \<open>The streams a poll has marked, and those for which the mark may still stand.\<close>

fun registered :: "cpc \<Rightarrow> nat list \<Rightarrow> nat list" where
  "registered (PReg k) xs = take k xs"
| "registered (PBlocked k) xs = take k xs"
| "registered _ xs = []"

fun marked :: "cpc \<Rightarrow> nat list \<Rightarrow> nat list" where
  "marked (PReg k) xs = take k xs"
| "marked (PBlocked k) xs = take k xs"
| "marked (PUnreg k cnt) xs = drop k (take (nat (int k + cnt)) xs)"
| "marked _ xs = []"

fun polling :: "cpc \<Rightarrow> bool" where
  "polling (PReg k) = True"
| "polling (PBlocked k) = True"
| "polling _ = False"

fun ending :: "cpc \<Rightarrow> bool" where
  "ending (PUnreg k cnt) = True"
| "ending PFinish = True"
| "ending _ = False"

fun pc_ok :: "cpc \<Rightarrow> nat \<Rightarrow> nat list \<Rightarrow> bool" where
  "pc_ok (RBlocked i) n xs \<longleftrightarrow> i < n"
| "pc_ok (RPop i) n xs \<longleftrightarrow> i < n"
| "pc_ok (RSignal i) n xs \<longleftrightarrow> i < n"
| "pc_ok (PFast k) n xs \<longleftrightarrow> k \<le> length xs \<and> xs \<noteq> []"
| "pc_ok (PReg k) n xs \<longleftrightarrow> k \<le> length xs \<and> xs \<noteq> []"
| "pc_ok (PBlocked k) n xs \<longleftrightarrow> k \<le> length xs \<and> xs \<noteq> []"
| "pc_ok (PUnreg k cnt) n xs \<longleftrightarrow> k \<le> length xs \<and> - int k \<le> cnt \<and> (cnt = 0 \<longrightarrow> k = 0) \<and> int k + cnt \<le> int (length xs)"
| "pc_ok _ n xs \<longleftrightarrow> True"

definition holders :: "asys \<Rightarrow> nat set" where
  "holders a = {i. i < a_ns a \<and> a_wpc (a_str a i) = WSignal True}"

text \<open>While the consumer polls, exactly one of token, producer and consumer holds the wakeup.\<close>

definition tok_poll :: "bool \<Rightarrow> nat set \<Rightarrow> nat \<Rightarrow> bool" where
  "tok_poll t H cw \<longleftrightarrow> t \<and> H = {} \<and> cw = 0 \<or> \<not> t \<and> (\<exists>i. H = {i}) \<and> cw = 0 \<or> \<not> t \<and> H = {} \<and> cw = 1"

definition tok_idle :: "cpc \<Rightarrow> bool \<Rightarrow> nat set \<Rightarrow> nat \<Rightarrow> bool" where
  "tok_idle c t H cw \<longleftrightarrow> \<not> t \<and> H = {} \<and> cw \<le> 1 \<and> (0 < cw \<longrightarrow> (\<exists>i. c = RBlocked i))"

definition token_inv :: "asys \<Rightarrow> bool" where
  "token_inv a \<longleftrightarrow> (if polling (a_cpc a) then tok_poll (a_token a) (holders a) (a_cwake a)
     else tok_idle (a_cpc a) (a_token a) (holders a) (a_cwake a))"

definition ready_sd :: "asys \<Rightarrow> bool" where
  "ready_sd a \<longleftrightarrow> (\<exists>i \<in> set (a_set a). a_wsd a = Some i \<and> a_items (a_str a i) \<noteq> [])"

definition poll_inv :: "asys \<Rightarrow> bool" where
  "poll_inv a \<longleftrightarrow>
     (\<forall>i < a_ns a. a_poll (a_str a i) \<longrightarrow> i \<in> set (marked (a_cpc a) (a_set a))) \<and>
     (a_token a \<longrightarrow> (\<forall>i \<in> set (registered (a_cpc a) (a_set a)). a_poll (a_str a i) \<and> a_items (a_str a i) = [])) \<and>
     (\<forall>k. a_cpc a = PBlocked k \<longrightarrow> a_token a \<longrightarrow> k = length (a_set a)) \<and>
     (holders a \<subseteq> set (a_set a)) \<and>
     (polling (a_cpc a) \<and> 0 < a_cwake a \<or> ending (a_cpc a) \<longrightarrow> ready_sd a) \<and>
     (\<forall>i. a_ret a = Some i \<longrightarrow> i < a_ns a)"

definition ainv :: "asys \<Rightarrow> bool" where
  "ainv a \<longleftrightarrow> (\<forall>i < a_ns a. str_inv (a_str a i) (a_cpc a) (a_cwake a) i) \<and>
     distinct (a_set a) \<and> set (a_set a) \<subseteq> {..<a_ns a} \<and> pc_ok (a_cpc a) (a_ns a) (a_set a) \<and>
     token_inv a \<and> poll_inv a"

section \<open>The invariant is preserved\<close>

lemma ups_fields [simp]:
  "a_ns (ups i f a) = a_ns a" "a_cpc (ups i f a) = a_cpc a" "a_token (ups i f a) = a_token a"
  "a_cwake (ups i f a) = a_cwake a" "a_wsd (ups i f a) = a_wsd a" "a_set (ups i f a) = a_set a"
  "a_ret (ups i f a) = a_ret a" "a_str (ups i f a) j = (if j = i then f (a_str a i) else a_str a j)"
  by (simp_all add: ups_def)

lemma holders_cong:
  "a_ns a' = a_ns a \<Longrightarrow> (\<And>i. i < a_ns a \<Longrightarrow> a_wpc (a_str a' i) = a_wpc (a_str a i)) \<Longrightarrow> holders a' = holders a"
  by (auto simp: holders_def)

lemma holders_ups:
  "holders (ups i f a) = (if i < a_ns a \<and> a_wpc (f (a_str a i)) = WSignal True then insert i (holders a) else holders a - {i})"
  by (auto simp: holders_def)

lemma holders_fields [simp]:
  "holders (a\<lparr>a_cpc := c\<rparr>) = holders a" "holders (a\<lparr>a_token := t\<rparr>) = holders a"
  "holders (a\<lparr>a_cwake := n\<rparr>) = holders a" "holders (a\<lparr>a_wsd := w\<rparr>) = holders a"
  "holders (a\<lparr>a_set := xs\<rparr>) = holders a" "holders (a\<lparr>a_ret := r\<rparr>) = holders a"
  by (simp_all add: holders_def)

lemma ainvD:
  assumes "ainv a"
  shows "i < a_ns a \<Longrightarrow> str_inv (a_str a i) (a_cpc a) (a_cwake a) i" "distinct (a_set a)"
    "set (a_set a) \<subseteq> {..<a_ns a}" "pc_ok (a_cpc a) (a_ns a) (a_set a)" "token_inv a" "poll_inv a"
  using assms by (simp_all add: ainv_def)

lemmas str_defs = str_inv_def n_inv_def e_inv_def in_read_def at_rsignal_def

text \<open>Steps that leave the consumer's view of the streams as it was.\<close>

lemma frame:
  assumes inv: "ainv a" and eq: "a_ns a' = a_ns a" "a_cpc a' = a_cpc a" "a_token a' = a_token a" "a_cwake a' = a_cwake a"
    "a_wsd a' = a_wsd a" "a_set a' = a_set a" "a_ret a' = a_ret a" "holders a' = holders a"
    and it: "\<And>j. a_items (a_str a' j) = a_items (a_str a j)" "\<And>j. a_poll (a_str a' j) = a_poll (a_str a j)"
    and str: "\<And>j. j < a_ns a \<Longrightarrow> str_inv (a_str a' j) (a_cpc a) (a_cwake a) j"
  shows "ainv a'"
proof -
  have "token_inv a'" using ainvD(5) [OF inv] by (simp add: token_inv_def eq)
  moreover have "ready_sd a' = ready_sd a" by (simp add: ready_sd_def eq it)
  then have "poll_inv a'" using ainvD(6) [OF inv] by (simp add: poll_inv_def eq it)
  ultimately show ?thesis using inv str by (simp add: ainv_def eq)
qed

lemma str_ups:
  assumes "ainv a" and "str_inv (f (a_str a i)) (a_cpc a) (a_cwake a) i" and "j < a_ns a"
  shows "str_inv (a_str (ups i f a) j) (a_cpc a) (a_cwake a) j"
  using assms ainvD(1) by (cases "j = i") auto

lemma inv_write:
  assumes "ainv a" and "a_write i x a = Some a'"
  shows "ainv a'"
proof -
  have i: "i < a_ns a" "a_wpc (a_str a i) = WIdle" using assms(2) by (auto simp: a_write_def split: if_splits)
  obtain f where f: "a' = ups i f a" "f = (if a_cap (a_str a i) = None then \<lambda>s. s\<lparr>a_wpc := WPut x\<rparr> else
     (\<lambda>s. s\<lparr>a_e := a_e s - 1, a_wpc := (if a_e s = 0 then WBlocked x else WPut x)\<rparr>))"
    using assms(2) i by (auto simp: a_write_def split: if_splits)
  have "str_inv (f (a_str a i)) (a_cpc a) (a_cwake a) i"
    using ainvD(1) [OF assms(1) i(1)] i(2) unfolding f(2)
    by (cases "a_cap (a_str a i)") (auto simp: str_defs)
  then have "str_inv (a_str a' j) (a_cpc a) (a_cwake a) j" if "j < a_ns a" for j
    unfolding f(1) using that by (rule str_ups [OF assms(1)])
  moreover have "holders a' = holders a" using i unfolding f by (auto simp: holders_ups holders_def)
  ultimately show ?thesis using f(2) unfolding f(1) by (intro frame [OF assms(1)]) auto
qed

lemma inv_wresume:
  assumes "ainv a" and "a_wresume i a = Some a'"
  shows "ainv a'"
proof -
  define f where "f = (\<lambda>x (s :: astream). s\<lparr>a_wake := a_wake s - 1, a_wpc := WPut x\<rparr>)"
  obtain x where i: "i < a_ns a" "a_wpc (a_str a i) = WBlocked x" "0 < a_wake (a_str a i)" "a' = ups i (f x) a"
    using assms(2) by (auto simp: a_wresume_def f_def split: if_splits wpc.splits)
  have "str_inv (f x (a_str a i)) (a_cpc a) (a_cwake a) i"
    using ainvD(1) [OF assms(1) i(1)] i(2,3)
    by (cases "a_cap (a_str a i)") (auto simp: str_defs f_def)
  then have "str_inv (a_str a' j) (a_cpc a) (a_cwake a) j" if "j < a_ns a" for j
    unfolding i(4) using that by (rule str_ups [OF assms(1)])
  moreover have "holders a' = holders a" using i(2) unfolding i(4) by (auto simp: holders_ups holders_def f_def)
  ultimately show ?thesis unfolding i(4) by (intro frame [OF assms(1)]) (auto simp: f_def)
qed

lemma poll_mark: "ainv a \<Longrightarrow> i < a_ns a \<Longrightarrow> a_poll (a_str a i) \<Longrightarrow> i \<in> set (marked (a_cpc a) (a_set a))"
  using ainvD(6) by (auto simp: poll_inv_def)

lemma marked_set: "set (marked c xs) \<subseteq> set xs"
  by (cases c) (auto dest: in_set_takeD in_set_dropD)

lemma token_polling: "token_inv a \<Longrightarrow> a_token a \<Longrightarrow> polling (a_cpc a)"
  by (simp add: token_inv_def tok_idle_def split: if_splits)

lemma inv_put:
  assumes inv: "ainv a" and "a_put i a = Some a'"
  shows "ainv a'"
proof -
  define f where "f = (\<lambda>x (s :: astream). s\<lparr>a_items := a_items s @ [x], a_sent := a_sent s @ [x], a_poll := False,
                    a_wpc := WSignal (a_poll s \<and> a_token a)\<rparr>)"
  obtain x where i: "i < a_ns a" "a_wpc (a_str a i) = WPut x"
    "a' = (ups i (f x) a)\<lparr>a_token := a_token a \<and> \<not> a_poll (a_str a i)\<rparr>"
    using assms(2) by (auto simp: a_put_def f_def split: if_splits wpc.splits)
  have "str_inv (f x (a_str a i)) (a_cpc a) (a_cwake a) i"
    using ainvD(1) [OF inv i(1)] i(2) by (cases "a_cap (a_str a i)") (auto simp: str_defs f_def)
  then have str: "str_inv (a_str a' j) (a_cpc a) (a_cwake a) j" if "j < a_ns a" for j
    unfolding i(3) using that str_ups [OF inv, of "f x"] by simp
  have i0: "i \<notin> holders a" using i(2) by (simp add: holders_def)
  have h: "holders a' = (if a_poll (a_str a i) \<and> a_token a then insert i (holders a) else holders a)"
    unfolding i(3) using i0 i(1) by (auto simp: holders_ups f_def)
  have tok: "token_inv a'"
    using ainvD(5) [OF inv] token_polling [OF ainvD(5) [OF inv]] h
    by (auto simp: i(3) token_inv_def tok_poll_def tok_idle_def)
  have mk: "a_poll (a_str a i) \<Longrightarrow> i \<in> set (a_set a)" using poll_mark [OF inv i(1)] marked_set by blast
  have reg: "\<forall>j \<in> set (registered (a_cpc a') (a_set a')). a_poll (a_str a' j) \<and> a_items (a_str a' j) = []" if "a_token a'"
    using that ainvD(6) [OF inv] by (auto simp: poll_inv_def i(3))
  have "ready_sd a'" if "ready_sd a" using that by (auto simp: ready_sd_def i(3) f_def)
  then have "poll_inv a'"
    using ainvD(6) [OF inv] h mk reg unfolding poll_inv_def by (auto simp: i(3) f_def split: if_splits)
  with tok str show ?thesis using inv unfolding ainv_def by (simp add: i(3))
qed

lemma str_cw:
  assumes "str_inv s c cw j" and "c \<noteq> RBlocked j"
  shows "str_inv s c cw' j"
  using assms by (simp add: str_defs)

lemma inv_signal:
  assumes inv: "ainv a" and "a_signal i a = Some a'"
  shows "ainv a'"
proof -
  define f where "f = (\<lambda>(s :: astream). s\<lparr>a_n := a_n s + 1, a_wpc := WIdle\<rparr>)"
  obtain pw where i: "i < a_ns a" "a_wpc (a_str a i) = WSignal pw"
    "a' = (if a_n (a_str a i) < 0 then (ups i f a)\<lparr>a_cwake := a_cwake a + 1\<rparr>
           else if pw then (ups i f a)\<lparr>a_cwake := a_cwake a + 1, a_wsd := Some i\<rparr> else ups i f a)"
    using assms(2) by (auto simp: a_signal_def f_def Let_def split: if_splits wpc.splits)
  have si: "str_inv (a_str a i) (a_cpc a) (a_cwake a) i" using ainvD(1) [OF inv i(1)] .
  have hold: "pw \<Longrightarrow> polling (a_cpc a) \<and> holders a = {i} \<and> \<not> a_token a \<and> a_cwake a = 0"
  proof -
    assume pw
    then have "i \<in> holders a" using i by (simp add: holders_def)
    then show ?thesis using ainvD(5) [OF inv] by (auto simp: token_inv_def tok_poll_def tok_idle_def split: if_splits)
  qed
  have neg: "a_n (a_str a i) < 0 \<longleftrightarrow> a_cpc a = RBlocked i \<and> a_cwake a = 0" using si by (auto simp: str_defs)
  have h: "holders a' = (if pw then {} else holders a)"
    using hold i(2) by (auto simp: i(3) holders_ups f_def) (auto simp: holders_def)
  have str: "str_inv (a_str a' j) (a_cpc a') (a_cwake a') j" if j: "j < a_ns a'" for j
  proof -
    have jn: "j < a_ns a" using j by (simp add: i(3) split: if_splits)
    show ?thesis
    proof (cases "j = i")
      case True
      have "str_inv (f (a_str a i)) (a_cpc a') (a_cwake a') i"
        using si i(2) neg hold by (cases "a_cap (a_str a i)") (auto simp: str_defs f_def i(3))
      moreover have "a_str a' i = f (a_str a i)" by (simp add: i(3))
      ultimately show ?thesis using True by simp
    next
      case False
      have "str_inv (a_str a j) (a_cpc a) (a_cwake a) j" using ainvD(1) [OF inv jn] .
      moreover have "a_cwake a' = a_cwake a \<or> a_cpc a \<noteq> RBlocked j"
      proof (cases "a_n (a_str a i) < 0")
        case True
        with neg False show ?thesis by simp
      next
        case nonneg: False
        show ?thesis using hold nonneg by (cases pw) (auto simp: i(3))
      qed
      moreover have "a_str a' j = a_str a j" "a_cpc a' = a_cpc a" using False by (simp_all add: i(3))
      ultimately show ?thesis using str_cw by metis
    qed
  qed
  have tok: "token_inv a'"
    using ainvD(5) [OF inv] neg hold h by (auto simp: i(3) token_inv_def tok_poll_def tok_idle_def)
  have "pw \<Longrightarrow> i \<in> set (a_set a) \<and> a_items (a_str a i) \<noteq> []"
    using hold ainvD(6) [OF inv] si i(2) by (auto simp: poll_inv_def str_inv_def)
  then have "pw \<Longrightarrow> \<not> a_n (a_str a i) < 0 \<Longrightarrow> ready_sd a'" by (auto simp: ready_sd_def i(3) f_def)
  moreover have "\<not> pw \<or> a_n (a_str a i) < 0 \<Longrightarrow> ready_sd a' = ready_sd a" by (auto simp: ready_sd_def i(3) f_def)
  ultimately have "poll_inv a'"
    using ainvD(6) [OF inv] h neg unfolding poll_inv_def by (auto simp: i(3) f_def split: if_splits)
  with tok str show ?thesis using inv unfolding ainv_def by (auto simp: i(3))
qed

text \<open>The consumer moves on without touching a stream: a new place and counter of wakeups.\<close>

lemma str_pc:
  assumes "str_inv s c cw j" and "in_read c' j = in_read c j" "at_rsignal c' j = at_rsignal c j"
    and "(c' = RBlocked j \<and> cw' = 0) = (c = RBlocked j \<and> cw = 0)"
  shows "str_inv s c' cw' j"
  using assms by (auto simp: str_inv_def n_inv_def e_inv_def at_rsignal_def split: option.splits if_splits)

lemma str_pc_other:
  assumes "str_inv s c cw j" and "\<And>k. k = j \<Longrightarrow> c \<noteq> RBlocked k \<and> c \<noteq> RPop k \<and> c \<noteq> RSignal k"
    and "\<And>k. k = j \<Longrightarrow> c' \<noteq> RBlocked k \<and> c' \<noteq> RPop k \<and> c' \<noteq> RSignal k"
  shows "str_inv s c' cw' j"
  using assms by (intro str_pc [OF assms(1)]) (auto simp: in_read_def at_rsignal_def)

text \<open>Outside of a poll no stream is marked, no wakeup is due and no token is out.\<close>

lemma idle_facts:
  assumes "ainv a" and "\<not> polling (a_cpc a)" "\<not> ending (a_cpc a)"
  shows "\<not> a_token a" "holders a = {}" "\<And>i. i < a_ns a \<Longrightarrow> \<not> a_poll (a_str a i)"
    "a_cwake a \<le> 1" "0 < a_cwake a \<Longrightarrow> \<exists>i. a_cpc a = RBlocked i"
proof -
  have m: "marked (a_cpc a) (a_set a) = []" using assms(2,3) by (cases "a_cpc a") auto
  show "\<not> a_token a" "holders a = {}" "a_cwake a \<le> 1" "0 < a_cwake a \<Longrightarrow> \<exists>i. a_cpc a = RBlocked i"
    using ainvD(5) [OF assms(1)] assms(2) by (auto simp: token_inv_def tok_idle_def)
  show "\<not> a_poll (a_str a i)" if "i < a_ns a" for i using poll_mark [OF assms(1) that] m by auto
qed

lemma idle_inv:
  assumes "\<not> polling (a_cpc a)" "\<not> ending (a_cpc a)" and "\<not> a_token a" "holders a = {}"
    "\<And>i. i < a_ns a \<Longrightarrow> \<not> a_poll (a_str a i)" "a_cwake a \<le> 1" "0 < a_cwake a \<Longrightarrow> \<exists>i. a_cpc a = RBlocked i"
    and "\<And>i. i < a_ns a \<Longrightarrow> str_inv (a_str a i) (a_cpc a) (a_cwake a) i" "distinct (a_set a)"
    "set (a_set a) \<subseteq> {..<a_ns a}" "pc_ok (a_cpc a) (a_ns a) (a_set a)" "\<forall>i. a_ret a = Some i \<longrightarrow> i < a_ns a"
  shows "ainv a"
  using assms by (auto simp: ainv_def token_inv_def tok_idle_def poll_inv_def)

lemma ret_bound: "ainv a \<Longrightarrow> a_ret a = Some i \<Longrightarrow> i < a_ns a"
  using ainvD(6) by (auto simp: poll_inv_def)

text \<open>The steps of a read: only the stream that is read changes.\<close>

lemma read_step:
  assumes inv: "ainv a" and c: "\<not> polling (a_cpc a)" "\<not> ending (a_cpc a)"
    and a': "a' = (ups i f a)\<lparr>a_cpc := c', a_cwake := cw'\<rparr>"
    and f: "a_wpc (f (a_str a i)) = a_wpc (a_str a i)" "a_poll (f (a_str a i)) = a_poll (a_str a i)"
    and i: "i < a_ns a" "str_inv (f (a_str a i)) c' cw' i"
    and pcs: "a_cpc a \<in> {CIdle, RBlocked i, RPop i, RSignal i}" "c' \<in> {CIdle, RBlocked i, RPop i, RSignal i}"
    and cw: "cw' \<le> a_cwake a" "0 < cw' \<Longrightarrow> c' = RBlocked i"
  shows "ainv a'"
proof (rule idle_inv)
  note idle = idle_facts [OF inv c]
  show "holders a' = {}" using idle(2) i(1) f(1) by (auto simp: a' holders_ups) (auto simp: holders_def)
  show "str_inv (a_str a' j) (a_cpc a') (a_cwake a') j" if "j < a_ns a'" for j
  proof (cases "j = i")
    case False
    then have "str_inv (a_str a j) c' cw' j"
      using that pcs by (intro str_pc_other [OF ainvD(1) [OF inv]]) (auto simp: a')
    with False show ?thesis by (simp add: a')
  qed (use i in \<open>simp add: a'\<close>)
  show "\<not> polling (a_cpc a')" "\<not> ending (a_cpc a')" "pc_ok (a_cpc a') (a_ns a') (a_set a')" using pcs i(1) by (auto simp: a')
qed (use idle_facts [OF inv c] ainvD [OF inv] cw ret_bound [OF inv] f(2) in \<open>auto simp: a'\<close>)

lemma inv_read:
  assumes inv: "ainv a" and "a_read i a = Some a'"
  shows "ainv a'"
proof -
  define f where "f = (\<lambda>(s :: astream). s\<lparr>a_n := a_n s - 1\<rparr>)"
  let ?c = "if a_n (a_str a i) = 0 then RBlocked i else RPop i"
  have i: "i < a_ns a" "a_cpc a = CIdle" "a' = setc ?c (ups i f a)"
    using assms(2) by (auto simp: a_read_def f_def split: if_splits)
  have cw: "a_cwake a = 0" using idle_facts(4,5) [OF inv] i(2) by fastforce
  have "str_inv (f (a_str a i)) ?c (a_cwake a) i"
    using ainvD(1) [OF inv i(1)] i(2) cw by (cases "a_cap (a_str a i)") (auto simp: str_defs f_def)
  then show ?thesis using i cw by (intro read_step [OF inv, where i = i and f = f and c' = ?c and cw' = 0]) (auto simp: f_def)
qed

lemma inv_rresume:
  assumes inv: "ainv a" and "a_rresume a = Some a'"
  shows "ainv a'"
proof -
  obtain i where i: "a_cpc a = RBlocked i" "0 < a_cwake a" "a' = a\<lparr>a_cwake := a_cwake a - 1, a_cpc := RPop i\<rparr>"
    using assms(2) by (auto simp: a_rresume_def split: cpc.splits if_splits)
  have i0: "i < a_ns a" using ainvD(4) [OF inv] i(1) by simp
  have cw: "a_cwake a = 1" using idle_facts(4) [OF inv] i by simp
  have "str_inv (a_str a i) (RPop i) 0 i"
    using ainvD(1) [OF inv i0] i(1) cw by (cases "a_cap (a_str a i)") (auto simp: str_defs)
  then show ?thesis using i i0 cw
    by (intro read_step [OF inv, where i = i and f = "\<lambda>s. s" and c' = "RPop i" and cw' = 0]) (auto simp: ups_def)
qed

lemma inv_pop:
  assumes inv: "ainv a" and "a_pop a = Some a'"
  shows "ainv a'"
proof -
  define f where "f = (\<lambda>x xs (s :: astream). s\<lparr>a_items := xs, a_got := a_got s @ [x]\<rparr>)"
  obtain i x xs where i: "a_cpc a = RPop i" "a_items (a_str a i) = x # xs"
    "a' = setc (RSignal i) (ups i (f x xs) a)"
    using assms(2) by (auto simp: a_pop_def f_def split: cpc.splits list.splits)
  let ?c = "RSignal i"
  have i0: "i < a_ns a" using ainvD(4) [OF inv] i(1) by simp
  have cw: "a_cwake a = 0" using idle_facts(4,5) [OF inv] i(1) by fastforce
  have "a_wpc (a_str a i) \<noteq> WSignal True" using idle_facts(2) [OF inv] i(1) i0 by (auto simp: holders_def)
  then have "str_inv (f x xs (a_str a i)) ?c 0 i"
    using ainvD(1) [OF inv i0] i(1,2) cw by (cases "a_cap (a_str a i)") (auto simp: str_defs f_def)
  then show ?thesis using i i0 cw
    by (intro read_step [OF inv, where i = i and f = "f x xs" and c' = ?c and cw' = 0]) (auto simp: f_def)
qed

lemma inv_rsignal:
  assumes inv: "ainv a" and "a_rsignal a = Some a'"
  shows "ainv a'"
proof -
  define f where "f = (\<lambda>(s :: astream). if a_cap s = None then s
     else s\<lparr>a_e := a_e s + 1, a_wake := (if a_e s < 0 then a_wake s + 1 else a_wake s)\<rparr>)"
  obtain i where i: "a_cpc a = RSignal i" "a' = setc CIdle (ups i f a)"
    using assms(2) by (auto simp: a_rsignal_def f_def ups_def split: cpc.splits if_splits)
  have i0: "i < a_ns a" using ainvD(4) [OF inv] i(1) by simp
  have cw: "a_cwake a = 0" using idle_facts(4,5) [OF inv] i(1) by fastforce
  have "str_inv (f (a_str a i)) CIdle 0 i"
    using ainvD(1) [OF inv i0] i(1) cw by (cases "a_cap (a_str a i)") (auto simp: str_defs f_def)
  then show ?thesis using i i0 cw
    by (intro read_step [OF inv, where i = i and f = f and c' = CIdle and cw' = 0]) (auto simp: f_def)
qed

lemma str_poll [simp]: "str_inv (s\<lparr>a_poll := p\<rparr>) c cw j = str_inv s c cw j"
  by (cases "a_cap s") (simp_all add: str_inv_def n_inv_def e_inv_def)

text \<open>The steps of a poll: the contents of streams and the places of producers stay.\<close>

lemma poll_step_str:
  assumes inv: "ainv a" and c: "\<And>k. a_cpc a \<noteq> RBlocked k \<and> a_cpc a \<noteq> RPop k \<and> a_cpc a \<noteq> RSignal k"
    and c': "\<And>k. a_cpc a' \<noteq> RBlocked k \<and> a_cpc a' \<noteq> RPop k \<and> a_cpc a' \<noteq> RSignal k"
    and eq: "a_ns a' = a_ns a" "\<And>j. a_str a' j = a_str a j \<or> a_str a' j = (a_str a j)\<lparr>a_poll := p\<rparr>" and j: "j < a_ns a'"
  shows "str_inv (a_str a' j) (a_cpc a') (a_cwake a') j"
proof -
  have "str_inv (a_str a j) (a_cpc a') (a_cwake a') j"
    using j c c' by (intro str_pc_other [OF ainvD(1) [OF inv]]) (auto simp: eq)
  then show ?thesis using eq(2) [of j] by auto
qed

lemma turn_split:
  assumes "i \<notin> set ys"
  shows "turn i (ys @ i # zs) = zs @ ys @ [i]"
proof -
  have "dropWhile (\<lambda>x. x \<noteq> i) (ys @ i # zs) = i # zs" using assms by (induction ys) auto
  moreover have "takeWhile (\<lambda>x. x \<noteq> i) (ys @ i # zs) = ys" using assms by (induction ys) auto
  ultimately show ?thesis by (simp add: turn_def)
qed

lemma turn_facts:
  assumes "i \<in> set xs" and "distinct xs"
  shows "set (turn i xs) = set xs" "distinct (turn i xs)" "last (turn i xs) = i" "turn i xs \<noteq> []"
proof -
  from assms(1) obtain ys zs where xs: "xs = ys @ i # zs" "i \<notin> set ys" by (metis split_list_first)
  have "turn i xs = zs @ ys @ [i]" using turn_split xs by simp
  then show "set (turn i xs) = set xs" "distinct (turn i xs)" "last (turn i xs) = i" "turn i xs \<noteq> []"
    using assms(2) by (auto simp: xs(1))
qed

lemma inv_begin_poll:
  assumes inv: "ainv a" and "a_begin_poll a = Some a'"
  shows "ainv a'"
proof -
  have a: "a_cpc a = CIdle" "a_set a \<noteq> []" "a' = setc (PFast 0) a" using assms(2) by (auto simp: a_begin_poll_def split: if_splits)
  note idle = idle_facts [OF inv]
  show ?thesis
  proof (rule idle_inv)
    show "str_inv (a_str a' j) (a_cpc a') (a_cwake a') j" if "j < a_ns a'" for j
      using that a by (intro poll_step_str [OF inv]) auto
  qed (use a idle ainvD [OF inv] ret_bound [OF inv] in auto)
qed

lemma inv_fast:
  assumes inv: "ainv a" and "a_fast a = Some a'"
  shows "ainv a'"
proof -
  obtain k where k: "a_cpc a = PFast k" using assms(2) by (auto simp: a_fast_def split: cpc.splits)
  note idle = idle_facts [OF inv]
  have cw: "a_cwake a = 0" using idle(5) k by fastforce
  let ?i = "a_set a ! k"
  consider (found) "k < length (a_set a)" "a' = a\<lparr>a_cpc := CIdle, a_set := turn ?i (a_set a), a_ret := Some ?i\<rparr>"
    | (empty) "k < length (a_set a)" "a' = setc (PFast (k + 1)) a"
    | (token) "\<not> k < length (a_set a)" "a' = a\<lparr>a_cpc := PReg 0, a_token := True\<rparr>"
    using assms(2) k by (auto simp: a_fast_def Let_def split: if_splits)
  then show ?thesis
  proof cases
    case found
    have i: "?i \<in> set (a_set a)" using found(1) by simp
    show ?thesis
    proof (rule idle_inv)
      show "str_inv (a_str a' j) (a_cpc a') (a_cwake a') j" if "j < a_ns a'" for j
        using that found k by (intro poll_step_str [OF inv]) auto
      have "?i < a_ns a" using i ainvD(3) [OF inv] by blast
      then show "\<forall>j. a_ret a' = Some j \<longrightarrow> j < a_ns a'" using found by simp
    qed (use found k idle ainvD [OF inv] cw turn_facts [OF i] in auto)
  next
    case empty
    show ?thesis
    proof (rule idle_inv)
      show "str_inv (a_str a' j) (a_cpc a') (a_cwake a') j" if "j < a_ns a'" for j
        using that empty k by (intro poll_step_str [OF inv]) auto
    qed (use empty k idle ainvD [OF inv] cw ret_bound [OF inv] in auto)
  next
    case token
    have "str_inv (a_str a' j) (a_cpc a') (a_cwake a') j" if "j < a_ns a'" for j
      using that token k by (intro poll_step_str [OF inv]) auto
    then show ?thesis
      using token k idle cw ainvD [OF inv] ret_bound [OF inv]
      by (auto simp: ainv_def token_inv_def tok_poll_def poll_inv_def)
  qed
qed

lemma pollD:
  assumes "ainv a"
  shows "\<And>i. i < a_ns a \<Longrightarrow> a_poll (a_str a i) \<Longrightarrow> i \<in> set (marked (a_cpc a) (a_set a))"
    "\<And>i. a_token a \<Longrightarrow> i \<in> set (registered (a_cpc a) (a_set a)) \<Longrightarrow> a_poll (a_str a i) \<and> a_items (a_str a i) = []"
    "\<And>k. a_cpc a = PBlocked k \<Longrightarrow> a_token a \<Longrightarrow> k = length (a_set a)"
    "holders a \<subseteq> set (a_set a)"
    "polling (a_cpc a) \<and> 0 < a_cwake a \<or> ending (a_cpc a) \<Longrightarrow> ready_sd a"
  using ainvD(6) [OF assms] by (auto simp: poll_inv_def)

lemma poll_invI:
  assumes "\<And>i. i < a_ns a \<Longrightarrow> a_poll (a_str a i) \<Longrightarrow> i \<in> set (marked (a_cpc a) (a_set a))"
    and "\<And>i. a_token a \<Longrightarrow> i \<in> set (registered (a_cpc a) (a_set a)) \<Longrightarrow> a_poll (a_str a i) \<and> a_items (a_str a i) = []"
    and "\<And>k. a_cpc a = PBlocked k \<Longrightarrow> a_token a \<Longrightarrow> k = length (a_set a)"
    and "holders a \<subseteq> set (a_set a)"
    and "polling (a_cpc a) \<and> 0 < a_cwake a \<or> ending (a_cpc a) \<Longrightarrow> ready_sd a"
    and "\<And>i. a_ret a = Some i \<Longrightarrow> i < a_ns a"
  shows "poll_inv a"
  using assms by (auto simp: poll_inv_def)

lemma inv_reg:
  assumes inv: "ainv a" and "a_reg a = Some a'"
  shows "ainv a'"
proof -
  obtain k where k: "a_cpc a = PReg k" using assms(2) by (auto simp: a_reg_def split: cpc.splits)
  let ?i = "a_set a ! k" and ?f = "\<lambda>s. s\<lparr>a_poll := True\<rparr>"
  have kl: "k \<le> length (a_set a)" using ainvD(4) [OF inv] k by simp
  have tok: "tok_poll (a_token a) (holders a) (a_cwake a)" using ainvD(5) [OF inv] k by (simp add: token_inv_def)
  have rdy: "ready_sd a \<Longrightarrow> ready_sd (setc c a)" for c by (simp add: ready_sd_def)
  consider (found) "k < length (a_set a)" "a_items (a_str a ?i) \<noteq> []" "a_token a"
        "a' = a\<lparr>a_cpc := PUnreg 0 (int k), a_token := False, a_wsd := Some ?i\<rparr>"
    | (block) "\<not> a_token a \<or> k = length (a_set a)" "a' = setc (PBlocked k) a"
    | (mark) "k < length (a_set a)" "a_items (a_str a ?i) = []" "a' = setc (PReg (k + 1)) (ups ?i ?f a)"
    using assms(2) k kl by (auto simp: a_reg_def Let_def split: if_splits)
  then show ?thesis
  proof cases
    case found
    have str: "str_inv (a_str a' j) (a_cpc a') (a_cwake a') j" if "j < a_ns a'" for j
      using that found k by (intro poll_step_str [OF inv]) auto
    have "poll_inv a'"
    proof (rule poll_invI)
      show "i \<in> set (marked (a_cpc a') (a_set a'))" if "i < a_ns a'" "a_poll (a_str a' i)" for i
        using that pollD(1) [OF inv, of i] k by (simp add: found(4))
      show "ready_sd a'" using found(1,2) by (simp add: ready_sd_def found(4))
    qed (use pollD(4) [OF inv] ret_bound [OF inv] in \<open>auto simp: found(4)\<close>)
    moreover have "token_inv a'" using tok found k by (auto simp: token_inv_def tok_poll_def tok_idle_def)
    ultimately show ?thesis using str ainvD [OF inv] found k kl by (auto simp: ainv_def)
  next
    case block
    have str: "str_inv (a_str a' j) (a_cpc a') (a_cwake a') j" if "j < a_ns a'" for j
      using that block k by (intro poll_step_str [OF inv]) auto
    have "poll_inv a'"
      using pollD [OF inv] k block rdy ret_bound [OF inv] by (intro poll_invI) auto
    moreover have "token_inv a'" using tok block k by (auto simp: token_inv_def)
    ultimately show ?thesis using str ainvD [OF inv] block k kl by (auto simp: ainv_def)
  next
    case mark
    have str: "str_inv (a_str a' j) (a_cpc a') (a_cwake a') j" if "j < a_ns a'" for j
      using that mark k by (intro poll_step_str [OF inv]) auto
    have h: "holders a' = holders a" unfolding mark(3) by (auto simp: holders_ups) (auto simp: holders_def)
    have rdy': "ready_sd a \<Longrightarrow> ready_sd a'" by (auto simp: ready_sd_def mark(3))
    have "take (k + 1) (a_set a) = take k (a_set a) @ [?i]" using mark(1) by (simp add: take_Suc_conv_app_nth)
    then have "poll_inv a'"
      using pollD [OF inv] k mark(2) rdy' ret_bound [OF inv] h by (intro poll_invI) (auto simp: mark(3) split: if_splits)
    moreover have "token_inv a'" using tok k h by (simp add: token_inv_def mark(3))
    ultimately show ?thesis using str ainvD [OF inv] mark k kl by (auto simp: ainv_def)
  qed
qed

lemma inv_presume:
  assumes inv: "ainv a" and "a_presume a = Some a'"
  shows "ainv a'"
proof -
  obtain k where k: "a_cpc a = PBlocked k" "0 < a_cwake a" "\<not> a_token a"
    "a' = a\<lparr>a_cwake := a_cwake a - 1, a_cpc := PUnreg 0 (int k)\<rparr>"
    using assms(2) by (auto simp: a_presume_def split: cpc.splits if_splits)
  have str: "str_inv (a_str a' j) (a_cpc a') (a_cwake a') j" if "j < a_ns a'" for j
    using that k by (intro poll_step_str [OF inv]) auto
  have tok: "tok_poll (a_token a) (holders a) (a_cwake a)" using ainvD(5) [OF inv] k by (simp add: token_inv_def)
  have "ready_sd a" using pollD(5) [OF inv] k by simp
  then have "poll_inv a'" using pollD [OF inv] k ret_bound [OF inv] by (intro poll_invI) (auto simp: ready_sd_def)
  moreover have "token_inv a'" using tok k by (auto simp: token_inv_def tok_poll_def tok_idle_def)
  ultimately show ?thesis using str ainvD [OF inv] k by (auto simp: ainv_def)
qed

lemma inv_unreg:
  assumes inv: "ainv a" and "a_unreg a = Some a'"
  shows "ainv a'"
proof -
  obtain k cnt where k: "a_cpc a = PUnreg k cnt" using assms(2) by (auto simp: a_unreg_def split: cpc.splits)
  let ?i = "a_set a ! k" and ?f = "\<lambda>s. s\<lparr>a_poll := False\<rparr>" and ?n = "nat (int k + cnt)"
  have pc: "k \<le> length (a_set a)" "- int k \<le> cnt" "cnt = 0 \<longrightarrow> k = 0" "int k + cnt \<le> int (length (a_set a))"
    using ainvD(4) [OF inv] k by simp_all
  have tok: "tok_idle (a_cpc a) (a_token a) (holders a) (a_cwake a)" using ainvD(5) [OF inv] k by (simp add: token_inv_def)
  have rd: "ready_sd a" using pollD(5) [OF inv] k by simp
  have cw: "a_cwake a = 0" using tok k by (auto simp: tok_idle_def)
  consider (step) "k < length (a_set a)" "a' = setc (if cnt - 1 = 0 then PFinish else PUnreg (k + 1) (cnt - 1)) (ups ?i ?f a)"
    | (over) "k = length (a_set a)" "a' = setc PFinish a"
    using assms(2) k pc(1) by (auto simp: a_unreg_def split: if_splits)
  then show ?thesis
  proof cases
    case step
    have str: "str_inv (a_str a' j) (a_cpc a') (a_cwake a') j" if "j < a_ns a'" for j
      using that step k by (intro poll_step_str [OF inv, where p = False]) auto
    have h: "holders a' = holders a" unfolding step(2) by (auto simp: holders_ups) (auto simp: holders_def)
    have "drop k (take ?n (a_set a)) = (if k < ?n then ?i # drop (k + 1) (take ?n (a_set a)) else [])"
      using step(1) pc(4) by (auto simp: Cons_nth_drop_Suc [symmetric])
    then have mk: "j \<in> set (drop (k + 1) (take ?n (a_set a)))" if "j < a_ns a" "a_poll (a_str a j)" "j \<noteq> ?i" for j
      using pollD(1) [OF inv that(1,2)] k that(3) by (auto split: if_splits)
    have "cnt - 1 = 0 \<Longrightarrow> drop (k + 1) (take ?n (a_set a)) = []" by simp
    then have "poll_inv a'"
      using pollD [OF inv] k mk rd ret_bound [OF inv] h
      by (intro poll_invI) (auto simp: step(2) ready_sd_def split: if_splits)
    moreover have "token_inv a'" using tok k h cw by (auto simp: token_inv_def step(2) tok_idle_def)
    ultimately show ?thesis using str ainvD [OF inv] k pc step(1) by (auto simp: ainv_def step(2))
  next
    case over
    have str: "str_inv (a_str a' j) (a_cpc a') (a_cwake a') j" if "j < a_ns a'" for j
      using that over k by (intro poll_step_str [OF inv, where p = False]) auto
    have "\<not> a_poll (a_str a j)" if "j < a_ns a" for j using pollD(1) [OF inv that] k over(1) by auto
    then have "poll_inv a'"
      using pollD [OF inv] k rd ret_bound [OF inv] by (intro poll_invI) (auto simp: over(2) ready_sd_def)
    moreover have "token_inv a'" using tok k cw by (auto simp: token_inv_def over(2) tok_idle_def)
    ultimately show ?thesis using str ainvD [OF inv] by (auto simp: ainv_def over(2))
  qed
qed

lemma inv_finish:
  assumes inv: "ainv a" and "a_finish a = Some a'"
  shows "ainv a'"
proof -
  obtain i where i: "a_cpc a = PFinish" "a_wsd a = Some i"
    "a' = a\<lparr>a_cpc := CIdle, a_set := turn i (a_set a), a_ret := Some i\<rparr>"
    using assms(2) by (auto simp: a_finish_def split: option.splits if_splits)
  have "ready_sd a" using pollD(5) [OF inv] i by simp
  then have m: "i \<in> set (a_set a)" using i(2) by (auto simp: ready_sd_def)
  have idle: "\<not> a_token a" "holders a = {}" "a_cwake a = 0" "\<And>j. j < a_ns a \<Longrightarrow> \<not> a_poll (a_str a j)"
    using ainvD(5) [OF inv] pollD(1) [OF inv] i(1) by (auto simp: token_inv_def tok_idle_def)
  have "str_inv (a_str a' j) (a_cpc a') (a_cwake a') j" if "j < a_ns a'" for j
    using that i by (intro poll_step_str [OF inv]) auto
  then show ?thesis using idle turn_facts [OF m] ainvD [OF inv] m
    by (intro idle_inv) (auto simp: i(3))
qed

lemma aexec_inv: "ainv a \<Longrightarrow> aexec ev a = Some a' \<Longrightarrow> ainv a'"
  by (cases ev) (auto intro: inv_write inv_wresume inv_put inv_signal inv_read inv_rresume inv_pop inv_rsignal
      inv_begin_poll inv_fast inv_reg inv_presume inv_unreg inv_finish)

section \<open>What the invariant gives\<close>

definition init_stream :: "nat option \<Rightarrow> astream" where
  "init_stream cap = \<lparr>a_items = [], a_cap = cap, a_n = 0, a_e = (case cap of None \<Rightarrow> 0 | Some n \<Rightarrow> int n), a_poll = False,
     a_wpc = WIdle, a_wake = 0, a_sent = [], a_got = []\<rparr>"

definition ainit :: "(nat \<Rightarrow> nat option) \<Rightarrow> nat \<Rightarrow> nat list \<Rightarrow> asys" where
  "ainit cap n xs = \<lparr>a_str = (\<lambda>i. init_stream (cap i)), a_ns = n, a_cpc = CIdle, a_token = False, a_cwake = 0,
     a_wsd = None, a_set = xs, a_ret = None\<rparr>"

lemma ainit_inv:
  assumes "\<And>i. i < n \<Longrightarrow> cap i \<noteq> Some 0" and "distinct xs" "set xs \<subseteq> {..<n}"
  shows "ainv (ainit cap n xs)"
proof (rule idle_inv)
  show "str_inv (a_str (ainit cap n xs) i) (a_cpc (ainit cap n xs)) (a_cwake (ainit cap n xs)) i"
    if "i < a_ns (ainit cap n xs)" for i
    using that assms(1) [of i] by (cases "cap i") (auto simp: ainit_def init_stream_def str_defs)
qed (use assms in \<open>auto simp: ainit_def init_stream_def holders_def\<close>)

text \<open>The assertions of the code hold: there is space to write, an item to read, the token is taken.\<close>

lemma put_space:
  assumes "ainv a" "i < a_ns a" "a_wpc (a_str a i) = WPut x" "a_cap (a_str a i) = Some n"
  shows "length (a_items (a_str a i)) < n"
  using ainvD(1) [OF assms(1,2)] assms(3,4) by (auto simp: str_defs split: if_splits)

lemma items_bound:
  assumes "ainv a" "i < a_ns a" "a_cap (a_str a i) = Some n"
  shows "length (a_items (a_str a i)) \<le> n"
proof -
  have "- 1 \<le> a_e (a_str a i)" "a_e (a_str a i) = - 1 \<longrightarrow> blocked_w (a_wpc (a_str a i))"
    "a_e (a_str a i) = int n - int (length (a_items (a_str a i))) - in_write (a_wpc (a_str a i)) - at_rsignal (a_cpc a) i"
    using ainvD(1) [OF assms(1,2)] assms(3) by (auto simp: str_inv_def e_inv_def)
  then show ?thesis by (cases "a_wpc (a_str a i)") (auto simp: at_rsignal_def split: if_splits)
qed

lemma pop_item:
  assumes "ainv a" "a_cpc a = RPop i"
  shows "a_items (a_str a i) \<noteq> []"
proof -
  have i: "i < a_ns a" using ainvD(4) [OF assms(1)] assms(2) by simp
  from ainvD(1) [OF assms(1) i] assms(2) show ?thesis
    by (cases "a_wpc (a_str a i)") (auto simp: str_inv_def n_inv_def in_read_def)
qed

lemma resume_token: "ainv a \<Longrightarrow> a_cpc a = PBlocked k \<Longrightarrow> 0 < a_cwake a \<Longrightarrow> \<not> a_token a"
  using ainvD(5) by (fastforce simp: token_inv_def tok_poll_def)

lemma finish_ready: "ainv a \<Longrightarrow> a_cpc a = PFinish \<Longrightarrow> \<exists>i \<in> set (a_set a). a_wsd a = Some i \<and> a_items (a_str a i) \<noteq> []"
  using pollD(5) by (auto simp: ready_sd_def)

text \<open>Nobody is blocked while the stream could serve him: wakeups are never lost.\<close>

lemma blocked_reader:
  assumes "ainv a" "a_cpc a = RBlocked i" "a_cwake a = 0"
  shows "i < a_ns a \<and> a_n (a_str a i) = - 1 \<and> (blocked_w (a_wpc (a_str a i)) \<longrightarrow> 0 < a_wake (a_str a i)) \<and>
    (a_items (a_str a i) = [] \<or> (\<exists>pw. a_wpc (a_str a i) = WSignal pw))"
proof -
  have i: "i < a_ns a" using ainvD(4) [OF assms(1)] assms(2) by simp
  have s: "str_inv (a_str a i) (a_cpc a) (a_cwake a) i" using ainvD(1) [OF assms(1) i] .
  then have n: "a_n (a_str a i) = - 1" using assms(2,3) by (auto simp: str_inv_def n_inv_def)
  then have l: "int (length (a_items (a_str a i))) = at_signal (a_wpc (a_str a i))"
    using s assms(2) by (auto simp: str_inv_def n_inv_def in_read_def)
  have "blocked_w (a_wpc (a_str a i)) \<longrightarrow> 0 < a_wake (a_str a i)"
    using s l assms(2) by (cases "a_wpc (a_str a i)"; cases "a_cap (a_str a i)")
      (auto simp: str_inv_def e_inv_def at_rsignal_def)
  then show ?thesis using n i l by (cases "a_wpc (a_str a i)") auto
qed

lemma blocked_writer:
  assumes "ainv a" "i < a_ns a" "blocked_w (a_wpc (a_str a i))" "a_wake (a_str a i) = 0"
  shows "a_e (a_str a i) = - 1 \<and> (a_items (a_str a i) \<noteq> [] \<or> a_cpc a = RSignal i)"
  using ainvD(1) [OF assms(1,2)] assms(3,4)
  by (cases "a_wpc (a_str a i)"; cases "a_cap (a_str a i)") (auto simp: str_inv_def e_inv_def at_rsignal_def split: if_splits)

lemma blocked_poller:
  assumes "ainv a" "a_cpc a = PBlocked k" "a_cwake a = 0"
  shows "(\<exists>i < a_ns a. a_wpc (a_str a i) = WSignal True) \<or>
    a_token a \<and> (\<forall>i \<in> set (a_set a). a_poll (a_str a i) \<and> a_items (a_str a i) = [])"
proof -
  have "a_token a \<or> (\<exists>i. holders a = {i})"
    using ainvD(5) [OF assms(1)] assms(2,3) by (auto simp: token_inv_def tok_poll_def)
  then show ?thesis
  proof
    assume t: "a_token a"
    then have "k = length (a_set a)" using pollD(3) [OF assms(1)] assms(2) by blast
    then show ?thesis using pollD(2) [OF assms(1) t] assms(2) t by simp
  qed (auto simp: holders_def)
qed

section \<open>Implementations of the protocol\<close>

text \<open>Running a sequence of events; \<open>None\<close> when one of them is not possible where it comes.\<close>

fun run_events :: "(event \<Rightarrow> 's \<Rightarrow> 's run) \<Rightarrow> event list \<Rightarrow> 's \<Rightarrow> 's run" where
  "run_events exec [] s = Some (Inr s)"
| "run_events exec (ev # evs) s = bindO (exec ev s) (run_events exec evs)"

text \<open>Events up to the address that \<open>malloc\<close> answers.\<close>

fun ev_kind :: "event \<Rightarrow> event" where
  "ev_kind (EvPut i new) = EvPut i None"
| "ev_kind ev = ev"

locale stream_sim =
  fixes exec :: "event \<Rightarrow> 's \<Rightarrow> 's run"
    and rel :: "'s \<Rightarrow> asys \<Rightarrow> bool"
  assumes sim: "rel s a \<Longrightarrow> ainv a \<Longrightarrow> exec ev s = Some r \<Longrightarrow>
      \<exists>s' a'. r = Inr s' \<and> aexec ev a = Some a' \<and> rel s' a'"
    and live: "rel s a \<Longrightarrow> ainv a \<Longrightarrow> aexec ev a = Some a' \<Longrightarrow>
      \<exists>ev' r. ev_kind ev' = ev_kind ev \<and> exec ev' s = Some r"
begin

lemma run_rel:
  assumes "rel s a" and "ainv a" and "run_events exec evs s = Some r"
  shows "\<exists>s' a'. r = Inr s' \<and> rel s' a' \<and> ainv a'"
  using assms
proof (induction evs arbitrary: s a)
  case (Cons ev evs)
  from Cons.prems(3) obtain r1 where r1: "exec ev s = Some r1" by (cases "exec ev s") auto
  from sim [OF Cons.prems(1,2) r1] obtain s1 a1 where 1: "r1 = Inr s1" "aexec ev a = Some a1" "rel s1 a1" by blast
  show ?case using Cons.IH [OF 1(3) aexec_inv [OF Cons.prems(2) 1(2)]] Cons.prems(3) r1 1(1) by simp
qed auto

text \<open>A section that the protocol allows never fails, and it can be taken.\<close>

lemma step_ok:
  assumes "rel s a" and "ainv a" and "aexec ev a = Some a'"
  shows "\<exists>ev' s'. ev_kind ev' = ev_kind ev \<and> exec ev' s = Some (Inr s')"
  using live [OF assms] sim [OF assms(1,2)] by metis

end

end
