(* ===== verification/Streamset.thy ===== *)
theory Streamset
  imports Lpel_Prelude
begin

text \<open>
  \<open>src/streamset.c\<close>: sets of stream descriptors as circular singly linked lists through the
  descriptors' \<open>next\<close> field, addressed by a handle that points to the last element, and
  iterators that stay usable while elements are appended or the current element is removed.
  The store holds the descriptors (\<open>sds\<close>) and the handle variables of type
  \<open>lpel_streamset_t\<close> (\<open>handles\<close>), since the functions receive a pointer to the handle.
\<close>

section \<open>Model\<close>

record lpel_stream_desc_t =
  sd_task :: ptr
  sd_stream :: ptr
  sd_mode :: char
  sd_next :: ptr
  sd_mon :: ptr

record sd_store =
  sds :: "lpel_stream_desc_t heap"
  handles :: "ptr heap"

record lpel_stream_iter_t =
  it_cur :: ptr
  it_prev :: ptr
  it_set :: ptr

abbreviation set_next :: "ptr \<Rightarrow> lpel_stream_desc_t \<Rightarrow> lpel_stream_desc_t" where
  "set_next p d \<equiv> d\<lparr>sd_next := p\<rparr>"

definition LpelStreamsetPut :: "sd_store \<Rightarrow> ptr \<Rightarrow> ptr \<Rightarrow> sd_store res" where
  "LpelStreamsetPut w st node =
     bindR (deref (handles w) st) (\<lambda>s.
       if s = None then
         bindR (upd (handles w) st (\<lambda>_. node)) (\<lambda>hs.
         bindR (upd (sds w) node (set_next node)) (\<lambda>h. Inr (w\<lparr>sds := h, handles := hs\<rparr>)))
       else
         bindR (deref (sds w) s) (\<lambda>l.
         bindR (upd (sds w) node (set_next (sd_next l))) (\<lambda>h.
         bindR (upd h s (set_next node)) (\<lambda>h'.
         bindR (upd (handles w) st (\<lambda>_. node)) (\<lambda>hs. Inr (w\<lparr>sds := h', handles := hs\<rparr>))))))"

text \<open>The \<open>do ... while\<close> search loop; \<open>None\<close> would be a loop that never ends.\<close>

partial_function (option) remove_loop ::
    "lpel_stream_desc_t heap \<Rightarrow> ptr \<Rightarrow> ptr \<Rightarrow> ptr \<Rightarrow> ((ptr \<times> ptr) res) option" where
  "remove_loop h s node cur =
     (case deref h cur of Inl e \<Rightarrow> Some (Inl e)
      | Inr d \<Rightarrow> (if sd_next d \<noteq> node \<and> sd_next d \<noteq> s then remove_loop h s node (sd_next d)
                  else Some (Inr (cur, sd_next d))))"

definition LpelStreamsetRemove :: "sd_store \<Rightarrow> ptr \<Rightarrow> ptr \<Rightarrow> ((int \<times> sd_store) res) option" where
  "LpelStreamsetRemove w st node =
     (case deref (handles w) st of Inl e \<Rightarrow> Some (Inl e)
      | Inr None \<Rightarrow> Some (Inl AssertFail)
      | Inr (Some a) \<Rightarrow>
          map_option (\<lambda>r. bindR r (\<lambda>(prev, cur).
            if cur \<noteq> node then Inr (-1, w)
            else if prev = cur then
              bindR (upd (handles w) st (\<lambda>_. None)) (\<lambda>hs. Inr (0, w\<lparr>handles := hs\<rparr>))
            else
              bindR (deref (sds w) cur) (\<lambda>c.
              bindR (upd (sds w) prev (set_next (sd_next c))) (\<lambda>h.
              bindR (upd h cur (set_next None)) (\<lambda>h'.
              bindR (if Some a = cur then upd (handles w) st (\<lambda>_. prev) else Inr (handles w)) (\<lambda>hs.
                Inr (0, w\<lparr>sds := h', handles := hs\<rparr>)))))))
            (remove_loop (sds w) (Some a) node (Some a)))"

definition LpelStreamsetIsEmpty :: "sd_store \<Rightarrow> ptr \<Rightarrow> bool res" where
  "LpelStreamsetIsEmpty w st = bindR (deref (handles w) st) (\<lambda>s. Inr (s = None))"

text \<open>
  The iterator created with \<open>set == NULL\<close> has indeterminate \<open>prev\<close> and \<open>set\<close> fields; they
  are represented by \<open>NULL\<close>, whose use is an error.
\<close>

definition LpelStreamIterCreate :: "sd_store \<Rightarrow> ptr \<Rightarrow> lpel_stream_iter_t res" where
  "LpelStreamIterCreate w st =
     (if st = None then Inr \<lparr>it_cur = None, it_prev = None, it_set = None\<rparr>
      else bindR (deref (handles w) st) (\<lambda>s. Inr \<lparr>it_cur = None, it_prev = s, it_set = st\<rparr>))"

definition LpelStreamIterReset :: "sd_store \<Rightarrow> lpel_stream_iter_t \<Rightarrow> ptr \<Rightarrow> lpel_stream_iter_t res" where
  "LpelStreamIterReset w it st =
     bindR (assertR (st \<noteq> None)) (\<lambda>_.
     bindR (deref (handles w) st) (\<lambda>s. Inr (it\<lparr>it_prev := s, it_set := st, it_cur := None\<rparr>)))"

definition LpelStreamIterHasNext :: "sd_store \<Rightarrow> lpel_stream_iter_t \<Rightarrow> bool res" where
  "LpelStreamIterHasNext w it =
     bindR (deref (handles w) (it_set it)) (\<lambda>s.
       Inr (s \<noteq> None \<and> (it_cur it \<noteq> s \<or> it_cur it = None)))"

definition LpelStreamIterNext :: "sd_store \<Rightarrow> lpel_stream_iter_t \<Rightarrow> (ptr \<times> lpel_stream_iter_t) res" where
  "LpelStreamIterNext w it =
     bindR (LpelStreamIterHasNext w it) (\<lambda>hn.
     bindR (assertR hn) (\<lambda>_.
       if it_cur it \<noteq> None then
         bindR (deref (sds w) (it_cur it)) (\<lambda>c.
           Inr (sd_next c, it\<lparr>it_prev := it_cur it, it_cur := sd_next c\<rparr>))
       else
         bindR (deref (sds w) (it_prev it)) (\<lambda>p.
           Inr (sd_next p, it\<lparr>it_cur := sd_next p\<rparr>))))"

definition LpelStreamIterAppend ::
    "sd_store \<Rightarrow> lpel_stream_iter_t \<Rightarrow> ptr \<Rightarrow> (sd_store \<times> lpel_stream_iter_t) res" where
  "LpelStreamIterAppend w it node =
     bindR (deref (handles w) (it_set it)) (\<lambda>s.
     bindR (deref (sds w) s) (\<lambda>l.
     bindR (upd (sds w) node (set_next (sd_next l))) (\<lambda>h.
     bindR (upd h s (set_next node)) (\<lambda>h'.
     let it1 = (if it_prev it = s then it\<lparr>it_prev := node\<rparr> else it) in
     bindR (upd (handles w) (it_set it) (\<lambda>_. node)) (\<lambda>hs.
     let it2 = (if it_prev it1 = it_cur it1 then it1\<lparr>it_prev := node\<rparr> else it1) in
       Inr (w\<lparr>sds := h', handles := hs\<rparr>, it2))))))"

definition LpelStreamIterRemove ::
    "sd_store \<Rightarrow> lpel_stream_iter_t \<Rightarrow> (sd_store \<times> lpel_stream_iter_t) res" where
  "LpelStreamIterRemove w it =
     bindR (deref (handles w) (it_set it)) (\<lambda>s.
       if it_prev it = it_cur it then
         bindR (assertR (it_prev it = s)) (\<lambda>_.
         bindR (upd (sds w) (it_cur it) (set_next None)) (\<lambda>h.
         bindR (upd (handles w) (it_set it) (\<lambda>_. None)) (\<lambda>hs.
           Inr (w\<lparr>sds := h, handles := hs\<rparr>, it))))
       else
         bindR (deref (sds w) (it_cur it)) (\<lambda>c.
         bindR (upd (sds w) (it_prev it) (set_next (sd_next c))) (\<lambda>h.
         bindR (upd h (it_cur it) (set_next None)) (\<lambda>h'.
           if s = it_prev it then Inr (w\<lparr>sds := h'\<rparr>, it\<lparr>it_cur := None\<rparr>)
           else
             bindR (if s = it_cur it then upd (handles w) (it_set it) (\<lambda>_. it_prev it)
                    else Inr (handles w)) (\<lambda>hs.
               Inr (w\<lparr>sds := h', handles := hs\<rparr>, it\<lparr>it_cur := it_prev it\<rparr>))))))"

section \<open>Abstraction: a handle represents a list of descriptors\<close>

definition ss_rep :: "sd_store \<Rightarrow> addr \<Rightarrow> addr list \<Rightarrow> bool" where
  "ss_rep w p xs \<longleftrightarrow> set xs \<subseteq> dom (sds w) \<and>
     (case handles w p of None \<Rightarrow> False | Some s \<Rightarrow> clist (fld sd_next (sds w)) s xs)"

lemma ss_repE:
  assumes "ss_rep w p xs"
  obtains s where "handles w p = Some s" "clist (fld sd_next (sds w)) s xs" "set xs \<subseteq> dom (sds w)"
  using assms by (auto simp: ss_rep_def split: option.splits)

lemma ss_rep_empty: "ss_rep w p [] \<longleftrightarrow> handles w p = Some None"
  by (auto simp: ss_rep_def split: option.splits)

lemma streamset_put:
  assumes rep: "ss_rep w p xs" and n: "n \<notin> set xs" "sds w n = Some d"
  shows "\<exists>w'. LpelStreamsetPut w (Some p) (Some n) = Inr w' \<and> ss_rep w' p (xs @ [n]) \<and>
    dom (sds w') = dom (sds w)"
proof -
  from rep obtain s where s: "handles w p = Some s" "clist (fld sd_next (sds w)) s xs"
    "set xs \<subseteq> dom (sds w)" by (rule ss_repE)
  show ?thesis
  proof (cases s)
    case None
    with s n show ?thesis by (auto simp: LpelStreamsetPut_def ss_rep_def clist_single)
  next
    case (Some l)
    with s have l: "l \<in> set xs" by (simp add: clist_last_in)
    with s obtain c where c: "sds w l = Some c" by auto
    from l n have "l \<noteq> n" by auto
    with s l c n Some clist_insert [of "fld sd_next (sds w)" l xs n] show ?thesis
      by (auto simp: LpelStreamsetPut_def ss_rep_def)
  qed
qed

section \<open>Removal by search\<close>

lemma remove_loop_chain:
  assumes "chain (fld sd_next h) (fld sd_next h c) zs q" and "set (c # zs) \<subseteq> dom h"
    and "zs \<noteq> []" and "distinct zs"
  shows "remove_loop h (Some (last zs)) (Some n) (Some c) =
    Some (Inr (if n \<in> set zs then (Some (last (c # takeWhile (\<lambda>x. x \<noteq> n) zs)), Some n)
               else (Some (last (c # butlast zs)), Some (last zs))))"
  using assms
proof (induction zs arbitrary: c)
  case Nil
  then show ?case by simp
next
  case (Cons z zs)
  from Cons.prems obtain d where d: "h c = Some d" "sd_next d = Some z" by (auto simp: fld_def)
  show ?case
  proof (cases "z = n \<or> zs = []")
    case True
    with d show ?thesis by (auto simp: remove_loop.simps [of h _ _ "Some c"])
  next
    case False
    then have "z \<noteq> last zs" using Cons.prems by auto
    with False d Cons.IH [of z] Cons.prems show ?thesis
      by (auto simp: remove_loop.simps [of h _ _ "Some c"])
  qed
qed

lemma clist_loop_chain: "clist nx (Some l) xs \<Longrightarrow> chain nx (nx l) xs (nx l)"
  by (metis clist_def clist_last_next clist_Some_last)

lemma streamset_remove_absent:
  assumes rep: "ss_rep w p xs" and xs: "xs \<noteq> []" "n \<notin> set xs"
  shows "LpelStreamsetRemove w (Some p) (Some n) = Some (Inr (-1, w))"
proof -
  from rep obtain s where s: "handles w p = Some s" "clist (fld sd_next (sds w)) s xs"
    "set xs \<subseteq> dom (sds w)" by (rule ss_repE)
  with xs have l: "s = Some (last xs)" "distinct xs" by (auto simp: clist_def)
  with s have "chain (fld sd_next (sds w)) (fld sd_next (sds w) (last xs)) xs (fld sd_next (sds w) (last xs))"
    using clist_loop_chain by blast
  moreover have "last xs \<in> dom (sds w)" using s xs by (meson last_in_set subsetD)
  moreover have "last xs \<noteq> n" using xs last_in_set by blast
  ultimately show ?thesis
    using remove_loop_chain [of "sds w" "last xs" xs _ n] s l xs
    by (auto simp: LpelStreamsetRemove_def)
qed

lemma takeWhile_neq: "n \<notin> set as \<Longrightarrow> takeWhile (\<lambda>x. x \<noteq> n) (as @ n # bs) = as"
  by (induction as) auto

lemma streamset_remove_present:
  assumes rep: "ss_rep w p (as @ n # bs)"
  shows "\<exists>w'. LpelStreamsetRemove w (Some p) (Some n) = Some (Inr (0, w')) \<and> ss_rep w' p (as @ bs) \<and>
    dom (sds w') = dom (sds w)"
proof -
  let ?xs = "as @ n # bs" and ?nx = "fld sd_next (sds w)"
  from rep obtain s where s: "handles w p = Some s" "clist ?nx s ?xs"
    "set ?xs \<subseteq> dom (sds w)" by (rule ss_repE)
  define l where "l = last ?xs"
  have l: "s = Some l" "distinct ?xs" "l \<in> set ?xs" using s(2) by (auto simp: clist_def l_def)
  with s have ch: "chain ?nx (?nx l) ?xs (?nx l)" using clist_loop_chain by blast
  from l have n: "n \<notin> set as" "n \<notin> set bs" by auto
  have loop: "remove_loop (sds w) (Some l) (Some n) (Some l) = Some (Inr (Some (last (l # as)), Some n))"
  proof -
    have "l \<in> dom (sds w)" using s l by blast
    then show ?thesis
      using remove_loop_chain [OF ch, of n] s(3) l(2) n by (simp add: takeWhile_neq flip: l_def)
  qed
  from s obtain c where c: "sds w n = Some c" by auto
  from s l obtain cl where cl: "sds w l = Some cl" by (metis domD subsetD)
  show ?thesis
  proof (cases as rule: rev_cases)
    case Nil
    show ?thesis
    proof (cases "bs = []")
      case True
      with Nil l_def loop s l show ?thesis
        by (auto simp: LpelStreamsetRemove_def ss_rep_def)
    next
      case False
      then have "l \<noteq> n" using Nil n l_def by auto
      with clist_pop [of ?nx l n bs] False Nil s l n c cl loop l_def show ?thesis
        by (auto simp: LpelStreamsetRemove_def ss_rep_def clist_upd)
    qed
  next
    case (snoc ys a)
    then have an: "a \<noteq> n" using n by auto
    from s snoc obtain ca where ca: "sds w a = Some ca" by auto
    have "clist (?nx(a := ?nx n)) (Some (last (ys @ a # bs))) (ys @ a # bs)"
      using clist_unlink [of ?nx s ys a n bs] s snoc by simp
    moreover have "n \<notin> set (ys @ a # bs)" using n snoc an by auto
    ultimately show ?thesis
      using snoc s l n c ca an loop l_def
      by (cases "bs = []") (auto simp: LpelStreamsetRemove_def ss_rep_def clist_upd)
  qed
qed

text \<open>\<open>LpelStreamPoll\<close> rotates the set by moving the handle.\<close>

lemma clist_rotate:
  assumes "clist nx s (ys @ y # zs)"
  shows "clist nx (Some y) (zs @ ys @ [y])"
  using assms by (cases ys; cases zs) (auto simp: clist_def)

lemma ss_rep_rotate:
  assumes "ss_rep w p (ys @ y # zs)"
  shows "ss_rep (w\<lparr>handles := (handles w)(p \<mapsto> Some y)\<rparr>) p (zs @ ys @ [y])"
  using assms clist_rotate by (fastforce simp: ss_rep_def split: option.splits)

section \<open>Iteration\<close>

text \<open>
  \<open>it_rep w it done todo\<close>: the iterator has visited \<open>done\<close> and will visit \<open>todo\<close>.
  With \<open>exact\<close>, the current element may be removed (its predecessor is known).
\<close>

definition it_rep :: "sd_store \<Rightarrow> lpel_stream_iter_t \<Rightarrow> addr list \<Rightarrow> addr list \<Rightarrow> bool" where
  "it_rep w it ds todo \<longleftrightarrow>
     (case it_set it of None \<Rightarrow> False | Some p \<Rightarrow> ss_rep w p (ds @ todo)) \<and>
     (ds = [] \<and> todo \<noteq> [] \<longrightarrow> it_cur it = None \<and> it_prev it = Some (last todo)) \<and>
     (ds \<noteq> [] \<longrightarrow> it_cur it = Some (last ds))"

definition it_exact :: "lpel_stream_iter_t \<Rightarrow> addr list \<Rightarrow> addr list \<Rightarrow> bool" where
  "it_exact it ds todo \<longleftrightarrow>
     it_prev it = Some (if length ds = 1 then last (ds @ todo) else last (butlast ds))"

lemma it_repE:
  assumes "it_rep w it ds todo"
  obtains p s where "it_set it = Some p" "handles w p = Some s" "clist (fld sd_next (sds w)) s (ds @ todo)"
    "set (ds @ todo) \<subseteq> dom (sds w)"
proof -
  from assms obtain p where p: "it_set it = Some p" "ss_rep w p (ds @ todo)"
    by (auto simp: it_rep_def split: option.splits)
  then show ?thesis using that by (metis ss_repE)
qed

lemma iter_create:
  assumes "ss_rep w p xs"
  shows "\<exists>it. LpelStreamIterCreate w (Some p) = Inr it \<and> it_rep w it [] xs"
proof -
  from assms obtain s where s: "handles w p = Some s" "clist (fld sd_next (sds w)) s xs"
    "set xs \<subseteq> dom (sds w)" by (rule ss_repE)
  then have "xs \<noteq> [] \<longrightarrow> s = Some (last xs)" by (auto simp: clist_def)
  with assms s show ?thesis by (simp add: LpelStreamIterCreate_def it_rep_def)
qed

lemma iter_reset:
  assumes "ss_rep w p xs"
  shows "\<exists>it'. LpelStreamIterReset w it (Some p) = Inr it' \<and> it_rep w it' [] xs"
proof -
  from assms obtain s where s: "handles w p = Some s" "clist (fld sd_next (sds w)) s xs"
    "set xs \<subseteq> dom (sds w)" by (rule ss_repE)
  then have "xs \<noteq> [] \<longrightarrow> s = Some (last xs)" by (auto simp: clist_def)
  with assms s show ?thesis by (simp add: LpelStreamIterReset_def it_rep_def)
qed

lemma iter_has_next:
  assumes "it_rep w it ds todo"
  shows "LpelStreamIterHasNext w it = Inr (todo \<noteq> [])"
proof -
  from assms obtain p s where p: "it_set it = Some p" "handles w p = Some s"
    "clist (fld sd_next (sds w)) s (ds @ todo)" by (rule it_repE)
  have "s \<noteq> None \<and> (it_cur it \<noteq> s \<or> it_cur it = None) \<longleftrightarrow> todo \<noteq> []"
  proof (cases "ds = []")
    case True
    with assms p show ?thesis by (cases "todo = []") (auto simp: it_rep_def clist_def)
  next
    case False
    then have "it_cur it = Some (last ds)" "s = Some (last (ds @ todo))" "distinct (ds @ todo)"
      using assms p by (auto simp: it_rep_def clist_def)
    moreover have "last ds = last (ds @ todo) \<longleftrightarrow> todo = []"
      using False \<open>distinct (ds @ todo)\<close> by (metis append_Nil2 disjoint_iff distinct_append last_appendR last_in_set)
    ultimately show ?thesis by auto
  qed
  with p show ?thesis by (simp add: LpelStreamIterHasNext_def)
qed

lemma iter_next:
  assumes rep: "it_rep w it ds (x # todo)"
  shows "\<exists>it'. LpelStreamIterNext w it = Inr (Some x, it') \<and> it_rep w it' (ds @ [x]) todo \<and>
    it_exact it' (ds @ [x]) todo \<and> it_set it' = it_set it"
proof -
  from rep obtain p s where p: "it_set it = Some p" "handles w p = Some s"
    "clist (fld sd_next (sds w)) s (ds @ x # todo)" "set (ds @ x # todo) \<subseteq> dom (sds w)" by (rule it_repE)
  have hn: "LpelStreamIterHasNext w it = Inr True" using iter_has_next [OF rep] by simp
  have srep: "ss_rep w p (ds @ x # todo)" using rep p by (simp add: it_rep_def)
  show ?thesis
  proof (cases ds rule: rev_cases)
    case Nil
    then have cur: "it_cur it = None" "it_prev it = Some (last (x # todo))" using rep by (auto simp: it_rep_def)
    from p Nil have "fld sd_next (sds w) (last (x # todo)) = Some x"
      by (metis append_Nil clist_def clist_last_next list.sel(1) list.distinct(1))
    moreover have "last (x # todo) \<in> dom (sds w)"
      using p last_in_set [of "x # todo"] by auto
    ultimately obtain c where "sds w (last (x # todo)) = Some c" "sd_next c = Some x" by auto
    with Nil cur hn p srep show ?thesis
      by (simp add: LpelStreamIterNext_def it_rep_def it_exact_def)
  next
    case (snoc ys y)
    then have cur: "it_cur it = Some y" using rep by (auto simp: it_rep_def)
    from p snoc have "fld sd_next (sds w) y = Some x"
      using clist_split [of "fld sd_next (sds w)" s ys y x todo] by simp
    moreover have "y \<in> dom (sds w)" using p snoc by auto
    ultimately obtain c where "sds w y = Some c" "sd_next c = Some x" by auto
    with snoc cur hn p srep show ?thesis
      by (simp add: LpelStreamIterNext_def it_rep_def it_exact_def butlast_append)
  qed
qed


lemma iter_append:
  assumes rep: "it_rep w it ds todo" and ne: "ds @ todo \<noteq> []"
    and n: "n \<notin> set (ds @ todo)" "sds w n = Some d"
  shows "\<exists>w' it'. LpelStreamIterAppend w it (Some n) = Inr (w', it') \<and> it_rep w' it' ds (todo @ [n]) \<and>
    dom (sds w') = dom (sds w)"
proof -
  from rep obtain p s where p: "it_set it = Some p" "handles w p = Some s"
    "clist (fld sd_next (sds w)) s (ds @ todo)" "set (ds @ todo) \<subseteq> dom (sds w)" by (rule it_repE)
  with ne obtain l where l: "s = Some l" by (cases s) auto
  then have l2: "l = last (ds @ todo)" "l \<in> set (ds @ todo)"
    using p(3) clist_Some_last clist_last_in by blast+
  with p obtain c where c: "sds w l = Some c" by blast
  have ln: "l \<noteq> n" using l2 n by auto
  have cl: "clist ((fld sd_next (sds w))(n := sd_next c, l := Some n)) (Some n) (ds @ todo @ [n])"
    using clist_insert [of "fld sd_next (sds w)" l "ds @ todo" n] p l c n by simp
  let ?h = "(sds w)(n \<mapsto> d\<lparr>sd_next := sd_next c\<rparr>, l \<mapsto> c\<lparr>sd_next := Some n\<rparr>)"
  let ?w = "w\<lparr>sds := ?h, handles := (handles w)(p \<mapsto> Some n)\<rparr>"
  let ?it = "it\<lparr>it_prev := if it_prev it = Some l \<or> it_prev it = it_cur it then Some n else it_prev it\<rparr>"
  have cur: "it_cur it \<noteq> Some n"
    using rep n ne by (cases "ds = []"; cases "todo = []") (auto simp: it_rep_def)
  have "LpelStreamIterAppend w it (Some n) = Inr (?w, ?it)"
    using p l c n ln cur by (auto simp: LpelStreamIterAppend_def Let_def)
  moreover have "ss_rep ?w p (ds @ todo @ [n])"
    using cl p n l2 c by (auto simp: ss_rep_def)
  then have "it_rep ?w ?it ds (todo @ [n])"
    using rep p ne l2 by (cases "ds = []") (auto simp: it_rep_def)
  moreover have "dom ?h = dom (sds w)" using n c by auto
  ultimately show ?thesis by (intro exI [of _ ?w] exI [of _ ?it]) simp
qed

lemma iter_remove:
  assumes rep: "it_rep w it (ds @ [x]) todo" and ex: "it_exact it (ds @ [x]) todo"
  shows "\<exists>w' it'. LpelStreamIterRemove w it = Inr (w', it') \<and> it_rep w' it' ds todo \<and>
    dom (sds w') = dom (sds w) \<and> it_set it' = it_set it \<and> fld sd_next (sds w') x = None"
proof -
  let ?nx = "fld sd_next (sds w)"
  from rep obtain p s where p: "it_set it = Some p" "handles w p = Some s"
    "clist ?nx s ((ds @ [x]) @ todo)" "set ((ds @ [x]) @ todo) \<subseteq> dom (sds w)" by (rule it_repE)
  have cur: "it_cur it = Some x" using rep by (simp add: it_rep_def)
  from p obtain c where c: "sds w x = Some c" by auto
  have s: "s = Some (last ((ds @ [x]) @ todo))" and di: "distinct ((ds @ [x]) @ todo)"
    using p(3) by (auto simp: clist_def)
  show ?thesis
  proof (cases ds rule: rev_cases)
    case Nil
    then have prev: "it_prev it = s" using ex s by (simp add: it_exact_def)
    show ?thesis
    proof (cases "todo = []")
      case True
      with Nil prev cur c p s show ?thesis
        by (auto simp: LpelStreamIterRemove_def it_rep_def ss_rep_def)
    next
      case False
      then have neq: "last todo \<noteq> x" using di Nil by auto
      obtain cl where cl: "sds w (last todo) = Some cl" using p False by (auto dest: last_in_set)
      have "clist (?nx(last todo := ?nx x)) (Some (last todo)) todo"
        using clist_pop [of ?nx "last todo" x todo] p Nil False s by simp
      moreover have "x \<notin> set todo" using di by auto
      ultimately show ?thesis
        using Nil prev cur c cl p s False neq di
        by (auto simp: LpelStreamIterRemove_def it_rep_def ss_rep_def clist_upd)
    qed
  next
    case (snoc ys y)
    then have prev: "it_prev it = Some y" using ex by (simp add: it_exact_def butlast_append)
    have yx: "y \<noteq> x" "y \<notin> set todo" "x \<notin> set (ys @ y # todo)" using di snoc by auto
    obtain cy where cy: "sds w y = Some cy" using p snoc by auto
    have "clist (?nx(y := ?nx x)) (Some (last (ys @ y # todo))) (ys @ y # todo)"
      using clist_unlink [of ?nx s ys y x todo] p snoc by simp
    moreover have "s \<noteq> Some y"
      using s yx by (cases "todo = []") (auto dest: last_in_set)
    moreover have "s = Some x \<longleftrightarrow> todo = []"
      using s yx by (cases "todo = []") (auto dest: last_in_set)
    ultimately show ?thesis
      using snoc prev cur c cy p s yx
      by (cases "todo = []") (auto simp: LpelStreamIterRemove_def it_rep_def ss_rep_def clist_upd)
  qed
qed


section \<open>Whole iterations\<close>

text \<open>
  The loop every client of the iterator runs: \<open>while (HasNext) { sd = Next; if (P sd) Remove; }\<close>.
  It returns the descriptors visited; \<open>None\<close> would be a loop that never ends.
\<close>

partial_function (option) iter_filter ::
    "(addr \<Rightarrow> bool) \<Rightarrow> sd_store \<Rightarrow> lpel_stream_iter_t \<Rightarrow> ptr list \<Rightarrow> ((ptr list \<times> sd_store) res) option" where
  "iter_filter P w it acc =
     (case LpelStreamIterHasNext w it of Inl e \<Rightarrow> Some (Inl e)
      | Inr b \<Rightarrow> (if \<not> b then Some (Inr (acc, w)) else
          (case LpelStreamIterNext w it of Inl e \<Rightarrow> Some (Inl e)
           | Inr r \<Rightarrow> (case fst r of None \<Rightarrow> Some (Inl NullDeref)
               | Some x \<Rightarrow> (if \<not> P x then iter_filter P w (snd r) (acc @ [Some x]) else
                   (case LpelStreamIterRemove w (snd r) of Inl e \<Rightarrow> Some (Inl e)
                    | Inr q \<Rightarrow> iter_filter P (fst q) (snd q) (acc @ [Some x])))))))"

lemma iter_filter_run:
  "it_rep w it ds todo \<Longrightarrow> it_set it = Some p \<Longrightarrow>
   \<exists>w'. iter_filter P w it acc = Some (Inr (acc @ map Some todo, w')) \<and>
     ss_rep w' p (ds @ filter (\<lambda>x. \<not> P x) todo) \<and> dom (sds w') = dom (sds w)"
proof (induction todo arbitrary: w it ds acc)
  case Nil
  then show ?case
    using iter_has_next [OF Nil.prems(1)]
    by (auto simp: iter_filter.simps [of P w it] it_rep_def)
next
  case (Cons x todo)
  from iter_next [OF Cons.prems(1)] obtain it1 where it1: "LpelStreamIterNext w it = Inr (Some x, it1)"
    "it_rep w it1 (ds @ [x]) todo" "it_exact it1 (ds @ [x]) todo" "it_set it1 = Some p"
    using Cons.prems by auto
  show ?case
  proof (cases "P x")
    case True
    from iter_remove [OF it1(2,3)] obtain w2 it2 where
      "LpelStreamIterRemove w it1 = Inr (w2, it2)" "it_rep w2 it2 ds todo"
      "dom (sds w2) = dom (sds w)" "it_set it2 = Some p"
      using it1 by auto
    with Cons.IH [of w2 it2 ds "acc @ [Some x]"] True it1 iter_has_next [OF Cons.prems(1)]
    show ?thesis by (auto simp: iter_filter.simps [of P w it])
  next
    case False
    with Cons.IH [of w it1 "ds @ [x]" "acc @ [Some x]"] it1 iter_has_next [OF Cons.prems(1)]
    show ?thesis by (auto simp: iter_filter.simps [of P w it])
  qed
qed

text \<open>
  C19: Iterating a stream set with removal. For every predicate, the loop of
  \<open>LpelStreamIterHasNext\<close>, \<open>LpelStreamIterNext\<close> and \<open>LpelStreamIterRemove\<close> over a
  non-corrupt set terminates without an assertion failure or a bad dereference, visits every
  descriptor exactly once in list order, and leaves exactly the descriptors that were not
  removed, in order, with the handle on the last of them (\<open>NULL\<close> if none is left).
\<close>

theorem streamset_iterate_remove:
  assumes "ss_rep w p xs"
  shows "\<exists>it w'. LpelStreamIterCreate w (Some p) = Inr it \<and>
    iter_filter P w it [] = Some (Inr (map Some xs, w')) \<and> ss_rep w' p (filter (\<lambda>x. \<not> P x) xs)"
proof -
  from iter_create [OF assms] obtain it where it: "LpelStreamIterCreate w (Some p) = Inr it" "it_rep w it [] xs"
    by blast
  moreover from it have "it_set it = Some p"
    using assms by (auto simp: LpelStreamIterCreate_def elim!: ss_repE)
  ultimately show ?thesis using iter_filter_run [of w it "[]" xs p P "[]"] by auto
qed

definition sd0 :: lpel_stream_desc_t where
  "sd0 = \<lparr>sd_task = None, sd_stream = None, sd_mode = CHR ''r'', sd_next = None, sd_mon = None\<rparr>"

definition store0 :: sd_store where
  "store0 = \<lparr>sds = [1 \<mapsto> sd0\<lparr>sd_next := Some 2\<rparr>, 2 \<mapsto> sd0\<lparr>sd_next := Some 1\<rparr>, 3 \<mapsto> sd0],
     handles = [9 \<mapsto> Some 2]\<rparr>"

theorem streamset_iterate_remove_witness:
  "ss_rep store0 9 [1, 2] \<and>
   (\<exists>it w'. LpelStreamIterCreate store0 (Some 9) = Inr it \<and>
      iter_filter (\<lambda>x. x = 2) store0 it [] = Some (Inr ([Some 1, Some 2], w')) \<and> ss_rep w' 9 [1])"
proof -
  have r: "ss_rep store0 9 [1, 2]"
    by (auto simp: ss_rep_def store0_def clist_def sd0_def)
  from streamset_iterate_remove [OF r, of "\<lambda>x. x = 2"] r show ?thesis by simp
qed

text \<open>
  \<open>LpelStreamsetPut\<close> and \<open>LpelStreamsetRemove\<close> on the represented list. Putting a
  descriptor that is not in the set appends it as the new last element; the search loop of
  \<open>LpelStreamsetRemove\<close> ends on every non-empty set, returns 0 and unlinks the descriptor if it
  is contained (the handle moves back when the last one goes), and returns -1 with the set
  unchanged if it is not.
\<close>

theorem streamset_put_remove:
  assumes "ss_rep w p xs"
  shows "(sds w n \<noteq> None \<and> n \<notin> set xs \<longrightarrow>
      (\<exists>w'. LpelStreamsetPut w (Some p) (Some n) = Inr w' \<and> ss_rep w' p (xs @ [n])))
    \<and> (n \<in> set xs \<longrightarrow>
      (\<exists>w'. LpelStreamsetRemove w (Some p) (Some n) = Some (Inr (0, w')) \<and> ss_rep w' p (remove1 n xs)))
    \<and> (xs \<noteq> [] \<and> n \<notin> set xs \<longrightarrow> LpelStreamsetRemove w (Some p) (Some n) = Some (Inr (-1, w)))
    \<and> (xs = [] \<longrightarrow> LpelStreamsetRemove w (Some p) (Some n) = Some (Inl AssertFail))
    \<and> LpelStreamsetIsEmpty w (Some p) = Inr (xs = [])"
proof -
  have put: "\<exists>w'. LpelStreamsetPut w (Some p) (Some n) = Inr w' \<and> ss_rep w' p (xs @ [n])"
    if "sds w n \<noteq> None" "n \<notin> set xs"
    using streamset_put [OF assms that(2)] that(1) by auto
  have rm: "\<exists>w'. LpelStreamsetRemove w (Some p) (Some n) = Some (Inr (0, w')) \<and> ss_rep w' p (remove1 n xs)"
    if "n \<in> set xs"
  proof -
    from that obtain as bs where xs: "xs = as @ n # bs" "n \<notin> set as" by (metis split_list_first)
    then show ?thesis using streamset_remove_present [of w p as n bs] assms
      by (auto simp: remove1_append)
  qed
  from assms obtain s where s: "handles w p = Some s" "clist (fld sd_next (sds w)) s xs" by (rule ss_repE)
  then have "LpelStreamsetIsEmpty w (Some p) = Inr (xs = [])"
    by (cases s) (auto simp: LpelStreamsetIsEmpty_def)
  moreover have "xs = [] \<longrightarrow> LpelStreamsetRemove w (Some p) (Some n) = Some (Inl AssertFail)"
    using s by (auto simp: LpelStreamsetRemove_def)
  ultimately show ?thesis using put rm streamset_remove_absent [OF assms] by blast
qed

theorem streamset_put_remove_witness:
  "\<exists>w w'. LpelStreamsetPut store0 (Some 9) (Some 3) = Inr w \<and> ss_rep w 9 [1, 2, 3] \<and>
     LpelStreamsetRemove store0 (Some 9) (Some 2) = Some (Inr (0, w')) \<and> ss_rep w' 9 [1]"
proof -
  have r: "ss_rep store0 9 [1, 2]"
    by (auto simp: ss_rep_def store0_def clist_def sd0_def)
  have "sds store0 3 \<noteq> None" by (simp add: store0_def)
  with streamset_put_remove [OF r, of 3] streamset_put_remove [OF r, of 2] show ?thesis by auto
qed

end
