(* ===== verification/Stream_System.thy ===== *)
theory Stream_System
  imports Stream_Protocol Streamset
begin

text \<open>
  A consumer task and its producers running the stream functions interleaved, one atomic section
  at a time, for any implementation of the sections. \<open>stream_ops\<close> collects the sections of
  \<open>LpelStreamWrite\<close>, \<open>LpelStreamRead\<close> and \<open>LpelStreamPoll\<close>; \<open>exec\<close> runs the next section of one
  task. The locale \<open>stream_sections\<close> states what each section does to the shared memory, and shows
  from it that the system simulates the protocol. Both stream modules are instances.
\<close>

section \<open>The system\<close>

datatype 'w poll_round = PollEnd | PollHit bool 'w | PollMark lpel_stream_iter_t 'w

record 'w stream_ops =
  so_write_enter :: "'w \<Rightarrow> ptr \<Rightarrow> ptr \<Rightarrow> (bool \<times> 'w) res"
  so_write_put :: "ptr \<Rightarrow> 'w \<Rightarrow> ptr \<Rightarrow> ptr \<Rightarrow> (int \<times> 'w) res"
  so_write_signal :: "'w \<Rightarrow> ptr \<Rightarrow> int \<Rightarrow> (ptr option \<times> 'w) res"
  so_read_enter :: "'w \<Rightarrow> ptr \<Rightarrow> (bool \<times> 'w) res"
  so_read_pop :: "'w \<Rightarrow> ptr \<Rightarrow> (ptr \<times> 'w) res"
  so_read_signal :: "'w \<Rightarrow> ptr \<Rightarrow> (ptr option \<times> 'w) res"
  so_poll_begin :: "'w \<Rightarrow> ptr \<Rightarrow> (ptr \<times> lpel_stream_iter_t) res"
  so_poll_fast :: "'w \<Rightarrow> lpel_stream_iter_t \<Rightarrow> ((ptr \<times> bool \<times> lpel_stream_iter_t) option) res"
  so_poll_token :: "'w \<Rightarrow> ptr \<Rightarrow> ptr \<Rightarrow> lpel_stream_iter_t \<Rightarrow> (lpel_stream_iter_t \<times> 'w) res"
  so_poll_register :: "'w \<Rightarrow> ptr \<Rightarrow> lpel_stream_iter_t \<Rightarrow> ('w poll_round) res"
  so_poll_awake :: "'w \<Rightarrow> ptr \<Rightarrow> ptr \<Rightarrow> lpel_stream_iter_t \<Rightarrow> lpel_stream_iter_t res"
  so_poll_unregister :: "'w \<Rightarrow> lpel_stream_iter_t \<Rightarrow> ((lpel_stream_iter_t \<times> 'w) option) res"
  so_poll_finish :: "'w \<Rightarrow> ptr \<Rightarrow> ptr \<Rightarrow> (ptr \<times> 'w) res"
  so_set_handle :: "'w \<Rightarrow> ptr \<Rightarrow> ptr \<Rightarrow> 'w res"
  so_sds :: "'w \<Rightarrow> sd_store"
  so_alloc :: "'w \<Rightarrow> ptr \<Rightarrow> ptr \<Rightarrow> bool"

text \<open>The addresses of the streams, descriptors and tasks, and of the handle of the poll set.\<close>

record net =
  nt_ns :: nat
  nt_stream :: "nat \<Rightarrow> addr"
  nt_psd :: "nat \<Rightarrow> addr"
  nt_csd :: "nat \<Rightarrow> addr"
  nt_ptask :: "nat \<Rightarrow> addr"
  nt_ctask :: addr
  nt_handle :: addr

datatype qpc = QIdle | QBlocked addr | QPut addr | QSignal int

datatype dpc = DIdle | DRBlocked nat | DRPop nat | DRSignal nat
  | DFast ptr lpel_stream_iter_t | DReg ptr lpel_stream_iter_t int | DBlocked ptr lpel_stream_iter_t int
  | DUnreg ptr lpel_stream_iter_t int | DFinish ptr

record 'w ssys =
  sy_store :: 'w
  sy_wpc :: "nat \<Rightarrow> qpc"
  sy_cpc :: dpc
  sy_wakes :: "addr \<Rightarrow> nat"
  sy_sent :: "nat \<Rightarrow> addr list"
  sy_got :: "nat \<Rightarrow> addr list"
  sy_ret :: ptr

text \<open>\<open>LpelTaskUnblock\<close> leaves a wakeup for the task.\<close>

definition wake_task :: "ptr option \<Rightarrow> 'w ssys \<Rightarrow> 'w ssys res" where
  "wake_task whom s = (case whom of None \<Rightarrow> Inr s
     | Some None \<Rightarrow> Inl AssertFail
     | Some (Some t) \<Rightarrow> Inr (s\<lparr>sy_wakes := (sy_wakes s)(t := sy_wakes s t + 1)\<rparr>))"

fun exec :: "'w stream_ops \<Rightarrow> net \<Rightarrow> event \<Rightarrow> 'w ssys \<Rightarrow> 'w ssys run" where
  "exec ops N (EvWrite i x) s =
     (if i < nt_ns N \<and> sy_wpc s i = QIdle then
        Some (bindR (so_write_enter ops (sy_store s) (Some (nt_psd N i)) (Some x)) (\<lambda>(full, w).
          Inr (s\<lparr>sy_store := w, sy_wpc := (sy_wpc s)(i := if full then QBlocked x else QPut x)\<rparr>)))
      else None)"
| "exec ops N (EvWResume i) s =
     (if i < nt_ns N \<and> 0 < sy_wakes s (nt_ptask N i) then
        (case sy_wpc s i of QBlocked x \<Rightarrow>
           Some (Inr (s\<lparr>sy_wpc := (sy_wpc s)(i := QPut x),
             sy_wakes := (sy_wakes s)(nt_ptask N i := sy_wakes s (nt_ptask N i) - 1)\<rparr>))
         | _ \<Rightarrow> None)
      else None)"
| "exec ops N (EvPut i new) s =
     (if i < nt_ns N \<and> so_alloc ops (sy_store s) (Some (nt_psd N i)) new then
        (case sy_wpc s i of QPut x \<Rightarrow>
           Some (bindR (so_write_put ops new (sy_store s) (Some (nt_psd N i)) (Some x)) (\<lambda>(pw, w).
             Inr (s\<lparr>sy_store := w, sy_wpc := (sy_wpc s)(i := QSignal pw),
               sy_sent := (sy_sent s)(i := sy_sent s i @ [x])\<rparr>)))
         | _ \<Rightarrow> None)
      else None)"
| "exec ops N (EvSignal i) s =
     (if i < nt_ns N then
        (case sy_wpc s i of QSignal pw \<Rightarrow>
           Some (bindR (so_write_signal ops (sy_store s) (Some (nt_psd N i)) pw) (\<lambda>(whom, w).
             wake_task whom (s\<lparr>sy_store := w, sy_wpc := (sy_wpc s)(i := QIdle)\<rparr>)))
         | _ \<Rightarrow> None)
      else None)"
| "exec ops N (EvRead i) s =
     (if i < nt_ns N \<and> sy_cpc s = DIdle then
        Some (bindR (so_read_enter ops (sy_store s) (Some (nt_csd N i))) (\<lambda>(empty, w).
          Inr (s\<lparr>sy_store := w, sy_cpc := (if empty then DRBlocked i else DRPop i)\<rparr>)))
      else None)"
| "exec ops N EvRResume s =
     (case sy_cpc s of DRBlocked i \<Rightarrow>
        if 0 < sy_wakes s (nt_ctask N) then
          Some (Inr (s\<lparr>sy_cpc := DRPop i, sy_wakes := (sy_wakes s)(nt_ctask N := sy_wakes s (nt_ctask N) - 1)\<rparr>))
        else None
      | _ \<Rightarrow> None)"
| "exec ops N EvPop s =
     (case sy_cpc s of DRPop i \<Rightarrow>
        Some (bindR (so_read_pop ops (sy_store s) (Some (nt_csd N i))) (\<lambda>(item, w).
          Inr (s\<lparr>sy_store := w, sy_cpc := DRSignal i, sy_got := (sy_got s)(i := sy_got s i @ [the item])\<rparr>)))
      | _ \<Rightarrow> None)"
| "exec ops N EvRSignal s =
     (case sy_cpc s of DRSignal i \<Rightarrow>
        Some (bindR (so_read_signal ops (sy_store s) (Some (nt_csd N i))) (\<lambda>(whom, w).
          wake_task whom (s\<lparr>sy_store := w, sy_cpc := DIdle\<rparr>)))
      | _ \<Rightarrow> None)"
| "exec ops N EvPoll s =
     (if sy_cpc s = DIdle \<and> handles (so_sds ops (sy_store s)) (nt_handle N) \<noteq> Some None then
        Some (bindR (so_poll_begin ops (sy_store s) (Some (nt_handle N))) (\<lambda>(self, it).
          Inr (s\<lparr>sy_cpc := DFast self it\<rparr>)))
      else None)"
| "exec ops N EvFast s =
     (case sy_cpc s of DFast self it \<Rightarrow>
        Some (bindR (so_poll_fast ops (sy_store s) it) (\<lambda>r. case r of
            None \<Rightarrow> bindR (so_poll_token ops (sy_store s) (Some (nt_handle N)) self it) (\<lambda>(it', w).
              Inr (s\<lparr>sy_store := w, sy_cpc := DReg self it' 0\<rparr>))
          | Some (sd, hit, it') \<Rightarrow>
              if hit then bindR (so_set_handle ops (sy_store s) (Some (nt_handle N)) sd) (\<lambda>w.
                Inr (s\<lparr>sy_store := w, sy_cpc := DIdle, sy_ret := sd\<rparr>))
              else Inr (s\<lparr>sy_cpc := DFast self it'\<rparr>)))
      | _ \<Rightarrow> None)"
| "exec ops N EvReg s =
     (case sy_cpc s of DReg self it cnt \<Rightarrow>
        Some (bindR (so_poll_register ops (sy_store s) self it) (\<lambda>r. case r of
            PollEnd \<Rightarrow> Inr (s\<lparr>sy_cpc := DBlocked self it cnt\<rparr>)
          | PollHit tok w \<Rightarrow>
              if tok then bindR (so_poll_awake ops w (Some (nt_handle N)) self it) (\<lambda>it'.
                Inr (s\<lparr>sy_store := w, sy_cpc := DUnreg self it' cnt\<rparr>))
              else Inr (s\<lparr>sy_store := w, sy_cpc := DBlocked self it cnt\<rparr>)
          | PollMark it' w \<Rightarrow> Inr (s\<lparr>sy_store := w, sy_cpc := DReg self it' (cnt + 1)\<rparr>)))
      | _ \<Rightarrow> None)"
| "exec ops N EvPResume s =
     (case sy_cpc s of DBlocked self it cnt \<Rightarrow>
        if 0 < sy_wakes s (nt_ctask N) then
          Some (bindR (so_poll_awake ops (sy_store s) (Some (nt_handle N)) self it) (\<lambda>it'.
            Inr (s\<lparr>sy_cpc := DUnreg self it' cnt, sy_wakes := (sy_wakes s)(nt_ctask N := sy_wakes s (nt_ctask N) - 1)\<rparr>)))
        else None
      | _ \<Rightarrow> None)"
| "exec ops N EvUnreg s =
     (case sy_cpc s of DUnreg self it cnt \<Rightarrow>
        Some (bindR (so_poll_unregister ops (sy_store s) it) (\<lambda>r. case r of
            None \<Rightarrow> Inr (s\<lparr>sy_cpc := DFinish self\<rparr>)
          | Some (it', w) \<Rightarrow>
              Inr (s\<lparr>sy_store := w, sy_cpc := (if cnt - 1 = 0 then DFinish self else DUnreg self it' (cnt - 1))\<rparr>)))
      | _ \<Rightarrow> None)"
| "exec ops N EvFinish s =
     (case sy_cpc s of DFinish self \<Rightarrow>
        Some (bindR (so_poll_finish ops (sy_store s) (Some (nt_handle N)) self) (\<lambda>(sd, w).
          Inr (s\<lparr>sy_store := w, sy_cpc := DIdle, sy_ret := sd\<rparr>)))
      | _ \<Rightarrow> None)"

text \<open>A field of the stream with index \<open>i\<close>.\<close>

definition at_idx :: "net \<Rightarrow> 'c heap \<Rightarrow> 'b \<Rightarrow> ('c \<Rightarrow> 'b) \<Rightarrow> nat \<Rightarrow> 'b" where
  "at_idx N h d f i = (if i < nt_ns N then (case h (nt_stream N i) of None \<Rightarrow> d | Some c \<Rightarrow> f c) else d)"

lemma at_idx_Some [simp]: "i < nt_ns N \<Longrightarrow> h (nt_stream N i) = Some c \<Longrightarrow> at_idx N h d f i = f c"
  by (simp add: at_idx_def)

lemma at_idx_upd:
  assumes "inj_on (nt_stream N) {..<nt_ns N}" and "i < nt_ns N"
  shows "at_idx N (h(nt_stream N i \<mapsto> c)) d f = (at_idx N h d f)(i := f c)"
proof
  fix j show "at_idx N (h(nt_stream N i \<mapsto> c)) d f j = ((at_idx N h d f)(i := f c)) j"
    using assms by (cases "j < nt_ns N") (auto simp: at_idx_def dest: inj_onD)
qed

lemma at_idx_same:
  assumes "inj_on (nt_stream N) {..<nt_ns N}" and "i < nt_ns N" and "h (nt_stream N i) = Some c" and "f c' = f c"
  shows "at_idx N (h(nt_stream N i \<mapsto> c')) d f = at_idx N h d f"
  using assms by (simp add: at_idx_upd fun_eq_iff)

section \<open>What the sections do\<close>

record sview =
  sv_items :: "nat \<Rightarrow> addr list"
  sv_n :: "nat \<Rightarrow> int"
  sv_e :: "nat \<Rightarrow> int"
  sv_poll :: "nat \<Rightarrow> bool"
  sv_token :: bool
  sv_wsd :: ptr

definition net_ok :: "net \<Rightarrow> bool" where
  "net_ok N \<longleftrightarrow> inj_on (nt_stream N) {..<nt_ns N} \<and> inj_on (nt_csd N) {..<nt_ns N} \<and> inj_on (nt_ptask N) {..<nt_ns N} \<and>
     (\<forall>i < nt_ns N. nt_ptask N i \<noteq> nt_ctask N)"

fun wpc_rel :: "qpc \<Rightarrow> wpc \<Rightarrow> bool" where
  "wpc_rel QIdle WIdle = True"
| "wpc_rel (QBlocked x) (WBlocked y) = (x = y)"
| "wpc_rel (QPut x) (WPut y) = (x = y)"
| "wpc_rel (QSignal pw) (WSignal b) = ((pw \<noteq> 0) = b)"
| "wpc_rel _ _ = False"

definition it_at :: "sd_store \<Rightarrow> net \<Rightarrow> nat list \<Rightarrow> lpel_stream_iter_t \<Rightarrow> nat \<Rightarrow> bool" where
  "it_at st N xs it k \<longleftrightarrow> it_rep st it (map (nt_csd N) (take k xs)) (map (nt_csd N) (drop k xs))"

definition pc_rel :: "sd_store \<Rightarrow> net \<Rightarrow> nat list \<Rightarrow> dpc \<Rightarrow> cpc \<Rightarrow> bool" where
  "pc_rel st N xs d c = (case d of
      DIdle \<Rightarrow> c = CIdle
    | DRBlocked i \<Rightarrow> c = RBlocked i
    | DRPop i \<Rightarrow> c = RPop i
    | DRSignal i \<Rightarrow> c = RSignal i
    | DFast self it \<Rightarrow> \<exists>k. c = PFast k \<and> self = Some (nt_ctask N) \<and> it_at st N xs it k
    | DReg self it cnt \<Rightarrow> \<exists>k. c = PReg k \<and> self = Some (nt_ctask N) \<and> it_at st N xs it k \<and> cnt = int k
    | DBlocked self it cnt \<Rightarrow> \<exists>k. c = PBlocked k \<and> self = Some (nt_ctask N) \<and> cnt = int k
    | DUnreg self it cnt \<Rightarrow> \<exists>k. c = PUnreg k cnt \<and> self = Some (nt_ctask N) \<and> it_at st N xs it k
    | DFinish self \<Rightarrow> c = PFinish \<and> self = Some (nt_ctask N))"

definition str_rel :: "net \<Rightarrow> (nat \<Rightarrow> nat option) \<Rightarrow> sview \<Rightarrow> 'w ssys \<Rightarrow> nat \<Rightarrow> astream \<Rightarrow> bool" where
  "str_rel N cap v s i t \<longleftrightarrow> a_items t = sv_items v i \<and> a_n t = sv_n v i \<and> a_e t = sv_e v i \<and> a_poll t = sv_poll v i \<and>
     a_cap t = cap i \<and> wpc_rel (sy_wpc s i) (a_wpc t) \<and> a_wake t = sy_wakes s (nt_ptask N i) \<and>
     a_sent t = sy_sent s i \<and> a_got t = sy_got s i"

definition sys_rel :: "'w stream_ops \<Rightarrow> net \<Rightarrow> (nat \<Rightarrow> nat option) \<Rightarrow> ('w \<Rightarrow> bool) \<Rightarrow> ('w \<Rightarrow> sview) \<Rightarrow> 'w ssys \<Rightarrow> asys \<Rightarrow> bool" where
  "sys_rel ops N cap winv view s a \<longleftrightarrow> winv (sy_store s) \<and> a_ns a = nt_ns N \<and>
     (\<forall>i < nt_ns N. str_rel N cap (view (sy_store s)) s i (a_str a i)) \<and>
     a_token a = sv_token (view (sy_store s)) \<and> a_cwake a = sy_wakes s (nt_ctask N) \<and>
     (\<forall>j. a_wsd a = Some j \<longrightarrow> sv_wsd (view (sy_store s)) = Some (nt_csd N j)) \<and>
     ss_rep (so_sds ops (sy_store s)) (nt_handle N) (map (nt_csd N) (a_set a)) \<and>
     sy_ret s = map_option (nt_csd N) (a_ret a) \<and>
     pc_rel (so_sds ops (sy_store s)) N (a_set a) (sy_cpc s) (a_cpc a)"

locale stream_sections =
  fixes ops :: "'w stream_ops" and N :: net and cap :: "nat \<Rightarrow> nat option"
    and winv :: "'w \<Rightarrow> bool" and view :: "'w \<Rightarrow> sview"
  assumes net: "winv w \<Longrightarrow> net_ok N"
    and write_enter: "winv w \<Longrightarrow> i < nt_ns N \<Longrightarrow>
      \<exists>w'. so_write_enter ops w (Some (nt_psd N i)) (Some x) = Inr (cap i \<noteq> None \<and> sv_e (view w) i = 0, w') \<and> winv w' \<and>
        so_sds ops w' = so_sds ops w \<and>
        view w' = (if cap i = None then view w else (view w)\<lparr>sv_e := (sv_e (view w))(i := sv_e (view w) i - 1)\<rparr>)"
    and write_put: "winv w \<Longrightarrow> i < nt_ns N \<Longrightarrow> so_alloc ops w (Some (nt_psd N i)) new \<Longrightarrow>
      (\<And>n. cap i = Some n \<Longrightarrow> length (sv_items (view w) i) < n) \<Longrightarrow>
      \<exists>pw w'. so_write_put ops new w (Some (nt_psd N i)) (Some x) = Inr (pw, w') \<and> winv w' \<and> so_sds ops w' = so_sds ops w \<and>
        (pw \<noteq> 0 \<longleftrightarrow> sv_poll (view w) i \<and> sv_token (view w)) \<and>
        view w' = (view w)\<lparr>sv_items := (sv_items (view w))(i := sv_items (view w) i @ [x]),
          sv_poll := (sv_poll (view w))(i := False), sv_token := sv_token (view w) \<and> \<not> sv_poll (view w) i\<rparr>"
    and can_alloc: "winv w \<Longrightarrow> i < nt_ns N \<Longrightarrow> \<exists>new. so_alloc ops w (Some (nt_psd N i)) new"
    and write_signal: "winv w \<Longrightarrow> i < nt_ns N \<Longrightarrow>
      \<exists>w'. so_write_signal ops w (Some (nt_psd N i)) pw =
          Inr (if sv_n (view w) i < 0 \<or> pw \<noteq> 0 then Some (Some (nt_ctask N)) else None, w') \<and> winv w' \<and> so_sds ops w' = so_sds ops w \<and>
        view w' = (view w)\<lparr>sv_n := (sv_n (view w))(i := sv_n (view w) i + 1),
          sv_wsd := (if \<not> sv_n (view w) i < 0 \<and> pw \<noteq> 0 then Some (nt_csd N i) else sv_wsd (view w))\<rparr>"
    and read_enter: "winv w \<Longrightarrow> i < nt_ns N \<Longrightarrow>
      \<exists>w'. so_read_enter ops w (Some (nt_csd N i)) = Inr (sv_n (view w) i = 0, w') \<and> winv w' \<and> so_sds ops w' = so_sds ops w \<and>
        view w' = (view w)\<lparr>sv_n := (sv_n (view w))(i := sv_n (view w) i - 1)\<rparr>"
    and read_pop: "winv w \<Longrightarrow> i < nt_ns N \<Longrightarrow> sv_items (view w) i = x # xs \<Longrightarrow>
      \<exists>w'. so_read_pop ops w (Some (nt_csd N i)) = Inr (Some x, w') \<and> winv w' \<and> so_sds ops w' = so_sds ops w \<and>
        view w' = (view w)\<lparr>sv_items := (sv_items (view w))(i := xs)\<rparr>"
    and read_signal: "winv w \<Longrightarrow> i < nt_ns N \<Longrightarrow>
      \<exists>w'. so_read_signal ops w (Some (nt_csd N i)) =
          Inr (if cap i \<noteq> None \<and> sv_e (view w) i < 0 then Some (Some (nt_ptask N i)) else None, w') \<and> winv w' \<and>
        so_sds ops w' = so_sds ops w \<and>
        view w' = (if cap i = None then view w else (view w)\<lparr>sv_e := (sv_e (view w))(i := sv_e (view w) i + 1)\<rparr>)"
    and poll_begin: "winv w \<Longrightarrow> ss_rep (so_sds ops w) (nt_handle N) (map (nt_csd N) xs) \<Longrightarrow> xs \<noteq> [] \<Longrightarrow> set xs \<subseteq> {..<nt_ns N} \<Longrightarrow>
      \<exists>it. so_poll_begin ops w (Some (nt_handle N)) = Inr (Some (nt_ctask N), it) \<and> it_rep (so_sds ops w) it [] (map (nt_csd N) xs)"
    and poll_fast_end: "winv w \<Longrightarrow> it_rep (so_sds ops w) it ds [] \<Longrightarrow> so_poll_fast ops w it = Inr None"
    and poll_fast: "winv w \<Longrightarrow> i < nt_ns N \<Longrightarrow> it_rep (so_sds ops w) it ds (nt_csd N i # todo) \<Longrightarrow>
      \<exists>it'. so_poll_fast ops w it = Inr (Some (Some (nt_csd N i), sv_items (view w) i \<noteq> [], it')) \<and>
        it_rep (so_sds ops w) it' (ds @ [nt_csd N i]) todo"
    and poll_token: "winv w \<Longrightarrow> ss_rep (so_sds ops w) (nt_handle N) ys \<Longrightarrow>
      \<exists>it' w'. so_poll_token ops w (Some (nt_handle N)) (Some (nt_ctask N)) it = Inr (it', w') \<and> winv w' \<and>
        so_sds ops w' = so_sds ops w \<and> it_rep (so_sds ops w) it' [] ys \<and> view w' = (view w)\<lparr>sv_token := True\<rparr>"
    and poll_register_end: "winv w \<Longrightarrow> it_rep (so_sds ops w) it ds [] \<Longrightarrow>
      so_poll_register ops w (Some (nt_ctask N)) it = Inr PollEnd"
    and poll_register_hit: "winv w \<Longrightarrow> i < nt_ns N \<Longrightarrow> it_rep (so_sds ops w) it ds (nt_csd N i # todo) \<Longrightarrow>
      sv_items (view w) i \<noteq> [] \<Longrightarrow>
      \<exists>w'. so_poll_register ops w (Some (nt_ctask N)) it = Inr (PollHit (sv_token (view w)) w') \<and> winv w' \<and>
        so_sds ops w' = so_sds ops w \<and>
        view w' = (view w)\<lparr>sv_token := False, sv_wsd := (if sv_token (view w) then Some (nt_csd N i) else sv_wsd (view w))\<rparr>"
    and poll_register_mark: "winv w \<Longrightarrow> i < nt_ns N \<Longrightarrow> it_rep (so_sds ops w) it ds (nt_csd N i # todo) \<Longrightarrow>
      sv_items (view w) i = [] \<Longrightarrow>
      \<exists>it' w'. so_poll_register ops w (Some (nt_ctask N)) it = Inr (PollMark it' w') \<and> winv w' \<and>
        so_sds ops w' = so_sds ops w \<and> it_rep (so_sds ops w) it' (ds @ [nt_csd N i]) todo \<and>
        view w' = (view w)\<lparr>sv_poll := (sv_poll (view w))(i := True)\<rparr>"
    and poll_awake: "winv w \<Longrightarrow> ss_rep (so_sds ops w) (nt_handle N) ys \<Longrightarrow> \<not> sv_token (view w) \<Longrightarrow>
      \<exists>it'. so_poll_awake ops w (Some (nt_handle N)) (Some (nt_ctask N)) it = Inr it' \<and> it_rep (so_sds ops w) it' [] ys"
    and poll_unregister_end: "winv w \<Longrightarrow> it_rep (so_sds ops w) it ds [] \<Longrightarrow> so_poll_unregister ops w it = Inr None"
    and poll_unregister: "winv w \<Longrightarrow> i < nt_ns N \<Longrightarrow> it_rep (so_sds ops w) it ds (nt_csd N i # todo) \<Longrightarrow>
      \<exists>it' w'. so_poll_unregister ops w it = Inr (Some (it', w')) \<and> winv w' \<and> so_sds ops w' = so_sds ops w \<and>
        it_rep (so_sds ops w) it' (ds @ [nt_csd N i]) todo \<and> view w' = (view w)\<lparr>sv_poll := (sv_poll (view w))(i := False)\<rparr>"
    and poll_finish: "winv w \<Longrightarrow> ss_rep (so_sds ops w) (nt_handle N) (ys @ y # zs) \<Longrightarrow> sv_wsd (view w) = Some y \<Longrightarrow>
      \<exists>w'. so_poll_finish ops w (Some (nt_handle N)) (Some (nt_ctask N)) = Inr (Some y, w') \<and> winv w' \<and> view w' = view w \<and>
        ss_rep (so_sds ops w') (nt_handle N) (zs @ ys @ [y])"
    and set_handle: "winv w \<Longrightarrow> ss_rep (so_sds ops w) (nt_handle N) (ys @ y # zs) \<Longrightarrow>
      \<exists>w'. so_set_handle ops w (Some (nt_handle N)) (Some y) = Inr w' \<and> winv w' \<and> view w' = view w \<and>
        ss_rep (so_sds ops w') (nt_handle N) (zs @ ys @ [y])"
begin

abbreviation rel :: "'w ssys \<Rightarrow> asys \<Rightarrow> bool" where
  "rel \<equiv> sys_rel ops N cap winv view"

text \<open>The system and the protocol take the event together, or neither can.\<close>

definition matched :: "event \<Rightarrow> 'w ssys \<Rightarrow> asys \<Rightarrow> bool" where
  "matched ev s a \<longleftrightarrow> (exec ops N ev s = None \<and> aexec ev a = None) \<or>
     (\<exists>s' a'. exec ops N ev s = Some (Inr s') \<and> aexec ev a = Some a' \<and> rel s' a')"

lemma matchedI: "exec ops N ev s = Some (Inr s') \<Longrightarrow> aexec ev a = Some a' \<Longrightarrow> rel s' a' \<Longrightarrow> matched ev s a"
  by (auto simp: matched_def)

lemma matched_none: "exec ops N ev s = None \<Longrightarrow> aexec ev a = None \<Longrightarrow> matched ev s a"
  by (simp add: matched_def)

lemma relD:
  assumes "rel s a"
  shows "winv (sy_store s)" "a_ns a = nt_ns N"
    "\<And>i. i < nt_ns N \<Longrightarrow> str_rel N cap (view (sy_store s)) s i (a_str a i)"
    "a_token a = sv_token (view (sy_store s))" "a_cwake a = sy_wakes s (nt_ctask N)"
    "\<And>j. a_wsd a = Some j \<Longrightarrow> sv_wsd (view (sy_store s)) = Some (nt_csd N j)"
    "ss_rep (so_sds ops (sy_store s)) (nt_handle N) (map (nt_csd N) (a_set a))"
    "sy_ret s = map_option (nt_csd N) (a_ret a)"
    "pc_rel (so_sds ops (sy_store s)) N (a_set a) (sy_cpc s) (a_cpc a)"
  using assms by (auto simp: sys_rel_def)

lemma ptask_eq: "rel s a \<Longrightarrow> i < nt_ns N \<Longrightarrow> j < nt_ns N \<Longrightarrow> nt_ptask N i = nt_ptask N j \<longleftrightarrow> i = j"
  using net relD(1) by (auto simp: net_ok_def inj_on_def)

lemma ptask_ctask: "rel s a \<Longrightarrow> i < nt_ns N \<Longrightarrow> nt_ptask N i \<noteq> nt_ctask N" "rel s a \<Longrightarrow> i < nt_ns N \<Longrightarrow> nt_ctask N \<noteq> nt_ptask N i"
  using net [OF relD(1)] by (fastforce simp: net_ok_def)+

lemma wpc_cases:
  assumes "rel s a" and "i < nt_ns N"
  shows "sy_wpc s i = QIdle \<longleftrightarrow> a_wpc (a_str a i) = WIdle"
    "sy_wpc s i = QBlocked x \<longleftrightarrow> a_wpc (a_str a i) = WBlocked x"
    "sy_wpc s i = QPut x \<longleftrightarrow> a_wpc (a_str a i) = WPut x"
    "sy_wpc s i = QSignal pw \<Longrightarrow> a_wpc (a_str a i) = WSignal (pw \<noteq> 0)"
    "a_wpc (a_str a i) = WSignal b \<Longrightarrow> \<exists>pw. sy_wpc s i = QSignal pw \<and> (pw \<noteq> 0) = b"
  using relD(3) [OF assms] by (cases "sy_wpc s i"; cases "a_wpc (a_str a i)"; auto simp: str_rel_def)+

lemma rel_stepI:
  assumes "rel s a" and "winv (sy_store s')" "so_sds ops (sy_store s') = so_sds ops (sy_store s)"
    and "a_ns a' = a_ns a" "a_set a' = a_set a" "a_ret a' = a_ret a" "sy_ret s' = sy_ret s"
    and "\<And>j. j < nt_ns N \<Longrightarrow> str_rel N cap (view (sy_store s')) s' j (a_str a' j)"
    and "a_token a' = sv_token (view (sy_store s'))" "a_cwake a' = sy_wakes s' (nt_ctask N)"
    and "\<And>j. a_wsd a' = Some j \<Longrightarrow> sv_wsd (view (sy_store s')) = Some (nt_csd N j)"
    and "pc_rel (so_sds ops (sy_store s)) N (a_set a) (sy_cpc s') (a_cpc a')"
  shows "rel s' a'"
  using assms by (simp add: sys_rel_def)

lemma m_write:
  assumes r: "rel s a" and inv: "ainv a"
  shows "matched (EvWrite i x) s a"
proof (cases "i < nt_ns N \<and> sy_wpc s i = QIdle")
  case True
  then have i: "i < nt_ns N" "a_wpc (a_str a i) = WIdle" using wpc_cases(1) [OF r] by auto
  let ?v = "view (sy_store s)"
  from write_enter [OF relD(1) [OF r] i(1)] obtain w where
    w: "so_write_enter ops (sy_store s) (Some (nt_psd N i)) (Some x) = Inr (cap i \<noteq> None \<and> sv_e ?v i = 0, w)"
      "winv w" "so_sds ops w = so_sds ops (sy_store s)"
      "view w = (if cap i = None then ?v else ?v\<lparr>sv_e := (sv_e ?v)(i := sv_e ?v i - 1)\<rparr>)" by blast
  have eq: "a_cap (a_str a i) = cap i" "a_e (a_str a i) = sv_e ?v i" using relD(3) [OF r i(1)] by (auto simp: str_rel_def)
  define s' where "s' = s\<lparr>sy_store := w, sy_wpc := (sy_wpc s)(i := if cap i \<noteq> None \<and> sv_e ?v i = 0 then QBlocked x else QPut x)\<rparr>"
  define a' where "a' = ups i (\<lambda>t. if cap i = None then t\<lparr>a_wpc := WPut x\<rparr>
     else t\<lparr>a_e := a_e t - 1, a_wpc := (if a_e t = 0 then WBlocked x else WPut x)\<rparr>) a"
  have a': "a_write i x a = Some a'" using i relD(2) [OF r] eq by (auto simp: a'_def a_write_def)
  have "str_rel N cap (view w) s' j (a_str a' j)" if "j < nt_ns N" for j
    using relD(3) [OF r that] i eq
    by (cases "j = i"; cases "cap i") (auto simp: str_rel_def s'_def w(4) a'_def)
  then have "rel s' a'" using relD [OF r] w by (intro rel_stepI [OF r]) (simp_all add: s'_def a'_def)
  then show ?thesis using True w(1) a' by (intro matchedI) (auto simp: s'_def)
next
  case False
  then show ?thesis using relD(2) [OF r] wpc_cases(1) [OF r] by (intro matched_none) (auto simp: a_write_def)
qed

lemma m_wresume:
  assumes r: "rel s a" and inv: "ainv a"
  shows "matched (EvWResume i) s a"
proof (cases "i < nt_ns N \<and> 0 < sy_wakes s (nt_ptask N i) \<and> (\<exists>x. sy_wpc s i = QBlocked x)")
  case True
  then obtain x where i: "i < nt_ns N" "0 < sy_wakes s (nt_ptask N i)" "sy_wpc s i = QBlocked x" by blast
  then have ai: "a_wpc (a_str a i) = WBlocked x" "a_wake (a_str a i) = sy_wakes s (nt_ptask N i)"
    using wpc_cases(2) [OF r] relD(3) [OF r] by (auto simp: str_rel_def)
  define s' where "s' = s\<lparr>sy_wpc := (sy_wpc s)(i := QPut x),
     sy_wakes := (sy_wakes s)(nt_ptask N i := sy_wakes s (nt_ptask N i) - 1)\<rparr>"
  define a' where "a' = ups i (\<lambda>t. t\<lparr>a_wake := a_wake t - 1, a_wpc := WPut x\<rparr>) a"
  have "str_rel N cap (view (sy_store s)) s' j (a_str a' j)" if "j < nt_ns N" for j
    using relD(3) [OF r that] i ai ptask_eq [OF r that i(1)]
    by (cases "j = i") (auto simp: str_rel_def s'_def a'_def)
  then have "rel s' a'" using relD [OF r] ptask_ctask [OF r i(1)] by (intro rel_stepI [OF r]) (simp_all add: s'_def a'_def)
  then show ?thesis using i ai relD(2) [OF r]
    by (intro matchedI [where s' = s' and a' = a']) (auto simp: s'_def a'_def a_wresume_def)
next
  case False
  have "a_wresume i a = None"
    using False relD(2) [OF r] relD(3) [OF r, of i] wpc_cases(2) [OF r]
    by (auto simp: a_wresume_def str_rel_def split: wpc.splits)
  then show ?thesis using False by (intro matched_none) (auto split: qpc.splits)
qed

lemma m_put:
  assumes r: "rel s a" and inv: "ainv a" and al: "so_alloc ops (sy_store s) (Some (nt_psd N i)) new"
  shows "matched (EvPut i new) s a"
proof (cases "i < nt_ns N \<and> (\<exists>x. sy_wpc s i = QPut x)")
  case True
  then obtain x where i: "i < nt_ns N" "sy_wpc s i = QPut x" by blast
  let ?v = "view (sy_store s)"
  have ai: "a_wpc (a_str a i) = WPut x" "a_items (a_str a i) = sv_items ?v i" "a_cap (a_str a i) = cap i"
    "a_poll (a_str a i) = sv_poll ?v i" "a_token a = sv_token ?v"
    using i wpc_cases(3) [OF r] relD(3) [OF r, of i] relD(4) [OF r] by (auto simp: str_rel_def)
  have "\<And>n. cap i = Some n \<Longrightarrow> length (sv_items ?v i) < n"
    using put_space [OF inv _ ai(1)] i(1) relD(2) [OF r] ai by simp
  from write_put [OF relD(1) [OF r] i(1) al this] obtain pw w where
    w: "so_write_put ops new (sy_store s) (Some (nt_psd N i)) (Some x) = Inr (pw, w)"
      "winv w" "so_sds ops w = so_sds ops (sy_store s)" "pw \<noteq> 0 \<longleftrightarrow> sv_poll ?v i \<and> sv_token ?v"
      "view w = ?v\<lparr>sv_items := (sv_items ?v)(i := sv_items ?v i @ [x]),
          sv_poll := (sv_poll ?v)(i := False), sv_token := sv_token ?v \<and> \<not> sv_poll ?v i\<rparr>" by blast
  define s' where "s' = s\<lparr>sy_store := w, sy_wpc := (sy_wpc s)(i := QSignal pw), sy_sent := (sy_sent s)(i := sy_sent s i @ [x])\<rparr>"
  define a' where "a' = (ups i (\<lambda>t. t\<lparr>a_items := a_items t @ [x], a_sent := a_sent t @ [x], a_poll := False,
                    a_wpc := WSignal (a_poll t \<and> a_token a)\<rparr>) a)\<lparr>a_token := a_token a \<and> \<not> a_poll (a_str a i)\<rparr>"
  have "str_rel N cap (view w) s' j (a_str a' j)" if "j < nt_ns N" for j
    using relD(3) [OF r that] w(4) ai by (cases "j = i") (auto simp: str_rel_def s'_def a'_def w(5))
  then have "rel s' a'" using relD [OF r] w ai by (intro rel_stepI [OF r]) (simp_all add: s'_def a'_def)
  then show ?thesis using i al ai(1) relD(2) [OF r] w(1)
    by (intro matchedI [where s' = s' and a' = a']) (auto simp: s'_def a'_def a_put_def)
next
  case False
  have "a_put i a = None" using False relD(2) [OF r] wpc_cases(3) [OF r] by (auto simp: a_put_def split: wpc.splits)
  then show ?thesis using False by (intro matched_none) (auto split: qpc.splits)
qed

lemma m_signal:
  assumes r: "rel s a" and inv: "ainv a"
  shows "matched (EvSignal i) s a"
proof (cases "i < nt_ns N \<and> (\<exists>pw. sy_wpc s i = QSignal pw)")
  case True
  then obtain pw where i: "i < nt_ns N" "sy_wpc s i = QSignal pw" by blast
  let ?v = "view (sy_store s)"
  have ai: "a_wpc (a_str a i) = WSignal (pw \<noteq> 0)" "a_n (a_str a i) = sv_n ?v i"
    using i wpc_cases(4) [OF r] relD(3) [OF r, of i] by (auto simp: str_rel_def)
  let ?wake = "sv_n ?v i < 0 \<or> pw \<noteq> 0"
  from write_signal [OF relD(1) [OF r] i(1), of pw] obtain w where
    w: "so_write_signal ops (sy_store s) (Some (nt_psd N i)) pw = Inr (if ?wake then Some (Some (nt_ctask N)) else None, w)"
      "winv w" "so_sds ops w = so_sds ops (sy_store s)"
      "view w = ?v\<lparr>sv_n := (sv_n ?v)(i := sv_n ?v i + 1),
          sv_wsd := (if \<not> sv_n ?v i < 0 \<and> pw \<noteq> 0 then Some (nt_csd N i) else sv_wsd ?v)\<rparr>" by blast
  define s' where "s' = s\<lparr>sy_store := w, sy_wpc := (sy_wpc s)(i := QIdle),
     sy_wakes := (if ?wake then (sy_wakes s)(nt_ctask N := sy_wakes s (nt_ctask N) + 1) else sy_wakes s)\<rparr>"
  define a' where "a' = (ups i (\<lambda>t. t\<lparr>a_n := a_n t + 1, a_wpc := WIdle\<rparr>) a)
     \<lparr>a_cwake := (if ?wake then a_cwake a + 1 else a_cwake a),
      a_wsd := (if \<not> sv_n ?v i < 0 \<and> pw \<noteq> 0 then Some i else a_wsd a)\<rparr>"
  have "str_rel N cap (view w) s' j (a_str a' j)" if "j < nt_ns N" for j
    using relD(3) [OF r that] ai ptask_ctask [OF r that] by (cases "j = i") (auto simp: str_rel_def s'_def a'_def w(4))
  then have "rel s' a'" using relD [OF r] w(2,3) by (intro rel_stepI [OF r]) (auto simp: s'_def a'_def w(4) split: if_splits)
  moreover have "a_signal i a = Some a'"
    using i(1) ai relD(2) [OF r] by (auto simp: a_signal_def a'_def Let_def ups_def)
  moreover have "exec ops N (EvSignal i) s = Some (Inr s')"
    using i w(1) by (auto simp: wake_task_def s'_def)
  ultimately show ?thesis by (intro matchedI) auto
next
  case False
  have "a_signal i a = None"
    using False relD(2) [OF r] wpc_cases(5) [OF r] by (auto simp: a_signal_def split: wpc.splits)
  then show ?thesis using False by (intro matched_none) (auto split: qpc.splits)
qed

lemma cpc_none:
  assumes "rel s a"
  shows "sy_cpc s = DIdle \<longleftrightarrow> a_cpc a = CIdle" "sy_cpc s = DRBlocked i \<longleftrightarrow> a_cpc a = RBlocked i"
    "sy_cpc s = DRPop i \<longleftrightarrow> a_cpc a = RPop i" "sy_cpc s = DRSignal i \<longleftrightarrow> a_cpc a = RSignal i"
  using relD(9) [OF assms] by (auto simp: pc_rel_def split: dpc.splits)

lemma cpc_poll:
  assumes "rel s a"
  shows "a_cpc a = PFast k \<Longrightarrow> \<exists>it. sy_cpc s = DFast (Some (nt_ctask N)) it \<and> it_at (so_sds ops (sy_store s)) N (a_set a) it k"
    "a_cpc a = PReg k \<Longrightarrow> \<exists>it. sy_cpc s = DReg (Some (nt_ctask N)) it (int k) \<and> it_at (so_sds ops (sy_store s)) N (a_set a) it k"
    "a_cpc a = PBlocked k \<Longrightarrow> \<exists>it. sy_cpc s = DBlocked (Some (nt_ctask N)) it (int k)"
    "a_cpc a = PUnreg k c \<Longrightarrow> \<exists>it. sy_cpc s = DUnreg (Some (nt_ctask N)) it c \<and> it_at (so_sds ops (sy_store s)) N (a_set a) it k"
    "a_cpc a = PFinish \<Longrightarrow> sy_cpc s = DFinish (Some (nt_ctask N))"
  using relD(9) [OF assms] by (auto simp: pc_rel_def split: dpc.splits)

lemma cpc_poll_inv:
  assumes "rel s a"
  shows "sy_cpc s = DFast self it \<Longrightarrow> \<exists>k. a_cpc a = PFast k" "sy_cpc s = DReg self it cnt \<Longrightarrow> \<exists>k. a_cpc a = PReg k"
    "sy_cpc s = DBlocked self it cnt \<Longrightarrow> \<exists>k. a_cpc a = PBlocked k"
    "sy_cpc s = DUnreg self it cnt \<Longrightarrow> \<exists>k. a_cpc a = PUnreg k cnt" "sy_cpc s = DFinish self \<Longrightarrow> a_cpc a = PFinish"
  using relD(9) [OF assms] by (auto simp: pc_rel_def)

text \<open>A step of the consumer on stream \<open>i\<close> while reading.\<close>

lemma m_read:
  assumes r: "rel s a" and inv: "ainv a"
  shows "matched (EvRead i) s a"
proof (cases "i < nt_ns N \<and> sy_cpc s = DIdle")
  case True
  then have i: "i < nt_ns N" "a_cpc a = CIdle" using cpc_none(1) [OF r] by auto
  let ?v = "view (sy_store s)"
  from read_enter [OF relD(1) [OF r] i(1)] obtain w where
    w: "so_read_enter ops (sy_store s) (Some (nt_csd N i)) = Inr (sv_n ?v i = 0, w)"
      "winv w" "so_sds ops w = so_sds ops (sy_store s)" "view w = ?v\<lparr>sv_n := (sv_n ?v)(i := sv_n ?v i - 1)\<rparr>" by blast
  have ai: "a_n (a_str a i) = sv_n ?v i" using relD(3) [OF r i(1)] by (simp add: str_rel_def)
  define s' where "s' = s\<lparr>sy_store := w, sy_cpc := (if sv_n ?v i = 0 then DRBlocked i else DRPop i)\<rparr>"
  define a' where "a' = setc (if sv_n ?v i = 0 then RBlocked i else RPop i) (ups i (\<lambda>t. t\<lparr>a_n := a_n t - 1\<rparr>) a)"
  have "str_rel N cap (view w) s' j (a_str a' j)" if "j < nt_ns N" for j
    using relD(3) [OF r that] ai by (cases "j = i") (auto simp: str_rel_def s'_def a'_def w(4))
  then have "rel s' a'" using relD [OF r] w by (intro rel_stepI [OF r]) (simp_all add: s'_def a'_def pc_rel_def)
  then show ?thesis using True i ai relD(2) [OF r] w(1)
    by (intro matchedI [where s' = s' and a' = a']) (auto simp: s'_def a'_def a_read_def)
next
  case False
  then show ?thesis using relD(2) [OF r] cpc_none(1) [OF r] by (intro matched_none) (auto simp: a_read_def)
qed

lemma m_rresume:
  assumes r: "rel s a" and inv: "ainv a"
  shows "matched EvRResume s a"
proof (cases "0 < sy_wakes s (nt_ctask N) \<and> (\<exists>i. sy_cpc s = DRBlocked i)")
  case True
  then obtain i where i: "sy_cpc s = DRBlocked i" "a_cpc a = RBlocked i" using cpc_none(2) [OF r] by auto
  define s' where "s' = s\<lparr>sy_cpc := DRPop i, sy_wakes := (sy_wakes s)(nt_ctask N := sy_wakes s (nt_ctask N) - 1)\<rparr>"
  define a' where "a' = a\<lparr>a_cwake := a_cwake a - 1, a_cpc := RPop i\<rparr>"
  have "str_rel N cap (view (sy_store s)) s' j (a_str a' j)" if "j < nt_ns N" for j
    using relD(3) [OF r that] ptask_ctask [OF r that] by (auto simp: str_rel_def s'_def a'_def)
  then have "rel s' a'" using relD [OF r] by (intro rel_stepI [OF r]) (simp_all add: s'_def a'_def pc_rel_def)
  then show ?thesis using True i relD(5) [OF r]
    by (intro matchedI [where s' = s' and a' = a']) (auto simp: s'_def a'_def a_rresume_def)
next
  case False
  have "a_rresume a = None" using False relD(5) [OF r] cpc_none(2) [OF r] by (auto simp: a_rresume_def split: cpc.splits)
  then show ?thesis using False by (intro matched_none) (auto split: dpc.splits)
qed

lemma m_pop:
  assumes r: "rel s a" and inv: "ainv a"
  shows "matched EvPop s a"
proof (cases "\<exists>i. sy_cpc s = DRPop i")
  case True
  then obtain i where c: "sy_cpc s = DRPop i" "a_cpc a = RPop i" using cpc_none(3) [OF r] by auto
  have i: "i < nt_ns N" using ainvD(4) [OF inv] c(2) relD(2) [OF r] by simp
  let ?v = "view (sy_store s)"
  obtain x xs where x: "a_items (a_str a i) = x # xs" using pop_item [OF inv c(2)] by (cases "a_items (a_str a i)") auto
  then have "sv_items ?v i = x # xs" using relD(3) [OF r i] by (simp add: str_rel_def)
  from read_pop [OF relD(1) [OF r] i this] obtain w where
    w: "so_read_pop ops (sy_store s) (Some (nt_csd N i)) = Inr (Some x, w)"
      "winv w" "so_sds ops w = so_sds ops (sy_store s)" "view w = ?v\<lparr>sv_items := (sv_items ?v)(i := xs)\<rparr>" by blast
  define s' where "s' = s\<lparr>sy_store := w, sy_cpc := DRSignal i, sy_got := (sy_got s)(i := sy_got s i @ [x])\<rparr>"
  define a' where "a' = setc (RSignal i) (ups i (\<lambda>t. t\<lparr>a_items := xs, a_got := a_got t @ [x]\<rparr>) a)"
  have "str_rel N cap (view w) s' j (a_str a' j)" if "j < nt_ns N" for j
    using relD(3) [OF r that] by (cases "j = i") (auto simp: str_rel_def s'_def a'_def w(4))
  then have "rel s' a'" using relD [OF r] w by (intro rel_stepI [OF r]) (simp_all add: s'_def a'_def pc_rel_def)
  then show ?thesis using c x w(1)
    by (intro matchedI [where s' = s' and a' = a']) (auto simp: s'_def a'_def a_pop_def)
next
  case False
  have "a_pop a = None" using False cpc_none(3) [OF r] by (auto simp: a_pop_def split: cpc.splits)
  then show ?thesis using False by (intro matched_none) (auto split: dpc.splits)
qed

lemma m_rsignal:
  assumes r: "rel s a" and inv: "ainv a"
  shows "matched EvRSignal s a"
proof (cases "\<exists>i. sy_cpc s = DRSignal i")
  case True
  then obtain i where c: "sy_cpc s = DRSignal i" "a_cpc a = RSignal i" using cpc_none(4) [OF r] by auto
  have i: "i < nt_ns N" using ainvD(4) [OF inv] c(2) relD(2) [OF r] by simp
  let ?v = "view (sy_store s)" and ?wake = "cap i \<noteq> None \<and> sv_e (view (sy_store s)) i < 0"
  from read_signal [OF relD(1) [OF r] i] obtain w where
    w: "so_read_signal ops (sy_store s) (Some (nt_csd N i)) = Inr (if ?wake then Some (Some (nt_ptask N i)) else None, w)"
      "winv w" "so_sds ops w = so_sds ops (sy_store s)"
      "view w = (if cap i = None then ?v else ?v\<lparr>sv_e := (sv_e ?v)(i := sv_e ?v i + 1)\<rparr>)" by blast
  have ai: "a_cap (a_str a i) = cap i" "a_e (a_str a i) = sv_e ?v i" using relD(3) [OF r i] by (auto simp: str_rel_def)
  define s' where "s' = s\<lparr>sy_store := w, sy_cpc := DIdle,
     sy_wakes := (if ?wake then (sy_wakes s)(nt_ptask N i := sy_wakes s (nt_ptask N i) + 1) else sy_wakes s)\<rparr>"
  define a' where "a' = setc CIdle (ups i (\<lambda>t. if cap i = None then t
     else t\<lparr>a_e := a_e t + 1, a_wake := (if a_e t < 0 then a_wake t + 1 else a_wake t)\<rparr>) a)"
  have "str_rel N cap (view w) s' j (a_str a' j)" if "j < nt_ns N" for j
    using relD(3) [OF r that] ai ptask_eq [OF r that i]
    by (cases "j = i"; cases "cap i") (auto simp: str_rel_def s'_def a'_def w(4))
  then have "rel s' a'" using relD [OF r] w ptask_ctask [OF r i] by (intro rel_stepI [OF r]) (simp_all add: s'_def a'_def pc_rel_def)
  moreover have "a_rsignal a = Some a'" using c ai by (auto simp: a_rsignal_def a'_def ups_def)
  moreover have "exec ops N EvRSignal s = Some (Inr s')" using c w(1) by (auto simp: wake_task_def s'_def)
  ultimately show ?thesis by (intro matchedI) auto
next
  case False
  have "a_rsignal a = None" using False cpc_none(4) [OF r] by (auto simp: a_rsignal_def split: cpc.splits)
  then show ?thesis using False by (intro matched_none) (auto split: dpc.splits)
qed

lemma it_at_end: "it_at st N xs it k \<Longrightarrow> length xs \<le> k \<Longrightarrow> it_rep st it (map (nt_csd N) (take k xs)) []"
  by (simp add: it_at_def)

lemma it_at_next:
  assumes "it_at st N xs it k" and "k < length xs"
  shows "it_rep st it (map (nt_csd N) (take k xs)) (nt_csd N (xs ! k) # map (nt_csd N) (drop (k + 1) xs))"
  using assms by (simp add: it_at_def Cons_nth_drop_Suc [symmetric])

lemma it_at_step:
  assumes "it_rep st it (map (nt_csd N) (take k xs) @ [nt_csd N (xs ! k)]) (map (nt_csd N) (drop (k + 1) xs))" and "k < length xs"
  shows "it_at st N xs it (k + 1)"
  using assms by (simp add: it_at_def take_Suc_conv_app_nth)

lemma set_bound: "rel s a \<Longrightarrow> ainv a \<Longrightarrow> k < length (a_set a) \<Longrightarrow> a_set a ! k < nt_ns N"
  using ainvD(3) relD(2) nth_mem by fastforce

lemma str_same:
  assumes "rel s a" and "j < nt_ns N" and "view (sy_store s') = view (sy_store s)" "sy_wpc s' = sy_wpc s"
    "sy_wakes s' (nt_ptask N j) = sy_wakes s (nt_ptask N j)" "sy_sent s' = sy_sent s" "sy_got s' = sy_got s" "a_str a' j = a_str a j"
  shows "str_rel N cap (view (sy_store s')) s' j (a_str a' j)"
  using relD(3) [OF assms(1,2)] assms(3-) by (simp add: str_rel_def)

lemma m_poll:
  assumes r: "rel s a" and inv: "ainv a"
  shows "matched EvPoll s a"
proof -
  let ?st = "so_sds ops (sy_store s)"
  have ss: "ss_rep ?st (nt_handle N) (map (nt_csd N) (a_set a))" using relD(7) [OF r] .
  then have ne: "handles ?st (nt_handle N) = Some None \<longleftrightarrow> a_set a = []"
    by (auto simp: ss_rep_def split: option.splits)
  show ?thesis
  proof (cases "sy_cpc s = DIdle \<and> a_set a \<noteq> []")
    case True
    then have c: "sy_cpc s = DIdle" "a_cpc a = CIdle" "a_set a \<noteq> []" using cpc_none(1) [OF r] by auto
    from poll_begin [OF relD(1) [OF r] ss c(3)] ainvD(3) [OF inv] relD(2) [OF r] obtain it where
      it: "so_poll_begin ops (sy_store s) (Some (nt_handle N)) = Inr (Some (nt_ctask N), it)"
        "it_rep ?st it [] (map (nt_csd N) (a_set a))" by auto
    have "rel (s\<lparr>sy_cpc := DFast (Some (nt_ctask N)) it\<rparr>) (setc (PFast 0) a)"
      using relD [OF r] it(2) by (intro rel_stepI [OF r] str_same [OF r]) (simp_all add: pc_rel_def it_at_def)
    then show ?thesis using c ne it(1) by (intro matchedI) (auto simp: a_begin_poll_def)
  next
    case False
    then show ?thesis using ne cpc_none(1) [OF r] by (intro matched_none) (auto simp: a_begin_poll_def)
  qed
qed

text \<open>Turning the set: the handle points to the descriptor of the stream that is ready.\<close>

lemma turn_map:
  assumes "i \<in> set xs"
  obtains ys zs where "map (nt_csd N) xs = ys @ nt_csd N i # zs" "map (nt_csd N) (turn i xs) = zs @ ys @ [nt_csd N i]"
proof -
  from assms obtain ys zs where "xs = ys @ i # zs" "i \<notin> set ys" by (metis split_list_first)
  then show ?thesis using that [of "map (nt_csd N) ys" "map (nt_csd N) zs"] by (simp add: turn_split)
qed

lemma m_fast:
  assumes r: "rel s a" and inv: "ainv a"
  shows "matched EvFast s a"
proof (cases "\<exists>k. a_cpc a = PFast k")
  case True
  let ?st = "so_sds ops (sy_store s)" and ?v = "view (sy_store s)"
  from True obtain k it where k: "a_cpc a = PFast k" "sy_cpc s = DFast (Some (nt_ctask N)) it" "it_at ?st N (a_set a) it k"
    using cpc_poll(1) [OF r] by blast
  let ?i = "a_set a ! k"
  show ?thesis
  proof (cases "k < length (a_set a)")
    case True
    have i: "?i < nt_ns N" using set_bound [OF r inv True] .
    have ai: "a_items (a_str a ?i) = sv_items ?v ?i" using relD(3) [OF r i] by (simp add: str_rel_def)
    from poll_fast [OF relD(1) [OF r] i it_at_next [OF k(3) True]] obtain it' where
      it': "so_poll_fast ops (sy_store s) it = Inr (Some (Some (nt_csd N ?i), sv_items ?v ?i \<noteq> [], it'))"
        "it_at ?st N (a_set a) it' (k + 1)" using it_at_step [OF _ True] by blast
    show ?thesis
    proof (cases "sv_items ?v ?i = []")
      case True
      have "rel (s\<lparr>sy_cpc := DFast (Some (nt_ctask N)) it'\<rparr>) (setc (PFast (k + 1)) a)"
        using relD [OF r] it'(2) by (intro rel_stepI [OF r] str_same [OF r]) (simp_all add: pc_rel_def)
      then show ?thesis using True k it'(1) \<open>k < length (a_set a)\<close> ai
        by (intro matchedI) (auto simp: a_fast_def Let_def)
    next
      case False
      obtain ys zs where yz: "map (nt_csd N) (a_set a) = ys @ nt_csd N ?i # zs"
        "map (nt_csd N) (turn ?i (a_set a)) = zs @ ys @ [nt_csd N ?i]"
        using turn_map [of ?i "a_set a"] True by auto
      from set_handle [OF relD(1) [OF r]] relD(7) [OF r] yz(1) obtain w where
        w: "so_set_handle ops (sy_store s) (Some (nt_handle N)) (Some (nt_csd N ?i)) = Inr w" "winv w" "view w = ?v"
          "ss_rep (so_sds ops w) (nt_handle N) (zs @ ys @ [nt_csd N ?i])" by metis
      let ?s = "s\<lparr>sy_store := w, sy_cpc := DIdle, sy_ret := Some (nt_csd N ?i)\<rparr>"
        and ?a = "a\<lparr>a_cpc := CIdle, a_set := turn ?i (a_set a), a_ret := Some ?i\<rparr>"
      have "str_rel N cap (view w) ?s j (a_str ?a j)" if "j < nt_ns N" for j
        using str_same [OF r that, of ?s ?a] w(3) by simp
      then have "rel ?s ?a" using relD [OF r] w yz(2) by (simp add: sys_rel_def pc_rel_def)
      then show ?thesis using False True k it'(1) w(1) ai
        by (intro matchedI) (auto simp: a_fast_def Let_def)
    qed
  next
    case False
    from poll_token [OF relD(1) [OF r] relD(7) [OF r]] obtain it' w where
      w: "so_poll_token ops (sy_store s) (Some (nt_handle N)) (Some (nt_ctask N)) it = Inr (it', w)" "winv w"
        "so_sds ops w = ?st" "it_rep ?st it' [] (map (nt_csd N) (a_set a))" "view w = ?v\<lparr>sv_token := True\<rparr>" by blast
    let ?s = "s\<lparr>sy_store := w, sy_cpc := DReg (Some (nt_ctask N)) it' 0\<rparr>" and ?a = "a\<lparr>a_cpc := PReg 0, a_token := True\<rparr>"
    have "str_rel N cap (view w) ?s j (a_str ?a j)" if "j < nt_ns N" for j
      using relD(3) [OF r that] by (simp add: str_rel_def w(5))
    then have "rel ?s ?a" using relD [OF r] w by (intro rel_stepI [OF r]) (simp_all add: pc_rel_def it_at_def)
    then show ?thesis using False k w(1) poll_fast_end [OF relD(1) [OF r] it_at_end [OF k(3)]]
      by (intro matchedI) (auto simp: a_fast_def)
  qed
next
  case False
  have "a_fast a = None" using False by (auto simp: a_fast_def split: cpc.splits)
  then show ?thesis using False cpc_poll_inv(1) [OF r] by (intro matched_none) (auto split: dpc.splits)
qed

lemma m_reg:
  assumes r: "rel s a" and inv: "ainv a"
  shows "matched EvReg s a"
proof (cases "\<exists>k. a_cpc a = PReg k")
  case True
  let ?st = "so_sds ops (sy_store s)" and ?v = "view (sy_store s)" and ?ct = "Some (nt_ctask N)"
  from True obtain k it where k: "a_cpc a = PReg k" "sy_cpc s = DReg ?ct it (int k)" "it_at ?st N (a_set a) it k"
    using cpc_poll(2) [OF r] by blast
  let ?i = "a_set a ! k"
  have tok: "a_token a = sv_token ?v" using relD(4) [OF r] .
  show ?thesis
  proof (cases "k < length (a_set a)")
    case True
    have i: "?i < nt_ns N" using set_bound [OF r inv True] .
    have ai: "a_items (a_str a ?i) = sv_items ?v ?i" using relD(3) [OF r i] by (simp add: str_rel_def)
    note nxt = it_at_next [OF k(3) True]
    show ?thesis
    proof (cases "sv_items ?v ?i = []")
      case empty: True
      from poll_register_mark [OF relD(1) [OF r] i nxt empty] obtain it' w where
        w: "so_poll_register ops (sy_store s) ?ct it = Inr (PollMark it' w)" "winv w" "so_sds ops w = ?st"
          "it_at ?st N (a_set a) it' (k + 1)" "view w = ?v\<lparr>sv_poll := (sv_poll ?v)(?i := True)\<rparr>"
        using it_at_step [OF _ True] by blast
      let ?s = "s\<lparr>sy_store := w, sy_cpc := DReg ?ct it' (int k + 1)\<rparr>"
        and ?a = "setc (PReg (k + 1)) (ups ?i (\<lambda>t. t\<lparr>a_poll := True\<rparr>) a)"
      have "str_rel N cap (view w) ?s j (a_str ?a j)" if "j < nt_ns N" for j
        using relD(3) [OF r that] by (auto simp: str_rel_def w(5))
      then have "rel ?s ?a" using relD [OF r] w by (intro rel_stepI [OF r]) (simp_all add: pc_rel_def)
      then show ?thesis using k w(1) True ai empty by (intro matchedI) (auto simp: a_reg_def Let_def)
    next
      case False
      from poll_register_hit [OF relD(1) [OF r] i nxt False] obtain w where
        w: "so_poll_register ops (sy_store s) ?ct it = Inr (PollHit (sv_token ?v) w)" "winv w" "so_sds ops w = ?st"
          "view w = ?v\<lparr>sv_token := False, sv_wsd := (if sv_token ?v then Some (nt_csd N ?i) else sv_wsd ?v)\<rparr>" by blast
      show ?thesis
      proof (cases "sv_token ?v")
        case True
        from poll_awake [OF w(2)] relD(7) [OF r] w(3,4) obtain it' where
          it': "so_poll_awake ops w (Some (nt_handle N)) ?ct it = Inr it'" "it_rep ?st it' [] (map (nt_csd N) (a_set a))"
          by fastforce
        let ?s = "s\<lparr>sy_store := w, sy_cpc := DUnreg ?ct it' (int k)\<rparr>"
          and ?a = "a\<lparr>a_cpc := PUnreg 0 (int k), a_token := False, a_wsd := Some ?i\<rparr>"
        have "str_rel N cap (view w) ?s j (a_str ?a j)" if "j < nt_ns N" for j
          using relD(3) [OF r that] by (simp add: str_rel_def w(4))
        then have "rel ?s ?a" using relD [OF r] w True it'(2) by (intro rel_stepI [OF r]) (auto simp: pc_rel_def it_at_def)
        then show ?thesis using k w(1) True tok it'(1) ai False \<open>k < length (a_set a)\<close>
          by (intro matchedI) (auto simp: a_reg_def Let_def)
      next
        case notok: False
        let ?s = "s\<lparr>sy_store := w, sy_cpc := DBlocked ?ct it (int k)\<rparr>" and ?a = "setc (PBlocked k) a"
        have v: "view w = ?v" using w(4) notok by simp
        have "str_rel N cap (view w) ?s j (a_str ?a j)" if "j < nt_ns N" for j
          using str_same [OF r that, of ?s ?a] v by simp
        then have "rel ?s ?a" using relD [OF r] w(2,3) v by (intro rel_stepI [OF r]) (auto simp: pc_rel_def)
        then show ?thesis using k w(1) notok tok ai False True by (intro matchedI) (auto simp: a_reg_def Let_def)
      qed
    qed
  next
    case False
    let ?s = "s\<lparr>sy_cpc := DBlocked ?ct it (int k)\<rparr>" and ?a = "setc (PBlocked k) a"
    have "rel ?s ?a" using relD [OF r] by (intro rel_stepI [OF r] str_same [OF r]) (simp_all add: pc_rel_def)
    then show ?thesis using False k poll_register_end [OF relD(1) [OF r] it_at_end [OF k(3)]]
      by (intro matchedI) (auto simp: a_reg_def)
  qed
next
  case False
  have "a_reg a = None" using False by (auto simp: a_reg_def split: cpc.splits)
  then show ?thesis using False cpc_poll_inv(2) [OF r] by (intro matched_none) (auto split: dpc.splits)
qed

lemma m_presume:
  assumes r: "rel s a" and inv: "ainv a"
  shows "matched EvPResume s a"
proof (cases "0 < sy_wakes s (nt_ctask N) \<and> (\<exists>k. a_cpc a = PBlocked k)")
  case True
  let ?ct = "Some (nt_ctask N)"
  from True obtain k it where k: "a_cpc a = PBlocked k" "sy_cpc s = DBlocked ?ct it (int k)" using cpc_poll(3) [OF r] by blast
  have tok: "\<not> a_token a" using resume_token [OF inv k(1)] True relD(5) [OF r] by simp
  then obtain it' where it': "so_poll_awake ops (sy_store s) (Some (nt_handle N)) ?ct it = Inr it'"
    "it_rep (so_sds ops (sy_store s)) it' [] (map (nt_csd N) (a_set a))"
    using poll_awake [OF relD(1) [OF r] relD(7) [OF r]] relD(4) [OF r] by blast
  let ?s = "s\<lparr>sy_cpc := DUnreg ?ct it' (int k), sy_wakes := (sy_wakes s)(nt_ctask N := sy_wakes s (nt_ctask N) - 1)\<rparr>"
    and ?a = "a\<lparr>a_cwake := a_cwake a - 1, a_cpc := PUnreg 0 (int k)\<rparr>"
  have "str_rel N cap (view (sy_store s)) ?s j (a_str ?a j)" if "j < nt_ns N" for j
    using str_same [OF r that, of ?s ?a] ptask_ctask [OF r that] by simp
  then have "rel ?s ?a" using relD [OF r] it'(2) by (intro rel_stepI [OF r]) (simp_all add: pc_rel_def it_at_def)
  then show ?thesis using True k tok it'(1) relD(5) [OF r] by (intro matchedI) (auto simp: a_presume_def)
next
  case False
  have "a_presume a = None" using False relD(5) [OF r] by (auto simp: a_presume_def split: cpc.splits)
  then show ?thesis using False cpc_poll_inv(3) [OF r] by (intro matched_none) (auto split: dpc.splits)
qed

lemma m_unreg:
  assumes r: "rel s a" and inv: "ainv a"
  shows "matched EvUnreg s a"
proof (cases "\<exists>k c. a_cpc a = PUnreg k c")
  case True
  let ?st = "so_sds ops (sy_store s)" and ?v = "view (sy_store s)" and ?ct = "Some (nt_ctask N)"
  from True obtain k c it where k: "a_cpc a = PUnreg k c" "sy_cpc s = DUnreg ?ct it c" "it_at ?st N (a_set a) it k"
    using cpc_poll(4) [OF r] by blast
  let ?i = "a_set a ! k"
  show ?thesis
  proof (cases "k < length (a_set a)")
    case True
    have i: "?i < nt_ns N" using set_bound [OF r inv True] .
    from poll_unregister [OF relD(1) [OF r] i it_at_next [OF k(3) True]] obtain it' w where
      w: "so_poll_unregister ops (sy_store s) it = Inr (Some (it', w))" "winv w" "so_sds ops w = ?st"
        "it_at ?st N (a_set a) it' (k + 1)" "view w = ?v\<lparr>sv_poll := (sv_poll ?v)(?i := False)\<rparr>"
      using it_at_step [OF _ True] by blast
    let ?s = "s\<lparr>sy_store := w, sy_cpc := (if c - 1 = 0 then DFinish ?ct else DUnreg ?ct it' (c - 1))\<rparr>"
      and ?a = "setc (if c - 1 = 0 then PFinish else PUnreg (k + 1) (c - 1)) (ups ?i (\<lambda>t. t\<lparr>a_poll := False\<rparr>) a)"
    have "str_rel N cap (view w) ?s j (a_str ?a j)" if "j < nt_ns N" for j
      using relD(3) [OF r that] by (auto simp: str_rel_def w(5))
    then have "rel ?s ?a" using relD [OF r] w by (intro rel_stepI [OF r]) (auto simp: pc_rel_def)
    then show ?thesis using k w(1) True by (intro matchedI) (auto simp: a_unreg_def)
  next
    case False
    let ?s = "s\<lparr>sy_cpc := DFinish ?ct\<rparr>" and ?a = "setc PFinish a"
    have "rel ?s ?a" using relD [OF r] by (intro rel_stepI [OF r] str_same [OF r]) (simp_all add: pc_rel_def)
    then show ?thesis using False k poll_unregister_end [OF relD(1) [OF r] it_at_end [OF k(3)]]
      by (intro matchedI) (auto simp: a_unreg_def)
  qed
next
  case False
  have "a_unreg a = None" using False by (auto simp: a_unreg_def split: cpc.splits)
  then show ?thesis using False cpc_poll_inv(4) [OF r] by (intro matched_none) (auto split: dpc.splits)
qed

lemma m_finish:
  assumes r: "rel s a" and inv: "ainv a"
  shows "matched EvFinish s a"
proof (cases "a_cpc a = PFinish")
  case True
  let ?ct = "Some (nt_ctask N)"
  have c: "sy_cpc s = DFinish ?ct" using cpc_poll(5) [OF r True] .
  from finish_ready [OF inv True] obtain i where i: "i \<in> set (a_set a)" "a_wsd a = Some i" by blast
  then have v: "sv_wsd (view (sy_store s)) = Some (nt_csd N i)" using relD(6) [OF r] by simp
  obtain ys zs where yz: "map (nt_csd N) (a_set a) = ys @ nt_csd N i # zs"
    "map (nt_csd N) (turn i (a_set a)) = zs @ ys @ [nt_csd N i]" using turn_map [OF i(1)] .
  from poll_finish [OF relD(1) [OF r] _ v] relD(7) [OF r] yz(1) obtain w where
    w: "so_poll_finish ops (sy_store s) (Some (nt_handle N)) ?ct = Inr (Some (nt_csd N i), w)" "winv w"
      "view w = view (sy_store s)" "ss_rep (so_sds ops w) (nt_handle N) (zs @ ys @ [nt_csd N i])" by metis
  let ?s = "s\<lparr>sy_store := w, sy_cpc := DIdle, sy_ret := Some (nt_csd N i)\<rparr>"
    and ?a = "a\<lparr>a_cpc := CIdle, a_set := turn i (a_set a), a_ret := Some i\<rparr>"
  have "str_rel N cap (view w) ?s j (a_str ?a j)" if "j < nt_ns N" for j
    using str_same [OF r that, of ?s ?a] w(3) by simp
  then have "rel ?s ?a" using relD [OF r] w yz(2) by (simp add: sys_rel_def pc_rel_def)
  then show ?thesis using True c i(2) w(1) by (intro matchedI) (auto simp: a_finish_def)
next
  case False
  then show ?thesis using cpc_poll_inv(5) [OF r] by (intro matched_none) (auto simp: a_finish_def split: dpc.splits)
qed

lemma all_matched:
  assumes "rel s a" and "ainv a" and "\<And>i new. ev = EvPut i new \<Longrightarrow> so_alloc ops (sy_store s) (Some (nt_psd N i)) new"
  shows "matched ev s a"
  using assms by (cases ev) (simp_all add: m_write m_wresume m_put m_signal m_read m_rresume m_pop m_rsignal m_poll
      m_fast m_reg m_presume m_unreg m_finish)

lemma put_alloc: "exec ops N (EvPut i new) s = Some r \<Longrightarrow> so_alloc ops (sy_store s) (Some (nt_psd N i)) new"
  by (auto split: if_splits)

lemma simulates:
  assumes "rel s a" and "ainv a" and "exec ops N ev s = Some r"
  shows "\<exists>s' a'. r = Inr s' \<and> aexec ev a = Some a' \<and> rel s' a'"
proof -
  have "matched ev s a" using put_alloc assms(3) by (intro all_matched [OF assms(1,2)]) (simp del: exec.simps)
  then show ?thesis using assms(3) unfolding matched_def by (auto simp del: exec.simps)
qed

lemma enabled:
  assumes r: "rel s a" and inv: "ainv a" and "aexec ev a = Some a'"
  shows "\<exists>ev' r. ev_kind ev' = ev_kind ev \<and> exec ops N ev' s = Some r"
proof (cases "\<exists>i new. ev = EvPut i new")
  case True
  then obtain i new where ev: "ev = EvPut i new" by blast
  then have "i < nt_ns N" using assms(3) relD(2) [OF r] by (auto simp: a_put_def split: if_splits)
  then obtain new' where "so_alloc ops (sy_store s) (Some (nt_psd N i)) new'" using can_alloc relD(1) [OF r] by blast
  from m_put [OF r inv this] assms(3) ev have "exec ops N (EvPut i new') s \<noteq> None"
    unfolding matched_def by (auto simp del: exec.simps)
  then show ?thesis using ev by (intro exI [of _ "EvPut i new'"]) (auto simp del: exec.simps)
next
  case False
  then show ?thesis using all_matched [OF r inv, of ev] assms(3) unfolding matched_def by (auto simp del: exec.simps)
qed

end

sublocale stream_sections \<subseteq> stream_sim "exec ops N" "sys_rel ops N cap winv view"
  by unfold_locales (rule simulates, assumption+, rule enabled, assumption+)

section \<open>Runs from an initial state\<close>

definition sys_init :: "'w stream_ops \<Rightarrow> net \<Rightarrow> (nat \<Rightarrow> nat option) \<Rightarrow> ('w \<Rightarrow> bool) \<Rightarrow> ('w \<Rightarrow> sview) \<Rightarrow> nat list \<Rightarrow> 'w ssys \<Rightarrow> bool" where
  "sys_init ops N cap winv view xs s \<longleftrightarrow> winv (sy_store s) \<and>
     (\<forall>i < nt_ns N. sv_items (view (sy_store s)) i = [] \<and> sv_n (view (sy_store s)) i = 0 \<and>
        sv_e (view (sy_store s)) i = (case cap i of None \<Rightarrow> 0 | Some n \<Rightarrow> int n) \<and> \<not> sv_poll (view (sy_store s)) i \<and>
        cap i \<noteq> Some 0 \<and> sy_wpc s i = QIdle \<and> sy_wakes s (nt_ptask N i) = 0 \<and> sy_sent s i = [] \<and> sy_got s i = []) \<and>
     \<not> sv_token (view (sy_store s)) \<and> sy_wakes s (nt_ctask N) = 0 \<and> sy_cpc s = DIdle \<and> sy_ret s = None \<and>
     distinct xs \<and> set xs \<subseteq> {..<nt_ns N} \<and> ss_rep (so_sds ops (sy_store s)) (nt_handle N) (map (nt_csd N) xs)"

text \<open>
  What holds in every state of a run: the items read are the items written so far less those still
  queued, in order and within the capacity, and whoever is blocked without a wakeup on its way
  cannot go on: nothing to read, no space to write, no stream of the set with an item, unless the
  partner is just about to send the wakeup. A poll that is about to return has found a stream with
  an item, and outside of polls no stream is marked.
\<close>

definition str_good :: "(nat \<Rightarrow> nat option) \<Rightarrow> net \<Rightarrow> sview \<Rightarrow> 'w ssys \<Rightarrow> nat \<Rightarrow> bool" where
  "str_good cap N v s i \<longleftrightarrow> sy_sent s i = sy_got s i @ sv_items v i \<and>
     (case cap i of None \<Rightarrow> True | Some n \<Rightarrow> length (sv_items v i) \<le> n) \<and>
     (\<forall>x. sy_wpc s i = QBlocked x \<and> sy_wakes s (nt_ptask N i) = 0 \<longrightarrow> sv_items v i \<noteq> [] \<or> sy_cpc s = DRSignal i) \<and>
     (sy_cpc s = DRBlocked i \<and> sy_wakes s (nt_ctask N) = 0 \<longrightarrow>
        (sv_items v i = [] \<or> (\<exists>pw. sy_wpc s i = QSignal pw)) \<and>
        (\<forall>x. sy_wpc s i = QBlocked x \<longrightarrow> 0 < sy_wakes s (nt_ptask N i)))"

definition poll_good :: "net \<Rightarrow> sview \<Rightarrow> sd_store \<Rightarrow> 'w ssys \<Rightarrow> bool" where
  "poll_good N v st s \<longleftrightarrow> (\<exists>xs. distinct xs \<and> set xs \<subseteq> {..<nt_ns N} \<and> ss_rep st (nt_handle N) (map (nt_csd N) xs) \<and>
     (\<forall>self it cnt. sy_cpc s = DBlocked self it cnt \<and> sy_wakes s (nt_ctask N) = 0 \<longrightarrow>
        (\<exists>i < nt_ns N. \<exists>pw. sy_wpc s i = QSignal pw \<and> pw \<noteq> 0) \<or> (\<forall>i \<in> set xs. sv_items v i = [] \<and> sv_poll v i)) \<and>
     (\<forall>self. sy_cpc s = DFinish self \<longrightarrow> (\<exists>i \<in> set xs. sv_wsd v = Some (nt_csd N i) \<and> sv_items v i \<noteq> [])) \<and>
     ((\<exists>i. sy_cpc s \<in> {DIdle, DRBlocked i, DRPop i, DRSignal i}) \<longrightarrow> (\<forall>i < nt_ns N. \<not> sv_poll v i)))"

fun producer_of :: "event \<Rightarrow> nat option" where
  "producer_of (EvWrite i x) = Some i"
| "producer_of (EvWResume i) = Some i"
| "producer_of (EvPut i new) = Some i"
| "producer_of (EvSignal i) = Some i"
| "producer_of _ = None"

lemma producer_of_kind: "producer_of (ev_kind ev) = producer_of ev"
  by (cases ev) auto

context stream_sections
begin

lemma init_rel:
  assumes "sys_init ops N cap winv view xs s"
  shows "rel s (ainit cap (nt_ns N) xs)" "ainv (ainit cap (nt_ns N) xs)"
proof -
  show "ainv (ainit cap (nt_ns N) xs)" using assms by (intro ainit_inv) (auto simp: sys_init_def)
  show "rel s (ainit cap (nt_ns N) xs)"
    using assms by (auto simp: sys_init_def sys_rel_def ainit_def init_stream_def str_rel_def pc_rel_def)
qed

lemma good_states:
  assumes r: "rel s a" and inv: "ainv a"
  shows "(\<forall>i < nt_ns N. str_good cap N (view (sy_store s)) s i) \<and> poll_good N (view (sy_store s)) (so_sds ops (sy_store s)) s"
proof (intro conjI allI impI)
  fix i assume i: "i < nt_ns N"
  then have ia: "i < a_ns a" using relD(2) [OF r] by simp
  let ?v = "view (sy_store s)"
  have sr: "a_items (a_str a i) = sv_items ?v i" "a_sent (a_str a i) = sy_sent s i" "a_got (a_str a i) = sy_got s i"
    "a_cap (a_str a i) = cap i" "a_wake (a_str a i) = sy_wakes s (nt_ptask N i)"
    using relD(3) [OF r i] by (auto simp: str_rel_def)
  have 1: "sy_sent s i = sy_got s i @ sv_items ?v i" using ainvD(1) [OF inv ia] sr by (simp add: str_inv_def)
  have 2: "case cap i of None \<Rightarrow> True | Some n \<Rightarrow> length (sv_items ?v i) \<le> n"
    using items_bound [OF inv ia] sr by (auto split: option.splits)
  have 3: "sv_items ?v i \<noteq> [] \<or> sy_cpc s = DRSignal i" if "sy_wpc s i = QBlocked x" "sy_wakes s (nt_ptask N i) = 0" for x
    using blocked_writer [OF inv ia] that wpc_cases(2) [OF r i] sr cpc_none(4) [OF r] by auto
  have 4: "(sv_items ?v i = [] \<or> (\<exists>pw. sy_wpc s i = QSignal pw)) \<and>
      (\<forall>x. sy_wpc s i = QBlocked x \<longrightarrow> 0 < sy_wakes s (nt_ptask N i))"
    if c: "sy_cpc s = DRBlocked i" "sy_wakes s (nt_ctask N) = 0"
  proof -
    have "a_cpc a = RBlocked i" "a_cwake a = 0" using c cpc_none(2) [OF r] relD(5) [OF r] by auto
    from blocked_reader [OF inv this] have b: "blocked_w (a_wpc (a_str a i)) \<longrightarrow> 0 < a_wake (a_str a i)"
      "a_items (a_str a i) = [] \<or> (\<exists>pw. a_wpc (a_str a i) = WSignal pw)" by auto
    from b(2) have "sv_items ?v i = [] \<or> (\<exists>pw. sy_wpc s i = QSignal pw)"
      using sr(1) wpc_cases(5) [OF r i] by auto
    moreover have "0 < sy_wakes s (nt_ptask N i)" if "sy_wpc s i = QBlocked x" for x
      using that b(1) sr(5) wpc_cases(2) [OF r i] by simp
    ultimately show ?thesis by blast
  qed
  show "str_good cap N ?v s i" using 1 2 3 4 by (auto simp: str_good_def)
next
  let ?v = "view (sy_store s)" and ?st = "so_sds ops (sy_store s)"
  have sr: "a_items (a_str a i) = sv_items ?v i" "a_poll (a_str a i) = sv_poll ?v i" if "i < nt_ns N" for i
    using relD(3) [OF r that] by (auto simp: str_rel_def)
  have xs: "set (a_set a) \<subseteq> {..<nt_ns N}" using ainvD(3) [OF inv] relD(2) [OF r] by simp
  have blk: "(\<exists>i < nt_ns N. \<exists>pw. sy_wpc s i = QSignal pw \<and> pw \<noteq> 0) \<or> (\<forall>i \<in> set (a_set a). sv_items ?v i = [] \<and> sv_poll ?v i)"
    if c: "sy_cpc s = DBlocked self it cnt" "sy_wakes s (nt_ctask N) = 0" for self it cnt
  proof -
    from cpc_poll_inv(3) [OF r c(1)] obtain k where "a_cpc a = PBlocked k" by blast
    from blocked_poller [OF inv this] c(2) relD(5) [OF r] consider
      i where "i < a_ns a" "a_wpc (a_str a i) = WSignal True" | "\<forall>i \<in> set (a_set a). a_poll (a_str a i) \<and> a_items (a_str a i) = []"
      by auto
    then show ?thesis
    proof cases
      case 1
      then show ?thesis using wpc_cases(5) [OF r] relD(2) [OF r] by metis
    next
      case 2
      then show ?thesis using sr xs by (metis lessThan_iff subsetD)
    qed
  qed
  have fin: "\<exists>i \<in> set (a_set a). sv_wsd ?v = Some (nt_csd N i) \<and> sv_items ?v i \<noteq> []" if "sy_cpc s = DFinish self" for self
  proof -
    from finish_ready [OF inv cpc_poll_inv(5) [OF r that]] obtain i where
      i: "i \<in> set (a_set a)" "a_wsd a = Some i" "a_items (a_str a i) \<noteq> []" by blast
    then have "i < nt_ns N" using xs by auto
    then show ?thesis using i relD(6) [OF r i(2)] sr(1) by auto
  qed
  have idle: "\<not> sv_poll ?v i" if "sy_cpc s \<in> {DIdle, DRBlocked j, DRPop j, DRSignal j}" "i < nt_ns N" for i j
  proof -
    have "\<not> polling (a_cpc a)" "\<not> ending (a_cpc a)" using that(1) cpc_none [OF r] by auto
    then show ?thesis using idle_facts(3) [OF inv, of i] that(2) relD(2) [OF r] sr(2) by simp
  qed
  show "poll_good N ?v ?st s"
    unfolding poll_good_def using ainvD(2) [OF inv] xs relD(7) [OF r] blk fin idle by (intro exI [of _ "a_set a"]) blast
qed

text \<open>Every run from an initial state goes without failure and through good states only.\<close>

lemma run_good:
  assumes "sys_init ops N cap winv view xs s" and "run_events (exec ops N) evs s = Some r"
  shows "\<exists>s'. r = Inr s' \<and> (\<forall>i < nt_ns N. str_good cap N (view (sy_store s')) s' i) \<and>
    poll_good N (view (sy_store s')) (so_sds ops (sy_store s')) s'"
  using run_rel [OF init_rel [OF assms(1)] assms(2)] good_states by blast

text \<open>A consumer that waits for a producer never waits for one that is itself stuck.\<close>

lemma producer_moves:
  assumes r: "rel s a" and inv: "ainv a" and i: "i < nt_ns N"
    and nb: "\<And>x. sy_wpc s i = QBlocked x \<Longrightarrow> 0 < sy_wakes s (nt_ptask N i)"
  shows "\<exists>ev s'. producer_of ev = Some i \<and> exec ops N ev s = Some (Inr s')"
proof -
  have ia: "i < a_ns a" using i relD(2) [OF r] by simp
  have "\<exists>ev a'. producer_of ev = Some i \<and> aexec ev a = Some a'"
  proof (cases "a_wpc (a_str a i)")
    case WIdle
    then have "aexec (EvWrite i 0) a \<noteq> None" using ia by (simp add: a_write_def)
    then show ?thesis by (intro exI [of _ "EvWrite i 0"]) auto
  next
    case (WBlocked x)
    then have "0 < a_wake (a_str a i)" using nb [of x] wpc_cases(2) [OF r i] relD(3) [OF r i] by (simp add: str_rel_def)
    then have "aexec (EvWResume i) a \<noteq> None" using ia WBlocked by (simp add: a_wresume_def)
    then show ?thesis by (intro exI [of _ "EvWResume i"]) auto
  next
    case (WPut x)
    then have "aexec (EvPut i None) a \<noteq> None" using ia by (simp add: a_put_def)
    then show ?thesis by (intro exI [of _ "EvPut i None"]) auto
  next
    case (WSignal pw)
    then have "aexec (EvSignal i) a \<noteq> None" using ia by (simp add: a_signal_def Let_def)
    then show ?thesis by (intro exI [of _ "EvSignal i"]) auto
  qed
  then obtain ev a' where ev: "producer_of ev = Some i" "aexec ev a = Some a'" by blast
  from step_ok [OF r inv ev(2)] obtain ev' s' where e: "ev_kind ev' = ev_kind ev" "exec ops N ev' s = Some (Inr s')" by blast
  have "producer_of ev' = Some i" using producer_of_kind [of ev] producer_of_kind [of ev'] e(1) ev(1) by simp
  with e(2) show ?thesis by blast
qed

text \<open>A producer that has taken the token of a poll wakes the consumer in its next section.\<close>

lemma holder_wakes:
  assumes r: "rel s a" and inv: "ainv a" and i: "i \<in> holders a"
  shows "\<exists>s'. exec ops N (EvSignal i) s = Some (Inr s') \<and> 0 < sy_wakes s' (nt_ctask N)"
proof -
  have "i < a_ns a" "a_wpc (a_str a i) = WSignal True" using i by (auto simp: holders_def)
  then have "\<exists>a'. aexec (EvSignal i) a = Some a' \<and> 0 < a_cwake a'" by (cases "a_n (a_str a i) < 0") (simp_all add: a_signal_def)
  then obtain a' where a': "aexec (EvSignal i) a = Some a'" "0 < a_cwake a'" by blast
  from step_ok [OF r inv a'(1)] obtain ev s' where e: "ev_kind ev = EvSignal i" "exec ops N ev s = Some (Inr s')" by auto
  then have "ev = EvSignal i" by (cases ev) auto
  with e(2) have x: "exec ops N (EvSignal i) s = Some (Inr s')" by simp
  from sim [OF r inv x] a'(1) have "rel s' a'" by auto
  with x a'(2) relD(5) show ?thesis by metis
qed

lemma run_live:
  assumes "sys_init ops N cap winv view xs s" and "run_events (exec ops N) evs s = Some (Inr s')"
    and "sy_wakes s' (nt_ctask N) = 0"
  shows "sy_cpc s' = DRBlocked i \<Longrightarrow> \<exists>ev s''. producer_of ev = Some i \<and> exec ops N ev s' = Some (Inr s'')"
    and "sy_cpc s' = DBlocked self it cnt \<Longrightarrow>
      \<exists>ys. ys \<noteq> [] \<and> set ys \<subseteq> {..<nt_ns N} \<and> ss_rep (so_sds ops (sy_store s')) (nt_handle N) (map (nt_csd N) ys) \<and>
        ((\<exists>j \<in> set ys. \<exists>s''. exec ops N (EvSignal j) s' = Some (Inr s'') \<and> 0 < sy_wakes s'' (nt_ctask N)) \<or>
         (\<forall>j \<in> set ys. \<exists>ev s''. producer_of ev = Some j \<and> exec ops N ev s' = Some (Inr s'')))"
proof -
  from run_rel [OF init_rel [OF assms(1)] assms(2)] obtain a where r: "rel s' a" and inv: "ainv a" by auto
  note good = good_states [OF r inv]
  {
    assume c: "sy_cpc s' = DRBlocked i"
    then have i: "i < nt_ns N" using cpc_none(2) [OF r] ainvD(4) [OF inv] relD(2) [OF r] by simp
    then have "\<And>x. sy_wpc s' i = QBlocked x \<Longrightarrow> 0 < sy_wakes s' (nt_ptask N i)"
      using good c assms(3) by (auto simp: str_good_def)
    from producer_moves [OF r inv i this]
    show "\<exists>ev s''. producer_of ev = Some i \<and> exec ops N ev s' = Some (Inr s'')" .
  next
    assume c: "sy_cpc s' = DBlocked self it cnt"
    from cpc_poll_inv(3) [OF r c] obtain k where k: "a_cpc a = PBlocked k" by blast
    have cw: "a_cwake a = 0" using assms(3) relD(5) [OF r] by simp
    have ys: "a_set a \<noteq> []" "set (a_set a) \<subseteq> {..<nt_ns N}" using ainvD(3,4) [OF inv] k relD(2) [OF r] by simp_all
    from blocked_poller [OF inv k cw] consider
      j where "j < a_ns a" "a_wpc (a_str a j) = WSignal True" | "\<forall>j \<in> set (a_set a). a_items (a_str a j) = []"
      by auto
    then have "(\<exists>j \<in> set (a_set a). \<exists>s''. exec ops N (EvSignal j) s' = Some (Inr s'') \<and> 0 < sy_wakes s'' (nt_ctask N)) \<or>
         (\<forall>j \<in> set (a_set a). \<exists>ev s''. producer_of ev = Some j \<and> exec ops N ev s' = Some (Inr s''))"
    proof cases
      case (1 j)
      then have "j \<in> holders a" by (simp add: holders_def)
      from holder_wakes [OF r inv this] pollD(4) [OF inv] this show ?thesis by blast
    next
      case 2
      have "\<exists>ev s''. producer_of ev = Some j \<and> exec ops N ev s' = Some (Inr s'')" if j: "j \<in> set (a_set a)" for j
      proof -
        have jn: "j < nt_ns N" "j < a_ns a" using j ys(2) relD(2) [OF r] by auto
        have "\<not> blocked_w (a_wpc (a_str a j)) \<or> 0 < a_wake (a_str a j)"
          using blocked_writer [OF inv jn(2)] 2 j k by auto
        then have "0 < sy_wakes s' (nt_ptask N j)" if "sy_wpc s' j = QBlocked x" for x
          using that wpc_cases(2) [OF r jn(1), of x] relD(3) [OF r jn(1)] by (simp add: str_rel_def)
        then show ?thesis by (rule producer_moves [OF r inv jn(1)])
      qed
      then show ?thesis by blast
    qed
    with ys relD(7) [OF r] show "\<exists>ys. ys \<noteq> [] \<and> set ys \<subseteq> {..<nt_ns N} \<and> ss_rep (so_sds ops (sy_store s')) (nt_handle N) (map (nt_csd N) ys) \<and>
        ((\<exists>j \<in> set ys. \<exists>s''. exec ops N (EvSignal j) s' = Some (Inr s'') \<and> 0 < sy_wakes s'' (nt_ctask N)) \<or>
         (\<forall>j \<in> set ys. \<exists>ev s''. producer_of ev = Some j \<and> exec ops N ev s' = Some (Inr s'')))" by blast
  }
qed

end

end
