(* ===== verification/Decen_Stream.thy ===== *)
theory Decen_Stream
  imports Decen_Types Decen_Buffer Stream_System
begin

text \<open>
  \<open>src/sched/decentralised/decen_stream.c\<close>: bounded streams with one producer and one consumer
  task, and polling of a set of streams. Every atomic section of \<open>LpelStreamWrite\<close>,
  \<open>LpelStreamRead\<close> and \<open>LpelStreamPoll\<close> (an atomic counter operation, a section under
  \<open>prod_lock\<close>, an access to the buffer) is a definition of its own; the functions are their
  compositions, with the scheduler's \<open>LpelTaskBlockStream\<close> and \<open>LpelTaskUnblock\<close> as arguments.
  The second half runs the sections of any number of producers and a consumer interleaved and
  shows that they implement the protocol of \<open>Stream_Protocol\<close>. Monitoring callbacks are off.
\<close>

section \<open>Model\<close>

definition STREAM_BUFFER_SIZE :: int where "STREAM_BUFFER_SIZE = 16"

record decen_stream_t =
  ds_buffer :: buffer_t
  ds_uid :: "32 word"
  ds_is_poll :: int
  ds_prod_sd :: ptr
  ds_cons_sd :: ptr
  ds_n_sem :: int
  ds_e_sem :: int
  ds_usr_data :: ptr

record decen_store =
  dw_tasks :: tasks
  dw_streams :: "decen_stream_t heap"
  dw_sds :: sd_store

definition upd_ds :: "decen_store \<Rightarrow> ptr \<Rightarrow> (decen_stream_t \<Rightarrow> decen_stream_t) \<Rightarrow> decen_store res" where
  "upd_ds w s f = bindR (upd (dw_streams w) s f) (\<lambda>h. Inr (w\<lparr>dw_streams := h\<rparr>))"

definition upd_dt :: "decen_store \<Rightarrow> ptr \<Rightarrow> (lpel_task_t \<Rightarrow> lpel_task_t) \<Rightarrow> decen_store res" where
  "upd_dt w t f = bindR (upd (dw_tasks w) t f) (\<lambda>h. Inr (w\<lparr>dw_tasks := h\<rparr>))"

definition sd_at :: "decen_store \<Rightarrow> ptr \<Rightarrow> lpel_stream_desc_t res" where
  "sd_at w sd = deref (sds (dw_sds w)) sd"

definition stream_at :: "decen_store \<Rightarrow> ptr \<Rightarrow> decen_stream_t res" where
  "stream_at w s = deref (dw_streams w) s"

text \<open>The answer of \<open>malloc\<close> is \<open>new\<close>, \<open>seq\<close> the counter \<open>stream_seq\<close>.\<close>

definition LpelStreamCreate_decen :: "decen_store \<Rightarrow> 32 word \<Rightarrow> ptr \<Rightarrow> int \<Rightarrow> (ptr \<times> decen_store \<times> 32 word) res" where
  "LpelStreamCreate_decen w seq new sz =
     bindR (assertR (sz \<ge> 0)) (\<lambda>_.
       let sz = (if sz = 0 then STREAM_BUFFER_SIZE else sz) in
       bindR (alloc_at (dw_streams w) new
         \<lparr>ds_buffer = LpelBufferInit_decen (word_of_int sz), ds_uid = seq, ds_is_poll = 0, ds_prod_sd = None,
          ds_cons_sd = None, ds_n_sem = 0, ds_e_sem = sz, ds_usr_data = None\<rparr>) (\<lambda>h.
         Inr (new, w\<lparr>dw_streams := h\<rparr>, seq + 1)))"

definition LpelStreamDestroy_decen :: "decen_store \<Rightarrow> ptr \<Rightarrow> decen_store res" where
  "LpelStreamDestroy_decen w s =
     bindR (stream_at w s) (\<lambda>_. bindR (free_at (dw_streams w) s) (\<lambda>h. Inr (w\<lparr>dw_streams := h\<rparr>)))"

subsection \<open>Writing\<close>

text \<open>The checks and the operation \<open>P(e_sem)\<close>; the answer tells whether the task has to block.\<close>

definition write_enter :: "decen_store \<Rightarrow> ptr \<Rightarrow> ptr \<Rightarrow> (bool \<times> decen_store) res" where
  "write_enter w sd item =
     bindR (sd_at w sd) (\<lambda>d.
     bindR (assertR (sd_mode d = CHR ''w'')) (\<lambda>_.
     bindR (assertR (item \<noteq> None)) (\<lambda>_.
     bindR (stream_at w (sd_stream d)) (\<lambda>s.
     bindR (upd_ds w (sd_stream d) (\<lambda>s. s\<lparr>ds_e_sem := ds_e_sem s - 1\<rparr>)) (\<lambda>w'.
       Inr (ds_e_sem s = 0, w'))))))"

text \<open>The section under \<open>prod_lock\<close>; the answer is \<open>poll_wakeup\<close>.\<close>

definition write_put :: "decen_store \<Rightarrow> ptr \<Rightarrow> ptr \<Rightarrow> (int \<times> decen_store) res" where
  "write_put w sd item =
     bindR (sd_at w sd) (\<lambda>d.
     bindR (stream_at w (sd_stream d)) (\<lambda>s.
     bindR (LpelBufferIsSpace_decen (ds_buffer s)) (\<lambda>sp.
     bindR (assertR sp) (\<lambda>_.
     bindR (LpelBufferPut_decen (ds_buffer s) item) (\<lambda>b.
     bindR (upd_ds w (sd_stream d) (\<lambda>s. s\<lparr>ds_buffer := b\<rparr>)) (\<lambda>w1.
       if ds_is_poll s \<noteq> 0 then
         bindR (sd_at w1 (ds_cons_sd s)) (\<lambda>c.
         bindR (deref (dw_tasks w1) (sd_task c)) (\<lambda>t.
         bindR (upd_dt w1 (sd_task c) (\<lambda>t. t\<lparr>t_poll_token := 0\<rparr>)) (\<lambda>w2.
         bindR (upd_ds w2 (sd_stream d) (\<lambda>s. s\<lparr>ds_is_poll := 0\<rparr>)) (\<lambda>w3.
           Inr (t_poll_token t, w3)))))
       else Inr (0, w1)))))))"

text \<open>The operation \<open>V(n_sem)\<close>; the answer is the task to unblock, if any.\<close>

definition write_signal :: "decen_store \<Rightarrow> ptr \<Rightarrow> int \<Rightarrow> (ptr option \<times> decen_store) res" where
  "write_signal w sd poll_wakeup =
     bindR (sd_at w sd) (\<lambda>d.
     bindR (stream_at w (sd_stream d)) (\<lambda>s.
     bindR (upd_ds w (sd_stream d) (\<lambda>s. s\<lparr>ds_n_sem := ds_n_sem s + 1\<rparr>)) (\<lambda>w1.
       if ds_n_sem s < 0 then
         bindR (sd_at w1 (ds_cons_sd s)) (\<lambda>c. Inr (Some (sd_task c), w1))
       else if poll_wakeup \<noteq> 0 then
         bindR (sd_at w1 (ds_cons_sd s)) (\<lambda>c.
         bindR (upd_dt w1 (sd_task c) (\<lambda>t. t\<lparr>t_wakeup_sd := ds_cons_sd s\<rparr>)) (\<lambda>w2.
           Inr (Some (sd_task c), w2)))
       else Inr (None, w1))))"

definition LpelStreamWrite_decen :: "(decen_store \<Rightarrow> ptr \<Rightarrow> decen_store res) \<Rightarrow> (decen_store \<Rightarrow> ptr \<Rightarrow> ptr \<Rightarrow> decen_store res) \<Rightarrow>
    decen_store \<Rightarrow> ptr \<Rightarrow> ptr \<Rightarrow> decen_store res" where
  "LpelStreamWrite_decen block unblock w sd item =
     bindR (sd_at w sd) (\<lambda>d.
     bindR (write_enter w sd item) (\<lambda>(full, w1).
     bindR (if full then block w1 (sd_task d) else Inr w1) (\<lambda>w2.
     bindR (write_put w2 sd item) (\<lambda>(poll_wakeup, w3).
     bindR (write_signal w3 sd poll_wakeup) (\<lambda>(whom, w4).
       case whom of None \<Rightarrow> Inr w4 | Some t \<Rightarrow> unblock w4 (sd_task d) t)))))"

definition LpelStreamTryWrite_decen :: "(decen_store \<Rightarrow> ptr \<Rightarrow> decen_store res) \<Rightarrow> (decen_store \<Rightarrow> ptr \<Rightarrow> ptr \<Rightarrow> decen_store res) \<Rightarrow>
    decen_store \<Rightarrow> ptr \<Rightarrow> ptr \<Rightarrow> (int \<times> decen_store) res" where
  "LpelStreamTryWrite_decen block unblock w sd item =
     bindR (sd_at w sd) (\<lambda>d.
     bindR (stream_at w (sd_stream d)) (\<lambda>s.
     bindR (LpelBufferIsSpace_decen (ds_buffer s)) (\<lambda>sp.
       if \<not> sp then Inr (- 1, w)
       else bindR (LpelStreamWrite_decen block unblock w sd item) (\<lambda>w'. Inr (0, w')))))"

subsection \<open>Reading\<close>

definition read_enter :: "decen_store \<Rightarrow> ptr \<Rightarrow> (bool \<times> decen_store) res" where
  "read_enter w sd =
     bindR (sd_at w sd) (\<lambda>d.
     bindR (assertR (sd_mode d = CHR ''r'')) (\<lambda>_.
     bindR (stream_at w (sd_stream d)) (\<lambda>s.
     bindR (upd_ds w (sd_stream d) (\<lambda>s. s\<lparr>ds_n_sem := ds_n_sem s - 1\<rparr>)) (\<lambda>w'.
       Inr (ds_n_sem s = 0, w')))))"

definition read_pop :: "decen_store \<Rightarrow> ptr \<Rightarrow> (ptr \<times> decen_store) res" where
  "read_pop w sd =
     bindR (sd_at w sd) (\<lambda>d.
     bindR (stream_at w (sd_stream d)) (\<lambda>s.
     bindR (LpelBufferTop_decen (ds_buffer s)) (\<lambda>item.
     bindR (assertR (item \<noteq> None)) (\<lambda>_.
     bindR (LpelBufferPop_decen (ds_buffer s)) (\<lambda>b.
     bindR (upd_ds w (sd_stream d) (\<lambda>s. s\<lparr>ds_buffer := b\<rparr>)) (\<lambda>w'. Inr (item, w')))))))"

definition read_signal :: "decen_store \<Rightarrow> ptr \<Rightarrow> (ptr option \<times> decen_store) res" where
  "read_signal w sd =
     bindR (sd_at w sd) (\<lambda>d.
     bindR (stream_at w (sd_stream d)) (\<lambda>s.
     bindR (upd_ds w (sd_stream d) (\<lambda>s. s\<lparr>ds_e_sem := ds_e_sem s + 1\<rparr>)) (\<lambda>w1.
       if ds_e_sem s < 0 then
         bindR (sd_at w1 (ds_prod_sd s)) (\<lambda>p. Inr (Some (sd_task p), w1))
       else Inr (None, w1))))"

definition LpelStreamRead_decen :: "(decen_store \<Rightarrow> ptr \<Rightarrow> decen_store res) \<Rightarrow> (decen_store \<Rightarrow> ptr \<Rightarrow> ptr \<Rightarrow> decen_store res) \<Rightarrow>
    decen_store \<Rightarrow> ptr \<Rightarrow> (ptr \<times> decen_store) res" where
  "LpelStreamRead_decen block unblock w sd =
     bindR (sd_at w sd) (\<lambda>d.
     bindR (read_enter w sd) (\<lambda>(empty, w1).
     bindR (if empty then block w1 (sd_task d) else Inr w1) (\<lambda>w2.
     bindR (read_pop w2 sd) (\<lambda>(item, w3).
     bindR (read_signal w3 sd) (\<lambda>(whom, w4).
     bindR (case whom of None \<Rightarrow> Inr w4 | Some t \<Rightarrow> unblock w4 (sd_task d) t) (\<lambda>w5. Inr (item, w5)))))))"

subsection \<open>Opening, closing, replacing\<close>

definition upd_sds :: "decen_store \<Rightarrow> lpel_stream_desc_t heap \<Rightarrow> decen_store" where
  "upd_sds w h = w\<lparr>dw_sds := (dw_sds w)\<lparr>sds := h\<rparr>\<rparr>"

text \<open>\<open>ct\<close> is the answer of \<open>LpelTaskSelf\<close>.\<close>

definition LpelStreamOpen_decen :: "decen_store \<Rightarrow> ptr \<Rightarrow> ptr \<Rightarrow> ptr \<Rightarrow> char \<Rightarrow> (ptr \<times> decen_store) res" where
  "LpelStreamOpen_decen w new ct s mode =
     bindR (assertR (mode = CHR ''r'' \<or> mode = CHR ''w'')) (\<lambda>_.
     bindR (alloc_at (sds (dw_sds w)) new
       \<lparr>sd_task = ct, sd_stream = s, sd_mode = mode, sd_next = None, sd_mon = None\<rparr>) (\<lambda>h.
     bindR (upd_ds (upd_sds w h) s
         (\<lambda>c. if mode = CHR ''r'' then c\<lparr>ds_cons_sd := new\<rparr> else c\<lparr>ds_prod_sd := new\<rparr>)) (\<lambda>w'.
       Inr (new, w'))))"

definition LpelStreamClose_decen :: "decen_store \<Rightarrow> ptr \<Rightarrow> int \<Rightarrow> decen_store res" where
  "LpelStreamClose_decen w sd destroy_s =
     bindR (if destroy_s \<noteq> 0 then bindR (sd_at w sd) (\<lambda>d. LpelStreamDestroy_decen w (sd_stream d)) else Inr w) (\<lambda>w1.
     bindR (free_at (sds (dw_sds w1)) sd) (\<lambda>h. Inr (upd_sds w1 h)))"

definition LpelStreamReplace_decen :: "decen_store \<Rightarrow> ptr \<Rightarrow> ptr \<Rightarrow> decen_store res" where
  "LpelStreamReplace_decen w sd snew =
     bindR (sd_at w sd) (\<lambda>d.
     bindR (assertR (sd_mode d = CHR ''r'')) (\<lambda>_.
     bindR (LpelStreamDestroy_decen w (sd_stream d)) (\<lambda>w1.
     bindR (upd (sds (dw_sds w1)) sd (\<lambda>d. d\<lparr>sd_stream := snew\<rparr>)) (\<lambda>h.
       upd_ds (upd_sds w1 h) snew (\<lambda>s. s\<lparr>ds_cons_sd := sd\<rparr>)))))"

definition LpelStreamSetUsrData_decen :: "decen_store \<Rightarrow> ptr \<Rightarrow> ptr \<Rightarrow> decen_store res" where
  "LpelStreamSetUsrData_decen w s d = upd_ds w s (\<lambda>s. s\<lparr>ds_usr_data := d\<rparr>)"

definition LpelStreamGetUsrData_decen :: "decen_store \<Rightarrow> ptr \<Rightarrow> ptr res" where
  "LpelStreamGetUsrData_decen w s = bindR (stream_at w s) (\<lambda>s. Inr (ds_usr_data s))"

definition LpelStreamGet_decen :: "decen_store \<Rightarrow> ptr \<Rightarrow> ptr res" where
  "LpelStreamGet_decen w sd = bindR (sd_at w sd) (\<lambda>d. Inr (sd_stream d))"

definition LpelStreamPeek_decen :: "decen_store \<Rightarrow> ptr \<Rightarrow> ptr res" where
  "LpelStreamPeek_decen w sd =
     bindR (sd_at w sd) (\<lambda>d.
     bindR (assertR (sd_mode d = CHR ''r'')) (\<lambda>_.
     bindR (stream_at w (sd_stream d)) (\<lambda>s. LpelBufferTop_decen (ds_buffer s))))"

definition LpelStreamGetId_decen :: "decen_store \<Rightarrow> ptr \<Rightarrow> int res" where
  "LpelStreamGetId_decen w sd =
     (if sd \<noteq> None then
        bindR (sd_at w sd) (\<lambda>d.
          if sd_stream d \<noteq> None then bindR (stream_at w (sd_stream d)) (\<lambda>s. Inr (sint (ds_uid s)))
          else Inr (- 1))
      else Inr (- 1))"

subsection \<open>Polling\<close>

text \<open>One round of each of the three loops; \<open>None\<close> when the iterator is at its end.\<close>

definition poll_fast :: "decen_store \<Rightarrow> lpel_stream_iter_t \<Rightarrow> ((ptr \<times> bool \<times> lpel_stream_iter_t) option) res" where
  "poll_fast w it =
     bindR (LpelStreamIterHasNext (dw_sds w) it) (\<lambda>hn.
       if \<not> hn then Inr None
       else bindR (LpelStreamIterNext (dw_sds w) it) (\<lambda>(sd, it').
         bindR (sd_at w sd) (\<lambda>d.
         bindR (stream_at w (sd_stream d)) (\<lambda>s.
         bindR (LpelBufferTop_decen (ds_buffer s)) (\<lambda>top. Inr (Some (sd, top \<noteq> None, it')))))))"

definition poll_register :: "decen_store \<Rightarrow> ptr \<Rightarrow> lpel_stream_iter_t \<Rightarrow> (decen_store poll_round) res" where
  "poll_register w self it =
     bindR (LpelStreamIterHasNext (dw_sds w) it) (\<lambda>hn.
       if \<not> hn then Inr PollEnd
       else bindR (LpelStreamIterNext (dw_sds w) it) (\<lambda>(sd, it').
         bindR (sd_at w sd) (\<lambda>d.
         bindR (stream_at w (sd_stream d)) (\<lambda>s.
         bindR (LpelBufferTop_decen (ds_buffer s)) (\<lambda>top.
           if top \<noteq> None then
             bindR (deref (dw_tasks w) self) (\<lambda>t.
             bindR (upd_dt w self (\<lambda>t. t\<lparr>t_poll_token := 0\<rparr>)) (\<lambda>w1.
               if t_poll_token t \<noteq> 0 then
                 bindR (upd_dt w1 self (\<lambda>t. t\<lparr>t_wakeup_sd := sd\<rparr>)) (\<lambda>w2. Inr (PollHit True w2))
               else Inr (PollHit False w1)))
           else
             bindR (upd_ds w (sd_stream d) (\<lambda>s. s\<lparr>ds_is_poll := 1\<rparr>)) (\<lambda>w1. Inr (PollMark it' w1)))))))"

definition poll_unregister :: "decen_store \<Rightarrow> lpel_stream_iter_t \<Rightarrow> ((lpel_stream_iter_t \<times> decen_store) option) res" where
  "poll_unregister w it =
     bindR (LpelStreamIterHasNext (dw_sds w) it) (\<lambda>hn.
       if \<not> hn then Inr None
       else bindR (LpelStreamIterNext (dw_sds w) it) (\<lambda>(sd, it').
         bindR (sd_at w sd) (\<lambda>d.
         bindR (upd_ds w (sd_stream d) (\<lambda>s. s\<lparr>ds_is_poll := 0\<rparr>)) (\<lambda>w1. Inr (Some (it', w1))))))"

definition set_handle :: "decen_store \<Rightarrow> ptr \<Rightarrow> ptr \<Rightarrow> decen_store res" where
  "set_handle w st sd =
     bindR (upd (handles (dw_sds w)) st (\<lambda>_. sd)) (\<lambda>hs. Inr (w\<lparr>dw_sds := (dw_sds w)\<lparr>handles := hs\<rparr>\<rparr>))"

text \<open>The begin: the assertion, \<open>self\<close> and the iterator.\<close>

definition poll_begin :: "decen_store \<Rightarrow> ptr \<Rightarrow> (ptr \<times> lpel_stream_iter_t) res" where
  "poll_begin w st =
     bindR (deref (handles (dw_sds w)) st) (\<lambda>s.
     bindR (assertR (s \<noteq> None)) (\<lambda>_.
     bindR (sd_at w s) (\<lambda>d.
     bindR (LpelStreamIterCreate (dw_sds w) st) (\<lambda>it. Inr (sd_task d, it)))))"

definition poll_token :: "decen_store \<Rightarrow> ptr \<Rightarrow> ptr \<Rightarrow> lpel_stream_iter_t \<Rightarrow> (lpel_stream_iter_t \<times> decen_store) res" where
  "poll_token w st self it =
     bindR (upd_dt w self (\<lambda>t. t\<lparr>t_poll_token := 1\<rparr>)) (\<lambda>w1.
     bindR (LpelStreamIterReset (dw_sds w1) it st) (\<lambda>it'. Inr (it', w1)))"

text \<open>After the wakeup, or when no context switch was necessary.\<close>

definition poll_awake :: "decen_store \<Rightarrow> ptr \<Rightarrow> ptr \<Rightarrow> lpel_stream_iter_t \<Rightarrow> lpel_stream_iter_t res" where
  "poll_awake w st self it =
     bindR (deref (dw_tasks w) self) (\<lambda>t.
     bindR (assertR (t_poll_token t = 0)) (\<lambda>_. LpelStreamIterReset (dw_sds w) it st))"

definition poll_finish :: "decen_store \<Rightarrow> ptr \<Rightarrow> ptr \<Rightarrow> (ptr \<times> decen_store) res" where
  "poll_finish w st self =
     bindR (deref (dw_tasks w) self) (\<lambda>t.
     bindR (set_handle w st (t_wakeup_sd t)) (\<lambda>w1. Inr (t_wakeup_sd t, w1)))"

partial_function (option) fast_loop :: "decen_store \<Rightarrow> lpel_stream_iter_t \<Rightarrow> (ptr option \<times> lpel_stream_iter_t) run" where
  "fast_loop w it =
     (case poll_fast w it of Inl e \<Rightarrow> Some (Inl e)
      | Inr None \<Rightarrow> Some (Inr (None, it))
      | Inr (Some (sd, hit, it')) \<Rightarrow> if hit then Some (Inr (Some sd, it')) else fast_loop w it')"

text \<open>The answer: whether a context switch is needed, the count of marked streams, iterator and store.\<close>

partial_function (option) register_loop :: "decen_store \<Rightarrow> ptr \<Rightarrow> lpel_stream_iter_t \<Rightarrow> int \<Rightarrow>
    (bool \<times> int \<times> lpel_stream_iter_t \<times> decen_store) run" where
  "register_loop w self it cnt =
     (case poll_register w self it of Inl e \<Rightarrow> Some (Inl e)
      | Inr PollEnd \<Rightarrow> Some (Inr (True, cnt, it, w))
      | Inr (PollHit tok w1) \<Rightarrow> Some (Inr (\<not> tok, cnt, it, w1))
      | Inr (PollMark it' w1) \<Rightarrow> register_loop w1 self it' (cnt + 1))"

partial_function (option) unregister_loop :: "decen_store \<Rightarrow> lpel_stream_iter_t \<Rightarrow> int \<Rightarrow> decen_store run" where
  "unregister_loop w it cnt =
     (case poll_unregister w it of Inl e \<Rightarrow> Some (Inl e)
      | Inr None \<Rightarrow> Some (Inr w)
      | Inr (Some (it', w1)) \<Rightarrow> if cnt - 1 = 0 then Some (Inr w1) else unregister_loop w1 it' (cnt - 1))"

definition LpelStreamPoll_decen :: "(decen_store \<Rightarrow> ptr \<Rightarrow> decen_store res) \<Rightarrow> decen_store \<Rightarrow> ptr \<Rightarrow> (ptr \<times> decen_store) run" where
  "LpelStreamPoll_decen block w st =
     bindO (Some (poll_begin w st)) (\<lambda>(self, it).
     bindO (fast_loop w it) (\<lambda>(found, it1).
       case found of Some sd \<Rightarrow> Some (bindR (set_handle w st sd) (\<lambda>w'. Inr (sd, w')))
       | None \<Rightarrow>
           bindO (Some (poll_token w st self it1)) (\<lambda>(it2, w1).
           bindO (register_loop w1 self it2 0) (\<lambda>(do_ctx_switch, cnt, it3, w2).
           bindO (Some (if do_ctx_switch then block w2 self else Inr w2)) (\<lambda>w3.
           bindO (Some (poll_awake w3 st self it3)) (\<lambda>it4.
           bindO (unregister_loop w3 it4 cnt) (\<lambda>w4. Some (poll_finish w4 st self))))))))"

section \<open>The sections implement the protocol\<close>

definition decen_ops :: "decen_store stream_ops" where
  "decen_ops = \<lparr>so_write_enter = write_enter, so_write_put = (\<lambda>_. write_put), so_write_signal = write_signal,
     so_read_enter = read_enter, so_read_pop = read_pop, so_read_signal = read_signal,
     so_poll_begin = poll_begin, so_poll_fast = poll_fast, so_poll_token = poll_token, so_poll_register = poll_register,
     so_poll_awake = poll_awake, so_poll_unregister = poll_unregister, so_poll_finish = poll_finish,
     so_set_handle = set_handle, so_sds = dw_sds, so_alloc = (\<lambda>_ _ _. True)\<rparr>"

lemma decen_ops_simps [simp]:
  "so_write_enter decen_ops = write_enter" "so_write_put decen_ops new = write_put" "so_write_signal decen_ops = write_signal"
  "so_read_enter decen_ops = read_enter" "so_read_pop decen_ops = read_pop" "so_read_signal decen_ops = read_signal"
  "so_poll_begin decen_ops = poll_begin" "so_poll_fast decen_ops = poll_fast" "so_poll_token decen_ops = poll_token"
  "so_poll_register decen_ops = poll_register" "so_poll_awake decen_ops = poll_awake"
  "so_poll_unregister decen_ops = poll_unregister" "so_poll_finish decen_ops = poll_finish"
  "so_set_handle decen_ops = set_handle" "so_sds decen_ops = dw_sds" "so_alloc decen_ops w p new"
  by (simp_all add: decen_ops_def)

text \<open>The shared memory of a network: streams, descriptors and tasks are linked as \<open>LpelStreamOpen\<close> does.\<close>

definition sd_ok :: "decen_store \<Rightarrow> addr \<Rightarrow> addr \<Rightarrow> addr \<Rightarrow> char \<Rightarrow> bool" where
  "sd_ok w a t s m \<longleftrightarrow> (\<exists>d. sds (dw_sds w) a = Some d \<and> sd_task d = Some t \<and> sd_stream d = Some s \<and> sd_mode d = m)"

definition decen_cap :: "net \<Rightarrow> decen_store \<Rightarrow> nat \<Rightarrow> nat option" where
  "decen_cap N w = at_idx N (dw_streams w) None (\<lambda>s. Some (rb_cap (ds_buffer s)))"

definition decen_wf :: "net \<Rightarrow> (nat \<Rightarrow> nat option) \<Rightarrow> decen_store \<Rightarrow> bool" where
  "decen_wf N cap w \<longleftrightarrow> net_ok N \<and> decen_cap N w = cap \<and> nt_ctask N \<in> dom (dw_tasks w) \<and>
     (\<forall>i < nt_ns N. sd_ok w (nt_psd N i) (nt_ptask N i) (nt_stream N i) (CHR ''w'') \<and>
        sd_ok w (nt_csd N i) (nt_ctask N) (nt_stream N i) (CHR ''r'') \<and>
        (\<exists>s. dw_streams w (nt_stream N i) = Some s \<and> rb_inv (ds_buffer s) \<and>
           ds_prod_sd s = Some (nt_psd N i) \<and> ds_cons_sd s = Some (nt_csd N i)))"

definition decen_view :: "net \<Rightarrow> decen_store \<Rightarrow> sview" where
  "decen_view N w = \<lparr>sv_items = at_idx N (dw_streams w) [] (\<lambda>s. rb_items (ds_buffer s)),
     sv_n = at_idx N (dw_streams w) 0 ds_n_sem, sv_e = at_idx N (dw_streams w) 0 ds_e_sem,
     sv_poll = at_idx N (dw_streams w) False (\<lambda>s. ds_is_poll s \<noteq> 0),
     sv_token = (case dw_tasks w (nt_ctask N) of None \<Rightarrow> False | Some t \<Rightarrow> t_poll_token t \<noteq> 0),
     sv_wsd = (case dw_tasks w (nt_ctask N) of None \<Rightarrow> None | Some t \<Rightarrow> t_wakeup_sd t)\<rparr>"

lemma upd_ds_Some [simp]: "dw_streams w a = Some s \<Longrightarrow> upd_ds w (Some a) f = Inr (w\<lparr>dw_streams := (dw_streams w)(a \<mapsto> f s)\<rparr>)"
  by (simp add: upd_ds_def)

lemma upd_dt_Some [simp]: "dw_tasks w a = Some s \<Longrightarrow> upd_dt w (Some a) f = Inr (w\<lparr>dw_tasks := (dw_tasks w)(a \<mapsto> f s)\<rparr>)"
  by (simp add: upd_dt_def)

lemma sd_at_Some [simp]: "sds (dw_sds w) a = Some d \<Longrightarrow> sd_at w (Some a) = Inr d"
  by (simp add: sd_at_def)

lemma stream_at_Some [simp]: "dw_streams w a = Some s \<Longrightarrow> stream_at w (Some a) = Inr s"
  by (simp add: stream_at_def)

lemma wf_stream:
  assumes "decen_wf N cap w" and "i < nt_ns N"
  obtains s p c where "dw_streams w (nt_stream N i) = Some s" "rb_inv (ds_buffer s)" "ds_prod_sd s = Some (nt_psd N i)"
    "ds_cons_sd s = Some (nt_csd N i)" "cap i = Some (rb_cap (ds_buffer s))"
    "sds (dw_sds w) (nt_psd N i) = Some p" "sd_task p = Some (nt_ptask N i)" "sd_stream p = Some (nt_stream N i)" "sd_mode p = CHR ''w''"
    "sds (dw_sds w) (nt_csd N i) = Some c" "sd_task c = Some (nt_ctask N)" "sd_stream c = Some (nt_stream N i)" "sd_mode c = CHR ''r''"
proof -
  from assms obtain s where s: "dw_streams w (nt_stream N i) = Some s" "rb_inv (ds_buffer s)"
    "ds_prod_sd s = Some (nt_psd N i)" "ds_cons_sd s = Some (nt_csd N i)" by (auto simp: decen_wf_def)
  moreover have "cap i = decen_cap N w i" using assms(1) by (simp add: decen_wf_def)
  then have "cap i = Some (rb_cap (ds_buffer s))" using s(1) assms(2) by (simp add: decen_cap_def)
  moreover have "sd_ok w (nt_psd N i) (nt_ptask N i) (nt_stream N i) (CHR ''w'')"
    "sd_ok w (nt_csd N i) (nt_ctask N) (nt_stream N i) (CHR ''r'')" using assms by (simp_all add: decen_wf_def)
  ultimately show ?thesis unfolding sd_ok_def using that by blast
qed

lemma wf_task:
  assumes "decen_wf N cap w"
  obtains t where "dw_tasks w (nt_ctask N) = Some t"
  using assms by (auto simp: decen_wf_def)

text \<open>Updates of one stream or of the consumer's task keep the network.\<close>

lemma wf_upd_stream:
  assumes "decen_wf N cap w" and "i < nt_ns N" and "dw_streams w (nt_stream N i) = Some s"
    and "rb_inv (ds_buffer s')" "rb_cap (ds_buffer s') = rb_cap (ds_buffer s)" "ds_prod_sd s' = ds_prod_sd s" "ds_cons_sd s' = ds_cons_sd s"
  shows "decen_wf N cap (w\<lparr>dw_streams := (dw_streams w)(nt_stream N i \<mapsto> s')\<rparr>)"
proof -
  have inj: "inj_on (nt_stream N) {..<nt_ns N}" using assms(1) by (simp add: decen_wf_def net_ok_def)
  have "decen_cap N (w\<lparr>dw_streams := (dw_streams w)(nt_stream N i \<mapsto> s')\<rparr>) = cap"
    using at_idx_same [OF inj assms(2), of "dw_streams w" s, where f = "\<lambda>s. Some (rb_cap (ds_buffer s))" and d = None and c' = s']
      assms(1,3,5) by (simp add: decen_wf_def decen_cap_def)
  then show ?thesis using assms by (auto simp: decen_wf_def sd_ok_def)
qed

lemma wf_upd_task:
  assumes "decen_wf N cap w"
  shows "decen_wf N cap (w\<lparr>dw_tasks := (dw_tasks w)(nt_ctask N \<mapsto> t)\<rparr>)"
  using assms by (auto simp: decen_wf_def sd_ok_def decen_cap_def)

lemma view_upd_stream:
  assumes "decen_wf N cap w" and "i < nt_ns N"
  shows "decen_view N (w\<lparr>dw_streams := (dw_streams w)(nt_stream N i \<mapsto> s)\<rparr>) =
    (decen_view N w)\<lparr>sv_items := (sv_items (decen_view N w))(i := rb_items (ds_buffer s)),
      sv_n := (sv_n (decen_view N w))(i := ds_n_sem s), sv_e := (sv_e (decen_view N w))(i := ds_e_sem s),
      sv_poll := (sv_poll (decen_view N w))(i := ds_is_poll s \<noteq> 0)\<rparr>"
proof -
  have inj: "inj_on (nt_stream N) {..<nt_ns N}" using assms(1) by (simp add: decen_wf_def net_ok_def)
  show ?thesis by (simp add: decen_view_def at_idx_upd [OF inj assms(2)])
qed

lemma view_upd_task:
  "decen_view N (w\<lparr>dw_tasks := (dw_tasks w)(nt_ctask N \<mapsto> t)\<rparr>) =
    (decen_view N w)\<lparr>sv_token := t_poll_token t \<noteq> 0, sv_wsd := t_wakeup_sd t\<rparr>"
  by (simp add: decen_view_def)

lemma view_fields:
  assumes "i < nt_ns N" and "dw_streams w (nt_stream N i) = Some s"
  shows "sv_items (decen_view N w) i = rb_items (ds_buffer s)" "sv_n (decen_view N w) i = ds_n_sem s"
    "sv_e (decen_view N w) i = ds_e_sem s" "sv_poll (decen_view N w) i = (ds_is_poll s \<noteq> 0)"
  using assms by (simp_all add: decen_view_def)

lemma view_task:
  assumes "dw_tasks w (nt_ctask N) = Some t"
  shows "sv_token (decen_view N w) = (t_poll_token t \<noteq> 0)" "sv_wsd (decen_view N w) = t_wakeup_sd t"
  using assms by (simp_all add: decen_view_def)

lemmas view_rules = view_upd_stream view_upd_task view_fields view_task

lemma law_write_enter:
  assumes w: "decen_wf N cap w" and i: "i < nt_ns N"
  shows "\<exists>w'. write_enter w (Some (nt_psd N i)) (Some x) = Inr (cap i \<noteq> None \<and> sv_e (decen_view N w) i = 0, w') \<and>
    decen_wf N cap w' \<and> dw_sds w' = dw_sds w \<and>
    decen_view N w' = (if cap i = None then decen_view N w
      else (decen_view N w)\<lparr>sv_e := (sv_e (decen_view N w))(i := sv_e (decen_view N w) i - 1)\<rparr>)"
proof -
  from wf_stream [OF w i] obtain s p where s: "dw_streams w (nt_stream N i) = Some s" "rb_inv (ds_buffer s)"
    "cap i = Some (rb_cap (ds_buffer s))" "sds (dw_sds w) (nt_psd N i) = Some p" "sd_stream p = Some (nt_stream N i)"
    "sd_mode p = CHR ''w''" by metis
  let ?s = "s\<lparr>ds_e_sem := ds_e_sem s - 1\<rparr>" and ?v = "decen_view N w"
  let ?w = "w\<lparr>dw_streams := (dw_streams w)(nt_stream N i \<mapsto> ?s)\<rparr>"
  have "decen_wf N cap ?w" by (rule wf_upd_stream [OF w i s(1)]) (simp_all add: s)
  moreover have "decen_view N ?w = ?v\<lparr>sv_e := (sv_e ?v)(i := sv_e ?v i - 1)\<rparr>"
    using view_fields [OF i s(1)] by (simp add: view_upd_stream [OF w i] fun_upd_idem)
  ultimately show ?thesis using s view_fields [OF i s(1)] by (intro exI [of _ ?w]) (simp add: write_enter_def)
qed

lemma law_write_put:
  assumes w: "decen_wf N cap w" and i: "i < nt_ns N" and sp: "\<And>n. cap i = Some n \<Longrightarrow> length (sv_items (decen_view N w) i) < n"
  shows "\<exists>pw w'. write_put w (Some (nt_psd N i)) (Some x) = Inr (pw, w') \<and> decen_wf N cap w' \<and> dw_sds w' = dw_sds w \<and>
    (pw \<noteq> 0 \<longleftrightarrow> sv_poll (decen_view N w) i \<and> sv_token (decen_view N w)) \<and>
    decen_view N w' = (decen_view N w)\<lparr>sv_items := (sv_items (decen_view N w))(i := sv_items (decen_view N w) i @ [x]),
      sv_poll := (sv_poll (decen_view N w))(i := False),
      sv_token := sv_token (decen_view N w) \<and> \<not> sv_poll (decen_view N w) i\<rparr>"
proof -
  let ?v = "decen_view N w"
  from wf_stream [OF w i] obtain s p c where s: "dw_streams w (nt_stream N i) = Some s" "rb_inv (ds_buffer s)"
    "cap i = Some (rb_cap (ds_buffer s))" "ds_cons_sd s = Some (nt_csd N i)"
    "sds (dw_sds w) (nt_psd N i) = Some p" "sd_stream p = Some (nt_stream N i)"
    "sds (dw_sds w) (nt_csd N i) = Some c" "sd_task c = Some (nt_ctask N)" by metis
  obtain t where t: "dw_tasks w (nt_ctask N) = Some t" using wf_task [OF w] .
  note vf = view_fields [OF i s(1)] and vt = view_task [OF t]
  have room: "length (rb_items (ds_buffer s)) < rb_cap (ds_buffer s)" using sp [OF s(3)] vf(1) by simp
  obtain b where b: "LpelBufferPut_decen (ds_buffer s) (Some x) = Inr b" "rb_inv b" "rb_items b = rb_items (ds_buffer s) @ [x]"
    "rb_cap b = rb_cap (ds_buffer s)" using rb_Put [OF s(2) room] by blast
  have space: "LpelBufferIsSpace_decen (ds_buffer s) = Inr True" using rb_IsSpace [OF s(2)] room by simp
  show ?thesis
  proof (cases "ds_is_poll s = 0")
    case True
    let ?s = "s\<lparr>ds_buffer := b\<rparr>"
    let ?w = "w\<lparr>dw_streams := (dw_streams w)(nt_stream N i \<mapsto> ?s)\<rparr>"
    have "decen_wf N cap ?w" by (rule wf_upd_stream [OF w i s(1)]) (simp_all add: b)
    moreover have "decen_view N ?w = ?v\<lparr>sv_items := (sv_items ?v)(i := sv_items ?v i @ [x]), sv_poll := (sv_poll ?v)(i := False),
        sv_token := sv_token ?v \<and> \<not> sv_poll ?v i\<rparr>"
      using vf True by (simp add: view_upd_stream [OF w i] fun_upd_idem b)
    moreover have "write_put w (Some (nt_psd N i)) (Some x) = Inr (0, ?w)"
      using s True b(1) space by (simp add: write_put_def)
    ultimately show ?thesis using vf True by (intro exI [of _ 0] exI [of _ ?w]) simp
  next
    case False
    let ?s = "s\<lparr>ds_buffer := b, ds_is_poll := 0\<rparr>" and ?t = "t\<lparr>t_poll_token := 0\<rparr>"
    let ?w1 = "w\<lparr>dw_tasks := (dw_tasks w)(nt_ctask N \<mapsto> ?t)\<rparr>"
    let ?w = "?w1\<lparr>dw_streams := (dw_streams w)(nt_stream N i \<mapsto> ?s)\<rparr>"
    have w1: "decen_wf N cap ?w1" by (rule wf_upd_task [OF w])
    have "decen_wf N cap (?w1\<lparr>dw_streams := (dw_streams ?w1)(nt_stream N i \<mapsto> ?s)\<rparr>)"
      by (rule wf_upd_stream [OF w1 i, of s]) (simp_all add: b s)
    then have "decen_wf N cap ?w" by simp
    moreover have "decen_view N ?w = ?v\<lparr>sv_items := (sv_items ?v)(i := sv_items ?v i @ [x]), sv_poll := (sv_poll ?v)(i := False),
        sv_token := sv_token ?v \<and> \<not> sv_poll ?v i\<rparr>"
      using vf vt False view_upd_stream [OF w1 i, of ?s] by (simp add: view_upd_task fun_upd_idem b)
    moreover have "write_put w (Some (nt_psd N i)) (Some x) = Inr (t_poll_token t, ?w)"
      using s t False b(1) space by (simp add: write_put_def)
    ultimately show ?thesis using vf vt False by (intro exI [of _ "t_poll_token t"] exI [of _ ?w]) simp
  qed
qed

lemma law_write_signal:
  assumes w: "decen_wf N cap w" and i: "i < nt_ns N"
  shows "\<exists>w'. write_signal w (Some (nt_psd N i)) pw =
      Inr (if sv_n (decen_view N w) i < 0 \<or> pw \<noteq> 0 then Some (Some (nt_ctask N)) else None, w') \<and> decen_wf N cap w' \<and> dw_sds w' = dw_sds w \<and>
    decen_view N w' = (decen_view N w)\<lparr>sv_n := (sv_n (decen_view N w))(i := sv_n (decen_view N w) i + 1),
      sv_wsd := (if \<not> sv_n (decen_view N w) i < 0 \<and> pw \<noteq> 0 then Some (nt_csd N i) else sv_wsd (decen_view N w))\<rparr>"
proof -
  let ?v = "decen_view N w"
  from wf_stream [OF w i] obtain s p c where s: "dw_streams w (nt_stream N i) = Some s" "rb_inv (ds_buffer s)"
    "ds_cons_sd s = Some (nt_csd N i)" "sds (dw_sds w) (nt_psd N i) = Some p" "sd_stream p = Some (nt_stream N i)"
    "sds (dw_sds w) (nt_csd N i) = Some c" "sd_task c = Some (nt_ctask N)" by metis
  obtain t where t: "dw_tasks w (nt_ctask N) = Some t" using wf_task [OF w] .
  note vf = view_fields [OF i s(1)] and vt = view_task [OF t]
  let ?s = "s\<lparr>ds_n_sem := ds_n_sem s + 1\<rparr>"
  let ?w = "w\<lparr>dw_streams := (dw_streams w)(nt_stream N i \<mapsto> ?s)\<rparr>"
  have wf: "decen_wf N cap ?w" by (rule wf_upd_stream [OF w i s(1)]) (simp_all add: s)
  have v: "decen_view N ?w = ?v\<lparr>sv_n := (sv_n ?v)(i := sv_n ?v i + 1)\<rparr>"
    using vf by (simp add: view_upd_stream [OF w i] fun_upd_idem)
  show ?thesis
  proof (cases "\<not> ds_n_sem s < 0 \<and> pw \<noteq> 0")
    case True
    let ?t = "t\<lparr>t_wakeup_sd := Some (nt_csd N i)\<rparr>"
    let ?w' = "?w\<lparr>dw_tasks := (dw_tasks w)(nt_ctask N \<mapsto> ?t)\<rparr>"
    have "decen_wf N cap ?w'" using wf_upd_task [OF wf, of ?t] by simp
    moreover have "decen_view N ?w' = ?v\<lparr>sv_n := (sv_n ?v)(i := sv_n ?v i + 1), sv_wsd := Some (nt_csd N i)\<rparr>"
      using view_upd_task [of N ?w ?t] v vt by simp
    ultimately show ?thesis using True s t vf by (intro exI [of _ ?w']) (simp add: write_signal_def)
  next
    case False
    then show ?thesis using wf v s vf by (intro exI [of _ ?w]) (auto simp: write_signal_def)
  qed
qed

lemma law_read_enter:
  assumes w: "decen_wf N cap w" and i: "i < nt_ns N"
  shows "\<exists>w'. read_enter w (Some (nt_csd N i)) = Inr (sv_n (decen_view N w) i = 0, w') \<and> decen_wf N cap w' \<and> dw_sds w' = dw_sds w \<and>
    decen_view N w' = (decen_view N w)\<lparr>sv_n := (sv_n (decen_view N w))(i := sv_n (decen_view N w) i - 1)\<rparr>"
proof -
  from wf_stream [OF w i] obtain s c where s: "dw_streams w (nt_stream N i) = Some s" "rb_inv (ds_buffer s)"
    "sds (dw_sds w) (nt_csd N i) = Some c" "sd_stream c = Some (nt_stream N i)" "sd_mode c = CHR ''r''" by metis
  let ?s = "s\<lparr>ds_n_sem := ds_n_sem s - 1\<rparr>" and ?v = "decen_view N w"
  let ?w = "w\<lparr>dw_streams := (dw_streams w)(nt_stream N i \<mapsto> ?s)\<rparr>"
  have "decen_wf N cap ?w" by (rule wf_upd_stream [OF w i s(1)]) (simp_all add: s)
  moreover have "decen_view N ?w = ?v\<lparr>sv_n := (sv_n ?v)(i := sv_n ?v i - 1)\<rparr>"
    using view_fields [OF i s(1)] by (simp add: view_upd_stream [OF w i] fun_upd_idem)
  ultimately show ?thesis using s view_fields [OF i s(1)] by (intro exI [of _ ?w]) (simp add: read_enter_def)
qed

lemma law_read_pop:
  assumes w: "decen_wf N cap w" and i: "i < nt_ns N" and x: "sv_items (decen_view N w) i = x # xs"
  shows "\<exists>w'. read_pop w (Some (nt_csd N i)) = Inr (Some x, w') \<and> decen_wf N cap w' \<and> dw_sds w' = dw_sds w \<and>
    decen_view N w' = (decen_view N w)\<lparr>sv_items := (sv_items (decen_view N w))(i := xs)\<rparr>"
proof -
  from wf_stream [OF w i] obtain s c where s: "dw_streams w (nt_stream N i) = Some s" "rb_inv (ds_buffer s)"
    "sds (dw_sds w) (nt_csd N i) = Some c" "sd_stream c = Some (nt_stream N i)" by metis
  have it: "rb_items (ds_buffer s) = x # xs" using x view_fields(1) [OF i s(1)] by simp
  obtain b where b: "LpelBufferPop_decen (ds_buffer s) = Inr b" "rb_inv b" "rb_items b = xs" "rb_cap b = rb_cap (ds_buffer s)"
    using rb_Pop [OF s(2) it] by blast
  have top: "LpelBufferTop_decen (ds_buffer s) = Inr (Some x)" using rb_Top [OF s(2)] it by simp
  let ?s = "s\<lparr>ds_buffer := b\<rparr>" and ?v = "decen_view N w"
  let ?w = "w\<lparr>dw_streams := (dw_streams w)(nt_stream N i \<mapsto> ?s)\<rparr>"
  have "decen_wf N cap ?w" by (rule wf_upd_stream [OF w i s(1)]) (simp_all add: b)
  moreover have "decen_view N ?w = ?v\<lparr>sv_items := (sv_items ?v)(i := xs)\<rparr>"
    using view_fields [OF i s(1)] by (simp add: view_upd_stream [OF w i] fun_upd_idem b)
  ultimately show ?thesis using s b(1) top by (intro exI [of _ ?w]) (simp add: read_pop_def)
qed

lemma law_read_signal:
  assumes w: "decen_wf N cap w" and i: "i < nt_ns N"
  shows "\<exists>w'. read_signal w (Some (nt_csd N i)) =
      Inr (if cap i \<noteq> None \<and> sv_e (decen_view N w) i < 0 then Some (Some (nt_ptask N i)) else None, w') \<and> decen_wf N cap w' \<and>
    dw_sds w' = dw_sds w \<and>
    decen_view N w' = (if cap i = None then decen_view N w
      else (decen_view N w)\<lparr>sv_e := (sv_e (decen_view N w))(i := sv_e (decen_view N w) i + 1)\<rparr>)"
proof -
  from wf_stream [OF w i] obtain s p c where s: "dw_streams w (nt_stream N i) = Some s" "rb_inv (ds_buffer s)"
    "cap i = Some (rb_cap (ds_buffer s))" "ds_prod_sd s = Some (nt_psd N i)"
    "sds (dw_sds w) (nt_psd N i) = Some p" "sd_task p = Some (nt_ptask N i)"
    "sds (dw_sds w) (nt_csd N i) = Some c" "sd_stream c = Some (nt_stream N i)" by metis
  let ?s = "s\<lparr>ds_e_sem := ds_e_sem s + 1\<rparr>" and ?v = "decen_view N w"
  let ?w = "w\<lparr>dw_streams := (dw_streams w)(nt_stream N i \<mapsto> ?s)\<rparr>"
  have "decen_wf N cap ?w" by (rule wf_upd_stream [OF w i s(1)]) (simp_all add: s)
  moreover have "decen_view N ?w = ?v\<lparr>sv_e := (sv_e ?v)(i := sv_e ?v i + 1)\<rparr>"
    using view_fields [OF i s(1)] by (simp add: view_upd_stream [OF w i] fun_upd_idem)
  ultimately show ?thesis using s view_fields [OF i s(1)] by (intro exI [of _ ?w]) (simp add: read_signal_def)
qed

lemma wf_handles: "decen_wf N cap (w\<lparr>dw_sds := (dw_sds w)\<lparr>handles := hs\<rparr>\<rparr>) = decen_wf N cap w"
  "decen_view N (w\<lparr>dw_sds := (dw_sds w)\<lparr>handles := hs\<rparr>\<rparr>) = decen_view N w"
  by (simp_all add: decen_wf_def decen_view_def decen_cap_def sd_ok_def)

lemma law_set_handle:
  assumes w: "decen_wf N cap w" and r: "ss_rep (dw_sds w) (nt_handle N) (ys @ y # zs)"
  shows "\<exists>w'. set_handle w (Some (nt_handle N)) (Some y) = Inr w' \<and> decen_wf N cap w' \<and> decen_view N w' = decen_view N w \<and>
    ss_rep (dw_sds w') (nt_handle N) (zs @ ys @ [y])"
proof -
  from r obtain s where "handles (dw_sds w) (nt_handle N) = Some s" by (rule ss_repE)
  then show ?thesis using w ss_rep_rotate [OF r] by (simp add: set_handle_def wf_handles)
qed

lemma law_poll_finish:
  assumes w: "decen_wf N cap w" and r: "ss_rep (dw_sds w) (nt_handle N) (ys @ y # zs)" and y: "sv_wsd (decen_view N w) = Some y"
  shows "\<exists>w'. poll_finish w (Some (nt_handle N)) (Some (nt_ctask N)) = Inr (Some y, w') \<and> decen_wf N cap w' \<and>
    decen_view N w' = decen_view N w \<and> ss_rep (dw_sds w') (nt_handle N) (zs @ ys @ [y])"
proof -
  obtain t where t: "dw_tasks w (nt_ctask N) = Some t" using wf_task [OF w] .
  then have "t_wakeup_sd t = Some y" using y view_task(2) [OF t] by simp
  with t law_set_handle [OF w r] show ?thesis by (auto simp: poll_finish_def)
qed

lemma law_poll_begin:
  assumes w: "decen_wf N cap w" and r: "ss_rep (dw_sds w) (nt_handle N) (map (nt_csd N) xs)" and xs: "xs \<noteq> []" "set xs \<subseteq> {..<nt_ns N}"
  shows "\<exists>it. poll_begin w (Some (nt_handle N)) = Inr (Some (nt_ctask N), it) \<and> it_rep (dw_sds w) it [] (map (nt_csd N) xs)"
proof -
  from r obtain s where s: "handles (dw_sds w) (nt_handle N) = Some s" "clist (fld sd_next (sds (dw_sds w))) s (map (nt_csd N) xs)"
    by (rule ss_repE)
  then have s': "s = Some (nt_csd N (last xs))" using xs(1) by (simp add: clist_def last_map)
  have "last xs < nt_ns N" using xs last_in_set by blast
  from wf_stream [OF w this] obtain c where c: "sds (dw_sds w) (nt_csd N (last xs)) = Some c" "sd_task c = Some (nt_ctask N)" by metis
  from iter_create [OF r] show ?thesis using s(1) s' c by (auto simp: poll_begin_def)
qed

lemma law_poll_fast_end: "it_rep (dw_sds w) it ds [] \<Longrightarrow> poll_fast w it = Inr None"
  using iter_has_next [of "dw_sds w" it ds "[]"] by (simp add: poll_fast_def)

lemma law_poll_register_end: "it_rep (dw_sds w) it ds [] \<Longrightarrow> poll_register w self it = Inr PollEnd"
  using iter_has_next [of "dw_sds w" it ds "[]"] by (simp add: poll_register_def)

lemma law_poll_unregister_end: "it_rep (dw_sds w) it ds [] \<Longrightarrow> poll_unregister w it = Inr None"
  using iter_has_next [of "dw_sds w" it ds "[]"] by (simp add: poll_unregister_def)

text \<open>The next stream of an iteration, with the front of its buffer.\<close>

lemma next_stream:
  assumes w: "decen_wf N cap w" and i: "i < nt_ns N" and r: "it_rep (dw_sds w) it ds (nt_csd N i # todo)"
  obtains it' s c where "LpelStreamIterHasNext (dw_sds w) it = Inr True" "LpelStreamIterNext (dw_sds w) it = Inr (Some (nt_csd N i), it')"
    "it_rep (dw_sds w) it' (ds @ [nt_csd N i]) todo" "dw_streams w (nt_stream N i) = Some s" "rb_inv (ds_buffer s)"
    "sds (dw_sds w) (nt_csd N i) = Some c" "sd_stream c = Some (nt_stream N i)"
    "\<exists>top. LpelBufferTop_decen (ds_buffer s) = Inr top \<and> (top = None \<longleftrightarrow> sv_items (decen_view N w) i = [])"
proof -
  from wf_stream [OF w i] obtain s c where s: "dw_streams w (nt_stream N i) = Some s" "rb_inv (ds_buffer s)"
    "sds (dw_sds w) (nt_csd N i) = Some c" "sd_stream c = Some (nt_stream N i)" by metis
  have "LpelStreamIterHasNext (dw_sds w) it = Inr True" using iter_has_next [OF r] by simp
  moreover from iter_next [OF r] obtain it' where "LpelStreamIterNext (dw_sds w) it = Inr (Some (nt_csd N i), it')"
    "it_rep (dw_sds w) it' (ds @ [nt_csd N i]) todo" by blast
  moreover have "\<exists>top. LpelBufferTop_decen (ds_buffer s) = Inr top \<and> (top = None \<longleftrightarrow> sv_items (decen_view N w) i = [])"
    using rb_Top [OF s(2)] view_fields(1) [OF i s(1)] by (auto split: list.splits)
  ultimately show ?thesis using s that by blast
qed

lemma law_poll_fast:
  assumes w: "decen_wf N cap w" and i: "i < nt_ns N" and r: "it_rep (dw_sds w) it ds (nt_csd N i # todo)"
  shows "\<exists>it'. poll_fast w it = Inr (Some (Some (nt_csd N i), sv_items (decen_view N w) i \<noteq> [], it')) \<and>
    it_rep (dw_sds w) it' (ds @ [nt_csd N i]) todo"
  by (rule next_stream [OF w i r]) (auto simp: poll_fast_def)

lemma law_poll_token:
  assumes w: "decen_wf N cap w" and r: "ss_rep (dw_sds w) (nt_handle N) ys"
  shows "\<exists>it' w'. poll_token w (Some (nt_handle N)) (Some (nt_ctask N)) it = Inr (it', w') \<and> decen_wf N cap w' \<and>
    dw_sds w' = dw_sds w \<and> it_rep (dw_sds w) it' [] ys \<and> decen_view N w' = (decen_view N w)\<lparr>sv_token := True\<rparr>"
proof -
  obtain t where t: "dw_tasks w (nt_ctask N) = Some t" using wf_task [OF w] .
  let ?w = "w\<lparr>dw_tasks := (dw_tasks w)(nt_ctask N \<mapsto> t\<lparr>t_poll_token := 1\<rparr>)\<rparr>"
  have "decen_wf N cap ?w" by (rule wf_upd_task [OF w])
  moreover have "decen_view N ?w = (decen_view N w)\<lparr>sv_token := True\<rparr>" using view_task [OF t] by (simp add: view_upd_task)
  ultimately show ?thesis using iter_reset [OF r, of it] t by (auto simp: poll_token_def)
qed

lemma law_poll_awake:
  assumes w: "decen_wf N cap w" and r: "ss_rep (dw_sds w) (nt_handle N) ys" and tk: "\<not> sv_token (decen_view N w)"
  shows "\<exists>it'. poll_awake w (Some (nt_handle N)) (Some (nt_ctask N)) it = Inr it' \<and> it_rep (dw_sds w) it' [] ys"
proof -
  obtain t where t: "dw_tasks w (nt_ctask N) = Some t" using wf_task [OF w] .
  then show ?thesis using iter_reset [OF r, of it] tk view_task(1) [OF t] by (auto simp: poll_awake_def)
qed

lemma law_poll_register_hit:
  assumes w: "decen_wf N cap w" and i: "i < nt_ns N" and r: "it_rep (dw_sds w) it ds (nt_csd N i # todo)"
    and ne: "sv_items (decen_view N w) i \<noteq> []"
  shows "\<exists>w'. poll_register w (Some (nt_ctask N)) it = Inr (PollHit (sv_token (decen_view N w)) w') \<and> decen_wf N cap w' \<and>
    dw_sds w' = dw_sds w \<and> decen_view N w' = (decen_view N w)\<lparr>sv_token := False,
      sv_wsd := (if sv_token (decen_view N w) then Some (nt_csd N i) else sv_wsd (decen_view N w))\<rparr>"
proof (rule next_stream [OF w i r])
  fix it' s c
  assume s: "LpelStreamIterHasNext (dw_sds w) it = Inr True" "LpelStreamIterNext (dw_sds w) it = Inr (Some (nt_csd N i), it')"
    "dw_streams w (nt_stream N i) = Some s" "sds (dw_sds w) (nt_csd N i) = Some c" "sd_stream c = Some (nt_stream N i)"
    and "\<exists>top. LpelBufferTop_decen (ds_buffer s) = Inr top \<and> (top = None \<longleftrightarrow> sv_items (decen_view N w) i = [])"
  then obtain x where x: "LpelBufferTop_decen (ds_buffer s) = Inr (Some x)" using ne by auto
  obtain t where t: "dw_tasks w (nt_ctask N) = Some t" using wf_task [OF w] .
  note vt = view_task [OF t]
  let ?t = "if t_poll_token t \<noteq> 0 then t\<lparr>t_poll_token := 0, t_wakeup_sd := Some (nt_csd N i)\<rparr> else t\<lparr>t_poll_token := 0\<rparr>"
  let ?w = "w\<lparr>dw_tasks := (dw_tasks w)(nt_ctask N \<mapsto> ?t)\<rparr>"
  have "decen_wf N cap ?w" by (rule wf_upd_task [OF w])
  moreover have "decen_view N ?w = (decen_view N w)\<lparr>sv_token := False,
      sv_wsd := (if sv_token (decen_view N w) then Some (nt_csd N i) else sv_wsd (decen_view N w))\<rparr>"
    using vt by (simp add: view_upd_task)
  moreover have "poll_register w (Some (nt_ctask N)) it = Inr (PollHit (t_poll_token t \<noteq> 0) ?w)"
    using s x t by (simp add: poll_register_def)
  ultimately show ?thesis using vt by (intro exI [of _ ?w]) simp
qed

lemma law_poll_register_mark:
  assumes w: "decen_wf N cap w" and i: "i < nt_ns N" and r: "it_rep (dw_sds w) it ds (nt_csd N i # todo)"
    and e: "sv_items (decen_view N w) i = []"
  shows "\<exists>it' w'. poll_register w (Some (nt_ctask N)) it = Inr (PollMark it' w') \<and> decen_wf N cap w' \<and>
    dw_sds w' = dw_sds w \<and> it_rep (dw_sds w) it' (ds @ [nt_csd N i]) todo \<and>
    decen_view N w' = (decen_view N w)\<lparr>sv_poll := (sv_poll (decen_view N w))(i := True)\<rparr>"
proof (rule next_stream [OF w i r])
  fix it' s c
  assume s: "LpelStreamIterHasNext (dw_sds w) it = Inr True" "LpelStreamIterNext (dw_sds w) it = Inr (Some (nt_csd N i), it')"
    "it_rep (dw_sds w) it' (ds @ [nt_csd N i]) todo" "rb_inv (ds_buffer s)"
    "dw_streams w (nt_stream N i) = Some s" "sds (dw_sds w) (nt_csd N i) = Some c" "sd_stream c = Some (nt_stream N i)"
    and "\<exists>top. LpelBufferTop_decen (ds_buffer s) = Inr top \<and> (top = None \<longleftrightarrow> sv_items (decen_view N w) i = [])"
  then have x: "LpelBufferTop_decen (ds_buffer s) = Inr None" using e by auto
  let ?s = "s\<lparr>ds_is_poll := 1\<rparr>" and ?v = "decen_view N w"
  let ?w = "w\<lparr>dw_streams := (dw_streams w)(nt_stream N i \<mapsto> ?s)\<rparr>"
  have "decen_wf N cap ?w" by (rule wf_upd_stream [OF w i s(5)]) (simp_all add: s)
  moreover have "decen_view N ?w = ?v\<lparr>sv_poll := (sv_poll ?v)(i := True)\<rparr>"
    using view_fields [OF i s(5)] by (simp add: view_upd_stream [OF w i] fun_upd_idem)
  moreover have "poll_register w (Some (nt_ctask N)) it = Inr (PollMark it' ?w)"
    using s x by (simp add: poll_register_def)
  ultimately show ?thesis using s(3) by (intro exI [of _ it'] exI [of _ ?w]) simp
qed

lemma law_poll_unregister:
  assumes w: "decen_wf N cap w" and i: "i < nt_ns N" and r: "it_rep (dw_sds w) it ds (nt_csd N i # todo)"
  shows "\<exists>it' w'. poll_unregister w it = Inr (Some (it', w')) \<and> decen_wf N cap w' \<and> dw_sds w' = dw_sds w \<and>
    it_rep (dw_sds w) it' (ds @ [nt_csd N i]) todo \<and> decen_view N w' = (decen_view N w)\<lparr>sv_poll := (sv_poll (decen_view N w))(i := False)\<rparr>"
proof (rule next_stream [OF w i r])
  fix it' s c
  assume s: "LpelStreamIterHasNext (dw_sds w) it = Inr True" "LpelStreamIterNext (dw_sds w) it = Inr (Some (nt_csd N i), it')"
    "it_rep (dw_sds w) it' (ds @ [nt_csd N i]) todo" "rb_inv (ds_buffer s)"
    "dw_streams w (nt_stream N i) = Some s" "sds (dw_sds w) (nt_csd N i) = Some c" "sd_stream c = Some (nt_stream N i)"
  let ?s = "s\<lparr>ds_is_poll := 0\<rparr>" and ?v = "decen_view N w"
  let ?w = "w\<lparr>dw_streams := (dw_streams w)(nt_stream N i \<mapsto> ?s)\<rparr>"
  have "decen_wf N cap ?w" by (rule wf_upd_stream [OF w i s(5)]) (simp_all add: s)
  moreover have "decen_view N ?w = ?v\<lparr>sv_poll := (sv_poll ?v)(i := False)\<rparr>"
    using view_fields [OF i s(5)] by (simp add: view_upd_stream [OF w i] fun_upd_idem)
  moreover have "poll_unregister w it = Inr (Some (it', ?w))"
    using s by (simp add: poll_unregister_def)
  ultimately show ?thesis using s(3) by (intro exI [of _ it'] exI [of _ ?w]) simp
qed

interpretation decen: stream_sections decen_ops N cap "decen_wf N cap" "decen_view N" for N cap
proof (unfold_locales, goal_cases)
  case 1 then show ?case by (simp add: decen_wf_def)
next
  case 2 then show ?case using law_write_enter by simp
next
  case 3 then show ?case using law_write_put by simp
next
  case 4 then show ?case by simp
next
  case 5 then show ?case using law_write_signal by simp
next
  case 6 then show ?case using law_read_enter by simp
next
  case 7 then show ?case using law_read_pop by simp
next
  case 8 then show ?case using law_read_signal by simp
next
  case 9 then show ?case using law_poll_begin by simp
next
  case 10 then show ?case using law_poll_fast_end by simp
next
  case 11 then show ?case using law_poll_fast by simp
next
  case 12 then show ?case using law_poll_token by simp
next
  case 13 then show ?case using law_poll_register_end by simp
next
  case 14 then show ?case using law_poll_register_hit by simp
next
  case 15 then show ?case using law_poll_register_mark by simp
next
  case 16 then show ?case using law_poll_awake by simp
next
  case 17 then show ?case using law_poll_unregister_end by simp
next
  case 18 then show ?case using law_poll_unregister by simp
next
  case 19 then show ?case using law_poll_finish by simp
next
  case 20 then show ?case using law_set_handle by simp
qed

section \<open>The poll loops on their own\<close>

lemma fast_loop_none:
  assumes w: "decen_wf N cap w"
  shows "it_rep (dw_sds w) it ds (map (nt_csd N) ys) \<Longrightarrow> set ys \<subseteq> {..<nt_ns N} \<Longrightarrow>
    \<forall>i \<in> set ys. sv_items (decen_view N w) i = [] \<Longrightarrow> \<exists>it'. fast_loop w it = Some (Inr (None, it'))"
proof (induction ys arbitrary: it ds)
  case Nil
  then show ?case using law_poll_fast_end [of w it ds] by (subst fast_loop.simps) simp
next
  case (Cons i ys)
  from law_poll_fast [OF w, of i it ds "map (nt_csd N) ys"] Cons.prems obtain it' where
    it': "poll_fast w it = Inr (Some (Some (nt_csd N i), False, it'))" "it_rep (dw_sds w) it' (ds @ [nt_csd N i]) (map (nt_csd N) ys)"
    by auto
  from Cons.IH [OF it'(2)] Cons.prems show ?case by (subst fast_loop.simps) (simp add: it'(1))
qed

lemma fast_loop_hit:
  assumes w: "decen_wf N cap w" and i: "i < nt_ns N" "sv_items (decen_view N w) i \<noteq> []"
  shows "it_rep (dw_sds w) it ds (map (nt_csd N) (as @ i # bs)) \<Longrightarrow> set as \<subseteq> {..<nt_ns N} \<Longrightarrow>
    \<forall>j \<in> set as. sv_items (decen_view N w) j = [] \<Longrightarrow> \<exists>it'. fast_loop w it = Some (Inr (Some (Some (nt_csd N i)), it'))"
proof (induction as arbitrary: it ds)
  case Nil
  from law_poll_fast [OF w i(1), of it ds "map (nt_csd N) bs"] Nil i(2) obtain it' where
    "poll_fast w it = Inr (Some (Some (nt_csd N i), True, it'))" by auto
  then show ?case by (subst fast_loop.simps) simp
next
  case (Cons j as)
  from law_poll_fast [OF w, of j it ds "map (nt_csd N) (as @ i # bs)"] Cons.prems obtain it' where
    it': "poll_fast w it = Inr (Some (Some (nt_csd N j), False, it'))"
    "it_rep (dw_sds w) it' (ds @ [nt_csd N j]) (map (nt_csd N) (as @ i # bs))" by auto
  from Cons.IH [OF it'(2)] Cons.prems show ?case by (subst fast_loop.simps) (simp add: it'(1))
qed

lemma register_loop_marks:
  "decen_wf N cap w \<Longrightarrow> it_rep (dw_sds w) it ds (map (nt_csd N) ys) \<Longrightarrow> set ys \<subseteq> {..<nt_ns N} \<Longrightarrow>
    \<forall>i \<in> set ys. sv_items (decen_view N w) i = [] \<Longrightarrow>
    \<exists>it' w'. register_loop w (Some (nt_ctask N)) it cnt = Some (Inr (True, cnt + int (length ys), it', w')) \<and>
      decen_wf N cap w' \<and> dw_sds w' = dw_sds w \<and>
      decen_view N w' = (decen_view N w)\<lparr>sv_poll := (\<lambda>j. j \<in> set ys \<or> sv_poll (decen_view N w) j)\<rparr>"
proof (induction ys arbitrary: w it ds cnt)
  case Nil
  then show ?case using law_poll_register_end [of w it ds] by (subst register_loop.simps) simp
next
  case (Cons i ys)
  from law_poll_register_mark [OF Cons.prems(1), of i it ds "map (nt_csd N) ys"] Cons.prems obtain it' w' where
    m: "poll_register w (Some (nt_ctask N)) it = Inr (PollMark it' w')" "decen_wf N cap w'" "dw_sds w' = dw_sds w"
    "it_rep (dw_sds w') it' (ds @ [nt_csd N i]) (map (nt_csd N) ys)"
    "decen_view N w' = (decen_view N w)\<lparr>sv_poll := (sv_poll (decen_view N w))(i := True)\<rparr>" by auto
  have eq: "(\<lambda>j. j \<in> set ys \<or> ((sv_poll (decen_view N w))(i := True)) j) = (\<lambda>j. j \<in> set (i # ys) \<or> sv_poll (decen_view N w) j)"
    by auto
  from Cons.IH [OF m(2,4), of "cnt + 1"] Cons.prems m(3,5) obtain it'' w'' where
    "register_loop w' (Some (nt_ctask N)) it' (cnt + 1) = Some (Inr (True, cnt + 1 + int (length ys), it'', w''))"
    "decen_wf N cap w''" "dw_sds w'' = dw_sds w"
    "decen_view N w'' = (decen_view N w)\<lparr>sv_poll := (\<lambda>j. j \<in> set ys \<or> ((sv_poll (decen_view N w))(i := True)) j)\<rparr>"
    by (auto simp del: fun_upd_apply)
  then show ?case by (subst register_loop.simps) (simp add: m(1) eq add.assoc del: fun_upd_apply)
qed

lemma unregister_loop_clears:
  "decen_wf N cap w \<Longrightarrow> it_rep (dw_sds w) it ds (map (nt_csd N) ys) \<Longrightarrow> set ys \<subseteq> {..<nt_ns N} \<Longrightarrow> ys \<noteq> [] \<Longrightarrow>
    \<exists>w'. unregister_loop w it (int (length ys)) = Some (Inr w') \<and> decen_wf N cap w' \<and> dw_sds w' = dw_sds w \<and>
      decen_view N w' = (decen_view N w)\<lparr>sv_poll := (\<lambda>j. j \<notin> set ys \<and> sv_poll (decen_view N w) j)\<rparr>"
proof (induction ys arbitrary: w it ds)
  case (Cons i ys)
  from law_poll_unregister [OF Cons.prems(1), of i it ds "map (nt_csd N) ys"] Cons.prems obtain it' w' where
    m: "poll_unregister w it = Inr (Some (it', w'))" "decen_wf N cap w'" "dw_sds w' = dw_sds w"
    "it_rep (dw_sds w') it' (ds @ [nt_csd N i]) (map (nt_csd N) ys)"
    "decen_view N w' = (decen_view N w)\<lparr>sv_poll := (sv_poll (decen_view N w))(i := False)\<rparr>" by auto
  show ?case
  proof (cases "ys = []")
    case True
    have "(sv_poll (decen_view N w))(i := False) = (\<lambda>j. j \<notin> set (i # ys) \<and> sv_poll (decen_view N w) j)" using True by (auto simp: fun_eq_iff)
    then show ?thesis using True m by (subst unregister_loop.simps) simp
  next
    case False
    from Cons.IH [OF m(2,4) _ False] Cons.prems obtain w'' where
      w'': "unregister_loop w' it' (int (length ys)) = Some (Inr w'')" "decen_wf N cap w''" "dw_sds w'' = dw_sds w"
      "decen_view N w'' = (decen_view N w')\<lparr>sv_poll := (\<lambda>j. j \<notin> set ys \<and> sv_poll (decen_view N w') j)\<rparr>"
      using m(3) by auto
    have eq: "(\<lambda>j. j \<notin> set ys \<and> ((sv_poll (decen_view N w))(i := False)) j) = (\<lambda>j. j \<notin> set (i # ys) \<and> sv_poll (decen_view N w) j)"
      by auto
    have "decen_view N w'' = (decen_view N w)\<lparr>sv_poll := (\<lambda>j. j \<notin> set (i # ys) \<and> sv_poll (decen_view N w) j)\<rparr>"
      unfolding eq [symmetric] using w''(4) m(5) by (simp del: fun_upd_apply)
    then show ?thesis using w''(1-3) m(1) False by (subst unregister_loop.simps) simp
  qed
qed simp

text \<open>
  \<open>LpelStreamPoll\<close> on a set in which some stream has an item returns without blocking: its answer is the
  first such stream in the order of the set, the set is rotated so that the next iteration starts
  behind that stream, and no stream is changed.
\<close>

theorem poll_fast_path:
  assumes w: "decen_wf N cap w" and r: "ss_rep (dw_sds w) (nt_handle N) (map (nt_csd N) (as @ i # bs))"
    and rng: "set (as @ i # bs) \<subseteq> {..<nt_ns N}" and e: "\<forall>j \<in> set as. sv_items (decen_view N w) j = []"
    and ne: "sv_items (decen_view N w) i \<noteq> []"
  shows "\<exists>w'. LpelStreamPoll_decen block w (Some (nt_handle N)) = Some (Inr (Some (nt_csd N i), w')) \<and> decen_wf N cap w' \<and>
    decen_view N w' = decen_view N w \<and> ss_rep (dw_sds w') (nt_handle N) (map (nt_csd N) (bs @ as @ [i]))"
proof -
  from law_poll_begin [OF w r _ rng] obtain it where it: "poll_begin w (Some (nt_handle N)) = Inr (Some (nt_ctask N), it)"
    "it_rep (dw_sds w) it [] (map (nt_csd N) (as @ i # bs))" by auto
  from rng have rng': "i < nt_ns N" "set as \<subseteq> {..<nt_ns N}" by auto
  from fast_loop_hit [OF w rng'(1) ne it(2) rng'(2) e] obtain it' where
    f: "fast_loop w it = Some (Inr (Some (Some (nt_csd N i)), it'))" by blast
  from law_set_handle [OF w, of "map (nt_csd N) as" "nt_csd N i" "map (nt_csd N) bs"] r obtain w' where
    "set_handle w (Some (nt_handle N)) (Some (nt_csd N i)) = Inr w'" "decen_wf N cap w'" "decen_view N w' = decen_view N w"
    "ss_rep (dw_sds w') (nt_handle N) (map (nt_csd N) (bs @ as @ [i]))" by auto
  then show ?thesis by (simp add: LpelStreamPoll_decen_def it(1) f)
qed

text \<open>
  C25: \<open>LpelStreamPoll\<close> on a set of empty streams marks every stream of the set and places the token before it
  blocks, and it returns whenever the task is woken: if the wakeup took the token and left stream
  \<open>i\<close> in \<open>wakeup_sd\<close>, the answer is \<open>i\<close>, the set is rotated to it and none of its streams stays marked.
\<close>

theorem poll_blocking_path:
  assumes w: "decen_wf N cap w" and r: "ss_rep (dw_sds w) (nt_handle N) (map (nt_csd N) (as @ i # bs))"
    and rng: "set (as @ i # bs) \<subseteq> {..<nt_ns N}" and e: "\<forall>j \<in> set (as @ i # bs). sv_items (decen_view N w) j = []"
    and block: "\<And>w1. decen_wf N cap w1 \<Longrightarrow> dw_sds w1 = dw_sds w \<Longrightarrow>
       decen_view N w1 = (decen_view N w)\<lparr>sv_token := True, sv_poll := (\<lambda>j. j \<in> set (as @ i # bs) \<or> sv_poll (decen_view N w) j)\<rparr> \<Longrightarrow>
       \<exists>w2. block w1 (Some (nt_ctask N)) = Inr w2 \<and> decen_wf N cap w2 \<and> dw_sds w2 = dw_sds w \<and>
         \<not> sv_token (decen_view N w2) \<and> sv_wsd (decen_view N w2) = Some (nt_csd N i)"
  shows "\<exists>w'. LpelStreamPoll_decen block w (Some (nt_handle N)) = Some (Inr (Some (nt_csd N i), w')) \<and> decen_wf N cap w' \<and>
    (\<forall>j \<in> set (as @ i # bs). \<not> sv_poll (decen_view N w') j) \<and> ss_rep (dw_sds w') (nt_handle N) (map (nt_csd N) (bs @ as @ [i]))"
proof -
  let ?ys = "as @ i # bs"
  from law_poll_begin [OF w r _ rng] obtain it where it: "poll_begin w (Some (nt_handle N)) = Inr (Some (nt_ctask N), it)"
    "it_rep (dw_sds w) it [] (map (nt_csd N) ?ys)" by auto
  from fast_loop_none [OF w it(2) rng e] obtain it1 where f: "fast_loop w it = Some (Inr (None, it1))" by blast
  from law_poll_token [OF w r, of it1] obtain it2 w1 where
    t: "poll_token w (Some (nt_handle N)) (Some (nt_ctask N)) it1 = Inr (it2, w1)" "decen_wf N cap w1" "dw_sds w1 = dw_sds w"
    "it_rep (dw_sds w1) it2 [] (map (nt_csd N) ?ys)" "decen_view N w1 = (decen_view N w)\<lparr>sv_token := True\<rparr>" by auto
  from register_loop_marks [OF t(2,4) rng, of 0] e t(3,5) obtain it3 w2 where
    g: "register_loop w1 (Some (nt_ctask N)) it2 0 = Some (Inr (True, int (length ?ys), it3, w2))" "decen_wf N cap w2"
    "dw_sds w2 = dw_sds w"
    "decen_view N w2 = (decen_view N w)\<lparr>sv_token := True, sv_poll := (\<lambda>j. j \<in> set ?ys \<or> sv_poll (decen_view N w) j)\<rparr>"
    by auto
  from block [OF g(2-4)] obtain w3 where b: "block w2 (Some (nt_ctask N)) = Inr w3" "decen_wf N cap w3" "dw_sds w3 = dw_sds w"
    "\<not> sv_token (decen_view N w3)" "sv_wsd (decen_view N w3) = Some (nt_csd N i)" by blast
  have r3: "ss_rep (dw_sds w3) (nt_handle N) (map (nt_csd N) ?ys)" using r b(3) by simp
  from law_poll_awake [OF b(2) r3 b(4), of it3] obtain it4 where
    a: "poll_awake w3 (Some (nt_handle N)) (Some (nt_ctask N)) it3 = Inr it4" "it_rep (dw_sds w3) it4 [] (map (nt_csd N) ?ys)" by blast
  from unregister_loop_clears [OF b(2) a(2) rng] obtain w4 where
    u: "unregister_loop w3 it4 (int (length ?ys)) = Some (Inr w4)" "decen_wf N cap w4" "dw_sds w4 = dw_sds w3"
    "decen_view N w4 = (decen_view N w3)\<lparr>sv_poll := (\<lambda>j. j \<notin> set ?ys \<and> sv_poll (decen_view N w3) j)\<rparr>" by blast
  have r4: "ss_rep (dw_sds w4) (nt_handle N) (map (nt_csd N) as @ nt_csd N i # map (nt_csd N) bs)" using r3 u(3) by simp
  have "sv_wsd (decen_view N w4) = Some (nt_csd N i)" using u(4) b(5) by simp
  from law_poll_finish [OF u(2) r4 this] obtain w' where
    "poll_finish w4 (Some (nt_handle N)) (Some (nt_ctask N)) = Inr (Some (nt_csd N i), w')" "decen_wf N cap w'"
    "decen_view N w' = decen_view N w4" "ss_rep (dw_sds w') (nt_handle N) (map (nt_csd N) (bs @ as @ [i]))" by auto
  moreover have "\<forall>j \<in> set ?ys. \<not> sv_poll (decen_view N w4) j" using u(4) by auto
  ultimately show ?thesis by (simp add: LpelStreamPoll_decen_def it(1) f t(1) g(1) b(1) a(1) u(1) del: length_append)
qed

section \<open>Runs\<close>

text \<open>A consumer task 50 with two streams, whose producers are the tasks 40 and 41.\<close>

definition ex_net :: net where
  "ex_net = \<lparr>nt_ns = 2, nt_stream = (\<lambda>i. 10 + i), nt_psd = (\<lambda>i. 20 + i), nt_csd = (\<lambda>i. 30 + i), nt_ptask = (\<lambda>i. 40 + i),
     nt_ctask = 50, nt_handle = 60\<rparr>"

definition ex_stream :: "nat \<Rightarrow> decen_stream_t" where
  "ex_stream i = \<lparr>ds_buffer = LpelBufferInit_decen 2, ds_uid = 0, ds_is_poll = 0, ds_prod_sd = Some (20 + i),
     ds_cons_sd = Some (30 + i), ds_n_sem = 0, ds_e_sem = 2, ds_usr_data = None\<rparr>"

definition ex_desc :: "addr \<Rightarrow> addr \<Rightarrow> char \<Rightarrow> ptr \<Rightarrow> lpel_stream_desc_t" where
  "ex_desc t s m n = \<lparr>sd_task = Some t, sd_stream = Some s, sd_mode = m, sd_next = n, sd_mon = None\<rparr>"

definition ex_store :: decen_store where
  "ex_store = \<lparr>dw_tasks = [40 \<mapsto> ex_task 0, 41 \<mapsto> ex_task 0, 50 \<mapsto> ex_task 0],
     dw_streams = [10 \<mapsto> ex_stream 0, 11 \<mapsto> ex_stream 1],
     dw_sds = \<lparr>sds = [20 \<mapsto> ex_desc 40 10 (CHR ''w'') None, 21 \<mapsto> ex_desc 41 11 (CHR ''w'') None,
       30 \<mapsto> ex_desc 50 10 (CHR ''r'') (Some 31), 31 \<mapsto> ex_desc 50 11 (CHR ''r'') (Some 30)], handles = [60 \<mapsto> Some 31]\<rparr>\<rparr>"

definition ex_cap :: "nat \<Rightarrow> nat option" where "ex_cap i = (if i < 2 then Some 2 else None)"

definition ex_sys :: "decen_store ssys" where
  "ex_sys = \<lparr>sy_store = ex_store, sy_wpc = (\<lambda>_. QIdle), sy_cpc = DIdle, sy_wakes = (\<lambda>_. 0), sy_sent = (\<lambda>_. []), sy_got = (\<lambda>_. []),
     sy_ret = None\<rparr>"

lemmas ex_defs = ex_net_def ex_stream_def ex_desc_def ex_store_def ex_cap_def ex_sys_def ex_task_def

lemma ex_buffer: "rb_inv (LpelBufferInit_decen 2)" "rb_items (LpelBufferInit_decen 2) = []" "rb_cap (LpelBufferInit_decen 2) = 2"
  using rb_Init [of 2] by auto

lemma less2: "(i::nat) < 2 \<longleftrightarrow> i = 0 \<or> i = 1"
  by auto

lemma ex_wf: "decen_wf ex_net ex_cap ex_store"
  by (auto simp: decen_wf_def net_ok_def decen_cap_def at_idx_def sd_ok_def ex_defs inj_on_def less2 ex_buffer fun_eq_iff)

lemma ex_set: "ss_rep (dw_sds ex_store) 60 [30, 31]"
  by (simp add: ss_rep_def clist_def fld_def ex_defs)

lemma ex_init: "sys_init decen_ops ex_net ex_cap (decen_wf ex_net ex_cap) (decen_view ex_net) [0, 1] ex_sys"
  using ex_wf ex_set
  by (auto simp: sys_init_def decen_view_def at_idx_def less2 ex_buffer ex_defs)

text \<open>
  C2: Producers writing to their streams and a consumer reading from and polling them, in any
  interleaving of their atomic sections from the opened, empty network: no assertion of the stream
  functions fails and no pointer dereference goes wrong, every stream delivers the items written to it in
  order, without loss or duplication and within its capacity, and no wakeup is lost: a task that
  is blocked with no wakeup on its way has nothing to do (no item to read, no space to write, no
  item in any stream of the polled set) unless its partner is just about to send the wakeup.
\<close>

theorem decen_stream_safety:
  assumes "sys_init decen_ops N cap (decen_wf N cap) (decen_view N) xs s"
    and "run_events (exec decen_ops N) evs s = Some r"
  shows "\<exists>s'. r = Inr s' \<and> (\<forall>i < nt_ns N. str_good cap N (decen_view N (sy_store s')) s' i) \<and>
    poll_good N (decen_view N (sy_store s')) (dw_sds (sy_store s')) s'"
  using decen.run_good [OF assms] by simp

lemmas ex_eval = ex_defs at_idx_def write_enter_def write_put_def write_signal_def read_enter_def read_pop_def
  sd_at_def stream_at_def upd_ds_def upd_dt_def wake_task_def
  LpelBufferInit_decen_def LpelBufferIsSpace_decen_def LpelBufferPut_decen_def LpelBufferTop_decen_def LpelBufferPop_decen_def

theorem decen_stream_safety_witness:
  "\<exists>s'. run_events (exec decen_ops ex_net) [EvRead 0, EvWrite 0 7, EvPut 0 None, EvSignal 0, EvRResume, EvPop] ex_sys = Some (Inr s') \<and>
     sy_got s' 0 = [7] \<and> (\<forall>i < nt_ns ex_net. str_good ex_cap ex_net (decen_view ex_net (sy_store s')) s' i) \<and>
     poll_good ex_net (decen_view ex_net (sy_store s')) (dw_sds (sy_store s')) s'"
proof -
  let ?evs = "[EvRead 0, EvWrite 0 7, EvPut 0 None, EvSignal 0, EvRResume, EvPop]"
  have "\<exists>s'. run_events (exec decen_ops ex_net) ?evs ex_sys = Some (Inr s') \<and> sy_got s' 0 = [7]"
    by (simp add: ex_eval aget_def aset_def)
  then obtain s' where s': "run_events (exec decen_ops ex_net) ?evs ex_sys = Some (Inr s')" "sy_got s' 0 = [7]" by blast
  from decen_stream_safety [OF ex_init s'(1)] s' show ?thesis by blast
qed

text \<open>
  C13: A consumer blocked with no wakeup on its way never waits for producers that are themselves stuck, in any
  state of a run. Blocked in a read of a stream, the producer of that stream can take its next step. Blocked in a poll,
  either a producer of a stream of the polled set wakes the consumer in its next step, or the producers of all streams of the
  set can take their next step; the set is not empty.
\<close>

theorem decen_stream_liveness:
  assumes "sys_init decen_ops N cap (decen_wf N cap) (decen_view N) xs s"
    and "run_events (exec decen_ops N) evs s = Some (Inr s')" and "sy_wakes s' (nt_ctask N) = 0"
  shows "(\<forall>i. sy_cpc s' = DRBlocked i \<longrightarrow> (\<exists>ev s''. producer_of ev = Some i \<and> exec decen_ops N ev s' = Some (Inr s''))) \<and>
    ((\<exists>self it cnt. sy_cpc s' = DBlocked self it cnt) \<longrightarrow>
      (\<exists>ys. ys \<noteq> [] \<and> set ys \<subseteq> {..<nt_ns N} \<and> ss_rep (dw_sds (sy_store s')) (nt_handle N) (map (nt_csd N) ys) \<and>
        ((\<exists>j \<in> set ys. \<exists>s''. exec decen_ops N (EvSignal j) s' = Some (Inr s'') \<and> 0 < sy_wakes s'' (nt_ctask N)) \<or>
         (\<forall>j \<in> set ys. \<exists>ev s''. producer_of ev = Some j \<and> exec decen_ops N ev s' = Some (Inr s'')))))"
proof (intro conjI allI impI)
  show "\<exists>ev s''. producer_of ev = Some i \<and> exec decen_ops N ev s' = Some (Inr s'')" if "sy_cpc s' = DRBlocked i" for i
    by (rule decen.run_live(1) [OF assms that])
next
  assume "\<exists>self it cnt. sy_cpc s' = DBlocked self it cnt"
  then obtain self it cnt where c: "sy_cpc s' = DBlocked self it cnt" by blast
  have "so_sds decen_ops (sy_store s') = dw_sds (sy_store s')" by (simp add: decen_ops_def)
  with decen.run_live(2) [OF assms c] show "\<exists>ys. ys \<noteq> [] \<and> set ys \<subseteq> {..<nt_ns N} \<and> ss_rep (dw_sds (sy_store s')) (nt_handle N) (map (nt_csd N) ys) \<and>
        ((\<exists>j \<in> set ys. \<exists>s''. exec decen_ops N (EvSignal j) s' = Some (Inr s'') \<and> 0 < sy_wakes s'' (nt_ctask N)) \<or>
         (\<forall>j \<in> set ys. \<exists>ev s''. producer_of ev = Some j \<and> exec decen_ops N ev s' = Some (Inr s'')))" by simp
qed

definition ex_poll :: "event list" where
  "ex_poll = [EvPoll, EvFast, EvFast, EvFast, EvReg, EvReg, EvReg]"

theorem decen_stream_liveness_witness:
  "(\<exists>s'. run_events (exec decen_ops ex_net) [EvRead 1] ex_sys = Some (Inr s') \<and>
     (\<exists>ev s''. producer_of ev = Some 1 \<and> exec decen_ops ex_net ev s' = Some (Inr s''))) \<and>
   (\<exists>s' ys. run_events (exec decen_ops ex_net) ex_poll ex_sys = Some (Inr s') \<and> ys \<noteq> [] \<and>
     ((\<exists>j \<in> set ys. \<exists>s''. exec decen_ops ex_net (EvSignal j) s' = Some (Inr s'') \<and> 0 < sy_wakes s'' (nt_ctask ex_net)) \<or>
      (\<forall>j \<in> set ys. \<exists>ev s''. producer_of ev = Some j \<and> exec decen_ops ex_net ev s' = Some (Inr s''))))"
proof
  have "\<exists>s'. run_events (exec decen_ops ex_net) [EvRead 1] ex_sys = Some (Inr s') \<and> sy_wakes s' (nt_ctask ex_net) = 0 \<and> sy_cpc s' = DRBlocked 1"
    by (simp add: ex_eval)
  then obtain s' where s': "run_events (exec decen_ops ex_net) [EvRead 1] ex_sys = Some (Inr s')"
    "sy_wakes s' (nt_ctask ex_net) = 0" "sy_cpc s' = DRBlocked 1" by blast
  from decen_stream_liveness [OF ex_init s'(1,2)] s' show "\<exists>s'. run_events (exec decen_ops ex_net) [EvRead 1] ex_sys = Some (Inr s') \<and>
     (\<exists>ev s''. producer_of ev = Some 1 \<and> exec decen_ops ex_net ev s' = Some (Inr s''))" by blast
next
  have "case run_events (exec decen_ops ex_net) ex_poll ex_sys of
      Some (Inr s') \<Rightarrow> sy_wakes s' (nt_ctask ex_net) = 0 \<and> (case sy_cpc s' of DBlocked _ _ _ \<Rightarrow> True | _ \<Rightarrow> False) | _ \<Rightarrow> False" by code_simp
  then obtain s' where s': "run_events (exec decen_ops ex_net) ex_poll ex_sys = Some (Inr s')"
    "sy_wakes s' (nt_ctask ex_net) = 0" "\<exists>self it cnt. sy_cpc s' = DBlocked self it cnt" by (auto split: option.splits sum.splits dpc.splits)
  from decen_stream_liveness [OF ex_init s'(1,2), THEN conjunct2, THEN mp, OF s'(3)] s'(1)
  show "\<exists>s' ys. run_events (exec decen_ops ex_net) ex_poll ex_sys = Some (Inr s') \<and> ys \<noteq> [] \<and>
     ((\<exists>j \<in> set ys. \<exists>s''. exec decen_ops ex_net (EvSignal j) s' = Some (Inr s'') \<and> 0 < sy_wakes s'' (nt_ctask ex_net)) \<or>
      (\<forall>j \<in> set ys. \<exists>ev s''. producer_of ev = Some j \<and> exec decen_ops ex_net ev s' = Some (Inr s'')))" by blast
qed

theorem poll_blocking_path_witness:
  "\<exists>w'. LpelStreamPoll_decen
      (\<lambda>w1 t. Inr (w1\<lparr>dw_tasks := (dw_tasks w1)(50 \<mapsto> (ex_task 0)\<lparr>t_wakeup_sd := Some 30\<rparr>)\<rparr>)) ex_store (Some 60) =
        Some (Inr (Some 30, w')) \<and> ss_rep (dw_sds w') 60 [31, 30]"
proof -
  let ?b = "\<lambda>w1 t. Inr (w1\<lparr>dw_tasks := (dw_tasks w1)(50 \<mapsto> (ex_task 0)\<lparr>t_wakeup_sd := Some 30\<rparr>)\<rparr>)"
  have r: "ss_rep (dw_sds ex_store) (nt_handle ex_net) (map (nt_csd ex_net) ([] @ 0 # [1]))"
    using ex_set by (simp add: ex_net_def)
  have e: "\<forall>j \<in> set ([] @ 0 # [1]). sv_items (decen_view ex_net ex_store) j = []"
    by (simp add: decen_view_def at_idx_def ex_buffer ex_defs)
  have b: "\<exists>w2. ?b w1 (Some (nt_ctask ex_net)) = Inr w2 \<and> decen_wf ex_net ex_cap w2 \<and> dw_sds w2 = dw_sds ex_store \<and>
         \<not> sv_token (decen_view ex_net w2) \<and> sv_wsd (decen_view ex_net w2) = Some (nt_csd ex_net 0)"
    if "decen_wf ex_net ex_cap w1" "dw_sds w1 = dw_sds ex_store" for w1
    using that wf_upd_task [OF that(1), of "(ex_task 0)\<lparr>t_wakeup_sd := Some 30\<rparr>"]
      view_upd_task [of ex_net w1 "(ex_task 0)\<lparr>t_wakeup_sd := Some 30\<rparr>"] by (simp add: ex_net_def ex_task_def)
  have "set ([] @ 0 # [1]) \<subseteq> {..<nt_ns ex_net}" by (simp add: ex_net_def)
  from poll_blocking_path [where block = ?b, OF ex_wf r this e b]
  show ?thesis by (auto simp: ex_net_def)
qed

definition ex_full :: decen_store where
  "ex_full = ex_store\<lparr>dw_streams := [10 \<mapsto> ex_stream 0, 11 \<mapsto> (ex_stream 1)\<lparr>ds_buffer := \<lparr>pread = 0, pwrite = 1, bsize = 2, bdata = [Some 7, None]\<rparr>\<rparr>]\<rparr>"

theorem poll_fast_path_witness:
  "\<exists>w'. LpelStreamPoll_decen (\<lambda>_ _. Inl AssertFail) ex_full (Some 60) = Some (Inr (Some 31, w')) \<and> ss_rep (dw_sds w') 60 [30, 31]"
proof -
  let ?b = "\<lparr>pread = 0, pwrite = 1, bsize = 2, bdata = [Some 7, None]\<rparr> :: buffer_t"
  have b: "rb_inv ?b" "rb_items ?b = [7]" "rb_cap ?b = 2"
    using rb_repI [of ?b "[7]"] by (auto simp: rb_cap_def)
  have i1: "1 < nt_ns ex_net" by (simp add: ex_net_def)
  have f: "ex_full = ex_store\<lparr>dw_streams := (dw_streams ex_store)(nt_stream ex_net 1 \<mapsto> (ex_stream 1)\<lparr>ds_buffer := ?b\<rparr>)\<rparr>"
    by (simp add: ex_full_def ex_store_def ex_net_def fun_upd_twist)
  have "dw_streams ex_store (nt_stream ex_net 1) = Some (ex_stream 1)" by (simp add: ex_store_def ex_net_def)
  from wf_upd_stream [OF ex_wf i1 this, of "(ex_stream 1)\<lparr>ds_buffer := ?b\<rparr>"] b ex_buffer
  have w: "decen_wf ex_net ex_cap ex_full" by (simp add: f ex_stream_def)
  have r: "ss_rep (dw_sds ex_full) (nt_handle ex_net) (map (nt_csd ex_net) ([0] @ 1 # []))"
    using ex_set by (simp add: ex_full_def ex_net_def)
  have v: "sv_items (decen_view ex_net ex_full) 0 = []" "sv_items (decen_view ex_net ex_full) 1 = [7]"
    using b(2) ex_buffer by (simp_all add: decen_view_def at_idx_def ex_full_def ex_net_def ex_stream_def)
  have "set ([0] @ 1 # []) \<subseteq> {..<nt_ns ex_net}" by (simp add: ex_net_def)
  from poll_fast_path [OF w r this, of "\<lambda>_ _. Inl AssertFail"] v show ?thesis by (auto simp: ex_net_def)
qed

end
