(* ===== verification/Hrc_Types.thy ===== *)
theory Hrc_Types
  imports Lpel_Types Complex_Main
begin

text \<open>
  The task control block of the hierarchical scheduler (\<open>struct lpel_task_t\<close> and
  \<open>sched_task_t\<close> of \<open>hrc_task.h\<close>). A C \<open>double\<close> is modelled by its value as a real number
  (no operation of the program produces a NaN); where arithmetic is rounded the rounding is an
  argument of the definition.
\<close>

type_synonym double = real

definition DBL_MAX :: double where
  "DBL_MAX = 2 ^ 1024 - 2 ^ 971"

definition LPEL_DBL_MIN :: double where
  "LPEL_DBL_MIN = 0 - DBL_MAX"

record stream_elem_t =
  se_stream_desc :: ptr
  se_next :: ptr

record sched_task_t =
  rec_cnt :: int
  rec_limit_factor :: int
  rec_limit :: int
  prior :: double
  in_streams :: ptr
  out_streams :: ptr

record hrc_task_t =
  ht_prev :: ptr
  ht_next :: ptr
  ht_uid :: "32 word"
  ht_state :: lpel_taskstate_t
  ht_wakenup :: int
  ht_worker_context :: ptr
  ht_wakeup_sd :: ptr
  ht_poll_token :: int
  ht_mon :: ptr
  ht_size :: int
  ht_func :: ptr
  ht_inarg :: ptr
  ht_outarg :: ptr
  ht_dynamic :: int
  ht_sched_info :: sched_task_t

type_synonym hrc_tasks = "hrc_task_t heap"

definition prio_at :: "hrc_tasks \<Rightarrow> addr \<Rightarrow> double" where
  "prio_at h a = prior (ht_sched_info (the (h a)))"

text \<open>A concrete task for the examples.\<close>

definition ex_htask :: "double \<Rightarrow> hrc_task_t" where
  "ex_htask p = \<lparr>ht_prev = None, ht_next = None, ht_uid = 0, ht_state = TASK_READY, ht_wakenup = 0,
     ht_worker_context = None, ht_wakeup_sd = None, ht_poll_token = 0, ht_mon = None, ht_size = 8192,
     ht_func = None, ht_inarg = None, ht_outarg = None, ht_dynamic = 0,
     ht_sched_info = \<lparr>rec_cnt = 0, rec_limit_factor = - 1, rec_limit = 0, prior = p, in_streams = None,
       out_streams = None\<rparr>\<rparr>"

lemma ex_htask_prior [simp]: "prior (ht_sched_info (ex_htask p)) = p"
  by (simp add: ex_htask_def)

end
