(* ===== verification/Hrc_Buffer.thy ===== *)
theory Hrc_Buffer
  imports Stream_Buffer
begin

text \<open>
  \<open>src/sched/hierarchy/hrc_buffer.c\<close>: the unbounded single-writer single-reader buffer, a
  linked list with a dummy node at its head. The heap of \<open>entry\<close> structs is part of the
  buffer's state, so that the allocation in \<open>LpelBufferPut\<close> and the \<open>free\<close> in
  \<open>LpelBufferPop\<close> are visible; the answer of \<open>malloc\<close> is an argument.
\<close>

section \<open>Model\<close>

record entry =
  edata :: ptr
  enext :: ptr

record buffer_hrc =
  bhead :: ptr
  btail :: ptr
  entries :: "entry heap"

definition createEntry :: "entry heap \<Rightarrow> ptr \<Rightarrow> ptr \<Rightarrow> entry heap res" where
  "createEntry h new d = alloc_at h new \<lparr>edata = d, enext = None\<rparr>"

definition LpelBufferInit_hrc :: "entry heap \<Rightarrow> ptr \<Rightarrow> buffer_hrc res" where
  "LpelBufferInit_hrc h new =
     bindR (createEntry h new None) (\<lambda>h'. Inr \<lparr>bhead = new, btail = new, entries = h'\<rparr>)"

definition LpelBufferCleanup_hrc :: "buffer_hrc \<Rightarrow> entry heap res" where
  "LpelBufferCleanup_hrc buf = free_at (entries buf) (bhead buf)"

definition LpelBufferTop_hrc :: "buffer_hrc \<Rightarrow> ptr res" where
  "LpelBufferTop_hrc buf =
     bindR (deref (entries buf) (bhead buf)) (\<lambda>hd.
       if enext hd = None then Inr None
       else bindR (deref (entries buf) (enext hd)) (\<lambda>e. Inr (edata e)))"

definition LpelBufferPop_hrc :: "buffer_hrc \<Rightarrow> buffer_hrc res" where
  "LpelBufferPop_hrc buf =
     bindR (deref (entries buf) (bhead buf)) (\<lambda>t.
       if enext t = None then Inr buf
       else bindR (free_at (entries buf) (bhead buf)) (\<lambda>h.
         Inr (buf\<lparr>bhead := enext t, entries := h\<rparr>)))"

definition LpelBufferIsSpace_hrc :: "buffer_hrc \<Rightarrow> bool res" where
  "LpelBufferIsSpace_hrc buf = Inr True"

definition LpelBufferPut_hrc :: "ptr \<Rightarrow> buffer_hrc \<Rightarrow> ptr \<Rightarrow> buffer_hrc res" where
  "LpelBufferPut_hrc new buf item =
     bindR (assertR (item \<noteq> None)) (\<lambda>_.
     bindR (createEntry (entries buf) new item) (\<lambda>h.
     bindR (upd h (btail buf) (\<lambda>e. e\<lparr>enext := new\<rparr>)) (\<lambda>h'.
     bindR (deref h' (btail buf)) (\<lambda>tl.
       Inr (buf\<lparr>btail := enext tl, entries := h'\<rparr>)))))"

definition LpelBufferIsEmpty_hrc :: "buffer_hrc \<Rightarrow> bool res" where
  "LpelBufferIsEmpty_hrc buf =
     bindR (deref (entries buf) (bhead buf)) (\<lambda>hd. Inr (enext hd = None))"

section \<open>Abstraction and invariant\<close>

definition hb_nodes :: "buffer_hrc \<Rightarrow> addr list" where
  "hb_nodes b = (case bhead b of None \<Rightarrow> []
     | Some d \<Rightarrow> (case walk (fld enext (entries b)) (fld enext (entries b) d) of
         None \<Rightarrow> [] | Some as \<Rightarrow> as))"

definition hb_items :: "buffer_hrc \<Rightarrow> addr list" where
  "hb_items b = map (\<lambda>a. the (fld edata (entries b) a)) (hb_nodes b)"

definition hb_rep :: "buffer_hrc \<Rightarrow> addr \<Rightarrow> addr list \<Rightarrow> bool" where
  "hb_rep b d as \<longleftrightarrow> bhead b = Some d \<and> btail b = Some (last (d # as)) \<and>
     nlist (fld enext (entries b)) (Some d) (d # as) \<and> set (d # as) \<subseteq> dom (entries b) \<and>
     (\<forall>a \<in> set as. fld edata (entries b) a \<noteq> None)"

definition hb_inv :: "buffer_hrc \<Rightarrow> bool" where
  "hb_inv b \<longleftrightarrow> (case bhead b of None \<Rightarrow> False | Some d \<Rightarrow> hb_rep b d (hb_nodes b))"

lemma hb_rep_nodes: "hb_rep b d as \<Longrightarrow> hb_nodes b = as"
  by (auto simp: hb_rep_def hb_nodes_def nlist_def walk_chain)

lemma hb_inv_iff: "hb_inv b \<longleftrightarrow> (\<exists>d as. hb_rep b d as)"
proof
  assume "hb_inv b"
  then show "\<exists>d as. hb_rep b d as" by (auto simp: hb_inv_def split: option.splits)
next
  assume "\<exists>d as. hb_rep b d as"
  then obtain d as where rep: "hb_rep b d as" by blast
  then have "bhead b = Some d" by (simp add: hb_rep_def)
  with rep show "hb_inv b" by (simp add: hb_inv_def hb_rep_nodes)
qed

lemma hb_items_rep: "hb_rep b d as \<Longrightarrow> hb_items b = map (\<lambda>a. the (fld edata (entries b) a)) as"
  by (simp add: hb_items_def hb_rep_nodes)

section \<open>Operations on the abstraction\<close>

lemma hb_Init:
  assumes "h a = None"
  shows "\<exists>b. LpelBufferInit_hrc h (Some a) = Inr b \<and> hb_rep b a [] \<and> entries b = h(a \<mapsto> \<lparr>edata = None, enext = None\<rparr>)"
  using assms by (simp add: LpelBufferInit_hrc_def createEntry_def hb_rep_def nlist_def)

lemma hb_Top:
  assumes "hb_rep b d as"
  shows "LpelBufferTop_hrc b = Inr (case hb_items b of [] \<Rightarrow> None | x # _ \<Rightarrow> Some x)"
  using assms unfolding hb_items_rep [OF assms]
  by (cases as) (auto simp: LpelBufferTop_hrc_def hb_rep_def nlist_def)

lemma hb_IsEmpty:
  assumes "hb_rep b d as"
  shows "LpelBufferIsEmpty_hrc b = Inr (hb_items b = [])"
  using assms unfolding hb_items_rep [OF assms]
  by (cases as) (auto simp: LpelBufferIsEmpty_hrc_def hb_rep_def nlist_def)

lemma hb_Pop:
  assumes "hb_rep b d (a # as)"
  shows "\<exists>b'. LpelBufferPop_hrc b = Inr b' \<and> hb_rep b' a as \<and> entries b' = (entries b)(d := None)"
proof -
  let ?b = "b\<lparr>bhead := Some a, entries := (entries b)(d := None)\<rparr>"
  have "LpelBufferPop_hrc b = Inr ?b"
    using assms by (auto simp: LpelBufferPop_hrc_def hb_rep_def nlist_def)
  moreover have "hb_rep ?b a as"
    using assms by (auto simp: hb_rep_def nlist_def)
  ultimately show ?thesis by simp
qed

lemma hb_Put:
  assumes rep: "hb_rep b d as" and new: "entries b n = None"
  shows "\<exists>b'. LpelBufferPut_hrc (Some n) b (Some x) = Inr b' \<and> hb_rep b' d (as @ [n]) \<and>
    dom (entries b') = insert n (dom (entries b)) \<and> fld edata (entries b') = (fld edata (entries b))(n \<mapsto> x)"
proof -
  define l where "l = last (d # as)"
  have l: "btail b = Some l" "l \<in> set (d # as)" "n \<notin> set (d # as)"
    using rep new by (auto simp: hb_rep_def l_def)
  then obtain c where c: "entries b l = Some c" using rep by (auto simp: hb_rep_def)
  have ln: "l \<noteq> n" using l by blast
  let ?h = "(entries b)(n \<mapsto> \<lparr>edata = Some x, enext = None\<rparr>, l \<mapsto> c\<lparr>enext := Some n\<rparr>)"
  let ?b = "b\<lparr>btail := Some n, entries := ?h\<rparr>"
  have put: "LpelBufferPut_hrc (Some n) b (Some x) = Inr ?b"
    using new l c ln by (simp add: LpelBufferPut_hrc_def createEntry_def)
  have ed: "fld edata ?h = (fld edata (entries b))(n \<mapsto> x)"
    using c ln by (auto simp: fun_eq_iff)
  obtain ys where ys: "d # as = ys @ [l]"
    by (metis append_butlast_last_id l_def list.distinct(1))
  have ch: "chain (fld enext (entries b)) (Some d) (ys @ [l]) None" and di: "distinct (ys @ [l])"
    using rep ys by (auto simp: hb_rep_def nlist_def)
  then have "chain (fld enext ?h) (Some d) (ys @ [l]) (Some n)"
    using l(3) ys by auto
  moreover have "chain (fld enext ?h) (Some n) [n] None"
    using ln by simp
  ultimately have "chain (fld enext ?h) (Some d) ((ys @ [l]) @ [n]) None"
    unfolding chain_append by blast
  then have ch': "chain (fld enext ?h) (Some d) (d # as @ [n]) None"
    by (simp only: ys [symmetric] append_Cons)
  have "hb_rep ?b d (as @ [n])"
    using rep l ch' ed c by (auto simp: hb_rep_def nlist_def)
  with put ed c show ?thesis by auto
qed


section \<open>The linked buffer implements the stream buffer interface\<close>

definition hb_can_put :: "ptr \<Rightarrow> buffer_hrc \<Rightarrow> bool" where
  "hb_can_put new b \<longleftrightarrow> (case new of None \<Rightarrow> False | Some a \<Rightarrow> entries b a = None)"

lemma hb_items_Put:
  assumes "hb_rep b d as" and "entries b n = None"
    and "hb_rep b' d (as @ [n])" and "fld edata (entries b') = (fld edata (entries b))(n \<mapsto> x)"
  shows "hb_items b' = hb_items b @ [x]"
proof -
  have "n \<notin> set as" using assms(1,2) by (auto simp: hb_rep_def)
  then show ?thesis using assms(4) by (simp add: hb_items_rep [OF assms(1)] hb_items_rep [OF assms(3)])
qed

lemma hb_items_Pop:
  assumes "hb_rep b d (a # as)" and "hb_rep b' a as" and "entries b' = (entries b)(d := None)"
  shows "hb_items b = the (fld edata (entries b) a) # hb_items b'"
proof -
  have "d \<notin> set as" using assms(1) by (auto simp: hb_rep_def nlist_def)
  then show ?thesis using assms(3) by (simp add: hb_items_rep [OF assms(1)] hb_items_rep [OF assms(2)])
qed

interpretation linked: stream_buffer LpelBufferTop_hrc LpelBufferPop_hrc LpelBufferIsSpace_hrc
  LpelBufferPut_hrc LpelBufferIsEmpty_hrc hb_inv hb_items hb_can_put
proof unfold_locales
  fix b x xs
  assume "hb_inv b" and items: "hb_items b = x # xs"
  then obtain d as where "hb_rep b d as" by (auto simp: hb_inv_iff)
  with items obtain a as' where rep: "hb_rep b d (a # as')"
    by (cases as) (auto simp: hb_items_rep)
  with hb_Pop [OF rep] items show "\<exists>b'. LpelBufferPop_hrc b = Inr b' \<and> hb_inv b' \<and> hb_items b' = xs"
    by (metis hb_inv_iff hb_items_Pop list.inject)
next
  fix b e x
  assume "hb_inv b" and "hb_can_put e b"
  then obtain d as n where rep: "hb_rep b d as" and n: "e = Some n" "entries b n = None"
    by (auto simp: hb_inv_iff hb_can_put_def split: option.splits)
  from hb_Put [OF rep n(2), of x] obtain b' where
    "LpelBufferPut_hrc (Some n) b (Some x) = Inr b'" and rep': "hb_rep b' d (as @ [n])"
    and "fld edata (entries b') = (fld edata (entries b))(n \<mapsto> x)"
    by blast
  with rep n show "\<exists>b'. LpelBufferPut_hrc e b (Some x) = Inr b' \<and> hb_inv b' \<and> hb_items b' = hb_items b @ [x]"
    by (auto simp: hb_inv_iff intro: hb_items_Put)
next
  show "\<And>b e. hb_inv b \<Longrightarrow> LpelBufferPut_hrc e b None = Inl AssertFail"
    by (simp add: LpelBufferPut_hrc_def)
  show "\<And>b e x b'. hb_inv b \<Longrightarrow> LpelBufferPut_hrc e b (Some x) = Inr b' \<Longrightarrow> hb_can_put e b"
    by (auto simp: LpelBufferPut_hrc_def createEntry_def bindR_eq_Inr alloc_at_eq_Inr hb_can_put_def)
qed (auto simp: hb_inv_iff LpelBufferIsSpace_hrc_def intro: hb_Top hb_IsEmpty)

abbreviation linked_run :: "ptr buf_op list \<Rightarrow> buffer_hrc \<Rightarrow> (addr list \<times> buffer_hrc) res" where
  "linked_run \<equiv> buf_run LpelBufferTop_hrc LpelBufferPop_hrc LpelBufferPut_hrc"

text \<open>A run allocates a node per insertion and frees one per removal: nothing leaks.\<close>

lemma linked_run_heap:
  "hb_rep b d as \<Longrightarrow> dom (entries b) = S \<union> set (d # as) \<Longrightarrow> S \<inter> set (d # as) = {} \<Longrightarrow>
   linked_run ops b = Inr (outs, b') \<Longrightarrow>
   \<exists>d' as'. hb_rep b' d' as' \<and> dom (entries b') = S \<union> set (d' # as') \<and> S \<inter> set (d' # as') = {}"
proof (induction ops arbitrary: b d as outs)
  case Nil
  then show ?case by auto
next
  case (Cons op ops)
  show ?case
  proof (cases op)
    case (BPut e x)
    with Cons.prems obtain b1 where b1: "LpelBufferPut_hrc e b (Some x) = Inr b1"
      and run: "linked_run ops b1 = Inr (outs, b')"
      by (auto simp: bindR_eq_Inr)
    from b1 Cons.prems(1) have "hb_can_put e b"
      using linked.put_only hb_inv_iff by blast
    then obtain n where n: "e = Some n" "entries b n = None"
      by (auto simp: hb_can_put_def split: option.splits)
    with hb_Put [OF Cons.prems(1) n(2), of x] b1
    have "hb_rep b1 d (as @ [n])" "dom (entries b1) = insert n (dom (entries b))" by auto
    moreover have "n \<notin> dom (entries b)" using n by (simp add: domIff)
    ultimately show ?thesis
      using Cons.IH [OF _ _ _ run, of d "as @ [n]"] Cons.prems by auto
  next
    case BGet
    with Cons.prems obtain x b1 outs' where x: "LpelBufferTop_hrc b = Inr (Some x)"
      and b1: "LpelBufferPop_hrc b = Inr b1" and run: "linked_run ops b1 = Inr (outs', b')"
      by (auto simp: bindR_eq_Inr split: option.splits)
    from x Cons.prems(1) obtain a as' where as: "as = a # as'"
      by (cases as) (auto simp: hb_Top hb_items_rep)
    with hb_Pop [of b d a as'] Cons.prems(1) b1
    have "hb_rep b1 a as'" "dom (entries b1) = dom (entries b) - {d}" by auto
    moreover have "d \<notin> set (a # as')" using Cons.prems(1) as by (auto simp: hb_rep_def nlist_def)
    ultimately show ?thesis
      using Cons.IH [OF _ _ _ run, of a as'] Cons.prems as by auto
  qed
qed

text \<open>
  The schedules that the buffer has to serve: \<open>malloc\<close> answers with addresses that are not in use, where \<open>ns\<close> are the nodes of the
  buffer, the dummy first, and nothing is taken from an empty buffer.
\<close>

fun served :: "entry heap \<Rightarrow> addr list \<Rightarrow> ptr buf_op list \<Rightarrow> bool" where
  "served h ns [] = True"
| "served h ns (BPut e x # ops) = (case e of None \<Rightarrow> False | Some n \<Rightarrow> h n = None \<and> n \<notin> set ns \<and> served h (ns @ [n]) ops)"
| "served h ns (BGet # ops) = (2 \<le> length ns \<and> served h (tl ns) ops)"

lemma linked_run_total:
  "hb_rep b d as \<Longrightarrow> dom (entries b) = dom h \<union> set (d # as) \<Longrightarrow> dom h \<inter> set (d # as) = {} \<Longrightarrow>
   isl (linked_run ops b) \<longleftrightarrow> \<not> served h (d # as) ops"
proof (induction ops arbitrary: b d as)
  case (Cons op ops)
  show ?case
  proof (cases op)
    case (BPut e x)
    have inv: "hb_inv b" using Cons.prems(1) hb_inv_iff by blast
    show ?thesis
    proof (cases "hb_can_put e b")
      case True
      then obtain n where n: "e = Some n" "entries b n = None" by (auto simp: hb_can_put_def split: option.splits)
      from hb_Put [OF Cons.prems(1) n(2), of x] obtain b1 where
        b1: "LpelBufferPut_hrc (Some n) b (Some x) = Inr b1" "hb_rep b1 d (as @ [n])" "dom (entries b1) = insert n (dom (entries b))" by blast
      have nn: "h n = None" "n \<notin> set (d # as)" using n(2) Cons.prems(2) by blast+
      have "isl (linked_run ops b1) \<longleftrightarrow> \<not> served h (d # (as @ [n])) ops"
        using b1 Cons.prems(2,3) nn by (intro Cons.IH) auto
      then show ?thesis using BPut n b1(1) nn by (cases "linked_run ops b1") auto
    next
      case False
      then have "\<not> served h (d # as) (op # ops)"
        using BPut Cons.prems(2) by (auto simp: hb_can_put_def split: option.splits)
      moreover have "isl (LpelBufferPut_hrc e b (Some x))"
        using False linked.put_only [OF inv, of e x] by (cases "LpelBufferPut_hrc e b (Some x)") auto
      ultimately show ?thesis using BPut by (cases "LpelBufferPut_hrc e b (Some x)") auto
    qed
  next
    case BGet
    show ?thesis
    proof (cases as)
      case Nil
      then have "LpelBufferTop_hrc b = Inr None" using hb_Top [OF Cons.prems(1)] by (simp add: hb_items_rep [OF Cons.prems(1)])
      then show ?thesis using BGet Nil by simp
    next
      case (Cons a as')
      from hb_Pop [of b d a as'] Cons.prems(1) Cons obtain b1 where
        b1: "LpelBufferPop_hrc b = Inr b1" "hb_rep b1 a as'" "entries b1 = (entries b)(d := None)" by blast
      obtain y where y: "LpelBufferTop_hrc b = Inr (Some y)"
        using hb_Top [OF Cons.prems(1)] Cons by (simp add: hb_items_rep [OF Cons.prems(1)])
      have dd: "d \<notin> set (a # as')" using Cons.prems(1) Cons by (auto simp: hb_rep_def nlist_def)
      have "dom (entries b1) = dom (entries b) - {d}" using b1(3) by simp
      also have "\<dots> = dom h \<union> set (a # as')" using Cons.prems(2,3) Cons dd by auto
      finally have "isl (linked_run ops b1) \<longleftrightarrow> \<not> served h (a # as') ops"
        using Cons.prems(3) Cons by (intro Cons.IH [OF b1(2)]) simp_all
      then show ?thesis using BGet b1(1) y Cons by (cases "linked_run ops b1") auto
    qed
  qed
qed simp

text \<open>
  C18: Linked buffer, functional correctness of every producer/consumer schedule, with its memory. A run of
  \<open>LpelBufferPut\<close> and \<open>LpelBufferTop\<close>/\<open>LpelBufferPop\<close> calls on a buffer fresh from \<open>LpelBufferInit\<close> succeeds exactly
  when \<open>malloc\<close> answers with unused addresses and nothing is taken from an empty buffer. Then the items taken out followed
  by the items still queued are the items put in, in order; \<open>LpelBufferTop\<close> gives the oldest queued item or NULL when there
  is none; the heap holds exactly the dummy node and one node per queued
  item beside what was allocated before (every \<open>LpelBufferPop\<close> frees the old dummy, nothing
  leaks); and the buffer is never full: a further \<open>LpelBufferPut\<close> succeeds for every fresh
  address, a further \<open>LpelBufferPop\<close> whenever an item is queued.
\<close>

theorem linked_buffer_fifo:
  assumes "h a = None"
  shows "case bindR (LpelBufferInit_hrc h (Some a)) (linked_run ops) of
      Inl e \<Rightarrow> \<not> served h [a] ops
    | Inr (outs, b) \<Rightarrow> served h [a] ops \<and> outs @ hb_items b = put_items ops \<and>
        LpelBufferTop_hrc b = Inr (case hb_items b of [] \<Rightarrow> None | x # _ \<Rightarrow> Some x) \<and>
        (\<exists>d. bhead b = Some d \<and> dom (entries b) = dom h \<union> set (d # hb_nodes b) \<and>
           dom h \<inter> set (d # hb_nodes b) = {}) \<and>
        (\<forall>n x. entries b n = None \<longrightarrow> (\<exists>b'. LpelBufferPut_hrc (Some n) b (Some x) = Inr b')) \<and>
        (hb_items b \<noteq> [] \<longrightarrow> (\<exists>b'. LpelBufferPop_hrc b = Inr b' \<and> hb_items b' = tl (hb_items b)))"
proof -
  from hb_Init [of h a] assms obtain b0 where init: "LpelBufferInit_hrc h (Some a) = Inr b0" and rep0: "hb_rep b0 a []"
    and ent: "entries b0 = h(a \<mapsto> \<lparr>edata = None, enext = None\<rparr>)" by auto
  then have inv0: "hb_inv b0" and items0: "hb_items b0 = []"
    by (auto simp: hb_inv_iff hb_items_rep)
  have a: "dom (entries b0) = dom h \<union> set (a # [])" "dom h \<inter> set (a # []) = {}" using assms ent by (auto simp: domIff)
  note total = linked_run_total [OF rep0 a, of ops]
  show ?thesis
  proof (cases "linked_run ops b0")
    case (Inl e)
    then show ?thesis using total init by simp
  next
    case (Inr r)
    then obtain outs b where run: "linked_run ops b0 = Inr (outs, b)" by (cases r) simp
    from linked.run_fifo [OF inv0 run] items0
    have fifo: "hb_inv b" "outs @ hb_items b = put_items ops" by auto
    from linked_run_heap [OF rep0 a run] obtain d as where rep: "hb_rep b d as"
      and heap: "dom (entries b) = dom h \<union> set (d # as)" "dom h \<inter> set (d # as) = {}" by auto
    have "bhead b = Some d" "hb_nodes b = as"
      using rep hb_rep_nodes [OF rep] by (simp_all add: hb_rep_def)
    moreover have "\<exists>b'. LpelBufferPut_hrc (Some n) b (Some x) = Inr b'" if "entries b n = None" for n x
      using linked.put_spec [OF fifo(1), of "Some n" x] that by (auto simp: hb_can_put_def)
    moreover have "\<exists>b'. LpelBufferPop_hrc b = Inr b' \<and> hb_items b' = tl (hb_items b)"
      if "hb_items b \<noteq> []"
      using that linked.pop_spec [OF fifo(1)] by (cases "hb_items b") auto
    ultimately show ?thesis using fifo(2) heap hb_Top [OF rep] total run init by auto
  qed
qed

theorem linked_buffer_fifo_witness:
  "case bindR (LpelBufferInit_hrc Map.empty (Some 1)) (linked_run [BPut (Some 2) 7, BPut (Some 3) 8, BGet, BPut (Some 1) 9]) of
     Inl e \<Rightarrow> False
   | Inr (outs, b) \<Rightarrow> outs = [7] \<and> hb_items b = [8, 9] \<and> LpelBufferTop_hrc b = Inr (Some 8)"
proof -
  let ?ops = "[BPut (Some 2) 7, BPut (Some 3) 8, BGet, BPut (Some 1) 9] :: ptr buf_op list"
  have "served Map.empty [1] ?ops" by simp
  moreover have "case bindR (LpelBufferInit_hrc Map.empty (Some 1)) (linked_run ?ops) of
      Inl e \<Rightarrow> False | Inr (outs, b) \<Rightarrow> outs = [7]"
    by code_simp
  ultimately show ?thesis
    using linked_buffer_fifo [of Map.empty 1 ?ops] by (auto split: sum.splits)
qed

end
