(* ===== verification/Hrc_Store.thy ===== *)
theory Hrc_Store
  imports Hrc_Types Hrc_Buffer Streamset
begin

text \<open>
  The shared memory of the hierarchical scheduler: tasks, streams (\<open>struct lpel_stream_t\<close> of
  \<open>hrc_stream.h\<close>), stream descriptors and the list elements that link a task to its streams,
  each in a heap of its own. The record counters of a stream are 32-bit words; their difference
  is read as a signed number.
\<close>

datatype lpel_stream_type = LPEL_STREAM_ENTRY | LPEL_STREAM_EXIT | LPEL_STREAM_MIDDLE

record hrc_stream_t =
  st_buffer :: buffer_hrc
  st_uid :: "32 word"
  st_is_poll :: int
  st_prod_sd :: ptr
  st_cons_sd :: ptr
  st_n_sem :: int
  st_e_sem :: int
  st_usr_data :: ptr
  st_next :: ptr
  st_type :: lpel_stream_type
  st_read_cnt :: "32 word"
  st_write_cnt :: "32 word"

record hrc_store =
  h_tasks :: hrc_tasks
  h_streams :: "hrc_stream_t heap"
  h_sds :: "lpel_stream_desc_t heap"
  h_elems :: "stream_elem_t heap"

definition upd_task :: "hrc_store \<Rightarrow> ptr \<Rightarrow> (hrc_task_t \<Rightarrow> hrc_task_t) \<Rightarrow> hrc_store res" where
  "upd_task w t f = bindR (upd (h_tasks w) t f) (\<lambda>h. Inr (w\<lparr>h_tasks := h\<rparr>))"

definition upd_stream :: "hrc_store \<Rightarrow> ptr \<Rightarrow> (hrc_stream_t \<Rightarrow> hrc_stream_t) \<Rightarrow> hrc_store res" where
  "upd_stream w s f = bindR (upd (h_streams w) s f) (\<lambda>h. Inr (w\<lparr>h_streams := h\<rparr>))"

definition upd_sd :: "hrc_store \<Rightarrow> ptr \<Rightarrow> (lpel_stream_desc_t \<Rightarrow> lpel_stream_desc_t) \<Rightarrow> hrc_store res" where
  "upd_sd w s f = bindR (upd (h_sds w) s f) (\<lambda>h. Inr (w\<lparr>h_sds := h\<rparr>))"

abbreviation set_state :: "lpel_taskstate_t \<Rightarrow> hrc_task_t \<Rightarrow> hrc_task_t" where
  "set_state st t \<equiv> t\<lparr>ht_state := st\<rparr>"

abbreviation set_prio :: "double \<Rightarrow> hrc_task_t \<Rightarrow> hrc_task_t" where
  "set_prio p t \<equiv> t\<lparr>ht_sched_info := (ht_sched_info t)\<lparr>prior := p\<rparr>\<rparr>"

lemma upd_task_Some [simp, heap_simps]:
  "h_tasks w a = Some c \<Longrightarrow> upd_task w (Some a) f = Inr (w\<lparr>h_tasks := (h_tasks w)(a \<mapsto> f c)\<rparr>)"
  by (simp add: upd_task_def)

lemma upd_stream_Some [simp, heap_simps]:
  "h_streams w a = Some c \<Longrightarrow> upd_stream w (Some a) f = Inr (w\<lparr>h_streams := (h_streams w)(a \<mapsto> f c)\<rparr>)"
  by (simp add: upd_stream_def)

lemma upd_sd_Some [simp, heap_simps]:
  "h_sds w a = Some c \<Longrightarrow> upd_sd w (Some a) f = Inr (w\<lparr>h_sds := (h_sds w)(a \<mapsto> f c)\<rparr>)"
  by (simp add: upd_sd_def)

section \<open>Queries of a stream\<close>

definition LpelStreamFillLevel :: "hrc_store \<Rightarrow> ptr \<Rightarrow> int res" where
  "LpelStreamFillLevel w s =
     (if s = None then Inr 0
      else bindR (deref (h_streams w) s) (\<lambda>c. Inr (sint (st_write_cnt c - st_read_cnt c))))"

definition LpelStreamConsumer :: "hrc_store \<Rightarrow> ptr \<Rightarrow> ptr res" where
  "LpelStreamConsumer w s =
     (if s = None then Inr None
      else bindR (deref (h_streams w) s) (\<lambda>c.
        if st_cons_sd c \<noteq> None then bindR (deref (h_sds w) (st_cons_sd c)) (\<lambda>d. Inr (sd_task d))
        else Inr None))"

definition LpelStreamProducer :: "hrc_store \<Rightarrow> ptr \<Rightarrow> ptr res" where
  "LpelStreamProducer w s =
     (if s = None then Inr None
      else bindR (deref (h_streams w) s) (\<lambda>c.
        if st_prod_sd c \<noteq> None then bindR (deref (h_sds w) (st_prod_sd c)) (\<lambda>d. Inr (sd_task d))
        else Inr None))"

definition LpelStreamGetId :: "hrc_store \<Rightarrow> ptr \<Rightarrow> int res" where
  "LpelStreamGetId w sd =
     (if sd = None then Inr (- 1)
      else bindR (deref (h_sds w) sd) (\<lambda>d.
        if sd_stream d = None then Inr (- 1)
        else bindR (deref (h_streams w) (sd_stream d)) (\<lambda>c. Inr (sint (st_uid c)))))"

text \<open>The counters may wrap: the fill level is right as long as fewer than \<open>2 ^ 31\<close> records wait.\<close>

lemma sint_diff_of_nat:
  assumes "r \<le> w" and "w - r < 2 ^ 31"
  shows "sint (of_nat w - of_nat r :: 32 word) = int (w - r)"
proof -
  have "(of_nat w - of_nat r :: 32 word) = of_nat (w - r)" using assms(1) by (simp add: of_nat_diff)
  moreover have "sint (of_nat (w - r) :: 32 word) = int (w - r)"
    using assms(2) by (simp add: signed_of_nat signed_take_bit_int_eq_self)
  ultimately show ?thesis by simp
qed

end
