(* ===== verification/Hrc_Taskpriority.thy ===== *)
theory Hrc_Taskpriority
  imports Hrc_Types
begin

text \<open>
  \<open>src/sched/hierarchy/taskpriority.c\<close>: the functions that compute the priority of a task from
  the number of records in its input and output streams, -1 standing for an entry or exit task.
  \<open>rnd\<close> is the rounding of one floating-point multiplication or division to a \<open>double\<close>; sums
  of an \<open>int\<close> and 1.0 are exact. \<open>rand\<close> of \<open>priorfunc13\<close> is the argument \<open>r\<close>.
\<close>

section \<open>Model\<close>

definition priorfunc1 :: "(double \<Rightarrow> double) \<Rightarrow> int \<Rightarrow> int \<Rightarrow> double" where
  "priorfunc1 rnd i out = (if i = -1 then 0 else if out = -1 then DBL_MAX
     else rnd ((of_int i + 1) / (of_int out + 1)))"

definition priorfunc2 :: "(double \<Rightarrow> double) \<Rightarrow> int \<Rightarrow> int \<Rightarrow> double" where
  "priorfunc2 rnd i out = (if i = -1 then 0 else if out = -1 then of_int i + 1
     else rnd ((of_int i + 1) / (of_int out + 1)))"

definition priorfunc3 :: "(double \<Rightarrow> double) \<Rightarrow> int \<Rightarrow> int \<Rightarrow> double" where
  "priorfunc3 rnd i out = (if i = -1 then
       (let out' = (if out = -1 then 0 else out) in rnd (1 / (1 + of_int out')))
     else if out = -1 then DBL_MAX
     else rnd ((of_int i + 1) / (of_int out + 1)))"

definition priorfunc4 :: "(double \<Rightarrow> double) \<Rightarrow> int \<Rightarrow> int \<Rightarrow> double" where
  "priorfunc4 rnd i out = (if i = -1 then
       (let out' = (if out = -1 then 0 else out) in rnd (1 / (1 + of_int out')))
     else if out = -1 then of_int i + 1
     else rnd ((of_int i + 1) / (of_int out + 1)))"

definition priorfunc5 :: "(double \<Rightarrow> double) \<Rightarrow> int \<Rightarrow> int \<Rightarrow> double" where
  "priorfunc5 rnd i out = (if i = -1 then 0 else if out = -1 then DBL_MAX
     else rnd (rnd ((of_int i + 1) * (of_int i + 1)) / (of_int out + 1)))"

definition priorfunc6 :: "(double \<Rightarrow> double) \<Rightarrow> int \<Rightarrow> int \<Rightarrow> double" where
  "priorfunc6 rnd i out = (if i = -1 then 0 else if out = -1 then rnd ((of_int i + 1) * (of_int i + 1))
     else rnd (rnd ((of_int i + 1) * (of_int i + 1)) / (of_int out + 1)))"

definition priorfunc7 :: "(double \<Rightarrow> double) \<Rightarrow> int \<Rightarrow> int \<Rightarrow> double" where
  "priorfunc7 rnd i out = (if i = -1 then
       (let out' = (if out = -1 then 0 else out) in rnd (1 / (1 + of_int out')))
     else if out = -1 then DBL_MAX
     else rnd (rnd ((of_int i + 1) * (of_int i + 1)) / (of_int out + 1)))"

definition priorfunc8 :: "(double \<Rightarrow> double) \<Rightarrow> int \<Rightarrow> int \<Rightarrow> double" where
  "priorfunc8 rnd i out = (if i = -1 then
       (let out' = (if out = -1 then 0 else out) in rnd (1 / (1 + of_int out')))
     else if out = -1 then rnd ((of_int i + 1) * (of_int i + 1))
     else rnd (rnd ((of_int i + 1) * (of_int i + 1)) / (of_int out + 1)))"

definition priorfunc9 :: "(double \<Rightarrow> double) \<Rightarrow> int \<Rightarrow> int \<Rightarrow> double" where
  "priorfunc9 rnd i out = (if i = -1 then 0 else if out = -1 then DBL_MAX
     else rnd (rnd ((of_int i + 1) / (of_int out + 1)) / (of_int out + 1)))"

definition priorfunc10 :: "(double \<Rightarrow> double) \<Rightarrow> int \<Rightarrow> int \<Rightarrow> double" where
  "priorfunc10 rnd i out = (if i = -1 then 0 else if out = -1 then of_int i + 1
     else rnd (rnd ((of_int i + 1) / (of_int out + 1)) / (of_int out + 1)))"

definition priorfunc11 :: "(double \<Rightarrow> double) \<Rightarrow> int \<Rightarrow> int \<Rightarrow> double" where
  "priorfunc11 rnd i out = (if i = -1 then
       (let out' = (if out = -1 then 0 else out) in rnd (rnd (1 / (1 + of_int out')) / (of_int out' + 1)))
     else if out = -1 then DBL_MAX
     else rnd (rnd ((of_int i + 1) / (of_int out + 1)) / (of_int out + 1)))"

definition priorfunc12 :: "(double \<Rightarrow> double) \<Rightarrow> int \<Rightarrow> int \<Rightarrow> double" where
  "priorfunc12 rnd i out = (if i = -1 then
       (let out' = (if out = -1 then 0 else out) in rnd (rnd (1 / (1 + of_int out')) / (of_int out' + 1)))
     else if out = -1 then of_int i + 1
     else rnd (rnd ((of_int i + 1) / (of_int out + 1)) / (of_int out + 1)))"

definition priorfunc13 :: "int \<Rightarrow> int \<Rightarrow> int \<Rightarrow> double" where
  "priorfunc13 r i out = of_int r"

definition priorfunc14 :: "int \<Rightarrow> int \<Rightarrow> double" where
  "priorfunc14 i out = of_int ((if i = -1 then 0 else i) - (if out = -1 then 0 else out))"

text \<open>
  \<open>LpelTaskSetPriorityFunc\<close> of \<open>hrc_task.c\<close>: the function selected by number; every number out
  of range selects the default \<open>priorfunc14\<close>.
\<close>

definition LpelTaskSetPriorityFunc :: "(double \<Rightarrow> double) \<Rightarrow> int \<Rightarrow> int \<Rightarrow> (int \<Rightarrow> int \<Rightarrow> double)" where
  "LpelTaskSetPriorityFunc rnd r func =
     (if func = 1 then priorfunc1 rnd
      else if func = 2 then priorfunc2 rnd
      else if func = 3 then priorfunc3 rnd
      else if func = 4 then priorfunc4 rnd
      else if func = 5 then priorfunc5 rnd
      else if func = 6 then priorfunc6 rnd
      else if func = 7 then priorfunc7 rnd
      else if func = 8 then priorfunc8 rnd
      else if func = 9 then priorfunc9 rnd
      else if func = 10 then priorfunc10 rnd
      else if func = 11 then priorfunc11 rnd
      else if func = 12 then priorfunc12 rnd
      else if func = 13 then priorfunc13 r
      else if func = 14 then priorfunc14
      else priorfunc14)"

section \<open>Monotonicity\<close>

text \<open>A rounding keeps the order and the value 0, as every IEEE 754 rounding mode does.\<close>

definition rounding :: "(double \<Rightarrow> double) \<Rightarrow> bool" where
  "rounding rnd \<longleftrightarrow> mono rnd \<and> rnd 0 = 0"

lemma rounding_trunc: "rounding (\<lambda>x. of_int \<lfloor>1024 * x\<rfloor> / 1024)"
  by (auto simp: rounding_def mono_def divide_right_mono floor_mono)

lemma rounding_mono: "rounding rnd \<Longrightarrow> x \<le> y \<Longrightarrow> rnd x \<le> rnd y"
  by (simp add: rounding_def monoD)

lemma rounding_nonneg: "rounding rnd \<Longrightarrow> 0 \<le> x \<Longrightarrow> 0 \<le> rnd x"
  using rounding_mono [of rnd 0 x] by (simp add: rounding_def)

lemma quot_mono:
  fixes a a' b b' :: real
  assumes "0 \<le> a" "a \<le> a'" "1 \<le> b'" "b' \<le> b"
  shows "a / b \<le> a' / b'"
  using assms by (intro frac_le) auto

text \<open>The three shapes of the formula for a middle task.\<close>

lemma middle_shapes:
  fixes i i' out out' :: int
  assumes "rounding rnd" and "0 \<le> i" "i \<le> i'" "0 \<le> out'" "out' \<le> out"
  shows "rnd ((of_int i + 1) / (of_int out + 1)) \<le> rnd ((of_int i' + 1) / (of_int out' + 1))"
    "rnd (rnd ((of_int i + 1) * (of_int i + 1)) / (of_int out + 1)) \<le>
       rnd (rnd ((of_int i' + 1) * (of_int i' + 1)) / (of_int out' + 1))"
    "rnd (rnd ((of_int i + 1) / (of_int out + 1)) / (of_int out + 1)) \<le>
       rnd (rnd ((of_int i' + 1) / (of_int out' + 1)) / (of_int out' + 1))"
proof -
  have r: "(of_int i :: real) + 1 \<le> of_int i' + 1" "(0::real) \<le> of_int i + 1" "(1::real) \<le> of_int out' + 1"
    "(of_int out' :: real) + 1 \<le> of_int out + 1" using assms by auto
  have q: "(of_int i + 1) / (of_int out + 1) \<le> ((of_int i' + 1) / (of_int out' + 1) :: real)"
    using r by (intro quot_mono)
  show 1: "rnd ((of_int i + 1) / (of_int out + 1)) \<le> rnd ((of_int i' + 1) / (of_int out' + 1))"
    by (rule rounding_mono [OF assms(1) q])
  have sq: "((of_int i :: real) + 1) * (of_int i + 1) \<le> (of_int i' + 1) * (of_int i' + 1)"
    using r by (intro mult_mono) auto
  have nn: "0 \<le> rnd ((of_int i + 1) * (of_int i + 1))" "0 \<le> rnd ((of_int i + 1) / (of_int out + 1))"
    using r by (intro rounding_nonneg [OF assms(1)]; simp)+
  show "rnd (rnd ((of_int i + 1) * (of_int i + 1)) / (of_int out + 1)) \<le>
       rnd (rnd ((of_int i' + 1) * (of_int i' + 1)) / (of_int out' + 1))"
    by (rule rounding_mono [OF assms(1) quot_mono [OF nn(1) rounding_mono [OF assms(1) sq] r(3,4)]])
  show "rnd (rnd ((of_int i + 1) / (of_int out + 1)) / (of_int out + 1)) \<le>
       rnd (rnd ((of_int i' + 1) / (of_int out' + 1)) / (of_int out' + 1))"
    by (rule rounding_mono [OF assms(1) quot_mono [OF nn(2) 1 r(3,4)]])
qed

lemmas priorfunc_defs = priorfunc1_def priorfunc2_def priorfunc3_def priorfunc4_def priorfunc5_def
  priorfunc6_def priorfunc7_def priorfunc8_def priorfunc9_def priorfunc10_def priorfunc11_def
  priorfunc12_def priorfunc14_def

section \<open>Properties\<close>

text \<open>
  C23: With every priority function but the random one, a task between streams gets no lower
  priority when more records wait in its input streams or fewer in its output streams, whatever
  monotone rounding the floating-point unit uses.
\<close>

theorem priority_monotone:
  assumes "rounding rnd" and "func \<noteq> 13" and "0 \<le> i" "i \<le> i'" "0 \<le> out'" "out' \<le> out"
  shows "LpelTaskSetPriorityFunc rnd r func i out \<le> LpelTaskSetPriorityFunc rnd r func i' out'"
  using assms middle_shapes [OF assms(1,3-6)]
  by (simp add: LpelTaskSetPriorityFunc_def priorfunc_defs)

theorem priority_monotone_witness:
  "LpelTaskSetPriorityFunc (\<lambda>x. of_int \<lfloor>1024 * x\<rfloor> / 1024) 0 5 2 3 \<le>
   LpelTaskSetPriorityFunc (\<lambda>x. of_int \<lfloor>1024 * x\<rfloor> / 1024) 0 5 4 1"
  using priority_monotone [OF rounding_trunc, of 5 2 4 1 3] by simp

end
