(* ===== verification/Hrc_Task.thy ===== *)
theory Hrc_Task
  imports Hrc_Store Hrc_Taskpriority
begin

text \<open>
  \<open>src/sched/hierarchy/hrc_task.c\<close>: tasks of the hierarchical scheduler, the lists of streams a
  task reads and writes, and the priority computed from their fill levels. A context switch away
  from a task is an argument \<open>switch\<close>: the function from the store when the task leaves its
  worker to the store when it is dispatched again. Monitoring callbacks are off.
\<close>

section \<open>Creation and destruction\<close>

definition LPEL_TASK_SIZE_DEFAULT :: int where "LPEL_TASK_SIZE_DEFAULT = 8192"
definition TASK_MINSIZE :: int where "TASK_MINSIZE = 4096"

text \<open>
  \<open>is_master\<close> is the answer of \<open>SCCIsMaster\<close>, \<open>new\<close> that of \<open>valloc\<close>, \<open>wrapper\<close> the context
  made by \<open>LpelCreateWrapperContext\<close>; \<open>seq\<close> is the counter \<open>taskseq\<close>. The source does not assign
  \<open>wakeup_sd\<close>, \<open>outarg\<close> and \<open>dynamic\<close> here; they are written before they are read and start as \<open>NULL\<close>
  and \<open>0\<close>.
\<close>

definition LpelTaskCreate :: "bool \<Rightarrow> hrc_store \<Rightarrow> 32 word \<Rightarrow> ptr \<Rightarrow> ptr \<Rightarrow> int \<Rightarrow> ptr \<Rightarrow> ptr \<Rightarrow> int \<Rightarrow>
    (ptr \<times> hrc_store \<times> 32 word) res" where
  "LpelTaskCreate is_master w seq new wrapper mapto func inarg sz =
     (if \<not> is_master then Inr (None, w, seq)
      else let sz = (if sz \<le> 0 then LPEL_TASK_SIZE_DEFAULT else sz) in
        bindR (assertR (sz \<ge> TASK_MINSIZE)) (\<lambda>_.
        bindR (alloc_at (h_tasks w) new
          \<lparr>ht_prev = None, ht_next = None, ht_uid = seq, ht_state = TASK_CREATED, ht_wakenup = 0,
           ht_worker_context = (if mapto \<noteq> LPEL_MAP_MASTER then wrapper else None),
           ht_wakeup_sd = None, ht_poll_token = 0, ht_mon = None, ht_size = sz, ht_func = func,
           ht_inarg = inarg, ht_outarg = None, ht_dynamic = 0,
           ht_sched_info = \<lparr>rec_cnt = 0, rec_limit_factor = - 1, rec_limit = 0, prior = 0,
             in_streams = None, out_streams = None\<rparr>\<rparr>) (\<lambda>h.
          Inr (new, w\<lparr>h_tasks := h\<rparr>, seq + 1))))"

definition LpelTaskDestroy :: "hrc_store \<Rightarrow> ptr \<Rightarrow> hrc_store res" where
  "LpelTaskDestroy w t =
     bindR (deref (h_tasks w) t) (\<lambda>c.
     bindR (assertR (ht_state c = TASK_ZOMBIE)) (\<lambda>_.
     bindR (assertR (in_streams (ht_sched_info c) = None)) (\<lambda>_.
     bindR (assertR (out_streams (ht_sched_info c) = None)) (\<lambda>_.
     bindR (free_at (h_tasks w) t) (\<lambda>h. Inr (w\<lparr>h_tasks := h\<rparr>))))))"

section \<open>Running, yielding and blocking\<close>

definition TaskStart :: "hrc_store \<Rightarrow> ptr \<Rightarrow> hrc_store res" where
  "TaskStart w t =
     bindR (deref (h_tasks w) t) (\<lambda>c.
     bindR (assertR (ht_state c = TASK_READY)) (\<lambda>_.
       upd_task w t (\<lambda>c. c\<lparr>ht_sched_info := (ht_sched_info c)\<lparr>rec_cnt := 0\<rparr>, ht_state := TASK_RUNNING\<rparr>)))"

definition LpelTaskYield :: "(hrc_store \<Rightarrow> ptr \<Rightarrow> hrc_store res) \<Rightarrow> hrc_store \<Rightarrow> ptr \<Rightarrow> hrc_store res" where
  "LpelTaskYield switch w ct =
     bindR (deref (h_tasks w) ct) (\<lambda>c.
     bindR (assertR (ht_state c = TASK_RUNNING)) (\<lambda>_.
     bindR (upd_task w ct (set_state TASK_READY)) (\<lambda>w1.
     bindR (switch w1 ct) (\<lambda>w2. TaskStart w2 ct))))"

definition LpelTaskBlockStream :: "(hrc_store \<Rightarrow> ptr \<Rightarrow> hrc_store res) \<Rightarrow> hrc_store \<Rightarrow> ptr \<Rightarrow> hrc_store res" where
  "LpelTaskBlockStream switch w t =
     bindR (deref (h_tasks w) t) (\<lambda>c.
     bindR (assertR (ht_state c = TASK_RUNNING)) (\<lambda>_.
     bindR (upd_task w t (set_state TASK_BLOCKED)) (\<lambda>w1.
     bindR (switch w1 t) (\<lambda>w2. TaskStart w2 t))))"

definition LpelTaskCheckYield :: "(hrc_store \<Rightarrow> ptr \<Rightarrow> hrc_store res) \<Rightarrow> hrc_store \<Rightarrow> ptr \<Rightarrow> hrc_store res" where
  "LpelTaskCheckYield switch w t =
     bindR (deref (h_tasks w) t) (\<lambda>c.
     bindR (assertR (ht_state c = TASK_RUNNING)) (\<lambda>_.
       if rec_limit (ht_sched_info c) < 0 then Inr w
       else bindR (if rec_cnt (ht_sched_info c) = rec_limit (ht_sched_info c) then
                     bindR (upd_task w t (set_state TASK_READY)) (\<lambda>w1.
                     bindR (switch w1 t) (\<lambda>w2. TaskStart w2 t))
                   else Inr w) (\<lambda>w3.
              upd_task w3 t (\<lambda>c. c\<lparr>ht_sched_info := (ht_sched_info c)\<lparr>rec_cnt := rec_cnt (ht_sched_info c) + 1\<rparr>\<rparr>))))"

definition LpelTaskSetRecLimit :: "hrc_store \<Rightarrow> ptr \<Rightarrow> int \<Rightarrow> hrc_store res" where
  "LpelTaskSetRecLimit w t l =
     upd_task w t (\<lambda>c. c\<lparr>ht_sched_info := (ht_sched_info c)\<lparr>rec_limit_factor := l\<rparr>\<rparr>)"

definition LpelTaskSetPrior :: "hrc_store \<Rightarrow> ptr \<Rightarrow> double \<Rightarrow> hrc_store res" where
  "LpelTaskSetPrior w t p = upd_task w t (set_prio p)"

section \<open>The streams of a task\<close>

text \<open>The list of a task selected by the mode, and its update; any other mode is undefined.\<close>

definition get_list :: "hrc_task_t \<Rightarrow> char \<Rightarrow> ptr" where
  "get_list c mode = (if mode = CHR ''r'' then in_streams (ht_sched_info c) else out_streams (ht_sched_info c))"

definition set_list :: "char \<Rightarrow> ptr \<Rightarrow> hrc_task_t \<Rightarrow> hrc_task_t" where
  "set_list mode p c = c\<lparr>ht_sched_info := (if mode = CHR ''r'' then (ht_sched_info c)\<lparr>in_streams := p\<rparr>
     else (ht_sched_info c)\<lparr>out_streams := p\<rparr>)\<rparr>"

definition add_limit :: "char \<Rightarrow> int \<Rightarrow> hrc_task_t \<Rightarrow> hrc_task_t" where
  "add_limit mode k c = (if mode = CHR ''w'' then
     c\<lparr>ht_sched_info := (ht_sched_info c)\<lparr>rec_limit := rec_limit (ht_sched_info c) +
        k * rec_limit_factor (ht_sched_info c)\<rparr>\<rparr> else c)"

definition LpelTaskAddStream :: "hrc_store \<Rightarrow> ptr \<Rightarrow> ptr \<Rightarrow> ptr \<Rightarrow> char \<Rightarrow> hrc_store res" where
  "LpelTaskAddStream w new t des mode =
     (if mode \<noteq> CHR ''r'' \<and> mode \<noteq> CHR ''w'' then Inl Indeterminate
      else bindR (upd_task w t (add_limit mode 1)) (\<lambda>w1.
        bindR (deref (h_tasks w1) t) (\<lambda>c.
        let head = get_list c mode in
        bindR (alloc_at (h_elems w1) new \<lparr>se_stream_desc = des, se_next = (if head \<noteq> None then head else None)\<rparr>) (\<lambda>he.
          upd_task (w1\<lparr>h_elems := he\<rparr>) t (set_list mode new)))))"

partial_function (option) find_elem ::
  "stream_elem_t heap \<Rightarrow> ptr \<Rightarrow> ptr \<Rightarrow> ptr \<Rightarrow> ((ptr \<times> ptr) res) option" where
  "find_elem h des prev head =
     (if head = None then Some (Inr (prev, head))
      else (case deref h head of Inl e \<Rightarrow> Some (Inl e)
        | Inr e \<Rightarrow> if se_stream_desc e = des then Some (Inr (prev, head))
                  else find_elem h des head (se_next e)))"

definition LpelTaskRemoveStream :: "hrc_store \<Rightarrow> ptr \<Rightarrow> ptr \<Rightarrow> char \<Rightarrow> (hrc_store res) option" where
  "LpelTaskRemoveStream w t des mode =
     (if mode \<noteq> CHR ''r'' \<and> mode \<noteq> CHR ''w'' then Some (Inl Indeterminate)
      else (case bindR (upd_task w t (add_limit mode (- 1))) (\<lambda>w1. bindR (deref (h_tasks w1) t) (\<lambda>c. Inr (w1, c))) of
        Inl e \<Rightarrow> Some (Inl e)
      | Inr (w1, c) \<Rightarrow>
          map_option (\<lambda>r. bindR r (\<lambda>(prev, head).
            bindR (assertR (head \<noteq> None)) (\<lambda>_.
            bindR (deref (h_elems w1) head) (\<lambda>e.
            bindR (if prev = None then upd_task w1 t (set_list mode (se_next e))
                   else bindR (upd (h_elems w1) prev (\<lambda>p. p\<lparr>se_next := se_next e\<rparr>)) (\<lambda>he.
                     Inr (w1\<lparr>h_elems := he\<rparr>))) (\<lambda>w2.
            bindR (free_at (h_elems w2) head) (\<lambda>he. Inr (w2\<lparr>h_elems := he\<rparr>)))))))
            (find_elem (h_elems w1) des None (get_list c mode))))"

text \<open>The loop of \<open>countRec\<close> with its two accumulators.\<close>

partial_function (option) count_loop ::
  "hrc_store \<Rightarrow> char \<Rightarrow> ptr \<Rightarrow> int \<Rightarrow> bool \<Rightarrow> ((int \<times> bool) res) option" where
  "count_loop w inout list cnt flag =
     (if list = None then Some (Inr (cnt, flag))
      else (case bindR (deref (h_elems w) list) (\<lambda>e. bindR (deref (h_sds w) (se_stream_desc e)) (\<lambda>d.
                   if sd_stream d = None then Inr (cnt, flag, se_next e)
                   else bindR (deref (h_streams w) (sd_stream d)) (\<lambda>s.
                     if (inout = CHR ''i'' \<and> st_type s = LPEL_STREAM_ENTRY) \<or>
                        (inout = CHR ''o'' \<and> st_type s = LPEL_STREAM_EXIT)
                     then Inr (cnt, True, se_next e)
                     else bindR (LpelStreamFillLevel w (sd_stream d)) (\<lambda>n. Inr (cnt + n, flag, se_next e))))) of
              Inl e \<Rightarrow> Some (Inl e)
            | Inr (cnt', flag', next) \<Rightarrow> count_loop w inout next cnt' flag'))"

definition countRec :: "hrc_store \<Rightarrow> ptr \<Rightarrow> char \<Rightarrow> (int res) option" where
  "countRec w list inout =
     (if list = None then Some (Inr (- 1))
      else map_option (\<lambda>r. bindR r (\<lambda>(cnt, flag). Inr (if flag \<and> cnt = 0 then - 1 else cnt)))
        (count_loop w inout list 0 False))"

definition LpelTaskCalPriority :: "int \<Rightarrow> (int \<Rightarrow> int \<Rightarrow> double) \<Rightarrow> hrc_store \<Rightarrow> ptr \<Rightarrow> (double res) option" where
  "LpelTaskCalPriority neg_demand_lim prior_cal w t =
     (case deref (h_tasks w) t of Inl e \<Rightarrow> Some (Inl e)
      | Inr c \<Rightarrow>
          (case countRec w (in_streams (ht_sched_info c)) (CHR ''i'') of None \<Rightarrow> None
           | Some (Inl e) \<Rightarrow> Some (Inl e)
           | Some (Inr i) \<Rightarrow>
               (case countRec w (out_streams (ht_sched_info c)) (CHR ''o'') of None \<Rightarrow> None
                | Some (Inl e) \<Rightarrow> Some (Inl e)
                | Some (Inr out) \<Rightarrow>
                    Some (Inr (if i = - 1 \<and> out > neg_demand_lim \<and> neg_demand_lim > 0 then LPEL_DBL_MIN
                               else prior_cal i out)))))"

definition LpelTaskGetWorkerId :: "int heap \<Rightarrow> hrc_store \<Rightarrow> ptr \<Rightarrow> int res" where
  "LpelTaskGetWorkerId wids w t =
     bindR (deref (h_tasks w) t) (\<lambda>c.
       if ht_worker_context c \<noteq> None then deref wids (ht_worker_context c) else Inr (- 1))"

definition LpelTaskIsWrapper :: "int heap \<Rightarrow> hrc_store \<Rightarrow> ptr \<Rightarrow> bool res" where
  "LpelTaskIsWrapper wids w t =
     bindR (deref (h_tasks w) t) (\<lambda>c. bindR (deref wids (ht_worker_context c)) (\<lambda>i. Inr (i = - 1)))"

section \<open>The stream lists of a task as lists of descriptors\<close>

definition elem_desc :: "hrc_store \<Rightarrow> addr \<Rightarrow> ptr" where
  "elem_desc w a = se_stream_desc (the (h_elems w a))"

definition el_rep :: "hrc_store \<Rightarrow> ptr \<Rightarrow> addr list \<Rightarrow> bool" where
  "el_rep w p es \<longleftrightarrow> nlist (fld se_next (h_elems w)) p es \<and> set es \<subseteq> dom (h_elems w)"

definition task_elems :: "hrc_store \<Rightarrow> addr \<Rightarrow> char \<Rightarrow> addr list \<Rightarrow> bool" where
  "task_elems w t mode es \<longleftrightarrow> (\<exists>c. h_tasks w t = Some c \<and> el_rep w (get_list c mode) es)"

lemma get_set_list [simp]: "get_list (set_list mode p c) mode = p"
  by (simp add: get_list_def set_list_def)

lemma get_add_limit [simp]: "get_list (add_limit mode' k c) mode = get_list c mode"
  by (simp add: get_list_def add_limit_def)

lemma add_limit_inverse: "add_limit mode (- 1) (set_list mode p (add_limit mode 1 c)) = set_list mode p c"
  by (simp add: add_limit_def set_list_def)

lemma set_list_twice: "set_list mode (get_list c mode) (set_list mode p c) = c"
  by (simp add: set_list_def get_list_def)

lemma AddStream_ok:
  assumes "h_tasks w t = Some c" and "el_rep w (get_list c mode) es" and "h_elems w new = None"
    and "mode \<in> {CHR ''r'', CHR ''w''}"
  shows "LpelTaskAddStream w (Some new) (Some t) des mode =
      Inr (w\<lparr>h_elems := (h_elems w)(new \<mapsto> \<lparr>se_stream_desc = des, se_next = get_list c mode\<rparr>),
             h_tasks := (h_tasks w)(t \<mapsto> set_list mode (Some new) (add_limit mode 1 c))\<rparr>)"
    and "el_rep (w\<lparr>h_elems := (h_elems w)(new \<mapsto> \<lparr>se_stream_desc = des, se_next = get_list c mode\<rparr>)\<rparr>) (Some new) (new # es)"
proof -
  show "LpelTaskAddStream w (Some new) (Some t) des mode =
      Inr (w\<lparr>h_elems := (h_elems w)(new \<mapsto> \<lparr>se_stream_desc = des, se_next = get_list c mode\<rparr>),
             h_tasks := (h_tasks w)(t \<mapsto> set_list mode (Some new) (add_limit mode 1 c))\<rparr>)"
    using assms by (auto simp: LpelTaskAddStream_def Let_def)
  have "new \<notin> set es" using assms(2,3) by (auto simp: el_rep_def)
  then show "el_rep (w\<lparr>h_elems := (h_elems w)(new \<mapsto> \<lparr>se_stream_desc = des, se_next = get_list c mode\<rparr>)\<rparr>)
      (Some new) (new # es)"
    using assms(2) by (auto simp: el_rep_def nlist_Cons nlist_upd)
qed

lemma find_elem_found:
  assumes "nlist (fld se_next h) p (us @ a # vs)" and "set (us @ [a]) \<subseteq> dom h"
    and "se_stream_desc (the (h a)) = des" and "\<And>u. u \<in> set us \<Longrightarrow> se_stream_desc (the (h u)) \<noteq> des"
  shows "find_elem h des prev p = Some (Inr (if us = [] then prev else Some (last us), Some a))"
  using assms
proof (induction us arbitrary: p prev)
  case Nil
  then obtain c where "h a = Some c" by auto
  with Nil show ?case by (subst find_elem.simps) (auto simp: nlist_Cons)
next
  case (Cons u us)
  from Cons.prems(2) obtain c where c: "h u = Some c" by auto
  have "find_elem h des (Some u) (se_next c) = Some (Inr (if us = [] then Some u else Some (last us), Some a))"
    using Cons.prems c by (intro Cons.IH) (auto simp: nlist_Cons)
  moreover have "p = Some u" using Cons.prems(1) by (auto simp: nlist_Cons)
  ultimately show ?case using c Cons.prems(4) [of u] by (subst find_elem.simps) auto
qed

lemma find_elem_missing:
  assumes "nlist (fld se_next h) p es" and "set es \<subseteq> dom h" and "\<And>u. u \<in> set es \<Longrightarrow> se_stream_desc (the (h u)) \<noteq> des"
  shows "\<exists>q. find_elem h des prev p = Some (Inr (q, None))"
  using assms
proof (induction es arbitrary: p prev)
  case Nil
  then show ?case by (subst find_elem.simps) auto
next
  case (Cons u us)
  from Cons.prems(2) obtain c where c: "h u = Some c" by auto
  have "\<exists>q. find_elem h des (Some u) (se_next c) = Some (Inr (q, None))"
    using Cons.prems c by (intro Cons.IH) (auto simp: nlist_Cons)
  moreover have "p = Some u" using Cons.prems(1) by (auto simp: nlist_Cons)
  ultimately show ?case using c Cons.prems(3) [of u] by (subst find_elem.simps) auto
qed

lemma nlist_unlink:
  assumes "nlist nx p (us @ a # vs)"
  shows "if us = [] then p = Some a \<and> nlist nx (nx a) vs else nlist (nx(last us := nx a)) p (us @ vs)"
proof (cases us rule: rev_cases)
  case Nil
  with assms show ?thesis by (simp add: nlist_Cons)
next
  case (snoc ys l)
  with assms show ?thesis by (auto simp: nlist_def)
qed

lemma RemoveStream_ok:
  assumes c: "h_tasks w t = Some c" and rep: "el_rep w (get_list c mode) (us @ a # vs)"
    and mode: "mode \<in> {CHR ''r'', CHR ''w''}"
    and des: "elem_desc w a = des" "\<And>u. u \<in> set us \<Longrightarrow> elem_desc w u \<noteq> des"
  shows "\<exists>w' c'. LpelTaskRemoveStream w (Some t) des mode = Some (Inr w') \<and> h_tasks w' = (h_tasks w)(t \<mapsto> c') \<and>
    el_rep w' (get_list c' mode) (us @ vs) \<and> h_elems w' a = None \<and>
    (\<forall>b. b \<noteq> a \<longrightarrow> map_option se_stream_desc (h_elems w' b) = map_option se_stream_desc (h_elems w b)) \<and>
    set_list mode (get_list c mode) c' = add_limit mode (- 1) c"
proof -
  let ?c = "add_limit mode (- 1) c" and ?w = "w\<lparr>h_tasks := (h_tasks w)(t \<mapsto> add_limit mode (- 1) c)\<rparr>"
  from rep have n: "nlist (fld se_next (h_elems w)) (get_list c mode) (us @ a # vs)" and
    d: "set (us @ a # vs) \<subseteq> dom (h_elems w)" and dist: "distinct (us @ a # vs)"
    by (auto simp: el_rep_def nlist_def)
  obtain e where e: "h_elems w a = Some e" using d by auto
  have f: "find_elem (h_elems ?w) des None (get_list ?c mode) =
      Some (Inr (if us = [] then None else Some (last us), Some a))"
    using find_elem_found [OF n, of des None] d des by (auto simp: elem_desc_def)
  show ?thesis
  proof (cases us rule: rev_cases)
    case Nil
    let ?c' = "set_list mode (se_next e) ?c"
    have "LpelTaskRemoveStream w (Some t) des mode =
        Some (Inr (?w\<lparr>h_tasks := (h_tasks w)(t \<mapsto> ?c'), h_elems := (h_elems w)(a := None)\<rparr>))"
      using mode c e f Nil by (auto simp: LpelTaskRemoveStream_def)
    moreover have "nlist (fld se_next ((h_elems w)(a := None))) (se_next e) vs"
      using n Nil e dist by (simp add: nlist_Cons nlist_upd)
    moreover have "set_list mode (get_list c mode) ?c' = ?c"
      using set_list_twice [of mode ?c "se_next e"] by simp
    ultimately show ?thesis using Nil d dist
      by (intro exI [of _ "?w\<lparr>h_tasks := (h_tasks w)(t \<mapsto> ?c'), h_elems := (h_elems w)(a := None)\<rparr>"] exI [of _ ?c'])
         (auto simp: el_rep_def)
  next
    case (snoc ys l)
    obtain cl where cl: "h_elems w l = Some cl" using d snoc by auto
    have la: "l \<noteq> a" using dist snoc by auto
    let ?h = "(h_elems w)(l \<mapsto> cl\<lparr>se_next := se_next e\<rparr>, a := None)"
    have "LpelTaskRemoveStream w (Some t) des mode = Some (Inr (?w\<lparr>h_elems := ?h\<rparr>))"
      using mode c e f snoc cl la by (auto simp: LpelTaskRemoveStream_def)
    moreover have "nlist (fld se_next ?h) (get_list c mode) (us @ vs)"
      using nlist_unlink [OF n] snoc e cl la dist by (simp add: nlist_upd)
    moreover have "set_list mode (get_list c mode) ?c = ?c"
      by (simp add: set_list_def get_list_def add_limit_def)
    ultimately show ?thesis using snoc d dist cl la
      by (intro exI [of _ "?w\<lparr>h_elems := ?h\<rparr>"] exI [of _ ?c]) (auto simp: el_rep_def)
  qed
qed

section \<open>Counting records\<close>

text \<open>The streams listed by the elements \<open>es\<close> must exist; a closed stream is \<open>NULL\<close>.\<close>

definition elems_ok :: "hrc_store \<Rightarrow> addr list \<Rightarrow> bool" where
  "elems_ok w es \<longleftrightarrow> (\<forall>a \<in> set es. \<exists>d sd. elem_desc w a = Some d \<and> h_sds w d = Some sd \<and>
     (\<forall>s. sd_stream sd = Some s \<longrightarrow> s \<in> dom (h_streams w)))"

definition stream_of :: "hrc_store \<Rightarrow> addr \<Rightarrow> ptr" where
  "stream_of w a = sd_stream (the (h_sds w (the (elem_desc w a))))"

definition fill :: "hrc_store \<Rightarrow> addr \<Rightarrow> int" where
  "fill w s = sint (st_write_cnt (the (h_streams w s)) - st_read_cnt (the (h_streams w s)))"

definition excluded :: "hrc_store \<Rightarrow> char \<Rightarrow> addr \<Rightarrow> bool" where
  "excluded w inout s \<longleftrightarrow> (inout = CHR ''i'' \<and> st_type (the (h_streams w s)) = LPEL_STREAM_ENTRY) \<or>
     (inout = CHR ''o'' \<and> st_type (the (h_streams w s)) = LPEL_STREAM_EXIT)"

definition open_streams :: "hrc_store \<Rightarrow> addr list \<Rightarrow> addr list" where
  "open_streams w es = List.map_filter (stream_of w) es"

definition count_spec :: "hrc_store \<Rightarrow> char \<Rightarrow> addr list \<Rightarrow> int" where
  "count_spec w inout es =
     (let ss = open_streams w es; n = sum_list (map (fill w) (filter (\<lambda>s. \<not> excluded w inout s) ss))
      in if es = [] \<or> (\<exists>s \<in> set ss. excluded w inout s) \<and> n = 0 then - 1 else n)"

lemma count_loop_ok:
  assumes "nlist (fld se_next (h_elems w)) p es" and "set es \<subseteq> dom (h_elems w)" and "elems_ok w es"
  shows "count_loop w inout p cnt flag = Some (Inr
     (cnt + sum_list (map (fill w) (filter (\<lambda>s. \<not> excluded w inout s) (open_streams w es))),
      flag \<or> (\<exists>s \<in> set (open_streams w es). excluded w inout s)))"
  using assms
proof (induction es arbitrary: p cnt flag)
  case Nil
  then show ?case by (subst count_loop.simps) (simp add: open_streams_def map_filter_simps)
next
  case (Cons a es)
  from Cons.prems(2) obtain e where e: "h_elems w a = Some e" by auto
  from Cons.prems(3) e obtain d sd where d: "se_stream_desc e = Some d" "h_sds w d = Some sd"
    "\<forall>s. sd_stream sd = Some s \<longrightarrow> s \<in> dom (h_streams w)" by (auto simp: elems_ok_def elem_desc_def)
  have p: "p = Some a" using Cons.prems(1) by (simp add: nlist_Cons)
  have so: "stream_of w a = sd_stream sd" using e d by (simp add: stream_of_def elem_desc_def)
  have IH: "\<And>cnt flag. count_loop w inout (se_next e) cnt flag = Some (Inr
     (cnt + sum_list (map (fill w) (filter (\<lambda>s. \<not> excluded w inout s) (open_streams w es))),
      flag \<or> (\<exists>s \<in> set (open_streams w es). excluded w inout s)))"
    using Cons.prems e by (intro Cons.IH) (auto simp: nlist_Cons elems_ok_def)
  show ?case
  proof (cases "sd_stream sd")
    case None
    then show ?thesis using p e d so IH
      by (subst count_loop.simps) (simp add: open_streams_def map_filter_simps)
  next
    case (Some s)
    with d(3) obtain c where c: "h_streams w s = Some c" by auto
    show ?thesis using p e d(1,2) so Some c IH
      by (subst count_loop.simps)
         (auto simp: open_streams_def map_filter_simps LpelStreamFillLevel_def excluded_def fill_def)
  qed
qed

lemma countRec_ok:
  assumes "el_rep w p es" and "elems_ok w es"
  shows "countRec w p inout = Some (Inr (count_spec w inout es))"
proof (cases es)
  case Nil
  then show ?thesis using assms by (simp add: el_rep_def countRec_def count_spec_def)
next
  case (Cons a as)
  then have "p = Some a" using assms(1) by (simp add: el_rep_def nlist_Cons)
  then show ?thesis using assms count_loop_ok [of w p es inout 0 False] Cons
    by (simp add: el_rep_def countRec_def count_spec_def Let_def)
qed

definition task_wf :: "hrc_store \<Rightarrow> addr \<Rightarrow> bool" where
  "task_wf w t \<longleftrightarrow> (\<exists>c ins outs. h_tasks w t = Some c \<and> el_rep w (in_streams (ht_sched_info c)) ins \<and>
     el_rep w (out_streams (ht_sched_info c)) outs \<and> elems_ok w ins \<and> elems_ok w outs)"

lemma CalPriority_ok:
  assumes "h_tasks w t = Some c" and "el_rep w (in_streams (ht_sched_info c)) ins" and "elems_ok w ins"
    and "el_rep w (out_streams (ht_sched_info c)) outs" and "elems_ok w outs"
  shows "LpelTaskCalPriority neg cal w (Some t) = Some (Inr
     (let i = count_spec w CHR ''i'' ins; out = count_spec w CHR ''o'' outs
      in if i = - 1 \<and> out > neg \<and> neg > 0 then LPEL_DBL_MIN else cal i out))"
  using assms countRec_ok [OF assms(2,3)] countRec_ok [OF assms(4,5)]
  by (simp add: LpelTaskCalPriority_def Let_def)

lemma CalPriority_total:
  assumes "task_wf w t"
  shows "\<exists>p. LpelTaskCalPriority neg cal w (Some t) = Some (Inr p)"
  using assms CalPriority_ok unfolding task_wf_def by blast

section \<open>Properties\<close>

text \<open>
  Opening a stream puts its descriptor in front of the task's list of input or output streams;
  removing a descriptor takes exactly its first occurrence out of the list, frees the list element
  and undoes the change of the record limit that adding it made; removing one that is not in the
  list fails the assertion.
\<close>

theorem task_add_remove_stream:
  assumes "h_tasks w t = Some c" and "el_rep w (get_list c mode) es" and "mode \<in> {CHR ''r'', CHR ''w''}"
    and "h_elems w new = None"
  shows "\<exists>w1. LpelTaskAddStream w (Some new) (Some t) des mode = Inr w1 \<and>
      task_elems w1 t mode (new # es) \<and> elem_desc w1 new = des \<and>
      (\<exists>w2. LpelTaskRemoveStream w1 (Some t) des mode = Some (Inr w2) \<and> h_tasks w2 = h_tasks w \<and>
         task_elems w2 t mode es \<and> dom (h_elems w2) = dom (h_elems w)) \<and>
      (\<forall>des'. des' \<notin> elem_desc w ` set es \<longrightarrow> LpelTaskRemoveStream w (Some t) des' mode = Some (Inl AssertFail))"
proof -
  note add = AddStream_ok [OF assms(1,2,4,3), of des]
  define w1 where "w1 = w\<lparr>h_elems := (h_elems w)(new \<mapsto> \<lparr>se_stream_desc = des, se_next = get_list c mode\<rparr>),
             h_tasks := (h_tasks w)(t \<mapsto> set_list mode (Some new) (add_limit mode 1 c))\<rparr>"
  let ?c1 = "set_list mode (Some new) (add_limit mode 1 c)"
  have rep1: "el_rep w1 (get_list ?c1 mode) ([] @ new # es)" using add(2) by (simp add: w1_def el_rep_def)
  have t1: "h_tasks w1 t = Some ?c1" and d1: "elem_desc w1 new = des" by (simp_all add: w1_def elem_desc_def)
  from RemoveStream_ok [OF t1 rep1 assms(3) d1] obtain w2 c2 where
    r: "LpelTaskRemoveStream w1 (Some t) des mode = Some (Inr w2)" "h_tasks w2 = (h_tasks w1)(t \<mapsto> c2)"
      "el_rep w2 (get_list c2 mode) es" "h_elems w2 new = None"
      "\<forall>b. b \<noteq> new \<longrightarrow> map_option se_stream_desc (h_elems w2 b) = map_option se_stream_desc (h_elems w1 b)"
      "set_list mode (get_list ?c1 mode) c2 = add_limit mode (- 1) ?c1" by auto
  have c2: "c2 = c"
  proof -
    have "get_list c2 mode = get_list c mode"
      using r(3) assms(2) unfolding el_rep_def by (cases es) (auto simp: nlist_Cons)
    moreover have "set_list mode (Some new) c2 = set_list mode (Some new) c"
      using r(6) by (simp add: add_limit_inverse)
    ultimately show ?thesis by (metis set_list_twice)
  qed
  have "dom (h_elems w2) = dom (h_elems w)"
  proof -
    have "h_elems w2 b = None \<longleftrightarrow> h_elems w b = None" for b
    proof (cases "b = new")
      case True
      then show ?thesis using r(4) assms(4) by simp
    next
      case False
      then have "map_option se_stream_desc (h_elems w2 b) = map_option se_stream_desc (h_elems w b)"
        using r(5) by (simp add: w1_def)
      then show ?thesis by (metis option.map_disc_iff)
    qed
    then show ?thesis by (auto simp: dom_def)
  qed
  moreover have "h_tasks w2 = h_tasks w" using r(2) c2 assms(1) by (auto simp: w1_def)
  moreover have "task_elems w2 t mode es" using r(2,3) by (simp add: task_elems_def)
  moreover have "task_elems w1 t mode (new # es)" using t1 rep1 by (simp add: task_elems_def)
  moreover have "LpelTaskRemoveStream w (Some t) des' mode = Some (Inl AssertFail)"
    if "des' \<notin> elem_desc w ` set es" for des'
  proof -
    have "se_stream_desc (the (h_elems w u)) \<noteq> des'" if "u \<in> set es" for u
      using \<open>des' \<notin> elem_desc w ` set es\<close> that by (auto simp: elem_desc_def)
    with find_elem_missing [of "h_elems w" "get_list c mode" es des' None] assms(2) obtain q where
      "find_elem (h_elems w) des' None (get_list c mode) = Some (Inr (q, None))" by (auto simp: el_rep_def)
    then show ?thesis using assms(1,3) by (auto simp: LpelTaskRemoveStream_def)
  qed
  ultimately show ?thesis using add(1) d1 r(1) unfolding w1_def by blast
qed

definition ex_hstore :: hrc_store where
  "ex_hstore = \<lparr>h_tasks = [1 \<mapsto> ex_htask 0], h_streams = Map.empty, h_sds = Map.empty, h_elems = Map.empty\<rparr>"

theorem task_add_remove_stream_witness:
  "\<exists>w1. LpelTaskAddStream ex_hstore (Some 9) (Some 1) (Some 4) (CHR ''w'') = Inr w1 \<and>
    (\<exists>w2. LpelTaskRemoveStream w1 (Some 1) (Some 4) (CHR ''w'') = Some (Inr w2) \<and> h_tasks w2 = h_tasks ex_hstore)"
proof -
  have "h_tasks ex_hstore 1 = Some (ex_htask 0)" "el_rep ex_hstore (get_list (ex_htask 0) (CHR ''w'')) []"
    "h_elems ex_hstore 9 = None"
    by (simp_all add: ex_hstore_def el_rep_def get_list_def ex_htask_def)
  from task_add_remove_stream [OF this(1,2) _ this(3), of "Some 4"] show ?thesis by auto
qed

text \<open>
  For a task whose streams exist, \<open>LpelTaskCalPriority\<close> returns, and applies the chosen
  priority function to the numbers of records in the task's input and output streams. Streams from
  the entry and to the exit are not counted, closed streams count nothing, and -1 is passed for a
  task without streams on a side or with only empty ones besides an entry or exit stream. With a
  positive demand limit an entry task above it gets the lowest priority instead.
\<close>

theorem task_cal_priority:
  assumes "h_tasks w t = Some c" and "el_rep w (in_streams (ht_sched_info c)) ins" and "elems_ok w ins"
    and "el_rep w (out_streams (ht_sched_info c)) outs" and "elems_ok w outs"
  shows "LpelTaskCalPriority neg cal w (Some t) = Some (Inr
     (let i = count_spec w CHR ''i'' ins; out = count_spec w CHR ''o'' outs
      in if i = - 1 \<and> out > neg \<and> neg > 0 then LPEL_DBL_MIN else cal i out))"
  using assms by (rule CalPriority_ok)

theorem task_cal_priority_witness:
  "LpelTaskCalPriority 0 priorfunc14 ex_hstore (Some 1) = Some (Inr 0)"
proof -
  have "el_rep ex_hstore None []" "elems_ok ex_hstore []" by (simp_all add: el_rep_def elems_ok_def)
  then show ?thesis
    using task_cal_priority [of ex_hstore 1 "ex_htask 0" "[]" "[]" 0 priorfunc14]
    by (simp add: ex_hstore_def ex_htask_def count_spec_def open_streams_def map_filter_simps priorfunc14_def)
qed

text \<open>The task \<open>t\<close> of a store with its record counter set to \<open>n\<close>.\<close>

definition with_cnt :: "hrc_store \<Rightarrow> addr \<Rightarrow> hrc_task_t \<Rightarrow> int \<Rightarrow> hrc_store" where
  "with_cnt w t c n = w\<lparr>h_tasks := (h_tasks w)(t \<mapsto> c\<lparr>ht_sched_info := (ht_sched_info c)\<lparr>rec_cnt := n\<rparr>\<rparr>)\<rparr>"

fun repeatR :: "nat \<Rightarrow> ('a \<Rightarrow> 'a res) \<Rightarrow> 'a \<Rightarrow> 'a res" where
  "repeatR 0 f x = Inr x"
| "repeatR (Suc n) f x = bindR (repeatR n f x) f"

text \<open>
  A running task that was just started and has the record limit \<open>n\<close> passes \<open>n\<close> record checks
  without leaving its worker, and yields at the next one, in state \<open>READY\<close>; it never yields when
  the limit is negative.
\<close>

theorem task_check_yield:
  assumes "h_tasks w t = Some c" and "ht_state c = TASK_RUNNING" and "rec_cnt (ht_sched_info c) = 0"
  shows "if rec_limit (ht_sched_info c) < 0 then repeatR k (\<lambda>w. LpelTaskCheckYield switch w (Some t)) w = Inr w
    else (k \<le> nat (rec_limit (ht_sched_info c)) \<longrightarrow>
        repeatR k (\<lambda>w. LpelTaskCheckYield switch w (Some t)) w = Inr (with_cnt w t c (int k))) \<and>
      (k = nat (rec_limit (ht_sched_info c)) \<longrightarrow>
        repeatR (Suc k) (\<lambda>w. LpelTaskCheckYield switch w (Some t)) w =
          bindR (switch (with_cnt w t (set_state TASK_READY c) (int k)) (Some t)) (\<lambda>w2.
          bindR (TaskStart w2 (Some t)) (\<lambda>w3. upd_task w3 (Some t)
            (\<lambda>c. c\<lparr>ht_sched_info := (ht_sched_info c)\<lparr>rec_cnt := rec_cnt (ht_sched_info c) + 1\<rparr>\<rparr>))))"
proof -
  let ?f = "\<lambda>w. LpelTaskCheckYield switch w (Some t)"
  have sw: "with_cnt w t (set_state TASK_READY c) n = w\<lparr>h_tasks := (h_tasks w)(t \<mapsto>
      set_state TASK_READY (c\<lparr>ht_sched_info := (ht_sched_info c)\<lparr>rec_cnt := n\<rparr>\<rparr>))\<rparr>" for n
    by (cases c) (simp add: with_cnt_def)
  have start: "with_cnt w t c 0 = w"
    using assms by (simp add: with_cnt_def fun_upd_idem)
  have step: "?f (with_cnt w t c (int m)) = Inr (with_cnt w t c (int (Suc m)))"
    if "m < nat (rec_limit (ht_sched_info c))" for m
  proof -
    have "int m \<noteq> rec_limit (ht_sched_info c)" "\<not> rec_limit (ht_sched_info c) < 0" using that by auto
    then show ?thesis using assms by (simp add: LpelTaskCheckYield_def with_cnt_def add.commute)
  qed
  have rep: "repeatR m ?f w = Inr (with_cnt w t c (int m))" if "m \<le> nat (rec_limit (ht_sched_info c))" for m
    using that by (induction m) (simp_all add: start step)
  show ?thesis
  proof (cases "rec_limit (ht_sched_info c) < 0")
    case True
    have "repeatR k ?f w = Inr w"
      using True assms by (induction k) (simp_all add: LpelTaskCheckYield_def)
    with True show ?thesis by simp
  next
    case False
    then have "?f (with_cnt w t c (int (nat (rec_limit (ht_sched_info c))))) =
      bindR (switch (with_cnt w t (set_state TASK_READY c) (int (nat (rec_limit (ht_sched_info c))))) (Some t)) (\<lambda>w2.
          bindR (TaskStart w2 (Some t)) (\<lambda>w3. upd_task w3 (Some t)
            (\<lambda>c. c\<lparr>ht_sched_info := (ht_sched_info c)\<lparr>rec_cnt := rec_cnt (ht_sched_info c) + 1\<rparr>\<rparr>)))"
      unfolding sw using assms by (simp add: LpelTaskCheckYield_def with_cnt_def bindR_assoc)
    with False rep show ?thesis by auto
  qed
qed

theorem task_check_yield_witness:
  "\<exists>c. repeatR 2 (\<lambda>w. LpelTaskCheckYield (\<lambda>w t. Inl WouldBlock) w (Some 1))
      (ex_hstore\<lparr>h_tasks := [1 \<mapsto> c]\<rparr>) = Inr (with_cnt (ex_hstore\<lparr>h_tasks := [1 \<mapsto> c]\<rparr>) 1 c 2)"
proof -
  let ?c = "(ex_htask 0)\<lparr>ht_state := TASK_RUNNING, ht_sched_info := (ht_sched_info (ex_htask 0))\<lparr>rec_limit := 3\<rparr>\<rparr>"
  have "repeatR 2 (\<lambda>w. LpelTaskCheckYield (\<lambda>w t. Inl WouldBlock) w (Some 1))
      (ex_hstore\<lparr>h_tasks := [1 \<mapsto> ?c]\<rparr>) = Inr (with_cnt (ex_hstore\<lparr>h_tasks := [1 \<mapsto> ?c]\<rparr>) 1 ?c 2)"
    using task_check_yield [of "ex_hstore\<lparr>h_tasks := [1 \<mapsto> ?c]\<rparr>" 1 ?c 2 "\<lambda>w t. Inl WouldBlock"]
    by (simp add: ex_htask_def)
  then show ?thesis by blast
qed

end
