(* ===== verification/Mailbox.thy ===== *)
theory Mailbox
  imports Lpel_Prelude
begin

text \<open>
  \<open>src/mailbox.c\<close>: the message box of a worker. Incoming messages form a circular list whose
  handle \<open>list_inbox\<close> points to the last node, unused nodes a stack \<open>list_free\<close>. Each function
  is modelled by its critical sections: \<open>GetFree\<close> and \<open>PutFree\<close> under \<open>lock_free\<close>,
  \<open>inbox_put\<close> and \<open>inbox_get\<close> (the locked parts of \<open>LpelMailboxSend\<close> and
  \<open>LpelMailboxRecv\<close>) under \<open>lock_inbox\<close>. \<open>pthread_cond_wait\<close> on an empty inbox is the
  result \<open>WouldBlock\<close>. The step relation \<open>mb_step\<close> interleaves the critical sections of any
  number of concurrent senders and receivers.
\<close>

section \<open>Model\<close>

datatype msg_body = BTask ptr | BFromWorker int | BNone

record workermsg_t =
  msg_type :: int
  msg_body :: msg_body

record mailbox_node_t =
  mn_next :: ptr
  mn_msg :: workermsg_t

record mailbox_t =
  list_free :: ptr
  list_inbox :: ptr
  nodes :: "mailbox_node_t heap"

text \<open>What a node holds before its message is copied in is indeterminate; no code reads it.\<close>

definition fresh_node :: mailbox_node_t where
  "fresh_node = \<lparr>mn_next = None, mn_msg = \<lparr>msg_type = 0, msg_body = BNone\<rparr>\<rparr>"

definition GetFree :: "mailbox_t \<Rightarrow> ptr \<Rightarrow> (ptr \<times> mailbox_t) res" where
  "GetFree mbox new =
     (if list_free mbox \<noteq> None then
        bindR (deref (nodes mbox) (list_free mbox)) (\<lambda>node.
          Inr (list_free mbox, mbox\<lparr>list_free := mn_next node\<rparr>))
      else if new = None then Inr (None, mbox)
      else bindR (alloc_at (nodes mbox) new fresh_node) (\<lambda>h. Inr (new, mbox\<lparr>nodes := h\<rparr>)))"

definition PutFree :: "mailbox_t \<Rightarrow> ptr \<Rightarrow> mailbox_t res" where
  "PutFree mbox node =
     bindR (upd (nodes mbox) node
        (\<lambda>n. n\<lparr>mn_next := (if list_free mbox = None then None else list_free mbox)\<rparr>)) (\<lambda>h.
       Inr (mbox\<lparr>nodes := h, list_free := node\<rparr>))"

definition LpelMailboxCreate :: "mailbox_t" where
  "LpelMailboxCreate = \<lparr>list_free = None, list_inbox = None, nodes = Map.empty\<rparr>"

partial_function (option) free_all :: "mailbox_node_t heap \<Rightarrow> ptr \<Rightarrow> (mailbox_node_t heap res) option" where
  "free_all h p =
     (if p = None then Some (Inr h)
      else (case deref h p of Inl e \<Rightarrow> Some (Inl e)
        | Inr node \<Rightarrow> (case free_at h p of Inl e \<Rightarrow> Some (Inl e)
            | Inr h' \<Rightarrow> free_all h' (mn_next node))))"

definition LpelMailboxDestroy :: "mailbox_t \<Rightarrow> (mailbox_node_t heap res) option" where
  "LpelMailboxDestroy mbox =
     (if list_inbox mbox \<noteq> None then Some (Inl AssertFail)
      else free_all (nodes mbox) (list_free mbox))"

text \<open>The copy \<open>node->msg = *msg\<close> of the sender, outside the locks.\<close>

definition copy_msg :: "mailbox_t \<Rightarrow> ptr \<Rightarrow> workermsg_t \<Rightarrow> mailbox_t res" where
  "copy_msg mbox node msg =
     bindR (upd (nodes mbox) node (\<lambda>n. n\<lparr>mn_msg := msg\<rparr>)) (\<lambda>h. Inr (mbox\<lparr>nodes := h\<rparr>))"

definition inbox_put :: "mailbox_t \<Rightarrow> ptr \<Rightarrow> mailbox_t res" where
  "inbox_put mbox node =
     (if list_inbox mbox = None then
        bindR (upd (nodes mbox) node (\<lambda>n. n\<lparr>mn_next := node\<rparr>)) (\<lambda>h.
          Inr (mbox\<lparr>list_inbox := node, nodes := h\<rparr>))
      else
        bindR (deref (nodes mbox) (list_inbox mbox)) (\<lambda>l.
        bindR (upd (nodes mbox) node (\<lambda>n. n\<lparr>mn_next := mn_next l\<rparr>)) (\<lambda>h.
        bindR (upd h (list_inbox mbox) (\<lambda>n. n\<lparr>mn_next := node\<rparr>)) (\<lambda>h'.
          Inr (mbox\<lparr>nodes := h', list_inbox := node\<rparr>)))))"

definition LpelMailboxSend :: "mailbox_t \<Rightarrow> ptr \<Rightarrow> workermsg_t \<Rightarrow> mailbox_t res" where
  "LpelMailboxSend mbox new msg =
     bindR (GetFree mbox new) (\<lambda>(node, m1).
     bindR (copy_msg m1 node msg) (\<lambda>m2. inbox_put m2 node))"

definition inbox_get :: "mailbox_t \<Rightarrow> (ptr \<times> mailbox_t) res" where
  "inbox_get mbox =
     (if list_inbox mbox = None then Inl WouldBlock
      else
        bindR (deref (nodes mbox) (list_inbox mbox)) (\<lambda>l.
          if mn_next l = list_inbox mbox then Inr (mn_next l, mbox\<lparr>list_inbox := None\<rparr>)
          else
            bindR (deref (nodes mbox) (mn_next l)) (\<lambda>n.
            bindR (upd (nodes mbox) (list_inbox mbox) (\<lambda>x. x\<lparr>mn_next := mn_next n\<rparr>)) (\<lambda>h.
              Inr (mn_next l, mbox\<lparr>nodes := h\<rparr>)))))"

definition LpelMailboxRecv :: "mailbox_t \<Rightarrow> (workermsg_t \<times> mailbox_t) res" where
  "LpelMailboxRecv mbox =
     bindR (inbox_get mbox) (\<lambda>(node, m1).
     bindR (deref (nodes m1) node) (\<lambda>n.
     bindR (PutFree m1 node) (\<lambda>m2. Inr (mn_msg n, m2))))"

definition LpelMailboxHasIncoming :: "mailbox_t \<Rightarrow> bool" where
  "LpelMailboxHasIncoming mbox \<longleftrightarrow> list_inbox mbox \<noteq> None"

section \<open>Representation\<close>

text \<open>
  \<open>mb_rep m xs fs ow\<close>: the inbox holds the nodes \<open>xs\<close>, the pool the nodes \<open>fs\<close>, and \<open>ow\<close>
  are the nodes currently owned by senders and receivers; together they are all nodes.
\<close>

abbreviation mnx :: "mailbox_t \<Rightarrow> addr \<Rightarrow> ptr" where
  "mnx m \<equiv> fld mn_next (nodes m)"

definition mb_rep :: "mailbox_t \<Rightarrow> addr list \<Rightarrow> addr list \<Rightarrow> addr list \<Rightarrow> bool" where
  "mb_rep m xs fs ow \<longleftrightarrow> clist (mnx m) (list_inbox m) xs \<and> nlist (mnx m) (list_free m) fs \<and>
     distinct (xs @ fs @ ow) \<and> dom (nodes m) = set (xs @ fs @ ow)"

definition msg_at :: "mailbox_t \<Rightarrow> addr \<Rightarrow> workermsg_t" where
  "msg_at m a = mn_msg (the (nodes m a))"

lemma mb_rep_create: "mb_rep LpelMailboxCreate [] [] []"
  by (simp add: mb_rep_def LpelMailboxCreate_def)

lemma mb_rep_node: "mb_rep m xs fs ow \<Longrightarrow> a \<in> set (xs @ fs @ ow) \<Longrightarrow> \<exists>c. nodes m a = Some c"
  unfolding mb_rep_def by blast

lemma mb_GetFree:
  assumes "mb_rep m xs fs ow" and "fs = [] \<longrightarrow> (\<exists>a. new = Some a \<and> nodes m a = None)"
  shows "\<exists>n m' fs'. GetFree m new = Inr (Some n, m') \<and> mb_rep m' xs fs' (n # ow) \<and> n \<notin> set (xs @ ow) \<and>
    (\<forall>a \<in> set (xs @ ow). nodes m' a = nodes m a)"
proof (cases fs)
  case Nil
  with assms obtain a where a: "new = Some a" "nodes m a = None" by blast
  then have "a \<notin> set xs" "a \<notin> set ow" using assms Nil by (auto simp: mb_rep_def)
  with assms a Nil show ?thesis
    by (auto simp: GetFree_def mb_rep_def clist_upd)
next
  case (Cons f fs')
  with mb_rep_node [OF assms(1), of f] assms(1) obtain c where "nodes m f = Some c" "list_free m = Some f"
    by (auto simp: mb_rep_def nlist_Cons)
  with assms Cons show ?thesis
    by (auto simp: GetFree_def mb_rep_def nlist_Cons)
qed

lemma mb_copy_msg:
  assumes "mb_rep m xs fs (n # ow)"
  shows "\<exists>m'. copy_msg m (Some n) msg = Inr m' \<and> mb_rep m' xs fs (n # ow) \<and> msg_at m' n = msg \<and>
    (\<forall>a. a \<noteq> n \<longrightarrow> nodes m' a = nodes m a)"
proof -
  from mb_rep_node [OF assms, of n] obtain c where c: "nodes m n = Some c" by auto
  have "fld mn_next ((nodes m)(n \<mapsto> c\<lparr>mn_msg := msg\<rparr>)) = mnx m"
    using c by (intro fld_upd_same) auto
  with assms c show ?thesis
    by (auto simp: copy_msg_def mb_rep_def msg_at_def simp del: fld_upd)
qed

lemma mb_inbox_put:
  assumes "mb_rep m xs fs (n # ow)"
  shows "\<exists>m'. inbox_put m (Some n) = Inr m' \<and> mb_rep m' (xs @ [n]) fs ow \<and>
    (\<forall>a. msg_at m' a = msg_at m a)"
proof -
  from mb_rep_node [OF assms, of n] obtain c where c: "nodes m n = Some c" by auto
  have n: "n \<notin> set xs" "n \<notin> set fs" using assms by (auto simp: mb_rep_def)
  show ?thesis
  proof (cases "list_inbox m")
    case None
    with assms c n show ?thesis
      by (auto simp: inbox_put_def mb_rep_def clist_single nlist_upd msg_at_def)
  next
    case (Some l)
    then have l: "l \<in> set xs" using assms by (auto simp: mb_rep_def clist_last_in)
    then obtain cl where cl: "nodes m l = Some cl" using mb_rep_node [OF assms, of l] by auto
    have "l \<noteq> n" "l \<notin> set fs" using l n assms by (auto simp: mb_rep_def)
    with Some assms c cl n clist_insert [of "mnx m" l xs n] show ?thesis
      by (auto simp: inbox_put_def mb_rep_def nlist_upd msg_at_def)
  qed
qed

lemma mb_inbox_get:
  assumes "mb_rep m (x # xs) fs ow"
  shows "\<exists>m'. inbox_get m = Inr (Some x, m') \<and> mb_rep m' xs fs (x # ow) \<and>
    (\<forall>a. msg_at m' a = msg_at m a)"
proof -
  from assms obtain l where l: "list_inbox m = Some l" "l = last (x # xs)"
    by (cases "list_inbox m") (auto simp: mb_rep_def dest: clist_Some_last)
  then have lin: "l \<in> set (x # xs)" and lx: "mnx m l = Some x"
    using assms by (auto simp: mb_rep_def dest: clist_last_in clist_last_next)
  obtain cl cx where c: "nodes m l = Some cl" "nodes m x = Some cx" "mn_next cl = Some x"
    using mb_rep_node [OF assms, of l] mb_rep_node [OF assms, of x] lin lx by auto
  show ?thesis
  proof (cases "xs = []")
    case True
    with assms l c show ?thesis by (auto simp: inbox_get_def mb_rep_def msg_at_def)
  next
    case False
    then have "l \<noteq> x" "l \<notin> set fs"
      using assms l last_in_set [OF False] by (auto simp: mb_rep_def disjoint_iff)
    with False assms l c clist_pop [of "mnx m" l x xs] show ?thesis
      by (auto simp: inbox_get_def mb_rep_def nlist_upd msg_at_def)
  qed
qed

lemma mb_inbox_get_empty: "mb_rep m [] fs ow \<Longrightarrow> inbox_get m = Inl WouldBlock"
  by (simp add: inbox_get_def mb_rep_def)

lemma mb_PutFree:
  assumes "mb_rep m xs fs (n # ow)"
  shows "\<exists>m'. PutFree m (Some n) = Inr m' \<and> mb_rep m' xs (n # fs) ow \<and>
    (\<forall>a. msg_at m' a = msg_at m a)"
proof -
  from mb_rep_node [OF assms, of n] obtain c where c: "nodes m n = Some c" by auto
  with assms show ?thesis
    by (auto simp: PutFree_def mb_rep_def clist_upd nlist_upd nlist_Cons msg_at_def)
qed

lemma mb_HasIncoming: "mb_rep m xs fs ow \<Longrightarrow> LpelMailboxHasIncoming m \<longleftrightarrow> xs \<noteq> []"
  by (cases "list_inbox m") (auto simp: mb_rep_def LpelMailboxHasIncoming_def)


lemma mb_Destroy:
  assumes "mb_rep m [] fs []"
  shows "LpelMailboxDestroy m = Some (Inr Map.empty)"
proof -
  have "free_all h p = Some (Inr Map.empty)"
    if "nlist (fld mn_next h) p fs" "dom h = set fs" for h p
    using that
  proof (induction fs arbitrary: h p)
    case Nil
    then show ?case by (simp add: free_all.simps)
  next
    case (Cons f fs)
    then obtain c where c: "h f = Some c" by (metis domD list.set_intros(1))
    have "nlist (fld mn_next (h(f := None))) (mn_next c) fs" "dom (h(f := None)) = set fs"
      using Cons.prems c by (auto simp: nlist_Cons nlist_upd)
    from Cons.IH [OF this] have "free_all (h(f := None)) (mn_next c) = Some (Inr Map.empty)" .
    then show ?case using Cons.prems c
      by (subst free_all.simps) (simp add: nlist_Cons del: fun_upd_apply)
  qed
  with assms show ?thesis by (simp add: LpelMailboxDestroy_def mb_rep_def)
qed

section \<open>The mailbox as a first-in first-out channel\<close>

text \<open>What the workers rely on: messages are received in the order they were sent.\<close>

locale fifo_channel =
  fixes send :: "'m \<Rightarrow> ptr \<Rightarrow> 'x \<Rightarrow> 'm res"
    and recv :: "'m \<Rightarrow> ('x \<times> 'm) res"
    and has_incoming :: "'m \<Rightarrow> bool"
    and chan_inv :: "'m \<Rightarrow> bool"
    and pending :: "'m \<Rightarrow> 'x list"
    and can_send :: "ptr \<Rightarrow> 'm \<Rightarrow> bool"
  assumes send_spec: "chan_inv m \<Longrightarrow> can_send new m \<Longrightarrow>
      \<exists>m'. send m new x = Inr m' \<and> chan_inv m' \<and> pending m' = pending m @ [x]"
    and recv_spec: "chan_inv m \<Longrightarrow> pending m = x # xs \<Longrightarrow>
      \<exists>m'. recv m = Inr (x, m') \<and> chan_inv m' \<and> pending m' = xs"
    and recv_empty: "chan_inv m \<Longrightarrow> pending m = [] \<Longrightarrow> recv m = Inl WouldBlock"
    and has_spec: "chan_inv m \<Longrightarrow> has_incoming m \<longleftrightarrow> pending m \<noteq> []"
begin

lemma send_then_recv:
  assumes "chan_inv m" and "can_send new m"
  shows "\<exists>m'. send m new x = Inr m' \<and> chan_inv m' \<and>
    (\<exists>y m''. recv m' = Inr (y, m'') \<and> y = hd (pending m @ [x]) \<and> chan_inv m'' \<and>
       pending m'' = tl (pending m @ [x]))"
proof -
  from send_spec [OF assms] obtain m' where m': "send m new x = Inr m'" "chan_inv m'"
    "pending m' = pending m @ [x]" by blast
  moreover obtain y ys where "pending m @ [x] = y # ys" by (cases "pending m") auto
  ultimately show ?thesis using recv_spec [OF m'(2), of y ys] by auto
qed

end

definition mb_nodes :: "mailbox_t \<Rightarrow> addr list" where
  "mb_nodes m = (case list_inbox m of None \<Rightarrow> []
     | Some l \<Rightarrow> (case walk ((mnx m)(l := None)) (mnx m l) of None \<Rightarrow> [] | Some xs \<Rightarrow> xs))"

definition mb_pending :: "mailbox_t \<Rightarrow> workermsg_t list" where
  "mb_pending m = map (msg_at m) (mb_nodes m)"

definition mb_inv :: "mailbox_t \<Rightarrow> bool" where
  "mb_inv m \<longleftrightarrow> (\<exists>xs fs. mb_rep m xs fs [])"

definition mb_can_send :: "ptr \<Rightarrow> mailbox_t \<Rightarrow> bool" where
  "mb_can_send new m \<longleftrightarrow> list_free m \<noteq> None \<or> (\<exists>a. new = Some a \<and> nodes m a = None)"

lemma clist_cut:
  assumes "clist nx (Some l) xs"
  shows "walk (nx(l := None)) (nx l) = Some xs"
proof -
  from assms obtain ys where ys: "xs = ys @ [l]"
    by (metis append_butlast_last_id clist_Some_last)
  with assms show ?thesis
    by (intro walk_chain) (auto simp: clist_snoc)
qed

lemma mb_nodes_rep: "mb_rep m xs fs ow \<Longrightarrow> mb_nodes m = xs"
  by (cases "list_inbox m") (auto simp: mb_rep_def mb_nodes_def clist_cut)

lemma mb_pending_rep: "mb_rep m xs fs ow \<Longrightarrow> mb_pending m = map (msg_at m) xs"
  by (simp add: mb_pending_def mb_nodes_rep)

lemma mb_Send:
  assumes "mb_rep m xs fs []" and "mb_can_send new m"
  shows "\<exists>m' fs' n. LpelMailboxSend m new msg = Inr m' \<and> mb_rep m' (xs @ [n]) fs' [] \<and>
    map (msg_at m') (xs @ [n]) = map (msg_at m) xs @ [msg]"
proof -
  have "fs = [] \<longrightarrow> (\<exists>a. new = Some a \<and> nodes m a = None)"
    using assms by (auto simp: mb_can_send_def mb_rep_def)
  from mb_GetFree [OF assms(1) this] obtain n m1 fs1 where m1: "GetFree m new = Inr (Some n, m1)"
    "mb_rep m1 xs fs1 [n]" "n \<notin> set xs" "\<forall>a \<in> set xs. nodes m1 a = nodes m a" by auto
  from mb_copy_msg [OF m1(2), of msg] obtain m2 where m2: "copy_msg m1 (Some n) msg = Inr m2"
    "mb_rep m2 xs fs1 [n]" "msg_at m2 n = msg" "\<forall>a. a \<noteq> n \<longrightarrow> nodes m2 a = nodes m1 a" by blast
  from mb_inbox_put [OF m2(2)] obtain m3 where m3: "inbox_put m2 (Some n) = Inr m3"
    "mb_rep m3 (xs @ [n]) fs1 []" "\<forall>a. msg_at m3 a = msg_at m2 a" by blast
  have "msg_at m3 a = msg_at m a" if "a \<in> set xs" for a
    using that m1 m2 m3 by (metis msg_at_def)
  with m1 m2 m3 show ?thesis by (auto simp: LpelMailboxSend_def)
qed

lemma mb_Recv:
  assumes "mb_rep m (x # xs) fs []"
  shows "\<exists>m'. LpelMailboxRecv m = Inr (msg_at m x, m') \<and> mb_rep m' xs (x # fs) [] \<and>
    (\<forall>a. msg_at m' a = msg_at m a)"
proof -
  from mb_inbox_get [OF assms] obtain m1 where m1: "inbox_get m = Inr (Some x, m1)"
    "mb_rep m1 xs fs [x]" "\<forall>a. msg_at m1 a = msg_at m a" by blast
  from mb_PutFree [OF m1(2)] obtain m2 where m2: "PutFree m1 (Some x) = Inr m2"
    "mb_rep m2 xs (x # fs) []" "\<forall>a. msg_at m2 a = msg_at m1 a" by blast
  from mb_rep_node [OF m1(2), of x] obtain c where "nodes m1 x = Some c" by auto
  moreover from this m1(3) have "mn_msg c = msg_at m x" by (metis msg_at_def option.sel)
  ultimately show ?thesis using m1 m2 by (auto simp: LpelMailboxRecv_def)
qed

interpretation mbox: fifo_channel LpelMailboxSend LpelMailboxRecv LpelMailboxHasIncoming
  mb_inv mb_pending mb_can_send
proof unfold_locales
  fix m new x
  assume "mb_inv m" and "mb_can_send new m"
  then show "\<exists>m'. LpelMailboxSend m new x = Inr m' \<and> mb_inv m' \<and> mb_pending m' = mb_pending m @ [x]"
    unfolding mb_inv_def using mb_Send mb_pending_rep by metis
next
  fix m x xs
  assume "mb_inv m" and p: "mb_pending m = x # xs"
  then obtain ns fs where "mb_rep m ns fs []" by (auto simp: mb_inv_def)
  moreover from this p obtain a as where "ns = a # as" "msg_at m a = x" "map (msg_at m) as = xs"
    by (auto simp: mb_pending_rep)
  ultimately have "mb_rep m (a # as) fs []" by simp
  from mb_Recv [OF this] \<open>msg_at m a = x\<close> \<open>map (msg_at m) as = xs\<close>
  show "\<exists>m'. LpelMailboxRecv m = Inr (x, m') \<and> mb_inv m' \<and> mb_pending m' = xs"
    unfolding mb_inv_def using mb_pending_rep by (metis (no_types, lifting) map_eq_conv)
next
  fix m
  assume "mb_inv m" and "mb_pending m = []"
  then show "LpelMailboxRecv m = Inl WouldBlock"
    by (auto simp: mb_inv_def mb_pending_rep LpelMailboxRecv_def mb_inbox_get_empty)
next
  fix m
  assume "mb_inv m"
  then show "LpelMailboxHasIncoming m \<longleftrightarrow> mb_pending m \<noteq> []"
    by (auto simp: mb_inv_def mb_pending_rep mb_HasIncoming)
qed


section \<open>Concurrent senders and receivers\<close>

text \<open>
  Any number of threads send and receive at once; each critical section is one step. A sender
  that has taken a node and copied its message is in \<open>carrying\<close>; a receiver that has unlinked
  a node and copied its message out is in \<open>returning\<close>. \<open>sent\<close> and \<open>delivered\<close> record the
  messages in the order of the inbox critical sections.
\<close>

record mb_sys =
  box :: mailbox_t
  carrying :: "(addr \<times> workermsg_t) list"
  returning :: "addr list"
  sent :: "workermsg_t list"
  delivered :: "workermsg_t list"

definition mb_sys0 :: mb_sys where
  "mb_sys0 = \<lparr>box = LpelMailboxCreate, carrying = [], returning = [], sent = [], delivered = []\<rparr>"

inductive mb_step :: "mb_sys \<Rightarrow> mb_sys \<Rightarrow> bool" where
  send_take: "GetFree (box s) (Some new) = Inr (Some n, m1) \<Longrightarrow> copy_msg m1 (Some n) msg = Inr m2 \<Longrightarrow>
     mb_step s (s\<lparr>box := m2, carrying := (n, msg) # carrying s\<rparr>)"
| send_put: "carrying s = us @ (n, msg) # vs \<Longrightarrow> inbox_put (box s) (Some n) = Inr m \<Longrightarrow>
     mb_step s (s\<lparr>box := m, carrying := us @ vs, sent := sent s @ [msg]\<rparr>)"
| recv_get: "inbox_get (box s) = Inr (Some n, m) \<Longrightarrow> nodes m n = Some c \<Longrightarrow>
     mb_step s (s\<lparr>box := m, returning := n # returning s, delivered := delivered s @ [mn_msg c]\<rparr>)"
| recv_free: "returning s = us @ n # vs \<Longrightarrow> PutFree (box s) (Some n) = Inr m \<Longrightarrow>
     mb_step s (s\<lparr>box := m, returning := us @ vs\<rparr>)"

inductive mb_reach :: "mb_sys \<Rightarrow> bool" where
  init: "mb_reach mb_sys0"
| step: "mb_reach s \<Longrightarrow> mb_step s t \<Longrightarrow> mb_reach t"

definition mb_sys_inv :: "mb_sys \<Rightarrow> bool" where
  "mb_sys_inv s \<longleftrightarrow> (\<exists>xs fs. mb_rep (box s) xs fs (map fst (carrying s) @ returning s) \<and>
     sent s = delivered s @ map (msg_at (box s)) xs) \<and>
     (\<forall>n msg. (n, msg) \<in> set (carrying s) \<longrightarrow> msg_at (box s) n = msg)"

lemma mb_sys_invI:
  "mb_rep (box s) xs fs (map fst (carrying s) @ returning s) \<Longrightarrow>
   sent s = delivered s @ map (msg_at (box s)) xs \<Longrightarrow>
   (\<And>n msg. (n, msg) \<in> set (carrying s) \<Longrightarrow> msg_at (box s) n = msg) \<Longrightarrow> mb_sys_inv s"
  by (auto simp: mb_sys_inv_def)

lemma mb_rep_perm: "mb_rep m xs fs ow \<Longrightarrow> mset ow' = mset ow \<Longrightarrow> mb_rep m xs fs ow'"
  by (auto simp: mb_rep_def dest: mset_eq_setD mset_eq_imp_distinct_iff)

lemma mb_GetFree_any:
  assumes "mb_rep m xs fs ow" and "GetFree m new = Inr (Some n, m')"
  shows "\<exists>fs'. mb_rep m' xs fs' (n # ow) \<and> n \<notin> set (xs @ ow) \<and> (\<forall>a \<in> set (xs @ ow). nodes m' a = nodes m a)"
proof -
  have "fs = [] \<longrightarrow> (\<exists>a. new = Some a \<and> nodes m a = None)"
    using assms by (auto simp: GetFree_def mb_rep_def bindR_eq_Inr alloc_at_eq_Inr split: if_splits)
  from mb_GetFree [OF assms(1) this] assms(2) show ?thesis by auto
qed

lemma mb_step_inv: "mb_step s t \<Longrightarrow> mb_sys_inv s \<Longrightarrow> mb_sys_inv t"
proof (induction rule: mb_step.induct)
  case (send_take s new n m1 msg m2)
  then obtain xs fs where rep: "mb_rep (box s) xs fs (map fst (carrying s) @ returning s)"
    and h: "sent s = delivered s @ map (msg_at (box s)) xs"
      "\<forall>n msg. (n, msg) \<in> set (carrying s) \<longrightarrow> msg_at (box s) n = msg" by (auto simp: mb_sys_inv_def)
  from mb_GetFree_any [OF rep send_take(1)] obtain fs1 where m1:
    "mb_rep m1 xs fs1 (n # map fst (carrying s) @ returning s)" "n \<notin> set (xs @ map fst (carrying s) @ returning s)"
    "\<forall>a \<in> set (xs @ map fst (carrying s) @ returning s). nodes m1 a = nodes (box s) a" by auto
  from mb_copy_msg [OF m1(1), of msg] send_take(2) have m2:
    "mb_rep m2 xs fs1 (n # map fst (carrying s) @ returning s)" "msg_at m2 n = msg"
    "\<forall>a. a \<noteq> n \<longrightarrow> nodes m2 a = nodes m1 a" by auto
  have same: "msg_at m2 a = msg_at (box s) a" if "a \<in> set (xs @ map fst (carrying s))" for a
  proof -
    have "a \<noteq> n" "nodes m1 a = nodes (box s) a" using that m1(2,3) by auto
    then show ?thesis using m2(3) by (simp add: msg_at_def)
  qed
  then have "map (msg_at m2) xs = map (msg_at (box s)) xs" by simp
  moreover have "msg_at m2 n' = msg'" if "(n', msg') \<in> set ((n, msg) # carrying s)" for n' msg'
    using that h(2) same m2(2) by (cases "(n', msg') \<in> set (carrying s)") force+
  ultimately show ?case using m2(1) h(1)
    by (intro mb_sys_invI [where xs = xs and fs = fs1]) auto
next
  case (send_put s us n msg vs m)
  then obtain xs fs where rep: "mb_rep (box s) xs fs (map fst (carrying s) @ returning s)"
    and h: "sent s = delivered s @ map (msg_at (box s)) xs"
      "\<forall>n msg. (n, msg) \<in> set (carrying s) \<longrightarrow> msg_at (box s) n = msg" by (auto simp: mb_sys_inv_def)
  have "mb_rep (box s) xs fs (n # map fst (us @ vs) @ returning s)"
    using rep send_put(1) by (auto intro: mb_rep_perm)
  from mb_inbox_put [OF this] send_put(2) have m: "mb_rep m (xs @ [n]) fs (map fst (us @ vs) @ returning s)"
    "\<forall>a. msg_at m a = msg_at (box s) a" by auto
  have "msg_at (box s) n = msg" using h(2) send_put(1) by auto
  with m h send_put(1) show ?case
    by (intro mb_sys_invI [where xs = "xs @ [n]" and fs = fs]) auto
next
  case (recv_get s n m c)
  then obtain xs fs where rep: "mb_rep (box s) xs fs (map fst (carrying s) @ returning s)"
    and h: "sent s = delivered s @ map (msg_at (box s)) xs"
      "\<forall>n msg. (n, msg) \<in> set (carrying s) \<longrightarrow> msg_at (box s) n = msg" by (auto simp: mb_sys_inv_def)
  have "xs \<noteq> []" using recv_get(1) rep mb_inbox_get_empty by fastforce
  then obtain x ys where xs: "xs = x # ys" by (cases xs) auto
  from mb_inbox_get [OF rep [unfolded xs]] recv_get(1) have m: "n = x"
    "mb_rep m ys fs (x # map fst (carrying s) @ returning s)" "\<forall>a. msg_at m a = msg_at (box s) a" by auto
  have "mn_msg c = msg_at (box s) x" using m recv_get(2) by (metis msg_at_def option.sel)
  moreover have "mb_rep m ys fs (map fst (carrying s) @ x # returning s)"
    using m(2) by (rule mb_rep_perm) simp
  ultimately show ?case using m h xs
    by (intro mb_sys_invI [where xs = ys and fs = fs]) auto
next
  case (recv_free s us n vs m)
  then obtain xs fs where rep: "mb_rep (box s) xs fs (map fst (carrying s) @ returning s)"
    and h: "sent s = delivered s @ map (msg_at (box s)) xs"
      "\<forall>n msg. (n, msg) \<in> set (carrying s) \<longrightarrow> msg_at (box s) n = msg" by (auto simp: mb_sys_inv_def)
  have "mb_rep (box s) xs fs (n # map fst (carrying s) @ us @ vs)"
    using rep recv_free(1) by (auto intro: mb_rep_perm)
  from mb_PutFree [OF this] recv_free(2) have "mb_rep m xs (n # fs) (map fst (carrying s) @ us @ vs)"
    "\<forall>a. msg_at m a = msg_at (box s) a" by auto
  with h show ?case
    by (intro mb_sys_invI [where xs = xs and fs = "n # fs"]) auto
qed

lemma mb_reach_inv: "mb_reach s \<Longrightarrow> mb_sys_inv s"
proof (induction rule: mb_reach.induct)
  case init
  show ?case using mb_rep_create by (auto simp: mb_sys_inv_def mb_sys0_def)
next
  case (step s t)
  then show ?case by (blast intro: mb_step_inv)
qed

lemma mb_sys_inv_rep:
  assumes "mb_sys_inv s"
  obtains fs where "mb_rep (box s) (mb_nodes (box s)) fs (map fst (carrying s) @ returning s)"
    and "sent s = delivered s @ mb_pending (box s)"
  using assms unfolding mb_sys_inv_def by (metis mb_nodes_rep mb_pending_rep)

text \<open>A concrete interleaving: one message is pending while a second sender holds its node.\<close>

definition ex_msg :: "nat \<Rightarrow> workermsg_t" where
  "ex_msg t = \<lparr>msg_type = 1, msg_body = BTask (Some t)\<rparr>"

definition ex_box :: mailbox_t where
  "ex_box = \<lparr>list_free = None, list_inbox = Some 1,
     nodes = [1 \<mapsto> \<lparr>mn_next = Some 1, mn_msg = ex_msg 10\<rparr>, 2 \<mapsto> \<lparr>mn_next = None, mn_msg = ex_msg 20\<rparr>]\<rparr>"

definition ex_sys :: mb_sys where
  "ex_sys = \<lparr>box = ex_box, carrying = [(2, ex_msg 20)], returning = [], sent = [ex_msg 10], delivered = []\<rparr>"

lemma ex_sys_reach: "mb_reach ex_sys"
proof -
  define b1 where "b1 = \<lparr>list_free = None, list_inbox = None,
     nodes = [1 \<mapsto> \<lparr>mn_next = None, mn_msg = ex_msg 10\<rparr>]\<rparr>"
  define b2 where "b2 = \<lparr>list_free = None, list_inbox = None,
     nodes = [1 \<mapsto> \<lparr>mn_next = None, mn_msg = ex_msg 10\<rparr>, 2 \<mapsto> \<lparr>mn_next = None, mn_msg = ex_msg 20\<rparr>]\<rparr>"
  note evals = GetFree_def copy_msg_def inbox_put_def LpelMailboxCreate_def b1_def b2_def ex_box_def
    fresh_node_def bindR_def
  have "mb_reach mb_sys0" by (rule mb_reach.init)
  moreover have "mb_step mb_sys0 (mb_sys0\<lparr>box := b1, carrying := [(1, ex_msg 10)]\<rparr>)"
    using send_take [of mb_sys0 1 1 _ "ex_msg 10" b1] by (simp add: mb_sys0_def evals)
  moreover have "mb_step (mb_sys0\<lparr>box := b1, carrying := [(1, ex_msg 10)]\<rparr>)
      (mb_sys0\<lparr>box := b2, carrying := [(2, ex_msg 20), (1, ex_msg 10)]\<rparr>)"
    using send_take [of "mb_sys0\<lparr>box := b1, carrying := [(1, ex_msg 10)]\<rparr>" 2 2 _ "ex_msg 20" b2]
    by (simp add: mb_sys0_def evals)
  moreover have "mb_step (mb_sys0\<lparr>box := b2, carrying := [(2, ex_msg 20), (1, ex_msg 10)]\<rparr>) ex_sys"
    using send_put [of "mb_sys0\<lparr>box := b2, carrying := [(2, ex_msg 20), (1, ex_msg 10)]\<rparr>"
        "[(2, ex_msg 20)]" 1 "ex_msg 10" "[]" ex_box]
    by (simp add: mb_sys0_def ex_sys_def evals fun_upd_twist)
  ultimately show ?thesis by (blast intro: mb_reach.step)
qed

lemma ex_box_rep: "mb_rep (ex_box\<lparr>nodes := (nodes ex_box)(2 := None)\<rparr>) [1] [] []"
  by (auto simp: mb_rep_def ex_box_def clist_def)

section \<open>Properties\<close>

text \<open>
  A message sent to a mailbox is queued behind the messages already pending, and the next
  receive returns the oldest pending message and leaves the others in order; neither operation
  fails when \<open>GetFree\<close> finds or allocates a node.
\<close>

theorem mailbox_send_recv:
  assumes "mb_inv m" and "mb_can_send new m"
  shows "\<exists>m'. LpelMailboxSend m new x = Inr m' \<and> mb_inv m' \<and>
    (\<exists>y m''. LpelMailboxRecv m' = Inr (y, m'') \<and> y = hd (mb_pending m @ [x]) \<and> mb_inv m'' \<and>
       mb_pending m'' = tl (mb_pending m @ [x]))"
  using assms by (rule mbox.send_then_recv)

theorem mailbox_send_recv_witness:
  "\<exists>m'. LpelMailboxSend LpelMailboxCreate (Some 7) \<lparr>msg_type = 1, msg_body = BTask (Some 3)\<rparr> = Inr m' \<and>
    (\<exists>m''. LpelMailboxRecv m' = Inr (\<lparr>msg_type = 1, msg_body = BTask (Some 3)\<rparr>, m'') \<and> mb_pending m'' = [])"
proof -
  have inv: "mb_inv LpelMailboxCreate" and "mb_pending LpelMailboxCreate = []"
    using mb_rep_create mb_pending_rep [OF mb_rep_create] by (auto simp: mb_inv_def)
  moreover have "mb_can_send (Some 7) LpelMailboxCreate"
    by (simp add: mb_can_send_def LpelMailboxCreate_def)
  ultimately show ?thesis
    using mailbox_send_recv [OF inv, of "Some 7" "\<lparr>msg_type = 1, msg_body = BTask (Some 3)\<rparr>"] by auto
qed

text \<open>
  C10: However the critical sections of concurrent senders and receivers interleave, the messages
  delivered so far followed by the pending ones are the messages sent, in the order they entered
  the inbox; and every node is in exactly one of the inbox, the free list and the hands of one
  sender or receiver, so no node leaks or is shared.
\<close>

theorem mailbox_concurrent_fifo:
  assumes "mb_reach s"
  shows "sent s = delivered s @ mb_pending (box s) \<and>
    (\<exists>fs. mb_rep (box s) (mb_nodes (box s)) fs (map fst (carrying s) @ returning s))"
  using mb_sys_inv_rep [OF mb_reach_inv [OF assms]] by metis

theorem mailbox_concurrent_fifo_witness:
  "sent ex_sys = delivered ex_sys @ mb_pending (box ex_sys) \<and> carrying ex_sys = [(2, ex_msg 20)]"
  using mailbox_concurrent_fifo [OF ex_sys_reach] by (simp add: ex_sys_def)

text \<open>
  In every reachable interleaving no critical section fails: a sender holding a node can link
  it into the inbox, a receiver holding a node can return it to the free list, and taking a
  message succeeds unless nothing is pending, in which case the receiver waits.
\<close>

theorem mailbox_concurrent_progress:
  assumes "mb_reach s"
  shows "(\<forall>(n, msg) \<in> set (carrying s). \<exists>m. inbox_put (box s) (Some n) = Inr m) \<and>
    (\<forall>n \<in> set (returning s). \<exists>m. PutFree (box s) (Some n) = Inr m) \<and>
    (if mb_pending (box s) = [] then inbox_get (box s) = Inl WouldBlock
     else \<exists>n m. inbox_get (box s) = Inr (Some n, m))"
proof -
  from mb_sys_inv_rep [OF mb_reach_inv [OF assms]] obtain fs
    where rep: "mb_rep (box s) (mb_nodes (box s)) fs (map fst (carrying s) @ returning s)" by blast
  have "\<exists>m. inbox_put (box s) (Some n) = Inr m \<and> (\<exists>m. PutFree (box s) (Some n) = Inr m)"
    if n: "n \<in> set (map fst (carrying s) @ returning s)" for n
  proof -
    from split_list [OF n] obtain us vs where uv: "map fst (carrying s) @ returning s = us @ n # vs" by blast
    have "mb_rep (box s) (mb_nodes (box s)) fs (n # us @ vs)"
      using rep unfolding uv by (rule mb_rep_perm) simp
    from mb_inbox_put [OF this] mb_PutFree [OF this] show ?thesis by blast
  qed
  moreover have "if mb_pending (box s) = [] then inbox_get (box s) = Inl WouldBlock
     else \<exists>n m. inbox_get (box s) = Inr (Some n, m)"
    using rep mb_inbox_get mb_inbox_get_empty
    by (cases "mb_nodes (box s)") (fastforce simp: mb_pending_def)+
  ultimately show ?thesis by fastforce
qed

theorem mailbox_concurrent_progress_witness: "\<exists>m. inbox_put (box ex_sys) (Some 2) = Inr m"
  using mailbox_concurrent_progress [OF ex_sys_reach] by (simp add: ex_sys_def)

text \<open>
  Destroying a mailbox whose inbox is empty frees every node it ever allocated; destroying
  one with pending messages fails the assertion.
\<close>

theorem mailbox_destroy:
  assumes "mb_inv m"
  shows "LpelMailboxDestroy m = Some (if mb_pending m = [] then Inr Map.empty else Inl AssertFail)"
proof -
  from assms obtain xs fs where rep: "mb_rep m xs fs []" by (auto simp: mb_inv_def)
  show ?thesis
  proof (cases xs)
    case Nil
    with rep mb_Destroy mb_pending_rep [OF rep] show ?thesis by simp
  next
    case (Cons x ys)
    with mb_HasIncoming [OF rep] mb_pending_rep [OF rep] show ?thesis
      by (simp add: LpelMailboxDestroy_def LpelMailboxHasIncoming_def)
  qed
qed

theorem mailbox_destroy_witness:
  "LpelMailboxDestroy (ex_box\<lparr>nodes := (nodes ex_box)(2 := None)\<rparr>) = Some (Inl AssertFail)"
proof -
  have "mb_inv (ex_box\<lparr>nodes := (nodes ex_box)(2 := None)\<rparr>)"
    using ex_box_rep by (auto simp: mb_inv_def)
  from mailbox_destroy [OF this] show ?thesis by (simp add: mb_pending_rep [OF ex_box_rep])
qed

end
