(* ===== verification/Hrc_Context.thy ===== *)
theory Hrc_Context
  imports Hrc_Task Mailbox
begin

text \<open>
  The worker context of the hierarchical scheduler (\<open>workerctx_t\<close> of \<open>hrc_worker.h\<close>) and its
  lists of streams and descriptors kept for reuse (the second part of \<open>hrc_worker_op.c\<close>). A
  mailbox is the list of its pending messages, which the channel interface of the mailbox theory
  justifies. A freed descriptor may still be referred to by its stream, so \<open>LpelWorkerGetSd\<close> looks
  for the first one that no stream and no task uses.
\<close>

record workerctx_t =
  wc_wid :: int
  wc_terminate :: int
  wc_current_task :: ptr
  wc_mon :: ptr
  wc_mailbox :: "workermsg_t list"
  wc_free_stream :: ptr
  wc_free_sd :: ptr
  wc_next :: ptr

text \<open>Shared memory with the worker contexts and the handles of stream sets.\<close>

record hrc_mem =
  hm_store :: hrc_store
  hm_workers :: "workerctx_t heap"
  hm_handles :: "ptr heap"

definition upd_wc :: "hrc_mem \<Rightarrow> ptr \<Rightarrow> (workerctx_t \<Rightarrow> workerctx_t) \<Rightarrow> hrc_mem res" where
  "upd_wc m wc f = bindR (upd (hm_workers m) wc f) (\<lambda>h. Inr (m\<lparr>hm_workers := h\<rparr>))"

definition in_store :: "hrc_mem \<Rightarrow> hrc_store res \<Rightarrow> hrc_mem res" where
  "in_store m r = bindR r (\<lambda>w. Inr (m\<lparr>hm_store := w\<rparr>))"

lemma upd_wc_Some [simp, heap_simps]:
  "hm_workers m a = Some c \<Longrightarrow> upd_wc m (Some a) f = Inr (m\<lparr>hm_workers := (hm_workers m)(a \<mapsto> f c)\<rparr>)"
  by (simp add: upd_wc_def)

lemma in_store_simps [simp]: "in_store m (Inr w) = Inr (m\<lparr>hm_store := w\<rparr>)" "in_store m (Inl e) = Inl e"
  by (simp_all add: in_store_def)

section \<open>Streams and descriptors for reuse\<close>

definition LpelWorkerPutStream :: "hrc_mem \<Rightarrow> ptr \<Rightarrow> ptr \<Rightarrow> hrc_mem res" where
  "LpelWorkerPutStream m wc s =
     bindR (deref (hm_workers m) wc) (\<lambda>c.
       if wc_free_stream c = None then
         bindR (upd_wc m wc (\<lambda>c. c\<lparr>wc_free_stream := s\<rparr>)) (\<lambda>m1.
           in_store m1 (upd_stream (hm_store m1) s (\<lambda>x. x\<lparr>st_next := None\<rparr>)))
       else
         bindR (in_store m (upd_stream (hm_store m) s (\<lambda>x. x\<lparr>st_next := wc_free_stream c\<rparr>))) (\<lambda>m1.
           upd_wc m1 wc (\<lambda>c. c\<lparr>wc_free_stream := s\<rparr>)))"

text \<open>\<open>self\<close> is the answer of \<open>LpelWorkerSelf\<close>.\<close>

definition LpelWorkerGetStream :: "hrc_mem \<Rightarrow> ptr \<Rightarrow> (ptr \<times> hrc_mem) res" where
  "LpelWorkerGetStream m self =
     (if self = None then Inr (None, m)
      else bindR (deref (hm_workers m) self) (\<lambda>c.
        let tmp = wc_free_stream c in
        if tmp \<noteq> None then
          bindR (deref (h_streams (hm_store m)) tmp) (\<lambda>s.
          bindR (upd_wc m self (\<lambda>c. c\<lparr>wc_free_stream := st_next s\<rparr>)) (\<lambda>m1.
          bindR (in_store m1 (upd_stream (hm_store m1) tmp (\<lambda>x. x\<lparr>st_next := None\<rparr>))) (\<lambda>m2.
          bindR (assertR (st_cons_sd s = None \<and> st_prod_sd s = None)) (\<lambda>_. Inr (tmp, m2)))))
        else Inr (None, m)))"

definition LpelWorkerPutSd :: "hrc_mem \<Rightarrow> ptr \<Rightarrow> ptr \<Rightarrow> hrc_mem res" where
  "LpelWorkerPutSd m wc sd =
     bindR (deref (hm_workers m) wc) (\<lambda>c.
       if wc_free_sd c = None then
         bindR (upd_wc m wc (\<lambda>c. c\<lparr>wc_free_sd := sd\<rparr>)) (\<lambda>m1.
           in_store m1 (upd_sd (hm_store m1) sd (\<lambda>x. x\<lparr>sd_next := None\<rparr>)))
       else
         bindR (in_store m (upd_sd (hm_store m) sd (\<lambda>x. x\<lparr>sd_next := wc_free_sd c\<rparr>))) (\<lambda>m1.
           upd_wc m1 wc (\<lambda>c. c\<lparr>wc_free_sd := sd\<rparr>)))"

definition sd_unused :: "lpel_stream_desc_t \<Rightarrow> bool" where
  "sd_unused d \<longleftrightarrow> sd_task d = None \<and> sd_stream d = None"

text \<open>The inner loop: the first unused descriptor behind \<open>prev\<close>, with its predecessor.\<close>

partial_function (option) unused_sd :: "lpel_stream_desc_t heap \<Rightarrow> ptr \<Rightarrow> ptr \<Rightarrow> ((ptr \<times> ptr) option) run" where
  "unused_sd h prev tmp =
     (if tmp = None then Some (Inr None)
      else (case deref h tmp of Inl e \<Rightarrow> Some (Inl e)
        | Inr d \<Rightarrow> if sd_unused d then Some (Inr (Some (prev, tmp))) else unused_sd h tmp (sd_next d)))"

definition LpelWorkerGetSd :: "hrc_mem \<Rightarrow> ptr \<Rightarrow> (ptr \<times> hrc_mem) run" where
  "LpelWorkerGetSd m wc =
     bindO (Some (deref (hm_workers m) wc)) (\<lambda>c.
       let tmp = wc_free_sd c in
       if tmp \<noteq> None then
         bindO (Some (deref (h_sds (hm_store m)) tmp)) (\<lambda>d.
           if sd_unused d then
             bindO (Some (upd_wc m wc (\<lambda>c. c\<lparr>wc_free_sd := sd_next d\<rparr>))) (\<lambda>m1.
             bindO (Some (in_store m1 (upd_sd (hm_store m1) tmp (\<lambda>x. x\<lparr>sd_next := None\<rparr>)))) (\<lambda>m2.
               Some (Inr (tmp, m2))))
           else
             bindO (unused_sd (h_sds (hm_store m)) tmp (sd_next d)) (\<lambda>found.
               case found of None \<Rightarrow> Some (Inr (None, m))
               | Some (prev, t) \<Rightarrow>
                   bindO (Some (deref (h_sds (hm_store m)) t)) (\<lambda>e.
                   bindO (Some (in_store m (bindR (upd_sd (hm_store m) prev (\<lambda>x. x\<lparr>sd_next := sd_next e\<rparr>)) (\<lambda>w1.
                       upd_sd w1 t (\<lambda>x. x\<lparr>sd_next := None\<rparr>))))) (\<lambda>m1. Some (Inr (t, m1))))))
       else Some (Inr (None, m)))"

definition LpelStreamDestroy_hrc :: "hrc_store \<Rightarrow> ptr \<Rightarrow> hrc_store res" where
  "LpelStreamDestroy_hrc w s =
     bindR (deref (h_streams w) s) (\<lambda>c.
     bindR (LpelBufferCleanup_hrc (st_buffer c)) (\<lambda>_.
     bindR (free_at (h_streams w) s) (\<lambda>h. Inr (w\<lparr>h_streams := h\<rparr>))))"

partial_function (option) destroy_streams :: "hrc_store \<Rightarrow> ptr \<Rightarrow> hrc_store run" where
  "destroy_streams w head =
     (if head = None then Some (Inr w)
      else (case deref (h_streams w) head of Inl e \<Rightarrow> Some (Inl e)
        | Inr s \<Rightarrow> (case LpelStreamDestroy_hrc w head of Inl e \<Rightarrow> Some (Inl e)
            | Inr w' \<Rightarrow> destroy_streams w' (st_next s))))"

definition LpelWorkerDestroyStream :: "hrc_mem \<Rightarrow> ptr \<Rightarrow> hrc_mem run" where
  "LpelWorkerDestroyStream m wc =
     bindO (Some (deref (hm_workers m) wc)) (\<lambda>c.
     bindO (destroy_streams (hm_store m) (wc_free_stream c)) (\<lambda>w. Some (Inr (m\<lparr>hm_store := w\<rparr>))))"

partial_function (option) destroy_sds :: "hrc_store \<Rightarrow> ptr \<Rightarrow> hrc_store run" where
  "destroy_sds w head =
     (if head = None then Some (Inr w)
      else (case deref (h_sds w) head of Inl e \<Rightarrow> Some (Inl e)
        | Inr d \<Rightarrow> (case free_at (h_sds w) head of Inl e \<Rightarrow> Some (Inl e)
            | Inr h \<Rightarrow> destroy_sds (w\<lparr>h_sds := h\<rparr>) (sd_next d))))"

definition LpelWorkerDestroySd :: "hrc_mem \<Rightarrow> ptr \<Rightarrow> hrc_mem run" where
  "LpelWorkerDestroySd m wc =
     bindO (Some (deref (hm_workers m) wc)) (\<lambda>c.
     bindO (destroy_sds (hm_store m) (wc_free_sd c)) (\<lambda>w. Some (Inr (m\<lparr>hm_store := w\<rparr>))))"

section \<open>The lists\<close>

definition free_streams :: "hrc_mem \<Rightarrow> addr \<Rightarrow> addr list \<Rightarrow> bool" where
  "free_streams m wc ss \<longleftrightarrow> (\<exists>c. hm_workers m wc = Some c \<and> nlist (fld st_next (h_streams (hm_store m))) (wc_free_stream c) ss) \<and>
     (\<forall>a \<in> set ss. \<exists>s. h_streams (hm_store m) a = Some s \<and> st_cons_sd s = None \<and> st_prod_sd s = None)"

definition free_sds :: "hrc_mem \<Rightarrow> addr \<Rightarrow> addr list \<Rightarrow> bool" where
  "free_sds m wc ds \<longleftrightarrow> (\<exists>c. hm_workers m wc = Some c \<and> nlist (fld sd_next (h_sds (hm_store m))) (wc_free_sd c) ds) \<and>
     set ds \<subseteq> dom (h_sds (hm_store m))"

lemma PutStream_ok:
  assumes "free_streams m wc ss" and s: "h_streams (hm_store m) a = Some s" "a \<notin> set ss" "st_cons_sd s = None" "st_prod_sd s = None"
  shows "\<exists>m'. LpelWorkerPutStream m (Some wc) (Some a) = Inr m' \<and> free_streams m' wc (a # ss) \<and>
    (\<exists>p. hm_store m' = (hm_store m)\<lparr>h_streams := (h_streams (hm_store m))(a \<mapsto> s\<lparr>st_next := p\<rparr>)\<rparr>) \<and>
    (\<exists>c. hm_workers m wc = Some c \<and> hm_workers m' = (hm_workers m)(wc \<mapsto> c\<lparr>wc_free_stream := Some a\<rparr>))"
proof -
  from assms(1) obtain c where c: "hm_workers m wc = Some c" "nlist (fld st_next (h_streams (hm_store m))) (wc_free_stream c) ss"
    by (auto simp: free_streams_def)
  let ?w = "(hm_store m)\<lparr>h_streams := (h_streams (hm_store m))(a \<mapsto> s\<lparr>st_next := wc_free_stream c\<rparr>)\<rparr>"
  let ?m = "m\<lparr>hm_workers := (hm_workers m)(wc \<mapsto> c\<lparr>wc_free_stream := Some a\<rparr>), hm_store := ?w\<rparr>"
  have "LpelWorkerPutStream m (Some wc) (Some a) = Inr ?m"
    using c s by (auto simp: LpelWorkerPutStream_def)
  moreover have "free_streams ?m wc (a # ss)"
    using assms c by (auto simp: free_streams_def nlist_Cons nlist_upd)
  ultimately show ?thesis using c(1) by (intro exI [of _ ?m]) auto
qed

lemma GetStream_ok:
  assumes "free_streams m wc (a # ss)"
  shows "\<exists>m' s. LpelWorkerGetStream m (Some wc) = Inr (Some a, m') \<and> free_streams m' wc ss \<and> h_streams (hm_store m) a = Some s \<and>
    h_streams (hm_store m') = (h_streams (hm_store m))(a \<mapsto> s\<lparr>st_next := None\<rparr>) \<and> a \<notin> set ss"
proof -
  from assms obtain c s where c: "hm_workers m wc = Some c" "nlist (fld st_next (h_streams (hm_store m))) (wc_free_stream c) (a # ss)"
    "h_streams (hm_store m) a = Some s" "st_cons_sd s = None" "st_prod_sd s = None" by (auto simp: free_streams_def)
  let ?m = "m\<lparr>hm_workers := (hm_workers m)(wc \<mapsto> c\<lparr>wc_free_stream := st_next s\<rparr>),
    hm_store := (hm_store m)\<lparr>h_streams := (h_streams (hm_store m))(a \<mapsto> s\<lparr>st_next := None\<rparr>)\<rparr>\<rparr>"
  have "LpelWorkerGetStream m (Some wc) = Inr (Some a, ?m)" using c by (auto simp: LpelWorkerGetStream_def nlist_Cons)
  moreover have "free_streams ?m wc ss" using assms c by (auto simp: free_streams_def nlist_Cons nlist_upd)
  ultimately show ?thesis using c by (auto simp: nlist_Cons)
qed

lemma GetStream_empty: "free_streams m wc [] \<Longrightarrow> LpelWorkerGetStream m (Some wc) = Inr (None, m)"
  by (auto simp: free_streams_def LpelWorkerGetStream_def)

lemma PutSd_ok:
  assumes "free_sds m wc ds" and d: "h_sds (hm_store m) a = Some d" "a \<notin> set ds"
  shows "\<exists>m'. LpelWorkerPutSd m (Some wc) (Some a) = Inr m' \<and> free_sds m' wc (a # ds) \<and>
    (\<exists>p. hm_store m' = (hm_store m)\<lparr>h_sds := (h_sds (hm_store m))(a \<mapsto> d\<lparr>sd_next := p\<rparr>)\<rparr>) \<and>
    (\<exists>c. hm_workers m wc = Some c \<and> hm_workers m' = (hm_workers m)(wc \<mapsto> c\<lparr>wc_free_sd := Some a\<rparr>))"
proof -
  from assms(1) obtain c where c: "hm_workers m wc = Some c" "nlist (fld sd_next (h_sds (hm_store m))) (wc_free_sd c) ds"
    by (auto simp: free_sds_def)
  let ?w = "(hm_store m)\<lparr>h_sds := (h_sds (hm_store m))(a \<mapsto> d\<lparr>sd_next := wc_free_sd c\<rparr>)\<rparr>"
  let ?m = "m\<lparr>hm_workers := (hm_workers m)(wc \<mapsto> c\<lparr>wc_free_sd := Some a\<rparr>), hm_store := ?w\<rparr>"
  have "LpelWorkerPutSd m (Some wc) (Some a) = Inr ?m" using c d by (auto simp: LpelWorkerPutSd_def)
  moreover have "free_sds ?m wc (a # ds)" using assms c by (auto simp: free_sds_def nlist_Cons nlist_upd)
  ultimately show ?thesis using c(1) by (intro exI [of _ ?m]) auto
qed

lemma free_sds_cong:
  assumes "free_sds m wc ds" and "map_option wc_free_sd (hm_workers m' wc) = map_option wc_free_sd (hm_workers m wc)"
    and "fld sd_next (h_sds (hm_store m')) = fld sd_next (h_sds (hm_store m))" "dom (h_sds (hm_store m')) = dom (h_sds (hm_store m))"
  shows "free_sds m' wc ds"
  using assms by (auto simp: free_sds_def map_option_case split: option.splits)

lemma free_streams_cong:
  assumes "free_streams m wc ss" and "map_option wc_free_stream (hm_workers m' wc) = map_option wc_free_stream (hm_workers m wc)"
    and "h_streams (hm_store m') = h_streams (hm_store m)"
  shows "free_streams m' wc ss"
  using assms by (auto simp: free_streams_def map_option_case split: option.splits)

abbreviation used_at :: "hrc_mem \<Rightarrow> addr \<Rightarrow> bool" where
  "used_at m a \<equiv> \<not> sd_unused (the (h_sds (hm_store m) a))"

lemma unused_sd_run:
  assumes "nlist (fld sd_next h) p ds" and "set ds \<subseteq> dom h"
  shows "unused_sd h prev p = Some (Inr (case dropWhile (\<lambda>a. \<not> sd_unused (the (h a))) ds of [] \<Rightarrow> None
      | a # _ \<Rightarrow> let us = takeWhile (\<lambda>a. \<not> sd_unused (the (h a))) ds in Some (if us = [] then prev else Some (last us), Some a)))"
  using assms
proof (induction ds arbitrary: p prev)
  case Nil
  then show ?case by (subst unused_sd.simps) simp
next
  case (Cons a ds)
  then obtain d where d: "h a = Some d" by auto
  show ?case
  proof (cases "sd_unused d")
    case True
    then show ?thesis using Cons.prems d by (subst unused_sd.simps) (simp add: nlist_Cons)
  next
    case False
    have "unused_sd h (Some a) (sd_next d) = Some (Inr (case dropWhile (\<lambda>a. \<not> sd_unused (the (h a))) ds of [] \<Rightarrow> None
      | b # _ \<Rightarrow> let us = takeWhile (\<lambda>a. \<not> sd_unused (the (h a))) ds in Some (if us = [] then Some a else Some (last us), Some b)))"
      using Cons.prems d by (intro Cons.IH) (auto simp: nlist_Cons)
    then show ?thesis using False Cons.prems d
      by (subst unused_sd.simps) (cases "dropWhile (\<lambda>a. \<not> sd_unused (the (h a))) ds", simp_all add: nlist_Cons Let_def del: dropWhile_eq_Nil_conv)
  qed
qed

text \<open>
  \<open>LpelWorkerGetSd\<close> takes the first descriptor of the free list that neither a task nor a stream
  refers to, keeps the others in their order, and answers \<open>NULL\<close> without changing anything when
  every descriptor of the list is still referred to.
\<close>

theorem worker_get_sd:
  assumes "free_sds m wc ds"
  shows "case dropWhile (used_at m) ds of
      [] \<Rightarrow> LpelWorkerGetSd m (Some wc) = Some (Inr (None, m))
    | a # vs \<Rightarrow> \<exists>m'. LpelWorkerGetSd m (Some wc) = Some (Inr (Some a, m')) \<and> free_sds m' wc (takeWhile (used_at m) ds @ vs) \<and>
        fld sd_next (h_sds (hm_store m')) a = None \<and>
        (\<forall>b. map_option (\<lambda>d. d\<lparr>sd_next := None\<rparr>) (h_sds (hm_store m') b) = map_option (\<lambda>d. d\<lparr>sd_next := None\<rparr>) (h_sds (hm_store m) b))"
proof -
  from assms obtain c where c: "hm_workers m wc = Some c" "nlist (fld sd_next (h_sds (hm_store m))) (wc_free_sd c) ds"
    "set ds \<subseteq> dom (h_sds (hm_store m))" by (auto simp: free_sds_def)
  let ?h = "h_sds (hm_store m)"
  show ?thesis
  proof (cases ds)
    case Nil
    then show ?thesis using c by (simp add: LpelWorkerGetSd_def)
  next
    case (Cons a ds')
    then obtain d where d: "?h a = Some d" using c by auto
    show ?thesis
    proof (cases "sd_unused d")
      case True
      let ?m = "m\<lparr>hm_workers := (hm_workers m)(wc \<mapsto> c\<lparr>wc_free_sd := sd_next d\<rparr>), hm_store := (hm_store m)\<lparr>h_sds := ?h(a \<mapsto> d\<lparr>sd_next := None\<rparr>)\<rparr>\<rparr>"
      have "LpelWorkerGetSd m (Some wc) = Some (Inr (Some a, ?m))" using c d True Cons by (simp add: LpelWorkerGetSd_def nlist_Cons)
      moreover have "free_sds ?m wc ds'" using c d Cons by (auto simp: free_sds_def nlist_Cons nlist_upd)
      moreover have "dropWhile (used_at m) ds = a # ds'" "takeWhile (used_at m) ds = []" using True d Cons by simp_all
      ultimately show ?thesis using d by (auto simp del: takeWhile_eq_Nil_iff)
    next
      case False
      have run: "unused_sd ?h (Some a) (sd_next d) = Some (Inr (case dropWhile (used_at m) ds' of [] \<Rightarrow> None
          | b # _ \<Rightarrow> Some (Some (last (a # takeWhile (used_at m) ds')), Some b)))"
      proof -
        have "nlist (fld sd_next ?h) (sd_next d) ds'" "set ds' \<subseteq> dom ?h" using c d Cons by (auto simp: nlist_Cons)
        from unused_sd_run [OF this, of "Some a"] show ?thesis
          by (cases "dropWhile (used_at m) ds'") (simp_all add: Let_def del: dropWhile_eq_Nil_conv)
      qed
      show ?thesis
      proof (cases "dropWhile (used_at m) ds'")
        case Nil
        then show ?thesis using run c d False Cons by (simp add: LpelWorkerGetSd_def nlist_Cons del: dropWhile_eq_Nil_conv)
      next
        case (Cons b vs)
        let ?us = "a # takeWhile (used_at m) ds'"
        have ds: "ds = ?us @ b # vs" using \<open>ds = a # ds'\<close> Cons takeWhile_dropWhile_id [of "used_at m" ds'] by simp
        obtain e l where e: "?h b = Some e" "?h (last ?us) = Some l"
        proof -
          have "b \<in> dom ?h" "last ?us \<in> dom ?h" using c(3) ds last_in_set [of ?us] by auto
          then show ?thesis using that by blast
        qed
        have lb: "last ?us \<noteq> b" using c(2) ds last_in_set [of ?us] by (auto simp: nlist_def)
        let ?h' = "?h(last ?us \<mapsto> l\<lparr>sd_next := sd_next e\<rparr>, b \<mapsto> e\<lparr>sd_next := None\<rparr>)"
        let ?m = "m\<lparr>hm_store := (hm_store m)\<lparr>h_sds := ?h'\<rparr>\<rparr>"
        have "LpelWorkerGetSd m (Some wc) = Some (Inr (Some b, ?m))"
          using run c d False \<open>ds = a # ds'\<close> Cons e lb by (simp add: LpelWorkerGetSd_def nlist_Cons in_store_def)
        moreover have "nlist (fld sd_next ?h') (wc_free_sd c) (?us @ vs)"
        proof -
          have "b \<notin> set (?us @ vs)" using c(2) ds by (auto simp: nlist_def)
          then show ?thesis using nlist_unlink [of "fld sd_next ?h" "wc_free_sd c" ?us b vs] c(2) ds e lb
            by (simp add: nlist_upd del: append_Cons)
        qed
        then have "free_sds ?m wc (?us @ vs)" using c ds by (auto simp: free_sds_def)
        ultimately show ?thesis using \<open>ds = a # ds'\<close> Cons False d e lb by auto
      qed
    qed
  qed
qed

text \<open>A worker with the descriptors 1 (still used by a stream), 2 and 3.\<close>

definition ex_wc :: workerctx_t where
  "ex_wc = \<lparr>wc_wid = 0, wc_terminate = 0, wc_current_task = None, wc_mon = None, wc_mailbox = [], wc_free_stream = None,
     wc_free_sd = Some 1, wc_next = None\<rparr>"

definition ex_hmem :: hrc_mem where
  "ex_hmem = \<lparr>hm_store = \<lparr>h_tasks = Map.empty, h_streams = Map.empty,
       h_sds = [1 \<mapsto> sd0\<lparr>sd_stream := Some 9, sd_next := Some 2\<rparr>, 2 \<mapsto> sd0\<lparr>sd_next := Some 3\<rparr>, 3 \<mapsto> sd0], h_elems = Map.empty\<rparr>,
     hm_workers = [7 \<mapsto> ex_wc], hm_handles = Map.empty\<rparr>"

theorem worker_get_sd_witness:
  "\<exists>m'. LpelWorkerGetSd ex_hmem (Some 7) = Some (Inr (Some 2, m')) \<and> free_sds m' 7 [1, 3]"
proof -
  have "free_sds ex_hmem 7 [1, 2, 3]" by (simp add: free_sds_def ex_hmem_def ex_wc_def nlist_def sd0_def)
  from worker_get_sd [OF this] show ?thesis by (auto simp: ex_hmem_def sd_unused_def sd0_def)
qed

end
