(* ===== verification/Hrc_Stream.thy ===== *)
theory Hrc_Stream
  imports Hrc_Context Stream_System
begin

text \<open>
  \<open>src/sched/hierarchy/hrc_stream.c\<close>: streams over linked buffers. Only entry streams (written by
  a wrapper) are bounded; streams and descriptors are taken from and returned to the free lists of
  the worker; every write and read counts in the fill level of the stream. Atomic sections are
  definitions of their own, as in the decentralised stream theory, and are shown to implement the
  same protocol. \<open>switch\<close> is the return to the worker and back, \<open>unblock\<close> the function \<open>LpelTaskUnblock\<close>.
  The counters \<open>read_cnt\<close> and \<open>write_cnt\<close> wrap at 32 bits. Monitoring callbacks are off.
\<close>

section \<open>Creating, opening, closing\<close>

definition STREAM_BUFFER_SIZE_hrc :: int where "STREAM_BUFFER_SIZE_hrc = 16"

definition reset_stream :: "32 word \<Rightarrow> int \<Rightarrow> hrc_stream_t \<Rightarrow> hrc_stream_t" where
  "reset_stream seq sz s = s\<lparr>st_uid := seq, st_n_sem := 0, st_e_sem := sz, st_is_poll := 0, st_prod_sd := None, st_cons_sd := None,
     st_usr_data := None, st_type := LPEL_STREAM_MIDDLE, st_next := None, st_read_cnt := 0, st_write_cnt := 0\<rparr>"

text \<open>
  \<open>self\<close> is the answer of \<open>LpelWorkerSelf\<close>, \<open>new\<close> and \<open>dummy\<close> are those of \<open>malloc\<close> for the stream and for the
  first entry of its buffer. All fields but the buffer of a fresh stream are set below.
\<close>

definition LpelStreamCreate_hrc :: "hrc_mem \<Rightarrow> 32 word \<Rightarrow> ptr \<Rightarrow> ptr \<Rightarrow> ptr \<Rightarrow> int \<Rightarrow> (ptr \<times> hrc_mem \<times> 32 word) res" where
  "LpelStreamCreate_hrc m seq self new dummy sz =
     bindR (assertR (sz \<ge> 0)) (\<lambda>_.
       let sz = (if sz = 0 then STREAM_BUFFER_SIZE_hrc else sz) in
       bindR (LpelWorkerGetStream m self) (\<lambda>(s0, m1).
       bindR (if s0 = None then
                bindR (LpelBufferInit_hrc Map.empty dummy) (\<lambda>b.
                bindR (alloc_at (h_streams (hm_store m1)) new
                  \<lparr>st_buffer = b, st_uid = seq, st_is_poll = 0, st_prod_sd = None, st_cons_sd = None, st_n_sem = 0, st_e_sem = sz,
                   st_usr_data = None, st_next = None, st_type = LPEL_STREAM_MIDDLE, st_read_cnt = 0, st_write_cnt = 0\<rparr>) (\<lambda>h.
                  Inr (new, m1\<lparr>hm_store := (hm_store m1)\<lparr>h_streams := h\<rparr>\<rparr>)))
              else Inr (s0, m1)) (\<lambda>(s, m2).
       bindR (deref (h_streams (hm_store m2)) s) (\<lambda>c.
       bindR (LpelBufferIsEmpty_hrc (st_buffer c)) (\<lambda>e.
       bindR (assertR e) (\<lambda>_.
       bindR (in_store m2 (upd_stream (hm_store m2) s (reset_stream seq sz))) (\<lambda>m3.
         Inr (s, m3, seq + 1))))))))"

definition LpelStreamSetUsrData_hrc :: "hrc_store \<Rightarrow> ptr \<Rightarrow> ptr \<Rightarrow> hrc_store res" where
  "LpelStreamSetUsrData_hrc w s d = upd_stream w s (\<lambda>s. s\<lparr>st_usr_data := d\<rparr>)"

definition LpelStreamGetUsrData_hrc :: "hrc_store \<Rightarrow> ptr \<Rightarrow> ptr res" where
  "LpelStreamGetUsrData_hrc w s = bindR (deref (h_streams w) s) (\<lambda>s. Inr (st_usr_data s))"

text \<open>\<open>ct\<close> is the answer of \<open>LpelTaskSelf\<close>; \<open>new\<close> and \<open>elem\<close> are answers of \<open>malloc\<close>.\<close>

definition LpelStreamOpen_hrc :: "hrc_mem \<Rightarrow> ptr \<Rightarrow> ptr \<Rightarrow> ptr \<Rightarrow> ptr \<Rightarrow> char \<Rightarrow> (ptr \<times> hrc_mem) run" where
  "LpelStreamOpen_hrc m new elem ct s mode =
     bindO (Some (assertR (mode = CHR ''r'' \<or> mode = CHR ''w''))) (\<lambda>_.
     bindO (Some (deref (h_tasks (hm_store m)) ct)) (\<lambda>t.
     bindO (LpelWorkerGetSd m (ht_worker_context t)) (\<lambda>(d0, m1).
       let desc = \<lparr>sd_task = ct, sd_stream = s, sd_mode = mode, sd_next = None, sd_mon = None\<rparr> in
       bindO (Some (if d0 = None then
                bindR (alloc_at (h_sds (hm_store m1)) new desc) (\<lambda>h. Inr (new, m1\<lparr>hm_store := (hm_store m1)\<lparr>h_sds := h\<rparr>\<rparr>))
              else bindR (in_store m1 (upd_sd (hm_store m1) d0 (\<lambda>_. desc))) (\<lambda>m2. Inr (d0, m2)))) (\<lambda>(sd, m2).
       bindO (Some (in_store m2 (upd_stream (hm_store m2) s
           (\<lambda>c. if mode = CHR ''r'' then c\<lparr>st_cons_sd := sd\<rparr> else c\<lparr>st_prod_sd := sd\<rparr>)))) (\<lambda>m3.
       bindO (Some (LpelTaskIsWrapper (\<lambda>a. map_option wc_wid (hm_workers m3 a)) (hm_store m3) ct)) (\<lambda>wrapper.
       bindO (Some (if wrapper then in_store m3 (upd_stream (hm_store m3) s
             (\<lambda>c. c\<lparr>st_type := (if mode = CHR ''r'' then LPEL_STREAM_EXIT else LPEL_STREAM_ENTRY)\<rparr>))
           else Inr m3)) (\<lambda>m4.
       bindO (Some (in_store m4 (LpelTaskAddStream (hm_store m4) elem ct sd mode))) (\<lambda>m5.
         Some (Inr (sd, m5))))))))))"

text \<open>The statements that unset the producer and the consumer of a stream taken out of use.\<close>

definition unset_stream :: "hrc_mem \<Rightarrow> ptr \<Rightarrow> hrc_mem res" where
  "unset_stream m s =
     bindR (deref (h_streams (hm_store m)) s) (\<lambda>c.
       in_store m (bindR (upd_sd (hm_store m) (st_prod_sd c) (\<lambda>d. d\<lparr>sd_stream := None\<rparr>)) (\<lambda>w1.
         upd_stream w1 s (\<lambda>c. c\<lparr>st_prod_sd := None, st_cons_sd := None\<rparr>))))"

definition empty_stream :: "hrc_mem \<Rightarrow> ptr \<Rightarrow> unit res" where
  "empty_stream m s =
     bindR (deref (h_streams (hm_store m)) s) (\<lambda>c. bindR (LpelBufferIsEmpty_hrc (st_buffer c)) assertR)"

definition LpelStreamClose_hrc :: "hrc_mem \<Rightarrow> ptr \<Rightarrow> int \<Rightarrow> hrc_mem run" where
  "LpelStreamClose_hrc m sd destroy_s =
     bindO (Some (deref (h_sds (hm_store m)) sd)) (\<lambda>d.
     bindO (Some (deref (h_tasks (hm_store m)) (sd_task d))) (\<lambda>t.
     bindO (Some (if destroy_s \<noteq> 0 then
              bindR (assertR (sd_mode d = CHR ''r'')) (\<lambda>_.
              bindR (empty_stream m (sd_stream d)) (\<lambda>_.
              bindR (unset_stream m (sd_stream d)) (\<lambda>m0.
              bindR (LpelWorkerPutStream m0 (ht_worker_context t) (sd_stream d)) (\<lambda>m1.
                in_store m1 (upd_sd (hm_store m1) sd (\<lambda>d. d\<lparr>sd_stream := None\<rparr>))))))
            else Inr m)) (\<lambda>m2.
     bindO (LpelTaskRemoveStream (hm_store m2) (sd_task d) sd (sd_mode d)) (\<lambda>w.
     bindO (Some (in_store m2 (upd_sd w sd (\<lambda>d. d\<lparr>sd_task := None\<rparr>)))) (\<lambda>m3.
       Some (LpelWorkerPutSd m3 (ht_worker_context t) sd))))))"

definition LpelStreamReplace_hrc :: "hrc_mem \<Rightarrow> ptr \<Rightarrow> ptr \<Rightarrow> hrc_mem res" where
  "LpelStreamReplace_hrc m sd snew =
     bindR (deref (h_sds (hm_store m)) sd) (\<lambda>d.
     bindR (assertR (sd_mode d = CHR ''r'')) (\<lambda>_.
     bindR (deref (h_tasks (hm_store m)) (sd_task d)) (\<lambda>t.
     bindR (deref (h_streams (hm_store m)) (sd_stream d)) (\<lambda>s.
     bindR (in_store m (upd_stream (hm_store m) snew (\<lambda>c. c\<lparr>st_type := st_type s\<rparr>))) (\<lambda>m1.
     bindR (unset_stream m1 (sd_stream d)) (\<lambda>m1'.
     bindR (empty_stream m1' (sd_stream d)) (\<lambda>_.
     bindR (LpelWorkerPutStream m1' (ht_worker_context t) (sd_stream d)) (\<lambda>m2.
     bindR (deref (h_streams (hm_store m2)) snew) (\<lambda>c.
     bindR (in_store m2 (bindR (upd_sd (hm_store m2) (st_cons_sd c) (\<lambda>d. d\<lparr>sd_stream := None\<rparr>)) (\<lambda>w1.
         bindR (upd_stream w1 snew (\<lambda>c. c\<lparr>st_cons_sd := sd\<rparr>)) (\<lambda>w2.
           upd_sd w2 sd (\<lambda>d. d\<lparr>sd_stream := snew\<rparr>))))) Inr)))))))))"

definition LpelStreamGet_hrc :: "hrc_store \<Rightarrow> ptr \<Rightarrow> ptr res" where
  "LpelStreamGet_hrc w sd = bindR (deref (h_sds w) sd) (\<lambda>d. Inr (sd_stream d))"

definition LpelStreamPeek_hrc :: "hrc_store \<Rightarrow> ptr \<Rightarrow> ptr res" where
  "LpelStreamPeek_hrc w sd =
     bindR (deref (h_sds w) sd) (\<lambda>d.
     bindR (assertR (sd_mode d = CHR ''r'')) (\<lambda>_.
     bindR (deref (h_streams w) (sd_stream d)) (\<lambda>s. LpelBufferTop_hrc (st_buffer s))))"

section \<open>Writing and reading\<close>

definition write_enter_hrc :: "hrc_store \<Rightarrow> ptr \<Rightarrow> ptr \<Rightarrow> (bool \<times> hrc_store) res" where
  "write_enter_hrc w sd item =
     bindR (deref (h_sds w) sd) (\<lambda>d.
     bindR (assertR (sd_mode d = CHR ''w'')) (\<lambda>_.
     bindR (assertR (item \<noteq> None)) (\<lambda>_.
     bindR (deref (h_streams w) (sd_stream d)) (\<lambda>s.
       if st_type s = LPEL_STREAM_ENTRY then
         bindR (upd_stream w (sd_stream d) (\<lambda>s. s\<lparr>st_e_sem := st_e_sem s - 1\<rparr>)) (\<lambda>w'. Inr (st_e_sem s = 0, w'))
       else Inr (False, w)))))"

definition write_put_hrc :: "ptr \<Rightarrow> hrc_store \<Rightarrow> ptr \<Rightarrow> ptr \<Rightarrow> (int \<times> hrc_store) res" where
  "write_put_hrc new w sd item =
     bindR (deref (h_sds w) sd) (\<lambda>d.
     bindR (deref (h_streams w) (sd_stream d)) (\<lambda>s.
     bindR (LpelBufferIsSpace_hrc (st_buffer s)) (\<lambda>sp.
     bindR (assertR sp) (\<lambda>_.
     bindR (LpelBufferPut_hrc new (st_buffer s) item) (\<lambda>b.
     bindR (upd_stream w (sd_stream d) (\<lambda>s. s\<lparr>st_buffer := b\<rparr>)) (\<lambda>w1.
       if st_is_poll s \<noteq> 0 then
         bindR (deref (h_sds w1) (st_cons_sd s)) (\<lambda>c.
         bindR (deref (h_tasks w1) (sd_task c)) (\<lambda>t.
         bindR (upd_task w1 (sd_task c) (\<lambda>t. t\<lparr>ht_poll_token := 0\<rparr>)) (\<lambda>w2.
         bindR (upd_stream w2 (sd_stream d) (\<lambda>s. s\<lparr>st_is_poll := 0\<rparr>)) (\<lambda>w3.
           Inr (ht_poll_token t, w3)))))
       else Inr (0, w1)))))))"

definition write_signal_hrc :: "hrc_store \<Rightarrow> ptr \<Rightarrow> int \<Rightarrow> (ptr option \<times> hrc_store) res" where
  "write_signal_hrc w sd poll_wakeup =
     bindR (deref (h_sds w) sd) (\<lambda>d.
     bindR (deref (h_streams w) (sd_stream d)) (\<lambda>s.
     bindR (upd_stream w (sd_stream d) (\<lambda>s. s\<lparr>st_n_sem := st_n_sem s + 1\<rparr>)) (\<lambda>w1.
       if st_n_sem s < 0 then
         bindR (deref (h_sds w1) (st_cons_sd s)) (\<lambda>c. Inr (Some (sd_task c), w1))
       else if poll_wakeup \<noteq> 0 then
         bindR (deref (h_sds w1) (st_cons_sd s)) (\<lambda>c.
         bindR (upd_task w1 (sd_task c) (\<lambda>t. t\<lparr>ht_wakeup_sd := st_cons_sd s\<rparr>)) (\<lambda>w2.
           Inr (Some (sd_task c), w2)))
       else Inr (None, w1))))"

definition write_count :: "hrc_store \<Rightarrow> ptr \<Rightarrow> hrc_store res" where
  "write_count w sd =
     bindR (deref (h_sds w) sd) (\<lambda>d. upd_stream w (sd_stream d) (\<lambda>s. s\<lparr>st_write_cnt := st_write_cnt s + 1\<rparr>))"

definition LpelStreamWrite_hrc :: "(hrc_store \<Rightarrow> ptr \<Rightarrow> hrc_store res) \<Rightarrow> (hrc_store \<Rightarrow> ptr \<Rightarrow> hrc_store res) \<Rightarrow> ptr \<Rightarrow>
    hrc_store \<Rightarrow> ptr \<Rightarrow> ptr \<Rightarrow> hrc_store res" where
  "LpelStreamWrite_hrc switch unblock new w sd item =
     bindR (deref (h_sds w) sd) (\<lambda>d.
     bindR (write_enter_hrc w sd item) (\<lambda>(full, w1).
     bindR (if full then LpelTaskBlockStream switch w1 (sd_task d) else Inr w1) (\<lambda>w2.
     bindR (write_put_hrc new w2 sd item) (\<lambda>(poll_wakeup, w3).
     bindR (write_signal_hrc w3 sd poll_wakeup) (\<lambda>(whom, w4).
     bindR (case whom of None \<Rightarrow> Inr w4 | Some t \<Rightarrow> unblock w4 t) (\<lambda>w5.
     bindR (write_count w5 sd) (\<lambda>w6. LpelTaskCheckYield switch w6 (sd_task d))))))))"

definition LpelStreamTryWrite_hrc :: "(hrc_store \<Rightarrow> ptr \<Rightarrow> hrc_store res) \<Rightarrow> (hrc_store \<Rightarrow> ptr \<Rightarrow> hrc_store res) \<Rightarrow> ptr \<Rightarrow>
    hrc_store \<Rightarrow> ptr \<Rightarrow> ptr \<Rightarrow> (int \<times> hrc_store) res" where
  "LpelStreamTryWrite_hrc switch unblock new w sd item =
     bindR (deref (h_sds w) sd) (\<lambda>d.
     bindR (deref (h_streams w) (sd_stream d)) (\<lambda>s.
     bindR (LpelBufferIsSpace_hrc (st_buffer s)) (\<lambda>sp.
       if \<not> sp then Inr (- 1, w)
       else bindR (LpelStreamWrite_hrc switch unblock new w sd item) (\<lambda>w'. Inr (0, w')))))"

definition read_enter_hrc :: "hrc_store \<Rightarrow> ptr \<Rightarrow> (bool \<times> hrc_store) res" where
  "read_enter_hrc w sd =
     bindR (deref (h_sds w) sd) (\<lambda>d.
     bindR (assertR (sd_mode d = CHR ''r'')) (\<lambda>_.
     bindR (deref (h_streams w) (sd_stream d)) (\<lambda>s.
     bindR (upd_stream w (sd_stream d) (\<lambda>s. s\<lparr>st_n_sem := st_n_sem s - 1\<rparr>)) (\<lambda>w'. Inr (st_n_sem s = 0, w')))))"

definition read_pop_hrc :: "hrc_store \<Rightarrow> ptr \<Rightarrow> (ptr \<times> hrc_store) res" where
  "read_pop_hrc w sd =
     bindR (deref (h_sds w) sd) (\<lambda>d.
     bindR (deref (h_streams w) (sd_stream d)) (\<lambda>s.
     bindR (LpelBufferTop_hrc (st_buffer s)) (\<lambda>item.
     bindR (assertR (item \<noteq> None)) (\<lambda>_.
     bindR (LpelBufferPop_hrc (st_buffer s)) (\<lambda>b.
     bindR (upd_stream w (sd_stream d) (\<lambda>s. s\<lparr>st_buffer := b\<rparr>)) (\<lambda>w'. Inr (item, w')))))))"

definition read_signal_hrc :: "hrc_store \<Rightarrow> ptr \<Rightarrow> (ptr option \<times> hrc_store) res" where
  "read_signal_hrc w sd =
     bindR (deref (h_sds w) sd) (\<lambda>d.
     bindR (deref (h_streams w) (sd_stream d)) (\<lambda>s.
       if st_type s = LPEL_STREAM_ENTRY then
         bindR (upd_stream w (sd_stream d) (\<lambda>s. s\<lparr>st_e_sem := st_e_sem s + 1\<rparr>)) (\<lambda>w1.
           if st_e_sem s < 0 then
             bindR (deref (h_sds w1) (st_prod_sd s)) (\<lambda>p. Inr (Some (sd_task p), w1))
           else Inr (None, w1))
       else Inr (None, w)))"

definition read_count :: "hrc_store \<Rightarrow> ptr \<Rightarrow> hrc_store res" where
  "read_count w sd =
     bindR (deref (h_sds w) sd) (\<lambda>d. upd_stream w (sd_stream d) (\<lambda>s. s\<lparr>st_read_cnt := st_read_cnt s + 1\<rparr>))"

definition LpelStreamRead_hrc :: "(hrc_store \<Rightarrow> ptr \<Rightarrow> hrc_store res) \<Rightarrow> (hrc_store \<Rightarrow> ptr \<Rightarrow> hrc_store res) \<Rightarrow>
    hrc_store \<Rightarrow> ptr \<Rightarrow> (ptr \<times> hrc_store) res" where
  "LpelStreamRead_hrc switch unblock w sd =
     bindR (deref (h_sds w) sd) (\<lambda>d.
     bindR (read_enter_hrc w sd) (\<lambda>(empty, w1).
     bindR (if empty then LpelTaskBlockStream switch w1 (sd_task d) else Inr w1) (\<lambda>w2.
     bindR (read_pop_hrc w2 sd) (\<lambda>(item, w3).
     bindR (read_signal_hrc w3 sd) (\<lambda>(whom, w4).
     bindR (case whom of None \<Rightarrow> Inr w4 | Some t \<Rightarrow> unblock w4 t) (\<lambda>w5.
     bindR (read_count w5 sd) (\<lambda>w6. Inr (item, w6))))))))"

section \<open>Polling\<close>

text \<open>Descriptors and set handles, as the stream set module sees them.\<close>

definition sd_mem :: "hrc_mem \<Rightarrow> sd_store" where
  "sd_mem m = \<lparr>sds = h_sds (hm_store m), handles = hm_handles m\<rparr>"

definition poll_fast_hrc :: "hrc_mem \<Rightarrow> lpel_stream_iter_t \<Rightarrow> ((ptr \<times> bool \<times> lpel_stream_iter_t) option) res" where
  "poll_fast_hrc m it =
     bindR (LpelStreamIterHasNext (sd_mem m) it) (\<lambda>hn.
       if \<not> hn then Inr None
       else bindR (LpelStreamIterNext (sd_mem m) it) (\<lambda>(sd, it').
         bindR (deref (h_sds (hm_store m)) sd) (\<lambda>d.
         bindR (deref (h_streams (hm_store m)) (sd_stream d)) (\<lambda>s.
         bindR (LpelBufferTop_hrc (st_buffer s)) (\<lambda>top. Inr (Some (sd, top \<noteq> None, it')))))))"

definition poll_register_hrc :: "hrc_mem \<Rightarrow> ptr \<Rightarrow> lpel_stream_iter_t \<Rightarrow> (hrc_mem poll_round) res" where
  "poll_register_hrc m self it =
     bindR (LpelStreamIterHasNext (sd_mem m) it) (\<lambda>hn.
       if \<not> hn then Inr PollEnd
       else bindR (LpelStreamIterNext (sd_mem m) it) (\<lambda>(sd, it').
         bindR (deref (h_sds (hm_store m)) sd) (\<lambda>d.
         bindR (deref (h_streams (hm_store m)) (sd_stream d)) (\<lambda>s.
         bindR (LpelBufferTop_hrc (st_buffer s)) (\<lambda>top.
           if top \<noteq> None then
             bindR (deref (h_tasks (hm_store m)) self) (\<lambda>t.
             bindR (in_store m (upd_task (hm_store m) self (\<lambda>t. t\<lparr>ht_poll_token := 0\<rparr>))) (\<lambda>m1.
               if ht_poll_token t \<noteq> 0 then
                 bindR (in_store m1 (upd_task (hm_store m1) self (\<lambda>t. t\<lparr>ht_wakeup_sd := sd\<rparr>))) (\<lambda>m2. Inr (PollHit True m2))
               else Inr (PollHit False m1)))
           else
             bindR (in_store m (upd_stream (hm_store m) (sd_stream d) (\<lambda>s. s\<lparr>st_is_poll := 1\<rparr>))) (\<lambda>m1.
               Inr (PollMark it' m1)))))))"

definition poll_unregister_hrc :: "hrc_mem \<Rightarrow> lpel_stream_iter_t \<Rightarrow> ((lpel_stream_iter_t \<times> hrc_mem) option) res" where
  "poll_unregister_hrc m it =
     bindR (LpelStreamIterHasNext (sd_mem m) it) (\<lambda>hn.
       if \<not> hn then Inr None
       else bindR (LpelStreamIterNext (sd_mem m) it) (\<lambda>(sd, it').
         bindR (deref (h_sds (hm_store m)) sd) (\<lambda>d.
         bindR (in_store m (upd_stream (hm_store m) (sd_stream d) (\<lambda>s. s\<lparr>st_is_poll := 0\<rparr>))) (\<lambda>m1.
           Inr (Some (it', m1))))))"

definition set_handle_hrc :: "hrc_mem \<Rightarrow> ptr \<Rightarrow> ptr \<Rightarrow> hrc_mem res" where
  "set_handle_hrc m st sd = bindR (upd (hm_handles m) st (\<lambda>_. sd)) (\<lambda>hs. Inr (m\<lparr>hm_handles := hs\<rparr>))"

definition poll_begin_hrc :: "hrc_mem \<Rightarrow> ptr \<Rightarrow> (ptr \<times> lpel_stream_iter_t) res" where
  "poll_begin_hrc m st =
     bindR (deref (hm_handles m) st) (\<lambda>s.
     bindR (assertR (s \<noteq> None)) (\<lambda>_.
     bindR (deref (h_sds (hm_store m)) s) (\<lambda>d.
     bindR (LpelStreamIterCreate (sd_mem m) st) (\<lambda>it. Inr (sd_task d, it)))))"

definition poll_token_hrc :: "hrc_mem \<Rightarrow> ptr \<Rightarrow> ptr \<Rightarrow> lpel_stream_iter_t \<Rightarrow> (lpel_stream_iter_t \<times> hrc_mem) res" where
  "poll_token_hrc m st self it =
     bindR (in_store m (upd_task (hm_store m) self (\<lambda>t. t\<lparr>ht_poll_token := 1\<rparr>))) (\<lambda>m1.
     bindR (LpelStreamIterReset (sd_mem m1) it st) (\<lambda>it'. Inr (it', m1)))"

definition poll_awake_hrc :: "hrc_mem \<Rightarrow> ptr \<Rightarrow> ptr \<Rightarrow> lpel_stream_iter_t \<Rightarrow> lpel_stream_iter_t res" where
  "poll_awake_hrc m st self it =
     bindR (deref (h_tasks (hm_store m)) self) (\<lambda>t.
     bindR (assertR (ht_poll_token t = 0)) (\<lambda>_. LpelStreamIterReset (sd_mem m) it st))"

definition poll_finish_hrc :: "hrc_mem \<Rightarrow> ptr \<Rightarrow> ptr \<Rightarrow> (ptr \<times> hrc_mem) res" where
  "poll_finish_hrc m st self =
     bindR (deref (h_tasks (hm_store m)) self) (\<lambda>t.
     bindR (set_handle_hrc m st (ht_wakeup_sd t)) (\<lambda>m1. Inr (ht_wakeup_sd t, m1)))"

partial_function (option) fast_loop_hrc :: "hrc_mem \<Rightarrow> lpel_stream_iter_t \<Rightarrow> (ptr option \<times> lpel_stream_iter_t) run" where
  "fast_loop_hrc m it =
     (case poll_fast_hrc m it of Inl e \<Rightarrow> Some (Inl e)
      | Inr None \<Rightarrow> Some (Inr (None, it))
      | Inr (Some (sd, hit, it')) \<Rightarrow> if hit then Some (Inr (Some sd, it')) else fast_loop_hrc m it')"

partial_function (option) register_loop_hrc :: "hrc_mem \<Rightarrow> ptr \<Rightarrow> lpel_stream_iter_t \<Rightarrow> int \<Rightarrow>
    (bool \<times> int \<times> lpel_stream_iter_t \<times> hrc_mem) run" where
  "register_loop_hrc m self it cnt =
     (case poll_register_hrc m self it of Inl e \<Rightarrow> Some (Inl e)
      | Inr PollEnd \<Rightarrow> Some (Inr (True, cnt, it, m))
      | Inr (PollHit tok m1) \<Rightarrow> Some (Inr (\<not> tok, cnt, it, m1))
      | Inr (PollMark it' m1) \<Rightarrow> register_loop_hrc m1 self it' (cnt + 1))"

partial_function (option) unregister_loop_hrc :: "hrc_mem \<Rightarrow> lpel_stream_iter_t \<Rightarrow> int \<Rightarrow> hrc_mem run" where
  "unregister_loop_hrc m it cnt =
     (case poll_unregister_hrc m it of Inl e \<Rightarrow> Some (Inl e)
      | Inr None \<Rightarrow> Some (Inr m)
      | Inr (Some (it', m1)) \<Rightarrow> if cnt - 1 = 0 then Some (Inr m1) else unregister_loop_hrc m1 it' (cnt - 1))"

definition LpelStreamPoll_hrc :: "(hrc_store \<Rightarrow> ptr \<Rightarrow> hrc_store res) \<Rightarrow> hrc_mem \<Rightarrow> ptr \<Rightarrow> (ptr \<times> hrc_mem) run" where
  "LpelStreamPoll_hrc switch m st =
     bindO (Some (poll_begin_hrc m st)) (\<lambda>(self, it).
     bindO (fast_loop_hrc m it) (\<lambda>(found, it1).
       case found of Some sd \<Rightarrow> Some (bindR (set_handle_hrc m st sd) (\<lambda>m'. Inr (sd, m')))
       | None \<Rightarrow>
           bindO (Some (poll_token_hrc m st self it1)) (\<lambda>(it2, m1).
           bindO (register_loop_hrc m1 self it2 0) (\<lambda>(do_ctx_switch, cnt, it3, m2).
           bindO (Some (if do_ctx_switch then in_store m2 (LpelTaskBlockStream switch (hm_store m2) self) else Inr m2)) (\<lambda>m3.
           bindO (Some (poll_awake_hrc m3 st self it3)) (\<lambda>it4.
           bindO (unregister_loop_hrc m3 it4 cnt) (\<lambda>m4. Some (poll_finish_hrc m4 st self))))))))"

end
