(* ===== verification/Hrc_Stream_Runs.thy ===== *)
theory Hrc_Stream_Runs
  imports Hrc_Stream
begin

text \<open>
  The streams of the hierarchical scheduler at work: the sections of \<open>Hrc_Stream\<close> implement the
  protocol of \<open>Stream_Protocol\<close>, so every interleaving of producers and a consumer is safe; closed
  streams are reused; replacing by a stream without consumer fails.
\<close>

section \<open>The sections implement the protocol\<close>

text \<open>A section that works on the store only; the counters follow the wakeups.\<close>

definition lift_sec :: "hrc_mem \<Rightarrow> ('a \<times> hrc_store) res \<Rightarrow> ('a \<times> hrc_mem) res" where
  "lift_sec m r = bindR r (\<lambda>(x, w). Inr (x, m\<lparr>hm_store := w\<rparr>))"

lemma lift_sec_Inr [simp]: "lift_sec m (Inr (x, w)) = Inr (x, m\<lparr>hm_store := w\<rparr>)"
  by (simp add: lift_sec_def)

definition signal_count :: "(hrc_store \<Rightarrow> ptr \<Rightarrow> hrc_store res) \<Rightarrow> ptr \<Rightarrow> (ptr option \<times> hrc_store) res \<Rightarrow> (ptr option \<times> hrc_store) res" where
  "signal_count cnt sd r = bindR r (\<lambda>(whom, w). bindR (cnt w sd) (\<lambda>w'. Inr (whom, w')))"

definition can_put :: "hrc_store \<Rightarrow> ptr \<Rightarrow> ptr \<Rightarrow> bool" where
  "can_put w sd new = (case bindR (deref (h_sds w) sd) (\<lambda>d. deref (h_streams w) (sd_stream d)) of
     Inl _ \<Rightarrow> False | Inr s \<Rightarrow> hb_can_put new (st_buffer s))"

definition hrc_ops :: "hrc_mem stream_ops" where
  "hrc_ops = \<lparr>so_write_enter = (\<lambda>m sd x. lift_sec m (write_enter_hrc (hm_store m) sd x)),
     so_write_put = (\<lambda>new m sd x. lift_sec m (write_put_hrc new (hm_store m) sd x)),
     so_write_signal = (\<lambda>m sd pw. lift_sec m (signal_count write_count sd (write_signal_hrc (hm_store m) sd pw))),
     so_read_enter = (\<lambda>m sd. lift_sec m (read_enter_hrc (hm_store m) sd)),
     so_read_pop = (\<lambda>m sd. lift_sec m (read_pop_hrc (hm_store m) sd)),
     so_read_signal = (\<lambda>m sd. lift_sec m (signal_count read_count sd (read_signal_hrc (hm_store m) sd))),
     so_poll_begin = poll_begin_hrc, so_poll_fast = poll_fast_hrc, so_poll_token = poll_token_hrc, so_poll_register = poll_register_hrc,
     so_poll_awake = poll_awake_hrc, so_poll_unregister = poll_unregister_hrc, so_poll_finish = poll_finish_hrc,
     so_set_handle = set_handle_hrc, so_sds = sd_mem, so_alloc = (\<lambda>m. can_put (hm_store m))\<rparr>"

lemma hrc_ops_simps [simp]:
  "so_write_enter hrc_ops m sd x = lift_sec m (write_enter_hrc (hm_store m) sd x)"
  "so_write_put hrc_ops new m sd x = lift_sec m (write_put_hrc new (hm_store m) sd x)"
  "so_write_signal hrc_ops m sd pw = lift_sec m (signal_count write_count sd (write_signal_hrc (hm_store m) sd pw))"
  "so_read_enter hrc_ops m sd = lift_sec m (read_enter_hrc (hm_store m) sd)"
  "so_read_pop hrc_ops m sd = lift_sec m (read_pop_hrc (hm_store m) sd)"
  "so_read_signal hrc_ops m sd = lift_sec m (signal_count read_count sd (read_signal_hrc (hm_store m) sd))"
  "so_poll_begin hrc_ops = poll_begin_hrc" "so_poll_fast hrc_ops = poll_fast_hrc" "so_poll_token hrc_ops = poll_token_hrc"
  "so_poll_register hrc_ops = poll_register_hrc" "so_poll_awake hrc_ops = poll_awake_hrc"
  "so_poll_unregister hrc_ops = poll_unregister_hrc" "so_poll_finish hrc_ops = poll_finish_hrc"
  "so_set_handle hrc_ops = set_handle_hrc" "so_sds hrc_ops = sd_mem" "so_alloc hrc_ops m = can_put (hm_store m)"
  by (simp_all add: hrc_ops_def)

definition hsd_ok :: "hrc_store \<Rightarrow> addr \<Rightarrow> addr \<Rightarrow> addr \<Rightarrow> char \<Rightarrow> bool" where
  "hsd_ok w a t s md \<longleftrightarrow> (\<exists>d. h_sds w a = Some d \<and> sd_task d = Some t \<and> sd_stream d = Some s \<and> sd_mode d = md)"

definition hrc_wf :: "net \<Rightarrow> (nat \<Rightarrow> nat option) \<Rightarrow> hrc_store \<Rightarrow> bool" where
  "hrc_wf N cap w \<longleftrightarrow> net_ok N \<and> nt_ctask N \<in> dom (h_tasks w) \<and>
     (\<forall>i < nt_ns N. hsd_ok w (nt_psd N i) (nt_ptask N i) (nt_stream N i) (CHR ''w'') \<and>
        hsd_ok w (nt_csd N i) (nt_ctask N) (nt_stream N i) (CHR ''r'') \<and>
        (\<exists>s. h_streams w (nt_stream N i) = Some s \<and> hb_inv (st_buffer s) \<and> finite (dom (entries (st_buffer s))) \<and>
           st_prod_sd s = Some (nt_psd N i) \<and> st_cons_sd s = Some (nt_csd N i) \<and> (cap i \<noteq> None) = (st_type s = LPEL_STREAM_ENTRY)))"

definition hrc_view :: "net \<Rightarrow> hrc_store \<Rightarrow> sview" where
  "hrc_view N w = \<lparr>sv_items = at_idx N (h_streams w) [] (\<lambda>s. hb_items (st_buffer s)),
     sv_n = at_idx N (h_streams w) 0 st_n_sem,
     sv_e = at_idx N (h_streams w) 0 (\<lambda>s. if st_type s = LPEL_STREAM_ENTRY then st_e_sem s else 0),
     sv_poll = at_idx N (h_streams w) False (\<lambda>s. st_is_poll s \<noteq> 0),
     sv_token = (case h_tasks w (nt_ctask N) of None \<Rightarrow> False | Some t \<Rightarrow> ht_poll_token t \<noteq> 0),
     sv_wsd = (case h_tasks w (nt_ctask N) of None \<Rightarrow> None | Some t \<Rightarrow> ht_wakeup_sd t)\<rparr>"

lemma hwf_stream:
  assumes "hrc_wf N cap w" and "i < nt_ns N"
  obtains s p c where "h_streams w (nt_stream N i) = Some s" "hb_inv (st_buffer s)" "finite (dom (entries (st_buffer s)))"
    "st_prod_sd s = Some (nt_psd N i)" "st_cons_sd s = Some (nt_csd N i)" "(cap i \<noteq> None) = (st_type s = LPEL_STREAM_ENTRY)"
    "h_sds w (nt_psd N i) = Some p" "sd_task p = Some (nt_ptask N i)" "sd_stream p = Some (nt_stream N i)" "sd_mode p = CHR ''w''"
    "h_sds w (nt_csd N i) = Some c" "sd_task c = Some (nt_ctask N)" "sd_stream c = Some (nt_stream N i)" "sd_mode c = CHR ''r''"
  using assms unfolding hrc_wf_def hsd_ok_def by blast

lemma hwf_task:
  assumes "hrc_wf N cap w"
  obtains t where "h_tasks w (nt_ctask N) = Some t"
  using assms by (auto simp: hrc_wf_def)

lemma hwf_upd_stream:
  assumes "hrc_wf N cap w" and "i < nt_ns N" and "h_streams w (nt_stream N i) = Some s"
    and "hb_inv (st_buffer s')" "finite (dom (entries (st_buffer s')))" "st_prod_sd s' = st_prod_sd s" "st_cons_sd s' = st_cons_sd s"
    "st_type s' = st_type s"
  shows "hrc_wf N cap (w\<lparr>h_streams := (h_streams w)(nt_stream N i \<mapsto> s')\<rparr>)"
proof -
  have inj: "\<And>j. j < nt_ns N \<Longrightarrow> nt_stream N j = nt_stream N i \<Longrightarrow> j = i" using assms(1,2) by (auto simp: hrc_wf_def net_ok_def dest: inj_onD)
  show ?thesis using assms inj by (fastforce simp: hrc_wf_def hsd_ok_def)
qed

lemma hwf_upd_task: "hrc_wf N cap w \<Longrightarrow> hrc_wf N cap (w\<lparr>h_tasks := (h_tasks w)(nt_ctask N \<mapsto> t)\<rparr>)"
  by (auto simp: hrc_wf_def hsd_ok_def)

lemma hview_upd_stream:
  assumes "hrc_wf N cap w" and "i < nt_ns N"
  shows "hrc_view N (w\<lparr>h_streams := (h_streams w)(nt_stream N i \<mapsto> s)\<rparr>) =
    (hrc_view N w)\<lparr>sv_items := (sv_items (hrc_view N w))(i := hb_items (st_buffer s)),
      sv_n := (sv_n (hrc_view N w))(i := st_n_sem s),
      sv_e := (sv_e (hrc_view N w))(i := (if st_type s = LPEL_STREAM_ENTRY then st_e_sem s else 0)),
      sv_poll := (sv_poll (hrc_view N w))(i := st_is_poll s \<noteq> 0)\<rparr>"
proof -
  have inj: "inj_on (nt_stream N) {..<nt_ns N}" using assms(1) by (simp add: hrc_wf_def net_ok_def)
  show ?thesis by (simp add: hrc_view_def at_idx_upd [OF inj assms(2)])
qed

lemma hview_upd_task:
  "hrc_view N (w\<lparr>h_tasks := (h_tasks w)(nt_ctask N \<mapsto> t)\<rparr>) =
    (hrc_view N w)\<lparr>sv_token := ht_poll_token t \<noteq> 0, sv_wsd := ht_wakeup_sd t\<rparr>"
  by (simp add: hrc_view_def)

lemma hview_fields:
  assumes "i < nt_ns N" and "h_streams w (nt_stream N i) = Some s"
  shows "sv_items (hrc_view N w) i = hb_items (st_buffer s)" "sv_n (hrc_view N w) i = st_n_sem s"
    "sv_e (hrc_view N w) i = (if st_type s = LPEL_STREAM_ENTRY then st_e_sem s else 0)" "sv_poll (hrc_view N w) i = (st_is_poll s \<noteq> 0)"
  using assms by (simp_all add: hrc_view_def)

lemma hview_task:
  assumes "h_tasks w (nt_ctask N) = Some t"
  shows "sv_token (hrc_view N w) = (ht_poll_token t \<noteq> 0)" "sv_wsd (hrc_view N w) = ht_wakeup_sd t"
  using assms by (simp_all add: hrc_view_def)

text \<open>What an update of one stream does to network and view, in one step.\<close>

lemma hupd:
  assumes w: "hrc_wf N cap w" and i: "i < nt_ns N" and s: "h_streams w (nt_stream N i) = Some s" "hb_inv (st_buffer s)"
      "finite (dom (entries (st_buffer s)))" "(cap i \<noteq> None) = (st_type s = LPEL_STREAM_ENTRY)"
    and s': "st_buffer s' = st_buffer s" "st_prod_sd s' = st_prod_sd s" "st_cons_sd s' = st_cons_sd s" "st_type s' = st_type s"
  shows "hrc_wf N cap (w\<lparr>h_streams := (h_streams w)(nt_stream N i \<mapsto> s')\<rparr>)"
    "hrc_view N (w\<lparr>h_streams := (h_streams w)(nt_stream N i \<mapsto> s')\<rparr>) =
      (hrc_view N w)\<lparr>sv_n := (sv_n (hrc_view N w))(i := st_n_sem s'),
        sv_e := (sv_e (hrc_view N w))(i := (if st_type s = LPEL_STREAM_ENTRY then st_e_sem s' else 0)),
        sv_poll := (sv_poll (hrc_view N w))(i := st_is_poll s' \<noteq> 0)\<rparr>"
proof -
  show "hrc_wf N cap (w\<lparr>h_streams := (h_streams w)(nt_stream N i \<mapsto> s')\<rparr>)"
    by (rule hwf_upd_stream [OF w i s(1)]) (simp_all add: s s')
  show "hrc_view N (w\<lparr>h_streams := (h_streams w)(nt_stream N i \<mapsto> s')\<rparr>) =
      (hrc_view N w)\<lparr>sv_n := (sv_n (hrc_view N w))(i := st_n_sem s'),
        sv_e := (sv_e (hrc_view N w))(i := (if st_type s = LPEL_STREAM_ENTRY then st_e_sem s' else 0)),
        sv_poll := (sv_poll (hrc_view N w))(i := st_is_poll s' \<noteq> 0)\<rparr>"
    using hview_fields [OF i s(1)] by (simp add: hview_upd_stream [OF w i] s' fun_upd_idem)
qed

lemma hlaw_write_enter:
  assumes w: "hrc_wf N cap w" and i: "i < nt_ns N"
  shows "\<exists>w'. write_enter_hrc w (Some (nt_psd N i)) (Some x) = Inr (cap i \<noteq> None \<and> sv_e (hrc_view N w) i = 0, w') \<and>
    hrc_wf N cap w' \<and> h_sds w' = h_sds w \<and>
    hrc_view N w' = (if cap i = None then hrc_view N w
      else (hrc_view N w)\<lparr>sv_e := (sv_e (hrc_view N w))(i := sv_e (hrc_view N w) i - 1)\<rparr>)"
proof -
  from hwf_stream [OF w i] obtain s p where s: "h_streams w (nt_stream N i) = Some s" "hb_inv (st_buffer s)"
    "finite (dom (entries (st_buffer s)))" "(cap i \<noteq> None) = (st_type s = LPEL_STREAM_ENTRY)"
    "h_sds w (nt_psd N i) = Some p" "sd_stream p = Some (nt_stream N i)" "sd_mode p = CHR ''w''" by metis
  let ?s = "s\<lparr>st_e_sem := st_e_sem s - 1\<rparr>" and ?v = "hrc_view N w"
  let ?w = "w\<lparr>h_streams := (h_streams w)(nt_stream N i \<mapsto> ?s)\<rparr>"
  show ?thesis
  proof (cases "cap i = None")
    case True
    then show ?thesis using s w by (simp add: write_enter_hrc_def)
  next
    case False
    have "hrc_wf N cap ?w" "hrc_view N ?w = ?v\<lparr>sv_e := (sv_e ?v)(i := sv_e ?v i - 1)\<rparr>"
      using hupd [OF w i s(1-4), of ?s] hview_fields [OF i s(1)] s(4) False by (simp_all add: fun_upd_idem)
    then show ?thesis using s False hview_fields [OF i s(1)] by (intro exI [of _ ?w]) (auto simp: write_enter_hrc_def)
  qed
qed

lemma hb_put_exists:
  assumes "hb_inv b" and "finite (dom (entries b))" and "hb_can_put new b"
  obtains b' where "LpelBufferPut_hrc new b (Some x) = Inr b'" "hb_inv b'" "hb_items b' = hb_items b @ [x]" "finite (dom (entries b'))"
proof -
  from assms obtain d as n where r: "hb_rep b d as" and n: "new = Some n" "entries b n = None"
    by (auto simp: hb_inv_iff hb_can_put_def split: option.splits)
  from hb_Put [OF r n(2), of x] obtain b' where b': "LpelBufferPut_hrc (Some n) b (Some x) = Inr b'" "hb_rep b' d (as @ [n])"
    "dom (entries b') = insert n (dom (entries b))" "fld edata (entries b') = (fld edata (entries b))(n \<mapsto> x)" by blast
  from hb_items_Put [OF r n(2) b'(2,4)] b' n assms(2) show ?thesis by (intro that [of b']) (auto simp: hb_inv_iff)
qed

lemma hb_pop_exists:
  assumes "hb_inv b" and "finite (dom (entries b))" and "hb_items b = x # xs"
  obtains b' where "LpelBufferPop_hrc b = Inr b'" "LpelBufferTop_hrc b = Inr (Some x)" "hb_inv b'" "hb_items b' = xs" "finite (dom (entries b'))"
proof -
  from assms(1) obtain d as where r: "hb_rep b d as" by (auto simp: hb_inv_iff)
  with assms(3) obtain a as' where r': "hb_rep b d (a # as')" by (cases as) (auto simp: hb_items_rep)
  from hb_Pop [OF r'] obtain b' where b': "LpelBufferPop_hrc b = Inr b'" "hb_rep b' a as'" "entries b' = (entries b)(d := None)" by blast
  have "hb_items b' = xs" using hb_items_Pop [OF r' b'(2,3)] assms(3) by simp
  moreover have "LpelBufferTop_hrc b = Inr (Some x)" using hb_Top [OF r] assms(3) by simp
  moreover have "finite (dom (entries b'))" using b'(3) assms(2) by simp
  ultimately show ?thesis using b' by (intro that [of b']) (auto simp: hb_inv_iff)
qed

lemma can_put_buffer:
  assumes "can_put w (Some a) new" and "h_sds w a = Some p" "sd_stream p = Some st" "h_streams w st = Some s"
  shows "hb_can_put new (st_buffer s)"
  using assms by (simp add: can_put_def)

lemma hlaw_write_put:
  assumes w: "hrc_wf N cap w" and i: "i < nt_ns N" and sp: "can_put w (Some (nt_psd N i)) new"
  shows "\<exists>pw w'. write_put_hrc new w (Some (nt_psd N i)) (Some x) = Inr (pw, w') \<and> hrc_wf N cap w' \<and> h_sds w' = h_sds w \<and>
    (pw \<noteq> 0 \<longleftrightarrow> sv_poll (hrc_view N w) i \<and> sv_token (hrc_view N w)) \<and>
    hrc_view N w' = (hrc_view N w)\<lparr>sv_items := (sv_items (hrc_view N w))(i := sv_items (hrc_view N w) i @ [x]),
      sv_poll := (sv_poll (hrc_view N w))(i := False),
      sv_token := sv_token (hrc_view N w) \<and> \<not> sv_poll (hrc_view N w) i\<rparr>"
proof -
  let ?v = "hrc_view N w"
  from hwf_stream [OF w i] obtain s p c where s: "h_streams w (nt_stream N i) = Some s" "hb_inv (st_buffer s)"
    "finite (dom (entries (st_buffer s)))" "st_cons_sd s = Some (nt_csd N i)"
    "h_sds w (nt_psd N i) = Some p" "sd_stream p = Some (nt_stream N i)"
    "h_sds w (nt_csd N i) = Some c" "sd_task c = Some (nt_ctask N)" by metis
  obtain t where t: "h_tasks w (nt_ctask N) = Some t" using hwf_task [OF w] .
  note vf = hview_fields [OF i s(1)] and vt = hview_task [OF t]
  obtain b where b: "LpelBufferPut_hrc new (st_buffer s) (Some x) = Inr b" "hb_inv b" "hb_items b = hb_items (st_buffer s) @ [x]"
    "finite (dom (entries b))" by (rule hb_put_exists [OF s(2,3) can_put_buffer [OF sp s(5,6,1)]])
  show ?thesis
  proof (cases "st_is_poll s = 0")
    case True
    let ?s = "s\<lparr>st_buffer := b\<rparr>"
    let ?w = "w\<lparr>h_streams := (h_streams w)(nt_stream N i \<mapsto> ?s)\<rparr>"
    have "hrc_wf N cap ?w" by (rule hwf_upd_stream [OF w i s(1)]) (simp_all add: b)
    moreover have "hrc_view N ?w = ?v\<lparr>sv_items := (sv_items ?v)(i := sv_items ?v i @ [x]), sv_poll := (sv_poll ?v)(i := False),
        sv_token := sv_token ?v \<and> \<not> sv_poll ?v i\<rparr>"
      using vf True by (simp add: hview_upd_stream [OF w i] fun_upd_idem b)
    moreover have "write_put_hrc new w (Some (nt_psd N i)) (Some x) = Inr (0, ?w)"
      using s True b(1) by (simp add: write_put_hrc_def LpelBufferIsSpace_hrc_def)
    ultimately show ?thesis using vf True by (intro exI [of _ 0] exI [of _ ?w]) simp
  next
    case False
    let ?s = "s\<lparr>st_buffer := b, st_is_poll := 0\<rparr>" and ?t = "t\<lparr>ht_poll_token := 0\<rparr>"
    let ?w1 = "w\<lparr>h_tasks := (h_tasks w)(nt_ctask N \<mapsto> ?t)\<rparr>"
    let ?w = "?w1\<lparr>h_streams := (h_streams w)(nt_stream N i \<mapsto> ?s)\<rparr>"
    have w1: "hrc_wf N cap ?w1" by (rule hwf_upd_task [OF w])
    have "hrc_wf N cap (?w1\<lparr>h_streams := (h_streams ?w1)(nt_stream N i \<mapsto> ?s)\<rparr>)"
      by (rule hwf_upd_stream [OF w1 i, of s]) (simp_all add: b s)
    then have "hrc_wf N cap ?w" by simp
    moreover have "hrc_view N ?w = ?v\<lparr>sv_items := (sv_items ?v)(i := sv_items ?v i @ [x]), sv_poll := (sv_poll ?v)(i := False),
        sv_token := sv_token ?v \<and> \<not> sv_poll ?v i\<rparr>"
      using vf vt False hview_upd_stream [OF w1 i, of ?s] by (simp add: hview_upd_task fun_upd_idem b)
    moreover have "write_put_hrc new w (Some (nt_psd N i)) (Some x) = Inr (ht_poll_token t, ?w)"
      using s t False b(1) by (simp add: write_put_hrc_def LpelBufferIsSpace_hrc_def)
    ultimately show ?thesis using vf vt False by (intro exI [of _ "ht_poll_token t"] exI [of _ ?w]) simp
  qed
qed

lemma hlaw_can_alloc:
  assumes w: "hrc_wf N cap w" and i: "i < nt_ns N"
  shows "\<exists>new. can_put w (Some (nt_psd N i)) new"
proof -
  from hwf_stream [OF w i] obtain s p where s: "h_streams w (nt_stream N i) = Some s" "finite (dom (entries (st_buffer s)))"
    "h_sds w (nt_psd N i) = Some p" "sd_stream p = Some (nt_stream N i)" by metis
  obtain a where "a \<notin> dom (entries (st_buffer s))" using ex_new_if_finite [OF infinite_UNIV_nat s(2)] by blast
  then show ?thesis using s by (intro exI [of _ "Some a"]) (auto simp: can_put_def hb_can_put_def)
qed

lemma hlaw_write_signal:
  assumes w: "hrc_wf N cap w" and i: "i < nt_ns N"
  shows "\<exists>w'. signal_count write_count (Some (nt_psd N i)) (write_signal_hrc w (Some (nt_psd N i)) pw) =
      Inr (if sv_n (hrc_view N w) i < 0 \<or> pw \<noteq> 0 then Some (Some (nt_ctask N)) else None, w') \<and> hrc_wf N cap w' \<and> h_sds w' = h_sds w \<and>
    hrc_view N w' = (hrc_view N w)\<lparr>sv_n := (sv_n (hrc_view N w))(i := sv_n (hrc_view N w) i + 1),
      sv_wsd := (if \<not> sv_n (hrc_view N w) i < 0 \<and> pw \<noteq> 0 then Some (nt_csd N i) else sv_wsd (hrc_view N w))\<rparr>"
proof -
  let ?v = "hrc_view N w"
  from hwf_stream [OF w i] obtain s p c where s: "h_streams w (nt_stream N i) = Some s" "hb_inv (st_buffer s)"
    "finite (dom (entries (st_buffer s)))" "(cap i \<noteq> None) = (st_type s = LPEL_STREAM_ENTRY)"
    "st_cons_sd s = Some (nt_csd N i)" "h_sds w (nt_psd N i) = Some p" "sd_stream p = Some (nt_stream N i)"
    "h_sds w (nt_csd N i) = Some c" "sd_task c = Some (nt_ctask N)" by metis
  obtain t where t: "h_tasks w (nt_ctask N) = Some t" using hwf_task [OF w] .
  note vf = hview_fields [OF i s(1)] and vt = hview_task [OF t]
  let ?s = "s\<lparr>st_n_sem := st_n_sem s + 1, st_write_cnt := st_write_cnt s + 1\<rparr>"
  let ?w = "w\<lparr>h_streams := (h_streams w)(nt_stream N i \<mapsto> ?s)\<rparr>"
  have wf: "hrc_wf N cap ?w" and v: "hrc_view N ?w = ?v\<lparr>sv_n := (sv_n ?v)(i := sv_n ?v i + 1)\<rparr>"
    using hupd [OF w i s(1-4), of ?s] vf by (simp_all add: fun_upd_idem)
  show ?thesis
  proof (cases "\<not> st_n_sem s < 0 \<and> pw \<noteq> 0")
    case True
    let ?t = "t\<lparr>ht_wakeup_sd := Some (nt_csd N i)\<rparr>"
    let ?w' = "?w\<lparr>h_tasks := (h_tasks w)(nt_ctask N \<mapsto> ?t)\<rparr>"
    have "hrc_wf N cap ?w'" using hwf_upd_task [OF wf, of ?t] by simp
    moreover have "hrc_view N ?w' = ?v\<lparr>sv_n := (sv_n ?v)(i := sv_n ?v i + 1), sv_wsd := Some (nt_csd N i)\<rparr>"
      using hview_upd_task [of N ?w ?t] v vt by simp
    ultimately show ?thesis using True s t vf by (intro exI [of _ ?w']) (simp add: write_signal_hrc_def signal_count_def write_count_def)
  next
    case False
    then show ?thesis using wf v s vf by (intro exI [of _ ?w]) (auto simp: write_signal_hrc_def signal_count_def write_count_def)
  qed
qed

lemma hlaw_read_enter:
  assumes w: "hrc_wf N cap w" and i: "i < nt_ns N"
  shows "\<exists>w'. read_enter_hrc w (Some (nt_csd N i)) = Inr (sv_n (hrc_view N w) i = 0, w') \<and> hrc_wf N cap w' \<and> h_sds w' = h_sds w \<and>
    hrc_view N w' = (hrc_view N w)\<lparr>sv_n := (sv_n (hrc_view N w))(i := sv_n (hrc_view N w) i - 1)\<rparr>"
proof -
  from hwf_stream [OF w i] obtain s c where s: "h_streams w (nt_stream N i) = Some s" "hb_inv (st_buffer s)"
    "finite (dom (entries (st_buffer s)))" "(cap i \<noteq> None) = (st_type s = LPEL_STREAM_ENTRY)"
    "h_sds w (nt_csd N i) = Some c" "sd_stream c = Some (nt_stream N i)" "sd_mode c = CHR ''r''" by metis
  let ?s = "s\<lparr>st_n_sem := st_n_sem s - 1\<rparr>" and ?v = "hrc_view N w"
  let ?w = "w\<lparr>h_streams := (h_streams w)(nt_stream N i \<mapsto> ?s)\<rparr>"
  have "hrc_wf N cap ?w" "hrc_view N ?w = ?v\<lparr>sv_n := (sv_n ?v)(i := sv_n ?v i - 1)\<rparr>"
    using hupd [OF w i s(1-4), of ?s] hview_fields [OF i s(1)] by (simp_all add: fun_upd_idem)
  then show ?thesis using s hview_fields [OF i s(1)] by (intro exI [of _ ?w]) (simp add: read_enter_hrc_def)
qed

lemma hlaw_read_pop:
  assumes w: "hrc_wf N cap w" and i: "i < nt_ns N" and x: "sv_items (hrc_view N w) i = x # xs"
  shows "\<exists>w'. read_pop_hrc w (Some (nt_csd N i)) = Inr (Some x, w') \<and> hrc_wf N cap w' \<and> h_sds w' = h_sds w \<and>
    hrc_view N w' = (hrc_view N w)\<lparr>sv_items := (sv_items (hrc_view N w))(i := xs)\<rparr>"
proof -
  from hwf_stream [OF w i] obtain s c where s: "h_streams w (nt_stream N i) = Some s" "hb_inv (st_buffer s)"
    "finite (dom (entries (st_buffer s)))" "h_sds w (nt_csd N i) = Some c" "sd_stream c = Some (nt_stream N i)" by metis
  have it: "hb_items (st_buffer s) = x # xs" using x hview_fields(1) [OF i s(1)] by simp
  obtain b where b: "LpelBufferPop_hrc (st_buffer s) = Inr b" "LpelBufferTop_hrc (st_buffer s) = Inr (Some x)" "hb_inv b" "hb_items b = xs"
    "finite (dom (entries b))" by (rule hb_pop_exists [OF s(2,3) it])
  let ?s = "s\<lparr>st_buffer := b\<rparr>" and ?v = "hrc_view N w"
  let ?w = "w\<lparr>h_streams := (h_streams w)(nt_stream N i \<mapsto> ?s)\<rparr>"
  have "hrc_wf N cap ?w" by (rule hwf_upd_stream [OF w i s(1)]) (simp_all add: b)
  moreover have "hrc_view N ?w = ?v\<lparr>sv_items := (sv_items ?v)(i := xs)\<rparr>"
    using hview_fields [OF i s(1)] by (simp add: hview_upd_stream [OF w i] fun_upd_idem b)
  ultimately show ?thesis using s b(1,2) by (intro exI [of _ ?w]) (simp add: read_pop_hrc_def)
qed

lemma hlaw_read_signal:
  assumes w: "hrc_wf N cap w" and i: "i < nt_ns N"
  shows "\<exists>w'. signal_count read_count (Some (nt_csd N i)) (read_signal_hrc w (Some (nt_csd N i))) =
      Inr (if cap i \<noteq> None \<and> sv_e (hrc_view N w) i < 0 then Some (Some (nt_ptask N i)) else None, w') \<and> hrc_wf N cap w' \<and>
    h_sds w' = h_sds w \<and>
    hrc_view N w' = (if cap i = None then hrc_view N w
      else (hrc_view N w)\<lparr>sv_e := (sv_e (hrc_view N w))(i := sv_e (hrc_view N w) i + 1)\<rparr>)"
proof -
  from hwf_stream [OF w i] obtain s p c where s: "h_streams w (nt_stream N i) = Some s" "hb_inv (st_buffer s)"
    "finite (dom (entries (st_buffer s)))" "(cap i \<noteq> None) = (st_type s = LPEL_STREAM_ENTRY)" "st_prod_sd s = Some (nt_psd N i)"
    "h_sds w (nt_psd N i) = Some p" "sd_task p = Some (nt_ptask N i)"
    "h_sds w (nt_csd N i) = Some c" "sd_stream c = Some (nt_stream N i)" by metis
  let ?s = "if st_type s = LPEL_STREAM_ENTRY then s\<lparr>st_e_sem := st_e_sem s + 1, st_read_cnt := st_read_cnt s + 1\<rparr>
      else s\<lparr>st_read_cnt := st_read_cnt s + 1\<rparr>" and ?v = "hrc_view N w"
  let ?w = "w\<lparr>h_streams := (h_streams w)(nt_stream N i \<mapsto> ?s)\<rparr>"
  note vf = hview_fields [OF i s(1)]
  have wf: "hrc_wf N cap ?w" using hupd(1) [OF w i s(1-4), of ?s] by simp
  have v: "hrc_view N ?w = (if cap i = None then ?v else ?v\<lparr>sv_e := (sv_e ?v)(i := sv_e ?v i + 1)\<rparr>)"
    using hupd(2) [OF w i s(1-4), of ?s] vf s(4) by (auto simp: fun_upd_idem)
  have "signal_count read_count (Some (nt_csd N i)) (read_signal_hrc w (Some (nt_csd N i))) =
      Inr (if cap i \<noteq> None \<and> sv_e ?v i < 0 then Some (Some (nt_ptask N i)) else None, ?w)"
    using s vf by (cases "st_type s = LPEL_STREAM_ENTRY") (simp_all add: read_signal_hrc_def signal_count_def read_count_def)
  with wf v show ?thesis by (intro exI [of _ ?w]) simp
qed

lemma sd_mem_simps [simp]:
  "sds (sd_mem m) = h_sds (hm_store m)" "handles (sd_mem m) = hm_handles m"
  "h_sds w = h_sds (hm_store m) \<Longrightarrow> sd_mem (m\<lparr>hm_store := w\<rparr>) = sd_mem m"
  "sd_mem (m\<lparr>hm_handles := hs\<rparr>) = (sd_mem m)\<lparr>handles := hs\<rparr>"
  by (simp_all add: sd_mem_def)

lemma hlaw_set_handle:
  assumes w: "hrc_wf N cap (hm_store m)" and r: "ss_rep (sd_mem m) (nt_handle N) (ys @ y # zs)"
  shows "\<exists>m'. set_handle_hrc m (Some (nt_handle N)) (Some y) = Inr m' \<and> hrc_wf N cap (hm_store m') \<and>
    hrc_view N (hm_store m') = hrc_view N (hm_store m) \<and> ss_rep (sd_mem m') (nt_handle N) (zs @ ys @ [y])"
proof -
  from r obtain s where "hm_handles m (nt_handle N) = Some s" by (rule ss_repE) simp
  then show ?thesis using w ss_rep_rotate [OF r] by (simp add: set_handle_hrc_def)
qed

lemma hlaw_poll_finish:
  assumes w: "hrc_wf N cap (hm_store m)" and r: "ss_rep (sd_mem m) (nt_handle N) (ys @ y # zs)"
    and y: "sv_wsd (hrc_view N (hm_store m)) = Some y"
  shows "\<exists>m'. poll_finish_hrc m (Some (nt_handle N)) (Some (nt_ctask N)) = Inr (Some y, m') \<and> hrc_wf N cap (hm_store m') \<and>
    hrc_view N (hm_store m') = hrc_view N (hm_store m) \<and> ss_rep (sd_mem m') (nt_handle N) (zs @ ys @ [y])"
proof -
  obtain t where t: "h_tasks (hm_store m) (nt_ctask N) = Some t" using hwf_task [OF w] .
  then have "ht_wakeup_sd t = Some y" using y hview_task(2) [OF t] by simp
  with t hlaw_set_handle [OF w r] show ?thesis by (auto simp: poll_finish_hrc_def)
qed

lemma hlaw_poll_begin:
  assumes w: "hrc_wf N cap (hm_store m)" and r: "ss_rep (sd_mem m) (nt_handle N) (map (nt_csd N) xs)"
    and xs: "xs \<noteq> []" "set xs \<subseteq> {..<nt_ns N}"
  shows "\<exists>it. poll_begin_hrc m (Some (nt_handle N)) = Inr (Some (nt_ctask N), it) \<and> it_rep (sd_mem m) it [] (map (nt_csd N) xs)"
proof -
  from r obtain s where s: "hm_handles m (nt_handle N) = Some s" "clist (fld sd_next (h_sds (hm_store m))) s (map (nt_csd N) xs)"
    by (rule ss_repE) simp
  then have s': "s = Some (nt_csd N (last xs))" using xs(1) by (simp add: clist_def last_map)
  have "last xs < nt_ns N" using xs last_in_set by blast
  from hwf_stream [OF w this] obtain c where c: "h_sds (hm_store m) (nt_csd N (last xs)) = Some c" "sd_task c = Some (nt_ctask N)" by metis
  from iter_create [OF r] show ?thesis using s(1) s' c by (auto simp: poll_begin_hrc_def)
qed

lemma hlaw_poll_ends:
  assumes "it_rep (sd_mem m) it ds []"
  shows "poll_fast_hrc m it = Inr None" "poll_register_hrc m self it = Inr PollEnd" "poll_unregister_hrc m it = Inr None"
  using iter_has_next [OF assms] by (simp_all add: poll_fast_hrc_def poll_register_hrc_def poll_unregister_hrc_def)

lemma hnext_stream:
  assumes w: "hrc_wf N cap (hm_store m)" and i: "i < nt_ns N" and r: "it_rep (sd_mem m) it ds (nt_csd N i # todo)"
  obtains it' s c where "LpelStreamIterHasNext (sd_mem m) it = Inr True" "LpelStreamIterNext (sd_mem m) it = Inr (Some (nt_csd N i), it')"
    "it_rep (sd_mem m) it' (ds @ [nt_csd N i]) todo" "h_streams (hm_store m) (nt_stream N i) = Some s" "hb_inv (st_buffer s)"
    "finite (dom (entries (st_buffer s)))" "(cap i \<noteq> None) = (st_type s = LPEL_STREAM_ENTRY)"
    "h_sds (hm_store m) (nt_csd N i) = Some c" "sd_stream c = Some (nt_stream N i)"
    "\<exists>top. LpelBufferTop_hrc (st_buffer s) = Inr top \<and> (top = None \<longleftrightarrow> sv_items (hrc_view N (hm_store m)) i = [])"
proof -
  from hwf_stream [OF w i] obtain s c where s: "h_streams (hm_store m) (nt_stream N i) = Some s" "hb_inv (st_buffer s)"
    "finite (dom (entries (st_buffer s)))" "(cap i \<noteq> None) = (st_type s = LPEL_STREAM_ENTRY)"
    "h_sds (hm_store m) (nt_csd N i) = Some c" "sd_stream c = Some (nt_stream N i)" by metis
  have "LpelStreamIterHasNext (sd_mem m) it = Inr True" using iter_has_next [OF r] by simp
  moreover from iter_next [OF r] obtain it' where "LpelStreamIterNext (sd_mem m) it = Inr (Some (nt_csd N i), it')"
    "it_rep (sd_mem m) it' (ds @ [nt_csd N i]) todo" by blast
  moreover from s(2) obtain d as where "hb_rep (st_buffer s) d as" by (auto simp: hb_inv_iff)
  from hb_Top [OF this] have "\<exists>top. LpelBufferTop_hrc (st_buffer s) = Inr top \<and> (top = None \<longleftrightarrow> sv_items (hrc_view N (hm_store m)) i = [])"
    using hview_fields(1) [OF i s(1)] by (auto split: list.splits)
  ultimately show ?thesis using s that by blast
qed

lemma hlaw_poll_fast:
  assumes w: "hrc_wf N cap (hm_store m)" and i: "i < nt_ns N" and r: "it_rep (sd_mem m) it ds (nt_csd N i # todo)"
  shows "\<exists>it'. poll_fast_hrc m it = Inr (Some (Some (nt_csd N i), sv_items (hrc_view N (hm_store m)) i \<noteq> [], it')) \<and>
    it_rep (sd_mem m) it' (ds @ [nt_csd N i]) todo"
  by (rule hnext_stream [OF w i r]) (auto simp: poll_fast_hrc_def)

lemma hlaw_poll_token:
  assumes w: "hrc_wf N cap (hm_store m)" and r: "ss_rep (sd_mem m) (nt_handle N) ys"
  shows "\<exists>it' m'. poll_token_hrc m (Some (nt_handle N)) (Some (nt_ctask N)) it = Inr (it', m') \<and> hrc_wf N cap (hm_store m') \<and>
    sd_mem m' = sd_mem m \<and> it_rep (sd_mem m) it' [] ys \<and> hrc_view N (hm_store m') = (hrc_view N (hm_store m))\<lparr>sv_token := True\<rparr>"
proof -
  obtain t where t: "h_tasks (hm_store m) (nt_ctask N) = Some t" using hwf_task [OF w] .
  let ?w = "(hm_store m)\<lparr>h_tasks := (h_tasks (hm_store m))(nt_ctask N \<mapsto> t\<lparr>ht_poll_token := 1\<rparr>)\<rparr>"
  have "hrc_wf N cap ?w" by (rule hwf_upd_task [OF w])
  moreover have "hrc_view N ?w = (hrc_view N (hm_store m))\<lparr>sv_token := True\<rparr>" using hview_task [OF t] by (simp add: hview_upd_task)
  ultimately show ?thesis using iter_reset [OF r, of it] t by (auto simp: poll_token_hrc_def)
qed

lemma hlaw_poll_awake:
  assumes w: "hrc_wf N cap (hm_store m)" and r: "ss_rep (sd_mem m) (nt_handle N) ys" and tk: "\<not> sv_token (hrc_view N (hm_store m))"
  shows "\<exists>it'. poll_awake_hrc m (Some (nt_handle N)) (Some (nt_ctask N)) it = Inr it' \<and> it_rep (sd_mem m) it' [] ys"
proof -
  obtain t where t: "h_tasks (hm_store m) (nt_ctask N) = Some t" using hwf_task [OF w] .
  then show ?thesis using iter_reset [OF r, of it] tk hview_task(1) [OF t] by (auto simp: poll_awake_hrc_def)
qed

lemma hlaw_poll_register_hit:
  assumes w: "hrc_wf N cap (hm_store m)" and i: "i < nt_ns N" and r: "it_rep (sd_mem m) it ds (nt_csd N i # todo)"
    and ne: "sv_items (hrc_view N (hm_store m)) i \<noteq> []"
  shows "\<exists>m'. poll_register_hrc m (Some (nt_ctask N)) it = Inr (PollHit (sv_token (hrc_view N (hm_store m))) m') \<and>
    hrc_wf N cap (hm_store m') \<and> sd_mem m' = sd_mem m \<and> hrc_view N (hm_store m') = (hrc_view N (hm_store m))\<lparr>sv_token := False,
      sv_wsd := (if sv_token (hrc_view N (hm_store m)) then Some (nt_csd N i) else sv_wsd (hrc_view N (hm_store m)))\<rparr>"
proof (rule hnext_stream [OF w i r])
  fix it' s c
  assume s: "LpelStreamIterHasNext (sd_mem m) it = Inr True" "LpelStreamIterNext (sd_mem m) it = Inr (Some (nt_csd N i), it')"
    "h_streams (hm_store m) (nt_stream N i) = Some s" "h_sds (hm_store m) (nt_csd N i) = Some c" "sd_stream c = Some (nt_stream N i)"
    and "\<exists>top. LpelBufferTop_hrc (st_buffer s) = Inr top \<and> (top = None \<longleftrightarrow> sv_items (hrc_view N (hm_store m)) i = [])"
  then obtain x where x: "LpelBufferTop_hrc (st_buffer s) = Inr (Some x)" using ne by auto
  obtain t where t: "h_tasks (hm_store m) (nt_ctask N) = Some t" using hwf_task [OF w] .
  note vt = hview_task [OF t]
  let ?t = "if ht_poll_token t \<noteq> 0 then t\<lparr>ht_poll_token := 0, ht_wakeup_sd := Some (nt_csd N i)\<rparr> else t\<lparr>ht_poll_token := 0\<rparr>"
  let ?w = "(hm_store m)\<lparr>h_tasks := (h_tasks (hm_store m))(nt_ctask N \<mapsto> ?t)\<rparr>"
  have "hrc_wf N cap ?w" by (rule hwf_upd_task [OF w])
  moreover have "hrc_view N ?w = (hrc_view N (hm_store m))\<lparr>sv_token := False,
      sv_wsd := (if sv_token (hrc_view N (hm_store m)) then Some (nt_csd N i) else sv_wsd (hrc_view N (hm_store m)))\<rparr>"
    using vt by (simp add: hview_upd_task)
  moreover have "poll_register_hrc m (Some (nt_ctask N)) it = Inr (PollHit (ht_poll_token t \<noteq> 0) (m\<lparr>hm_store := ?w\<rparr>))"
    using s x t by (simp add: poll_register_hrc_def)
  ultimately show ?thesis using vt by (intro exI [of _ "m\<lparr>hm_store := ?w\<rparr>"]) simp
qed

lemma hlaw_poll_register_mark:
  assumes w: "hrc_wf N cap (hm_store m)" and i: "i < nt_ns N" and r: "it_rep (sd_mem m) it ds (nt_csd N i # todo)"
    and e: "sv_items (hrc_view N (hm_store m)) i = []"
  shows "\<exists>it' m'. poll_register_hrc m (Some (nt_ctask N)) it = Inr (PollMark it' m') \<and> hrc_wf N cap (hm_store m') \<and>
    sd_mem m' = sd_mem m \<and> it_rep (sd_mem m) it' (ds @ [nt_csd N i]) todo \<and>
    hrc_view N (hm_store m') = (hrc_view N (hm_store m))\<lparr>sv_poll := (sv_poll (hrc_view N (hm_store m)))(i := True)\<rparr>"
proof (rule hnext_stream [OF w i r])
  fix it' s c
  assume s: "LpelStreamIterHasNext (sd_mem m) it = Inr True" "LpelStreamIterNext (sd_mem m) it = Inr (Some (nt_csd N i), it')"
    "it_rep (sd_mem m) it' (ds @ [nt_csd N i]) todo" "h_sds (hm_store m) (nt_csd N i) = Some c" "sd_stream c = Some (nt_stream N i)"
    and b: "h_streams (hm_store m) (nt_stream N i) = Some s" "hb_inv (st_buffer s)" "finite (dom (entries (st_buffer s)))"
    "(cap i \<noteq> None) = (st_type s = LPEL_STREAM_ENTRY)"
    and "\<exists>top. LpelBufferTop_hrc (st_buffer s) = Inr top \<and> (top = None \<longleftrightarrow> sv_items (hrc_view N (hm_store m)) i = [])"
  then have x: "LpelBufferTop_hrc (st_buffer s) = Inr None" using e by auto
  let ?s = "s\<lparr>st_is_poll := 1\<rparr>" and ?v = "hrc_view N (hm_store m)"
  let ?w = "(hm_store m)\<lparr>h_streams := (h_streams (hm_store m))(nt_stream N i \<mapsto> ?s)\<rparr>"
  have "hrc_wf N cap ?w" "hrc_view N ?w = ?v\<lparr>sv_poll := (sv_poll ?v)(i := True)\<rparr>"
    using hupd [OF w i b, of ?s] hview_fields [OF i b(1)] by (simp_all add: fun_upd_idem)
  moreover have "poll_register_hrc m (Some (nt_ctask N)) it = Inr (PollMark it' (m\<lparr>hm_store := ?w\<rparr>))"
    using s b x by (simp add: poll_register_hrc_def)
  ultimately show ?thesis using s(3) by (intro exI [of _ it'] exI [of _ "m\<lparr>hm_store := ?w\<rparr>"]) simp
qed

lemma hlaw_poll_unregister:
  assumes w: "hrc_wf N cap (hm_store m)" and i: "i < nt_ns N" and r: "it_rep (sd_mem m) it ds (nt_csd N i # todo)"
  shows "\<exists>it' m'. poll_unregister_hrc m it = Inr (Some (it', m')) \<and> hrc_wf N cap (hm_store m') \<and> sd_mem m' = sd_mem m \<and>
    it_rep (sd_mem m) it' (ds @ [nt_csd N i]) todo \<and>
    hrc_view N (hm_store m') = (hrc_view N (hm_store m))\<lparr>sv_poll := (sv_poll (hrc_view N (hm_store m)))(i := False)\<rparr>"
proof (rule hnext_stream [OF w i r])
  fix it' s c
  assume s: "LpelStreamIterHasNext (sd_mem m) it = Inr True" "LpelStreamIterNext (sd_mem m) it = Inr (Some (nt_csd N i), it')"
    "it_rep (sd_mem m) it' (ds @ [nt_csd N i]) todo" "h_sds (hm_store m) (nt_csd N i) = Some c" "sd_stream c = Some (nt_stream N i)"
    and b: "h_streams (hm_store m) (nt_stream N i) = Some s" "hb_inv (st_buffer s)" "finite (dom (entries (st_buffer s)))"
    "(cap i \<noteq> None) = (st_type s = LPEL_STREAM_ENTRY)"
  let ?s = "s\<lparr>st_is_poll := 0\<rparr>" and ?v = "hrc_view N (hm_store m)"
  let ?w = "(hm_store m)\<lparr>h_streams := (h_streams (hm_store m))(nt_stream N i \<mapsto> ?s)\<rparr>"
  have "hrc_wf N cap ?w" "hrc_view N ?w = ?v\<lparr>sv_poll := (sv_poll ?v)(i := False)\<rparr>"
    using hupd [OF w i b, of ?s] hview_fields [OF i b(1)] by (simp_all add: fun_upd_idem)
  moreover have "poll_unregister_hrc m it = Inr (Some (it', m\<lparr>hm_store := ?w\<rparr>))"
    using s b by (simp add: poll_unregister_hrc_def)
  ultimately show ?thesis using s(3) by (intro exI [of _ it'] exI [of _ "m\<lparr>hm_store := ?w\<rparr>"]) simp
qed

text \<open>Laws of the store, lifted to the memory with the set handles.\<close>

lemma lift_law:
  assumes "\<exists>w'. f = Inr (x, w') \<and> P w' \<and> h_sds w' = h_sds (hm_store m) \<and> Q w'"
  shows "\<exists>m'. lift_sec m f = Inr (x, m') \<and> P (hm_store m') \<and> sd_mem m' = sd_mem m \<and> Q (hm_store m')"
proof -
  from assms obtain w' where "f = Inr (x, w')" "P w'" "h_sds w' = h_sds (hm_store m)" "Q w'" by blast
  then show ?thesis by (intro exI [of _ "m\<lparr>hm_store := w'\<rparr>"]) simp
qed

interpretation hrc: stream_sections hrc_ops N cap "\<lambda>m. hrc_wf N cap (hm_store m)" "\<lambda>m. hrc_view N (hm_store m)" for N cap
proof (unfold_locales, goal_cases)
  case 1 then show ?case by (simp add: hrc_wf_def)
next
  case 2 then show ?case using lift_law [OF hlaw_write_enter] by simp
next
  case (3 m i new x)
  from 3 hlaw_write_put [of N cap "hm_store m" i new x] obtain pw w' where
    p: "write_put_hrc new (hm_store m) (Some (nt_psd N i)) (Some x) = Inr (pw, w')" "hrc_wf N cap w'" "h_sds w' = h_sds (hm_store m)"
    "pw \<noteq> 0 \<longleftrightarrow> sv_poll (hrc_view N (hm_store m)) i \<and> sv_token (hrc_view N (hm_store m))"
    "hrc_view N w' = (hrc_view N (hm_store m))\<lparr>sv_items := (sv_items (hrc_view N (hm_store m)))(i := sv_items (hrc_view N (hm_store m)) i @ [x]),
      sv_poll := (sv_poll (hrc_view N (hm_store m)))(i := False),
      sv_token := sv_token (hrc_view N (hm_store m)) \<and> \<not> sv_poll (hrc_view N (hm_store m)) i\<rparr>"
    by auto
  then show ?case by (intro exI [of _ pw] exI [of _ "m\<lparr>hm_store := w'\<rparr>"]) simp
next
  case 4 then show ?case using hlaw_can_alloc by simp
next
  case 5 then show ?case using lift_law [OF hlaw_write_signal] by simp
next
  case 6 then show ?case using lift_law [OF hlaw_read_enter] by simp
next
  case 7 then show ?case using lift_law [OF hlaw_read_pop] by simp
next
  case 8 then show ?case using lift_law [OF hlaw_read_signal] by simp
next
  case 9 then show ?case using hlaw_poll_begin by simp
next
  case 10 then show ?case using hlaw_poll_ends(1) by simp
next
  case 11 then show ?case using hlaw_poll_fast by simp
next
  case 12 then show ?case using hlaw_poll_token by simp
next
  case 13 then show ?case using hlaw_poll_ends(2) by simp
next
  case 14 then show ?case using hlaw_poll_register_hit by simp
next
  case 15 then show ?case using hlaw_poll_register_mark by simp
next
  case 16 then show ?case using hlaw_poll_awake by simp
next
  case 17 then show ?case using hlaw_poll_ends(3) by simp
next
  case 18 then show ?case using hlaw_poll_unregister by simp
next
  case 19 then show ?case using hlaw_poll_finish by simp
next
  case 20 then show ?case using hlaw_set_handle by simp
qed

section \<open>Runs\<close>

text \<open>A consumer task 50 with an entry stream of capacity 1, written by 40, and an inner stream, written by 41.\<close>

definition ex_hnet :: net where
  "ex_hnet = \<lparr>nt_ns = 2, nt_stream = (\<lambda>i. 10 + i), nt_psd = (\<lambda>i. 20 + i), nt_csd = (\<lambda>i. 30 + i), nt_ptask = (\<lambda>i. 40 + i),
     nt_ctask = 50, nt_handle = 60\<rparr>"

definition ex_hbuf :: buffer_hrc where
  "ex_hbuf = \<lparr>bhead = Some 1, btail = Some 1, entries = [1 \<mapsto> \<lparr>edata = None, enext = None\<rparr>]\<rparr>"

definition ex_hstream :: "nat \<Rightarrow> lpel_stream_type \<Rightarrow> hrc_stream_t" where
  "ex_hstream i tp = \<lparr>st_buffer = ex_hbuf, st_uid = 0, st_is_poll = 0, st_prod_sd = Some (20 + i), st_cons_sd = Some (30 + i),
     st_n_sem = 0, st_e_sem = 1, st_usr_data = None, st_next = None, st_type = tp, st_read_cnt = 0, st_write_cnt = 0\<rparr>"

definition ex_hdesc :: "addr \<Rightarrow> addr \<Rightarrow> char \<Rightarrow> ptr \<Rightarrow> lpel_stream_desc_t" where
  "ex_hdesc t s md n = \<lparr>sd_task = Some t, sd_stream = Some s, sd_mode = md, sd_next = n, sd_mon = None\<rparr>"

definition ex_hworld :: hrc_mem where
  "ex_hworld = \<lparr>hm_store = \<lparr>h_tasks = [40 \<mapsto> ex_htask 0, 41 \<mapsto> ex_htask 0, 50 \<mapsto> ex_htask 0],
       h_streams = [10 \<mapsto> ex_hstream 0 LPEL_STREAM_ENTRY, 11 \<mapsto> ex_hstream 1 LPEL_STREAM_MIDDLE],
       h_sds = [20 \<mapsto> ex_hdesc 40 10 (CHR ''w'') None, 21 \<mapsto> ex_hdesc 41 11 (CHR ''w'') None,
         30 \<mapsto> ex_hdesc 50 10 (CHR ''r'') (Some 31), 31 \<mapsto> ex_hdesc 50 11 (CHR ''r'') (Some 30)], h_elems = Map.empty\<rparr>,
     hm_workers = Map.empty, hm_handles = [60 \<mapsto> Some 31]\<rparr>"

definition ex_hcap :: "nat \<Rightarrow> nat option" where "ex_hcap i = (if i = 0 then Some 1 else None)"

definition ex_hsys :: "hrc_mem ssys" where
  "ex_hsys = \<lparr>sy_store = ex_hworld, sy_wpc = (\<lambda>_. QIdle), sy_cpc = DIdle, sy_wakes = (\<lambda>_. 0), sy_sent = (\<lambda>_. []), sy_got = (\<lambda>_. []),
     sy_ret = None\<rparr>"

lemmas ex_hdefs = ex_hnet_def ex_hstream_def ex_hdesc_def ex_hworld_def ex_hcap_def ex_hsys_def ex_htask_def

lemma ex_hbuf_rep: "hb_rep ex_hbuf 1 []"
  by (simp add: hb_rep_def ex_hbuf_def nlist_def)

lemma ex_hbuf_ok: "hb_inv ex_hbuf" "hb_items ex_hbuf = []" "finite (dom (entries ex_hbuf))"
  using ex_hbuf_rep hb_items_rep [OF ex_hbuf_rep] by (auto simp: hb_inv_iff) (simp add: ex_hbuf_def)

lemma below2: "(i::nat) < 2 \<longleftrightarrow> i = 0 \<or> i = 1"
  by auto

lemma ex_hwf: "hrc_wf ex_hnet ex_hcap (hm_store ex_hworld)"
  by (auto simp: hrc_wf_def net_ok_def hsd_ok_def ex_hdefs inj_on_def below2 ex_hbuf_ok)

lemma ex_hinit: "sys_init hrc_ops ex_hnet ex_hcap (\<lambda>m. hrc_wf ex_hnet ex_hcap (hm_store m)) (\<lambda>m. hrc_view ex_hnet (hm_store m)) [0, 1] ex_hsys"
proof -
  have "ss_rep (sd_mem ex_hworld) 60 [30, 31]" by (simp add: ss_rep_def clist_def fld_def ex_hdefs)
  then show ?thesis using ex_hwf
    by (auto simp: sys_init_def hrc_view_def at_idx_def below2 ex_hbuf_ok ex_hdefs)
qed

text \<open>
  C3: The same for the hierarchical scheduler's streams: in any interleaving of producers and a reading and
  polling consumer no assertion and no dereference fails, each stream delivers its items in order,
  entry streams stay within their bound, and no wakeup is lost; only producers of entry streams ever block.
\<close>

theorem hrc_stream_safety:
  assumes "sys_init hrc_ops N cap (\<lambda>m. hrc_wf N cap (hm_store m)) (\<lambda>m. hrc_view N (hm_store m)) xs s"
    and "run_events (exec hrc_ops N) evs s = Some r"
  shows "\<exists>s'. r = Inr s' \<and> (\<forall>i < nt_ns N. str_good cap N (hrc_view N (hm_store (sy_store s'))) s' i) \<and>
    poll_good N (hrc_view N (hm_store (sy_store s'))) (sd_mem (sy_store s')) s'"
  using hrc.run_good [OF assms] by simp

lemmas ex_heval = ex_hdefs ex_hbuf_def at_idx_def write_enter_hrc_def write_put_hrc_def write_signal_hrc_def read_enter_hrc_def
  read_pop_hrc_def write_count_def signal_count_def wake_task_def can_put_def hb_can_put_def LpelBufferIsSpace_hrc_def
  LpelBufferPut_hrc_def createEntry_def LpelBufferTop_hrc_def LpelBufferPop_hrc_def

theorem hrc_stream_safety_witness:
  "\<exists>s'. run_events (exec hrc_ops ex_hnet) [EvWrite 0 7, EvPut 0 (Some 2), EvSignal 0, EvWrite 0 8, EvRead 0, EvPop] ex_hsys = Some (Inr s') \<and>
     sy_wpc s' 0 = QBlocked 8 \<and> sy_got s' 0 = [7] \<and>
     (\<forall>i < nt_ns ex_hnet. str_good ex_hcap ex_hnet (hrc_view ex_hnet (hm_store (sy_store s'))) s' i) \<and>
     poll_good ex_hnet (hrc_view ex_hnet (hm_store (sy_store s'))) (sd_mem (sy_store s')) s'"
proof -
  let ?evs = "[EvWrite 0 7, EvPut 0 (Some 2), EvSignal 0, EvWrite 0 8, EvRead 0, EvPop]"
  have "\<exists>s'. run_events (exec hrc_ops ex_hnet) ?evs ex_hsys = Some (Inr s') \<and> sy_wpc s' 0 = QBlocked 8 \<and> sy_got s' 0 = [7]"
    by (simp add: ex_heval)
  then obtain s' where s': "run_events (exec hrc_ops ex_hnet) ?evs ex_hsys = Some (Inr s')" "sy_wpc s' 0 = QBlocked 8" "sy_got s' 0 = [7]"
    by blast
  from hrc_stream_safety [OF ex_hinit s'(1)] s' show ?thesis by blast
qed

section \<open>Reuse of closed streams\<close>

lemma RemoveStream_frame:
  assumes "LpelTaskRemoveStream w t des mode = Some (Inr w')"
  shows "h_sds w' = h_sds w" "h_streams w' = h_streams w"
  using assms
  by (auto simp: LpelTaskRemoveStream_def upd_task_def bindR_eq_Inr split: if_splits sum.splits prod.splits)

text \<open>The state in which a task closes its stream \<open>a\<close>, read through descriptor \<open>sd\<close>.\<close>

definition closable :: "hrc_mem \<Rightarrow> addr \<Rightarrow> addr \<Rightarrow> addr \<Rightarrow> hrc_stream_t \<Rightarrow> bool" where
  "closable m wc sd a s \<longleftrightarrow> (\<exists>d t c p dp us e vs. h_sds (hm_store m) sd = Some d \<and> sd_mode d = CHR ''r'' \<and> sd_task d = Some t \<and>
     sd_stream d = Some a \<and> h_tasks (hm_store m) t = Some c \<and> ht_worker_context c = Some wc \<and>
     el_rep (hm_store m) (in_streams (ht_sched_info c)) (us @ e # vs) \<and> elem_desc (hm_store m) e = Some sd \<and>
     (\<forall>u \<in> set us. elem_desc (hm_store m) u \<noteq> Some sd) \<and>
     h_streams (hm_store m) a = Some s \<and> st_prod_sd s = Some p \<and> p \<noteq> sd \<and> h_sds (hm_store m) p = Some dp \<and>
     hb_inv (st_buffer s) \<and> hb_items (st_buffer s) = [])"

lemma close_ok:
  assumes cl: "closable m wc sd a s" and fs: "free_streams m wc ss" "a \<notin> set ss" and fd: "free_sds m wc ds" "sd \<notin> set ds"
  shows "\<exists>m' q. LpelStreamClose_hrc m (Some sd) 1 = Some (Inr m') \<and> free_streams m' wc (a # ss) \<and> free_sds m' wc (sd # ds) \<and>
    h_streams (hm_store m') = (h_streams (hm_store m))(a \<mapsto> s\<lparr>st_prod_sd := None, st_cons_sd := None, st_next := q\<rparr>) \<and>
    sd_unused (the (h_sds (hm_store m') sd)) \<and> (\<exists>p. st_prod_sd s = Some p \<and> sd_stream (the (h_sds (hm_store m') p)) = None)"
proof -
  let ?w = "hm_store m"
  from cl obtain d t c p dp us e vs where d: "h_sds ?w sd = Some d" "sd_mode d = CHR ''r''" "sd_task d = Some t" "sd_stream d = Some a"
    and t: "h_tasks ?w t = Some c" "ht_worker_context c = Some wc"
    and es: "el_rep ?w (get_list c (CHR ''r'')) (us @ e # vs)" "elem_desc ?w e = Some sd" "\<And>u. u \<in> set us \<Longrightarrow> elem_desc ?w u \<noteq> Some sd"
    and s: "h_streams ?w a = Some s" "st_prod_sd s = Some p" and p: "p \<noteq> sd" "h_sds ?w p = Some dp"
    and b: "hb_inv (st_buffer s)" "hb_items (st_buffer s) = []" unfolding closable_def get_list_def by auto
  from b obtain dd as where "hb_rep (st_buffer s) dd as" by (auto simp: hb_inv_iff)
  then have e: "LpelBufferIsEmpty_hrc (st_buffer s) = Inr True" using hb_IsEmpty b(2) by simp
  let ?s = "s\<lparr>st_prod_sd := None, st_cons_sd := None\<rparr>" and ?dp = "dp\<lparr>sd_stream := None\<rparr>"
  define m0 where "m0 = m\<lparr>hm_store := ?w\<lparr>h_sds := (h_sds ?w)(p \<mapsto> ?dp), h_streams := (h_streams ?w)(a \<mapsto> ?s)\<rparr>\<rparr>"
  have u: "unset_stream m (Some a) = Inr m0" using s p by (simp add: unset_stream_def m0_def)
  have "free_streams m0 wc ss" using fs s by (auto simp: free_streams_def m0_def nlist_upd fld_upd_same)
  moreover have "h_streams (hm_store m0) a = Some ?s" by (simp add: m0_def)
  ultimately obtain m1 q where m1: "LpelWorkerPutStream m0 (Some wc) (Some a) = Inr m1" "free_streams m1 wc (a # ss)"
    "hm_store m1 = (hm_store m0)\<lparr>h_streams := (h_streams (hm_store m0))(a \<mapsto> ?s\<lparr>st_next := q\<rparr>)\<rparr>"
    "\<exists>c. hm_workers m0 wc = Some c \<and> hm_workers m1 = (hm_workers m0)(wc \<mapsto> c\<lparr>wc_free_stream := Some a\<rparr>)"
    using PutStream_ok [of m0 wc ss a ?s] fs(2) by auto
  define m2 where "m2 = m1\<lparr>hm_store := (hm_store m1)\<lparr>h_sds := (h_sds (hm_store m1))(sd \<mapsto> d\<lparr>sd_stream := None\<rparr>)\<rparr>\<rparr>"
  have d1: "h_sds (hm_store m1) sd = Some d" using m1(3) d p by (simp add: m0_def)
  have "el_rep (hm_store m2) (get_list c (CHR ''r'')) (us @ e # vs)" "elem_desc (hm_store m2) e = Some sd"
    "\<And>u. u \<in> set us \<Longrightarrow> elem_desc (hm_store m2) u \<noteq> Some sd" "h_tasks (hm_store m2) t = Some c"
    using es t m1(3) by (auto simp: m2_def m0_def el_rep_def elem_desc_def)
  from RemoveStream_ok [OF this(4,1) _ this(2,3)] obtain w3 where
    w3: "LpelTaskRemoveStream (hm_store m2) (Some t) (Some sd) (CHR ''r'') = Some (Inr w3)" by auto
  note fr = RemoveStream_frame [OF w3]
  define m3 where "m3 = m2\<lparr>hm_store := w3\<lparr>h_sds := (h_sds w3)(sd \<mapsto> d\<lparr>sd_stream := None, sd_task := None\<rparr>)\<rparr>\<rparr>"
  have d2: "h_sds w3 sd = Some (d\<lparr>sd_stream := None\<rparr>)" using fr by (simp add: m2_def)
  have "free_sds m3 wc ds"
  proof (rule free_sds_cong [OF fd(1)])
    show "map_option wc_free_sd (hm_workers m3 wc) = map_option wc_free_sd (hm_workers m wc)" using m1(4) by (auto simp: m3_def m2_def m0_def)
    show "fld sd_next (h_sds (hm_store m3)) = fld sd_next (h_sds (hm_store m))"
      using d p by (simp add: m3_def m2_def m0_def fr(1) m1(3) fun_upd_idem)
    show "dom (h_sds (hm_store m3)) = dom (h_sds (hm_store m))" using fr m1(3) d p by (auto simp: m3_def m2_def m0_def)
  qed
  moreover have "h_sds (hm_store m3) sd = Some (d\<lparr>sd_stream := None, sd_task := None\<rparr>)" by (simp add: m3_def)
  ultimately obtain m4 r where m4: "LpelWorkerPutSd m3 (Some wc) (Some sd) = Inr m4" "free_sds m4 wc (sd # ds)"
    "hm_store m4 = (hm_store m3)\<lparr>h_sds := (h_sds (hm_store m3))(sd \<mapsto> d\<lparr>sd_stream := None, sd_task := None, sd_next := r\<rparr>)\<rparr>"
    "\<exists>c. hm_workers m3 wc = Some c \<and> hm_workers m4 = (hm_workers m3)(wc \<mapsto> c\<lparr>wc_free_sd := Some sd\<rparr>)"
    using PutSd_ok [of m3 wc ds sd "d\<lparr>sd_stream := None, sd_task := None\<rparr>"] fd(2) by auto
  have st: "h_streams (hm_store m4) = h_streams (hm_store m1)" using m4(3) fr by (simp add: m3_def m2_def)
  have "free_streams m4 wc (a # ss)" by (rule free_streams_cong [OF m1(2) _ st]) (use m4(4) in \<open>auto simp: m3_def m2_def\<close>)
  moreover have "LpelStreamClose_hrc m (Some sd) 1 = Some (Inr m4)"
    using d t e s u m1(1) d1 w3 d2 m4(1) by (simp add: LpelStreamClose_hrc_def empty_stream_def m2_def m3_def)
  moreover have "sd_stream (the (h_sds (hm_store m4) p)) = None" using m4(3) fr m1(3) p by (simp add: m3_def m2_def m0_def)
  ultimately show ?thesis using m4(2,3) s st m1(3)
    by (intro exI [of _ m4] exI [of _ q]) (simp add: sd_unused_def m0_def)
qed

lemma create_reuses:
  assumes fr: "free_streams m wc (a # ss)" and s: "h_streams (hm_store m) a = Some s"
    and b: "hb_inv (st_buffer s)" "hb_items (st_buffer s) = []" and sz: "0 \<le> sz"
  shows "\<exists>m'. LpelStreamCreate_hrc m seq (Some wc) new dummy sz = Inr (Some a, m', seq + 1) \<and> free_streams m' wc ss \<and>
    h_streams (hm_store m') = (h_streams (hm_store m))(a \<mapsto> reset_stream seq (if sz = 0 then STREAM_BUFFER_SIZE_hrc else sz) s)"
proof -
  from GetStream_ok [OF fr] obtain m2 s2 where m2: "LpelWorkerGetStream m (Some wc) = Inr (Some a, m2)" "free_streams m2 wc ss"
    "h_streams (hm_store m2) = (h_streams (hm_store m))(a \<mapsto> s\<lparr>st_next := None\<rparr>)" "a \<notin> set ss"
    using s by auto
  from b obtain d as where "hb_rep (st_buffer s) d as" by (auto simp: hb_inv_iff)
  then have e: "LpelBufferIsEmpty_hrc (st_buffer s) = Inr True" using hb_IsEmpty b(2) by simp
  let ?sz = "if sz = 0 then STREAM_BUFFER_SIZE_hrc else sz"
  let ?m = "m2\<lparr>hm_store := (hm_store m2)\<lparr>h_streams := (h_streams (hm_store m))(a \<mapsto> reset_stream seq ?sz s)\<rparr>\<rparr>"
  have rs: "reset_stream seq ?sz (s\<lparr>st_next := None\<rparr>) = reset_stream seq ?sz s" by (simp add: reset_stream_def)
  have "LpelStreamCreate_hrc m seq (Some wc) new dummy sz = Inr (Some a, ?m, seq + 1)"
    using sz m2(1,3) e rs by (simp add: LpelStreamCreate_hrc_def)
  moreover have "free_streams ?m wc ss"
    using m2(2-4) by (auto simp: free_streams_def nlist_upd)
  ultimately show ?thesis by (intro exI [of _ ?m]) simp
qed

text \<open>
  C24: A reader that closes and destroys its stream, all items read, returns the stream and its descriptor to the
  free lists of its worker and detaches the producer; the next stream created on that worker is the
  same one, with an empty buffer and every field as for a fresh stream.
\<close>

theorem stream_close_create:
  assumes "closable m wc sd a s" and "free_streams m wc ss" "a \<notin> set ss" and "free_sds m wc ds" "sd \<notin> set ds" and "0 \<le> sz"
  shows "\<exists>m1 m2. LpelStreamClose_hrc m (Some sd) 1 = Some (Inr m1) \<and> free_sds m1 wc (sd # ds) \<and>
    sd_unused (the (h_sds (hm_store m1) sd)) \<and> (\<exists>p. st_prod_sd s = Some p \<and> sd_stream (the (h_sds (hm_store m1) p)) = None) \<and>
    LpelStreamCreate_hrc m1 seq (Some wc) new dummy sz = Inr (Some a, m2, seq + 1) \<and> free_streams m2 wc ss \<and>
    h_streams (hm_store m2) = (h_streams (hm_store m))(a \<mapsto>
      \<lparr>st_buffer = st_buffer s, st_uid = seq, st_is_poll = 0, st_prod_sd = None, st_cons_sd = None, st_n_sem = 0,
       st_e_sem = (if sz = 0 then 16 else sz), st_usr_data = None, st_next = None, st_type = LPEL_STREAM_MIDDLE,
       st_read_cnt = 0, st_write_cnt = 0\<rparr>) \<and> hb_items (st_buffer s) = []"
proof -
  have b: "hb_inv (st_buffer s)" "hb_items (st_buffer s) = []" using assms(1) by (auto simp: closable_def)
  from close_ok [OF assms(1-5)] obtain m1 q where m1: "LpelStreamClose_hrc m (Some sd) 1 = Some (Inr m1)" "free_streams m1 wc (a # ss)"
    "free_sds m1 wc (sd # ds)" "h_streams (hm_store m1) = (h_streams (hm_store m))(a \<mapsto> s\<lparr>st_prod_sd := None, st_cons_sd := None, st_next := q\<rparr>)"
    "sd_unused (the (h_sds (hm_store m1) sd))" "\<exists>p. st_prod_sd s = Some p \<and> sd_stream (the (h_sds (hm_store m1) p)) = None" by blast
  have "h_streams (hm_store m1) a = Some (s\<lparr>st_prod_sd := None, st_cons_sd := None, st_next := q\<rparr>)" using m1(4) by simp
  from create_reuses [OF m1(2) this _ _ assms(6), of seq new dummy] b obtain m2 where
    "LpelStreamCreate_hrc m1 seq (Some wc) new dummy sz = Inr (Some a, m2, seq + 1)" "free_streams m2 wc ss"
    "h_streams (hm_store m2) = (h_streams (hm_store m1))(a \<mapsto> reset_stream seq (if sz = 0 then STREAM_BUFFER_SIZE_hrc else sz)
       (s\<lparr>st_prod_sd := None, st_cons_sd := None, st_next := q\<rparr>))" by auto
  moreover have "reset_stream seq (if sz = 0 then STREAM_BUFFER_SIZE_hrc else sz) (s\<lparr>st_prod_sd := None, st_cons_sd := None, st_next := q\<rparr>) =
      \<lparr>st_buffer = st_buffer s, st_uid = seq, st_is_poll = 0, st_prod_sd = None, st_cons_sd = None, st_n_sem = 0,
       st_e_sem = (if sz = 0 then 16 else sz), st_usr_data = None, st_next = None, st_type = LPEL_STREAM_MIDDLE,
       st_read_cnt = 0, st_write_cnt = 0\<rparr>"
    by (cases s) (simp add: reset_stream_def STREAM_BUFFER_SIZE_hrc_def)
  ultimately show ?thesis using m1 b by (rule_tac x = m1 in exI, rule_tac x = m2 in exI) simp
qed

definition ex_hclose :: hrc_mem where
  "ex_hclose = ex_hworld\<lparr>hm_workers := [7 \<mapsto> ex_wc\<lparr>wc_free_sd := None\<rparr>], hm_store := (hm_store ex_hworld)
     \<lparr>h_tasks := [50 \<mapsto> (ex_htask 0)\<lparr>ht_worker_context := Some 7, ht_sched_info := (ht_sched_info (ex_htask 0))\<lparr>in_streams := Some 5\<rparr>\<rparr>],
      h_elems := [5 \<mapsto> \<lparr>se_stream_desc = Some 30, se_next = None\<rparr>]\<rparr>\<rparr>"

theorem stream_close_create_witness:
  "\<exists>m1 m2. LpelStreamClose_hrc ex_hclose (Some 30) 1 = Some (Inr m1) \<and> free_sds m1 7 [30] \<and>
     LpelStreamCreate_hrc m1 3 (Some 7) None None 0 = Inr (Some 10, m2, 4) \<and> free_streams m2 7 []"
proof -
  have "closable ex_hclose 7 30 10 (ex_hstream 0 LPEL_STREAM_ENTRY)"
    unfolding closable_def
    by (rule exI [of _ "ex_hdesc 50 10 (CHR ''r'') (Some 31)"], rule exI [of _ 50],
        rule exI [of _ "(ex_htask 0)\<lparr>ht_worker_context := Some 7, ht_sched_info := (ht_sched_info (ex_htask 0))\<lparr>in_streams := Some 5\<rparr>\<rparr>"],
        rule exI [of _ 20], rule exI [of _ "ex_hdesc 40 10 (CHR ''w'') None"], rule exI [of _ "[]"], rule exI [of _ 5], rule exI [of _ "[]"])
       (simp add: ex_hclose_def ex_hworld_def ex_hdesc_def ex_hstream_def ex_hbuf_ok el_rep_def elem_desc_def nlist_def)
  moreover have "free_streams ex_hclose 7 []" "free_sds ex_hclose 7 []" by (simp_all add: free_streams_def free_sds_def ex_hclose_def ex_wc_def)
  ultimately show ?thesis using stream_close_create [of ex_hclose 7 30 10 "ex_hstream 0 LPEL_STREAM_ENTRY" "[]" "[]" 0 3 None None] by auto
qed

lemma PutStream_keeps:
  assumes "LpelWorkerPutStream m wc s = Inr m'"
  shows "map_option st_cons_sd (h_streams (hm_store m') b) = map_option st_cons_sd (h_streams (hm_store m) b)"
  using assms
  by (auto simp: LpelWorkerPutStream_def bindR_eq_Inr in_store_def upd_stream_def upd_wc_def upd_eq_Inr split: if_splits)

lemma unset_keeps:
  assumes "unset_stream m s = Inr m'" and "map_option st_cons_sd (h_streams (hm_store m) b) = Some None"
  shows "map_option st_cons_sd (h_streams (hm_store m') b) = Some None"
  using assms
  by (auto simp: unset_stream_def bindR_eq_Inr in_store_def upd_stream_def upd_sd_def upd_eq_Inr)

text \<open>
  \<open>LpelStreamReplace\<close> is documented for a new stream that no task has opened (\<open>snew must not be opened by same or
  other task\<close>). It dereferences the consumer descriptor of the new stream: on a stream without a consumer it
  never succeeds.
\<close>

theorem stream_replace_unopened_fails:
  assumes "h_streams (hm_store m) b = Some snew" and "st_cons_sd snew = None"
  shows "\<exists>e. LpelStreamReplace_hrc m sd (Some b) = Inl e"
proof (rule ccontr)
  assume "\<not> ?thesis"
  then obtain m' where "LpelStreamReplace_hrc m sd (Some b) = Inr m'" by (cases "LpelStreamReplace_hrc m sd (Some b)") auto
  then show False unfolding LpelStreamReplace_hrc_def bindR_eq_Inr [of "deref _ _"] bindR_eq_Inr [of "assertR _"]
      bindR_eq_Inr [of "in_store _ _"] bindR_eq_Inr [of "unset_stream _ _"] bindR_eq_Inr [of "empty_stream _ _"]
      bindR_eq_Inr [of "LpelWorkerPutStream _ _ _"]
  proof (elim exE conjE, goal_cases)
    case (1 d _ t s m1 m2 _ m3 c)
    have "map_option st_cons_sd (h_streams (hm_store m1) b) = Some None" using 1(5) assms by auto
    then have "map_option st_cons_sd (h_streams (hm_store m3) b) = Some None"
      using unset_keeps [OF 1(6)] PutStream_keeps [OF 1(8)] by simp
    then have "st_cons_sd c = None" using 1(9) by (auto simp: deref_eq_Inr)
    then show False using 1(10) by (simp add: upd_sd_def)
  qed
qed

theorem stream_replace_unopened_fails_witness:
  "\<exists>e. LpelStreamReplace_hrc (ex_hworld\<lparr>hm_store := (hm_store ex_hworld)\<lparr>h_streams := (h_streams (hm_store ex_hworld))(12 \<mapsto>
     (ex_hstream 2 LPEL_STREAM_MIDDLE)\<lparr>st_cons_sd := None\<rparr>)\<rparr>\<rparr>) (Some 30) (Some 12) = Inl e"
  by (rule stream_replace_unopened_fails [of _ _ "(ex_hstream 2 LPEL_STREAM_MIDDLE)\<lparr>st_cons_sd := None\<rparr>"]) simp_all

end
