(* ===== verification/Decen_Taskqueue.thy ===== *)
theory Decen_Taskqueue
  imports Decen_Types
begin

text \<open>
  \<open>src/sched/decentralised/decen_taskqueue.c\<close>: the doubly linked queue of tasks. A queue is the
  record of its head, tail and 32-bit count; the links live in the task heap.
  \<open>tq_rep q h xs\<close> says that \<open>q\<close> holds the tasks \<open>xs\<close>: the next links lead from head through
  \<open>xs\<close> to \<open>NULL\<close>, the prev links from tail through \<open>xs\<close> reversed. Every operation refines the
  operation of the same name on the list, keeps all other tasks and never fails. The callbacks
  \<open>cond\<close> and \<open>action\<close> of \<open>LpelTaskqueueIterateRemove\<close> are arguments; what they see and change
  besides the queue links is the state \<open>arg\<close>.
\<close>

section \<open>Model\<close>

record taskqueue_t =
  tq_head :: ptr
  tq_tail :: ptr
  tq_count :: "32 word"

definition LpelTaskqueueInit :: taskqueue_t where
  "LpelTaskqueueInit = \<lparr>tq_head = None, tq_tail = None, tq_count = 0\<rparr>"

definition LpelTaskqueuePush :: "taskqueue_t \<Rightarrow> tasks \<Rightarrow> ptr \<Rightarrow> (taskqueue_t \<times> tasks) res" where
  "LpelTaskqueuePush tq h t =
     bindR (deref h t) (\<lambda>c.
     bindR (assertR (t_prev c = None \<and> t_next c = None)) (\<lambda>_.
     bindR (if tq_head tq = None then Inr (tq\<lparr>tq_head := t\<rparr>, h)
            else bindR (upd h (tq_tail tq) (\<lambda>c. c\<lparr>t_next := t\<rparr>)) (\<lambda>h1.
                 bindR (upd h1 t (\<lambda>c. c\<lparr>t_prev := tq_tail tq\<rparr>)) (\<lambda>h2. Inr (tq, h2)))) (\<lambda>(q, h').
       Inr (q\<lparr>tq_tail := t, tq_count := tq_count q + 1\<rparr>, h'))))"

definition LpelTaskqueuePushFront :: "taskqueue_t \<Rightarrow> tasks \<Rightarrow> ptr \<Rightarrow> (taskqueue_t \<times> tasks) res" where
  "LpelTaskqueuePushFront tq h t =
     bindR (deref h t) (\<lambda>c.
     bindR (assertR (t_prev c = None \<and> t_next c = None)) (\<lambda>_.
     bindR (if tq_tail tq = None then Inr (tq\<lparr>tq_tail := t\<rparr>, h)
            else bindR (upd h (tq_head tq) (\<lambda>c. c\<lparr>t_prev := t\<rparr>)) (\<lambda>h1.
                 bindR (upd h1 t (\<lambda>c. c\<lparr>t_next := tq_head tq\<rparr>)) (\<lambda>h2. Inr (tq, h2)))) (\<lambda>(q, h').
       Inr (q\<lparr>tq_head := t, tq_count := tq_count q + 1\<rparr>, h'))))"

text \<open>The check of both assertions at the end of the two pop operations.\<close>

definition popped :: "taskqueue_t \<Rightarrow> tasks \<Rightarrow> ptr \<Rightarrow> (ptr \<times> taskqueue_t \<times> tasks) res" where
  "popped q h t =
     (let q' = q\<lparr>tq_count := tq_count q - 1\<rparr> in
      bindR (assertR (t \<noteq> None \<or> tq_count q' = 0)) (\<lambda>_.
      bindR (deref h t) (\<lambda>c.
      bindR (assertR (t_next c = None \<and> t_prev c = None)) (\<lambda>_. Inr (t, q', h)))))"

definition LpelTaskqueuePop :: "taskqueue_t \<Rightarrow> tasks \<Rightarrow> (ptr \<times> taskqueue_t \<times> tasks) res" where
  "LpelTaskqueuePop tq h =
     (if tq_head tq = None then Inr (None, tq, h)
      else let t = tq_head tq in
        bindR (deref h t) (\<lambda>c.
        bindR (if t_next c = None then Inr (tq\<lparr>tq_head := None, tq_tail := None\<rparr>, h)
               else bindR (upd h (t_next c) (\<lambda>n. n\<lparr>t_prev := None\<rparr>)) (\<lambda>h1.
                    bindR (upd h1 t (\<lambda>c. c\<lparr>t_next := None\<rparr>)) (\<lambda>h2.
                      Inr (tq\<lparr>tq_head := t_next c\<rparr>, h2)))) (\<lambda>(q, h'). popped q h' t)))"

definition LpelTaskqueuePopBack :: "taskqueue_t \<Rightarrow> tasks \<Rightarrow> (ptr \<times> taskqueue_t \<times> tasks) res" where
  "LpelTaskqueuePopBack tq h =
     (if tq_tail tq = None then Inr (None, tq, h)
      else let t = tq_tail tq in
        bindR (deref h t) (\<lambda>c.
        bindR (if t_prev c = None then Inr (tq\<lparr>tq_tail := None, tq_head := None\<rparr>, h)
               else bindR (upd h (t_prev c) (\<lambda>n. n\<lparr>t_next := None\<rparr>)) (\<lambda>h1.
                    bindR (upd h1 t (\<lambda>c. c\<lparr>t_prev := None\<rparr>)) (\<lambda>h2.
                      Inr (tq\<lparr>tq_tail := t_prev c\<rparr>, h2)))) (\<lambda>(q, h'). popped q h' t)))"

text \<open>The relinking of one task inside the loop of \<open>LpelTaskqueueIterateRemove\<close>.\<close>

definition relink :: "taskqueue_t \<Rightarrow> tasks \<Rightarrow> ptr \<Rightarrow> lpel_task_t \<Rightarrow> (taskqueue_t \<times> tasks) res" where
  "relink tq h cur c =
     bindR (if t_prev c \<noteq> None
            then bindR (upd h (t_prev c) (\<lambda>p. p\<lparr>t_next := t_next c\<rparr>)) (\<lambda>h1. Inr (tq, h1))
            else Inr (tq\<lparr>tq_head := t_next c\<rparr>, h)) (\<lambda>(q1, h1).
     bindR (if t_next c \<noteq> None
            then bindR (upd h1 (t_next c) (\<lambda>n. n\<lparr>t_prev := t_prev c\<rparr>)) (\<lambda>h2. Inr (q1, h2))
            else Inr (q1\<lparr>tq_tail := t_prev c\<rparr>, h1)) (\<lambda>(q2, h2).
     bindR (upd h2 cur (\<lambda>p. p\<lparr>t_prev := None, t_next := None\<rparr>)) (\<lambda>h3.
       Inr (q2\<lparr>tq_count := tq_count q2 - 1\<rparr>, h3))))"

partial_function (option) iterate_remove ::
  "(addr \<Rightarrow> 'a \<Rightarrow> bool) \<Rightarrow> (addr \<Rightarrow> 'a \<Rightarrow> 'a) \<Rightarrow> taskqueue_t \<Rightarrow> tasks \<Rightarrow> 'a \<Rightarrow> int \<Rightarrow> ptr \<Rightarrow>
   ((int \<times> taskqueue_t \<times> tasks \<times> 'a) res) option" where
  "iterate_remove cond action tq h arg cnt_removed cur =
     (case cur of None \<Rightarrow> Some (Inr (cnt_removed, tq, h, arg))
      | Some a \<Rightarrow> (case deref h cur of Inl e \<Rightarrow> Some (Inl e) | Inr c \<Rightarrow>
          if cond a arg then
            (case relink tq h cur c of Inl e \<Rightarrow> Some (Inl e)
             | Inr (tq', h') \<Rightarrow> iterate_remove cond action tq' h' (action a arg) (cnt_removed + 1) (t_next c))
          else iterate_remove cond action tq h arg cnt_removed (t_next c)))"

definition LpelTaskqueueIterateRemove ::
  "(addr \<Rightarrow> 'a \<Rightarrow> bool) \<Rightarrow> (addr \<Rightarrow> 'a \<Rightarrow> 'a) \<Rightarrow> taskqueue_t \<Rightarrow> tasks \<Rightarrow> 'a \<Rightarrow>
   ((int \<times> taskqueue_t \<times> tasks \<times> 'a) res) option" where
  "LpelTaskqueueIterateRemove cond action tq h arg = iterate_remove cond action tq h arg 0 (tq_head tq)"

definition LpelTaskqueueDestroy :: "taskqueue_t \<Rightarrow> unit res" where
  "LpelTaskqueueDestroy tq = assertR (tq_head tq = None \<and> tq_tail tq = None)"

section \<open>Representation\<close>

abbreviation tnx :: "tasks \<Rightarrow> addr \<Rightarrow> ptr" where "tnx h \<equiv> fld t_next h"
abbreviation tpv :: "tasks \<Rightarrow> addr \<Rightarrow> ptr" where "tpv h \<equiv> fld t_prev h"

definition tq_rep :: "taskqueue_t \<Rightarrow> tasks \<Rightarrow> addr list \<Rightarrow> bool" where
  "tq_rep q h xs \<longleftrightarrow> nlist (tnx h) (tq_head q) xs \<and> nlist (tpv h) (tq_tail q) (rev xs) \<and>
     tq_count q = of_nat (length xs) \<and> length xs < 2 ^ 32 \<and> set xs \<subseteq> dom h"

lemma nlist_snoc:
  assumes "nlist nx p (ys @ [l])" and "t \<notin> set (ys @ [l])" and "nx t = None"
  shows "nlist (nx(l := Some t)) p (ys @ [l, t])"
  using assms by (auto simp: nlist_def)

lemma nlist_cut:
  assumes "nlist nx p (ys @ [l, t])"
  shows "nlist (nx(l := None, t := v)) p (ys @ [l])"
  using assms by (auto simp: nlist_def)

lemma nlist_bypass:
  assumes "nlist nx p (ys @ l # t # zs)"
  shows "nlist (nx(l := nx t)) p (ys @ l # zs)"
  using assms by (auto simp: nlist_def)

lemma nlist_inner: "nlist nx p (ys @ a # zs) \<Longrightarrow> nx a = (if zs = [] then None else Some (hd zs))"
  by (cases zs) (auto simp: nlist_def)

lemma nlist_head: "nlist nx p xs \<Longrightarrow> p = (if xs = [] then None else Some (hd xs))"
  by (cases xs) (auto simp: nlist_def)

lemma tq_rep_init: "tq_rep LpelTaskqueueInit h []"
  by (simp add: tq_rep_def LpelTaskqueueInit_def)

lemma tq_rep_ends:
  assumes "tq_rep q h xs"
  shows "tq_head q = (if xs = [] then None else Some (hd xs))"
    "tq_tail q = (if xs = [] then None else Some (last xs))"
  using assms nlist_head [of "tnx h" "tq_head q" xs] nlist_head [of "tpv h" "tq_tail q" "rev xs"]
  by (auto simp: tq_rep_def hd_rev)

lemma tq_rep_count: "tq_rep q h xs \<Longrightarrow> tq_count q = 0 \<longleftrightarrow> xs = []"
  by (auto simp: tq_rep_def word_of_nat_eq_0_iff dest: dvd_imp_le)

lemma tq_rep_frame:
  assumes "tq_rep q h xs" and "\<And>a. a \<in> set xs \<Longrightarrow> h' a = h a"
  shows "tq_rep q h' xs"
proof -
  have "fld f h' a = fld f h a" if "a \<in> set xs" for f a using assms(2) [OF that] by (simp add: fld_def)
  then have "nlist (tnx h') (tq_head q) xs = nlist (tnx h) (tq_head q) xs"
    "nlist (tpv h') (tq_tail q) (rev xs) = nlist (tpv h) (tq_tail q) (rev xs)"
    by (auto intro!: nlist_cong)
  moreover have "set xs \<subseteq> dom h'" if "set xs \<subseteq> dom h" using that assms(2) by (auto simp: dom_def)
  ultimately show ?thesis using assms(1) by (auto simp: tq_rep_def)
qed

lemma tq_Push:
  assumes "tq_rep q h xs" and "unlinked h t" and "t \<notin> set xs" and "length xs + 1 < 2 ^ 32"
  shows "\<exists>q' h'. LpelTaskqueuePush q h (Some t) = Inr (q', h') \<and> tq_rep q' h' (xs @ [t]) \<and>
    same_body h h' \<and> (\<forall>a. a \<notin> set (t # xs) \<longrightarrow> h' a = h a)"
proof (cases xs rule: rev_cases)
  case Nil
  with assms show ?thesis
    by (auto simp: LpelTaskqueuePush_def tq_rep_def unlinked_def nlist_def)
next
  case (snoc ys l)
  from assms(2) obtain c where c: "h t = Some c" "t_prev c = None" "t_next c = None"
    by (auto simp: unlinked_def)
  from assms(1) snoc obtain cl where cl: "h l = Some cl" by (auto simp: tq_rep_def)
  have tl: "tq_tail q = Some l" "tq_head q \<noteq> None" using tq_rep_ends [OF assms(1)] snoc by auto
  have lt: "l \<noteq> t" using assms(3) snoc by auto
  define h' where "h' = h(l \<mapsto> cl\<lparr>t_next := Some t\<rparr>, t \<mapsto> c\<lparr>t_prev := Some l\<rparr>)"
  have "LpelTaskqueuePush q h (Some t) = Inr (q\<lparr>tq_tail := Some t, tq_count := tq_count q + 1\<rparr>, h')"
    using c cl tl lt by (auto simp: LpelTaskqueuePush_def h'_def)
  moreover have "nlist (tnx h') (tq_head q) (ys @ [l, t])"
    using assms snoc c cl lt nlist_snoc [of "tnx h" "tq_head q" ys l t]
    by (simp add: h'_def tq_rep_def fun_upd_idem fun_upd_twist)
  moreover have "nlist (tpv h') (Some t) (t # l # rev ys)"
    using assms snoc c cl lt by (simp add: h'_def tq_rep_def nlist_Cons nlist_upd)
  moreover have "same_body h h'"
    using c cl lt unfolding h'_def by (intro same_body_upd_right [OF same_body_upd]) auto
  ultimately show ?thesis using assms snoc c cl lt
    by (auto simp: tq_rep_def h'_def)
qed

lemma tq_PushFront:
  assumes "tq_rep q h xs" and "unlinked h t" and "t \<notin> set xs" and "length xs + 1 < 2 ^ 32"
  shows "\<exists>q' h'. LpelTaskqueuePushFront q h (Some t) = Inr (q', h') \<and> tq_rep q' h' (t # xs) \<and>
    same_body h h' \<and> (\<forall>a. a \<notin> set (t # xs) \<longrightarrow> h' a = h a)"
proof (cases xs)
  case Nil
  with assms show ?thesis
    by (auto simp: LpelTaskqueuePushFront_def tq_rep_def unlinked_def nlist_def)
next
  case (Cons l ys)
  from assms(2) obtain c where c: "h t = Some c" "t_prev c = None" "t_next c = None"
    by (auto simp: unlinked_def)
  from assms(1) Cons obtain cl where cl: "h l = Some cl" by (auto simp: tq_rep_def)
  have hd: "tq_head q = Some l" "tq_tail q \<noteq> None" using tq_rep_ends [OF assms(1)] Cons by auto
  have lt: "l \<noteq> t" using assms(3) Cons by auto
  define h' where "h' = h(l \<mapsto> cl\<lparr>t_prev := Some t\<rparr>, t \<mapsto> c\<lparr>t_next := Some l\<rparr>)"
  have "LpelTaskqueuePushFront q h (Some t) = Inr (q\<lparr>tq_head := Some t, tq_count := tq_count q + 1\<rparr>, h')"
    using c cl hd lt by (auto simp: LpelTaskqueuePushFront_def h'_def)
  moreover have "nlist (tpv h') (tq_tail q) (rev ys @ [l, t])"
    using assms Cons c cl lt nlist_snoc [of "tpv h" "tq_tail q" "rev ys" l t]
    by (simp add: h'_def tq_rep_def fun_upd_idem fun_upd_twist)
  moreover have "nlist (tnx h') (Some t) (t # l # ys)"
    using assms Cons c cl lt by (simp add: h'_def tq_rep_def nlist_Cons nlist_upd)
  moreover have "same_body h h'"
    using c cl lt unfolding h'_def by (intro same_body_upd_right [OF same_body_upd]) auto
  ultimately show ?thesis using assms Cons c cl lt
    by (auto simp: tq_rep_def h'_def)
qed

lemma popped_ok:
  "h t = Some c \<Longrightarrow> t_next c = None \<Longrightarrow> t_prev c = None \<Longrightarrow>
   popped q h (Some t) = Inr (Some t, q\<lparr>tq_count := tq_count q - 1\<rparr>, h)"
  by (simp add: popped_def)

lemma tq_Pop:
  assumes "tq_rep q h (x # xs)"
  shows "\<exists>q' h'. LpelTaskqueuePop q h = Inr (Some x, q', h') \<and> tq_rep q' h' xs \<and> unlinked h' x \<and>
    same_body h h' \<and> (\<forall>a. a \<notin> set (x # xs) \<longrightarrow> h' a = h a)"
proof (cases xs)
  case Nil
  with assms show ?thesis
    by (auto simp: LpelTaskqueuePop_def tq_rep_def unlinked_def nlist_def popped_ok)
next
  case (Cons y ys)
  from assms Cons obtain c cy where c: "h x = Some c" "h y = Some cy" by (auto simp: tq_rep_def)
  have hd: "tq_head q = Some x" using tq_rep_ends [OF assms] by auto
  have xy: "x \<noteq> y" and nx: "t_next c = Some y" using assms Cons c by (auto simp: tq_rep_def nlist_Cons)
  have pv: "t_prev c = None"
    using assms c nlist_inner [of "tpv h" "tq_tail q" "rev xs" x "[]"] by (auto simp: tq_rep_def)
  define h' where "h' = h(y \<mapsto> cy\<lparr>t_prev := None\<rparr>, x \<mapsto> c\<lparr>t_next := None\<rparr>)"
  have "LpelTaskqueuePop q h = Inr (Some x, q\<lparr>tq_head := Some y, tq_count := tq_count q - 1\<rparr>, h')"
    using c hd xy nx pv by (simp add: LpelTaskqueuePop_def h'_def popped_ok)
  moreover have "nlist (tnx h') (Some y) (y # ys)"
    using assms Cons c xy by (simp add: h'_def tq_rep_def nlist_Cons nlist_upd)
  moreover have "nlist (tpv h') (tq_tail q) (rev ys @ [y])"
    using assms Cons c xy nlist_cut [of "tpv h" "tq_tail q" "rev ys" y x "t_prev c"]
    by (simp add: h'_def tq_rep_def)
  moreover have "same_body h h'"
    using c xy unfolding h'_def by (intro same_body_upd_right [OF same_body_upd]) auto
  ultimately show ?thesis using assms Cons c xy pv
    by (auto simp: tq_rep_def h'_def unlinked_def)
qed

lemma tq_Pop_empty: "tq_rep q h [] \<Longrightarrow> LpelTaskqueuePop q h = Inr (None, q, h)"
  by (simp add: tq_rep_def LpelTaskqueuePop_def)

lemma tq_PopBack:
  assumes "tq_rep q h (xs @ [x])"
  shows "\<exists>q' h'. LpelTaskqueuePopBack q h = Inr (Some x, q', h') \<and> tq_rep q' h' xs \<and> unlinked h' x \<and>
    same_body h h' \<and> (\<forall>a. a \<notin> set (x # xs) \<longrightarrow> h' a = h a)"
proof (cases xs rule: rev_cases)
  case Nil
  with assms show ?thesis
    by (auto simp: LpelTaskqueuePopBack_def tq_rep_def unlinked_def nlist_def popped_ok)
next
  case (snoc ys y)
  from assms snoc obtain c cy where c: "h x = Some c" "h y = Some cy" by (auto simp: tq_rep_def)
  have tl: "tq_tail q = Some x" using tq_rep_ends [OF assms] by auto
  have xy: "x \<noteq> y" and pv: "t_prev c = Some y" using assms snoc c by (auto simp: tq_rep_def nlist_Cons)
  have nx: "t_next c = None"
    using assms c nlist_inner [of "tnx h" "tq_head q" xs x "[]"] by (auto simp: tq_rep_def)
  define h' where "h' = h(y \<mapsto> cy\<lparr>t_next := None\<rparr>, x \<mapsto> c\<lparr>t_prev := None\<rparr>)"
  have "LpelTaskqueuePopBack q h = Inr (Some x, q\<lparr>tq_tail := Some y, tq_count := tq_count q - 1\<rparr>, h')"
    using c tl xy nx pv by (simp add: LpelTaskqueuePopBack_def h'_def popped_ok)
  moreover have "nlist (tpv h') (Some y) (y # rev ys)"
    using assms snoc c xy by (simp add: h'_def tq_rep_def nlist_Cons nlist_upd)
  moreover have "nlist (tnx h') (tq_head q) (ys @ [y])"
    using assms snoc c xy nlist_cut [of "tnx h" "tq_head q" ys y x "t_next c"]
    by (simp add: h'_def tq_rep_def)
  moreover have "same_body h h'"
    using c xy unfolding h'_def by (intro same_body_upd_right [OF same_body_upd]) auto
  ultimately show ?thesis using assms snoc c xy nx
    by (auto simp: tq_rep_def h'_def unlinked_def)
qed

lemma tq_PopBack_empty: "tq_rep q h [] \<Longrightarrow> LpelTaskqueuePopBack q h = Inr (None, q, h)"
  by (simp add: tq_rep_def LpelTaskqueuePopBack_def)

lemma relink_next:
  assumes "tq_rep q h (ks @ x # rest)" and "h x = Some c"
  shows "t_next c = (if rest = [] then None else Some (hd rest))"
    "t_prev c = (if ks = [] then None else Some (last ks))"
  using assms nlist_inner [of "tnx h" "tq_head q" ks x rest]
    nlist_inner [of "tpv h" "tq_tail q" "rev rest" x "rev ks"]
  by (auto simp: tq_rep_def hd_rev)

lemma neighbours:
  assumes "tq_rep q h (ks @ x # rest)"
  shows "ks \<noteq> [] \<Longrightarrow> last ks \<noteq> x \<and> (\<exists>cl. h (last ks) = Some cl)"
    and "rest \<noteq> [] \<Longrightarrow> hd rest \<noteq> x \<and> (ks \<noteq> [] \<longrightarrow> hd rest \<noteq> last ks) \<and> (\<exists>cr. h (hd rest) = Some cr)"
proof -
  have d: "distinct (ks @ x # rest)" "set (ks @ x # rest) \<subseteq> dom h"
    using assms by (auto simp: tq_rep_def nlist_def)
  then show "ks \<noteq> [] \<Longrightarrow> last ks \<noteq> x \<and> (\<exists>cl. h (last ks) = Some cl)"
    by (cases ks rule: rev_cases) auto
  show "rest \<noteq> [] \<Longrightarrow> hd rest \<noteq> x \<and> (ks \<noteq> [] \<longrightarrow> hd rest \<noteq> last ks) \<and> (\<exists>cr. h (hd rest) = Some cr)"
    using d by (cases ks rule: rev_cases; cases rest) auto
qed

text \<open>
  The heap after relinking, in one formula: the neighbours of \<open>x\<close> are linked to each other,
  \<open>x\<close> is unlinked.
\<close>

definition bridge :: "tasks \<Rightarrow> addr list \<Rightarrow> addr \<Rightarrow> addr list \<Rightarrow> lpel_task_t \<Rightarrow> tasks" where
  "bridge h ks x rest c =
     (let h1 = (if ks = [] then h else h(last ks \<mapsto> (the (h (last ks)))\<lparr>t_next := t_next c\<rparr>));
          h2 = (if rest = [] then h1 else h1(hd rest \<mapsto> (the (h1 (hd rest)))\<lparr>t_prev := t_prev c\<rparr>))
      in h2(x \<mapsto> c\<lparr>t_prev := None, t_next := None\<rparr>))"

lemma bridge_links:
  assumes "tq_rep q h (ks @ x # rest)" and "h x = Some c"
  shows "tnx (bridge h ks x rest c) =
      (if ks = [] then tnx h else (tnx h)(last ks := tnx h x))(x := None)"
    and "tpv (bridge h ks x rest c) =
      (if rest = [] then tpv h else (tpv h)(hd rest := tpv h x))(x := None)"
proof -
  note k = neighbours(1) [OF assms(1)] and r = neighbours(2) [OF assms(1)]
  show "tnx (bridge h ks x rest c) = (if ks = [] then tnx h else (tnx h)(last ks := tnx h x))(x := None)"
    using k r assms(2) by (cases "ks = []"; cases "rest = []") (auto simp: bridge_def Let_def fun_eq_iff)
  show "tpv (bridge h ks x rest c) = (if rest = [] then tpv h else (tpv h)(hd rest := tpv h x))(x := None)"
    using k r assms(2) by (cases "ks = []"; cases "rest = []") (auto simp: bridge_def Let_def fun_eq_iff)
qed

lemma relink_ok:
  assumes rep: "tq_rep q h (ks @ x # rest)" and x: "h x = Some c"
  shows "\<exists>q' h'. relink q h (Some x) c = Inr (q', h') \<and> tq_rep q' h' (ks @ rest) \<and> unlinked h' x \<and>
    same_body h h' \<and> (\<forall>a. a \<notin> set (ks @ x # rest) \<longrightarrow> h' a = h a)"
proof -
  let ?h = "bridge h ks x rest c"
  let ?q = "q\<lparr>tq_head := if ks = [] then t_next c else tq_head q,
               tq_tail := if rest = [] then t_prev c else tq_tail q, tq_count := tq_count q - 1\<rparr>"
  note links = relink_next [OF assms]
  have d: "distinct (ks @ x # rest)" "set (ks @ x # rest) \<subseteq> dom h"
    using rep by (auto simp: tq_rep_def nlist_def)
  note k = neighbours(1) [OF rep] and r = neighbours(2) [OF rep]
  have "relink q h (Some x) c = Inr (?q, ?h)"
    using k r x links by (cases "ks = []"; cases "rest = []") (auto simp: relink_def bridge_def Let_def)
  moreover have "nlist (tnx ?h) (tq_head ?q) (ks @ rest)"
    unfolding bridge_links(1) [OF assms]
    using rep x d nlist_bypass [of "tnx h" "tq_head q" "butlast ks" "last ks" x rest]
    by (cases ks rule: rev_cases) (auto simp: tq_rep_def nlist_upd nlist_Cons)
  moreover have "nlist (tpv ?h) (tq_tail ?q) (rev (ks @ rest))"
    unfolding bridge_links(2) [OF assms]
    using rep x d nlist_bypass [of "tpv h" "tq_tail q" "rev (tl rest)" "hd rest" x "rev ks"]
    by (cases rest) (auto simp: tq_rep_def nlist_upd nlist_Cons)
  moreover have "same_body h ?h"
    using k r x by (auto simp: bridge_def Let_def same_body_def body_def)
  moreover have "\<forall>a. a \<notin> set (ks @ x # rest) \<longrightarrow> ?h a = h a"
    by (auto simp: bridge_def Let_def)
  moreover have "unlinked ?h x" by (simp add: bridge_def Let_def unlinked_def)
  ultimately show ?thesis using rep same_body_dom [of h ?h]
    by (auto simp: tq_rep_def)
qed

text \<open>What one pass keeps, what it removes and what the callbacks compute, on the list.\<close>

fun iter_spec :: "(addr \<Rightarrow> 'a \<Rightarrow> bool) \<Rightarrow> (addr \<Rightarrow> 'a \<Rightarrow> 'a) \<Rightarrow> addr list \<Rightarrow> 'a \<Rightarrow> addr list \<times> addr list \<times> 'a" where
  "iter_spec cond action [] arg = ([], [], arg)"
| "iter_spec cond action (x # xs) arg =
     (if cond x arg then let (ks, rs, a) = iter_spec cond action xs (action x arg) in (ks, x # rs, a)
      else let (ks, rs, a) = iter_spec cond action xs arg in (x # ks, rs, a))"

lemma tq_rep_cell: "tq_rep q h xs \<Longrightarrow> a \<in> set xs \<Longrightarrow> \<exists>c. h a = Some c"
  unfolding tq_rep_def by blast

lemma iterate_remove_ok:
  assumes "tq_rep q h (ks @ xs)" and "iter_spec cond action xs arg = (ks', rs, arg')"
    and "cur = (if xs = [] then None else Some (hd xs))"
  shows "\<exists>q' h'. iterate_remove cond action q h arg n cur = Some (Inr (n + int (length rs), q', h', arg')) \<and>
    tq_rep q' h' (ks @ ks') \<and> (\<forall>r \<in> set rs. unlinked h' r) \<and> same_body h h' \<and>
    (\<forall>a. a \<notin> set (ks @ xs) \<longrightarrow> h' a = h a)"
  using assms
proof (induction xs arbitrary: ks q h arg n cur ks' rs)
  case Nil
  then show ?case by (auto simp: iterate_remove.simps)
next
  case (Cons x xs)
  obtain c where c: "h x = Some c" using tq_rep_cell [OF Cons.prems(1), of x] by auto
  note nxt = relink_next(1) [OF Cons.prems(1) c]
  show ?case
  proof (cases "cond x arg")
    case True
    obtain rs' where rs: "rs = x # rs'" "iter_spec cond action xs (action x arg) = (ks', rs', arg')"
      using Cons.prems(2) True by (auto split: prod.splits)
    from relink_ok [OF Cons.prems(1) c] obtain q1 h1 where r: "relink q h (Some x) c = Inr (q1, h1)"
      "tq_rep q1 h1 (ks @ xs)" "unlinked h1 x" "same_body h h1"
      "\<forall>a. a \<notin> set (ks @ x # xs) \<longrightarrow> h1 a = h a" by blast
    have x: "x \<notin> set (ks @ xs)" using Cons.prems(1) by (auto simp: tq_rep_def nlist_def)
    from Cons.IH [OF r(2) rs(2) nxt, of "n + 1"] obtain q' h' where
      IH: "iterate_remove cond action q1 h1 (action x arg) (n + 1) (t_next c) =
             Some (Inr (n + 1 + int (length rs'), q', h', arg'))"
        "tq_rep q' h' (ks @ ks')" "\<forall>r \<in> set rs'. unlinked h' r" "same_body h1 h'"
        "\<forall>a. a \<notin> set (ks @ xs) \<longrightarrow> h' a = h1 a" by blast
    have "unlinked h' x" using r(3) IH(5) x by (simp add: unlinked_def)
    moreover have "same_body h h'" using r(4) IH(4) by (rule same_body_trans)
    moreover have "iterate_remove cond action q h arg n cur = Some (Inr (n + int (length rs), q', h', arg'))"
      using True IH(1) r(1) c rs(1) Cons.prems(3) by (subst iterate_remove.simps) simp
    ultimately show ?thesis using IH(2,3,5) r(5) rs(1) by auto
  next
    case False
    obtain kk where kk: "ks' = x # kk" "iter_spec cond action xs arg = (kk, rs, arg')"
      using Cons.prems(2) False by (auto split: prod.splits)
    have "tq_rep q h ((ks @ [x]) @ xs)" using Cons.prems(1) by simp
    from Cons.IH [OF this kk(2) nxt, of n] show ?thesis
      using False c kk(1) Cons.prems(3) by (subst iterate_remove.simps) simp
  qed
qed

section \<open>The queue as a double-ended list of tasks\<close>

datatype dq_op = DPush addr | DPushFront addr | DPop | DPopBack

text \<open>The results of a sequence of operations and the tasks left, on a list.\<close>

fun dq_spec :: "dq_op list \<Rightarrow> addr list \<Rightarrow> ptr list \<times> addr list" where
  "dq_spec [] xs = ([], xs)"
| "dq_spec (DPush t # ops) xs = dq_spec ops (xs @ [t])"
| "dq_spec (DPushFront t # ops) xs = dq_spec ops (t # xs)"
| "dq_spec (DPop # ops) xs =
     (let (rs, ys) = dq_spec ops (tl xs) in ((if xs = [] then None else Some (hd xs)) # rs, ys))"
| "dq_spec (DPopBack # ops) xs =
     (let (rs, ys) = dq_spec ops (butlast xs) in ((if xs = [] then None else Some (last xs)) # rs, ys))"

text \<open>Only tasks of \<open>T\<close> that are in no queue are pushed, and the count does not overflow.\<close>

fun dq_ok :: "addr set \<Rightarrow> dq_op list \<Rightarrow> addr list \<Rightarrow> bool" where
  "dq_ok T [] xs \<longleftrightarrow> True"
| "dq_ok T (DPush t # ops) xs \<longleftrightarrow> t \<in> T \<and> t \<notin> set xs \<and> length xs + 1 < 2 ^ 32 \<and> dq_ok T ops (xs @ [t])"
| "dq_ok T (DPushFront t # ops) xs \<longleftrightarrow> t \<in> T \<and> t \<notin> set xs \<and> length xs + 1 < 2 ^ 32 \<and> dq_ok T ops (t # xs)"
| "dq_ok T (DPop # ops) xs \<longleftrightarrow> dq_ok T ops (tl xs)"
| "dq_ok T (DPopBack # ops) xs \<longleftrightarrow> dq_ok T ops (butlast xs)"

fun dq_run :: "('q \<Rightarrow> 'h \<Rightarrow> ptr \<Rightarrow> ('q \<times> 'h) res) \<Rightarrow> ('q \<Rightarrow> 'h \<Rightarrow> ptr \<Rightarrow> ('q \<times> 'h) res) \<Rightarrow>
    ('q \<Rightarrow> 'h \<Rightarrow> (ptr \<times> 'q \<times> 'h) res) \<Rightarrow> ('q \<Rightarrow> 'h \<Rightarrow> (ptr \<times> 'q \<times> 'h) res) \<Rightarrow>
    dq_op list \<Rightarrow> 'q \<Rightarrow> 'h \<Rightarrow> (ptr list \<times> 'q \<times> 'h) res" where
  "dq_run ph pf pp pb [] q h = Inr ([], q, h)"
| "dq_run ph pf pp pb (DPush t # ops) q h = bindR (ph q h (Some t)) (\<lambda>(q', h'). dq_run ph pf pp pb ops q' h')"
| "dq_run ph pf pp pb (DPushFront t # ops) q h = bindR (pf q h (Some t)) (\<lambda>(q', h'). dq_run ph pf pp pb ops q' h')"
| "dq_run ph pf pp pb (DPop # ops) q h = bindR (pp q h) (\<lambda>(r, q', h').
     bindR (dq_run ph pf pp pb ops q' h') (\<lambda>(rs, z). Inr (r # rs, z)))"
| "dq_run ph pf pp pb (DPopBack # ops) q h = bindR (pb q h) (\<lambda>(r, q', h').
     bindR (dq_run ph pf pp pb ops q' h') (\<lambda>(rs, z). Inr (r # rs, z)))"

locale task_deque =
  fixes push :: "'q \<Rightarrow> 'h \<Rightarrow> ptr \<Rightarrow> ('q \<times> 'h) res"
    and push_front :: "'q \<Rightarrow> 'h \<Rightarrow> ptr \<Rightarrow> ('q \<times> 'h) res"
    and pop :: "'q \<Rightarrow> 'h \<Rightarrow> (ptr \<times> 'q \<times> 'h) res"
    and pop_back :: "'q \<Rightarrow> 'h \<Rightarrow> (ptr \<times> 'q \<times> 'h) res"
    and rep :: "'q \<Rightarrow> 'h \<Rightarrow> addr list \<Rightarrow> bool"
    and loose :: "'h \<Rightarrow> addr \<Rightarrow> bool"
    and same :: "'h \<Rightarrow> 'h \<Rightarrow> bool"
  assumes push_law: "rep q h xs \<Longrightarrow> loose h t \<Longrightarrow> t \<notin> set xs \<Longrightarrow> length xs + 1 < 2 ^ 32 \<Longrightarrow>
      \<exists>q' h'. push q h (Some t) = Inr (q', h') \<and> rep q' h' (xs @ [t]) \<and> same h h' \<and>
        (\<forall>a. a \<notin> set (t # xs) \<longrightarrow> loose h a \<longrightarrow> loose h' a)"
    and push_front_law: "rep q h xs \<Longrightarrow> loose h t \<Longrightarrow> t \<notin> set xs \<Longrightarrow> length xs + 1 < 2 ^ 32 \<Longrightarrow>
      \<exists>q' h'. push_front q h (Some t) = Inr (q', h') \<and> rep q' h' (t # xs) \<and> same h h' \<and>
        (\<forall>a. a \<notin> set (t # xs) \<longrightarrow> loose h a \<longrightarrow> loose h' a)"
    and pop_law: "rep q h xs \<Longrightarrow>
      \<exists>q' h'. pop q h = Inr (if xs = [] then None else Some (hd xs), q', h') \<and> rep q' h' (tl xs) \<and>
        same h h' \<and> (\<forall>a. a \<notin> set (tl xs) \<longrightarrow> a \<in> set xs \<or> loose h a \<longrightarrow> loose h' a)"
    and pop_back_law: "rep q h xs \<Longrightarrow>
      \<exists>q' h'. pop_back q h = Inr (if xs = [] then None else Some (last xs), q', h') \<and> rep q' h' (butlast xs) \<and>
        same h h' \<and> (\<forall>a. a \<notin> set (butlast xs) \<longrightarrow> a \<in> set xs \<or> loose h a \<longrightarrow> loose h' a)"
    and same_refl: "same h h"
    and same_trans: "same h h' \<Longrightarrow> same h' h'' \<Longrightarrow> same h h''"
begin

lemma run_refines:
  assumes "rep q h xs" and "\<And>a. a \<in> T \<Longrightarrow> a \<notin> set xs \<Longrightarrow> loose h a" and "dq_ok T ops xs"
  shows "\<exists>q' h'. dq_run push push_front pop pop_back ops q h = Inr (fst (dq_spec ops xs), q', h') \<and>
    rep q' h' (snd (dq_spec ops xs)) \<and> same h h'"
  using assms
proof (induction ops arbitrary: q h xs)
  case Nil
  then show ?case by (simp add: same_refl)
next
  case (Cons op ops)
  show ?case
  proof (cases op)
    case (DPush t)
    with Cons.prems push_law [of q h xs t] obtain q' h' where
      1: "push q h (Some t) = Inr (q', h')" "rep q' h' (xs @ [t])" "same h h'"
        "\<forall>a. a \<notin> set (t # xs) \<longrightarrow> loose h a \<longrightarrow> loose h' a" by auto
    with Cons.prems DPush have "\<exists>q'' h''. dq_run push push_front pop pop_back ops q' h' =
        Inr (fst (dq_spec ops (xs @ [t])), q'', h'') \<and> rep q'' h'' (snd (dq_spec ops (xs @ [t]))) \<and> same h' h''"
      by (intro Cons.IH) auto
    with 1 DPush show ?thesis by (auto intro: same_trans)
  next
    case (DPushFront t)
    with Cons.prems push_front_law [of q h xs t] obtain q' h' where
      1: "push_front q h (Some t) = Inr (q', h')" "rep q' h' (t # xs)" "same h h'"
        "\<forall>a. a \<notin> set (t # xs) \<longrightarrow> loose h a \<longrightarrow> loose h' a" by auto
    with Cons.prems DPushFront have "\<exists>q'' h''. dq_run push push_front pop pop_back ops q' h' =
        Inr (fst (dq_spec ops (t # xs)), q'', h'') \<and> rep q'' h'' (snd (dq_spec ops (t # xs))) \<and> same h' h''"
      by (intro Cons.IH) auto
    with 1 DPushFront show ?thesis by (auto intro: same_trans)
  next
    case DPop
    with Cons.prems pop_law [of q h xs] obtain q' h' where
      1: "pop q h = Inr (if xs = [] then None else Some (hd xs), q', h')" "rep q' h' (tl xs)" "same h h'"
        "\<forall>a. a \<notin> set (tl xs) \<longrightarrow> a \<in> set xs \<or> loose h a \<longrightarrow> loose h' a" by auto
    with Cons.prems DPop have "\<exists>q'' h''. dq_run push push_front pop pop_back ops q' h' =
        Inr (fst (dq_spec ops (tl xs)), q'', h'') \<and> rep q'' h'' (snd (dq_spec ops (tl xs))) \<and> same h' h''"
      by (intro Cons.IH) auto
    with 1 DPop show ?thesis by (auto intro: same_trans split: prod.splits)
  next
    case DPopBack
    with Cons.prems pop_back_law [of q h xs] obtain q' h' where
      1: "pop_back q h = Inr (if xs = [] then None else Some (last xs), q', h')" "rep q' h' (butlast xs)"
        "same h h'" "\<forall>a. a \<notin> set (butlast xs) \<longrightarrow> a \<in> set xs \<or> loose h a \<longrightarrow> loose h' a" by auto
    with Cons.prems DPopBack have "\<exists>q'' h''. dq_run push push_front pop pop_back ops q' h' =
        Inr (fst (dq_spec ops (butlast xs)), q'', h'') \<and> rep q'' h'' (snd (dq_spec ops (butlast xs))) \<and> same h' h''"
      by (intro Cons.IH) auto
    with 1 DPopBack show ?thesis by (auto intro: same_trans split: prod.splits)
  qed
qed

end

lemma unlinked_frame: "h' a = h a \<Longrightarrow> unlinked h a \<Longrightarrow> unlinked h' a"
  by (simp add: unlinked_def)

interpretation tq: task_deque LpelTaskqueuePush LpelTaskqueuePushFront LpelTaskqueuePop LpelTaskqueuePopBack
  tq_rep unlinked same_body
proof unfold_locales
  fix q h xs
  assume rep: "tq_rep q h xs"
  show "\<exists>q' h'. LpelTaskqueuePop q h = Inr (if xs = [] then None else Some (hd xs), q', h') \<and>
      tq_rep q' h' (tl xs) \<and> same_body h h' \<and>
      (\<forall>a. a \<notin> set (tl xs) \<longrightarrow> a \<in> set xs \<or> unlinked h a \<longrightarrow> unlinked h' a)"
  proof (cases xs)
    case Nil
    with rep show ?thesis by (simp add: tq_Pop_empty)
  next
    case (Cons y ys)
    with tq_Pop [of q h y ys] rep show ?thesis by (auto intro: unlinked_frame) (metis unlinked_frame)
  qed
  show "\<exists>q' h'. LpelTaskqueuePopBack q h = Inr (if xs = [] then None else Some (last xs), q', h') \<and>
      tq_rep q' h' (butlast xs) \<and> same_body h h' \<and>
      (\<forall>a. a \<notin> set (butlast xs) \<longrightarrow> a \<in> set xs \<or> unlinked h a \<longrightarrow> unlinked h' a)"
  proof (cases xs rule: rev_cases)
    case Nil
    with rep show ?thesis by (simp add: tq_PopBack_empty)
  next
    case (snoc ys y)
    with tq_PopBack [of q h ys y] rep show ?thesis by (auto intro: unlinked_frame) (metis unlinked_frame)
  qed
next
  fix q h xs t
  assume "tq_rep q h xs" "unlinked h t" "t \<notin> set xs" "length xs + 1 < 2 ^ 32"
  note a = this
  from tq_Push [OF a] show "\<exists>q' h'. LpelTaskqueuePush q h (Some t) = Inr (q', h') \<and> tq_rep q' h' (xs @ [t]) \<and>
      same_body h h' \<and> (\<forall>a. a \<notin> set (t # xs) \<longrightarrow> unlinked h a \<longrightarrow> unlinked h' a)"
    by (meson unlinked_frame)
  from tq_PushFront [OF a] show "\<exists>q' h'. LpelTaskqueuePushFront q h (Some t) = Inr (q', h') \<and>
      tq_rep q' h' (t # xs) \<and> same_body h h' \<and> (\<forall>a. a \<notin> set (t # xs) \<longrightarrow> unlinked h a \<longrightarrow> unlinked h' a)"
    by (meson unlinked_frame)
qed (auto intro: same_body_trans)

section \<open>Properties\<close>

text \<open>
  C15: Any sequence of pushes and pops at both ends of a task queue, in which only tasks that are in
  no queue are pushed, runs without a failing assertion or bad dereference, returns what the same
  operations on a list return, leaves the queue holding the list they leave, and changes nothing
  of any task but its links.
\<close>

theorem taskqueue_refines_deque:
  assumes "tq_rep q h xs" and "\<And>a. a \<in> T \<Longrightarrow> a \<notin> set xs \<Longrightarrow> unlinked h a" and "dq_ok T ops xs"
  shows "\<exists>q' h'. dq_run LpelTaskqueuePush LpelTaskqueuePushFront LpelTaskqueuePop LpelTaskqueuePopBack ops q h =
      Inr (fst (dq_spec ops xs), q', h') \<and> tq_rep q' h' (snd (dq_spec ops xs)) \<and> same_body h h'"
  using assms by (rule tq.run_refines)

theorem taskqueue_refines_deque_witness:
  "\<exists>q' h'. dq_run LpelTaskqueuePush LpelTaskqueuePushFront LpelTaskqueuePop LpelTaskqueuePopBack
      [DPush 1, DPush 2, DPushFront 3, DPop, DPopBack] LpelTaskqueueInit (\<lambda>_. Some (ex_task 0)) =
      Inr ([Some 3, Some 2], q', h') \<and> tq_rep q' h' [1]"
proof -
  have "\<exists>q' h'. dq_run LpelTaskqueuePush LpelTaskqueuePushFront LpelTaskqueuePop LpelTaskqueuePopBack
      [DPush 1, DPush 2, DPushFront 3, DPop, DPopBack] LpelTaskqueueInit (\<lambda>_. Some (ex_task 0)) =
      Inr (fst (dq_spec [DPush 1, DPush 2, DPushFront 3, DPop, DPopBack] []), q', h') \<and>
      tq_rep q' h' (snd (dq_spec [DPush 1, DPush 2, DPushFront 3, DPop, DPopBack] [])) \<and>
      same_body (\<lambda>_. Some (ex_task 0)) h'"
    by (rule taskqueue_refines_deque [where T = UNIV]) (simp_all add: tq_rep_init unlinked_def)
  then show ?thesis by (simp del: dq_run.simps) blast
qed

text \<open>
  C16: One pass of \<open>LpelTaskqueueIterateRemove\<close> over a queue returns; it calls the condition on
  every task in queue order, removes exactly the tasks that satisfy it and performs the action on
  each once, keeps the others in order, unlinks the removed ones and returns their number.
\<close>

theorem taskqueue_iterate_remove:
  assumes "tq_rep q h xs" and "iter_spec cond action xs arg = (ks, rs, arg')"
  shows "\<exists>q' h'. LpelTaskqueueIterateRemove cond action q h arg =
      Some (Inr (int (length rs), q', h', arg')) \<and> tq_rep q' h' ks \<and> (\<forall>r \<in> set rs. unlinked h' r) \<and>
      same_body h h' \<and> (\<forall>a. a \<notin> set xs \<longrightarrow> h' a = h a)"
  using iterate_remove_ok [of q h "[]" xs cond action arg ks rs arg' "tq_head q" 0] assms
    tq_rep_ends(1) [OF assms(1)] by (simp add: LpelTaskqueueIterateRemove_def)

definition ex_queue :: "tasks" where
  "ex_queue = [1 \<mapsto> (ex_task 0)\<lparr>t_next := Some 2\<rparr>, 2 \<mapsto> (ex_task 0)\<lparr>t_prev := Some 1, t_next := Some 3\<rparr>,
     3 \<mapsto> (ex_task 0)\<lparr>t_prev := Some 2\<rparr>]"

theorem taskqueue_iterate_remove_witness:
  "\<exists>q' h'. LpelTaskqueueIterateRemove (\<lambda>t _. t = 2) (\<lambda>t ts. ts @ [t])
      \<lparr>tq_head = Some 1, tq_tail = Some 3, tq_count = 3\<rparr> ex_queue [] = Some (Inr (1, q', h', [2])) \<and>
    tq_rep q' h' [1, 3] \<and> unlinked h' 2"
proof -
  have "tq_rep \<lparr>tq_head = Some 1, tq_tail = Some 3, tq_count = 3\<rparr> ex_queue [1, 2, 3]"
    by (simp add: tq_rep_def ex_queue_def nlist_def fld_def)
  from taskqueue_iterate_remove [OF this, of "\<lambda>t _. t = 2" "\<lambda>t ts. ts @ [t]" "[]" "[1, 3]" "[2]" "[2]"]
  show ?thesis by auto
qed

end
