(* ===== verification/Decen_Scheduler.thy ===== *)
theory Decen_Scheduler
  imports Decen_Taskqueue
begin

text \<open>
  \<open>src/sched/decentralised/decen_scheduler.c\<close>: the ready tasks of one worker, one task queue for
  each of the \<open>SCHED_NUM_PRIO\<close> priorities. \<open>sched_rep sc h qs\<close> abstracts the queues to the lists
  \<open>qs\<close> of tasks, which are pairwise disjoint. All facts about the queues come from the
  interpretation \<open>tq\<close> of the deque interface and the frame lemma of \<open>tq_rep\<close>.
\<close>

section \<open>Model\<close>

definition SCHED_NUM_PRIO :: nat where
  "SCHED_NUM_PRIO = 2"

record schedctx_t =
  sc_queue :: "taskqueue_t list"

definition LpelSchedCreate :: "int \<Rightarrow> schedctx_t" where
  "LpelSchedCreate wid = \<lparr>sc_queue = map (\<lambda>i. LpelTaskqueueInit) [0..<SCHED_NUM_PRIO]\<rparr>"

fun destroy_from :: "taskqueue_t list \<Rightarrow> unit res" where
  "destroy_from [] = Inr ()"
| "destroy_from (q # qs) = bindR (assertR (tq_count q = 0)) (\<lambda>_.
     bindR (LpelTaskqueueDestroy q) (\<lambda>_. destroy_from qs))"

definition LpelSchedDestroy :: "schedctx_t \<Rightarrow> unit res" where
  "LpelSchedDestroy sc = destroy_from (sc_queue sc)"

definition LpelSchedMakeReady :: "schedctx_t \<Rightarrow> tasks \<Rightarrow> ptr \<Rightarrow> (schedctx_t \<times> tasks) res" where
  "LpelSchedMakeReady sc h t =
     bindR (deref h t) (\<lambda>c.
       let prio = t_prio c;
           prio = (if prio < 0 then 0 else prio);
           prio = (if prio \<ge> int SCHED_NUM_PRIO then int SCHED_NUM_PRIO - 1 else prio)
       in bindR (aget (sc_queue sc) (nat prio)) (\<lambda>q.
          bindR (LpelTaskqueuePush q h t) (\<lambda>(q', h').
          bindR (aset (sc_queue sc) (nat prio) q') (\<lambda>qs. Inr (sc\<lparr>sc_queue := qs\<rparr>, h')))))"

text \<open>\<open>fetch_from (i + 1)\<close> is the loop of \<open>LpelSchedFetchReady\<close> from index \<open>i\<close> down to 0.\<close>

fun fetch_from :: "nat \<Rightarrow> schedctx_t \<Rightarrow> tasks \<Rightarrow> (ptr \<times> schedctx_t \<times> tasks) res" where
  "fetch_from 0 sc h = Inr (None, sc, h)"
| "fetch_from (Suc i) sc h =
     bindR (aget (sc_queue sc) i) (\<lambda>q.
       if tq_count q > 0 then
         bindR (LpelTaskqueuePop q h) (\<lambda>(t, q', h').
         bindR (aset (sc_queue sc) i q') (\<lambda>qs. Inr (t, sc\<lparr>sc_queue := qs\<rparr>, h')))
       else fetch_from i sc h)"

definition LpelSchedFetchReady :: "schedctx_t \<Rightarrow> tasks \<Rightarrow> (ptr \<times> schedctx_t \<times> tasks) res" where
  "LpelSchedFetchReady sc h = fetch_from SCHED_NUM_PRIO sc h"

section \<open>Representation\<close>

definition sched_rep :: "schedctx_t \<Rightarrow> tasks \<Rightarrow> addr list list \<Rightarrow> bool" where
  "sched_rep sc h qs \<longleftrightarrow> length qs = SCHED_NUM_PRIO \<and> length (sc_queue sc) = SCHED_NUM_PRIO \<and>
     (\<forall>i < SCHED_NUM_PRIO. tq_rep (sc_queue sc ! i) h (qs ! i)) \<and> distinct (concat qs)"

definition prio_index :: "int \<Rightarrow> nat" where
  "prio_index p = nat (min (max p 0) (int SCHED_NUM_PRIO - 1))"

lemma prio_index_less [simp]: "prio_index p < SCHED_NUM_PRIO"
  by (simp add: prio_index_def SCHED_NUM_PRIO_def)

lemma sched_rep_create: "sched_rep (LpelSchedCreate wid) h (replicate SCHED_NUM_PRIO [])"
  by (auto simp: sched_rep_def LpelSchedCreate_def tq_rep_init)

lemma nth_concat_subset: "i < length qs \<Longrightarrow> set (qs ! i) \<subseteq> set (concat qs)"
  by (simp add: UN_upper)

lemma distinct_concat_nth:
  assumes "distinct (concat qs)" and "i < length qs" and "j < length qs" and "i \<noteq> j"
  shows "set (qs ! i) \<inter> set (qs ! j) = {}"
  using assms
proof (induction qs arbitrary: i j)
  case (Cons q qs)
  have "set q \<inter> set (qs ! k) = {}" if "k < length qs" for k
    using nth_concat_subset [OF that] Cons.prems(1) by auto
  with Cons show ?case by (cases i; cases j) auto
qed simp

lemma concat_upd_mset:
  assumes "i < length qs"
  shows "mset (concat (qs[i := v])) + mset (qs ! i) = mset (concat qs) + mset v"
  using assms
proof (induction qs arbitrary: i)
  case (Cons q qs)
  then show ?case by (cases i) auto
qed simp

lemma distinct_concat_upd:
  assumes "distinct (concat qs)" and "i < length qs" and "mset v + A = mset (qs ! i) + mset_set B" 
    and "finite B" and "B \<inter> set (concat qs) = {}"
  shows "distinct (concat (qs[i := v]))"
proof -
  have "mset (concat (qs[i := v])) + A = mset (concat qs) + mset_set B"
  proof -
    have "(mset (concat (qs[i := v])) + A) + mset (qs ! i) = (mset (concat qs) + mset v) + A"
      using concat_upd_mset [OF assms(2), of v] by (simp only: ac_simps)
    also have "\<dots> = mset (concat qs) + (mset (qs ! i) + mset_set B)"
      unfolding assms(3) [symmetric] by (simp only: ac_simps)
    also have "\<dots> = (mset (concat qs) + mset_set B) + mset (qs ! i)"
      by (simp only: ac_simps)
    finally show ?thesis by (rule add_right_imp_eq)
  qed
  moreover have "count (mset (concat qs) + mset_set B) x \<le> 1" for x
    using assms(1,4,5) by (cases "x \<in> B") (auto simp: distinct_count_atmost_1 count_mset_set' count_eq_zero_iff)
  ultimately have "count (mset (concat (qs[i := v]))) x \<le> 1" for x
    by (metis add_leD1 count_union)
  then show ?thesis
    unfolding distinct_count_atmost_1 by (metis count_eq_zero_iff count_greater_eq_one_iff le_antisym set_mset_mset)
qed

text \<open>Changing one queue and the links of its tasks leaves the other queues as they are.\<close>

lemma sched_rep_upd:
  assumes "sched_rep sc h qs" and "i < SCHED_NUM_PRIO" and "tq_rep q' h' v"
    and "distinct (concat (qs[i := v]))"
    and "\<And>a j. j < SCHED_NUM_PRIO \<Longrightarrow> j \<noteq> i \<Longrightarrow> a \<in> set (qs ! j) \<Longrightarrow> h' a = h a"
  shows "sched_rep (sc\<lparr>sc_queue := (sc_queue sc)[i := q']\<rparr>) h' (qs[i := v])"
  unfolding sched_rep_def
proof (intro conjI allI impI)
  fix j assume "j < SCHED_NUM_PRIO"
  with assms show "tq_rep (sc_queue (sc\<lparr>sc_queue := (sc_queue sc)[i := q']\<rparr>) ! j) h' (qs[i := v] ! j)"
    by (cases "j = i") (auto simp: sched_rep_def intro: tq_rep_frame)
qed (use assms in \<open>auto simp: sched_rep_def\<close>)

lemma sched_MakeReady:
  assumes rep: "sched_rep sc h qs" and t: "h t = Some c" "unlinked h t" "t \<notin> set (concat qs)"
    and len: "length (concat qs) + 1 < 2 ^ 32"
  shows "\<exists>sc' h'. LpelSchedMakeReady sc h (Some t) = Inr (sc', h') \<and>
    sched_rep sc' h' (qs[prio_index (t_prio c) := qs ! prio_index (t_prio c) @ [t]]) \<and> same_body h h' \<and>
    (\<forall>a. a \<notin> set (t # concat qs) \<longrightarrow> h' a = h a)"
proof -
  let ?i = "prio_index (t_prio c)"
  have i: "?i < SCHED_NUM_PRIO" "?i < length qs" "?i < length (sc_queue sc)"
    using rep by (auto simp: sched_rep_def)
  have q: "tq_rep (sc_queue sc ! ?i) h (qs ! ?i)" using rep i by (simp add: sched_rep_def)
  have sub: "set (qs ! ?i) \<subseteq> set (concat qs)" using i by (intro nth_concat_subset)
  have "length (qs ! ?i) \<le> length (concat qs)"
    using i(2) by (simp add: length_concat member_le_sum_list)
  with len have len': "length (qs ! ?i) + 1 < 2 ^ 32" by linarith
  have "t \<notin> set (qs ! ?i)" using t sub by blast
  from tq_Push [OF q t(2) this len'] obtain q' h' where
    p: "LpelTaskqueuePush (sc_queue sc ! ?i) h (Some t) = Inr (q', h')" "tq_rep q' h' (qs ! ?i @ [t])"
      "same_body h h'" "\<forall>a. a \<notin> set (t # qs ! ?i) \<longrightarrow> h' a = h a" by blast
  have "distinct (concat (qs[?i := qs ! ?i @ [t]]))"
    using rep i t(3) by (intro distinct_concat_upd [where A = "{#}" and B = "{t}"]) (auto simp: sched_rep_def)
  moreover have "h' a = h a" if "j < SCHED_NUM_PRIO" "j \<noteq> ?i" "a \<in> set (qs ! j)" for a j
  proof -
    have "a \<in> set (concat qs)" using that rep by (auto simp: sched_rep_def)
    moreover have "a \<notin> set (qs ! ?i)"
      using distinct_concat_nth [of qs j ?i] that rep by (auto simp: sched_rep_def)
    ultimately show ?thesis using p(4) t(3) by auto
  qed
  ultimately have "sched_rep (sc\<lparr>sc_queue := (sc_queue sc)[?i := q']\<rparr>) h' (qs[?i := qs ! ?i @ [t]])"
    using sched_rep_upd [OF rep i(1) p(2)] by blast
  moreover have "LpelSchedMakeReady sc h (Some t) = Inr (sc\<lparr>sc_queue := (sc_queue sc)[?i := q']\<rparr>, h')"
  proof -
    have "nat (if int SCHED_NUM_PRIO \<le> (if t_prio c < 0 then 0 else t_prio c) then int SCHED_NUM_PRIO - 1
       else if t_prio c < 0 then 0 else t_prio c) = ?i"
      by (auto simp: prio_index_def SCHED_NUM_PRIO_def min_def max_def)
    then show ?thesis using t(1) p(1) i(3) by (simp add: LpelSchedMakeReady_def Let_def)
  qed
  ultimately show ?thesis using p(3,4) sub by auto
qed

text \<open>The fetch loop stops at the highest non-empty queue.\<close>

lemma fetch_from_empty:
  assumes "sched_rep sc h qs" and "n \<le> SCHED_NUM_PRIO" and "\<And>i. i < n \<Longrightarrow> qs ! i = []"
  shows "fetch_from n sc h = Inr (None, sc, h)"
  using assms(2,3)
proof (induction n)
  case (Suc n)
  have "qs ! n = []" and "n < SCHED_NUM_PRIO" using Suc.prems by auto
  then have "tq_rep (sc_queue sc ! n) h []" using assms(1) by (metis sched_rep_def)
  then have "tq_count (sc_queue sc ! n) = 0" using tq_rep_count by blast
  then show ?case using Suc assms(1) by (simp add: sched_rep_def)
qed simp

lemma fetch_from_top:
  assumes rep: "sched_rep sc h qs" and "n \<le> SCHED_NUM_PRIO" and "i < n" and i: "qs ! i = t # ts"
    and "\<And>j. i < j \<Longrightarrow> j < n \<Longrightarrow> qs ! j = []"
  shows "\<exists>sc' h'. fetch_from n sc h = Inr (Some t, sc', h') \<and> sched_rep sc' h' (qs[i := ts]) \<and>
    unlinked h' t \<and> same_body h h' \<and> (\<forall>a. a \<notin> set (concat qs) \<longrightarrow> h' a = h a)"
  using assms(2,3,5)
proof (induction n)
  case (Suc n)
  have n: "n < SCHED_NUM_PRIO" "n < length (sc_queue sc)" using Suc.prems rep by (auto simp: sched_rep_def)
  have q: "tq_rep (sc_queue sc ! n) h (qs ! n)" using rep n by (simp add: sched_rep_def)
  show ?case
  proof (cases "n = i")
    case False
    then have "tq_count (sc_queue sc ! n) = 0"
      using Suc.prems q tq_rep_count [OF q] by auto
    then have "fetch_from (Suc n) sc h = fetch_from n sc h" using n by simp
    with Suc False show ?thesis by simp
  next
    case True
    then have q': "tq_rep (sc_queue sc ! i) h (t # ts)" using q i by simp
    from tq_Pop [OF this] obtain q1 h' where
      p: "LpelTaskqueuePop (sc_queue sc ! i) h = Inr (Some t, q1, h')" "tq_rep q1 h' ts" "unlinked h' t"
        "same_body h h'" "\<forall>a. a \<notin> set (t # ts) \<longrightarrow> h' a = h a" by blast
    have i': "i < length qs" using rep n True by (simp add: sched_rep_def)
    have "distinct (concat (qs[i := ts]))"
      using rep i i' by (intro distinct_concat_upd [where A = "{#t#}" and B = "{}"]) (auto simp: sched_rep_def)
    moreover have "h' a = h a" if "j < SCHED_NUM_PRIO" "j \<noteq> i" "a \<in> set (qs ! j)" for a j
      using distinct_concat_nth [of qs j i] that rep i i' p(5) by (auto simp: sched_rep_def)
    ultimately have "sched_rep (sc\<lparr>sc_queue := (sc_queue sc)[i := q1]\<rparr>) h' (qs[i := ts])"
      using sched_rep_upd [OF rep _ p(2)] n True by blast
    moreover have "tq_count (sc_queue sc ! i) > 0"
      using tq_rep_count [OF q'] by (simp add: word_neq_0_conv)
    moreover have "\<forall>a. a \<notin> set (concat qs) \<longrightarrow> h' a = h a"
      using nth_concat_subset [OF i'] p(5) unfolding i by blast
    ultimately show ?thesis using p n True by auto
  qed
qed simp

text \<open>The tasks held, in the order \<open>LpelSchedFetchReady\<close> returns them.\<close>

definition fetch_order :: "addr list list \<Rightarrow> addr list" where
  "fetch_order qs = concat (rev qs)"

lemma sched_two:
  assumes "sched_rep sc h qs"
  obtains lo hi where "qs = [lo, hi]"
  using assms by (auto simp: sched_rep_def SCHED_NUM_PRIO_def length_Suc_conv numeral_2_eq_2)

lemma sched_FetchReady:
  assumes "sched_rep sc h qs"
  shows "\<exists>sc' h' qs'. LpelSchedFetchReady sc h =
      Inr (if concat qs = [] then None else Some (hd (fetch_order qs)), sc', h') \<and>
    sched_rep sc' h' qs' \<and> fetch_order qs' = tl (fetch_order qs) \<and> same_body h h' \<and>
    (\<forall>t. t \<in> set (concat qs) \<longrightarrow> t \<notin> set (concat qs') \<longrightarrow> unlinked h' t) \<and>
    (\<forall>a. a \<notin> set (concat qs) \<longrightarrow> h' a = h a)"
proof -
  from sched_two [OF assms] obtain lo hi where qs: "qs = [lo, hi]" .
  note num = SCHED_NUM_PRIO_def
  show ?thesis
  proof (cases hi)
    case (Cons t ts)
    have "\<exists>sc' h'. fetch_from SCHED_NUM_PRIO sc h = Inr (Some t, sc', h') \<and> sched_rep sc' h' (qs[1 := ts]) \<and>
      unlinked h' t \<and> same_body h h' \<and> (\<forall>a. a \<notin> set (concat qs) \<longrightarrow> h' a = h a)"
      using qs Cons by (intro fetch_from_top [OF assms]) (auto simp: num)
    with qs Cons show ?thesis by (auto simp: LpelSchedFetchReady_def fetch_order_def intro!: exI [of _ "[lo, ts]"])
  next
    case Nil
    show ?thesis
    proof (cases lo)
      case (Cons t ts)
      have "\<exists>sc' h'. fetch_from SCHED_NUM_PRIO sc h = Inr (Some t, sc', h') \<and> sched_rep sc' h' (qs[0 := ts]) \<and>
        unlinked h' t \<and> same_body h h' \<and> (\<forall>a. a \<notin> set (concat qs) \<longrightarrow> h' a = h a)"
        using qs Nil Cons by (intro fetch_from_top [OF assms]) (auto simp: num nth_Cons split: nat.splits)
      with qs Nil Cons show ?thesis by (auto simp: LpelSchedFetchReady_def fetch_order_def intro!: exI [of _ "[ts, []]"])
    next
      case lo: Nil
      have "fetch_from SCHED_NUM_PRIO sc h = Inr (None, sc, h)"
        using qs Nil lo by (intro fetch_from_empty [OF assms]) (auto simp: num nth_Cons split: nat.splits)
      with qs Nil lo assms show ?thesis by (auto simp: LpelSchedFetchReady_def fetch_order_def)
    qed
  qed
qed

section \<open>Properties\<close>

text \<open>
  Fetching from the scheduler of a worker never fails. It returns no task exactly when no task
  is ready; otherwise it returns the task that has been ready longest among those of the highest
  priority, removes only that task, unlinks it, and keeps the order of all others.
\<close>

theorem sched_fetch_ready:
  assumes "sched_rep sc h qs"
  shows "\<exists>sc' h' qs'. LpelSchedFetchReady sc h =
      Inr (if concat qs = [] then None else Some (hd (fetch_order qs)), sc', h') \<and>
    sched_rep sc' h' qs' \<and> fetch_order qs' = tl (fetch_order qs) \<and> same_body h h' \<and>
    (\<forall>t. t \<in> set (concat qs) \<longrightarrow> t \<notin> set (concat qs') \<longrightarrow> unlinked h' t) \<and>
    (\<forall>a. a \<notin> set (concat qs) \<longrightarrow> h' a = h a)"
  using assms by (rule sched_FetchReady)

definition ex_ready :: "tasks" where
  "ex_ready = [1 \<mapsto> (ex_task 0)\<lparr>t_next := Some 2\<rparr>, 2 \<mapsto> (ex_task 0)\<lparr>t_prev := Some 1\<rparr>, 3 \<mapsto> ex_task 1]"

definition ex_sched :: schedctx_t where
  "ex_sched = \<lparr>sc_queue = [\<lparr>tq_head = Some 1, tq_tail = Some 2, tq_count = 2\<rparr>,
     \<lparr>tq_head = Some 3, tq_tail = Some 3, tq_count = 1\<rparr>]\<rparr>"

lemma ex_sched_rep: "sched_rep ex_sched ex_ready [[1, 2], [3]]"
  by (auto simp: sched_rep_def ex_sched_def ex_ready_def SCHED_NUM_PRIO_def tq_rep_def nlist_def fld_def
      less_2_cases_iff)

theorem sched_fetch_ready_witness:
  "\<exists>sc' h' qs'. LpelSchedFetchReady ex_sched ex_ready = Inr (Some 3, sc', h') \<and>
    sched_rep sc' h' qs' \<and> fetch_order qs' = [1, 2]"
  using sched_fetch_ready [OF ex_sched_rep] by (auto simp: fetch_order_def)

text \<open>Making a list of tasks ready, and fetching until the scheduler is empty.\<close>

fun make_all_ready :: "addr list \<Rightarrow> schedctx_t \<Rightarrow> tasks \<Rightarrow> (schedctx_t \<times> tasks) res" where
  "make_all_ready [] sc h = Inr (sc, h)"
| "make_all_ready (t # ts) sc h = bindR (LpelSchedMakeReady sc h (Some t)) (\<lambda>(sc', h'). make_all_ready ts sc' h')"

fun fetch_all :: "nat \<Rightarrow> schedctx_t \<Rightarrow> tasks \<Rightarrow> (ptr list \<times> schedctx_t \<times> tasks) res" where
  "fetch_all 0 sc h = Inr ([], sc, h)"
| "fetch_all (Suc n) sc h = bindR (LpelSchedFetchReady sc h) (\<lambda>(t, sc', h').
     bindR (fetch_all n sc' h') (\<lambda>(ts, z). Inr (t # ts, z)))"

definition prio_of :: "tasks \<Rightarrow> addr \<Rightarrow> int" where
  "prio_of h t = t_prio (the (h t))"

lemma same_body_prio: "same_body h h' \<Longrightarrow> h t = Some c \<Longrightarrow> prio_of h' t = t_prio c"
  by (metis body_eq_fields(1) option.sel prio_of_def same_body_Some)

lemma make_all_ready_ok:
  assumes "sched_rep sc h [lo, hi]" and "distinct ts" and "\<And>t. t \<in> set ts \<Longrightarrow> unlinked h t"
    and "set ts \<inter> set (lo @ hi) = {}" and "length (lo @ hi @ ts) < 2 ^ 32"
  shows "\<exists>sc' h'. make_all_ready ts sc h = Inr (sc', h') \<and> same_body h h' \<and>
    sched_rep sc' h' [lo @ filter (\<lambda>t. prio_of h t \<le> 0) ts, hi @ filter (\<lambda>t. prio_of h t > 0) ts]"
  using assms
proof (induction ts arbitrary: sc h lo hi)
  case (Cons t ts)
  obtain c where c: "h t = Some c" using Cons.prems(3) [of t] by (auto simp: unlinked_def)
  let ?i = "prio_index (t_prio c)" and ?qs = "[lo, hi]"
  have "\<exists>sc' h'. LpelSchedMakeReady sc h (Some t) = Inr (sc', h') \<and>
    sched_rep sc' h' (?qs[?i := ?qs ! ?i @ [t]]) \<and> same_body h h' \<and>
    (\<forall>a. a \<notin> set (t # concat ?qs) \<longrightarrow> h' a = h a)"
    using Cons.prems c by (intro sched_MakeReady) auto
  then obtain sc1 h1 where 1: "LpelSchedMakeReady sc h (Some t) = Inr (sc1, h1)"
    "sched_rep sc1 h1 (?qs[?i := ?qs ! ?i @ [t]])" "same_body h h1"
    "\<forall>a. a \<notin> set (t # concat ?qs) \<longrightarrow> h1 a = h a" by blast
  have keep: "h1 a = h a" if "a \<in> set ts" for a
    using 1(4) that Cons.prems(2,4) by (auto simp: disjoint_iff)
  then have p: "prio_of h1 a = prio_of h a" if "a \<in> set ts" for a using that by (simp add: prio_of_def)
  have f: "filter (\<lambda>t. prio_of h1 t \<le> 0) ts = filter (\<lambda>t. prio_of h t \<le> 0) ts"
    "filter (\<lambda>t. prio_of h1 t > 0) ts = filter (\<lambda>t. prio_of h t > 0) ts"
    using p by (auto intro: filter_cong)
  have u: "unlinked h1 a" if "a \<in> set ts" for a
    using keep [OF that] Cons.prems(3) [of a] that by (auto simp: unlinked_def)
  show ?case
  proof (cases "t_prio c \<le> 0")
    case True
    then have "?qs[?i := ?qs ! ?i @ [t]] = [lo @ [t], hi]" by (simp add: prio_index_def SCHED_NUM_PRIO_def)
    with 1 u Cons.prems have "\<exists>sc' h'. make_all_ready ts sc1 h1 = Inr (sc', h') \<and> same_body h1 h' \<and>
      sched_rep sc' h' [(lo @ [t]) @ filter (\<lambda>t. prio_of h1 t \<le> 0) ts, hi @ filter (\<lambda>t. prio_of h1 t > 0) ts]"
      by (intro Cons.IH) auto
    with 1 c True f show ?thesis by (auto simp: prio_of_def intro: same_body_trans)
  next
    case False
    then have "?qs[?i := ?qs ! ?i @ [t]] = [lo, hi @ [t]]" by (auto simp: prio_index_def SCHED_NUM_PRIO_def)
    with 1 u Cons.prems have "\<exists>sc' h'. make_all_ready ts sc1 h1 = Inr (sc', h') \<and> same_body h1 h' \<and>
      sched_rep sc' h' [lo @ filter (\<lambda>t. prio_of h1 t \<le> 0) ts, (hi @ [t]) @ filter (\<lambda>t. prio_of h1 t > 0) ts]"
      by (intro Cons.IH) auto
    with 1 c False f show ?thesis by (auto simp: prio_of_def intro: same_body_trans)
  qed
qed simp

lemma fetch_all_ok:
  assumes "sched_rep sc h qs"
  shows "\<exists>sc' h' qs'. fetch_all (length (concat qs)) sc h = Inr (map Some (fetch_order qs), sc', h') \<and>
    sched_rep sc' h' qs' \<and> concat qs' = [] \<and> same_body h h'"
  using assms
proof (induction "length (concat qs)" arbitrary: sc h qs)
  case 0
  then have "concat qs = []" by simp
  moreover from this have "fetch_order qs = []" by (auto simp: fetch_order_def)
  ultimately show ?case using 0 by (auto simp del: concat_eq_Nil_conv)
next
  case (Suc n)
  from Suc.hyps(2) have ne: "concat qs \<noteq> []" by (metis list.size(3) nat.distinct(1))
  have len: "length (fetch_order xs) = length (concat xs)" for xs
    by (simp add: fetch_order_def length_concat rev_map [symmetric] sum_list_rev)
  from sched_FetchReady [OF Suc.prems] ne obtain sc1 h1 qs1 where
    1: "LpelSchedFetchReady sc h = Inr (Some (hd (fetch_order qs)), sc1, h1)" "sched_rep sc1 h1 qs1"
      "fetch_order qs1 = tl (fetch_order qs)" "same_body h h1" by (auto simp del: concat_eq_Nil_conv)
  then have "n = length (concat qs1)" using Suc.hyps(2) len by (metis diff_Suc_1 length_tl)
  from Suc.hyps(1) [OF this 1(2)] this obtain sc' h' qs' where
    2: "fetch_all n sc1 h1 = Inr (map Some (fetch_order qs1), sc', h')" "sched_rep sc' h' qs'" "concat qs' = []"
      "same_body h1 h'" by auto
  have "fetch_order qs \<noteq> []" using ne len by (metis length_0_conv)
  then have "map Some (fetch_order qs) = Some (hd (fetch_order qs)) # map Some (fetch_order qs1)"
    using 1(3) by (cases "fetch_order qs") auto
  with 1 2 have "fetch_all (Suc n) sc h = Inr (map Some (fetch_order qs), sc', h')" by simp
  with 1 2 Suc.hyps(2) show ?case by (metis same_body_trans)
qed

lemma sched_destroy_empty:
  assumes "sched_rep sc h qs" and "concat qs = []"
  shows "LpelSchedDestroy sc = Inr ()"
proof -
  obtain lo hi where qs: "qs = [lo, hi]" using sched_two [OF assms(1)] .
  with assms have "\<forall>i < 2. tq_rep (sc_queue sc ! i) h []" "length (sc_queue sc) = 2"
    by (auto simp: sched_rep_def SCHED_NUM_PRIO_def less_2_cases_iff)
  then obtain q0 q1 where "sc_queue sc = [q0, q1]" "tq_rep q0 h []" "tq_rep q1 h []"
    by (auto simp: length_Suc_conv numeral_2_eq_2 less_Suc_eq)
  then show ?thesis by (simp add: LpelSchedDestroy_def LpelTaskqueueDestroy_def tq_rep_def)
qed

text \<open>
  C20: Tasks made ready on a fresh scheduler are all fetched again, each exactly once: first those of
  positive priority in the order they became ready, then those of priority zero or less in that
  order (priorities are clamped to the two queues), and nothing of a task changes but its links.
\<close>

theorem sched_drain_order:
  assumes "distinct ts" and "\<And>t. t \<in> set ts \<Longrightarrow> unlinked h t" and "length ts < 2 ^ 32"
  shows "\<exists>sc1 h1 sc2 h2. make_all_ready ts (LpelSchedCreate wid) h = Inr (sc1, h1) \<and>
    fetch_all (length ts) sc1 h1 =
      Inr (map Some (filter (\<lambda>t. prio_of h t > 0) ts @ filter (\<lambda>t. prio_of h t \<le> 0) ts), sc2, h2) \<and>
    same_body h h2 \<and> LpelSchedDestroy sc2 = Inr ()"
proof -
  let ?lo = "filter (\<lambda>t. prio_of h t \<le> 0) ts" and ?hi = "filter (\<lambda>t. prio_of h t > 0) ts"
  have "sched_rep (LpelSchedCreate wid) h [[], []]"
    using sched_rep_create [of wid h] by (simp add: SCHED_NUM_PRIO_def numeral_2_eq_2)
  from make_all_ready_ok [OF this assms(1,2)] assms(3) obtain sc1 h1 where
    1: "make_all_ready ts (LpelSchedCreate wid) h = Inr (sc1, h1)" "same_body h h1" "sched_rep sc1 h1 [?lo, ?hi]"
    by auto
  from fetch_all_ok [OF 1(3)] obtain sc2 h2 qs2 where
    2: "fetch_all (length (concat [?lo, ?hi])) sc1 h1 = Inr (map Some (fetch_order [?lo, ?hi]), sc2, h2)"
      "sched_rep sc2 h2 qs2" "concat qs2 = []" "same_body h1 h2" by blast
  have "length (concat [?lo, ?hi]) = length ts"
    using sum_length_filter_compl [of "\<lambda>t. prio_of h t \<le> 0" ts] by (simp add: not_le)
  moreover have "LpelSchedDestroy sc2 = Inr ()" by (rule sched_destroy_empty [OF 2(2,3)])
  ultimately show ?thesis using 1 2 by (auto simp: fetch_order_def intro: same_body_trans)
qed

theorem sched_drain_order_witness:
  "\<exists>sc1 h1 sc2 h2. make_all_ready [1, 2, 3] (LpelSchedCreate 0) [1 \<mapsto> ex_task (- 4), 2 \<mapsto> ex_task 9, 3 \<mapsto> ex_task 1] = Inr (sc1, h1) \<and>
    fetch_all 3 sc1 h1 = Inr ([Some 2, Some 3, Some 1], sc2, h2) \<and> LpelSchedDestroy sc2 = Inr ()"
proof -
  let ?h = "[1 \<mapsto> ex_task (- 4), 2 \<mapsto> ex_task 9, 3 \<mapsto> ex_task 1]"
  have "unlinked ?h t" if "t \<in> set [1, 2, 3]" for t using that by (auto simp: unlinked_def)
  from sched_drain_order [of "[1, 2, 3]" ?h 0, OF _ this] show ?thesis
    by (simp add: prio_of_def numeral_3_eq_3 [symmetric] del: make_all_ready.simps fetch_all.simps One_nat_def)
       blast
qed

end
