(* ===== verification/Spmd.thy ===== *)
theory Spmd
  imports Lpel_Types
begin

text \<open>
  The SPMD extension of the decentralised scheduler, \<open>spmdext.c\<close>: a task asks that all workers meet
  in a barrier, run a function together and meet again. Requests are queued in an array with
  atomic indices; each worker has a semaphore. A worker context is named by its index in the table
  of workers. The function \<open>LpelSpmdHandleRequests\<close> runs on all workers at once, so it is given as a
  program counter with one step per access to shared data; \<open>LpelSpmdRequest\<close> likewise.
\<close>

subsection \<open>Data\<close>

record spmdreq_t =
  rq_wctx :: "nat option"
  rq_func :: nat
  rq_arg :: ptr
  rq_task :: ptr

record spmd_worker_t =
  sw_sema :: nat
  sw_curreq :: "spmdreq_t option"
  sw_pending :: int

text \<open>The static variables of the file.\<close>

record spmd_t =
  sp_num_workers :: int
  sp_worker_data :: "spmd_worker_t list"
  sp_req_queue :: "spmdreq_t list"
  sp_qhead :: nat
  sp_qtail :: nat

definition spmd_static :: spmd_t where
  "spmd_static = \<lparr>sp_num_workers = -1, sp_worker_data = [], sp_req_queue = [], sp_qhead = 0, sp_qtail = 0\<rparr>"

definition GetVId :: "int \<Rightarrow> int \<Rightarrow> int \<Rightarrow> int" where
  "GetVId num_workers self_id master_id =
    (let vid = master_id - self_id in if vid < 0 then vid + num_workers else vid)"

text \<open>\<open>junk\<close> is what \<open>malloc\<close> leaves in the queue; only the worker of a request is initialised.\<close>

definition LpelSpmdInit :: "spmd_t \<Rightarrow> spmdreq_t \<Rightarrow> int \<Rightarrow> spmd_t res" where
  "LpelSpmdInit S junk numworkers =
    bindR (assertR (numworkers > 0)) (\<lambda>_.
      Inr (S\<lparr>sp_num_workers := numworkers,
        sp_req_queue := replicate (nat numworkers) (junk\<lparr>rq_wctx := None\<rparr>),
        sp_worker_data := replicate (nat numworkers) \<lparr>sw_sema = 0, sw_curreq = None, sw_pending = 0\<rparr>\<rparr>))"

definition LpelSpmdCleanup :: "spmd_t \<Rightarrow> spmd_t" where
  "LpelSpmdCleanup S = S\<lparr>sp_worker_data := [], sp_req_queue := []\<rparr>"

definition upd_worker :: "spmd_t \<Rightarrow> nat \<Rightarrow> (spmd_worker_t \<Rightarrow> spmd_worker_t) \<Rightarrow> spmd_t res" where
  "upd_worker S w f =
    bindR (aget (sp_worker_data S) w) (\<lambda>d. Inr (S\<lparr>sp_worker_data := (sp_worker_data S)[w := f d]\<rparr>))"

definition sem_post :: "spmd_t \<Rightarrow> nat \<Rightarrow> spmd_t res" where
  "sem_post S w = upd_worker S w (\<lambda>d. d\<lparr>sw_sema := sw_sema d + 1\<rparr>)"

text \<open>A wait on a semaphore that is \<open>0\<close> blocks: \<open>None\<close>.\<close>

definition sem_wait :: "spmd_t \<Rightarrow> nat \<Rightarrow> spmd_t res option" where
  "sem_wait S w = (case aget (sp_worker_data S) w of Inl e \<Rightarrow> Some (Inl e)
     | Inr d \<Rightarrow> if sw_sema d = 0 then None
         else Some (Inr (S\<lparr>sp_worker_data := (sp_worker_data S)[w := d\<lparr>sw_sema := sw_sema d - 1\<rparr>]\<rparr>)))"

subsection \<open>Requests\<close>

text \<open>The accesses of \<open>LpelSpmdRequest\<close> to shared data, in their order.\<close>

definition req_pending :: "spmd_t \<Rightarrow> int \<Rightarrow> spmd_t res" where
  "req_pending S wid =
    bindR (assertR (wid \<ge> 0 \<and> wid < sp_num_workers S)) (\<lambda>_.
    bindR (aget (sp_worker_data S) (nat wid)) (\<lambda>d.
    bindR (assertR (sw_pending d = 0)) (\<lambda>_.
      upd_worker S (nat wid) (\<lambda>d. d\<lparr>sw_pending := 1\<rparr>))))"

definition req_slot :: "spmd_t \<Rightarrow> nat \<times> spmd_t" where
  "req_slot S = (sp_qtail S mod nat (sp_num_workers S), S\<lparr>sp_qtail := sp_qtail S + 1\<rparr>)"

definition upd_req :: "spmd_t \<Rightarrow> nat \<Rightarrow> (spmdreq_t \<Rightarrow> spmdreq_t) \<Rightarrow> spmd_t res" where
  "upd_req S i f =
    bindR (aget (sp_req_queue S) i) (\<lambda>r. Inr (S\<lparr>sp_req_queue := (sp_req_queue S)[i := f r]\<rparr>))"

definition req_wctx :: "spmd_t \<Rightarrow> nat \<Rightarrow> nat \<Rightarrow> spmd_t res" where
  "req_wctx S i wid = upd_req S i (\<lambda>r. r\<lparr>rq_wctx := Some wid\<rparr>)"

definition req_rest :: "spmd_t \<Rightarrow> nat \<Rightarrow> nat \<Rightarrow> ptr \<Rightarrow> ptr \<Rightarrow> spmd_t res" where
  "req_rest S i func arg task = upd_req S i (\<lambda>r. r\<lparr>rq_func := func, rq_arg := arg, rq_task := task\<rparr>)"

text \<open>The whole function without interference.\<close>

definition LpelSpmdRequest :: "spmd_t \<Rightarrow> ptr \<Rightarrow> int \<Rightarrow> nat \<Rightarrow> ptr \<Rightarrow> spmd_t res" where
  "LpelSpmdRequest S task wid func arg =
    bindR (req_pending S wid) (\<lambda>S.
    case req_slot S of (tail, S) \<Rightarrow>
    bindR (req_wctx S tail (nat wid)) (\<lambda>S. req_rest S tail func arg task))"

definition LpelSpmdVId :: "spmd_t \<Rightarrow> int \<Rightarrow> int res" where
  "LpelSpmdVId S self_id =
    bindR (assertR (self_id \<ge> 0 \<and> self_id < sp_num_workers S)) (\<lambda>_.
    bindR (aget (sp_worker_data S) (nat self_id)) (\<lambda>d.
    case sw_curreq d of None \<Rightarrow> Inl AssertFail
    | Some r \<Rightarrow> (case rq_wctx r of None \<Rightarrow> Inl NullDeref
        | Some m \<Rightarrow> Inr (GetVId (sp_num_workers S) self_id (int m)))))"

subsection \<open>Handling requests\<close>

text \<open>The critical section of the master: take the request off the queue and reduce the tail.\<close>

definition master_section :: "spmd_t \<Rightarrow> nat \<Rightarrow> spmd_t res" where
  "master_section S head =
    bindR (upd_req S head (\<lambda>r. r\<lparr>rq_wctx := None\<rparr>)) (\<lambda>S.
    let n = nat (sp_num_workers S);
        S = S\<lparr>sp_qhead := (head + 1) mod n\<rparr>;
        tail = sp_qtail S;
        tail = (if tail \<ge> n then tail mod n else tail)
    in Inr (S\<lparr>sp_qtail := tail\<rparr>))"

text \<open>
  End of the stop barrier on the master: the request is no longer pending. The wakeup of the task that
  follows acts on the scheduler only; theory \<open>Decen_Spmd\<close> has it.
\<close>

definition master_done :: "spmd_t \<Rightarrow> nat \<Rightarrow> spmd_t res" where
  "master_done S w =
    bindR (aget (sp_worker_data S) w) (\<lambda>d.
    bindR (assertR (sw_pending d = 1)) (\<lambda>_.
      upd_worker S w (\<lambda>d. d\<lparr>sw_pending := 0\<rparr>)))"

text \<open>
  Where a worker is. Outside: running tasks. \<open>Q\<close>: in \<open>LpelSpmdRequest\<close>. \<open>HTop\<close>, \<open>HRead\<close>: at the top of
  the loop of \<open>LpelSpmdHandleRequests\<close>. \<open>M\<close>: the branches of the master, with the number of waits or
  signals done so far. \<open>N\<close>: the branches of the other workers. \<open>MEnter\<close>, \<open>MExec\<close>, \<open>NEnter\<close> and
  \<open>NExec\<close> surround the place where the requested function is meant to run.
\<close>

datatype spc = Outside
  | QSlot nat ptr ptr | QWctx nat nat ptr ptr | QRest nat nat ptr ptr
  | HTop | HRead nat
  | MWait nat nat spmdreq_t | MSection nat spmdreq_t | MSignal nat spmdreq_t
  | MEnter spmdreq_t | MExec spmdreq_t | MStop nat spmdreq_t | MDone spmdreq_t
  | NPost spmdreq_t | NWait spmdreq_t | NEnter spmdreq_t | NExec spmdreq_t | NStop spmdreq_t

definition go :: "spmd_t res \<Rightarrow> spc \<Rightarrow> (spmd_t \<times> spc) res option" where
  "go r p = Some (bindR r (\<lambda>S. Inr (S, p)))"

definition go_wait :: "spmd_t res option \<Rightarrow> spc \<Rightarrow> (spmd_t \<times> spc) res option" where
  "go_wait r p = (case r of None \<Rightarrow> None | Some r \<Rightarrow> go r p)"

text \<open>The assertion on the worker id with which \<open>LpelSpmdHandleRequests\<close> begins.\<close>

definition handle_entry :: "spmd_t \<Rightarrow> nat \<Rightarrow> spmd_t res" where
  "handle_entry S w = bindR (assertR (int w \<ge> 0 \<and> int w < sp_num_workers S)) (\<lambda>_. Inr S)"

text \<open>
  After the copy of the request at the head: leave, or take the branch of the master or of the other
  workers. A loop of semaphore waits that is done falls through. The copy of the structure is one step. Only
  its field \<open>wctx\<close>, one word, decides where a worker goes; a copy torn by a requester that still writes
  the other three fields is like one made before these writes, which the two steps of \<open>LpelSpmdRequest\<close> allow.
\<close>

definition handle_read :: "spmd_t \<Rightarrow> nat \<Rightarrow> nat \<Rightarrow> (spmd_t \<times> spc) res" where
  "handle_read S w head =
    bindR (aget (sp_req_queue S) head) (\<lambda>curreq.
    case rq_wctx curreq of None \<Rightarrow> Inr (S, Outside)
    | Some cur_worker_id \<Rightarrow>
        bindR (assertR (int cur_worker_id \<noteq> -1)) (\<lambda>_.
        if cur_worker_id = w then Inr (S, MWait 0 head curreq) else Inr (S, NPost curreq)))"

fun spmd_step :: "spmd_t \<Rightarrow> nat \<Rightarrow> spc \<Rightarrow> (spmd_t \<times> spc) res option" where
  "spmd_step S w Outside = Some (Inr (S, Outside))"
| "spmd_step S w (QSlot f a t) = (case req_slot S of (i, S) \<Rightarrow> Some (Inr (S, QWctx i f a t)))"
| "spmd_step S w (QWctx i f a t) = go (req_wctx S i w) (QRest i f a t)"
| "spmd_step S w (QRest i f a t) = go (bindR (req_rest S i f a t) (\<lambda>S. handle_entry S w)) HTop"
| "spmd_step S w HTop = Some (Inr (S, HRead (sp_qhead S)))"
| "spmd_step S w (HRead head) = Some (handle_read S w head)"
| "spmd_step S w (MWait k head r) =
    (if k < nat (sp_num_workers S) - 1 then go_wait (sem_wait S w) (MWait (k + 1) head r)
     else Some (Inr (S, MSection head r)))"
| "spmd_step S w (MSection head r) = go (master_section S head) (MSignal 0 r)"
| "spmd_step S w (MSignal i r) =
    (if i < nat (sp_num_workers S)
     then if i \<noteq> w then go (sem_post S i) (MSignal (i + 1) r) else Some (Inr (S, MSignal (i + 1) r))
     else Some (Inr (S, MEnter r)))"
| "spmd_step S w (MEnter r) = go (upd_worker S w (\<lambda>d. d\<lparr>sw_curreq := Some r\<rparr>)) (MExec r)"
| "spmd_step S w (MExec r) = go (upd_worker S w (\<lambda>d. d\<lparr>sw_curreq := None\<rparr>)) (MStop 0 r)"
| "spmd_step S w (MStop k r) =
    (if k < nat (sp_num_workers S) - 1 then go_wait (sem_wait S w) (MStop (k + 1) r)
     else Some (Inr (S, MDone r)))"
| "spmd_step S w (MDone r) = go (master_done S w) HTop"
| "spmd_step S w (NPost r) = go (sem_post S (the (rq_wctx r))) (NWait r)"
| "spmd_step S w (NWait r) = go_wait (sem_wait S w) (NEnter r)"
| "spmd_step S w (NEnter r) = go (upd_worker S w (\<lambda>d. d\<lparr>sw_curreq := Some r\<rparr>)) (NExec r)"
| "spmd_step S w (NExec r) = go (upd_worker S w (\<lambda>d. d\<lparr>sw_curreq := None\<rparr>)) (NStop r)"
| "spmd_step S w (NStop r) = go (sem_post S (the (rq_wctx r))) HTop"

end
