(* ===== verification/Decen_Worker.thy ===== *)
theory Decen_Worker
  imports Decen_Scheduler Mailbox Spmd
begin

text \<open>
  \<open>src/sched/decentralised/decen_worker.c\<close>: workers and wrappers of the decentralised scheduler.
  Every function is translated up to the point where it switches the machine context; \<open>SwTask n\<close>
  tells that task \<open>n\<close> continues, \<open>SwWorker\<close> that the loop of the worker does. A mailbox is the
  list of its pending messages, which the channel interface of the mailbox theory justifies.
  \<open>pick\<close> gives the answers of \<open>LpelPickTargetWorker\<close>, \<open>mig\<close> tells whether the mechanism
  \<open>LPEL_MIG_WAIT_PROP\<close> is configured. There are no requests of the \<open>spmdext\<close> module: the loops and the dispatcher
  leave out the call of \<open>LpelSpmdHandleRequests\<close>, which then has no effect (theory \<open>Decen_Spmd\<close>).
\<close>

section \<open>Model\<close>

definition MSG_TERMINATE_decen :: int where "MSG_TERMINATE_decen = 1"
definition MSG_WAKEUP_decen :: int where "MSG_WAKEUP_decen = 2"
definition MSG_ASSIGN_decen :: int where "MSG_ASSIGN_decen = 3"
definition MSG_SPMDREQ_decen :: int where "MSG_SPMDREQ_decen = 4"

lemmas decen_msg_types = MSG_TERMINATE_decen_def MSG_WAKEUP_decen_def MSG_ASSIGN_decen_def MSG_SPMDREQ_decen_def

record decen_workerctx_t =
  dk_wid :: int
  dk_terminate :: int
  dk_num_tasks :: "32 word"
  dk_current_task :: ptr
  dk_marked_del :: ptr
  dk_mon :: ptr
  dk_mailbox :: "workermsg_t list"
  dk_sched :: "schedctx_t option"
  dk_wraptask :: ptr
  dk_migrated :: ptr

text \<open>The shared memory: tasks, worker contexts and the table \<open>workers\<close>.\<close>

record decen_sys =
  dv_tasks :: tasks
  dv_workers :: "decen_workerctx_t heap"
  dv_table :: "addr list"

datatype sw = SwWorker | SwTask addr

definition upd_dk :: "decen_sys \<Rightarrow> ptr \<Rightarrow> (decen_workerctx_t \<Rightarrow> decen_workerctx_t) \<Rightarrow> decen_sys res" where
  "upd_dk s wc f = bindR (upd (dv_workers s) wc f) (\<lambda>h. Inr (s\<lparr>dv_workers := h\<rparr>))"

definition upd_tk :: "decen_sys \<Rightarrow> ptr \<Rightarrow> (lpel_task_t \<Rightarrow> lpel_task_t) \<Rightarrow> decen_sys res" where
  "upd_tk s t f = bindR (upd (dv_tasks s) t f) (\<lambda>h. Inr (s\<lparr>dv_tasks := h\<rparr>))"

lemma upd_dk_Some [simp]: "dv_workers s a = Some c \<Longrightarrow> upd_dk s (Some a) f = Inr (s\<lparr>dv_workers := (dv_workers s)(a \<mapsto> f c)\<rparr>)"
  by (simp add: upd_dk_def)

lemma upd_tk_Some [simp]: "dv_tasks s a = Some c \<Longrightarrow> upd_tk s (Some a) f = Inr (s\<lparr>dv_tasks := (dv_tasks s)(a \<mapsto> f c)\<rparr>)"
  by (simp add: upd_tk_def)

abbreviation mk_msg :: "int \<Rightarrow> ptr \<Rightarrow> workermsg_t" where
  "mk_msg ty t \<equiv> \<lparr>msg_type = ty, msg_body = BTask t\<rparr>"

definition send_to :: "decen_sys \<Rightarrow> ptr \<Rightarrow> workermsg_t \<Rightarrow> decen_sys res" where
  "send_to s wc msg = upd_dk s wc (\<lambda>c. c\<lparr>dk_mailbox := dk_mailbox c @ [msg]\<rparr>)"

definition SendAssign :: "decen_sys \<Rightarrow> ptr \<Rightarrow> ptr \<Rightarrow> decen_sys res" where
  "SendAssign s target t = send_to s target (mk_msg MSG_ASSIGN_decen t)"

definition SendWakeup :: "decen_sys \<Rightarrow> ptr \<Rightarrow> ptr \<Rightarrow> decen_sys res" where
  "SendWakeup s target t = send_to s target (mk_msg MSG_WAKEUP_decen t)"

text \<open>The scheduler of a worker and the heap of tasks are updated together.\<close>

definition sched_ready :: "decen_sys \<Rightarrow> ptr \<Rightarrow> ptr \<Rightarrow> decen_sys res" where
  "sched_ready s wc t =
     bindR (deref (dv_workers s) wc) (\<lambda>c.
       case dk_sched c of None \<Rightarrow> Inl NullDeref
       | Some sc \<Rightarrow> bindR (LpelSchedMakeReady sc (dv_tasks s) t) (\<lambda>(sc', h).
           upd_dk (s\<lparr>dv_tasks := h\<rparr>) wc (\<lambda>c. c\<lparr>dk_sched := Some sc'\<rparr>)))"

definition sched_fetch :: "decen_sys \<Rightarrow> ptr \<Rightarrow> (ptr \<times> decen_sys) res" where
  "sched_fetch s wc =
     bindR (deref (dv_workers s) wc) (\<lambda>c.
       case dk_sched c of None \<Rightarrow> Inl NullDeref
       | Some sc \<Rightarrow> bindR (LpelSchedFetchReady sc (dv_tasks s)) (\<lambda>(t, sc', h).
           bindR (upd_dk (s\<lparr>dv_tasks := h\<rparr>) wc (\<lambda>c. c\<lparr>dk_sched := Some sc'\<rparr>)) (\<lambda>s'. Inr (t, s'))))"

subsection \<open>Set-up\<close>

text \<open>
  \<open>news\<close> are the answers of \<open>malloc\<close>; the fields that the function does not set (\<open>current_task\<close> and
  \<open>marked_del\<close>, which \<open>WorkerThread\<close> sets) have the indeterminate values of \<open>junk\<close>.
\<close>

definition init_worker :: "decen_workerctx_t \<Rightarrow> int \<Rightarrow> decen_workerctx_t" where
  "init_worker junk i = junk\<lparr>dk_wid := i, dk_num_tasks := 0, dk_terminate := 0, dk_sched := Some (LpelSchedCreate i),
     dk_wraptask := None, dk_migrated := None, dk_mon := None, dk_mailbox := []\<rparr>"

fun init_workers :: "decen_workerctx_t \<Rightarrow> ptr list \<Rightarrow> int \<Rightarrow> decen_sys \<Rightarrow> decen_sys res" where
  "init_workers junk [] i s = Inr s"
| "init_workers junk (new # news) i s =
     bindR (alloc_at (dv_workers s) new (init_worker junk i)) (\<lambda>h.
       init_workers junk news (i + 1) (s\<lparr>dv_workers := h, dv_table := dv_table s @ [the new]\<rparr>))"

text \<open>
  The static variables of the \<open>spmdext\<close> module are set up too; \<open>rjunk\<close> is what \<open>malloc\<close> leaves in its queue. Its
  initialisation returns \<open>0\<close> or fails its assertion, so the final \<open>assert(res==0)\<close> holds whenever it is reached.
\<close>

definition LpelWorkersInit_decen :: "spmdreq_t \<Rightarrow> decen_workerctx_t \<Rightarrow> ptr list \<Rightarrow> decen_sys \<times> spmd_t \<Rightarrow> int \<Rightarrow>
    (decen_sys \<times> spmd_t) res" where
  "LpelWorkersInit_decen rjunk junk news x sz = (case x of (s, S) \<Rightarrow>
     bindR (assertR (0 \<le> sz)) (\<lambda>_.
     bindR (LpelSpmdInit S rjunk sz) (\<lambda>S1.
     bindR (init_workers junk (take (nat sz) news) 0 (s\<lparr>dv_table := []\<rparr>)) (\<lambda>s1. Inr (s1, S1)))))"

definition LpelWorkerGetContext :: "decen_sys \<Rightarrow> decen_workerctx_t \<Rightarrow> ptr \<Rightarrow> int \<Rightarrow> (ptr \<times> decen_sys) res" where
  "LpelWorkerGetContext s junk new wid =
     bindR (if wid = LPEL_MAP_OTHERS then
              bindR (alloc_at (dv_workers s) new
                (junk\<lparr>dk_wid := LPEL_MAP_OTHERS, dk_terminate := 0, dk_sched := None, dk_wraptask := None, dk_mon := None, dk_mailbox := []\<rparr>))
                (\<lambda>h. Inr (new, s\<lparr>dv_workers := h\<rparr>))
            else if 0 \<le> wid \<and> wid < int (length (dv_table s)) then Inr (Some (dv_table s ! nat wid), s)
            else Inr (None, s)) (\<lambda>(wc, s').
     bindR (assertR (wc \<noteq> None)) (\<lambda>_. Inr (wc, s')))"

text \<open>\<open>LpelWorkerGetContext\<close> for the id of a worker, as the functions below call it.\<close>

definition get_worker :: "decen_sys \<Rightarrow> int \<Rightarrow> ptr res" where
  "get_worker s wid = bindR (assertR (0 \<le> wid \<and> wid < int (length (dv_table s)))) (\<lambda>_. Inr (Some (dv_table s ! nat wid)))"

lemma get_worker_GetContext:
  "wid \<noteq> LPEL_MAP_OTHERS \<Longrightarrow> LpelWorkerGetContext s junk new wid = bindR (get_worker s wid) (\<lambda>wc. Inr (wc, s))"
  by (auto simp: LpelWorkerGetContext_def get_worker_def)

definition LpelWorkerCount_decen :: "decen_sys \<Rightarrow> int" where
  "LpelWorkerCount_decen s = int (length (dv_table s))"

definition LpelWorkerCurrentTask_decen :: "decen_sys \<Rightarrow> ptr \<Rightarrow> ptr res" where
  "LpelWorkerCurrentTask_decen s self =
     bindR (assertR (self \<noteq> None)) (\<lambda>_. bindR (deref (dv_workers s) self) (\<lambda>c. Inr (dk_current_task c)))"

fun broadcast :: "decen_sys \<Rightarrow> addr list \<Rightarrow> workermsg_t \<Rightarrow> decen_sys res" where
  "broadcast s [] msg = Inr s"
| "broadcast s (a # as) msg = bindR (send_to s (Some a) msg) (\<lambda>s'. broadcast s' as msg)"

definition LpelWorkerBroadcast_decen :: "decen_sys \<Rightarrow> workermsg_t \<Rightarrow> decen_sys res" where
  "LpelWorkerBroadcast_decen s msg = broadcast s (dv_table s) msg"

definition LpelWorkersTerminate_decen :: "decen_sys \<Rightarrow> decen_sys res" where
  "LpelWorkersTerminate_decen s = LpelWorkerBroadcast_decen s \<lparr>msg_type = MSG_TERMINATE_decen, msg_body = BNone\<rparr>"

definition LpelWorkerRunTask_decen :: "decen_sys \<Rightarrow> ptr \<Rightarrow> decen_sys res" where
  "LpelWorkerRunTask_decen s t =
     bindR (deref (dv_tasks s) t) (\<lambda>c.
     bindR (assertR (t_state c = TASK_CREATED)) (\<lambda>_. SendAssign s (t_worker_context c) t))"

subsection \<open>Ready tasks and wakeups\<close>

definition LpelWorkerMakeTaskReady :: "bool \<Rightarrow> (ptr \<Rightarrow> int) \<Rightarrow> decen_sys \<Rightarrow> ptr \<Rightarrow> decen_sys res" where
  "LpelWorkerMakeTaskReady mig pick s t =
     bindR (deref (dv_tasks s) t) (\<lambda>c.
     bindR (assertR (t_state c = TASK_READY)) (\<lambda>_.
       let wc = t_worker_context c in
       if mig then
         bindR (deref (dv_workers s) wc) (\<lambda>k.
           if pick t > 0 \<and> pick t \<noteq> dk_wid k then
             bindR (get_worker s (pick t)) (\<lambda>target.
             bindR (upd_tk s t (\<lambda>c. c\<lparr>t_worker_context := target\<rparr>)) (\<lambda>s1.
             bindR (upd_dk s1 wc (\<lambda>k. k\<lparr>dk_num_tasks := dk_num_tasks k - 1\<rparr>)) (\<lambda>s2.
               SendAssign s2 target t)))
           else sched_ready s wc t)
       else sched_ready s wc t))"

definition LpelWorkerTaskWakeup_decen :: "bool \<Rightarrow> (ptr \<Rightarrow> int) \<Rightarrow> decen_sys \<Rightarrow> ptr \<Rightarrow> ptr \<Rightarrow> decen_sys res" where
  "LpelWorkerTaskWakeup_decen mig pick s by_task whom =
     bindR (deref (dv_tasks s) whom) (\<lambda>c.
     bindR (deref (dv_workers s) (t_worker_context c)) (\<lambda>k.
       if dk_wid k < 0 then SendWakeup s (t_worker_context c) whom
       else
         bindR (if by_task = None then Inr True
                else bindR (deref (dv_tasks s) by_task) (\<lambda>b. Inr (t_worker_context b \<noteq> t_worker_context c))) (\<lambda>remote.
           if remote then SendWakeup s (t_worker_context c) whom
           else
             bindR (assertR (t_state c \<noteq> TASK_READY)) (\<lambda>_.
             bindR (upd_tk s whom (\<lambda>c. c\<lparr>t_state := TASK_READY\<rparr>)) (\<lambda>s1.
               LpelWorkerMakeTaskReady mig pick s1 whom)))))"

definition LpelWorkerTaskWakeupLocal :: "bool \<Rightarrow> (ptr \<Rightarrow> int) \<Rightarrow> decen_sys \<Rightarrow> ptr \<Rightarrow> ptr \<Rightarrow> decen_sys res" where
  "LpelWorkerTaskWakeupLocal mig pick s wc t =
     bindR (deref (dv_tasks s) t) (\<lambda>c.
     bindR (assertR (t_state c \<noteq> TASK_READY)) (\<lambda>_.
     bindR (assertR (t_worker_context c = wc)) (\<lambda>_.
     bindR (upd_tk s t (\<lambda>c. c\<lparr>t_state := TASK_READY\<rparr>)) (\<lambda>s1. LpelWorkerMakeTaskReady mig pick s1 t))))"

subsection \<open>Messages\<close>

definition LpelTaskDestroy_decen :: "decen_sys \<Rightarrow> ptr \<Rightarrow> decen_sys res" where
  "LpelTaskDestroy_decen s t =
     bindR (deref (dv_tasks s) t) (\<lambda>c.
     bindR (assertR (t_state c = TASK_ZOMBIE)) (\<lambda>_.
     bindR (free_at (dv_tasks s) t) (\<lambda>h. Inr (s\<lparr>dv_tasks := h\<rparr>))))"

definition CleanupTaskContext :: "decen_sys \<Rightarrow> ptr \<Rightarrow> ptr \<Rightarrow> decen_sys res" where
  "CleanupTaskContext s wc t =
     bindR (deref (dv_workers s) wc) (\<lambda>k.
     bindR (if dk_marked_del k \<noteq> None then
              bindR (LpelTaskDestroy_decen s (dk_marked_del k)) (\<lambda>s1. upd_dk s1 wc (\<lambda>k. k\<lparr>dk_marked_del := None\<rparr>))
            else Inr s) (\<lambda>s2.
       if t \<noteq> None then upd_dk s2 wc (\<lambda>k. k\<lparr>dk_marked_del := t\<rparr>) else Inr s2))"

definition msg_task :: "workermsg_t \<Rightarrow> ptr res" where
  "msg_task msg = (case msg_body msg of BTask p \<Rightarrow> Inr p | _ \<Rightarrow> Inl Indeterminate)"

definition process_wakeup :: "bool \<Rightarrow> (ptr \<Rightarrow> int) \<Rightarrow> decen_sys \<Rightarrow> ptr \<Rightarrow> ptr \<Rightarrow> decen_sys res" where
  "process_wakeup mig pick s wc t =
     bindR (deref (dv_tasks s) t) (\<lambda>c.
     bindR (assertR (t_state c \<noteq> TASK_READY)) (\<lambda>_.
     bindR (upd_tk s t (\<lambda>c. c\<lparr>t_state := TASK_READY\<rparr>)) (\<lambda>s1.
     bindR (deref (dv_workers s1) wc) (\<lambda>k.
       if dk_wid k < 0 then upd_dk s1 wc (\<lambda>k. k\<lparr>dk_wraptask := t\<rparr>)
       else LpelWorkerMakeTaskReady mig pick s1 t))))"

definition process_assign :: "decen_sys \<Rightarrow> ptr \<Rightarrow> ptr \<Rightarrow> decen_sys res" where
  "process_assign s wc t =
     bindR (deref (dv_tasks s) t) (\<lambda>c.
     bindR (assertR (t_state c = TASK_CREATED \<or> t_state c = TASK_READY)) (\<lambda>_.
     bindR (if t_state c = TASK_CREATED then upd_tk s t (\<lambda>c. c\<lparr>t_state := TASK_READY\<rparr>) else Inr s) (\<lambda>s1.
     bindR (upd_dk s1 wc (\<lambda>k. k\<lparr>dk_num_tasks := dk_num_tasks k + 1\<rparr>)) (\<lambda>s2.
     bindR (deref (dv_workers s2) wc) (\<lambda>k.
       if dk_wid k < 0 then upd_dk s2 wc (\<lambda>k. k\<lparr>dk_wraptask := t\<rparr>)
       else sched_ready s2 wc t)))))"

definition ProcessMessage :: "bool \<Rightarrow> (ptr \<Rightarrow> int) \<Rightarrow> decen_sys \<Rightarrow> ptr \<Rightarrow> workermsg_t \<Rightarrow> decen_sys res" where
  "ProcessMessage mig pick s wc msg =
     (if msg_type msg = MSG_WAKEUP_decen then bindR (msg_task msg) (process_wakeup mig pick s wc)
      else if msg_type msg = MSG_TERMINATE_decen then upd_dk s wc (\<lambda>k. k\<lparr>dk_terminate := 1\<rparr>)
      else if msg_type msg = MSG_ASSIGN_decen then bindR (msg_task msg) (process_assign s wc)
      else if msg_type msg = MSG_SPMDREQ_decen then
        bindR (deref (dv_workers s) wc) (\<lambda>k. bindR (assertR (dk_wid k \<ge> 0)) (\<lambda>_. Inr s))
      else Inl AssertFail)"

text \<open>Receiving and processing one message; on an empty mailbox the worker blocks.\<close>

definition recv_process :: "bool \<Rightarrow> (ptr \<Rightarrow> int) \<Rightarrow> decen_sys \<Rightarrow> ptr \<Rightarrow> decen_sys res" where
  "recv_process mig pick s wc =
     bindR (deref (dv_workers s) wc) (\<lambda>k.
       case dk_mailbox k of [] \<Rightarrow> Inl WouldBlock
       | msg # ms \<Rightarrow> bindR (upd_dk s wc (\<lambda>k. k\<lparr>dk_mailbox := ms\<rparr>)) (\<lambda>s1. ProcessMessage mig pick s1 wc msg))"

definition WaitForNewMessage :: "bool \<Rightarrow> (ptr \<Rightarrow> int) \<Rightarrow> decen_sys \<Rightarrow> ptr \<Rightarrow> decen_sys res" where
  "WaitForNewMessage mig pick s wc = recv_process mig pick s wc"

partial_function (option) FetchAllMessages :: "bool \<Rightarrow> (ptr \<Rightarrow> int) \<Rightarrow> decen_sys \<Rightarrow> ptr \<Rightarrow> decen_sys run" where
  "FetchAllMessages mig pick s wc =
     (case deref (dv_workers s) wc of Inl e \<Rightarrow> Some (Inl e)
      | Inr k \<Rightarrow> if dk_mailbox k = [] then Some (Inr s)
          else (case recv_process mig pick s wc of Inl e \<Rightarrow> Some (Inl e)
            | Inr s' \<Rightarrow> FetchAllMessages mig pick s' wc))"

subsection \<open>Dispatching\<close>

definition LpelWorkerDispatcher :: "bool \<Rightarrow> (ptr \<Rightarrow> int) \<Rightarrow> decen_sys \<Rightarrow> ptr \<Rightarrow> (sw \<times> decen_sys) run" where
  "LpelWorkerDispatcher mig pick s t =
     bindO (Some (deref (dv_tasks s) t)) (\<lambda>c.
       let wc = t_worker_context c in
       bindO (Some (deref (dv_workers s) wc)) (\<lambda>k.
         if dk_wid k \<noteq> LPEL_MAP_OTHERS then
           bindO (FetchAllMessages mig pick s wc) (\<lambda>s1.
           bindO (Some (sched_fetch s1 wc)) (\<lambda>(next, s2).
             case next of
               Some n \<Rightarrow> if next = t then Some (Inr (SwTask n, s2))
                 else bindO (Some (upd_dk s2 wc (\<lambda>k. k\<lparr>dk_current_task := next\<rparr>))) (\<lambda>s3. Some (Inr (SwTask n, s3)))
             | None \<Rightarrow> bindO (Some (upd_dk s2 wc (\<lambda>k. k\<lparr>dk_current_task := None\<rparr>))) (\<lambda>s3. Some (Inr (SwWorker, s3)))))
         else bindO (Some (upd_dk s wc (\<lambda>k. k\<lparr>dk_current_task := None\<rparr>))) (\<lambda>s1. Some (Inr (SwWorker, s1)))))"

definition LpelWorkerSelfTaskExit :: "decen_sys \<Rightarrow> ptr \<Rightarrow> decen_sys res" where
  "LpelWorkerSelfTaskExit s t =
     bindR (deref (dv_tasks s) t) (\<lambda>c.
       let wc = t_worker_context c in
       bindR (CleanupTaskContext s wc t) (\<lambda>s1.
       bindR (upd_dk s1 wc (\<lambda>k. k\<lparr>dk_num_tasks := dk_num_tasks k - 1\<rparr>)) (\<lambda>s2.
       bindR (deref (dv_workers s2) wc) (\<lambda>k.
         if dk_wid k < 0 then upd_dk s2 wc (\<lambda>k. k\<lparr>dk_terminate := 1\<rparr>) else Inr s2))))"

definition LpelWorkerSelfTaskYield :: "decen_sys \<Rightarrow> ptr \<Rightarrow> decen_sys res" where
  "LpelWorkerSelfTaskYield s t =
     bindR (deref (dv_tasks s) t) (\<lambda>c.
     bindR (deref (dv_workers s) (t_worker_context c)) (\<lambda>k.
       if dk_wid k < 0 then upd_dk s (t_worker_context c) (\<lambda>k. k\<lparr>dk_wraptask := t\<rparr>)
       else sched_ready s (t_worker_context c) t))"

text \<open>The task itself continues when it is on the target already.\<close>

definition LpelWorkerSelfTaskMigrate :: "decen_sys \<Rightarrow> addr \<Rightarrow> int \<Rightarrow> (sw \<times> decen_sys) res" where
  "LpelWorkerSelfTaskMigrate s t target =
     bindR (deref (dv_tasks s) (Some t)) (\<lambda>c.
       let wc = t_worker_context c in
       bindR (deref (dv_workers s) wc) (\<lambda>k.
         if dk_wid k = target then Inr (SwTask t, s)
         else
           bindR (get_worker s target) (\<lambda>new.
           bindR (upd_tk s (Some t) (\<lambda>c. c\<lparr>t_worker_context := new\<rparr>)) (\<lambda>s1.
           bindR (upd_dk s1 wc (\<lambda>k. k\<lparr>dk_migrated := Some t\<rparr>)) (\<lambda>s2. Inr (SwWorker, s2))))))"

subsection \<open>The loops\<close>

text \<open>
  The body of \<open>WorkerLoop\<close> in two parts: up to the switch to a task (or to the end of the round when no task is
  ready), and from the return to the worker to the end of the round. \<open>loop_ends\<close> is the loop's condition.
\<close>

definition loop_begin :: "bool \<Rightarrow> (ptr \<Rightarrow> int) \<Rightarrow> decen_sys \<Rightarrow> ptr \<Rightarrow> (sw \<times> decen_sys) run" where
  "loop_begin mig pick s wc =
     bindO (Some (sched_fetch s wc)) (\<lambda>(t, s1).
       case t of
         Some n \<Rightarrow> bindO (Some (upd_dk s1 wc (\<lambda>k. k\<lparr>dk_current_task := t\<rparr>))) (\<lambda>s2. Some (Inr (SwTask n, s2)))
       | None \<Rightarrow> bindO (Some (WaitForNewMessage mig pick s1 wc)) (\<lambda>s2.
                 bindO (FetchAllMessages mig pick s2 wc) (\<lambda>s3. Some (Inr (SwWorker, s3)))))"

definition migrate_out :: "decen_sys \<Rightarrow> ptr \<Rightarrow> decen_sys res" where
  "migrate_out s wc =
     bindR (deref (dv_workers s) wc) (\<lambda>k.
       if dk_migrated k \<noteq> None then
         bindR (deref (dv_tasks s) (dk_migrated k)) (\<lambda>c.
         bindR (SendAssign s (t_worker_context c) (dk_migrated k)) (\<lambda>s1.
           upd_dk s1 wc (\<lambda>k. k\<lparr>dk_num_tasks := dk_num_tasks k - 1, dk_migrated := None\<rparr>)))
       else Inr s)"

definition loop_back :: "bool \<Rightarrow> (ptr \<Rightarrow> int) \<Rightarrow> decen_sys \<Rightarrow> ptr \<Rightarrow> decen_sys run" where
  "loop_back mig pick s wc =
     bindO (Some (migrate_out s wc)) (\<lambda>s1.
     bindO (Some (CleanupTaskContext s1 wc None)) (\<lambda>s2. FetchAllMessages mig pick s2 wc))"

definition loop_ends :: "decen_workerctx_t \<Rightarrow> bool" where
  "loop_ends k \<longleftrightarrow> 0 = dk_num_tasks k \<and> dk_terminate k \<noteq> 0"

text \<open>The same for \<open>WrapperLoop\<close>.\<close>

definition wrapper_begin :: "bool \<Rightarrow> (ptr \<Rightarrow> int) \<Rightarrow> decen_sys \<Rightarrow> ptr \<Rightarrow> (sw \<times> decen_sys) run" where
  "wrapper_begin mig pick s wc =
     bindO (Some (deref (dv_workers s) wc)) (\<lambda>k.
       case dk_wraptask k of
         Some n \<Rightarrow> bindO (Some (upd_dk s wc (\<lambda>k. k\<lparr>dk_current_task := Some n, dk_wraptask := None\<rparr>))) (\<lambda>s1. Some (Inr (SwTask n, s1)))
       | None \<Rightarrow> bindO (Some (WaitForNewMessage mig pick s wc)) (\<lambda>s1.
                 bindO (FetchAllMessages mig pick s1 wc) (\<lambda>s2. Some (Inr (SwWorker, s2)))))"

definition wrapper_back :: "bool \<Rightarrow> (ptr \<Rightarrow> int) \<Rightarrow> decen_sys \<Rightarrow> ptr \<Rightarrow> decen_sys run" where
  "wrapper_back mig pick s wc = FetchAllMessages mig pick s wc"

definition wrapper_ends :: "decen_workerctx_t \<Rightarrow> bool" where
  "wrapper_ends k \<longleftrightarrow> dk_terminate k \<noteq> 0"

text \<open>\<open>WorkerThread\<close> before and after the loop, and the clean-up of the workers of the table.\<close>

definition thread_start :: "decen_sys \<Rightarrow> ptr \<Rightarrow> decen_sys res" where
  "thread_start s wc = upd_dk s wc (\<lambda>k. k\<lparr>dk_current_task := None, dk_marked_del := None\<rparr>)"

definition thread_end :: "decen_sys \<Rightarrow> ptr \<Rightarrow> decen_sys res" where
  "thread_end s wc =
     bindR (deref (dv_workers s) wc) (\<lambda>k.
       if dk_wid k < 0 then
         bindR (assertR (dk_mailbox k = [])) (\<lambda>_.
         bindR (free_at (dv_workers s) wc) (\<lambda>h. Inr (s\<lparr>dv_workers := h\<rparr>)))
       else Inr s)"

fun cleanup_workers :: "decen_sys \<Rightarrow> addr list \<Rightarrow> decen_sys res" where
  "cleanup_workers s [] = Inr s"
| "cleanup_workers s (a # as) =
     bindR (deref (dv_workers s) (Some a)) (\<lambda>k.
     bindR (assertR (dk_mailbox k = [])) (\<lambda>_.
     bindR (case dk_sched k of None \<Rightarrow> Inl NullDeref | Some sc \<Rightarrow> LpelSchedDestroy sc) (\<lambda>_.
     bindR (free_at (dv_workers s) (Some a)) (\<lambda>h. cleanup_workers (s\<lparr>dv_workers := h\<rparr>) as))))"

definition LpelWorkersCleanup_decen :: "decen_sys \<times> spmd_t \<Rightarrow> (decen_sys \<times> spmd_t) res" where
  "LpelWorkersCleanup_decen x = (case x of (s, S) \<Rightarrow>
     bindR (cleanup_workers s (dv_table s)) (\<lambda>s'. Inr (s'\<lparr>dv_table := []\<rparr>, LpelSpmdCleanup S)))"

end
