(* ===== verification/Decen_Task.thy ===== *)
theory Decen_Task
  imports Decen_Worker Complex_Main
begin

text \<open>
  \<open>src/sched/decentralised/decen_task.c\<close> and \<open>task_migration.c\<close>, with the users of the same
  rescheduling sequence in \<open>mutex.c\<close> and \<open>sema.c\<close>. A function that gives up the processor is translated up
  to the switch; whichever task continues then runs \<open>TaskStart\<close> first, so \<open>resume\<close> is a definition of its
  own. Machine contexts and stacks are left out, as is the code of the task function.
\<close>

section \<open>Task migration\<close>

datatype tm_mechanism = LPEL_MIG_NONE | LPEL_MIG_RAND | LPEL_MIG_WAIT_PROP

record lpel_tm_config_t =
  tm_mechanism :: tm_mechanism
  tm_num_workers :: int
  tm_threshold :: real

text \<open>
  The two function pointers as values. \<open>c\<close> is the quotient of the random number, \<open>r\<close> the random number
  itself; the monitoring callbacks are arguments.
\<close>

datatype check_func = MigrateRandom_f | MigrateTaskWait_f
datatype pick_func = PickWorkerRandom_f | PickWorkerTaskWait_f

definition LpelTaskMigrationInit :: "bool \<Rightarrow> lpel_tm_config_t \<Rightarrow> (check_func \<times> pick_func) option" where
  "LpelTaskMigrationInit callbacks conf = (case tm_mechanism conf of
      LPEL_MIG_RAND \<Rightarrow> Some (MigrateRandom_f, PickWorkerRandom_f)
    | LPEL_MIG_WAIT_PROP \<Rightarrow> if callbacks then Some (MigrateTaskWait_f, PickWorkerTaskWait_f) else None
    | LPEL_MIG_NONE \<Rightarrow> None)"

definition MigrateRandom :: "lpel_tm_config_t \<Rightarrow> real \<Rightarrow> int" where
  "MigrateRandom conf c = (if c > tm_threshold conf then 1 else 0)"

definition PickWorkerRandom :: "lpel_tm_config_t \<Rightarrow> int \<Rightarrow> int" where
  "PickWorkerRandom conf r = r mod tm_num_workers conf"

definition MigrateTaskWait :: "(ptr \<Rightarrow> real) \<Rightarrow> (ptr \<Rightarrow> real) \<Rightarrow> real \<Rightarrow> lpel_task_t \<Rightarrow> int" where
  "MigrateTaskWait task_wait_prop worker_wait_prop global_wait t =
     (if t_mon t = None then 0
      else if task_wait_prop (t_mon t) > worker_wait_prop (t_mon t) \<and> worker_wait_prop (t_mon t) > global_wait then 1 else 0)"

definition LpelPickTargetWorker :: "(check_func \<Rightarrow> int) \<Rightarrow> (pick_func \<Rightarrow> int) \<Rightarrow> (check_func \<times> pick_func) option \<Rightarrow> int" where
  "LpelPickTargetWorker check pick fs = (case fs of None \<Rightarrow> - 1 | Some (c, p) \<Rightarrow> if check c \<noteq> 0 then pick p else - 1)"

section \<open>Tasks\<close>

definition TaskStart_decen :: "decen_sys \<Rightarrow> addr \<Rightarrow> decen_sys res" where
  "TaskStart_decen s t =
     bindR (deref (dv_tasks s) (Some t)) (\<lambda>c.
     bindR (assertR (t_state c = TASK_READY)) (\<lambda>_. upd_tk s (Some t) (\<lambda>c. c\<lparr>t_state := TASK_RUNNING\<rparr>)))"

definition TaskStop :: "decen_sys \<Rightarrow> addr \<Rightarrow> unit res" where
  "TaskStop s t = bindR (deref (dv_tasks s) (Some t)) (\<lambda>c. assertR (t_state c \<noteq> TASK_RUNNING))"

definition resume :: "sw \<times> decen_sys \<Rightarrow> (sw \<times> decen_sys) res" where
  "resume r = (case r of (SwWorker, s) \<Rightarrow> Inr (SwWorker, s)
     | (SwTask n, s) \<Rightarrow> bindR (TaskStart_decen s n) (\<lambda>s'. Inr (SwTask n, s')))"

text \<open>\<open>wc\<close> is the context that \<open>LpelWorkerGetContext\<close> answers, \<open>new\<close> the block from \<open>valloc\<close>, \<open>seq\<close> the counter \<open>taskseq\<close>.\<close>

definition LpelTaskCreate_decen :: "decen_sys \<Rightarrow> 32 word \<Rightarrow> ptr \<Rightarrow> ptr \<Rightarrow> lpel_task_t \<Rightarrow> ptr \<Rightarrow> ptr \<Rightarrow> int \<Rightarrow> (decen_sys \<times> 32 word) res" where
  "LpelTaskCreate_decen s seq new wc junk func inarg sz =
     (let sz = (if sz \<le> 0 then 8192 else sz) in
      bindR (assertR (sz \<ge> 4096)) (\<lambda>_.
      bindR (alloc_at (dv_tasks s) new
        (junk\<lparr>t_size := sz, t_worker_context := wc, t_prio := 0, t_uid := seq, t_func := func, t_inarg := inarg, t_poll_token := 0,
          t_state := TASK_CREATED, t_prev := None, t_next := None, t_mon := None, t_usrdata := None, t_usrdt_destr := None\<rparr>)) (\<lambda>h.
        Inr (s\<lparr>dv_tasks := h\<rparr>, seq + 1))))"

definition LpelTaskSetPriority_decen :: "decen_sys \<Rightarrow> ptr \<Rightarrow> int \<Rightarrow> decen_sys res" where
  "LpelTaskSetPriority_decen s t p = upd_tk s t (\<lambda>c. c\<lparr>t_prio := p\<rparr>)"

definition LpelTaskStart_decen :: "decen_sys \<Rightarrow> ptr \<Rightarrow> decen_sys res" where
  "LpelTaskStart_decen s t =
     bindR (deref (dv_tasks s) t) (\<lambda>c.
     bindR (assertR (t_state c = TASK_CREATED)) (\<lambda>_. LpelWorkerRunTask_decen s t))"

text \<open>The end of \<open>TaskStartup\<close> and of \<open>FinishOffCurrentTask\<close>.\<close>

definition finish_task :: "bool \<Rightarrow> (ptr \<Rightarrow> int) \<Rightarrow> decen_sys \<Rightarrow> addr \<Rightarrow> (sw \<times> decen_sys) run" where
  "finish_task mig pick s t =
     bindO (Some (upd_tk s (Some t) (\<lambda>c. c\<lparr>t_state := TASK_ZOMBIE\<rparr>))) (\<lambda>s1.
     bindO (Some (LpelWorkerSelfTaskExit s1 (Some t))) (\<lambda>s2.
     bindO (Some (TaskStop s2 t)) (\<lambda>_. LpelWorkerDispatcher mig pick s2 (Some t))))"

text \<open>\<open>destr\<close> is the call of the user's destructor.\<close>

definition LpelTaskExit_decen :: "(decen_sys \<Rightarrow> ptr \<Rightarrow> decen_sys res) \<Rightarrow> bool \<Rightarrow> (ptr \<Rightarrow> int) \<Rightarrow> decen_sys \<Rightarrow> addr \<Rightarrow> (sw \<times> decen_sys) run" where
  "LpelTaskExit_decen destr mig pick s t =
     bindO (Some (deref (dv_tasks s) (Some t))) (\<lambda>c.
     bindO (Some (assertR (t_state c = TASK_RUNNING))) (\<lambda>_.
     bindO (Some (if t_usrdt_destr c \<noteq> None \<and> t_usrdata c \<noteq> None then destr s (t_usrdata c) else Inr s)) (\<lambda>s1.
       finish_task mig pick s1 t)))"

text \<open>The rescheduling sequence shared by \<open>LpelTaskYield\<close>, \<open>LpelMutexEnter\<close> and \<open>LpelBiSemaWait\<close>.\<close>

definition reschedule :: "bool \<Rightarrow> (ptr \<Rightarrow> int) \<Rightarrow> decen_sys \<Rightarrow> addr \<Rightarrow> (sw \<times> decen_sys) run" where
  "reschedule mig pick s t =
     bindO (Some (LpelWorkerSelfTaskYield s (Some t))) (\<lambda>s1.
     bindO (Some (TaskStop s1 t)) (\<lambda>_. LpelWorkerDispatcher mig pick s1 (Some t)))"

definition LpelTaskYield_decen :: "bool \<Rightarrow> (ptr \<Rightarrow> int) \<Rightarrow> decen_sys \<Rightarrow> addr \<Rightarrow> (sw \<times> decen_sys) run" where
  "LpelTaskYield_decen mig pick s t =
     bindO (Some (deref (dv_tasks s) (Some t))) (\<lambda>c.
     bindO (Some (assertR (t_state c = TASK_RUNNING))) (\<lambda>_.
     bindO (Some (upd_tk s (Some t) (\<lambda>c. c\<lparr>t_state := TASK_READY\<rparr>))) (\<lambda>s1.
       if mig \<and> pick (Some t) > 0 then
         bindO (Some (TaskStop s1 t)) (\<lambda>_. Some (LpelWorkerSelfTaskMigrate s1 t (pick (Some t))))
       else reschedule mig pick s1 t)))"

definition LpelTaskBlockStream_decen :: "bool \<Rightarrow> (ptr \<Rightarrow> int) \<Rightarrow> decen_sys \<Rightarrow> addr \<Rightarrow> (sw \<times> decen_sys) run" where
  "LpelTaskBlockStream_decen mig pick s t =
     bindO (Some (upd_tk s (Some t) (\<lambda>c. c\<lparr>t_state := TASK_BLOCKED\<rparr>))) (\<lambda>s1.
     bindO (Some (TaskStop s1 t)) (\<lambda>_. LpelWorkerDispatcher mig pick s1 (Some t)))"

definition LpelTaskUnblock_decen :: "bool \<Rightarrow> (ptr \<Rightarrow> int) \<Rightarrow> decen_sys \<Rightarrow> ptr \<Rightarrow> ptr \<Rightarrow> decen_sys res" where
  "LpelTaskUnblock_decen mig pick s ct blocked =
     bindR (assertR (ct \<noteq> None)) (\<lambda>_. bindR (assertR (blocked \<noteq> None)) (\<lambda>_. LpelWorkerTaskWakeup_decen mig pick s ct blocked))"

text \<open>\<open>rnd\<close> tells whether \<open>LPEL_MIG_RAND\<close> is configured.\<close>

definition LpelTaskCheckMigrate_decen :: "bool \<Rightarrow> (ptr \<Rightarrow> int) \<Rightarrow> decen_sys \<Rightarrow> addr \<Rightarrow> (sw \<times> decen_sys) res" where
  "LpelTaskCheckMigrate_decen rnd pick s t =
     (if \<not> rnd then Inr (SwTask t, s)
      else bindR (deref (dv_tasks s) (Some t)) (\<lambda>c.
        bindR (deref (dv_workers s) (t_worker_context c)) (\<lambda>k.
          if dk_wid k < 0 then Inr (SwTask t, s)
          else bindR (assertR (t_state c = TASK_RUNNING)) (\<lambda>_.
            if pick (Some t) \<ge> 0 \<and> dk_wid k \<noteq> pick (Some t) then
              bindR (upd_tk s (Some t) (\<lambda>c. c\<lparr>t_state := TASK_READY\<rparr>)) (\<lambda>s1.
              bindR (TaskStop s1 t) (\<lambda>_.
              bindR (LpelWorkerSelfTaskMigrate s1 t (pick (Some t))) resume))
            else Inr (SwTask t, s)))))"

definition LpelTaskGetWorkerId_decen :: "decen_sys \<Rightarrow> ptr \<Rightarrow> int res" where
  "LpelTaskGetWorkerId_decen s t =
     bindR (assertR (t \<noteq> None)) (\<lambda>_.
     bindR (deref (dv_tasks s) t) (\<lambda>c.
     bindR (assertR (t_worker_context c \<noteq> None)) (\<lambda>_.
     bindR (deref (dv_workers s) (t_worker_context c)) (\<lambda>k. Inr (dk_wid k)))))"

definition LpelTaskGetId_decen :: "decen_sys \<Rightarrow> ptr \<Rightarrow> 32 word res" where
  "LpelTaskGetId_decen s t = bindR (deref (dv_tasks s) t) (\<lambda>c. Inr (t_uid c))"

definition LpelTaskGetMon_decen :: "decen_sys \<Rightarrow> ptr \<Rightarrow> ptr res" where
  "LpelTaskGetMon_decen s t = bindR (deref (dv_tasks s) t) (\<lambda>c. Inr (t_mon c))"

definition LpelTaskMonitor_decen :: "decen_sys \<Rightarrow> ptr \<Rightarrow> ptr \<Rightarrow> decen_sys res" where
  "LpelTaskMonitor_decen s t mt = upd_tk s t (\<lambda>c. c\<lparr>t_mon := mt\<rparr>)"

definition LpelSetUserData :: "decen_sys \<Rightarrow> ptr \<Rightarrow> ptr \<Rightarrow> decen_sys res" where
  "LpelSetUserData s t d = bindR (assertR (t \<noteq> None)) (\<lambda>_. upd_tk s t (\<lambda>c. c\<lparr>t_usrdata := d\<rparr>))"

definition LpelGetUserData :: "decen_sys \<Rightarrow> ptr \<Rightarrow> ptr res" where
  "LpelGetUserData s t = bindR (assertR (t \<noteq> None)) (\<lambda>_. bindR (deref (dv_tasks s) t) (\<lambda>c. Inr (t_usrdata c)))"

definition LpelSetUserDataDestructor :: "decen_sys \<Rightarrow> ptr \<Rightarrow> ptr \<Rightarrow> decen_sys res" where
  "LpelSetUserDataDestructor s t d = bindR (assertR (t \<noteq> None)) (\<lambda>_. upd_tk s t (\<lambda>c. c\<lparr>t_usrdt_destr := d\<rparr>))"

definition LpelGetUserDataDestructor :: "decen_sys \<Rightarrow> ptr \<Rightarrow> ptr res" where
  "LpelGetUserDataDestructor s t = bindR (assertR (t \<noteq> None)) (\<lambda>_. bindR (deref (dv_tasks s) t) (\<lambda>c. Inr (t_usrdt_destr c)))"

section \<open>Mutexes and binary semaphores\<close>

text \<open>
  The counter is 0 when free. One round of the loop of \<open>LpelMutexEnter\<close>: the answer tells whether the mutex
  is entered, and if not which task continues.
\<close>

definition LpelMutexInit :: "int \<Rightarrow> int" where "LpelMutexInit counter = 0"

definition LpelMutexLeave :: "int \<Rightarrow> int" where "LpelMutexLeave counter = 0"

definition test_and_set :: "int \<Rightarrow> int \<times> int" where "test_and_set counter = (counter, 1)"

definition LpelMutexEnter_round :: "bool \<Rightarrow> (ptr \<Rightarrow> int) \<Rightarrow> int \<Rightarrow> decen_sys \<Rightarrow> addr \<Rightarrow> (sw option \<times> int \<times> decen_sys) run" where
  "LpelMutexEnter_round mig pick counter s t =
     (let (old, counter') = test_and_set counter in
      if old = 1 then
        bindO (Some (upd_tk s (Some t) (\<lambda>c. c\<lparr>t_state := TASK_READY\<rparr>))) (\<lambda>s1.
        bindO (reschedule mig pick s1 t) (\<lambda>(n, s2). Some (Inr (Some n, counter', s2))))
      else Some (Inr (None, counter', s)))"

text \<open>One round of \<open>LpelBiSemaWait\<close>; \<open>start\<close> is the time of the last rescheduling, if any, \<open>now\<close> the current time.\<close>

definition elapsed :: "int \<times> int \<Rightarrow> int \<times> int \<Rightarrow> bool" where
  "elapsed start now \<longleftrightarrow> fst now - fst start \<noteq> 0 \<or> snd now - snd start > 1000"

definition LpelBiSemaWait_round :: "bool \<Rightarrow> (ptr \<Rightarrow> int) \<Rightarrow> int \<times> int \<Rightarrow> (int \<times> int) option \<Rightarrow> int \<Rightarrow> decen_sys \<Rightarrow> addr \<Rightarrow>
    (bool \<times> sw \<times> (int \<times> int) option \<times> int \<times> decen_sys) run" where
  "LpelBiSemaWait_round mig pick now start counter s t =
     (let (old, counter') = test_and_set counter in
      if old = 1 then
        (case start of None \<Rightarrow> Some (Inr (False, SwTask t, Some now, counter', s))
         | Some st \<Rightarrow>
             if elapsed st now then
               bindO (Some (upd_tk s (Some t) (\<lambda>c. c\<lparr>t_state := TASK_READY\<rparr>))) (\<lambda>s1.
               bindO (reschedule mig pick s1 t) (\<lambda>(n, s2). Some (Inr (False, n, Some now, counter', s2))))
             else Some (Inr (False, SwTask t, start, counter', s)))
      else Some (Inr (True, SwTask t, start, counter', s)))"

end
