(* ===== verification/Decen_Place.thy ===== *)
theory Decen_Place
  imports Decen_Task
begin

text \<open>
  Where the tasks of the decentralised scheduler are. The abstract state gives every task one place
  (\<open>loc\<close>); \<open>placed s L cur\<close> states that queues, mailboxes, marks, task states, task counts and the
  current tasks of all workers agree with it. The basic statements of the worker are shown to move one
  task from place to place; a task in the hands of a function is at \<open>LHand w st v\<close>: in state \<open>st\<close>, with
  context \<open>w\<close>, counted by worker \<open>v\<close>.
\<close>

section \<open>Places\<close>

datatype loc = LFresh addr | LAssigned addr | LQueued addr | LRun addr | LRunWait addr | LRunWoken addr
  | LParked addr | LWaking addr | LMoving addr addr | LDead addr | LHand addr lpel_taskstate_t "addr option"

fun home :: "loc \<Rightarrow> addr" where
  "home (LFresh w) = w" | "home (LAssigned w) = w" | "home (LQueued w) = w" | "home (LRun w) = w"
| "home (LRunWait w) = w" | "home (LRunWoken w) = w" | "home (LParked w) = w" | "home (LWaking w) = w"
| "home (LMoving v w) = w" | "home (LDead w) = w" | "home (LHand w st v) = w"

fun st_ok :: "loc \<Rightarrow> lpel_taskstate_t \<Rightarrow> bool" where
  "st_ok (LFresh w) st = (st = TASK_CREATED)" | "st_ok (LAssigned w) st = (st = TASK_CREATED \<or> st = TASK_READY)"
| "st_ok (LQueued w) st = (st = TASK_READY)" | "st_ok (LRun w) st = (st = TASK_RUNNING)"
| "st_ok (LRunWait w) st = (st = TASK_RUNNING)" | "st_ok (LRunWoken w) st = (st = TASK_RUNNING)"
| "st_ok (LParked w) st = (st = TASK_BLOCKED)" | "st_ok (LWaking w) st = (st = TASK_BLOCKED)"
| "st_ok (LMoving v w) st = (st = TASK_READY)" | "st_ok (LDead w) st = (st = TASK_ZOMBIE)"
| "st_ok (LHand w st v) st' = (st' = st)"

text \<open>The worker whose \<open>num_tasks\<close> counts the task.\<close>

fun counted :: "loc \<Rightarrow> addr option" where
  "counted (LFresh w) = None" | "counted (LAssigned w) = None" | "counted (LQueued w) = Some w" | "counted (LRun w) = Some w"
| "counted (LRunWait w) = Some w" | "counted (LRunWoken w) = Some w" | "counted (LParked w) = Some w"
| "counted (LWaking w) = Some w" | "counted (LMoving v w) = Some v" | "counted (LDead w) = None" | "counted (LHand w st v) = v"

type_synonym places = "addr \<Rightarrow> loc option"

definition queued :: "places \<Rightarrow> addr \<Rightarrow> addr set" where "queued L w = {a. L a = Some (LQueued w)}"
definition assigned :: "places \<Rightarrow> addr \<Rightarrow> addr set" where "assigned L w = {a. L a = Some (LAssigned w)}"
definition waking :: "places \<Rightarrow> addr \<Rightarrow> addr set" where "waking L w = {a. L a = Some (LWaking w) \<or> L a = Some (LRunWoken w)}"
definition dead :: "places \<Rightarrow> addr \<Rightarrow> addr set" where "dead L w = {a. L a = Some (LDead w)}"
definition moving :: "places \<Rightarrow> addr \<Rightarrow> addr set" where "moving L w = {a. \<exists>v. L a = Some (LMoving w v)}"
definition owned :: "places \<Rightarrow> addr \<Rightarrow> addr set" where "owned L w = {a. \<exists>l. L a = Some l \<and> counted l = Some w}"

lemma upd_places:
  "queued (L(a \<mapsto> l)) w = (if l = LQueued w then insert a (queued L w) else queued L w - {a})"
  "assigned (L(a \<mapsto> l)) w = (if l = LAssigned w then insert a (assigned L w) else assigned L w - {a})"
  "waking (L(a \<mapsto> l)) w = (if l = LWaking w \<or> l = LRunWoken w then insert a (waking L w) else waking L w - {a})"
  "dead (L(a \<mapsto> l)) w = (if l = LDead w then insert a (dead L w) else dead L w - {a})"
  "moving (L(a \<mapsto> l)) w = (if \<exists>v. l = LMoving w v then insert a (moving L w) else moving L w - {a})"
  "owned (L(a \<mapsto> l)) w = (if counted l = Some w then insert a (owned L w) else owned L w - {a})"
  by (auto simp: queued_def assigned_def waking_def dead_def moving_def owned_def)

lemma del_places:
  "queued (L(a := None)) w = queued L w - {a}" "assigned (L(a := None)) w = assigned L w - {a}"
  "waking (L(a := None)) w = waking L w - {a}" "dead (L(a := None)) w = dead L w - {a}"
  "moving (L(a := None)) w = moving L w - {a}" "owned (L(a := None)) w = owned L w - {a}"
  by (auto simp: queued_def assigned_def waking_def dead_def moving_def owned_def)

lemma in_places:
  assumes "L a = Some l"
  shows "a \<in> queued L w \<longleftrightarrow> l = LQueued w" "a \<in> assigned L w \<longleftrightarrow> l = LAssigned w"
    "a \<in> waking L w \<longleftrightarrow> l = LWaking w \<or> l = LRunWoken w" "a \<in> dead L w \<longleftrightarrow> l = LDead w"
    "a \<in> moving L w \<longleftrightarrow> (\<exists>v. l = LMoving w v)" "a \<in> owned L w \<longleftrightarrow> counted l = Some w"
  using assms by (auto simp: queued_def assigned_def waking_def dead_def moving_def owned_def)

section \<open>Agreement with the memory\<close>

definition msg_of :: "int \<Rightarrow> workermsg_t \<Rightarrow> addr list" where
  "msg_of ty m = (if msg_type m = ty then (case msg_body m of BTask (Some a) \<Rightarrow> [a] | _ \<Rightarrow> []) else [])"

definition msgs_of :: "int \<Rightarrow> workermsg_t list \<Rightarrow> addr list" where
  "msgs_of ty ms = concat (map (msg_of ty) ms)"

lemma msgs_of_simps [simp]:
  "msgs_of ty [] = []" "msgs_of ty (m # ms) = msg_of ty m @ msgs_of ty ms" "msgs_of ty (ms @ ms') = msgs_of ty ms @ msgs_of ty ms'"
  by (simp_all add: msgs_of_def)

definition msg_valid :: "workermsg_t \<Rightarrow> bool" where
  "msg_valid m \<longleftrightarrow> msg_type m = MSG_TERMINATE_decen \<or> msg_type m = MSG_SPMDREQ_decen \<or>
     (msg_type m \<in> {MSG_ASSIGN_decen, MSG_WAKEUP_decen} \<and> (\<exists>a. msg_body m = BTask (Some a)))"

lemma msg_of_mk [simp]:
  "msg_of MSG_ASSIGN_decen (mk_msg MSG_ASSIGN_decen (Some a)) = [a]" "msg_of MSG_WAKEUP_decen (mk_msg MSG_ASSIGN_decen (Some a)) = []"
  "msg_of MSG_ASSIGN_decen (mk_msg MSG_WAKEUP_decen (Some a)) = []" "msg_of MSG_WAKEUP_decen (mk_msg MSG_WAKEUP_decen (Some a)) = [a]"
  by (simp_all add: msg_of_def decen_msg_types)

definition mailbox_ok :: "places \<Rightarrow> addr \<Rightarrow> workermsg_t list \<Rightarrow> bool" where
  "mailbox_ok L w ms \<longleftrightarrow> (\<forall>m \<in> set ms. msg_valid m) \<and>
     distinct (msgs_of MSG_ASSIGN_decen ms) \<and> set (msgs_of MSG_ASSIGN_decen ms) = assigned L w \<and>
     distinct (msgs_of MSG_WAKEUP_decen ms) \<and> set (msgs_of MSG_WAKEUP_decen ms) = waking L w"

definition sched_ok :: "tasks \<Rightarrow> places \<Rightarrow> addr \<Rightarrow> schedctx_t \<Rightarrow> bool" where
  "sched_ok h L w sc \<longleftrightarrow> (\<exists>qs. sched_rep sc h qs \<and> set (concat qs) = queued L w)"

definition worker_ok :: "tasks \<Rightarrow> places \<Rightarrow> (addr \<Rightarrow> ptr) \<Rightarrow> addr \<Rightarrow> decen_workerctx_t \<Rightarrow> bool" where
  "worker_ok h L cur w k \<longleftrightarrow> dk_current_task k = cur w \<and> mailbox_ok L w (dk_mailbox k) \<and>
     (\<exists>sc. dk_sched k = Some sc \<and> sched_ok h L w sc) \<and> set_option (dk_marked_del k) = dead L w \<and>
     set_option (dk_migrated k) = moving L w \<and> unat (dk_num_tasks k) = card (owned L w)"

definition task_ok :: "addr set \<Rightarrow> loc \<Rightarrow> lpel_task_t \<Rightarrow> bool" where
  "task_ok W l c \<longleftrightarrow> st_ok l (t_state c) \<and> t_worker_context c = Some (home l) \<and> home l \<in> W \<and>
     (l \<noteq> LQueued (home l) \<longrightarrow> t_prev c = None \<and> t_next c = None)"

definition placed :: "decen_sys \<Rightarrow> places \<Rightarrow> (addr \<Rightarrow> ptr) \<Rightarrow> bool" where
  "placed s L cur \<longleftrightarrow> dom (dv_tasks s) = dom L \<and> finite (dom L) \<and> card (dom L) + 1 < 2 ^ 32 \<and> distinct (dv_table s) \<and>
     (\<forall>i < length (dv_table s). \<exists>k. dv_workers s (dv_table s ! i) = Some k \<and> dk_wid k = int i \<and>
        worker_ok (dv_tasks s) L cur (dv_table s ! i) k) \<and>
     (\<forall>a l. L a = Some l \<longrightarrow> (\<exists>c. dv_tasks s a = Some c \<and> task_ok (set (dv_table s)) l c))"

lemma placed_worker:
  assumes "placed s L cur" and "w \<in> set (dv_table s)"
  obtains k where "dv_workers s w = Some k" "worker_ok (dv_tasks s) L cur w k" "dk_wid k \<ge> 0"
proof -
  obtain i where "i < length (dv_table s)" "w = dv_table s ! i" using assms(2) by (auto simp: in_set_conv_nth)
  moreover from this assms(1) obtain k where "dv_workers s (dv_table s ! i) = Some k" "dk_wid k = int i"
    "worker_ok (dv_tasks s) L cur (dv_table s ! i) k" unfolding placed_def by blast
  ultimately show ?thesis using that [of k] by simp
qed

lemma placed_task:
  assumes "placed s L cur" and "L a = Some l"
  obtains c where "dv_tasks s a = Some c" "task_ok (set (dv_table s)) l c"
  using assms unfolding placed_def by blast

lemma sched_rep_frame:
  assumes "sched_rep sc h qs" and "\<And>a. a \<in> set (concat qs) \<Longrightarrow> h' a = h a"
  shows "sched_rep sc h' qs"
proof -
  have "tq_rep (sc_queue sc ! i) h' (qs ! i)" if i: "i < SCHED_NUM_PRIO" for i
  proof (rule tq_rep_frame)
    show "tq_rep (sc_queue sc ! i) h (qs ! i)" using assms(1) i by (simp add: sched_rep_def)
    have "i < length qs" using assms(1) i by (simp add: sched_rep_def)
    then show "\<And>a. a \<in> set (qs ! i) \<Longrightarrow> h' a = h a" using assms(2) nth_concat_subset [of i qs] by blast
  qed
  then show ?thesis using assms(1) by (simp add: sched_rep_def)
qed

lemma sched_ok_frame:
  assumes "sched_ok h L w sc" and "queued L' w = queued L w" and "\<And>a. a \<in> queued L w \<Longrightarrow> h' a = h a"
  shows "sched_ok h' L' w sc"
  using assms sched_rep_frame unfolding sched_ok_def by metis

lemma owned_dom: "owned L w \<subseteq> dom L" "queued L w \<subseteq> dom L"
  by (auto simp: owned_def queued_def)

text \<open>
  One task moves and at most one worker changes: the other workers agree with the new places as they are,
  if the task neither leaves nor enters a place of theirs.
\<close>

definition elsewhere :: "loc \<Rightarrow> addr \<Rightarrow> bool" where
  "elsewhere l w \<longleftrightarrow> l \<notin> {LQueued w, LAssigned w, LWaking w, LRunWoken w, LDead w} \<and> (\<forall>v. l \<noteq> LMoving w v) \<and> counted l \<noteq> Some w"

lemma elsewhere_sets:
  assumes "L a = Some l" and "elsewhere l w" and "elsewhere l' w"
  shows "queued (L(a \<mapsto> l')) w = queued L w" "assigned (L(a \<mapsto> l')) w = assigned L w" "waking (L(a \<mapsto> l')) w = waking L w"
    "dead (L(a \<mapsto> l')) w = dead L w" "moving (L(a \<mapsto> l')) w = moving L w" "owned (L(a \<mapsto> l')) w = owned L w"
  using assms in_places [of L a l w, OF assms(1)] by (auto simp: upd_places elsewhere_def)

lemma worker_ok_elsewhere:
  assumes "worker_ok h L cur w k" and "L a = Some l" "elsewhere l w" "elsewhere l' w" and "\<And>b. b \<in> queued L w \<Longrightarrow> h' b = h b"
    and "cur' w = cur w"
  shows "worker_ok h' (L(a \<mapsto> l')) cur' w k"
proof -
  note e = elsewhere_sets [of L a l w l', OF assms(2-4)]
  obtain sc where "dk_sched k = Some sc" "sched_ok h L w sc" using assms(1) by (auto simp: worker_ok_def)
  then have "\<exists>sc. dk_sched k = Some sc \<and> sched_ok h' (L(a \<mapsto> l')) w sc" using sched_ok_frame [OF _ e(1), of h sc h'] assms(5) by blast
  then show ?thesis using assms(1,6) by (simp add: worker_ok_def mailbox_ok_def e)
qed

text \<open>The rule with which every basic step is shown.\<close>

lemma placed_move:
  assumes p: "placed s L cur" and a: "L a = Some l" and w: "w \<in> set (dv_table s)"
    and els: "\<And>v. v \<noteq> w \<Longrightarrow> v \<in> set (dv_table s) \<Longrightarrow> elsewhere l v \<and> elsewhere l' v"
    and dom': "dom (dv_tasks s') = dom (dv_tasks s)"
    and hd: "\<And>b. b \<noteq> a \<Longrightarrow> b \<notin> queued L w \<Longrightarrow> dv_tasks s' b = dv_tasks s b"
    and qb: "\<And>b c. b \<noteq> a \<Longrightarrow> b \<in> queued L w \<Longrightarrow> dv_tasks s b = Some c \<Longrightarrow> \<exists>c'. dv_tasks s' b = Some c' \<and> body c' = body c"
    and c: "\<exists>c'. dv_tasks s' a = Some c' \<and> task_ok (set (dv_table s)) l' c'"
    and wk: "dv_workers s w = Some k" "dv_workers s' = (dv_workers s)(w \<mapsto> k')" "dk_wid k' = dk_wid k" "dv_table s' = dv_table s"
    and ok: "worker_ok (dv_tasks s') (L(a \<mapsto> l')) cur' w k'" and cur': "\<And>v. v \<noteq> w \<Longrightarrow> cur' v = cur v"
  shows "placed s' (L(a \<mapsto> l')) cur'"
proof -
  have da: "dom (L(a \<mapsto> l')) = dom L" using a by auto
  have disj: "queued L v \<inter> queued L w = {}" if "v \<noteq> w" for v using that by (auto simp: queued_def)
  have wo: "worker_ok (dv_tasks s') (L(a \<mapsto> l')) cur' v m"
    if "v \<noteq> w" "v \<in> set (dv_table s)" "worker_ok (dv_tasks s) L cur v m" for v m
  proof (rule worker_ok_elsewhere [OF that(3) a])
    show "elsewhere l v" "elsewhere l' v" using els [OF that(1,2)] by auto
    show "cur' v = cur v" using cur' that(1) by blast
    fix b assume b: "b \<in> queued L v"
    then have "b \<noteq> a" using els [OF that(1,2)] a by (auto simp: elsewhere_def queued_def)
    moreover have "b \<notin> queued L w" using disj [OF that(1)] b by blast
    ultimately show "dv_tasks s' b = dv_tasks s b" using hd by blast
  qed
  have ws: "\<exists>m. dv_workers s' (dv_table s' ! i) = Some m \<and> dk_wid m = int i \<and> worker_ok (dv_tasks s') (L(a \<mapsto> l')) cur' (dv_table s' ! i) m"
    if i: "i < length (dv_table s')" for i
  proof -
    from p i wk(4) obtain m where m: "dv_workers s (dv_table s ! i) = Some m" "dk_wid m = int i" "worker_ok (dv_tasks s) L cur (dv_table s ! i) m"
      unfolding placed_def by auto
    show ?thesis
    proof (cases "dv_table s ! i = w")
      case True
      then show ?thesis using m wk ok by simp
    next
      case False
      then show ?thesis using wo [OF False _ m(3)] m i wk by simp
    qed
  qed
  have ts: "\<exists>c. dv_tasks s' b = Some c \<and> task_ok (set (dv_table s')) lb c" if lb: "(L(a \<mapsto> l')) b = Some lb" for b lb
  proof (cases "b = a")
    case True
    then show ?thesis using lb c wk(4) by auto
  next
    case False
    then obtain cb where cb: "dv_tasks s b = Some cb" "task_ok (set (dv_table s)) lb cb" using placed_task [OF p, of b lb] lb by auto
    show ?thesis
    proof (cases "b \<in> queued L w")
      case True
      then have lq: "lb = LQueued w" using lb False by (simp add: queued_def)
      obtain c' where c': "dv_tasks s' b = Some c'" "body c' = body cb" using qb [OF False True cb(1)] by blast
      have "t_state c' = t_state cb" "t_worker_context c' = t_worker_context cb" using body_eq_fields [OF c'(2)] by auto
      then show ?thesis using cb(2) c'(1) lq wk(4) by (simp add: task_ok_def)
    next
      case True: False
      then show ?thesis using hd [OF False True] cb wk(4) by simp
    qed
  qed
  show ?thesis using p da dom' ws ts wk(4) unfolding placed_def by auto
qed

lemma placed_worker_upd:
  assumes p: "placed s L cur" and "w \<in> set (dv_table s)" and "dv_workers s w = Some k" "dk_wid k' = dk_wid k"
    and ok: "worker_ok (dv_tasks s) L cur' w k'" and cur': "\<And>v. v \<noteq> w \<Longrightarrow> cur' v = cur v"
  shows "placed (s\<lparr>dv_workers := (dv_workers s)(w \<mapsto> k')\<rparr>) L cur'"
proof -
  have "worker_ok (dv_tasks s) L cur' v m" if "v \<noteq> w" "worker_ok (dv_tasks s) L cur v m" for v m
    using that cur' by (simp add: worker_ok_def)
  then show ?thesis using assms unfolding placed_def by (auto simp: nth_eq_iff_index_eq)
qed

section \<open>Basic steps\<close>

lemma hand_elsewhere [simp]: "elsewhere (LHand w st v) u \<longleftrightarrow> v \<noteq> Some u"
  by (auto simp: elsewhere_def)

text \<open>Facts about the worker in charge, from \<open>worker_ok\<close>.\<close>

lemma worker_okD:
  assumes "worker_ok h L cur w k"
  shows "dk_current_task k = cur w" "mailbox_ok L w (dk_mailbox k)" "\<exists>sc. dk_sched k = Some sc \<and> sched_ok h L w sc"
    "set_option (dk_marked_del k) = dead L w" "set_option (dk_migrated k) = moving L w" "unat (dk_num_tasks k) = card (owned L w)"
  using assms by (simp_all add: worker_ok_def)

lemma pop_assign:
  assumes p: "placed s L cur" and w: "w \<in> set (dv_table s)" and k: "dv_workers s w = Some k"
    and m: "dk_mailbox k = m # ms" "msg_type m = MSG_ASSIGN_decen" "msg_body m = BTask (Some a)"
  shows "L a = Some (LAssigned w) \<and> (\<exists>c. dv_tasks s a = Some c \<and> (t_state c = TASK_CREATED \<or> t_state c = TASK_READY) \<and>
    placed (s\<lparr>dv_workers := (dv_workers s)(w \<mapsto> k\<lparr>dk_mailbox := ms\<rparr>)\<rparr>) (L(a \<mapsto> LHand w (t_state c) None)) cur)"
proof -
  obtain k0 where "dv_workers s w = Some k0" "worker_ok (dv_tasks s) L cur w k0" using placed_worker [OF p w] .
  then have wo: "worker_ok (dv_tasks s) L cur w k" using k by simp
  have mb: "mailbox_ok L w (m # ms)" using worker_okD(2) [OF wo] m by simp
  have ma: "msg_of MSG_ASSIGN_decen m = [a]" "msg_of MSG_WAKEUP_decen m = []" using m by (simp_all add: msg_of_def decen_msg_types)
  have La: "L a = Some (LAssigned w)" using mb ma by (auto simp: mailbox_ok_def assigned_def)
  obtain c where c: "dv_tasks s a = Some c" "task_ok (set (dv_table s)) (LAssigned w) c" using placed_task [OF p La] .
  let ?L = "L(a \<mapsto> LHand w (t_state c) None)" and ?k = "k\<lparr>dk_mailbox := ms\<rparr>"
  note sets = upd_places [of L a "LHand w (t_state c) None" w] in_places [of L a "LAssigned w" w, OF La]
  have same: "queued ?L w = queued L w" "waking ?L w = waking L w" "dead ?L w = dead L w" "moving ?L w = moving L w" "owned ?L w = owned L w"
    "assigned ?L w = assigned L w - {a}" using sets by auto
  have "mailbox_ok ?L w ms" using mb ma by (auto simp: mailbox_ok_def same)
  moreover have "sched_ok (dv_tasks s) L w sc \<Longrightarrow> sched_ok (dv_tasks s) ?L w sc" for sc
    using sched_ok_frame [OF _ same(1)] by blast
  ultimately have ok: "worker_ok (dv_tasks s) ?L cur w ?k" using wo by (auto simp: worker_ok_def same)
  have "placed (s\<lparr>dv_workers := (dv_workers s)(w \<mapsto> ?k)\<rparr>) ?L cur"
    by (rule placed_move [where w = w and k = k and k' = ?k and l = "LAssigned w", OF p La w])
       (use c ok k in \<open>auto simp: elsewhere_def task_ok_def\<close>)
  then show ?thesis using La c by (auto simp: task_ok_def)
qed

lemma pop_wakeup:
  assumes p: "placed s L cur" and w: "w \<in> set (dv_table s)" and k: "dv_workers s w = Some k"
    and m: "dk_mailbox k = m # ms" "msg_type m = MSG_WAKEUP_decen" "msg_body m = BTask (Some a)" and nr: "L a \<noteq> Some (LRunWoken w)"
  shows "L a = Some (LWaking w) \<and>
    placed (s\<lparr>dv_workers := (dv_workers s)(w \<mapsto> k\<lparr>dk_mailbox := ms\<rparr>)\<rparr>) (L(a \<mapsto> LHand w TASK_BLOCKED (Some w))) cur"
proof -
  obtain k0 where "dv_workers s w = Some k0" "worker_ok (dv_tasks s) L cur w k0" using placed_worker [OF p w] .
  then have wo: "worker_ok (dv_tasks s) L cur w k" using k by simp
  have mb: "mailbox_ok L w (m # ms)" using worker_okD(2) [OF wo] m by simp
  have ma: "msg_of MSG_ASSIGN_decen m = []" "msg_of MSG_WAKEUP_decen m = [a]" using m by (simp_all add: msg_of_def decen_msg_types)
  have La: "L a = Some (LWaking w)" using mb ma nr by (auto simp: mailbox_ok_def waking_def)
  obtain c where c: "dv_tasks s a = Some c" "task_ok (set (dv_table s)) (LWaking w) c" using placed_task [OF p La] .
  let ?L = "L(a \<mapsto> LHand w TASK_BLOCKED (Some w))" and ?k = "k\<lparr>dk_mailbox := ms\<rparr>"
  note sets = upd_places [of L a "LHand w TASK_BLOCKED (Some w)" w] in_places [of L a "LWaking w" w, OF La]
  have same: "queued ?L w = queued L w" "assigned ?L w = assigned L w" "dead ?L w = dead L w" "moving ?L w = moving L w" "owned ?L w = owned L w"
    "waking ?L w = waking L w - {a}" using sets by auto
  have "mailbox_ok ?L w ms" using mb ma by (auto simp: mailbox_ok_def same)
  moreover have "sched_ok (dv_tasks s) L w sc \<Longrightarrow> sched_ok (dv_tasks s) ?L w sc" for sc
    using sched_ok_frame [OF _ same(1)] by blast
  ultimately have ok: "worker_ok (dv_tasks s) ?L cur w ?k" using wo by (auto simp: worker_ok_def same)
  have "placed (s\<lparr>dv_workers := (dv_workers s)(w \<mapsto> ?k)\<rparr>) ?L cur"
    by (rule placed_move [where w = w and k = k and k' = ?k and l = "LWaking w", OF p La w])
       (use c ok k in \<open>auto simp: elsewhere_def task_ok_def\<close>)
  then show ?thesis using La by simp
qed

lemma pop_other:
  assumes p: "placed s L cur" and w: "w \<in> set (dv_table s)" and k: "dv_workers s w = Some k"
    and m: "dk_mailbox k = m # ms" "msg_type m \<in> {MSG_TERMINATE_decen, MSG_SPMDREQ_decen}"
  shows "placed (s\<lparr>dv_workers := (dv_workers s)(w \<mapsto> k\<lparr>dk_mailbox := ms\<rparr>)\<rparr>) L cur"
proof -
  obtain k0 where "dv_workers s w = Some k0" "worker_ok (dv_tasks s) L cur w k0" using placed_worker [OF p w] .
  then have wo: "worker_ok (dv_tasks s) L cur w k" using k by simp
  have "msg_of MSG_ASSIGN_decen m = []" "msg_of MSG_WAKEUP_decen m = []" using m by (auto simp: msg_of_def decen_msg_types)
  then have "worker_ok (dv_tasks s) L cur w (k\<lparr>dk_mailbox := ms\<rparr>)" using wo m(1) by (simp add: worker_ok_def mailbox_ok_def)
  from placed_worker_upd [where cur' = cur, OF p w k _ this] show ?thesis by simp
qed

text \<open>A task changes its state or context without entering or leaving a place of a worker.\<close>

definition plain :: "loc \<Rightarrow> bool" where
  "plain l \<longleftrightarrow> (case l of LQueued _ \<Rightarrow> False | LAssigned _ \<Rightarrow> False | LDead _ \<Rightarrow> False | LMoving _ _ \<Rightarrow> False | _ \<Rightarrow> True)"

definition woken :: "loc \<Rightarrow> addr option" where
  "woken l = (case l of LWaking w \<Rightarrow> Some w | LRunWoken w \<Rightarrow> Some w | _ \<Rightarrow> None)"

lemma relabel_sets:
  assumes "L a = Some l" and "plain l" "plain l'" "counted l = counted l'" "woken l = woken l'"
  shows "queued (L(a \<mapsto> l')) w = queued L w" "assigned (L(a \<mapsto> l')) w = assigned L w" "waking (L(a \<mapsto> l')) w = waking L w"
    "dead (L(a \<mapsto> l')) w = dead L w" "moving (L(a \<mapsto> l')) w = moving L w" "owned (L(a \<mapsto> l')) w = owned L w"
  using assms(2-) in_places [of L a l w, OF assms(1)]
  by (auto simp: upd_places plain_def woken_def split: loc.splits)

lemma placed_relabel:
  assumes p: "placed s L cur" and a: "L a = Some l" and rl: "plain l" "plain l'" "counted l = counted l'" "woken l = woken l'"
    and c': "task_ok (set (dv_table s)) l' c'"
  shows "placed (s\<lparr>dv_tasks := (dv_tasks s)(a \<mapsto> c')\<rparr>) (L(a \<mapsto> l')) cur"
proof -
  note same = relabel_sets [of L a l l', OF a rl]
  have nq: "a \<notin> queued L w" for w using a rl(1) by (auto simp: queued_def plain_def)
  have so: "sched_ok ((dv_tasks s)(a \<mapsto> c')) (L(a \<mapsto> l')) w sc" if "sched_ok (dv_tasks s) L w sc" for w sc
    by (rule sched_ok_frame [OF that same(1)]) (use nq in auto)
  have wo: "worker_ok (dv_tasks s) L cur w k \<Longrightarrow> worker_ok ((dv_tasks s)(a \<mapsto> c')) (L(a \<mapsto> l')) cur w k" for w k
    using so by (auto simp: worker_ok_def mailbox_ok_def same)
  have "a \<in> dom L" using a by auto
  then have "dom ((dv_tasks s)(a \<mapsto> c')) = dom L" "dom (L(a \<mapsto> l')) = dom L" using p by (auto simp: placed_def)
  moreover have "\<exists>k. dv_workers s (dv_table s ! i) = Some k \<and> dk_wid k = int i \<and> worker_ok ((dv_tasks s)(a \<mapsto> c')) (L(a \<mapsto> l')) cur (dv_table s ! i) k"
    if "i < length (dv_table s)" for i
    using p that wo unfolding placed_def by blast
  moreover have "\<exists>c. ((dv_tasks s)(a \<mapsto> c')) b = Some c \<and> task_ok (set (dv_table s)) lb c" if "(L(a \<mapsto> l')) b = Some lb" for b lb
    using that c' p unfolding placed_def by (cases "b = a") auto
  ultimately show ?thesis using p unfolding placed_def by simp
qed

text \<open>A change of one worker's context by which task \<open>a\<close> moves.\<close>

lemma placed_worker_move:
  assumes p: "placed s L cur" and a: "L a = Some l" and w: "w \<in> set (dv_table s)" "dv_workers s w = Some k" "dk_wid k' = dk_wid k"
    and els: "\<And>v. v \<noteq> w \<Longrightarrow> elsewhere l v \<and> elsewhere l' v" and nq: "l \<noteq> LQueued w" "l' \<noteq> LQueued w"
    and t: "\<And>c. dv_tasks s a = Some c \<Longrightarrow> task_ok (set (dv_table s)) l c \<Longrightarrow> task_ok (set (dv_table s)) l' c"
    and k': "dk_current_task k' = cur w" "dk_sched k' = dk_sched k" "mailbox_ok (L(a \<mapsto> l')) w (dk_mailbox k')"
      "set_option (dk_marked_del k') = dead (L(a \<mapsto> l')) w" "set_option (dk_migrated k') = moving (L(a \<mapsto> l')) w"
      "unat (dk_num_tasks k') = card (owned (L(a \<mapsto> l')) w)"
  shows "placed (s\<lparr>dv_workers := (dv_workers s)(w \<mapsto> k')\<rparr>) (L(a \<mapsto> l')) cur"
proof -
  obtain k0 where "dv_workers s w = Some k0" "worker_ok (dv_tasks s) L cur w k0" using placed_worker [OF p w(1)] .
  then have wo: "worker_ok (dv_tasks s) L cur w k" using w(2) by simp
  obtain c where c: "dv_tasks s a = Some c" "task_ok (set (dv_table s)) l c" using placed_task [OF p a] .
  have q: "queued (L(a \<mapsto> l')) w = queued L w" using nq in_places(1) [of L a l w, OF a] by (auto simp: upd_places)
  have "sched_ok (dv_tasks s) L w sc \<Longrightarrow> sched_ok (dv_tasks s) (L(a \<mapsto> l')) w sc" for sc
    using sched_ok_frame [OF _ q] by blast
  then have ok: "worker_ok (dv_tasks s) (L(a \<mapsto> l')) cur w k'" using wo k' by (auto simp: worker_ok_def)
  show ?thesis
    by (rule placed_move [where w = w and k = k and k' = k' and l = l, OF p a w(1)]) (use c t els w ok in auto)
qed

lemma send_assign_ok:
  assumes p: "placed s L cur" and a: "L a = Some l" "l = LFresh w \<or> l = LHand w TASK_CREATED None \<or> l = LHand w TASK_READY None"
  shows "\<exists>s'. SendAssign s (Some w) (Some a) = Inr s' \<and> placed s' (L(a \<mapsto> LAssigned w)) cur \<and> dv_table s' = dv_table s \<and>
    (\<forall>u. u \<noteq> w \<longrightarrow> dv_workers s' u = dv_workers s u)"
proof -
  obtain c where c: "dv_tasks s a = Some c" "task_ok (set (dv_table s)) l c" using placed_task [OF p a(1)] .
  then have w: "w \<in> set (dv_table s)" using a(2) by (auto simp: task_ok_def)
  obtain k where k: "dv_workers s w = Some k" "worker_ok (dv_tasks s) L cur w k" using placed_worker [OF p w] .
  let ?k = "k\<lparr>dk_mailbox := dk_mailbox k @ [mk_msg MSG_ASSIGN_decen (Some a)]\<rparr>" and ?L = "L(a \<mapsto> LAssigned w)"
  note sets = upd_places [of L a "LAssigned w" w] in_places [of L a l w, OF a(1)]
  have same: "waking ?L w = waking L w" "dead ?L w = dead L w" "moving ?L w = moving L w" "owned ?L w = owned L w"
    "assigned ?L w = insert a (assigned L w)" "a \<notin> assigned L w" using sets a(2) by auto
  have "msg_valid (mk_msg MSG_ASSIGN_decen (Some a))" by (simp add: msg_valid_def)
  then have mb: "mailbox_ok ?L w (dk_mailbox ?k)" using worker_okD(2) [OF k(2)] same by (auto simp: mailbox_ok_def)
  have "placed (s\<lparr>dv_workers := (dv_workers s)(w \<mapsto> ?k)\<rparr>) ?L cur"
    by (rule placed_worker_move [where l = l, OF p a(1) w k(1)])
       (use a(2) worker_okD [OF k(2)] mb same in \<open>auto simp: elsewhere_def task_ok_def\<close>)
  then show ?thesis using k(1) by (simp add: SendAssign_def send_to_def)
qed

lemma send_wakeup_ok:
  assumes p: "placed s L cur" and a: "L a = Some l" "l = LRunWait w \<and> l' = LRunWoken w \<or> l = LParked w \<and> l' = LWaking w"
  shows "\<exists>s'. SendWakeup s (Some w) (Some a) = Inr s' \<and> placed s' (L(a \<mapsto> l')) cur \<and> dv_table s' = dv_table s"
proof -
  obtain c where c: "dv_tasks s a = Some c" "task_ok (set (dv_table s)) l c" using placed_task [OF p a(1)] .
  then have w: "w \<in> set (dv_table s)" using a(2) by (auto simp: task_ok_def)
  obtain k where k: "dv_workers s w = Some k" "worker_ok (dv_tasks s) L cur w k" using placed_worker [OF p w] .
  let ?k = "k\<lparr>dk_mailbox := dk_mailbox k @ [mk_msg MSG_WAKEUP_decen (Some a)]\<rparr>" and ?L = "L(a \<mapsto> l')"
  note sets = upd_places [of L a l' w] in_places [of L a l w, OF a(1)]
  have same: "assigned ?L w = assigned L w" "dead ?L w = dead L w" "moving ?L w = moving L w" "owned ?L w = owned L w"
    "waking ?L w = insert a (waking L w)" "a \<notin> waking L w" using sets a(2) by auto
  have "msg_valid (mk_msg MSG_WAKEUP_decen (Some a))" by (simp add: msg_valid_def)
  then have mb: "mailbox_ok ?L w (dk_mailbox ?k)" using worker_okD(2) [OF k(2)] same by (auto simp: mailbox_ok_def)
  have "placed (s\<lparr>dv_workers := (dv_workers s)(w \<mapsto> ?k)\<rparr>) ?L cur"
    by (rule placed_worker_move [where l = l, OF p a(1) w k(1)])
       (use a(2) worker_okD [OF k(2)] mb same in \<open>auto simp: elsewhere_def task_ok_def\<close>)
  then show ?thesis using k(1) by (simp add: SendWakeup_def send_to_def)
qed

lemma owned_bound:
  assumes "placed s L cur"
  shows "finite (owned L w)" "card (owned L w) + 1 < 2 ^ 32"
proof -
  have f: "finite (dom L)" "card (dom L) + 1 < 2 ^ 32" using assms by (auto simp: placed_def)
  then show "finite (owned L w)" using owned_dom(1) finite_subset by blast
  have "card (owned L w) \<le> card (dom L)" by (rule card_mono [OF f(1) owned_dom(1)])
  then show "card (owned L w) + 1 < 2 ^ 32" using f(2) by linarith
qed

lemma unat_dec: "0 < unat (n :: 32 word) \<Longrightarrow> unat (n - 1) = unat n - 1"
  using unat_minus_one [of n] by (metis less_numeral_extra(3) unsigned_0)

lemma unat_inc: "unat (n :: 32 word) + 1 < 2 ^ 32 \<Longrightarrow> unat (n + 1) = unat n + 1"
  by (subst unat_word_ariths) simp

lemma count_down:
  assumes p: "placed s L cur" and a: "L a = Some (LHand w st (Some v))" and v: "v \<in> set (dv_table s)"
  shows "\<exists>s'. upd_dk s (Some v) (\<lambda>k. k\<lparr>dk_num_tasks := dk_num_tasks k - 1\<rparr>) = Inr s' \<and> placed s' (L(a \<mapsto> LHand w st None)) cur \<and>
    dv_table s' = dv_table s \<and> dv_tasks s' = dv_tasks s \<and>
    (\<forall>u. map_option dk_mailbox (dv_workers s' u) = map_option dk_mailbox (dv_workers s u)) \<and>
    (\<forall>u. map_option dk_wid (dv_workers s' u) = map_option dk_wid (dv_workers s u))"
proof -
  obtain k where k: "dv_workers s v = Some k" "worker_ok (dv_tasks s) L cur v k" using placed_worker [OF p v] .
  let ?k = "k\<lparr>dk_num_tasks := dk_num_tasks k - 1\<rparr>" and ?L = "L(a \<mapsto> LHand w st None)"
  note sets = upd_places [of L a "LHand w st None" v] in_places [of L a "LHand w st (Some v)" v, OF a]
  have same: "assigned ?L v = assigned L v" "dead ?L v = dead L v" "moving ?L v = moving L v" "owned ?L v = owned L v - {a}"
    "waking ?L v = waking L v" "a \<in> owned L v" using sets by auto
  have "0 < card (owned L v)" using same(6) owned_bound(1) [OF p, of v] by (auto simp: card_gt_0_iff)
  then have n: "unat (dk_num_tasks ?k) = card (owned ?L v)"
    using unat_dec [of "dk_num_tasks k"] worker_okD(6) [OF k(2)] same(4,6) owned_bound(1) [OF p, of v] by simp
  have mb: "mailbox_ok ?L v (dk_mailbox ?k)" using worker_okD(2) [OF k(2)] same by (simp add: mailbox_ok_def)
  have "placed (s\<lparr>dv_workers := (dv_workers s)(v \<mapsto> ?k)\<rparr>) ?L cur"
    by (rule placed_worker_move [where l = "LHand w st (Some v)", OF p a v k(1)])
       (use worker_okD [OF k(2)] mb n same in \<open>auto simp: task_ok_def\<close>)
  then show ?thesis using k(1) by simp
qed

lemma count_up:
  assumes p: "placed s L cur" and a: "L a = Some (LHand w st None)" and v: "v \<in> set (dv_table s)"
  shows "\<exists>s'. upd_dk s (Some v) (\<lambda>k. k\<lparr>dk_num_tasks := dk_num_tasks k + 1\<rparr>) = Inr s' \<and> placed s' (L(a \<mapsto> LHand w st (Some v))) cur \<and>
    dv_table s' = dv_table s \<and> dv_tasks s' = dv_tasks s \<and>
    (\<forall>u. map_option dk_mailbox (dv_workers s' u) = map_option dk_mailbox (dv_workers s u)) \<and>
    (\<forall>u. map_option dk_wid (dv_workers s' u) = map_option dk_wid (dv_workers s u))"
proof -
  obtain k where k: "dv_workers s v = Some k" "worker_ok (dv_tasks s) L cur v k" using placed_worker [OF p v] .
  let ?k = "k\<lparr>dk_num_tasks := dk_num_tasks k + 1\<rparr>" and ?L = "L(a \<mapsto> LHand w st (Some v))"
  note sets = upd_places [of L a "LHand w st (Some v)" v] in_places [of L a "LHand w st None" v, OF a]
  have same: "assigned ?L v = assigned L v" "dead ?L v = dead L v" "moving ?L v = moving L v" "owned ?L v = insert a (owned L v)"
    "waking ?L v = waking L v" "a \<notin> owned L v" using sets by auto
  have n: "unat (dk_num_tasks ?k) = card (owned ?L v)"
    using unat_inc [of "dk_num_tasks k"] worker_okD(6) [OF k(2)] same(4,6) owned_bound [OF p, of v] by simp
  have mb: "mailbox_ok ?L v (dk_mailbox ?k)" using worker_okD(2) [OF k(2)] same by (simp add: mailbox_ok_def)
  have "placed (s\<lparr>dv_workers := (dv_workers s)(v \<mapsto> ?k)\<rparr>) ?L cur"
    by (rule placed_worker_move [where l = "LHand w st None", OF p a v k(1)])
       (use worker_okD [OF k(2)] mb n same in \<open>auto simp: task_ok_def\<close>)
  then show ?thesis using k(1) by simp
qed

subsection \<open>The ready queue\<close>

lemma queued_bound:
  assumes "placed s L cur" and "sched_rep sc h qs" "set (concat qs) = queued L w"
  shows "length (concat qs) + 1 < 2 ^ 32"
proof -
  have f: "finite (dom L)" "card (dom L) + 1 < 2 ^ 32" using assms(1) by (auto simp: placed_def)
  have "distinct (concat qs)" using assms(2) by (simp add: sched_rep_def)
  then have "length (concat qs) = card (queued L w)" using assms(3) distinct_card by metis
  moreover have "card (queued L w) \<le> card (dom L)" by (rule card_mono [OF f(1) owned_dom(2)])
  ultimately show ?thesis using f(2) by linarith
qed

lemma set_concat_upd: "i < length qs \<Longrightarrow> set (concat (qs[i := qs ! i @ [t]])) = insert t (set (concat qs))"
  by (induction qs arbitrary: i) (auto split: nat.splits)

lemma unlinked_task:
  assumes "dv_tasks s a = Some c" and "task_ok W l c" and "\<And>w. l \<noteq> LQueued w"
  shows "unlinked (dv_tasks s) a"
  using assms by (auto simp: unlinked_def task_ok_def)

lemma sched_ready_ok:
  assumes p: "placed s L cur" and a: "L a = Some (LHand w TASK_READY (Some w))"
  shows "\<exists>s'. sched_ready s (Some w) (Some a) = Inr s' \<and> placed s' (L(a \<mapsto> LQueued w)) cur \<and> dv_table s' = dv_table s \<and>
    (\<forall>v. map_option dk_terminate (dv_workers s' v) = map_option dk_terminate (dv_workers s v)) \<and>
    (\<forall>v. map_option dk_mailbox (dv_workers s' v) = map_option dk_mailbox (dv_workers s v))"
proof -
  obtain c where c: "dv_tasks s a = Some c" "task_ok (set (dv_table s)) (LHand w TASK_READY (Some w)) c" using placed_task [OF p a] .
  then have w: "w \<in> set (dv_table s)" by (simp add: task_ok_def)
  obtain k where k: "dv_workers s w = Some k" "worker_ok (dv_tasks s) L cur w k" using placed_worker [OF p w] .
  from worker_okD(3) [OF k(2)] obtain sc qs where sc: "dk_sched k = Some sc" "sched_rep sc (dv_tasks s) qs" "set (concat qs) = queued L w"
    by (auto simp: sched_ok_def)
  have nq: "a \<notin> set (concat qs)" using sc(3) a by (simp add: queued_def)
  have ul: "unlinked (dv_tasks s) a" by (rule unlinked_task [OF c]) simp
  let ?i = "prio_index (t_prio c)"
  from sched_MakeReady [OF sc(2) c(1) ul nq queued_bound [OF p sc(2,3)]] obtain sc' h where
    m: "LpelSchedMakeReady sc (dv_tasks s) (Some a) = Inr (sc', h)" "sched_rep sc' h (qs[?i := qs ! ?i @ [a]])"
    "same_body (dv_tasks s) h" "\<And>b. b \<notin> set (a # concat qs) \<Longrightarrow> h b = dv_tasks s b" by blast
  have i: "?i < length qs" using sc(2) by (simp add: sched_rep_def)
  let ?L = "L(a \<mapsto> LQueued w)" and ?k = "k\<lparr>dk_sched := Some sc'\<rparr>" and ?l = "LHand w TASK_READY (Some w)"
  note sets = upd_places [of L a "LQueued w" w] in_places [of L a ?l w, OF a]
  have same: "queued ?L w = insert a (queued L w)" "assigned ?L w = assigned L w" "waking ?L w = waking L w" "dead ?L w = dead L w"
    "moving ?L w = moving L w" "owned ?L w = owned L w" using sets by auto
  have "sched_ok h ?L w sc'" unfolding sched_ok_def using m(2) set_concat_upd [OF i, of a] sc(3) same(1) by blast
  then have ok: "worker_ok h ?L cur w ?k" using k(2) by (simp add: worker_ok_def mailbox_ok_def same)
  let ?s = "s\<lparr>dv_tasks := h, dv_workers := (dv_workers s)(w \<mapsto> ?k)\<rparr>"
  obtain c' where c': "h a = Some c'" "body c' = body c" using same_body_Some [OF m(3) c(1)] .
  have "placed ?s ?L cur"
  proof (rule placed_move [where w = w and k = k and k' = ?k and l = ?l, OF p a w])
    show "dom (dv_tasks ?s) = dom (dv_tasks s)" using same_body_dom [OF m(3)] by simp
    show "\<exists>c'. dv_tasks ?s a = Some c' \<and> task_ok (set (dv_table s)) (LQueued w) c'"
      using c'(1) c(2) body_eq_fields [OF c'(2)] by (simp add: task_ok_def)
    fix b assume b: "b \<noteq> a"
    show "b \<notin> queued L w \<Longrightarrow> dv_tasks ?s b = dv_tasks s b" using m(4) [of b] sc(3) b by (simp del: set_concat)
    show "\<exists>c'. dv_tasks ?s b = Some c' \<and> body c' = body cb" if "dv_tasks s b = Some cb" for cb
      using same_body_Some [OF m(3) that] by (metis decen_sys.select_convs(1) decen_sys.surjective decen_sys.update_convs(1,2))
  qed (use ok k in \<open>auto simp: elsewhere_def\<close>)
  moreover have "sched_ready s (Some w) (Some a) = Inr ?s" using k(1) sc(1) m(1) by (simp add: sched_ready_def)
  ultimately show ?thesis using k(1) by auto
qed

lemma sched_fetch_ok:
  assumes p: "placed s L cur" and w: "w \<in> set (dv_table s)"
  shows "\<exists>t s'. sched_fetch s (Some w) = Inr (t, s') \<and> dv_table s' = dv_table s \<and>
    (\<forall>v. map_option dk_terminate (dv_workers s' v) = map_option dk_terminate (dv_workers s v)) \<and>
    (case t of None \<Rightarrow> queued L w = {} \<and> placed s' L cur
     | Some a \<Rightarrow> L a = Some (LQueued w) \<and> placed s' (L(a \<mapsto> LHand w TASK_READY (Some w))) cur)"
proof -
  obtain k where k: "dv_workers s w = Some k" "worker_ok (dv_tasks s) L cur w k" using placed_worker [OF p w] .
  from worker_okD(3) [OF k(2)] obtain sc qs where sc: "dk_sched k = Some sc" "sched_rep sc (dv_tasks s) qs" "set (concat qs) = queued L w"
    by (auto simp: sched_ok_def)
  from sched_FetchReady [OF sc(2)] obtain sc' h qs' where
    f: "LpelSchedFetchReady sc (dv_tasks s) = Inr (if concat qs = [] then None else Some (hd (fetch_order qs)), sc', h)"
      "sched_rep sc' h qs'" "fetch_order qs' = tl (fetch_order qs)" "same_body (dv_tasks s) h"
      "\<forall>t. t \<in> set (concat qs) \<longrightarrow> t \<notin> set (concat qs') \<longrightarrow> unlinked h t" "\<forall>b. b \<notin> set (concat qs) \<longrightarrow> h b = dv_tasks s b" by blast
  have fo: "set (fetch_order qs) = set (concat qs)" "set (fetch_order qs') = set (concat qs')" for qs qs' :: "addr list list"
    by (auto simp: fetch_order_def)
  let ?k = "k\<lparr>dk_sched := Some sc'\<rparr>"
  let ?s = "s\<lparr>dv_tasks := h, dv_workers := (dv_workers s)(w \<mapsto> ?k)\<rparr>"
  show ?thesis
  proof (cases "concat qs = []")
    case True
    have h: "h = dv_tasks s" using f(6) True by auto
    have q: "queued L w = {}" using sc(3) True by simp
    have "concat qs' = []" using f(3) True fo by (metis list.sel(2) set_empty)
    then have "sched_ok (dv_tasks s) L w sc'" unfolding sched_ok_def using f(2) h q by (intro exI [of _ qs']) auto
    then have "worker_ok (dv_tasks s) L cur w ?k" using k(2) by (simp add: worker_ok_def)
    from placed_worker_upd [where cur' = cur, OF p w k(1) _ this] have "placed ?s L cur" using h by simp
    moreover have "sched_fetch s (Some w) = Inr (None, ?s)" using k(1) sc(1) f(1) True by (simp add: sched_fetch_def)
    ultimately show ?thesis using q k(1) by auto
  next
    case False
    define a where "a = hd (fetch_order qs)"
    have ne: "fetch_order qs \<noteq> []" using False fo by (metis set_empty)
    then have fq: "fetch_order qs = a # fetch_order qs'" using f(3) by (simp add: a_def)
    have aq: "a \<in> set (concat qs)" using fo fq by (metis list.set_intros(1))
    then have La: "L a = Some (LQueued w)" using sc(3) by (auto simp: queued_def)
    have "distinct (fetch_order qs)" using sc(2) unfolding fetch_order_def sched_rep_def by (metis distinct_concat_rev)
    then have anq: "a \<notin> set (concat qs')" using fq fo by (metis distinct.simps(2))
    have sq: "set (concat qs') = queued L w - {a}"
      using fq fo anq sc(3) by (metis Diff_insert_absorb list.set(2))
    obtain c where c: "dv_tasks s a = Some c" "task_ok (set (dv_table s)) (LQueued w) c" using placed_task [OF p La] .
    obtain c' where c': "h a = Some c'" "body c' = body c" using same_body_Some [OF f(4) c(1)] .
    have ul: "unlinked h a" using f(5) aq anq by blast
    let ?L = "L(a \<mapsto> LHand w TASK_READY (Some w))"
    note sets = upd_places [of L a "LHand w TASK_READY (Some w)" w] in_places [of L a "LQueued w" w, OF La]
    have same: "queued ?L w = queued L w - {a}" "assigned ?L w = assigned L w" "waking ?L w = waking L w" "dead ?L w = dead L w"
      "moving ?L w = moving L w" "owned ?L w = owned L w" using sets by auto
    have "sched_ok h ?L w sc'" unfolding sched_ok_def using f(2) sq same(1) by blast
    then have ok: "worker_ok h ?L cur w ?k" using k(2) by (simp add: worker_ok_def mailbox_ok_def same)
    have "placed ?s ?L cur"
    proof (rule placed_move [where w = w and k = k and k' = ?k and l = "LQueued w", OF p La w])
      show "dom (dv_tasks ?s) = dom (dv_tasks s)" using same_body_dom [OF f(4)] by simp
      show "\<exists>c'. dv_tasks ?s a = Some c' \<and> task_ok (set (dv_table s)) (LHand w TASK_READY (Some w)) c'"
        using c'(1) c(2) body_eq_fields [OF c'(2)] ul by (auto simp: task_ok_def unlinked_def)
      fix b assume b: "b \<noteq> a"
      show "b \<notin> queued L w \<Longrightarrow> dv_tasks ?s b = dv_tasks s b" using f(6) sc(3) by (simp del: set_concat)
      show "\<exists>c'. dv_tasks ?s b = Some c' \<and> body c' = body cb" if "dv_tasks s b = Some cb" for cb
        using same_body_Some [OF f(4) that] by (metis decen_sys.select_convs(1) decen_sys.surjective decen_sys.update_convs(1,2))
    qed (use ok k in \<open>auto simp: elsewhere_def\<close>)
    moreover have "sched_fetch s (Some w) = Inr (Some a, ?s)" using k(1) sc(1) f(1) False by (simp add: sched_fetch_def a_def)
    ultimately show ?thesis using La k(1) by auto
  qed
qed

subsection \<open>Ended and migrating tasks\<close>

lemma placed_remove:
  assumes p: "placed s L cur" and a: "L a = Some (LDead w)" and k: "dv_workers s w = Some k"
  shows "placed (s\<lparr>dv_tasks := (dv_tasks s)(a := None), dv_workers := (dv_workers s)(w \<mapsto> k\<lparr>dk_marked_del := None\<rparr>)\<rparr>) (L(a := None)) cur"
proof -
  obtain c where c: "dv_tasks s a = Some c" "task_ok (set (dv_table s)) (LDead w) c" using placed_task [OF p a] .
  then have w: "w \<in> set (dv_table s)" by (simp add: task_ok_def)
  let ?L = "L(a := None)" and ?h = "(dv_tasks s)(a := None)"
  note sets = in_places [of L a "LDead w", OF a]
  have same: "queued ?L v = queued L v" "assigned ?L v = assigned L v" "waking ?L v = waking L v" "moving ?L v = moving L v"
    "owned ?L v = owned L v" "dead ?L v = dead L v - {a}" for v using sets [of v] by (auto simp: del_places)
  have nq: "a \<notin> queued L v" for v using sets(1) [of v] by simp
  have so: "sched_ok ?h ?L v sc" if "sched_ok (dv_tasks s) L v sc" for v sc
    by (rule sched_ok_frame [OF that same(1)]) (use nq in auto)
  have other: "worker_ok ?h ?L cur v m" if "worker_ok (dv_tasks s) L cur v m" "v \<noteq> w" for v m
    using that so sets(4) [of v] by (auto simp: worker_ok_def mailbox_ok_def same)
  have this_ok: "worker_ok ?h ?L cur w (k\<lparr>dk_marked_del := None\<rparr>)" if wo: "worker_ok (dv_tasks s) L cur w k"
  proof -
    have "a \<in> dead L w" using a by (simp add: dead_def)
    then have "dead L w = {a}" using worker_okD(4) [OF wo, symmetric] by (cases "dk_marked_del k") auto
    then show ?thesis using wo so by (auto simp: worker_ok_def mailbox_ok_def same)
  qed
  have fd: "finite (dom L)" "card (dom L) + 1 < 2 ^ 32" using p by (auto simp: placed_def)
  then have "card (dom ?L) \<le> card (dom L)" by (intro card_mono) auto
  then have "dom ?h = dom ?L" "finite (dom ?L)" "card (dom ?L) + 1 < 2 ^ 32" using p fd by (auto simp: placed_def)
  moreover have "\<exists>m. ((dv_workers s)(w \<mapsto> k\<lparr>dk_marked_del := None\<rparr>)) (dv_table s ! i) = Some m \<and> dk_wid m = int i \<and> worker_ok ?h ?L cur (dv_table s ! i) m"
    if i: "i < length (dv_table s)" for i
  proof -
    from p i obtain m where m: "dv_workers s (dv_table s ! i) = Some m" "dk_wid m = int i" "worker_ok (dv_tasks s) L cur (dv_table s ! i) m"
      unfolding placed_def by auto
    then show ?thesis using other this_ok k by (cases "dv_table s ! i = w") auto
  qed
  moreover have "\<exists>c. ?h b = Some c \<and> task_ok (set (dv_table s)) lb c" if "?L b = Some lb" for b lb
    using that p unfolding placed_def by (cases "b = a") auto
  ultimately show ?thesis using p unfolding placed_def by simp
qed

lemma destroy_marked:
  assumes p: "placed s L cur" and w: "w \<in> set (dv_table s)" and k: "dv_workers s w = Some k"
  shows "\<exists>s' L'. CleanupTaskContext s (Some w) None = Inr s' \<and> placed s' L' cur \<and> dv_table s' = dv_table s \<and>
    L' = (\<lambda>b. if L b = Some (LDead w) then None else L b) \<and>
    dv_workers s' = (dv_workers s)(w \<mapsto> k\<lparr>dk_marked_del := None\<rparr>) \<and> (\<forall>b. L b \<noteq> Some (LDead w) \<longrightarrow> dv_tasks s' b = dv_tasks s b)"
proof -
  obtain k0 where "dv_workers s w = Some k0" "worker_ok (dv_tasks s) L cur w k0" using placed_worker [OF p w] .
  then have wo: "worker_ok (dv_tasks s) L cur w k" using k by simp
  show ?thesis
  proof (cases "dk_marked_del k")
    case None
    then have "dead L w = {}" using worker_okD(4) [OF wo] by simp
    then have L: "(\<lambda>b. if L b = Some (LDead w) then None else L b) = L" by (auto simp: dead_def fun_eq_iff)
    have "k\<lparr>dk_marked_del := None\<rparr> = k" using None by (cases k) simp
    then show ?thesis using None k p L by (auto simp: CleanupTaskContext_def fun_upd_idem)
  next
    case (Some a)
    then have d: "dead L w = {a}" using worker_okD(4) [OF wo] by simp
    then have a: "L a = Some (LDead w)" by (auto simp: dead_def)
    have L: "(\<lambda>b. if L b = Some (LDead w) then None else L b) = L(a := None)" using d by (auto simp: dead_def fun_eq_iff)
    obtain c where c: "dv_tasks s a = Some c" "task_ok (set (dv_table s)) (LDead w) c" using placed_task [OF p a] .
    have "CleanupTaskContext s (Some w) None =
        Inr (s\<lparr>dv_tasks := (dv_tasks s)(a := None), dv_workers := (dv_workers s)(w \<mapsto> k\<lparr>dk_marked_del := None\<rparr>)\<rparr>)"
      using k Some c by (simp add: CleanupTaskContext_def LpelTaskDestroy_decen_def task_ok_def)
    then show ?thesis using placed_remove [OF p a k] L a by auto
  qed
qed

text \<open>The task that exits is marked and no longer counted.\<close>

lemma mark_dead:
  assumes p: "placed s L cur" and a: "L a = Some (LHand w TASK_ZOMBIE (Some w))" and k: "dv_workers s w = Some k" "dk_marked_del k = None"
  shows "placed (s\<lparr>dv_workers := (dv_workers s)(w \<mapsto> k\<lparr>dk_marked_del := Some a, dk_num_tasks := dk_num_tasks k - 1\<rparr>)\<rparr>) (L(a \<mapsto> LDead w)) cur"
proof -
  let ?l = "LHand w TASK_ZOMBIE (Some w)"
  obtain c where c: "dv_tasks s a = Some c" "task_ok (set (dv_table s)) ?l c" using placed_task [OF p a] .
  then have w: "w \<in> set (dv_table s)" by (simp add: task_ok_def)
  obtain k0 where "dv_workers s w = Some k0" "worker_ok (dv_tasks s) L cur w k0" using placed_worker [OF p w] .
  then have wo: "worker_ok (dv_tasks s) L cur w k" using k by simp
  let ?k = "k\<lparr>dk_marked_del := Some a, dk_num_tasks := dk_num_tasks k - 1\<rparr>" and ?L = "L(a \<mapsto> LDead w)"
  note sets = upd_places [of L a "LDead w" w] in_places [of L a ?l w, OF a]
  have same: "assigned ?L w = assigned L w" "waking ?L w = waking L w" "moving ?L w = moving L w" "owned ?L w = owned L w - {a}"
    "dead ?L w = insert a (dead L w)" "a \<in> owned L w" using sets by auto
  have "0 < card (owned L w)" using same(6) owned_bound(1) [OF p, of w] by (auto simp: card_gt_0_iff)
  then have n: "unat (dk_num_tasks ?k) = card (owned ?L w)"
    using unat_dec [of "dk_num_tasks k"] worker_okD(6) [OF wo] same(4,6) owned_bound(1) [OF p, of w] by simp
  have mb: "mailbox_ok ?L w (dk_mailbox ?k)" using worker_okD(2) [OF wo] same by (simp add: mailbox_ok_def)
  have d: "dead L w = {}" using worker_okD(4) [OF wo] k(2) by simp
  show ?thesis
    by (rule placed_worker_move [where l = ?l, OF p a w k(1)])
       (use worker_okD [OF wo] mb n same d in \<open>auto simp: elsewhere_def task_ok_def\<close>)
qed

lemma set_migrated:
  assumes p: "placed s L cur" and a: "L a = Some (LHand v TASK_READY (Some w))" and w: "w \<in> set (dv_table s)"
    and k: "dv_workers s w = Some k" "dk_migrated k = None"
  shows "placed (s\<lparr>dv_workers := (dv_workers s)(w \<mapsto> k\<lparr>dk_migrated := Some a\<rparr>)\<rparr>) (L(a \<mapsto> LMoving w v)) cur"
proof -
  let ?l = "LHand v TASK_READY (Some w)"
  obtain k0 where "dv_workers s w = Some k0" "worker_ok (dv_tasks s) L cur w k0" using placed_worker [OF p w] .
  then have wo: "worker_ok (dv_tasks s) L cur w k" using k by simp
  let ?k = "k\<lparr>dk_migrated := Some a\<rparr>" and ?L = "L(a \<mapsto> LMoving w v)"
  note sets = upd_places [of L a "LMoving w v" w] in_places [of L a ?l w, OF a]
  have same: "assigned ?L w = assigned L w" "waking ?L w = waking L w" "dead ?L w = dead L w" "owned ?L w = owned L w"
    "moving ?L w = insert a (moving L w)" using sets by auto
  have mb: "mailbox_ok ?L w (dk_mailbox ?k)" using worker_okD(2) [OF wo] same by (simp add: mailbox_ok_def)
  have d: "moving L w = {}" using worker_okD(5) [OF wo] k(2) by simp
  show ?thesis
    by (rule placed_worker_move [where l = ?l, OF p a w k(1)])
       (use worker_okD [OF wo] mb same d in \<open>auto simp: elsewhere_def task_ok_def\<close>)
qed

lemma take_migrated:
  assumes p: "placed s L cur" and w: "w \<in> set (dv_table s)" and k: "dv_workers s w = Some k" "dk_migrated k = Some a"
  shows "\<exists>v. L a = Some (LMoving w v) \<and>
    placed (s\<lparr>dv_workers := (dv_workers s)(w \<mapsto> k\<lparr>dk_num_tasks := dk_num_tasks k - 1, dk_migrated := None\<rparr>)\<rparr>) (L(a \<mapsto> LHand v TASK_READY None)) cur"
proof -
  obtain k0 where "dv_workers s w = Some k0" "worker_ok (dv_tasks s) L cur w k0" using placed_worker [OF p w] .
  then have wo: "worker_ok (dv_tasks s) L cur w k" using k by simp
  have mv: "moving L w = {a}" using worker_okD(5) [OF wo] k(2) by simp
  then obtain v where a: "L a = Some (LMoving w v)" by (auto simp: moving_def)
  let ?k = "k\<lparr>dk_num_tasks := dk_num_tasks k - 1, dk_migrated := None\<rparr>" and ?L = "L(a \<mapsto> LHand v TASK_READY None)"
  note sets = upd_places [of L a "LHand v TASK_READY None" w] in_places [of L a "LMoving w v" w, OF a]
  have same: "assigned ?L w = assigned L w" "waking ?L w = waking L w" "dead ?L w = dead L w" "owned ?L w = owned L w - {a}"
    "moving ?L w = {}" "a \<in> owned L w" using sets mv by auto
  have "0 < card (owned L w)" using same(6) owned_bound(1) [OF p, of w] by (auto simp: card_gt_0_iff)
  then have n: "unat (dk_num_tasks ?k) = card (owned ?L w)"
    using unat_dec [of "dk_num_tasks k"] worker_okD(6) [OF wo] same(4,6) owned_bound(1) [OF p, of w] by simp
  have mb: "mailbox_ok ?L w (dk_mailbox ?k)" using worker_okD(2) [OF wo] same by (simp add: mailbox_ok_def)
  have "placed (s\<lparr>dv_workers := (dv_workers s)(w \<mapsto> ?k)\<rparr>) ?L cur"
    by (rule placed_worker_move [where l = "LMoving w v", OF p a w k(1)])
       (use worker_okD [OF wo] mb n same in \<open>auto simp: elsewhere_def task_ok_def\<close>)
  then show ?thesis using a by blast
qed

lemma set_current:
  assumes p: "placed s L cur" and w: "w \<in> set (dv_table s)"
  shows "\<exists>s'. upd_dk s (Some w) (\<lambda>k. k\<lparr>dk_current_task := t\<rparr>) = Inr s' \<and> placed s' L (cur(w := t)) \<and> dv_table s' = dv_table s \<and>
    dv_tasks s' = dv_tasks s"
proof -
  obtain k where k: "dv_workers s w = Some k" "worker_ok (dv_tasks s) L cur w k" using placed_worker [OF p w] .
  have "worker_ok (dv_tasks s) L (cur(w := t)) w (k\<lparr>dk_current_task := t\<rparr>)" using k(2) by (simp add: worker_ok_def)
  from placed_worker_upd [where cur' = "cur(w := t)", OF p w k(1) _ this] k(1) show ?thesis by simp
qed

end
