(* ===== verification/Decen_Runs.thy ===== *)
theory Decen_Runs
  imports Decen_Place
begin

text \<open>
  The workers of the decentralised scheduler running side by side. The functions of the worker are
  shown to keep every task in exactly one place; then any interleaving of worker loops and task
  operations does, and no assertion fails in it.
\<close>

section \<open>The functions of a worker\<close>

definition picks :: "decen_sys \<Rightarrow> (ptr \<Rightarrow> int) \<Rightarrow> bool" where
  "picks s pick \<longleftrightarrow> (\<forall>t. pick t < int (length (dv_table s)))"

abbreviation mbox :: "decen_sys \<Rightarrow> addr \<Rightarrow> workermsg_t list option" where
  "mbox s w \<equiv> map_option dk_mailbox (dv_workers s w)"

lemma get_worker_ok:
  assumes p: "placed s L cur" and "0 \<le> i" "i < int (length (dv_table s))"
  obtains v k where "get_worker s i = Inr (Some v)" "v \<in> set (dv_table s)" "dv_workers s v = Some k" "dk_wid k = i"
proof -
  have n: "nat i < length (dv_table s)" using assms by linarith
  then obtain k where "dv_workers s (dv_table s ! nat i) = Some k" "dk_wid k = int (nat i)" using p unfolding placed_def by blast
  then show ?thesis using assms n that [of "dv_table s ! nat i" k] by (simp add: get_worker_def)
qed

lemma set_state_ok:
  assumes p: "placed s L cur" and a: "L a = Some l" and rl: "plain l" "plain l'" "counted l = counted l'" "woken l = woken l'"
    and st: "st_ok l' st" "home l' = home l" "\<And>w. l' \<noteq> LQueued w"
  shows "\<exists>s'. upd_tk s (Some a) (\<lambda>c. c\<lparr>t_state := st\<rparr>) = Inr s' \<and> placed s' (L(a \<mapsto> l')) cur \<and> dv_table s' = dv_table s \<and>
    dv_workers s' = dv_workers s \<and> (\<exists>c. dv_tasks s' a = Some c \<and> t_state c = st)"
proof -
  obtain c where c: "dv_tasks s a = Some c" "task_ok (set (dv_table s)) l c" using placed_task [OF p a] .
  have "l \<noteq> LQueued (home l)" using rl(1) by (cases l) (auto simp: plain_def)
  then have "task_ok (set (dv_table s)) l' (c\<lparr>t_state := st\<rparr>)" using c(2) st by (simp add: task_ok_def)
  from placed_relabel [where c' = "c\<lparr>t_state := st\<rparr>", OF p a rl this] c(1) show ?thesis by simp
qed

lemma make_ready_ok:
  assumes p: "placed s L cur" and a: "L a = Some (LHand w TASK_READY (Some w))" and pk: "picks s pick"
  shows "\<exists>s' l'. LpelWorkerMakeTaskReady mig pick s (Some a) = Inr s' \<and> placed s' (L(a \<mapsto> l')) cur \<and> dv_table s' = dv_table s \<and>
    mbox s' w = mbox s w \<and> (l' = LQueued w \<or> (\<exists>v. v \<noteq> w \<and> l' = LAssigned v))"
proof -
  let ?l = "LHand w TASK_READY (Some w)"
  obtain c where c: "dv_tasks s a = Some c" "task_ok (set (dv_table s)) ?l c" using placed_task [OF p a] .
  then have w: "w \<in> set (dv_table s)" and cw: "t_state c = TASK_READY" "t_worker_context c = Some w" by (auto simp: task_ok_def)
  obtain k where k: "dv_workers s w = Some k" using placed_worker [OF p w] by blast
  show ?thesis
  proof (cases "mig \<and> pick (Some a) > 0 \<and> pick (Some a) \<noteq> dk_wid k")
    case False
    then have "LpelWorkerMakeTaskReady mig pick s (Some a) = sched_ready s (Some w) (Some a)"
      using c(1) cw k by (auto simp: LpelWorkerMakeTaskReady_def Let_def)
    then show ?thesis using sched_ready_ok [OF p a] by auto
  next
    case True
    obtain v kv where v: "get_worker s (pick (Some a)) = Inr (Some v)" "v \<in> set (dv_table s)" "dv_workers s v = Some kv" "dk_wid kv = pick (Some a)"
      using get_worker_ok [OF p, of "pick (Some a)"] True pk unfolding picks_def by auto
    have vw: "v \<noteq> w" using v(3,4) k True by auto
    let ?c = "c\<lparr>t_worker_context := Some v\<rparr>"
    let ?s1 = "s\<lparr>dv_tasks := (dv_tasks s)(a \<mapsto> ?c)\<rparr>"
    have p1: "placed ?s1 (L(a \<mapsto> LHand v TASK_READY (Some w))) cur"
      by (rule placed_relabel [where l = ?l, OF p a]) (use c(2) v(2) in \<open>auto simp: plain_def woken_def task_ok_def\<close>)
    from count_down [OF p1, of a v TASK_READY w] w obtain s2 where
      s2: "upd_dk ?s1 (Some w) (\<lambda>k. k\<lparr>dk_num_tasks := dk_num_tasks k - 1\<rparr>) = Inr s2"
        "placed s2 (L(a \<mapsto> LHand v TASK_READY (Some w), a \<mapsto> LHand v TASK_READY None)) cur" "dv_table s2 = dv_table s"
        "\<forall>u. mbox s2 u = mbox ?s1 u" by auto
    from send_assign_ok [OF s2(2), of a "LHand v TASK_READY None" v] obtain s3 where
      s3: "SendAssign s2 (Some v) (Some a) = Inr s3" "placed s3 (L(a \<mapsto> LAssigned v)) cur" "dv_table s3 = dv_table s2"
        "\<forall>u. u \<noteq> v \<longrightarrow> dv_workers s3 u = dv_workers s2 u" by auto
    have "LpelWorkerMakeTaskReady mig pick s (Some a) = Inr s3"
      using c(1) cw k True v(1) s2(1) s3(1) by (simp add: LpelWorkerMakeTaskReady_def Let_def)
    moreover have "mbox s3 w = mbox s w" using s3(4) s2(4) vw by simp
    ultimately show ?thesis using s3(2,3) s2(3) vw by (intro exI [of _ s3] exI [of _ "LAssigned v"]) simp
  qed
qed

text \<open>The effect of processing messages of worker \<open>w\<close> on the places.\<close>

definition fetched :: "addr \<Rightarrow> places \<Rightarrow> places \<Rightarrow> bool" where
  "fetched w L L' \<longleftrightarrow> (\<forall>a. L' a = L a \<or> (L a = Some (LAssigned w) \<and> L' a = Some (LQueued w)) \<or>
     (L a = Some (LWaking w) \<and> (L' a = Some (LQueued w) \<or> (\<exists>v. v \<noteq> w \<and> L' a = Some (LAssigned v)))))"

lemma fetched_refl [simp]: "fetched w L L"
  by (simp add: fetched_def)

lemma fetched_step:
  assumes "L a = Some (LAssigned w) \<and> l' = LQueued w \<or> L a = Some (LWaking w) \<and> (l' = LQueued w \<or> (\<exists>v. v \<noteq> w \<and> l' = LAssigned v))"
  shows "fetched w L (L(a \<mapsto> l'))"
  using assms by (auto simp: fetched_def)

lemma fetched_trans: "fetched w L L' \<Longrightarrow> fetched w L' L'' \<Longrightarrow> fetched w L L''"
  unfolding fetched_def by (metis loc.distinct loc.inject(2) option.inject)

lemma process_assign_ok:
  assumes p: "placed s L cur" and a: "L a = Some (LHand w st None)" "st = TASK_CREATED \<or> st = TASK_READY"
  shows "\<exists>s'. process_assign s (Some w) (Some a) = Inr s' \<and> placed s' (L(a \<mapsto> LQueued w)) cur \<and> dv_table s' = dv_table s \<and> mbox s' w = mbox s w"
proof -
  obtain c where c: "dv_tasks s a = Some c" "task_ok (set (dv_table s)) (LHand w st None) c" using placed_task [OF p a(1)] .
  then have w: "w \<in> set (dv_table s)" and cs: "t_state c = st" by (auto simp: task_ok_def)
  have "\<exists>s1. (if t_state c = TASK_CREATED then upd_tk s (Some a) (\<lambda>c. c\<lparr>t_state := TASK_READY\<rparr>) else Inr s) = Inr s1 \<and>
      placed s1 (L(a \<mapsto> LHand w TASK_READY None)) cur \<and> dv_table s1 = dv_table s \<and> dv_workers s1 = dv_workers s"
  proof (cases "st = TASK_CREATED")
    case True
    from set_state_ok [where l' = "LHand w TASK_READY None" and st = TASK_READY, OF p a(1)] True cs show ?thesis
      by (auto simp: plain_def woken_def)
  next
    case False
    then have "L(a \<mapsto> LHand w TASK_READY None) = L" using a by (auto simp: fun_upd_idem)
    then show ?thesis using False cs p by simp
  qed
  then obtain s1 where s1: "(if t_state c = TASK_CREATED then upd_tk s (Some a) (\<lambda>c. c\<lparr>t_state := TASK_READY\<rparr>) else Inr s) = Inr s1"
    "placed s1 (L(a \<mapsto> LHand w TASK_READY None)) cur" "dv_table s1 = dv_table s" "dv_workers s1 = dv_workers s" by blast
  from count_up [OF s1(2), of a w TASK_READY w] w s1(3) obtain s2 where
    s2: "upd_dk s1 (Some w) (\<lambda>k. k\<lparr>dk_num_tasks := dk_num_tasks k + 1\<rparr>) = Inr s2"
      "placed s2 (L(a \<mapsto> LHand w TASK_READY (Some w))) cur" "dv_table s2 = dv_table s1" "\<forall>u. mbox s2 u = mbox s1 u" by auto
  from sched_ready_ok [OF s2(2), of a w] obtain s3 where
    s3: "sched_ready s2 (Some w) (Some a) = Inr s3" "placed s3 (L(a \<mapsto> LQueued w)) cur" "dv_table s3 = dv_table s2" "mbox s3 w = mbox s2 w" by auto
  obtain k2 where k2: "dv_workers s2 w = Some k2" "dk_wid k2 \<ge> 0" using placed_worker [OF s2(2)] w s2(3) s1(3) by metis
  have "process_assign s (Some w) (Some a) = Inr s3"
    using c(1) cs a(2) s1(1) s2(1) k2 s3(1) by (auto simp: process_assign_def)
  then show ?thesis using s3 s2(3,4) s1(3,4) by auto
qed

lemma process_wakeup_ok:
  assumes p: "placed s L cur" and a: "L a = Some (LHand w TASK_BLOCKED (Some w))" and pk: "picks s pick"
  shows "\<exists>s' l'. process_wakeup mig pick s (Some w) (Some a) = Inr s' \<and> placed s' (L(a \<mapsto> l')) cur \<and> dv_table s' = dv_table s \<and>
    mbox s' w = mbox s w \<and> (l' = LQueued w \<or> (\<exists>v. v \<noteq> w \<and> l' = LAssigned v))"
proof -
  let ?l = "LHand w TASK_BLOCKED (Some w)"
  obtain c where c: "dv_tasks s a = Some c" "task_ok (set (dv_table s)) ?l c" using placed_task [OF p a] .
  then have w: "w \<in> set (dv_table s)" and cs: "t_state c = TASK_BLOCKED" by (auto simp: task_ok_def)
  from set_state_ok [where l' = "LHand w TASK_READY (Some w)" and st = TASK_READY, OF p a] obtain s1 where
    s1: "upd_tk s (Some a) (\<lambda>c. c\<lparr>t_state := TASK_READY\<rparr>) = Inr s1" "placed s1 (L(a \<mapsto> LHand w TASK_READY (Some w))) cur"
      "dv_table s1 = dv_table s" "dv_workers s1 = dv_workers s" by (auto simp: plain_def woken_def)
  from make_ready_ok [where mig = mig and pick = pick, OF s1(2), of a w] pk s1(3) obtain s2 l' where
    s2: "LpelWorkerMakeTaskReady mig pick s1 (Some a) = Inr s2" "placed s2 (L(a \<mapsto> l')) cur" "dv_table s2 = dv_table s1" "mbox s2 w = mbox s1 w"
      "l' = LQueued w \<or> (\<exists>v. v \<noteq> w \<and> l' = LAssigned v)" by (auto simp: picks_def)
  obtain k1 where k1: "dv_workers s1 w = Some k1" "dk_wid k1 \<ge> 0" using placed_worker [OF s1(2)] w s1(3) by metis
  have "process_wakeup mig pick s (Some w) (Some a) = Inr s2"
    using c(1) cs s1(1) k1 s2(1) by (simp add: process_wakeup_def)
  then show ?thesis using s2 s1 by auto
qed

text \<open>No task runs on \<open>w\<close>: the worker itself, or the dispatcher on the stack of a task that has stopped.\<close>

definition idle :: "places \<Rightarrow> addr \<Rightarrow> bool" where
  "idle L w \<longleftrightarrow> (\<forall>a. L a \<noteq> Some (LRun w) \<and> L a \<noteq> Some (LRunWait w) \<and> L a \<noteq> Some (LRunWoken w))"

lemma idle_fetched: "idle L w \<Longrightarrow> fetched v L L' \<Longrightarrow> idle L' w"
  unfolding idle_def fetched_def by (metis loc.distinct(25,27,29,5,7,9,41,43,45) loc.distinct option.inject)

lemma recv_process_ok:
  assumes p: "placed s L cur" and w: "w \<in> set (dv_table s)" and id: "idle L w" and pk: "picks s pick"
    and m: "mbox s w = Some (m # ms)"
  shows "\<exists>s' L'. recv_process mig pick s (Some w) = Inr s' \<and> placed s' L' cur \<and> dv_table s' = dv_table s \<and> mbox s' w = Some ms \<and>
    fetched w L L'"
proof -
  obtain k where k: "dv_workers s w = Some k" "dk_mailbox k = m # ms" using m by auto
  obtain k0 where "dv_workers s w = Some k0" "worker_ok (dv_tasks s) L cur w k0" using placed_worker [OF p w] .
  then have wo: "worker_ok (dv_tasks s) L cur w k" using k by simp
  let ?s = "s\<lparr>dv_workers := (dv_workers s)(w \<mapsto> k\<lparr>dk_mailbox := ms\<rparr>)\<rparr>"
  have rp: "recv_process mig pick s (Some w) = ProcessMessage mig pick ?s (Some w) m" using k by (simp add: recv_process_def)
  have "msg_valid m" using worker_okD(2) [OF wo] k(2) by (simp add: mailbox_ok_def)
  then consider (assign) a where "msg_type m = MSG_ASSIGN_decen" "msg_body m = BTask (Some a)"
    | (wakeup) a where "msg_type m = MSG_WAKEUP_decen" "msg_body m = BTask (Some a)"
    | (other) "msg_type m \<in> {MSG_TERMINATE_decen, MSG_SPMDREQ_decen}" by (auto simp: msg_valid_def)
  then show ?thesis
  proof cases
    case assign
    note pa = pop_assign [OF p w k(1,2) assign]
    from pa have La: "L a = Some (LAssigned w)" by (rule conjunct1)
    from pa obtain st where st: "st = TASK_CREATED \<or> st = TASK_READY" "placed ?s (L(a \<mapsto> LHand w st None)) cur"
      by (elim conjE exE) (rule that)
    from process_assign_ok [OF st(2), of a w st] st(1) obtain s' where
      s': "process_assign ?s (Some w) (Some a) = Inr s'" "placed s' (L(a \<mapsto> LQueued w)) cur" "dv_table s' = dv_table s" "mbox s' w = mbox ?s w" by auto
    have "ProcessMessage mig pick ?s (Some w) m = Inr s'"
      using s'(1) assign by (simp add: ProcessMessage_def msg_task_def decen_msg_types)
    moreover have "fetched w L (L(a \<mapsto> LQueued w))" using La by (intro fetched_step) simp
    ultimately show ?thesis using rp s' by (intro exI [of _ s'] exI [of _ "L(a \<mapsto> LQueued w)"]) simp
  next
    case wakeup
    from pop_wakeup [OF p w k(1,2) wakeup] id have c: "L a = Some (LWaking w)" "placed ?s (L(a \<mapsto> LHand w TASK_BLOCKED (Some w))) cur"
      by (auto simp: idle_def)
    from process_wakeup_ok [where mig = mig and pick = pick, OF c(2), of a w] pk obtain s' l' where
      s': "process_wakeup mig pick ?s (Some w) (Some a) = Inr s'" "placed s' (L(a \<mapsto> l')) cur" "dv_table s' = dv_table s" "mbox s' w = mbox ?s w"
        "l' = LQueued w \<or> (\<exists>v. v \<noteq> w \<and> l' = LAssigned v)" by (auto simp: picks_def)
    have "ProcessMessage mig pick ?s (Some w) m = Inr s'"
      using s'(1) wakeup by (simp add: ProcessMessage_def msg_task_def decen_msg_types)
    moreover have "fetched w L (L(a \<mapsto> l'))" using c(1) s'(5) by (intro fetched_step) simp
    ultimately show ?thesis using rp s' by (intro exI [of _ s'] exI [of _ "L(a \<mapsto> l')"]) simp
  next
    case other
    note po = pop_other [OF p w k(1,2) other]
    have w': "w \<in> set (dv_table ?s)" using w by simp
    obtain k1 where k1: "dv_workers ?s w = Some k1" "worker_ok (dv_tasks ?s) L cur w k1" "dk_wid k1 \<ge> 0"
      using placed_worker [OF po w'] .
    have k1k: "k1 = k\<lparr>dk_mailbox := ms\<rparr>" using k1(1) by simp
    show ?thesis
    proof (cases "msg_type m = MSG_TERMINATE_decen")
      case True
      let ?k = "k\<lparr>dk_mailbox := ms, dk_terminate := 1\<rparr>"
      have "worker_ok (dv_tasks ?s) L cur w ?k" using k1(2) unfolding k1k by (simp add: worker_ok_def)
      from placed_worker_upd [where cur' = cur, OF po w' k1(1) _ this] have "placed (s\<lparr>dv_workers := (dv_workers s)(w \<mapsto> ?k)\<rparr>) L cur"
        unfolding k1k by simp
      moreover have "ProcessMessage mig pick ?s (Some w) m = Inr (s\<lparr>dv_workers := (dv_workers s)(w \<mapsto> ?k)\<rparr>)"
        using True by (simp add: ProcessMessage_def decen_msg_types)
      ultimately show ?thesis using rp by (intro exI [of _ "s\<lparr>dv_workers := (dv_workers s)(w \<mapsto> ?k)\<rparr>"] exI [of _ L]) simp
    next
      case False
      then have "ProcessMessage mig pick ?s (Some w) m = Inr ?s" using other k1 by (auto simp: ProcessMessage_def decen_msg_types)
      then show ?thesis using rp po by (intro exI [of _ ?s] exI [of _ L]) simp
    qed
  qed
qed

lemma fetch_messages_ok:
  assumes "placed s L cur" and "w \<in> set (dv_table s)" and "idle L w" and "picks s pick"
  shows "\<exists>s' L'. FetchAllMessages mig pick s (Some w) = Some (Inr s') \<and> placed s' L' cur \<and> dv_table s' = dv_table s \<and>
    mbox s' w = Some [] \<and> fetched w L L'"
proof -
  obtain k where "dv_workers s w = Some k" using placed_worker [OF assms(1,2)] by blast
  then obtain ms where "mbox s w = Some ms" by simp
  then show ?thesis using assms
  proof (induction ms arbitrary: s L)
    case Nil
    then have "FetchAllMessages mig pick s (Some w) = Some (Inr s)" by (subst FetchAllMessages.simps) auto
    then show ?case using Nil by (intro exI [of _ s] exI [of _ L]) simp
  next
    case (Cons m ms)
    from recv_process_ok [where mig = mig, OF Cons.prems(2-5,1)] obtain s1 L1 where
      1: "recv_process mig pick s (Some w) = Inr s1" "placed s1 L1 cur" "dv_table s1 = dv_table s" "mbox s1 w = Some ms" "fetched w L L1" by blast
    have "idle L1 w" using idle_fetched [OF Cons.prems(4) 1(5)] .
    moreover have "w \<in> set (dv_table s1)" "picks s1 pick" using Cons.prems 1(3) by (auto simp: picks_def)
    ultimately obtain s' L' where 2: "FetchAllMessages mig pick s1 (Some w) = Some (Inr s')" "placed s' L' cur" "dv_table s' = dv_table s1"
      "mbox s' w = Some []" "fetched w L1 L'" using Cons.IH [OF 1(4,2)] by blast
    have "FetchAllMessages mig pick s (Some w) = Some (Inr s')"
      using Cons.prems(1) 1(1) 2(1) by (subst FetchAllMessages.simps) auto
    then show ?case using 2 1 fetched_trans by metis
  qed
qed


section \<open>Giving up the processor\<close>

text \<open>
  The running tasks of a worker, the tasks that wait for a wakeup, the ones about to block, and the ones in the
  hands of a function in progress.
\<close>

definition busy :: "places \<Rightarrow> addr \<Rightarrow> addr set" where
  "busy L w = {a. L a = Some (LRun w) \<or> L a = Some (LRunWait w) \<or> L a = Some (LRunWoken w)}"

definition waiting :: "places \<Rightarrow> addr set" where
  "waiting L = {a. \<exists>w. L a = Some (LRunWait w) \<or> L a = Some (LParked w)}"

definition pending :: "places \<Rightarrow> addr set" where
  "pending L = {a. \<exists>w. L a = Some (LRunWait w) \<or> L a = Some (LRunWoken w)}"

definition hands :: "places \<Rightarrow> addr set" where
  "hands L = {a. \<exists>w st v. L a = Some (LHand w st v) \<or> L a = Some (LFresh w)}"

lemma idle_busy: "idle L w \<longleftrightarrow> busy L w = {}"
  by (auto simp: idle_def busy_def)

lemma upd_runs:
  "busy (L(a \<mapsto> l)) w = (if l \<in> {LRun w, LRunWait w, LRunWoken w} then insert a (busy L w) else busy L w - {a})"
  "waiting (L(a \<mapsto> l)) = (if \<exists>v. l \<in> {LRunWait v, LParked v} then insert a (waiting L) else waiting L - {a})"
  "pending (L(a \<mapsto> l)) = (if \<exists>v. l \<in> {LRunWait v, LRunWoken v} then insert a (pending L) else pending L - {a})"
  "hands (L(a \<mapsto> l)) = (if \<exists>v st u. l \<in> {LHand v st u, LFresh v} then insert a (hands L) else hands L - {a})"
  by (auto simp: busy_def waiting_def pending_def hands_def)

lemma in_runs:
  assumes "L a = Some l"
  shows "a \<in> busy L w \<longleftrightarrow> l \<in> {LRun w, LRunWait w, LRunWoken w}" "a \<in> waiting L \<longleftrightarrow> (\<exists>v. l \<in> {LRunWait v, LParked v})"
    "a \<in> pending L \<longleftrightarrow> (\<exists>v. l \<in> {LRunWait v, LRunWoken v})" "a \<in> hands L \<longleftrightarrow> (\<exists>v st u. l \<in> {LHand v st u, LFresh v})"
  using assms by (auto simp: busy_def waiting_def pending_def hands_def)

text \<open>What a step of worker \<open>w\<close> leaves alone.\<close>

definition frame :: "addr \<Rightarrow> places \<Rightarrow> places \<Rightarrow> bool" where
  "frame w L L' \<longleftrightarrow> (\<forall>v. v \<noteq> w \<longrightarrow> busy L' v = busy L v \<and> moving L' v = moving L v \<and> owned L' v = owned L v)"

lemma frame_refl [simp]: "frame w L L"
  by (simp add: frame_def)

lemma frame_trans: "frame w L L' \<Longrightarrow> frame w L' L'' \<Longrightarrow> frame w L L''"
  by (simp add: frame_def)

lemma frame_upd:
  assumes "L a = Some l" and "\<And>v. v \<noteq> w \<Longrightarrow> a \<notin> busy L v \<and> l' \<notin> {LRun v, LRunWait v, LRunWoken v}"
    and "\<And>v. v \<noteq> w \<Longrightarrow> (\<forall>u. l \<noteq> LMoving v u \<and> l' \<noteq> LMoving v u) \<and> counted l \<noteq> Some v \<and> counted l' \<noteq> Some v"
  shows "frame w L (L(a \<mapsto> l'))"
  using assms(2,3) in_places(5,6) [of L a l, OF assms(1)] by (auto simp: frame_def upd_runs upd_places)

lemma fetched_same:
  assumes "fetched w L L'"
  shows "frame w L L'" "busy L' v = busy L v" "moving L' v = moving L v" "waiting L' = waiting L" "pending L' = pending L"
    "hands L' = hands L"
proof -
  have c: "L' a = L a \<or> (L a = Some (LAssigned w) \<or> L a = Some (LWaking w)) \<and> (L' a = Some (LQueued w) \<or> (\<exists>v. v \<noteq> w \<and> L' a = Some (LAssigned v)))" for a
    using assms unfolding fetched_def by blast
  have eq: "(L' a = Some l) = (L a = Some l)" if "\<And>v. l \<noteq> LAssigned v" "l \<noteq> LWaking w" "l \<noteq> LQueued w" for a l
    using c [of a] that by auto
  show b: "busy L' v = busy L v" and m: "moving L' v = moving L v" for v by (simp_all add: busy_def moving_def eq)
  show "waiting L' = waiting L" "pending L' = pending L" "hands L' = hands L"
    by (simp_all add: waiting_def pending_def hands_def eq)
  have "owned L' v = owned L v" if v: "v \<noteq> w" for v
  proof -
    have "(\<exists>l. L' a = Some l \<and> counted l = Some v) = (\<exists>l. L a = Some l \<and> counted l = Some v)" for a
      using c [of a] v by (elim disjE conjE exE) simp_all
    then show ?thesis by (simp add: owned_def)
  qed
  then show "frame w L L'" using b m by (simp add: frame_def)
qed

lemma start_ok:
  assumes p: "placed s L cur" and a: "L a = Some (LHand w TASK_READY (Some w))"
  shows "\<exists>s'. TaskStart_decen s a = Inr s' \<and> placed s' (L(a \<mapsto> LRun w)) cur \<and> dv_table s' = dv_table s"
proof -
  obtain c where c: "dv_tasks s a = Some c" "task_ok (set (dv_table s)) (LHand w TASK_READY (Some w)) c" using placed_task [OF p a] .
  from set_state_ok [where l' = "LRun w" and st = TASK_RUNNING, OF p a] obtain s' where
    "upd_tk s (Some a) (\<lambda>c. c\<lparr>t_state := TASK_RUNNING\<rparr>) = Inr s'" "placed s' (L(a \<mapsto> LRun w)) cur" "dv_table s' = dv_table s"
    by (auto simp: plain_def woken_def)
  moreover have "t_state c = TASK_READY" using c(2) by (simp add: task_ok_def)
  ultimately show ?thesis using c(1) by (simp add: TaskStart_decen_def)
qed

text \<open>The outcome of a switch: the places \<open>L'\<close> and the current tasks \<open>cur'\<close> after it.\<close>

definition turn :: "addr \<Rightarrow> places \<Rightarrow> (addr \<Rightarrow> ptr) \<Rightarrow> sw \<Rightarrow> decen_sys \<Rightarrow> places \<Rightarrow> (addr \<Rightarrow> ptr) \<Rightarrow> bool" where
  "turn w L cur n s' L' cur' \<longleftrightarrow> placed s' L' cur' \<and> (\<forall>v. v \<noteq> w \<longrightarrow> cur' v = cur v) \<and> frame w L L' \<and>
     hands L' = hands L \<and> waiting L' = waiting L \<and> pending L' = pending L \<and>
     (case n of SwWorker \<Rightarrow> busy L' w = {} | SwTask b \<Rightarrow> cur' w = Some b \<and> busy L' w = {b} \<and> moving L' w = moving L w)"

lemma turn_task:
  assumes p: "placed s (L(b \<mapsto> LHand w TASK_READY (Some w))) cur'" and b: "L b = Some (LQueued w)" and "busy L w = {}"
    and cur': "cur' w = Some b" "\<And>v. v \<noteq> w \<Longrightarrow> cur' v = cur v"
  shows "\<exists>s' L'. TaskStart_decen s b = Inr s' \<and> turn w L cur (SwTask b) s' L' cur' \<and> dv_table s' = dv_table s"
proof -
  from start_ok [OF p, of b w] obtain s' where
    s': "TaskStart_decen s b = Inr s'" "placed s' (L(b \<mapsto> LRun w)) cur'" "dv_table s' = dv_table s" by auto
  have "frame w L (L(b \<mapsto> LRun w))" using b by (intro frame_upd) (auto simp: busy_def)
  then have "turn w L cur (SwTask b) s' (L(b \<mapsto> LRun w)) cur'"
    using s'(2) assms(3) cur' in_runs [of L b "LQueued w", OF b] in_places(5) [of L b "LQueued w" w, OF b]
    by (simp add: turn_def upd_runs upd_places)
  then show ?thesis using s' by blast
qed

lemma turn_after:
  assumes "turn w L1 cur n s' L' cur'" and "frame w L L1" "hands L1 = hands L" "waiting L1 = waiting L" "pending L1 = pending L" "moving L1 w = moving L w"
  shows "turn w L cur n s' L' cur'"
  using assms frame_trans [of w L L1 L'] by (simp add: turn_def split: sw.splits)

lemmas turn_fetched = turn_after [OF _ fetched_same(1) fetched_same(6) fetched_same(4) fetched_same(5) fetched_same(3)]


lemma upd_dk_mono: "dv_table s' = dv_table s \<Longrightarrow> picks s pick \<Longrightarrow> picks s' pick"
  by (simp add: picks_def)

lemma dispatch_ok:
  assumes p: "placed s L cur" and t: "L t = Some l" "home l = w" and b: "busy L w = {}" and c: "cur w = Some t" and pk: "picks s pick"
  shows "\<exists>r n s' L' cur'. LpelWorkerDispatcher mig pick s (Some t) = Some (Inr r) \<and> resume r = Inr (n, s') \<and>
    turn w L cur n s' L' cur' \<and> dv_table s' = dv_table s"
proof -
  obtain tc where tc: "dv_tasks s t = Some tc" "task_ok (set (dv_table s)) l tc" using placed_task [OF p t(1)] .
  then have w: "w \<in> set (dv_table s)" and tw: "t_worker_context tc = Some w" using t(2) by (auto simp: task_ok_def)
  obtain k where k: "dv_workers s w = Some k" "dk_wid k \<ge> 0" using placed_worker [OF p w] .
  from fetch_messages_ok [where mig = mig, OF p w _ pk] b obtain s1 L1 where
    1: "FetchAllMessages mig pick s (Some w) = Some (Inr s1)" "placed s1 L1 cur" "dv_table s1 = dv_table s" "fetched w L L1"
    by (auto simp: idle_busy)
  have w1: "w \<in> set (dv_table s1)" and b1: "busy L1 w = {}" using w b 1(3) fetched_same(2) [OF 1(4)] by simp_all
  from sched_fetch_ok [OF 1(2) w1] obtain n s2 where
    2: "sched_fetch s1 (Some w) = Inr (n, s2)" "dv_table s2 = dv_table s1"
      "case n of None \<Rightarrow> queued L1 w = {} \<and> placed s2 L1 cur | Some a \<Rightarrow> L1 a = Some (LQueued w) \<and> placed s2 (L1(a \<mapsto> LHand w TASK_READY (Some w))) cur"
    by blast
  have w2: "w \<in> set (dv_table s2)" using w1 2(2) by simp
  have disp: "LpelWorkerDispatcher mig pick s (Some t) = (case n of
      Some m \<Rightarrow> if n = Some t then Some (Inr (SwTask m, s2))
        else bindO (Some (upd_dk s2 (Some w) (\<lambda>k. k\<lparr>dk_current_task := n\<rparr>))) (\<lambda>s3. Some (Inr (SwTask m, s3)))
    | None \<Rightarrow> bindO (Some (upd_dk s2 (Some w) (\<lambda>k. k\<lparr>dk_current_task := None\<rparr>))) (\<lambda>s3. Some (Inr (SwWorker, s3))))"
    using tc(1) tw k 1(1) 2(1) by (cases n) (simp_all add: LpelWorkerDispatcher_def Let_def LPEL_MAP_OTHERS_def)
  show ?thesis
  proof (cases n)
    case None
    from set_current [where t = None, OF _ w2, of L1 cur] 2(3) None obtain s3 where
      3: "upd_dk s2 (Some w) (\<lambda>k. k\<lparr>dk_current_task := None\<rparr>) = Inr s3" "placed s3 L1 (cur(w := None))" "dv_table s3 = dv_table s2" by auto
    have "turn w L1 cur SwWorker s3 L1 (cur(w := None))" using 3(2) b1 by (simp add: turn_def)
    from turn_fetched [OF this 1(4) 1(4) 1(4) 1(4) 1(4)] show ?thesis
      using disp None 3(1,3) 2(2) 1(3)
      by (intro exI [of _ "(SwWorker, s3)"] exI [of _ SwWorker] exI [of _ s3] exI [of _ L1] exI [of _ "cur(w := None)"]) (simp add: resume_def)
  next
    case (Some m)
    have m: "L1 m = Some (LQueued w)" "placed s2 (L1(m \<mapsto> LHand w TASK_READY (Some w))) cur" using 2(3) Some by simp_all
    have "\<exists>s3. LpelWorkerDispatcher mig pick s (Some t) = Some (Inr (SwTask m, s3)) \<and> dv_table s3 = dv_table s2 \<and>
        placed s3 (L1(m \<mapsto> LHand w TASK_READY (Some w))) (cur(w \<mapsto> m))"
    proof (cases "m = t")
      case True
      then have "cur(w \<mapsto> m) = cur" using c by auto
      then show ?thesis using True disp Some m(2) by (simp del: fun_upd_apply)
    next
      case False
      from set_current [where t = "Some m", OF m(2) w2] obtain s3 where
        "upd_dk s2 (Some w) (\<lambda>k. k\<lparr>dk_current_task := Some m\<rparr>) = Inr s3" "dv_table s3 = dv_table s2"
        "placed s3 (L1(m \<mapsto> LHand w TASK_READY (Some w))) (cur(w \<mapsto> m))" by blast
      then show ?thesis using False disp Some by simp
    qed
    then obtain s3 where 3: "LpelWorkerDispatcher mig pick s (Some t) = Some (Inr (SwTask m, s3))" "dv_table s3 = dv_table s2"
      "placed s3 (L1(m \<mapsto> LHand w TASK_READY (Some w))) (cur(w \<mapsto> m))" by blast
    from turn_task [OF 3(3) m(1) b1, of cur] obtain s4 L4 where
      4: "TaskStart_decen s3 m = Inr s4" "turn w L1 cur (SwTask m) s4 L4 (cur(w \<mapsto> m))" "dv_table s4 = dv_table s3" by auto
    from turn_fetched [OF 4(2) 1(4) 1(4) 1(4) 1(4) 1(4)] show ?thesis
      using 3(1,2) 4(1,3) 2(2) 1(3)
      by (intro exI [of _ "(SwTask m, s3)"] exI [of _ "SwTask m"] exI [of _ s4] exI [of _ L4] exI [of _ "cur(w \<mapsto> m)"]) (simp add: resume_def)
  qed
qed


text \<open>
  The task operations. A task that runs on \<open>w\<close> is the current task there and the only one.
\<close>

definition runs_on :: "places \<Rightarrow> (addr \<Rightarrow> ptr) \<Rightarrow> addr \<Rightarrow> addr \<Rightarrow> bool" where
  "runs_on L cur w t \<longleftrightarrow> busy L w = {t} \<and> cur w = Some t"

lemma runs_onD:
  assumes "runs_on L cur w t"
  obtains l where "L t = Some l" "l \<in> {LRun w, LRunWait w, LRunWoken w}" "home l = w" "counted l = Some w" "plain l"
proof -
  have "t \<in> busy L w" using assms by (simp add: runs_on_def)
  then obtain l where "L t = Some l" "l \<in> {LRun w, LRunWait w, LRunWoken w}" by (auto simp: busy_def)
  then show ?thesis using that [of l] by (auto simp: plain_def)
qed

lemma task_stop_ok:
  assumes "placed s L cur" and "L t = Some l" "l \<notin> range LRun \<union> range LRunWait \<union> range LRunWoken" and "\<And>w v. l \<noteq> LHand w TASK_RUNNING v"
  shows "TaskStop s t = Inr ()"
proof -
  obtain c where "dv_tasks s t = Some c" "task_ok (set (dv_table s)) l c" using placed_task [OF assms(1,2)] .
  then show ?thesis using assms(3,4) by (cases l) (auto simp: TaskStop_def task_ok_def)
qed

lemma runs_on_leave:
  assumes r: "runs_on L cur w t" and l': "\<And>v. l' \<notin> {LRun v, LRunWait v, LRunWoken v}" "\<And>v u. l' \<noteq> LMoving v u" "\<And>v. v \<noteq> w \<Longrightarrow> counted l' \<noteq> Some v"
  shows "busy (L(t \<mapsto> l')) w = {}" "frame w L (L(t \<mapsto> l'))" "moving (L(t \<mapsto> l')) w = moving L w"
proof -
  obtain l where l: "L t = Some l" "l \<in> {LRun w, LRunWait w, LRunWoken w}" "home l = w" "counted l = Some w" "plain l" using runs_onD [OF r] .
  show "busy (L(t \<mapsto> l')) w = {}" using r l'(1) by (auto simp: upd_runs runs_on_def)
  show "frame w L (L(t \<mapsto> l'))" using l l' by (intro frame_upd [of L t l w l', OF l(1)]) (auto simp: busy_def)
  have "t \<notin> moving L w" using in_places(5) [of L t l w, OF l(1)] l(5) by (cases l) (auto simp: plain_def)
  then show "moving (L(t \<mapsto> l')) w = moving L w" using l'(2) by (auto simp: upd_places)
qed

lemma block_ok:
  assumes p: "placed s L cur" and r: "runs_on L cur w t" and pd: "t \<in> pending L" and pk: "picks s pick"
  shows "\<exists>r n s' L' cur'. LpelTaskBlockStream_decen mig pick s t = Some (Inr r) \<and> resume r = Inr (n, s') \<and>
    dv_table s' = dv_table s \<and> (\<exists>L1. turn w L1 cur n s' L' cur' \<and> frame w L L1 \<and> hands L1 = hands L \<and> waiting L1 = waiting L \<and>
      pending L1 = pending L - {t} \<and> moving L1 w = moving L w)"
proof -
  obtain l where l: "L t = Some l" "l \<in> {LRun w, LRunWait w, LRunWoken w}" "home l = w" "counted l = Some w" "plain l" using runs_onD [OF r] .
  have l2: "l = LRunWait w \<or> l = LRunWoken w" using pd l(1,2) in_runs(3) [of L t l, OF l(1)] by auto
  define l' where "l' = (if l = LRunWait w then LParked w else LWaking w)"
  let ?L = "L(t \<mapsto> l')"
  have ok: "plain l'" "counted l = counted l'" "woken l = woken l'" "st_ok l' TASK_BLOCKED" "home l' = home l" "\<And>w. l' \<noteq> LQueued w"
    using l2 by (auto simp: l'_def plain_def woken_def)
  from set_state_ok [where l' = l' and st = TASK_BLOCKED, OF p l(1,5) ok] obtain s1 where
    1: "upd_tk s (Some t) (\<lambda>c. c\<lparr>t_state := TASK_BLOCKED\<rparr>) = Inr s1" "placed s1 ?L cur" "dv_table s1 = dv_table s" by blast
  have L': "\<And>v. l' \<notin> {LRun v, LRunWait v, LRunWoken v}" "\<And>v u. l' \<noteq> LMoving v u" "\<And>v. v \<noteq> w \<Longrightarrow> counted l' \<noteq> Some v" "home l' = w"
    "\<And>v st u. l' \<noteq> LHand v st u" by (auto simp: l'_def)
  note rl = runs_on_leave [OF r L'(1-3)]
  have st: "TaskStop s1 t = Inr ()" using L' by (intro task_stop_ok [OF 1(2), of t l']) auto
  from dispatch_ok [where mig = mig and pick = pick, OF 1(2), of t l' w] L'(4) rl(1) r pk 1(3) obtain r n s' L' cur' where
    2: "LpelWorkerDispatcher mig pick s1 (Some t) = Some (Inr r)" "resume r = Inr (n, s')" "turn w ?L cur n s' L' cur'" "dv_table s' = dv_table s1"
    by (auto simp: runs_on_def picks_def)
  have "hands ?L = hands L" "waiting ?L = waiting L" "pending ?L = pending L - {t}"
    using l2 in_runs(2-4) [of L t l, OF l(1)] by (auto simp: upd_runs l'_def)
  moreover have "LpelTaskBlockStream_decen mig pick s t = Some (Inr r)"
    using 1(1) st 2(1) by (simp add: LpelTaskBlockStream_decen_def)
  ultimately show ?thesis using 2(2,3,4) 1(3) rl(2,3) by (intro exI [of _ r] exI [of _ n] exI [of _ s'] exI [of _ L'] exI [of _ cur'] conjI exI [of _ ?L]) simp_all
qed


lemma migrate_ok:
  assumes p: "placed s L cur" and t: "L t = Some (LHand w TASK_READY (Some w))" and m: "moving L w = {}" and b: "busy L w = {}" and c: "cur w = Some t"
    and i: "0 \<le> i" "i < int (length (dv_table s))"
  shows "\<exists>r n s' L'. LpelWorkerSelfTaskMigrate s t i = Inr r \<and> resume r = Inr (n, s') \<and> dv_table s' = dv_table s \<and>
    placed s' L' cur \<and> (n = SwTask t \<and> L' = L(t \<mapsto> LRun w) \<or> n = SwWorker \<and> (\<exists>v. L' = L(t \<mapsto> LMoving w v)))"
proof -
  let ?l = "LHand w TASK_READY (Some w)"
  obtain tc where tc: "dv_tasks s t = Some tc" "task_ok (set (dv_table s)) ?l tc" using placed_task [OF p t] .
  then have w: "w \<in> set (dv_table s)" and tw: "t_worker_context tc = Some w" by (auto simp: task_ok_def)
  obtain k where k: "dv_workers s w = Some k" "worker_ok (dv_tasks s) L cur w k" using placed_worker [OF p w] .
  have mg: "dk_migrated k = None" using worker_okD(5) [OF k(2)] m by simp
  show ?thesis
  proof (cases "dk_wid k = i")
    case True
    from start_ok [OF p t] obtain s' where "TaskStart_decen s t = Inr s'" "placed s' (L(t \<mapsto> LRun w)) cur" "dv_table s' = dv_table s" by blast
    moreover have "LpelWorkerSelfTaskMigrate s t i = Inr (SwTask t, s)"
      using tc(1) tw k(1) True by (simp add: LpelWorkerSelfTaskMigrate_def)
    ultimately show ?thesis
      by (intro exI [of _ "(SwTask t, s)"] exI [of _ "SwTask t"] exI [of _ s'] exI [of _ "L(t \<mapsto> LRun w)"]) (simp add: resume_def)
  next
    case False
    obtain v kv where v: "get_worker s i = Inr (Some v)" "v \<in> set (dv_table s)" "dv_workers s v = Some kv" "dk_wid kv = i"
      using get_worker_ok [OF p i] .
    let ?c = "tc\<lparr>t_worker_context := Some v\<rparr>" and ?k = "k\<lparr>dk_migrated := Some t\<rparr>" and ?L = "L(t \<mapsto> LHand v TASK_READY (Some w))"
    let ?s1 = "s\<lparr>dv_tasks := (dv_tasks s)(t \<mapsto> ?c)\<rparr>"
    let ?s2 = "?s1\<lparr>dv_workers := (dv_workers s)(w \<mapsto> ?k)\<rparr>"
    have p1: "placed ?s1 ?L cur"
      by (rule placed_relabel [where l = ?l, OF p t]) (use tc(2) v(2) in \<open>auto simp: plain_def woken_def task_ok_def\<close>)
    have "placed (?s1\<lparr>dv_workers := (dv_workers ?s1)(w \<mapsto> ?k)\<rparr>) (?L(t \<mapsto> LMoving w v)) cur"
      by (rule set_migrated [where v = v, OF p1]) (use w k(1) mg in simp_all)
    then have "placed ?s2 (L(t \<mapsto> LMoving w v)) cur" by simp
    moreover have "LpelWorkerSelfTaskMigrate s t i = Inr (SwWorker, ?s2)"
      using tc(1) tw k(1) False v(1) by (simp add: LpelWorkerSelfTaskMigrate_def)
    ultimately show ?thesis
      by (intro exI [of _ "(SwWorker, ?s2)"] exI [of _ SwWorker] exI [of _ ?s2] exI [of _ "L(t \<mapsto> LMoving w v)"]) (auto simp: resume_def)
  qed
qed

lemma migrate_turn:
  assumes r: "runs_on L cur w t" "L t = Some (LRun w)" "moving L w = {}" and p: "placed s' L' cur"
    and L': "n = SwTask t \<and> L' = L(t \<mapsto> LRun w) \<or> n = SwWorker \<and> (\<exists>v. L' = L(t \<mapsto> LMoving w v))"
  shows "turn w L cur n s' L' cur"
proof -
  have "frame w L L'" using L' r(2) by (auto intro!: frame_upd [of L t "LRun w"] simp: busy_def)
  moreover have "hands L' = hands L" "waiting L' = waiting L" "pending L' = pending L"
    using L' in_runs(2-4) [of L t "LRun w", OF r(2)] by (auto simp: upd_runs)
  moreover have "case n of SwWorker \<Rightarrow> busy L' w = {} | SwTask b \<Rightarrow> cur w = Some b \<and> busy L' w = {b} \<and> moving L' w = moving L w"
    using L' r by (auto simp: upd_runs upd_places runs_on_def)
  ultimately show ?thesis using p by (simp add: turn_def)
qed

lemma migrate_self:
  assumes r: "runs_on L cur w t" "L t = Some (LRun w)" "moving L w = {}" and p: "placed s (L(t \<mapsto> LHand w TASK_READY (Some w))) cur"
    and i: "0 \<le> i" "i < int (length (dv_table s))"
  shows "\<exists>r n s' L'. LpelWorkerSelfTaskMigrate s t i = Inr r \<and> resume r = Inr (n, s') \<and> turn w L cur n s' L' cur \<and> dv_table s' = dv_table s"
proof -
  let ?L = "L(t \<mapsto> LHand w TASK_READY (Some w))"
  have rl: "busy ?L w = {}" "moving ?L w = moving L w" by (rule runs_on_leave [OF r(1)]; simp)+
  have a: "?L t = Some (LHand w TASK_READY (Some w))" "moving ?L w = {}" "cur w = Some t" using rl r by (simp_all add: runs_on_def)
  from migrate_ok [OF p a(1,2) rl(1) a(3) i] obtain r' n s' L' where
    2: "LpelWorkerSelfTaskMigrate s t i = Inr r'" "resume r' = Inr (n, s')" "dv_table s' = dv_table s" "placed s' L' cur"
      "n = SwTask t \<and> L' = ?L(t \<mapsto> LRun w) \<or> n = SwWorker \<and> (\<exists>v. L' = ?L(t \<mapsto> LMoving w v))" by blast
  have "turn w L cur n s' L' cur" by (rule migrate_turn [OF r 2(4)]) (use 2(5) in simp)
  then show ?thesis using 2(1-3) by blast
qed

lemma ready_self:
  assumes p: "placed s L cur" and r: "runs_on L cur w t" "L t = Some (LRun w)"
  shows "\<exists>c s1. dv_tasks s t = Some c \<and> t_state c = TASK_RUNNING \<and> t_worker_context c = Some w \<and> w \<in> set (dv_table s) \<and>
    upd_tk s (Some t) (\<lambda>c. c\<lparr>t_state := TASK_READY\<rparr>) = Inr s1 \<and> placed s1 (L(t \<mapsto> LHand w TASK_READY (Some w))) cur \<and>
    dv_table s1 = dv_table s \<and> dv_workers s1 = dv_workers s \<and> TaskStop s1 t = Inr ()"
proof -
  obtain c where c: "dv_tasks s t = Some c" "task_ok (set (dv_table s)) (LRun w) c" using placed_task [OF p r(2)] .
  from set_state_ok [where l' = "LHand w TASK_READY (Some w)" and st = TASK_READY, OF p r(2)] obtain s1 where
    1: "upd_tk s (Some t) (\<lambda>c. c\<lparr>t_state := TASK_READY\<rparr>) = Inr s1" "placed s1 (L(t \<mapsto> LHand w TASK_READY (Some w))) cur"
      "dv_table s1 = dv_table s" "dv_workers s1 = dv_workers s" by (auto simp: plain_def woken_def)
  have "TaskStop s1 t = Inr ()" by (rule task_stop_ok [OF 1(2), of t "LHand w TASK_READY (Some w)"]) auto
  then show ?thesis using c 1 by (auto simp: task_ok_def)
qed


lemma reschedule_ok:
  assumes p: "placed s L cur" and r: "runs_on L0 cur w t" and L: "L = L0(t \<mapsto> LHand w TASK_READY (Some w))" "L0 t = Some (LRun w)" and pk: "picks s pick"
  shows "\<exists>r n s' L' cur'. reschedule mig pick s t = Some (Inr r) \<and> resume r = Inr (n, s') \<and> turn w L0 cur n s' L' cur' \<and> dv_table s' = dv_table s"
proof -
  have t: "L t = Some (LHand w TASK_READY (Some w))" using L by simp
  obtain tc where tc: "dv_tasks s t = Some tc" "task_ok (set (dv_table s)) (LHand w TASK_READY (Some w)) tc" using placed_task [OF p t] .
  then have w: "w \<in> set (dv_table s)" and tw: "t_worker_context tc = Some w" by (auto simp: task_ok_def)
  obtain k where k: "dv_workers s w = Some k" "dk_wid k \<ge> 0" using placed_worker [OF p w] .
  from sched_ready_ok [OF p t] obtain s1 where
    1: "sched_ready s (Some w) (Some t) = Inr s1" "placed s1 (L(t \<mapsto> LQueued w)) cur" "dv_table s1 = dv_table s" by blast
  let ?L = "L0(t \<mapsto> LQueued w)"
  have p1: "placed s1 ?L cur" using 1(2) L by simp
  have rl: "busy ?L w = {}" "frame w L0 ?L" "moving ?L w = moving L0 w" by (rule runs_on_leave [OF r]; simp)+
  have st: "TaskStop s1 t = Inr ()" by (rule task_stop_ok [OF p1, of t "LQueued w"]) auto
  from dispatch_ok [where mig = mig and pick = pick, OF p1, of t "LQueued w" w] rl(1) r pk 1(3) obtain r n s' L' cur' where
    2: "LpelWorkerDispatcher mig pick s1 (Some t) = Some (Inr r)" "resume r = Inr (n, s')" "turn w ?L cur n s' L' cur'" "dv_table s' = dv_table s1"
    by (auto simp: runs_on_def picks_def)
  have "hands ?L = hands L0" "waiting ?L = waiting L0" "pending ?L = pending L0"
    using in_runs(2-4) [of L0 t "LRun w", OF L(2)] by (auto simp: upd_runs)
  from turn_after [OF 2(3) rl(2) this rl(3)] have "turn w L0 cur n s' L' cur'" .
  moreover have "reschedule mig pick s t = Some (Inr r)"
    using tc(1) tw k 1(1) st 2(1) by (simp add: reschedule_def LpelWorkerSelfTaskYield_def)
  ultimately show ?thesis using 2(2,4) 1(3) by (intro exI [of _ r] exI [of _ n] exI [of _ s'] exI [of _ L'] exI [of _ cur']) simp
qed

lemma yield_ok:
  assumes p: "placed s L cur" and r: "runs_on L cur w t" "L t = Some (LRun w)" "moving L w = {}" and pk: "picks s pick"
  shows "\<exists>r n s' L' cur'. LpelTaskYield_decen mig pick s t = Some (Inr r) \<and> resume r = Inr (n, s') \<and> turn w L cur n s' L' cur' \<and> dv_table s' = dv_table s"
proof -
  from ready_self [OF p r(1,2)] obtain c s1 where
    1: "dv_tasks s t = Some c" "t_state c = TASK_RUNNING" "upd_tk s (Some t) (\<lambda>c. c\<lparr>t_state := TASK_READY\<rparr>) = Inr s1"
      "placed s1 (L(t \<mapsto> LHand w TASK_READY (Some w))) cur" "dv_table s1 = dv_table s" "TaskStop s1 t = Inr ()" by blast
  show ?thesis
  proof (cases "mig \<and> pick (Some t) > 0")
    case True
    have i: "0 \<le> pick (Some t)" "pick (Some t) < int (length (dv_table s1))" using True pk 1(5) by (auto simp: picks_def)
    from migrate_self [OF r 1(4) i] obtain r' n s' L' where
      2: "LpelWorkerSelfTaskMigrate s1 t (pick (Some t)) = Inr r'" "resume r' = Inr (n, s')" "turn w L cur n s' L' cur" "dv_table s' = dv_table s1" by blast
    have "LpelTaskYield_decen mig pick s t = Some (Inr r')" using 1 2(1) True by (simp add: LpelTaskYield_decen_def)
    then show ?thesis using 2(2-4) 1(5)
      by (intro exI [of _ r'] exI [of _ n] exI [of _ s'] exI [of _ L'] exI [of _ cur]) simp
  next
    case False
    from reschedule_ok [where mig = mig and pick = pick, OF 1(4) r(1) refl r(2)] pk 1(5) obtain r' n s' L' cur' where
      2: "reschedule mig pick s1 t = Some (Inr r')" "resume r' = Inr (n, s')" "turn w L cur n s' L' cur'" "dv_table s' = dv_table s1"
      by (auto simp: picks_def)
    have "LpelTaskYield_decen mig pick s t = Some (Inr r')" using 1 2(1) False by (auto simp: LpelTaskYield_decen_def)
    then show ?thesis using 2(2,3,4) 1(5) by (intro exI [of _ r'] exI [of _ n] exI [of _ s'] exI [of _ L'] exI [of _ cur']) simp
  qed
qed

lemma check_migrate_ok:
  assumes p: "placed s L cur" and r: "runs_on L cur w t" "L t = Some (LRun w)" "moving L w = {}" and pk: "picks s pick"
  shows "\<exists>n s' L' cur'. LpelTaskCheckMigrate_decen rnd pick s t = Inr (n, s') \<and> turn w L cur n s' L' cur' \<and> dv_table s' = dv_table s"
proof -
  from ready_self [OF p r(1,2)] obtain c s1 where
    1: "dv_tasks s t = Some c" "t_state c = TASK_RUNNING" "t_worker_context c = Some w" "w \<in> set (dv_table s)"
      "upd_tk s (Some t) (\<lambda>c. c\<lparr>t_state := TASK_READY\<rparr>) = Inr s1"
      "placed s1 (L(t \<mapsto> LHand w TASK_READY (Some w))) cur" "dv_table s1 = dv_table s" "dv_workers s1 = dv_workers s" "TaskStop s1 t = Inr ()" by blast
  obtain k where k: "dv_workers s w = Some k" "dk_wid k \<ge> 0" using placed_worker [OF p 1(4)] .
  show ?thesis
  proof (cases "rnd \<and> pick (Some t) \<ge> 0 \<and> dk_wid k \<noteq> pick (Some t)")
    case True
    have i: "0 \<le> pick (Some t)" "pick (Some t) < int (length (dv_table s1))" using True pk 1(7) by (auto simp: picks_def)
    from migrate_self [OF r 1(6) i] obtain r' n s' L' where
      2: "LpelWorkerSelfTaskMigrate s1 t (pick (Some t)) = Inr r'" "resume r' = Inr (n, s')" "turn w L cur n s' L' cur" "dv_table s' = dv_table s1" by blast
    have "LpelTaskCheckMigrate_decen rnd pick s t = Inr (n, s')" using 1 k 2(1,2) True by (simp add: LpelTaskCheckMigrate_decen_def)
    then show ?thesis using 2(3,4) 1(7) by (intro exI [of _ n] exI [of _ s'] exI [of _ L'] exI [of _ cur]) simp
  next
    case False
    have "L(t \<mapsto> LRun w) = L" using r(2) by (simp add: fun_upd_idem)
    with migrate_turn [OF r p, of "SwTask t"] have "turn w L cur (SwTask t) s L cur" by simp
    moreover have "LpelTaskCheckMigrate_decen rnd pick s t = Inr (SwTask t, s)" using 1 k False by (auto simp: LpelTaskCheckMigrate_decen_def)
    ultimately show ?thesis by (intro exI [of _ "SwTask t"] exI [of _ s] exI [of _ L] exI [of _ cur]) simp
  qed
qed


text \<open>The places without the task marked for deletion.\<close>

definition undead :: "addr \<Rightarrow> places \<Rightarrow> places" where
  "undead w L = (\<lambda>b. if L b = Some (LDead w) then None else L b)"

lemma undead_eq: "(undead w L a = Some l) = (L a = Some l \<and> l \<noteq> LDead w)"
  by (auto simp: undead_def)

lemma undead_same [simp]:
  "busy (undead w L) v = busy L v" "moving (undead w L) v = moving L v" "owned (undead w L) v = owned L v"
  "waiting (undead w L) = waiting L" "pending (undead w L) = pending L" "hands (undead w L) = hands L" "frame u L (undead w L)"
proof -
  show "busy (undead w L) v = busy L v" "moving (undead w L) v = moving L v" "owned (undead w L) v = owned L v" for v
    by (auto simp: busy_def moving_def owned_def undead_eq)
  then show "frame u L (undead w L)" by (simp add: frame_def)
qed (auto simp: waiting_def pending_def hands_def undead_eq)

lemma cleanup_ok:
  assumes "placed s L cur" and "w \<in> set (dv_table s)" and "dv_workers s w = Some k"
  shows "\<exists>s'. CleanupTaskContext s (Some w) None = Inr s' \<and> placed s' (undead w L) cur \<and> dv_table s' = dv_table s \<and>
    dv_workers s' = (dv_workers s)(w \<mapsto> k\<lparr>dk_marked_del := None\<rparr>) \<and> (\<forall>b. L b \<noteq> Some (LDead w) \<longrightarrow> dv_tasks s' b = dv_tasks s b)"
  using destroy_marked [OF assms] unfolding undead_def by blast

lemma cleanup_mark:
  "CleanupTaskContext s wc (Some t) = bindR (CleanupTaskContext s wc None) (\<lambda>s1. upd_dk s1 wc (\<lambda>k. k\<lparr>dk_marked_del := Some t\<rparr>))"
  by (simp add: CleanupTaskContext_def bindR_assoc)

lemma finish_ok:
  assumes p: "placed s L cur" and r: "runs_on L cur w t" "L t = Some (LRun w)" and pk: "picks s pick"
  shows "\<exists>r n s' L' cur'. finish_task mig pick s t = Some (Inr r) \<and> resume r = Inr (n, s') \<and> turn w L cur n s' L' cur' \<and> dv_table s' = dv_table s"
proof -
  let ?l = "LHand w TASK_ZOMBIE (Some w)" and ?L = "(undead w L)(t \<mapsto> LDead w)"
  from set_state_ok [where l' = ?l and st = TASK_ZOMBIE, OF p r(2)] obtain s1 c where
    1: "upd_tk s (Some t) (\<lambda>c. c\<lparr>t_state := TASK_ZOMBIE\<rparr>) = Inr s1" "placed s1 (L(t \<mapsto> ?l)) cur" "dv_table s1 = dv_table s"
      "dv_tasks s1 t = Some c" "t_state c = TASK_ZOMBIE" by (auto simp: plain_def woken_def)
  have tc: "t_worker_context c = Some w" "w \<in> set (dv_table s1)" using placed_task [OF 1(2), of t ?l] 1(4) by (auto simp: task_ok_def)
  obtain k where k: "dv_workers s1 w = Some k" "dk_wid k \<ge> 0" using placed_worker [OF 1(2) tc(2)] .
  let ?k = "k\<lparr>dk_marked_del := None\<rparr>"
  from cleanup_ok [OF 1(2) tc(2) k(1)] obtain s2 where
    2: "CleanupTaskContext s1 (Some w) None = Inr s2" "placed s2 (undead w (L(t \<mapsto> ?l))) cur" "dv_table s2 = dv_table s1"
      "dv_workers s2 = (dv_workers s1)(w \<mapsto> ?k)" "dv_tasks s2 t = dv_tasks s1 t" by auto
  let ?s = "s2\<lparr>dv_workers := (dv_workers s2)(w \<mapsto> ?k\<lparr>dk_marked_del := Some t, dk_num_tasks := dk_num_tasks ?k - 1\<rparr>)\<rparr>"
  have "placed ?s ((undead w (L(t \<mapsto> ?l)))(t \<mapsto> LDead w)) cur"
    by (rule mark_dead [OF 2(2)]) (simp_all add: undead_def 2(4))
  moreover have "(undead w (L(t \<mapsto> ?l)))(t \<mapsto> LDead w) = ?L" by (auto simp: undead_def)
  ultimately have p3: "placed ?s ?L cur" by simp
  have ex: "LpelWorkerSelfTaskExit s1 (Some t) = Inr ?s"
    using 1(4) tc(1) k 2(1,4) by (simp add: LpelWorkerSelfTaskExit_def cleanup_mark)
  have st: "TaskStop ?s t = Inr ()" by (rule task_stop_ok [OF p3, of t "LDead w"]) auto
  have r': "runs_on (undead w L) cur w t" using r(1) by (simp add: runs_on_def)
  have rl: "busy ?L w = {}" "frame w (undead w L) ?L" "moving ?L w = moving (undead w L) w" by (rule runs_on_leave [OF r']; simp)+
  from dispatch_ok [where mig = mig and pick = pick, OF p3, of t "LDead w" w] rl(1) r(1) pk 1(3) 2(3) obtain r' n s' L' cur' where
    3: "LpelWorkerDispatcher mig pick ?s (Some t) = Some (Inr r')" "resume r' = Inr (n, s')" "turn w ?L cur n s' L' cur'" "dv_table s' = dv_table s"
    by (auto simp: runs_on_def picks_def)
  have "undead w L t = Some (LRun w)" using r(2) by (simp add: undead_def)
  note ir = in_runs(2-4) [of "undead w L" t "LRun w", OF this]
  have "hands ?L = hands L" "waiting ?L = waiting L" "pending ?L = pending L" using ir by (auto simp: upd_runs)
  from turn_after [OF 3(3) _ this] rl(2,3) frame_trans [of w L "undead w L" ?L] have "turn w L cur n s' L' cur'" by simp
  moreover have "finish_task mig pick s t = Some (Inr r')" using 1(1) ex st 3(1) by (simp add: finish_task_def)
  ultimately show ?thesis using 3(2,4) by blast
qed

lemma exit_ok:
  assumes p: "placed s L cur" and r: "runs_on L cur w t" "L t = Some (LRun w)" and pk: "picks s pick" and "\<And>s d. destr s d = Inr s"
  shows "LpelTaskExit_decen destr mig pick s t = finish_task mig pick s t"
proof -
  obtain c where "dv_tasks s t = Some c" "task_ok (set (dv_table s)) (LRun w) c" using placed_task [OF p r(2)] .
  then show ?thesis using assms(5) by (simp add: LpelTaskExit_decen_def task_ok_def)
qed


section \<open>Wakeups and the loop of a worker\<close>

lemma frame_wakeup:
  assumes "L b = Some l" and "l = LRunWait v \<and> l' = LRunWoken v \<or> l = LParked v \<and> l' = LWaking v"
  shows "frame w L (L(b \<mapsto> l'))" "busy (L(b \<mapsto> l')) u = busy L u" "moving (L(b \<mapsto> l')) u = moving L u" "hands (L(b \<mapsto> l')) = hands L"
    "waiting (L(b \<mapsto> l')) = waiting L - {b}" "pending (L(b \<mapsto> l')) = pending L"
proof -
  note ir = in_runs [of L b l, OF assms(1)] in_places(5,6) [of L b l, OF assms(1)]
  show b: "busy (L(b \<mapsto> l')) u = busy L u" and m: "moving (L(b \<mapsto> l')) u = moving L u" for u
    using assms(2) ir by (auto simp: upd_runs upd_places)
  have "owned (L(b \<mapsto> l')) u = owned L u" for u using assms(2) ir by (auto simp: upd_places)
  then show "frame w L (L(b \<mapsto> l'))" using b m by (simp add: frame_def)
  show "hands (L(b \<mapsto> l')) = hands L" "waiting (L(b \<mapsto> l')) = waiting L - {b}" "pending (L(b \<mapsto> l')) = pending L"
    using assms(2) ir by (auto simp: upd_runs)
qed

text \<open>The effect of waking \<open>b\<close> from worker \<open>w\<close>, which goes on as before.\<close>

definition woke :: "addr \<Rightarrow> addr \<Rightarrow> places \<Rightarrow> places \<Rightarrow> bool" where
  "woke w b L L' \<longleftrightarrow> frame w L L' \<and> busy L' w = busy L w \<and> moving L' w = moving L w \<and> hands L' = hands L \<and>
     waiting L' = waiting L - {b} \<and> pending L' = pending L"

lemma unblock_local:
  assumes p: "placed s L cur" and b: "L b = Some (LParked w)" and pk: "picks s pick"
  shows "\<exists>s1 s' L'. upd_tk s (Some b) (\<lambda>c. c\<lparr>t_state := TASK_READY\<rparr>) = Inr s1 \<and> LpelWorkerMakeTaskReady mig pick s1 (Some b) = Inr s' \<and>
    placed s' L' cur \<and> dv_table s' = dv_table s \<and> woke w b L L'"
proof -
  from set_state_ok [where l' = "LHand w TASK_READY (Some w)" and st = TASK_READY, OF p b] obtain s1 where
    1: "upd_tk s (Some b) (\<lambda>c. c\<lparr>t_state := TASK_READY\<rparr>) = Inr s1" "placed s1 (L(b \<mapsto> LHand w TASK_READY (Some w))) cur"
      "dv_table s1 = dv_table s" by (auto simp: plain_def woken_def)
  from make_ready_ok [where mig = mig and pick = pick, OF 1(2), of b w] pk 1(3) obtain s' l' where
    2: "LpelWorkerMakeTaskReady mig pick s1 (Some b) = Inr s'" "placed s' (L(b \<mapsto> l')) cur" "dv_table s' = dv_table s1"
      "l' = LQueued w \<or> (\<exists>v. v \<noteq> w \<and> l' = LAssigned v)" by (auto simp: picks_def)
  note ir = in_runs [of L b "LParked w", OF b] in_places(5,6) [of L b "LParked w", OF b]
  have "frame w L (L(b \<mapsto> l'))" using 2(4) ir by (intro frame_upd [of L b "LParked w", OF b]) auto
  moreover have "busy (L(b \<mapsto> l')) w = busy L w" "moving (L(b \<mapsto> l')) w = moving L w" "hands (L(b \<mapsto> l')) = hands L"
    "waiting (L(b \<mapsto> l')) = waiting L - {b}" "pending (L(b \<mapsto> l')) = pending L"
    using 2(4) ir by (auto simp: upd_runs upd_places)
  ultimately have "woke w b L (L(b \<mapsto> l'))" by (simp add: woke_def)
  then show ?thesis using 1(1,3) 2(1-3) by (intro exI [of _ s1] exI [of _ s'] exI [of _ "L(b \<mapsto> l')"]) simp
qed

lemma unblock_ok:
  assumes p: "placed s L cur" and r: "runs_on L cur w t" and b: "b \<in> waiting L" "b \<noteq> t" and pk: "picks s pick"
  shows "\<exists>s' L'. LpelTaskUnblock_decen mig pick s (Some t) (Some b) = Inr s' \<and> placed s' L' cur \<and> dv_table s' = dv_table s \<and> woke w b L L'"
proof -
  obtain l where l: "L t = Some l" "l \<in> {LRun w, LRunWait w, LRunWoken w}" "home l = w" using runs_onD [OF r] by blast
  obtain tc where tc: "dv_tasks s t = Some tc" "task_ok (set (dv_table s)) l tc" using placed_task [OF p l(1)] .
  obtain v m where m: "L b = Some m" "m = LRunWait v \<or> m = LParked v" using b(1) by (auto simp: waiting_def)
  obtain bc where bc: "dv_tasks s b = Some bc" "task_ok (set (dv_table s)) m bc" using placed_task [OF p m(1)] .
  have wv: "t_worker_context tc = Some w" "t_worker_context bc = Some v" "v \<in> set (dv_table s)" using tc(2) bc(2) l(3) m(2) by (auto simp: task_ok_def)
  obtain k where k: "dv_workers s v = Some k" "dk_wid k \<ge> 0" using placed_worker [OF p wv(3)] .
  show ?thesis
  proof (cases "v = w")
    case True
    have "m = LParked w"
    proof (rule ccontr)
      assume "m \<noteq> LParked w"
      then have "b \<in> busy L w" using m True by (auto simp: busy_def)
      then show False using r b(2) by (simp add: runs_on_def)
    qed
    with unblock_local [where mig = mig, OF p _ pk] m(1) obtain s1 s' L' where
      1: "upd_tk s (Some b) (\<lambda>c. c\<lparr>t_state := TASK_READY\<rparr>) = Inr s1" "LpelWorkerMakeTaskReady mig pick s1 (Some b) = Inr s'"
        "placed s' L' cur" "dv_table s' = dv_table s" "woke w b L L'" by blast
    have "t_state bc = TASK_BLOCKED" using bc(2) \<open>m = LParked w\<close> by (simp add: task_ok_def)
    then have "LpelTaskUnblock_decen mig pick s (Some t) (Some b) = Inr s'"
      using tc(1) bc(1) wv k True 1(1,2) by (simp add: LpelTaskUnblock_decen_def LpelWorkerTaskWakeup_decen_def)
    then show ?thesis using 1(3-5) by blast
  next
    case False
    define l' where "l' = (if m = LRunWait v then LRunWoken v else LWaking v)"
    have ll: "m = LRunWait v \<and> l' = LRunWoken v \<or> m = LParked v \<and> l' = LWaking v" using m(2) by (auto simp: l'_def)
    from send_wakeup_ok [OF p m(1) ll] obtain s' where
      1: "SendWakeup s (Some v) (Some b) = Inr s'" "placed s' (L(b \<mapsto> l')) cur" "dv_table s' = dv_table s" by blast
    have "LpelTaskUnblock_decen mig pick s (Some t) (Some b) = Inr s'"
      using tc(1) bc(1) wv k False 1(1) by (simp add: LpelTaskUnblock_decen_def LpelWorkerTaskWakeup_decen_def)
    moreover have "woke w b L (L(b \<mapsto> l'))" using frame_wakeup [of L b m v l', OF m(1) ll] by (simp add: woke_def)
    ultimately show ?thesis using 1(2,3) by blast
  qed
qed

lemma sched_fetch_mbox: "sched_fetch s wc = Inr (t, s') \<Longrightarrow> mbox s' v = mbox s v"
  by (auto simp: sched_fetch_def bindR_eq_Inr upd_dk_def upd_def deref_def split: option.splits prod.splits if_splits)

lemma loop_begin_ok:
  assumes p: "placed s L cur" and w: "w \<in> set (dv_table s)" and b: "busy L w = {}" and pk: "picks s pick"
    and en: "queued L w \<noteq> {} \<or> mbox s w \<noteq> Some []"
  shows "\<exists>r n s' L' cur'. loop_begin mig pick s (Some w) = Some (Inr r) \<and> resume r = Inr (n, s') \<and> turn w L cur n s' L' cur' \<and>
    moving L' w = moving L w \<and> dv_table s' = dv_table s \<and> (queued L w \<noteq> {} \<longrightarrow> (\<exists>t. n = SwTask t \<and> t \<in> queued L w))"
proof -
  from sched_fetch_ok [OF p w] obtain n s1 where
    1: "sched_fetch s (Some w) = Inr (n, s1)" "dv_table s1 = dv_table s"
      "case n of None \<Rightarrow> queued L w = {} \<and> placed s1 L cur | Some a \<Rightarrow> L a = Some (LQueued w) \<and> placed s1 (L(a \<mapsto> LHand w TASK_READY (Some w))) cur"
    by blast
  have w1: "w \<in> set (dv_table s1)" using w 1(2) by simp
  show ?thesis
  proof (cases n)
    case (Some m)
    have m: "L m = Some (LQueued w)" "placed s1 (L(m \<mapsto> LHand w TASK_READY (Some w))) cur" using 1(3) Some by simp_all
    from set_current [where t = "Some m", OF m(2) w1] obtain s2 where
      2: "upd_dk s1 (Some w) (\<lambda>k. k\<lparr>dk_current_task := Some m\<rparr>) = Inr s2" "dv_table s2 = dv_table s1"
        "placed s2 (L(m \<mapsto> LHand w TASK_READY (Some w))) (cur(w \<mapsto> m))" by blast
    from turn_task [OF 2(3) m(1) b, of cur] obtain s3 L3 where
      3: "TaskStart_decen s2 m = Inr s3" "turn w L cur (SwTask m) s3 L3 (cur(w \<mapsto> m))" "dv_table s3 = dv_table s2" by auto
    moreover have "moving L3 w = moving L w" using 3(2) by (simp add: turn_def)
    moreover have "loop_begin mig pick s (Some w) = Some (Inr (SwTask m, s2))" using 1(1) Some 2(1) by (simp add: loop_begin_def)
    ultimately show ?thesis using 1(2) 2(2) m(1)
      by (intro exI [of _ "(SwTask m, s2)"] exI [of _ "SwTask m"] exI [of _ s3] exI [of _ L3] exI [of _ "cur(w \<mapsto> m)"]) (simp add: resume_def queued_def)
  next
    case None
    have p1: "placed s1 L cur" and q: "queued L w = {}" using 1(3) None by simp_all
    obtain k where "dv_workers s w = Some k" using placed_worker [OF p w] by blast
    then obtain x xs where "mbox s1 w = Some (x # xs)" using sched_fetch_mbox [OF 1(1)] en q by (cases "dk_mailbox k") auto
    from recv_process_ok [where mig = mig, OF p1 w1 _ _ this, of pick] b pk 1(2) obtain s2 L2 where
      2: "recv_process mig pick s1 (Some w) = Inr s2" "placed s2 L2 cur" "dv_table s2 = dv_table s1" "fetched w L L2"
      by (auto simp: idle_busy picks_def)
    have b2: "busy L2 w = {}" using b fetched_same(2) [OF 2(4)] by simp
    from fetch_messages_ok [where mig = mig and pick = pick and w = w, OF 2(2)] b2 w1 pk 1(2) 2(3) obtain s3 L3 where
      3: "FetchAllMessages mig pick s2 (Some w) = Some (Inr s3)" "placed s3 L3 cur" "dv_table s3 = dv_table s2" "fetched w L2 L3"
      by (auto simp: idle_busy picks_def)
    have f: "fetched w L L3" using fetched_trans [OF 2(4) 3(4)] .
    have "turn w L cur SwWorker s3 L3 cur" using 3(2) fetched_same [OF f] b by (simp add: turn_def)
    moreover have "loop_begin mig pick s (Some w) = Some (Inr (SwWorker, s3))"
      using 1(1) None 2(1) 3(1) by (simp add: loop_begin_def WaitForNewMessage_def)
    ultimately show ?thesis using 1(2) 2(3) 3(3) q fetched_same(3) [OF f]
      by (intro exI [of _ "(SwWorker, s3)"] exI [of _ SwWorker] exI [of _ s3] exI [of _ L3] exI [of _ cur]) (simp add: resume_def)
  qed
qed


lemma send_upd_commute:
  assumes "dv_workers s w = Some k" "dv_workers s v = Some kv"
    and "\<And>k ms. f (k\<lparr>dk_mailbox := ms\<rparr>) = (f k)\<lparr>dk_mailbox := ms\<rparr>" "\<And>k. dk_mailbox (f k) = dk_mailbox k"
  shows "bindR (SendAssign s (Some v) t) (\<lambda>s1. upd_dk s1 (Some w) f) = bindR (upd_dk s (Some w) f) (\<lambda>s1. SendAssign s1 (Some v) t)"
  using assms by (cases "v = w") (auto simp: SendAssign_def send_to_def fun_upd_twist)

lemma migrate_out_ok:
  assumes p: "placed s L cur" and w: "w \<in> set (dv_table s)"
  shows "\<exists>s' L'. migrate_out s (Some w) = Inr s' \<and> placed s' L' cur \<and> dv_table s' = dv_table s \<and> frame w L L' \<and> moving L' w = {} \<and>
    busy L' w = busy L w \<and> hands L' = hands L \<and> waiting L' = waiting L \<and> pending L' = pending L"
proof -
  obtain k where k: "dv_workers s w = Some k" "worker_ok (dv_tasks s) L cur w k" using placed_worker [OF p w] .
  have mv: "set_option (dk_migrated k) = moving L w" using worker_okD(5) [OF k(2)] .
  show ?thesis
  proof (cases "dk_migrated k")
    case None
    then have "migrate_out s (Some w) = Inr s" "moving L w = {}" using k(1) mv by (simp_all add: migrate_out_def)
    then show ?thesis using p by (intro exI [of _ s] exI [of _ L]) simp
  next
    case (Some a)
    let ?f = "\<lambda>k. k\<lparr>dk_num_tasks := dk_num_tasks k - 1, dk_migrated := None\<rparr>"
    let ?s = "s\<lparr>dv_workers := (dv_workers s)(w \<mapsto> ?f k)\<rparr>"
    from take_migrated [OF p w k(1) Some] obtain v where v: "L a = Some (LMoving w v)" "placed ?s (L(a \<mapsto> LHand v TASK_READY None)) cur" by blast
    obtain c where c: "dv_tasks s a = Some c" "task_ok (set (dv_table s)) (LMoving w v) c" using placed_task [OF p v(1)] .
    then have cv: "t_worker_context c = Some v" "v \<in> set (dv_table s)" by (auto simp: task_ok_def)
    obtain kv where kv: "dv_workers s v = Some kv" using placed_worker [OF p cv(2)] by blast
    from send_assign_ok [where w = v, OF v(2), of a "LHand v TASK_READY None"] obtain s' where
      s': "SendAssign ?s (Some v) (Some a) = Inr s'" "placed s' (L(a \<mapsto> LAssigned v)) cur" "dv_table s' = dv_table s" by auto
    have "migrate_out s (Some w) = bindR (SendAssign s (Some v) (Some a)) (\<lambda>s1. upd_dk s1 (Some w) ?f)"
      using k(1) Some c(1) cv(1) by (simp add: migrate_out_def)
    also have "\<dots> = bindR (upd_dk s (Some w) ?f) (\<lambda>s1. SendAssign s1 (Some v) (Some a))" by (rule send_upd_commute [OF k(1) kv]) simp_all
    finally have mo: "migrate_out s (Some w) = Inr s'" using k(1) s'(1) by simp
    note ir = in_runs [of L a "LMoving w v", OF v(1)] in_places(5,6) [of L a "LMoving w v", OF v(1)]
    have "frame w L (L(a \<mapsto> LAssigned v))" by (rule frame_upd [of L a "LMoving w v", OF v(1)]) (use ir in auto)
    moreover have "moving (L(a \<mapsto> LAssigned v)) w = {}" using mv Some by (auto simp: upd_places)
    moreover have "busy (L(a \<mapsto> LAssigned v)) w = busy L w" "hands (L(a \<mapsto> LAssigned v)) = hands L" "waiting (L(a \<mapsto> LAssigned v)) = waiting L"
      "pending (L(a \<mapsto> LAssigned v)) = pending L" using ir by (auto simp: upd_runs)
    ultimately show ?thesis using mo s'(2,3) by (intro exI [of _ s'] exI [of _ "L(a \<mapsto> LAssigned v)"]) simp
  qed
qed

lemma loop_back_ok:
  assumes p: "placed s L cur" and w: "w \<in> set (dv_table s)" and b: "busy L w = {}" and pk: "picks s pick"
  shows "\<exists>s' L'. loop_back mig pick s (Some w) = Some (Inr s') \<and> turn w L cur SwWorker s' L' cur \<and> moving L' w = {} \<and> dv_table s' = dv_table s"
proof -
  from migrate_out_ok [OF p w] obtain s1 L1 where
    1: "migrate_out s (Some w) = Inr s1" "placed s1 L1 cur" "dv_table s1 = dv_table s" "frame w L L1" "moving L1 w = {}" "busy L1 w = busy L w"
      "hands L1 = hands L" "waiting L1 = waiting L" "pending L1 = pending L" by blast
  have w1: "w \<in> set (dv_table s1)" using w 1(3) by simp
  obtain k where k: "dv_workers s1 w = Some k" using placed_worker [OF 1(2) w1] by blast
  from cleanup_ok [OF 1(2) w1 k] obtain s2 where
    2: "CleanupTaskContext s1 (Some w) None = Inr s2" "placed s2 (undead w L1) cur" "dv_table s2 = dv_table s1" by blast
  from fetch_messages_ok [where mig = mig and pick = pick and w = w, OF 2(2)] b 1(3,6) 2(3) w pk obtain s3 L3 where
    3: "FetchAllMessages mig pick s2 (Some w) = Some (Inr s3)" "placed s3 L3 cur" "dv_table s3 = dv_table s2" "fetched w (undead w L1) L3"
    by (auto simp: idle_busy picks_def)
  have "frame w L L3" using frame_trans [OF 1(4) frame_trans [OF undead_same(7) fetched_same(1) [OF 3(4)]]] .
  then have "turn w L cur SwWorker s3 L3 cur" using 3(2) fetched_same [OF 3(4)] 1(6-9) b by (simp add: turn_def)
  moreover have "loop_back mig pick s (Some w) = Some (Inr s3)" using 1(1) 2(1) 3(1) by (simp add: loop_back_def)
  ultimately show ?thesis using 1(3,5) 2(3) 3(3) fetched_same(3) [OF 3(4)] by (intro exI [of _ s3] exI [of _ L3]) simp
qed

end
