(* ===== verification/Decen_System.thy ===== *)
theory Decen_System
  imports Decen_Runs
begin

text \<open>
  All workers of the decentralised scheduler and their tasks as one transition system. An event is a round
  of a worker loop up to the next switch of the machine context, the rest of a round after the return from a
  task, or a call of a task operation by the task that runs on a worker. Workers share only mailboxes and the
  task records handed over in messages, so a whole event is taken as one step; with the migration mechanism
  \<open>LPEL_MIG_WAIT_PROP\<close> this is too coarse (last section), and the properties below exclude it where that matters. All tasks are mapped
  to workers: wrappers and requests of the \<open>spmdext\<close> module are not events of the system. The client of the task
  operations announces that it is going to block (\<open>DWait\<close>, as the stream functions do when a semaphore falls
  below zero), wakes only tasks that have announced it, and wakes each of them once.
\<close>

section \<open>The transition system\<close>

datatype wctl = AtLoop | InTask | Back | Ended

record drun =
  dr_sys :: decen_sys
  dr_seq :: "32 word"
  dr_ctl :: "addr \<Rightarrow> wctl"
  dr_wait :: "addr \<Rightarrow> bool"
  dr_pend :: "addr \<Rightarrow> bool"

datatype devent = DLoop addr | DBack addr | DYield addr | DWait addr | DBlock addr | DReturn addr | DExit addr | DMigrate addr
  | DUnblock addr addr | DSpawn int addr lpel_task_t ptr ptr int | DTerm

definition self :: "drun \<Rightarrow> addr \<Rightarrow> ptr" where
  "self r w = (case dv_workers (dr_sys r) w of None \<Rightarrow> None | Some k \<Rightarrow> dk_current_task k)"

definition has_ready :: "decen_sys \<Rightarrow> addr \<Rightarrow> bool" where
  "has_ready s w = (case sched_fetch s (Some w) of Inr (Some t, s') \<Rightarrow> True | _ \<Rightarrow> False)"

definition has_mail :: "decen_sys \<Rightarrow> addr \<Rightarrow> bool" where
  "has_mail s w = (case dv_workers s w of None \<Rightarrow> False | Some k \<Rightarrow> dk_mailbox k \<noteq> [])"

definition running :: "drun \<Rightarrow> addr \<Rightarrow> bool \<Rightarrow> bool" where
  "running r w p \<longleftrightarrow> w \<in> set (dv_table (dr_sys r)) \<and> dr_ctl r w = InTask \<and> (case self r w of None \<Rightarrow> True | Some t \<Rightarrow> dr_pend r t = p)"

text \<open>Fewer tasks than the counter of a worker can count.\<close>

definition few_tasks :: "decen_sys \<Rightarrow> bool" where
  "few_tasks s \<longleftrightarrow> card (dom (dv_tasks s)) + 2 < 2 ^ 32"

declare few_tasks_def [code del]

fun denabled :: "devent \<Rightarrow> drun \<Rightarrow> bool" where
  "denabled (DLoop w) r = (w \<in> set (dv_table (dr_sys r)) \<and> dr_ctl r w = AtLoop \<and> (has_ready (dr_sys r) w \<or> has_mail (dr_sys r) w))"
| "denabled (DBack w) r = (w \<in> set (dv_table (dr_sys r)) \<and> dr_ctl r w = Back)"
| "denabled (DYield w) r = running r w False"
| "denabled (DWait w) r = running r w False"
| "denabled (DBlock w) r = running r w True"
| "denabled (DReturn w) r = running r w False"
| "denabled (DExit w) r = running r w False"
| "denabled (DMigrate w) r = running r w False"
| "denabled (DUnblock w b) r = (running r w False \<and> dr_wait r b)"
| "denabled (DSpawn i a junk func inarg sz) r = (0 \<le> i \<and> i < int (length (dv_table (dr_sys r))) \<and> dv_tasks (dr_sys r) a = None \<and>
     few_tasks (dr_sys r) \<and> (sz \<le> 0 \<or> sz \<ge> 4096))"
| "denabled DTerm r = True"

definition end_round :: "drun \<Rightarrow> addr \<Rightarrow> decen_sys \<Rightarrow> drun run" where
  "end_round r w s = bindO (Some (deref (dv_workers s) (Some w))) (\<lambda>k.
     Some (Inr (r\<lparr>dr_sys := s, dr_ctl := (dr_ctl r)(w := (if loop_ends k then Ended else AtLoop))\<rparr>)))"

definition switched :: "drun \<Rightarrow> addr \<Rightarrow> sw \<times> decen_sys \<Rightarrow> drun run" where
  "switched r w x = (case x of (n, s) \<Rightarrow>
     Some (Inr (r\<lparr>dr_sys := s, dr_ctl := (dr_ctl r)(w := (case n of SwTask _ \<Rightarrow> InTask | SwWorker \<Rightarrow> Back))\<rparr>)))"

definition by_self :: "drun \<Rightarrow> addr \<Rightarrow> (addr \<Rightarrow> drun run) \<Rightarrow> drun run" where
  "by_self r w f = bindO (Some (LpelWorkerCurrentTask_decen (dr_sys r) (Some w)))
     (\<lambda>t. case t of None \<Rightarrow> Some (Inl NullDeref) | Some a \<Rightarrow> f a)"

fun dexec :: "bool \<Rightarrow> bool \<Rightarrow> (ptr \<Rightarrow> int) \<Rightarrow> devent \<Rightarrow> drun \<Rightarrow> drun run" where
  "dexec mig rnd pick (DLoop w) r =
     bindO (loop_begin mig pick (dr_sys r) (Some w)) (\<lambda>x. bindO (Some (resume x)) (\<lambda>(n, s).
       case n of SwTask t \<Rightarrow> switched r w (n, s) | SwWorker \<Rightarrow> end_round r w s))"
| "dexec mig rnd pick (DBack w) r = bindO (loop_back mig pick (dr_sys r) (Some w)) (end_round r w)"
| "dexec mig rnd pick (DYield w) r = by_self r w (\<lambda>t.
     bindO (LpelTaskYield_decen mig pick (dr_sys r) t) (\<lambda>x. bindO (Some (resume x)) (switched r w)))"
| "dexec mig rnd pick (DWait w) r = by_self r w (\<lambda>t. Some (Inr (r\<lparr>dr_wait := (dr_wait r)(t := True), dr_pend := (dr_pend r)(t := True)\<rparr>)))"
| "dexec mig rnd pick (DBlock w) r = by_self r w (\<lambda>t.
     bindO (LpelTaskBlockStream_decen mig pick (dr_sys r) t) (\<lambda>x. bindO (Some (resume x)) (switched (r\<lparr>dr_pend := (dr_pend r)(t := False)\<rparr>) w)))"
| "dexec mig rnd pick (DReturn w) r = by_self r w (\<lambda>t.
     bindO (finish_task mig pick (dr_sys r) t) (\<lambda>x. bindO (Some (resume x)) (switched r w)))"
| "dexec mig rnd pick (DExit w) r = by_self r w (\<lambda>t.
     bindO (LpelTaskExit_decen (\<lambda>s d. Inr s) mig pick (dr_sys r) t) (\<lambda>x. bindO (Some (resume x)) (switched r w)))"
| "dexec mig rnd pick (DMigrate w) r = by_self r w (\<lambda>t.
     bindO (Some (LpelTaskCheckMigrate_decen rnd pick (dr_sys r) t)) (switched r w))"
| "dexec mig rnd pick (DUnblock w b) r = by_self r w (\<lambda>t.
     bindO (Some (LpelTaskUnblock_decen mig pick (dr_sys r) (Some t) (Some b))) (\<lambda>s. Some (Inr (r\<lparr>dr_sys := s, dr_wait := (dr_wait r)(b := False)\<rparr>))))"
| "dexec mig rnd pick (DSpawn i a junk func inarg sz) r =
     bindO (Some (get_worker (dr_sys r) i)) (\<lambda>wc.
     bindO (Some (LpelTaskCreate_decen (dr_sys r) (dr_seq r) (Some a) wc junk func inarg sz)) (\<lambda>(s, seq).
     bindO (Some (LpelTaskStart_decen s (Some a))) (\<lambda>s'. Some (Inr (r\<lparr>dr_sys := s', dr_seq := seq\<rparr>)))))"
| "dexec mig rnd pick DTerm r = bindO (Some (LpelWorkersTerminate_decen (dr_sys r))) (\<lambda>s. Some (Inr (r\<lparr>dr_sys := s\<rparr>)))"

text \<open>The start: \<open>LpelWorkersInit\<close>, and every thread before its loop.\<close>

fun start_threads :: "decen_sys \<Rightarrow> addr list \<Rightarrow> decen_sys res" where
  "start_threads s [] = Inr s"
| "start_threads s (w # ws) = bindR (thread_start s (Some w)) (\<lambda>s1. start_threads s1 ws)"

definition dstart :: "spmdreq_t \<Rightarrow> decen_workerctx_t \<Rightarrow> ptr list \<Rightarrow> int \<Rightarrow> drun res" where
  "dstart rjunk junk news n =
     bindR (LpelWorkersInit_decen rjunk junk news (\<lparr>dv_tasks = (\<lambda>_. None), dv_workers = (\<lambda>_. None), dv_table = []\<rparr>, spmd_static) n) (\<lambda>(s, S).
     bindR (start_threads s (dv_table s)) (\<lambda>s1.
       Inr \<lparr>dr_sys = s1, dr_seq = 0, dr_ctl = (\<lambda>_. AtLoop), dr_wait = (\<lambda>_. False), dr_pend = (\<lambda>_. False)\<rparr>))"

inductive dreach :: "bool \<Rightarrow> bool \<Rightarrow> drun \<Rightarrow> bool" for mig rnd where
  dreach_start: "dstart rjunk junk news n = Inr r \<Longrightarrow> dreach mig rnd r"
| dreach_step: "dreach mig rnd r \<Longrightarrow> denabled ev r \<Longrightarrow> picks (dr_sys r) pick \<Longrightarrow> dexec mig rnd pick ev r = Some (Inr r') \<Longrightarrow> dreach mig rnd r'"

section \<open>The invariant\<close>

definition wctl_ok :: "wctl \<Rightarrow> places \<Rightarrow> (addr \<Rightarrow> ptr) \<Rightarrow> addr \<Rightarrow> bool" where
  "wctl_ok c L cur w = (case c of
      InTask \<Rightarrow> (\<exists>t. runs_on L cur w t) \<and> moving L w = {}
    | AtLoop \<Rightarrow> busy L w = {} \<and> moving L w = {}
    | Back \<Rightarrow> busy L w = {}
    | Ended \<Rightarrow> busy L w = {} \<and> moving L w = {} \<and> owned L w = {})"

definition dinv :: "drun \<Rightarrow> places \<Rightarrow> (addr \<Rightarrow> ptr) \<Rightarrow> bool" where
  "dinv r L cur \<longleftrightarrow> placed (dr_sys r) L cur \<and> hands L = {} \<and> waiting L = {a. dr_wait r a} \<and> pending L = {a. dr_pend r a} \<and>
     (\<forall>w \<in> set (dv_table (dr_sys r)). wctl_ok (dr_ctl r w) L cur w) \<and> (\<forall>w. w \<notin> set (dv_table (dr_sys r)) \<longrightarrow> moving L w = {})"

lemma wctl_ok_frame:
  assumes "wctl_ok c L cur v" and "frame w L L'" "v \<noteq> w" "cur' v = cur v"
  shows "wctl_ok c L' cur' v"
  using assms by (auto simp: wctl_ok_def frame_def runs_on_def split: wctl.splits)

lemma dinv_step:
  assumes d: "dinv r L cur" and p: "placed s' L' cur'" "dv_table s' = dv_table (dr_sys r)" and f: "frame w L L'" "\<And>v. v \<noteq> w \<Longrightarrow> cur' v = cur v"
    and sets: "hands L' = {}" "waiting L' = {a. dr_wait r' a}" "pending L' = {a. dr_pend r' a}"
    and w: "w \<in> set (dv_table (dr_sys r))" and c: "wctl_ok (dr_ctl r' w) L' cur' w" and r': "dr_sys r' = s'" "\<And>v. v \<noteq> w \<Longrightarrow> dr_ctl r' v = dr_ctl r v"
  shows "dinv r' L' cur'"
proof -
  have "wctl_ok (dr_ctl r' v) L' cur' v" if v: "v \<in> set (dv_table s')" for v
  proof (cases "v = w")
    case True
    then show ?thesis using c v by simp
  next
    case False
    have "wctl_ok (dr_ctl r v) L cur v" using d v p(2) by (simp add: dinv_def)
    from wctl_ok_frame [where cur' = cur', OF this f(1) False f(2) [OF False]] show ?thesis using r'(2) [OF False] by simp
  qed
  moreover have "moving L' v = {}" if "v \<notin> set (dv_table s')" for v
    using that d f(1) w p(2) by (cases "v = w") (simp_all add: dinv_def frame_def)
  ultimately show ?thesis using p sets r'(1) by (simp add: dinv_def)
qed

lemma runningD:
  assumes d: "dinv r L cur" and "running r w p"
  obtains t where "runs_on L cur w t" "moving L w = {}" "w \<in> set (dv_table (dr_sys r))" "self r w = Some t" "dr_pend r t = p"
    "LpelWorkerCurrentTask_decen (dr_sys r) (Some w) = Inr (Some t)" "\<not> p \<Longrightarrow> L t = Some (LRun w)" "p \<Longrightarrow> t \<in> pending L"
proof -
  have pl: "placed (dr_sys r) L cur" and w: "w \<in> set (dv_table (dr_sys r))" and "wctl_ok InTask L cur w"
    using assms by (auto simp: dinv_def running_def)
  then obtain t where t: "runs_on L cur w t" "moving L w = {}" by (auto simp: wctl_ok_def)
  obtain k where k: "dv_workers (dr_sys r) w = Some k" "worker_ok (dv_tasks (dr_sys r)) L cur w k" using placed_worker [OF pl w] .
  have ct: "dk_current_task k = Some t" using worker_okD(1) [OF k(2)] t(1) by (simp add: runs_on_def)
  then have sf: "self r w = Some t" using k(1) by (simp add: self_def)
  then have pd: "dr_pend r t = p" using assms(2) by (simp add: running_def)
  then have pd': "t \<in> pending L \<longleftrightarrow> p" using d by (simp add: dinv_def)
  obtain l where l: "L t = Some l" "l \<in> {LRun w, LRunWait w, LRunWoken w}" using runs_onD [OF t(1)] by blast
  have "\<not> p \<Longrightarrow> L t = Some (LRun w)" using l pd' in_runs(3) [of L t l, OF l(1)] by auto
  moreover have "LpelWorkerCurrentTask_decen (dr_sys r) (Some w) = Inr (Some t)" using k(1) ct by (simp add: LpelWorkerCurrentTask_decen_def)
  ultimately show ?thesis using that t w sf pd pd' by blast
qed

section \<open>Every event keeps the invariant\<close>

lemma turn_switched:
  assumes d: "dinv r L cur" and tn: "turn w L0 cur n s' L' cur'" "dv_table s' = dv_table (dr_sys r)"
    and L0: "frame w L L0" "hands L0 = {}" "waiting L0 = {a. dr_wait r0 a}" "pending L0 = {a. dr_pend r0 a}" "moving L0 w = {}" and r0: "dr_ctl r0 = dr_ctl r"
    and w: "w \<in> set (dv_table (dr_sys r))"
  shows "\<exists>r'. switched r0 w (n, s') = Some (Inr r') \<and> dinv r' L' cur'"
proof -
  let ?c = "case n of SwTask _ \<Rightarrow> InTask | SwWorker \<Rightarrow> Back"
  let ?r = "r0\<lparr>dr_sys := s', dr_ctl := (dr_ctl r0)(w := ?c)\<rparr>"
  have "dinv ?r L' cur'"
  proof (rule dinv_step [where w = w, OF d])
    show "placed s' L' cur'" "frame w L L'" "hands L' = {}" "waiting L' = {a. dr_wait ?r a}" "pending L' = {a. dr_pend ?r a}"
      using tn(1) L0 frame_trans [of w L L0 L'] by (simp_all add: turn_def)
    show "wctl_ok (dr_ctl ?r w) L' cur' w" using tn(1) L0(5) by (auto simp: turn_def wctl_ok_def runs_on_def split: sw.splits)
  qed (use tn r0 w in \<open>auto simp: turn_def\<close>)
  then show ?thesis by (simp add: switched_def)
qed

lemma turn_end_round:
  assumes d: "dinv r L cur" and tn: "turn w L cur SwWorker s' L' cur'" "dv_table s' = dv_table (dr_sys r)" and m: "moving L' w = {}"
    and w: "w \<in> set (dv_table (dr_sys r))"
  shows "\<exists>r'. end_round r w s' = Some (Inr r') \<and> dinv r' L' cur'"
proof -
  have p: "placed s' L' cur'" and b: "busy L' w = {}" using tn(1) by (simp_all add: turn_def)
  obtain k where k: "dv_workers s' w = Some k" "worker_ok (dv_tasks s') L' cur' w k" using placed_worker [OF p] w tn(2) by metis
  let ?r = "r\<lparr>dr_sys := s', dr_ctl := (dr_ctl r)(w := (if loop_ends k then Ended else AtLoop))\<rparr>"
  have "owned L' w = {}" if "loop_ends k"
  proof -
    have "dk_num_tasks k = 0" using that by (simp add: loop_ends_def)
    then show ?thesis using worker_okD(6) [OF k(2)] owned_bound(1) [OF p, of w] by simp
  qed
  then have "wctl_ok (dr_ctl ?r w) L' cur' w" using b m by (simp add: wctl_ok_def)
  then have "dinv ?r L' cur'" using d tn w by (intro dinv_step [where w = w, OF d p]) (auto simp: turn_def dinv_def)
  then show ?thesis using k(1) by (simp add: end_round_def)
qed

text \<open>What the invariant gives for a task that calls an operation without waiting.\<close>

lemma dinv_sets: "dinv r L cur \<Longrightarrow> placed (dr_sys r) L cur \<and> frame w L L \<and> hands L = {} \<and> waiting L = {a. dr_wait r a} \<and> pending L = {a. dr_pend r a}"
  by (simp add: dinv_def)

lemma by_self_Some: "LpelWorkerCurrentTask_decen (dr_sys r) (Some w) = Inr (Some t) \<Longrightarrow> by_self r w f = f t"
  by (simp add: by_self_def)

lemma step_switch:
  assumes d: "dinv r L cur" and m: "moving L w = {}" and w: "w \<in> set (dv_table (dr_sys r))"
    and op: "\<exists>x n s' L' cur'. op = Some (Inr x) \<and> resume x = Inr (n, s') \<and> turn w L cur n s' L' cur' \<and> dv_table s' = dv_table (dr_sys r)"
  shows "\<exists>r' L' cur'. bindO op (\<lambda>x. bindO (Some (resume x)) (switched r w)) = Some (Inr r') \<and> dinv r' L' cur'"
proof -
  from op obtain x n s' L' cur' where o: "op = Some (Inr x)" "resume x = Inr (n, s')" "turn w L cur n s' L' cur'" "dv_table s' = dv_table (dr_sys r)" by blast
  from turn_switched [OF d o(3,4)] dinv_sets [OF d, of w] m w obtain r' where "switched r w (n, s') = Some (Inr r')" "dinv r' L' cur'" by blast
  moreover have "bindO op (\<lambda>x. bindO (Some (resume x)) (switched r w)) = switched r w (n, s')" by (simp add: o(1,2))
  ultimately show ?thesis by (intro exI [of _ r'] exI [of _ L'] exI [of _ cur']) simp
qed

lemma dinv_yield:
  assumes d: "dinv r L cur" and "denabled (DYield w) r" and pk: "picks (dr_sys r) pick"
  shows "\<exists>r' L' cur'. dexec mig rnd pick (DYield w) r = Some (Inr r') \<and> dinv r' L' cur'"
proof -
  have "running r w False" using assms(2) by simp
  from runningD [OF d this] obtain t where t: "runs_on L cur w t" "moving L w = {}" "L t = Some (LRun w)"
    "LpelWorkerCurrentTask_decen (dr_sys r) (Some w) = Inr (Some t)" "w \<in> set (dv_table (dr_sys r))" by metis
  from step_switch [OF d t(2,5) yield_ok [where mig = mig, OF _ t(1,3,2) pk]] dinv_sets [OF d] show ?thesis using t(4) by (simp add: by_self_Some)
qed

lemma dinv_return:
  assumes d: "dinv r L cur" and "running r w False" and pk: "picks (dr_sys r) pick"
  shows "\<exists>r' L' cur'. dexec mig rnd pick (DReturn w) r = Some (Inr r') \<and> dinv r' L' cur'"
    and "\<exists>r' L' cur'. dexec mig rnd pick (DExit w) r = Some (Inr r') \<and> dinv r' L' cur'"
proof -
  from runningD [OF assms(1,2)] obtain t where t: "runs_on L cur w t" "moving L w = {}" "L t = Some (LRun w)"
    "LpelWorkerCurrentTask_decen (dr_sys r) (Some w) = Inr (Some t)" "w \<in> set (dv_table (dr_sys r))" by metis
  have p: "placed (dr_sys r) L cur" using dinv_sets [OF d] by simp
  note ss = step_switch [OF d t(2,5) finish_ok [where mig = mig, OF p t(1,3) pk]]
  show "\<exists>r' L' cur'. dexec mig rnd pick (DReturn w) r = Some (Inr r') \<and> dinv r' L' cur'" using ss t(4) by (simp add: by_self_Some)
  have "LpelTaskExit_decen (\<lambda>s d. Inr s) mig pick (dr_sys r) t = finish_task mig pick (dr_sys r) t" by (rule exit_ok [OF p t(1,3) pk]) simp
  then show "\<exists>r' L' cur'. dexec mig rnd pick (DExit w) r = Some (Inr r') \<and> dinv r' L' cur'" using ss t(4) by (simp add: by_self_Some)
qed

lemma dinv_block:
  assumes d: "dinv r L cur" and "denabled (DBlock w) r" and pk: "picks (dr_sys r) pick"
  shows "\<exists>r' L' cur'. dexec mig rnd pick (DBlock w) r = Some (Inr r') \<and> dinv r' L' cur'"
proof -
  have "running r w True" using assms(2) by simp
  from runningD [OF d this] obtain t where t: "runs_on L cur w t" "moving L w = {}" "t \<in> pending L"
    "LpelWorkerCurrentTask_decen (dr_sys r) (Some w) = Inr (Some t)" "w \<in> set (dv_table (dr_sys r))" by metis
  have p: "placed (dr_sys r) L cur" using dinv_sets [OF d] by simp
  from block_ok [where mig = mig, OF p t(1,3) pk] obtain x n s' L' cur' L1 where
    o: "LpelTaskBlockStream_decen mig pick (dr_sys r) t = Some (Inr x)" "resume x = Inr (n, s')" "dv_table s' = dv_table (dr_sys r)"
      "turn w L1 cur n s' L' cur'" "frame w L L1" "hands L1 = hands L" "waiting L1 = waiting L" "pending L1 = pending L - {t}" "moving L1 w = moving L w"
    by (elim exE conjE) (rule that)
  let ?r = "r\<lparr>dr_pend := (dr_pend r)(t := False)\<rparr>"
  have "\<exists>r'. switched ?r w (n, s') = Some (Inr r') \<and> dinv r' L' cur'"
    by (rule turn_switched [OF d o(4,3,5)]) (use o(6-9) t(2,5) dinv_sets [OF d] in auto)
  then obtain r' where r': "switched ?r w (n, s') = Some (Inr r')" "dinv r' L' cur'" by blast
  have "dexec mig rnd pick (DBlock w) r = switched ?r w (n, s')" by (simp add: by_self_Some [OF t(4)] o(1,2))
  then show ?thesis using r' by (intro exI [of _ r'] exI [of _ L'] exI [of _ cur']) simp
qed

lemma dinv_migrate:
  assumes d: "dinv r L cur" and "denabled (DMigrate w) r" and pk: "picks (dr_sys r) pick"
  shows "\<exists>r' L' cur'. dexec mig rnd pick (DMigrate w) r = Some (Inr r') \<and> dinv r' L' cur'"
proof -
  have "running r w False" using assms(2) by simp
  from runningD [OF d this] obtain t where t: "runs_on L cur w t" "moving L w = {}" "L t = Some (LRun w)"
    "LpelWorkerCurrentTask_decen (dr_sys r) (Some w) = Inr (Some t)" "w \<in> set (dv_table (dr_sys r))" by metis
  have p: "placed (dr_sys r) L cur" using dinv_sets [OF d] by simp
  from check_migrate_ok [where rnd = rnd, OF p t(1,3,2) pk] obtain n s' L' cur' where
    o: "LpelTaskCheckMigrate_decen rnd pick (dr_sys r) t = Inr (n, s')" "turn w L cur n s' L' cur'" "dv_table s' = dv_table (dr_sys r)" by blast
  from turn_switched [OF d o(2,3)] dinv_sets [OF d, of w] t(2,5) obtain r' where r': "switched r w (n, s') = Some (Inr r')" "dinv r' L' cur'" by blast
  have "dexec mig rnd pick (DMigrate w) r = switched r w (n, s')" by (simp add: by_self_Some [OF t(4)] o(1))
  then show ?thesis using r' by (intro exI [of _ r'] exI [of _ L'] exI [of _ cur']) simp
qed

lemma dinv_wait:
  assumes d: "dinv r L cur" and "denabled (DWait w) r"
  shows "\<exists>r' L' cur'. dexec mig rnd pick (DWait w) r = Some (Inr r') \<and> dinv r' L' cur'"
proof -
  have "running r w False" using assms(2) by simp
  from runningD [OF d this] obtain t where t: "runs_on L cur w t" "moving L w = {}" "L t = Some (LRun w)"
    "LpelWorkerCurrentTask_decen (dr_sys r) (Some w) = Inr (Some t)" "w \<in> set (dv_table (dr_sys r))" by metis
  have p: "placed (dr_sys r) L cur" using dinv_sets [OF d] by simp
  obtain c where c: "dv_tasks (dr_sys r) t = Some c" "task_ok (set (dv_table (dr_sys r))) (LRun w) c" using placed_task [OF p t(3)] .
  let ?L = "L(t \<mapsto> LRunWait w)" and ?r = "r\<lparr>dr_wait := (dr_wait r)(t := True), dr_pend := (dr_pend r)(t := True)\<rparr>"
  have "placed (dr_sys r\<lparr>dv_tasks := (dv_tasks (dr_sys r))(t \<mapsto> c)\<rparr>) ?L cur"
    by (rule placed_relabel [where l = "LRun w", OF p t(3)]) (use c(2) in \<open>auto simp: plain_def woken_def task_ok_def\<close>)
  then have p': "placed (dr_sys r) ?L cur" using c(1) by (simp add: fun_upd_idem)
  have ctl: "dr_ctl r w = InTask" using assms(2) by (simp add: running_def)
  have "dinv ?r ?L cur"
  proof (rule dinv_step [where w = w, OF d p'])
    show "frame w L ?L" using t(3) by (intro frame_upd [of L t "LRun w"]) (auto simp: busy_def)
    have "runs_on ?L cur w t" "moving ?L w = {}" using t(1,2) by (auto simp: runs_on_def upd_runs upd_places)
    then show "wctl_ok (dr_ctl ?r w) ?L cur w" using ctl by (auto simp: wctl_ok_def)
  qed (use dinv_sets [OF d] t(5) in \<open>auto simp: upd_runs\<close>)
  then show ?thesis using t(4) by (intro exI [of _ ?r] exI [of _ ?L] exI [of _ cur]) (simp add: by_self_Some)
qed

lemma dinv_unblock:
  assumes d: "dinv r L cur" and "denabled (DUnblock w b) r" and pk: "picks (dr_sys r) pick"
  shows "\<exists>r' L' cur'. dexec mig rnd pick (DUnblock w b) r = Some (Inr r') \<and> dinv r' L' cur'"
proof -
  have e: "running r w False" "dr_wait r b" using assms(2) by simp_all
  from runningD [OF d e(1)] obtain t where t: "runs_on L cur w t" "moving L w = {}" "L t = Some (LRun w)"
    "LpelWorkerCurrentTask_decen (dr_sys r) (Some w) = Inr (Some t)" "w \<in> set (dv_table (dr_sys r))" by metis
  have b: "b \<in> waiting L" "b \<noteq> t" using d e(2) in_runs(2) [of L t "LRun w", OF t(3)] by (auto simp: dinv_def)
  have p: "placed (dr_sys r) L cur" using dinv_sets [OF d] by simp
  from unblock_ok [where mig = mig, OF p t(1) b pk] obtain s' L' where
    o: "LpelTaskUnblock_decen mig pick (dr_sys r) (Some t) (Some b) = Inr s'" "placed s' L' cur" "dv_table s' = dv_table (dr_sys r)" "woke w b L L'" by blast
  let ?r = "r\<lparr>dr_sys := s', dr_wait := (dr_wait r)(b := False)\<rparr>"
  have ctl: "dr_ctl r w = InTask" using e(1) by (simp add: running_def)
  have "dinv ?r L' cur"
  proof (rule dinv_step [where w = w, OF d o(2,3)])
    show "frame w L L'" using o(4) by (simp add: woke_def)
    show "wctl_ok (dr_ctl ?r w) L' cur w" using ctl t(1,2) o(4) by (auto simp: wctl_ok_def runs_on_def woke_def)
    show "waiting L' = {a. dr_wait ?r a}" "pending L' = {a. dr_pend ?r a}" "hands L' = {}"
      using o(4) dinv_sets [OF d] by (auto simp: woke_def)
  qed (use t(5) in simp_all)
  moreover have "dexec mig rnd pick (DUnblock w b) r = Some (Inr ?r)" by (simp add: by_self_Some [OF t(4)] o(1))
  ultimately show ?thesis by blast
qed

lemma has_ready_queued:
  assumes "placed s L cur" and "w \<in> set (dv_table s)"
  shows "has_ready s w \<longleftrightarrow> queued L w \<noteq> {}" "has_mail s w \<longleftrightarrow> mbox s w \<noteq> Some []"
proof -
  from sched_fetch_ok [OF assms] obtain n s' where
    "sched_fetch s (Some w) = Inr (n, s')" "case n of None \<Rightarrow> queued L w = {} \<and> placed s' L cur | Some a \<Rightarrow> L a = Some (LQueued w) \<and>
       placed s' (L(a \<mapsto> LHand w TASK_READY (Some w))) cur" by blast
  then show "has_ready s w \<longleftrightarrow> queued L w \<noteq> {}" by (auto simp: has_ready_def queued_def split: option.splits)
  obtain k where "dv_workers s w = Some k" using placed_worker [OF assms] by blast
  then show "has_mail s w \<longleftrightarrow> mbox s w \<noteq> Some []" by (simp add: has_mail_def)
qed

lemma dinv_loop:
  assumes d: "dinv r L cur" and en: "denabled (DLoop w) r" and pk: "picks (dr_sys r) pick"
  shows "\<exists>r' L' cur'. dexec mig rnd pick (DLoop w) r = Some (Inr r') \<and> dinv r' L' cur' \<and> dv_table (dr_sys r') = dv_table (dr_sys r) \<and>
    (has_ready (dr_sys r) w \<longrightarrow> dr_ctl r' w = InTask \<and> (\<exists>t \<in> queued L w. self r' w = Some t))"
proof -
  have w: "w \<in> set (dv_table (dr_sys r))" and c: "dr_ctl r w = AtLoop" and rm: "has_ready (dr_sys r) w \<or> has_mail (dr_sys r) w" using en by simp_all
  have p: "placed (dr_sys r) L cur" using dinv_sets [OF d] by simp
  have "wctl_ok AtLoop L cur w" using d w c by (auto simp: dinv_def)
  then have b: "busy L w = {}" "moving L w = {}" by (simp_all add: wctl_ok_def)
  have "queued L w \<noteq> {} \<or> mbox (dr_sys r) w \<noteq> Some []" using rm has_ready_queued [OF p w] by simp
  from loop_begin_ok [where mig = mig, OF p w b(1) pk this] obtain x n s' L' cur' where
    o: "loop_begin mig pick (dr_sys r) (Some w) = Some (Inr x)" "resume x = Inr (n, s')" "turn w L cur n s' L' cur'"
      "moving L' w = moving L w" "dv_table s' = dv_table (dr_sys r)" "queued L w \<noteq> {} \<longrightarrow> (\<exists>t. n = SwTask t \<and> t \<in> queued L w)"
    by (elim exE conjE) (rule that)
  show ?thesis
  proof (cases n)
    case SwWorker
    have tn: "turn w L cur SwWorker s' L' cur'" "moving L' w = {}" using o(3,4) SwWorker b(2) by simp_all
    from turn_end_round [OF d tn(1) o(5) tn(2) w] obtain r' where r': "end_round r w s' = Some (Inr r')" "dinv r' L' cur'" by blast
    have "dexec mig rnd pick (DLoop w) r = end_round r w s'" by (simp add: o(1,2) SwWorker)
    moreover have "\<not> has_ready (dr_sys r) w" using o(6) SwWorker has_ready_queued(1) [OF p w] by auto
    moreover have "dr_sys r' = s'" using r'(1) by (auto simp: end_round_def bindO_def deref_def split: option.splits sum.splits)
    ultimately show ?thesis using r' o(5) by (intro exI [of _ r'] exI [of _ L'] exI [of _ cur']) simp
  next
    case (SwTask t)
    from turn_switched [OF d o(3,5)] dinv_sets [OF d, of w] b(2) w obtain r' where r': "switched r w (n, s') = Some (Inr r')" "dinv r' L' cur'" by blast
    have "dexec mig rnd pick (DLoop w) r = switched r w (n, s')" by (simp add: o(1,2) SwTask)
    moreover have "dr_ctl r' w = InTask" "dr_sys r' = s'" using r'(1) SwTask by (auto simp: switched_def)
    moreover have "self r' w = Some t"
    proof -
      have "placed s' L' cur'" "cur' w = Some t" using o(3) SwTask by (simp_all add: turn_def)
      moreover from this obtain k where "dv_workers s' w = Some k" "worker_ok (dv_tasks s') L' cur' w k" using placed_worker w o(5) by metis
      ultimately show ?thesis using \<open>dr_sys r' = s'\<close> worker_okD(1) by (simp add: self_def)
    qed
    ultimately show ?thesis using r' o(5,6) SwTask has_ready_queued(1) [OF p w] by (intro exI [of _ r'] exI [of _ L'] exI [of _ cur']) auto
  qed
qed

lemma dinv_back:
  assumes d: "dinv r L cur" and en: "denabled (DBack w) r" and pk: "picks (dr_sys r) pick"
  shows "\<exists>r' L' cur'. dexec mig rnd pick (DBack w) r = Some (Inr r') \<and> dinv r' L' cur'"
proof -
  have w: "w \<in> set (dv_table (dr_sys r))" and c: "dr_ctl r w = Back" using en by simp_all
  have p: "placed (dr_sys r) L cur" using dinv_sets [OF d] by simp
  have "wctl_ok Back L cur w" using d w c by (auto simp: dinv_def)
  then have b: "busy L w = {}" by (simp add: wctl_ok_def)
  from loop_back_ok [where mig = mig, OF p w b pk] obtain s' L' where
    o: "loop_back mig pick (dr_sys r) (Some w) = Some (Inr s')" "turn w L cur SwWorker s' L' cur" "moving L' w = {}" "dv_table s' = dv_table (dr_sys r)" by blast
  from turn_end_round [OF d o(2,4,3) w] obtain r' where "end_round r w s' = Some (Inr r')" "dinv r' L' cur" by blast
  moreover have "dexec mig rnd pick (DBack w) r = end_round r w s'" by (simp add: o(1))
  ultimately show ?thesis by (intro exI [of _ r'] exI [of _ L'] exI [of _ cur]) simp
qed

lemma fresh_sets:
  assumes "L a = None"
  shows "queued (L(a \<mapsto> LFresh v)) w = queued L w" "assigned (L(a \<mapsto> LFresh v)) w = assigned L w" "waking (L(a \<mapsto> LFresh v)) w = waking L w"
    "dead (L(a \<mapsto> LFresh v)) w = dead L w" "moving (L(a \<mapsto> LFresh v)) w = moving L w" "owned (L(a \<mapsto> LFresh v)) w = owned L w"
  using assms by (auto simp: queued_def assigned_def waking_def dead_def moving_def owned_def)

lemma placed_unused: "placed s L cur \<Longrightarrow> dv_tasks s a = None \<Longrightarrow> L a = None"
  unfolding placed_def by (metis domIff)

lemma placed_alloc:
  assumes p: "placed s L cur" and a: "dv_tasks s a = None" and c: "task_ok (set (dv_table s)) (LFresh v) c" and bound: "card (dom (dv_tasks s)) + 2 < 2 ^ 32"
  shows "placed (s\<lparr>dv_tasks := (dv_tasks s)(a \<mapsto> c)\<rparr>) (L(a \<mapsto> LFresh v)) cur"
proof -
  have La: "L a = None" using placed_unused [OF p a] .
  note fs = fresh_sets [of L a v, OF La]
  have so: "sched_ok ((dv_tasks s)(a \<mapsto> c)) (L(a \<mapsto> LFresh v)) w sc" if "sched_ok (dv_tasks s) L w sc" for w sc
    by (rule sched_ok_frame [OF that fs(1)]) (use La in \<open>auto simp: queued_def\<close>)
  have "worker_ok ((dv_tasks s)(a \<mapsto> c)) (L(a \<mapsto> LFresh v)) cur w k" if "worker_ok (dv_tasks s) L cur w k" for w k
    using that so by (auto simp: worker_ok_def mailbox_ok_def fs)
  moreover have "card (dom (L(a \<mapsto> LFresh v))) + 1 < 2 ^ 32" using p La bound by (simp add: placed_def domIff)
  ultimately show ?thesis using p c La by (simp add: placed_def) (metis option.inject)
qed

lemma frame_start:
  assumes "L a = None"
  shows "frame w L (L(a \<mapsto> LAssigned v))" "busy (L(a \<mapsto> LAssigned v)) w = busy L w" "moving (L(a \<mapsto> LAssigned v)) w = moving L w"
    "owned (L(a \<mapsto> LAssigned v)) w = owned L w" "hands (L(a \<mapsto> LAssigned v)) = hands L" "waiting (L(a \<mapsto> LAssigned v)) = waiting L"
    "pending (L(a \<mapsto> LAssigned v)) = pending L"
proof -
  have "busy (L(a \<mapsto> LAssigned v)) u = busy L u" "moving (L(a \<mapsto> LAssigned v)) u = moving L u" "owned (L(a \<mapsto> LAssigned v)) u = owned L u" for u
    using assms by (auto simp: busy_def moving_def owned_def)
  then show "frame w L (L(a \<mapsto> LAssigned v))" "busy (L(a \<mapsto> LAssigned v)) w = busy L w" "moving (L(a \<mapsto> LAssigned v)) w = moving L w"
    "owned (L(a \<mapsto> LAssigned v)) w = owned L w" by (simp_all add: frame_def)
qed (use assms in \<open>auto simp: hands_def waiting_def pending_def\<close>)

lemma wctl_ok_same:
  assumes "wctl_ok c L cur w" and "busy L' w = busy L w" "moving L' w = moving L w" "owned L' w = owned L w"
  shows "wctl_ok c L' cur w"
  using assms by (auto simp: wctl_ok_def runs_on_def split: wctl.splits)

lemma dinv_spawn:
  assumes d: "dinv r L cur" and en: "denabled (DSpawn i a junk func inarg sz) r"
  shows "\<exists>r' L' cur'. dexec mig rnd pick (DSpawn i a junk func inarg sz) r = Some (Inr r') \<and> dinv r' L' cur'"
proof -
  let ?s = "dr_sys r"
  have e: "0 \<le> i" "i < int (length (dv_table ?s))" "dv_tasks ?s a = None" "card (dom (dv_tasks ?s)) + 2 < 2 ^ 32" "sz \<le> 0 \<or> sz \<ge> 4096"
    using en by (simp_all add: few_tasks_def)
  have p: "placed ?s L cur" using dinv_sets [OF d] by simp
  obtain v kv where v: "get_worker ?s i = Inr (Some v)" "v \<in> set (dv_table ?s)" using get_worker_ok [OF p e(1,2)] .
  let ?c = "junk\<lparr>t_size := if sz \<le> 0 then 8192 else sz, t_worker_context := Some v, t_prio := 0, t_uid := dr_seq r, t_func := func, t_inarg := inarg,
    t_poll_token := 0, t_state := TASK_CREATED, t_prev := None, t_next := None, t_mon := None, t_usrdata := None, t_usrdt_destr := None\<rparr>"
  let ?s1 = "?s\<lparr>dv_tasks := (dv_tasks ?s)(a \<mapsto> ?c)\<rparr>"
  have cr: "LpelTaskCreate_decen ?s (dr_seq r) (Some a) (Some v) junk func inarg sz = Inr (?s1, dr_seq r + 1)"
    using e(3,5) by (auto simp: LpelTaskCreate_decen_def Let_def)
  have p1: "placed ?s1 (L(a \<mapsto> LFresh v)) cur" by (rule placed_alloc [OF p e(3) _ e(4)]) (use v(2) in \<open>simp add: task_ok_def\<close>)
  from send_assign_ok [OF p1, of a "LFresh v" v] obtain s' where
    s': "SendAssign ?s1 (Some v) (Some a) = Inr s'" "placed s' (L(a \<mapsto> LAssigned v)) cur" "dv_table s' = dv_table ?s" by auto
  have st: "LpelTaskStart_decen ?s1 (Some a) = Inr s'" using s'(1) by (simp add: LpelTaskStart_decen_def LpelWorkerRunTask_decen_def)
  let ?r = "r\<lparr>dr_sys := s', dr_seq := dr_seq r + 1\<rparr>" and ?L = "L(a \<mapsto> LAssigned v)"
  have La: "L a = None" using placed_unused [OF p e(3)] .
  note fs = frame_start [where L = L and a = a and v = v, OF La]
  have "wctl_ok (dr_ctl ?r u) ?L cur u" if "u \<in> set (dv_table s')" for u
    by (rule wctl_ok_same [OF _ fs(2-4)]) (use d that s'(3) in \<open>simp add: dinv_def\<close>)
  then have "dinv ?r ?L cur" using s'(2,3) fs(3,5-7) d by (simp add: dinv_def)
  moreover have "dexec mig rnd pick (DSpawn i a junk func inarg sz) r = Some (Inr ?r)" by (simp add: v(1) cr st)
  ultimately show ?thesis by blast
qed

lemma push_term:
  assumes p: "placed s L cur" and w: "w \<in> set (dv_table s)" and m: "msg_type m = MSG_TERMINATE_decen"
  shows "\<exists>s'. send_to s (Some w) m = Inr s' \<and> placed s' L cur \<and> dv_table s' = dv_table s"
proof -
  obtain k where k: "dv_workers s w = Some k" "worker_ok (dv_tasks s) L cur w k" using placed_worker [OF p w] .
  let ?k = "k\<lparr>dk_mailbox := dk_mailbox k @ [m]\<rparr>"
  have "mailbox_ok L w (dk_mailbox k @ [m])" using worker_okD(2) [OF k(2)] m by (auto simp: mailbox_ok_def msg_of_def decen_msg_types msg_valid_def)
  then have "worker_ok (dv_tasks s) L cur w ?k" using k(2) by (simp add: worker_ok_def)
  from placed_worker_upd [where cur' = cur, OF p w k(1) _ this] show ?thesis using k(1) by (simp add: send_to_def)
qed

lemma broadcast_ok:
  assumes "placed s L cur" and "set ws \<subseteq> set (dv_table s)" and "msg_type m = MSG_TERMINATE_decen"
  shows "\<exists>s'. broadcast s ws m = Inr s' \<and> placed s' L cur \<and> dv_table s' = dv_table s"
  using assms(1,2)
proof (induction ws arbitrary: s)
  case (Cons w ws)
  from push_term [OF Cons.prems(1) _ assms(3), of w] Cons.prems(2) obtain s1 where
    1: "send_to s (Some w) m = Inr s1" "placed s1 L cur" "dv_table s1 = dv_table s" by auto
  from Cons.IH [OF 1(2)] Cons.prems(2) 1(3) obtain s2 where "broadcast s1 ws m = Inr s2" "placed s2 L cur" "dv_table s2 = dv_table s" by auto
  then show ?case using 1(1) by simp
qed simp

lemma dinv_term:
  assumes d: "dinv r L cur"
  shows "\<exists>r' L' cur'. dexec mig rnd pick DTerm r = Some (Inr r') \<and> dinv r' L' cur'"
proof -
  let ?m = "\<lparr>msg_type = MSG_TERMINATE_decen, msg_body = BNone\<rparr>"
  from broadcast_ok [of "dr_sys r" L cur "dv_table (dr_sys r)" ?m] dinv_sets [OF d] obtain s' where
    s': "broadcast (dr_sys r) (dv_table (dr_sys r)) ?m = Inr s'" "placed s' L cur" "dv_table s' = dv_table (dr_sys r)" by auto
  have "dinv (r\<lparr>dr_sys := s'\<rparr>) L cur" using d s'(2,3) by (simp add: dinv_def)
  moreover have "dexec mig rnd pick DTerm r = Some (Inr (r\<lparr>dr_sys := s'\<rparr>))"
    using s'(1) by (simp add: LpelWorkersTerminate_decen_def LpelWorkerBroadcast_decen_def)
  ultimately show ?thesis by blast
qed

lemma dinv_exec:
  assumes "dinv r L cur" and "denabled ev r" and "picks (dr_sys r) pick"
  shows "\<exists>r' L' cur'. dexec mig rnd pick ev r = Some (Inr r') \<and> dinv r' L' cur'"
proof (cases ev)
  case (DLoop w)
  then have "denabled (DLoop w) r" using assms(2) by simp
  from dinv_loop [where mig = mig and rnd = rnd, OF assms(1) this assms(3)] show ?thesis unfolding DLoop by blast
next
  case (DReturn w)
  then have "running r w False" using assms(2) by simp
  from dinv_return(1) [OF assms(1) this assms(3)] show ?thesis unfolding DReturn .
next
  case (DExit w)
  then have "running r w False" using assms(2) by simp
  from dinv_return(2) [OF assms(1) this assms(3)] show ?thesis unfolding DExit .
next
  case (DBack w)
  show ?thesis unfolding DBack by (rule dinv_back [OF assms(1) assms(2) [unfolded DBack] assms(3)])
next
  case (DYield w)
  show ?thesis unfolding DYield by (rule dinv_yield [OF assms(1) assms(2) [unfolded DYield] assms(3)])
next
  case (DWait w)
  show ?thesis unfolding DWait by (rule dinv_wait [OF assms(1) assms(2) [unfolded DWait]])
next
  case (DBlock w)
  show ?thesis unfolding DBlock by (rule dinv_block [OF assms(1) assms(2) [unfolded DBlock] assms(3)])
next
  case (DMigrate w)
  show ?thesis unfolding DMigrate by (rule dinv_migrate [OF assms(1) assms(2) [unfolded DMigrate] assms(3)])
next
  case (DUnblock w b)
  show ?thesis unfolding DUnblock by (rule dinv_unblock [OF assms(1) assms(2) [unfolded DUnblock] assms(3)])
next
  case (DSpawn i a junk func inarg sz)
  show ?thesis unfolding DSpawn by (rule dinv_spawn [OF assms(1) assms(2) [unfolded DSpawn]])
next
  case DTerm
  show ?thesis unfolding DTerm by (rule dinv_term [OF assms(1)])
qed

section \<open>The start\<close>

lemma init_workers_ok:
  assumes "init_workers junk news i s = Inr s'"
  shows "\<exists>ws. dv_table s' = dv_table s @ ws \<and> dv_tasks s' = dv_tasks s \<and> distinct ws \<and> (\<forall>a \<in> set ws. dv_workers s a = None) \<and>
    (\<forall>j < length ws. dv_workers s' (ws ! j) = Some (init_worker junk (i + int j))) \<and> (\<forall>a. a \<notin> set ws \<longrightarrow> dv_workers s' a = dv_workers s a)"
  using assms
proof (induction news arbitrary: i s)
  case Nil
  then show ?case by (intro exI [of _ "[]"]) simp
next
  case (Cons new news)
  then obtain w where w: "new = Some w" "dv_workers s w = None"
    "init_workers junk news (i + 1) (s\<lparr>dv_workers := (dv_workers s)(w \<mapsto> init_worker junk i), dv_table := dv_table s @ [w]\<rparr>) = Inr s'"
    by (auto simp: bindR_eq_Inr alloc_at_eq_Inr)
  from Cons.IH [OF w(3)] obtain ws where ws: "dv_table s' = dv_table s @ w # ws" "dv_tasks s' = dv_tasks s" "distinct ws"
    "\<forall>a \<in> set ws. ((dv_workers s)(w \<mapsto> init_worker junk i)) a = None"
    "\<forall>j < length ws. dv_workers s' (ws ! j) = Some (init_worker junk (i + 1 + int j))"
    "\<forall>a. a \<notin> set ws \<longrightarrow> dv_workers s' a = ((dv_workers s)(w \<mapsto> init_worker junk i)) a" by auto
  have wn: "w \<notin> set ws" using ws(4) by auto
  have "dv_workers s' ((w # ws) ! j) = Some (init_worker junk (i + int j))" if "j < length (w # ws)" for j
    using that ws(5,6) wn by (cases j) (auto simp: add_ac)
  then show ?case using ws wn w(2) by (intro exI [of _ "w # ws"]) (auto split: if_splits)
qed

lemma start_threads_ok:
  assumes "start_threads s ws = Inr s'"
  shows "dv_table s' = dv_table s" "dv_tasks s' = dv_tasks s"
    "dv_workers s' a = (if a \<in> set ws then map_option (\<lambda>k. k\<lparr>dk_current_task := None, dk_marked_del := None\<rparr>) (dv_workers s a) else dv_workers s a)"
  using assms
  by (induction ws arbitrary: s) (auto simp: bindR_eq_Inr thread_start_def upd_dk_def upd_def deref_def split: option.splits if_splits)

lemma dinv_start:
  assumes "dstart rjunk junk news n = Inr r"
  shows "dinv r (\<lambda>_. None) (\<lambda>_. None)"
proof -
  let ?s0 = "\<lparr>dv_tasks = (\<lambda>_. None), dv_workers = (\<lambda>_. None), dv_table = []\<rparr>" and ?f = "\<lambda>k. k\<lparr>dk_current_task := None, dk_marked_del := None\<rparr>"
  from assms obtain s s1 where s: "init_workers junk (take (nat n) news) 0 ?s0 = Inr s" "start_threads s (dv_table s) = Inr s1"
    and r: "r = \<lparr>dr_sys = s1, dr_seq = 0, dr_ctl = (\<lambda>_. AtLoop), dr_wait = (\<lambda>_. False), dr_pend = (\<lambda>_. False)\<rparr>"
    by (auto simp: dstart_def LpelWorkersInit_decen_def bindR_eq_Inr)
  from init_workers_ok [OF s(1)] obtain ws where ws: "dv_table s = ws" "dv_tasks s = (\<lambda>_. None)" "distinct ws"
    "\<forall>j < length ws. dv_workers s (ws ! j) = Some (init_worker junk (int j))" by auto
  note st = start_threads_ok [OF s(2)]
  have wk: "dv_workers s1 (ws ! j) = Some (?f (init_worker junk (int j)))" if "j < length ws" for j
    using that ws(1,4) st(3) [of "ws ! j"] by simp
  have "sched_ok h (\<lambda>_. None) w (LpelSchedCreate i)" for h w i
    unfolding sched_ok_def by (intro exI [of _ "replicate SCHED_NUM_PRIO []"]) (simp add: sched_rep_create queued_def)
  then have "worker_ok h (\<lambda>_. None) (\<lambda>_. None) w (?f (init_worker junk i))" for h w i
    by (simp add: worker_ok_def init_worker_def mailbox_ok_def assigned_def waking_def dead_def moving_def owned_def)
  then have "placed s1 (\<lambda>_. None) (\<lambda>_. None)" using ws st(1,2) wk by (simp add: placed_def init_worker_def)
  then show ?thesis using r
    by (simp add: dinv_def hands_def waiting_def pending_def wctl_ok_def busy_def moving_def)
qed

lemma dreach_dinv: "dreach mig rnd r \<Longrightarrow> \<exists>L cur. dinv r L cur"
proof (induction rule: dreach.induct)
  case (dreach_start rjunk junk news n r)
  then show ?case using dinv_start by blast
next
  case (dreach_step r ev pick r')
  then obtain L cur where "dinv r L cur" by blast
  from dinv_exec [where mig = mig and rnd = rnd, OF this dreach_step(2,3)] dreach_step(4) show ?case by auto
qed

section \<open>Concrete runs\<close>

declare FetchAllMessages.simps [code]

fun drun_events :: "bool \<Rightarrow> bool \<Rightarrow> (ptr \<Rightarrow> int) \<Rightarrow> devent list \<Rightarrow> drun \<Rightarrow> drun option" where
  "drun_events mig rnd pick [] r = Some r"
| "drun_events mig rnd pick (ev # evs) r = (if denabled ev r then
     (case dexec mig rnd pick ev r of Some (Inr r') \<Rightarrow> drun_events mig rnd pick evs r' | _ \<Rightarrow> None) else None)"

lemma drun_events_reach:
  assumes "dreach mig rnd r" and "drun_events mig rnd (\<lambda>_. - 1) evs r = Some r'"
  shows "dreach mig rnd r'"
  using assms
proof (induction evs arbitrary: r)
  case (Cons ev evs)
  then obtain r1 where "denabled ev r" "dexec mig rnd (\<lambda>_. - 1) ev r = Some (Inr r1)" "drun_events mig rnd (\<lambda>_. - 1) evs r1 = Some r'"
    by (auto split: if_splits option.splits sum.splits)
  moreover have "picks (dr_sys r) (\<lambda>_. - 1)" by (simp add: picks_def)
  ultimately show ?case using Cons.IH dreach_step [OF Cons.prems(1)] by blast
qed simp

text \<open>Two workers, a task started on the first.\<close>

definition dex_worker :: decen_workerctx_t where
  "dex_worker = \<lparr>dk_wid = 0, dk_terminate = 0, dk_num_tasks = 0, dk_current_task = None, dk_marked_del = None, dk_mon = None, dk_mailbox = [],
     dk_sched = None, dk_wraptask = None, dk_migrated = None\<rparr>"

definition dex_task :: lpel_task_t where
  "dex_task = \<lparr>t_prev = None, t_next = None, t_uid = 0, t_state = TASK_CREATED, t_worker_context = None, t_prio = 0, t_wakeup_sd = None,
     t_poll_token = 0, t_mon = None, t_size = 0, t_func = None, t_inarg = None, t_outarg = None, t_usrdata = None, t_usrdt_destr = None\<rparr>"

definition dex_req :: spmdreq_t where
  "dex_req = \<lparr>rq_wctx = None, rq_func = 0, rq_arg = None, rq_task = None\<rparr>"

definition dex0 :: drun where "dex0 = projr (dstart dex_req dex_worker [Some 1, Some 2] 2)"

definition dex1 :: drun where "dex1 = projr (the (dexec False False (\<lambda>_. - 1) (DSpawn 0 7 dex_task None None 0) dex0))"

definition dex :: "devent list \<Rightarrow> drun" where "dex evs = the (drun_events False False (\<lambda>_. - 1) evs dex1)"

lemma picks_none: "picks s (\<lambda>_. - 1)"
  by (simp add: picks_def)

lemma dex1_reach: "dreach False False dex1"
proof -
  have "isl (dstart dex_req dex_worker [Some 1, Some 2] 2) = False" by code_simp
  then have 0: "dstart dex_req dex_worker [Some 1, Some 2] 2 = Inr dex0" by (simp add: dex0_def)
  then have r0: "dreach False False dex0" by (rule dreach_start)
  have "dinv dex0 (\<lambda>_. None) (\<lambda>_. None)" using dinv_start [OF 0] .
  then have "dom (dv_tasks (dr_sys dex0)) = {}" by (simp add: dinv_def placed_def)
  then have "few_tasks (dr_sys dex0)" "dv_tasks (dr_sys dex0) 7 = None" by (simp_all add: few_tasks_def)
  moreover have "length (dv_table (dr_sys dex0)) = 2" by code_simp
  ultimately have en: "denabled (DSpawn 0 7 dex_task None None 0) dex0" by simp
  obtain L cur where "dinv dex0 L cur" using dreach_dinv [OF r0] by blast
  from dinv_spawn [where mig = False and rnd = False and pick = "\<lambda>_. - 1", OF this en] have
    "dexec False False (\<lambda>_. - 1) (DSpawn 0 7 dex_task None None 0) dex0 = Some (Inr dex1)" unfolding dex1_def by auto
  from dreach_step [OF r0 en picks_none this] show ?thesis .
qed

lemma dex_reach: "drun_events False False (\<lambda>_. - 1) evs dex1 \<noteq> None \<Longrightarrow> dreach False False (dex evs)"
  using drun_events_reach [OF dex1_reach] by (auto simp: dex_def)

section \<open>Properties\<close>

text \<open>
  C4: In every state that workers and the tasks mapped to them can reach in the decentralised scheduler, in any order of their
  steps, without migration or with random migration and any answers of its policy, a step that is due succeeds: no assertion
  on task states fails, no pointer that is followed is NULL or freed, and the message loops end. The mechanism
  \<open>LPEL_MIG_WAIT_PROP\<close>, wrappers and SPMD requests are not covered.
\<close>

theorem decen_system_safe:
  assumes "dreach False rnd r" and "denabled ev r" and "picks (dr_sys r) pick"
  shows "\<exists>r'. dexec False rnd pick ev r = Some (Inr r')"
proof -
  obtain L cur where "dinv r L cur" using dreach_dinv [OF assms(1)] by blast
  from dinv_exec [where mig = False and rnd = rnd, OF this assms(2,3)] show ?thesis by blast
qed

theorem decen_system_safe_witness:
  "\<exists>r'. dexec False False (\<lambda>_. - 1) (DYield 1) (dex [DLoop 1, DLoop 1]) = Some (Inr r')"
proof -
  have "drun_events False False (\<lambda>_. - 1) [DLoop 1, DLoop 1] dex1 \<noteq> None" "denabled (DYield 1) (dex [DLoop 1, DLoop 1])" by code_simp+
  then show ?thesis using decen_system_safe [OF dex_reach] picks_none by blast
qed

text \<open>
  C7: Without migration or with random migration, every task mapped to a worker is in exactly one place between any two steps of
  the scheduler: in the ready queue of one worker, in one assign or wakeup
  message, running on one worker, blocked, on its way to another worker, or marked for deletion. The
  counter \<open>num_tasks\<close> of each worker is the number of tasks it is in charge of, a worker runs at most
  one task, and that one is its current task. The mechanism \<open>LPEL_MIG_WAIT_PROP\<close> and wrappers are not covered.
\<close>

theorem decen_task_places:
  assumes "dreach False rnd r"
  shows "\<exists>L cur. placed (dr_sys r) L cur \<and> hands L = {} \<and>
    (\<forall>w \<in> set (dv_table (dr_sys r)). if dr_ctl r w = InTask then \<exists>t. busy L w = {t} \<and> self r w = Some t else busy L w = {})"
proof -
  obtain L cur where d: "dinv r L cur" using dreach_dinv [OF assms] by blast
  have p: "placed (dr_sys r) L cur" using dinv_sets [OF d] by simp
  have "if dr_ctl r w = InTask then \<exists>t. busy L w = {t} \<and> self r w = Some t else busy L w = {}" if w: "w \<in> set (dv_table (dr_sys r))" for w
  proof -
    obtain k where k: "dv_workers (dr_sys r) w = Some k" "worker_ok (dv_tasks (dr_sys r)) L cur w k" using placed_worker [OF p w] .
    have "self r w = cur w" using k(1) worker_okD(1) [OF k(2)] by (simp add: self_def)
    moreover have "wctl_ok (dr_ctl r w) L cur w" using d w by (simp add: dinv_def)
    ultimately show ?thesis by (auto simp: wctl_ok_def runs_on_def split: wctl.splits)
  qed
  then show ?thesis using p dinv_sets [OF d] by blast
qed

theorem decen_task_places_witness:
  "\<exists>L cur. placed (dr_sys (dex [DLoop 1, DLoop 1])) L cur \<and> hands L = {} \<and>
    (\<forall>w \<in> set (dv_table (dr_sys (dex [DLoop 1, DLoop 1]))). if dr_ctl (dex [DLoop 1, DLoop 1]) w = InTask
      then \<exists>t. busy L w = {t} \<and> self (dex [DLoop 1, DLoop 1]) w = Some t else busy L w = {})"
proof -
  have "drun_events False False (\<lambda>_. - 1) [DLoop 1, DLoop 1] dex1 \<noteq> None" by code_simp
  from decen_task_places [OF dex_reach [OF this]] show ?thesis .
qed

text \<open>A worker in charge of a task that is not blocked has a step to take.\<close>

lemma worker_due:
  assumes d: "dinv r L cur" and w: "w \<in> set (dv_table (dr_sys r))" and ne: "dr_ctl r w \<noteq> Ended" and l: "L a = Some l"
    and lw: "l \<in> {LAssigned w, LQueued w, LRun w, LRunWoken w, LWaking w}"
  shows "\<exists>ev. ev \<in> {DLoop w, DBack w, DYield w, DBlock w} \<and> denabled ev r"
proof (cases "dr_ctl r w")
  case AtLoop
  have p: "placed (dr_sys r) L cur" using dinv_sets [OF d] by simp
  obtain k where k: "dv_workers (dr_sys r) w = Some k" "worker_ok (dv_tasks (dr_sys r)) L cur w k" using placed_worker [OF p w] .
  have mb: "mailbox_ok L w (dk_mailbox k)" using worker_okD(2) [OF k(2)] .
  have "busy L w = {}" using d w AtLoop by (auto simp: dinv_def wctl_ok_def)
  then have "l \<in> {LAssigned w, LQueued w, LWaking w}" using lw l by (auto simp: busy_def)
  then have "a \<in> queued L w \<or> a \<in> assigned L w \<or> a \<in> waking L w" using in_places [of L a l, OF l] by auto
  then have "has_ready (dr_sys r) w \<or> has_mail (dr_sys r) w"
    using has_ready_queued(1) [OF p w] mb k(1) by (auto simp: has_mail_def mailbox_ok_def)
  then show ?thesis using w AtLoop by (intro exI [of _ "DLoop w"]) simp
next
  case InTask
  have "running r w True \<or> running r w False" using w InTask by (cases "self r w") (simp_all add: running_def)
  then have "denabled (DBlock w) r \<or> denabled (DYield w) r" by simp
  then show ?thesis by blast
next
  case Back
  then show ?thesis using w by (intro exI [of _ "DBack w"]) simp
qed (use ne in simp)

text \<open>
  C11: The workers do not come to a halt with work left: without migration or with random migration, as long as no worker has ended, a
  task mapped to a worker that neither waits for a wakeup nor has finished makes some worker's next step possible. (For the
  task of a wrapper this fails, see the last section.)
\<close>

theorem decen_progress:
  assumes "dreach False rnd r" and "\<forall>w \<in> set (dv_table (dr_sys r)). dr_ctl r w \<noteq> Ended"
    and "dv_tasks (dr_sys r) a = Some c" "t_state c \<noteq> TASK_ZOMBIE" "\<not> dr_wait r a"
  shows "\<exists>w ev. ev \<in> {DLoop w, DBack w, DYield w, DBlock w} \<and> denabled ev r"
proof -
  obtain L cur where d: "dinv r L cur" using dreach_dinv [OF assms(1)] by blast
  have p: "placed (dr_sys r) L cur" and hw: "hands L = {}" "waiting L = {a. dr_wait r a}" using dinv_sets [OF d] by simp_all
  obtain l where l: "L a = Some l" using p assms(3) unfolding placed_def by blast
  have tk: "task_ok (set (dv_table (dr_sys r))) l c" using placed_task [OF p l] assms(3) by auto
  have l': "a \<notin> hands L" "a \<notin> waiting L" using hw assms(5) by auto
  have hl: "home l \<in> set (dv_table (dr_sys r))" using tk by (simp add: task_ok_def)
  have lc: "l \<in> {LAssigned (home l), LQueued (home l), LRun (home l), LRunWoken (home l), LWaking (home l)} \<or> (\<exists>v u. l = LMoving v u)"
    using l' tk assms(4) in_runs(2,4) [of L a l, OF l] by (cases l) (auto simp: task_ok_def)
  then show ?thesis
  proof
    assume "\<exists>v u. l = LMoving v u"
    then obtain v where "moving L v \<noteq> {}" using l by (auto simp: moving_def)
    with d have v: "v \<in> set (dv_table (dr_sys r))" by (auto simp: dinv_def)
    then have "wctl_ok (dr_ctl r v) L cur v" "dr_ctl r v \<noteq> Ended" using d assms(2) by (auto simp: dinv_def)
    then have "dr_ctl r v = Back" using \<open>moving L v \<noteq> {}\<close> by (cases "dr_ctl r v") (simp_all add: wctl_ok_def)
    with v have "v \<in> set (dv_table (dr_sys r))" "dr_ctl r v = Back" by simp_all
    then have "denabled (DBack v) r" by simp
    then show ?thesis by blast
  next
    assume lw: "l \<in> {LAssigned (home l), LQueued (home l), LRun (home l), LRunWoken (home l), LWaking (home l)}"
    from worker_due [OF d hl _ l lw] assms(2) hl show ?thesis by blast
  qed
qed

theorem decen_progress_witness: "\<exists>w ev. ev \<in> {DLoop w, DBack w, DYield w, DBlock w} \<and> denabled ev (dex [DLoop 1])"
proof -
  have "drun_events False False (\<lambda>_. - 1) [DLoop 1] dex1 \<noteq> None" by code_simp
  note r = dex_reach [OF this]
  have "list_all (\<lambda>w. dr_ctl (dex [DLoop 1]) w \<noteq> Ended) (dv_table (dr_sys (dex [DLoop 1])))" by code_simp
  then have e: "\<forall>w \<in> set (dv_table (dr_sys (dex [DLoop 1]))). dr_ctl (dex [DLoop 1]) w \<noteq> Ended" by (simp add: list_all_iff)
  have "map_option t_state (dv_tasks (dr_sys (dex [DLoop 1])) 7) = Some TASK_READY" "\<not> dr_wait (dex [DLoop 1]) 7" by code_simp+
  then show ?thesis using decen_progress [OF r e, of 7] by auto
qed

text \<open>
  C26: A worker leaves its loop only when it is in charge of no task: its counter is zero, its ready queues are empty, so
  that destroying the scheduler passes its assertions, and no wakeup is in its mailbox, then and for ever after.
\<close>

theorem decen_worker_end:
  assumes "dreach mig rnd r" and "w \<in> set (dv_table (dr_sys r))" and "dr_ctl r w = Ended"
  shows "\<exists>k sc. dv_workers (dr_sys r) w = Some k \<and> dk_num_tasks k = 0 \<and> dk_sched k = Some sc \<and> LpelSchedDestroy sc = Inr () \<and>
    (\<forall>m \<in> set (dk_mailbox k). msg_type m \<noteq> MSG_WAKEUP_decen) \<and> \<not> has_ready (dr_sys r) w"
proof -
  obtain L cur where d: "dinv r L cur" using dreach_dinv [OF assms(1)] by blast
  have p: "placed (dr_sys r) L cur" using dinv_sets [OF d] by simp
  obtain k where k: "dv_workers (dr_sys r) w = Some k" "worker_ok (dv_tasks (dr_sys r)) L cur w k" using placed_worker [OF p assms(2)] .
  have "wctl_ok Ended L cur w" using d assms(2,3) by (auto simp: dinv_def)
  then have ow: "owned L w = {}" by (simp add: wctl_ok_def)
  then have "L b = Some l \<Longrightarrow> counted l \<noteq> Some w" for b l by (auto simp: owned_def)
  from this [of _ "LQueued w"] this [of _ "LWaking w"] this [of _ "LRunWoken w"] have q: "queued L w = {}" "waking L w = {}"
    by (auto simp: queued_def waking_def)
  have nt: "dk_num_tasks k = 0" using worker_okD(6) [OF k(2)] ow by (simp add: unat_eq_zero)
  obtain sc qs where sc: "dk_sched k = Some sc" "sched_rep sc (dv_tasks (dr_sys r)) qs" "set (concat qs) = {}"
    using worker_okD(3) [OF k(2)] q(1) by (auto simp: sched_ok_def)
  have "LpelSchedDestroy sc = Inr ()" by (rule sched_destroy_empty [OF sc(2)]) (use sc(3) in simp)
  moreover have "msg_type m \<noteq> MSG_WAKEUP_decen" if m: "m \<in> set (dk_mailbox k)" for m
  proof
    assume ty: "msg_type m = MSG_WAKEUP_decen"
    have mb: "mailbox_ok L w (dk_mailbox k)" using worker_okD(2) [OF k(2)] .
    then have "msg_valid m" using m by (simp add: mailbox_ok_def)
    then obtain b where "msg_of MSG_WAKEUP_decen m = [b]" using ty by (auto simp: msg_valid_def msg_of_def decen_msg_types)
    then have "b \<in> set (msgs_of MSG_WAKEUP_decen (dk_mailbox k))" using m by (force simp: msgs_of_def)
    then show False using mb q(2) by (simp add: mailbox_ok_def)
  qed
  ultimately show ?thesis using k(1) nt sc(1) has_ready_queued(1) [OF p assms(2)] q(1) by simp
qed

theorem decen_worker_end_witness:
  "\<exists>k sc. dv_workers (dr_sys (dex [DLoop 1, DLoop 1, DReturn 1, DBack 1, DTerm, DLoop 1])) 1 = Some k \<and> dk_num_tasks k = 0 \<and>
    dk_sched k = Some sc \<and> LpelSchedDestroy sc = Inr () \<and> (\<forall>m \<in> set (dk_mailbox k). msg_type m \<noteq> MSG_WAKEUP_decen) \<and>
    \<not> has_ready (dr_sys (dex [DLoop 1, DLoop 1, DReturn 1, DBack 1, DTerm, DLoop 1])) 1"
proof -
  let ?evs = "[DLoop 1, DLoop 1, DReturn 1, DBack 1, DTerm, DLoop 1]"
  have "drun_events False False (\<lambda>_. - 1) ?evs dex1 \<noteq> None" by code_simp
  note r = dex_reach [OF this]
  have "1 \<in> set (dv_table (dr_sys (dex ?evs)))" "dr_ctl (dex ?evs) 1 = Ended" by code_simp+
  from decen_worker_end [OF r this] show ?thesis .
qed

text \<open>
  A worker with a ready task starts one in its next round: the task was ready in one of its queues, becomes
  the current task and runs.
\<close>

theorem decen_ready_runs:
  assumes "dreach mig rnd r" and "w \<in> set (dv_table (dr_sys r))" and "dr_ctl r w = AtLoop" and "has_ready (dr_sys r) w" and "picks (dr_sys r) pick"
  shows "\<exists>r' t c c'. dexec mig rnd pick (DLoop w) r = Some (Inr r') \<and> dr_ctl r' w = InTask \<and> self r' w = Some t \<and>
    dv_tasks (dr_sys r) t = Some c \<and> t_state c = TASK_READY \<and> t_worker_context c = Some w \<and>
    dv_tasks (dr_sys r') t = Some c' \<and> t_state c' = TASK_RUNNING"
proof -
  obtain L cur where d: "dinv r L cur" using dreach_dinv [OF assms(1)] by blast
  have p: "placed (dr_sys r) L cur" using dinv_sets [OF d] by simp
  have "denabled (DLoop w) r" using assms(2-4) by simp
  from dinv_loop [where mig = mig and rnd = rnd, OF d this assms(5)] assms(4) obtain r' L' cur' t where
    1: "dexec mig rnd pick (DLoop w) r = Some (Inr r')" "dinv r' L' cur'" "dr_ctl r' w = InTask" "t \<in> queued L w" "self r' w = Some t"
      "dv_table (dr_sys r') = dv_table (dr_sys r)" by blast
  have "L t = Some (LQueued w)" using 1(4) by (simp add: queued_def)
  from placed_task [OF p this] obtain c where "dv_tasks (dr_sys r) t = Some c" "task_ok (set (dv_table (dr_sys r))) (LQueued w) c" .
  then have c: "dv_tasks (dr_sys r) t = Some c" "t_state c = TASK_READY" "t_worker_context c = Some w" by (simp_all add: task_ok_def)
  have w': "w \<in> set (dv_table (dr_sys r'))" using assms(2) 1(6) by simp
  have "wctl_ok InTask L' cur' w" using 1(2,3) w' by (auto simp: dinv_def)
  then obtain t' where t': "runs_on L' cur' w t'" by (auto simp: wctl_ok_def)
  have p': "placed (dr_sys r') L' cur'" using dinv_sets [OF 1(2)] by simp
  obtain k where "dv_workers (dr_sys r') w = Some k" "worker_ok (dv_tasks (dr_sys r')) L' cur' w k" using placed_worker [OF p' w'] .
  then have "self r' w = cur' w" using worker_okD(1) by (simp add: self_def)
  then have "t' = t" using t' 1(5) by (simp add: runs_on_def)
  then obtain l where l: "L' t = Some l" "l \<in> {LRun w, LRunWait w, LRunWoken w}" using runs_onD [OF t'] by metis
  obtain c' where c': "dv_tasks (dr_sys r') t = Some c'" "task_ok (set (dv_table (dr_sys r'))) l c'" using placed_task [OF p' l(1)] .
  then have "t_state c' = TASK_RUNNING" using l(2) by (auto simp: task_ok_def)
  then show ?thesis using 1(1,3,5) c c'(1) by (intro exI [of _ r'] exI [of _ t] exI [of _ c] exI [of _ c']) simp
qed

theorem decen_ready_runs_witness:
  "\<exists>r' t c c'. dexec False False (\<lambda>_. - 1) (DLoop 1) (dex [DLoop 1]) = Some (Inr r') \<and> dr_ctl r' 1 = InTask \<and> self r' 1 = Some t \<and>
    dv_tasks (dr_sys (dex [DLoop 1])) t = Some c \<and> t_state c = TASK_READY \<and> t_worker_context c = Some 1 \<and>
    dv_tasks (dr_sys r') t = Some c' \<and> t_state c' = TASK_RUNNING"
proof -
  have "drun_events False False (\<lambda>_. - 1) [DLoop 1] dex1 \<noteq> None" by code_simp
  note r = dex_reach [OF this]
  have "1 \<in> set (dv_table (dr_sys (dex [DLoop 1])))" "dr_ctl (dex [DLoop 1]) 1 = AtLoop" "has_ready (dr_sys (dex [DLoop 1])) 1" by code_simp+
  from decen_ready_runs [OF r this picks_none] show ?thesis .
qed


section \<open>Wrappers and migration\<close>

text \<open>
  C27: \<open>LpelTaskCheckMigrate\<close> never migrates the task of a wrapper, \<open>LpelTaskYield\<close> does: under \<open>LPEL_MIG_WAIT_PROP\<close>, when the
  policy names a worker, the task is left in the field \<open>migrated\<close> of the wrapper. The wrapper's loop, unlike the loop of a
  worker, does not look at that field: it sends no message, and with an empty mailbox it blocks for ever, with the task lost.
\<close>

theorem wrapper_yield_loses_task:
  assumes "dv_tasks s t = Some c" "t_state c = TASK_RUNNING" "t_worker_context c = Some w"
    and "dv_workers s w = Some k" "dk_wid k = LPEL_MAP_OTHERS" "dk_mailbox k = []" "dk_wraptask k = None"
    and "0 < pick (Some t)" "pick (Some t) < int (length (dv_table s))"
  shows "\<exists>s'. LpelTaskYield_decen True pick s t = Some (Inr (SwWorker, s')) \<and>
    map_option dk_migrated (dv_workers s' w) = Some (Some t) \<and> (\<forall>v. v \<noteq> w \<longrightarrow> dv_workers s' v = dv_workers s v) \<and> wrapper_back True pick s' (Some w) = Some (Inr s') \<and>
    wrapper_begin True pick s' (Some w) = Some (Inl WouldBlock)"
proof -
  let ?v = "dv_table s ! nat (pick (Some t))"
  let ?s = "s\<lparr>dv_tasks := (dv_tasks s)(t \<mapsto> c\<lparr>t_state := TASK_READY, t_worker_context := Some ?v\<rparr>),
    dv_workers := (dv_workers s)(w \<mapsto> k\<lparr>dk_migrated := Some t\<rparr>)\<rparr>"
  have "get_worker s i = Inr (Some (dv_table s ! nat i))" if "0 < i" "i < int (length (dv_table s))" for i
    using that by (simp add: get_worker_def)
  then have "LpelTaskYield_decen True pick s t = Some (Inr (SwWorker, ?s))"
    using assms by (simp add: LpelTaskYield_decen_def TaskStop_def LpelWorkerSelfTaskMigrate_def LPEL_MAP_OTHERS_def get_worker_def)
  moreover have "wrapper_back True pick ?s (Some w) = Some (Inr ?s)"
    using assms(6) by (simp add: wrapper_back_def) (subst FetchAllMessages.simps, simp)
  moreover have "wrapper_begin True pick ?s (Some w) = Some (Inl WouldBlock)"
    using assms(6,7) by (simp add: wrapper_begin_def WaitForNewMessage_def recv_process_def)
  ultimately show ?thesis by (intro exI [of _ ?s]) simp
qed

definition wex_sys :: decen_sys where
  "wex_sys = \<lparr>dv_tasks = [7 \<mapsto> dex_task\<lparr>t_state := TASK_RUNNING, t_worker_context := Some 3\<rparr>],
     dv_workers = [1 \<mapsto> dex_worker, 2 \<mapsto> dex_worker\<lparr>dk_wid := 1\<rparr>, 3 \<mapsto> dex_worker\<lparr>dk_wid := - 1, dk_current_task := Some 7\<rparr>],
     dv_table = [1, 2]\<rparr>"

theorem wrapper_yield_loses_task_witness:
  "\<exists>s'. LpelTaskYield_decen True (\<lambda>_. 1) wex_sys 7 = Some (Inr (SwWorker, s')) \<and>
    map_option dk_migrated (dv_workers s' 3) = Some (Some 7) \<and> (\<forall>v. v \<noteq> 3 \<longrightarrow> dv_workers s' v = dv_workers wex_sys v) \<and> wrapper_back True (\<lambda>_. 1) s' (Some 3) = Some (Inr s') \<and>
    wrapper_begin True (\<lambda>_. 1) s' (Some 3) = Some (Inl WouldBlock)"
  by (rule wrapper_yield_loses_task [of _ _ "dex_task\<lparr>t_state := TASK_RUNNING, t_worker_context := Some 3\<rparr>" _
        "dex_worker\<lparr>dk_wid := - 1, dk_current_task := Some 7\<rparr>"])
    (simp_all add: wex_sys_def dex_worker_def LPEL_MAP_OTHERS_def)

text \<open>
  Why the properties above exclude \<open>LPEL_MIG_WAIT_PROP\<close>. A task that blocks runs the dispatcher on its own stack, and the dispatcher handles
  the messages of the worker, its own wakeup among them. When the policy then names another worker, the task is sent there before
  its machine context has been saved. The model takes the dispatcher as one step; in the code the other worker may
  switch to the task before the switch away from it.
\<close>

definition wp_sys :: decen_sys where
  "wp_sys = \<lparr>dv_tasks = [7 \<mapsto> dex_task\<lparr>t_state := TASK_BLOCKED, t_worker_context := Some 1\<rparr>],
     dv_workers = [1 \<mapsto> dex_worker\<lparr>dk_num_tasks := 1, dk_current_task := Some 7, dk_sched := Some (LpelSchedCreate 0),
         dk_mailbox := [mk_msg MSG_WAKEUP_decen (Some 7)]\<rparr>,
       2 \<mapsto> dex_worker\<lparr>dk_wid := 1, dk_sched := Some (LpelSchedCreate 1)\<rparr>],
     dv_table = [1, 2]\<rparr>"

theorem wait_prop_sends_itself:
  "case FetchAllMessages True (\<lambda>_. 1) wp_sys (Some 1) of
     Some (Inr s') \<Rightarrow> map_option dk_current_task (dv_workers s' 1) = Some (Some 7) \<and>
       map_option dk_mailbox (dv_workers s' 2) = Some [mk_msg MSG_ASSIGN_decen (Some 7)] \<and>
       map_option t_state (dv_tasks s' 7) = Some TASK_READY \<and> map_option t_worker_context (dv_tasks s' 7) = Some (Some 2)
   | _ \<Rightarrow> False"
  by code_simp

end
