(* ===== verification/Decen_Spmd.thy ===== *)
theory Decen_Spmd
  imports Decen_Task Spmd
begin

text \<open>
  Where the SPMD extension meets the scheduler: \<open>LpelTaskEnterSPMD\<close> of \<open>decen_task.c\<close>, which queues a request,
  notifies all workers and blocks, and the end of a request in \<open>spmdext.c\<close>, where the master makes the task
  ready again. A worker without a request passes the call of \<open>LpelSpmdHandleRequests\<close> in its loop and in
  the dispatcher without an effect, which is why the model of the loops leaves the call out.
\<close>

section \<open>Model\<close>

text \<open>Everything before the task leaves the processor.\<close>

definition enter_spmd :: "decen_sys \<Rightarrow> spmd_t \<Rightarrow> addr \<Rightarrow> nat \<Rightarrow> ptr \<Rightarrow> (decen_sys \<times> spmd_t) res" where
  "enter_spmd s S ct func arg =
     bindR (deref (dv_tasks s) (Some ct)) (\<lambda>c.
     bindR (assertR (t_state c = TASK_RUNNING)) (\<lambda>_.
     bindR (assertR (t_worker_context c \<noteq> None)) (\<lambda>_.
     bindR (deref (dv_workers s) (t_worker_context c)) (\<lambda>k.
     bindR (LpelSpmdRequest S (Some ct) (dk_wid k) func arg) (\<lambda>S1.
     bindR (LpelWorkerBroadcast_decen s \<lparr>msg_type = MSG_SPMDREQ_decen, msg_body = BFromWorker (dk_wid k)\<rparr>) (\<lambda>s1.
     bindR (upd_tk s1 (Some ct) (\<lambda>c. c\<lparr>t_state := TASK_BLOCKED\<rparr>)) (\<lambda>s2. Inr (s2, S1))))))))"

definition LpelTaskEnterSPMD :: "bool \<Rightarrow> (ptr \<Rightarrow> int) \<Rightarrow> decen_sys \<Rightarrow> spmd_t \<Rightarrow> addr \<Rightarrow> nat \<Rightarrow> ptr \<Rightarrow>
    ((sw \<times> decen_sys) \<times> spmd_t) run" where
  "LpelTaskEnterSPMD mig pick s S ct func arg =
     bindO (Some (enter_spmd s S ct func arg)) (\<lambda>(s1, S1).
     bindO (Some (TaskStop s1 ct)) (\<lambda>_.
     bindO (LpelWorkerDispatcher mig pick s1 (Some ct)) (\<lambda>r. Some (Inr (r, S1)))))"

text \<open>The master at the end of the stop barrier: the request is over and its task is ready.\<close>

definition spmd_release :: "bool \<Rightarrow> (ptr \<Rightarrow> int) \<Rightarrow> decen_sys \<Rightarrow> spmd_t \<Rightarrow> nat \<Rightarrow> spmdreq_t \<Rightarrow> (decen_sys \<times> spmd_t) res" where
  "spmd_release mig pick s S w curreq =
     bindR (master_done S w) (\<lambda>S1.
     bindR (deref (dv_tasks s) (rq_task curreq)) (\<lambda>c.
     bindR (LpelWorkerTaskWakeupLocal mig pick s (t_worker_context c) (rq_task curreq)) (\<lambda>s1. Inr (s1, S1))))"

section \<open>Entering\<close>

text \<open>A broadcast appends the message once to the mailbox of every worker of the table.\<close>

lemma broadcast_mailboxes:
  assumes "distinct ws" and "set ws \<subseteq> dom (dv_workers s)"
  shows "broadcast s ws m = Inr (s\<lparr>dv_workers := (\<lambda>a. if a \<in> set ws
    then map_option (\<lambda>k. k\<lparr>dk_mailbox := dk_mailbox k @ [m]\<rparr>) (dv_workers s a) else dv_workers s a)\<rparr>)"
  using assms
proof (induction ws arbitrary: s)
  case (Cons a ws)
  then obtain k where k: "dv_workers s a = Some k" by auto
  let ?s = "s\<lparr>dv_workers := (dv_workers s)(a \<mapsto> k\<lparr>dk_mailbox := dk_mailbox k @ [m]\<rparr>)\<rparr>"
  have sub: "set ws \<subseteq> dom (dv_workers ?s)" using Cons.prems(2) by auto
  have "broadcast s (a # ws) m = broadcast ?s ws m" using k by (simp add: send_to_def)
  also have "\<dots> = Inr (?s\<lparr>dv_workers := (\<lambda>b. if b \<in> set ws
    then map_option (\<lambda>k. k\<lparr>dk_mailbox := dk_mailbox k @ [m]\<rparr>) (dv_workers ?s b) else dv_workers ?s b)\<rparr>)"
    using Cons.IH[OF _ sub] Cons.prems(1) by simp
  also have "(\<lambda>b. if b \<in> set ws then map_option (\<lambda>k. k\<lparr>dk_mailbox := dk_mailbox k @ [m]\<rparr>) (dv_workers ?s b) else dv_workers ?s b)
    = (\<lambda>b. if b \<in> set (a # ws) then map_option (\<lambda>k. k\<lparr>dk_mailbox := dk_mailbox k @ [m]\<rparr>) (dv_workers s b) else dv_workers s b)"
    using k Cons.prems(1) by (auto simp: fun_eq_iff)
  finally show ?case by simp
qed simp

text \<open>
  A request of a running task: it stands in the next free slot with the worker of the task as master, every
  worker is notified once, the task is blocked.
\<close>

lemma enter_spmd_ok:
  assumes "dv_tasks s t = Some c" "t_state c = TASK_RUNNING" "t_worker_context c = Some w" "dv_workers s w = Some k"
    and "0 \<le> dk_wid k" "dk_wid k < sp_num_workers S" "int (length (sp_worker_data S)) = sp_num_workers S"
    "length (sp_req_queue S) = length (sp_worker_data S)" "sw_pending (sp_worker_data S ! nat (dk_wid k)) = 0"
    and "distinct (dv_table s)" "set (dv_table s) \<subseteq> dom (dv_workers s)"
  shows "\<exists>s' S'. enter_spmd s S t func arg = Inr (s', S') \<and>
    sp_req_queue S' ! (sp_qtail S mod nat (sp_num_workers S)) = \<lparr>rq_wctx = Some (nat (dk_wid k)), rq_func = func, rq_arg = arg, rq_task = Some t\<rparr> \<and>
    sp_qtail S' = sp_qtail S + 1 \<and> sw_pending (sp_worker_data S' ! nat (dk_wid k)) = 1 \<and>
    dv_tasks s' t = Some (c\<lparr>t_state := TASK_BLOCKED\<rparr>) \<and>
    (\<forall>v k. v \<in> set (dv_table s) \<longrightarrow> dv_workers s v = Some k \<longrightarrow> (\<exists>k'. dv_workers s' v = Some k' \<and>
       (\<exists>m. msg_type m = MSG_SPMDREQ_decen \<and> dk_mailbox k' = dk_mailbox k @ [m])))"
proof -
  define n where "n = length (sp_worker_data S)"
  let ?i = "sp_qtail S mod n"
  have n: "nat (sp_num_workers S) = n" "nat (dk_wid k) < n" "?i < n"
    using assms(5-7) by (auto simp: n_def intro!: mod_less_divisor)
  show ?thesis
    using assms n unfolding n_def[symmetric]
    by (simp add: enter_spmd_def LpelSpmdRequest_def req_pending_def req_slot_def req_wctx_def req_rest_def upd_worker_def upd_req_def
        aget_def LpelWorkerBroadcast_decen_def broadcast_mailboxes) (auto simp: n_def)
qed

text \<open>Only tasks of workers may enter: for the task of a wrapper the assertion on its worker id fails.\<close>

lemma enter_spmd_wrapper:
  assumes "dv_tasks s t = Some c" "t_state c = TASK_RUNNING" "t_worker_context c = Some w" "dv_workers s w = Some k" "dk_wid k < 0"
  shows "enter_spmd s S t func arg = Inl AssertFail"
  using assms by (simp add: enter_spmd_def LpelSpmdRequest_def req_pending_def)

text \<open>A worker that finds no request at the head leaves \<open>LpelSpmdHandleRequests\<close> and changes nothing.\<close>

lemma no_request_no_effect:
  assumes "sp_qhead S < length (sp_req_queue S)" "rq_wctx (sp_req_queue S ! sp_qhead S) = None"
  shows "spmd_step S w HTop = Some (Inr (S, HRead (sp_qhead S)))"
    and "spmd_step S w (HRead (sp_qhead S)) = Some (Inr (S, Outside))"
  using assms by (simp_all add: handle_read_def aget_def)

end
