(* ===== verification/Hrc_Taskqueue.thy ===== *)
theory Hrc_Taskqueue
  imports Hrc_Types
begin

text \<open>
  \<open>src/sched/hierarchy/hrc_taskqueue.c\<close>: the priority queue of ready tasks, a binary heap in an
  array whose cell 0 is unused and which grows by blocks. A cell that was never written is
  \<open>None\<close>; reading it where the code uses the value is the error \<open>Indeterminate\<close>. The loops
  \<open>upHeap\<close> and \<open>downHeap\<close> move a hole; they are proved equal to loops that swap neighbours on
  the list of queued tasks, whose heap order and multiset are then established.
  Counts and positions are natural numbers (the source's \<open>int\<close> and \<open>unsigned\<close> agree with them
  below \<open>2 ^ 30\<close> queued tasks).
\<close>

section \<open>Model\<close>

definition BLOCKSIZE :: nat where
  "BLOCKSIZE = 50"

record taskheap_t =
  th_heap :: "ptr option list"
  th_count :: nat
  th_alloc :: nat

definition cell_get :: "ptr option list \<Rightarrow> nat \<Rightarrow> ptr res" where
  "cell_get hp i = bindR (aget hp i) (\<lambda>c. case c of None \<Rightarrow> Inl Indeterminate | Some p \<Rightarrow> Inr p)"

definition prior_of_cell :: "ptr option list \<Rightarrow> hrc_tasks \<Rightarrow> nat \<Rightarrow> double res" where
  "prior_of_cell hp h i = bindR (cell_get hp i) (\<lambda>p. bindR (deref h p) (\<lambda>t. Inr (prior (ht_sched_info t))))"

function up_loop :: "ptr option list \<Rightarrow> hrc_tasks \<Rightarrow> double \<Rightarrow> nat \<Rightarrow> (nat \<times> ptr option list) res" where
  "up_loop hp h p pos =
     (let parent = pos div 2 in
      if parent = 0 then Inr (pos, hp)
      else (case prior_of_cell hp h parent of Inl e \<Rightarrow> Inl e | Inr q \<Rightarrow>
        if p > q then
          (case bindR (aget hp parent) (aset hp pos) of Inl e \<Rightarrow> Inl e
           | Inr hp' \<Rightarrow> up_loop hp' h p parent)
        else Inr (pos, hp)))"
  by auto
termination by (relation "measure (\<lambda>(hp, h, p, pos). pos)") (auto simp: div_eq_0_iff)

definition upHeap :: "taskheap_t \<Rightarrow> hrc_tasks \<Rightarrow> nat \<Rightarrow> taskheap_t res" where
  "upHeap tq h pos =
     bindR (cell_get (th_heap tq) pos) (\<lambda>t.
     bindR (deref h t) (\<lambda>c.
     bindR (up_loop (th_heap tq) h (prior (ht_sched_info c)) pos) (\<lambda>(pos', hp).
     bindR (aset hp pos' (Some t)) (\<lambda>hp'. Inr (tq\<lparr>th_heap := hp'\<rparr>)))))"

text \<open>
  The child taken by the loop of \<open>downHeap\<close>. The loop never runs at position 0, whose cell is
  never written.
\<close>

definition pick_child :: "ptr option list \<Rightarrow> hrc_tasks \<Rightarrow> nat \<Rightarrow> nat \<Rightarrow> nat res" where
  "pick_child hp h n child =
     (if child + 1 < n then
        bindR (prior_of_cell hp h child) (\<lambda>a. bindR (prior_of_cell hp h (child + 1)) (\<lambda>b.
          Inr (if a < b then child + 1 else child)))
      else Inr child)"

lemma pick_child_ge: "pick_child hp h n c = Inr d \<Longrightarrow> c \<le> d \<and> (c < n \<longrightarrow> d < n)"
  by (auto simp: pick_child_def bindR_eq_Inr split: if_splits)

function down_loop :: "ptr option list \<Rightarrow> hrc_tasks \<Rightarrow> nat \<Rightarrow> double \<Rightarrow> nat \<Rightarrow> (nat \<times> ptr option list) res" where
  "down_loop hp h n p pos =
     (if pos = 0 then Inl Indeterminate
      else if \<not> pos * 2 < n then Inr (pos, hp)
      else (case pick_child hp h n (pos * 2) of Inl e \<Rightarrow> Inl e | Inr child \<Rightarrow>
        (case prior_of_cell hp h child of Inl e \<Rightarrow> Inl e | Inr q \<Rightarrow>
          if p \<ge> q then Inr (pos, hp)
          else (case bindR (aget hp child) (aset hp pos) of Inl e \<Rightarrow> Inl e
            | Inr hp' \<Rightarrow> down_loop hp' h n p child))))"
  by auto
termination by (relation "measure (\<lambda>(hp, h, n, p, pos). n - pos)") (auto dest!: pick_child_ge)

definition downHeap :: "taskheap_t \<Rightarrow> hrc_tasks \<Rightarrow> nat \<Rightarrow> taskheap_t res" where
  "downHeap tq h pos =
     bindR (cell_get (th_heap tq) pos) (\<lambda>t.
     bindR (deref h t) (\<lambda>c.
     bindR (down_loop (th_heap tq) h (th_count tq) (prior (ht_sched_info c)) pos) (\<lambda>(pos', hp).
     bindR (aset hp pos' (Some t)) (\<lambda>hp'. Inr (tq\<lparr>th_heap := hp'\<rparr>)))))"

function search_from :: "taskheap_t \<Rightarrow> ptr \<Rightarrow> nat \<Rightarrow> int res" where
  "search_from tq t i =
     (if i < th_count tq then
        (case cell_get (th_heap tq) i of Inl e \<Rightarrow> Inl e
         | Inr p \<Rightarrow> if p = t then Inr (int i) else search_from tq t (i + 1))
      else Inr (- 1))"
  by auto
termination by (relation "measure (\<lambda>(tq, t, i). th_count tq - i)") auto

definition searchItem :: "taskheap_t \<Rightarrow> ptr \<Rightarrow> int res" where
  "searchItem tq t = search_from tq t 1"

definition LpelTaskheapInit :: taskheap_t where
  "LpelTaskheapInit = \<lparr>th_heap = replicate BLOCKSIZE None, th_count = 1, th_alloc = BLOCKSIZE\<rparr>"

definition LpelTaskheapPush :: "taskheap_t \<Rightarrow> hrc_tasks \<Rightarrow> ptr \<Rightarrow> taskheap_t res" where
  "LpelTaskheapPush tq h t =
     (let tq1 = (if th_count tq \<ge> th_alloc tq
                 then tq\<lparr>th_alloc := th_alloc tq + BLOCKSIZE, th_heap := th_heap tq @ replicate BLOCKSIZE None\<rparr>
                 else tq) in
      bindR (aset (th_heap tq1) (th_count tq1) (Some t)) (\<lambda>hp.
      bindR (upHeap (tq1\<lparr>th_heap := hp\<rparr>) h (th_count tq1)) (\<lambda>tq2.
        Inr (tq2\<lparr>th_count := th_count tq2 + 1\<rparr>))))"

definition LpelTaskheapRemoveHead :: "taskheap_t \<Rightarrow> hrc_tasks \<Rightarrow> taskheap_t res" where
  "LpelTaskheapRemoveHead tq h =
     (let tq1 = tq\<lparr>th_count := th_count tq - 1\<rparr> in
      bindR (aget (th_heap tq1) (th_count tq1)) (\<lambda>c.
      bindR (aset (th_heap tq1) 1 c) (\<lambda>hp. downHeap (tq1\<lparr>th_heap := hp\<rparr>) h 1)))"

definition LpelTaskheapPeek :: "taskheap_t \<Rightarrow> ptr res" where
  "LpelTaskheapPeek tq = (if th_count tq = 1 then Inr None else cell_get (th_heap tq) 1)"

definition LpelTaskheapPop :: "taskheap_t \<Rightarrow> hrc_tasks \<Rightarrow> (ptr \<times> taskheap_t) res" where
  "LpelTaskheapPop tq h =
     (if th_count tq = 1 then Inr (None, tq)
      else bindR (cell_get (th_heap tq) 1) (\<lambda>t.
           bindR (LpelTaskheapRemoveHead tq h) (\<lambda>tq'. Inr (t, tq'))))"

definition LpelTaskheapSize :: "taskheap_t \<Rightarrow> int" where
  "LpelTaskheapSize tq = int (th_count tq) - 1"

definition set_prior :: "hrc_tasks \<Rightarrow> ptr \<Rightarrow> double \<Rightarrow> hrc_tasks res" where
  "set_prior h t np = upd h t (\<lambda>c. c\<lparr>ht_sched_info := (ht_sched_info c)\<lparr>prior := np\<rparr>\<rparr>)"

definition LpelTaskheapUpdatePriority ::
  "taskheap_t \<Rightarrow> hrc_tasks \<Rightarrow> ptr \<Rightarrow> double \<Rightarrow> (taskheap_t \<times> hrc_tasks) res" where
  "LpelTaskheapUpdatePriority tq h t np =
     bindR (searchItem tq t) (\<lambda>pos.
     bindR (assertR (pos > 0)) (\<lambda>_.
     bindR (deref h t) (\<lambda>c.
     bindR (set_prior h t np) (\<lambda>h'.
       let p = prior (ht_sched_info c) in
       if np > p then bindR (upHeap tq h' (nat pos)) (\<lambda>tq'. Inr (tq', h'))
       else if np < p then bindR (downHeap tq h' (nat pos)) (\<lambda>tq'. Inr (tq', h'))
       else Inr (tq, h')))))"

section \<open>Heap order\<close>

text \<open>
  Heap order of keys \<open>K 1\<close>, ..., \<open>K n\<close>, and the same with one place where it may fail: towards the
  parent of \<open>pos\<close> (while an element rises) or towards the children of \<open>pos\<close> (while it sinks).
\<close>

definition heap_ord :: "(nat \<Rightarrow> double) \<Rightarrow> nat \<Rightarrow> bool" where
  "heap_ord K n \<longleftrightarrow> (\<forall>i. 2 \<le> i \<longrightarrow> i \<le> n \<longrightarrow> K i \<le> K (i div 2))"

definition rise_ord :: "(nat \<Rightarrow> double) \<Rightarrow> nat \<Rightarrow> nat \<Rightarrow> bool" where
  "rise_ord K n pos \<longleftrightarrow> (\<forall>i. 2 \<le> i \<longrightarrow> i \<le> n \<longrightarrow> i \<noteq> pos \<longrightarrow> K i \<le> K (i div 2)) \<and>
     (2 \<le> pos \<longrightarrow> (\<forall>i. 2 \<le> i \<longrightarrow> i \<le> n \<longrightarrow> i div 2 = pos \<longrightarrow> K i \<le> K (pos div 2)))"

definition sink_ord :: "(nat \<Rightarrow> double) \<Rightarrow> nat \<Rightarrow> nat \<Rightarrow> bool" where
  "sink_ord K n pos \<longleftrightarrow> (\<forall>i. 2 \<le> i \<longrightarrow> i \<le> n \<longrightarrow> i div 2 \<noteq> pos \<longrightarrow> K i \<le> K (i div 2)) \<and>
     (2 \<le> pos \<longrightarrow> (\<forall>i. 2 \<le> i \<longrightarrow> i \<le> n \<longrightarrow> i div 2 = pos \<longrightarrow> K i \<le> K (pos div 2)))"

lemma rise_done:
  assumes "rise_ord K n pos" and "pos < 2 \<or> K pos \<le> K (pos div 2)"
  shows "heap_ord K n"
  using assms unfolding rise_ord_def heap_ord_def by (metis not_less)

lemma rise_step:
  assumes "rise_ord K n pos" and "2 \<le> pos" and "pos \<le> n" and "K pos > K (pos div 2)"
  shows "rise_ord (K(pos := K (pos div 2), pos div 2 := K pos)) n (pos div 2)"
proof -
  let ?p = "pos div 2"
  have ne: "?p \<noteq> pos" "?p div 2 \<noteq> pos" "1 \<le> ?p" using assms(2) by auto
  have up: "K i \<le> K (i div 2)" if "2 \<le> i" "i \<le> n" "i \<noteq> pos" for i
    using assms(1) that by (simp add: rise_ord_def)
  have gr: "K i \<le> K ?p" if "2 \<le> i" "i \<le> n" "i div 2 = pos" for i
    using assms(1,2) that by (simp add: rise_ord_def)
  have low: "K i \<le> K pos" if "2 \<le> i" "i \<le> n" "i \<noteq> pos" "i div 2 = ?p" for i
    using up [OF that(1-3)] that(4) assms(4) by simp
  show ?thesis
    unfolding rise_ord_def
  proof (intro conjI allI impI)
    fix i assume i: "2 \<le> i" "i \<le> n" "i \<noteq> ?p"
    show "(K(pos := K ?p, ?p := K pos)) i \<le> (K(pos := K ?p, ?p := K pos)) (i div 2)"
      using i ne up [of i] gr [of i] low [of i] assms(4) by (auto simp: fun_upd_def)
  next
    fix i assume p: "2 \<le> ?p" and i: "2 \<le> i" "i \<le> n" "i div 2 = ?p"
    have pg: "K ?p \<le> K (?p div 2)" using up [of ?p] p ne assms(3) by simp
    have "?p div 2 \<noteq> ?p" using p by simp
    then show "(K(pos := K ?p, ?p := K pos)) i \<le> (K(pos := K ?p, ?p := K pos)) (?p div 2)"
      using i ne pg up [of i] by (auto simp: fun_upd_def)
  qed
qed

lemma sink_done:
  assumes "sink_ord K n pos" and "\<And>i. 2 \<le> i \<Longrightarrow> i \<le> n \<Longrightarrow> i div 2 = pos \<Longrightarrow> K i \<le> K pos"
  shows "heap_ord K n"
  using assms unfolding sink_ord_def heap_ord_def by metis

lemma sink_step:
  assumes "sink_ord K n pos" and "1 \<le> pos" and "c \<le> n" and c: "c div 2 = pos" "K pos < K c"
    and max: "\<And>i. 2 \<le> i \<Longrightarrow> i \<le> n \<Longrightarrow> i div 2 = pos \<Longrightarrow> K i \<le> K c"
  shows "sink_ord (K(pos := K c, c := K pos)) n c"
proof -
  have ne: "c \<noteq> pos" "2 \<le> c" using assms(2) c(1) by auto
  have up: "K i \<le> K (i div 2)" if "2 \<le> i" "i \<le> n" "i div 2 \<noteq> pos" for i
    using assms(1) that by (simp add: sink_ord_def)
  have gr: "K i \<le> K (pos div 2)" if "2 \<le> i" "i \<le> n" "i div 2 = pos" "2 \<le> pos" for i
    using assms(1) that by (simp add: sink_ord_def)
  show ?thesis
    unfolding sink_ord_def
  proof (intro conjI allI impI)
    fix i assume i: "2 \<le> i" "i \<le> n" "i div 2 \<noteq> c"
    show "(K(pos := K c, c := K pos)) i \<le> (K(pos := K c, c := K pos)) (i div 2)"
    proof (cases "i = pos")
      case True
      then have "pos div 2 \<noteq> pos" "pos div 2 \<noteq> c" using i c(1) by auto
      then show ?thesis using True i gr [of c] ne c assms(3) by (auto simp: fun_upd_def)
    next
      case False
      then show ?thesis using i ne c up [of i] max [of i] by (auto simp: fun_upd_def)
    qed
  next
    fix i assume i: "2 \<le> i" "i \<le> n" "i div 2 = c"
    then have "i \<noteq> pos" "i \<noteq> c" using c(1) by auto
    moreover have "K i \<le> K c" using up [of i] i ne by simp
    ultimately show "(K(pos := K c, c := K pos)) i \<le> (K(pos := K c, c := K pos)) (c div 2)"
      using c ne by (auto simp: fun_upd_def)
  qed
qed

lemma heap_root_max:
  assumes "heap_ord K n" and "1 \<le> i" and "i \<le> n"
  shows "K i \<le> K 1"
  using assms(2,3)
proof (induction i rule: less_induct)
  case (less i)
  show ?case
  proof (cases "i = 1")
    case False
    then have "K i \<le> K (i div 2)" using less.prems assms(1) by (simp add: heap_ord_def)
    also have "\<dots> \<le> K 1" using less False by (intro less.IH) auto
    finally show ?thesis .
  qed simp
qed

section \<open>Swapping loops on the list of queued tasks\<close>

definition nth1 :: "'a list \<Rightarrow> nat \<Rightarrow> 'a" where
  "nth1 ts i = ts ! (i - 1)"

definition swap1 :: "'a list \<Rightarrow> nat \<Rightarrow> nat \<Rightarrow> 'a list" where
  "swap1 ts i j = ts[i - 1 := nth1 ts j, j - 1 := nth1 ts i]"

lemma swap1_length [simp]: "length (swap1 ts i j) = length ts"
  by (simp add: swap1_def)

lemma swap1_mset: "1 \<le> i \<Longrightarrow> 1 \<le> j \<Longrightarrow> i \<le> length ts \<Longrightarrow> j \<le> length ts \<Longrightarrow> mset (swap1 ts i j) = mset ts"
  using mset_swap [of "j - 1" ts "i - 1"] by (auto simp: swap1_def nth1_def)

lemma nth1_swap1:
  assumes "1 \<le> i" "1 \<le> j" "i \<le> length ts" "j \<le> length ts" "1 \<le> l" "l \<le> length ts"
  shows "nth1 (swap1 ts i j) l = (if l = j then nth1 ts i else if l = i then nth1 ts j else nth1 ts l)"
  using assms by (auto simp: swap1_def nth1_def nth_list_update)

function rise :: "(addr \<Rightarrow> double) \<Rightarrow> addr list \<Rightarrow> nat \<Rightarrow> addr list" where
  "rise k ts pos = (if 2 \<le> pos \<and> k (nth1 ts pos) > k (nth1 ts (pos div 2))
     then rise k (swap1 ts pos (pos div 2)) (pos div 2) else ts)"
  by auto
termination by (relation "measure (\<lambda>(k, ts, pos). pos)") auto

definition big_child :: "(addr \<Rightarrow> double) \<Rightarrow> addr list \<Rightarrow> nat \<Rightarrow> nat" where
  "big_child k ts pos = (if 2 * pos + 1 \<le> length ts \<and> k (nth1 ts (2 * pos)) < k (nth1 ts (2 * pos + 1))
     then 2 * pos + 1 else 2 * pos)"

function sink :: "(addr \<Rightarrow> double) \<Rightarrow> addr list \<Rightarrow> nat \<Rightarrow> addr list" where
  "sink k ts pos = (if 1 \<le> pos \<and> 2 * pos \<le> length ts \<and> k (nth1 ts pos) < k (nth1 ts (big_child k ts pos))
     then sink k (swap1 ts pos (big_child k ts pos)) (big_child k ts pos) else ts)"
  by auto
termination by (relation "measure (\<lambda>(k, ts, pos). length ts - pos)") (auto simp: big_child_def)

declare rise.simps [simp del] sink.simps [simp del]
declare up_loop.simps [simp del] down_loop.simps [simp del] search_from.simps [simp del]

abbreviation keys :: "(addr \<Rightarrow> double) \<Rightarrow> addr list \<Rightarrow> nat \<Rightarrow> double" where
  "keys k ts \<equiv> \<lambda>i. k (nth1 ts i)"

definition is_heap :: "(addr \<Rightarrow> double) \<Rightarrow> addr list \<Rightarrow> bool" where
  "is_heap k ts \<longleftrightarrow> heap_ord (keys k ts) (length ts)"

lemma ord_cong:
  assumes "\<And>i. 1 \<le> i \<Longrightarrow> i \<le> n \<Longrightarrow> K i = L i"
  shows "rise_ord K n pos \<Longrightarrow> pos \<le> n \<Longrightarrow> rise_ord L n pos" "sink_ord K n pos \<Longrightarrow> pos \<le> n \<Longrightarrow> sink_ord L n pos"
proof -
  have d: "2 \<le> i \<Longrightarrow> i \<le> n \<Longrightarrow> K i = L i \<and> K (i div 2) = L (i div 2)" for i
    using assms [of i] assms [of "i div 2"] by auto
  show "rise_ord K n pos \<Longrightarrow> pos \<le> n \<Longrightarrow> rise_ord L n pos" "sink_ord K n pos \<Longrightarrow> pos \<le> n \<Longrightarrow> sink_ord L n pos"
    unfolding rise_ord_def sink_ord_def using d by auto
qed

lemma rise_heap:
  assumes "rise_ord (keys k ts) (length ts) pos" and "1 \<le> pos" and "pos \<le> length ts"
  shows "is_heap k (rise k ts pos)"
  using assms
proof (induction k ts pos rule: rise.induct)
  case (1 k ts pos)
  show ?case
  proof (cases "2 \<le> pos \<and> k (nth1 ts pos) > k (nth1 ts (pos div 2))")
    case True
    let ?ts = "swap1 ts pos (pos div 2)"
    have "rise_ord ((keys k ts)(pos := keys k ts (pos div 2), pos div 2 := keys k ts pos)) (length ts) (pos div 2)"
      using rise_step [of "keys k ts" "length ts" pos] 1(2-) True by simp
    then have "rise_ord (keys k ?ts) (length ts) (pos div 2)"
      using 1(2-) True by (elim ord_cong(1) [rotated]) (auto simp: nth1_swap1)
    moreover have "1 \<le> pos div 2" using True by auto
    ultimately have "is_heap k (rise k ?ts (pos div 2))" using 1(1) True 1(3,4) by simp
    then show ?thesis using True by (subst rise.simps) simp
  next
    case False
    then have "heap_ord (keys k ts) (length ts)" using 1(2) by (intro rise_done) auto
    then show ?thesis using False by (subst rise.simps) (auto simp: is_heap_def)
  qed
qed

lemma big_child_max:
  assumes "1 \<le> pos" and "2 * pos \<le> length ts" and "i \<le> length ts" and "i div 2 = pos"
  shows "k (nth1 ts i) \<le> k (nth1 ts (big_child k ts pos))"
proof -
  have "i = 2 * pos \<or> i = 2 * pos + 1" using assms(4) by auto
  then show ?thesis using assms by (auto simp: big_child_def)
qed

lemma big_child_bounds:
  "1 \<le> pos \<Longrightarrow> 2 * pos \<le> length ts \<Longrightarrow> big_child k ts pos \<le> length ts \<and> 2 \<le> big_child k ts pos \<and>
   big_child k ts pos div 2 = pos \<and> pos \<noteq> big_child k ts pos"
  by (auto simp: big_child_def)

lemma sink_heap:
  assumes "sink_ord (keys k ts) (length ts) pos" and "1 \<le> pos" and "pos \<le> length ts"
  shows "is_heap k (sink k ts pos)"
  using assms
proof (induction k ts pos rule: sink.induct)
  case (1 k ts pos)
  let ?c = "big_child k ts pos"
  show ?case
  proof (cases "2 * pos \<le> length ts \<and> k (nth1 ts pos) < k (nth1 ts ?c)")
    case True
    let ?ts = "swap1 ts pos ?c"
    note b = big_child_bounds [of pos ts k]
    have "sink_ord ((keys k ts)(pos := keys k ts ?c, ?c := keys k ts pos)) (length ts) ?c"
      using 1(2-) True b big_child_max by (intro sink_step) auto
    then have "sink_ord (keys k ?ts) (length ts) ?c"
      using 1(2-) True b by (elim ord_cong(2) [rotated]) (auto simp: nth1_swap1)
    then have "is_heap k (sink k ?ts ?c)" using 1(1,3,4) True b by simp
    then show ?thesis using True 1(3) by (subst sink.simps) simp
  next
    case False
    have "k (nth1 ts i) \<le> k (nth1 ts pos)" if "2 \<le> i" "i \<le> length ts" "i div 2 = pos" for i
    proof -
      have "2 * pos \<le> length ts" using that by auto
      then show ?thesis using False big_child_max [of pos ts i k] 1(3) that by auto
    qed
    then have "heap_ord (keys k ts) (length ts)" using 1(2) by (intro sink_done) auto
    then show ?thesis using False by (subst sink.simps) (auto simp: is_heap_def)
  qed
qed

lemma rise_mset: "pos \<le> length ts \<Longrightarrow> mset (rise k ts pos) = mset ts"
proof (induction k ts pos rule: rise.induct)
  case (1 k ts pos)
  then show ?case by (subst rise.simps) (auto simp: swap1_mset)
qed

lemma sink_mset: "pos \<le> length ts \<Longrightarrow> mset (sink k ts pos) = mset ts"
proof (induction k ts pos rule: sink.induct)
  case (1 k ts pos)
  then show ?case using big_child_bounds [of pos ts k] by (subst sink.simps) (auto simp: swap1_mset)
qed

section \<open>The array loops are the swapping loops\<close>

definition cells :: "ptr option list \<Rightarrow> addr list \<Rightarrow> bool" where
  "cells hp ts \<longleftrightarrow> length ts < length hp \<and> (\<forall>i. 1 \<le> i \<longrightarrow> i \<le> length ts \<longrightarrow> hp ! i = Some (Some (nth1 ts i)))"

lemma cells_at: "cells hp ts \<Longrightarrow> 1 \<le> i \<Longrightarrow> i \<le> length ts \<Longrightarrow> i < length hp \<and> hp ! i = Some (Some (nth1 ts i))"
  by (simp add: cells_def)

lemma cells_hole_at:
  "cells (hp[pos := c]) ts \<Longrightarrow> 1 \<le> i \<Longrightarrow> i \<le> length ts \<Longrightarrow> i \<noteq> pos \<Longrightarrow>
   i < length hp \<and> hp ! i = Some (Some (nth1 ts i))"
  by (auto simp: cells_def)

lemma nth1_in_set: "1 \<le> i \<Longrightarrow> i \<le> length ts \<Longrightarrow> nth1 ts i \<in> set ts"
  by (simp add: nth1_def)

lemma prior_of_cell_ok:
  assumes "cells (hp[pos := c]) ts" and "set ts \<subseteq> dom h" and "1 \<le> i" "i \<le> length ts" "i \<noteq> pos"
  shows "prior_of_cell hp h i = Inr (prio_at h (nth1 ts i))"
proof -
  from assms(2) nth1_in_set [OF assms(3,4)] obtain t where "h (nth1 ts i) = Some t" by blast
  then show ?thesis using cells_hole_at [OF assms(1,3-5)]
    by (simp add: prior_of_cell_def cell_get_def prio_at_def)
qed

lemma cells_swap:
  assumes "cells (hp[pos := Some (Some (nth1 ts pos))]) ts" and "1 \<le> pos" "pos \<le> length ts"
    and "1 \<le> j" "j \<le> length ts" "j \<noteq> pos"
  shows "cells (hp[pos := hp ! j, j := Some (Some (nth1 ts pos))]) (swap1 ts pos j)"
  using assms cells_hole_at [OF assms(1) assms(4-6)]
  by (auto simp: cells_def nth1_swap1 nth_list_update)

lemma swap1_set: "1 \<le> i \<Longrightarrow> 1 \<le> j \<Longrightarrow> i \<le> length ts \<Longrightarrow> j \<le> length ts \<Longrightarrow> set (swap1 ts i j) = set ts"
  using swap1_mset mset_eq_setD by metis

lemma up_loop_rise:
  assumes "cells (hp[pos := Some (Some t)]) ts" and "nth1 ts pos = t" and "1 \<le> pos" and "pos \<le> length ts"
    and "set ts \<subseteq> dom h"
  shows "\<exists>pos' hp'. up_loop hp h (prio_at h t) pos = Inr (pos', hp') \<and> pos' < length hp' \<and>
    length hp' = length hp \<and> cells (hp'[pos' := Some (Some t)]) (rise (prio_at h) ts pos)"
  using assms
proof (induction "prio_at h" ts pos arbitrary: hp rule: rise.induct)
  case (1 ts pos)
  let ?p = "pos div 2"
  have len: "pos < length hp" using 1(2,5) by (auto simp: cells_def)
  show ?case
  proof (cases "2 \<le> pos")
    case False
    then have "?p = 0" by simp
    then show ?thesis using False 1(2) len by (subst up_loop.simps, subst rise.simps) simp
  next
    case True
    then have p: "1 \<le> ?p" "?p \<le> length ts" "?p \<noteq> pos" "?p \<noteq> 0" using 1(5) by auto
    note pc = prior_of_cell_ok [OF 1(2) 1(6) p(1-3)] and at = cells_hole_at [OF 1(2) p(1-3)]
    show ?thesis
    proof (cases "prio_at h t > prio_at h (nth1 ts ?p)")
      case False
      then show ?thesis using True 1(2,3) len pc p
        by (subst up_loop.simps, subst rise.simps) (auto simp: Let_def)
    next
      case gt: True
      let ?ts = "swap1 ts pos ?p" and ?hp = "hp[pos := hp ! ?p]"
      have "cells (?hp[?p := Some (Some t)]) ?ts" using cells_swap [of hp pos ts ?p] 1(2-5) p by simp
      moreover have "nth1 ?ts ?p = t" using 1(3-5) p by (simp add: nth1_swap1)
      moreover have "set ?ts \<subseteq> dom h" using 1(4-6) p by (simp add: swap1_set)
      ultimately have "\<exists>pos' hp'. up_loop ?hp h (prio_at h t) ?p = Inr (pos', hp') \<and> pos' < length hp' \<and>
        length hp' = length ?hp \<and> cells (hp'[pos' := Some (Some t)]) (rise (prio_at h) ?ts ?p)"
        using True gt p 1(3) by (intro 1(1)) auto
      moreover have "up_loop hp h (prio_at h t) pos = up_loop ?hp h (prio_at h t) ?p"
        using gt p pc at len by (subst up_loop.simps) (simp add: Let_def)
      ultimately show ?thesis using True gt 1(3) by (subst rise.simps) simp
    qed
  qed
qed

lemma pick_child_ok:
  assumes "cells (hp[pos := c]) ts" and "set ts \<subseteq> dom h" and "1 \<le> pos" and "2 * pos \<le> length ts"
  shows "pick_child hp h (length ts + 1) (pos * 2) = Inr (big_child (prio_at h) ts pos)"
  using assms prior_of_cell_ok [OF assms(1,2), of "2 * pos"] prior_of_cell_ok [OF assms(1,2), of "2 * pos + 1"]
  by (auto simp: pick_child_def big_child_def mult.commute)

lemma down_loop_sink:
  assumes "cells (hp[pos := Some (Some t)]) ts" and "nth1 ts pos = t" and "1 \<le> pos" and "pos \<le> length ts"
    and "set ts \<subseteq> dom h"
  shows "\<exists>pos' hp'. down_loop hp h (length ts + 1) (prio_at h t) pos = Inr (pos', hp') \<and> pos' < length hp' \<and>
    length hp' = length hp \<and> cells (hp'[pos' := Some (Some t)]) (sink (prio_at h) ts pos)"
  using assms
proof (induction "prio_at h" ts pos arbitrary: hp rule: sink.induct)
  case (1 ts pos)
  let ?c = "big_child (prio_at h) ts pos"
  have len: "pos < length hp" using 1(2,5) by (auto simp: cells_def)
  show ?case
  proof (cases "2 * pos \<le> length ts")
    case False
    then show ?thesis using 1(2,4) len by (subst down_loop.simps, subst sink.simps) auto
  next
    case True
    note b = big_child_bounds [OF 1(4) True, of "prio_at h"]
    have c: "1 \<le> ?c" "?c \<le> length ts" "?c \<noteq> pos" using b by auto
    note pick = pick_child_ok [OF 1(2,6,4) True]
    note pc = prior_of_cell_ok [OF 1(2) 1(6) c] and at = cells_hole_at [OF 1(2) c]
    show ?thesis
    proof (cases "prio_at h t < prio_at h (nth1 ts ?c)")
      case False
      then show ?thesis using True 1(2-4) len pick pc
        by (subst down_loop.simps, subst sink.simps) (auto simp: mult.commute)
    next
      case lt: True
      let ?ts = "swap1 ts pos ?c" and ?hp = "hp[pos := hp ! ?c]"
      have "cells (?hp[?c := Some (Some t)]) ?ts" using cells_swap [of hp pos ts ?c] 1(2-5) c by simp
      moreover have "nth1 ?ts ?c = t" using 1(3-5) c by (simp add: nth1_swap1)
      moreover have "set ?ts \<subseteq> dom h" using 1(4-6) c by (simp add: swap1_set)
      ultimately have "\<exists>pos' hp'. down_loop ?hp h (length ?ts + 1) (prio_at h t) ?c = Inr (pos', hp') \<and>
        pos' < length hp' \<and> length hp' = length ?hp \<and>
        cells (hp'[pos' := Some (Some t)]) (sink (prio_at h) ?ts ?c)"
        using True lt c 1(3,4) by (intro 1(1)) auto
      moreover have "down_loop hp h (length ts + 1) (prio_at h t) pos =
          down_loop ?hp h (length ts + 1) (prio_at h t) ?c"
        using lt True pick pc at len 1(4) by (subst down_loop.simps) (auto simp: mult.commute)
      ultimately show ?thesis using True lt 1(3,4) by (subst sink.simps) simp
    qed
  qed
qed

section \<open>Operations on the represented queue\<close>

definition th_rep :: "taskheap_t \<Rightarrow> hrc_tasks \<Rightarrow> addr list \<Rightarrow> bool" where
  "th_rep tq h ts \<longleftrightarrow> cells (th_heap tq) ts \<and> length (th_heap tq) = th_alloc tq \<and>
     th_count tq = length ts + 1 \<and> set ts \<subseteq> dom h \<and> distinct ts"

definition th_inv :: "taskheap_t \<Rightarrow> hrc_tasks \<Rightarrow> addr set \<Rightarrow> bool" where
  "th_inv tq h S \<longleftrightarrow> (\<exists>ts. th_rep tq h ts \<and> is_heap (prio_at h) ts \<and> set ts = S)"

lemma th_inv_init: "th_inv LpelTaskheapInit h {}"
  unfolding th_inv_def
  by (rule exI [of _ "[]"]) (simp add: th_rep_def LpelTaskheapInit_def cells_def is_heap_def heap_ord_def BLOCKSIZE_def)

lemma prior_deref: "h t = Some c \<Longrightarrow> prior (ht_sched_info c) = prio_at h t"
  by (simp add: prio_at_def)

lemma upHeap_ok:
  assumes "th_heap tq = hp" and "cells hp ts" and "1 \<le> pos" and "pos \<le> length ts" and "set ts \<subseteq> dom h"
  shows "\<exists>hp'. upHeap tq h pos = Inr (tq\<lparr>th_heap := hp'\<rparr>) \<and> cells hp' (rise (prio_at h) ts pos) \<and>
    length hp' = length hp"
proof -
  let ?t = "nth1 ts pos"
  note at = cells_at [OF assms(2-4)]
  from assms(5) nth1_in_set [OF assms(3,4)] obtain c where c: "h ?t = Some c" by blast
  have "hp[pos := Some (Some ?t)] = hp" using at by (metis list_update_id)
  with up_loop_rise [of hp pos ?t ts h] assms obtain pos' hp' where
    "up_loop hp h (prio_at h ?t) pos = Inr (pos', hp')" "pos' < length hp'" "length hp' = length hp"
    "cells (hp'[pos' := Some (Some ?t)]) (rise (prio_at h) ts pos)" by auto
  then show ?thesis using assms(1) at c
    by (intro exI [of _ "hp'[pos' := Some (Some ?t)]"])
       (simp add: upHeap_def cell_get_def prior_deref [of h ?t c, OF c])
qed

lemma downHeap_ok:
  assumes "th_heap tq = hp" and "cells hp ts" and "1 \<le> pos" and "pos \<le> length ts" and "set ts \<subseteq> dom h"
    and "th_count tq = length ts + 1"
  shows "\<exists>hp'. downHeap tq h pos = Inr (tq\<lparr>th_heap := hp'\<rparr>) \<and> cells hp' (sink (prio_at h) ts pos) \<and>
    length hp' = length hp"
proof -
  let ?t = "nth1 ts pos"
  note at = cells_at [OF assms(2-4)]
  from assms(5) nth1_in_set [OF assms(3,4)] obtain c where c: "h ?t = Some c" by blast
  have "hp[pos := Some (Some ?t)] = hp" using at by (metis list_update_id)
  with down_loop_sink [of hp pos ?t ts h] assms obtain pos' hp' where
    "down_loop hp h (length ts + 1) (prio_at h ?t) pos = Inr (pos', hp')" "pos' < length hp'"
    "length hp' = length hp" "cells (hp'[pos' := Some (Some ?t)]) (sink (prio_at h) ts pos)" by auto
  then show ?thesis using assms(1,6) at c
    by (intro exI [of _ "hp'[pos' := Some (Some ?t)]"])
       (simp add: downHeap_def cell_get_def prior_deref [of h ?t c, OF c])
qed

lemma rep_perm:
  assumes "mset ts' = mset ts" and "cells hp ts'" and "length hp = th_alloc tq" and "th_count tq = length ts + 1"
    and "set ts \<subseteq> dom h" and "distinct ts"
  shows "th_rep (tq\<lparr>th_heap := hp\<rparr>) h ts'" "set ts' = set ts"
  using assms mset_eq_length [OF assms(1)] mset_eq_setD [OF assms(1)] mset_eq_imp_distinct_iff [OF assms(1)]
  by (auto simp: th_rep_def)

lemma th_Push:
  assumes "th_inv tq h S" and "t \<in> dom h" and "t \<notin> S"
  shows "\<exists>tq'. LpelTaskheapPush tq h (Some t) = Inr tq' \<and> th_inv tq' h (insert t S)"
proof -
  from assms(1) obtain ts where ts: "th_rep tq h ts" "is_heap (prio_at h) ts" "set ts = S"
    by (auto simp: th_inv_def)
  let ?n = "length ts + 1" and ?ts = "ts @ [t]"
  define tq1 where "tq1 = (if th_count tq \<ge> th_alloc tq
      then tq\<lparr>th_alloc := th_alloc tq + BLOCKSIZE, th_heap := th_heap tq @ replicate BLOCKSIZE None\<rparr> else tq)"
  have 1: "cells (th_heap tq1) ts" "length (th_heap tq1) = th_alloc tq1" "th_count tq1 = ?n" "?n < th_alloc tq1"
    using ts(1) by (auto simp: tq1_def th_rep_def cells_def nth_append BLOCKSIZE_def)
  let ?hp = "(th_heap tq1)[?n := Some (Some t)]"
  have "nth1 ?ts i = (if i = ?n then t else nth1 ts i)" if "1 \<le> i" "i \<le> ?n" for i
    using that by (auto simp: nth1_def nth_append)
  note n1 = this
  have c: "cells ?hp ?ts" using 1 by (auto simp: cells_def n1 nth_list_update)
  have "set ?ts \<subseteq> dom h" using ts(1) assms(2) by (simp add: th_rep_def)
  with upHeap_ok [of "tq1\<lparr>th_heap := ?hp\<rparr>" ?hp ?ts ?n h] c obtain hp' where
    2: "upHeap (tq1\<lparr>th_heap := ?hp\<rparr>) h ?n = Inr (tq1\<lparr>th_heap := hp'\<rparr>)"
      "cells hp' (rise (prio_at h) ?ts ?n)" "length hp' = length ?hp" by auto
  have push: "LpelTaskheapPush tq h (Some t) = Inr (tq1\<lparr>th_heap := hp', th_count := ?n + 1\<rparr>)"
    unfolding LpelTaskheapPush_def tq1_def [symmetric] using 1 2 by (simp add: Let_def)
  have "keys (prio_at h) ?ts i \<le> keys (prio_at h) ?ts (i div 2)" if "2 \<le> i" "i \<le> ?n" "i \<noteq> ?n" for i
  proof -
    have "1 \<le> i div 2" "i div 2 \<le> ?n" "i div 2 \<noteq> ?n" "i \<le> length ts" using that by auto
    then show ?thesis using that ts(2) n1 [of i] n1 [of "i div 2"] by (simp add: is_heap_def heap_ord_def)
  qed
  moreover have "\<not> i div 2 = ?n" if "i \<le> ?n" for i using that by simp
  ultimately have "rise_ord (keys (prio_at h) ?ts) ?n ?n" by (simp add: rise_ord_def)
  then have heap: "is_heap (prio_at h) (rise (prio_at h) ?ts ?n)" by (intro rise_heap) auto
  have rep: "th_rep (tq1\<lparr>th_count := ?n + 1, th_heap := hp'\<rparr>) h (rise (prio_at h) ?ts ?n)"
    and st: "set (rise (prio_at h) ?ts ?n) = set ?ts"
    using rep_perm [of "rise (prio_at h) ?ts ?n" ?ts hp' "tq1\<lparr>th_count := ?n + 1\<rparr>" h] 1 2 ts assms(2,3)
    by (auto simp: rise_mset th_rep_def)
  have "tq1\<lparr>th_count := ?n + 1, th_heap := hp'\<rparr> = tq1\<lparr>th_heap := hp', th_count := ?n + 1\<rparr>" by simp
  with rep have "th_rep (tq1\<lparr>th_heap := hp', th_count := ?n + 1\<rparr>) h (rise (prio_at h) ?ts ?n)" by metis
  with heap st ts(3) have "th_inv (tq1\<lparr>th_heap := hp', th_count := ?n + 1\<rparr>) h (insert t S)"
    unfolding th_inv_def by (metis Un_insert_right append_Nil2 list.simps(15) set_append sup_bot.right_neutral list.set(1))
  with push show ?thesis by blast
qed

lemma th_Peek:
  assumes "th_inv tq h S"
  shows "(S = {} \<longrightarrow> LpelTaskheapPeek tq = Inr None) \<and>
    (S \<noteq> {} \<longrightarrow> (\<exists>t \<in> S. LpelTaskheapPeek tq = Inr (Some t) \<and> (\<forall>u \<in> S. prio_at h u \<le> prio_at h t)))"
proof -
  from assms obtain ts where ts: "th_rep tq h ts" "is_heap (prio_at h) ts" "set ts = S"
    by (auto simp: th_inv_def)
  show ?thesis
  proof (cases "ts = []")
    case True
    with ts show ?thesis by (auto simp: LpelTaskheapPeek_def th_rep_def)
  next
    case False
    then have l: "1 \<le> length ts" by (cases ts) auto
    have "prio_at h u \<le> prio_at h (nth1 ts 1)" if "u \<in> S" for u
    proof -
      from that ts(3) obtain i where "i < length ts" "u = ts ! i" by (metis in_set_conv_nth)
      then show ?thesis using heap_root_max [of "keys (prio_at h) ts" "length ts" "i + 1"] ts(2)
        by (simp add: is_heap_def nth1_def)
    qed
    moreover have "LpelTaskheapPeek tq = Inr (Some (nth1 ts 1))"
      using ts(1) l False cells_at [of "th_heap tq" ts 1] by (simp add: LpelTaskheapPeek_def th_rep_def cell_get_def)
    ultimately show ?thesis using ts(3) False nth1_in_set [of 1 ts] l by auto
  qed
qed

text \<open>The list after the last task has been pulled to the top.\<close>

lemma nth1_pull: "2 \<le> i \<Longrightarrow> i \<le> length xs \<Longrightarrow> nth1 (l # butlast xs) i = nth1 (x # xs) i"
proof -
  assume i: "2 \<le> i" "i \<le> length xs"
  define j where "j = i - 2"
  then have "i = Suc (Suc j)" using i(1) by simp
  then show ?thesis using i nth_butlast [of j xs] by (simp add: nth1_def)
qed

lemma pull_top:
  assumes "is_heap k (x # xs)"
  shows "sink_ord (keys k (last xs # butlast xs)) (length xs) 1"
  unfolding sink_ord_def
proof (intro conjI allI impI)
  fix i :: nat assume i: "2 \<le> i" "i \<le> length xs" "i div 2 \<noteq> 1"
  then have "2 \<le> i div 2" "i div 2 \<le> length xs" by auto
  moreover have "keys k (x # xs) i \<le> keys k (x # xs) (i div 2)"
    using assms i by (simp add: is_heap_def heap_ord_def)
  ultimately show "keys k (last xs # butlast xs) i \<le> keys k (last xs # butlast xs) (i div 2)"
    using i nth1_pull [of i xs "last xs" x] nth1_pull [of "i div 2" xs "last xs" x] by simp
qed simp

lemma th_RemoveHead:
  assumes "th_rep tq h ts" and "is_heap (prio_at h) ts" and "ts = x # xs"
  shows "\<exists>tq'. LpelTaskheapRemoveHead tq h = Inr tq' \<and> th_inv tq' h (set xs)"
proof (cases xs)
  case Nil
  obtain c where c: "h x = Some c" using assms by (auto simp: th_rep_def)
  have at: "1 < length (th_heap tq)" "th_heap tq ! 1 = Some (Some x)"
    using cells_at [of "th_heap tq" ts 1] assms Nil by (auto simp: th_rep_def nth1_def)
  then have id: "(th_heap tq)[1 := Some (Some x)] = th_heap tq" by (metis list_update_id)
  have "down_loop (th_heap tq) h 1 p 1 = Inr (1, th_heap tq)" for p by (subst down_loop.simps) simp
  then have "LpelTaskheapRemoveHead tq h = Inr (tq\<lparr>th_count := 1\<rparr>)"
    using assms Nil at id c
    by (simp add: LpelTaskheapRemoveHead_def Let_def th_rep_def downHeap_def cell_get_def)
  moreover have "th_inv (tq\<lparr>th_count := 1\<rparr>) h {}"
    unfolding th_inv_def using assms Nil
    by (intro exI [of _ "[]"]) (auto simp: th_rep_def cells_def is_heap_def heap_ord_def)
  ultimately show ?thesis using Nil by auto
next
  case (Cons y ys)
  define us where "us = last xs # butlast xs"
  have n: "length us = length xs" "1 \<le> length us" using Cons by (auto simp: us_def)
  have "mset (butlast xs @ [last xs]) = mset xs" using Cons by (metis append_butlast_last_id list.distinct(1))
  then have ms: "mset us = mset xs" unfolding us_def by simp
  let ?n = "length xs + 1"
  have at: "?n < length (th_heap tq)" "th_heap tq ! ?n = Some (Some (last xs))"
    using cells_at [of "th_heap tq" ts ?n] assms Cons by (auto simp: th_rep_def nth1_def last_conv_nth)
  let ?hp = "(th_heap tq)[1 := Some (Some (last xs))]"
  have c: "cells ?hp us"
    unfolding cells_def
  proof (intro conjI allI impI)
    show "length us < length ?hp" using at n by simp
    fix i assume i: "1 \<le> i" "i \<le> length us"
    show "?hp ! i = Some (Some (nth1 us i))"
    proof (cases "i = 1")
      case True
      then show ?thesis using at n by (simp add: nth1_def us_def)
    next
      case False
      then have "nth1 us i = nth1 ts i" using i n nth1_pull [of i xs] assms(3) by (simp add: us_def)
      then show ?thesis using False i n cells_at [of "th_heap tq" ts i] assms(1,3) by (simp add: th_rep_def)
    qed
  qed
  have sub: "set us \<subseteq> dom h" "distinct us"
    using assms(1,3) mset_eq_setD [OF ms] mset_eq_imp_distinct_iff [OF ms] by (auto simp: th_rep_def)
  let ?tq = "tq\<lparr>th_count := ?n, th_heap := ?hp\<rparr>"
  have cnt: "th_count ?tq = length us + 1" using n by simp
  have hp: "th_heap ?tq = ?hp" by simp
  from downHeap_ok [OF hp c order_refl n(2) sub(1) cnt] obtain hp' where
    2: "downHeap ?tq h 1 = Inr (?tq\<lparr>th_heap := hp'\<rparr>)" "cells hp' (sink (prio_at h) us 1)"
      "length hp' = length ?hp" by blast
  have "sink_ord (keys (prio_at h) us) (length us) 1"
    using pull_top [of "prio_at h" x xs] assms(2,3) n by (simp add: us_def)
  then have heap: "is_heap (prio_at h) (sink (prio_at h) us 1)" using n by (intro sink_heap) auto
  have m: "mset (sink (prio_at h) us 1) = mset us" using n by (intro sink_mset)
  have al: "length hp' = th_alloc ?tq" using 2(3) assms(1) by (simp add: th_rep_def)
  note rp = rep_perm [OF m 2(2) al cnt sub]
  have "LpelTaskheapRemoveHead tq h = downHeap ?tq h 1"
    using at assms(1,3) by (simp add: LpelTaskheapRemoveHead_def Let_def th_rep_def)
  then show ?thesis using 2(1) heap rp mset_eq_setD [OF ms] unfolding th_inv_def by metis
qed

lemma th_Pop:
  assumes "th_inv tq h S"
  shows "(S = {} \<longrightarrow> LpelTaskheapPop tq h = Inr (None, tq)) \<and>
    (S \<noteq> {} \<longrightarrow> (\<exists>t tq'. LpelTaskheapPop tq h = Inr (Some t, tq') \<and> t \<in> S \<and> th_inv tq' h (S - {t}) \<and>
       (\<forall>u \<in> S. prio_at h u \<le> prio_at h t)))"
proof -
  from assms obtain ts where ts: "th_rep tq h ts" "is_heap (prio_at h) ts" "set ts = S"
    by (auto simp: th_inv_def)
  show ?thesis
  proof (cases ts)
    case Nil
    with ts show ?thesis by (auto simp: LpelTaskheapPop_def th_rep_def)
  next
    case (Cons x xs)
    from th_RemoveHead [OF ts(1,2) Cons] obtain tq' where
      r: "LpelTaskheapRemoveHead tq h = Inr tq'" "th_inv tq' h (set xs)" by blast
    have x: "set xs = S - {x}" "x \<in> S" using ts Cons by (auto simp: th_rep_def)
    have g: "cell_get (th_heap tq) 1 = Inr (Some x)"
      using cells_at [of "th_heap tq" ts 1] ts(1) Cons by (simp add: th_rep_def cell_get_def nth1_def)
    have "LpelTaskheapPeek tq = Inr (Some x)"
      using g ts(1) Cons by (simp add: LpelTaskheapPeek_def th_rep_def)
    then have "\<forall>u \<in> S. prio_at h u \<le> prio_at h x" using th_Peek [OF assms] x(2) by auto
    with r g x ts(1) Cons show ?thesis by (auto simp: LpelTaskheapPop_def th_rep_def)
  qed
qed

lemma search_from_found:
  assumes "th_rep tq h ts" and "1 \<le> i" and "i \<le> j" and "j \<le> length ts" and "nth1 ts j = t"
  shows "search_from tq (Some t) i = Inr (int j)"
  using assms
proof (induction tq "Some t" i rule: search_from.induct)
  case (1 tq i)
  have at: "cell_get (th_heap tq) i = Inr (Some (nth1 ts i))"
    using cells_at [of "th_heap tq" ts i] 1(2-5) by (simp add: th_rep_def cell_get_def)
  show ?case
  proof (cases "nth1 ts i = t")
    case True
    then have "i = j" using 1(2-6) by (auto simp: th_rep_def nth1_def nth_eq_iff_index_eq)
    then show ?thesis using True at 1(2-6) by (subst search_from.simps) (simp add: th_rep_def)
  next
    case False
    then have "i \<noteq> j" using 1(6) by auto
    then have "search_from tq (Some t) (i + 1) = Inr (int j)" using 1 at False by (simp add: th_rep_def)
    then show ?thesis using False at 1(2-6) by (subst search_from.simps) (simp add: th_rep_def)
  qed
qed

lemma search_from_missing:
  assumes "th_rep tq h ts" and "1 \<le> i" and "t \<notin> set ts"
  shows "search_from tq (Some t) i = Inr (- 1)"
  using assms
proof (induction tq "Some t" i rule: search_from.induct)
  case (1 tq i)
  show ?case
  proof (cases "i < th_count tq")
    case True
    then have at: "cell_get (th_heap tq) i = Inr (Some (nth1 ts i))" "nth1 ts i \<in> set ts"
      using cells_at [of "th_heap tq" ts i] 1(2,3) nth1_in_set [of i ts] by (auto simp: th_rep_def cell_get_def)
    then have "search_from tq (Some t) (i + 1) = Inr (- 1)" using 1 True by auto
    then show ?thesis using at 1(4) True by (subst search_from.simps) auto
  qed (subst search_from.simps, simp)
qed

lemma set_prior_prio: "h t = Some c \<Longrightarrow> set_prior h (Some t) np = Inr h' \<Longrightarrow>
    prio_at h' = (prio_at h)(t := np) \<and> dom h' = dom h"
proof -
  assume c: "h t = Some c" and "set_prior h (Some t) np = Inr h'"
  then have "h' = h(t \<mapsto> c\<lparr>ht_sched_info := (ht_sched_info c)\<lparr>prior := np\<rparr>\<rparr>)"
    by (simp add: set_prior_def)
  then show ?thesis using c by (auto simp: prio_at_def fun_eq_iff split: if_splits)
qed

lemma nth1_inj: "distinct ts \<Longrightarrow> 1 \<le> i \<Longrightarrow> i \<le> length ts \<Longrightarrow> 1 \<le> j \<Longrightarrow> j \<le> length ts \<Longrightarrow> nth1 ts i = nth1 ts j \<Longrightarrow> i = j"
  by (auto simp: nth1_def nth_eq_iff_index_eq)

lemma raise_key:
  assumes "heap_ord K n" and "K pos \<le> v"
  shows "rise_ord (K(pos := v)) n pos"
proof -
  have o: "K i \<le> K (i div 2)" if "2 \<le> i" "i \<le> n" for i using assms(1) that by (simp add: heap_ord_def)
  have "K i \<le> v" if "2 \<le> i" "i \<le> n" "i div 2 = pos" for i using o [OF that(1,2)] that(3) assms(2) by simp
  moreover have "K i \<le> K (pos div 2)" if "2 \<le> i" "i \<le> n" "i div 2 = pos" "2 \<le> pos" for i
    using o [of i] o [of pos] that by fastforce
  ultimately show ?thesis using o by (auto simp: rise_ord_def)
qed

lemma lower_key:
  assumes "heap_ord K n" and "v \<le> K pos" and "pos \<le> n"
  shows "sink_ord (K(pos := v)) n pos"
proof -
  have o: "K i \<le> K (i div 2)" if "2 \<le> i" "i \<le> n" for i using assms(1) that by (simp add: heap_ord_def)
  have "v \<le> K (pos div 2)" if "2 \<le> pos" using o [OF that assms(3)] assms(2) by simp
  moreover have "K i \<le> K (pos div 2)" if "2 \<le> i" "i \<le> n" "i div 2 = pos" "2 \<le> pos" for i
    using o [of i] o [of pos] that by fastforce
  ultimately show ?thesis using o by (auto simp: sink_ord_def)
qed

lemma th_Update:
  assumes "th_inv tq h S" and "t \<in> S"
  shows "\<exists>tq' h'. LpelTaskheapUpdatePriority tq h (Some t) np = Inr (tq', h') \<and> set_prior h (Some t) np = Inr h' \<and>
    th_inv tq' h' S"
proof -
  from assms(1) obtain ts where ts: "th_rep tq h ts" "is_heap (prio_at h) ts" "set ts = S"
    by (auto simp: th_inv_def)
  from assms(2) ts(3) obtain i where "i < length ts" "ts ! i = t" by (metis in_set_conv_nth)
  then obtain pos where pos: "1 \<le> pos" "pos \<le> length ts" "nth1 ts pos = t"
    by (intro that [of "i + 1"]) (auto simp: nth1_def)
  have s: "searchItem tq (Some t) = Inr (int pos)"
    unfolding searchItem_def by (rule search_from_found [OF ts(1) order_refl pos])
  obtain c where c: "h t = Some c" using ts assms(2) by (auto simp: th_rep_def)
  then obtain h' where h': "set_prior h (Some t) np = Inr h'" by (simp add: set_prior_def)
  note pr = set_prior_prio [OF c h']
  let ?K = "keys (prio_at h) ts"
  have ks: "keys (prio_at h') ts j = (?K(pos := np)) j" if "1 \<le> j" "j \<le> length ts" for j
  proof (cases "j = pos")
    case True
    then show ?thesis using pr pos(3) by simp
  next
    case False
    then have "nth1 ts j \<noteq> t" using nth1_inj [of ts j pos] that pos ts(1) by (auto simp: th_rep_def)
    then show ?thesis using pr False by simp
  qed
  have rep: "cells (th_heap tq) ts" "set ts \<subseteq> dom h'" "th_count tq = length ts + 1" "distinct ts"
    "length (th_heap tq) = th_alloc tq" using ts(1) pr by (auto simp: th_rep_def)
  have op: "LpelTaskheapUpdatePriority tq h (Some t) np =
     (if np > prio_at h t then bindR (upHeap tq h' pos) (\<lambda>tq'. Inr (tq', h'))
       else if np < prio_at h t then bindR (downHeap tq h' pos) (\<lambda>tq'. Inr (tq', h'))
       else Inr (tq, h'))"
    using s c h' pos by (simp add: LpelTaskheapUpdatePriority_def prior_deref [of h t c, OF c] Let_def)
  have old: "heap_ord ?K (length ts)" "?K pos = prio_at h t" using ts(2) pos by (auto simp: is_heap_def)
  consider "np > prio_at h t" | "np < prio_at h t" | "np = prio_at h t" by linarith
  then show ?thesis
  proof cases
    case 1
    from upHeap_ok [OF refl rep(1) pos(1,2) rep(2)] obtain hp' where
      u: "upHeap tq h' pos = Inr (tq\<lparr>th_heap := hp'\<rparr>)" "cells hp' (rise (prio_at h') ts pos)"
        "length hp' = th_alloc tq" using rep(5) by auto
    have "rise_ord (?K(pos := np)) (length ts) pos" using 1 old(2) by (intro raise_key [OF old(1)]) simp
    then have "rise_ord (keys (prio_at h') ts) (length ts) pos"
      by (rule ord_cong(1) [where L = "keys (prio_at h') ts", rotated]) (simp_all only: ks pos(2))
    then have "is_heap (prio_at h') (rise (prio_at h') ts pos)" using pos by (intro rise_heap)
    with rep_perm [OF rise_mset [OF pos(2)] u(2,3) rep(3,2,4)] u(1) op 1 h' ts(3) show ?thesis
      unfolding th_inv_def by auto
  next
    case 2
    from downHeap_ok [OF refl rep(1) pos(1,2) rep(2,3)] obtain hp' where
      u: "downHeap tq h' pos = Inr (tq\<lparr>th_heap := hp'\<rparr>)" "cells hp' (sink (prio_at h') ts pos)"
        "length hp' = th_alloc tq" using rep(5) by auto
    have "sink_ord (?K(pos := np)) (length ts) pos" using 2 old(2) by (intro lower_key [OF old(1) _ pos(2)]) simp
    then have "sink_ord (keys (prio_at h') ts) (length ts) pos"
      by (rule ord_cong(2) [where L = "keys (prio_at h') ts", rotated]) (simp_all only: ks pos(2))
    then have "is_heap (prio_at h') (sink (prio_at h') ts pos)" using pos by (intro sink_heap)
    with rep_perm [OF sink_mset [OF pos(2)] u(2,3) rep(3,2,4)] u(1) op 2 h' ts(3) show ?thesis
      unfolding th_inv_def by auto
  next
    case 3
    then have "prio_at h' = prio_at h" using pr by (simp add: fun_upd_idem)
    then have "th_inv tq h' S" using ts rep unfolding th_inv_def th_rep_def by metis
    with op 3 h' show ?thesis by auto
  qed
qed

section \<open>The queue of ready tasks as an interface\<close>

text \<open>
  What the master relies on: \<open>holds q h S\<close> says that \<open>q\<close> holds the tasks \<open>S\<close>; peek and pop
  choose a task of greatest priority.
\<close>

fun pq_push_all :: "('q \<Rightarrow> 'h \<Rightarrow> ptr \<Rightarrow> 'q res) \<Rightarrow> addr list \<Rightarrow> 'q \<Rightarrow> 'h \<Rightarrow> 'q res" where
  "pq_push_all push [] q h = Inr q"
| "pq_push_all push (t # ts) q h = bindR (push q h (Some t)) (\<lambda>q'. pq_push_all push ts q' h)"

fun pq_drain :: "('q \<Rightarrow> 'h \<Rightarrow> (ptr \<times> 'q) res) \<Rightarrow> nat \<Rightarrow> 'q \<Rightarrow> 'h \<Rightarrow> (ptr list \<times> 'q) res" where
  "pq_drain pop 0 q h = Inr ([], q)"
| "pq_drain pop (Suc n) q h = bindR (pop q h) (\<lambda>(t, q').
     bindR (pq_drain pop n q' h) (\<lambda>(ts, q''). Inr (t # ts, q'')))"

locale ready_tasks =
  fixes push :: "'q \<Rightarrow> 'h \<Rightarrow> ptr \<Rightarrow> 'q res"
    and peek :: "'q \<Rightarrow> ptr res"
    and pop :: "'q \<Rightarrow> 'h \<Rightarrow> (ptr \<times> 'q) res"
    and holds :: "'q \<Rightarrow> 'h \<Rightarrow> addr set \<Rightarrow> bool"
    and live :: "'h \<Rightarrow> addr \<Rightarrow> bool"
    and key :: "'h \<Rightarrow> addr \<Rightarrow> double"
  assumes push_law: "holds q h S \<Longrightarrow> live h t \<Longrightarrow> t \<notin> S \<Longrightarrow> \<exists>q'. push q h (Some t) = Inr q' \<and> holds q' h (insert t S)"
    and peek_empty: "holds q h {} \<Longrightarrow> peek q = Inr None"
    and peek_law: "holds q h S \<Longrightarrow> S \<noteq> {} \<Longrightarrow> \<exists>t \<in> S. peek q = Inr (Some t) \<and> (\<forall>u \<in> S. key h u \<le> key h t)"
    and pop_empty: "holds q h {} \<Longrightarrow> pop q h = Inr (None, q)"
    and pop_law: "holds q h S \<Longrightarrow> S \<noteq> {} \<Longrightarrow> \<exists>t q'. pop q h = Inr (Some t, q') \<and> t \<in> S \<and> holds q' h (S - {t}) \<and>
      (\<forall>u \<in> S. key h u \<le> key h t)"
begin

lemma push_all_holds:
  assumes "holds q h S" and "distinct ts" and "set ts \<inter> S = {}" and "\<And>t. t \<in> set ts \<Longrightarrow> live h t"
  shows "\<exists>q'. pq_push_all push ts q h = Inr q' \<and> holds q' h (S \<union> set ts)"
  using assms
proof (induction ts arbitrary: q S)
  case (Cons t ts)
  then obtain q1 where 1: "push q h (Some t) = Inr q1" "holds q1 h (insert t S)"
    using push_law [of q h S t] by auto
  with Cons.prems have "\<exists>q'. pq_push_all push ts q1 h = Inr q' \<and> holds q' h (insert t S \<union> set ts)"
    by (intro Cons.IH) auto
  with 1 show ?case by simp
qed simp

lemma drain_sorted:
  assumes "holds q h S" and "finite S"
  shows "\<exists>ts q'. pq_drain pop (card S) q h = Inr (map Some ts, q') \<and> set ts = S \<and> distinct ts \<and>
    sorted_wrt (\<lambda>x y. key h x \<ge> key h y) ts \<and> holds q' h {}"
  using assms
proof (induction "card S" arbitrary: q S)
  case 0
  then show ?case by auto
next
  case (Suc n)
  then have "S \<noteq> {}" by auto
  from pop_law [OF Suc.prems(1) this] obtain t q1 where
    1: "pop q h = Inr (Some t, q1)" "t \<in> S" "holds q1 h (S - {t})" "\<forall>u \<in> S. key h u \<le> key h t" by blast
  have n: "n = card (S - {t})" using 1(2) Suc.hyps(2) Suc.prems(2) by simp
  from Suc.hyps(1) [OF n 1(3)] Suc.prems(2) n obtain ts q' where
    2: "pq_drain pop n q1 h = Inr (map Some ts, q')" "set ts = S - {t}" "distinct ts"
      "sorted_wrt (\<lambda>x y. key h x \<ge> key h y) ts" "holds q' h {}" by auto
  have "pq_drain pop (card S) q h = Inr (map Some (t # ts), q')"
    using 1(1) 2(1) Suc.hyps(2) [symmetric] by simp
  with 1 2 show ?case by (intro exI [of _ "t # ts"] exI [of _ q']) auto
qed

lemma push_drain:
  assumes "holds q h {}" and "distinct ts" and "\<And>t. t \<in> set ts \<Longrightarrow> live h t"
  shows "\<exists>q' ts' q''. pq_push_all push ts q h = Inr q' \<and> pq_drain pop (length ts) q' h = Inr (map Some ts', q'') \<and>
    mset ts' = mset ts \<and> sorted_wrt (\<lambda>x y. key h x \<ge> key h y) ts' \<and> pop q'' h = Inr (None, q'')"
proof -
  from push_all_holds [OF assms(1,2) _ assms(3)] obtain q' where
    1: "pq_push_all push ts q h = Inr q'" "holds q' h (set ts)" by auto
  from drain_sorted [OF 1(2)] obtain ts' q'' where
    2: "pq_drain pop (card (set ts)) q' h = Inr (map Some ts', q'')" "set ts' = set ts" "distinct ts'"
      "sorted_wrt (\<lambda>x y. key h x \<ge> key h y) ts'" "holds q'' h {}" by auto
  have "mset ts' = mset ts" using 2(2,3) assms(2) by (metis set_eq_iff_mset_eq_distinct)
  with 1 2 show ?thesis using assms(2) pop_empty by (auto simp: distinct_card)
qed

end

interpretation theap: ready_tasks LpelTaskheapPush LpelTaskheapPeek LpelTaskheapPop th_inv
  "\<lambda>h t. t \<in> dom h" prio_at
proof unfold_locales
  show "\<And>q h S t. th_inv q h S \<Longrightarrow> t \<in> dom h \<Longrightarrow> t \<notin> S \<Longrightarrow>
      \<exists>q'. LpelTaskheapPush q h (Some t) = Inr q' \<and> th_inv q' h (insert t S)"
    by (rule th_Push)
qed (use th_Peek th_Pop in blast)+

section \<open>Properties\<close>

text \<open>
  C14: Tasks pushed on an empty priority queue are all popped again, each exactly once, in order of
  decreasing priority, without any access outside the array or to an uninitialised cell however
  often the array is enlarged; the queue is empty afterwards.
\<close>

theorem taskheap_priority_order:
  assumes "distinct ts" and "\<And>t. t \<in> set ts \<Longrightarrow> t \<in> dom h"
  shows "\<exists>q ts' q'. pq_push_all LpelTaskheapPush ts LpelTaskheapInit h = Inr q \<and>
    pq_drain LpelTaskheapPop (length ts) q h = Inr (map Some ts', q') \<and> mset ts' = mset ts \<and>
    sorted_wrt (\<lambda>x y. prio_at h x \<ge> prio_at h y) ts' \<and> LpelTaskheapPop q' h = Inr (None, q')"
  using theap.push_drain [OF th_inv_init assms] .

theorem taskheap_priority_order_witness:
  "\<exists>q ts' q'. pq_push_all LpelTaskheapPush [4, 7, 5] LpelTaskheapInit
      [4 \<mapsto> ex_htask 1, 7 \<mapsto> ex_htask 3, 5 \<mapsto> ex_htask (- 2)] = Inr q \<and>
    pq_drain LpelTaskheapPop (length [4, 7, 5::nat]) q [4 \<mapsto> ex_htask 1, 7 \<mapsto> ex_htask 3, 5 \<mapsto> ex_htask (- 2)] =
      Inr (map Some ts', q') \<and> mset ts' = {#4, 5, 7#}"
proof -
  let ?h = "[4 \<mapsto> ex_htask 1, 7 \<mapsto> ex_htask 3, 5 \<mapsto> ex_htask (- 2)]"
  have "t \<in> dom ?h" if "t \<in> set [4, 7, 5]" for t using that by auto
  from taskheap_priority_order [of "[4, 7, 5]" ?h, OF _ this] obtain q ts' q' where
    "pq_push_all LpelTaskheapPush [4, 7, 5] LpelTaskheapInit ?h = Inr q"
    "pq_drain LpelTaskheapPop (length [4, 7, 5::nat]) q ?h = Inr (map Some ts', q')"
    "mset ts' = mset [4, 7, 5]" by auto
  moreover have "mset [4, 7, 5::nat] = {#4, 5, 7#}" by (simp add: add_mset_commute)
  ultimately show ?thesis by metis
qed
text \<open>The sizes of the array, and how they change.\<close>

lemma th_inv_sizes:
  assumes "th_inv q h S"
  shows "th_count q = card S + 1" "length (th_heap q) = th_alloc q" "th_count q \<le> th_alloc q"
  using assms by (auto simp: th_inv_def th_rep_def cells_def distinct_card)

lemma push_alloc:
  assumes "LpelTaskheapPush q h t = Inr q'"
  shows "th_alloc q' = (if th_alloc q \<le> th_count q then th_alloc q + BLOCKSIZE else th_alloc q)"
  using assms by (auto simp: LpelTaskheapPush_def upHeap_def bindR_eq_Inr Let_def split: if_splits)

lemma pop_alloc:
  assumes "LpelTaskheapPop q h = Inr (t, q')"
  shows "th_alloc q' = th_alloc q"
  using assms by (auto simp: LpelTaskheapPop_def LpelTaskheapRemoveHead_def downHeap_def bindR_eq_Inr Let_def split: if_splits)

lemma pop_peeked:
  assumes "LpelTaskheapPop q h = Inr (t, q')"
  shows "LpelTaskheapPeek q = Inr t"
  using assms by (auto simp: LpelTaskheapPop_def LpelTaskheapPeek_def bindR_eq_Inr split: if_splits)

text \<open>
  C21: Each operation of the priority queue keeps its heap order and its set of tasks, on a queue of any size. Pushing a task that is
  not queued adds it; the array is enlarged by \<open>BLOCKSIZE\<close> cells exactly when it is full, and has always as many cells as recorded, more
  than the queue has tasks. Peeking and popping return the same task, one of greatest priority, or NULL when the queue is empty; popping
  removes exactly this task. Changing the priority of a queued task moves it up or down
  so that the order holds for the new priorities and no task is gained or lost; for a task that is not queued the assertion fails.
\<close>

theorem taskheap_operations:
  assumes "th_inv q h S" and "t \<in> dom h"
  shows "LpelTaskheapSize q = int (card S) \<and> card S < th_alloc q \<and> length (th_heap q) = th_alloc q \<and>
    (if S = {} then LpelTaskheapPeek q = Inr None \<and> LpelTaskheapPop q h = Inr (None, q)
     else \<exists>u q'. LpelTaskheapPeek q = Inr (Some u) \<and> LpelTaskheapPop q h = Inr (Some u, q') \<and> u \<in> S \<and>
       (\<forall>v \<in> S. prio_at h v \<le> prio_at h u) \<and> th_inv q' h (S - {u}) \<and> th_alloc q' = th_alloc q) \<and>
    (if t \<in> S then \<exists>q' h'. LpelTaskheapUpdatePriority q h (Some t) np = Inr (q', h') \<and> th_inv q' h' S \<and>
       prio_at h' = (prio_at h)(t := np)
     else (\<exists>q'. LpelTaskheapPush q h (Some t) = Inr q' \<and> th_inv q' h (insert t S) \<and>
         th_alloc q' = (if th_count q = th_alloc q then th_alloc q + BLOCKSIZE else th_alloc q)) \<and>
       LpelTaskheapUpdatePriority q h (Some t) np = Inl AssertFail)"
proof (intro conjI)
  note sz = th_inv_sizes [OF assms(1)]
  show "LpelTaskheapSize q = int (card S)" "card S < th_alloc q" "length (th_heap q) = th_alloc q"
    using sz by (simp_all add: LpelTaskheapSize_def)
  show "if S = {} then LpelTaskheapPeek q = Inr None \<and> LpelTaskheapPop q h = Inr (None, q)
     else \<exists>u q'. LpelTaskheapPeek q = Inr (Some u) \<and> LpelTaskheapPop q h = Inr (Some u, q') \<and> u \<in> S \<and>
       (\<forall>v \<in> S. prio_at h v \<le> prio_at h u) \<and> th_inv q' h (S - {u}) \<and> th_alloc q' = th_alloc q"
  proof (cases "S = {}")
    case True
    then show ?thesis using sz(1) by (simp add: LpelTaskheapPeek_def LpelTaskheapPop_def)
  next
    case False
    from theap.pop_law [OF assms(1) False] obtain u q' where
      "LpelTaskheapPop q h = Inr (Some u, q')" "u \<in> S" "\<forall>v \<in> S. prio_at h v \<le> prio_at h u" "th_inv q' h (S - {u})" by blast
    then show ?thesis using False pop_alloc pop_peeked by auto
  qed
  show "if t \<in> S then \<exists>q' h'. LpelTaskheapUpdatePriority q h (Some t) np = Inr (q', h') \<and> th_inv q' h' S \<and>
       prio_at h' = (prio_at h)(t := np)
     else (\<exists>q'. LpelTaskheapPush q h (Some t) = Inr q' \<and> th_inv q' h (insert t S) \<and>
         th_alloc q' = (if th_count q = th_alloc q then th_alloc q + BLOCKSIZE else th_alloc q)) \<and>
       LpelTaskheapUpdatePriority q h (Some t) np = Inl AssertFail"
  proof (cases "t \<in> S")
    case True
    from assms(2) obtain c where "h t = Some c" by auto
    with th_Update [OF assms(1) True, of np] set_prior_prio True show ?thesis by fastforce
  next
    case False
    from th_Push [OF assms False] obtain q' where q': "LpelTaskheapPush q h (Some t) = Inr q'"
      "th_inv q' h (insert t S)" by blast
    moreover have "th_alloc q' = (if th_count q = th_alloc q then th_alloc q + BLOCKSIZE else th_alloc q)"
      using push_alloc [OF q'(1)] sz(3) by auto
    moreover have "LpelTaskheapUpdatePriority q h (Some t) np = Inl AssertFail"
      using assms(1) False search_from_missing
      by (auto simp: th_inv_def LpelTaskheapUpdatePriority_def searchItem_def)
    ultimately show ?thesis using False by auto
  qed
qed

theorem taskheap_operations_witness:
  "\<exists>q u q'. LpelTaskheapPush LpelTaskheapInit [3 \<mapsto> ex_htask 2] (Some 3) = Inr q \<and> th_alloc q = BLOCKSIZE \<and>
    LpelTaskheapPop q [3 \<mapsto> ex_htask 2] = Inr (Some u, q') \<and> u = 3 \<and>
    LpelTaskheapUpdatePriority LpelTaskheapInit [3 \<mapsto> ex_htask 2] (Some 3) 5 = Inl AssertFail"
proof -
  let ?h = "[3 \<mapsto> ex_htask 2]"
  from taskheap_operations [OF th_inv_init, of 3 ?h 5] obtain q where
    q: "LpelTaskheapPush LpelTaskheapInit ?h (Some 3) = Inr q" "th_inv q ?h {3}"
      "th_alloc q = (if th_count LpelTaskheapInit = th_alloc LpelTaskheapInit then th_alloc LpelTaskheapInit + BLOCKSIZE else th_alloc LpelTaskheapInit)"
      "LpelTaskheapUpdatePriority LpelTaskheapInit ?h (Some 3) 5 = Inl AssertFail" by auto
  moreover have "th_alloc q = BLOCKSIZE" using q(3) by (simp add: LpelTaskheapInit_def BLOCKSIZE_def)
  ultimately show ?thesis using taskheap_operations [OF q(2), of 3 5] by auto
qed

text \<open>
  C22: The hole-moving loops of \<open>upHeap\<close> and \<open>downHeap\<close> compute the same array as the textbook
  loops that exchange a task with its parent or larger child, without any invalid access.
\<close>

theorem heap_loops_are_swaps:
  assumes "cells (th_heap tq) ts" and "1 \<le> pos" and "pos \<le> length ts" and "set ts \<subseteq> dom h"
    and "th_count tq = length ts + 1"
  shows "\<exists>hp1 hp2. upHeap tq h pos = Inr (tq\<lparr>th_heap := hp1\<rparr>) \<and> cells hp1 (rise (prio_at h) ts pos) \<and>
    downHeap tq h pos = Inr (tq\<lparr>th_heap := hp2\<rparr>) \<and> cells hp2 (sink (prio_at h) ts pos)"
  using upHeap_ok [OF refl assms(1-4)] downHeap_ok [OF refl assms] by blast

theorem heap_loops_are_swaps_witness:
  "\<exists>hp. upHeap \<lparr>th_heap = [None, Some (Some 4), Some (Some 7)], th_count = 3, th_alloc = 3\<rparr>
      [4 \<mapsto> ex_htask 1, 7 \<mapsto> ex_htask 3] 2 =
      Inr \<lparr>th_heap = hp, th_count = 3, th_alloc = 3\<rparr> \<and> cells hp [7, 4]"
proof -
  have "cells [None, Some (Some 4), Some (Some 7)] [4, 7]"
    by (auto simp: cells_def nth1_def nth_Cons split: nat.splits)
  moreover have "rise (prio_at [4 \<mapsto> ex_htask 1, 7 \<mapsto> ex_htask 3]) [4, 7] 2 = [7, 4]"
    by (subst rise.simps, simp add: prio_at_def nth1_def swap1_def) (subst rise.simps, simp)
  ultimately show ?thesis
    using heap_loops_are_swaps [of "\<lparr>th_heap = [None, Some (Some 4), Some (Some 7)], th_count = 3, th_alloc = 3\<rparr>"
        "[4, 7]" 2 "[4 \<mapsto> ex_htask 1, 7 \<mapsto> ex_htask 3]"] by auto
qed

end
