(* ===== verification/Hrc_Master.thy ===== *)
theory Hrc_Master
  imports Hrc_Task Hrc_Taskqueue Mailbox
begin

text \<open>
  The master of the hierarchical scheduler (\<open>MasterLoop\<close> and its helpers in
  \<open>src/sched/hierarchy/hrc_worker_op.c\<close>): it receives messages from workers and wrappers and hands
  ready tasks to workers that asked for one. \<open>MasterHandle\<close> is the body of the loop for one
  message. The mailboxes of the workers are the lists of messages sent to them, which the channel
  interface of the mailbox theory justifies. \<open>neg\<close> is \<open>neg_demand_lim\<close>, \<open>cal\<close> the selected
  priority function.
\<close>

section \<open>Model\<close>

definition WORKER_MSG_TERMINATE :: int where "WORKER_MSG_TERMINATE = 1"
definition WORKER_MSG_WAKEUP :: int where "WORKER_MSG_WAKEUP = 2"
definition WORKER_MSG_ASSIGN :: int where "WORKER_MSG_ASSIGN = 3"
definition WORKER_MSG_REQUEST :: int where "WORKER_MSG_REQUEST = 4"
definition WORKER_MSG_RETURN :: int where "WORKER_MSG_RETURN = 5"

lemmas msg_types = WORKER_MSG_TERMINATE_def WORKER_MSG_WAKEUP_def WORKER_MSG_ASSIGN_def
  WORKER_MSG_REQUEST_def WORKER_MSG_RETURN_def

record masterctx_t =
  ms_terminate :: int
  ms_ready_tasks :: taskheap_t
  ms_waitworkers :: "int list"
  ms_workermbs :: "workermsg_t list list"
  ms_store :: hrc_store

text \<open>Reading the union of a message at the type it was written.\<close>

definition body_task :: "workermsg_t \<Rightarrow> ptr res" where
  "body_task msg = (case msg_body msg of BTask p \<Rightarrow> Inr p | _ \<Rightarrow> Inl Indeterminate)"

definition body_from_worker :: "workermsg_t \<Rightarrow> int res" where
  "body_from_worker msg = (case msg_body msg of BFromWorker i \<Rightarrow> Inr i | _ \<Rightarrow> Inl Indeterminate)"

definition sendTask :: "masterctx_t \<Rightarrow> nat \<Rightarrow> ptr \<Rightarrow> masterctx_t res" where
  "sendTask m wid t =
     bindR (deref (h_tasks (ms_store m)) t) (\<lambda>c.
     bindR (assertR (ht_state c = TASK_READY)) (\<lambda>_.
     bindR (aget (ms_workermbs m) wid) (\<lambda>mb.
     bindR (aset (ms_workermbs m) wid (mb @ [\<lparr>msg_type = WORKER_MSG_ASSIGN, msg_body = BTask t\<rparr>])) (\<lambda>mbs.
       Inr (m\<lparr>ms_workermbs := mbs\<rparr>)))))"

definition mupd :: "masterctx_t \<Rightarrow> ptr \<Rightarrow> (hrc_task_t \<Rightarrow> hrc_task_t) \<Rightarrow> masterctx_t res" where
  "mupd m t f = bindR (upd_task (ms_store m) t f) (\<lambda>w. Inr (m\<lparr>ms_store := w\<rparr>))"

definition calc_prior :: "int \<Rightarrow> (int \<Rightarrow> int \<Rightarrow> double) \<Rightarrow> masterctx_t \<Rightarrow> ptr \<Rightarrow> masterctx_t run" where
  "calc_prior neg cal m t =
     bindO (LpelTaskCalPriority neg cal (ms_store m) t) (\<lambda>p. Some (mupd m t (set_prio p)))"

text \<open>The loop over the waiting workers from index \<open>i\<close> on.\<close>

function serve_from :: "masterctx_t \<Rightarrow> ptr \<Rightarrow> nat \<Rightarrow> (int \<times> masterctx_t) res" where
  "serve_from m t i =
     (if i < length (ms_waitworkers m) then
        if ms_waitworkers m ! i = 1 then
          bindR (sendTask (m\<lparr>ms_waitworkers := (ms_waitworkers m)[i := 0]\<rparr>) i t) (\<lambda>m'. Inr (int i, m'))
        else serve_from m t (i + 1)
      else Inr (- 1, m))"
  by auto
termination by (relation "measure (\<lambda>(m, t, i). length (ms_waitworkers m) - i)") auto

definition servePendingReq :: "int \<Rightarrow> (int \<Rightarrow> int \<Rightarrow> double) \<Rightarrow> masterctx_t \<Rightarrow> ptr \<Rightarrow> (int \<times> masterctx_t) run" where
  "servePendingReq neg cal m t = bindO (calc_prior neg cal m t) (\<lambda>m1. Some (serve_from m1 t 0))"

definition neighbour :: "hrc_store \<Rightarrow> ptr \<Rightarrow> char \<Rightarrow> (ptr \<times> ptr) res" where
  "neighbour w list mode =
     bindR (deref (h_elems w) list) (\<lambda>e.
     bindR (deref (h_sds w) (se_stream_desc e)) (\<lambda>d.
     bindR (if mode = CHR ''r'' then LpelStreamProducer w (sd_stream d)
            else if mode = CHR ''w'' then LpelStreamConsumer w (sd_stream d)
            else Inl Indeterminate) (\<lambda>t. Inr (t, se_next e))))"

definition update_one :: "int \<Rightarrow> (int \<Rightarrow> int \<Rightarrow> double) \<Rightarrow> taskheap_t \<Rightarrow> hrc_store \<Rightarrow> ptr \<Rightarrow> (taskheap_t \<times> hrc_store) run" where
  "update_one neg cal tq w t =
     (if t = None then Some (Inr (tq, w))
      else bindO (Some (deref (h_tasks w) t)) (\<lambda>c.
        if ht_state c = TASK_INQUEUE then
          bindO (LpelTaskCalPriority neg cal w t) (\<lambda>np.
            Some (bindR (LpelTaskheapUpdatePriority tq (h_tasks w) t np) (\<lambda>(tq', h).
              Inr (tq', w\<lparr>h_tasks := h\<rparr>))))
        else Some (Inr (tq, w))))"

partial_function (option) updatePriorityList ::
  "int \<Rightarrow> (int \<Rightarrow> int \<Rightarrow> double) \<Rightarrow> taskheap_t \<Rightarrow> hrc_store \<Rightarrow> ptr \<Rightarrow> char \<Rightarrow> (taskheap_t \<times> hrc_store) run" where
  "updatePriorityList neg cal tq w list mode =
     (if list = None then Some (Inr (tq, w))
      else (case neighbour w list mode of Inl e \<Rightarrow> Some (Inl e)
        | Inr (t, next) \<Rightarrow>
            (case update_one neg cal tq w t of None \<Rightarrow> None
             | Some r \<Rightarrow> (case r of Inl e \<Rightarrow> Some (Inl e)
                 | Inr (tq', w') \<Rightarrow> updatePriorityList neg cal tq' w' next mode))))"

definition updatePriorityNeigh :: "int \<Rightarrow> (int \<Rightarrow> int \<Rightarrow> double) \<Rightarrow> masterctx_t \<Rightarrow> ptr \<Rightarrow> masterctx_t run" where
  "updatePriorityNeigh neg cal m t =
     bindO (Some (deref (h_tasks (ms_store m)) t)) (\<lambda>c.
     bindO (updatePriorityList neg cal (ms_ready_tasks m) (ms_store m) (in_streams (ht_sched_info c)) (CHR ''r'')) (\<lambda>(tq, w).
     bindO (Some (deref (h_tasks w) t)) (\<lambda>c.
     bindO (updatePriorityList neg cal tq w (out_streams (ht_sched_info c)) (CHR ''w'')) (\<lambda>(tq', w').
       Some (Inr (m\<lparr>ms_ready_tasks := tq', ms_store := w'\<rparr>))))))"

text \<open>The two statements that put a task into the ready queue.\<close>

definition enqueue :: "masterctx_t \<Rightarrow> ptr \<Rightarrow> masterctx_t res" where
  "enqueue m t =
     bindR (mupd m t (set_state TASK_INQUEUE)) (\<lambda>m1.
     bindR (LpelTaskheapPush (ms_ready_tasks m1) (h_tasks (ms_store m1)) t) (\<lambda>tq.
       Inr (m1\<lparr>ms_ready_tasks := tq\<rparr>)))"

definition is_dbl_min :: "masterctx_t \<Rightarrow> ptr \<Rightarrow> bool res" where
  "is_dbl_min m t = bindR (deref (h_tasks (ms_store m)) t) (\<lambda>c. Inr (prior (ht_sched_info c) = LPEL_DBL_MIN))"

definition handle_assign :: "int \<Rightarrow> (int \<Rightarrow> int \<Rightarrow> double) \<Rightarrow> masterctx_t \<Rightarrow> ptr \<Rightarrow> masterctx_t run" where
  "handle_assign neg cal m t =
     bindO (Some (deref (h_tasks (ms_store m)) t)) (\<lambda>c.
     bindO (Some (assertR (ht_state c = TASK_CREATED))) (\<lambda>_.
     bindO (Some (mupd m t (set_state TASK_READY))) (\<lambda>m1.
     bindO (servePendingReq neg cal m1 t) (\<lambda>(r, m2).
       if r < 0 then Some (bindR (mupd m2 t (set_prio DBL_MAX)) (\<lambda>m3. enqueue m3 t))
       else Some (Inr m2)))))"

definition return_ready :: "int \<Rightarrow> (int \<Rightarrow> int \<Rightarrow> double) \<Rightarrow> masterctx_t \<Rightarrow> ptr \<Rightarrow> masterctx_t run" where
  "return_ready neg cal m t =
     bindO (calc_prior neg cal m t) (\<lambda>m1.
     bindO (Some (is_dbl_min m1 t)) (\<lambda>low.
       if low then Some (enqueue m1 t)
       else bindO (servePendingReq neg cal m1 t) (\<lambda>(r, m2).
         if r < 0 then
           bindO (updatePriorityNeigh neg cal m2 t) (\<lambda>m3.
           bindO (calc_prior neg cal m3 t) (\<lambda>m4. Some (enqueue m4 t)))
         else Some (Inr m2))))"

definition handle_return :: "int \<Rightarrow> (int \<Rightarrow> int \<Rightarrow> double) \<Rightarrow> masterctx_t \<Rightarrow> ptr \<Rightarrow> masterctx_t run" where
  "handle_return neg cal m t =
     bindO (Some (deref (h_tasks (ms_store m)) t)) (\<lambda>c.
       if ht_state c = TASK_BLOCKED then
         if ht_wakenup c = 1 then
           bindO (Some (mupd m t (\<lambda>c. c\<lparr>ht_wakenup := 0, ht_state := TASK_READY\<rparr>))) (\<lambda>m1. return_ready neg cal m1 t)
         else
           bindO (Some (mupd m t (set_state TASK_RETURNED))) (\<lambda>m1. updatePriorityNeigh neg cal m1 t)
       else if ht_state c = TASK_READY then return_ready neg cal m t
       else if ht_state c = TASK_ZOMBIE then
         bindO (updatePriorityNeigh neg cal m t) (\<lambda>m1.
           Some (bindR (LpelTaskDestroy (ms_store m1) t) (\<lambda>w. Inr (m1\<lparr>ms_store := w\<rparr>))))
       else Some (Inl AssertFail))"

definition handle_wakeup :: "int \<Rightarrow> (int \<Rightarrow> int \<Rightarrow> double) \<Rightarrow> masterctx_t \<Rightarrow> ptr \<Rightarrow> masterctx_t run" where
  "handle_wakeup neg cal m t =
     bindO (Some (deref (h_tasks (ms_store m)) t)) (\<lambda>c.
       if ht_state c \<noteq> TASK_RETURNED then Some (mupd m t (\<lambda>c. c\<lparr>ht_wakenup := 1\<rparr>))
       else
         bindO (Some (mupd m t (set_state TASK_READY))) (\<lambda>m1.
         bindO (calc_prior neg cal m1 t) (\<lambda>m2.
         bindO (Some (is_dbl_min m2 t)) (\<lambda>low.
           if low then Some (enqueue m2 t)
           else bindO (servePendingReq neg cal m2 t) (\<lambda>(r, m3).
             if r < 0 then Some (enqueue m3 t) else Some (Inr m3))))))"

definition handle_request :: "masterctx_t \<Rightarrow> int \<Rightarrow> masterctx_t res" where
  "handle_request m wid =
     bindR (LpelTaskheapPeek (ms_ready_tasks m)) (\<lambda>t.
       let wait = bindR (aset (ms_waitworkers m) (nat wid) 1) (\<lambda>ws. Inr (m\<lparr>ms_waitworkers := ws\<rparr>)) in
       if wid < 0 then Inl OutOfBounds
       else if t = None then wait
       else bindR (is_dbl_min m t) (\<lambda>low.
         if low then wait
         else bindR (mupd m t (set_state TASK_READY)) (\<lambda>m1.
              bindR (sendTask m1 (nat wid) t) (\<lambda>m2.
              bindR (LpelTaskheapPop (ms_ready_tasks m2) (h_tasks (ms_store m2))) (\<lambda>(_, tq).
                Inr (m2\<lparr>ms_ready_tasks := tq\<rparr>))))))"

definition MasterHandle :: "int \<Rightarrow> (int \<Rightarrow> int \<Rightarrow> double) \<Rightarrow> masterctx_t \<Rightarrow> workermsg_t \<Rightarrow> masterctx_t run" where
  "MasterHandle neg cal m msg =
     (if msg_type msg = WORKER_MSG_ASSIGN then bindO (Some (body_task msg)) (handle_assign neg cal m)
      else if msg_type msg = WORKER_MSG_RETURN then bindO (Some (body_task msg)) (handle_return neg cal m)
      else if msg_type msg = WORKER_MSG_WAKEUP then bindO (Some (body_task msg)) (handle_wakeup neg cal m)
      else if msg_type msg = WORKER_MSG_REQUEST then Some (bindR (body_from_worker msg) (handle_request m))
      else if msg_type msg = WORKER_MSG_TERMINATE then Some (Inr (m\<lparr>ms_terminate := 1\<rparr>))
      else Some (Inl AssertFail))"

text \<open>\<open>MasterLoop\<close> on the sequence of messages it receives; \<open>WouldBlock\<close> when they run out.\<close>

fun MasterLoop :: "int \<Rightarrow> (int \<Rightarrow> int \<Rightarrow> double) \<Rightarrow> masterctx_t \<Rightarrow> workermsg_t list \<Rightarrow> (masterctx_t \<times> workermsg_t list) run" where
  "MasterLoop neg cal m [] = Some (Inl WouldBlock)"
| "MasterLoop neg cal m (msg # msgs) =
     bindO (MasterHandle neg cal m msg) (\<lambda>m'.
       if \<not> (ms_terminate m' \<noteq> 0 \<and> LpelTaskheapSize (ms_ready_tasks m') = 0) then MasterLoop neg cal m' msgs
       else Some (Inr (m', msgs)))"

section \<open>Well-formed stores\<close>

text \<open>Two task heaps that differ in stored priorities only.\<close>

definition spr :: "hrc_tasks \<Rightarrow> hrc_tasks \<Rightarrow> bool" where
  "spr h h' \<longleftrightarrow> (\<forall>t. map_option (set_prio 0) (h t) = map_option (set_prio 0) (h' t))"

definition links :: "hrc_task_t \<Rightarrow> ptr \<times> ptr" where
  "links c = (in_streams (ht_sched_info c), out_streams (ht_sched_info c))"

definition same_links :: "hrc_tasks \<Rightarrow> hrc_tasks \<Rightarrow> bool" where
  "same_links h h' \<longleftrightarrow> (\<forall>t. map_option links (h t) = map_option links (h' t))"

definition ends_ok :: "hrc_store \<Rightarrow> ptr \<Rightarrow> bool" where
  "ends_ok w p \<longleftrightarrow> (\<forall>d. p = Some d \<longrightarrow> (\<exists>sd. h_sds w d = Some sd \<and> (\<forall>t. sd_task sd = Some t \<longrightarrow> t \<in> dom (h_tasks w))))"

text \<open>The record counts of a task are representable as a C \<open>int\<close>.\<close>

definition c_count :: "int \<Rightarrow> bool" where
  "c_count n \<longleftrightarrow> - 1 \<le> n \<and> n < 2 ^ 31"

definition counts_ok :: "hrc_store \<Rightarrow> ptr \<times> ptr \<Rightarrow> bool" where
  "counts_ok w l \<longleftrightarrow> (\<forall>es. el_rep w (fst l) es \<longrightarrow> c_count (count_spec w (CHR ''i'') es)) \<and>
     (\<forall>es. el_rep w (snd l) es \<longrightarrow> c_count (count_spec w (CHR ''o'') es))"

definition store_wf :: "hrc_store \<Rightarrow> bool" where
  "store_wf w \<longleftrightarrow> (\<forall>t \<in> dom (h_tasks w). task_wf w t) \<and>
     (\<forall>t c. h_tasks w t = Some c \<longrightarrow> counts_ok w (links c)) \<and>
     (\<forall>s c. h_streams w s = Some c \<longrightarrow> ends_ok w (st_prod_sd c) \<and> ends_ok w (st_cons_sd c))"

lemma spr_refl [simp]: "spr h h"
  by (simp add: spr_def)

lemma spr_trans: "spr h h' \<Longrightarrow> spr h' h'' \<Longrightarrow> spr h h''"
  by (simp add: spr_def)

lemma set_prio_fields [simp]:
  "ht_state (set_prio p c) = ht_state c" "ht_wakenup (set_prio p c) = ht_wakenup c"
  "links (set_prio p c) = links c" "links (set_state st c) = links c"
  "links (c\<lparr>ht_wakenup := n\<rparr>) = links c" "prior (ht_sched_info (set_prio p c)) = p"
  by (simp_all add: links_def)

lemma spr_Some:
  assumes "spr h h'" and "h t = Some c"
  obtains c' where "h' t = Some c'" "set_prio 0 c' = set_prio 0 c"
  using assms unfolding spr_def by (metis (no_types, lifting) map_option_eq_Some)

lemma set_prio_eq:
  assumes "set_prio 0 c' = set_prio 0 c"
  shows "ht_state c' = ht_state c" "ht_wakenup c' = ht_wakenup c" "links c' = links c"
  using arg_cong [OF assms, of ht_state] arg_cong [OF assms, of ht_wakenup] arg_cong [OF assms, of links]
  by simp_all

lemma spr_sym: "spr h h' \<Longrightarrow> spr h' h"
  by (simp add: spr_def)

lemma spr_links: "spr h h' \<Longrightarrow> same_links h h'"
  unfolding same_links_def
proof
  fix t assume s: "spr h h'"
  show "map_option links (h t) = map_option links (h' t)"
  proof (cases "h t")
    case None
    then show ?thesis using spec [OF s [unfolded spr_def], of t] by simp
  next
    case (Some c)
    from spr_Some [OF s Some] obtain c' where "h' t = Some c'" "set_prio 0 c' = set_prio 0 c" by blast
    then show ?thesis using Some set_prio_eq(3) [of c' c] by simp
  qed
qed

lemma same_links_dom: "same_links h h' \<Longrightarrow> dom h' = dom h"
  unfolding same_links_def dom_def by (metis option.map_disc_iff)

lemma same_links_upd: "h t = Some c \<Longrightarrow> links c' = links c \<Longrightarrow> same_links h (h(t \<mapsto> c'))"
  by (simp add: same_links_def)

lemma same_links_trans: "same_links h h' \<Longrightarrow> same_links h' h'' \<Longrightarrow> same_links h h''"
  by (simp add: same_links_def)

lemma el_rep_tasks [simp]: "el_rep (w\<lparr>h_tasks := h\<rparr>) p es = el_rep w p es"
  by (simp add: el_rep_def)

lemma elems_ok_tasks [simp]: "elems_ok (w\<lparr>h_tasks := h\<rparr>) es = elems_ok w es"
  by (simp add: elems_ok_def elem_desc_def)

lemma task_wf_links:
  assumes "task_wf w t" and "same_links (h_tasks w) h"
  shows "task_wf (w\<lparr>h_tasks := h\<rparr>) t"
proof -
  from assms(1) obtain c ins outs where c: "h_tasks w t = Some c" "el_rep w (in_streams (ht_sched_info c)) ins"
    "el_rep w (out_streams (ht_sched_info c)) outs" "elems_ok w ins" "elems_ok w outs" by (auto simp: task_wf_def)
  from assms(2) c(1) obtain c' where "h t = Some c'" "links c' = links c"
    unfolding same_links_def by (metis (no_types, lifting) map_option_eq_Some)
  with c show ?thesis unfolding task_wf_def links_def by auto
qed

lemma count_spec_tasks [simp]: "count_spec (w\<lparr>h_tasks := h\<rparr>) inout es = count_spec w inout es"
proof -
  have "stream_of (w\<lparr>h_tasks := h\<rparr>) = stream_of w" by (simp add: fun_eq_iff stream_of_def elem_desc_def)
  then have "open_streams (w\<lparr>h_tasks := h\<rparr>) es = open_streams w es" by (simp add: open_streams_def)
  moreover have "excluded (w\<lparr>h_tasks := h\<rparr>) inout = excluded w inout" "fill (w\<lparr>h_tasks := h\<rparr>) = fill w"
    by (simp_all add: fun_eq_iff excluded_def fill_def)
  ultimately show ?thesis by (simp add: count_spec_def)
qed

lemma counts_ok_tasks [simp]: "counts_ok (w\<lparr>h_tasks := h\<rparr>) l = counts_ok w l"
  by (simp add: counts_ok_def)

lemma store_wf_links:
  assumes "store_wf w" and "same_links (h_tasks w) h"
  shows "store_wf (w\<lparr>h_tasks := h\<rparr>)"
proof -
  have d: "dom h = dom (h_tasks w)" using assms(2) by (rule same_links_dom)
  have e: "ends_ok (w\<lparr>h_tasks := h\<rparr>) p" if "ends_ok w p" for p using that d by (auto simp: ends_ok_def)
  have "counts_ok w (links c)" if "h t = Some c" for t c
  proof -
    from assms(2) that obtain c0 where "h_tasks w t = Some c0" "links c0 = links c"
      unfolding same_links_def by (metis (no_types, lifting) map_option_eq_Some)
    with assms(1) show ?thesis unfolding store_wf_def by metis
  qed
  then show ?thesis
    using assms(1) task_wf_links [OF _ assms(2)] e d by (auto simp: store_wf_def)
qed

lemma CalPriority_wf:
  assumes "store_wf w" and "t \<in> dom (h_tasks w)"
  obtains p where "LpelTaskCalPriority neg cal w (Some t) = Some (Inr p)"
  using assms CalPriority_total unfolding store_wf_def by metis

text \<open>
  A configuration without demand limit: \<open>neg_demand_lim\<close> is not positive (its initial value is 0) and the
  priority function does not yield the value that marks tasks not to be scheduled. Only the results that speak
  of a worker waiting for a queued task need it.
\<close>

definition cfg_ok :: "int \<Rightarrow> (int \<Rightarrow> int \<Rightarrow> double) \<Rightarrow> bool" where
  "cfg_ok neg cal \<longleftrightarrow> neg \<le> 0 \<and> (\<forall>i out. c_count i \<and> c_count out \<longrightarrow> cal i out \<noteq> LPEL_DBL_MIN)"

lemma CalPriority_not_min:
  assumes "cfg_ok neg cal" and "LpelTaskCalPriority neg cal w (Some t) = Some (Inr p)" and "store_wf w"
    and "t \<in> dom (h_tasks w)"
  shows "p \<noteq> LPEL_DBL_MIN"
proof -
  from assms(3,4) have wf: "task_wf w t" by (simp add: store_wf_def)
  then obtain c ins outs where c: "h_tasks w t = Some c" "el_rep w (in_streams (ht_sched_info c)) ins"
    "el_rep w (out_streams (ht_sched_info c)) outs" "elems_ok w ins" "elems_ok w outs" by (auto simp: task_wf_def)
  from c(1) assms(3) have "counts_ok w (links c)" by (auto simp: store_wf_def)
  with c(2,3) have "c_count (count_spec w (CHR ''i'') ins)" "c_count (count_spec w (CHR ''o'') outs)"
    by (auto simp: counts_ok_def links_def)
  with assms(1,2) CalPriority_ok [OF c(1,2,4,3,5)] show ?thesis by (auto simp: cfg_ok_def Let_def)
qed

text \<open>Every priority function that can be selected satisfies this.\<close>

lemma min_lt: "r < - (2 ^ 31) \<or> LPEL_DBL_MIN \<noteq> r"
proof -
  have "(2::real) ^ 971 + 2 ^ 31 < 2 ^ 1024" by simp
  then show ?thesis by (auto simp: LPEL_DBL_MIN_def DBL_MAX_def)
qed

lemma nonneg_not_min: "0 \<le> r \<Longrightarrow> r \<noteq> LPEL_DBL_MIN"
  using min_lt [of r] by auto

lemma cfg_ok_selected:
  assumes "rounding rnd" and "0 \<le> r" and "neg \<le> 0"
  shows "cfg_ok neg (LpelTaskSetPriorityFunc rnd r func)"
  unfolding cfg_ok_def
proof (intro conjI allI impI)
  fix i out assume "c_count i \<and> c_count out"
  then have b: "(0::real) \<le> of_int i + 1" "(0::real) \<le> of_int out + 1" "(0::real) \<le> 1 + of_int out"
    "of_int out < (2::real) ^ 31" by (auto simp: c_count_def)
  have nn: "\<And>x. 0 \<le> x \<Longrightarrow> 0 \<le> rnd x" by (rule rounding_nonneg [OF assms(1)])
  have d: "(0::real) \<le> DBL_MAX" by (simp add: DBL_MAX_def)
  have "priorfunc14 i out \<noteq> LPEL_DBL_MIN"
    using min_lt [of "priorfunc14 i out"] b by (auto simp: priorfunc14_def)
  moreover have "0 \<le> LpelTaskSetPriorityFunc rnd r func i out" if f: "1 \<le> func" "func \<le> 13"
  proof -
    have "func = 1 \<or> func = 2 \<or> func = 3 \<or> func = 4 \<or> func = 5 \<or> func = 6 \<or> func = 7 \<or> func = 8 \<or> func = 9 \<or>
      func = 10 \<or> func = 11 \<or> func = 12 \<or> func = 13" using f by presburger
    then show ?thesis using b d assms(2)
      by (elim disjE) (auto simp: LpelTaskSetPriorityFunc_def priorfunc_defs priorfunc13_def Let_def intro!: nn divide_nonneg_nonneg)
  qed
  then have "LpelTaskSetPriorityFunc rnd r func i out \<noteq> LPEL_DBL_MIN" if "1 \<le> func" "func \<le> 13"
    using that nonneg_not_min by simp
  moreover have "LpelTaskSetPriorityFunc rnd r func = priorfunc14" if "\<not> (1 \<le> func \<and> func \<le> 13)"
    using that by (auto simp: LpelTaskSetPriorityFunc_def)
  ultimately show "LpelTaskSetPriorityFunc rnd r func i out \<noteq> LPEL_DBL_MIN" by metis
qed (rule assms(3))

section \<open>Updating the priorities of neighbours\<close>

text \<open>The tasks in state \<open>INQUEUE\<close> are those the ready queue holds.\<close>

definition inq :: "hrc_tasks \<Rightarrow> addr set \<Rightarrow> bool" where
  "inq h S \<longleftrightarrow> (\<forall>t. t \<in> S \<longleftrightarrow> (\<exists>c. h t = Some c \<and> ht_state c = TASK_INQUEUE))"

definition nolow :: "hrc_tasks \<Rightarrow> addr set \<Rightarrow> bool" where
  "nolow h S \<longleftrightarrow> (\<forall>t \<in> S. prio_at h t \<noteq> LPEL_DBL_MIN)"

text \<open>\<open>d\<close> tells that there is no demand limit; then no queued task has the lowest priority.\<close>

definition queue_ok :: "bool \<Rightarrow> taskheap_t \<Rightarrow> hrc_store \<Rightarrow> addr set \<Rightarrow> bool" where
  "queue_ok d tq w S \<longleftrightarrow> th_inv tq (h_tasks w) S \<and> inq (h_tasks w) S \<and> (d \<longrightarrow> nolow (h_tasks w) S) \<and> store_wf w"

lemma set_prior_spr: "set_prior h (Some t) np = Inr h' \<Longrightarrow> spr h h'"
  by (auto simp: set_prior_def upd_eq_Inr spr_def)

lemma inq_spr: "inq h S \<Longrightarrow> spr h h' \<Longrightarrow> inq h' S"
proof -
  assume i: "inq h S" and s: "spr h h'"
  have "(\<exists>c. h t = Some c \<and> ht_state c = TASK_INQUEUE) \<longleftrightarrow> (\<exists>c. h' t = Some c \<and> ht_state c = TASK_INQUEUE)" for t
    using spr_Some [OF s, of t] spr_Some [OF spr_sym [OF s], of t] set_prio_eq(1) by metis
  then show ?thesis using i by (simp add: inq_def)
qed

lemma update_one_ok:
  assumes cfg: "d \<longrightarrow> cfg_ok neg cal" and q: "queue_ok d tq w S" and t: "\<And>a. t = Some a \<Longrightarrow> a \<in> dom (h_tasks w)"
  shows "\<exists>tq' h. update_one neg cal tq w t = Some (Inr (tq', w\<lparr>h_tasks := h\<rparr>)) \<and>
    queue_ok d tq' (w\<lparr>h_tasks := h\<rparr>) S \<and> spr (h_tasks w) h"
proof (cases t)
  case None
  then show ?thesis using q by (intro exI [of _ tq] exI [of _ "h_tasks w"]) (simp add: update_one_def)
next
  case (Some a)
  then obtain c where c: "h_tasks w a = Some c" using t by auto
  show ?thesis
  proof (cases "ht_state c = TASK_INQUEUE")
    case False
    then show ?thesis using q c Some
      by (intro exI [of _ tq] exI [of _ "h_tasks w"]) (simp add: update_one_def)
  next
    case True
    then have aS: "a \<in> S" using q c by (auto simp: queue_ok_def inq_def)
    have "store_wf w" using q by (simp add: queue_ok_def)
    then obtain p where p: "LpelTaskCalPriority neg cal w (Some a) = Some (Inr p)"
      using CalPriority_wf c by blast
    from th_Update [of tq "h_tasks w" S a p] q aS obtain tq' h where
      u: "LpelTaskheapUpdatePriority tq (h_tasks w) (Some a) p = Inr (tq', h)"
        "set_prior (h_tasks w) (Some a) p = Inr h" "th_inv tq' h S" by (auto simp: queue_ok_def)
    have s: "spr (h_tasks w) h" using u(2) by (rule set_prior_spr)
    have "nolow h S" if d
      using that set_prior_prio [OF c u(2)] q CalPriority_not_min [OF mp [OF cfg that] p _ domI [of "h_tasks w", OF c]] by (auto simp: queue_ok_def nolow_def)
    moreover have "inq h S" using q s inq_spr by (auto simp: queue_ok_def)
    moreover have "store_wf (w\<lparr>h_tasks := h\<rparr>)" using q s spr_links store_wf_links by (auto simp: queue_ok_def)
    ultimately have "queue_ok d tq' (w\<lparr>h_tasks := h\<rparr>) S" using u(3) by (simp add: queue_ok_def)
    with u p c True Some s show ?thesis by (auto simp: update_one_def)
  qed
qed

lemma neighbour_ok:
  assumes wf: "store_wf w" and e: "h_elems w a = Some e" and ok: "elems_ok w (a # es)"
    and mode: "mode \<in> {CHR ''r'', CHR ''w''}"
  shows "\<exists>t. neighbour w (Some a) mode = Inr (t, se_next e) \<and> (\<forall>b. t = Some b \<longrightarrow> b \<in> dom (h_tasks w))"
proof -
  from ok e obtain d sd where d: "se_stream_desc e = Some d" "h_sds w d = Some sd"
    "\<forall>s. sd_stream sd = Some s \<longrightarrow> s \<in> dom (h_streams w)" by (auto simp: elems_ok_def elem_desc_def)
  show ?thesis
  proof (cases "sd_stream sd")
    case None
    then show ?thesis using e d(1,2) mode by (auto simp: neighbour_def LpelStreamProducer_def LpelStreamConsumer_def)
  next
    case (Some s)
    with d(3) obtain c where c: "h_streams w s = Some c" by auto
    with wf have ends: "ends_ok w (st_prod_sd c)" "ends_ok w (st_cons_sd c)" by (auto simp: store_wf_def)
    have "\<exists>t. LpelStreamProducer w (Some s) = Inr t \<and> (\<forall>b. t = Some b \<longrightarrow> b \<in> dom (h_tasks w))"
      using ends(1) c by (cases "st_prod_sd c") (auto simp: LpelStreamProducer_def ends_ok_def)
    moreover have "\<exists>t. LpelStreamConsumer w (Some s) = Inr t \<and> (\<forall>b. t = Some b \<longrightarrow> b \<in> dom (h_tasks w))"
      using ends(2) c by (cases "st_cons_sd c") (auto simp: LpelStreamConsumer_def ends_ok_def)
    ultimately show ?thesis using e d(1,2) mode Some by (auto simp: neighbour_def)
  qed
qed

lemma updatePriorityList_ok:
  assumes "d \<longrightarrow> cfg_ok neg cal" and "queue_ok d tq w S" and "el_rep w p es" and "elems_ok w es"
    and "mode \<in> {CHR ''r'', CHR ''w''}"
  shows "\<exists>tq' h. updatePriorityList neg cal tq w p mode = Some (Inr (tq', w\<lparr>h_tasks := h\<rparr>)) \<and>
    queue_ok d tq' (w\<lparr>h_tasks := h\<rparr>) S \<and> spr (h_tasks w) h"
  using assms
proof (induction es arbitrary: tq w p)
  case Nil
  then show ?case
    by (intro exI [of _ tq] exI [of _ "h_tasks w"]) (simp add: el_rep_def updatePriorityList.simps)
next
  case (Cons a es)
  have p: "p = Some a" using Cons.prems(3) by (simp add: el_rep_def nlist_Cons)
  obtain e where e: "h_elems w a = Some e" using Cons.prems(3) by (auto simp: el_rep_def)
  have wf: "store_wf w" using Cons.prems(2) by (simp add: queue_ok_def)
  from neighbour_ok [OF wf e Cons.prems(4,5)] obtain t where
    t: "neighbour w (Some a) mode = Inr (t, se_next e)" "\<forall>b. t = Some b \<longrightarrow> b \<in> dom (h_tasks w)" by blast
  from update_one_ok [OF Cons.prems(1,2), of t] t(2) obtain tq1 h1 where
    1: "update_one neg cal tq w t = Some (Inr (tq1, w\<lparr>h_tasks := h1\<rparr>))" "queue_ok d tq1 (w\<lparr>h_tasks := h1\<rparr>) S"
      "spr (h_tasks w) h1" by blast
  have "el_rep w (se_next e) es" "elems_ok w es"
    using Cons.prems(3,4) e by (auto simp: el_rep_def nlist_Cons elems_ok_def)
  then have "el_rep (w\<lparr>h_tasks := h1\<rparr>) (se_next e) es" "elems_ok (w\<lparr>h_tasks := h1\<rparr>) es" by simp_all
  from Cons.IH [OF Cons.prems(1) 1(2) this Cons.prems(5)] obtain tq2 h2 where
    2: "updatePriorityList neg cal tq1 (w\<lparr>h_tasks := h1\<rparr>) (se_next e) mode = Some (Inr (tq2, w\<lparr>h_tasks := h2\<rparr>))"
      "queue_ok d tq2 (w\<lparr>h_tasks := h2\<rparr>) S" "spr h1 h2" by auto
  have "updatePriorityList neg cal tq w p mode = Some (Inr (tq2, w\<lparr>h_tasks := h2\<rparr>))"
    using p t(1) 1(1) 2(1) by (subst updatePriorityList.simps) simp
  with 2 1(3) show ?case using spr_trans by blast
qed

lemma updatePriorityNeigh_ok:
  assumes "d \<longrightarrow> cfg_ok neg cal" and "queue_ok d (ms_ready_tasks m) (ms_store m) S" and "t \<in> dom (h_tasks (ms_store m))"
  shows "\<exists>tq h. updatePriorityNeigh neg cal m (Some t) =
      Some (Inr (m\<lparr>ms_ready_tasks := tq, ms_store := (ms_store m)\<lparr>h_tasks := h\<rparr>\<rparr>)) \<and>
    queue_ok d tq ((ms_store m)\<lparr>h_tasks := h\<rparr>) S \<and> spr (h_tasks (ms_store m)) h"
proof -
  let ?w = "ms_store m"
  from assms(2,3) obtain c ins outs where c: "h_tasks ?w t = Some c" "el_rep ?w (in_streams (ht_sched_info c)) ins"
    "el_rep ?w (out_streams (ht_sched_info c)) outs" "elems_ok ?w ins" "elems_ok ?w outs"
    unfolding queue_ok_def store_wf_def task_wf_def by metis
  from updatePriorityList_ok [OF assms(1,2) c(2,4), of "CHR ''r''"] obtain tq1 h1 where
    1: "updatePriorityList neg cal (ms_ready_tasks m) ?w (in_streams (ht_sched_info c)) (CHR ''r'') =
        Some (Inr (tq1, ?w\<lparr>h_tasks := h1\<rparr>))" "queue_ok d tq1 (?w\<lparr>h_tasks := h1\<rparr>) S" "spr (h_tasks ?w) h1" by auto
  obtain c1 where c1: "h1 t = Some c1" "set_prio 0 c1 = set_prio 0 c" using spr_Some [OF 1(3) c(1)] by blast
  have o: "out_streams (ht_sched_info c1) = out_streams (ht_sched_info c)"
    using set_prio_eq(3) [OF c1(2)] by (simp add: links_def)
  have "el_rep (?w\<lparr>h_tasks := h1\<rparr>) (out_streams (ht_sched_info c1)) outs" "elems_ok (?w\<lparr>h_tasks := h1\<rparr>) outs"
    using c(3,5) o by auto
  from updatePriorityList_ok [OF assms(1) 1(2) this, of "CHR ''w''"] obtain tq2 h2 where
    2: "updatePriorityList neg cal tq1 (?w\<lparr>h_tasks := h1\<rparr>) (out_streams (ht_sched_info c1)) (CHR ''w'') =
        Some (Inr (tq2, ?w\<lparr>h_tasks := h2\<rparr>))" "queue_ok d tq2 (?w\<lparr>h_tasks := h2\<rparr>) S" "spr h1 h2" by auto
  have "updatePriorityNeigh neg cal m (Some t) =
      Some (Inr (m\<lparr>ms_ready_tasks := tq2, ms_store := ?w\<lparr>h_tasks := h2\<rparr>\<rparr>))"
    using c(1) c1(1) 1(1) 2(1) by (simp add: updatePriorityNeigh_def)
  with 2(2,3) 1(3) show ?thesis using spr_trans by blast
qed

section \<open>Single actions of the master\<close>

lemma is_heap_cong:
  assumes "\<And>u. u \<in> set ts \<Longrightarrow> k u = k' u"
  shows "is_heap k ts = is_heap k' ts"
proof -
  have "keys k ts i = keys k' ts i" if "1 \<le> i" "i \<le> length ts" for i
    using assms nth1_in_set [OF that] by blast
  moreover have "1 \<le> i div 2" "i div 2 \<le> length ts" if "2 \<le> i" "i \<le> length ts" for i using that by auto
  ultimately show ?thesis unfolding is_heap_def heap_ord_def
    by (metis Suc_1 Suc_leD One_nat_def)
qed

lemma th_inv_frame:
  assumes "th_inv tq h S" and "\<And>u. u \<in> S \<Longrightarrow> prio_at h' u = prio_at h u" and "S \<subseteq> dom h'"
  shows "th_inv tq h' S"
  using assms is_heap_cong [of _ "prio_at h'" "prio_at h"] unfolding th_inv_def th_rep_def by metis

lemma queue_ok_upd:
  assumes q: "queue_ok d tq w S" and c: "h_tasks w t = Some c" and t: "t \<notin> S" and l: "links c' = links c"
    and st: "ht_state c' \<noteq> TASK_INQUEUE"
  shows "queue_ok d tq (w\<lparr>h_tasks := (h_tasks w)(t \<mapsto> c')\<rparr>) S"
proof -
  let ?h = "(h_tasks w)(t \<mapsto> c')"
  have p: "prio_at ?h u = prio_at (h_tasks w) u" if "u \<in> S" for u using that t by (auto simp: prio_at_def)
  have "S \<subseteq> dom ?h" using q t by (auto simp: queue_ok_def inq_def)
  then have "th_inv tq ?h S" using q p th_inv_frame by (auto simp: queue_ok_def)
  moreover have "inq ?h S" using q t st by (auto simp: queue_ok_def inq_def)
  moreover have "d \<longrightarrow> nolow ?h S" using q p by (auto simp: queue_ok_def nolow_def)
  moreover have "store_wf (w\<lparr>h_tasks := ?h\<rparr>)"
    using q c l same_links_upd store_wf_links by (auto simp: queue_ok_def)
  ultimately show ?thesis by (simp add: queue_ok_def)
qed

lemma enqueue_ok:
  assumes q: "queue_ok d (ms_ready_tasks m) (ms_store m) S" and c: "h_tasks (ms_store m) t = Some c"
    and t: "t \<notin> S" and p: "d \<longrightarrow> prior (ht_sched_info c) \<noteq> LPEL_DBL_MIN"
  shows "\<exists>tq. enqueue m (Some t) = Inr (m\<lparr>ms_ready_tasks := tq,
      ms_store := (ms_store m)\<lparr>h_tasks := (h_tasks (ms_store m))(t \<mapsto> set_state TASK_INQUEUE c)\<rparr>\<rparr>) \<and>
    queue_ok d tq ((ms_store m)\<lparr>h_tasks := (h_tasks (ms_store m))(t \<mapsto> set_state TASK_INQUEUE c)\<rparr>) (insert t S)"
proof -
  let ?w = "ms_store m"
  let ?h = "(h_tasks ?w)(t \<mapsto> set_state TASK_INQUEUE c)"
  have pr: "prio_at ?h u = prio_at (h_tasks ?w) u" if "u \<in> S" for u using that t by (auto simp: prio_at_def)
  have "S \<subseteq> dom ?h" using q by (auto simp: queue_ok_def inq_def)
  then have "th_inv (ms_ready_tasks m) ?h S" using q pr th_inv_frame by (auto simp: queue_ok_def)
  from th_Push [OF this _ t] obtain tq where
    tq: "LpelTaskheapPush (ms_ready_tasks m) ?h (Some t) = Inr tq" "th_inv tq ?h (insert t S)" by auto
  have "inq ?h (insert t S)" using q by (auto simp: queue_ok_def inq_def)
  moreover have "d \<longrightarrow> nolow ?h (insert t S)" using q pr p by (auto simp: queue_ok_def nolow_def prio_at_def)
  moreover have "store_wf (?w\<lparr>h_tasks := ?h\<rparr>)"
    using q c same_links_upd [of "h_tasks ?w" t c "set_state TASK_INQUEUE c"] store_wf_links by (auto simp: queue_ok_def)
  ultimately have "queue_ok d tq (?w\<lparr>h_tasks := ?h\<rparr>) (insert t S)" using tq(2) by (simp add: queue_ok_def)
  moreover have "enqueue m (Some t) = Inr (m\<lparr>ms_ready_tasks := tq, ms_store := ?w\<lparr>h_tasks := ?h\<rparr>\<rparr>)"
    using c tq(1) by (simp add: enqueue_def mupd_def)
  ultimately show ?thesis by blast
qed

definition waiting :: "masterctx_t \<Rightarrow> nat set" where
  "waiting m = {i. i < length (ms_waitworkers m) \<and> ms_waitworkers m ! i = 1}"

definition assign_msg :: "addr \<Rightarrow> workermsg_t" where
  "assign_msg t = \<lparr>msg_type = WORKER_MSG_ASSIGN, msg_body = BTask (Some t)\<rparr>"

text \<open>The worker mailboxes after at most one task has been sent.\<close>

definition deliver :: "workermsg_t list list \<Rightarrow> (nat \<times> addr) option \<Rightarrow> workermsg_t list list" where
  "deliver mbs out = (case out of None \<Rightarrow> mbs | Some (i, t) \<Rightarrow> mbs[i := mbs ! i @ [assign_msg t]])"

lemma sendTask_ok:
  assumes "h_tasks (ms_store m) t = Some c" and "ht_state c = TASK_READY" and "i < length (ms_workermbs m)"
  shows "sendTask m i (Some t) = Inr (m\<lparr>ms_workermbs := deliver (ms_workermbs m) (Some (i, t))\<rparr>)"
  using assms by (simp add: sendTask_def deliver_def assign_msg_def)

declare serve_from.simps [simp del]

lemma serve_from_none:
  assumes "\<And>j. i \<le> j \<Longrightarrow> j \<notin> waiting m"
  shows "serve_from m t i = Inr (- 1, m)"
  using assms
proof (induction m t i rule: serve_from.induct)
  case (1 m t i)
  show ?case
  proof (cases "i < length (ms_waitworkers m)")
    case True
    then have "ms_waitworkers m ! i \<noteq> 1" using 1(2) [of i] by (simp add: waiting_def)
    then show ?thesis using True 1(1) 1(2) by (subst serve_from.simps) simp
  qed (subst serve_from.simps, simp)
qed

lemma serve_from_some:
  assumes "h_tasks (ms_store m) t = Some c" and "ht_state c = TASK_READY"
    and "length (ms_workermbs m) = length (ms_waitworkers m)" and "j \<in> waiting m" and "i \<le> j"
  shows "\<exists>k \<in> waiting m. serve_from m (Some t) i = Inr (int k, m\<lparr>ms_waitworkers := (ms_waitworkers m)[k := 0],
      ms_workermbs := deliver (ms_workermbs m) (Some (k, t))\<rparr>)"
  using assms
proof (induction m "Some t" i rule: serve_from.induct)
  case (1 m i)
  have i: "i < length (ms_waitworkers m)" using 1(5,6) by (simp add: waiting_def)
  show ?case
  proof (cases "ms_waitworkers m ! i = 1")
    case True
    then have "i \<in> waiting m" using i by (simp add: waiting_def)
    moreover have "serve_from m (Some t) i = Inr (int i, m\<lparr>ms_waitworkers := (ms_waitworkers m)[i := 0],
      ms_workermbs := deliver (ms_workermbs m) (Some (i, t))\<rparr>)"
      using True i 1(2-4) by (subst serve_from.simps) (simp add: sendTask_ok)
    ultimately show ?thesis by blast
  next
    case False
    then have "i \<noteq> j" using 1(5) by (auto simp: waiting_def)
    then have "\<exists>k \<in> waiting m. serve_from m (Some t) (i + 1) = Inr (int k, m\<lparr>ms_waitworkers := (ms_waitworkers m)[k := 0],
      ms_workermbs := deliver (ms_workermbs m) (Some (k, t))\<rparr>)"
      using 1 i False by (intro 1(1)) auto
    then show ?thesis using i False by (subst serve_from.simps) simp
  qed
qed

definition master_ok :: "bool \<Rightarrow> masterctx_t \<Rightarrow> addr set \<Rightarrow> nat set \<Rightarrow> bool" where
  "master_ok d m S W \<longleftrightarrow> queue_ok d (ms_ready_tasks m) (ms_store m) S \<and>
     length (ms_workermbs m) = length (ms_waitworkers m) \<and> waiting m = W"

text \<open>
  What happens to a task that becomes ready: a waiting worker gets it, or it is queued. A task above the
  demand limit (\<open>low\<close>) is queued in any case.
\<close>

definition ready_spec :: "bool \<Rightarrow> addr set \<Rightarrow> nat set \<Rightarrow> addr \<Rightarrow> addr set \<Rightarrow> nat set \<Rightarrow> (nat \<times> addr) option \<Rightarrow> bool" where
  "ready_spec low S W t S' W' out \<longleftrightarrow>
     (if low \<or> W = {} then S' = insert t S \<and> W' = W \<and> out = None
      else \<exists>i \<in> W. S' = S \<and> W' = W - {i} \<and> out = Some (i, t))"

text \<open>A worker waits when no task is queued, or when the greatest priority in the queue is the lowest one.\<close>

definition none_due :: "(addr \<Rightarrow> double) \<Rightarrow> addr set \<Rightarrow> bool" where
  "none_due pr S \<longleftrightarrow> S = {} \<or> (\<exists>t \<in> S. pr t = LPEL_DBL_MIN \<and> (\<forall>u \<in> S. pr u \<le> pr t))"

definition request_spec :: "(addr \<Rightarrow> double) \<Rightarrow> addr set \<Rightarrow> nat set \<Rightarrow> nat \<Rightarrow> addr set \<Rightarrow> nat set \<Rightarrow> (nat \<times> addr) option \<Rightarrow> bool" where
  "request_spec pr S W i S' W' out \<longleftrightarrow>
     (if none_due pr S then S' = S \<and> W' = insert i W \<and> out = None
      else \<exists>t \<in> S. (\<forall>u \<in> S. pr u \<le> pr t) \<and> S' = S - {t} \<and> W' = W \<and> out = Some (i, t))"

text \<open>The priority of a task marks it as not to be scheduled.\<close>

definition too_low :: "int \<Rightarrow> (int \<Rightarrow> int \<Rightarrow> double) \<Rightarrow> masterctx_t \<Rightarrow> addr \<Rightarrow> bool" where
  "too_low neg cal m t \<longleftrightarrow> LpelTaskCalPriority neg cal (ms_store m) (Some t) = Some (Inr LPEL_DBL_MIN)"

text \<open>The tasks other than \<open>t\<close> keep everything but their priority.\<close>

definition others_kept :: "addr \<Rightarrow> hrc_tasks \<Rightarrow> hrc_tasks \<Rightarrow> bool" where
  "others_kept t h h' \<longleftrightarrow> spr (h(t := None)) (h'(t := None))"

lemma others_kept_refl [simp]: "others_kept t h h"
  by (simp add: others_kept_def)

lemma others_kept_upd [simp]: "others_kept t h (h(t := c)) " "others_kept t (h(t := c)) h"
  by (simp_all add: others_kept_def)

lemma others_kept_trans: "others_kept t h h' \<Longrightarrow> others_kept t h' h'' \<Longrightarrow> others_kept t h h''"
  unfolding others_kept_def by (rule spr_trans)

lemma others_kept_spr: "spr h h' \<Longrightarrow> others_kept t h h'"
  by (simp add: others_kept_def spr_def)

text \<open>The outcome of handling a message about task \<open>t\<close>: the abstract step and what became of \<open>t\<close>.\<close>

definition readied :: "bool \<Rightarrow> bool \<Rightarrow> masterctx_t \<Rightarrow> addr set \<Rightarrow> nat set \<Rightarrow> addr \<Rightarrow> masterctx_t \<Rightarrow> bool" where
  "readied d low m S W t m' \<longleftrightarrow> (\<exists>S' W' out c. ready_spec low S W t S' W' out \<and> master_ok d m' S' W' \<and>
     ms_workermbs m' = deliver (ms_workermbs m) out \<and> h_tasks (ms_store m') t = Some c \<and>
     ht_state c = (if out = None then TASK_INQUEUE else TASK_READY) \<and>
     others_kept t (h_tasks (ms_store m)) (h_tasks (ms_store m')) \<and> ms_terminate m' = ms_terminate m)"

lemma readied_weaken:
  assumes "readied d low m1 S W t m'" and "ms_workermbs m1 = ms_workermbs m" and "ms_terminate m1 = ms_terminate m"
    and "others_kept t (h_tasks (ms_store m)) (h_tasks (ms_store m1))"
  shows "readied d low m S W t m'"
  using assms others_kept_trans unfolding readied_def by metis

text \<open>The priority of a task depends on its streams only.\<close>

lemma CalPriority_links:
  assumes "store_wf w" and "h_tasks w t = Some c" and "links c' = links c"
  shows "LpelTaskCalPriority neg cal (w\<lparr>h_tasks := (h_tasks w)(t \<mapsto> c')\<rparr>) (Some t) = LpelTaskCalPriority neg cal w (Some t)"
proof -
  let ?w = "w\<lparr>h_tasks := (h_tasks w)(t \<mapsto> c')\<rparr>"
  have "task_wf w t" using assms(1,2) by (auto simp: store_wf_def)
  then obtain ins outs where c: "el_rep w (in_streams (ht_sched_info c)) ins"
    "el_rep w (out_streams (ht_sched_info c)) outs" "elems_ok w ins" "elems_ok w outs" using assms(2) by (auto simp: task_wf_def)
  have l: "in_streams (ht_sched_info c') = in_streams (ht_sched_info c)" "out_streams (ht_sched_info c') = out_streams (ht_sched_info c)"
    using assms(3) by (auto simp: links_def)
  have "h_tasks ?w t = Some c'" "el_rep ?w (in_streams (ht_sched_info c')) ins" "elems_ok ?w ins"
    "el_rep ?w (out_streams (ht_sched_info c')) outs" "elems_ok ?w outs" using c l by simp_all
  from CalPriority_ok [OF this] CalPriority_ok [OF assms(2) c(1,3,2,4)] show ?thesis by simp
qed

lemma calc_prior_ok:
  assumes cfg: "d \<longrightarrow> cfg_ok neg cal" and ok: "master_ok d m S W" and c: "h_tasks (ms_store m) t = Some c"
    and st: "ht_state c \<noteq> TASK_INQUEUE"
  shows "\<exists>p m'. calc_prior neg cal m (Some t) = Some (Inr m') \<and> (d \<longrightarrow> p \<noteq> LPEL_DBL_MIN) \<and> (p = LPEL_DBL_MIN \<longleftrightarrow> too_low neg cal m t) \<and>
    m' = m\<lparr>ms_store := (ms_store m)\<lparr>h_tasks := (h_tasks (ms_store m))(t \<mapsto> set_prio p c)\<rparr>\<rparr> \<and> master_ok d m' S W \<and>
    too_low neg cal m' t = too_low neg cal m t"
proof -
  have wf: "store_wf (ms_store m)" using ok by (simp add: master_ok_def queue_ok_def)
  obtain p where p: "LpelTaskCalPriority neg cal (ms_store m) (Some t) = Some (Inr p)"
    using CalPriority_wf [OF wf] c by blast
  let ?m = "m\<lparr>ms_store := (ms_store m)\<lparr>h_tasks := (h_tasks (ms_store m))(t \<mapsto> set_prio p c)\<rparr>\<rparr>"
  have t: "t \<notin> S" using ok c st by (auto simp: master_ok_def queue_ok_def inq_def)
  have "queue_ok d (ms_ready_tasks m) ((ms_store m)\<lparr>h_tasks := (h_tasks (ms_store m))(t \<mapsto> set_prio p c)\<rparr>) S"
    using ok st by (intro queue_ok_upd [OF _ c t]) (auto simp: master_ok_def)
  then have "master_ok d ?m S W" using ok by (simp add: master_ok_def waiting_def)
  moreover have "d \<longrightarrow> p \<noteq> LPEL_DBL_MIN"
    using CalPriority_not_min [OF _ p wf domI [of "h_tasks (ms_store m)", OF c]] cfg by blast
  moreover have "p = LPEL_DBL_MIN \<longleftrightarrow> too_low neg cal m t" using p by (simp add: too_low_def)
  moreover have "too_low neg cal ?m t = too_low neg cal m t"
    using CalPriority_links [OF wf c, of "set_prio p c" neg cal] by (simp add: too_low_def)
  moreover have "calc_prior neg cal m (Some t) = Some (Inr ?m)" using p c by (simp add: calc_prior_def mupd_def)
  ultimately show ?thesis by blast
qed

lemma serve_ok:
  assumes cfg: "d \<longrightarrow> cfg_ok neg cal" and ok: "master_ok d m S W" and c: "h_tasks (ms_store m) t = Some c"
    and st: "ht_state c = TASK_READY"
  shows "\<exists>r m' p. servePendingReq neg cal m (Some t) = Some (Inr (r, m')) \<and>
    (if W = {} then r < 0 \<and> (d \<longrightarrow> p \<noteq> LPEL_DBL_MIN) \<and> master_ok d m' S W \<and>
       m' = m\<lparr>ms_store := (ms_store m)\<lparr>h_tasks := (h_tasks (ms_store m))(t \<mapsto> set_prio p c)\<rparr>\<rparr>
     else r \<ge> 0 \<and> readied d False m S W t m')"
proof -
  from calc_prior_ok [OF cfg ok c] st obtain p m1 where
    1: "calc_prior neg cal m (Some t) = Some (Inr m1)" "d \<longrightarrow> p \<noteq> LPEL_DBL_MIN" "master_ok d m1 S W"
      "m1 = m\<lparr>ms_store := (ms_store m)\<lparr>h_tasks := (h_tasks (ms_store m))(t \<mapsto> set_prio p c)\<rparr>\<rparr>" by auto
  have c1: "h_tasks (ms_store m1) t = Some (set_prio p c)" using 1(4) by simp
  have w1: "waiting m1 = W" "length (ms_workermbs m1) = length (ms_waitworkers m1)"
    using 1(3) by (auto simp: master_ok_def)
  have s: "servePendingReq neg cal m (Some t) = Some (serve_from m1 (Some t) 0)"
    using 1(1) by (simp add: servePendingReq_def)
  show ?thesis
  proof (cases "W = {}")
    case True
    then have "serve_from m1 (Some t) 0 = Inr (- 1, m1)" using w1 by (intro serve_from_none) auto
    with s True 1 show ?thesis by auto
  next
    case False
    then obtain j where "j \<in> waiting m1" using w1 by auto
    from serve_from_some [OF c1 _ w1(2) this] st obtain k where
      k: "k \<in> W" "serve_from m1 (Some t) 0 = Inr (int k, m1\<lparr>ms_waitworkers := (ms_waitworkers m1)[k := 0],
        ms_workermbs := deliver (ms_workermbs m1) (Some (k, t))\<rparr>)" using w1 by auto
    let ?m = "m1\<lparr>ms_waitworkers := (ms_waitworkers m1)[k := 0], ms_workermbs := deliver (ms_workermbs m1) (Some (k, t))\<rparr>"
    have "waiting ?m = W - {k}" using w1 k(1) by (auto simp: waiting_def nth_list_update split: if_splits)
    then have "master_ok d ?m S (W - {k})" using 1(3) by (simp add: master_ok_def deliver_def)
    moreover have "others_kept t (h_tasks (ms_store m)) (h_tasks (ms_store ?m))" using 1(4) by simp
    moreover have "ready_spec False S W t S (W - {k}) (Some (k, t))" using False k(1) by (auto simp: ready_spec_def)
    ultimately have "readied d False m S W t ?m"
      unfolding readied_def using 1(4) st
      by (intro exI [of _ S] exI [of _ "W - {k}"] exI [of _ "Some (k, t)"] exI [of _ "set_prio p c"]) simp
    with s k False show ?thesis by auto
  qed
qed

lemma enqueue_readied:
  assumes ok: "master_ok d m S W" and c: "h_tasks (ms_store m) t = Some c" and st: "ht_state c \<noteq> TASK_INQUEUE"
    and p: "d \<longrightarrow> prior (ht_sched_info c) \<noteq> LPEL_DBL_MIN" and low: "low \<or> W = {}"
  shows "\<exists>m'. enqueue m (Some t) = Inr m' \<and> readied d low m S W t m'"
proof -
  have t: "t \<notin> S" and q: "queue_ok d (ms_ready_tasks m) (ms_store m) S"
    using ok c st by (auto simp: master_ok_def queue_ok_def inq_def)
  from enqueue_ok [OF q c t p] obtain tq where
    e: "enqueue m (Some t) = Inr (m\<lparr>ms_ready_tasks := tq,
      ms_store := (ms_store m)\<lparr>h_tasks := (h_tasks (ms_store m))(t \<mapsto> set_state TASK_INQUEUE c)\<rparr>\<rparr>)"
      "queue_ok d tq ((ms_store m)\<lparr>h_tasks := (h_tasks (ms_store m))(t \<mapsto> set_state TASK_INQUEUE c)\<rparr>) (insert t S)" by blast
  let ?m = "m\<lparr>ms_ready_tasks := tq, ms_store := (ms_store m)\<lparr>h_tasks := (h_tasks (ms_store m))(t \<mapsto> set_state TASK_INQUEUE c)\<rparr>\<rparr>"
  have "master_ok d ?m (insert t S) W" using e(2) ok by (simp add: master_ok_def waiting_def)
  moreover have "ready_spec low S W t (insert t S) W None" using low by (simp add: ready_spec_def)
  ultimately have "readied d low m S W t ?m"
    unfolding readied_def
    by (intro exI [of _ "insert t S"] exI [of _ W] exI [of _ None] exI [of _ "set_state TASK_INQUEUE c"])
       (simp add: deliver_def)
  with e show ?thesis by blast
qed

lemma Neigh_master_ok:
  assumes "d \<longrightarrow> cfg_ok neg cal" and "master_ok d m S W" and "h_tasks (ms_store m) t = Some c"
  shows "\<exists>m' c'. updatePriorityNeigh neg cal m (Some t) = Some (Inr m') \<and> master_ok d m' S W \<and>
    h_tasks (ms_store m') t = Some c' \<and> ht_state c' = ht_state c \<and> links c' = links c \<and> ht_wakenup c' = ht_wakenup c \<and>
    spr (h_tasks (ms_store m)) (h_tasks (ms_store m')) \<and> h_sds (ms_store m') = h_sds (ms_store m) \<and>
    h_streams (ms_store m') = h_streams (ms_store m) \<and> h_elems (ms_store m') = h_elems (ms_store m) \<and>
    ms_workermbs m' = ms_workermbs m \<and> ms_terminate m' = ms_terminate m"
proof -
  have "queue_ok d (ms_ready_tasks m) (ms_store m) S" "t \<in> dom (h_tasks (ms_store m))"
    using assms(2,3) by (auto simp: master_ok_def)
  from updatePriorityNeigh_ok [OF assms(1) this] obtain tq h where
    u: "updatePriorityNeigh neg cal m (Some t) =
      Some (Inr (m\<lparr>ms_ready_tasks := tq, ms_store := (ms_store m)\<lparr>h_tasks := h\<rparr>\<rparr>))"
      "queue_ok d tq ((ms_store m)\<lparr>h_tasks := h\<rparr>) S" "spr (h_tasks (ms_store m)) h" by blast
  obtain c' where "h t = Some c'" "set_prio 0 c' = set_prio 0 c" using spr_Some [OF u(3) assms(3)] by blast
  moreover have "master_ok d (m\<lparr>ms_ready_tasks := tq, ms_store := (ms_store m)\<lparr>h_tasks := h\<rparr>\<rparr>) S W"
    using u(2) assms(2) by (simp add: master_ok_def waiting_def)
  ultimately show ?thesis using u set_prio_eq [of c' c]
    by (intro exI [of _ "m\<lparr>ms_ready_tasks := tq, ms_store := (ms_store m)\<lparr>h_tasks := h\<rparr>\<rparr>"] exI [of _ c']) simp
qed

lemma return_ready_ok:
  assumes cfg: "d \<longrightarrow> cfg_ok neg cal" and ok: "master_ok d m S W" and c: "h_tasks (ms_store m) t = Some c"
    and st: "ht_state c = TASK_READY"
  shows "\<exists>m'. return_ready neg cal m (Some t) = Some (Inr m') \<and> readied d (too_low neg cal m t) m S W t m'"
proof -
  from calc_prior_ok [OF cfg ok c] st obtain p m1 where
    1: "calc_prior neg cal m (Some t) = Some (Inr m1)" "d \<longrightarrow> p \<noteq> LPEL_DBL_MIN" "master_ok d m1 S W"
      "m1 = m\<lparr>ms_store := (ms_store m)\<lparr>h_tasks := (h_tasks (ms_store m))(t \<mapsto> set_prio p c)\<rparr>\<rparr>"
      "p = LPEL_DBL_MIN \<longleftrightarrow> too_low neg cal m t" by auto
  have c1: "h_tasks (ms_store m1) t = Some (set_prio p c)" using 1(4) by simp
  have low: "is_dbl_min m1 (Some t) = Inr (too_low neg cal m t)" using c1 1(5) by (simp add: is_dbl_min_def)
  from serve_ok [OF cfg 1(3) c1] st obtain r m2 p2 where
    2: "servePendingReq neg cal m1 (Some t) = Some (Inr (r, m2))"
      "if W = {} then r < 0 \<and> (d \<longrightarrow> p2 \<noteq> LPEL_DBL_MIN) \<and> master_ok d m2 S W \<and>
       m2 = m1\<lparr>ms_store := (ms_store m1)\<lparr>h_tasks := (h_tasks (ms_store m1))(t \<mapsto> set_prio p2 (set_prio p c))\<rparr>\<rparr>
       else r \<ge> 0 \<and> readied d False m1 S W t m2" by auto
  consider (low) "too_low neg cal m t" | (served) "\<not> too_low neg cal m t" "W \<noteq> {}" | (queued) "\<not> too_low neg cal m t" "W = {}" by blast
  then show ?thesis
  proof cases
    case low
    from enqueue_readied [OF 1(3) c1, of True] st 1(2) obtain m2 where
      e: "enqueue m1 (Some t) = Inr m2" "readied d True m1 S W t m2" by auto
    have "readied d True m S W t m2" using e(2) by (rule readied_weaken) (simp_all add: 1(4))
    with e(1) 1(1) \<open>is_dbl_min m1 (Some t) = _\<close> low show ?thesis by (simp add: return_ready_def)
  next
    case served
    then have "return_ready neg cal m (Some t) = Some (Inr m2)" using 1(1) low 2 by (simp add: return_ready_def)
    moreover have "readied d False m1 S W t m2" using served 2(2) by simp
    then have "readied d False m S W t m2" by (rule readied_weaken) (simp_all add: 1(4))
    ultimately show ?thesis using served by simp
  next
    case queued
    with 2(2) have m2: "r < 0" "master_ok d m2 S {}"
      "m2 = m1\<lparr>ms_store := (ms_store m1)\<lparr>h_tasks := (h_tasks (ms_store m1))(t \<mapsto> set_prio p2 (set_prio p c))\<rparr>\<rparr>" by auto
    have c2: "h_tasks (ms_store m2) t = Some (set_prio p2 (set_prio p c))" using m2(3) by simp
    from Neigh_master_ok [OF cfg m2(2) c2] st obtain m3 c3 where
      3: "updatePriorityNeigh neg cal m2 (Some t) = Some (Inr m3)" "master_ok d m3 S {}"
        "h_tasks (ms_store m3) t = Some c3" "ht_state c3 = TASK_READY"
        "spr (h_tasks (ms_store m2)) (h_tasks (ms_store m3))" "ms_workermbs m3 = ms_workermbs m2"
        "ms_terminate m3 = ms_terminate m2" by auto
    from calc_prior_ok [OF cfg 3(2,3)] 3(4) obtain q m4 where
      4: "calc_prior neg cal m3 (Some t) = Some (Inr m4)" "d \<longrightarrow> q \<noteq> LPEL_DBL_MIN" "master_ok d m4 S {}"
        "m4 = m3\<lparr>ms_store := (ms_store m3)\<lparr>h_tasks := (h_tasks (ms_store m3))(t \<mapsto> set_prio q c3)\<rparr>\<rparr>" by auto
    have c4: "h_tasks (ms_store m4) t = Some (set_prio q c3)" using 4(4) by simp
    from enqueue_readied [OF 4(3) c4, of False] 3(4) 4(2) obtain m5 where
      5: "enqueue m4 (Some t) = Inr m5" "readied d False m4 S {} t m5" by auto
    have "others_kept t (h_tasks (ms_store m)) (h_tasks (ms_store m2))" using m2(3) 1(4) by simp
    moreover have "others_kept t (h_tasks (ms_store m2)) (h_tasks (ms_store m3))" using 3(5) by (rule others_kept_spr)
    moreover have "others_kept t (h_tasks (ms_store m3)) (h_tasks (ms_store m4))" using 4(4) by simp
    ultimately have "others_kept t (h_tasks (ms_store m)) (h_tasks (ms_store m4))" using others_kept_trans by blast
    with 5(2) have "readied d False m S {} t m5"
      using readied_weaken [of d False m4 S "{}" t m5 m] by (simp add: 1(4) m2(3) 3(6,7) 4(4))
    moreover have "return_ready neg cal m (Some t) = Some (Inr m5)"
      using 1(1) low 2(1) m2(1) 3(1) 4(1) 5(1) queued by (simp add: return_ready_def)
    ultimately show ?thesis using queued by simp
  qed
qed

lemma state_upd_ok:
  assumes ok: "master_ok d m S W" and c: "h_tasks (ms_store m) t = Some c" and st: "ht_state c \<noteq> TASK_INQUEUE"
    and c': "links c' = links c" "ht_state c' \<noteq> TASK_INQUEUE"
  shows "master_ok d (m\<lparr>ms_store := (ms_store m)\<lparr>h_tasks := (h_tasks (ms_store m))(t \<mapsto> c')\<rparr>\<rparr>) S W"
proof -
  have t: "t \<notin> S" using ok c st by (auto simp: master_ok_def queue_ok_def inq_def)
  show ?thesis using ok queue_ok_upd [OF _ c t c'] by (auto simp: master_ok_def waiting_def)
qed

lemma too_low_upd:
  assumes "master_ok d m S W" and "h_tasks (ms_store m) t = Some c" and "links c' = links c"
  shows "too_low neg cal (m\<lparr>ms_store := (ms_store m)\<lparr>h_tasks := (h_tasks (ms_store m))(t \<mapsto> c')\<rparr>\<rparr>) t = too_low neg cal m t"
  using CalPriority_links [of "ms_store m" t c c' neg cal] assms by (simp add: too_low_def master_ok_def queue_ok_def)

lemma handle_assign_ok:
  assumes cfg: "d \<longrightarrow> cfg_ok neg cal" and ok: "master_ok d m S W" and c: "h_tasks (ms_store m) t = Some c"
    and st: "ht_state c = TASK_CREATED"
  shows "\<exists>m'. handle_assign neg cal m (Some t) = Some (Inr m') \<and> readied d False m S W t m'"
proof -
  let ?c = "set_state TASK_READY c"
  define m1 where "m1 = m\<lparr>ms_store := (ms_store m)\<lparr>h_tasks := (h_tasks (ms_store m))(t \<mapsto> ?c)\<rparr>\<rparr>"
  have ok1: "master_ok d m1 S W" unfolding m1_def using st by (intro state_upd_ok [OF ok c]) auto
  have c1: "h_tasks (ms_store m1) t = Some ?c" by (simp add: m1_def)
  from serve_ok [OF cfg ok1 c1] obtain r m2 p where
    2: "servePendingReq neg cal m1 (Some t) = Some (Inr (r, m2))"
      "if W = {} then r < 0 \<and> (d \<longrightarrow> p \<noteq> LPEL_DBL_MIN) \<and> master_ok d m2 S W \<and>
       m2 = m1\<lparr>ms_store := (ms_store m1)\<lparr>h_tasks := (h_tasks (ms_store m1))(t \<mapsto> set_prio p ?c)\<rparr>\<rparr>
       else r \<ge> 0 \<and> readied d False m1 S W t m2" by auto
  have run: "handle_assign neg cal m (Some t) =
      (if r < 0 then Some (bindR (mupd m2 (Some t) (set_prio DBL_MAX)) (\<lambda>m3. enqueue m3 (Some t))) else Some (Inr m2))"
    using c st 2(1) by (simp add: handle_assign_def mupd_def m1_def [symmetric])
  show ?thesis
  proof (cases "W = {}")
    case False
    then have "readied d False m1 S W t m2" using 2(2) by simp
    then have "readied d False m S W t m2" by (rule readied_weaken) (simp_all add: m1_def)
    then show ?thesis using False 2(2) run by auto
  next
    case True
    with 2(2) have m2: "r < 0" "master_ok d m2 S {}"
      "m2 = m1\<lparr>ms_store := (ms_store m1)\<lparr>h_tasks := (h_tasks (ms_store m1))(t \<mapsto> set_prio p ?c)\<rparr>\<rparr>" by auto
    have c2: "h_tasks (ms_store m2) t = Some (set_prio p ?c)" using m2(3) by simp
    let ?c3 = "set_prio DBL_MAX (set_prio p ?c)"
    define m3 where "m3 = m2\<lparr>ms_store := (ms_store m2)\<lparr>h_tasks := (h_tasks (ms_store m2))(t \<mapsto> ?c3)\<rparr>\<rparr>"
    have ok3: "master_ok d m3 S {}" unfolding m3_def by (intro state_upd_ok [OF m2(2) c2]) (auto simp: links_def)
    have c3: "h_tasks (ms_store m3) t = Some ?c3" by (simp add: m3_def)
    have "DBL_MAX \<noteq> LPEL_DBL_MIN" by (simp add: LPEL_DBL_MIN_def DBL_MAX_def)
    with enqueue_readied [OF ok3 c3, of False] obtain m4 where
      4: "enqueue m3 (Some t) = Inr m4" "readied d False m3 S {} t m4" by auto
    have "readied d False m S {} t m4"
      using 4(2) by (rule readied_weaken) (simp_all add: m3_def m2(3) m1_def)
    moreover have "mupd m2 (Some t) (set_prio DBL_MAX) = Inr m3" using c2 by (simp add: mupd_def m3_def)
    ultimately show ?thesis using run m2(1) 4(1) True by simp
  qed
qed

lemma handle_wakeup_ok:
  assumes cfg: "d \<longrightarrow> cfg_ok neg cal" and ok: "master_ok d m S W" and c: "h_tasks (ms_store m) t = Some c"
    and st: "ht_state c = TASK_RETURNED"
  shows "\<exists>m'. handle_wakeup neg cal m (Some t) = Some (Inr m') \<and> readied d (too_low neg cal m t) m S W t m'"
proof -
  let ?c = "set_state TASK_READY c"
  define m1 where "m1 = m\<lparr>ms_store := (ms_store m)\<lparr>h_tasks := (h_tasks (ms_store m))(t \<mapsto> ?c)\<rparr>\<rparr>"
  have ok1: "master_ok d m1 S W" unfolding m1_def using st by (intro state_upd_ok [OF ok c]) auto
  have c1: "h_tasks (ms_store m1) t = Some ?c" by (simp add: m1_def)
  have l1: "too_low neg cal m1 t = too_low neg cal m t" unfolding m1_def by (rule too_low_upd [OF ok c]) simp
  from calc_prior_ok [OF cfg ok1 c1] obtain p m2 where
    2: "calc_prior neg cal m1 (Some t) = Some (Inr m2)" "d \<longrightarrow> p \<noteq> LPEL_DBL_MIN" "master_ok d m2 S W"
      "m2 = m1\<lparr>ms_store := (ms_store m1)\<lparr>h_tasks := (h_tasks (ms_store m1))(t \<mapsto> set_prio p ?c)\<rparr>\<rparr>"
      "p = LPEL_DBL_MIN \<longleftrightarrow> too_low neg cal m t" unfolding l1 by auto
  have c2: "h_tasks (ms_store m2) t = Some (set_prio p ?c)" using 2(4) by simp
  have low: "is_dbl_min m2 (Some t) = Inr (too_low neg cal m t)" using c2 2(5) by (simp add: is_dbl_min_def)
  from serve_ok [OF cfg 2(3) c2] obtain r m3 p3 where
    3: "servePendingReq neg cal m2 (Some t) = Some (Inr (r, m3))"
      "if W = {} then r < 0 \<and> (d \<longrightarrow> p3 \<noteq> LPEL_DBL_MIN) \<and> master_ok d m3 S W \<and>
       m3 = m2\<lparr>ms_store := (ms_store m2)\<lparr>h_tasks := (h_tasks (ms_store m2))(t \<mapsto> set_prio p3 (set_prio p ?c))\<rparr>\<rparr>
       else r \<ge> 0 \<and> readied d False m2 S W t m3" by auto
  have run: "handle_wakeup neg cal m (Some t) = (if too_low neg cal m t then Some (enqueue m2 (Some t))
      else if r < 0 then Some (enqueue m3 (Some t)) else Some (Inr m3))"
    using c st 2(1) low 3(1) by (simp add: handle_wakeup_def mupd_def m1_def [symmetric])
  consider (low) "too_low neg cal m t" | (served) "\<not> too_low neg cal m t" "W \<noteq> {}" | (queued) "\<not> too_low neg cal m t" "W = {}" by blast
  then show ?thesis
  proof cases
    case low
    from enqueue_readied [OF 2(3) c2, of True] 2(2) obtain m' where
      e: "enqueue m2 (Some t) = Inr m'" "readied d True m2 S W t m'" by auto
    have "readied d True m S W t m'" using e(2) by (rule readied_weaken) (simp_all add: 2(4) m1_def)
    with e(1) run low show ?thesis by simp
  next
    case served
    then have "readied d False m2 S W t m3" using 3(2) by simp
    then have "readied d False m S W t m3" by (rule readied_weaken) (simp_all add: 2(4) m1_def)
    then show ?thesis using served 3(2) run by auto
  next
    case queued
    with 3(2) have m3: "r < 0" "d \<longrightarrow> p3 \<noteq> LPEL_DBL_MIN" "master_ok d m3 S {}"
      "m3 = m2\<lparr>ms_store := (ms_store m2)\<lparr>h_tasks := (h_tasks (ms_store m2))(t \<mapsto> set_prio p3 (set_prio p ?c))\<rparr>\<rparr>" by auto
    have c3: "h_tasks (ms_store m3) t = Some (set_prio p3 (set_prio p ?c))" using m3(4) by simp
    from enqueue_readied [OF m3(3) c3, of False] m3(2) obtain m4 where
      4: "enqueue m3 (Some t) = Inr m4" "readied d False m3 S {} t m4" by auto
    have "readied d False m S {} t m4" using 4(2) by (rule readied_weaken) (simp_all add: m3(4) 2(4) m1_def)
    then show ?thesis using run m3(1) 4(1) queued by simp
  qed
qed

section \<open>The master refines an abstract dispatcher\<close>

definition msg_task :: "workermsg_t \<Rightarrow> addr" where
  "msg_task msg = (case msg_body msg of BTask (Some t) \<Rightarrow> t | _ \<Rightarrow> 0)"

definition msg_worker :: "workermsg_t \<Rightarrow> nat" where
  "msg_worker msg = (case msg_body msg of BFromWorker i \<Rightarrow> nat i | _ \<Rightarrow> 0)"

text \<open>
  What a sender guarantees when the master receives its message. A task that has ended has closed
  its streams: its lists are empty and no descriptor refers to it.
\<close>

definition msg_ok :: "masterctx_t \<Rightarrow> workermsg_t \<Rightarrow> bool" where
  "msg_ok m msg \<longleftrightarrow>
     (if msg_type msg = WORKER_MSG_REQUEST then
        \<exists>i. msg_body msg = BFromWorker (int i) \<and> i < length (ms_waitworkers m)
      else if msg_type msg = WORKER_MSG_TERMINATE then True
      else msg_type msg \<in> {WORKER_MSG_ASSIGN, WORKER_MSG_RETURN, WORKER_MSG_WAKEUP} \<and>
        (\<exists>t c. msg_body msg = BTask (Some t) \<and> h_tasks (ms_store m) t = Some c \<and>
          (msg_type msg = WORKER_MSG_ASSIGN \<longrightarrow> ht_state c = TASK_CREATED) \<and>
          (msg_type msg = WORKER_MSG_RETURN \<longrightarrow> ht_state c \<in> {TASK_BLOCKED, TASK_READY, TASK_ZOMBIE} \<and>
             (ht_state c = TASK_ZOMBIE \<longrightarrow> links c = (None, None) \<and>
                (\<forall>d sd. h_sds (ms_store m) d = Some sd \<longrightarrow> sd_task sd \<noteq> Some t)))))"

text \<open>The messages that make their task ready.\<close>

definition makes_ready :: "masterctx_t \<Rightarrow> workermsg_t \<Rightarrow> bool" where
  "makes_ready m msg \<longleftrightarrow> (\<exists>c. h_tasks (ms_store m) (msg_task msg) = Some c \<and>
     (msg_type msg = WORKER_MSG_ASSIGN \<or>
      msg_type msg = WORKER_MSG_RETURN \<and> (ht_state c = TASK_READY \<or> ht_state c = TASK_BLOCKED \<and> ht_wakenup c = 1) \<or>
      msg_type msg = WORKER_MSG_WAKEUP \<and> ht_state c = TASK_RETURNED))"

definition dispatch_spec :: "int \<Rightarrow> (int \<Rightarrow> int \<Rightarrow> double) \<Rightarrow> masterctx_t \<Rightarrow> addr set \<Rightarrow> nat set \<Rightarrow> workermsg_t \<Rightarrow>
    addr set \<Rightarrow> nat set \<Rightarrow> (nat \<times> addr) option \<Rightarrow> bool" where
  "dispatch_spec neg cal m S W msg S' W' out \<longleftrightarrow>
     (if msg_type msg = WORKER_MSG_REQUEST
      then request_spec (prio_at (h_tasks (ms_store m))) S W (msg_worker msg) S' W' out
      else if msg_type msg \<noteq> WORKER_MSG_TERMINATE \<and> makes_ready m msg
      then ready_spec (msg_type msg \<noteq> WORKER_MSG_ASSIGN \<and> too_low neg cal m (msg_task msg)) S W (msg_task msg) S' W' out
      else S' = S \<and> W' = W \<and> out = None)"

text \<open>The new state of the task a message is about.\<close>

definition task_after :: "masterctx_t \<Rightarrow> workermsg_t \<Rightarrow> (nat \<times> addr) option \<Rightarrow> hrc_task_t option \<Rightarrow> bool" where
  "task_after m msg out c' \<longleftrightarrow> (\<exists>c. h_tasks (ms_store m) (msg_task msg) = Some c \<and>
     (if makes_ready m msg then \<exists>d. c' = Some d \<and> ht_state d = (if out = None then TASK_INQUEUE else TASK_READY)
      else if msg_type msg = WORKER_MSG_RETURN
      then (if ht_state c = TASK_ZOMBIE then c' = None else \<exists>d. c' = Some d \<and> ht_state d = TASK_RETURNED)
      else \<exists>d. c' = Some d \<and> ht_state d = ht_state c \<and> ht_wakenup d = 1))"

definition master_step :: "bool \<Rightarrow> int \<Rightarrow> (int \<Rightarrow> int \<Rightarrow> double) \<Rightarrow> masterctx_t \<Rightarrow> addr set \<Rightarrow> nat set \<Rightarrow> workermsg_t \<Rightarrow>
    masterctx_t \<Rightarrow> bool" where
  "master_step d neg cal m S W msg m' \<longleftrightarrow> (\<exists>S' W' out. dispatch_spec neg cal m S W msg S' W' out \<and> master_ok d m' S' W' \<and>
     ms_workermbs m' = deliver (ms_workermbs m) out \<and>
     (msg_type msg \<in> {WORKER_MSG_ASSIGN, WORKER_MSG_RETURN, WORKER_MSG_WAKEUP} \<longrightarrow>
        task_after m msg out (h_tasks (ms_store m') (msg_task msg)) \<and>
        others_kept (msg_task msg) (h_tasks (ms_store m)) (h_tasks (ms_store m'))))"

lemma readied_step:
  assumes "readied d low m S W t m'" and "msg_body msg = BTask (Some t)" and "makes_ready m msg"
    and "msg_type msg \<in> {WORKER_MSG_ASSIGN, WORKER_MSG_RETURN, WORKER_MSG_WAKEUP}"
    and "low = (msg_type msg \<noteq> WORKER_MSG_ASSIGN \<and> too_low neg cal m t)"
  shows "master_step d neg cal m S W msg m'"
proof -
  have t: "msg_task msg = t" using assms(2) by (simp add: msg_task_def)
  have ty: "msg_type msg \<noteq> WORKER_MSG_REQUEST" "msg_type msg \<noteq> WORKER_MSG_TERMINATE"
    using assms(4) by (auto simp: msg_types)
  from assms(1) obtain S' W' out c' where r: "ready_spec low S W t S' W' out" "master_ok d m' S' W'"
    "ms_workermbs m' = deliver (ms_workermbs m) out" "h_tasks (ms_store m') t = Some c'"
    "ht_state c' = (if out = None then TASK_INQUEUE else TASK_READY)"
    "others_kept t (h_tasks (ms_store m)) (h_tasks (ms_store m'))" unfolding readied_def by blast
  have "dispatch_spec neg cal m S W msg S' W' out" using r(1) t ty assms(3,5) by (simp add: dispatch_spec_def)
  moreover have "task_after m msg out (h_tasks (ms_store m') (msg_task msg))"
    using assms(3) r(4,5) t by (auto simp: task_after_def makes_ready_def)
  ultimately show ?thesis using r(2,3,6) t unfolding master_step_def by blast
qed

lemma unchanged_step:
  assumes "master_ok d m' S W" and "ms_workermbs m' = ms_workermbs m" and "msg_task msg = t" and "\<not> makes_ready m msg"
    and "msg_type msg \<in> {WORKER_MSG_ASSIGN, WORKER_MSG_RETURN, WORKER_MSG_WAKEUP}"
    and "task_after m msg None (h_tasks (ms_store m') t)" and "others_kept t (h_tasks (ms_store m)) (h_tasks (ms_store m'))"
  shows "master_step d neg cal m S W msg m'"
proof -
  have "dispatch_spec neg cal m S W msg S W None" using assms(4,5) by (auto simp: dispatch_spec_def msg_types)
  with assms show ?thesis unfolding master_step_def
    by (intro exI [of _ S] exI [of _ W] exI [of _ None]) (auto simp: deliver_def)
qed

lemma Destroy_ok:
  assumes ok: "master_ok d m S W" and c: "h_tasks (ms_store m) t = Some c" and z: "ht_state c = TASK_ZOMBIE"
    and l: "links c = (None, None)" and refs: "\<And>d sd. h_sds (ms_store m) d = Some sd \<Longrightarrow> sd_task sd \<noteq> Some t"
  shows "LpelTaskDestroy (ms_store m) (Some t) = Inr ((ms_store m)\<lparr>h_tasks := (h_tasks (ms_store m))(t := None)\<rparr>)"
    and "master_ok d (m\<lparr>ms_store := (ms_store m)\<lparr>h_tasks := (h_tasks (ms_store m))(t := None)\<rparr>\<rparr>) S W"
proof -
  let ?w = "ms_store m" and ?h = "(h_tasks (ms_store m))(t := None)"
  show "LpelTaskDestroy ?w (Some t) = Inr (?w\<lparr>h_tasks := ?h\<rparr>)"
    using c z l by (simp add: LpelTaskDestroy_def links_def)
  have q: "queue_ok d (ms_ready_tasks m) ?w S" and t: "t \<notin> S"
    using ok c z by (auto simp: master_ok_def queue_ok_def inq_def)
  have p: "prio_at ?h u = prio_at (h_tasks ?w) u" if "u \<in> S" for u using that t by (auto simp: prio_at_def)
  have "S \<subseteq> dom ?h" using q t by (auto simp: queue_ok_def inq_def)
  then have "th_inv (ms_ready_tasks m) ?h S" using q p th_inv_frame by (auto simp: queue_ok_def)
  moreover have "inq ?h S" using q t by (auto simp: queue_ok_def inq_def)
  moreover have "d \<longrightarrow> nolow ?h S" using q p by (auto simp: queue_ok_def nolow_def)
  moreover have "store_wf (?w\<lparr>h_tasks := ?h\<rparr>)"
  proof -
    have "task_wf (?w\<lparr>h_tasks := ?h\<rparr>) u" if "u \<in> dom ?h" for u
      using that q by (auto simp: queue_ok_def store_wf_def task_wf_def split: if_splits)
    moreover have "ends_ok (?w\<lparr>h_tasks := ?h\<rparr>) e" if "ends_ok ?w e" for e
      using that refs by (fastforce simp: ends_ok_def)
    ultimately show ?thesis using q by (auto simp: queue_ok_def store_wf_def)
  qed
  ultimately show "master_ok d (m\<lparr>ms_store := ?w\<lparr>h_tasks := ?h\<rparr>\<rparr>) S W"
    using ok by (simp add: master_ok_def queue_ok_def waiting_def)
qed

lemma mark_wakenup_ok:
  assumes ok: "master_ok d m S W" and c: "h_tasks (ms_store m) t = Some c"
  shows "master_ok d (m\<lparr>ms_store := (ms_store m)\<lparr>h_tasks := (h_tasks (ms_store m))(t \<mapsto> c\<lparr>ht_wakenup := 1\<rparr>)\<rparr>\<rparr>) S W"
proof -
  let ?w = "ms_store m" and ?h = "(h_tasks (ms_store m))(t \<mapsto> c\<lparr>ht_wakenup := 1\<rparr>)"
  have q: "queue_ok d (ms_ready_tasks m) ?w S" using ok by (simp add: master_ok_def)
  have p: "prio_at ?h u = prio_at (h_tasks ?w) u" for u using c by (auto simp: prio_at_def)
  have "S \<subseteq> dom ?h" using q by (auto simp: queue_ok_def inq_def)
  then have "th_inv (ms_ready_tasks m) ?h S" using q p th_inv_frame by (auto simp: queue_ok_def)
  moreover have "inq ?h S" using q c by (auto simp: queue_ok_def inq_def)
  moreover have "d \<longrightarrow> nolow ?h S" using q p by (auto simp: queue_ok_def nolow_def)
  moreover have "store_wf (?w\<lparr>h_tasks := ?h\<rparr>)"
    using q c same_links_upd [of "h_tasks ?w" t c "c\<lparr>ht_wakenup := 1\<rparr>"] store_wf_links by (auto simp: queue_ok_def)
  ultimately show ?thesis using ok by (simp add: master_ok_def queue_ok_def waiting_def)
qed

lemma return_woken_ok:
  assumes cfg: "d \<longrightarrow> cfg_ok neg cal" and ok: "master_ok d m S W" and c: "h_tasks (ms_store m) t = Some c"
    and st: "ht_state c = TASK_BLOCKED" "ht_wakenup c = 1"
  shows "\<exists>m'. handle_return neg cal m (Some t) = Some (Inr m') \<and> readied d (too_low neg cal m t) m S W t m'"
proof -
  let ?c = "c\<lparr>ht_wakenup := 0, ht_state := TASK_READY\<rparr>"
  define m1 where "m1 = m\<lparr>ms_store := (ms_store m)\<lparr>h_tasks := (h_tasks (ms_store m))(t \<mapsto> ?c)\<rparr>\<rparr>"
  have ok1: "master_ok d m1 S W" unfolding m1_def
    using st by (intro state_upd_ok [OF ok c]) (auto simp: links_def)
  have c1: "h_tasks (ms_store m1) t = Some ?c" by (simp add: m1_def)
  from return_ready_ok [OF cfg ok1 c1] obtain m' where
    r: "return_ready neg cal m1 (Some t) = Some (Inr m')" "readied d (too_low neg cal m1 t) m1 S W t m'" by auto
  have "too_low neg cal m1 t = too_low neg cal m t" unfolding m1_def by (rule too_low_upd [OF ok c]) (simp add: links_def)
  with r(2) have "readied d (too_low neg cal m t) m1 S W t m'" by simp
  then have "readied d (too_low neg cal m t) m S W t m'" by (rule readied_weaken) (simp_all add: m1_def)
  moreover have "handle_return neg cal m (Some t) = Some (Inr m')"
    using st c r(1) by (simp add: handle_return_def mupd_def m1_def)
  ultimately show ?thesis by blast
qed

lemma return_blocked_ok:
  assumes cfg: "d \<longrightarrow> cfg_ok neg cal" and ok: "master_ok d m S W" and c: "h_tasks (ms_store m) t = Some c"
    and st: "ht_state c = TASK_BLOCKED" "ht_wakenup c \<noteq> 1"
  shows "\<exists>m' c'. handle_return neg cal m (Some t) = Some (Inr m') \<and> master_ok d m' S W \<and>
    ms_workermbs m' = ms_workermbs m \<and> h_tasks (ms_store m') t = Some c' \<and> ht_state c' = TASK_RETURNED \<and>
    others_kept t (h_tasks (ms_store m)) (h_tasks (ms_store m'))"
proof -
  let ?c = "set_state TASK_RETURNED c"
  define m1 where "m1 = m\<lparr>ms_store := (ms_store m)\<lparr>h_tasks := (h_tasks (ms_store m))(t \<mapsto> ?c)\<rparr>\<rparr>"
  have ok1: "master_ok d m1 S W" unfolding m1_def using st by (intro state_upd_ok [OF ok c]) auto
  have c1: "h_tasks (ms_store m1) t = Some ?c" by (simp add: m1_def)
  from Neigh_master_ok [OF cfg ok1 c1] obtain m' c' where
    n: "updatePriorityNeigh neg cal m1 (Some t) = Some (Inr m')" "master_ok d m' S W"
      "h_tasks (ms_store m') t = Some c'" "ht_state c' = TASK_RETURNED"
      "spr (h_tasks (ms_store m1)) (h_tasks (ms_store m'))" "ms_workermbs m' = ms_workermbs m" by (auto simp: m1_def)
  have "others_kept t (h_tasks (ms_store m)) (h_tasks (ms_store m1))" by (simp add: m1_def)
  then have "others_kept t (h_tasks (ms_store m)) (h_tasks (ms_store m'))"
    using others_kept_spr [OF n(5)] others_kept_trans by blast
  moreover have "handle_return neg cal m (Some t) = Some (Inr m')"
    using st c n(1) by (simp add: handle_return_def mupd_def m1_def)
  ultimately show ?thesis using n by blast
qed

lemma return_zombie_ok:
  assumes cfg: "d \<longrightarrow> cfg_ok neg cal" and ok: "master_ok d m S W" and c: "h_tasks (ms_store m) t = Some c"
    and z: "ht_state c = TASK_ZOMBIE" "links c = (None, None)"
    and refs: "\<And>d sd. h_sds (ms_store m) d = Some sd \<Longrightarrow> sd_task sd \<noteq> Some t"
  shows "\<exists>m'. handle_return neg cal m (Some t) = Some (Inr m') \<and> master_ok d m' S W \<and>
    ms_workermbs m' = ms_workermbs m \<and> h_tasks (ms_store m') t = None \<and>
    others_kept t (h_tasks (ms_store m)) (h_tasks (ms_store m'))"
proof -
  from Neigh_master_ok [OF cfg ok c] obtain m1 c1 where
    n: "updatePriorityNeigh neg cal m (Some t) = Some (Inr m1)" "master_ok d m1 S W"
      "h_tasks (ms_store m1) t = Some c1" "ht_state c1 = ht_state c" "links c1 = links c"
      "spr (h_tasks (ms_store m)) (h_tasks (ms_store m1))" "h_sds (ms_store m1) = h_sds (ms_store m)"
      "ms_workermbs m1 = ms_workermbs m" by blast
  define m2 where "m2 = m1\<lparr>ms_store := (ms_store m1)\<lparr>h_tasks := (h_tasks (ms_store m1))(t := None)\<rparr>\<rparr>"
  have d: "LpelTaskDestroy (ms_store m1) (Some t) = Inr ((ms_store m1)\<lparr>h_tasks := (h_tasks (ms_store m1))(t := None)\<rparr>)"
    and ok2: "master_ok d m2 S W"
    unfolding m2_def using z n refs by (auto intro!: Destroy_ok [OF n(2,3)])
  have "others_kept t (h_tasks (ms_store m)) (h_tasks (ms_store m2))"
    using others_kept_spr [OF n(6), of t] others_kept_upd(1) others_kept_trans unfolding m2_def by auto
  moreover have "handle_return neg cal m (Some t) = Some (Inr m2)"
    using z c n(1) d by (simp add: handle_return_def m2_def)
  ultimately show ?thesis using ok2 n(8) by (intro exI [of _ m2]) (simp add: m2_def)
qed

lemma handle_return_ok:
  assumes cfg: "d \<longrightarrow> cfg_ok neg cal" and ok: "master_ok d m S W" and msg: "msg_ok m msg" "msg_type msg = WORKER_MSG_RETURN"
  shows "\<exists>m'. handle_return neg cal m (Some (msg_task msg)) = Some (Inr m') \<and> master_step d neg cal m S W msg m'"
proof -
  from msg obtain t c where t: "msg_body msg = BTask (Some t)" "h_tasks (ms_store m) t = Some c"
    "ht_state c \<in> {TASK_BLOCKED, TASK_READY, TASK_ZOMBIE}"
    "ht_state c = TASK_ZOMBIE \<longrightarrow> links c = (None, None) \<and> (\<forall>d sd. h_sds (ms_store m) d = Some sd \<longrightarrow> sd_task sd \<noteq> Some t)"
    by (auto simp: msg_ok_def msg_types)
  have mt: "msg_task msg = t" using t(1) by (simp add: msg_task_def)
  consider (ready) "ht_state c = TASK_READY" | (woken) "ht_state c = TASK_BLOCKED" "ht_wakenup c = 1"
    | (blocked) "ht_state c = TASK_BLOCKED" "ht_wakenup c \<noteq> 1" | (zombie) "ht_state c = TASK_ZOMBIE"
    using t(3) by auto
  then show ?thesis
  proof cases
    case ready
    from return_ready_ok [OF cfg ok t(2) ready] obtain m' where
      r: "return_ready neg cal m (Some t) = Some (Inr m')" "readied d (too_low neg cal m t) m S W t m'" by blast
    from readied_step [OF r(2) t(1)] ready t(2) mt msg(2) r(1) show ?thesis
      by (simp add: handle_return_def makes_ready_def msg_types)
  next
    case woken
    from return_woken_ok [OF cfg ok t(2) woken] obtain m' where
      r: "handle_return neg cal m (Some t) = Some (Inr m')" "readied d (too_low neg cal m t) m S W t m'" by blast
    from readied_step [OF r(2) t(1)] woken t(2) mt msg(2) r(1) show ?thesis by (simp add: makes_ready_def msg_types)
  next
    case blocked
    then have nm: "\<not> makes_ready m msg" using t(2) mt msg(2) by (auto simp: makes_ready_def msg_types)
    from return_blocked_ok [OF cfg ok t(2) blocked] obtain m' c' where
      r: "handle_return neg cal m (Some t) = Some (Inr m')" "master_ok d m' S W" "ms_workermbs m' = ms_workermbs m"
        "h_tasks (ms_store m') t = Some c'" "ht_state c' = TASK_RETURNED"
        "others_kept t (h_tasks (ms_store m)) (h_tasks (ms_store m'))" by blast
    have "task_after m msg None (h_tasks (ms_store m') t)"
      using nm blocked t(2) mt msg(2) r(4,5) by (simp add: task_after_def)
    with unchanged_step [OF r(2,3) mt nm _ _ r(6)] msg(2) r(1) mt show ?thesis by auto
  next
    case zombie
    then have nm: "\<not> makes_ready m msg" using t(2) mt msg(2) by (auto simp: makes_ready_def msg_types)
    from return_zombie_ok [OF cfg ok t(2) zombie] t(4) zombie obtain m' where
      r: "handle_return neg cal m (Some t) = Some (Inr m')" "master_ok d m' S W" "ms_workermbs m' = ms_workermbs m"
        "h_tasks (ms_store m') t = None" "others_kept t (h_tasks (ms_store m)) (h_tasks (ms_store m'))" by blast
    have "task_after m msg None (h_tasks (ms_store m') t)"
      using nm zombie t(2) mt msg(2) r(4) by (simp add: task_after_def)
    with unchanged_step [OF r(2,3) mt nm _ _ r(5)] msg(2) r(1) mt show ?thesis by auto
  qed
qed

lemma handle_request_ok:
  assumes ok: "master_ok d m S W" and i: "i < length (ms_waitworkers m)"
  shows "\<exists>m' S' W' out. handle_request m (int i) = Inr m' \<and> request_spec (prio_at (h_tasks (ms_store m))) S W i S' W' out \<and>
    master_ok d m' S' W' \<and> ms_workermbs m' = deliver (ms_workermbs m) out \<and>
    ms_store m' = (case out of None \<Rightarrow> ms_store m
      | Some (i, t) \<Rightarrow> (ms_store m)\<lparr>h_tasks := (h_tasks (ms_store m))(t \<mapsto> set_state TASK_READY (the (h_tasks (ms_store m) t)))\<rparr>) \<and>
    ms_terminate m' = ms_terminate m \<and> length (ms_waitworkers m') = length (ms_waitworkers m)"
proof -
  let ?tq = "ms_ready_tasks m" and ?h = "h_tasks (ms_store m)"
  have q: "queue_ok d ?tq (ms_store m) S" and len: "length (ms_workermbs m) = length (ms_waitworkers m)"
    and W: "waiting m = W" using ok by (auto simp: master_ok_def)
  have inv: "th_inv ?tq ?h S" using q by (simp add: queue_ok_def)
  show ?thesis
  proof (cases "none_due (prio_at ?h) S")
    case nd: True
    have "handle_request m (int i) = Inr (m\<lparr>ms_waitworkers := (ms_waitworkers m)[i := 1]\<rparr>)"
    proof (cases "S = {}")
      case True
      then have "LpelTaskheapPeek ?tq = Inr None" using theap.peek_empty inv by blast
      then show ?thesis using i by (simp add: handle_request_def)
    next
      case False
      from theap.peek_law [OF inv this] obtain t where t: "t \<in> S" "LpelTaskheapPeek ?tq = Inr (Some t)" "\<forall>u \<in> S. prio_at ?h u \<le> prio_at ?h t" by blast
      from t(1) q obtain c where c: "?h t = Some c" by (auto simp: queue_ok_def inq_def)
      from nd False obtain v where v: "v \<in> S" "prio_at ?h v = LPEL_DBL_MIN" "\<forall>u \<in> S. prio_at ?h u \<le> prio_at ?h v"
        unfolding none_due_def by blast
      have "prio_at ?h t = prio_at ?h v" by (rule antisym) (use v t in blast)+
      with v(2) have "prio_at ?h t = LPEL_DBL_MIN" by simp
      then have "is_dbl_min m (Some t) = Inr True" using c by (simp add: is_dbl_min_def prio_at_def)
      then show ?thesis using t(2) i by (simp add: handle_request_def)
    qed
    moreover have "waiting (m\<lparr>ms_waitworkers := (ms_waitworkers m)[i := 1]\<rparr>) = insert i W"
      using i W by (auto simp: waiting_def nth_list_update split: if_splits)
    then have "master_ok d (m\<lparr>ms_waitworkers := (ms_waitworkers m)[i := 1]\<rparr>) S (insert i W)"
      using ok by (simp add: master_ok_def)
    ultimately show ?thesis using nd
      by (intro exI [of _ "m\<lparr>ms_waitworkers := (ms_waitworkers m)[i := 1]\<rparr>"] exI [of _ S] exI [of _ "insert i W"]
          exI [of _ None]) (simp add: request_spec_def deliver_def)
  next
    case due: False
    then have False: "S \<noteq> {}" by (simp add: none_due_def)
    from theap.peek_law [OF inv this] obtain t where t: "t \<in> S" "LpelTaskheapPeek ?tq = Inr (Some t)"
      "\<forall>u \<in> S. prio_at ?h u \<le> prio_at ?h t" by blast
    from t(1) q obtain c where c: "?h t = Some c" "ht_state c = TASK_INQUEUE" by (auto simp: queue_ok_def inq_def)
    have low: "is_dbl_min m (Some t) = Inr False"
    proof -
      have "prio_at ?h t \<noteq> LPEL_DBL_MIN" using due t(1,3) unfolding none_due_def by blast
      then show ?thesis using c(1) by (simp add: is_dbl_min_def prio_at_def)
    qed
    let ?h1 = "?h(t \<mapsto> set_state TASK_READY c)"
    have pr: "prio_at ?h1 = prio_at ?h" using c(1) by (auto simp: prio_at_def fun_eq_iff)
    have inv1: "th_inv ?tq ?h1 S"
      using th_inv_frame [OF inv, of ?h1] pr q by (auto simp: queue_ok_def inq_def)
    from theap.pop_law [OF inv1 False] obtain u tq' where
      u: "LpelTaskheapPop ?tq ?h1 = Inr (Some u, tq')" "th_inv tq' ?h1 (S - {u})" "\<forall>v \<in> S. prio_at ?h v \<le> prio_at ?h u"
      unfolding pr by blast
    have ut: "u = t"
      using u(1) t(2) inv False by (auto simp: LpelTaskheapPop_def LpelTaskheapPeek_def bindR_eq_Inr split: if_splits)
    define m' where "m' = m\<lparr>ms_store := (ms_store m)\<lparr>h_tasks := ?h1\<rparr>, ms_workermbs := deliver (ms_workermbs m) (Some (i, t)),
      ms_ready_tasks := tq'\<rparr>"
    have "handle_request m (int i) = Inr m'"
      using t(2) low c(1) u(1) i len
      by (simp add: handle_request_def mupd_def sendTask_ok [where c = "set_state TASK_READY c"] m'_def)
    moreover have "inq ?h1 (S - {t})" using q t(1) by (auto simp: queue_ok_def inq_def)
    moreover have "d \<longrightarrow> nolow ?h1 (S - {t})" using q pr by (auto simp: queue_ok_def nolow_def)
    moreover have "store_wf ((ms_store m)\<lparr>h_tasks := ?h1\<rparr>)"
      using q c(1) same_links_upd [of ?h t c "set_state TASK_READY c"] store_wf_links by (auto simp: queue_ok_def)
    ultimately have "master_ok d m' (S - {t}) W"
      using u(2) ut len W by (simp add: master_ok_def queue_ok_def m'_def deliver_def waiting_def)
    with \<open>handle_request m (int i) = Inr m'\<close> show ?thesis using due t(1) u(3) ut c(1)
      by (intro exI [of _ m'] exI [of _ "S - {t}"] exI [of _ W] exI [of _ "Some (i, t)"])
         (auto simp: request_spec_def m'_def)
  qed
qed

lemma MasterHandle_ok:
  assumes cfg: "d \<longrightarrow> cfg_ok neg cal" and ok: "master_ok d m S W" and msg: "msg_ok m msg"
  shows "\<exists>m'. MasterHandle neg cal m msg = Some (Inr m') \<and> master_step d neg cal m S W msg m'"
proof -
  consider (request) "msg_type msg = WORKER_MSG_REQUEST" | (ending) "msg_type msg = WORKER_MSG_TERMINATE"
    | (assign) "msg_type msg = WORKER_MSG_ASSIGN" | (return) "msg_type msg = WORKER_MSG_RETURN"
    | (wakeup) "msg_type msg = WORKER_MSG_WAKEUP"
    using msg by (auto simp: msg_ok_def split: if_splits)
  then show ?thesis
  proof cases
    case request
    then obtain i where i: "msg_body msg = BFromWorker (int i)" "i < length (ms_waitworkers m)"
      using msg by (auto simp: msg_ok_def)
    from handle_request_ok [OF ok i(2)] obtain m' S' W' out where
      "handle_request m (int i) = Inr m'" "request_spec (prio_at (h_tasks (ms_store m))) S W i S' W' out"
      "master_ok d m' S' W'" "ms_workermbs m' = deliver (ms_workermbs m) out" by blast
    moreover have "msg_worker msg = i" using i(1) by (simp add: msg_worker_def)
    ultimately show ?thesis using request i(1)
      by (auto simp: MasterHandle_def msg_types body_from_worker_def master_step_def dispatch_spec_def)
  next
    case ending
    then show ?thesis using ok
      by (auto simp: MasterHandle_def msg_types master_step_def dispatch_spec_def deliver_def master_ok_def waiting_def)
  next
    case assign
    then obtain t c where t: "msg_body msg = BTask (Some t)" "h_tasks (ms_store m) t = Some c" "ht_state c = TASK_CREATED"
      using msg by (auto simp: msg_ok_def msg_types)
    from handle_assign_ok [OF cfg ok t(2,3)] obtain m' where
      r: "handle_assign neg cal m (Some t) = Some (Inr m')" "readied d False m S W t m'" by blast
    have "makes_ready m msg" using assign t by (simp add: makes_ready_def msg_task_def)
    with readied_step [OF r(2) t(1)] assign r(1) t(1) show ?thesis by (simp add: MasterHandle_def body_task_def)
  next
    case return
    then obtain t where t: "msg_body msg = BTask (Some t)" using msg by (auto simp: msg_ok_def msg_types)
    from handle_return_ok [OF cfg ok msg return] t return show ?thesis
      by (simp add: MasterHandle_def body_task_def msg_types msg_task_def)
  next
    case wakeup
    then obtain t c where t: "msg_body msg = BTask (Some t)" "h_tasks (ms_store m) t = Some c"
      using msg by (auto simp: msg_ok_def msg_types)
    have mt: "msg_task msg = t" using t(1) by (simp add: msg_task_def)
    have run: "MasterHandle neg cal m msg = handle_wakeup neg cal m (Some t)"
      using wakeup t(1) by (simp add: MasterHandle_def body_task_def msg_types)
    show ?thesis
    proof (cases "ht_state c = TASK_RETURNED")
      case True
      from handle_wakeup_ok [OF cfg ok t(2) True] obtain m' where
        r: "handle_wakeup neg cal m (Some t) = Some (Inr m')" "readied d (too_low neg cal m t) m S W t m'" by blast
      have "makes_ready m msg" using wakeup t mt True by (simp add: makes_ready_def)
      with readied_step [OF r(2) t(1)] wakeup run r(1) show ?thesis by (simp add: msg_types)
    next
      case False
      let ?m = "m\<lparr>ms_store := (ms_store m)\<lparr>h_tasks := (h_tasks (ms_store m))(t \<mapsto> c\<lparr>ht_wakenup := 1\<rparr>)\<rparr>\<rparr>"
      have nm: "\<not> makes_ready m msg" using wakeup t mt False by (auto simp: makes_ready_def msg_types)
      have "task_after m msg None (h_tasks (ms_store ?m) t)"
        using nm wakeup t(2) mt by (simp add: task_after_def msg_types)
      then have "master_step d neg cal m S W msg ?m"
        using unchanged_step [OF mark_wakenup_ok [OF ok t(2)] _ mt nm] wakeup by simp
      moreover have "handle_wakeup neg cal m (Some t) = Some (Inr ?m)"
        using False t(2) by (simp add: handle_wakeup_def mupd_def)
      ultimately show ?thesis using run by auto
    qed
  qed
qed

text \<open>Without a demand limit no task is too low, and a worker waits only for an empty queue.\<close>

lemma not_too_low:
  assumes "cfg_ok neg cal" and "master_ok d m S W" and "h_tasks (ms_store m) t = Some c"
  shows "\<not> too_low neg cal m t"
  using CalPriority_not_min [OF assms(1)] assms(2,3) by (auto simp: too_low_def master_ok_def queue_ok_def)

lemma none_due_empty: "master_ok True m S W \<Longrightarrow> none_due (prio_at (h_tasks (ms_store m))) S \<longleftrightarrow> S = {}"
  by (auto simp: master_ok_def queue_ok_def none_due_def nolow_def)

lemma master_step_conserves:
  assumes "master_step True neg cal m S W msg m'" and "S = {} \<or> W = {}" and "cfg_ok neg cal" and ok: "master_ok True m S W"
  shows "\<exists>S' W'. master_ok True m' S' W' \<and> (S' = {} \<or> W' = {})"
proof -
  from assms(1) obtain S' W' out where d: "dispatch_spec neg cal m S W msg S' W' out" "master_ok True m' S' W'"
    unfolding master_step_def by blast
  have "\<not> too_low neg cal m (msg_task msg)" if "makes_ready m msg"
    using that not_too_low [OF assms(3) ok] by (auto simp: makes_ready_def)
  moreover note none_due_empty [OF ok]
  ultimately have "S' = {} \<or> W' = {}"
    using d(1) assms(2) by (auto simp: dispatch_spec_def request_spec_def ready_spec_def split: if_splits)
  with d(2) show ?thesis by blast
qed

section \<open>Properties\<close>

text \<open>
  C8: The master refines an abstract dispatcher, with and without a demand limit. In every consistent state, every message that its
  sender may send is handled without a failing assertion or invalid access and without an endless
  loop, and has exactly the abstract effect: a task that becomes ready goes to one worker that was
  waiting, or into the ready queue when none waits or when its priority, computed from its streams, is the
  lowest one, \<open>LPEL_DBL_MIN\<close>, which marks a task above the demand limit (a new task is not tested for
  this); a worker that asks for work gets a queued task of greatest priority, or is recorded as waiting when none
  is queued or the greatest priority is the lowest one; a blocked task is parked
  until its wakeup, a wakeup that comes early is remembered, an ended task is destroyed. All other
  tasks keep everything but their priority, and the state stays consistent. The parameter \<open>d\<close> of the
  consistency is free: when it holds, which takes a configuration without demand limit (\<open>cfg_ok\<close>), the consistency
  also says that no queued task has the lowest priority.
\<close>

theorem master_refines_dispatcher:
  assumes "d \<longrightarrow> cfg_ok neg cal" and "master_ok d m S W" and "msg_ok m msg"
  shows "\<exists>m'. MasterHandle neg cal m msg = Some (Inr m') \<and> master_step d neg cal m S W msg m'"
  using assms by (rule MasterHandle_ok)

definition ex_master :: masterctx_t where
  "ex_master = \<lparr>ms_terminate = 0, ms_ready_tasks = LpelTaskheapInit, ms_waitworkers = [1, 0],
     ms_workermbs = [[], []], ms_store = ex_hstore\<lparr>h_tasks := [1 \<mapsto> (ex_htask 0)\<lparr>ht_state := TASK_CREATED\<rparr>]\<rparr>\<rparr>"

lemma ex_master_ok: "master_ok d ex_master {} {0}"
proof -
  let ?c = "(ex_htask 0)\<lparr>ht_state := TASK_CREATED\<rparr>"
  have "i = 0 \<or> i = 1" if "i < length [1, 0 :: int]" for i using that by auto
  then have W: "waiting ex_master = {0}" unfolding waiting_def by (auto simp: ex_master_def nth_Cons' split: if_splits)
  have l: "links ?c = (None, None)" by (simp add: links_def ex_htask_def)
  have tasks: "h_tasks (ms_store ex_master) = [1 \<mapsto> ?c]" by (simp add: ex_master_def)
  have "task_wf (ms_store ex_master) 1"
    unfolding task_wf_def
    by (intro exI [of _ ?c] exI [of _ "[]"])
       (simp add: ex_master_def ex_hstore_def el_rep_def elems_ok_def ex_htask_def)
  moreover have "counts_ok (ms_store ex_master) (None, None)"
    by (auto simp: counts_ok_def el_rep_def count_spec_def c_count_def)
  moreover have "h_streams (ms_store ex_master) = Map.empty" by (simp add: ex_master_def ex_hstore_def)
  ultimately have "store_wf (ms_store ex_master)" using l tasks by (simp add: store_wf_def)
  moreover have "inq (h_tasks (ms_store ex_master)) {}" by (simp add: inq_def tasks)
  ultimately show ?thesis
    using W th_inv_init by (simp add: master_ok_def queue_ok_def nolow_def ex_master_def)
qed

definition ex_assign :: workermsg_t where
  "ex_assign = \<lparr>msg_type = WORKER_MSG_ASSIGN, msg_body = BTask (Some 1)\<rparr>"

lemma ex_assign_ok: "msg_ok ex_master ex_assign"
  by (simp add: msg_ok_def ex_assign_def msg_types ex_master_def ex_hstore_def ex_htask_def)

lemma ex_cfg: "cfg_ok 0 (LpelTaskSetPriorityFunc (\<lambda>x. of_int \<lfloor>1024 * x\<rfloor> / 1024) 0 func)"
  by (rule cfg_ok_selected [OF rounding_trunc]) simp_all

theorem master_refines_dispatcher_witness:
  "\<exists>m'. MasterHandle 3 (LpelTaskSetPriorityFunc (\<lambda>x. of_int \<lfloor>1024 * x\<rfloor> / 1024) 0 1) ex_master ex_assign = Some (Inr m') \<and>
     master_step False 3 (LpelTaskSetPriorityFunc (\<lambda>x. of_int \<lfloor>1024 * x\<rfloor> / 1024) 0 1) ex_master {} {0} ex_assign m'"
  by (rule master_refines_dispatcher [OF _ ex_master_ok ex_assign_ok]) simp

text \<open>
  C12: Without a demand limit (\<open>cfg_ok\<close>: \<open>neg_demand_lim\<close> is not positive and the priority function never yields
  \<open>LPEL_DBL_MIN\<close>) the master conserves work: when every ready task is with a worker or no worker is idle, this
  still holds after any message, so that never a worker waits while a task is queued.
\<close>

theorem master_work_conserving:
  assumes "cfg_ok neg cal" and "master_ok True m S W" and "msg_ok m msg" and "S = {} \<or> W = {}"
  shows "\<exists>m' S' W'. MasterHandle neg cal m msg = Some (Inr m') \<and> master_ok True m' S' W' \<and> (S' = {} \<or> W' = {})"
proof -
  from MasterHandle_ok [OF _ assms(2,3)] assms(1) obtain m' where
    m: "MasterHandle neg cal m msg = Some (Inr m')" "master_step True neg cal m S W msg m'" by blast
  then show ?thesis using master_step_conserves [OF m(2) assms(4,1,2)] by blast
qed

theorem master_work_conserving_witness:
  "\<exists>m' S' W'. MasterHandle 0 (LpelTaskSetPriorityFunc (\<lambda>x. of_int \<lfloor>1024 * x\<rfloor> / 1024) 0 14) ex_master ex_assign = Some (Inr m') \<and>
     master_ok True m' S' W' \<and> (S' = {} \<or> W' = {})"
  by (rule master_work_conserving [OF ex_cfg ex_master_ok ex_assign_ok]) simp

end
