(* ===== verification/Hrc_Worker.thy ===== *)
theory Hrc_Worker
  imports Hrc_Master Hrc_Context
begin

text \<open>
  \<open>src/sched/hierarchy/hrc_worker_op.c\<close> and \<open>hrc_worker_init.c\<close>: workers, wrappers and the threads of the
  hierarchical scheduler, with the task operations of \<open>hrc_task.c\<close> that switch to a worker. Every
  function is translated up to the point where it switches the machine context: \<open>ToTask t\<close> tells that task
  \<open>t\<close> continues, \<open>ToContext\<close> that the loop of the worker or wrapper does. The mailboxes of the
  workers are those of the master's table \<open>workermbs\<close>; a wrapper has its own in its context.
\<close>

section \<open>Model\<close>

record hrc_sys =
  hy_master :: masterctx_t
  hy_mastermb :: "workermsg_t list"
  hy_workers :: "workerctx_t heap"
  hy_table :: "addr list"
  hy_free :: ptr

datatype hsw = ToContext | ToTask addr

abbreviation hy_store :: "hrc_sys \<Rightarrow> hrc_store" where
  "hy_store s \<equiv> ms_store (hy_master s)"

abbreviation set_store :: "hrc_sys \<Rightarrow> hrc_store \<Rightarrow> hrc_sys" where
  "set_store s w \<equiv> s\<lparr>hy_master := (hy_master s)\<lparr>ms_store := w\<rparr>\<rparr>"

definition upd_yt :: "hrc_sys \<Rightarrow> ptr \<Rightarrow> (hrc_task_t \<Rightarrow> hrc_task_t) \<Rightarrow> hrc_sys res" where
  "upd_yt s t f = bindR (upd_task (hy_store s) t f) (\<lambda>w. Inr (set_store s w))"

definition upd_yw :: "hrc_sys \<Rightarrow> ptr \<Rightarrow> (workerctx_t \<Rightarrow> workerctx_t) \<Rightarrow> hrc_sys res" where
  "upd_yw s wc f = bindR (upd (hy_workers s) wc f) (\<lambda>h. Inr (s\<lparr>hy_workers := h\<rparr>))"

lemma upd_yt_Some [simp]:
  "h_tasks (hy_store s) a = Some c \<Longrightarrow> upd_yt s (Some a) f = Inr (set_store s ((hy_store s)\<lparr>h_tasks := (h_tasks (hy_store s))(a \<mapsto> f c)\<rparr>))"
  by (simp add: upd_yt_def)

lemma upd_yw_Some [simp]: "hy_workers s a = Some c \<Longrightarrow> upd_yw s (Some a) f = Inr (s\<lparr>hy_workers := (hy_workers s)(a \<mapsto> f c)\<rparr>)"
  by (simp add: upd_yw_def)

abbreviation task_msg :: "int \<Rightarrow> ptr \<Rightarrow> workermsg_t" where
  "task_msg ty t \<equiv> \<lparr>msg_type = ty, msg_body = BTask t\<rparr>"

definition send_master :: "hrc_sys \<Rightarrow> workermsg_t \<Rightarrow> hrc_sys" where
  "send_master s msg = s\<lparr>hy_mastermb := hy_mastermb s @ [msg]\<rparr>"

definition send_wrapper :: "hrc_sys \<Rightarrow> ptr \<Rightarrow> workermsg_t \<Rightarrow> hrc_sys res" where
  "send_wrapper s wp msg = upd_yw s wp (\<lambda>c. c\<lparr>wc_mailbox := wc_mailbox c @ [msg]\<rparr>)"

subsection \<open>Messages\<close>

definition LpelWorkerRunTask_hrc :: "hrc_sys \<Rightarrow> ptr \<Rightarrow> hrc_sys res" where
  "LpelWorkerRunTask_hrc s t =
     bindR (deref (h_tasks (hy_store s)) t) (\<lambda>c.
       if ht_worker_context c \<noteq> None then send_wrapper s (ht_worker_context c) (task_msg WORKER_MSG_ASSIGN t)
       else Inr (send_master s (task_msg WORKER_MSG_ASSIGN t)))"

definition returnTask :: "hrc_sys \<Rightarrow> ptr \<Rightarrow> hrc_sys" where
  "returnTask s t = send_master s (task_msg WORKER_MSG_RETURN t)"

definition requestTask :: "hrc_sys \<Rightarrow> ptr \<Rightarrow> hrc_sys res" where
  "requestTask s wc =
     bindR (deref (hy_workers s) wc) (\<lambda>c. Inr (send_master s \<lparr>msg_type = WORKER_MSG_REQUEST, msg_body = BFromWorker (wc_wid c)\<rparr>))"

text \<open>\<open>sendWakeup\<close> to the master's mailbox (\<open>None\<close>) or to the mailbox of a wrapper.\<close>

definition sendWakeup :: "hrc_sys \<Rightarrow> ptr \<Rightarrow> ptr \<Rightarrow> hrc_sys res" where
  "sendWakeup s mb t =
     (if mb = None then Inr (send_master s (task_msg WORKER_MSG_WAKEUP t)) else send_wrapper s mb (task_msg WORKER_MSG_WAKEUP t))"

fun send_all :: "workermsg_t list list \<Rightarrow> workermsg_t \<Rightarrow> workermsg_t list list" where
  "send_all [] msg = []"
| "send_all (mb # mbs) msg = (mb @ [msg]) # send_all mbs msg"

definition LpelWorkerBroadcast_hrc :: "hrc_sys \<Rightarrow> workermsg_t \<Rightarrow> hrc_sys" where
  "LpelWorkerBroadcast_hrc s msg = s\<lparr>hy_master := (hy_master s)\<lparr>ms_workermbs := send_all (ms_workermbs (hy_master s)) msg\<rparr>\<rparr>"

definition LpelWorkerCount_hrc :: "hrc_sys \<Rightarrow> int" where
  "LpelWorkerCount_hrc s = int (length (hy_table s))"

definition LpelWorkersTerminate_hrc :: "hrc_sys \<Rightarrow> hrc_sys" where
  "LpelWorkersTerminate_hrc s = send_master s \<lparr>msg_type = WORKER_MSG_TERMINATE, msg_body = BNone\<rparr>"

definition LpelWorkerCurrentTask_hrc :: "hrc_sys \<Rightarrow> ptr \<Rightarrow> ptr res" where
  "LpelWorkerCurrentTask_hrc s self =
     bindR (assertR (self \<noteq> None)) (\<lambda>_. bindR (deref (hy_workers s) self) (\<lambda>c. Inr (wc_current_task c)))"

subsection \<open>The worker side of a task operation\<close>

definition LpelWorkerTaskExit :: "hrc_sys \<Rightarrow> ptr \<Rightarrow> hrc_sys res" where
  "LpelWorkerTaskExit s t =
     bindR (deref (h_tasks (hy_store s)) t) (\<lambda>c.
       let wc = ht_worker_context c in
       bindR (deref (hy_workers s) wc) (\<lambda>k.
         if wc_wid k \<ge> 0 then bindR (requestTask s wc) (\<lambda>s1. upd_yw s1 wc (\<lambda>k. k\<lparr>wc_current_task := None\<rparr>))
         else upd_yw s wc (\<lambda>k. k\<lparr>wc_terminate := 1\<rparr>)))"

definition LpelWorkerTaskBlock :: "hrc_sys \<Rightarrow> ptr \<Rightarrow> hrc_sys res" where
  "LpelWorkerTaskBlock s t =
     bindR (deref (h_tasks (hy_store s)) t) (\<lambda>c.
       let wc = ht_worker_context c in
       bindR (deref (hy_workers s) wc) (\<lambda>k.
       bindR (if wc_wid k < 0 then upd_yw s wc (\<lambda>k. k\<lparr>wc_current_task := None\<rparr>) else requestTask s wc) (\<lambda>s1.
         upd_yw s1 wc (\<lambda>k. k\<lparr>wc_current_task := None\<rparr>))))"

definition LpelWorkerTaskYield :: "hrc_sys \<Rightarrow> ptr \<Rightarrow> hrc_sys res" where
  "LpelWorkerTaskYield s t =
     bindR (deref (h_tasks (hy_store s)) t) (\<lambda>c.
       let wc = ht_worker_context c in
       bindR (deref (hy_workers s) wc) (\<lambda>k.
         if wc_wid k < 0 then Inr s
         else bindR (requestTask s wc) (\<lambda>s1. upd_yw s1 wc (\<lambda>k. k\<lparr>wc_current_task := None\<rparr>))))"

definition LpelWorkerTaskWakeup_hrc :: "hrc_sys \<Rightarrow> ptr \<Rightarrow> hrc_sys res" where
  "LpelWorkerTaskWakeup_hrc s t =
     bindR (deref (h_tasks (hy_store s)) t) (\<lambda>c.
       let wc = ht_worker_context c in
       if wc = None then sendWakeup s None t
       else bindR (deref (hy_workers s) wc) (\<lambda>k. if wc_wid k < 0 then sendWakeup s wc t else sendWakeup s None t))"

subsection \<open>Task operations up to the switch\<close>

definition LpelTaskStart_hrc :: "hrc_sys \<Rightarrow> ptr \<Rightarrow> hrc_sys res" where
  "LpelTaskStart_hrc s t =
     bindR (deref (h_tasks (hy_store s)) t) (\<lambda>c.
     bindR (assertR (ht_state c = TASK_CREATED)) (\<lambda>_. LpelWorkerRunTask_hrc s t))"

text \<open>\<open>TaskStart\<close>, which a task runs whenever it continues.\<close>

definition task_resume :: "hrc_sys \<Rightarrow> addr \<Rightarrow> hrc_sys res" where
  "task_resume s t = bindR (TaskStart (hy_store s) (Some t)) (\<lambda>w. Inr (set_store s w))"

definition finish_hrc :: "hrc_sys \<Rightarrow> addr \<Rightarrow> hrc_sys res" where
  "finish_hrc s t = bindR (upd_yt s (Some t) (set_state TASK_ZOMBIE)) (\<lambda>s1. LpelWorkerTaskExit s1 (Some t))"

definition LpelTaskExit_hrc :: "hrc_sys \<Rightarrow> ptr \<Rightarrow> hrc_sys res" where
  "LpelTaskExit_hrc s self =
     bindR (LpelWorkerCurrentTask_hrc s self) (\<lambda>ct.
     bindR (deref (h_tasks (hy_store s)) ct) (\<lambda>c.
     bindR (assertR (ht_state c = TASK_RUNNING)) (\<lambda>_.
     bindR (upd_yt s ct (set_state TASK_ZOMBIE)) (\<lambda>s1. LpelWorkerTaskExit s1 ct))))"

definition yield_switch :: "hrc_sys \<Rightarrow> ptr \<Rightarrow> hrc_sys res" where
  "yield_switch s self =
     bindR (LpelWorkerCurrentTask_hrc s self) (\<lambda>ct.
     bindR (deref (h_tasks (hy_store s)) ct) (\<lambda>c.
     bindR (assertR (ht_state c = TASK_RUNNING)) (\<lambda>_.
     bindR (upd_yt s ct (set_state TASK_READY)) (\<lambda>s1. LpelWorkerTaskYield s1 ct))))"

definition block_switch :: "hrc_sys \<Rightarrow> addr \<Rightarrow> hrc_sys res" where
  "block_switch s t =
     bindR (deref (h_tasks (hy_store s)) (Some t)) (\<lambda>c.
     bindR (assertR (ht_state c = TASK_RUNNING)) (\<lambda>_.
     bindR (upd_yt s (Some t) (set_state TASK_BLOCKED)) (\<lambda>s1. LpelWorkerTaskBlock s1 (Some t))))"

definition LpelTaskUnblock_hrc :: "hrc_sys \<Rightarrow> ptr \<Rightarrow> hrc_sys res" where
  "LpelTaskUnblock_hrc s t = bindR (assertR (t \<noteq> None)) (\<lambda>_. LpelWorkerTaskWakeup_hrc s t)"

definition LpelTaskGetId_hrc :: "hrc_store \<Rightarrow> ptr \<Rightarrow> 32 word res" where
  "LpelTaskGetId_hrc w t = bindR (deref (h_tasks w) t) (\<lambda>c. Inr (ht_uid c))"

definition LpelTaskGetMon_hrc :: "hrc_store \<Rightarrow> ptr \<Rightarrow> ptr res" where
  "LpelTaskGetMon_hrc w t = bindR (deref (h_tasks w) t) (\<lambda>c. Inr (ht_mon c))"

definition LpelTaskMonitor_hrc :: "hrc_store \<Rightarrow> ptr \<Rightarrow> ptr \<Rightarrow> hrc_store res" where
  "LpelTaskMonitor_hrc w t mt = upd_task w t (\<lambda>c. c\<lparr>ht_mon := mt\<rparr>)"

definition LpelTaskSetNegLim :: "int \<Rightarrow> int \<Rightarrow> int" where
  "LpelTaskSetNegLim neg_demand_lim l = l"

subsection \<open>The loop of a worker\<close>

text \<open>One round of \<open>WorkerLoop\<close> up to the switch to the task, and from the return of the task on.\<close>

definition worker_assign :: "hrc_sys \<Rightarrow> ptr \<Rightarrow> ptr \<Rightarrow> (hsw \<times> hrc_sys) res" where
  "worker_assign s wc t =
     bindR (deref (h_tasks (hy_store s)) t) (\<lambda>c.
     bindR (assertR (ht_state c = TASK_READY)) (\<lambda>_.
     bindR (upd_yt s t (\<lambda>c. c\<lparr>ht_worker_context := wc\<rparr>)) (\<lambda>s1.
     bindR (upd_yw s1 wc (\<lambda>k. k\<lparr>wc_current_task := t\<rparr>)) (\<lambda>s2. Inr (ToTask (the t), s2)))))"

definition worker_round :: "hrc_sys \<Rightarrow> ptr \<Rightarrow> (hsw \<times> hrc_sys) res" where
  "worker_round s wc =
     bindR (deref (hy_workers s) wc) (\<lambda>k.
     bindR (assertR (0 \<le> wc_wid k)) (\<lambda>_.
     bindR (aget (ms_workermbs (hy_master s)) (nat (wc_wid k))) (\<lambda>mb.
       case mb of [] \<Rightarrow> Inl WouldBlock
       | msg # ms \<Rightarrow>
           bindR (aset (ms_workermbs (hy_master s)) (nat (wc_wid k)) ms) (\<lambda>mbs.
             let s1 = s\<lparr>hy_master := (hy_master s)\<lparr>ms_workermbs := mbs\<rparr>\<rparr> in
             if msg_type msg = WORKER_MSG_ASSIGN then bindR (body_task msg) (worker_assign s1 wc)
             else if msg_type msg = WORKER_MSG_TERMINATE then
               bindR (upd_yw s1 wc (\<lambda>k. k\<lparr>wc_terminate := 1\<rparr>)) (\<lambda>s2. Inr (ToContext, s2))
             else Inl AssertFail))))"

definition worker_back :: "hrc_sys \<Rightarrow> ptr \<Rightarrow> addr \<Rightarrow> hrc_sys res" where
  "worker_back s wc t =
     bindR (deref (h_tasks (hy_store s)) (Some t)) (\<lambda>c.
     bindR (assertR (ht_state c \<noteq> TASK_RUNNING)) (\<lambda>_.
     bindR (upd_yw s wc (\<lambda>k. k\<lparr>wc_current_task := None\<rparr>)) (\<lambda>s1.
     bindR (upd_yt s1 (Some t) (\<lambda>c. c\<lparr>ht_worker_context := None\<rparr>)) (\<lambda>s2. Inr (returnTask s2 (Some t))))))"

definition worker_start :: "hrc_sys \<Rightarrow> ptr \<Rightarrow> hrc_sys res" where
  "worker_start s wc = bindR (upd_yw s wc (\<lambda>k. k\<lparr>wc_terminate := 0, wc_current_task := None\<rparr>)) (\<lambda>s1. requestTask s1 wc)"

subsection \<open>The loop of a wrapper\<close>

definition wrapper_msg :: "hrc_sys \<Rightarrow> ptr \<Rightarrow> lpel_taskstate_t \<Rightarrow> ptr \<Rightarrow> hrc_sys res" where
  "wrapper_msg s wp st t =
     bindR (deref (h_tasks (hy_store s)) t) (\<lambda>c.
     bindR (assertR (ht_state c = st)) (\<lambda>_.
     bindR (upd_yt s t (set_state TASK_READY)) (\<lambda>s1. upd_yw s1 wp (\<lambda>k. k\<lparr>wc_current_task := t\<rparr>))))"

definition wrapper_round :: "hrc_sys \<Rightarrow> ptr \<Rightarrow> (hsw \<times> hrc_sys) res" where
  "wrapper_round s wp =
     bindR (deref (hy_workers s) wp) (\<lambda>k.
       case wc_current_task k of Some t \<Rightarrow> Inr (ToTask t, s)
       | None \<Rightarrow>
           (case wc_mailbox k of [] \<Rightarrow> Inl WouldBlock
            | msg # ms \<Rightarrow>
                bindR (upd_yw s wp (\<lambda>k. k\<lparr>wc_mailbox := ms\<rparr>)) (\<lambda>s1.
                bindR (if msg_type msg = WORKER_MSG_ASSIGN then bindR (body_task msg) (wrapper_msg s1 wp TASK_CREATED)
                       else if msg_type msg = WORKER_MSG_WAKEUP then bindR (body_task msg) (wrapper_msg s1 wp TASK_BLOCKED)
                       else Inl AssertFail) (\<lambda>s2. Inr (ToContext, s2)))))"

text \<open>The end of \<open>WrapperLoop\<close> and of \<open>WrapperThread\<close>; \<open>freewrappers\<close> links the contexts by \<open>next\<close>.\<close>

definition addFreeWrapper :: "hrc_sys \<Rightarrow> ptr \<Rightarrow> hrc_sys res" where
  "addFreeWrapper s wp =
     bindR (deref (hy_workers s) wp) (\<lambda>k.
     bindR (assertR (wc_mailbox k = [] \<and> wc_terminate k \<noteq> 0)) (\<lambda>_.
     bindR (upd_yw s wp (\<lambda>k. k\<lparr>wc_next := hy_free s\<rparr>)) (\<lambda>s1. Inr (s1\<lparr>hy_free := wp\<rparr>))))"

definition getFreeWrapper :: "hrc_sys \<Rightarrow> (ptr \<times> hrc_sys) res" where
  "getFreeWrapper s =
     (if hy_free s = None then Inr (None, s)
      else bindR (deref (hy_workers s) (hy_free s)) (\<lambda>k.
        bindR (upd_yw s (hy_free s) (\<lambda>k. k\<lparr>wc_next := None\<rparr>)) (\<lambda>s1. Inr (hy_free s, s1\<lparr>hy_free := wc_next k\<rparr>))))"

definition wrapper_end :: "hrc_sys \<Rightarrow> ptr \<Rightarrow> hrc_sys res" where
  "wrapper_end s wp =
     bindR (deref (hy_workers s) wp) (\<lambda>k.
     bindR (LpelTaskDestroy (hy_store s) (wc_current_task k)) (\<lambda>w. addFreeWrapper (set_store s w) wp))"

text \<open>\<open>new\<close> is the block from \<open>malloc\<close>, used when no free wrapper is left; \<open>junk\<close> its indeterminate contents.\<close>

definition LpelCreateWrapperContext :: "hrc_sys \<Rightarrow> workerctx_t \<Rightarrow> ptr \<Rightarrow> int \<Rightarrow> (ptr \<times> hrc_sys) res" where
  "LpelCreateWrapperContext s junk new wid =
     bindR (getFreeWrapper s) (\<lambda>(wp, s1).
     bindR (if wp = None then
              bindR (alloc_at (hy_workers s1) new (junk\<lparr>wc_mailbox := [], wc_free_sd := None, wc_free_stream := None, wc_next := None\<rparr>))
                (\<lambda>h. Inr (new, s1\<lparr>hy_workers := h\<rparr>))
            else Inr (wp, s1)) (\<lambda>(wp, s2).
     bindR (upd_yw s2 wp (\<lambda>k. k\<lparr>wc_wid := wid, wc_terminate := 0, wc_current_task := None, wc_mon := None\<rparr>)) (\<lambda>s3. Inr (wp, s3))))"

subsection \<open>The thread of the master\<close>

text \<open>One round of \<open>MasterLoop\<close> on the master's mailbox: the answer tells whether the loop goes on.\<close>

definition master_round :: "int \<Rightarrow> (int \<Rightarrow> int \<Rightarrow> double) \<Rightarrow> hrc_sys \<Rightarrow> (bool \<times> hrc_sys) run" where
  "master_round neg cal s =
     (case hy_mastermb s of [] \<Rightarrow> Some (Inl WouldBlock)
      | msg # ms \<Rightarrow> bindO (MasterHandle neg cal (hy_master s) msg) (\<lambda>m.
          Some (Inr (\<not> (ms_terminate m \<noteq> 0 \<and> LpelTaskheapSize (ms_ready_tasks m) = 0), s\<lparr>hy_master := m, hy_mastermb := ms\<rparr>))))"

definition master_start :: "hrc_sys \<Rightarrow> hrc_sys" where
  "master_start s = s\<lparr>hy_master := (hy_master s)\<lparr>ms_terminate := 0\<rparr>\<rparr>"

text \<open>The rest of \<open>MasterThread\<close> after its loop.\<close>

definition master_finish :: "hrc_sys \<Rightarrow> hrc_sys" where
  "master_finish s = LpelWorkerBroadcast_hrc s \<lparr>msg_type = WORKER_MSG_TERMINATE, msg_body = BNone\<rparr>"

subsection \<open>Set-up and clean-up\<close>

fun alloc_workers :: "workerctx_t \<Rightarrow> ptr list \<Rightarrow> int \<Rightarrow> workerctx_t heap \<Rightarrow> (addr list \<times> workerctx_t heap) res" where
  "alloc_workers junk [] i h = Inr ([], h)"
| "alloc_workers junk (new # news) i h =
     bindR (alloc_at h new (junk\<lparr>wc_wid := i, wc_mon := None, wc_mailbox := [], wc_free_sd := None, wc_free_stream := None\<rparr>)) (\<lambda>h1.
     bindR (alloc_workers junk news (i + 1) h1) (\<lambda>(as, h2). Inr (the new # as, h2)))"

definition setupMailbox :: "addr list \<Rightarrow> workermsg_t list list" where
  "setupMailbox workers = map (\<lambda>_. []) workers"

definition initLocalVar :: "hrc_sys \<Rightarrow> hrc_sys" where
  "initLocalVar s = s\<lparr>hy_free := None, hy_mastermb := [], hy_master := (hy_master s)\<lparr>ms_workermbs := setupMailbox (hy_table s)\<rparr>\<rparr>"

text \<open>\<open>sz\<close> counts the master; \<open>news\<close> are the blocks for the worker contexts.\<close>

definition LpelWorkersInit_hrc :: "workerctx_t \<Rightarrow> ptr list \<Rightarrow> hrc_sys \<Rightarrow> int \<Rightarrow> hrc_sys res" where
  "LpelWorkersInit_hrc junk news s sz =
     bindR (assertR (0 \<le> sz)) (\<lambda>_.
     bindR (alloc_workers junk (take (nat (sz - 1)) news) 0 (hy_workers s)) (\<lambda>(as, h).
       Inr (initLocalVar (s\<lparr>hy_workers := h, hy_table := as,
         hy_master := (hy_master s)\<lparr>ms_ready_tasks := LpelTaskheapInit, ms_waitworkers := replicate (length as) 0\<rparr>\<rparr>))))"

text \<open>The messages left for a master that has ended.\<close>

fun cleanupMasterMb :: "hrc_store \<Rightarrow> workermsg_t list \<Rightarrow> hrc_store res" where
  "cleanupMasterMb w [] = Inr w"
| "cleanupMasterMb w (msg # ms) =
     bindR (if msg_type msg = WORKER_MSG_REQUEST then Inr w
            else if msg_type msg = WORKER_MSG_RETURN then
              bindR (body_task msg) (\<lambda>t.
              bindR (deref (h_tasks w) t) (\<lambda>c.
              bindR (assertR (ht_state c = TASK_ZOMBIE)) (\<lambda>_. LpelTaskDestroy w t)))
            else Inl AssertFail) (\<lambda>w1. cleanupMasterMb w1 ms)"

text \<open>Freeing one context with its free lists; \<open>mb\<close> is what is pending in its mailbox.\<close>

definition free_context :: "hrc_mem \<Rightarrow> ptr \<Rightarrow> workermsg_t list \<Rightarrow> hrc_mem run" where
  "free_context m wc mb =
     bindO (Some (assertR (mb = []))) (\<lambda>_.
     bindO (LpelWorkerDestroyStream m wc) (\<lambda>m1.
     bindO (LpelWorkerDestroySd m1 wc) (\<lambda>m2.
       Some (bindR (free_at (hm_workers m2) wc) (\<lambda>h. Inr (m2\<lparr>hm_workers := h\<rparr>))))))"

fun free_workers :: "hrc_mem \<Rightarrow> addr list \<Rightarrow> workermsg_t list list \<Rightarrow> hrc_mem run" where
  "free_workers m (a # as) (mb # mbs) = bindO (free_context m (Some a) mb) (\<lambda>m1. free_workers m1 as mbs)"
| "free_workers m as mbs = Some (Inr m)"

text \<open>The loop of \<open>cleanupLocalVar\<close> over the free wrappers.\<close>

partial_function (option) free_wrappers :: "hrc_mem \<Rightarrow> ptr \<Rightarrow> hrc_mem run" where
  "free_wrappers m wp =
     (if wp = None then Some (Inr m)
      else (case deref (hm_workers m) wp of Inl e \<Rightarrow> Some (Inl e)
        | Inr k \<Rightarrow> (case free_context m wp (wc_mailbox k) of None \<Rightarrow> None
            | Some r \<Rightarrow> (case r of Inl e \<Rightarrow> Some (Inl e) | Inr m1 \<Rightarrow> free_wrappers m1 (wc_next k)))))"

definition LpelWorkersCleanup_hrc :: "hrc_sys \<Rightarrow> hrc_mem run" where
  "LpelWorkersCleanup_hrc s =
     bindO (Some (cleanupMasterMb (hy_store s) (hy_mastermb s))) (\<lambda>w.
     bindO (free_workers \<lparr>hm_store = w, hm_workers = hy_workers s, hm_handles = (\<lambda>_. None)\<rparr> (hy_table s) (ms_workermbs (hy_master s))) (\<lambda>m.
       free_wrappers m (hy_free s)))"

end
