(* ===== verification/Hrc_Place.thy ===== *)
theory Hrc_Place
  imports Hrc_Worker
begin

text \<open>
  Where the tasks of the hierarchical scheduler are: the places a task can be in, the invariant that ties the
  places to the task records, the mailboxes and the contexts, and what a message does to the records that the
  master does not mean to change.
\<close>

section \<open>What the master leaves alone\<close>

text \<open>
  The master touches no stream; it keeps the worker context, the wakeup flag and the streams of every task that it
  does not destroy.
\<close>

definition task_kept :: "hrc_task_t \<Rightarrow> hrc_task_t \<Rightarrow> bool" where
  "task_kept c c' \<longleftrightarrow> ht_worker_context c' = ht_worker_context c \<and> ht_wakenup c' = ht_wakenup c \<and> links c' = links c"

definition store_kept :: "hrc_store \<Rightarrow> hrc_store \<Rightarrow> bool" where
  "store_kept w w' \<longleftrightarrow> w' = w\<lparr>h_tasks := h_tasks w'\<rparr> \<and> (\<forall>t c'. h_tasks w' t = Some c' \<longrightarrow> (\<exists>c. h_tasks w t = Some c \<and> task_kept c c'))"

definition master_kept :: "masterctx_t \<Rightarrow> masterctx_t \<Rightarrow> bool" where
  "master_kept m m' \<longleftrightarrow> store_kept (ms_store m) (ms_store m') \<and> ms_terminate m' = ms_terminate m \<and>
     length (ms_waitworkers m') = length (ms_waitworkers m)"

lemma task_kept_trans: "task_kept c c' \<Longrightarrow> task_kept c' c'' \<Longrightarrow> task_kept c c''"
  by (simp add: task_kept_def)

lemma store_keptD: "store_kept w w' \<Longrightarrow> w' = w\<lparr>h_tasks := h_tasks w'\<rparr>"
    "store_kept w w' \<Longrightarrow> h_tasks w t = Some c \<Longrightarrow> h_tasks w' t = Some c' \<Longrightarrow> task_kept c c'"
  unfolding store_kept_def by (blast, metis option.inject)

lemma store_kept_refl [simp]: "store_kept w w"
  by (simp add: store_kept_def task_kept_def)

lemma store_kept_trans: "store_kept w w' \<Longrightarrow> store_kept w' w'' \<Longrightarrow> store_kept w w''"
  unfolding store_kept_def by (metis (no_types, lifting) hrc_store.update_convs(1) hrc_store.surjective hrc_store.ext_inject task_kept_trans)

lemma store_kept_upd: "h_tasks w t = Some c \<Longrightarrow> task_kept c c' \<Longrightarrow> store_kept w (w\<lparr>h_tasks := (h_tasks w)(t \<mapsto> c')\<rparr>)"
  by (auto simp: store_kept_def task_kept_def)

lemma task_kept_refl [simp]: "task_kept c c"
  by (simp add: task_kept_def)

lemma master_kept_refl [simp]: "master_kept m m"
  by (simp add: master_kept_def)

lemma master_kept_trans: "master_kept m m' \<Longrightarrow> master_kept m' m'' \<Longrightarrow> master_kept m m''"
  using store_kept_trans by (auto simp: master_kept_def)

lemma upd_task_Inr: "upd_task w t f = Inr w' \<Longrightarrow> \<exists>a c. t = Some a \<and> h_tasks w a = Some c \<and> w' = w\<lparr>h_tasks := (h_tasks w)(a \<mapsto> f c)\<rparr>"
  by (auto simp: upd_task_def upd_def bindR_eq_Inr deref_def split: option.splits)

lemma mupd_kept:
  assumes "mupd m t f = Inr m'" and "\<And>c. task_kept c (f c)"
  shows "master_kept m m'"
  using assms store_kept_upd by (fastforce simp: mupd_def bindR_eq_Inr master_kept_def dest: upd_task_Inr)

lemma set_fields_kept [simp]: "task_kept c (set_state st c)" "task_kept c (set_prio p c)"
  by (simp_all add: task_kept_def links_def)

lemma calc_prior_kept: "calc_prior neg cal m t = Some (Inr m') \<Longrightarrow> master_kept m m'"
  by (auto simp: calc_prior_def bindO_eq_Inr intro: mupd_kept)

lemma sendTask_kept: "sendTask m i t = Inr m' \<Longrightarrow> master_kept m m'"
  by (auto simp: sendTask_def bindR_eq_Inr master_kept_def)

lemma serve_from_kept: "serve_from m t i = Inr (r, m') \<Longrightarrow> master_kept m m'"
proof (induction m t i rule: serve_from.induct)
  case (1 m t i)
  show ?case
  proof (cases "i < length (ms_waitworkers m) \<and> ms_waitworkers m ! i = 1")
    case True
    then have "sendTask (m\<lparr>ms_waitworkers := (ms_waitworkers m)[i := 0]\<rparr>) i t = Inr m'"
      using "1.prems" by (subst (asm) serve_from.simps) (auto simp: bindR_eq_Inr)
    from sendTask_kept [OF this] show ?thesis by (simp add: master_kept_def)
  next
    case False
    then show ?thesis using 1 by (subst (asm) (2) serve_from.simps) (auto split: if_splits)
  qed
qed

lemma serve_kept: "servePendingReq neg cal m t = Some (Inr (r, m')) \<Longrightarrow> master_kept m m'"
  by (auto simp: servePendingReq_def bindO_eq_Inr intro: master_kept_trans calc_prior_kept serve_from_kept)

lemma enqueue_kept: "enqueue m t = Inr m' \<Longrightarrow> master_kept m m'"
  by (auto simp: enqueue_def bindR_eq_Inr dest!: mupd_kept) (simp_all add: master_kept_def)

lemma update_one_kept: "update_one neg cal tq w t = Some (Inr (tq', w')) \<Longrightarrow> store_kept w w'"
  by (auto simp: update_one_def bindO_eq_Inr bindR_eq_Inr LpelTaskheapUpdatePriority_def Let_def set_prior_def upd_def deref_def
      split: if_splits option.splits prod.splits intro!: store_kept_upd)

lemma updatePriorityList_kept:
  assumes "updatePriorityList neg cal tq w p mode = Some (Inr (tq', w'))"
  shows "store_kept w w'"
proof -
  have "\<forall>tq' w'. r = Inr (tq', w') \<longrightarrow> store_kept w w'" if "updatePriorityList neg cal tq w p mode = Some r" for r
    using that
  proof (rule updatePriorityList.raw_induct [rotated])
    fix f neg cal tq w p mode r
    assume IH: "\<And>neg cal tq w p mode r. f neg cal tq w p mode = Some r \<Longrightarrow> \<forall>tq' w'. r = Inr (tq', w') \<longrightarrow> store_kept w w'"
      and "(if p = None then Some (Inr (tq, w))
        else case neighbour w p mode of Inl e \<Rightarrow> Some (Inl e)
          | Inr (t, next) \<Rightarrow> (case update_one neg cal tq w t of None \<Rightarrow> None
              | Some r \<Rightarrow> (case r of Inl e \<Rightarrow> Some (Inl e) | Inr (tq', w') \<Rightarrow> f neg cal tq' w' next mode))) = Some r"
    then show "\<forall>tq' w'. r = Inr (tq', w') \<longrightarrow> store_kept w w'"
      by (auto split: if_splits sum.splits option.splits prod.splits dest!: update_one_kept) (blast intro: store_kept_trans)
  qed
  with assms show ?thesis by blast
qed

lemma Neigh_kept: "updatePriorityNeigh neg cal m t = Some (Inr m') \<Longrightarrow> master_kept m m'"
  by (auto simp: updatePriorityNeigh_def bindO_eq_Inr master_kept_def dest!: updatePriorityList_kept intro: store_kept_trans)

lemma return_ready_kept: "return_ready neg cal m t = Some (Inr m') \<Longrightarrow> master_kept m m'"
  by (auto simp: return_ready_def bindO_eq_Inr split: if_splits dest!: calc_prior_kept serve_kept Neigh_kept enqueue_kept)
     (blast intro: master_kept_trans)+

lemma handle_assign_kept: "handle_assign neg cal m t = Some (Inr m') \<Longrightarrow> master_kept m m'"
  by (auto simp: handle_assign_def bindO_eq_Inr bindR_eq_Inr split: if_splits dest!: serve_kept enqueue_kept mupd_kept
      intro: master_kept_trans)

lemma Destroy_kept: "LpelTaskDestroy w t = Inr w' \<Longrightarrow> store_kept w w'"
  by (auto simp: LpelTaskDestroy_def bindR_eq_Inr store_kept_def free_at_def deref_def task_kept_def split: option.splits if_splits)

text \<open>The record of the task that a message is about keeps its context and its streams.\<close>

definition kept_but :: "masterctx_t \<Rightarrow> workermsg_t \<Rightarrow> masterctx_t \<Rightarrow> bool" where
  "kept_but m msg m' \<longleftrightarrow> ms_store m' = (ms_store m)\<lparr>h_tasks := h_tasks (ms_store m')\<rparr> \<and> ms_terminate m' = ms_terminate m \<and>
     length (ms_waitworkers m') = length (ms_waitworkers m) \<and>
     (\<forall>c c'. h_tasks (ms_store m) (msg_task msg) = Some c \<and> h_tasks (ms_store m') (msg_task msg) = Some c' \<longrightarrow>
        ht_worker_context c' = ht_worker_context c \<and> links c' = links c \<and>
        ht_wakenup c' = (if msg_type msg = WORKER_MSG_WAKEUP \<and> ht_state c \<noteq> TASK_RETURNED then 1
          else if msg_type msg = WORKER_MSG_RETURN \<and> ht_state c = TASK_BLOCKED \<and> ht_wakenup c = 1 then 0 else ht_wakenup c))"

lemma kept_butI:
  assumes "master_kept m m'" and "msg_type msg = WORKER_MSG_WAKEUP \<Longrightarrow> ht_state c = TASK_RETURNED"
    and "msg_type msg = WORKER_MSG_RETURN \<Longrightarrow> ht_state c = TASK_BLOCKED \<Longrightarrow> ht_wakenup c \<noteq> 1" and "h_tasks (ms_store m) (msg_task msg) = Some c"
  shows "kept_but m msg m'"
  using assms store_keptD [of "ms_store m" "ms_store m'"] by (auto simp: kept_but_def master_kept_def task_kept_def)

lemma MasterHandle_kept:
  assumes run: "MasterHandle neg cal m msg = Some (Inr m')" and b: "msg_body msg = BTask (Some t)" and c: "h_tasks (ms_store m) t = Some c"
    and ty: "msg_type msg \<in> {WORKER_MSG_ASSIGN, WORKER_MSG_RETURN, WORKER_MSG_WAKEUP}"
  shows "kept_but m msg m'"
proof -
  have t: "msg_task msg = t" using b by (simp add: msg_task_def)
  consider "msg_type msg = WORKER_MSG_ASSIGN" | "msg_type msg = WORKER_MSG_RETURN" | "msg_type msg = WORKER_MSG_WAKEUP" using ty by blast
  then show ?thesis
  proof cases
    case 1
    then have "handle_assign neg cal m (Some t) = Some (Inr m')" using run b by (simp add: MasterHandle_def body_task_def)
    from handle_assign_kept [OF this] c t 1 show ?thesis by (intro kept_butI [where c = c]) (auto simp: msg_types)
  next
    case 2
    then have h: "handle_return neg cal m (Some t) = Some (Inr m')" using run b by (simp add: MasterHandle_def body_task_def msg_types)
    show ?thesis
    proof (cases "ht_state c = TASK_BLOCKED \<and> ht_wakenup c = 1")
      case True
      let ?w = "(ms_store m)\<lparr>h_tasks := (h_tasks (ms_store m))(t \<mapsto> c\<lparr>ht_wakenup := 0, ht_state := TASK_READY\<rparr>)\<rparr>"
      have "return_ready neg cal (m\<lparr>ms_store := ?w\<rparr>) (Some t) = Some (Inr m')"
        using h c True by (simp add: handle_return_def mupd_def)
      from return_ready_kept [OF this] have k: "store_kept ?w (ms_store m')" "ms_terminate m' = ms_terminate m"
        "length (ms_waitworkers m') = length (ms_waitworkers m)" by (simp_all add: master_kept_def)
      from store_keptD(1) [OF k(1)] have "ms_store m' = (ms_store m)\<lparr>h_tasks := h_tasks (ms_store m')\<rparr>" by simp
      moreover have "task_kept (c\<lparr>ht_wakenup := 0, ht_state := TASK_READY\<rparr>) c'" if "h_tasks (ms_store m') t = Some c'" for c'
        using store_keptD(2) [OF k(1) _ that] by simp
      ultimately show ?thesis using c t True 2 k(2,3)
        unfolding kept_but_def by (auto simp: task_kept_def links_def msg_types)
    next
      case False
      then have "master_kept m m'"
        using h c by (auto simp: handle_return_def bindO_eq_Inr bindR_eq_Inr split: if_splits dest!: Destroy_kept Neigh_kept return_ready_kept mupd_kept
          intro: master_kept_trans store_kept_trans simp: master_kept_def)
      then show ?thesis using c t False 2 by (intro kept_butI [where c = c]) (auto simp: msg_types)
    qed
  next
    case 3
    then have h: "handle_wakeup neg cal m (Some t) = Some (Inr m')" using run b by (simp add: MasterHandle_def body_task_def msg_types)
    show ?thesis
    proof (cases "ht_state c = TASK_RETURNED")
      case True
      then have "master_kept m m'"
        using h c by (auto simp: handle_wakeup_def bindO_eq_Inr split: if_splits dest!: mupd_kept calc_prior_kept serve_kept enqueue_kept)
          (blast intro: master_kept_trans)+
      then show ?thesis using c t True 3 by (intro kept_butI [where c = c]) (auto simp: msg_types)
    next
      case False
      then show ?thesis using h c t 3 by (auto simp: handle_wakeup_def mupd_def kept_but_def links_def)
    qed
  qed
qed

section \<open>Places\<close>

text \<open>
  \<open>Calm\<close>, \<open>Wanted\<close>, \<open>Woken\<close>: a task that has not announced to block, that has and waits for its wakeup, and that has been
  woken. A thread is at the head of its loop (\<open>HRecv\<close>), has switched to a task, is back from it, or has ended.
\<close>

datatype hwake = Calm | Wanted | Woken

datatype hctl = HRecv | HTask addr | HBack addr | HOver

text \<open>
  A task of the workers is in an assignment to the master, in its queue, in an assignment to a worker, running, back in the
  loop of a worker, in a message that returns it, or parked; a task of a wrapper stays with its wrapper.
\<close>

datatype hplace = PNew | PQueue | PSent addr | PRun addr | PLeft addr | PRet | PPark
  | WNew addr | WReady addr | WRun addr | WBlocked addr | WDone addr

type_synonym hplaces = "addr \<Rightarrow> hplace option"

definition tasks_in :: "hplaces \<Rightarrow> hplace \<Rightarrow> addr set" where
  "tasks_in L p = {t. L t = Some p}"

fun seat :: "hplace \<Rightarrow> addr option" where
  "seat (PSent a) = Some a" | "seat (PRun a) = Some a" | "seat (PLeft a) = Some a" | "seat _ = None"

fun host :: "hplace \<Rightarrow> addr option" where
  "host (WNew a) = Some a" | "host (WReady a) = Some a" | "host (WRun a) = Some a" | "host (WBlocked a) = Some a"
| "host (WDone a) = Some a" | "host _ = None"

definition hosted :: "hplaces \<Rightarrow> addr \<Rightarrow> addr set" where
  "hosted L a = {t. \<exists>p. L t = Some p \<and> host p = Some a}"

text \<open>A task that has left all its streams.\<close>

definition closed_task :: "hrc_store \<Rightarrow> addr \<Rightarrow> hrc_task_t \<Rightarrow> bool" where
  "closed_task w t c \<longleftrightarrow> links c = (None, None) \<and> (\<forall>d sd. h_sds w d = Some sd \<longrightarrow> sd_task sd \<noteq> Some t)"

definition stopped :: "hrc_store \<Rightarrow> addr \<Rightarrow> hwake \<Rightarrow> hrc_task_t \<Rightarrow> bool" where
  "stopped w t x c \<longleftrightarrow>
     ht_state c = TASK_READY \<and> x = Calm \<and> ht_wakenup c = 0 \<or>
     ht_state c = TASK_BLOCKED \<and> x \<noteq> Calm \<and> (ht_wakenup c = 0 \<or> ht_wakenup c = 1 \<and> x = Woken) \<or>
     ht_state c = TASK_ZOMBIE \<and> x = Calm \<and> ht_wakenup c = 0 \<and> closed_task w t c"

fun htask_ok :: "hrc_store \<Rightarrow> addr \<Rightarrow> hplace \<Rightarrow> hwake \<Rightarrow> hrc_task_t \<Rightarrow> bool" where
  "htask_ok w t PNew x c = (ht_state c = TASK_CREATED \<and> ht_worker_context c = None \<and> ht_wakenup c = 0 \<and> x = Calm)"
| "htask_ok w t PQueue x c = (ht_state c = TASK_INQUEUE \<and> ht_worker_context c = None \<and> ht_wakenup c = 0 \<and> x \<noteq> Wanted)"
| "htask_ok w t (PSent a) x c = (ht_state c = TASK_READY \<and> ht_worker_context c = None \<and> ht_wakenup c = 0 \<and> x \<noteq> Wanted)"
| "htask_ok w t (PRun a) x c = (ht_state c = TASK_RUNNING \<and> ht_worker_context c = Some a \<and> (ht_wakenup c = 0 \<or> ht_wakenup c = 1 \<and> x = Woken))"
| "htask_ok w t (PLeft a) x c = (ht_worker_context c = Some a \<and> stopped w t x c)"
| "htask_ok w t PRet x c = (ht_worker_context c = None \<and> stopped w t x c)"
| "htask_ok w t PPark x c = (ht_state c = TASK_RETURNED \<and> ht_worker_context c = None \<and> ht_wakenup c = 0 \<and> x \<noteq> Calm)"
| "htask_ok w t (WNew a) x c = (ht_state c = TASK_CREATED \<and> ht_worker_context c = Some a \<and> ht_wakenup c = 0 \<and> x = Calm)"
| "htask_ok w t (WReady a) x c = (ht_state c = TASK_READY \<and> ht_worker_context c = Some a \<and> ht_wakenup c = 0 \<and> x \<noteq> Wanted)"
| "htask_ok w t (WRun a) x c = (ht_state c = TASK_RUNNING \<and> ht_worker_context c = Some a \<and> ht_wakenup c = 0)"
| "htask_ok w t (WBlocked a) x c = (ht_state c = TASK_BLOCKED \<and> ht_worker_context c = Some a \<and> ht_wakenup c = 0 \<and> x \<noteq> Calm)"
| "htask_ok w t (WDone a) x c = (ht_state c = TASK_ZOMBIE \<and> ht_worker_context c = Some a \<and> ht_wakenup c = 0 \<and> x = Calm \<and> closed_task w t c)"

definition tasks_part :: "hrc_store \<Rightarrow> hplaces \<Rightarrow> (addr \<Rightarrow> hwake) \<Rightarrow> bool" where
  "tasks_part w L wake \<longleftrightarrow> (\<forall>t. case L t of None \<Rightarrow> h_tasks w t = None \<and> wake t = Calm
     | Some p \<Rightarrow> (\<exists>c. h_tasks w t = Some c \<and> htask_ok w t p (wake t) c))"

text \<open>The wakeups on their way to the master.\<close>

fun awaits :: "hplace \<Rightarrow> bool" where
  "awaits (PRun a) = True" | "awaits (PLeft a) = True" | "awaits PRet = True" | "awaits PPark = True" | "awaits _ = False"

definition signalled :: "hrc_tasks \<Rightarrow> hplaces \<Rightarrow> (addr \<Rightarrow> hwake) \<Rightarrow> addr set" where
  "signalled h L wake = {t. \<exists>p c. L t = Some p \<and> awaits p \<and> wake t = Woken \<and> h t = Some c \<and> ht_wakenup c = 0}"

definition msgs :: "int \<Rightarrow> workermsg_t list \<Rightarrow> addr list" where
  "msgs ty ms = map msg_task (filter (\<lambda>m. msg_type m = ty) ms)"

definition reqs :: "workermsg_t list \<Rightarrow> nat list" where
  "reqs ms = map msg_worker (filter (\<lambda>m. msg_type m = WORKER_MSG_REQUEST) ms)"

definition hmsg_ok :: "nat \<Rightarrow> workermsg_t \<Rightarrow> bool" where
  "hmsg_ok n m \<longleftrightarrow> msg_type m = WORKER_MSG_REQUEST \<and> (\<exists>i < n. msg_body m = BFromWorker (int i)) \<or> msg_type m = WORKER_MSG_TERMINATE \<or>
     msg_type m \<in> {WORKER_MSG_ASSIGN, WORKER_MSG_RETURN, WORKER_MSG_WAKEUP} \<and> (\<exists>t. msg_body m = BTask (Some t))"

definition mb_part :: "nat \<Rightarrow> hrc_tasks \<Rightarrow> hplaces \<Rightarrow> (addr \<Rightarrow> hwake) \<Rightarrow> workermsg_t list \<Rightarrow> bool" where
  "mb_part n h L wake mb \<longleftrightarrow> (\<forall>m \<in> set mb. hmsg_ok n m) \<and>
     distinct (msgs WORKER_MSG_ASSIGN mb) \<and> set (msgs WORKER_MSG_ASSIGN mb) = tasks_in L PNew \<and>
     distinct (msgs WORKER_MSG_RETURN mb) \<and> set (msgs WORKER_MSG_RETURN mb) = tasks_in L PRet \<and>
     distinct (msgs WORKER_MSG_WAKEUP mb) \<and> set (msgs WORKER_MSG_WAKEUP mb) = signalled h L wake"

abbreviation term_msg :: workermsg_t where
  "term_msg \<equiv> \<lparr>msg_type = WORKER_MSG_TERMINATE, msg_body = BNone\<rparr>"

text \<open>
  A worker: \<open>mbx\<close> is its mailbox, \<open>n\<close> the number of its requests the master has not read, \<open>idle\<close> tells whether the master
  has recorded it as waiting. Unless it runs a task, a worker has asked for exactly one.
\<close>

definition worker_ok :: "addr \<Rightarrow> nat \<Rightarrow> workermsg_t list \<Rightarrow> nat \<Rightarrow> bool \<Rightarrow> bool \<Rightarrow> hplaces \<Rightarrow> hctl \<Rightarrow> workerctx_t \<Rightarrow> bool" where
  "worker_ok a i mbx n idle over L x k \<longleftrightarrow> wc_wid k = int i \<and>
     (\<exists>ts. mbx = map assign_msg ts @ (if over \<and> x \<noteq> HOver then [term_msg] else []) \<and> distinct ts \<and> set ts = tasks_in L (PSent a) \<and>
        n + of_bool idle + length ts = (case x of HTask t \<Rightarrow> 0 | _ \<Rightarrow> 1)) \<and>
     (x = HOver \<longrightarrow> over \<and> tasks_in L (PSent a) = {}) \<and>
     wc_terminate k = of_bool (x = HOver) \<and> wc_current_task k = (case x of HTask t \<Rightarrow> Some t | _ \<Rightarrow> None) \<and>
     tasks_in L (PRun a) = (case x of HTask t \<Rightarrow> {t} | _ \<Rightarrow> {}) \<and> tasks_in L (PLeft a) = (case x of HBack t \<Rightarrow> {t} | _ \<Rightarrow> {})"

definition wake_box :: "hwake \<Rightarrow> addr \<Rightarrow> workermsg_t list" where
  "wake_box x t = (if x = Woken then [task_msg WORKER_MSG_WAKEUP (Some t)] else [])"

fun wrap_state :: "hplace \<Rightarrow> addr \<Rightarrow> hwake \<Rightarrow> hctl \<Rightarrow> workerctx_t \<Rightarrow> bool" where
  "wrap_state (WNew a) t u x k = (x = HRecv \<and> wc_current_task k = None \<and> wc_mailbox k = [assign_msg t] \<and> wc_terminate k = 0)"
| "wrap_state (WReady a) t u x k = (x \<in> {HRecv, HBack t} \<and> wc_current_task k = Some t \<and> wc_mailbox k = [] \<and> wc_terminate k = 0)"
| "wrap_state (WRun a) t u x k = (x = HTask t \<and> wc_current_task k = Some t \<and> wc_mailbox k = wake_box u t \<and> wc_terminate k = 0)"
| "wrap_state (WBlocked a) t u x k = (x \<in> {HRecv, HBack t} \<and> wc_current_task k = None \<and> wc_mailbox k = wake_box u t \<and> wc_terminate k = 0)"
| "wrap_state (WDone a) t u x k = (x = HBack t \<and> wc_current_task k = Some t \<and> wc_mailbox k = [] \<and> wc_terminate k = 1)"
| "wrap_state p t u x k = False"

definition wrapper_ok :: "addr \<Rightarrow> hplaces \<Rightarrow> (addr \<Rightarrow> hwake) \<Rightarrow> hctl \<Rightarrow> workerctx_t \<Rightarrow> bool" where
  "wrapper_ok a L wake x k \<longleftrightarrow> wc_wid k < 0 \<and>
     (x = HOver \<and> hosted L a = {} \<and> wc_mailbox k = [] \<or>
      (\<exists>t p. hosted L a = {t} \<and> L t = Some p \<and> wrap_state p t (wake t) x k))"

definition workers_part :: "hrc_sys \<Rightarrow> (addr \<Rightarrow> hctl) \<Rightarrow> bool \<Rightarrow> hplaces \<Rightarrow> bool" where
  "workers_part s ctl over L \<longleftrightarrow> (\<forall>i < length (hy_table s). \<exists>k. hy_workers s (hy_table s ! i) = Some k \<and>
     worker_ok (hy_table s ! i) i (ms_workermbs (hy_master s) ! i) (count_list (reqs (hy_mastermb s)) i) (i \<in> waiting (hy_master s))
       over L (ctl (hy_table s ! i)) k)"

definition wrappers_part :: "hrc_sys \<Rightarrow> (addr \<Rightarrow> hctl) \<Rightarrow> (addr \<Rightarrow> hwake) \<Rightarrow> hplaces \<Rightarrow> bool" where
  "wrappers_part s ctl wake L \<longleftrightarrow> (\<forall>a. a \<notin> set (hy_table s) \<longrightarrow>
     (case hy_workers s a of None \<Rightarrow> ctl a = HOver \<and> hosted L a = {} | Some k \<Rightarrow> wrapper_ok a L wake (ctl a) k))"

definition seats_part :: "hrc_sys \<Rightarrow> hplaces \<Rightarrow> bool" where
  "seats_part s L \<longleftrightarrow> (\<forall>t p a. L t = Some p \<longrightarrow> (seat p = Some a \<longrightarrow> a \<in> set (hy_table s)) \<and> (host p = Some a \<longrightarrow> a \<notin> set (hy_table s)))"

definition free_part :: "hrc_sys \<Rightarrow> (addr \<Rightarrow> hctl) \<Rightarrow> bool" where
  "free_part s ctl \<longleftrightarrow> (\<exists>fs. nlist (fld wc_next (hy_workers s)) (hy_free s) fs \<and>
     set fs = {a. a \<in> dom (hy_workers s) \<and> a \<notin> set (hy_table s) \<and> ctl a = HOver})"

text \<open>The parameter \<open>dl\<close> says that there is no demand limit; then a worker waits only while no task is queued.\<close>

definition hplaced :: "bool \<Rightarrow> hrc_sys \<Rightarrow> (addr \<Rightarrow> hctl) \<Rightarrow> (addr \<Rightarrow> hwake) \<Rightarrow> bool \<Rightarrow> hplaces \<Rightarrow> bool" where
  "hplaced dl s ctl wake over L \<longleftrightarrow>
     master_ok dl (hy_master s) (tasks_in L PQueue) (waiting (hy_master s)) \<and> (dl \<longrightarrow> tasks_in L PQueue = {} \<or> waiting (hy_master s) = {}) \<and>
     length (ms_waitworkers (hy_master s)) = length (hy_table s) \<and> distinct (hy_table s) \<and>
     tasks_part (hy_store s) L wake \<and> mb_part (length (hy_table s)) (h_tasks (hy_store s)) L wake (hy_mastermb s) \<and>
     workers_part s ctl over L \<and> wrappers_part s ctl wake L \<and> seats_part s L \<and> free_part s ctl"

subsection \<open>Moving one task\<close>

lemma tasks_in_upd [simp]: "tasks_in (L(t \<mapsto> p')) p = (if p = p' then insert t (tasks_in L p) else tasks_in L p - {t})"
  by (auto simp: tasks_in_def)

lemma tasks_in_other: "L t = Some q \<Longrightarrow> p \<noteq> q \<Longrightarrow> tasks_in L p - {t} = tasks_in L p"
  by (auto simp: tasks_in_def)

lemma in_tasks: "L t = Some q \<Longrightarrow> t \<in> tasks_in L p \<longleftrightarrow> p = q"
  by (auto simp: tasks_in_def)

lemma hosted_upd [simp]: "hosted (L(t \<mapsto> p')) a = (if host p' = Some a then insert t (hosted L a) else hosted L a - {t})"
  by (auto simp: hosted_def)

lemma in_hosted: "L t = Some p \<Longrightarrow> t \<in> hosted L a \<longleftrightarrow> host p = Some a"
  by (auto simp: hosted_def)

lemma htask_ok_tasks [simp]: "htask_ok (w\<lparr>h_tasks := h\<rparr>) t p x c = htask_ok w t p x c"
  by (cases p) (simp_all add: stopped_def closed_task_def)

lemma signalled_upd [simp]:
  "signalled (h(t \<mapsto> c)) (L(t \<mapsto> p)) (wake(t := x)) =
     (if awaits p \<and> x = Woken \<and> ht_wakenup c = 0 then insert t (signalled h L wake) else signalled h L wake - {t})"
  by (auto simp: signalled_def)

lemma tasks_part_upd:
  assumes "tasks_part w L wake" and "htask_ok w t p x c"
  shows "tasks_part (w\<lparr>h_tasks := (h_tasks w)(t \<mapsto> c)\<rparr>) (L(t \<mapsto> p)) (wake(t := x))"
  unfolding tasks_part_def
proof
  fix u
  from assms(1) have "case L u of None \<Rightarrow> h_tasks w u = None \<and> wake u = Calm | Some p \<Rightarrow> (\<exists>c. h_tasks w u = Some c \<and> htask_ok w u p (wake u) c)"
    by (simp add: tasks_part_def)
  then show "case (L(t \<mapsto> p)) u of None \<Rightarrow> h_tasks (w\<lparr>h_tasks := (h_tasks w)(t \<mapsto> c)\<rparr>) u = None \<and> (wake(t := x)) u = Calm
      | Some p \<Rightarrow> (\<exists>ca. h_tasks (w\<lparr>h_tasks := (h_tasks w)(t \<mapsto> c)\<rparr>) u = Some ca \<and>
          htask_ok (w\<lparr>h_tasks := (h_tasks w)(t \<mapsto> c)\<rparr>) u p ((wake(t := x)) u) ca)"
    using assms(2) by (auto split: option.splits)
qed

lemma tasks_partD:
  assumes "tasks_part w L wake" and "L t = Some p"
  obtains c where "h_tasks w t = Some c" "htask_ok w t p (wake t) c"
proof -
  from assms(1) have "case L t of None \<Rightarrow> h_tasks w t = None \<and> wake t = Calm | Some p \<Rightarrow> (\<exists>c. h_tasks w t = Some c \<and> htask_ok w t p (wake t) c)"
    by (simp add: tasks_part_def)
  with assms(2) that show ?thesis by auto
qed

lemma tasks_part_None:
  assumes "tasks_part w L wake" and "L t = None"
  shows "h_tasks w t = None" "wake t = Calm"
proof -
  from assms(1) have "case L t of None \<Rightarrow> h_tasks w t = None \<and> wake t = Calm | Some p \<Rightarrow> (\<exists>c. h_tasks w t = Some c \<and> htask_ok w t p (wake t) c)"
    by (simp add: tasks_part_def)
  with assms(2) show "h_tasks w t = None" "wake t = Calm" by simp_all
qed

lemma tasks_part_unused:
  assumes "tasks_part w L wake" and "h_tasks w t = None"
  shows "L t = None"
proof (rule ccontr)
  assume "L t \<noteq> None"
  then obtain p where "L t = Some p" by blast
  from tasks_partD [of w L wake t, OF assms(1) this] assms(2) show False by simp
qed

lemma msgs_simps [simp]: "msgs ty [] = []" "msgs ty (m # ms) = (if msg_type m = ty then msg_task m # msgs ty ms else msgs ty ms)"
    "msgs ty (ms @ ms') = msgs ty ms @ msgs ty ms'"
  by (simp_all add: msgs_def)

lemma reqs_simps [simp]: "reqs [] = []" "reqs (m # ms) = (if msg_type m = WORKER_MSG_REQUEST then msg_worker m # reqs ms else reqs ms)"
    "reqs (ms @ ms') = reqs ms @ reqs ms'"
  by (simp_all add: reqs_def)

lemma count_list_snoc [simp]: "count_list (xs @ ys) x = count_list xs x + count_list ys x"
  by (induction xs) auto

lemma worker_ok_cong:
  assumes "tasks_in L' (PSent b) = tasks_in L (PSent b)" "tasks_in L' (PRun b) = tasks_in L (PRun b)" "tasks_in L' (PLeft b) = tasks_in L (PLeft b)"
  shows "worker_ok b i mbx n idle over L' x k = worker_ok b i mbx n idle over L x k"
  by (simp add: worker_ok_def assms)

lemma wrapper_ok_cong:
  assumes "hosted L' b = hosted L b" and "\<And>u. u \<in> hosted L b \<Longrightarrow> L' u = L u \<and> wake' u = wake u" and "wrapper_ok b L wake x k"
  shows "wrapper_ok b L' wake' x k"
proof (cases "x = HOver \<and> hosted L b = {} \<and> wc_mailbox k = []")
  case True
  then show ?thesis using assms(1,3) by (simp add: wrapper_ok_def)
next
  case False
  then obtain t p where t: "hosted L b = {t}" "L t = Some p" "wrap_state p t (wake t) x k" using assms(3) by (auto simp: wrapper_ok_def)
  then have "L' t = Some p" "wake' t = wake t" using assms(2) [of t] by simp_all
  then show ?thesis using assms(1,3) t by (auto simp: wrapper_ok_def)
qed

lemma wrappers_partD:
  assumes "wrappers_part s ctl wake L" and "a \<notin> set (hy_table s)"
  shows "hy_workers s a = None \<Longrightarrow> ctl a = HOver \<and> hosted L a = {}" "hy_workers s a = Some k \<Longrightarrow> wrapper_ok a L wake (ctl a) k"
proof -
  from assms have "case hy_workers s a of None \<Rightarrow> ctl a = HOver \<and> hosted L a = {} | Some k \<Rightarrow> wrapper_ok a L wake (ctl a) k"
    by (simp add: wrappers_part_def)
  then show "hy_workers s a = None \<Longrightarrow> ctl a = HOver \<and> hosted L a = {}" "hy_workers s a = Some k \<Longrightarrow> wrapper_ok a L wake (ctl a) k" by simp_all
qed

lemma wrappers_partI:
  assumes "\<And>a. a \<notin> set (hy_table s) \<Longrightarrow> hy_workers s a = None \<Longrightarrow> ctl a = HOver \<and> hosted L a = {}"
    and "\<And>a k. a \<notin> set (hy_table s) \<Longrightarrow> hy_workers s a = Some k \<Longrightarrow> wrapper_ok a L wake (ctl a) k"
  shows "wrappers_part s ctl wake L"
  using assms by (auto simp: wrappers_part_def split: option.splits)

lemma master_ok_cong:
  assumes "master_ok dl m S W" and "ms_ready_tasks m' = ms_ready_tasks m" "ms_store m' = ms_store m" "ms_waitworkers m' = ms_waitworkers m"
    "length (ms_workermbs m') = length (ms_workermbs m)"
  shows "master_ok dl m' S W"
  using assms by (simp add: master_ok_def waiting_def)

lemma moved_elsewhere:
  assumes L: "L t = Some p" and pl: "p' = p \<or> (\<forall>b. seat p = Some b \<or> host p = Some b \<or> seat p' = Some b \<or> host p' = Some b \<longrightarrow> b = a)" and b: "b \<noteq> a"
  shows "tasks_in (L(t \<mapsto> p')) (PSent b) = tasks_in L (PSent b)" "tasks_in (L(t \<mapsto> p')) (PRun b) = tasks_in L (PRun b)"
    "tasks_in (L(t \<mapsto> p')) (PLeft b) = tasks_in L (PLeft b)" "hosted (L(t \<mapsto> p')) b = hosted L b"
    "u \<in> hosted L b \<Longrightarrow> (L(t \<mapsto> p')) u = L u"
proof -
  have idem: "p' = p \<Longrightarrow> L(t \<mapsto> p') = L" using L by (simp add: fun_upd_idem)
  have ne: "p' \<noteq> p \<Longrightarrow> seat r = Some b \<or> host r = Some b \<Longrightarrow> p' \<noteq> r \<and> p \<noteq> r" for r using pl b by metis
  have ti: "tasks_in (L(t \<mapsto> p')) r = tasks_in L r" if "seat r = Some b" for r
    using idem ne [of r] that tasks_in_other [of L t p r, OF L] by (cases "p' = p") auto
  show "tasks_in (L(t \<mapsto> p')) (PSent b) = tasks_in L (PSent b)" "tasks_in (L(t \<mapsto> p')) (PRun b) = tasks_in L (PRun b)"
    "tasks_in (L(t \<mapsto> p')) (PLeft b) = tasks_in L (PLeft b)" by (rule ti, simp)+
  have hp: "p' \<noteq> p \<Longrightarrow> host p' \<noteq> Some b \<and> host p \<noteq> Some b" using ne by blast
  then show "hosted (L(t \<mapsto> p')) b = hosted L b"
    using idem in_hosted [of L t p b, OF L] by (cases "p' = p") auto
  show "u \<in> hosted L b \<Longrightarrow> (L(t \<mapsto> p')) u = L u"
    using idem hp in_hosted [of L t p b, OF L] by (cases "p' = p") auto
qed

lemma hplaced_move:
  assumes H: "hplaced dl s ctl wake over L" and L: "L t = Some p" and c: "h_tasks (hy_store s) t = Some c"
    and q: "p \<noteq> PQueue" "p' \<noteq> PQueue" and c': "links c' = links c" "htask_ok (hy_store s) t p' x c'" "ht_state c \<noteq> TASK_INQUEUE" "ht_state c' \<noteq> TASK_INQUEUE"
    and k: "hy_workers s a = Some k" "wc_next k' = wc_next k"
    and s': "hy_table s' = hy_table s" "hy_free s' = hy_free s" "hy_workers s' = (hy_workers s)(a \<mapsto> k')"
      "hy_store s' = (hy_store s)\<lparr>h_tasks := (h_tasks (hy_store s))(t \<mapsto> c')\<rparr>" "ms_ready_tasks (hy_master s') = ms_ready_tasks (hy_master s)"
      "ms_waitworkers (hy_master s') = ms_waitworkers (hy_master s)" "length (ms_workermbs (hy_master s')) = length (ms_workermbs (hy_master s))"
    and pl: "p' = p \<or> (\<forall>b. seat p = Some b \<or> host p = Some b \<or> seat p' = Some b \<or> host p' = Some b \<longrightarrow> b = a)"
      "seat p' \<noteq> None \<Longrightarrow> p' \<noteq> p \<Longrightarrow> a \<in> set (hy_table s)" "host p' \<noteq> None \<Longrightarrow> p' \<noteq> p \<Longrightarrow> a \<notin> set (hy_table s)" "x = wake t \<or> host p = None \<or> host p = Some a"
    and mb: "mb_part (length (hy_table s)) ((h_tasks (hy_store s))(t \<mapsto> c')) (L(t \<mapsto> p')) (wake(t := x)) (hy_mastermb s')"
    and wk: "\<And>i. i < length (hy_table s) \<Longrightarrow> hy_table s ! i = a \<Longrightarrow> worker_ok a i (ms_workermbs (hy_master s') ! i)
      (count_list (reqs (hy_mastermb s')) i) (i \<in> waiting (hy_master s)) over (L(t \<mapsto> p')) y k'"
    and wr: "a \<notin> set (hy_table s) \<Longrightarrow> wrapper_ok a (L(t \<mapsto> p')) (wake(t := x)) y k' \<and> (y = HOver \<longleftrightarrow> ctl a = HOver)"
    and oth: "\<And>i. i < length (hy_table s) \<Longrightarrow> hy_table s ! i \<noteq> a \<Longrightarrow> ms_workermbs (hy_master s') ! i = ms_workermbs (hy_master s) ! i \<and>
      count_list (reqs (hy_mastermb s')) i = count_list (reqs (hy_mastermb s)) i"
  shows "hplaced dl s' (ctl(a := y)) (wake(t := x)) over (L(t \<mapsto> p'))"
proof -
  let ?L = "L(t \<mapsto> p')" and ?ctl = "ctl(a := y)" and ?wake = "wake(t := x)"
  note H' = H [unfolded hplaced_def]
  have W: "waiting (hy_master s') = waiting (hy_master s)" using s'(6) by (simp add: waiting_def)
  have Q: "tasks_in ?L PQueue = tasks_in L PQueue" using q tasks_in_other [of L t p PQueue, OF L] by auto
  have "master_ok dl ((hy_master s)\<lparr>ms_store := hy_store s'\<rparr>) (tasks_in L PQueue) (waiting (hy_master s))"
    unfolding s'(4) using H' c c' by (intro state_upd_ok [where c = c]) auto
  then have m: "master_ok dl (hy_master s') (tasks_in ?L PQueue) (waiting (hy_master s'))" unfolding Q W by (rule master_ok_cong) (simp_all add: s')
  note away = moved_elsewhere [of L t p, OF L pl(1)]
  have "workers_part s' ?ctl over ?L" unfolding workers_part_def
  proof (intro allI impI)
    fix i assume i: "i < length (hy_table s')"
    show "\<exists>k. hy_workers s' (hy_table s' ! i) = Some k \<and> worker_ok (hy_table s' ! i) i (ms_workermbs (hy_master s') ! i)
        (count_list (reqs (hy_mastermb s')) i) (i \<in> waiting (hy_master s')) over ?L (?ctl (hy_table s' ! i)) k"
    proof (cases "hy_table s ! i = a")
      case True
      then show ?thesis using wk [of i] i s'(1,3) W by simp
    next
      case False
      have "i < length (hy_table s)" using i s'(1) by simp
      with H' obtain k where "hy_workers s (hy_table s ! i) = Some k" "worker_ok (hy_table s ! i) i (ms_workermbs (hy_master s) ! i)
          (count_list (reqs (hy_mastermb s)) i) (i \<in> waiting (hy_master s)) over L (ctl (hy_table s ! i)) k"
        unfolding workers_part_def by blast
      then show ?thesis using False oth [of i] i s'(1,3) W worker_ok_cong [OF away(1-3) [OF False]] by simp
    qed
  qed
  moreover have "wrappers_part s' ?ctl ?wake ?L"
  proof (rule wrappers_partI)
    fix b assume b: "b \<notin> set (hy_table s')" "hy_workers s' b = None"
    then have "b \<noteq> a" "hy_workers s b = None" using s'(3) by (auto split: if_splits)
    then show "?ctl b = HOver \<and> hosted ?L b = {}" using wrappers_partD(1) [of s ctl wake L b] H' b(1) s'(1) away(4) [of b] by simp
  next
    fix b j assume b: "b \<notin> set (hy_table s')" "hy_workers s' b = Some j"
    show "wrapper_ok b ?L ?wake (?ctl b) j"
    proof (cases "b = a")
      case True
      then show ?thesis using wr b s'(1,3) by simp
    next
      case False
      have "wrapper_ok b L wake (ctl b) j" using wrappers_partD(2) [of s ctl wake L b j] H' b False s'(1,3) by simp
      then have "wrapper_ok b ?L ?wake (ctl b) j"
      proof (rule wrapper_ok_cong [OF away(4) [OF False], rotated])
        fix u assume u: "u \<in> hosted L b"
        then have "u = t \<Longrightarrow> host p = Some b" using in_hosted [of L t p b, OF L] by simp
        then have "?wake u = wake u" using pl(4) False by auto
        then show "?L u = L u \<and> ?wake u = wake u" using away(5) [OF False u] by blast
      qed
      then show ?thesis using False by simp
    qed
  qed
  moreover have "seats_part s' ?L" unfolding seats_part_def s'(1)
  proof (intro allI impI)
    fix u r b assume u: "?L u = Some r"
    have old: "L u = Some r \<Longrightarrow> (seat r = Some b \<longrightarrow> b \<in> set (hy_table s)) \<and> (host r = Some b \<longrightarrow> b \<notin> set (hy_table s))"
      using H' unfolding seats_part_def by metis
    show "(seat r = Some b \<longrightarrow> b \<in> set (hy_table s)) \<and> (host r = Some b \<longrightarrow> b \<notin> set (hy_table s))"
    proof (cases "u = t \<and> p' \<noteq> p")
      case True
      then have "r = p'" using u by simp
      then show ?thesis using True pl(1-3) by auto
    next
      case False
      then have "L u = Some r" using u L by (auto split: if_splits)
      then show ?thesis by (rule old)
    qed
  qed
  moreover have "free_part s' ?ctl"
  proof -
    have "fld wc_next (hy_workers s') = fld wc_next (hy_workers s)" using k s'(3) by (auto simp: fld_def)
    moreover have "dom (hy_workers s') = dom (hy_workers s)" using k(1) s'(3) by auto
    moreover have "b \<notin> set (hy_table s) \<Longrightarrow> (?ctl b = HOver) = (ctl b = HOver)" for b using wr by auto
    ultimately show ?thesis using H' s'(1,2) unfolding free_part_def by (simp cong: conj_cong)
  qed
  moreover have "tasks_part (hy_store s') ?L ?wake" unfolding s'(4) using H' c'(2) by (intro tasks_part_upd) simp_all
  ultimately show ?thesis unfolding hplaced_def using H' m mb s' Q W by simp
qed

subsection \<open>The mailbox of the master\<close>

lemma msg_ty_neq [simp]:
  "WORKER_MSG_ASSIGN \<noteq> WORKER_MSG_REQUEST" "WORKER_MSG_RETURN \<noteq> WORKER_MSG_REQUEST" "WORKER_MSG_WAKEUP \<noteq> WORKER_MSG_REQUEST"
  "WORKER_MSG_TERMINATE \<noteq> WORKER_MSG_REQUEST" "WORKER_MSG_ASSIGN \<noteq> WORKER_MSG_RETURN" "WORKER_MSG_ASSIGN \<noteq> WORKER_MSG_WAKEUP"
  "WORKER_MSG_ASSIGN \<noteq> WORKER_MSG_TERMINATE" "WORKER_MSG_RETURN \<noteq> WORKER_MSG_WAKEUP" "WORKER_MSG_RETURN \<noteq> WORKER_MSG_TERMINATE"
  "WORKER_MSG_WAKEUP \<noteq> WORKER_MSG_TERMINATE"
  by (simp_all add: msg_types)

lemmas msg_ty_neqs [simp] = msg_ty_neq [symmetric]

lemma in_signalled: "L t = Some p \<Longrightarrow> h t = Some c \<Longrightarrow> t \<in> signalled h L wake \<longleftrightarrow> awaits p \<and> wake t = Woken \<and> ht_wakenup c = 0"
  by (auto simp: signalled_def)

lemma mb_part_move:
  assumes mb: "mb_part n h L wake mb" and t: "L t = Some p" "h t = Some c" and p: "p \<notin> {PNew, PRet}" "p' \<notin> {PNew, PRet}"
    and sg: "awaits p' \<and> x = Woken \<and> ht_wakenup c' = 0 \<longleftrightarrow> awaits p \<and> wake t = Woken \<and> ht_wakenup c = 0"
  shows "mb_part n (h(t \<mapsto> c')) (L(t \<mapsto> p')) (wake(t := x)) mb"
proof -
  have "t \<in> signalled h L wake \<longleftrightarrow> awaits p' \<and> x = Woken \<and> ht_wakenup c' = 0"
    using in_signalled [of L t p h c wake, OF t] sg by blast
  then have "signalled (h(t \<mapsto> c')) (L(t \<mapsto> p')) (wake(t := x)) = signalled h L wake" by auto
  moreover have "tasks_in (L(t \<mapsto> p')) r = tasks_in L r" if "r \<in> {PNew, PRet}" for r
    using that p tasks_in_other [of L t p r, OF t(1)] by auto
  ultimately show ?thesis using mb by (simp add: mb_part_def)
qed

lemma hmsg_ok_simps [simp]:
  "hmsg_ok n \<lparr>msg_type = WORKER_MSG_REQUEST, msg_body = BFromWorker (int i)\<rparr> \<longleftrightarrow> i < n"
  "hmsg_ok n \<lparr>msg_type = WORKER_MSG_TERMINATE, msg_body = b\<rparr>"
  "hmsg_ok n \<lparr>msg_type = WORKER_MSG_ASSIGN, msg_body = BTask (Some t)\<rparr>" "hmsg_ok n \<lparr>msg_type = WORKER_MSG_RETURN, msg_body = BTask (Some t)\<rparr>"
  "hmsg_ok n \<lparr>msg_type = WORKER_MSG_WAKEUP, msg_body = BTask (Some t)\<rparr>"
  by (auto simp: hmsg_ok_def msg_types)

lemma mb_part_snoc_req: "mb_part n h L wake mb \<Longrightarrow> i < n \<Longrightarrow> mb_part n h L wake (mb @ [\<lparr>msg_type = WORKER_MSG_REQUEST, msg_body = BFromWorker (int i)\<rparr>])"
  by (simp add: mb_part_def)

lemma mb_part_snoc_term: "mb_part n h L wake mb \<Longrightarrow> mb_part n h L wake (mb @ [term_msg])"
  by (simp add: mb_part_def)

lemma reqs_other [simp]: "msg_type m \<noteq> WORKER_MSG_REQUEST \<Longrightarrow> reqs (mb @ [m]) = reqs mb"
  by simp

subsection \<open>The task that runs in a context\<close>

lemma hplacedD:
  assumes "hplaced dl s ctl wake over L"
  shows "master_ok dl (hy_master s) (tasks_in L PQueue) (waiting (hy_master s))" "dl \<longrightarrow> tasks_in L PQueue = {} \<or> waiting (hy_master s) = {}"
    "length (ms_waitworkers (hy_master s)) = length (hy_table s)" "distinct (hy_table s)" "tasks_part (hy_store s) L wake"
    "mb_part (length (hy_table s)) (h_tasks (hy_store s)) L wake (hy_mastermb s)" "workers_part s ctl over L" "wrappers_part s ctl wake L"
    "seats_part s L" "free_part s ctl" "length (ms_workermbs (hy_master s)) = length (hy_table s)"
  using assms by (auto simp: hplaced_def master_ok_def)

lemma worker_at:
  assumes "hplaced dl s ctl wake over L" and "a \<in> set (hy_table s)"
  obtains i k where "i < length (hy_table s)" "hy_table s ! i = a" "hy_workers s a = Some k"
    "worker_ok a i (ms_workermbs (hy_master s) ! i) (count_list (reqs (hy_mastermb s)) i) (i \<in> waiting (hy_master s)) over L (ctl a) k"
proof -
  from assms(2) obtain i where i: "i < length (hy_table s)" "hy_table s ! i = a" by (auto simp: in_set_conv_nth)
  with hplacedD(7) [OF assms(1)] that show ?thesis unfolding workers_part_def by blast
qed

lemma wrap_state_host: "wrap_state p t u x k \<Longrightarrow> \<exists>a. host p = Some a"
  by (cases p) auto

lemma wrapper_okD:
  assumes "wrapper_ok a L wake x k" and "x \<noteq> HOver"
  obtains t p where "hosted L a = {t}" "L t = Some p" "host p = Some a" "wrap_state p t (wake t) x k" "wc_wid k < 0"
proof -
  from assms obtain t p where t: "hosted L a = {t}" "L t = Some p" "wrap_state p t (wake t) x k" "wc_wid k < 0" by (auto simp: wrapper_ok_def)
  moreover have "host p = Some a" using in_hosted [of L t p a, OF t(2)] t(1) by simp
  ultimately show ?thesis using that by blast
qed

lemma wrapper_at:
  assumes H: "hplaced dl s ctl wake over L" and "a \<notin> set (hy_table s)" "ctl a \<noteq> HOver"
  obtains k t p where "hy_workers s a = Some k" "hosted L a = {t}" "L t = Some p" "host p = Some a" "wrap_state p t (wake t) (ctl a) k" "wc_wid k < 0"
proof -
  obtain k where k: "hy_workers s a = Some k" using wrappers_partD(1) [OF hplacedD(8) [OF H] assms(2)] assms(3) by blast
  from wrappers_partD(2) [OF hplacedD(8) [OF H] assms(2) k] show ?thesis by (rule wrapper_okD) (use assms(3) k that in blast)+
qed

lemma runs_cases:
  assumes H: "hplaced dl s ctl wake over L" and x: "ctl a = HTask t"
  obtains (worker) i k c where "i < length (hy_table s)" "hy_table s ! i = a" "hy_workers s a = Some k" "L t = Some (PRun a)"
      "worker_ok a i (ms_workermbs (hy_master s) ! i) (count_list (reqs (hy_mastermb s)) i) (i \<in> waiting (hy_master s)) over L (HTask t) k"
      "h_tasks (hy_store s) t = Some c" "htask_ok (hy_store s) t (PRun a) (wake t) c"
    | (wrapper) k c where "a \<notin> set (hy_table s)" "hy_workers s a = Some k" "L t = Some (WRun a)" "hosted L a = {t}" "wc_wid k < 0"
      "wrap_state (WRun a) t (wake t) (HTask t) k" "h_tasks (hy_store s) t = Some c" "htask_ok (hy_store s) t (WRun a) (wake t) c"
proof (cases "a \<in> set (hy_table s)")
  case True
  from worker_at [OF H True] obtain i k where w: "i < length (hy_table s)" "hy_table s ! i = a" "hy_workers s a = Some k"
    "worker_ok a i (ms_workermbs (hy_master s) ! i) (count_list (reqs (hy_mastermb s)) i) (i \<in> waiting (hy_master s)) over L (HTask t) k"
    unfolding x by metis
  then have "t \<in> tasks_in L (PRun a)" by (simp add: worker_ok_def)
  then have l: "L t = Some (PRun a)" by (simp add: tasks_in_def)
  from tasks_partD [of "hy_store s" L wake t, OF hplacedD(5) [OF H] l] worker [OF w(1-3) l w(4)] show ?thesis by blast
next
  case False
  have "ctl a \<noteq> HOver" using x by simp
  from wrapper_at [OF H False this] obtain k u p where w: "hy_workers s a = Some k" "hosted L a = {u}" "L u = Some p" "host p = Some a"
    "wrap_state p u (wake u) (HTask t) k" "wc_wid k < 0" unfolding x by metis
  from w(4,5) have "p = WRun a" "u = t" by (cases p, auto)+
  with w have l: "L t = Some (WRun a)" "hosted L a = {t}" "wrap_state (WRun a) t (wake t) (HTask t) k" by auto
  from tasks_partD [of "hy_store s" L wake t, OF hplacedD(5) [OF H] l(1)] wrapper [OF False w(1) l(1,2) w(6) l(3)] show ?thesis by blast
qed

text \<open>A running task leaves its worker, which asks for the next one.\<close>

abbreviation req_msg :: "nat \<Rightarrow> workermsg_t" where
  "req_msg i \<equiv> \<lparr>msg_type = WORKER_MSG_REQUEST, msg_body = BFromWorker (int i)\<rparr>"

definition put_task :: "hrc_sys \<Rightarrow> addr \<Rightarrow> hrc_task_t \<Rightarrow> hrc_sys" where
  "put_task s t c = set_store s ((hy_store s)\<lparr>h_tasks := (h_tasks (hy_store s))(t \<mapsto> c)\<rparr>)"

lemma put_task_simps [simp]:
  "hy_mastermb (put_task s t c) = hy_mastermb s" "hy_workers (put_task s t c) = hy_workers s" "hy_table (put_task s t c) = hy_table s"
  "hy_free (put_task s t c) = hy_free s" "hy_store (put_task s t c) = (hy_store s)\<lparr>h_tasks := (h_tasks (hy_store s))(t \<mapsto> c)\<rparr>"
  "ms_ready_tasks (hy_master (put_task s t c)) = ms_ready_tasks (hy_master s)" "ms_waitworkers (hy_master (put_task s t c)) = ms_waitworkers (hy_master s)"
  "ms_workermbs (hy_master (put_task s t c)) = ms_workermbs (hy_master s)" "ms_terminate (hy_master (put_task s t c)) = ms_terminate (hy_master s)"
  by (simp_all add: put_task_def)

lemma leave_worker:
  assumes H: "hplaced dl s ctl wake over L" and i: "i < length (hy_table s)" "hy_table s ! i = a" and k: "hy_workers s a = Some k"
    and l: "L t = Some (PRun a)" and c: "h_tasks (hy_store s) t = Some c" "htask_ok (hy_store s) t (PRun a) (wake t) c"
    and w: "worker_ok a i (ms_workermbs (hy_master s) ! i) (count_list (reqs (hy_mastermb s)) i) (i \<in> waiting (hy_master s)) over L (HTask t) k"
    and st: "stopped (hy_store s) t (wake t) (set_state st c)"
  shows "hplaced dl (put_task (s\<lparr>hy_mastermb := hy_mastermb s @ [req_msg i], hy_workers := (hy_workers s)(a \<mapsto> k\<lparr>wc_current_task := None\<rparr>)\<rparr>) t (set_state st c))
    (ctl(a := HBack t)) wake over (L(t \<mapsto> PLeft a))"
proof -
  let ?c = "set_state st c" and ?k = "k\<lparr>wc_current_task := None\<rparr>"
  let ?s = "put_task (s\<lparr>hy_mastermb := hy_mastermb s @ [req_msg i], hy_workers := (hy_workers s)(a \<mapsto> ?k)\<rparr>) t ?c"
  have at: "a \<in> set (hy_table s)" using i nth_mem by blast
  have inj: "j < length (hy_table s) \<Longrightarrow> hy_table s ! j = a \<longleftrightarrow> j = i" for j using hplacedD(4) [OF H] i nth_eq_iff_index_eq by blast
  have wid: "msg_worker (req_msg j) = j" for j by (simp add: msg_worker_def)
  have "hplaced dl ?s (ctl(a := HBack t)) (wake(t := wake t)) over (L(t \<mapsto> PLeft a))"
  proof (rule hplaced_move [of dl s ctl wake over L t "PRun a" c "PLeft a" "set_state st c" "wake t" a k ?k ?s, OF H l c(1)])
    have "mb_part (length (hy_table s)) ((h_tasks (hy_store s))(t \<mapsto> ?c)) (L(t \<mapsto> PLeft a)) (wake(t := wake t)) (hy_mastermb s)"
      by (rule mb_part_move [of _ _ L wake _ t, OF hplacedD(6) [OF H] l c(1)]) simp_all
    then show "mb_part (length (hy_table s)) ((h_tasks (hy_store s))(t \<mapsto> ?c)) (L(t \<mapsto> PLeft a)) (wake(t := wake t)) (hy_mastermb ?s)"
      using mb_part_snoc_req [OF _ i(1)] by simp
    show "worker_ok a j (ms_workermbs (hy_master ?s) ! j) (count_list (reqs (hy_mastermb ?s)) j) (j \<in> waiting (hy_master s)) over (L(t \<mapsto> PLeft a)) (HBack t) ?k"
      if "j < length (hy_table s)" "hy_table s ! j = a" for j
    proof -
      have j: "j = i" using inj that by blast
      have "tasks_in L (PSent a) - {t} = tasks_in L (PSent a)" "tasks_in L (PLeft a) = {}" "tasks_in L (PRun a) = {t}"
        using w tasks_in_other [of L t "PRun a" "PSent a", OF l] by (simp_all add: worker_ok_def)
      then show ?thesis using w unfolding j worker_ok_def by (auto simp: wid)
    qed
    show "ht_state c \<noteq> TASK_INQUEUE" using c(2) by simp
    show "ht_state ?c \<noteq> TASK_INQUEUE" using st by (auto simp: stopped_def)
    show "links ?c = links c" by (simp add: links_def)
    show "htask_ok (hy_store s) t (PLeft a) (wake t) ?c" using st c(2) by simp
  qed (use at inj wid k in auto)
  then show ?thesis by simp
qed

lemma host_place: "host p = Some a \<Longrightarrow> p \<notin> {PNew, PQueue, PRet} \<and> \<not> awaits p \<and> seat p = None"
  by (cases p) auto

lemma wrapper_move:
  assumes H: "hplaced dl s ctl wake over L" and a: "a \<notin> set (hy_table s)" "ctl a \<noteq> HOver" and k: "hy_workers s a = Some k" "wc_next k' = wc_next k" "wc_wid k' < 0"
    and l: "L t = Some p" "hosted L a = {t}" "host p = Some a" and c: "h_tasks (hy_store s) t = Some c" "htask_ok (hy_store s) t p (wake t) c"
    and p': "host p' = Some a" "wrap_state p' t u x k'" "htask_ok (hy_store s) t p' u c'" "links c' = links c" "x \<noteq> HOver"
  shows "hplaced dl (put_task (s\<lparr>hy_workers := (hy_workers s)(a \<mapsto> k')\<rparr>) t c') (ctl(a := x)) (wake(t := u)) over (L(t \<mapsto> p'))"
proof -
  let ?s = "put_task (s\<lparr>hy_workers := (hy_workers s)(a \<mapsto> k')\<rparr>) t c'"
  have ne: "p \<notin> {PNew, PQueue, PRet}" "p' \<notin> {PNew, PQueue, PRet}" "\<not> awaits p" "\<not> awaits p'" "seat p = None" "seat p' = None"
    using host_place [OF l(3)] host_place [OF p'(1)] by simp_all
  show ?thesis
  proof (rule hplaced_move [of dl s ctl wake over L t p c p' c' u a k k' ?s, OF H l(1) c(1)])
    show "mb_part (length (hy_table s)) ((h_tasks (hy_store s))(t \<mapsto> c')) (L(t \<mapsto> p')) (wake(t := u)) (hy_mastermb ?s)"
      using mb_part_move [of _ _ L wake _ t p c p' u c', OF hplacedD(6) [OF H] l(1) c(1)] ne by simp
    show "ht_state c \<noteq> TASK_INQUEUE" "ht_state c' \<noteq> TASK_INQUEUE" using c(2) p'(1,3) l(3) by (cases p, auto) (cases p', auto)
    show "a \<notin> set (hy_table s) \<Longrightarrow> wrapper_ok a (L(t \<mapsto> p')) (wake(t := u)) x k' \<and> (x = HOver \<longleftrightarrow> ctl a = HOver)"
      using l(2) p'(1,2,5) k(3) a(2) by (auto simp: wrapper_ok_def)
  qed (use a k ne l p' in auto)
qed


text \<open>Steps that change one context and no task.\<close>

lemma hplaced_ctx:
  assumes H: "hplaced dl s ctl wake over L" and k: "hy_workers s a = Some k" "wc_next k' = wc_next k"
    and s': "hy_table s' = hy_table s" "hy_free s' = hy_free s" "hy_workers s' = (hy_workers s)(a \<mapsto> k')"
      "hy_store s' = hy_store s" "ms_ready_tasks (hy_master s') = ms_ready_tasks (hy_master s)"
      "ms_waitworkers (hy_master s') = ms_waitworkers (hy_master s)" "length (ms_workermbs (hy_master s')) = length (ms_workermbs (hy_master s))"
      "hy_mastermb s' = hy_mastermb s"
    and wk: "\<And>i. i < length (hy_table s) \<Longrightarrow> hy_table s ! i = a \<Longrightarrow> worker_ok a i (ms_workermbs (hy_master s') ! i)
      (count_list (reqs (hy_mastermb s)) i) (i \<in> waiting (hy_master s)) over L y k'"
    and wr: "a \<notin> set (hy_table s) \<Longrightarrow> wrapper_ok a L wake y k' \<and> (y = HOver \<longleftrightarrow> ctl a = HOver)"
    and oth: "\<And>i. i < length (hy_table s) \<Longrightarrow> hy_table s ! i \<noteq> a \<Longrightarrow> ms_workermbs (hy_master s') ! i = ms_workermbs (hy_master s) ! i"
  shows "hplaced dl s' (ctl(a := y)) wake over L"
proof -
  have W: "waiting (hy_master s') = waiting (hy_master s)" using s'(6) by (simp add: waiting_def)
  have "master_ok dl (hy_master s') (tasks_in L PQueue) (waiting (hy_master s'))"
    unfolding W using hplacedD(1) [OF H] by (rule master_ok_cong) (simp_all add: s')
  moreover have "workers_part s' (ctl(a := y)) over L" unfolding workers_part_def
  proof (intro allI impI)
    fix i assume i: "i < length (hy_table s')"
    show "\<exists>k. hy_workers s' (hy_table s' ! i) = Some k \<and> worker_ok (hy_table s' ! i) i (ms_workermbs (hy_master s') ! i)
        (count_list (reqs (hy_mastermb s')) i) (i \<in> waiting (hy_master s')) over L ((ctl(a := y)) (hy_table s' ! i)) k"
      using i s' W wk [of i] oth [of i] hplacedD(7) [OF H] by (cases "hy_table s ! i = a") (simp_all add: workers_part_def)
  qed
  moreover have "wrappers_part s' (ctl(a := y)) wake L"
    using s'(1,3) wr wrappers_partD [OF hplacedD(8) [OF H]] by (intro wrappers_partI) (auto split: if_splits)
  moreover have "seats_part s' L" using hplacedD(9) [OF H] s'(1) by (simp add: seats_part_def)
  moreover have "free_part s' (ctl(a := y))"
  proof -
    have "fld wc_next (hy_workers s') = fld wc_next (hy_workers s)" using k s'(3) by (auto simp: fld_def)
    moreover have "dom (hy_workers s') = dom (hy_workers s)" using k(1) s'(3) by auto
    moreover have "b \<notin> set (hy_table s) \<Longrightarrow> ((ctl(a := y)) b = HOver) = (ctl b = HOver)" for b using wr by auto
    ultimately show ?thesis using hplacedD(10) [OF H] s'(1,2) unfolding free_part_def by (simp cong: conj_cong)
  qed
  ultimately show ?thesis unfolding hplaced_def using hplacedD [OF H] s' W by simp
qed


text \<open>Removing a task that no message and no worker refers to.\<close>

lemma tasks_in_rem [simp]: "tasks_in (L(t := None)) p = tasks_in L p - {t}"
  by (auto simp: tasks_in_def)

lemma hosted_rem [simp]: "hosted (L(t := None)) a = hosted L a - {t}"
  by (auto simp: hosted_def)

lemma signalled_rem [simp]: "signalled (h(t := None)) (L(t := None)) wake = signalled h L wake - {t}"
  by (auto simp: signalled_def)

lemma tasks_part_rem:
  assumes "tasks_part w L wake" and "wake t = Calm"
  shows "tasks_part (w\<lparr>h_tasks := (h_tasks w)(t := None)\<rparr>) (L(t := None)) wake"
  using assms unfolding tasks_part_def by (auto split: option.splits) (metis option.distinct(1))+


end
