(* ===== verification/Hrc_Events.thy ===== *)
theory Hrc_Events
  imports Hrc_Place
begin

text \<open>
  The master, the workers, the wrappers and the tasks of the hierarchical scheduler as one transition system. An event is one
  round of a loop up to the next switch of the machine context, the rest of a round after the return from a task, or a call of
  a task operation by the task that runs in a context. The threads share the task records, which the messages hand over, and
  the mailboxes, so a whole event is taken as one step. A task announces that it is going to block (\<open>EWait\<close>, as the stream
  functions do when a semaphore falls below zero), only such tasks are woken, and each of them once; a task leaves all its
  streams before it ends. What a running task does to its streams is any change of the store that keeps it well-formed.
\<close>

section \<open>The transition system\<close>

record hrun =
  hn_sys :: hrc_sys
  hn_seq :: "32 word"
  hn_ctl :: "addr \<Rightarrow> hctl"
  hn_wake :: "addr \<Rightarrow> hwake"
  hn_over :: bool

datatype hevent = EMaster | EWorker addr | EWrapper addr | EBack addr | EYield addr | EWait addr | EBlock addr | EReturn addr | EExit addr
  | EUnblock addr addr | ESpawn int addr addr workerctx_t ptr ptr int | ETerm

text \<open>The task that runs in a context.\<close>

definition runs_now :: "hrun \<Rightarrow> addr \<Rightarrow> (addr \<Rightarrow> bool) \<Rightarrow> bool" where
  "runs_now r a P = (case hn_ctl r a of HTask t \<Rightarrow> P t | _ \<Rightarrow> False)"

definition all_closed :: "hrc_store \<Rightarrow> addr \<Rightarrow> bool" where
  "all_closed w t = (case h_tasks w t of None \<Rightarrow> False | Some c \<Rightarrow> closed_task w t c)"

declare all_closed_def [code del]

fun henabled :: "hevent \<Rightarrow> hrun \<Rightarrow> bool" where
  "henabled EMaster r = (\<not> hn_over r \<and> hy_mastermb (hn_sys r) \<noteq> [])"
| "henabled (EWorker a) r = (a \<in> set (hy_table (hn_sys r)) \<and> hn_ctl r a = HRecv \<and>
     (case hy_workers (hn_sys r) a of None \<Rightarrow> False | Some k \<Rightarrow> ms_workermbs (hy_master (hn_sys r)) ! nat (wc_wid k) \<noteq> []))"
| "henabled (EWrapper a) r = (a \<notin> set (hy_table (hn_sys r)) \<and> hn_ctl r a = HRecv \<and>
     (case hy_workers (hn_sys r) a of None \<Rightarrow> False | Some k \<Rightarrow> wc_current_task k \<noteq> None \<or> wc_mailbox k \<noteq> []))"
| "henabled (EBack a) r = (case hn_ctl r a of HBack t \<Rightarrow> True | _ \<Rightarrow> False)"
| "henabled (EYield a) r = runs_now r a (\<lambda>t. hn_wake r t = Calm)"
| "henabled (EWait a) r = runs_now r a (\<lambda>t. hn_wake r t = Calm)"
| "henabled (EBlock a) r = runs_now r a (\<lambda>t. hn_wake r t \<noteq> Calm)"
| "henabled (EReturn a) r = runs_now r a (\<lambda>t. hn_wake r t = Calm \<and> all_closed (hy_store (hn_sys r)) t)"
| "henabled (EExit a) r = runs_now r a (\<lambda>t. hn_wake r t = Calm \<and> all_closed (hy_store (hn_sys r)) t)"
| "henabled (EUnblock a b) r = runs_now r a (\<lambda>t. hn_wake r t = Calm \<and> hn_wake r b = Wanted)"
| "henabled (ESpawn mapto new wnew junk func inarg sz) r = (mapto \<le> 0 \<and> h_tasks (hy_store (hn_sys r)) new = None \<and> hy_workers (hn_sys r) wnew = None \<and>
     (sz \<le> 0 \<or> sz \<ge> TASK_MINSIZE))"
| "henabled ETerm r = True"

text \<open>The condition at the end of a loop.\<close>

definition loop_end :: "hrun \<Rightarrow> addr \<Rightarrow> hrc_sys \<Rightarrow> hrun res" where
  "loop_end r a s = bindR (deref (hy_workers s) (Some a)) (\<lambda>k.
     if wc_terminate k = 0 then Inr (r\<lparr>hn_sys := s, hn_ctl := (hn_ctl r)(a := HRecv)\<rparr>)
     else if a \<in> set (hy_table s) then Inr (r\<lparr>hn_sys := s, hn_ctl := (hn_ctl r)(a := HOver)\<rparr>)
     else bindR (wrapper_end s (Some a)) (\<lambda>s'. Inr (r\<lparr>hn_sys := s', hn_ctl := (hn_ctl r)(a := HOver)\<rparr>)))"

definition go_on :: "hrun \<Rightarrow> addr \<Rightarrow> hsw \<times> hrc_sys \<Rightarrow> hrun res" where
  "go_on r a x = (case x of (ToTask t, s) \<Rightarrow>
      bindR (task_resume s t) (\<lambda>s'. Inr (r\<lparr>hn_sys := s', hn_ctl := (hn_ctl r)(a := HTask t), hn_wake := (hn_wake r)(t := Calm)\<rparr>))
    | (ToContext, s) \<Rightarrow> loop_end r a s)"

definition in_task :: "hrun \<Rightarrow> addr \<Rightarrow> (addr \<Rightarrow> hrc_sys res) \<Rightarrow> hrun res" where
  "in_task r a f = (case hn_ctl r a of HTask t \<Rightarrow> bindR (f t) (\<lambda>s. Inr (r\<lparr>hn_sys := s, hn_ctl := (hn_ctl r)(a := HBack t)\<rparr>)) | _ \<Rightarrow> Inl AssertFail)"

definition spawn :: "hrun \<Rightarrow> int \<Rightarrow> addr \<Rightarrow> addr \<Rightarrow> workerctx_t \<Rightarrow> ptr \<Rightarrow> ptr \<Rightarrow> int \<Rightarrow> hrun res" where
  "spawn r mapto new wnew junk func inarg sz =
     bindR (if mapto \<noteq> LPEL_MAP_MASTER then LpelCreateWrapperContext (hn_sys r) junk (Some wnew) mapto else Inr (None, hn_sys r)) (\<lambda>(wp, s).
     bindR (LpelTaskCreate True (hy_store s) (hn_seq r) (Some new) wp mapto func inarg sz) (\<lambda>(t, w, seq).
     bindR (LpelTaskStart_hrc (set_store s w) t) (\<lambda>s'.
       Inr (r\<lparr>hn_sys := s', hn_seq := seq, hn_ctl := (case wp of None \<Rightarrow> hn_ctl r | Some a \<Rightarrow> (hn_ctl r)(a := HRecv))\<rparr>))))"

fun hexec :: "int \<Rightarrow> (int \<Rightarrow> int \<Rightarrow> double) \<Rightarrow> hevent \<Rightarrow> hrun \<Rightarrow> hrun run" where
  "hexec neg cal EMaster r = bindO (master_round neg cal (hn_sys r)) (\<lambda>(more, s).
     Some (Inr (if more then r\<lparr>hn_sys := s\<rparr> else r\<lparr>hn_sys := master_finish s, hn_over := True\<rparr>)))"
| "hexec neg cal (EWorker a) r = Some (bindR (worker_round (hn_sys r) (Some a)) (go_on r a))"
| "hexec neg cal (EWrapper a) r = Some (bindR (wrapper_round (hn_sys r) (Some a)) (go_on r a))"
| "hexec neg cal (EBack a) r = Some (case hn_ctl r a of HBack t \<Rightarrow>
      bindR (if a \<in> set (hy_table (hn_sys r)) then worker_back (hn_sys r) (Some a) t else Inr (hn_sys r)) (loop_end r a) | _ \<Rightarrow> Inl AssertFail)"
| "hexec neg cal (EYield a) r = Some (in_task r a (\<lambda>t. yield_switch (hn_sys r) (Some a)))"
| "hexec neg cal (EWait a) r = Some (case hn_ctl r a of HTask t \<Rightarrow> Inr (r\<lparr>hn_wake := (hn_wake r)(t := Wanted)\<rparr>) | _ \<Rightarrow> Inl AssertFail)"
| "hexec neg cal (EBlock a) r = Some (in_task r a (block_switch (hn_sys r)))"
| "hexec neg cal (EReturn a) r = Some (in_task r a (finish_hrc (hn_sys r)))"
| "hexec neg cal (EExit a) r = Some (in_task r a (\<lambda>t. LpelTaskExit_hrc (hn_sys r) (Some a)))"
| "hexec neg cal (EUnblock a b) r = Some (bindR (LpelTaskUnblock_hrc (hn_sys r) (Some b)) (\<lambda>s. Inr (r\<lparr>hn_sys := s, hn_wake := (hn_wake r)(b := Woken)\<rparr>)))"
| "hexec neg cal (ESpawn mapto new wnew junk func inarg sz) r = Some (spawn r mapto new wnew junk func inarg sz)"
| "hexec neg cal ETerm r = Some (Inr (r\<lparr>hn_sys := LpelWorkersTerminate_hrc (hn_sys r)\<rparr>))"

text \<open>The work of a running task on its streams.\<close>

definition sched_same :: "bool \<Rightarrow> hrc_task_t \<Rightarrow> hrc_task_t \<Rightarrow> bool" where
  "sched_same own c c' \<longleftrightarrow> ht_state c' = ht_state c \<and> ht_wakenup c' = ht_wakenup c \<and> ht_worker_context c' = ht_worker_context c \<and>
     prior (ht_sched_info c') = prior (ht_sched_info c) \<and> (own \<or> links c' = links c)"

definition stream_work :: "addr \<Rightarrow> hrc_store \<Rightarrow> hrc_store \<Rightarrow> bool" where
  "stream_work t w w' \<longleftrightarrow> store_wf w' \<and> (\<forall>u. rel_option (sched_same (u = t)) (h_tasks w u) (h_tasks w' u)) \<and>
     (\<forall>u c d sd. h_tasks w u = Some c \<and> ht_state c = TASK_ZOMBIE \<and> h_sds w' d = Some sd \<longrightarrow> sd_task sd \<noteq> Some u)"

text \<open>The start: \<open>LpelWorkersInit\<close>, and every thread before its loop.\<close>

fun start_workers :: "hrc_sys \<Rightarrow> addr list \<Rightarrow> hrc_sys res" where
  "start_workers s [] = Inr s"
| "start_workers s (a # as) = bindR (worker_start s (Some a)) (\<lambda>s1. start_workers s1 as)"

definition no_store :: hrc_store where
  "no_store = \<lparr>h_tasks = (\<lambda>_. None), h_streams = (\<lambda>_. None), h_sds = (\<lambda>_. None), h_elems = (\<lambda>_. None)\<rparr>"

definition no_sys :: hrc_sys where
  "no_sys = \<lparr>hy_master = \<lparr>ms_terminate = 0, ms_ready_tasks = LpelTaskheapInit, ms_waitworkers = [], ms_workermbs = [], ms_store = no_store\<rparr>,
     hy_mastermb = [], hy_workers = (\<lambda>_. None), hy_table = [], hy_free = None\<rparr>"

definition hstart :: "workerctx_t \<Rightarrow> ptr list \<Rightarrow> int \<Rightarrow> hrun res" where
  "hstart junk news sz =
     bindR (LpelWorkersInit_hrc junk news no_sys sz) (\<lambda>s.
     bindR (start_workers (master_start s) (hy_table s)) (\<lambda>s1.
       Inr \<lparr>hn_sys = s1, hn_seq = 0, hn_ctl = (\<lambda>a. if a \<in> set (hy_table s1) then HRecv else HOver), hn_wake = (\<lambda>_. Calm), hn_over = False\<rparr>))"

inductive hreach :: "int \<Rightarrow> (int \<Rightarrow> int \<Rightarrow> double) \<Rightarrow> hrun \<Rightarrow> bool" for neg cal where
  hreach_start: "hstart junk news sz = Inr r \<Longrightarrow> hreach neg cal r"
| hreach_step: "hreach neg cal r \<Longrightarrow> henabled ev r \<Longrightarrow> hexec neg cal ev r = Some (Inr r') \<Longrightarrow> hreach neg cal r'"
| hreach_work: "hreach neg cal r \<Longrightarrow> hn_ctl r a = HTask t \<Longrightarrow> stream_work t (hy_store (hn_sys r)) w \<Longrightarrow>
    hreach neg cal (r\<lparr>hn_sys := set_store (hn_sys r) w\<rparr>)"

section \<open>Every event keeps the invariant\<close>

abbreviation hinv :: "bool \<Rightarrow> hrun \<Rightarrow> hplaces \<Rightarrow> bool" where
  "hinv dl r L \<equiv> hplaced dl (hn_sys r) (hn_ctl r) (hn_wake r) (hn_over r) L"

lemma runs_nowD: "runs_now r a P \<Longrightarrow> \<exists>t. hn_ctl r a = HTask t \<and> P t"
  by (auto simp: runs_now_def split: hctl.splits)

lemmas switch_defs = LpelWorkerCurrentTask_hrc_def LpelWorkerTaskYield_def LpelWorkerTaskBlock_def LpelWorkerTaskExit_def requestTask_def
  send_master_def put_task_def Let_def

lemma hrc_yield_ok:
  assumes H: "hplaced dl s ctl wake over L" and x: "ctl a = HTask t" "wake t = Calm"
  shows "\<exists>s' L'. yield_switch s (Some a) = Inr s' \<and> hplaced dl s' (ctl(a := HBack t)) wake over L'"
  using H x(1)
proof (cases rule: runs_cases)
  case (worker i k c)
  have "yield_switch s (Some a) = Inr (put_task (s\<lparr>hy_mastermb := hy_mastermb s @ [req_msg i],
      hy_workers := (hy_workers s)(a \<mapsto> k\<lparr>wc_current_task := None\<rparr>)\<rparr>) t (set_state TASK_READY c))"
    using worker by (simp add: yield_switch_def switch_defs worker_ok_def)
  moreover have "stopped (hy_store s) t (wake t) (set_state TASK_READY c)" using worker(7) x(2) by (simp add: stopped_def)
  ultimately show ?thesis using leave_worker [where st = TASK_READY, OF H worker(1-4,6,7,5)] by blast
next
  case (wrapper k c)
  have "yield_switch s (Some a) = Inr (put_task (s\<lparr>hy_workers := (hy_workers s)(a \<mapsto> k)\<rparr>) t (set_state TASK_READY c))"
    using wrapper by (simp add: yield_switch_def switch_defs fun_upd_idem)
  moreover have "hplaced dl (put_task (s\<lparr>hy_workers := (hy_workers s)(a \<mapsto> k)\<rparr>) t (set_state TASK_READY c)) (ctl(a := HBack t)) (wake(t := Calm)) over
      (L(t \<mapsto> WReady a))"
    by (rule wrapper_move [where p = "WRun a" and c = c and k = k, OF H]) (use wrapper x in \<open>auto simp: links_def wake_box_def\<close>)
  ultimately show ?thesis using x(2) by (metis fun_upd_triv)
qed

lemma hrc_block_ok:
  assumes H: "hplaced dl s ctl wake over L" and x: "ctl a = HTask t" "wake t \<noteq> Calm"
  shows "\<exists>s' L'. block_switch s t = Inr s' \<and> hplaced dl s' (ctl(a := HBack t)) wake over L'"
  using H x(1)
proof (cases rule: runs_cases)
  case (worker i k c)
  have "block_switch s t = Inr (put_task (s\<lparr>hy_mastermb := hy_mastermb s @ [req_msg i],
      hy_workers := (hy_workers s)(a \<mapsto> k\<lparr>wc_current_task := None\<rparr>)\<rparr>) t (set_state TASK_BLOCKED c))"
    using worker by (simp add: block_switch_def switch_defs worker_ok_def)
  moreover have "stopped (hy_store s) t (wake t) (set_state TASK_BLOCKED c)" using worker(7) x(2) by (simp add: stopped_def)
  ultimately show ?thesis using leave_worker [where st = TASK_BLOCKED, OF H worker(1-4,6,7,5)] by blast
next
  case (wrapper k c)
  let ?k = "k\<lparr>wc_current_task := None\<rparr>"
  have "block_switch s t = Inr (put_task (s\<lparr>hy_workers := (hy_workers s)(a \<mapsto> ?k)\<rparr>) t (set_state TASK_BLOCKED c))"
    using wrapper by (simp add: block_switch_def switch_defs)
  moreover have "hplaced dl (put_task (s\<lparr>hy_workers := (hy_workers s)(a \<mapsto> ?k)\<rparr>) t (set_state TASK_BLOCKED c)) (ctl(a := HBack t)) (wake(t := wake t)) over
      (L(t \<mapsto> WBlocked a))"
    by (rule wrapper_move [where p = "WRun a" and c = c and k = k, OF H]) (use wrapper x in \<open>auto simp: links_def\<close>)
  ultimately show ?thesis by (metis fun_upd_triv)
qed

lemma TaskExit_ok:
  assumes H: "hplaced dl s ctl wake over L" and x: "ctl a = HTask t" "wake t = Calm" "all_closed (hy_store s) t"
  shows "\<exists>c s' L'. h_tasks (hy_store s) t = Some c \<and> ht_state c = TASK_RUNNING \<and> LpelWorkerCurrentTask_hrc s (Some a) = Inr (Some t) \<and>
    LpelWorkerTaskExit (put_task s t (set_state TASK_ZOMBIE c)) (Some t) = Inr s' \<and> hplaced dl s' (ctl(a := HBack t)) wake over L'"
  using H x(1)
proof (cases rule: runs_cases)
  case (worker i k c)
  have "LpelWorkerTaskExit (put_task s t (set_state TASK_ZOMBIE c)) (Some t) = Inr (put_task (s\<lparr>hy_mastermb := hy_mastermb s @ [req_msg i],
      hy_workers := (hy_workers s)(a \<mapsto> k\<lparr>wc_current_task := None\<rparr>)\<rparr>) t (set_state TASK_ZOMBIE c))"
    using worker by (simp add: switch_defs worker_ok_def)
  moreover have "stopped (hy_store s) t (wake t) (set_state TASK_ZOMBIE c)"
    using worker(6,7) x(2,3) by (simp add: stopped_def all_closed_def closed_task_def links_def)
  moreover have "LpelWorkerCurrentTask_hrc s (Some a) = Inr (Some t)" using worker by (simp add: LpelWorkerCurrentTask_hrc_def worker_ok_def)
  moreover have "ht_state c = TASK_RUNNING" using worker(7) by simp
  ultimately show ?thesis using leave_worker [where st = TASK_ZOMBIE, OF H worker(1-4,6,7,5)] worker(6) by blast
next
  case (wrapper k c)
  let ?k = "k\<lparr>wc_terminate := 1\<rparr>"
  have "LpelWorkerTaskExit (put_task s t (set_state TASK_ZOMBIE c)) (Some t) = Inr (put_task (s\<lparr>hy_workers := (hy_workers s)(a \<mapsto> ?k)\<rparr>) t (set_state TASK_ZOMBIE c))"
    using wrapper by (simp add: switch_defs)
  moreover have "hplaced dl (put_task (s\<lparr>hy_workers := (hy_workers s)(a \<mapsto> ?k)\<rparr>) t (set_state TASK_ZOMBIE c)) (ctl(a := HBack t)) (wake(t := Calm)) over
      (L(t \<mapsto> WDone a))"
    by (rule wrapper_move [where p = "WRun a" and c = c and k = k, OF H])
       (use wrapper x in \<open>auto simp: links_def wake_box_def all_closed_def closed_task_def\<close>)
  moreover have "LpelWorkerCurrentTask_hrc s (Some a) = Inr (Some t)" using wrapper by (simp add: LpelWorkerCurrentTask_hrc_def)
  moreover have "ht_state c = TASK_RUNNING" using wrapper(8) by simp
  ultimately show ?thesis using wrapper(7) x(2) by (metis fun_upd_triv)
qed

lemma hrc_exit_ok:
  assumes H: "hplaced dl s ctl wake over L" and x: "ctl a = HTask t" "wake t = Calm" "all_closed (hy_store s) t"
  shows "\<exists>s' L'. finish_hrc s t = Inr s' \<and> LpelTaskExit_hrc s (Some a) = Inr s' \<and> hplaced dl s' (ctl(a := HBack t)) wake over L'"
proof -
  from TaskExit_ok [OF assms] obtain c s' L' where 1: "h_tasks (hy_store s) t = Some c" "ht_state c = TASK_RUNNING"
    "LpelWorkerCurrentTask_hrc s (Some a) = Inr (Some t)" "LpelWorkerTaskExit (put_task s t (set_state TASK_ZOMBIE c)) (Some t) = Inr s'"
    "hplaced dl s' (ctl(a := HBack t)) wake over L'" by blast
  have "upd_yt s (Some t) (set_state TASK_ZOMBIE) = Inr (put_task s t (set_state TASK_ZOMBIE c))" using 1(1) by (simp add: put_task_def)
  then show ?thesis using 1 by (simp add: finish_hrc_def LpelTaskExit_hrc_def del: upd_yt_Some) blast
qed

subsection \<open>The loop of a worker\<close>

lemma assign_msg_simps [simp]: "msg_type (assign_msg t) = WORKER_MSG_ASSIGN" "body_task (assign_msg t) = Inr (Some t)"
  by (simp_all add: assign_msg_def body_task_def)

lemma worker_take_ok:
  assumes H: "hplaced dl s ctl wake over L" and i: "i < length (hy_table s)" "hy_table s ! i = a" and k: "hy_workers s a = Some k"
    and w: "worker_ok a i (ms_workermbs (hy_master s) ! i) (count_list (reqs (hy_mastermb s)) i) (i \<in> waiting (hy_master s)) over L HRecv k"
    and mb: "ms_workermbs (hy_master s) ! i = assign_msg t # ms"
  shows "\<exists>s1 s' L'. worker_round s (Some a) = Inr (ToTask t, s1) \<and> task_resume s1 t = Inr s' \<and>
    hplaced dl s' (ctl(a := HTask t)) (wake(t := Calm)) over L'"
proof -
  from w mb obtain ts where ts: "assign_msg t # ms = map assign_msg ts @ (if over then [term_msg] else [])" "distinct ts" "set ts = tasks_in L (PSent a)"
    "count_list (reqs (hy_mastermb s)) i + of_bool (i \<in> waiting (hy_master s)) + length ts = 1" by (auto simp: worker_ok_def)
  then have t: "ts = [t]" "ms = (if over then [term_msg] else [])"
    by (cases ts; auto simp: assign_msg_def split: if_splits)+
  then have l: "L t = Some (PSent a)" using ts(3) by (auto simp: tasks_in_def)
  obtain c where c: "h_tasks (hy_store s) t = Some c" "htask_ok (hy_store s) t (PSent a) (wake t) c"
    using tasks_partD [of "hy_store s" L wake t, OF hplacedD(5) [OF H] l] .
  have at: "a \<in> set (hy_table s)" using i nth_mem by blast
  have inj: "j < length (hy_table s) \<Longrightarrow> hy_table s ! j = a \<longleftrightarrow> j = i" for j using hplacedD(4) [OF H] i nth_eq_iff_index_eq by blast
  have len: "i < length (ms_workermbs (hy_master s))" using hplacedD(11) [OF H] i(1) by simp
  let ?m = "(hy_master s)\<lparr>ms_workermbs := (ms_workermbs (hy_master s))[i := ms]\<rparr>"
  let ?k = "k\<lparr>wc_current_task := Some t\<rparr>" and ?c1 = "c\<lparr>ht_worker_context := Some a\<rparr>"
  let ?c = "?c1\<lparr>ht_sched_info := (ht_sched_info c)\<lparr>rec_cnt := 0\<rparr>, ht_state := TASK_RUNNING\<rparr>"
  let ?s1 = "put_task (s\<lparr>hy_master := ?m, hy_workers := (hy_workers s)(a \<mapsto> ?k)\<rparr>) t ?c1"
  let ?s = "put_task (s\<lparr>hy_master := ?m, hy_workers := (hy_workers s)(a \<mapsto> ?k)\<rparr>) t ?c"
  have "worker_round s (Some a) = Inr (ToTask t, ?s1)"
    using k c mb len w by (simp add: worker_round_def worker_assign_def worker_ok_def put_task_def aget_def aset_def)
  moreover have "task_resume ?s1 t = Inr ?s" using c by (simp add: task_resume_def TaskStart_def put_task_def)
  moreover have "hplaced dl ?s (ctl(a := HTask t)) (wake(t := Calm)) over (L(t \<mapsto> PRun a))"
  proof (rule hplaced_move [of dl s ctl wake over L t "PSent a" c "PRun a" ?c Calm a k ?k ?s, OF H l c(1)])
    show "mb_part (length (hy_table s)) ((h_tasks (hy_store s))(t \<mapsto> ?c)) (L(t \<mapsto> PRun a)) (wake(t := Calm)) (hy_mastermb ?s)"
      using mb_part_move [of _ _ L wake _ t "PSent a" c "PRun a" Calm ?c, OF hplacedD(6) [OF H] l c(1)] by simp
    show "worker_ok a j (ms_workermbs (hy_master ?s) ! j) (count_list (reqs (hy_mastermb ?s)) j) (j \<in> waiting (hy_master s)) over (L(t \<mapsto> PRun a)) (HTask t) ?k"
      if "j < length (hy_table s)" "hy_table s ! j = a" for j
    proof -
      have j: "j = i" using inj that by blast
      have "tasks_in L (PSent a) = {t}" "tasks_in L (PLeft a) = {}" "tasks_in L (PRun a) = {}" using w ts(3) t(1) by (simp_all add: worker_ok_def)
      then show ?thesis using w ts(4) t len unfolding j worker_ok_def by auto
    qed
  qed (use at inj k c len in \<open>auto simp: links_def\<close>)
  ultimately show ?thesis by blast
qed

lemma worker_stop_ok:
  assumes H: "hplaced dl s ctl wake over L" and i: "i < length (hy_table s)" "hy_table s ! i = a" and k: "hy_workers s a = Some k"
    and w: "worker_ok a i (ms_workermbs (hy_master s) ! i) (count_list (reqs (hy_mastermb s)) i) (i \<in> waiting (hy_master s)) over L HRecv k"
    and mb: "ms_workermbs (hy_master s) ! i = [term_msg]"
  shows "\<exists>s'. worker_round s (Some a) = Inr (ToContext, s') \<and> hy_workers s' a = Some (k\<lparr>wc_terminate := 1\<rparr>) \<and> hy_table s' = hy_table s \<and>
    hplaced dl s' (ctl(a := HOver)) wake over L"
proof -
  from w mb have ts: "tasks_in L (PSent a) = {}" over "count_list (reqs (hy_mastermb s)) i + of_bool (i \<in> waiting (hy_master s)) = 1"
    by (auto simp: worker_ok_def assign_msg_def append_eq_Cons_conv split: if_splits)
  have at: "a \<in> set (hy_table s)" using i nth_mem by blast
  have inj: "j < length (hy_table s) \<Longrightarrow> hy_table s ! j = a \<longleftrightarrow> j = i" for j using hplacedD(4) [OF H] i nth_eq_iff_index_eq by blast
  have len: "i < length (ms_workermbs (hy_master s))" using hplacedD(11) [OF H] i(1) by simp
  let ?k = "k\<lparr>wc_terminate := 1\<rparr>"
  let ?s = "s\<lparr>hy_master := (hy_master s)\<lparr>ms_workermbs := (ms_workermbs (hy_master s))[i := []]\<rparr>, hy_workers := (hy_workers s)(a \<mapsto> ?k)\<rparr>"
  have "worker_round s (Some a) = Inr (ToContext, ?s)"
    using k mb len w by (simp add: worker_round_def worker_ok_def aget_def aset_def)
  moreover have "hplaced dl ?s (ctl(a := HOver)) wake over L"
  proof (rule hplaced_ctx [of dl s ctl wake over L a k ?k ?s, OF H k])
    show "worker_ok a j (ms_workermbs (hy_master ?s) ! j) (count_list (reqs (hy_mastermb s)) j) (j \<in> waiting (hy_master s)) over L HOver ?k"
      if "j < length (hy_table s)" "hy_table s ! j = a" for j
    proof -
      have j: "j = i" using inj that by blast
      show ?thesis using w ts len unfolding j worker_ok_def by auto
    qed
  qed (use at inj in auto)
  ultimately show ?thesis by auto
qed

lemma hinv_worker:
  assumes H: "hinv dl r L" and e: "henabled (EWorker a) r"
  shows "\<exists>r' L'. hexec neg cal (EWorker a) r = Some (Inr r') \<and> hinv dl r' L'"
proof -
  have a: "a \<in> set (hy_table (hn_sys r))" "hn_ctl r a = HRecv" using e by simp_all
  from worker_at [OF H a(1)] obtain i k where w: "i < length (hy_table (hn_sys r))" "hy_table (hn_sys r) ! i = a" "hy_workers (hn_sys r) a = Some k"
    "worker_ok a i (ms_workermbs (hy_master (hn_sys r)) ! i) (count_list (reqs (hy_mastermb (hn_sys r))) i) (i \<in> waiting (hy_master (hn_sys r))) (hn_over r) L HRecv k"
    unfolding a(2) by metis
  have "ms_workermbs (hy_master (hn_sys r)) ! i \<noteq> []" using e w by (simp add: worker_ok_def)
  moreover obtain ts where "ms_workermbs (hy_master (hn_sys r)) ! i = map assign_msg ts @ (if hn_over r then [term_msg] else [])"
    using w(4) by (auto simp: worker_ok_def)
  ultimately consider t ms where "ms_workermbs (hy_master (hn_sys r)) ! i = assign_msg t # ms" | "ms_workermbs (hy_master (hn_sys r)) ! i = [term_msg]"
    by (cases ts) (auto split: if_splits)
  then show ?thesis
  proof cases
    case 1
    from worker_take_ok [OF H w 1] obtain s1 s' L' where "worker_round (hn_sys r) (Some a) = Inr (ToTask t, s1)" "task_resume s1 t = Inr s'"
      "hplaced dl s' ((hn_ctl r)(a := HTask t)) ((hn_wake r)(t := Calm)) (hn_over r) L'" by blast
    then show ?thesis by (auto simp: go_on_def)
  next
    case 2
    from worker_stop_ok [OF H w 2] obtain s' where "worker_round (hn_sys r) (Some a) = Inr (ToContext, s')" "hy_workers s' a = Some (k\<lparr>wc_terminate := 1\<rparr>)"
      "hy_table s' = hy_table (hn_sys r)" "hplaced dl s' ((hn_ctl r)(a := HOver)) (hn_wake r) (hn_over r) L" by blast
    then show ?thesis using a(1) by (auto simp: go_on_def loop_end_def)
  qed
qed


lemma worker_back_ok:
  assumes H: "hplaced dl s ctl wake over L" and x: "ctl a = HBack t" and at: "a \<in> set (hy_table s)"
  shows "\<exists>k s' L'. worker_back s (Some a) t = Inr s' \<and> hy_workers s' a = Some k \<and> wc_terminate k = 0 \<and> hplaced dl s' (ctl(a := HRecv)) wake over L'"
proof -
  from worker_at [OF H at] obtain i k where w: "i < length (hy_table s)" "hy_table s ! i = a" "hy_workers s a = Some k"
    "worker_ok a i (ms_workermbs (hy_master s) ! i) (count_list (reqs (hy_mastermb s)) i) (i \<in> waiting (hy_master s)) over L (HBack t) k"
    unfolding x by metis
  then have "t \<in> tasks_in L (PLeft a)" by (simp add: worker_ok_def)
  then have l: "L t = Some (PLeft a)" by (simp add: tasks_in_def)
  obtain c where c: "h_tasks (hy_store s) t = Some c" "htask_ok (hy_store s) t (PLeft a) (wake t) c"
    using tasks_partD [of "hy_store s" L wake t, OF hplacedD(5) [OF H] l] .
  have inj: "j < length (hy_table s) \<Longrightarrow> hy_table s ! j = a \<longleftrightarrow> j = i" for j using hplacedD(4) [OF H] w(1,2) nth_eq_iff_index_eq by blast
  let ?c = "c\<lparr>ht_worker_context := None\<rparr>" and ?k = "k\<lparr>wc_current_task := None\<rparr>" and ?m = "task_msg WORKER_MSG_RETURN (Some t)"
  let ?s = "put_task (s\<lparr>hy_mastermb := hy_mastermb s @ [?m], hy_workers := (hy_workers s)(a \<mapsto> ?k)\<rparr>) t ?c"
  have st: "ht_state c \<noteq> TASK_RUNNING" "ht_state c \<noteq> TASK_INQUEUE" using c(2) by (auto simp: stopped_def)
  have "worker_back s (Some a) t = Inr ?s" using w(3) c(1) st by (simp add: worker_back_def returnTask_def send_master_def put_task_def)
  moreover have "hplaced dl ?s (ctl(a := HRecv)) (wake(t := wake t)) over (L(t \<mapsto> PRet))"
  proof (rule hplaced_move [of dl s ctl wake over L t "PLeft a" c PRet ?c "wake t" a k ?k ?s, OF H l c(1)])
    have sg: "t \<in> signalled (h_tasks (hy_store s)) L wake \<longleftrightarrow> wake t = Woken \<and> ht_wakenup c = 0"
      using in_signalled [of L t "PLeft a" "h_tasks (hy_store s)" c wake, OF l c(1)] by simp
    have "t \<notin> tasks_in L PRet" "tasks_in L PNew - {t} = tasks_in L PNew" using l by (auto simp: tasks_in_def)
    moreover have "signalled ((h_tasks (hy_store s))(t \<mapsto> ?c)) (L(t \<mapsto> PRet)) (wake(t := wake t)) = signalled (h_tasks (hy_store s)) L wake"
      using sg by (simp only: signalled_upd) auto
    ultimately show "mb_part (length (hy_table s)) ((h_tasks (hy_store s))(t \<mapsto> ?c)) (L(t \<mapsto> PRet)) (wake(t := wake t)) (hy_mastermb ?s)"
      using hplacedD(6) [OF H] by (simp add: mb_part_def msg_task_def)
    show "worker_ok a j (ms_workermbs (hy_master ?s) ! j) (count_list (reqs (hy_mastermb ?s)) j) (j \<in> waiting (hy_master s)) over (L(t \<mapsto> PRet)) HRecv ?k"
      if "j < length (hy_table s)" "hy_table s ! j = a" for j
    proof -
      have j: "j = i" using inj that by blast
      have "tasks_in L (PSent a) - {t} = tasks_in L (PSent a)" "tasks_in L (PLeft a) = {t}" "tasks_in L (PRun a) = {}"
        using w(4) tasks_in_other [of L t "PLeft a" "PSent a", OF l] by (simp_all add: worker_ok_def)
      then show ?thesis using w(4) unfolding j worker_ok_def by auto
    qed
    show "htask_ok (hy_store s) t PRet (wake t) ?c" using c(2) by (simp add: stopped_def closed_task_def links_def)
  qed (use at inj w(3) st in \<open>auto simp: links_def\<close>)
  moreover have "wc_terminate ?k = 0" using w(4) by (simp add: worker_ok_def)
  ultimately show ?thesis by (intro exI [of _ ?k] exI [of _ ?s] exI [of _ "L(t \<mapsto> PRet)"]) simp
qed

subsection \<open>The loop of a wrapper\<close>

lemma put_same: "h_tasks (hy_store s) t = Some c \<Longrightarrow> put_task s t c = s"
  by (simp add: put_task_def fun_upd_idem)

lemma wrapper_stay:
  assumes H: "hplaced dl s ctl wake over L" and a: "a \<notin> set (hy_table s)" "ctl a = HBack t" and k: "hy_workers s a = Some k" "wc_terminate k = 0"
  shows "hplaced dl s (ctl(a := HRecv)) wake over L"
proof -
  have "ctl a \<noteq> HOver" using a(2) by simp
  from wrapper_at [OF H a(1) this] obtain u p where w: "hosted L a = {u}" "L u = Some p" "host p = Some a" "wrap_state p u (wake u) (HBack t) k" "wc_wid k < 0"
    unfolding a(2) using k(1) by (metis option.inject)
  then have "wrap_state p u (wake u) HRecv k" using k(2) by (cases p) auto
  then have "wrapper_ok a L wake HRecv k" using w by (auto simp: wrapper_ok_def)
  then show ?thesis using a k by (intro hplaced_ctx [of dl s ctl wake over L a k k s, OF H]) (auto simp: fun_upd_idem)
qed

lemma wrapper_round_ok:
  assumes H: "hplaced dl s ctl wake over L" and a: "a \<notin> set (hy_table s)" "ctl a = HRecv"
    and k: "hy_workers s a = Some k" "wc_current_task k \<noteq> None \<or> wc_mailbox k \<noteq> []"
  shows "(\<exists>t s' L'. wrapper_round s (Some a) = Inr (ToTask t, s) \<and> task_resume s t = Inr s' \<and> hplaced dl s' (ctl(a := HTask t)) (wake(t := Calm)) over L') \<or>
    (\<exists>s' k' L'. wrapper_round s (Some a) = Inr (ToContext, s') \<and> hy_workers s' a = Some k' \<and> wc_terminate k' = 0 \<and> hplaced dl s' (ctl(a := HRecv)) wake over L')"
proof -
  have "ctl a \<noteq> HOver" using a(2) by simp
  from wrapper_at [OF H a(1) this] obtain t p where w: "hosted L a = {t}" "L t = Some p" "host p = Some a" "wrap_state p t (wake t) HRecv k" "wc_wid k < 0"
    unfolding a(2) using k(1) by (metis option.inject)
  obtain c where c: "h_tasks (hy_store s) t = Some c" "htask_ok (hy_store s) t p (wake t) c"
    using tasks_partD [of "hy_store s" L wake t, OF hplacedD(5) [OF H] w(2)] .
  note move = wrapper_move [of dl s ctl wake over L a k _ t p c, OF H a(1) \<open>ctl a \<noteq> HOver\<close> k(1) _ _ w(2,1,3) c]
  consider (fresh) "p = WNew a" | (ready) "p = WReady a" | (woken) "p = WBlocked a" "wake t = Woken"
    using w(3,4) k(2) by (cases p) (auto simp: wake_box_def split: if_splits)
  then show ?thesis
  proof cases
    case ready
    let ?c = "c\<lparr>ht_sched_info := (ht_sched_info c)\<lparr>rec_cnt := 0\<rparr>, ht_state := TASK_RUNNING\<rparr>"
    let ?s = "put_task (s\<lparr>hy_workers := (hy_workers s)(a \<mapsto> k)\<rparr>) t ?c"
    have "wrapper_round s (Some a) = Inr (ToTask t, s)" using ready w(4) k(1) by (simp add: wrapper_round_def)
    moreover have "task_resume s t = Inr ?s" using ready c k(1) by (simp add: task_resume_def TaskStart_def put_task_def fun_upd_idem)
    moreover have "hplaced dl ?s (ctl(a := HTask t)) (wake(t := Calm)) over (L(t \<mapsto> WRun a))"
      by (rule move) (use ready w c in \<open>auto simp: links_def wake_box_def\<close>)
    ultimately show ?thesis by blast
  next
    case fresh
    let ?k = "k\<lparr>wc_mailbox := [], wc_current_task := Some t\<rparr>" and ?c = "set_state TASK_READY c"
    let ?s = "put_task (s\<lparr>hy_workers := (hy_workers s)(a \<mapsto> ?k)\<rparr>) t ?c"
    have "wrapper_round s (Some a) = Inr (ToContext, ?s)"
      using fresh w(4) k(1) c by (simp add: wrapper_round_def wrapper_msg_def put_task_def)
    moreover have "hplaced dl ?s (ctl(a := HRecv)) (wake(t := wake t)) over (L(t \<mapsto> WReady a))"
      by (rule move) (use fresh w c in \<open>auto simp: links_def\<close>)
    ultimately show ?thesis using fresh w(4) by (intro disjI2 exI [of _ ?s] exI [of _ ?k] exI [of _ "L(t \<mapsto> WReady a)"]) simp
  next
    case woken
    let ?k = "k\<lparr>wc_mailbox := [], wc_current_task := Some t\<rparr>" and ?c = "set_state TASK_READY c"
    let ?s = "put_task (s\<lparr>hy_workers := (hy_workers s)(a \<mapsto> ?k)\<rparr>) t ?c"
    have "wrapper_round s (Some a) = Inr (ToContext, ?s)"
      using woken w(4) k(1) c by (simp add: wrapper_round_def wrapper_msg_def put_task_def wake_box_def body_task_def)
    moreover have "hplaced dl ?s (ctl(a := HRecv)) (wake(t := wake t)) over (L(t \<mapsto> WReady a))"
      by (rule move) (use woken w c in \<open>auto simp: links_def\<close>)
    then have "hplaced dl ?s (ctl(a := HRecv)) wake over (L(t \<mapsto> WReady a))" by (simp only: fun_upd_triv)
    ultimately show ?thesis using woken w(4) by (intro disjI2 exI [of _ ?s] exI [of _ ?k] exI [of _ "L(t \<mapsto> WReady a)"]) simp
  qed
qed

lemma hinv_wrapper:
  assumes H: "hinv dl r L" and e: "henabled (EWrapper a) r"
  shows "\<exists>r' L'. hexec neg cal (EWrapper a) r = Some (Inr r') \<and> hinv dl r' L'"
proof -
  obtain k where a: "a \<notin> set (hy_table (hn_sys r))" "hn_ctl r a = HRecv" "hy_workers (hn_sys r) a = Some k" "wc_current_task k \<noteq> None \<or> wc_mailbox k \<noteq> []"
    using e by (auto split: option.splits)
  from wrapper_round_ok [OF H a] show ?thesis by (auto simp: go_on_def loop_end_def)
qed


lemma wrapper_end_ok:
  assumes H: "hplaced dl s ctl wake over L" and a: "a \<notin> set (hy_table s)" "ctl a = HBack t" and k: "hy_workers s a = Some k" "wc_terminate k \<noteq> 0"
  shows "\<exists>s' L'. wrapper_end s (Some a) = Inr s' \<and> hplaced dl s' (ctl(a := HOver)) wake over L'"
proof -
  have "ctl a \<noteq> HOver" using a(2) by simp
  from wrapper_at [OF H a(1) this] obtain u p where w: "hosted L a = {u}" "L u = Some p" "host p = Some a" "wrap_state p u (wake u) (HBack t) k" "wc_wid k < 0"
    unfolding a(2) using k(1) by (metis option.inject)
  have p: "p = WDone a" "u = t" using w(3,4) k(2) by (cases p, auto)+
  note w = w [unfolded p]
  obtain c where c: "h_tasks (hy_store s) t = Some c" "htask_ok (hy_store s) t (WDone a) (wake t) c"
    using tasks_partD [of "hy_store s" L wake t, OF hplacedD(5) [OF H] w(2)] .
  let ?w = "(hy_store s)\<lparr>h_tasks := (h_tasks (hy_store s))(t := None)\<rparr>" and ?k = "k\<lparr>wc_next := hy_free s\<rparr>" and ?L = "L(t := None)" and ?ctl = "ctl(a := HOver)"
  let ?s = "(set_store s ?w)\<lparr>hy_workers := (hy_workers s)(a \<mapsto> ?k), hy_free := Some a\<rparr>"
  have refs: "\<And>d sd. h_sds (hy_store s) d = Some sd \<Longrightarrow> sd_task sd \<noteq> Some t" and lk: "links c = (None, None)" and z: "ht_state c = TASK_ZOMBIE" "wake t = Calm"
    using c(2) by (auto simp: closed_task_def)
  note D = Destroy_ok [of dl "hy_master s" "tasks_in L PQueue" "waiting (hy_master s)" t c, OF hplacedD(1) [OF H] c(1) z(1) lk refs]
  have "wrapper_end s (Some a) = Inr ?s"
    using k w(4) D(1) by (simp add: wrapper_end_def addFreeWrapper_def)
  moreover have "hplaced dl ?s ?ctl wake over ?L"
  proof -
    have same: "q \<noteq> WDone a \<Longrightarrow> tasks_in ?L q = tasks_in L q" for q using tasks_in_other [of L t "WDone a" q, OF w(2)] by simp
    have W: "waiting (hy_master ?s) = waiting (hy_master s)" by (simp add: waiting_def)
    have "t \<notin> signalled (h_tasks (hy_store s)) L wake" using in_signalled [of L t "WDone a" "h_tasks (hy_store s)" c wake, OF w(2) c(1)] by simp
    then have sg: "signalled ((h_tasks (hy_store s))(t := None)) ?L wake = signalled (h_tasks (hy_store s)) L wake" by simp
    have m: "master_ok dl (hy_master ?s) (tasks_in ?L PQueue) (waiting (hy_master ?s))" using D(2) W same by simp
    have "mb_part (length (hy_table s)) (h_tasks (hy_store ?s)) ?L wake (hy_mastermb s)" using hplacedD(6) [OF H] sg same by (simp add: mb_part_def)
    moreover have "workers_part ?s ?ctl over ?L" unfolding workers_part_def
    proof (intro allI impI)
      fix i assume "i < length (hy_table ?s)"
      then have i: "i < length (hy_table s)" "hy_table s ! i \<noteq> a" using a(1) nth_mem by auto
      then show "\<exists>k. hy_workers ?s (hy_table ?s ! i) = Some k \<and> worker_ok (hy_table ?s ! i) i (ms_workermbs (hy_master ?s) ! i)
          (count_list (reqs (hy_mastermb ?s)) i) (i \<in> waiting (hy_master ?s)) over ?L (?ctl (hy_table ?s ! i)) k"
        using hplacedD(7) [OF H] worker_ok_cong [of ?L "hy_table s ! i" L] same W by (simp add: workers_part_def)
    qed
    moreover have "wrappers_part ?s ?ctl wake ?L"
    proof (rule wrappers_partI)
      fix b assume b: "b \<notin> set (hy_table ?s)" "hy_workers ?s b = None"
      then show "?ctl b = HOver \<and> hosted ?L b = {}" using wrappers_partD(1) [OF hplacedD(8) [OF H], of b] by (auto split: if_splits)
    next
      fix b j assume b: "b \<notin> set (hy_table ?s)" "hy_workers ?s b = Some j"
      show "wrapper_ok b ?L wake (?ctl b) j"
      proof (cases "b = a")
        case True
        then show ?thesis using b w by (auto simp: wrapper_ok_def)
      next
        case False
        have "t \<notin> hosted L b" using in_hosted [of L t "WDone a" b, OF w(2)] False by simp
        then have "hosted ?L b = hosted L b" "\<And>u. u \<in> hosted L b \<Longrightarrow> ?L u = L u" by auto
        then show ?thesis using wrapper_ok_cong [of ?L b L wake wake] wrappers_partD(2) [OF hplacedD(8) [OF H], of b j] b False by simp
      qed
    qed
    moreover have "seats_part ?s ?L" using hplacedD(9) [OF H] by (auto simp: seats_part_def split: if_splits)
    moreover have "free_part ?s ?ctl"
    proof -
      from hplacedD(10) [OF H] obtain fs where fs: "nlist (fld wc_next (hy_workers s)) (hy_free s) fs"
        "set fs = {a. a \<in> dom (hy_workers s) \<and> a \<notin> set (hy_table s) \<and> ctl a = HOver}" unfolding free_part_def by blast
      have "a \<notin> set fs" using fs(2) a(2) by simp
      moreover have "fld wc_next ((hy_workers s)(a \<mapsto> ?k)) = (fld wc_next (hy_workers s))(a := hy_free s)" by (auto simp: fld_def)
      ultimately have "nlist (fld wc_next (hy_workers ?s)) (hy_free ?s) (a # fs)" using fs(1) by (simp add: nlist_Cons nlist_upd)
      moreover have "set (a # fs) = {b. b \<in> dom (hy_workers ?s) \<and> b \<notin> set (hy_table ?s) \<and> ?ctl b = HOver}" using fs(2) a(1) by auto
      ultimately show ?thesis unfolding free_part_def by blast
    qed
    moreover have "tasks_part ?w ?L wake" using hplacedD(5) [OF H] z(2) by (rule tasks_part_rem)
    ultimately show ?thesis unfolding hplaced_def using m W hplacedD(2-4) [OF H] same by simp
  qed
  ultimately show ?thesis by blast
qed

lemma hinv_back:
  assumes H: "hinv dl r L" and e: "henabled (EBack a) r"
  shows "\<exists>r' L'. hexec neg cal (EBack a) r = Some (Inr r') \<and> hinv dl r' L'"
proof -
  from e obtain t where x: "hn_ctl r a = HBack t" by (auto split: hctl.splits)
  show ?thesis
  proof (cases "a \<in> set (hy_table (hn_sys r))")
    case True
    from worker_back_ok [OF H x True] show ?thesis using x True by (auto simp: loop_end_def)
  next
    case False
    have "hn_ctl r a \<noteq> HOver" using x by simp
    from wrapper_at [OF H False this] obtain k where k: "hy_workers (hn_sys r) a = Some k" by blast
    show ?thesis
    proof (cases "wc_terminate k = 0")
      case True
      then show ?thesis using wrapper_stay [OF H False x k] x False k by (auto simp: loop_end_def)
    next
      case ended: False
      then show ?thesis using wrapper_end_ok [OF H False x k] x False k by (auto simp: loop_end_def)
    qed
  qed
qed


subsection \<open>Announcing a block, waking, terminating\<close>

lemma wait_ok:
  assumes H: "hplaced dl s ctl wake over L" and x: "ctl a = HTask t" "wake t = Calm"
  shows "hplaced dl s ctl (wake(t := Wanted)) over L"
  using H x(1)
proof (cases rule: runs_cases)
  case (worker i k c)
  have idem: "(h_tasks (hy_store s))(t \<mapsto> c) = h_tasks (hy_store s)" "L(t \<mapsto> PRun a) = L" "ctl(a := HTask t) = ctl" "(hy_workers s)(a \<mapsto> k) = hy_workers s"
    using worker x by (simp_all add: fun_upd_idem)
  have inj: "j < length (hy_table s) \<Longrightarrow> hy_table s ! j = a \<longleftrightarrow> j = i" for j using hplacedD(4) [OF H] worker(1,2) nth_eq_iff_index_eq by blast
  have at: "a \<in> set (hy_table s)" using worker(1,2) nth_mem by blast
  have "hplaced dl s (ctl(a := HTask t)) (wake(t := Wanted)) over (L(t \<mapsto> PRun a))"
  proof (rule hplaced_move [of dl s ctl wake over L t "PRun a" c "PRun a" c Wanted a k k s, OF H worker(4,6)])
    show "mb_part (length (hy_table s)) ((h_tasks (hy_store s))(t \<mapsto> c)) (L(t \<mapsto> PRun a)) (wake(t := Wanted)) (hy_mastermb s)"
      by (rule mb_part_move [of _ _ L wake _ t, OF hplacedD(6) [OF H] worker(4,6)]) (use x worker(7) in auto)
    show "htask_ok (hy_store s) t (PRun a) Wanted c" using worker(7) x(2) by auto
    show "worker_ok a j (ms_workermbs (hy_master s) ! j) (count_list (reqs (hy_mastermb s)) j) (j \<in> waiting (hy_master s)) over (L(t \<mapsto> PRun a)) (HTask t) k"
      if "j < length (hy_table s)" "hy_table s ! j = a" for j using inj [OF that(1)] that worker(5) unfolding idem by simp
  qed (use worker at idem in auto)
  then show ?thesis unfolding idem .
next
  case (wrapper k c)
  have idem: "put_task (s\<lparr>hy_workers := (hy_workers s)(a \<mapsto> k)\<rparr>) t c = s" "L(t \<mapsto> WRun a) = L" "ctl(a := HTask t) = ctl"
    using wrapper x by (simp_all add: fun_upd_idem put_task_def)
  have "hplaced dl (put_task (s\<lparr>hy_workers := (hy_workers s)(a \<mapsto> k)\<rparr>) t c) (ctl(a := HTask t)) (wake(t := Wanted)) over (L(t \<mapsto> WRun a))"
    by (rule wrapper_move [where p = "WRun a" and c = c and k = k, OF H]) (use wrapper x in \<open>auto simp: wake_box_def\<close>)
  then show ?thesis unfolding idem .
qed

text \<open>A wakeup of a task of the workers goes to the master, whichever context wakes it.\<close>

lemma unblock_master_ok:
  assumes H: "hplaced dl s ctl wake over L" and x: "ctl a = HTask t" and b: "L b = Some p" "awaits p" "wake b = Wanted"
    and c: "h_tasks (hy_store s) b = Some c" "htask_ok (hy_store s) b p (wake b) c"
  shows "hplaced dl (send_master s (task_msg WORKER_MSG_WAKEUP (Some b))) ctl (wake(b := Woken)) over L"
proof -
  let ?s = "send_master s (task_msg WORKER_MSG_WAKEUP (Some b))" and ?h = "h_tasks (hy_store s)"
  obtain k where k: "hy_workers s a = Some k" using H x by (cases rule: runs_cases) auto
  have z: "ht_wakenup c = 0" using c(2) b(2,3) by (cases p) (auto simp: stopped_def)
  have nh: "host p = None" "p \<noteq> PNew" "p \<noteq> PQueue" using b(2) by (cases p, auto)+
  have idem: "?h(b \<mapsto> c) = ?h" "L(b \<mapsto> p) = L" "ctl(a := ctl a) = ctl" "(hy_workers s)(a \<mapsto> k) = hy_workers s"
    using c(1) b(1) k by (simp_all add: fun_upd_idem)
  have "hplaced dl ?s (ctl(a := ctl a)) (wake(b := Woken)) over (L(b \<mapsto> p))"
  proof (rule hplaced_move [of dl s ctl wake over L b p c p c Woken a k k ?s, OF H b(1) c(1)])
    have "b \<notin> signalled ?h L wake" using b(3) by (simp add: signalled_def)
    moreover have "signalled (?h(b \<mapsto> c)) (L(b \<mapsto> p)) (wake(b := Woken)) = insert b (signalled ?h L wake)" using b(2) z by simp
    ultimately show "mb_part (length (hy_table s)) (?h(b \<mapsto> c)) (L(b \<mapsto> p)) (wake(b := Woken)) (hy_mastermb ?s)"
      using hplacedD(6) [OF H] unfolding idem by (auto simp: mb_part_def send_master_def msg_task_def)
    show "htask_ok (hy_store s) b p Woken c" using c(2) b(2,3) by (cases p) (auto simp: stopped_def)
    show "ht_state c \<noteq> TASK_INQUEUE" "ht_state c \<noteq> TASK_INQUEUE" using c(2) b(2) by (cases p; auto simp: stopped_def)+
    have "b \<notin> hosted L a" using in_hosted [of L b p a, OF b(1)] nh by simp
    then have "wrapper_ok a L wake (ctl a) k \<Longrightarrow> wrapper_ok a L (wake(b := Woken)) (ctl a) k" by - (rule wrapper_ok_cong [of L a L _ wake], auto)
    then show "a \<notin> set (hy_table s) \<Longrightarrow> wrapper_ok a (L(b \<mapsto> p)) (wake(b := Woken)) (ctl a) k \<and> (ctl a = HOver \<longleftrightarrow> ctl a = HOver)"
      using wrappers_partD(2) [OF hplacedD(8) [OF H], of a k] k unfolding idem by simp
    show "worker_ok a j (ms_workermbs (hy_master ?s) ! j) (count_list (reqs (hy_mastermb ?s)) j) (j \<in> waiting (hy_master s)) over (L(b \<mapsto> p)) (ctl a) k"
      if "j < length (hy_table s)" "hy_table s ! j = a" for j
      using hplacedD(7) [OF H] that k unfolding idem by (auto simp: workers_part_def send_master_def)
  qed (use nh k idem in \<open>auto simp: send_master_def fun_upd_idem\<close>)
  then show ?thesis unfolding idem .
qed

lemma hrc_unblock_ok:
  assumes H: "hplaced dl s ctl wake over L" and x: "ctl a = HTask t" and b: "wake b = Wanted"
  shows "\<exists>s' L'. LpelTaskUnblock_hrc s (Some b) = Inr s' \<and> hplaced dl s' ctl (wake(b := Woken)) over L'"
proof -
  obtain p where p: "L b = Some p" using tasks_part_None(2) [OF hplacedD(5) [OF H], of b] b by (cases "L b") auto
  obtain c where c: "h_tasks (hy_store s) b = Some c" "htask_ok (hy_store s) b p (wake b) c"
    using tasks_partD [of "hy_store s" L wake b, OF hplacedD(5) [OF H] p] .
  show ?thesis
  proof (cases "awaits p")
    case True
    have "ht_worker_context c = None \<or> (\<exists>e k. ht_worker_context c = Some e \<and> hy_workers s e = Some k \<and> wc_wid k \<ge> 0)"
    proof (cases "seat p")
      case None
      then show ?thesis using c(2) True by (cases p) auto
    next
      case (Some e)
      then have "e \<in> set (hy_table s)" using hplacedD(9) [OF H] p unfolding seats_part_def by blast
      from worker_at [OF H this] obtain i k where k: "hy_workers s e = Some k" and w: "worker_ok e i (ms_workermbs (hy_master s) ! i)
        (count_list (reqs (hy_mastermb s)) i) (i \<in> waiting (hy_master s)) over L (ctl e) k" by metis
      from w have "wc_wid k = int i" by (simp add: worker_ok_def)
      note k this
      moreover have "ht_worker_context c = Some e" using c(2) True Some by (cases p) auto
      ultimately show ?thesis by auto
    qed
    then have "LpelTaskUnblock_hrc s (Some b) = Inr (send_master s (task_msg WORKER_MSG_WAKEUP (Some b)))"
      using c(1) by (auto simp: LpelTaskUnblock_hrc_def LpelWorkerTaskWakeup_hrc_def sendWakeup_def)
    then show ?thesis using unblock_master_ok [of dl s ctl wake over L a t b p c, OF H x p True b c] by blast
  next
    case False
    then obtain e where e: "host p = Some e" "ht_worker_context c = Some e" "p = WRun e \<or> p = WBlocked e" using c(2) b by (cases p) auto
    have ne: "e \<notin> set (hy_table s)" using hplacedD(9) [OF H] p e(1) unfolding seats_part_def by blast
    have be: "b \<in> hosted L e" using in_hosted [of L b p e, OF p] e(1) by simp
    have nov: "ctl e \<noteq> HOver"
    proof
      assume o: "ctl e = HOver"
      obtain k where k: "hy_workers s e = Some k" using wrappers_partD(1) [OF hplacedD(8) [OF H] ne] be by auto
      from wrappers_partD(2) [OF hplacedD(8) [OF H] ne k] o be obtain q where "L b = Some q" "wrap_state q b (wake b) HOver k" by (auto simp: wrapper_ok_def)
      then show False by (cases q) auto
    qed
    from wrapper_at [OF H ne nov] be p obtain k where
      w: "hy_workers s e = Some k" "hosted L e = {b}" "wrap_state p b (wake b) (ctl e) k" "wc_wid k < 0" by (metis option.inject singletonD)
    let ?k = "k\<lparr>wc_mailbox := wc_mailbox k @ [task_msg WORKER_MSG_WAKEUP (Some b)]\<rparr>"
    let ?s = "put_task (s\<lparr>hy_workers := (hy_workers s)(e \<mapsto> ?k)\<rparr>) b c"
    have "LpelTaskUnblock_hrc s (Some b) = Inr ?s"
      using c(1) e(2) w(1,4) by (simp add: LpelTaskUnblock_hrc_def LpelWorkerTaskWakeup_hrc_def sendWakeup_def send_wrapper_def put_task_def fun_upd_idem)
    moreover have "hplaced dl ?s (ctl(e := ctl e)) (wake(b := Woken)) over (L(b \<mapsto> p))"
      by (rule wrapper_move [where p = p and c = c and k = k, OF H ne nov w(1) _ _ p w(2) e(1) c])
        (use w e(3) b c(2) nov in \<open>auto simp: wake_box_def\<close>)
    ultimately show ?thesis by auto
  qed
qed

lemma terminate_ok: "hplaced dl s ctl wake over L \<Longrightarrow> hplaced dl (LpelWorkersTerminate_hrc s) ctl wake over L"
  using mb_part_snoc_term
  by (auto simp: hplaced_def LpelWorkersTerminate_hrc_def send_master_def workers_part_def wrappers_part_def seats_part_def free_part_def)


subsection \<open>Work on streams\<close>

lemma stream_workD:
  assumes "stream_work t w w'"
  shows "h_tasks w' u = None \<longleftrightarrow> h_tasks w u = None"
    "h_tasks w u = Some c \<Longrightarrow> \<exists>c'. h_tasks w' u = Some c' \<and> sched_same (u = t) c c'"
    "h_tasks w' u = Some c' \<Longrightarrow> \<exists>c. h_tasks w u = Some c \<and> sched_same (u = t) c c'"
proof -
  have r: "rel_option (sched_same (u = t)) (h_tasks w u) (h_tasks w' u)" using assms by (simp add: stream_work_def)
  then show "h_tasks w' u = None \<longleftrightarrow> h_tasks w u = None" by (cases "h_tasks w u"; cases "h_tasks w' u") auto
  show "h_tasks w u = Some c \<Longrightarrow> \<exists>c'. h_tasks w' u = Some c' \<and> sched_same (u = t) c c'" using r by (cases "h_tasks w' u") auto
  show "h_tasks w' u = Some c' \<Longrightarrow> \<exists>c. h_tasks w u = Some c \<and> sched_same (u = t) c c'" using r by (cases "h_tasks w u") auto
qed

lemma master_ok_work:
  assumes m: "master_ok dl m S W" and sw: "stream_work t (ms_store m) w"
  shows "master_ok dl (m\<lparr>ms_store := w\<rparr>) S W"
proof -
  have q: "queue_ok dl (ms_ready_tasks m) (ms_store m) S" using m by (simp add: master_ok_def)
  have same: "\<exists>c c'. h_tasks (ms_store m) u = Some c \<and> h_tasks w u = Some c' \<and> sched_same (u = t) c c'" if "u \<in> S" for u
    using q that stream_workD(2) [OF sw, of u] by (auto simp: queue_ok_def inq_def)
  then have pr: "prio_at (h_tasks w) u = prio_at (h_tasks (ms_store m)) u" if "u \<in> S" for u
    using that by (fastforce simp: prio_at_def sched_same_def)
  have "S \<subseteq> dom (h_tasks w)" using same by blast
  moreover have "th_inv (ms_ready_tasks m) (h_tasks (ms_store m)) S" using q by (simp add: queue_ok_def)
  ultimately have "th_inv (ms_ready_tasks m) (h_tasks w) S" using pr th_inv_frame by blast
  moreover have "inq (h_tasks w) S" unfolding inq_def
  proof
    fix u
    have "u \<in> S \<longleftrightarrow> (\<exists>c. h_tasks (ms_store m) u = Some c \<and> ht_state c = TASK_INQUEUE)" using q by (simp add: queue_ok_def inq_def)
    also have "\<dots> \<longleftrightarrow> (\<exists>c. h_tasks w u = Some c \<and> ht_state c = TASK_INQUEUE)"
      using stream_workD(2,3) [OF sw, of u] by (metis sched_same_def)
    finally show "u \<in> S \<longleftrightarrow> (\<exists>c. h_tasks w u = Some c \<and> ht_state c = TASK_INQUEUE)" .
  qed
  moreover have "dl \<longrightarrow> nolow (h_tasks w) S" using q pr by (auto simp: nolow_def queue_ok_def)
  ultimately have "queue_ok dl (ms_ready_tasks m) w S" using sw by (simp add: queue_ok_def stream_work_def)
  then show ?thesis using m by (simp add: master_ok_def waiting_def)
qed

lemma htask_ok_work:
  assumes "htask_ok w u p x c" and "sched_same (u = t) c c'" and "\<And>d sd. ht_state c = TASK_ZOMBIE \<Longrightarrow> h_sds w' d = Some sd \<Longrightarrow> sd_task sd \<noteq> Some u"
    and "u = t \<Longrightarrow> ht_state c = TASK_RUNNING"
  shows "htask_ok w' u p x c'"
  using assms by (cases p) (auto simp: stopped_def closed_task_def sched_same_def)

lemma work_ok:
  assumes H: "hplaced dl s ctl wake over L" and x: "ctl a = HTask t" and sw: "stream_work t (hy_store s) w"
  shows "hplaced dl (set_store s w) ctl wake over L"
proof -
  have rt: "h_tasks (hy_store s) t = Some c \<Longrightarrow> ht_state c = TASK_RUNNING" for c using H x by (cases rule: runs_cases) auto
  have "tasks_part w L wake" unfolding tasks_part_def
  proof
    fix u
    show "case L u of None \<Rightarrow> h_tasks w u = None \<and> wake u = Calm | Some p \<Rightarrow> (\<exists>c. h_tasks w u = Some c \<and> htask_ok w u p (wake u) c)"
    proof (cases "L u")
      case None
      then show ?thesis using tasks_part_None [of "hy_store s" L wake u, OF hplacedD(5) [OF H]] stream_workD(1) [OF sw, of u] by simp
    next
      case (Some p)
      obtain c where c: "h_tasks (hy_store s) u = Some c" "htask_ok (hy_store s) u p (wake u) c"
        using tasks_partD [of "hy_store s" L wake u, OF hplacedD(5) [OF H] Some] .
      from stream_workD(2) [of t "hy_store s" w u, OF sw c(1)] obtain c' where c': "h_tasks w u = Some c'" "sched_same (u = t) c c'" by blast
      have "htask_ok w u p (wake u) c'"
      proof (rule htask_ok_work [OF c(2) c'(2)])
        show "ht_state c = TASK_ZOMBIE \<Longrightarrow> h_sds w d = Some sd \<Longrightarrow> sd_task sd \<noteq> Some u" for d sd using sw c(1) unfolding stream_work_def by blast
        show "u = t \<Longrightarrow> ht_state c = TASK_RUNNING" using rt c(1) by blast
      qed
      then show ?thesis using Some c'(1) by simp
    qed
  qed
  moreover have "(\<exists>c. h_tasks w u = Some c \<and> ht_wakenup c = 0) = (\<exists>c. h_tasks (hy_store s) u = Some c \<and> ht_wakenup c = 0)" for u
    using stream_workD(2,3) [OF sw, of u] unfolding sched_same_def by metis
  then have "signalled (h_tasks w) L wake = signalled (h_tasks (hy_store s)) L wake" by (auto simp: signalled_def)
  then have "mb_part (length (hy_table s)) (h_tasks w) L wake (hy_mastermb s)" using hplacedD(6) [OF H] by (simp add: mb_part_def)
  moreover have "master_ok dl ((hy_master s)\<lparr>ms_store := w\<rparr>) (tasks_in L PQueue) (waiting (hy_master s))" using hplacedD(1) [OF H] sw by (rule master_ok_work)
  ultimately show ?thesis using hplacedD [OF H]
    by (simp add: hplaced_def workers_part_def wrappers_part_def seats_part_def free_part_def waiting_def)
qed

subsection \<open>New tasks\<close>

lemma master_ok_new:
  assumes m: "master_ok dl m S W" and t: "h_tasks (ms_store m) t = None" and c: "links c = (None, None)" "ht_state c \<noteq> TASK_INQUEUE"
  shows "master_ok dl (m\<lparr>ms_store := (ms_store m)\<lparr>h_tasks := (h_tasks (ms_store m))(t \<mapsto> c)\<rparr>\<rparr>) S W"
proof -
  let ?w = "ms_store m" and ?h = "(h_tasks (ms_store m))(t \<mapsto> c)"
  have q: "queue_ok dl (ms_ready_tasks m) ?w S" using m by (simp add: master_ok_def)
  have tS: "t \<notin> S" using q t by (auto simp: queue_ok_def inq_def)
  then have pr: "u \<in> S \<Longrightarrow> prio_at ?h u = prio_at (h_tasks ?w) u" for u by (auto simp: prio_at_def)
  have "S \<subseteq> dom ?h" using q by (auto simp: queue_ok_def inq_def)
  moreover have "th_inv (ms_ready_tasks m) (h_tasks ?w) S" using q by (simp add: queue_ok_def)
  ultimately have "th_inv (ms_ready_tasks m) ?h S" using pr th_inv_frame by blast
  moreover have "inq ?h S" using q tS c(2) by (auto simp: queue_ok_def inq_def)
  moreover have "dl \<longrightarrow> nolow ?h S" using q pr by (auto simp: queue_ok_def nolow_def)
  moreover have "store_wf (?w\<lparr>h_tasks := ?h\<rparr>)"
  proof -
    have wf: "store_wf ?w" using q by (simp add: queue_ok_def)
    have old: "task_wf (?w\<lparr>h_tasks := ?h\<rparr>) u" if "task_wf ?w u" "u \<noteq> t" for u using that unfolding task_wf_def by simp
    have new: "task_wf (?w\<lparr>h_tasks := ?h\<rparr>) t" using c(1) unfolding task_wf_def
      by (intro exI [of _ c] exI [of _ "[]"]) (simp add: links_def el_rep_def elems_ok_def)
    have "counts_ok ?w (None, None)" by (auto simp: counts_ok_def el_rep_def count_spec_def c_count_def)
    moreover have "ends_ok (?w\<lparr>h_tasks := ?h\<rparr>) p" if "ends_ok ?w p" for p using that by (auto simp: ends_ok_def)
    ultimately show ?thesis using wf old new c(1) unfolding store_wf_def by (auto split: if_splits)
  qed
  ultimately show ?thesis using m by (simp add: master_ok_def queue_ok_def waiting_def)
qed


definition new_task :: "32 word \<Rightarrow> ptr \<Rightarrow> int \<Rightarrow> ptr \<Rightarrow> ptr \<Rightarrow> int \<Rightarrow> hrc_task_t" where
  "new_task seq wp mapto func inarg sz = \<lparr>ht_prev = None, ht_next = None, ht_uid = seq, ht_state = TASK_CREATED, ht_wakenup = 0,
     ht_worker_context = (if mapto \<noteq> LPEL_MAP_MASTER then wp else None), ht_wakeup_sd = None, ht_poll_token = 0, ht_mon = None,
     ht_size = (if sz \<le> 0 then LPEL_TASK_SIZE_DEFAULT else sz), ht_func = func, ht_inarg = inarg, ht_outarg = None, ht_dynamic = 0,
     ht_sched_info = \<lparr>rec_cnt = 0, rec_limit_factor = - 1, rec_limit = 0, prior = 0, in_streams = None, out_streams = None\<rparr>\<rparr>"

lemma new_task_simps [simp]: "ht_state (new_task seq wp mapto func inarg sz) = TASK_CREATED" "ht_wakenup (new_task seq wp mapto func inarg sz) = 0"
  "ht_worker_context (new_task seq wp mapto func inarg sz) = (if mapto \<noteq> LPEL_MAP_MASTER then wp else None)" "links (new_task seq wp mapto func inarg sz) = (None, None)"
  by (simp_all add: new_task_def links_def)

lemma TaskCreate_new:
  assumes "h_tasks w t = None" and "sz \<le> 0 \<or> sz \<ge> TASK_MINSIZE"
  shows "LpelTaskCreate True w seq (Some t) wp mapto func inarg sz =
    Inr (Some t, w\<lparr>h_tasks := (h_tasks w)(t \<mapsto> new_task seq wp mapto func inarg sz)\<rparr>, seq + 1)"
  using assms by (auto simp: LpelTaskCreate_def new_task_def alloc_at_def LPEL_TASK_SIZE_DEFAULT_def TASK_MINSIZE_def)

lemma spawn_worker_ok:
  assumes H: "hplaced dl s ctl wake over L" and t: "h_tasks (hy_store s) t = None" and sz: "sz \<le> 0 \<or> sz \<ge> TASK_MINSIZE"
  shows "hplaced dl (put_task (send_master s (assign_msg t)) t (new_task seq wp LPEL_MAP_MASTER func inarg sz)) ctl wake over (L(t \<mapsto> PNew))"
proof -
  let ?c = "new_task seq wp LPEL_MAP_MASTER func inarg sz" and ?L = "L(t \<mapsto> PNew)"
  let ?s = "put_task (send_master s (assign_msg t)) t ?c"
  have l: "L t = None" using tasks_part_unused [OF hplacedD(5) [OF H] t] .
  have wk: "wake t = Calm" using tasks_part_None(2) [of "hy_store s" L wake t, OF hplacedD(5) [OF H] l] .
  have same: "q \<noteq> PNew \<Longrightarrow> tasks_in ?L q = tasks_in L q" "hosted ?L b = hosted L b" "u \<in> hosted L b \<Longrightarrow> ?L u = L u" for q b u
    using l by (auto simp: tasks_in_def hosted_def)
  have W: "waiting (hy_master ?s) = waiting (hy_master s)" by (simp add: waiting_def send_master_def)
  have "master_ok dl ((hy_master s)\<lparr>ms_store := (hy_store s)\<lparr>h_tasks := (h_tasks (hy_store s))(t \<mapsto> ?c)\<rparr>\<rparr>) (tasks_in L PQueue) (waiting (hy_master s))"
    using hplacedD(1) [OF H] t by (rule master_ok_new) simp_all
  then have m: "master_ok dl (hy_master ?s) (tasks_in ?L PQueue) (waiting (hy_master ?s))"
    unfolding W same(1) [OF hplace.distinct(1) [symmetric]] by (rule master_ok_cong) (simp_all add: send_master_def)
  have tp: "tasks_part (hy_store ?s) ?L wake"
    using tasks_part_upd [of "hy_store s" L wake t PNew Calm ?c, OF hplacedD(5) [OF H]] wk by (simp add: send_master_def LPEL_MAP_MASTER_def fun_upd_idem)
  have "t \<notin> signalled (h_tasks (hy_store s)) L wake" using l by (simp add: signalled_def)
  then have sg: "signalled ((h_tasks (hy_store s))(t \<mapsto> ?c)) ?L wake = signalled (h_tasks (hy_store s)) L wake"
    using wk signalled_upd [of "h_tasks (hy_store s)" t ?c L PNew wake Calm] by (simp add: fun_upd_idem)
  have "t \<notin> tasks_in L PNew" using l by (simp add: tasks_in_def)
  then have mb: "mb_part (length (hy_table s)) (h_tasks (hy_store ?s)) ?L wake (hy_mastermb ?s)"
    using hplacedD(6) [OF H] sg same(1) [of PRet] by (simp add: mb_part_def send_master_def msg_task_def assign_msg_def)
  have wp: "workers_part ?s ctl over ?L"
    using hplacedD(7) [OF H] worker_ok_cong [OF same(1) same(1) same(1)] W by (simp add: workers_part_def send_master_def assign_msg_def)
  have "wrappers_part ?s ctl wake ?L"
  proof (rule wrappers_partI)
    fix b assume "b \<notin> set (hy_table ?s)" "hy_workers ?s b = None"
    then show "ctl b = HOver \<and> hosted ?L b = {}" using wrappers_partD(1) [OF hplacedD(8) [OF H], of b] same(2) [of b] by (simp add: send_master_def)
  next
    fix b j assume "b \<notin> set (hy_table ?s)" "hy_workers ?s b = Some j"
    then have "wrapper_ok b L wake (ctl b) j" using wrappers_partD(2) [OF hplacedD(8) [OF H], of b j] by (simp add: send_master_def)
    then show "wrapper_ok b ?L wake (ctl b) j" by (rule wrapper_ok_cong [OF same(2), rotated]) (use same(3) [of _ b] in blast)
  qed
  moreover have "seats_part ?s ?L" using hplacedD(9) [OF H] by (auto simp: seats_part_def send_master_def split: if_splits)
  ultimately show ?thesis using m tp mb wp W hplacedD [OF H] same(1) by (simp add: hplaced_def free_part_def send_master_def)
qed


text \<open>A wrapper context that is new or taken from the list of free ones gets its task.\<close>

lemma host_new_ok:
  assumes H: "hplaced dl s ctl wake over L" and t: "h_tasks (hy_store s) t = None" and a: "a \<notin> set (hy_table s)" "ctl a = HOver"
    and k: "wc_wid k < 0" "wc_mailbox k = [assign_msg t]" "wc_current_task k = None" "wc_terminate k = 0"
    and c: "ht_state c = TASK_CREATED" "ht_wakenup c = 0" "ht_worker_context c = Some a" "links c = (None, None)"
    and fs: "nlist (fld wc_next ((hy_workers s)(a \<mapsto> k))) f fs" "set fs = {b. b \<in> dom (hy_workers s) \<and> b \<notin> set (hy_table s) \<and> ctl b = HOver} - {a}"
  shows "hplaced dl (put_task (s\<lparr>hy_workers := (hy_workers s)(a \<mapsto> k), hy_free := f\<rparr>) t c) (ctl(a := HRecv)) wake over (L(t \<mapsto> WNew a))"
proof -
  let ?s = "put_task (s\<lparr>hy_workers := (hy_workers s)(a \<mapsto> k), hy_free := f\<rparr>) t c" and ?L = "L(t \<mapsto> WNew a)" and ?ctl = "ctl(a := HRecv)"
  have l: "L t = None" using tasks_part_unused [OF hplacedD(5) [OF H] t] .
  have wk: "wake t = Calm" using tasks_part_None(2) [of "hy_store s" L wake t, OF hplacedD(5) [OF H] l] .
  have same: "host q = None \<Longrightarrow> tasks_in ?L q = tasks_in L q" "b \<noteq> a \<Longrightarrow> hosted ?L b = hosted L b" "u \<in> hosted L b \<Longrightarrow> ?L u = L u" for q b u
    using l by (auto simp: tasks_in_def hosted_def)
  have no: "hosted L a = {}"
  proof (cases "hy_workers s a")
    case None
    then show ?thesis using wrappers_partD(1) [OF hplacedD(8) [OF H] a(1)] by simp
  next
    case (Some j)
    have "\<not> wrap_state p u x HOver j" for p u x by (cases p) auto
    then show ?thesis using wrappers_partD(2) [OF hplacedD(8) [OF H] a(1) Some] a(2) by (auto simp: wrapper_ok_def)
  qed
  have W: "waiting (hy_master ?s) = waiting (hy_master s)" by (simp add: waiting_def)
  have "master_ok dl ((hy_master s)\<lparr>ms_store := (hy_store s)\<lparr>h_tasks := (h_tasks (hy_store s))(t \<mapsto> c)\<rparr>\<rparr>) (tasks_in L PQueue) (waiting (hy_master s))"
    using hplacedD(1) [OF H] t by (rule master_ok_new) (simp_all add: c)
  then have "master_ok dl (hy_master ?s) (tasks_in L PQueue) (waiting (hy_master s))" by (rule master_ok_cong) simp_all
  then have m: "master_ok dl (hy_master ?s) (tasks_in ?L PQueue) (waiting (hy_master ?s))" unfolding W using same(1) [of PQueue] by simp
  have tp: "tasks_part (hy_store ?s) ?L wake"
    using tasks_part_upd [of "hy_store s" L wake t "WNew a" Calm c, OF hplacedD(5) [OF H]] wk c by (simp add: fun_upd_idem)
  have "t \<notin> signalled (h_tasks (hy_store s)) L wake" using l by (simp add: signalled_def)
  then have sg: "signalled ((h_tasks (hy_store s))(t \<mapsto> c)) ?L wake = signalled (h_tasks (hy_store s)) L wake"
    using wk signalled_upd [of "h_tasks (hy_store s)" t c L "WNew a" wake Calm] by (simp add: fun_upd_idem)
  have mb: "mb_part (length (hy_table s)) (h_tasks (hy_store ?s)) ?L wake (hy_mastermb ?s)"
    using hplacedD(6) [OF H] sg same(1) [of PRet] same(1) [of PNew] by (simp add: mb_part_def)
  have cong: "worker_ok b i mbx n idle over ?L x j = worker_ok b i mbx n idle over L x j" for b i mbx n idle x j
    by (rule worker_ok_cong) (rule same(1), simp)+
  have wp: "workers_part ?s ?ctl over ?L" unfolding workers_part_def cong
  proof (intro allI impI)
    fix i assume "i < length (hy_table ?s)"
    then have i: "i < length (hy_table s)" "hy_table s ! i \<noteq> a" using a(1) nth_mem by auto
    then show "\<exists>k. hy_workers ?s (hy_table ?s ! i) = Some k \<and> worker_ok (hy_table ?s ! i) i (ms_workermbs (hy_master ?s) ! i)
        (count_list (reqs (hy_mastermb ?s)) i) (i \<in> waiting (hy_master ?s)) over L (?ctl (hy_table ?s ! i)) k"
      using hplacedD(7) [OF H] W by (simp add: workers_part_def)
  qed
  have "wrappers_part ?s ?ctl wake ?L"
  proof (rule wrappers_partI)
    fix b assume "b \<notin> set (hy_table ?s)" "hy_workers ?s b = None"
    then show "?ctl b = HOver \<and> hosted ?L b = {}" using wrappers_partD(1) [OF hplacedD(8) [OF H], of b] same(2) [of b] by (auto split: if_splits)
  next
    fix b j assume b: "b \<notin> set (hy_table ?s)" "hy_workers ?s b = Some j"
    show "wrapper_ok b ?L wake (?ctl b) j"
    proof (cases "b = a")
      case True
      then show ?thesis using b k no wk by (auto simp: wrapper_ok_def)
    next
      case False
      then have "wrapper_ok b L wake (ctl b) j" using wrappers_partD(2) [OF hplacedD(8) [OF H], of b j] b by simp
      then have "wrapper_ok b ?L wake (ctl b) j" by (rule wrapper_ok_cong [OF same(2) [OF False], rotated]) (use same(3) [of _ b] in blast)
      then show ?thesis using False by simp
    qed
  qed
  moreover have "seats_part ?s ?L" using hplacedD(9) [OF H] a(1) by (auto simp: seats_part_def split: if_splits)
  moreover have "free_part ?s ?ctl" unfolding free_part_def using fs a(1) by (intro exI [of _ fs]) auto
  ultimately show ?thesis using m tp mb wp W hplacedD [OF H] same(1) [of PQueue] by (simp add: hplaced_def)
qed


lemma CreateWrapper_ok:
  assumes H: "hplaced dl s ctl wake over L" and new: "hy_workers s wnew = None" and wid: "wid < 0"
  shows "\<exists>a k f fs. LpelCreateWrapperContext s junk (Some wnew) wid = Inr (Some a, s\<lparr>hy_workers := (hy_workers s)(a \<mapsto> k), hy_free := f\<rparr>) \<and>
    a \<notin> set (hy_table s) \<and> ctl a = HOver \<and> wc_wid k = wid \<and> wc_mailbox k = [] \<and> wc_current_task k = None \<and> wc_terminate k = 0 \<and> a \<notin> set fs \<and>
    nlist (fld wc_next (hy_workers s)) f fs \<and> set fs = {b. b \<in> dom (hy_workers s) \<and> b \<notin> set (hy_table s) \<and> ctl b = HOver} - {a}"
proof -
  from hplacedD(10) [OF H] obtain fs where fs: "nlist (fld wc_next (hy_workers s)) (hy_free s) fs"
    "set fs = {a. a \<in> dom (hy_workers s) \<and> a \<notin> set (hy_table s) \<and> ctl a = HOver}" unfolding free_part_def by blast
  show ?thesis
  proof (cases fs)
    case Nil
    let ?k = "junk\<lparr>wc_mailbox := [], wc_free_sd := None, wc_free_stream := None, wc_next := None, wc_wid := wid, wc_terminate := 0,
      wc_current_task := None, wc_mon := None\<rparr>"
    have nt: "wnew \<notin> set (hy_table s)"
    proof
      assume "wnew \<in> set (hy_table s)"
      from worker_at [OF H this] new show False by simp
    qed
    then have "ctl wnew = HOver" using wrappers_partD(1) [OF hplacedD(8) [OF H] nt new] by simp
    moreover have f: "hy_free s = None" using fs(1) Nil by simp
    have "LpelCreateWrapperContext s junk (Some wnew) wid = Inr (Some wnew, s\<lparr>hy_workers := (hy_workers s)(wnew \<mapsto> ?k), hy_free := None\<rparr>)"
      using new f by (simp add: LpelCreateWrapperContext_def getFreeWrapper_def alloc_at_def)
    ultimately show ?thesis using nt Nil fs f
      by (intro exI [of _ wnew] exI [of _ ?k] exI [of _ None] exI [of _ "[]"]) (auto simp: new)
  next
    case (Cons a fs')
    have a: "a \<in> dom (hy_workers s)" "a \<notin> set (hy_table s)" "ctl a = HOver" using fs(2) Cons by auto
    then obtain k where k: "hy_workers s a = Some k" by blast
    have f: "hy_free s = Some a" "a \<notin> set fs'" "nlist (fld wc_next (hy_workers s)) (wc_next k) fs'" using fs(1) Cons k by (simp_all add: nlist_Cons)
    have "\<not> wrap_state p u x HOver k" for p u x by (cases p) auto
    then have mbx: "wc_mailbox k = []" using wrappers_partD(2) [OF hplacedD(8) [OF H] a(2) k] a(3) by (auto simp: wrapper_ok_def)
    let ?k = "k\<lparr>wc_next := None, wc_wid := wid, wc_terminate := 0, wc_current_task := None, wc_mon := None\<rparr>"
    have "LpelCreateWrapperContext s junk (Some wnew) wid = Inr (Some a, s\<lparr>hy_workers := (hy_workers s)(a \<mapsto> ?k), hy_free := wc_next k\<rparr>)"
      using k f by (simp add: LpelCreateWrapperContext_def getFreeWrapper_def)
    moreover have "set fs' = set fs - {a}" using Cons f(2) by auto
    ultimately show ?thesis using a f mbx fs(2)
      by (intro exI [of _ a] exI [of _ ?k] exI [of _ "wc_next k"] exI [of _ fs']) simp
  qed
qed

lemma hinv_spawn:
  assumes H: "hinv dl r L" and e: "henabled (ESpawn mapto t wnew junk func inarg sz) r"
  shows "\<exists>r' L'. hexec neg cal (ESpawn mapto t wnew junk func inarg sz) r = Some (Inr r') \<and> hinv dl r' L'"
proof -
  let ?s = "hn_sys r"
  have t: "h_tasks (hy_store ?s) t = None" and new: "hy_workers ?s wnew = None" and sz: "sz \<le> 0 \<or> sz \<ge> TASK_MINSIZE" and mt: "mapto \<le> 0" using e by simp_all
  show ?thesis
  proof (cases "mapto = LPEL_MAP_MASTER")
    case True
    let ?c = "new_task (hn_seq r) None LPEL_MAP_MASTER func inarg sz"
    have "spawn r mapto t wnew junk func inarg sz = Inr (r\<lparr>hn_sys := put_task (send_master ?s (assign_msg t)) t ?c, hn_seq := hn_seq r + 1\<rparr>)"
      using TaskCreate_new [OF t sz] True
      by (simp add: spawn_def LpelTaskStart_hrc_def LpelWorkerRunTask_hrc_def put_task_def send_master_def assign_msg_def)
    moreover have "hplaced dl (put_task (send_master ?s (assign_msg t)) t ?c) (hn_ctl r) (hn_wake r) (hn_over r) (L(t \<mapsto> PNew))"
      using H t sz by (rule spawn_worker_ok)
    ultimately show ?thesis by auto
  next
    case False
    then have "mapto < 0" using mt by (simp add: LPEL_MAP_MASTER_def)
    from CreateWrapper_ok [OF H new this, of junk] obtain a k f fs where
      1: "LpelCreateWrapperContext ?s junk (Some wnew) mapto = Inr (Some a, ?s\<lparr>hy_workers := (hy_workers ?s)(a \<mapsto> k), hy_free := f\<rparr>)"
        "a \<notin> set (hy_table ?s)" "hn_ctl r a = HOver" "wc_wid k = mapto" "wc_mailbox k = []" "wc_current_task k = None" "wc_terminate k = 0" "a \<notin> set fs"
        "nlist (fld wc_next (hy_workers ?s)) f fs" "set fs = {b. b \<in> dom (hy_workers ?s) \<and> b \<notin> set (hy_table ?s) \<and> hn_ctl r b = HOver} - {a}"
      by (elim exE conjE) (rule that)
    let ?c = "new_task (hn_seq r) (Some a) mapto func inarg sz" and ?k = "k\<lparr>wc_mailbox := [assign_msg t]\<rparr>"
    let ?s' = "put_task (?s\<lparr>hy_workers := (hy_workers ?s)(a \<mapsto> ?k), hy_free := f\<rparr>) t ?c"
    have "spawn r mapto t wnew junk func inarg sz = Inr (r\<lparr>hn_sys := ?s', hn_seq := hn_seq r + 1, hn_ctl := (hn_ctl r)(a := HRecv)\<rparr>)"
      using TaskCreate_new [OF t sz] False 1(1,5)
      by (simp add: spawn_def LpelTaskStart_hrc_def LpelWorkerRunTask_hrc_def put_task_def send_wrapper_def assign_msg_def)
    moreover have "fld wc_next ((hy_workers ?s)(a \<mapsto> ?k)) = (fld wc_next (hy_workers ?s))(a := wc_next k)" by (auto simp: fld_def)
    then have "nlist (fld wc_next ((hy_workers ?s)(a \<mapsto> ?k))) f fs" using 1(8,9) by (simp add: nlist_upd)
    then have "hplaced dl ?s' ((hn_ctl r)(a := HRecv)) (hn_wake r) (hn_over r) (L(t \<mapsto> WNew a))"
      using 1 False \<open>mapto < 0\<close> by (intro host_new_ok [OF H t]) simp_all
    ultimately show ?thesis by auto
  qed
qed


subsection \<open>A round of the master\<close>

lemma others_kept_Some:
  assumes "others_kept t h h'" and "u \<noteq> t"
  shows "h' u = None \<longleftrightarrow> h u = None"
    "h u = Some c \<Longrightarrow> \<exists>c'. h' u = Some c' \<and> ht_state c' = ht_state c \<and> ht_wakenup c' = ht_wakenup c \<and> ht_worker_context c' = ht_worker_context c \<and> links c' = links c"
proof -
  from assms(1) have "map_option (set_prio 0) ((h(t := None)) u) = map_option (set_prio 0) ((h'(t := None)) u)"
    unfolding others_kept_def spr_def by (rule spec)
  then have m: "map_option (set_prio 0) (h u) = map_option (set_prio 0) (h' u)" by (simp only: fun_upd_other [OF assms(2)])
  then show "h' u = None \<longleftrightarrow> h u = None" by (cases "h' u"; cases "h u") simp_all
  assume c: "h u = Some c"
  then obtain c' where c': "h' u = Some c'" using m by (cases "h' u") simp_all
  with m c have e: "set_prio 0 c' = set_prio 0 c" by simp
  have "ht_worker_context c' = ht_worker_context c" using arg_cong [OF e, of ht_worker_context] by simp
  with set_prio_eq [OF e] c' show "\<exists>c'. h' u = Some c' \<and> ht_state c' = ht_state c \<and> ht_wakenup c' = ht_wakenup c \<and>
      ht_worker_context c' = ht_worker_context c \<and> links c' = links c" by simp
qed

lemma tasks_part_others:
  assumes tp: "tasks_part w L wake" and ok: "others_kept t (h_tasks w) h'"
    and t: "case x of None \<Rightarrow> h' t = None \<and> wake t = Calm | Some p \<Rightarrow> (\<exists>c. h' t = Some c \<and> htask_ok w t p (wake t) c)"
  shows "tasks_part (w\<lparr>h_tasks := h'\<rparr>) (L(t := x)) wake"
  unfolding tasks_part_def
proof
  fix u
  show "case (L(t := x)) u of None \<Rightarrow> h_tasks (w\<lparr>h_tasks := h'\<rparr>) u = None \<and> wake u = Calm
    | Some p \<Rightarrow> (\<exists>c. h_tasks (w\<lparr>h_tasks := h'\<rparr>) u = Some c \<and> htask_ok (w\<lparr>h_tasks := h'\<rparr>) u p (wake u) c)"
  proof (cases "u = t")
    case True
    then show ?thesis using t by (simp split: option.splits)
  next
    case False
    show ?thesis
    proof (cases "L u")
      case None
      then show ?thesis using False tasks_part_None [of w L wake u, OF tp] others_kept_Some(1) [OF ok False] by simp
    next
      case (Some p)
      obtain c where c: "h_tasks w u = Some c" "htask_ok w u p (wake u) c" using tasks_partD [of w L wake u, OF tp Some] .
      from others_kept_Some(2) [OF ok False c(1)] obtain c' where c': "h' u = Some c'" "ht_state c' = ht_state c" "ht_wakenup c' = ht_wakenup c"
        "ht_worker_context c' = ht_worker_context c" "links c' = links c" by blast
      then have "htask_ok w u p (wake u) c'" using c(2) by (cases p) (simp_all add: stopped_def closed_task_def)
      then show ?thesis using False Some c'(1) by simp
    qed
  qed
qed

lemma signalled_others:
  assumes ok: "others_kept t h h'"
  shows "signalled h' (L(t := x)) wake - {t} = signalled h L wake - {t}"
proof -
  have "(\<exists>c. h' u = Some c \<and> ht_wakenup c = 0) = (\<exists>c. h u = Some c \<and> ht_wakenup c = 0)" if "u \<noteq> t" for u
    using others_kept_Some [OF ok that] by (cases "h u") auto
  then show ?thesis by (auto simp: signalled_def)
qed

lemma hplaced_master:
  assumes H: "hplaced dl s ctl wake over L" and m: "master_ok dl m' (tasks_in L' PQueue) W'" "dl \<longrightarrow> tasks_in L' PQueue = {} \<or> W' = {}"
      "length (ms_waitworkers m') = length (hy_table s)"
    and tp: "tasks_part (ms_store m') L' wake" and mb: "mb_part (length (hy_table s)) (h_tasks (ms_store m')) L' wake ms"
    and wk: "\<And>i k. i < length (hy_table s) \<Longrightarrow> hy_workers s (hy_table s ! i) = Some k \<Longrightarrow>
      worker_ok (hy_table s ! i) i (ms_workermbs (hy_master s) ! i) (count_list (reqs (hy_mastermb s)) i) (i \<in> waiting (hy_master s)) over L (ctl (hy_table s ! i)) k \<Longrightarrow>
      worker_ok (hy_table s ! i) i (ms_workermbs m' ! i) (count_list (reqs ms) i) (i \<in> W') over L' (ctl (hy_table s ! i)) k"
    and pl: "\<And>u p. L u = Some p \<Longrightarrow> host p \<noteq> None \<Longrightarrow> L' u = L u"
      "\<And>u p. L' u = Some p \<Longrightarrow> L u = Some p \<or> host p = None \<and> (\<forall>b. seat p = Some b \<longrightarrow> b \<in> set (hy_table s))"
  shows "hplaced dl (s\<lparr>hy_master := m', hy_mastermb := ms\<rparr>) ctl wake over L'"
proof -
  let ?s = "s\<lparr>hy_master := m', hy_mastermb := ms\<rparr>"
  have W: "waiting m' = W'" using m(1) by (simp add: master_ok_def)
  have ho: "hosted L' b = hosted L b" for b
  proof -
    have "u \<in> hosted L' b \<longleftrightarrow> u \<in> hosted L b" for u using pl(1) [of u] pl(2) [of u] unfolding hosted_def by (cases "L' u"; cases "L u") auto
    then show ?thesis by blast
  qed
  have "u \<in> hosted L b \<Longrightarrow> L' u = L u" for u b using pl(1) [of u] by (auto simp: hosted_def)
  then have wr: "wrapper_ok b L wake x k \<Longrightarrow> wrapper_ok b L' wake x k" for b x k using wrapper_ok_cong [OF ho] by blast
  have "workers_part ?s ctl over L'" unfolding workers_part_def
  proof (intro allI impI)
    fix i assume i: "i < length (hy_table ?s)"
    then obtain k where "hy_workers s (hy_table s ! i) = Some k" "worker_ok (hy_table s ! i) i (ms_workermbs (hy_master s) ! i)
      (count_list (reqs (hy_mastermb s)) i) (i \<in> waiting (hy_master s)) over L (ctl (hy_table s ! i)) k"
      using hplacedD(7) [OF H] by (auto simp: workers_part_def)
    from this(1) wk [OF _ this] i W show "\<exists>k. hy_workers ?s (hy_table ?s ! i) = Some k \<and> worker_ok (hy_table ?s ! i) i (ms_workermbs (hy_master ?s) ! i)
      (count_list (reqs (hy_mastermb ?s)) i) (i \<in> waiting (hy_master ?s)) over L' (ctl (hy_table ?s ! i)) k" by simp
  qed
  moreover have "wrappers_part ?s ctl wake L'"
    using wrappers_partD [OF hplacedD(8) [OF H]] wr ho by (intro wrappers_partI) simp_all
  moreover have "seats_part ?s L'" unfolding seats_part_def
  proof (intro allI impI)
    fix u p b assume "L' u = Some p"
    from pl(2) [OF this] show "(seat p = Some b \<longrightarrow> b \<in> set (hy_table ?s)) \<and> (host p = Some b \<longrightarrow> b \<notin> set (hy_table ?s))"
      using hplacedD(9) [OF H] unfolding seats_part_def by auto
  qed
  ultimately show ?thesis using m tp mb W hplacedD [OF H] by (simp add: hplaced_def free_part_def)
qed


lemma tasks_in_set: "tasks_in (L(t := x)) p = (if x = Some p then insert t (tasks_in L p) else tasks_in L p - {t})"
  by (auto simp: tasks_in_def)

lemma mb_tail:
  assumes mb: "mb_part n h L wake (msg # ms)" and t: "msg_task msg = t" and ok: "others_kept t h h'"
    and ty: "msg_type msg \<in> {WORKER_MSG_ASSIGN, WORKER_MSG_RETURN, WORKER_MSG_WAKEUP}"
    and x: "x \<noteq> Some PNew" "msg_type msg = WORKER_MSG_ASSIGN \<or> L t \<noteq> Some PNew"
      "if msg_type msg = WORKER_MSG_RETURN then x \<noteq> Some PRet else (x = Some PRet \<longleftrightarrow> L t = Some PRet)"
      "t \<in> signalled h' (L(t := x)) wake \<longleftrightarrow> msg_type msg \<noteq> WORKER_MSG_WAKEUP \<and> t \<in> signalled h L wake"
  shows "mb_part n h' (L(t := x)) wake ms"
proof -
  have sg: "signalled h' (L(t := x)) wake = signalled h L wake - (if msg_type msg = WORKER_MSG_WAKEUP then {t} else {})"
    using signalled_others [OF ok, of L x wake] x(4) by auto
  have in1: "t \<in> tasks_in L p \<longleftrightarrow> L t = Some p" for p by (simp add: tasks_in_def)
  have A: "distinct (msgs WORKER_MSG_ASSIGN ms) \<and> set (msgs WORKER_MSG_ASSIGN ms) = tasks_in (L(t := x)) PNew"
    using mb x(1,2) t in1 [of PNew] by (auto simp: mb_part_def tasks_in_set split: if_splits)
  have R: "distinct (msgs WORKER_MSG_RETURN ms) \<and> set (msgs WORKER_MSG_RETURN ms) = tasks_in (L(t := x)) PRet"
    using mb x(3) t in1 [of PRet] by (auto simp: mb_part_def tasks_in_set split: if_splits)
  have K: "distinct (msgs WORKER_MSG_WAKEUP ms) \<and> set (msgs WORKER_MSG_WAKEUP ms) = signalled h' (L(t := x)) wake"
    unfolding sg using mb t by (auto simp: mb_part_def split: if_splits)
  show ?thesis using A R K mb by (simp add: mb_part_def)
qed

lemma nth_deliver: "i < length mbs \<Longrightarrow> deliver mbs out ! i = (case out of Some (j, t) \<Rightarrow> if i = j then mbs ! i @ [assign_msg t] else mbs ! i | None \<Rightarrow> mbs ! i)"
  by (auto simp: deliver_def split: option.splits)

text \<open>A waiting worker gets a task.\<close>

lemma worker_ok_sent:
  assumes w: "worker_ok a i mbx n True over L x k" and l: "L t = Some p" "seat p = None" and over: "\<not> over"
  shows "worker_ok a i (mbx @ [assign_msg t]) n False over (L(t \<mapsto> PSent a)) x k"
proof -
  have nx: "(case x of HTask t \<Rightarrow> 0 | _ \<Rightarrow> 1) = (1 :: nat) \<or> (case x of HTask t \<Rightarrow> 0 | _ \<Rightarrow> 1) = (0 :: nat)" by (cases x) auto
  from w obtain ts where ts: "mbx = map assign_msg ts" "set ts = tasks_in L (PSent a)" "n + 1 + length ts = (case x of HTask t \<Rightarrow> 0 | _ \<Rightarrow> 1)"
    using over by (auto simp: worker_ok_def)
  with nx have "ts = []" "n = 0" by auto
  have same: "tasks_in L q - {t} = tasks_in L q" if "seat q = Some a" for q
  proof -
    have "q \<noteq> p" using that l(2) by auto
    then show ?thesis by (rule tasks_in_other [of L t p, OF l(1)])
  qed
  have sets: "tasks_in (L(t \<mapsto> PSent a)) (PSent a) = {t}" "tasks_in (L(t \<mapsto> PSent a)) (PRun a) = tasks_in L (PRun a)"
    "tasks_in (L(t \<mapsto> PSent a)) (PLeft a) = tasks_in L (PLeft a)" using same ts(2) \<open>ts = []\<close> by simp_all
  have x: "(case x of HTask t \<Rightarrow> 0 | _ \<Rightarrow> 1) = (1 :: nat)" "x \<noteq> HOver" using ts(3) \<open>ts = []\<close> \<open>n = 0\<close> w over by (auto simp: worker_ok_def)
  show ?thesis unfolding worker_ok_def sets
  proof (intro conjI exI [of _ "[t]"])
    show "mbx @ [assign_msg t] = map assign_msg [t] @ (if over \<and> x \<noteq> HOver then [term_msg] else [])" using ts(1) \<open>ts = []\<close> over by simp
    show "n + of_bool False + length [t] = (case x of HTask t \<Rightarrow> 0 | _ \<Rightarrow> 1)" using x(1) \<open>n = 0\<close> by simp
    show "x = HOver \<longrightarrow> over \<and> {t} = {}" using x(2) by simp
  qed (use w in \<open>simp_all add: worker_ok_def\<close>)
qed

lemma worker_ok_moved:
  assumes w: "worker_ok a i mbx n idle over L x k" and l: "L t = Some p" "seat p \<noteq> Some a" "\<And>q. y = Some q \<Longrightarrow> seat q \<noteq> Some a"
  shows "worker_ok a i mbx n idle over (L(t := y)) x k"
proof -
  have "tasks_in (L(t := y)) q = tasks_in L q" if "seat q = Some a" for q using that l by (auto simp: tasks_in_def)
  then show ?thesis using w worker_ok_cong [of "L(t := y)" a L] by simp
qed

lemma ready_ok:
  assumes H: "hplaced dl s ctl wake False L" and l: "L t = Some p" "p \<in> {PNew, PRet, PPark}"
    and rs: "ready_spec low (tasks_in L PQueue) (waiting (hy_master s)) t S' W' out" "dl \<longrightarrow> \<not> low" and m: "master_ok dl m' S' W'"
    and m': "ms_workermbs m' = deliver (ms_workermbs (hy_master s)) out" "length (ms_waitworkers m') = length (ms_waitworkers (hy_master s))"
      "others_kept t (h_tasks (hy_store s)) (h_tasks (ms_store m'))" "ms_store m' = (hy_store s)\<lparr>h_tasks := h_tasks (ms_store m')\<rparr>"
    and c: "h_tasks (ms_store m') t = Some c" "ht_state c = (if out = None then TASK_INQUEUE else TASK_READY)" "ht_worker_context c = None" "ht_wakenup c = 0"
    and wk: "wake t \<noteq> Wanted" and mb: "\<And>q. q \<notin> {PNew, PRet} \<Longrightarrow> \<not> awaits q \<Longrightarrow> mb_part (length (hy_table s)) (h_tasks (ms_store m')) (L(t \<mapsto> q)) wake ms"
    and rq: "reqs (hy_mastermb s) = reqs ms"
  shows "\<exists>L'. hplaced dl (s\<lparr>hy_master := m', hy_mastermb := ms\<rparr>) ctl wake False L'"
proof -
  let ?h = "h_tasks (ms_store m')"
  have nh: "host p = None" "seat p = None" "p \<noteq> PQueue" using l(2) by auto
  have len: "length (ms_workermbs (hy_master s)) = length (hy_table s)" "length (ms_waitworkers m') = length (hy_table s)"
    using hplacedD(3,11) [OF H] m'(2) by simp_all
  have pl: "(L(t \<mapsto> q)) u = L u" if "L u = Some r" "host r \<noteq> None" for u q r using that l(1) nh by auto
  have tp: "tasks_part (ms_store m') (L(t \<mapsto> q)) wake" if "htask_ok (hy_store s) t q (wake t) c" for q
  proof -
    have "tasks_part ((hy_store s)\<lparr>h_tasks := ?h\<rparr>) (L(t \<mapsto> q)) wake"
      using tasks_part_others [of "hy_store s" L wake t ?h "Some q", OF hplacedD(5) [OF H] m'(3)] c(1) that by simp
    then show ?thesis by (simp only: m'(4) [symmetric])
  qed
  show ?thesis
  proof (cases "low \<or> waiting (hy_master s) = {}")
    case True
    then have o: "S' = insert t (tasks_in L PQueue)" "W' = waiting (hy_master s)" "out = None" using rs(1) by (simp_all add: ready_spec_def)
    have "hplaced dl (s\<lparr>hy_master := m', hy_mastermb := ms\<rparr>) ctl wake False (L(t \<mapsto> PQueue))"
    proof (rule hplaced_master [OF H])
      show "master_ok dl m' (tasks_in (L(t \<mapsto> PQueue)) PQueue) W'" using m o by simp
      show "dl \<longrightarrow> tasks_in (L(t \<mapsto> PQueue)) PQueue = {} \<or> W' = {}" using True rs(2) o(2) by blast
      show "tasks_part (ms_store m') (L(t \<mapsto> PQueue)) wake" using c o wk by (intro tp) simp
      fix i k assume i: "i < length (hy_table s)" and "worker_ok (hy_table s ! i) i (ms_workermbs (hy_master s) ! i) (count_list (reqs (hy_mastermb s)) i)
        (i \<in> waiting (hy_master s)) False L (ctl (hy_table s ! i)) k"
      then show "worker_ok (hy_table s ! i) i (ms_workermbs m' ! i) (count_list (reqs ms) i) (i \<in> W') False (L(t \<mapsto> PQueue)) (ctl (hy_table s ! i)) k"
        using worker_ok_moved [where y = "Some PQueue"] l(1) nh(2) o m'(1) len rq by (simp add: deliver_def)
    qed (use o len mb pl in \<open>auto split: if_splits\<close>)
    then show ?thesis by blast
  next
    case False
    then obtain j where j: "j \<in> waiting (hy_master s)" "S' = tasks_in L PQueue" "W' = waiting (hy_master s) - {j}" "out = Some (j, t)"
      using rs(1) by (auto simp: ready_spec_def)
    have jl: "j < length (hy_table s)" using j(1) hplacedD(3) [OF H] by (simp add: waiting_def)
    let ?a = "hy_table s ! j"
    have inj: "i < length (hy_table s) \<Longrightarrow> hy_table s ! i = ?a \<longleftrightarrow> i = j" for i using hplacedD(4) [OF H] jl nth_eq_iff_index_eq by blast
    have "hplaced dl (s\<lparr>hy_master := m', hy_mastermb := ms\<rparr>) ctl wake False (L(t \<mapsto> PSent ?a))"
    proof (rule hplaced_master [OF H])
      show "master_ok dl m' (tasks_in (L(t \<mapsto> PSent ?a)) PQueue) W'" using m j tasks_in_other [of L t p PQueue, OF l(1)] nh(3) by simp
      show "dl \<longrightarrow> tasks_in (L(t \<mapsto> PSent ?a)) PQueue = {} \<or> W' = {}" using hplacedD(2) [OF H] False by auto
      show "tasks_part (ms_store m') (L(t \<mapsto> PSent ?a)) wake" using c j wk by (intro tp) simp
      fix i k assume i: "i < length (hy_table s)" and w: "worker_ok (hy_table s ! i) i (ms_workermbs (hy_master s) ! i) (count_list (reqs (hy_mastermb s)) i)
        (i \<in> waiting (hy_master s)) False L (ctl (hy_table s ! i)) k"
      show "worker_ok (hy_table s ! i) i (ms_workermbs m' ! i) (count_list (reqs ms) i) (i \<in> W') False (L(t \<mapsto> PSent ?a)) (ctl (hy_table s ! i)) k"
      proof (cases "i = j")
        case True
        then show ?thesis using worker_ok_sent [of ?a j _ _ False L _ k t p, OF _ l(1) nh(2)] w j len jl m'(1) rq by (simp add: nth_deliver)
      next
        case False
        then show ?thesis using worker_ok_moved [where y = "Some (PSent ?a)", OF w l(1)] nh(2) inj [OF i] j len i m'(1) rq by (simp add: nth_deliver)
      qed
    qed (use j jl len mb pl in \<open>auto split: if_splits\<close>)
    then show ?thesis by blast
  qed
qed


text \<open>A message after which no task is ready that was not.\<close>

lemma kept_ok:
  assumes H: "hplaced dl s ctl wake over L" and l: "L t = Some p" "host p = None" "p \<noteq> PQueue"
    and x: "x = Some p \<or> seat p = None \<and> x \<in> {None, Some PPark}"
    and m: "master_ok dl m' (tasks_in L PQueue) (waiting (hy_master s))" "ms_workermbs m' = ms_workermbs (hy_master s)"
      "length (ms_waitworkers m') = length (ms_waitworkers (hy_master s))" "others_kept t (h_tasks (hy_store s)) (h_tasks (ms_store m'))"
      "ms_store m' = (hy_store s)\<lparr>h_tasks := h_tasks (ms_store m')\<rparr>"
    and c: "case x of None \<Rightarrow> h_tasks (ms_store m') t = None \<and> wake t = Calm
      | Some q \<Rightarrow> (\<exists>c. h_tasks (ms_store m') t = Some c \<and> htask_ok (hy_store s) t q (wake t) c)"
    and mb: "mb_part (length (hy_table s)) (h_tasks (ms_store m')) (L(t := x)) wake ms" and rq: "reqs (hy_mastermb s) = reqs ms"
  shows "hplaced dl (s\<lparr>hy_master := m', hy_mastermb := ms\<rparr>) ctl wake over (L(t := x))"
proof (rule hplaced_master [OF H])
  have Q: "tasks_in (L(t := x)) PQueue = tasks_in L PQueue" using x l(1,3) by (auto simp: tasks_in_def)
  show "master_ok dl m' (tasks_in (L(t := x)) PQueue) (waiting (hy_master s))" using m(1) Q by simp
  show "dl \<longrightarrow> tasks_in (L(t := x)) PQueue = {} \<or> waiting (hy_master s) = {}" using hplacedD(2) [OF H] Q by simp
  show "length (ms_waitworkers m') = length (hy_table s)" using m(3) hplacedD(3) [OF H] by simp
  have "tasks_part ((hy_store s)\<lparr>h_tasks := h_tasks (ms_store m')\<rparr>) (L(t := x)) wake" using hplacedD(5) [OF H] m(4) c by (rule tasks_part_others)
  then show "tasks_part (ms_store m') (L(t := x)) wake" by (simp only: m(5) [symmetric])
  show "mb_part (length (hy_table s)) (h_tasks (ms_store m')) (L(t := x)) wake ms" by (rule mb)
  fix i k assume w: "worker_ok (hy_table s ! i) i (ms_workermbs (hy_master s) ! i) (count_list (reqs (hy_mastermb s)) i)
    (i \<in> waiting (hy_master s)) over L (ctl (hy_table s ! i)) k"
  have "worker_ok (hy_table s ! i) i (ms_workermbs (hy_master s) ! i) (count_list (reqs (hy_mastermb s)) i)
    (i \<in> waiting (hy_master s)) over (L(t := x)) (ctl (hy_table s ! i)) k"
  proof (cases "x = Some p")
    case True
    then have "L(t := x) = L" using l(1) by (simp add: fun_upd_idem)
    then show ?thesis using w by simp
  next
    case False
    then show ?thesis using w x l(1) by (intro worker_ok_moved [of _ _ _ _ _ _ L _ _ t p]) auto
  qed
  then show "worker_ok (hy_table s ! i) i (ms_workermbs m' ! i) (count_list (reqs ms) i) (i \<in> waiting (hy_master s)) over (L(t := x)) (ctl (hy_table s ! i)) k"
    using m(2) rq by simp
next
  fix u q assume "L u = Some q" "host q \<noteq> None"
  then show "(L(t := x)) u = L u" using l(1,2) by auto
next
  fix u q assume "(L(t := x)) u = Some q"
  then show "L u = Some q \<or> host q = None \<and> (\<forall>b. seat q = Some b \<longrightarrow> b \<in> set (hy_table s))" using x l(1) by (auto split: if_splits)
qed

lemma mb_head:
  assumes H: "hplaced dl s ctl wake over L" and mb: "hy_mastermb s = msg # ms" and ty: "msg_type msg \<in> {WORKER_MSG_ASSIGN, WORKER_MSG_RETURN, WORKER_MSG_WAKEUP}"
  obtains t p c where "msg_body msg = BTask (Some t)" "msg_task msg = t" "L t = Some p" "h_tasks (hy_store s) t = Some c" "htask_ok (hy_store s) t p (wake t) c"
    "msg_type msg = WORKER_MSG_ASSIGN \<longrightarrow> p = PNew" "msg_type msg = WORKER_MSG_RETURN \<longrightarrow> p = PRet"
    "msg_type msg = WORKER_MSG_WAKEUP \<longrightarrow> awaits p \<and> wake t = Woken \<and> ht_wakenup c = 0"
proof -
  note M = hplacedD(6) [OF H, unfolded mb]
  have "hmsg_ok (length (hy_table s)) msg" using M by (simp add: mb_part_def)
  then obtain t where t: "msg_body msg = BTask (Some t)" using ty by (auto simp: hmsg_ok_def)
  have mt: "msg_task msg = t" using t by (simp add: msg_task_def)
  have A: "msg_type msg = WORKER_MSG_ASSIGN \<Longrightarrow> L t = Some PNew" and R: "msg_type msg = WORKER_MSG_RETURN \<Longrightarrow> L t = Some PRet"
    using M mt by (auto simp: mb_part_def tasks_in_def)
  have K: "msg_type msg = WORKER_MSG_WAKEUP \<Longrightarrow> t \<in> signalled (h_tasks (hy_store s)) L wake" using M mt by (auto simp: mb_part_def)
  then obtain p where p: "L t = Some p" using A R ty by (auto simp: signalled_def)
  obtain c where c: "h_tasks (hy_store s) t = Some c" "htask_ok (hy_store s) t p (wake t) c"
    using tasks_partD [of "hy_store s" L wake t, OF hplacedD(5) [OF H] p] .
  show ?thesis
  proof (rule that [OF t mt p c])
    show "msg_type msg = WORKER_MSG_ASSIGN \<longrightarrow> p = PNew" "msg_type msg = WORKER_MSG_RETURN \<longrightarrow> p = PRet" using A R p by auto
    show "msg_type msg = WORKER_MSG_WAKEUP \<longrightarrow> awaits p \<and> wake t = Woken \<and> ht_wakenup c = 0"
      using K in_signalled [of L t p "h_tasks (hy_store s)" c wake, OF p c(1)] by blast
  qed
qed

lemma task_msg_ok:
  assumes cfg: "dl \<longrightarrow> cfg_ok neg cal" and H: "hplaced dl s ctl wake False L" and mb: "hy_mastermb s = msg # ms"
    and ty: "msg_type msg \<in> {WORKER_MSG_ASSIGN, WORKER_MSG_RETURN, WORKER_MSG_WAKEUP}"
  shows "\<exists>m' L'. MasterHandle neg cal (hy_master s) msg = Some (Inr m') \<and> ms_terminate m' = ms_terminate (hy_master s) \<and>
    hplaced dl (s\<lparr>hy_master := m', hy_mastermb := ms\<rparr>) ctl wake False L'"
proof -
  let ?m = "hy_master s" and ?S = "tasks_in L PQueue" and ?W = "waiting (hy_master s)"
  obtain t p c where t: "msg_body msg = BTask (Some t)" "msg_task msg = t" "L t = Some p" "h_tasks (hy_store s) t = Some c" "htask_ok (hy_store s) t p (wake t) c"
    "msg_type msg = WORKER_MSG_ASSIGN \<longrightarrow> p = PNew" "msg_type msg = WORKER_MSG_RETURN \<longrightarrow> p = PRet"
    "msg_type msg = WORKER_MSG_WAKEUP \<longrightarrow> awaits p \<and> wake t = Woken \<and> ht_wakenup c = 0" by (rule mb_head [OF H mb ty]) (rule that)
  have "msg_ok ?m msg" unfolding msg_ok_def using t ty by (auto simp: stopped_def closed_task_def)
  from MasterHandle_ok [OF cfg hplacedD(1) [OF H] this] obtain m' where
    run: "MasterHandle neg cal ?m msg = Some (Inr m')" and st: "master_step dl neg cal ?m ?S ?W msg m'" by blast
  note kb = MasterHandle_kept [OF run t(1,4) ty]
  from st ty t(2) obtain S' W' out where d: "dispatch_spec neg cal ?m ?S ?W msg S' W' out" "master_ok dl m' S' W'" "ms_workermbs m' = deliver (ms_workermbs ?m) out"
    "task_after ?m msg out (h_tasks (ms_store m') t)" "others_kept t (h_tasks (hy_store s)) (h_tasks (ms_store m'))" unfolding master_step_def by auto
  have k: "ms_store m' = (hy_store s)\<lparr>h_tasks := h_tasks (ms_store m')\<rparr>" "ms_terminate m' = ms_terminate ?m" "length (ms_waitworkers m') = length (ms_waitworkers ?m)"
    using kb unfolding kept_but_def by blast+
  have kc: "ht_worker_context c' = ht_worker_context c" "links c' = links c"
      "ht_wakenup c' = (if msg_type msg = WORKER_MSG_WAKEUP \<and> ht_state c \<noteq> TASK_RETURNED then 1
          else if msg_type msg = WORKER_MSG_RETURN \<and> ht_state c = TASK_BLOCKED \<and> ht_wakenup c = 1 then 0 else ht_wakenup c)"
    if "h_tasks (ms_store m') t = Some c'" for c' using kb t(2,4) that unfolding kept_but_def by auto
  have rq: "reqs (hy_mastermb s) = reqs ms" using mb ty by auto
  have sg: "t \<in> signalled (h_tasks (hy_store s)) L wake \<longleftrightarrow> awaits p \<and> wake t = Woken \<and> ht_wakenup c = 0"
    using in_signalled [of L t p "h_tasks (hy_store s)" c wake, OF t(3,4)] .
  have tail: "mb_part (length (hy_table s)) (h_tasks (ms_store m')) (L(t := x)) wake ms"
    if "x \<noteq> Some PNew" "if msg_type msg = WORKER_MSG_RETURN then x \<noteq> Some PRet else (x = Some PRet \<longleftrightarrow> p = PRet)"
      "t \<in> signalled (h_tasks (ms_store m')) (L(t := x)) wake \<longleftrightarrow> msg_type msg \<noteq> WORKER_MSG_WAKEUP \<and> awaits p \<and> wake t = Woken \<and> ht_wakenup c = 0" for x
    using t(3,6) ty that sg t(7,8)
    by (intro mb_tail [where msg = msg, OF hplacedD(6) [OF H, unfolded mb] t(2) d(5) ty]) auto
  have ty': "msg_type msg \<noteq> WORKER_MSG_REQUEST" "msg_type msg \<noteq> WORKER_MSG_TERMINATE" using ty by auto
  consider (ready) "makes_ready ?m msg" | (parked) "msg_type msg = WORKER_MSG_RETURN" "ht_state c = TASK_BLOCKED" "ht_wakenup c \<noteq> 1"
    | (zombie) "msg_type msg = WORKER_MSG_RETURN" "ht_state c = TASK_ZOMBIE" | (early) "msg_type msg = WORKER_MSG_WAKEUP" "ht_state c \<noteq> TASK_RETURNED"
    using ty t by (auto simp: makes_ready_def stopped_def)
  then show ?thesis
  proof cases
    case ready
    have rs: "ready_spec (msg_type msg \<noteq> WORKER_MSG_ASSIGN \<and> too_low neg cal ?m t) ?S ?W t S' W' out"
      using d(1) ready ty' t(2) by (simp add: dispatch_spec_def)
    have nl: "dl \<longrightarrow> \<not> (msg_type msg \<noteq> WORKER_MSG_ASSIGN \<and> too_low neg cal ?m t)" using cfg not_too_low [OF _ hplacedD(1) [OF H] t(4)] by blast
    obtain c' where c': "h_tasks (ms_store m') t = Some c'" "ht_state c' = (if out = None then TASK_INQUEUE else TASK_READY)"
      using d(4) ready unfolding task_after_def by auto
    have mr: "msg_type msg = WORKER_MSG_ASSIGN \<or> msg_type msg = WORKER_MSG_RETURN \<and> (ht_state c = TASK_READY \<or> ht_state c = TASK_BLOCKED \<and> ht_wakenup c = 1) \<or>
      msg_type msg = WORKER_MSG_WAKEUP \<and> ht_state c = TASK_RETURNED" using ready t(2,4) by (auto simp: makes_ready_def)
    then have p: "p \<in> {PNew, PRet, PPark}" "ht_worker_context c = None" "wake t \<noteq> Wanted" "ht_wakenup c' = 0" "msg_type msg = WORKER_MSG_WAKEUP \<longrightarrow> p = PPark"
      "msg_type msg \<noteq> WORKER_MSG_WAKEUP \<longrightarrow> \<not> (awaits p \<and> wake t = Woken \<and> ht_wakenup c = 0)"
      using t(5-8) kc(3) [OF c'(1)] by (cases p; auto simp: stopped_def)+
    have "\<exists>L'. hplaced dl (s\<lparr>hy_master := m', hy_mastermb := ms\<rparr>) ctl wake False L'"
    proof (rule ready_ok [OF H t(3) p(1) rs nl d(2,3) k(3) d(5) k(1) c' _ p(4,3) _ rq])
      show "ht_worker_context c' = None" using kc(1) [OF c'(1)] p(2) by simp
      show "mb_part (length (hy_table s)) (h_tasks (ms_store m')) (L(t \<mapsto> q)) wake ms" if "q \<notin> {PNew, PRet}" "\<not> awaits q" for q
        using that p(1,5,6) ty t(6) by (intro tail) (auto simp: signalled_def)
    qed
    then show ?thesis using run k(2) by blast
  next
    case parked
    then have nr: "\<not> makes_ready ?m msg" using t(2,4) by (auto simp: makes_ready_def)
    then have d': "S' = ?S" "W' = ?W" "out = None" using d(1) ty' by (simp_all add: dispatch_spec_def)
    obtain c' where c': "h_tasks (ms_store m') t = Some c'" "ht_state c' = TASK_RETURNED"
      using d(4) nr parked t(2,4) unfolding task_after_def by auto
    have p: "p = PRet" "ht_wakenup c = 0" "wake t \<noteq> Calm" using t(5,7) parked by (auto simp: stopped_def)
    have "hplaced dl (s\<lparr>hy_master := m', hy_mastermb := ms\<rparr>) ctl wake False (L(t := Some PPark))"
    proof (rule kept_ok [of dl s ctl wake False L t p "Some PPark" m' ms, OF H t(3)])
      show "case Some PPark of None \<Rightarrow> h_tasks (ms_store m') t = None \<and> wake t = Calm
        | Some q \<Rightarrow> (\<exists>c. h_tasks (ms_store m') t = Some c \<and> htask_ok (hy_store s) t q (wake t) c)"
        using c' kc [OF c'(1)] p t(5) parked by (simp add: stopped_def)
      show "mb_part (length (hy_table s)) (h_tasks (ms_store m')) (L(t := Some PPark)) wake ms"
        using parked p c'(1) kc(3) [OF c'(1)] by (intro tail) (auto simp: signalled_def)
    qed (use d d' k rq p in \<open>simp_all add: deliver_def\<close>)
    then show ?thesis using run k(2) by blast
  next
    case zombie
    then have nr: "\<not> makes_ready ?m msg" using t(2,4) by (auto simp: makes_ready_def)
    then have d': "S' = ?S" "W' = ?W" "out = None" using d(1) ty' by (simp_all add: dispatch_spec_def)
    have c': "h_tasks (ms_store m') t = None" using d(4) nr zombie t(2,4) unfolding task_after_def by auto
    have p: "p = PRet" "wake t = Calm" using t(5,7) zombie by (auto simp: stopped_def)
    have "hplaced dl (s\<lparr>hy_master := m', hy_mastermb := ms\<rparr>) ctl wake False (L(t := None))"
    proof (rule kept_ok [of dl s ctl wake False L t p None m' ms, OF H t(3)])
      show "mb_part (length (hy_table s)) (h_tasks (ms_store m')) (L(t := None)) wake ms"
        using zombie p by (intro tail) (auto simp: signalled_def)
    qed (use d d' k rq p c' in \<open>simp_all add: deliver_def\<close>)
    then show ?thesis using run k(2) by blast
  next
    case early
    then have nr: "\<not> makes_ready ?m msg" using t(2,4) by (auto simp: makes_ready_def)
    then have d': "S' = ?S" "W' = ?W" "out = None" using d(1) ty' by (simp_all add: dispatch_spec_def)
    obtain c' where c': "h_tasks (ms_store m') t = Some c'" "ht_state c' = ht_state c" "ht_wakenup c' = 1"
      using d(4) nr early t(2,4) unfolding task_after_def by auto
    have p: "host p = None" "p \<noteq> PQueue" "p \<noteq> PNew" "awaits p" "wake t = Woken" using t(8) early by (cases p; auto)+
    have ok: "htask_ok (hy_store s) t p (wake t) c'" using t(5) p(4,5) c' kc(1,2) [OF c'(1)] early by (cases p) (auto simp: stopped_def)
    have "hplaced dl (s\<lparr>hy_master := m', hy_mastermb := ms\<rparr>) ctl wake False (L(t := Some p))"
    proof (rule kept_ok [of dl s ctl wake False L t p "Some p" m' ms, OF H t(3)])
      show "mb_part (length (hy_table s)) (h_tasks (ms_store m')) (L(t := Some p)) wake ms"
        using early p c' by (intro tail) (auto simp: signalled_def)
    qed (use d d' k rq p c' ok in \<open>simp_all add: deliver_def\<close>)
    then show ?thesis using run k(2) by blast
  qed
qed

lemma worker_ok_idle:
  assumes w: "worker_ok a i mbx (Suc n) idle over L x k"
  shows "worker_ok a i mbx n True over L x k" "\<not> idle"
proof -
  have "(case x of HTask t \<Rightarrow> 0 | _ \<Rightarrow> 1) \<le> (1 :: nat)" by (cases x) auto
  then show "\<not> idle" "worker_ok a i mbx n True over L x k" using w unfolding worker_ok_def by (cases idle; force)+
qed

lemma request_msg_ok:
  assumes H: "hplaced dl s ctl wake False L" and mb: "hy_mastermb s = msg # ms" and ty: "msg_type msg = WORKER_MSG_REQUEST"
  shows "\<exists>m' L'. MasterHandle neg cal (hy_master s) msg = Some (Inr m') \<and> ms_terminate m' = ms_terminate (hy_master s) \<and>
    hplaced dl (s\<lparr>hy_master := m', hy_mastermb := ms\<rparr>) ctl wake False L'"
proof -
  let ?m = "hy_master s" and ?S = "tasks_in L PQueue" and ?W = "waiting (hy_master s)"
  note M = hplacedD(6) [OF H, unfolded mb]
  have "hmsg_ok (length (hy_table s)) msg" using M by (simp add: mb_part_def)
  then obtain i where i: "i < length (hy_table s)" "msg_body msg = BFromWorker (int i)" using ty by (auto simp: hmsg_ok_def)
  have rq: "reqs (hy_mastermb s) = i # reqs ms" using mb ty i(2) by (simp add: msg_worker_def)
  have "i < length (ms_waitworkers ?m)" using i(1) hplacedD(3) [OF H] by simp
  from handle_request_ok [OF hplacedD(1) [OF H] this] obtain m' S' W' out where
    r: "handle_request ?m (int i) = Inr m'" "request_spec (prio_at (h_tasks (ms_store ?m))) ?S ?W i S' W' out" "master_ok dl m' S' W'"
      "ms_workermbs m' = deliver (ms_workermbs ?m) out" "ms_store m' = (case out of None \<Rightarrow> ms_store ?m
        | Some (i, t) \<Rightarrow> (ms_store ?m)\<lparr>h_tasks := (h_tasks (ms_store ?m))(t \<mapsto> set_state TASK_READY (the (h_tasks (ms_store ?m) t)))\<rparr>)"
      "ms_terminate m' = ms_terminate ?m" "length (ms_waitworkers m') = length (ms_waitworkers ?m)" by (elim exE conjE) (rule that)
  have run: "MasterHandle neg cal ?m msg = Some (Inr m')" using r(1) ty i(2) by (simp add: MasterHandle_def body_from_worker_def)
  have len: "length (ms_workermbs ?m) = length (hy_table s)" "length (ms_waitworkers m') = length (hy_table s)" using hplacedD(3,11) [OF H] r(7) by simp_all
  have mbt: "mb_part (length (hy_table s)) (h_tasks (hy_store s)) L wake ms" using M ty by (simp add: mb_part_def)
  have cnt: "count_list (reqs (hy_mastermb s)) j = (if j = i then Suc (count_list (reqs ms) j) else count_list (reqs ms) j)" for j using rq by simp
  have "\<exists>L'. hplaced dl (s\<lparr>hy_master := m', hy_mastermb := ms\<rparr>) ctl wake False L'"
  proof (cases "none_due (prio_at (h_tasks (ms_store ?m))) ?S")
    case True
    then have o: "S' = ?S" "W' = insert i ?W" "out = None" using r(2) by (simp_all add: request_spec_def)
    have nd: "dl \<longrightarrow> ?S = {}" using none_due_empty [of ?m ?S ?W] hplacedD(1) [OF H] True by (cases dl) auto
    have "hplaced dl (s\<lparr>hy_master := m', hy_mastermb := ms\<rparr>) ctl wake False L"
    proof (rule hplaced_master [OF H])
      fix j k assume "worker_ok (hy_table s ! j) j (ms_workermbs ?m ! j) (count_list (reqs (hy_mastermb s)) j) (j \<in> ?W) False L (ctl (hy_table s ! j)) k"
      then show "worker_ok (hy_table s ! j) j (ms_workermbs m' ! j) (count_list (reqs ms) j) (j \<in> W') False L (ctl (hy_table s ! j)) k"
        using worker_ok_idle(1) o r(4) cnt by (cases "j = i") (auto simp: deliver_def)
    qed (use r o nd len mbt hplacedD(5) [OF H] in simp_all)
    then show ?thesis by blast
  next
    case False
    then obtain t where t: "t \<in> ?S" "S' = ?S - {t}" "W' = ?W" "out = Some (i, t)" using r(2) by (auto simp: request_spec_def)
    have W0: "dl \<longrightarrow> ?W = {}" using hplacedD(2) [OF H] t(1) by auto
    have l: "L t = Some PQueue" using t(1) by (simp add: tasks_in_def)
    obtain c where c: "h_tasks (hy_store s) t = Some c" "htask_ok (hy_store s) t PQueue (wake t) c"
      using tasks_partD [of "hy_store s" L wake t, OF hplacedD(5) [OF H] l] .
    let ?a = "hy_table s ! i" and ?c = "set_state TASK_READY c"
    have st: "ms_store m' = (hy_store s)\<lparr>h_tasks := (h_tasks (hy_store s))(t \<mapsto> ?c)\<rparr>" using r(5) t(4) c(1) by simp
    have inj: "j < length (hy_table s) \<Longrightarrow> hy_table s ! j = ?a \<longleftrightarrow> j = i" for j using hplacedD(4) [OF H] i(1) nth_eq_iff_index_eq by blast
    have "hplaced dl (s\<lparr>hy_master := m', hy_mastermb := ms\<rparr>) ctl wake False (L(t \<mapsto> PSent ?a))"
    proof (rule hplaced_master [OF H])
      show "master_ok dl m' (tasks_in (L(t \<mapsto> PSent ?a)) PQueue) W'" using r(3) t(2) by simp
      show "dl \<longrightarrow> tasks_in (L(t \<mapsto> PSent ?a)) PQueue = {} \<or> W' = {}" using t(3) W0 by simp
      show "tasks_part (ms_store m') (L(t \<mapsto> PSent ?a)) wake"
        using tasks_part_upd [of "hy_store s" L wake t "PSent ?a" "wake t" ?c, OF hplacedD(5) [OF H]] c(2) st by simp
      show "mb_part (length (hy_table s)) (h_tasks (ms_store m')) (L(t \<mapsto> PSent ?a)) wake ms"
        using mb_part_move [of "length (hy_table s)" "h_tasks (hy_store s)" L wake ms t PQueue c "PSent ?a" "wake t" ?c, OF mbt l c(1)] st by simp
      fix j k assume j: "j < length (hy_table s)"
        and w: "worker_ok (hy_table s ! j) j (ms_workermbs ?m ! j) (count_list (reqs (hy_mastermb s)) j) (j \<in> ?W) False L (ctl (hy_table s ! j)) k"
      show "worker_ok (hy_table s ! j) j (ms_workermbs m' ! j) (count_list (reqs ms) j) (j \<in> W') False (L(t \<mapsto> PSent ?a)) (ctl (hy_table s ! j)) k"
      proof (cases "j = i")
        case True
        then have "worker_ok ?a i (ms_workermbs ?m ! i) (count_list (reqs ms) i) True False L (ctl ?a) k" using worker_ok_idle(1) w cnt [of i] by auto
        moreover have "i \<notin> ?W" by (rule worker_ok_idle(2)) (use w cnt [of i] True in simp)
        ultimately show ?thesis using worker_ok_sent [of ?a i _ _ False L _ k t PQueue, OF _ l] True t len i(1) r(4) by (simp add: nth_deliver)
      next
        case False
        have "worker_ok (hy_table s ! j) j (ms_workermbs ?m ! j) (count_list (reqs (hy_mastermb s)) j) (j \<in> ?W) False (L(t := Some (PSent ?a))) (ctl (hy_table s ! j)) k"
          by (rule worker_ok_moved [of _ _ _ _ _ _ L _ _ t PQueue, OF w l]) (use inj [OF j] False in auto)
        then show ?thesis using False t len j r(4) cnt [of j] by (simp add: nth_deliver)
      qed
    qed (use r t len i l in \<open>auto split: if_splits\<close>)
    then show ?thesis by blast
  qed
  then show ?thesis using run r(6) by blast
qed

lemma terminate_msg_ok:
  assumes H: "hplaced dl s ctl wake over L" and mb: "hy_mastermb s = msg # ms" and ty: "msg_type msg = WORKER_MSG_TERMINATE"
  shows "\<exists>m'. MasterHandle neg cal (hy_master s) msg = Some (Inr m') \<and> hplaced dl (s\<lparr>hy_master := m', hy_mastermb := ms\<rparr>) ctl wake over L"
proof -
  let ?m = "(hy_master s)\<lparr>ms_terminate := 1\<rparr>"
  have "reqs (hy_mastermb s) = reqs ms" using mb ty by simp
  moreover have "mb_part (length (hy_table s)) (h_tasks (hy_store s)) L wake ms" using hplacedD(6) [OF H, unfolded mb] ty by (simp add: mb_part_def)
  moreover have "master_ok dl ?m (tasks_in L PQueue) (waiting (hy_master s))" using hplacedD(1) [OF H] by (rule master_ok_cong) simp_all
  ultimately have "hplaced dl (s\<lparr>hy_master := ?m, hy_mastermb := ms\<rparr>) ctl wake over L"
    using hplacedD(2-5) [OF H] by (intro hplaced_master [OF H]) simp_all
  then show ?thesis using ty by (auto simp: MasterHandle_def)
qed

lemma send_all_nth: "i < length mbs \<Longrightarrow> send_all mbs m ! i = mbs ! i @ [m]" "length (send_all mbs m) = length mbs"
  by (induction mbs arbitrary: i) (auto simp: nth_Cons' less_Suc_eq_0_disj split: nat.splits)

lemma hrc_finish_ok:
  assumes H: "hplaced dl s ctl wake False L"
  shows "hplaced dl (master_finish s) ctl wake True L"
proof -
  let ?s = "master_finish s"
  have e: "hy_table ?s = hy_table s" "hy_workers ?s = hy_workers s" "hy_mastermb ?s = hy_mastermb s" "hy_free ?s = hy_free s" "hy_store ?s = hy_store s"
    "ms_ready_tasks (hy_master ?s) = ms_ready_tasks (hy_master s)" "ms_waitworkers (hy_master ?s) = ms_waitworkers (hy_master s)"
    "ms_workermbs (hy_master ?s) = send_all (ms_workermbs (hy_master s)) term_msg" "waiting (hy_master ?s) = waiting (hy_master s)"
    by (simp_all add: master_finish_def LpelWorkerBroadcast_hrc_def waiting_def)
  have "workers_part ?s ctl True L" unfolding workers_part_def e
  proof (intro allI impI)
    fix i assume i: "i < length (hy_table s)"
    then obtain k where k: "hy_workers s (hy_table s ! i) = Some k" "worker_ok (hy_table s ! i) i (ms_workermbs (hy_master s) ! i)
      (count_list (reqs (hy_mastermb s)) i) (i \<in> waiting (hy_master s)) False L (ctl (hy_table s ! i)) k" using hplacedD(7) [OF H] by (auto simp: workers_part_def)
    have "send_all (ms_workermbs (hy_master s)) term_msg ! i = ms_workermbs (hy_master s) ! i @ [term_msg]" using i hplacedD(11) [OF H] by (simp add: send_all_nth)
    moreover have "ctl (hy_table s ! i) \<noteq> HOver" using k(2) by (auto simp: worker_ok_def)
    ultimately have "worker_ok (hy_table s ! i) i (send_all (ms_workermbs (hy_master s)) term_msg ! i) (count_list (reqs (hy_mastermb s)) i)
      (i \<in> waiting (hy_master s)) True L (ctl (hy_table s ! i)) k" using k(2) by (auto simp: worker_ok_def)
    then show "\<exists>k. hy_workers s (hy_table s ! i) = Some k \<and> worker_ok (hy_table s ! i) i (send_all (ms_workermbs (hy_master s)) term_msg ! i)
      (count_list (reqs (hy_mastermb s)) i) (i \<in> waiting (hy_master s)) True L (ctl (hy_table s ! i)) k" using k(1) by blast
  qed
  moreover have "master_ok dl (hy_master ?s) (tasks_in L PQueue) (waiting (hy_master s))" using hplacedD(1) [OF H] by (rule master_ok_cong) (simp_all add: e send_all_nth)
  ultimately show ?thesis using hplacedD [OF H] by (simp add: hplaced_def e wrappers_part_def seats_part_def free_part_def)
qed

lemma hinv_master:
  assumes cfg: "dl \<longrightarrow> cfg_ok neg cal" and H: "hinv dl r L" and e: "henabled EMaster r"
  shows "\<exists>r' L'. hexec neg cal EMaster r = Some (Inr r') \<and> hinv dl r' L'"
proof -
  obtain msg ms where mb: "hy_mastermb (hn_sys r) = msg # ms" using e by (cases "hy_mastermb (hn_sys r)") auto
  have o: "hn_over r = False" using e by simp
  have "hmsg_ok (length (hy_table (hn_sys r))) msg" using hplacedD(6) [OF H, unfolded mb] by (simp add: mb_part_def)
  then have "msg_type msg = WORKER_MSG_REQUEST \<or> msg_type msg = WORKER_MSG_TERMINATE \<or> msg_type msg \<in> {WORKER_MSG_ASSIGN, WORKER_MSG_RETURN, WORKER_MSG_WAKEUP}"
    unfolding hmsg_ok_def by blast
  then obtain m' L' where m: "MasterHandle neg cal (hy_master (hn_sys r)) msg = Some (Inr m')"
    "hplaced dl ((hn_sys r)\<lparr>hy_master := m', hy_mastermb := ms\<rparr>) (hn_ctl r) (hn_wake r) False L'"
    using request_msg_ok [OF H [unfolded o] mb] terminate_msg_ok [OF H [unfolded o] mb] task_msg_ok [OF cfg H [unfolded o] mb] by blast
  show ?thesis
  proof (cases "ms_terminate m' \<noteq> 0 \<and> LpelTaskheapSize (ms_ready_tasks m') = 0")
    case True
    then show ?thesis using m hrc_finish_ok [OF m(2)] mb by (auto simp: master_round_def)
  next
    case False
    then show ?thesis using m mb o by (auto simp: master_round_def)
  qed
qed


lemma hinv_exec:
  assumes cfg: "dl \<longrightarrow> cfg_ok neg cal" and H: "hinv dl r L" and e: "henabled ev r"
  shows "\<exists>r' L'. hexec neg cal ev r = Some (Inr r') \<and> hinv dl r' L'"
proof (cases ev)
  case EMaster
  show ?thesis unfolding EMaster by (rule hinv_master [OF cfg H e [unfolded EMaster]])
next
  case (EWorker a)
  show ?thesis unfolding EWorker by (rule hinv_worker [OF H e [unfolded EWorker]])
next
  case (EWrapper a)
  show ?thesis unfolding EWrapper by (rule hinv_wrapper [OF H e [unfolded EWrapper]])
next
  case (EBack a)
  show ?thesis unfolding EBack by (rule hinv_back [OF H e [unfolded EBack]])
next
  case (EYield a)
  then obtain t where t: "hn_ctl r a = HTask t" "hn_wake r t = Calm" using e by (auto dest: runs_nowD)
  from hrc_yield_ok [OF H t] show ?thesis using EYield t by (auto simp: in_task_def)
next
  case (EWait a)
  then obtain t where t: "hn_ctl r a = HTask t" "hn_wake r t = Calm" using e by (auto dest: runs_nowD)
  from wait_ok [OF H t] show ?thesis using EWait t by auto
next
  case (EBlock a)
  then obtain t where t: "hn_ctl r a = HTask t" "hn_wake r t \<noteq> Calm" using e by (auto dest: runs_nowD)
  from hrc_block_ok [OF H t] show ?thesis using EBlock t by (auto simp: in_task_def)
next
  case (EReturn a)
  then obtain t where t: "hn_ctl r a = HTask t" "hn_wake r t = Calm" "all_closed (hy_store (hn_sys r)) t" using e by (auto dest: runs_nowD)
  from hrc_exit_ok [OF H t] show ?thesis using EReturn t by (auto simp: in_task_def)
next
  case (EExit a)
  then obtain t where t: "hn_ctl r a = HTask t" "hn_wake r t = Calm" "all_closed (hy_store (hn_sys r)) t" using e by (auto dest: runs_nowD)
  from hrc_exit_ok [OF H t] show ?thesis using EExit t by (auto simp: in_task_def)
next
  case (EUnblock a b)
  then obtain t where t: "hn_ctl r a = HTask t" "hn_wake r b = Wanted" using e by (auto dest: runs_nowD)
  from hrc_unblock_ok [OF H t] show ?thesis using EUnblock by auto
next
  case (ESpawn mapto t wnew junk func inarg sz)
  show ?thesis unfolding ESpawn by (rule hinv_spawn [OF H e [unfolded ESpawn]])
next
  case ETerm
  then show ?thesis using terminate_ok [OF H] by auto
qed

end
