(* ===== verification/Hrc_System.thy ===== *)
theory Hrc_System
  imports Hrc_Events
begin

text \<open>
  The hierarchical scheduler from its start: every reachable state satisfies the invariant, and what follows from it for the tasks,
  the wakeups, the requests of the workers, the progress of the whole and its clean-up.
\<close>

section \<open>The start\<close>

definition fresh_ctx :: "workerctx_t \<Rightarrow> nat \<Rightarrow> workerctx_t" where
  "fresh_ctx junk i = junk\<lparr>wc_wid := int i, wc_mon := None, wc_mailbox := [], wc_free_sd := None, wc_free_stream := None\<rparr>"

lemma alloc_workers_ok:
  assumes "alloc_workers junk news (int i) h = Inr (as, h')"
  shows "distinct as \<and> set as \<inter> dom h = {} \<and> (\<forall>j < length as. h' (as ! j) = Some (fresh_ctx junk (i + j))) \<and> (\<forall>a. a \<notin> set as \<longrightarrow> h' a = h a)"
  using assms
proof (induction news arbitrary: i h as)
  case (Cons new news)
  then obtain a h1 as' where 1: "new = Some a" "h a = None" "h1 = h(a \<mapsto> fresh_ctx junk i)" "alloc_workers junk news (int (Suc i)) h1 = Inr (as', h')" "as = a # as'"
    by (auto simp: bindR_eq_Inr alloc_at_def fresh_ctx_def add.commute split: option.splits if_splits)
  note IH = Cons.IH [OF 1(4)]
  have "a \<notin> set as'" using IH 1(3) by auto
  moreover have "h' (as ! j) = Some (fresh_ctx junk (i + j))" if "j < length as" for j
    using IH that 1(3,5) \<open>a \<notin> set as'\<close> by (cases j) simp_all
  ultimately show ?case using IH 1 by auto
qed auto

lemma start_workers_ok:
  assumes "distinct as" and "\<And>j. j < length as \<Longrightarrow> \<exists>k. hy_workers s (as ! j) = Some k \<and> wc_wid k = int (i + j)"
  shows "\<exists>h. start_workers s as = Inr (s\<lparr>hy_workers := h, hy_mastermb := hy_mastermb s @ map req_msg [i ..< i + length as]\<rparr>) \<and>
    (\<forall>j < length as. \<exists>k. h (as ! j) = Some k \<and> wc_wid k = int (i + j) \<and> wc_terminate k = 0 \<and> wc_current_task k = None) \<and> (\<forall>a. a \<notin> set as \<longrightarrow> h a = hy_workers s a)"
  using assms
proof (induction as arbitrary: s i)
  case (Cons a as)
  obtain k where k: "hy_workers s a = Some k" "wc_wid k = int i" using Cons.prems(2) [of 0] by auto
  let ?k = "k\<lparr>wc_terminate := 0, wc_current_task := None\<rparr>"
  let ?s = "s\<lparr>hy_workers := (hy_workers s)(a \<mapsto> ?k), hy_mastermb := hy_mastermb s @ [req_msg i]\<rparr>"
  have 1: "worker_start s (Some a) = Inr ?s" using k by (simp add: worker_start_def requestTask_def send_master_def)
  have 2: "\<exists>k. hy_workers ?s (as ! j) = Some k \<and> wc_wid k = int (Suc i + j)" if "j < length as" for j
    using Cons.prems(2) [of "Suc j"] Cons.prems(1) that by auto
  have "distinct as" using Cons.prems(1) by simp
  from Cons.IH [OF this 2] obtain h where h: "start_workers ?s as = Inr (?s\<lparr>hy_workers := h, hy_mastermb := hy_mastermb ?s @ map req_msg [Suc i ..< Suc i + length as]\<rparr>)"
    "\<forall>j < length as. \<exists>k. h (as ! j) = Some k \<and> wc_wid k = int (Suc i + j) \<and> wc_terminate k = 0 \<and> wc_current_task k = None" "\<forall>b. b \<notin> set as \<longrightarrow> h b = hy_workers ?s b" by blast
  have "[i ..< i + length (a # as)] = i # [Suc i ..< Suc i + length as]" by (simp add: upt_rec)
  then have "start_workers s (a # as) = Inr (s\<lparr>hy_workers := h, hy_mastermb := hy_mastermb s @ map req_msg [i ..< i + length (a # as)]\<rparr>)" using 1 h(1) by simp
  moreover have "\<exists>k. h ((a # as) ! j) = Some k \<and> wc_wid k = int (i + j) \<and> wc_terminate k = 0 \<and> wc_current_task k = None" if "j < length (a # as)" for j
  proof (cases j)
    case 0
    then show ?thesis using h(3) Cons.prems(1) k(2) by simp
  next
    case (Suc j')
    then show ?thesis using h(2) that by auto
  qed
  moreover have "\<forall>b. b \<notin> set (a # as) \<longrightarrow> h b = hy_workers s b" using h(3) by simp
  ultimately show ?case by blast
next
  case Nil
  show ?case by (intro exI [of _ "hy_workers s"]) simp
qed


lemma no_store_ok: "queue_ok dl LpelTaskheapInit no_store {}"
  using th_inv_init by (simp add: queue_ok_def inq_def nolow_def store_wf_def no_store_def)

lemma reqs_upt: "reqs (map req_msg [i ..< j]) = [i ..< j]" "msg_type m \<noteq> WORKER_MSG_REQUEST \<Longrightarrow> m \<notin> set (map req_msg js)"
proof -
  have "reqs (map req_msg js) = js" for js by (induction js) (simp_all add: msg_worker_def)
  then show "reqs (map req_msg [i ..< j]) = [i ..< j]" .
qed auto

lemma msgs_reqs: "ty \<noteq> WORKER_MSG_REQUEST \<Longrightarrow> msgs ty (map req_msg js) = []"
  by (induction js) simp_all

lemma hinv_start:
  assumes "hstart junk news sz = Inr r"
  shows "hinv dl r (\<lambda>_. None)"
proof -
  define m where "m as = (hy_master no_sys)\<lparr>ms_terminate := 0, ms_ready_tasks := LpelTaskheapInit, ms_waitworkers := replicate (length as) 0, ms_workermbs := map (\<lambda>_. []) as\<rparr>"
    for as :: "addr list"
  from assms obtain as h s1 where al: "alloc_workers junk (take (nat (sz - 1)) news) (int 0) Map.empty = Inr (as, h)"
    and st: "start_workers \<lparr>hy_master = m as, hy_mastermb = [], hy_workers = h, hy_table = as, hy_free = None\<rparr> as = Inr s1"
    and r: "r = \<lparr>hn_sys = s1, hn_seq = 0, hn_ctl = (\<lambda>a. if a \<in> set (hy_table s1) then HRecv else HOver), hn_wake = (\<lambda>_. Calm), hn_over = False\<rparr>"
    by (auto simp: hstart_def LpelWorkersInit_hrc_def initLocalVar_def master_start_def bindR_eq_Inr setupMailbox_def no_sys_def m_def)
  note A = alloc_workers_ok [OF al]
  let ?s0 = "\<lparr>hy_master = m as, hy_mastermb = [], hy_workers = h, hy_table = as, hy_free = None\<rparr>"
  have "\<exists>k. hy_workers ?s0 (as ! j) = Some k \<and> wc_wid k = int (0 + j)" if "j < length as" for j using A that by (simp add: fresh_ctx_def)
  from start_workers_ok [of as ?s0 0, OF _ this] A obtain h' where
    S: "start_workers ?s0 as = Inr (?s0\<lparr>hy_workers := h', hy_mastermb := map req_msg [0 ..< length as]\<rparr>)"
      "\<forall>j < length as. \<exists>k. h' (as ! j) = Some k \<and> wc_wid k = int j \<and> wc_terminate k = 0 \<and> wc_current_task k = None" "\<forall>a. a \<notin> set as \<longrightarrow> h' a = None"
    by auto
  have s1: "s1 = ?s0\<lparr>hy_workers := h', hy_mastermb := map req_msg [0 ..< length as]\<rparr>" using S(1) st by simp
  have ms: "ms_store (m as) = no_store" "ms_ready_tasks (m as) = LpelTaskheapInit" "ms_waitworkers (m as) = replicate (length as) 0"
    "ms_workermbs (m as) = map (\<lambda>_. []) as" by (simp_all add: m_def no_sys_def)
  have W: "waiting (m as) = {}" by (simp add: waiting_def ms)
  have L0: "tasks_in (\<lambda>_. None) p = {}" "hosted (\<lambda>_. None) a = {}" "signalled h0 (\<lambda>_. None) wake0 = {}" for p a h0 wake0
    by (simp_all add: tasks_in_def hosted_def signalled_def)
  have cl: "count_list [0 ..< n] i = (if i < n then 1 else 0)" for i n by (induction n) auto
  have mo: "master_ok dl (m as) {} {}" using no_store_ok W by (simp add: master_ok_def ms)
  have "workers_part s1 (hn_ctl r) False (\<lambda>_. None)" unfolding workers_part_def
  proof (intro allI impI)
    fix i assume i: "i < length (hy_table s1)"
    then obtain k where k: "h' (as ! i) = Some k" "wc_wid k = int i" "wc_terminate k = 0" "wc_current_task k = None" using S(2) s1 by auto
    then show "\<exists>k. hy_workers s1 (hy_table s1 ! i) = Some k \<and> worker_ok (hy_table s1 ! i) i (ms_workermbs (hy_master s1) ! i) (count_list (reqs (hy_mastermb s1)) i)
      (i \<in> waiting (hy_master s1)) False (\<lambda>_. None) (hn_ctl r (hy_table s1 ! i)) k"
      using i W by (simp add: s1 r worker_ok_def L0 ms reqs_upt cl)
  qed
  moreover have "mb_part (length as) (h_tasks no_store) (\<lambda>_. None) (\<lambda>_. Calm) (map req_msg [0 ..< length as])"
    by (auto simp: mb_part_def msgs_reqs L0)
  moreover have "tasks_part no_store (\<lambda>_. None) (\<lambda>_. Calm)" by (simp add: tasks_part_def no_store_def)
  moreover have "wrappers_part s1 (hn_ctl r) (\<lambda>_. Calm) (\<lambda>_. None)" using S(3) by (auto simp: wrappers_part_def s1 r L0)
  moreover have "free_part s1 (hn_ctl r)" unfolding free_part_def using S(3) by (intro exI [of _ "[]"]) (auto simp: s1 r)
  ultimately show ?thesis using mo W A by (simp add: hplaced_def r s1 L0 ms seats_part_def)
qed

lemma hreach_hinv:
  assumes "hreach neg cal r" and "dl \<longrightarrow> cfg_ok neg cal"
  shows "\<exists>L. hinv dl r L"
  using assms(1)
proof induction
  case (hreach_start junk news sz r)
  then show ?case using hinv_start by blast
next
  case (hreach_step r ev r')
  then obtain L where "hinv dl r L" by blast
  from hinv_exec [OF assms(2) this hreach_step.hyps(2)] hreach_step.hyps(3) show ?case by auto
next
  case (hreach_work r a t w)
  then obtain L where "hinv dl r L" by blast
  from work_ok [OF this hreach_work.hyps(2,3)] show ?case by auto
qed

text \<open>Most facts hold for every configuration.\<close>

lemma hreach_any: "hreach neg cal r \<Longrightarrow> \<exists>L. hinv False r L"
  by (rule hreach_hinv) simp_all

section \<open>Concrete runs\<close>

text \<open>Two workers; the priority function is constant.\<close>

declare updatePriorityList.simps [code] find_elem.simps [code] count_loop.simps [code]

fun hrun_events :: "hevent list \<Rightarrow> hrun \<Rightarrow> hrun option" where
  "hrun_events [] r = Some r"
| "hrun_events (ev # evs) r = (if (case ev of EReturn a \<Rightarrow> False | EExit a \<Rightarrow> False | _ \<Rightarrow> henabled ev r)
     then (case hexec 0 (\<lambda>i j. 0) ev r of Some (Inr r') \<Rightarrow> hrun_events evs r' | _ \<Rightarrow> None) else None)"

lemma hrun_events_reach:
  assumes "hreach 0 (\<lambda>i j. 0) r" and "hrun_events evs r = Some r'"
  shows "hreach 0 (\<lambda>i j. 0) r'"
  using assms
proof (induction evs arbitrary: r)
  case (Cons ev evs)
  from Cons.prems(2) obtain r1 where 1: "henabled ev r" "hexec 0 (\<lambda>i j. 0) ev r = Some (Inr r1)" "hrun_events evs r1 = Some r'"
    by (auto split: if_splits option.splits sum.splits hevent.splits)
  from Cons.IH [OF hreach_step [OF Cons.prems(1) 1(1,2)] 1(3)] show ?case .
qed simp

definition hex_ctx :: workerctx_t where
  "hex_ctx = \<lparr>wc_wid = 0, wc_terminate = 0, wc_current_task = None, wc_mon = None, wc_mailbox = [], wc_free_stream = None, wc_free_sd = None, wc_next = None\<rparr>"

definition hex0 :: hrun where "hex0 = projr (hstart hex_ctx [Some 1, Some 2] 3)"

definition hex :: "hevent list \<Rightarrow> hrun" where "hex evs = the (hrun_events evs hex0)"

abbreviation spawn_ev :: "int \<Rightarrow> addr \<Rightarrow> addr \<Rightarrow> hevent" where
  "spawn_ev i t a \<equiv> ESpawn i t a hex_ctx None None 0"

lemma hex_cfg: "cfg_ok 0 (\<lambda>i j. 0)"
  using nonneg_not_min [of 0] by (simp add: cfg_ok_def)

lemma hex0_reach: "hreach 0 (\<lambda>i j. 0) hex0"
proof -
  have "isl (hstart hex_ctx [Some 1, Some 2] 3) = False" by code_simp
  then have "hstart hex_ctx [Some 1, Some 2] 3 = Inr hex0" unfolding hex0_def by (metis isl_def sum.collapse(2))
  then show ?thesis by (rule hreach_start)
qed

lemma hex_reach: "hrun_events evs hex0 \<noteq> None \<Longrightarrow> hreach 0 (\<lambda>i j. 0) (hex evs)"
  using hrun_events_reach [OF hex0_reach] by (auto simp: hex_def)

section \<open>Properties\<close>

text \<open>
  C1: In every state that the master, the workers, the wrappers and the tasks of the hierarchical scheduler can reach together, each
  step that is due succeeds: no assertion on a task state or a mailbox fails, every task, worker context, stream and descriptor that the
  step reads is allocated when the step begins, the message of the
  master is handled to its end. This covers tasks woken before, while and after they are handed back to the master, wrappers that
  are used again, termination at any time, and configurations with and without a demand limit. A step is one whole round: the handling
  of one message by the master or by a worker, one turn of a wrapper, or one call of a task into the scheduler. The reads that the
  master makes inside its round without a lock (\<open>updatePriorityList\<close> and the stream functions it calls follow the streams of the
  task to neighbours that may be running) are part of that one step; a neighbour that closes the stream between two of these reads
  is not covered.
\<close>

theorem hrc_system_safe:
  assumes "hreach neg cal r" and "henabled ev r"
  shows "\<exists>r'. hexec neg cal ev r = Some (Inr r')"
  using hreach_any [OF assms(1)] hinv_exec [of False, OF _ _ assms(2)] by blast

definition hex_early :: "hevent list" where
  "hex_early = [EMaster, EMaster, spawn_ev 0 7 3, EMaster, EWorker 1, EWait 1, spawn_ev (- 1) 8 3, EWrapper 3, EWrapper 3, EUnblock 3 7, EBlock 1, EMaster]"

theorem hrc_system_safe_witness: "\<exists>r'. hexec 0 (\<lambda>i j. 0) EMaster (hex hex_early) = Some (Inr r')"
proof -
  have "hrun_events hex_early hex0 \<noteq> None" by code_simp
  note r = hex_reach [OF this]
  have "henabled EMaster (hex hex_early)" by code_simp
  from hrc_system_safe [OF r this] show ?thesis .
qed

lemma running_task:
  assumes H: "hinv dl r L" and c: "h_tasks (hy_store (hn_sys r)) t = Some c"
  shows "ht_state c = TASK_RUNNING \<longleftrightarrow> (\<exists>a. hn_ctl r a = HTask t)" "hn_ctl r a = HTask t \<Longrightarrow> L t = Some (PRun a) \<or> L t = Some (WRun a)"
proof -
  show 1: "hn_ctl r a = HTask t \<Longrightarrow> L t = Some (PRun a) \<or> L t = Some (WRun a)" for a
  proof -
    assume "hn_ctl r a = HTask t"
    with H show ?thesis by (cases rule: runs_cases) auto
  qed
  have "L t \<noteq> None" using tasks_part_None(1) [of "hy_store (hn_sys r)" L "hn_wake r" t, OF hplacedD(5) [OF H]] c by auto
  then obtain p where p: "L t = Some p" by blast
  have ok: "htask_ok (hy_store (hn_sys r)) t p (hn_wake r t) c" using tasks_partD [of "hy_store (hn_sys r)" L "hn_wake r" t, OF hplacedD(5) [OF H] p] c by auto
  show "ht_state c = TASK_RUNNING \<longleftrightarrow> (\<exists>a. hn_ctl r a = HTask t)"
  proof
    assume "\<exists>a. hn_ctl r a = HTask t"
    then obtain a where "hn_ctl r a = HTask t" by blast
    from 1 [OF this] p ok show "ht_state c = TASK_RUNNING" by auto
  next
    assume "ht_state c = TASK_RUNNING"
    then obtain a where "p = PRun a \<or> p = WRun a" using ok by (cases p) (auto simp: stopped_def)
    then show "\<exists>a. hn_ctl r a = HTask t"
    proof
      assume "p = PRun a"
      then have "a \<in> set (hy_table (hn_sys r))" using hplacedD(9) [OF H] p unfolding seats_part_def by fastforce
      from worker_at [OF H this] obtain i k where "worker_ok a i (ms_workermbs (hy_master (hn_sys r)) ! i) (count_list (reqs (hy_mastermb (hn_sys r))) i)
        (i \<in> waiting (hy_master (hn_sys r))) (hn_over r) L (hn_ctl r a) k" by metis
      then have "tasks_in L (PRun a) = (case hn_ctl r a of HTask t \<Rightarrow> {t} | _ \<Rightarrow> {})" by (simp add: worker_ok_def)
      moreover have "t \<in> tasks_in L (PRun a)" using p \<open>p = PRun a\<close> by (simp add: tasks_in_def)
      ultimately show ?thesis by (cases "hn_ctl r a") auto
    next
      assume w: "p = WRun a"
      then have na: "a \<notin> set (hy_table (hn_sys r))" using hplacedD(9) [OF H] p unfolding seats_part_def by fastforce
      have h: "t \<in> hosted L a" using in_hosted [of L t p a, OF p] w by simp
      obtain k where k: "hy_workers (hn_sys r) a = Some k" using wrappers_partD(1) [OF hplacedD(8) [OF H] na] h by auto
      from wrappers_partD(2) [OF hplacedD(8) [OF H] na k] h p w have "wrap_state (WRun a) t (hn_wake r t) (hn_ctl r a) k" by (auto simp: wrapper_ok_def)
      then show ?thesis by auto
    qed
  qed
qed

text \<open>
  C6: A task is in state \<open>RUNNING\<close> exactly while some worker or wrapper runs it, it never runs in two contexts at once, and it is the
  current task of the context that runs it.
\<close>

theorem hrc_runs_once:
  assumes "hreach neg cal r" and "h_tasks (hy_store (hn_sys r)) t = Some c"
  shows "(ht_state c = TASK_RUNNING \<longleftrightarrow> (\<exists>a. hn_ctl r a = HTask t)) \<and> (\<forall>a b. hn_ctl r a = HTask t \<and> hn_ctl r b = HTask t \<longrightarrow> a = b) \<and>
    (\<forall>a. hn_ctl r a = HTask t \<longrightarrow> LpelWorkerCurrentTask_hrc (hn_sys r) (Some a) = Inr (Some t) \<and> ht_worker_context c = Some a)"
proof -
  obtain L where H: "hinv False r L" using hreach_any [OF assms(1)] by blast
  note R = running_task [OF H assms(2)]
  have "LpelWorkerCurrentTask_hrc (hn_sys r) (Some a) = Inr (Some t) \<and> ht_worker_context c = Some a" if "hn_ctl r a = HTask t" for a
    using H that by (cases rule: runs_cases) (use assms(2) in \<open>auto simp: LpelWorkerCurrentTask_hrc_def worker_ok_def\<close>)
  then show ?thesis using R(1) by (metis option.inject)
qed

theorem hrc_runs_once_witness:
  "\<exists>c. h_tasks (hy_store (hn_sys (hex hex_early))) 8 = Some c \<and>
    (ht_state c = TASK_RUNNING \<longleftrightarrow> (\<exists>a. hn_ctl (hex hex_early) a = HTask 8)) \<and> (\<forall>a b. hn_ctl (hex hex_early) a = HTask 8 \<and> hn_ctl (hex hex_early) b = HTask 8 \<longrightarrow> a = b) \<and>
    (\<forall>a. hn_ctl (hex hex_early) a = HTask 8 \<longrightarrow> LpelWorkerCurrentTask_hrc (hn_sys (hex hex_early)) (Some a) = Inr (Some 8) \<and> ht_worker_context c = Some a)"
proof -
  have "hrun_events hex_early hex0 \<noteq> None" by code_simp
  note r = hex_reach [OF this]
  have "\<not> Option.is_none (h_tasks (hy_store (hn_sys (hex hex_early))) 8)" by code_simp
  then obtain c where "h_tasks (hy_store (hn_sys (hex hex_early))) 8 = Some c" by (auto simp: Option.is_none_def)
  with hrc_runs_once [OF r this] show ?thesis by blast
qed


lemma distinct_once: "distinct xs \<Longrightarrow> x \<in> set xs \<Longrightarrow> count_list xs x = 1"
  by (induction xs) (auto simp: count_list_0_iff)

text \<open>
  C5: No wakeup is lost. A task that has announced to block and has been woken, and is blocked or parked with the master, either has its
  wakeup on the way, exactly once, in the mailbox of the master or of its wrapper, or is marked as woken for its return to the master.
\<close>

theorem hrc_wakeup_kept:
  assumes "hreach neg cal r" and "h_tasks (hy_store (hn_sys r)) t = Some c"
    and "hn_wake r t = Woken" and "ht_state c = TASK_BLOCKED \<or> ht_state c = TASK_RETURNED"
  shows "if ht_wakenup c = 0
    then count_list (msgs WORKER_MSG_WAKEUP (hy_mastermb (hn_sys r))) t = 1 \<or>
      (\<exists>a k. ht_worker_context c = Some a \<and> hy_workers (hn_sys r) a = Some k \<and> wc_mailbox k = [task_msg WORKER_MSG_WAKEUP (Some t)])
    else ht_wakenup c = 1 \<and> ht_state c = TASK_BLOCKED"
proof -
  let ?s = "hn_sys r"
  obtain L where H: "hinv False r L" using hreach_any [OF assms(1)] by blast
  have "L t \<noteq> None" using tasks_part_None(1) [of "hy_store ?s" L "hn_wake r" t, OF hplacedD(5) [OF H]] assms(2) by auto
  then obtain p where p: "L t = Some p" by blast
  have ok: "htask_ok (hy_store ?s) t p (hn_wake r t) c" using tasks_partD [of "hy_store ?s" L "hn_wake r" t, OF hplacedD(5) [OF H] p] assms(2) by auto
  show ?thesis
  proof (cases "awaits p")
    case True
    have "t \<in> signalled (h_tasks (hy_store ?s)) L (hn_wake r)" if "ht_wakenup c = 0"
      using in_signalled [of L t p "h_tasks (hy_store ?s)" c "hn_wake r", OF p assms(2)] True that assms(3) by simp
    then have "count_list (msgs WORKER_MSG_WAKEUP (hy_mastermb ?s)) t = 1" if "ht_wakenup c = 0"
      using hplacedD(6) [OF H] that by (simp add: mb_part_def distinct_once)
    moreover have "ht_wakenup c = 0 \<or> ht_wakenup c = 1 \<and> ht_state c = TASK_BLOCKED" using ok assms(4) True by (cases p) (auto simp: stopped_def)
    ultimately show ?thesis by auto
  next
    case False
    then obtain a where a: "p = WBlocked a" "ht_worker_context c = Some a" "ht_wakenup c = 0" using ok assms(3,4) by (cases p) (auto simp: stopped_def)
    have na: "a \<notin> set (hy_table ?s)" using hplacedD(9) [OF H] p a(1) unfolding seats_part_def by fastforce
    have h: "t \<in> hosted L a" using in_hosted [of L t p a, OF p] a(1) by simp
    obtain k where k: "hy_workers ?s a = Some k" using wrappers_partD(1) [OF hplacedD(8) [OF H] na] h by auto
    from wrappers_partD(2) [OF hplacedD(8) [OF H] na k] h p a(1) have "wrap_state (WBlocked a) t (hn_wake r t) (hn_ctl r a) k" by (auto simp: wrapper_ok_def)
    then have "wc_mailbox k = [task_msg WORKER_MSG_WAKEUP (Some t)]" using assms(3) by (simp add: wake_box_def)
    then show ?thesis using a k by auto
  qed
qed

theorem hrc_wakeup_kept_witness:
  "\<exists>c. h_tasks (hy_store (hn_sys (hex hex_early))) 7 = Some c \<and> (if ht_wakenup c = 0
    then count_list (msgs WORKER_MSG_WAKEUP (hy_mastermb (hn_sys (hex hex_early)))) 7 = 1 \<or>
      (\<exists>a k. ht_worker_context c = Some a \<and> hy_workers (hn_sys (hex hex_early)) a = Some k \<and> wc_mailbox k = [task_msg WORKER_MSG_WAKEUP (Some 7)])
    else ht_wakenup c = 1 \<and> ht_state c = TASK_BLOCKED)"
proof -
  have "hrun_events hex_early hex0 \<noteq> None" by code_simp
  note r = hex_reach [OF this]
  have "map_option ht_state (h_tasks (hy_store (hn_sys (hex hex_early))) 7) = Some TASK_BLOCKED" by code_simp
  then obtain c where c: "h_tasks (hy_store (hn_sys (hex hex_early))) 7 = Some c" "ht_state c = TASK_BLOCKED" by auto
  have "hn_wake (hex hex_early) 7 = Woken" by code_simp
  from hrc_wakeup_kept [OF r c(1) this] c show ?thesis by simp
qed

text \<open>
  C28: A worker that runs no task has asked for exactly one, and a worker that runs a task for none: at any time its request is on the way
  to the master, or recorded by the master, or answered by one assignment in its mailbox, which never holds two tasks.
\<close>

theorem hrc_one_request:
  assumes "hreach neg cal r" and "i < length (hy_table (hn_sys r))"
  shows "count_list (reqs (hy_mastermb (hn_sys r))) i + of_bool (i \<in> waiting (hy_master (hn_sys r))) +
    length (msgs WORKER_MSG_ASSIGN (ms_workermbs (hy_master (hn_sys r)) ! i)) = (case hn_ctl r (hy_table (hn_sys r) ! i) of HTask t \<Rightarrow> 0 | _ \<Rightarrow> (1 :: nat))"
proof -
  obtain L where H: "hinv False r L" using hreach_any [OF assms(1)] by blast
  then obtain k where "worker_ok (hy_table (hn_sys r) ! i) i (ms_workermbs (hy_master (hn_sys r)) ! i) (count_list (reqs (hy_mastermb (hn_sys r))) i)
    (i \<in> waiting (hy_master (hn_sys r))) (hn_over r) L (hn_ctl r (hy_table (hn_sys r) ! i)) k" using hplacedD(7) [OF H] assms(2) unfolding workers_part_def by blast
  moreover have "length (msgs WORKER_MSG_ASSIGN (map assign_msg ts)) = length ts" for ts by (induction ts) simp_all
  ultimately show ?thesis by (auto simp: worker_ok_def)
qed

theorem hrc_one_request_witness:
  "count_list (reqs (hy_mastermb (hn_sys (hex hex_early)))) 0 + of_bool (0 \<in> waiting (hy_master (hn_sys (hex hex_early)))) +
    length (msgs WORKER_MSG_ASSIGN (ms_workermbs (hy_master (hn_sys (hex hex_early))) ! 0)) =
    (case hn_ctl (hex hex_early) (hy_table (hn_sys (hex hex_early)) ! 0) of HTask t \<Rightarrow> 0 | _ \<Rightarrow> (1 :: nat))"
proof -
  have "hrun_events hex_early hex0 \<noteq> None" by code_simp
  note r = hex_reach [OF this]
  have "0 < length (hy_table (hn_sys (hex hex_early)))" by code_simp
  from hrc_one_request [OF r this] show ?thesis .
qed

text \<open>A worker that has something to do has a step to take.\<close>

lemma task_due: "hn_ctl r a = HTask u \<Longrightarrow> henabled (EYield a) r \<or> henabled (EBlock a) r"
  by (simp add: runs_now_def)

lemma hworker_due:
  assumes H: "hinv dl r L" and a: "a \<in> set (hy_table (hn_sys r))" and no: "\<not> hn_over r"
    and due: "tasks_in L (PSent a) \<noteq> {} \<or> tasks_in L (PRun a) \<noteq> {} \<or> tasks_in L (PLeft a) \<noteq> {} \<or> dl \<and> tasks_in L PQueue \<noteq> {}"
  shows "\<exists>ev. ev \<in> {EMaster, EWorker a, EBack a, EYield a, EBlock a} \<and> henabled ev r"
proof -
  let ?s = "hn_sys r"
  from worker_at [OF H a] obtain i k where w: "i < length (hy_table ?s)" "hy_table ?s ! i = a" "hy_workers ?s a = Some k"
    "worker_ok a i (ms_workermbs (hy_master ?s) ! i) (count_list (reqs (hy_mastermb ?s)) i) (i \<in> waiting (hy_master ?s)) (hn_over r) L (hn_ctl r a) k" by metis
  show ?thesis
  proof (cases "hn_ctl r a")
    case HRecv
    from w(4) no HRecv obtain ts where ts: "ms_workermbs (hy_master ?s) ! i = map assign_msg ts" "set ts = tasks_in L (PSent a)"
      "count_list (reqs (hy_mastermb ?s)) i + of_bool (i \<in> waiting (hy_master ?s)) + length ts = 1"
      "tasks_in L (PRun a) = {}" "tasks_in L (PLeft a) = {}" "wc_wid k = int i" by (auto simp: worker_ok_def)
    show ?thesis
    proof (cases "ts = []")
      case True
      then have "dl" "tasks_in L PQueue \<noteq> {}" using ts due by simp_all
      then have "i \<notin> waiting (hy_master ?s)" using hplacedD(2) [OF H] by auto
      then have "reqs (hy_mastermb ?s) \<noteq> []" using ts(3) True by auto
      then have "hy_mastermb ?s \<noteq> []" by auto
      then show ?thesis using no by (intro exI [of _ EMaster]) simp
    next
      case False
      then show ?thesis using HRecv a w(3) ts by (intro exI [of _ "EWorker a"]) simp
    qed
  next
    case (HTask u)
    then show ?thesis using task_due [OF HTask] by blast
  next
    case (HBack u)
    then show ?thesis by (intro exI [of _ "EBack a"]) simp
  next
    case HOver
    then show ?thesis using w(4) no by (simp add: worker_ok_def)
  qed
qed

lemma hwrapper_due:
  assumes H: "hinv dl r L" and p: "L t = Some p" "host p = Some a" and nw: "hn_wake r t \<noteq> Wanted"
  shows "\<exists>ev. ev \<in> {EWrapper a, EBack a, EYield a, EBlock a} \<and> henabled ev r"
proof -
  let ?s = "hn_sys r"
  have na: "a \<notin> set (hy_table ?s)" using hplacedD(9) [OF H] p unfolding seats_part_def by fastforce
  have h: "t \<in> hosted L a" using in_hosted [of L t p a, OF p(1)] p(2) by simp
  obtain k where k: "hy_workers ?s a = Some k" using wrappers_partD(1) [OF hplacedD(8) [OF H] na] h by auto
  from wrappers_partD(2) [OF hplacedD(8) [OF H] na k] h p(1) have w: "wrap_state p t (hn_wake r t) (hn_ctl r a) k" by (auto simp: wrapper_ok_def)
  obtain c where c: "htask_ok (hy_store ?s) t p (hn_wake r t) c" using tasks_partD [of "hy_store ?s" L "hn_wake r" t, OF hplacedD(5) [OF H] p(1)] by metis
  show ?thesis
  proof (cases "hn_ctl r a")
    case HRecv
    have "wc_current_task k \<noteq> None \<or> wc_mailbox k \<noteq> []" using w c nw HRecv p(2) by (cases p; cases "hn_wake r t") (auto simp: wake_box_def)
    then show ?thesis using HRecv na k by (intro exI [of _ "EWrapper a"]) simp
  next
    case (HTask u)
    then show ?thesis using task_due [OF HTask] by blast
  next
    case (HBack u)
    then show ?thesis by (intro exI [of _ "EBack a"]) simp
  next
    case HOver
    then show ?thesis using w by (cases p) auto
  qed
qed

text \<open>
  C9: The scheduler does not come to a halt with work left: with at least one worker and as long as the master runs, any task that does not
  wait for a wakeup makes the next step of the master, of a worker or of a wrapper possible. For a task in the ready queue this takes a
  configuration without a demand limit (\<open>cfg_ok\<close>: \<open>neg_demand_lim\<close> is not positive and the priority function never yields
  \<open>LPEL_DBL_MIN\<close>), since with a limit the master may keep a task of the lowest priority queued while all workers wait; for a task in any
  other state it holds in every configuration.
\<close>

theorem hrc_progress:
  assumes "ht_state c = TASK_INQUEUE \<longrightarrow> cfg_ok neg cal" and "hreach neg cal r" and "\<not> hn_over r" and "hy_table (hn_sys r) \<noteq> []"
    and "h_tasks (hy_store (hn_sys r)) t = Some c" and "hn_wake r t \<noteq> Wanted"
  shows "\<exists>a ev. ev \<in> {EMaster, EWorker a, EWrapper a, EBack a, EYield a, EBlock a} \<and> henabled ev r"
proof -
  let ?s = "hn_sys r"
  let ?dl = "ht_state c = TASK_INQUEUE"
  obtain L where H: "hinv ?dl r L" using hreach_hinv [OF assms(2,1)] by blast
  have "L t \<noteq> None" using tasks_part_None(1) [of "hy_store ?s" L "hn_wake r" t, OF hplacedD(5) [OF H]] assms(5) by auto
  then obtain p where p: "L t = Some p" by blast
  have ok: "htask_ok (hy_store ?s) t p (hn_wake r t) c" using tasks_partD [of "hy_store ?s" L "hn_wake r" t, OF hplacedD(5) [OF H] p] assms(5) by auto
  have master: "henabled EMaster r" if "hy_mastermb ?s \<noteq> []" using that assms(3) by simp
  have "p \<in> {PNew, PRet} \<Longrightarrow> hy_mastermb ?s \<noteq> []"
    using hplacedD(6) [OF H] p by (auto simp: mb_part_def tasks_in_def)
  moreover have "p = PPark \<Longrightarrow> hy_mastermb ?s \<noteq> []"
  proof -
    assume pp: "p = PPark"
    then have "hn_wake r t = Woken" "ht_wakenup c = 0" using ok assms(6) by (cases "hn_wake r t"; auto)+
    then have "t \<in> signalled (h_tasks (hy_store ?s)) L (hn_wake r)" using in_signalled [of L t p "h_tasks (hy_store ?s)" c "hn_wake r", OF p assms(5)] pp by simp
    then show "hy_mastermb ?s \<noteq> []" using hplacedD(6) [OF H] by (auto simp: mb_part_def)
  qed
  moreover have "\<exists>ev. ev \<in> {EMaster, EWorker a, EBack a, EYield a, EBlock a} \<and> henabled ev r" if "seat p = Some a" for a
  proof (rule hworker_due [OF H _ assms(3)])
    show "a \<in> set (hy_table ?s)" using hplacedD(9) [OF H] p that unfolding seats_part_def by blast
    show "tasks_in L (PSent a) \<noteq> {} \<or> tasks_in L (PRun a) \<noteq> {} \<or> tasks_in L (PLeft a) \<noteq> {} \<or> ?dl \<and> tasks_in L PQueue \<noteq> {}"
      using that p by (cases p) (auto simp: tasks_in_def)
  qed
  moreover have "\<exists>ev. ev \<in> {EMaster, EWorker (hd (hy_table ?s)), EBack (hd (hy_table ?s)), EYield (hd (hy_table ?s)), EBlock (hd (hy_table ?s))} \<and> henabled ev r" if "p = PQueue"
    using hworker_due [OF H hd_in_set [OF assms(4)] assms(3)] that p ok by (auto simp: tasks_in_def)
  moreover have "\<exists>ev. ev \<in> {EWrapper a, EBack a, EYield a, EBlock a} \<and> henabled ev r" if "host p = Some a" for a by (rule hwrapper_due [of ?dl r L t p a, OF H p that assms(6)])
  moreover have "p \<in> {PNew, PRet} \<or> p = PPark \<or> (\<exists>a. seat p = Some a) \<or> p = PQueue \<or> (\<exists>a. host p = Some a)" by (cases p) auto
  ultimately show ?thesis using master by blast
qed

theorem hrc_progress_witness:
  "\<exists>a ev. ev \<in> {EMaster, EWorker a, EWrapper a, EBack a, EYield a, EBlock a} \<and> henabled ev (hex hex_early)"
proof -
  have "hrun_events hex_early hex0 \<noteq> None" by code_simp
  note r = hex_reach [OF this]
  have n: "\<not> hn_over (hex hex_early)" "hy_table (hn_sys (hex hex_early)) \<noteq> []" by code_simp+
  have "\<not> Option.is_none (h_tasks (hy_store (hn_sys (hex hex_early))) 8)" by code_simp
  then obtain c where "h_tasks (hy_store (hn_sys (hex hex_early))) 8 = Some c" by (auto simp: Option.is_none_def)
  moreover have "hn_wake (hex hex_early) 8 \<noteq> Wanted" by code_simp
  ultimately show ?thesis using hrc_progress [OF _ r n] hex_cfg by blast
qed


lemma hrc_cleanup_ok:
  assumes "\<forall>m \<in> set mb. hmsg_ok n m \<and> msg_type m \<in> {WORKER_MSG_REQUEST, WORKER_MSG_RETURN}" and "distinct (msgs WORKER_MSG_RETURN mb)"
    and "\<And>t. t \<in> set (msgs WORKER_MSG_RETURN mb) \<Longrightarrow> \<exists>c. h_tasks w t = Some c \<and> ht_state c = TASK_ZOMBIE \<and> links c = (None, None)"
  shows "cleanupMasterMb w mb = Inr (w\<lparr>h_tasks := (\<lambda>t. if t \<in> set (msgs WORKER_MSG_RETURN mb) then None else h_tasks w t)\<rparr>)"
  using assms
proof (induction mb arbitrary: w)
  case (Cons m mb)
  show ?case
  proof (cases "msg_type m = WORKER_MSG_REQUEST")
    case True
    then show ?thesis using Cons by simp
  next
    case False
    then have ty: "msg_type m = WORKER_MSG_RETURN" using Cons.prems(1) by simp
    then obtain t where t: "msg_body m = BTask (Some t)" using Cons.prems(1) by (auto simp: hmsg_ok_def)
    have mt: "msg_task m = t" using t by (simp add: msg_task_def)
    obtain c where c: "h_tasks w t = Some c" "ht_state c = TASK_ZOMBIE" "links c = (None, None)" using Cons.prems(3) [of t] ty mt by auto
    let ?w = "w\<lparr>h_tasks := (h_tasks w)(t := None)\<rparr>"
    have "LpelTaskDestroy w (Some t) = Inr ?w" using c by (simp add: LpelTaskDestroy_def links_def free_at_def)
    then have "cleanupMasterMb w (m # mb) = cleanupMasterMb ?w mb" using ty t c by (simp add: body_task_def)
    also have "\<dots> = Inr (?w\<lparr>h_tasks := (\<lambda>u. if u \<in> set (msgs WORKER_MSG_RETURN mb) then None else h_tasks ?w u)\<rparr>)"
      using Cons.prems ty mt by (intro Cons.IH) auto
    finally show ?thesis using ty mt by (auto simp: fun_eq_iff)
  qed
qed simp

text \<open>
  C29: Cleaning up after all workers have ended: when only requests and returned tasks that have finished are left for the master,
  its mailbox is emptied without a failing assertion, exactly the returned tasks are destroyed, and the mailbox of every worker is
  empty, so that it can be destroyed.
\<close>

theorem hrc_shutdown:
  assumes "hreach neg cal r" and "\<forall>a \<in> set (hy_table (hn_sys r)). hn_ctl r a = HOver"
    and "\<forall>m \<in> set (hy_mastermb (hn_sys r)). msg_type m \<in> {WORKER_MSG_REQUEST, WORKER_MSG_RETURN}"
    and "\<forall>t \<in> set (msgs WORKER_MSG_RETURN (hy_mastermb (hn_sys r))). map_option ht_state (h_tasks (hy_store (hn_sys r)) t) = Some TASK_ZOMBIE"
  shows "cleanupMasterMb (hy_store (hn_sys r)) (hy_mastermb (hn_sys r)) = Inr ((hy_store (hn_sys r))\<lparr>h_tasks :=
      (\<lambda>t. if t \<in> set (msgs WORKER_MSG_RETURN (hy_mastermb (hn_sys r))) then None else h_tasks (hy_store (hn_sys r)) t)\<rparr>) \<and>
    ms_workermbs (hy_master (hn_sys r)) = replicate (length (hy_table (hn_sys r))) []"
proof -
  let ?s = "hn_sys r"
  obtain L where H: "hinv False r L" using hreach_any [OF assms(1)] by blast
  note M = hplacedD(6) [OF H]
  have "\<exists>c. h_tasks (hy_store ?s) t = Some c \<and> ht_state c = TASK_ZOMBIE \<and> links c = (None, None)" if t: "t \<in> set (msgs WORKER_MSG_RETURN (hy_mastermb ?s))" for t
  proof -
    have l: "L t = Some PRet" using t M by (auto simp: mb_part_def tasks_in_def)
    obtain c where c: "h_tasks (hy_store ?s) t = Some c" "htask_ok (hy_store ?s) t PRet (hn_wake r t) c"
      using tasks_partD [of "hy_store ?s" L "hn_wake r" t, OF hplacedD(5) [OF H] l] .
    then show ?thesis using assms(4) t by (auto simp: stopped_def closed_task_def)
  qed
  then have "cleanupMasterMb (hy_store ?s) (hy_mastermb ?s) = Inr ((hy_store ?s)\<lparr>h_tasks :=
      (\<lambda>t. if t \<in> set (msgs WORKER_MSG_RETURN (hy_mastermb ?s)) then None else h_tasks (hy_store ?s) t)\<rparr>)"
    using M assms(3) by (intro hrc_cleanup_ok [where n = "length (hy_table ?s)"]) (auto simp: mb_part_def)
  moreover have "ms_workermbs (hy_master ?s) ! i = []" if "i < length (hy_table ?s)" for i
  proof -
    have x: "hn_ctl r (hy_table ?s ! i) = HOver" using assms(2) that by simp
    obtain k where "worker_ok (hy_table ?s ! i) i (ms_workermbs (hy_master ?s) ! i) (count_list (reqs (hy_mastermb ?s)) i)
      (i \<in> waiting (hy_master ?s)) (hn_over r) L (hn_ctl r (hy_table ?s ! i)) k" using hplacedD(7) [OF H] \<open>i < length (hy_table ?s)\<close> unfolding workers_part_def by meson
    then show ?thesis unfolding x by (auto simp: worker_ok_def)
  qed
  then have "ms_workermbs (hy_master ?s) = replicate (length (hy_table ?s)) []" using hplacedD(11) [OF H] by (intro nth_equalityI) simp_all
  ultimately show ?thesis by blast
qed

definition hexA :: hrun where "hexA = hex [EMaster, EMaster, spawn_ev 0 7 3, EMaster, EWorker 1, ETerm, EMaster]"

definition hexB :: hrun where "hexB = projr (the (hexec 0 (\<lambda>i j. 0) (EReturn 1) hexA))"

definition hexC :: hrun where "hexC = the (hrun_events [EBack 1, EWorker 1, EWorker 2] hexB)"

lemma hexC_reach: "hreach 0 (\<lambda>i j. 0) hexC"
proof -
  have "hrun_events [EMaster, EMaster, spawn_ev 0 7 3, EMaster, EWorker 1, ETerm, EMaster] hex0 \<noteq> None" by code_simp
  from hex_reach [OF this] have A: "hreach 0 (\<lambda>i j. 0) hexA" unfolding hexA_def .
  have "map_option links (h_tasks (hy_store (hn_sys hexA)) 7) = Some (None, None)" by code_simp
  moreover have "h_sds (hy_store (hn_sys hexA)) d = None" for d by code_simp
  ultimately have "all_closed (hy_store (hn_sys hexA)) 7" by (auto simp: all_closed_def closed_task_def split: option.splits)
  moreover have "hn_ctl hexA 1 = HTask 7" "hn_wake hexA 7 = Calm" by code_simp+
  ultimately have "henabled (EReturn 1) hexA" by (simp add: runs_now_def)
  moreover have "case hexec 0 (\<lambda>i j. 0) (EReturn 1) hexA of Some (Inr r) \<Rightarrow> True | _ \<Rightarrow> False" by code_simp
  then have "hexec 0 (\<lambda>i j. 0) (EReturn 1) hexA = Some (Inr hexB)" unfolding hexB_def by (auto split: option.splits sum.splits)
  ultimately have "hreach 0 (\<lambda>i j. 0) hexB" using A hreach_step by blast
  moreover have "hrun_events [EBack 1, EWorker 1, EWorker 2] hexB \<noteq> None" by code_simp
  ultimately show ?thesis unfolding hexC_def by (metis hrun_events_reach option.collapse)
qed

theorem hrc_shutdown_witness:
  "cleanupMasterMb (hy_store (hn_sys hexC)) (hy_mastermb (hn_sys hexC)) = Inr ((hy_store (hn_sys hexC))\<lparr>h_tasks :=
      (\<lambda>t. if t \<in> set (msgs WORKER_MSG_RETURN (hy_mastermb (hn_sys hexC))) then None else h_tasks (hy_store (hn_sys hexC)) t)\<rparr>) \<and>
    ms_workermbs (hy_master (hn_sys hexC)) = replicate (length (hy_table (hn_sys hexC))) [] \<and> msgs WORKER_MSG_RETURN (hy_mastermb (hn_sys hexC)) = [7]"
proof -
  have 1: "list_all (\<lambda>a. hn_ctl hexC a = HOver) (hy_table (hn_sys hexC))"
    "list_all (\<lambda>m. msg_type m = WORKER_MSG_REQUEST \<or> msg_type m = WORKER_MSG_RETURN) (hy_mastermb (hn_sys hexC))"
    "list_all (\<lambda>t. map_option ht_state (h_tasks (hy_store (hn_sys hexC)) t) = Some TASK_ZOMBIE) (msgs WORKER_MSG_RETURN (hy_mastermb (hn_sys hexC)))"
    "msgs WORKER_MSG_RETURN (hy_mastermb (hn_sys hexC)) = [7]" by code_simp+
  show ?thesis using hrc_shutdown [OF hexC_reach] 1 by (simp add: list_all_iff)
qed


end
