(* ===== verification/Timing.thy ===== *)
theory Timing
  imports Complex_Main Lpel_Types
begin

text \<open>
  The timing helpers of \<open>src/timing.c\<close>. A \<open>struct timespec\<close> is a record of two integers: the
  seconds and nanoseconds of a clock stay far below the range of \<open>long\<close>. The clock is outside the
  library, so every operation that reads it takes the reading as an argument. The conversions to
  \<open>double\<close> take the rounding functions of the floating-point unit as arguments.
\<close>

subsection \<open>Operations\<close>

record lpel_timing_t =
  tv_sec :: int
  tv_nsec :: int

definition TIMING_BILLION :: int where
  "TIMING_BILLION = 1000000000"

definition LPEL_TIMING_INITIALIZER :: lpel_timing_t where
  "LPEL_TIMING_INITIALIZER = \<lparr>tv_sec = 0, tv_nsec = 0\<rparr>"

text \<open>Without POSIX timers the time stamp comes from \<open>gettimeofday\<close>, as seconds and microseconds.\<close>

definition TIMESTAMP_gettimeofday :: "int \<Rightarrow> int \<Rightarrow> lpel_timing_t" where
  "TIMESTAMP_gettimeofday sec usec = \<lparr>tv_sec = sec, tv_nsec = usec * 1000\<rparr>"

definition LpelTimingNow :: "lpel_timing_t \<Rightarrow> lpel_timing_t \<Rightarrow> lpel_timing_t" where
  "LpelTimingNow clock t = clock"

definition LpelTimingStart :: "lpel_timing_t \<Rightarrow> lpel_timing_t \<Rightarrow> lpel_timing_t" where
  "LpelTimingStart clock t = clock"

definition LpelTimingEnd :: "lpel_timing_t \<Rightarrow> lpel_timing_t \<Rightarrow> lpel_timing_t" where
  "LpelTimingEnd endt t =
    (let start = t;
         start = (if tv_nsec endt < tv_nsec start
                  then start\<lparr>tv_nsec := tv_nsec start - TIMING_BILLION, tv_sec := tv_sec start + 1\<rparr>
                  else start)
     in t\<lparr>tv_nsec := tv_nsec endt - tv_nsec start, tv_sec := tv_sec endt - tv_sec start\<rparr>)"

definition LpelTimingAdd :: "lpel_timing_t \<Rightarrow> lpel_timing_t \<Rightarrow> lpel_timing_t" where
  "LpelTimingAdd t val =
    (let t = t\<lparr>tv_sec := tv_sec t + tv_sec val\<rparr>;
         t = t\<lparr>tv_nsec := tv_nsec t + tv_nsec val\<rparr>
     in if tv_nsec t > TIMING_BILLION
        then t\<lparr>tv_nsec := tv_nsec t - TIMING_BILLION, tv_sec := tv_sec t + 1\<rparr>
        else t)"

definition LpelTimingDiff :: "lpel_timing_t \<Rightarrow> lpel_timing_t \<Rightarrow> lpel_timing_t" where
  "LpelTimingDiff start endt =
    (let res = start;
         res = (if tv_nsec endt < tv_nsec start
                then res\<lparr>tv_nsec := tv_nsec res - TIMING_BILLION, tv_sec := tv_sec res + 1\<rparr>
                else res)
     in res\<lparr>tv_nsec := tv_nsec endt - tv_nsec res, tv_sec := tv_sec endt - tv_sec res\<rparr>)"

definition LpelTimingSet :: "lpel_timing_t \<Rightarrow> lpel_timing_t \<Rightarrow> lpel_timing_t" where
  "LpelTimingSet t val = t\<lparr>tv_sec := tv_sec val, tv_nsec := tv_nsec val\<rparr>"

definition LpelTimingZero :: "lpel_timing_t \<Rightarrow> lpel_timing_t" where
  "LpelTimingZero t = t\<lparr>tv_sec := 0, tv_nsec := 0\<rparr>"

definition LpelTimingEquals :: "lpel_timing_t \<Rightarrow> lpel_timing_t \<Rightarrow> bool" where
  "LpelTimingEquals t1 t2 \<longleftrightarrow> tv_sec t1 = tv_sec t2 \<and> tv_nsec t1 = tv_nsec t2"

text \<open>
  The conversions: \<open>dbl\<close> rounds a real number to a \<open>double\<close>, \<open>flt\<close> to a \<open>float\<close>; each arithmetic
  operation of the source is rounded once. A cast to \<open>unsigned long\<close> cuts off the fraction.
\<close>

definition LpelTimingToNSec :: "(real \<Rightarrow> real) \<Rightarrow> lpel_timing_t \<Rightarrow> real" where
  "LpelTimingToNSec dbl t =
    dbl (dbl (dbl (of_int (tv_sec t)) * 1000000000) + dbl (of_int (tv_nsec t)))"

definition LpelTimingToMSec :: "(real \<Rightarrow> real) \<Rightarrow> lpel_timing_t \<Rightarrow> real" where
  "LpelTimingToMSec dbl t =
    dbl (dbl (dbl (of_int (tv_sec t)) * 1000) + dbl (dbl (of_int (tv_nsec t)) / 1000000))"

definition LpelTimingExpAvg ::
    "(real \<Rightarrow> real) \<Rightarrow> (real \<Rightarrow> real) \<Rightarrow> lpel_timing_t \<Rightarrow> lpel_timing_t \<Rightarrow> real \<Rightarrow> lpel_timing_t" where
  "LpelTimingExpAvg dbl flt t lst alpha =
    (let dlast = LpelTimingToNSec dbl lst;
         dhist = LpelTimingToNSec dbl t;
         dnew = dbl (dbl (dlast * alpha) + dbl (dhist * flt (1 - alpha)));
         t = t\<lparr>tv_sec := \<lfloor>dbl (dnew / 1000000000)\<rfloor>\<rparr>
     in t\<lparr>tv_nsec := \<lfloor>dbl (dnew - dbl (dbl (of_int (tv_sec t)) * 1000000000))\<rfloor>\<rparr>)"

subsection \<open>Normalised times\<close>

text \<open>The precondition the source names: the nanoseconds are below one second.\<close>

definition normalised :: "lpel_timing_t \<Rightarrow> bool" where
  "normalised t \<longleftrightarrow> 0 \<le> tv_nsec t \<and> tv_nsec t < TIMING_BILLION"

text \<open>The time in nanoseconds.\<close>

definition nanos :: "lpel_timing_t \<Rightarrow> int" where
  "nanos t = tv_sec t * TIMING_BILLION + tv_nsec t"

lemmas timing_defs = LpelTimingNow_def LpelTimingStart_def LpelTimingEnd_def LpelTimingAdd_def
  LpelTimingDiff_def LpelTimingSet_def LpelTimingZero_def LpelTimingEquals_def normalised_def
  nanos_def TIMING_BILLION_def TIMESTAMP_gettimeofday_def LPEL_TIMING_INITIALIZER_def Let_def

lemma End_eq_Diff: "LpelTimingEnd endt t = LpelTimingDiff t endt"
  by (simp add: timing_defs)

lemma Diff_nanos [simp]: "nanos (LpelTimingDiff s e) = nanos e - nanos s"
  by (simp add: timing_defs)

lemma Diff_normalised: "normalised s \<Longrightarrow> normalised e \<Longrightarrow> normalised (LpelTimingDiff s e)"
  by (auto simp: timing_defs)

lemma Add_nanos [simp]: "nanos (LpelTimingAdd t v) = nanos t + nanos v"
  by (simp add: timing_defs)

lemma Add_nsec: "normalised t \<Longrightarrow> normalised v \<Longrightarrow>
    0 \<le> tv_nsec (LpelTimingAdd t v) \<and> tv_nsec (LpelTimingAdd t v) \<le> TIMING_BILLION"
  by (auto simp: timing_defs)

lemma Add_normalised_iff: "normalised t \<Longrightarrow> normalised v \<Longrightarrow>
    normalised (LpelTimingAdd t v) \<longleftrightarrow> tv_nsec t + tv_nsec v \<noteq> TIMING_BILLION"
  by (auto simp: timing_defs)

lemma Zero_normalised [simp]: "normalised (LpelTimingZero t)" "normalised LPEL_TIMING_INITIALIZER"
  "nanos (LpelTimingZero t) = 0"
  by (simp_all add: timing_defs)

lemma gettimeofday_normalised: "0 \<le> us \<Longrightarrow> us < 1000000 \<Longrightarrow> normalised (TIMESTAMP_gettimeofday s us)"
  by (simp add: timing_defs)

lemma nanos_div: "normalised t \<Longrightarrow> nanos t div TIMING_BILLION = tv_sec t"
  by (simp add: timing_defs)

lemma nanos_mod: "normalised t \<Longrightarrow> nanos t mod TIMING_BILLION = tv_nsec t"
  by (simp add: timing_defs)

lemma normalised_unique: "normalised s \<Longrightarrow> normalised t \<Longrightarrow>
    LpelTimingEquals s t \<longleftrightarrow> nanos s = nanos t"
  by (metis LpelTimingEquals_def nanos_def nanos_div nanos_mod)

text \<open>In exact arithmetic the average of two times lies between them and is normalised.\<close>

lemma ExpAvg_exact:
  assumes "0 \<le> alpha" "alpha \<le> 1"
  shows "normalised (LpelTimingExpAvg id id t lst alpha)"
    and "min (nanos lst) (nanos t) \<le> nanos (LpelTimingExpAvg id id t lst alpha)"
    and "nanos (LpelTimingExpAvg id id t lst alpha) \<le> max (nanos lst) (nanos t)"
proof -
  define d where "d = of_int (nanos lst) * alpha + of_int (nanos t) * (1 - alpha)"
  define s where "s = \<lfloor>d / 1000000000\<rfloor>"
  define n where "n = \<lfloor>d - of_int s * 1000000000\<rfloor>"
  have r: "LpelTimingExpAvg id id t lst alpha = \<lparr>tv_sec = s, tv_nsec = n\<rparr>"
    by (simp add: LpelTimingExpAvg_def LpelTimingToNSec_def s_def n_def d_def nanos_def Let_def
        TIMING_BILLION_def)
  have s: "of_int s * 1000000000 \<le> d" "d < (of_int s + 1) * 1000000000"
    using of_int_floor_le [of "d / 1000000000"] real_of_int_floor_add_one_gt [of "d / 1000000000"]
    by (simp_all add: s_def field_simps)
  show "normalised (LpelTimingExpAvg id id t lst alpha)"
    using s unfolding r normalised_def TIMING_BILLION_def n_def by (simp add: floor_less_iff le_floor_iff)
  have n: "real_of_int (nanos (LpelTimingExpAvg id id t lst alpha)) =
      of_int s * 1000000000 + of_int n"
    by (simp add: r nanos_def TIMING_BILLION_def)
  have "real_of_int n \<le> d - of_int s * 1000000000" "d - of_int s * 1000000000 < of_int n + 1"
    unfolding n_def by simp_all
  then have d: "nanos (LpelTimingExpAvg id id t lst alpha) = \<lfloor>d\<rfloor>"
    using n by linarith
  define lo hi where "lo = min (nanos lst) (nanos t)" and "hi = max (nanos lst) (nanos t)"
  have "of_int lo * alpha + of_int lo * (1 - alpha) \<le> d" "d \<le> of_int hi * alpha + of_int hi * (1 - alpha)"
    unfolding d_def lo_def hi_def using assms by (auto intro!: add_mono mult_right_mono)
  then have "of_int lo \<le> d" "d \<le> of_int hi"
    by (simp_all add: algebra_simps)
  then show "min (nanos lst) (nanos t) \<le> nanos (LpelTimingExpAvg id id t lst alpha)"
    "nanos (LpelTimingExpAvg id id t lst alpha) \<le> max (nanos lst) (nanos t)"
    unfolding d lo_def [symmetric] hi_def [symmetric] by (simp_all add: le_floor_iff floor_le_iff)
qed

subsection \<open>Properties\<close>

lemma timing_add_diff_parts:
  assumes "normalised start" "normalised endt"
  shows "normalised (LpelTimingDiff start endt)"
    and "nanos (LpelTimingDiff start endt) = nanos endt - nanos start"
    and "LpelTimingEnd endt (LpelTimingStart start t) = LpelTimingDiff start endt"
    and "nanos (LpelTimingAdd start (LpelTimingDiff start endt)) = nanos endt"
    and "LpelTimingEquals (LpelTimingAdd start (LpelTimingDiff start endt)) endt \<longleftrightarrow>
      \<not> (tv_nsec endt = 0 \<and> tv_nsec start \<noteq> 0)"
    and "tv_nsec endt = 0 \<and> tv_nsec start \<noteq> 0 \<Longrightarrow>
      tv_nsec (LpelTimingAdd start (LpelTimingDiff start endt)) = TIMING_BILLION"
  using assms by (auto simp: Diff_normalised End_eq_Diff LpelTimingStart_def)
    (auto simp: timing_defs split: if_splits)

text \<open>
  C39: The elapsed time between two normalised times is normalised and exact, and measuring a start
  and an end with \<open>LpelTimingEnd\<close> gives the same value. Adding the elapsed time to the start gives
  back the end exactly, field by field, except when the end falls on a full second and the start
  does not: there \<open>LpelTimingAdd\<close> compares with \<open>>\<close> and leaves one billion nanoseconds in place, so
  the sum has the right value and is not normalised.
\<close>

theorem timing_add_diff:
  assumes "normalised start" "normalised endt"
  shows "normalised (LpelTimingDiff start endt) \<and> nanos (LpelTimingDiff start endt) = nanos endt - nanos start \<and>
    LpelTimingEnd endt (LpelTimingStart start t) = LpelTimingDiff start endt \<and>
    nanos (LpelTimingAdd start (LpelTimingDiff start endt)) = nanos endt \<and>
    (LpelTimingEquals (LpelTimingAdd start (LpelTimingDiff start endt)) endt \<longleftrightarrow>
      \<not> (tv_nsec endt = 0 \<and> tv_nsec start \<noteq> 0)) \<and>
    (tv_nsec endt = 0 \<and> tv_nsec start \<noteq> 0 \<longrightarrow>
      tv_nsec (LpelTimingAdd start (LpelTimingDiff start endt)) = TIMING_BILLION)"
  using timing_add_diff_parts [OF assms] by (intro conjI impI)

theorem timing_add_diff_witness:
  "LpelTimingDiff \<lparr>tv_sec = 1, tv_nsec = 900000000\<rparr> \<lparr>tv_sec = 3, tv_nsec = 0\<rparr>
      = \<lparr>tv_sec = 1, tv_nsec = 100000000\<rparr> \<and>
   LpelTimingAdd \<lparr>tv_sec = 1, tv_nsec = 900000000\<rparr>
      (LpelTimingDiff \<lparr>tv_sec = 1, tv_nsec = 900000000\<rparr> \<lparr>tv_sec = 3, tv_nsec = 0\<rparr>)
      = \<lparr>tv_sec = 2, tv_nsec = 1000000000\<rparr> \<and>
   nanos (LpelTimingAdd \<lparr>tv_sec = 1, tv_nsec = 900000000\<rparr>
      (LpelTimingDiff \<lparr>tv_sec = 1, tv_nsec = 900000000\<rparr> \<lparr>tv_sec = 3, tv_nsec = 0\<rparr>))
      = nanos \<lparr>tv_sec = 3, tv_nsec = 0\<rparr>"
  using timing_add_diff [of "\<lparr>tv_sec = 1, tv_nsec = 900000000\<rparr>" "\<lparr>tv_sec = 3, tv_nsec = 0\<rparr>"]
  by (simp add: timing_defs)

end
