(* ===== verification/Monitoring.thy ===== *)
theory Monitoring
  imports Timing "HOL-Library.Signed_Division"
begin

text \<open>
  The monitoring module of \<open>modimpl/monitoring.c\<close>: the contexts of workers, tasks and streams, the
  dirty list of a task and the callbacks that the schedulers call. The contexts live in three heaps;
  a log file is the path given to \<open>fopen\<close> and the text written so far. Counters and flag words keep
  the width of their C types. What \<open>malloc\<close> leaves in a fresh context is an argument, the callbacks
  overwrite the fields the source assigns; clock readings are arguments too.
\<close>

unbundle bit_operations_syntax

subsection \<open>Number formats of the log\<close>

definition digit :: "nat \<Rightarrow> char" where
  "digit n = char_of (48 + n)"

text \<open>The conversions \<open>%lu\<close> (also \<open>%u\<close>) and \<open>%0<w>lu\<close>.\<close>

fun dec :: "nat \<Rightarrow> string" where
  "dec n = (if n < 10 then [digit n] else dec (n div 10) @ [digit (n mod 10)])"

declare dec.simps [simp del]

definition dec0 :: "nat \<Rightarrow> nat \<Rightarrow> string" where
  "dec0 w n = replicate (w - length (dec n)) (CHR ''0'') @ dec n"

text \<open>The conversions \<open>%d\<close> and \<open>%0<w>d\<close>: a minus sign counts to the width.\<close>

definition dec_int :: "int \<Rightarrow> string" where
  "dec_int i = (if i < 0 then CHR ''-'' # dec (nat (- i)) else dec (nat i))"

definition dec0_int :: "nat \<Rightarrow> int \<Rightarrow> string" where
  "dec0_int w i = (if i < 0 then CHR ''-'' # dec0 (w - 1) (nat (- i)) else dec0 w (nat i))"

text \<open>A value of type \<open>long\<close> read as \<open>unsigned long\<close>.\<close>

definition ulong :: "int \<Rightarrow> nat" where
  "ulong i = nat (i mod 2 ^ 64)"

subsection \<open>Contexts\<close>

definition END_LOG_ENTRY :: char where "END_LOG_ENTRY = CHR ''#''"
definition WORKER_START_EVENT :: char where "WORKER_START_EVENT = CHR ''S''"
definition WORKER_WAIT_EVENT :: char where "WORKER_WAIT_EVENT = CHR ''W''"
definition WORKER_END_EVENT :: char where "WORKER_END_EVENT = CHR ''E''"
definition LOG_FORMAT_VERSION :: string where
  "LOG_FORMAT_VERSION = ''Log format version 2.2 (since 05/03/2012)''"
definition mon_prefix :: string where "mon_prefix = ''mon_''"
definition mon_suffix :: string where "mon_suffix = ''.log''"
definition MON_USREVT_BUFSIZE_DELTA :: int where "MON_USREVT_BUFSIZE_DELTA = 64"
definition MON_TASKNAME_MAXLEN :: nat where "MON_TASKNAME_MAXLEN = 64"
definition MON_FNAME_MAXLEN :: nat where "MON_FNAME_MAXLEN = 31"

definition ST_INUSE :: char where "ST_INUSE = CHR ''I''"
definition ST_OPENED :: char where "ST_OPENED = CHR ''O''"
definition ST_CLOSED :: char where "ST_CLOSED = CHR ''C''"
definition ST_REPLACED :: char where "ST_REPLACED = CHR ''R''"

definition ST_MOVED :: "32 word" where "ST_MOVED = 1"
definition ST_WAKEUP :: "32 word" where "ST_WAKEUP = 2"
definition ST_BLOCKON :: "32 word" where "ST_BLOCKON = 4"

definition LPEL_MON_TIME :: "'a::len word" where "LPEL_MON_TIME = 1"
definition LPEL_MON_TASK :: "'a::len word" where "LPEL_MON_TASK = 2"
definition LPEL_MON_MESSAGE :: "'a::len word" where "LPEL_MON_MESSAGE = 4"
definition LPEL_MON_WORKER :: "'a::len word" where "LPEL_MON_WORKER = 8"
definition LPEL_MON_STREAM :: "'a::len word" where "LPEL_MON_STREAM = 16"
definition LPEL_MON_LOAD :: "'a::len word" where "LPEL_MON_LOAD = 64"

record mon_file =
  f_path :: string
  f_text :: string

text \<open>
  The wait statistics of a worker context are \<open>None\<close> while no assignment has initialised them; reading
  them then is the error \<open>Indeterminate\<close>.
\<close>

record mon_worker_t =
  mw_wid :: int
  mw_outfile :: mon_file
  mw_disp :: "32 word"
  mw_wait_current :: lpel_timing_t
  mw_wait_cnt :: "32 word option"
  mw_wait_time :: "lpel_timing_t option"
  mw_exec_time :: lpel_timing_t
  mw_events_cnt :: int
  mw_events_size :: int
  mw_events_buffer :: bool
  mw_flags :: "32 word"

text \<open>
  A link of the dirty list: \<open>NULL\<close> for a stream that is not on the list, \<open>ST_DIRTY_END\<close> (the
  pointer \<open>-1\<close>) at the end of the list, or the next stream.
\<close>

datatype dirty = DNull | ST_DIRTY_END | DStream addr

record mon_task_t =
  mt_name :: string
  mt_mw :: ptr
  mt_tid :: "64 word"
  mt_flags :: "64 word"
  mt_creat :: lpel_timing_t
  mt_start :: lpel_timing_t
  mt_stop :: lpel_timing_t
  mt_dirty_list :: dirty
  mt_last_in_cnt :: "64 word"
  mt_last_out_cnt :: "64 word"
  mt_blockon :: char

record mon_stream_t =
  mst_montask :: ptr
  mst_dirty :: dirty
  mst_mode :: char
  mst_state :: char
  mst_sid :: "32 word"
  mst_counter :: "64 word"
  mst_strevt_flags :: "32 word"

text \<open>The static variables of the module and the contexts it has allocated.\<close>

record mon_state =
  mon_node :: int
  mon_flags :: "32 word"
  monitoring_begin :: lpel_timing_t
  mworkers :: "mon_worker_t heap"
  mtasks :: "mon_task_t heap"
  mstreams :: "mon_stream_t heap"

definition known :: "'a option \<Rightarrow> 'a res" where
  "known v = (case v of None \<Rightarrow> Inl Indeterminate | Some x \<Rightarrow> Inr x)"

lemma known_simps [simp]: "known None = Inl Indeterminate" "known (Some x) = Inr x"
  by (simp_all add: known_def)

abbreviation FLAG :: "'a::len word \<Rightarrow> 'a word \<Rightarrow> bool" where
  "FLAG fl m \<equiv> fl AND m \<noteq> 0"

definition fprintf :: "mon_file \<Rightarrow> string \<Rightarrow> mon_file" where
  "fprintf f s = f\<lparr>f_text := f_text f @ s\<rparr>"

subsection \<open>Printing times\<close>

definition PrintTimingUs :: "lpel_timing_t \<Rightarrow> mon_file \<Rightarrow> mon_file res" where
  "PrintTimingUs t file =
    (if tv_sec t = 0 then Inr (fprintf file (dec (ulong (tv_nsec t sdiv 1000)) @ '' ''))
     else bindR (assertR (tv_nsec t sdiv 1000 \<ge> 0 \<and> tv_nsec t sdiv 1000 < 1000000)) (\<lambda>_.
       Inr (fprintf file (dec (ulong (tv_sec t)) @ dec0 6 (ulong (tv_nsec t sdiv 1000)) @ '' ''))))"

definition PrintTimingNs :: "lpel_timing_t \<Rightarrow> mon_file \<Rightarrow> mon_file res" where
  "PrintTimingNs t file =
    (if tv_sec t = 0 then Inr (fprintf file (dec (ulong (tv_nsec t)) @ '' ''))
     else bindR (assertR (tv_nsec t \<ge> 0 \<and> tv_nsec t < 1000000000)) (\<lambda>_.
       Inr (fprintf file (dec (ulong (tv_sec t)) @ dec0 9 (ulong (tv_nsec t)) @ '' ''))))"

definition PrintNormTSus :: "lpel_timing_t \<Rightarrow> lpel_timing_t \<Rightarrow> mon_file \<Rightarrow> mon_file res" where
  "PrintNormTSus begin_ts t file =
    (let norm_ts = LpelTimingDiff begin_ts t in
     bindR (assertR (tv_nsec norm_ts \<ge> 0 \<and> tv_nsec norm_ts sdiv 1000 < 1000000)) (\<lambda>_.
       Inr (fprintf file (dec (ulong (tv_sec norm_ts)) @ ''.'' @
         dec0 6 (ulong (tv_nsec norm_ts sdiv 1000)) @ '' ''))))"

definition PrintNormTSns :: "lpel_timing_t \<Rightarrow> lpel_timing_t \<Rightarrow> mon_file \<Rightarrow> mon_file res" where
  "PrintNormTSns begin_ts t file =
    (let norm_ts = LpelTimingDiff begin_ts t in
     bindR (assertR (tv_nsec norm_ts \<ge> 0 \<and> tv_nsec norm_ts < 1000000000)) (\<lambda>_.
       Inr (fprintf file (dec (ulong (tv_sec norm_ts)) @ ''.'' @
         dec0 9 (ulong (tv_nsec norm_ts)) @ '' ''))))"

subsection \<open>The dirty list\<close>

text \<open>
  \<open>MarkDirty\<close> puts a stream in front of the dirty list of its task, once, and copies its counter.
\<close>

definition MarkDirty :: "mon_state \<Rightarrow> ptr \<Rightarrow> mon_state res" where
  "MarkDirty M ms =
    bindR (deref (mstreams M) ms) (\<lambda>s.
    bindR (deref (mtasks M) (mst_montask s)) (\<lambda>t.
    let (s, t) = (if mst_dirty s = DNull
          then (s\<lparr>mst_dirty := mt_dirty_list t\<rparr>, t\<lparr>mt_dirty_list := DStream (the ms)\<rparr>)
          else (s, t)) in
    bindR (if mst_mode s = CHR ''r'' then Inr (t\<lparr>mt_last_in_cnt := mst_counter s\<rparr>)
           else if mst_mode s = CHR ''w'' then Inr (t\<lparr>mt_last_out_cnt := mst_counter s\<rparr>)
           else Inl AssertFail) (\<lambda>t.
      Inr (M\<lparr>mstreams := (mstreams M)(the ms \<mapsto> s), mtasks := (mtasks M)(the (mst_montask s) \<mapsto> t)\<rparr>))))"

text \<open>The entry of a stream in the stream trace.\<close>

definition stream_entry :: "mon_stream_t \<Rightarrow> string" where
  "stream_entry s = dec (unat (mst_sid s)) @ [mst_mode s, mst_state s] @ dec (unat (mst_counter s)) @
    [if FLAG (mst_strevt_flags s) ST_BLOCKON then CHR ''?'' else CHR ''-'',
     if FLAG (mst_strevt_flags s) ST_WAKEUP then CHR ''!'' else CHR ''-'',
     if FLAG (mst_strevt_flags s) ST_MOVED then CHR ''*'' else CHR ''-'']"

text \<open>The switch at the end of the loop body; a closed stream is freed.\<close>

definition mon_reset_stream :: "mon_stream_t heap \<Rightarrow> addr \<Rightarrow> mon_stream_t \<Rightarrow> mon_stream_t heap res" where
  "mon_reset_stream h a s =
    (let s = s\<lparr>mst_counter := 0\<rparr> in
     if mst_state s = ST_OPENED \<or> mst_state s = ST_REPLACED
       then Inr (h(a \<mapsto> s\<lparr>mst_state := ST_INUSE, mst_dirty := DNull, mst_strevt_flags := 0\<rparr>))
     else if mst_state s = ST_INUSE
       then Inr (h(a \<mapsto> s\<lparr>mst_dirty := DNull, mst_strevt_flags := 0\<rparr>))
     else if mst_state s = ST_CLOSED then free_at h (Some a)
     else Inl AssertFail)"

partial_function (option) print_dirty_loop ::
    "addr \<Rightarrow> dirty \<Rightarrow> mon_file \<Rightarrow> mon_stream_t heap \<Rightarrow> (mon_file \<times> mon_stream_t heap) run" where
  "print_dirty_loop mt ms file h =
    (case ms of ST_DIRTY_END \<Rightarrow> Some (Inr (file, h))
     | DNull \<Rightarrow> Some (Inl NullDeref)
     | DStream a \<Rightarrow>
        (case deref h (Some a) of Inl e \<Rightarrow> Some (Inl e)
         | Inr s \<Rightarrow>
            if mst_montask s \<noteq> Some mt then Some (Inl AssertFail)
            else (case mon_reset_stream h a s of Inl e \<Rightarrow> Some (Inl e)
              | Inr h' \<Rightarrow> print_dirty_loop mt (mst_dirty s) (fprintf file (stream_entry s)) h')))"

declare print_dirty_loop.simps [code]

definition PrintDirtyList :: "mon_state \<Rightarrow> addr \<Rightarrow> mon_state run" where
  "PrintDirtyList M mt =
    bindO (Some (deref (mtasks M) (Some mt))) (\<lambda>t.
    bindO (Some (deref (mworkers M) (mt_mw t))) (\<lambda>w.
    bindO (print_dirty_loop mt (mt_dirty_list t) (mw_outfile w) (mstreams M)) (\<lambda>(file, h).
      Some (Inr (M\<lparr>mstreams := h,
        mworkers := (mworkers M)(the (mt_mw t) \<mapsto> w\<lparr>mw_outfile := file\<rparr>),
        mtasks := (mtasks M)(mt \<mapsto> t\<lparr>mt_dirty_list := ST_DIRTY_END\<rparr>)\<rparr>)))))"

text \<open>\<open>PrintUsrEvt\<close> has an empty body in this module.\<close>

definition PrintUsrEvt :: "mon_state \<Rightarrow> addr \<Rightarrow> mon_state" where
  "PrintUsrEvt M mt = M"

subsection \<open>Worker callbacks\<close>

definition MonCbWorkerCreate :: "mon_state \<Rightarrow> ptr \<Rightarrow> mon_worker_t \<Rightarrow> int \<Rightarrow> bool \<Rightarrow> lpel_timing_t \<Rightarrow>
    (mon_state \<times> ptr) res" where
  "MonCbWorkerCreate M new junk wid fopen_ok clk =
    (let mon = junk\<lparr>mw_flags := mon_flags M, mw_wid := wid\<rparr>;
         fname = take (MON_FNAME_MAXLEN - 1)
           (mon_prefix @ ''n'' @ dec0_int 2 (mon_node M) @ ''_worker'' @ dec0_int 2 wid @ mon_suffix) in
     bindR (assertR fopen_ok) (\<lambda>_.
     let mon = mon\<lparr>mw_outfile := fprintf \<lparr>f_path = fname, f_text = []\<rparr> (LOG_FORMAT_VERSION @ [END_LOG_ENTRY])\<rparr>;
         mon = mon\<lparr>mw_disp := 0, mw_wait_current := LpelTimingZero (mw_wait_current mon)\<rparr>;
         mon = mon\<lparr>mw_wait_cnt := Some 0, mw_wait_time := Some (LpelTimingZero LPEL_TIMING_INITIALIZER)\<rparr>;
         mon = mon\<lparr>mw_events_cnt := 0, mw_events_size := MON_USREVT_BUFSIZE_DELTA, mw_events_buffer := True\<rparr> in
     bindR (if (FLAG (mw_flags mon) LPEL_MON_WORKER \<and> FLAG (mw_flags mon) LPEL_MON_TIME)
                \<or> FLAG (mw_flags mon) LPEL_MON_LOAD
            then PrintNormTSns (monitoring_begin M) clk (mw_outfile mon) else Inr (mw_outfile mon)) (\<lambda>file.
     let file = (if FLAG (mw_flags mon) LPEL_MON_WORKER \<or> FLAG (mw_flags mon) LPEL_MON_LOAD
                 then fprintf file [WORKER_START_EVENT, END_LOG_ENTRY] else file) in
     bindR (alloc_at (mworkers M) new (mon\<lparr>mw_outfile := file\<rparr>)) (\<lambda>h.
       Inr (M\<lparr>mworkers := h\<rparr>, new)))))"

text \<open>
  \<open>MonCbWrapperCreate\<close> does not assign the wait statistics of the context: they stay uninitialised.
\<close>

definition MonCbWrapperCreate :: "mon_state \<Rightarrow> ptr \<Rightarrow> mon_worker_t \<Rightarrow> ptr \<Rightarrow> bool \<Rightarrow> lpel_timing_t \<Rightarrow>
    (mon_state \<times> ptr) res" where
  "MonCbWrapperCreate M new junk mt fopen_ok clk =
    bindR (deref (mtasks M) mt) (\<lambda>t.
    let mon = junk\<lparr>mw_wid := -1, mw_flags := mon_flags M, mw_wait_cnt := None, mw_wait_time := None\<rparr>;
        fname = take (MON_FNAME_MAXLEN - 1)
          (if length (mt_name t) > 0
           then mon_prefix @ ''n'' @ dec0_int 2 (mon_node M) @ ''_'' @ mt_name t @ mon_suffix
           else mon_prefix @ ''wrapper'' @ dec0 2 (unat (mt_tid t)) @ mon_suffix) in
     bindR (assertR fopen_ok) (\<lambda>_.
     let mon = mon\<lparr>mw_outfile := \<lparr>f_path = fname, f_text = []\<rparr>\<rparr>;
         mon = mon\<lparr>mw_disp := 0, mw_wait_current := LpelTimingZero (mw_wait_current mon)\<rparr>;
         mon = mon\<lparr>mw_events_size := 0, mw_events_cnt := 0, mw_events_buffer := False\<rparr> in
     bindR (if FLAG (mw_flags mon) LPEL_MON_WORKER
            then bindR (if FLAG (mw_flags mon) LPEL_MON_TIME
                        then PrintNormTSns (monitoring_begin M) clk (mw_outfile mon)
                        else Inr (mw_outfile mon))
              (\<lambda>file. Inr (fprintf file [WORKER_START_EVENT, END_LOG_ENTRY]))
            else Inr (mw_outfile mon)) (\<lambda>file.
     bindR (alloc_at (mworkers M) new (mon\<lparr>mw_outfile := file\<rparr>)) (\<lambda>h.
       Inr (M\<lparr>mworkers := h\<rparr>, new)))))"

definition printStatistic :: "mon_worker_t \<Rightarrow> mon_file \<Rightarrow> mon_file res" where
  "printStatistic mon file =
    bindR (known (mw_wait_cnt mon)) (\<lambda>cnt.
    bindR (known (mw_wait_time mon)) (\<lambda>t.
      PrintTimingNs t (fprintf file (''WC'' @ dec_int (sint cnt) @ ''WT''))))"

text \<open>The result carries the final text of the log file beside the new state.\<close>

definition MonCbWorkerDestroy :: "mon_state \<Rightarrow> ptr \<Rightarrow> lpel_timing_t \<Rightarrow> bool \<Rightarrow>
    (mon_state \<times> mon_file) res" where
  "MonCbWorkerDestroy M p clk fclose_ok =
    bindR (deref (mworkers M) p) (\<lambda>mon.
    bindR (if (FLAG (mw_flags mon) LPEL_MON_WORKER \<and> FLAG (mw_flags mon) LPEL_MON_TIME)
               \<or> FLAG (mw_flags mon) LPEL_MON_LOAD
           then PrintNormTSns (monitoring_begin M) clk (mw_outfile mon) else Inr (mw_outfile mon)) (\<lambda>file.
    bindR (if FLAG (mw_flags mon) LPEL_MON_WORKER \<or> FLAG (mw_flags mon) LPEL_MON_LOAD
           then let file = fprintf file [WORKER_END_EVENT, END_LOG_ENTRY] in
             if FLAG (mw_flags mon) LPEL_MON_LOAD then printStatistic mon file else Inr file
           else Inr file) (\<lambda>file.
    bindR (assertR fclose_ok) (\<lambda>_.
    bindR (free_at (mworkers M) p) (\<lambda>h.
      Inr (M\<lparr>mworkers := h\<rparr>, file))))))"

definition MonCbWorkerWaitStart :: "mon_state \<Rightarrow> ptr \<Rightarrow> lpel_timing_t \<Rightarrow> mon_state res" where
  "MonCbWorkerWaitStart M p clk =
    bindR (deref (mworkers M) p) (\<lambda>mon.
    let mon = mon\<lparr>mw_wait_current := LpelTimingStart clk (mw_wait_current mon)\<rparr> in
    bindR (if FLAG (mw_flags mon) LPEL_MON_LOAD
           then bindR (known (mw_wait_cnt mon)) (\<lambda>cnt. Inr (mon\<lparr>mw_wait_cnt := Some (cnt + 1)\<rparr>))
           else Inr mon) (\<lambda>mon.
    Inr (M\<lparr>mworkers := (mworkers M)(the p \<mapsto> mon)\<rparr>)))"

definition MonCbWorkerWaitStop :: "mon_state \<Rightarrow> ptr \<Rightarrow> lpel_timing_t \<Rightarrow> lpel_timing_t \<Rightarrow> mon_state res" where
  "MonCbWorkerWaitStop M p clk clk2 =
    bindR (deref (mworkers M) p) (\<lambda>mon.
    let mon = (if FLAG (mw_flags mon) LPEL_MON_WORKER \<or> FLAG (mw_flags mon) LPEL_MON_LOAD
               then mon\<lparr>mw_wait_current := LpelTimingEnd clk (mw_wait_current mon)\<rparr> else mon) in
    bindR (if FLAG (mw_flags mon) LPEL_MON_WORKER
           then bindR (if FLAG (mw_flags mon) LPEL_MON_TIME
                       then PrintNormTSns (monitoring_begin M) clk2 (mw_outfile mon)
                       else Inr (mw_outfile mon)) (\<lambda>file.
             bindR (PrintTimingNs (mw_wait_current mon) (fprintf file [WORKER_WAIT_EVENT])) (\<lambda>file.
               Inr (fprintf file [END_LOG_ENTRY])))
           else Inr (mw_outfile mon)) (\<lambda>file.
    let mon = mon\<lparr>mw_outfile := file\<rparr> in
    bindR (if FLAG (mw_flags mon) LPEL_MON_LOAD
           then bindR (known (mw_wait_time mon)) (\<lambda>t.
             Inr (mon\<lparr>mw_wait_time := Some (LpelTimingAdd t (mw_wait_current mon))\<rparr>))
           else Inr mon) (\<lambda>mon.
    Inr (M\<lparr>mworkers := (mworkers M)(the p \<mapsto> mon)\<rparr>))))"

subsection \<open>Task callbacks\<close>

definition MonCbTaskDestroy :: "mon_state \<Rightarrow> ptr \<Rightarrow> mon_state res" where
  "MonCbTaskDestroy M mt =
    bindR (assertR (mt \<noteq> None)) (\<lambda>_.
    bindR (free_at (mtasks M) mt) (\<lambda>h. Inr (M\<lparr>mtasks := h\<rparr>)))"

definition MonCbTaskAssign :: "mon_state \<Rightarrow> ptr \<Rightarrow> ptr \<Rightarrow> mon_state res" where
  "MonCbTaskAssign M mt mw =
    bindR (assertR (mt \<noteq> None)) (\<lambda>_.
    bindR (upd (mtasks M) mt (\<lambda>t. t\<lparr>mt_mw := mw\<rparr>)) (\<lambda>h. Inr (M\<lparr>mtasks := h\<rparr>)))"

definition LpelMonTaskCreate :: "mon_state \<Rightarrow> ptr \<Rightarrow> 64 word \<Rightarrow> string option \<Rightarrow> lpel_timing_t \<Rightarrow>
    (mon_state \<times> ptr) res" where
  "LpelMonTaskCreate M new tid name clk =
    (let mt = \<lparr>mt_name = [], mt_mw = None, mt_tid = 0, mt_flags = 0,
           mt_creat = LPEL_TIMING_INITIALIZER, mt_start = LPEL_TIMING_INITIALIZER,
           mt_stop = LPEL_TIMING_INITIALIZER, mt_dirty_list = DNull,
           mt_last_in_cnt = 0, mt_last_out_cnt = 0, mt_blockon = CHR 0x00\<rparr>;
         mt = (case name of None \<Rightarrow> mt | Some nm \<Rightarrow> mt\<lparr>mt_name := take (MON_TASKNAME_MAXLEN - 1) nm\<rparr>);
         mt = mt\<lparr>mt_mw := None, mt_tid := tid, mt_flags := scast (mon_flags M), mt_dirty_list := ST_DIRTY_END\<rparr>;
         mt = (if FLAG (mt_flags mt) LPEL_MON_TIME
               then mt\<lparr>mt_creat := LpelTimingDiff (monitoring_begin M) clk\<rparr> else mt) in
     bindR (alloc_at (mtasks M) new mt) (\<lambda>h. Inr (M\<lparr>mtasks := h\<rparr>, new)))"

definition MonCbTaskStart :: "mon_state \<Rightarrow> ptr \<Rightarrow> lpel_timing_t \<Rightarrow> mon_state res" where
  "MonCbTaskStart M mt clk =
    bindR (assertR (mt \<noteq> None)) (\<lambda>_.
    bindR (upd (mtasks M) mt (\<lambda>t.
      (if FLAG (mt_flags t) LPEL_MON_TIME then t\<lparr>mt_start := LpelTimingNow clk (mt_start t)\<rparr> else t)
        \<lparr>mt_blockon := CHR ''A''\<rparr>)) (\<lambda>h.
      Inr (M\<lparr>mtasks := h\<rparr>)))"

definition taskstate_char :: "lpel_taskstate_t \<Rightarrow> char" where
  "taskstate_char st = (case st of TASK_CREATED \<Rightarrow> CHR ''C'' | TASK_RUNNING \<Rightarrow> CHR ''U''
     | TASK_READY \<Rightarrow> CHR ''R'' | TASK_BLOCKED \<Rightarrow> CHR ''B'' | TASK_MUTEX \<Rightarrow> CHR ''X''
     | TASK_ZOMBIE \<Rightarrow> CHR ''Z'' | TASK_INQUEUE \<Rightarrow> CHR ''Q'' | TASK_RETURNED \<Rightarrow> CHR ''T'')"

text \<open>
  \<open>MonCbTaskStop\<close> up to the stream information: the state, the task id and the times. Then the
  whole callback.
\<close>

definition task_stop_head :: "lpel_timing_t \<Rightarrow> mon_task_t \<Rightarrow> lpel_taskstate_t \<Rightarrow> mon_file \<Rightarrow>
    mon_file res" where
  "task_stop_head begin_ts t state file =
    bindR (if FLAG (mt_flags t) LPEL_MON_TIME then PrintNormTSns begin_ts (mt_stop t) file
           else Inr file) (\<lambda>file.
    let file = (if state = TASK_BLOCKED then fprintf file [mt_blockon t]
                else fprintf file [taskstate_char state]);
        file = fprintf file (dec (unat (mt_tid t)) @ '' '') in
    if FLAG (mt_flags t) LPEL_MON_TIME
    then bindR (PrintTimingNs (LpelTimingDiff (mt_start t) (mt_stop t)) file) (\<lambda>file.
      let file = fprintf file '' '' in
      if state = TASK_ZOMBIE
      then bindR (PrintTimingNs (mt_creat t) file) (\<lambda>file. Inr (fprintf file '' ''))
      else Inr file)
    else Inr file)"

definition MonCbTaskStop :: "mon_state \<Rightarrow> ptr \<Rightarrow> lpel_taskstate_t \<Rightarrow> lpel_timing_t \<Rightarrow> mon_state run" where
  "MonCbTaskStop M mt state clk =
    bindO (Some (deref (mtasks M) mt)) (\<lambda>t.
    if mt_mw t = None then Some (Inr M)
    else bindO (Some (deref (mworkers M) (mt_mw t))) (\<lambda>w.
    let t = (if FLAG (mt_flags t) LPEL_MON_TIME then t\<lparr>mt_stop := LpelTimingNow clk (mt_stop t)\<rparr> else t) in
    bindO (Some (task_stop_head (monitoring_begin M) t state (mw_outfile w))) (\<lambda>file.
    let M = M\<lparr>mtasks := (mtasks M)(the mt \<mapsto> t),
              mworkers := (mworkers M)(the (mt_mw t) \<mapsto> w\<lparr>mw_outfile := file\<rparr>)\<rparr> in
    bindO (if FLAG (mt_flags t) LPEL_MON_STREAM then PrintDirtyList M (the mt) else Some (Inr M)) (\<lambda>M.
    let M = (if FLAG (mt_flags t) LPEL_MON_MESSAGE then PrintUsrEvt M (the mt) else M) in
    bindO (Some (upd (mworkers M) (mt_mw t)
        (\<lambda>w. w\<lparr>mw_outfile := fprintf (mw_outfile w) [END_LOG_ENTRY]\<rparr>))) (\<lambda>h.
      Some (Inr (M\<lparr>mworkers := h\<rparr>)))))))"

subsection \<open>Stream callbacks\<close>

definition MonCbStreamOpen :: "mon_state \<Rightarrow> ptr \<Rightarrow> ptr \<Rightarrow> 32 word \<Rightarrow> char \<Rightarrow> (mon_state \<times> ptr) res" where
  "MonCbStreamOpen M new mt sid mode =
    (if mt = None then Inr (M, None)
     else bindR (deref (mtasks M) mt) (\<lambda>t.
       if (mt_flags t AND LPEL_MON_STREAM) OR (mt_flags t AND LPEL_MON_TASK) = 0 then Inr (M, None)
       else bindR (alloc_at (mstreams M) new \<lparr>mst_montask = mt, mst_dirty = DNull, mst_mode = mode,
              mst_state = ST_OPENED, mst_sid = sid, mst_counter = 0, mst_strevt_flags = 0\<rparr>) (\<lambda>h.
         bindR (MarkDirty (M\<lparr>mstreams := h\<rparr>) new) (\<lambda>M. Inr (M, new)))))"

definition set_stream :: "mon_state \<Rightarrow> ptr \<Rightarrow> (mon_stream_t \<Rightarrow> mon_stream_t) \<Rightarrow> mon_state res" where
  "set_stream M ms f = bindR (upd (mstreams M) ms f) (\<lambda>h. Inr (M\<lparr>mstreams := h\<rparr>))"

definition MonCbStreamClose :: "mon_state \<Rightarrow> ptr \<Rightarrow> mon_state res" where
  "MonCbStreamClose M ms =
    bindR (assertR (ms \<noteq> None)) (\<lambda>_.
    bindR (set_stream M ms (\<lambda>s. s\<lparr>mst_state := ST_CLOSED\<rparr>)) (\<lambda>M. MarkDirty M ms))"

definition MonCbStreamReplace :: "mon_state \<Rightarrow> ptr \<Rightarrow> 32 word \<Rightarrow> mon_state res" where
  "MonCbStreamReplace M ms new_sid =
    bindR (assertR (ms \<noteq> None)) (\<lambda>_.
    bindR (set_stream M ms (\<lambda>s. s\<lparr>mst_state := ST_REPLACED, mst_sid := new_sid\<rparr>)) (\<lambda>M. MarkDirty M ms))"

definition MonCbStreamReadPrepare :: "mon_state \<Rightarrow> ptr \<Rightarrow> mon_state res" where
  "MonCbStreamReadPrepare M ms = Inr M"

definition MonCbStreamReadFinish :: "mon_state \<Rightarrow> ptr \<Rightarrow> mon_state res" where
  "MonCbStreamReadFinish M ms =
    bindR (assertR (ms \<noteq> None)) (\<lambda>_.
    bindR (set_stream M ms (\<lambda>s. s\<lparr>mst_counter := mst_counter s + 1,
        mst_strevt_flags := mst_strevt_flags s OR ST_MOVED\<rparr>)) (\<lambda>M.
      MarkDirty M ms))"

definition MonCbStreamWritePrepare :: "mon_state \<Rightarrow> ptr \<Rightarrow> mon_state res" where
  "MonCbStreamWritePrepare M ms = Inr M"

definition MonCbStreamWriteFinish :: "mon_state \<Rightarrow> ptr \<Rightarrow> mon_state res" where
  "MonCbStreamWriteFinish M ms =
    bindR (assertR (ms \<noteq> None)) (\<lambda>_.
    bindR (set_stream M ms (\<lambda>s. s\<lparr>mst_counter := mst_counter s + 1,
        mst_strevt_flags := mst_strevt_flags s OR ST_MOVED\<rparr>)) (\<lambda>M.
      MarkDirty M ms))"

definition MonCbStreamBlockon :: "mon_state \<Rightarrow> ptr \<Rightarrow> mon_state res" where
  "MonCbStreamBlockon M ms =
    bindR (assertR (ms \<noteq> None)) (\<lambda>_.
    bindR (set_stream M ms (\<lambda>s. s\<lparr>mst_strevt_flags := mst_strevt_flags s OR ST_BLOCKON\<rparr>)) (\<lambda>M.
    bindR (MarkDirty M ms) (\<lambda>M.
    bindR (deref (mstreams M) ms) (\<lambda>s.
    bindR (if mst_mode s = CHR ''r'' then Inr (CHR ''I'')
           else if mst_mode s = CHR ''w'' then Inr (CHR ''O'') else Inl AssertFail) (\<lambda>c.
    bindR (upd (mtasks M) (mst_montask s) (\<lambda>t. t\<lparr>mt_blockon := c\<rparr>)) (\<lambda>h.
      Inr (M\<lparr>mtasks := h\<rparr>)))))))"

definition MonCbStreamWakeup :: "mon_state \<Rightarrow> ptr \<Rightarrow> mon_state res" where
  "MonCbStreamWakeup M ms =
    bindR (assertR (ms \<noteq> None)) (\<lambda>_.
      set_stream M ms (\<lambda>s. s\<lparr>mst_strevt_flags := mst_strevt_flags s OR ST_WAKEUP\<rparr>))"

subsection \<open>The table of callbacks\<close>

text \<open>
  The table in the configuration of the library. A function pointer that is not set is \<open>None\<close>. The
  callbacks take the state of the module, then the choices of their environment and their arguments;
  the fields for task migration and records are not set by this module.
\<close>

record lpel_monitoring_cb_t =
  cb_num_workers :: int
  cb_worker_create :: "(mon_state \<Rightarrow> ptr \<Rightarrow> mon_worker_t \<Rightarrow> int \<Rightarrow> bool \<Rightarrow> lpel_timing_t \<Rightarrow> (mon_state \<times> ptr) res) option"
  cb_worker_create_wrapper :: "(mon_state \<Rightarrow> ptr \<Rightarrow> mon_worker_t \<Rightarrow> ptr \<Rightarrow> bool \<Rightarrow> lpel_timing_t \<Rightarrow> (mon_state \<times> ptr) res) option"
  cb_worker_destroy :: "(mon_state \<Rightarrow> ptr \<Rightarrow> lpel_timing_t \<Rightarrow> bool \<Rightarrow> (mon_state \<times> mon_file) res) option"
  cb_worker_waitstart :: "(mon_state \<Rightarrow> ptr \<Rightarrow> lpel_timing_t \<Rightarrow> mon_state res) option"
  cb_worker_waitstop :: "(mon_state \<Rightarrow> ptr \<Rightarrow> lpel_timing_t \<Rightarrow> lpel_timing_t \<Rightarrow> mon_state res) option"
  cb_task_destroy :: "(mon_state \<Rightarrow> ptr \<Rightarrow> mon_state res) option"
  cb_task_assign :: "(mon_state \<Rightarrow> ptr \<Rightarrow> ptr \<Rightarrow> mon_state res) option"
  cb_task_start :: "(mon_state \<Rightarrow> ptr \<Rightarrow> lpel_timing_t \<Rightarrow> mon_state res) option"
  cb_task_stop :: "(mon_state \<Rightarrow> ptr \<Rightarrow> lpel_taskstate_t \<Rightarrow> lpel_timing_t \<Rightarrow> mon_state run) option"
  cb_task_ready :: "(mon_state \<Rightarrow> ptr \<Rightarrow> mon_state res) option"
  cb_get_task_wait_prop :: "(mon_state \<Rightarrow> ptr \<Rightarrow> real) option"
  cb_worker_most_wait_prop :: "(mon_state \<Rightarrow> int) option"
  cb_get_global_wait_prop :: "(mon_state \<Rightarrow> real) option"
  cb_get_worker_wait_prop :: "(mon_state \<Rightarrow> ptr \<Rightarrow> real) option"
  cb_stream_open :: "(mon_state \<Rightarrow> ptr \<Rightarrow> ptr \<Rightarrow> 32 word \<Rightarrow> char \<Rightarrow> (mon_state \<times> ptr) res) option"
  cb_stream_close :: "(mon_state \<Rightarrow> ptr \<Rightarrow> mon_state res) option"
  cb_stream_replace :: "(mon_state \<Rightarrow> ptr \<Rightarrow> 32 word \<Rightarrow> mon_state res) option"
  cb_stream_readprepare :: "(mon_state \<Rightarrow> ptr \<Rightarrow> mon_state res) option"
  cb_stream_readfinish :: "(mon_state \<Rightarrow> ptr \<Rightarrow> mon_state res) option"
  cb_stream_writeprepare :: "(mon_state \<Rightarrow> ptr \<Rightarrow> mon_state res) option"
  cb_stream_writefinish :: "(mon_state \<Rightarrow> ptr \<Rightarrow> mon_state res) option"
  cb_stream_blockon :: "(mon_state \<Rightarrow> ptr \<Rightarrow> mon_state res) option"
  cb_stream_wakeup :: "(mon_state \<Rightarrow> ptr \<Rightarrow> mon_state res) option"
  cb_rectype_data :: "(ptr \<Rightarrow> int) option"

definition register_callbacks :: "lpel_monitoring_cb_t \<Rightarrow> lpel_monitoring_cb_t" where
  "register_callbacks cb = cb\<lparr>
     cb_worker_create := Some MonCbWorkerCreate,
     cb_worker_create_wrapper := Some MonCbWrapperCreate,
     cb_worker_destroy := Some MonCbWorkerDestroy,
     cb_worker_waitstart := Some MonCbWorkerWaitStart,
     cb_worker_waitstop := Some MonCbWorkerWaitStop,
     cb_task_destroy := Some MonCbTaskDestroy,
     cb_task_assign := Some MonCbTaskAssign,
     cb_task_start := Some MonCbTaskStart,
     cb_task_stop := Some MonCbTaskStop,
     cb_stream_open := Some MonCbStreamOpen,
     cb_stream_close := Some MonCbStreamClose,
     cb_stream_replace := Some MonCbStreamReplace,
     cb_stream_readprepare := Some MonCbStreamReadPrepare,
     cb_stream_readfinish := Some MonCbStreamReadFinish,
     cb_stream_writeprepare := Some MonCbStreamWritePrepare,
     cb_stream_writefinish := Some MonCbStreamWriteFinish,
     cb_stream_blockon := Some MonCbStreamBlockon,
     cb_stream_wakeup := Some MonCbStreamWakeup\<rparr>"

text \<open>
  \<open>LpelMonInit\<close> stores the flags (an \<open>unsigned long\<close> cut to an \<open>int\<close>), registers the callbacks
  and takes the reference time.
\<close>

definition mon_static :: mon_state where
  "mon_static = \<lparr>mon_node = -1, mon_flags = 0, monitoring_begin = LPEL_TIMING_INITIALIZER,
     mworkers = Map.empty, mtasks = Map.empty, mstreams = Map.empty\<rparr>"

definition LpelMonInit :: "mon_state \<Rightarrow> lpel_monitoring_cb_t \<Rightarrow> 64 word \<Rightarrow> lpel_timing_t \<Rightarrow>
    mon_state \<times> lpel_monitoring_cb_t" where
  "LpelMonInit M cb flags clk = (M\<lparr>mon_flags := ucast flags,
     monitoring_begin := LpelTimingNow clk (monitoring_begin M)\<rparr>, register_callbacks cb)"

definition LpelMonCleanup :: "mon_state \<Rightarrow> mon_state" where
  "LpelMonCleanup M = M"

text \<open>A table with no callback set.\<close>

definition no_callbacks :: lpel_monitoring_cb_t where
  "no_callbacks = \<lparr>cb_num_workers = 0, cb_worker_create = None, cb_worker_create_wrapper = None, cb_worker_destroy = None,
     cb_worker_waitstart = None, cb_worker_waitstop = None, cb_task_destroy = None, cb_task_assign = None,
     cb_task_start = None, cb_task_stop = None, cb_task_ready = None, cb_get_task_wait_prop = None,
     cb_worker_most_wait_prop = None, cb_get_global_wait_prop = None, cb_get_worker_wait_prop = None,
     cb_stream_open = None, cb_stream_close = None, cb_stream_replace = None, cb_stream_readprepare = None,
     cb_stream_readfinish = None, cb_stream_writeprepare = None, cb_stream_writefinish = None,
     cb_stream_blockon = None, cb_stream_wakeup = None, cb_rectype_data = None\<rparr>"

end
