(* ===== verification/Monitoring_Log.thy ===== *)
theory Monitoring_Log
  imports Monitoring
begin

text \<open>
  What the monitoring module writes: the decimal formats, the times of the log, the dirty list as a
  list of streams and the text \<open>PrintDirtyList\<close> produces from it, and the wait statistics of a worker.
\<close>

subsection \<open>Decimal numbers\<close>

lemma dec_small: "n < 10 \<Longrightarrow> dec n = [digit n]"
  by (subst dec.simps) simp

lemma dec_step: "0 < m \<Longrightarrow> d < 10 \<Longrightarrow> dec (m * 10 + d) = dec m @ [digit d]"
  by (subst dec.simps) simp

text \<open>The last \<open>w\<close> digits of a number.\<close>

primrec digits :: "nat \<Rightarrow> nat \<Rightarrow> string" where
  "digits 0 n = []"
| "digits (Suc w) n = digits w (n div 10) @ [digit (n mod 10)]"

lemma digits_length [simp]: "length (digits w n) = w"
  by (induction w arbitrary: n) auto

lemma digits_zero: "digits w 0 = replicate w (digit 0)"
  by (induction w) (simp_all add: replicate_append_same)

lemma digits_dec: "0 < m \<Longrightarrow> n < 10 ^ w \<Longrightarrow> dec m @ digits w n = dec (m * 10 ^ w + n)"
proof (induction w arbitrary: n)
  case (Suc w)
  then have "n div 10 < 10 ^ w"
    by auto
  with Suc have "dec m @ digits (Suc w) n = dec (m * 10 ^ w + n div 10) @ [digit (n mod 10)]"
    by simp
  also have "\<dots> = dec ((m * 10 ^ w + n div 10) * 10 + n mod 10)"
    using Suc.prems by (subst dec_step) simp_all
  also have "(m * 10 ^ w + n div 10) * 10 + n mod 10 = m * 10 ^ Suc w + n"
    by (simp add: algebra_simps)
  finally show ?case .
qed simp

lemma digit_zero: "digit 0 = CHR ''0''"
  by code_simp

lemma digit_values:
  "digit 0 = CHR ''0''" "digit (Suc 0) = CHR ''1''" "digit 1 = CHR ''1''" "digit 2 = CHR ''2''"
  "digit 3 = CHR ''3''" "digit 4 = CHR ''4''" "digit 5 = CHR ''5''" "digit 6 = CHR ''6''"
  "digit 7 = CHR ''7''" "digit 8 = CHR ''8''" "digit 9 = CHR ''9''"
  by code_simp+

lemma dec0_digits: "0 < w \<Longrightarrow> n < 10 ^ w \<Longrightarrow> dec0 w n = digits w n"
proof (induction w arbitrary: n)
  case (Suc w)
  show ?case
  proof (cases "n < 10")
    case True
    then show ?thesis
      by (simp add: dec0_def dec_small digits_zero digit_zero)
  next
    case False
    with Suc.prems have w: "0 < w" "n div 10 < 10 ^ w"
      by (cases w, auto)
    from False have "dec n = dec (n div 10) @ [digit (n mod 10)]"
      by (subst dec.simps) simp
    then have "dec0 (Suc w) n = dec0 w (n div 10) @ [digit (n mod 10)]"
      by (simp add: dec0_def)
    with Suc.IH [OF w] show ?thesis
      by simp
  qed
qed simp

lemma dec_dec0: "0 < m \<Longrightarrow> 0 < w \<Longrightarrow> n < 10 ^ w \<Longrightarrow> dec m @ dec0 w n = dec (m * 10 ^ w + n)"
  by (simp add: dec0_digits digits_dec)

text \<open>Reading a decimal number back.\<close>

definition undec :: "string \<Rightarrow> nat" where
  "undec s = foldl (\<lambda>n c. n * 10 + (of_char c - 48)) 0 s"

lemma undec_snoc [simp]: "undec (s @ [c]) = undec s * 10 + (of_char c - 48)"
  by (simp add: undec_def)

lemma of_char_digit [simp]: "d < 10 \<Longrightarrow> of_char (digit d) = (48 + d :: nat)"
  by (simp add: digit_def)

lemma undec_dec [simp]: "undec (dec n) = n"
proof (induction n rule: dec.induct)
  case (1 n)
  show ?case
  proof (cases "n < 10")
    case True
    then show ?thesis
      by (simp add: dec_small undec_def)
  next
    case False
    then have "dec n = dec (n div 10) @ [digit (n mod 10)]"
      by (subst dec.simps) simp
    with 1 False show ?thesis
      by simp
  qed
qed

lemma ulong_id: "0 \<le> i \<Longrightarrow> i < 2 ^ 64 \<Longrightarrow> ulong i = nat i"
  by (simp add: ulong_def)

subsection \<open>Times in the log\<close>

lemma f_text_fprintf [simp]: "f_text (fprintf f s) = f_text f @ s" "f_path (fprintf f s) = f_path f"
  by (simp_all add: fprintf_def)

lemma fprintf_fprintf [simp]: "fprintf (fprintf f s) t = fprintf f (s @ t)"
  by (simp add: fprintf_def)

lemma PrintTimingNs_ok:
  assumes "normalised t" "0 \<le> tv_sec t" "tv_sec t < 2 ^ 64"
  shows "PrintTimingNs t file = Inr (fprintf file (dec (nat (nanos t)) @ '' ''))"
proof (cases "tv_sec t = 0")
  case True
  with assms show ?thesis
    by (simp add: PrintTimingNs_def nanos_def normalised_def TIMING_BILLION_def ulong_id)
next
  case False
  have "dec (nat (tv_sec t)) @ dec0 9 (nat (tv_nsec t)) = dec (nat (tv_sec t) * 10 ^ 9 + nat (tv_nsec t))"
    using False assms by (intro dec_dec0) (auto simp: normalised_def TIMING_BILLION_def)
  also have "nat (tv_sec t) * 10 ^ 9 + nat (tv_nsec t) = nat (nanos t)"
    using assms by (simp add: nanos_def normalised_def TIMING_BILLION_def nat_add_distrib nat_mult_distrib)
  finally show ?thesis
    using False assms by (simp add: PrintTimingNs_def normalised_def TIMING_BILLION_def ulong_id)
qed

lemma PrintTimingNs_normalised: "normalised t \<Longrightarrow> \<exists>s. PrintTimingNs t file = Inr (fprintf file s)"
  by (auto simp: PrintTimingNs_def normalised_def TIMING_BILLION_def)

lemma PrintTimingNs_fails: "PrintTimingNs t file = Inl e \<longleftrightarrow>
    e = AssertFail \<and> tv_sec t \<noteq> 0 \<and> \<not> normalised t"
  by (auto simp: PrintTimingNs_def normalised_def TIMING_BILLION_def assertR_def)

definition norm_ts_text :: "lpel_timing_t \<Rightarrow> lpel_timing_t \<Rightarrow> string" where
  "norm_ts_text b t = dec (ulong (tv_sec (LpelTimingDiff b t))) @ ''.'' @
     digits 9 (nat (tv_nsec (LpelTimingDiff b t))) @ '' ''"

lemma PrintNormTSns_ok: "normalised b \<Longrightarrow> normalised t \<Longrightarrow>
    PrintNormTSns b t file = Inr (fprintf file (norm_ts_text b t))"
  using Diff_normalised [of b t]
  by (simp add: PrintNormTSns_def norm_ts_text_def normalised_def TIMING_BILLION_def Let_def ulong_id dec0_digits
      nat_less_iff)

lemma fprintf_Nil [simp]: "fprintf f [] = f"
  by (simp add: fprintf_def)

lemma PrintNormTSns_if: "normalised b \<Longrightarrow> normalised t \<Longrightarrow>
    (if c then PrintNormTSns b t file else Inr file) =
      Inr (fprintf file (if c then norm_ts_text b t else []))"
  by (simp add: PrintNormTSns_ok)

lemma print_timing_decimal_parts:
  shows "normalised t \<Longrightarrow> 0 \<le> tv_sec t \<Longrightarrow> tv_sec t < 2 ^ 64 \<Longrightarrow>
      \<exists>s. PrintTimingNs t file = Inr (fprintf file (s @ '' '')) \<and> s = dec (nat (nanos t)) \<and>
        int (undec s) = nanos t"
    and "PrintTimingNs t file = Inl e \<longleftrightarrow> e = AssertFail \<and> tv_sec t \<noteq> 0 \<and> \<not> normalised t"
proof -
  assume t: "normalised t" "0 \<le> tv_sec t" "tv_sec t < 2 ^ 64"
  then have "0 \<le> nanos t"
    by (simp add: nanos_def normalised_def TIMING_BILLION_def)
  with PrintTimingNs_ok [OF t] show "\<exists>s. PrintTimingNs t file = Inr (fprintf file (s @ '' '')) \<and>
      s = dec (nat (nanos t)) \<and> int (undec s) = nanos t"
    by simp
qed (rule PrintTimingNs_fails)

text \<open>
  C38: \<open>PrintTiming\<close> writes a normalised time as one decimal number, its nanoseconds: reading the
  digits back gives the time, also when seconds and nanoseconds are printed one after the other with
  nine digits. This is for a seconds field from 0 to the range of \<open>unsigned long\<close>, to which it is cast.
  The assertion fails exactly when the seconds field is not zero and the nanoseconds field is
  negative or at least a billion; with a seconds field of zero every time is printed.
\<close>

theorem print_timing_decimal:
  shows "(normalised t \<and> 0 \<le> tv_sec t \<and> tv_sec t < 2 ^ 64 \<longrightarrow>
      (\<exists>s. PrintTimingNs t file = Inr (fprintf file (s @ '' '')) \<and> s = dec (nat (nanos t)) \<and>
        int (undec s) = nanos t)) \<and>
    (PrintTimingNs t file = Inl e \<longleftrightarrow> e = AssertFail \<and> tv_sec t \<noteq> 0 \<and> \<not> normalised t)"
  by (intro conjI impI; (elim conjE)?) (rule print_timing_decimal_parts; assumption)+

theorem print_timing_decimal_witness:
  "PrintTimingNs \<lparr>tv_sec = 12, tv_nsec = 3045\<rparr> \<lparr>f_path = ''log'', f_text = ''W''\<rparr>
     = Inr \<lparr>f_path = ''log'', f_text = ''W12000003045 ''\<rparr> \<and>
   int (undec ''12000003045'') = nanos \<lparr>tv_sec = 12, tv_nsec = 3045\<rparr>"
proof -
  have d: "dec (nat (nanos \<lparr>tv_sec = 12, tv_nsec = 3045\<rparr>)) = ''12000003045''"
    by (simp add: nanos_def TIMING_BILLION_def dec.simps digit_values)
  have u: "int (undec ''12000003045'') = nanos \<lparr>tv_sec = 12, tv_nsec = 3045\<rparr>"
    by (simp add: undec_def nanos_def TIMING_BILLION_def)
  show ?thesis
    using print_timing_decimal [of "\<lparr>tv_sec = 12, tv_nsec = 3045\<rparr>" "\<lparr>f_path = ''log'', f_text = ''W''\<rparr>"]
    by (simp add: d u normalised_def TIMING_BILLION_def fprintf_def)
qed

subsection \<open>Wait statistics of a worker\<close>

text \<open>
  A worker alternates \<open>worker_waitstart\<close> and \<open>worker_waitstop\<close>: a round is the clock at the start,
  at the end, and the time stamp of the log entry.
\<close>

primrec waits :: "mon_state \<Rightarrow> ptr \<Rightarrow> (lpel_timing_t \<times> lpel_timing_t \<times> lpel_timing_t) list \<Rightarrow> mon_state res" where
  "waits M p [] = Inr M"
| "waits M p (c # cs) = bindR (MonCbWorkerWaitStart M p (fst c)) (\<lambda>M.
     bindR (MonCbWorkerWaitStop M p (fst (snd c)) (snd (snd c))) (\<lambda>M. waits M p cs))"

definition round_ok :: "lpel_timing_t \<times> lpel_timing_t \<times> lpel_timing_t \<Rightarrow> bool" where
  "round_ok c \<longleftrightarrow> normalised (fst c) \<and> normalised (fst (snd c)) \<and> normalised (snd (snd c))"

definition round_time :: "lpel_timing_t \<times> lpel_timing_t \<times> lpel_timing_t \<Rightarrow> int" where
  "round_time c = nanos (fst (snd c)) - nanos (fst c)"

definition nsec_range :: "lpel_timing_t \<Rightarrow> bool" where
  "nsec_range t \<longleftrightarrow> 0 \<le> tv_nsec t \<and> tv_nsec t \<le> TIMING_BILLION"

lemma Add_range: "nsec_range t \<Longrightarrow> normalised v \<Longrightarrow> nsec_range (LpelTimingAdd t v)"
  by (auto simp: timing_defs nsec_range_def)

lemma WaitStop_eq:
  assumes w: "mworkers M a = Some w" and n: "normalised (monitoring_begin M)" "normalised (mw_wait_current w)"
    "normalised clk" "normalised clk2"
  shows "\<exists>s. MonCbWorkerWaitStop M (Some a) clk clk2 =
    (let w1 = w\<lparr>mw_wait_current := (if FLAG (mw_flags w) LPEL_MON_WORKER \<or> FLAG (mw_flags w) LPEL_MON_LOAD
            then LpelTimingDiff (mw_wait_current w) clk else mw_wait_current w),
          mw_outfile := fprintf (mw_outfile w) s\<rparr> in
     bindR (if FLAG (mw_flags w) LPEL_MON_LOAD
            then bindR (known (mw_wait_time w)) (\<lambda>t.
              Inr (w1\<lparr>mw_wait_time := Some (LpelTimingAdd t (LpelTimingDiff (mw_wait_current w) clk))\<rparr>))
            else Inr w1) (\<lambda>w2. Inr (M\<lparr>mworkers := (mworkers M)(a \<mapsto> w2)\<rparr>)))"
proof -
  let ?d = "LpelTimingDiff (mw_wait_current w) clk"
  let ?pre = "if FLAG (mw_flags w) LPEL_MON_TIME then norm_ts_text (monitoring_begin M) clk2 else []"
  have "normalised ?d"
    using n by (simp add: Diff_normalised)
  then obtain t where t: "PrintTimingNs ?d (fprintf (mw_outfile w) (?pre @ [WORKER_WAIT_EVENT])) =
      Inr (fprintf (fprintf (mw_outfile w) (?pre @ [WORKER_WAIT_EVENT])) t)"
    using PrintTimingNs_normalised by blast
  define s where "s = (if FLAG (mw_flags w) LPEL_MON_WORKER
    then ?pre @ [WORKER_WAIT_EVENT] @ t @ [END_LOG_ENTRY] else [])"
  show ?thesis
    by (rule exI [of _ s], cases "FLAG (mw_flags w) LPEL_MON_WORKER"; cases "FLAG (mw_flags w) LPEL_MON_LOAD")
      (use w n t in \<open>simp_all add: MonCbWorkerWaitStop_def Let_def End_eq_Diff PrintNormTSns_if s_def split del: if_split\<close>)
qed

lemma WaitStop_ok:
  assumes w: "mworkers M a = Some w" and n: "normalised (monitoring_begin M)" "normalised (mw_wait_current w)"
    "normalised clk" "normalised clk2"
    and i: "FLAG (mw_flags w) LPEL_MON_LOAD \<Longrightarrow> mw_wait_time w \<noteq> None"
  shows "\<exists>w'. MonCbWorkerWaitStop M (Some a) clk clk2 = Inr (M\<lparr>mworkers := (mworkers M)(a \<mapsto> w')\<rparr>) \<and>
    mw_flags w' = mw_flags w \<and> mw_wid w' = mw_wid w \<and> mw_wait_cnt w' = mw_wait_cnt w \<and>
    normalised (mw_wait_current w') \<and>
    mw_wait_time w' = (if FLAG (mw_flags w) LPEL_MON_LOAD
      then Some (LpelTimingAdd (the (mw_wait_time w)) (LpelTimingDiff (mw_wait_current w) clk)) else mw_wait_time w)"
proof -
  obtain s where s: "MonCbWorkerWaitStop M (Some a) clk clk2 =
    (let w1 = w\<lparr>mw_wait_current := (if FLAG (mw_flags w) LPEL_MON_WORKER \<or> FLAG (mw_flags w) LPEL_MON_LOAD
            then LpelTimingDiff (mw_wait_current w) clk else mw_wait_current w),
          mw_outfile := fprintf (mw_outfile w) s\<rparr> in
     bindR (if FLAG (mw_flags w) LPEL_MON_LOAD
            then bindR (known (mw_wait_time w)) (\<lambda>t.
              Inr (w1\<lparr>mw_wait_time := Some (LpelTimingAdd t (LpelTimingDiff (mw_wait_current w) clk))\<rparr>))
            else Inr w1) (\<lambda>w2. Inr (M\<lparr>mworkers := (mworkers M)(a \<mapsto> w2)\<rparr>)))"
    using WaitStop_eq [OF w n] by blast
  have d: "normalised (LpelTimingDiff (mw_wait_current w) clk)"
    using n by (simp add: Diff_normalised)
  show ?thesis
  proof (cases "FLAG (mw_flags w) LPEL_MON_LOAD")
    case True
    with i obtain t where "mw_wait_time w = Some t"
      by auto
    with True d show ?thesis
      unfolding s by (simp add: Let_def) (rule exI, rule conjI, rule refl, simp)
  next
    case False
    with n d show ?thesis
      unfolding s by (simp add: Let_def split del: if_split) (rule exI, rule conjI, rule refl, simp)
  qed
qed

lemma WaitStart_ok:
  assumes "mworkers M a = Some w" "FLAG (mw_flags w) LPEL_MON_LOAD \<Longrightarrow> mw_wait_cnt w \<noteq> None"
  shows "MonCbWorkerWaitStart M (Some a) clk = Inr (M\<lparr>mworkers := (mworkers M)(a \<mapsto>
    w\<lparr>mw_wait_current := clk,
      mw_wait_cnt := (if FLAG (mw_flags w) LPEL_MON_LOAD then Some (the (mw_wait_cnt w) + 1) else mw_wait_cnt w)\<rparr>)\<rparr>)"
  using assms by (auto simp: MonCbWorkerWaitStart_def LpelTimingStart_def)

text \<open>With \<open>LPEL_MON_LOAD\<close> the waits of a context without statistics read uninitialised fields.\<close>

lemma Wait_uninit:
  assumes "mworkers M a = Some w" "FLAG (mw_flags w) LPEL_MON_LOAD"
  shows "mw_wait_cnt w = None \<Longrightarrow> MonCbWorkerWaitStart M (Some a) clk = Inl Indeterminate"
    and "mw_wait_time w = None \<Longrightarrow> normalised (monitoring_begin M) \<Longrightarrow> normalised (mw_wait_current w) \<Longrightarrow>
      normalised clk \<Longrightarrow> normalised clk2 \<Longrightarrow> MonCbWorkerWaitStop M (Some a) clk clk2 = Inl Indeterminate"
proof -
  show "MonCbWorkerWaitStart M (Some a) clk = Inl Indeterminate" if "mw_wait_cnt w = None"
    using assms that by (simp add: MonCbWorkerWaitStart_def)
  show "MonCbWorkerWaitStop M (Some a) clk clk2 = Inl Indeterminate"
    if "mw_wait_time w = None" and n: "normalised (monitoring_begin M)" "normalised (mw_wait_current w)"
      "normalised clk" "normalised clk2"
    using WaitStop_eq [OF assms(1) n] assms(2) that(1) by (auto simp: Let_def)
qed

lemma waits_ok:
  assumes "mworkers M a = Some w" "normalised (monitoring_begin M)" "FLAG (mw_flags w) LPEL_MON_LOAD"
    "mw_wait_cnt w = Some k" "mw_wait_time w = Some t" "nsec_range t" "\<forall>c \<in> set cs. round_ok c"
  shows "\<exists>w' t'. waits M (Some a) cs = Inr (M\<lparr>mworkers := (mworkers M)(a \<mapsto> w')\<rparr>) \<and>
    mw_flags w' = mw_flags w \<and> mw_wait_cnt w' = Some (k + of_nat (length cs)) \<and>
    mw_wait_time w' = Some t' \<and> nsec_range t' \<and> nanos t' = nanos t + sum_list (map round_time cs)"
  using assms
proof (induction cs arbitrary: M w k t)
  case Nil
  then show ?case
    by (intro exI [of _ w] exI [of _ t]) (simp add: fun_upd_idem)
next
  case (Cons c cs)
  define w1 where "w1 = w\<lparr>mw_wait_current := fst c, mw_wait_cnt := Some (k + 1)\<rparr>"
  define M1 where "M1 = M\<lparr>mworkers := (mworkers M)(a \<mapsto> w1)\<rparr>"
  have s: "MonCbWorkerWaitStart M (Some a) (fst c) = Inr M1"
    using Cons.prems WaitStart_ok [of M a w "fst c"] by (simp add: M1_def w1_def)
  have c: "normalised (fst c)" "normalised (fst (snd c))" "normalised (snd (snd c))"
    using Cons.prems by (auto simp: round_ok_def)
  obtain w2 where w2: "MonCbWorkerWaitStop M1 (Some a) (fst (snd c)) (snd (snd c)) =
      Inr (M\<lparr>mworkers := (mworkers M)(a \<mapsto> w2)\<rparr>)"
    "mw_flags w2 = mw_flags w" "mw_wait_cnt w2 = Some (k + 1)"
    "mw_wait_time w2 = Some (LpelTimingAdd t (LpelTimingDiff (fst c) (fst (snd c))))"
    using WaitStop_ok [of M1 a w1 "fst (snd c)" "snd (snd c)"] c Cons.prems by (auto simp: M1_def w1_def)
  define M2 where "M2 = M\<lparr>mworkers := (mworkers M)(a \<mapsto> w2)\<rparr>"
  have r: "nsec_range (LpelTimingAdd t (LpelTimingDiff (fst c) (fst (snd c))))"
    using Cons.prems c by (intro Add_range Diff_normalised) auto
  have p: "mworkers M2 a = Some w2" "normalised (monitoring_begin M2)" "FLAG (mw_flags w2) LPEL_MON_LOAD"
    "\<forall>c \<in> set cs. round_ok c"
    using Cons.prems w2 by (auto simp: M2_def)
  obtain w' t' where w': "waits M2 (Some a) cs = Inr (M2\<lparr>mworkers := (mworkers M2)(a \<mapsto> w')\<rparr>)"
    "mw_flags w' = mw_flags w2" "mw_wait_cnt w' = Some (k + 1 + of_nat (length cs))"
    "mw_wait_time w' = Some t'" "nsec_range t'"
    "nanos t' = nanos (LpelTimingAdd t (LpelTimingDiff (fst c) (fst (snd c)))) + sum_list (map round_time cs)"
    using Cons.IH [OF p(1-3) w2(3,4) r p(4)] by (elim exE conjE) (rule that)
  have "waits M (Some a) (c # cs) = waits M2 (Some a) cs"
    by (simp add: s w2(1) M2_def)
  also have "\<dots> = Inr (M\<lparr>mworkers := (mworkers M)(a \<mapsto> w')\<rparr>)"
    unfolding w'(1) by (simp add: M2_def)
  finally show ?case
    using w'(2-) w2(2-) by (intro exI [of _ w'] exI [of _ t'] conjI) (simp_all add: round_time_def [of c] fun_upd_def)
qed

lemma WorkerCreate_ok:
  assumes "mworkers M a = None" "normalised (monitoring_begin M)" "normalised clk"
  shows "\<exists>w. MonCbWorkerCreate M (Some a) junk wid True clk =
      Inr (M\<lparr>mworkers := (mworkers M)(a \<mapsto> w)\<rparr>, Some a) \<and>
    mw_flags w = mon_flags M \<and> mw_wait_cnt w = Some 0 \<and> normalised (mw_wait_current w) \<and>
    mw_wait_time w = Some \<lparr>tv_sec = 0, tv_nsec = 0\<rparr> \<and> mw_wid w = wid"
  using assms
  by (simp add: MonCbWorkerCreate_def Let_def PrintNormTSns_if split del: if_split)
    (rule exI, rule conjI, rule refl, simp add: timing_defs)

lemma WorkerDestroy_ok:
  assumes "mworkers M a = Some w" "normalised (monitoring_begin M)" "normalised clk"
  shows "(\<exists>file. MonCbWorkerDestroy M (Some a) clk True = Inr (M\<lparr>mworkers := (mworkers M)(a := None)\<rparr>, file)) \<or>
      MonCbWorkerDestroy M (Some a) clk True = Inl AssertFail \<or>
      MonCbWorkerDestroy M (Some a) clk True = Inl Indeterminate"
    and "MonCbWorkerDestroy M (Some a) clk True = Inl AssertFail \<longleftrightarrow>
      FLAG (mw_flags w) LPEL_MON_LOAD \<and> mw_wait_cnt w \<noteq> None \<and>
      (\<exists>t. mw_wait_time w = Some t \<and> tv_sec t \<noteq> 0 \<and> \<not> normalised t)"
    and "MonCbWorkerDestroy M (Some a) clk True = Inl Indeterminate \<longleftrightarrow>
      FLAG (mw_flags w) LPEL_MON_LOAD \<and> (mw_wait_cnt w = None \<or> mw_wait_time w = None)"
  using assms
  by (auto simp: MonCbWorkerDestroy_def Let_def PrintNormTSns_ok printStatistic_def PrintTimingNs_def
      known_def assertR_def normalised_def TIMING_BILLION_def split: option.splits)

text \<open>
  C37: With \<open>LPEL_MON_LOAD\<close> a worker that waits \<open>n\<close> times, whatever the clock shows, has counted \<open>n\<close>
  waits (modulo the width of the counter) and its total waiting time is exactly the sum of the
  single waits. Destroying its context then fails on the assertion of \<open>PrintTiming\<close> exactly when the
  seconds field of the stored total is not zero and its nanoseconds field is a full billion, which
  \<open>LpelTimingAdd\<close> does not carry; in every other case the context is freed.
\<close>

theorem wait_statistics:
  assumes "mworkers M a = None" "normalised (monitoring_begin M)" "FLAG (mon_flags M) LPEL_MON_LOAD"
    and "normalised clk" "normalised clk'" "\<forall>c \<in> set cs. round_ok c"
  shows "\<exists>M1 M2 w t. MonCbWorkerCreate M (Some a) junk wid True clk = Inr (M1, Some a) \<and>
      waits M1 (Some a) cs = Inr M2 \<and> mworkers M2 a = Some w \<and>
      mw_wait_cnt w = Some (of_nat (length cs)) \<and> mw_wait_time w = Some t \<and>
      nanos t = sum_list (map round_time cs) \<and>
      (if tv_sec t \<noteq> 0 \<and> tv_nsec t = TIMING_BILLION
       then MonCbWorkerDestroy M2 (Some a) clk' True = Inl AssertFail
       else \<exists>file. MonCbWorkerDestroy M2 (Some a) clk' True =
         Inr (M2\<lparr>mworkers := (mworkers M2)(a := None)\<rparr>, file))"
proof -
  obtain w where w: "MonCbWorkerCreate M (Some a) junk wid True clk =
      Inr (M\<lparr>mworkers := (mworkers M)(a \<mapsto> w)\<rparr>, Some a)" "mw_flags w = mon_flags M" "mw_wait_cnt w = Some 0"
    "mw_wait_time w = Some \<lparr>tv_sec = 0, tv_nsec = 0\<rparr>"
    using WorkerCreate_ok [of M a clk junk wid] assms by auto
  define M1 where "M1 = M\<lparr>mworkers := (mworkers M)(a \<mapsto> w)\<rparr>"
  obtain w' t where w': "waits M1 (Some a) cs = Inr (M1\<lparr>mworkers := (mworkers M1)(a \<mapsto> w')\<rparr>)"
    "mw_flags w' = mw_flags w" "mw_wait_cnt w' = Some (of_nat (length cs))" "mw_wait_time w' = Some t"
    "nsec_range t" "nanos t = sum_list (map round_time cs)"
    using waits_ok [of M1 a w 0 "\<lparr>tv_sec = 0, tv_nsec = 0\<rparr>" cs] assms w
    by (auto simp: M1_def nsec_range_def nanos_def TIMING_BILLION_def)
  define M2 where "M2 = M1\<lparr>mworkers := (mworkers M1)(a \<mapsto> w')\<rparr>"
  have M2: "mworkers M2 a = Some w'" "normalised (monitoring_begin M2)"
    using assms by (simp_all add: M2_def M1_def)
  have n: "normalised t \<longleftrightarrow> tv_nsec t \<noteq> TIMING_BILLION"
    using w'(5) by (auto simp: normalised_def nsec_range_def)
  have "if tv_sec t \<noteq> 0 \<and> tv_nsec t = TIMING_BILLION
       then MonCbWorkerDestroy M2 (Some a) clk' True = Inl AssertFail
       else \<exists>file. MonCbWorkerDestroy M2 (Some a) clk' True =
         Inr (M2\<lparr>mworkers := (mworkers M2)(a := None)\<rparr>, file)"
    using WorkerDestroy_ok [OF M2 assms(5)] w'(2,3,4) w(2) assms(3) n by auto
  with w w' M2(1) show ?thesis
    by (intro exI [of _ M1] exI [of _ M2] exI [of _ w'] exI [of _ t]) (simp add: M1_def M2_def)
qed

text \<open>
  A worker that waits one and a half seconds and then half a second: its statistics cannot be
  printed.
\<close>

definition load_start :: mon_state where
  "load_start = fst (LpelMonInit mon_static no_callbacks 64 \<lparr>tv_sec = 0, tv_nsec = 0\<rparr>)"

definition load_rounds :: "(lpel_timing_t \<times> lpel_timing_t \<times> lpel_timing_t) list" where
  "load_rounds =
    [(\<lparr>tv_sec = 1, tv_nsec = 0\<rparr>, \<lparr>tv_sec = 2, tv_nsec = 500000000\<rparr>, \<lparr>tv_sec = 2, tv_nsec = 500000000\<rparr>),
     (\<lparr>tv_sec = 3, tv_nsec = 0\<rparr>, \<lparr>tv_sec = 3, tv_nsec = 500000000\<rparr>, \<lparr>tv_sec = 3, tv_nsec = 500000000\<rparr>)]"

definition load_junk :: mon_worker_t where
  "load_junk = \<lparr>mw_wid = 0, mw_outfile = \<lparr>f_path = [], f_text = []\<rparr>, mw_disp = 0,
     mw_wait_current = LPEL_TIMING_INITIALIZER, mw_wait_cnt = None,
     mw_wait_time = None, mw_exec_time = LPEL_TIMING_INITIALIZER,
     mw_events_cnt = 0, mw_events_size = 0, mw_events_buffer = False, mw_flags = 0\<rparr>"

definition load_final :: "(mon_state \<times> ptr) res \<Rightarrow> mon_state res" where
  "load_final r = bindR r (\<lambda>(M, p). waits M p load_rounds)"

lemma load_final_time:
  "case load_final (MonCbWorkerCreate load_start (Some 1) load_junk 0 True \<lparr>tv_sec = 0, tv_nsec = 0\<rparr>) of
     Inl e \<Rightarrow> False
   | Inr M \<Rightarrow> (case mworkers M 1 of None \<Rightarrow> False
       | Some w \<Rightarrow> mw_wait_time w = Some \<lparr>tv_sec = 1, tv_nsec = 1000000000\<rparr> \<and>
           mw_wait_cnt w = Some 2)"
  by code_simp

theorem wait_statistics_witness:
  "\<exists>M1 M2 w t. MonCbWorkerCreate load_start (Some 1) load_junk 0 True \<lparr>tv_sec = 0, tv_nsec = 0\<rparr>
        = Inr (M1, Some 1) \<and>
      waits M1 (Some 1) load_rounds = Inr M2 \<and> mworkers M2 1 = Some w \<and>
      mw_wait_cnt w = Some 2 \<and> mw_wait_time w = Some t \<and> nanos t = 2000000000 \<and>
      MonCbWorkerDestroy M2 (Some 1) \<lparr>tv_sec = 4, tv_nsec = 0\<rparr> True = Inl AssertFail"
proof -
  have "\<forall>c \<in> set load_rounds. round_ok c" "FLAG (mon_flags load_start) LPEL_MON_LOAD"
    "mworkers load_start 1 = None" "normalised (monitoring_begin load_start)"
    by (code_simp, code_simp, code_simp, code_simp)
  moreover have "sum_list (map round_time load_rounds) = 2000000000" "length load_rounds = 2"
    by (code_simp, code_simp)
  ultimately show ?thesis
    using wait_statistics [of load_start 1 "\<lparr>tv_sec = 0, tv_nsec = 0\<rparr>" "\<lparr>tv_sec = 4, tv_nsec = 0\<rparr>"
        load_rounds load_junk 0] load_final_time
    by (auto simp: load_final_def normalised_def TIMING_BILLION_def)
qed

end
