(* ===== verification/Monitoring_Events.thy ===== *)
theory Monitoring_Events
  imports Monitoring_Log
begin

text \<open>
  The callbacks of the monitoring module in any order the schedulers may call them: the dirty lists
  of all tasks stay well-formed, no callback runs into an assertion or a bad pointer, and the log
  entry of a task reports every stream that changed since its last entry, once.
\<close>

subsection \<open>Dirty lists\<close>

definition dlink :: "mon_stream_t heap \<Rightarrow> addr \<Rightarrow> dirty" where
  "dlink h a = (case h a of None \<Rightarrow> DNull | Some s \<Rightarrow> mst_dirty s)"

primrec dchain :: "(addr \<Rightarrow> dirty) \<Rightarrow> dirty \<Rightarrow> addr list \<Rightarrow> bool" where
  "dchain l d [] \<longleftrightarrow> d = ST_DIRTY_END"
| "dchain l d (a # as) \<longleftrightarrow> d = DStream a \<and> dchain l (l a) as"

lemma dchain_cong: "(\<And>a. a \<in> set xs \<Longrightarrow> l a = l' a) \<Longrightarrow> dchain l d xs = dchain l' d xs"
  by (induction xs arbitrary: d) auto

lemma dchain_unique: "dchain l d xs \<Longrightarrow> dchain l d ys \<Longrightarrow> xs = ys"
proof (induction xs arbitrary: d ys)
  case Nil
  then show ?case
    by (cases ys) auto
next
  case (Cons a xs)
  then show ?case
    by (cases ys) auto
qed

lemma dchain_suffix: "dchain l d (xs @ a # ys) \<Longrightarrow> dchain l (DStream a) (a # ys)"
  by (induction xs arbitrary: d) auto

lemma dchain_distinct: "dchain l d xs \<Longrightarrow> distinct xs"
proof (induction xs arbitrary: d)
  case (Cons a xs)
  have "a \<notin> set xs"
  proof
    assume "a \<in> set xs"
    then obtain us vs where xs: "xs = us @ a # vs"
      by (meson split_list)
    with Cons.prems have "dchain l (DStream a) (a # vs)"
      by (auto dest: dchain_suffix)
    with Cons.prems have "a # vs = a # xs"
      by (auto intro: dchain_unique)
    with xs show False
      by simp
  qed
  with Cons show ?case
    by auto
qed simp

lemma dchain_linked: "dchain l d xs \<Longrightarrow> a \<in> set xs \<Longrightarrow> l a \<noteq> DNull"
proof (induction xs arbitrary: d)
  case (Cons b xs)
  then show ?case
    by (cases xs) auto
qed simp

definition stream_wf :: "mon_stream_t \<Rightarrow> bool" where
  "stream_wf s \<longleftrightarrow> mst_mode s \<in> {CHR ''r'', CHR ''w''} \<and>
    mst_state s \<in> {ST_INUSE, ST_OPENED, ST_CLOSED, ST_REPLACED}"

text \<open>What \<open>PrintDirtyList\<close> leaves of the streams of the list.\<close>

definition clean_stream :: "mon_stream_t \<Rightarrow> mon_stream_t" where
  "clean_stream s = s\<lparr>mst_counter := 0, mst_state := ST_INUSE, mst_dirty := DNull, mst_strevt_flags := 0\<rparr>"

definition reset_all :: "addr list \<Rightarrow> mon_stream_t heap \<Rightarrow> mon_stream_t heap" where
  "reset_all xs h = (\<lambda>a. if a \<in> set xs
     then (case h a of None \<Rightarrow> None
       | Some s \<Rightarrow> if mst_state s = ST_CLOSED then None else Some (clean_stream s))
     else h a)"

lemmas st_defs = ST_INUSE_def ST_OPENED_def ST_CLOSED_def ST_REPLACED_def

lemma mon_reset_stream_ok: "h a = Some s \<Longrightarrow> stream_wf s \<Longrightarrow>
    mon_reset_stream h a s = Inr (h(a := if mst_state s = ST_CLOSED then None else Some (clean_stream s)))"
  by (cases s) (auto simp: mon_reset_stream_def stream_wf_def clean_stream_def st_defs)

lemma print_dirty_loop_ok:
  assumes "dchain (dlink h) d xs" "\<forall>a \<in> set xs. \<exists>s. h a = Some s \<and> mst_montask s = Some t \<and> stream_wf s"
  shows "print_dirty_loop t d out h =
    Some (Inr (fprintf out (concat (map (\<lambda>a. stream_entry (the (h a))) xs)), reset_all xs h))"
  using assms
proof (induction xs arbitrary: d out h)
  case Nil
  then show ?case
    by (subst print_dirty_loop.simps) (simp add: reset_all_def)
next
  case (Cons a xs)
  then obtain s where s: "h a = Some s" "mst_montask s = Some t" "stream_wf s"
    by auto
  have d: "d = DStream a" "dchain (dlink h) (mst_dirty s) xs" "a \<notin> set xs"
    using Cons.prems dchain_distinct [OF Cons.prems(1)] s by (auto simp: dlink_def [of h a])
  define h' where "h' = h(a := if mst_state s = ST_CLOSED then None else Some (clean_stream s))"
  have same: "b \<in> set xs \<Longrightarrow> h' b = h b" for b
    using d by (auto simp: h'_def)
  have "dchain (dlink h') (mst_dirty s) xs"
    using d(2) by (subst dchain_cong [where l' = "dlink h"]) (auto simp: dlink_def same)
  then have "print_dirty_loop t (mst_dirty s) (fprintf out (stream_entry s)) h' =
      Some (Inr (fprintf (fprintf out (stream_entry s)) (concat (map (\<lambda>a. stream_entry (the (h' a))) xs)),
        reset_all xs h'))"
    using Cons.prems(2) same by (intro Cons.IH) auto
  moreover have "map (\<lambda>a. stream_entry (the (h' a))) xs = map (\<lambda>a. stream_entry (the (h a))) xs"
    using same by simp
  moreover have "reset_all xs h' = reset_all (a # xs) h"
    using s d by (auto simp: reset_all_def h'_def fun_eq_iff)
  ultimately show ?case
    using s by (subst print_dirty_loop.simps) (simp add: d(1) mon_reset_stream_ok h'_def [symmetric])
qed

subsection \<open>The invariant\<close>

text \<open>
  \<open>L t\<close> is the dirty list of task \<open>t\<close>. A stream that is open and on no list has nothing to report:
  only a wake-up, which is always followed by an event that puts it on the list, may be recorded.
\<close>

definition nothing_new :: "mon_stream_t \<Rightarrow> bool" where
  "nothing_new s \<longleftrightarrow> mst_state s = ST_INUSE \<and> mst_counter s = 0 \<and> mst_strevt_flags s \<in> {0, ST_WAKEUP}"

text \<open>
  The time of the current wait is normalised. The wait statistics are both initialised or both not;
  they are not in a wrapper context only. \<open>LpelTimingAdd\<close> may leave a full billion in the total.
\<close>

definition mworker_ok :: "mon_worker_t \<Rightarrow> bool" where
  "mworker_ok w \<longleftrightarrow> normalised (mw_wait_current w) \<and> (mw_wait_cnt w = None \<longleftrightarrow> mw_wait_time w = None) \<and>
     (case mw_wait_time w of None \<Rightarrow> mw_wid w = -1 | Some t \<Rightarrow> nsec_range t)"

definition mtask_ok :: "(addr \<Rightarrow> addr list) \<Rightarrow> mon_stream_t heap \<Rightarrow> addr \<Rightarrow> mon_task_t \<Rightarrow> bool" where
  "mtask_ok L h t T \<longleftrightarrow> normalised (mt_creat T) \<and> normalised (mt_start T) \<and> normalised (mt_stop T) \<and>
     dchain (dlink h) (mt_dirty_list T) (L t) \<and>
     (\<forall>a \<in> set (L t). \<exists>s. h a = Some s \<and> mst_montask s = Some t \<and> stream_wf s)"

definition mstream_ok :: "(addr \<Rightarrow> addr list) \<Rightarrow> mon_task_t heap \<Rightarrow> addr \<Rightarrow> mon_stream_t \<Rightarrow> bool" where
  "mstream_ok L ts a s \<longleftrightarrow> stream_wf s \<and> (\<exists>t. mst_montask s = Some t \<and> ts t \<noteq> None \<and>
     (mst_dirty s = DNull \<and> nothing_new s \<or> a \<in> set (L t)))"

definition mon_inv :: "(addr \<Rightarrow> addr list) \<Rightarrow> mon_state \<Rightarrow> bool" where
  "mon_inv L M \<longleftrightarrow> normalised (monitoring_begin M) \<and>
     (\<forall>a w. mworkers M a = Some w \<longrightarrow> mworker_ok w) \<and>
     (\<forall>t T. mtasks M t = Some T \<longrightarrow> mtask_ok L (mstreams M) t T) \<and>
     (\<forall>a s. mstreams M a = Some s \<longrightarrow> mst_state s \<noteq> ST_CLOSED \<longrightarrow> mstream_ok L (mtasks M) a s)"

definition mon_ok :: "mon_state \<Rightarrow> bool" where
  "mon_ok M \<longleftrightarrow> (\<exists>L. mon_inv L M)"

text \<open>Between the change of a stream and \<open>MarkDirty\<close> the stream may have news and be on no list.\<close>

definition mon_inv_but :: "addr \<Rightarrow> (addr \<Rightarrow> addr list) \<Rightarrow> mon_state \<Rightarrow> bool" where
  "mon_inv_but a L M \<longleftrightarrow> normalised (monitoring_begin M) \<and>
     (\<forall>a w. mworkers M a = Some w \<longrightarrow> mworker_ok w) \<and>
     (\<forall>t T. mtasks M t = Some T \<longrightarrow> mtask_ok L (mstreams M) t T) \<and>
     (\<forall>b s. mstreams M b = Some s \<longrightarrow> b \<noteq> a \<longrightarrow> mst_state s \<noteq> ST_CLOSED \<longrightarrow> mstream_ok L (mtasks M) b s) \<and>
     (\<exists>s t T. mstreams M a = Some s \<and> stream_wf s \<and> mst_montask s = Some t \<and> mtasks M t = Some T \<and>
        (mst_dirty s = DNull \<or> a \<in> set (L t)))"

lemma dlink_upd: "dlink (h(a \<mapsto> s)) = (dlink h)(a := mst_dirty s)"
  by (auto simp: dlink_def)

lemma mtask_ok_stream_upd:
  assumes "mtask_ok L h t T" "h a = Some s" "mst_dirty s' = mst_dirty s" "mst_montask s' = mst_montask s" "stream_wf s'"
  shows "mtask_ok L (h(a \<mapsto> s')) t T"
proof -
  have "dlink (h(a \<mapsto> s')) = dlink h"
    using assms by (auto simp: dlink_def)
  with assms show ?thesis
    by (auto simp: mtask_ok_def)
qed

lemma set_stream_but:
  assumes "mon_inv L M" "mstreams M a = Some s" "mst_state s \<noteq> ST_CLOSED"
    and f: "mst_dirty (f s) = mst_dirty s" "mst_montask (f s) = mst_montask s" "stream_wf (f s)"
  shows "set_stream M (Some a) f = Inr (M\<lparr>mstreams := (mstreams M)(a \<mapsto> f s)\<rparr>)"
    and "mon_inv_but a L (M\<lparr>mstreams := (mstreams M)(a \<mapsto> f s)\<rparr>)"
proof -
  show "set_stream M (Some a) f = Inr (M\<lparr>mstreams := (mstreams M)(a \<mapsto> f s)\<rparr>)"
    using assms by (simp add: set_stream_def)
  have "mstream_ok L (mtasks M) a s"
    using assms by (auto simp: mon_inv_def)
  then obtain t T where "mst_montask s = Some t" "mtasks M t = Some T" "mst_dirty s = DNull \<or> a \<in> set (L t)"
    by (auto simp: mstream_ok_def)
  with assms show "mon_inv_but a L (M\<lparr>mstreams := (mstreams M)(a \<mapsto> f s)\<rparr>)"
    by (auto simp: mon_inv_but_def mon_inv_def mtask_ok_stream_upd)
qed

text \<open>\<open>MarkDirty\<close> restores the invariant.\<close>

definition mon_marked :: "(addr \<Rightarrow> addr list) \<Rightarrow> addr \<Rightarrow> mon_stream_t \<Rightarrow> addr \<Rightarrow> addr \<Rightarrow> addr list" where
  "mon_marked L a s t = (if mst_dirty s = DNull then L(t := a # L t) else L)"

lemma mstream_ok_mono:
  "mstream_ok L ts b s \<Longrightarrow> (\<And>t. set (L t) \<subseteq> set (L' t)) \<Longrightarrow> (\<And>t. ts t \<noteq> None \<Longrightarrow> ts' t \<noteq> None) \<Longrightarrow> mstream_ok L' ts' b s"
  by (auto simp: mstream_ok_def) (metis option.exhaust subsetD option.distinct(1))+

lemma mtask_ok_push:
  assumes "mtask_ok L h t T" "h a = Some s" "mst_dirty s = DNull" "stream_wf s" "mst_montask s = Some t"
  shows "mtask_ok (L(t := a # L t)) (h(a \<mapsto> s\<lparr>mst_dirty := mt_dirty_list T\<rparr>)) t (T\<lparr>mt_dirty_list := DStream a\<rparr>)"
proof -
  have "a \<notin> set (L t)"
    using assms by (auto simp: mtask_ok_def dlink_def dest: dchain_linked)
  then have "dchain ((dlink h)(a := mt_dirty_list T)) (mt_dirty_list T) (L t)"
    using assms by (subst dchain_cong [where l' = "dlink h"]) (auto simp: mtask_ok_def)
  with assms show ?thesis
    by (auto simp: mtask_ok_def dlink_upd stream_wf_def)
qed

lemma mtask_ok_other:
  assumes "mtask_ok L h u U" "h a = Some s" "mst_montask s = Some t" "u \<noteq> t" "mst_montask s' = Some t"
  shows "mtask_ok (L(t := ys)) (h(a \<mapsto> s')) u U"
proof -
  have "a \<notin> set (L u)"
    using assms by (auto simp: mtask_ok_def)
  then have "dchain ((dlink h)(a := mst_dirty s')) (mt_dirty_list U) (L u)"
    using assms by (subst dchain_cong [where l' = "dlink h"]) (auto simp: mtask_ok_def)
  with assms \<open>a \<notin> set (L u)\<close> show ?thesis
    by (auto simp: mtask_ok_def dlink_upd)
qed


lemma MarkDirty_inv:
  assumes "mon_inv_but a L M"
  shows "\<exists>M' L' s. MarkDirty M (Some a) = Inr M' \<and> mon_inv L' M' \<and>
    mstreams M' a = Some s \<and> mtasks M' (the (mst_montask s)) \<noteq> None \<and>
    mst_montask s \<noteq> None \<and> stream_wf s"
proof -
  obtain s t T where s: "mstreams M a = Some s" "stream_wf s" "mst_montask s = Some t" "mtasks M t = Some T"
    "mst_dirty s = DNull \<or> a \<in> set (L t)"
    using assms by (auto simp: mon_inv_but_def)
  have T: "mtask_ok L (mstreams M) t T"
    using assms s by (simp add: mon_inv_but_def)
  define s' where "s' = (if mst_dirty s = DNull then s\<lparr>mst_dirty := mt_dirty_list T\<rparr> else s)"
  define T1 where "T1 = (if mst_dirty s = DNull then T\<lparr>mt_dirty_list := DStream a\<rparr> else T)"
  define T' where "T' = (if mst_mode s = CHR ''r'' then T1\<lparr>mt_last_in_cnt := mst_counter s\<rparr>
    else T1\<lparr>mt_last_out_cnt := mst_counter s\<rparr>)"
  define L' where "L' = mon_marked L a s t"
  define M' where "M' = M\<lparr>mstreams := (mstreams M)(a \<mapsto> s'), mtasks := (mtasks M)(t \<mapsto> T')\<rparr>"
  have res: "MarkDirty M (Some a) = Inr M'"
    using s by (auto simp: MarkDirty_def s'_def T1_def T'_def M'_def stream_wf_def)
  have s': "mst_montask s' = Some t" "stream_wf s'" "mst_state s' = mst_state s" "a \<in> set (L' t)"
    using s by (auto simp: s'_def stream_wf_def L'_def mon_marked_def)
  have sub: "set (L u) \<subseteq> set (L' u)" for u
    by (auto simp: L'_def mon_marked_def)
  have "mtask_ok L' ((mstreams M)(a \<mapsto> s')) t T1"
    using T s mtask_ok_push [OF T s(1)]
    by (auto simp: L'_def mon_marked_def s'_def T1_def fun_upd_idem)
  then have t: "mtask_ok L' ((mstreams M)(a \<mapsto> s')) t T'"
    by (auto simp: T'_def mtask_ok_def)
  have others: "mtask_ok L' ((mstreams M)(a \<mapsto> s')) u U" if "mtasks M u = Some U" "u \<noteq> t" for u U
  proof -
    have "mtask_ok L (mstreams M) u U"
      using assms that by (simp add: mon_inv_but_def)
    from mtask_ok_other [OF this s(1,3) that(2) s'(1), of "L' t"] show ?thesis
      by (simp add: L'_def mon_marked_def split: if_splits)
  qed
  have str: "mstream_ok L' ((mtasks M)(t \<mapsto> T')) b r"
    if "((mstreams M)(a \<mapsto> s')) b = Some r" "mst_state r \<noteq> ST_CLOSED" for b r
  proof (cases "b = a")
    case True
    with that s' show ?thesis
      by (auto simp: mstream_ok_def)
  next
    case False
    with that assms have "mstream_ok L (mtasks M) b r"
      by (auto simp: mon_inv_but_def)
    then show ?thesis
      by (rule mstream_ok_mono) (use sub in auto)
  qed
  have "mon_inv L' M'"
    using assms t others str by (auto simp: mon_inv_def mon_inv_but_def M'_def)
  with res s' show ?thesis
    by (intro exI [of _ M'] exI [of _ L'] exI [of _ s']) (auto simp: M'_def)
qed

lemma mon_inv_begin: "mon_inv L M \<Longrightarrow> normalised (monitoring_begin M)"
  by (simp add: mon_inv_def)

lemma mon_inv_wait: "mon_inv L M \<Longrightarrow> mworkers M a = Some w \<Longrightarrow> mworker_ok w"
  by (simp add: mon_inv_def)

lemma mworker_ok_simps: "mworker_ok w \<Longrightarrow> normalised (mw_wait_current w)"
  "mworker_ok w \<Longrightarrow> mw_wait_cnt w = None \<longleftrightarrow> mw_wait_time w = None"
  "mworker_ok w \<Longrightarrow> mw_wait_time w = None \<Longrightarrow> mw_wid w = -1"
  "mworker_ok w \<Longrightarrow> mw_wait_time w = Some t \<Longrightarrow> nsec_range t"
  by (auto simp: mworker_ok_def)

lemma mon_inv_mtask: "mon_inv L M \<Longrightarrow> mtasks M t = Some T \<Longrightarrow> mtask_ok L (mstreams M) t T"
  by (simp add: mon_inv_def)

lemma mon_inv_worker:
  "mon_inv L M \<Longrightarrow> mworker_ok w \<Longrightarrow> mon_inv L (M\<lparr>mworkers := (mworkers M)(a \<mapsto> w)\<rparr>)"
  by (auto simp: mon_inv_def)

lemma mon_inv_worker_del: "mon_inv L M \<Longrightarrow> mon_inv L (M\<lparr>mworkers := (mworkers M)(a := None)\<rparr>)"
  by (auto simp: mon_inv_def)

lemma mon_inv_task:
  assumes "mon_inv L M" "mtasks M t = Some T" "mtask_ok L (mstreams M) t T'"
  shows "mon_inv L (M\<lparr>mtasks := (mtasks M)(t \<mapsto> T')\<rparr>)"
proof -
  have "mstream_ok L (mtasks M) b r \<Longrightarrow> mstream_ok L ((mtasks M)(t \<mapsto> T')) b r" for b r
    by (erule mstream_ok_mono) auto
  with assms show ?thesis
    by (auto simp: mon_inv_def)
qed

lemma mon_inv_new_task:
  assumes "mon_inv L M" "mtasks M t = None" "mtask_ok (L(t := [])) (mstreams M) t T"
  shows "mon_inv (L(t := [])) (M\<lparr>mtasks := (mtasks M)(t \<mapsto> T)\<rparr>)"
proof -
  have "mstream_ok (L(t := [])) ((mtasks M)(t \<mapsto> T)) b r"
    if "mstreams M b = Some r" "mst_state r \<noteq> ST_CLOSED" for b r
  proof -
    have "mstream_ok L (mtasks M) b r"
      using that assms by (simp add: mon_inv_def)
    with assms(2) show ?thesis
      by (auto simp: mstream_ok_def)
  qed
  with assms show ?thesis
    by (auto simp: mon_inv_def mtask_ok_def)
qed

lemma mon_inv_task_del:
  assumes "mon_inv L M"
    and "\<forall>a s. mstreams M a = Some s \<and> mst_montask s = Some t \<longrightarrow> mst_state s = ST_CLOSED"
  shows "mon_inv L (M\<lparr>mtasks := (mtasks M)(t := None)\<rparr>)"
  using assms by (fastforce simp: mon_inv_def mstream_ok_def)

lemma mon_inv_wakeup:
  assumes "mon_inv L M" "mstreams M a = Some s" "mst_state s \<noteq> ST_CLOSED"
  shows "mon_inv L (M\<lparr>mstreams := (mstreams M)(a \<mapsto> s\<lparr>mst_strevt_flags := mst_strevt_flags s OR ST_WAKEUP\<rparr>)\<rparr>)"
proof -
  let ?s = "s\<lparr>mst_strevt_flags := mst_strevt_flags s OR ST_WAKEUP\<rparr>"
  have ok: "mstream_ok L (mtasks M) a s"
    using assms by (simp add: mon_inv_def)
  then have wf: "stream_wf ?s"
    by (simp add: mstream_ok_def stream_wf_def)
  have "mstream_ok L (mtasks M) a ?s"
    using ok by (auto simp: mstream_ok_def stream_wf_def nothing_new_def)
  with assms wf mtask_ok_stream_upd [where s' = ?s] show ?thesis
    by (auto simp: mon_inv_def)
qed

lemma mon_inv_open:
  assumes "mon_inv L M" "mstreams M a = None" "stream_wf s" "mst_montask s = Some t" "mtasks M t = Some T"
    "mst_dirty s = DNull"
  shows "mon_inv_but a L (M\<lparr>mstreams := (mstreams M)(a \<mapsto> s)\<rparr>)"
proof -
  have "mtask_ok L ((mstreams M)(a \<mapsto> s)) u U" if "mtasks M u = Some U" for u U
  proof -
    have u: "mtask_ok L (mstreams M) u U"
      using that assms by (simp add: mon_inv_def)
    then have "a \<notin> set (L u)"
      using assms by (auto simp: mtask_ok_def)
    then have "dchain ((dlink (mstreams M))(a := mst_dirty s)) (mt_dirty_list U) (L u)"
      using u by (subst dchain_cong [where l' = "dlink (mstreams M)"]) (auto simp: mtask_ok_def)
    with u \<open>a \<notin> set (L u)\<close> show ?thesis
      by (auto simp: mtask_ok_def dlink_upd)
  qed
  with assms show ?thesis
    by (auto simp: mon_inv_def mon_inv_but_def)
qed

subsection \<open>The log entry of a task\<close>

lemma task_stop_head_ok:
  assumes "normalised b" "normalised (mt_stop T)" "normalised (mt_start T)" "normalised (mt_creat T)"
  shows "\<exists>hdr. task_stop_head b T st out = Inr (fprintf out hdr)"
proof -
  obtain f where f: "\<And>out. PrintTimingNs (LpelTimingDiff (mt_start T) (mt_stop T)) out = Inr (fprintf out (f out))"
    using PrintTimingNs_normalised [OF Diff_normalised] assms by metis
  obtain g where g: "\<And>out. PrintTimingNs (mt_creat T) out = Inr (fprintf out (g out))"
    using PrintTimingNs_normalised assms by metis
  show ?thesis
    using assms by (auto simp: task_stop_head_def Let_def PrintNormTSns_ok f g)
qed

lemma PrintDirtyList_ok:
  assumes "mtasks M t = Some T" "mt_mw T = Some w" "mworkers M w = Some W"
    and "dchain (dlink (mstreams M)) (mt_dirty_list T) xs"
    and "\<forall>a \<in> set xs. \<exists>s. mstreams M a = Some s \<and> mst_montask s = Some t \<and> stream_wf s"
  shows "PrintDirtyList M t = Some (Inr (M\<lparr>mstreams := reset_all xs (mstreams M),
    mworkers := (mworkers M)(w \<mapsto> W\<lparr>mw_outfile :=
      fprintf (mw_outfile W) (concat (map (\<lambda>a. stream_entry (the (mstreams M a))) xs))\<rparr>),
    mtasks := (mtasks M)(t \<mapsto> T\<lparr>mt_dirty_list := ST_DIRTY_END\<rparr>)\<rparr>))"
  using assms print_dirty_loop_ok [OF assms(4,5)] by (simp add: PrintDirtyList_def)

text \<open>What an entry changes: the task, the text of the log and the streams of the dirty list.\<close>

definition mon_stopped :: "lpel_timing_t \<Rightarrow> mon_task_t \<Rightarrow> mon_task_t" where
  "mon_stopped clk T = (if FLAG (mt_flags T) LPEL_MON_TIME then T\<lparr>mt_stop := clk\<rparr> else T)"

definition entry_text :: "mon_state \<Rightarrow> mon_task_t \<Rightarrow> addr list \<Rightarrow> string" where
  "entry_text M T xs = (if FLAG (mt_flags T) LPEL_MON_STREAM
     then concat (map (\<lambda>a. stream_entry (the (mstreams M a))) xs) else [])"

definition after_stop :: "mon_state \<Rightarrow> addr \<Rightarrow> mon_task_t \<Rightarrow> addr \<Rightarrow> mon_worker_t \<Rightarrow> addr list \<Rightarrow>
    lpel_timing_t \<Rightarrow> string \<Rightarrow> mon_state" where
  "after_stop M t T w W xs clk hdr =
    (let T = mon_stopped clk T;
         M' = M\<lparr>mworkers := (mworkers M)(w \<mapsto> W\<lparr>mw_outfile :=
           fprintf (mw_outfile W) (hdr @ entry_text M T xs @ [END_LOG_ENTRY])\<rparr>)\<rparr> in
     if FLAG (mt_flags T) LPEL_MON_STREAM
     then M'\<lparr>mstreams := reset_all xs (mstreams M), mtasks := (mtasks M)(t \<mapsto> T\<lparr>mt_dirty_list := ST_DIRTY_END\<rparr>)\<rparr>
     else M'\<lparr>mtasks := (mtasks M)(t \<mapsto> T)\<rparr>)"

lemma mon_stopped_fields [simp]: "mt_flags (mon_stopped clk T) = mt_flags T" "mt_mw (mon_stopped clk T) = mt_mw T"
  "mt_dirty_list (mon_stopped clk T) = mt_dirty_list T"
  "mt_creat (mon_stopped clk T) = mt_creat T" "mt_start (mon_stopped clk T) = mt_start T"
  by (simp_all add: mon_stopped_def)

lemma TaskStop_ok:
  assumes "mon_inv L M" "mtasks M t = Some T" "mt_mw T = Some w" "mworkers M w = Some W" "normalised clk"
  shows "\<exists>hdr. task_stop_head (monitoring_begin M) (mon_stopped clk T) st (mw_outfile W) = Inr (fprintf (mw_outfile W) hdr) \<and>
    MonCbTaskStop M (Some t) st clk = Some (Inr (after_stop M t T w W (L t) clk hdr))"
proof -
  have T: "mtask_ok L (mstreams M) t T"
    using assms(1,2) by (rule mon_inv_mtask)
  have st: "normalised (mt_stop (mon_stopped clk T))"
    using T assms(5) by (auto simp: mon_stopped_def mtask_ok_def)
  obtain hdr where hdr: "task_stop_head (monitoring_begin M) (mon_stopped clk T) st (mw_outfile W) = Inr (fprintf (mw_outfile W) hdr)"
    using task_stop_head_ok [of "monitoring_begin M" "mon_stopped clk T" st "mw_outfile W"] T st mon_inv_begin [OF assms(1)]
    by (auto simp: mtask_ok_def)
  define M1 where "M1 = M\<lparr>mtasks := (mtasks M)(t \<mapsto> mon_stopped clk T),
    mworkers := (mworkers M)(w \<mapsto> W\<lparr>mw_outfile := fprintf (mw_outfile W) hdr\<rparr>)\<rparr>"
  have p: "PrintDirtyList M1 t = Some (Inr (M1\<lparr>mstreams := reset_all (L t) (mstreams M1),
      mworkers := (mworkers M1)(w \<mapsto> W\<lparr>mw_outfile := fprintf (fprintf (mw_outfile W) hdr)
        (concat (map (\<lambda>a. stream_entry (the (mstreams M1 a))) (L t)))\<rparr>),
      mtasks := (mtasks M1)(t \<mapsto> (mon_stopped clk T)\<lparr>mt_dirty_list := ST_DIRTY_END\<rparr>)\<rparr>))"
    using PrintDirtyList_ok [of M1 t "mon_stopped clk T" w "W\<lparr>mw_outfile := fprintf (mw_outfile W) hdr\<rparr>" "L t"] T assms(3)
    by (simp add: M1_def mtask_ok_def)
  have "MonCbTaskStop M (Some t) st clk = bindO (if FLAG (mt_flags T) LPEL_MON_STREAM then PrintDirtyList M1 t else Some (Inr M1))
    (\<lambda>M. bindO (Some (upd (mworkers M) (Some w)
        (\<lambda>w. w\<lparr>mw_outfile := fprintf (mw_outfile w) [END_LOG_ENTRY]\<rparr>))) (\<lambda>h.
      Some (Inr (M\<lparr>mworkers := h\<rparr>))))"
    using assms hdr by (simp add: MonCbTaskStop_def LpelTimingNow_def mon_stopped_def [symmetric] Let_def M1_def PrintUsrEvt_def)
  also have "\<dots> = Some (Inr (after_stop M t T w W (L t) clk hdr))"
    by (simp add: p) (simp add: M1_def after_stop_def entry_text_def Let_def)
  finally show ?thesis
    using hdr by blast
qed

lemma reset_all_ok:
  assumes "mon_inv L M" "mtasks M t = Some T" "mtask_ok L (mstreams M) t T'"
  shows "mon_inv (L(t := [])) (M\<lparr>mstreams := reset_all (L t) (mstreams M),
    mtasks := (mtasks M)(t \<mapsto> T'\<lparr>mt_dirty_list := ST_DIRTY_END\<rparr>)\<rparr>)"
proof -
  let ?h = "reset_all (L t) (mstreams M)" and ?ts = "(mtasks M)(t \<mapsto> T'\<lparr>mt_dirty_list := ST_DIRTY_END\<rparr>)"
  have T: "mtask_ok L (mstreams M) t T"
    using assms(1,2) by (rule mon_inv_mtask)
  have others: "mtask_ok (L(t := [])) ?h u U" if "mtasks M u = Some U" "u \<noteq> t" for u U
  proof -
    have u: "mtask_ok L (mstreams M) u U"
      using assms(1) that(1) by (rule mon_inv_mtask)
    have same: "?h a = mstreams M a" if "a \<in> set (L u)" for a
      using u T that \<open>u \<noteq> t\<close> by (fastforce simp: mtask_ok_def reset_all_def)
    have "dchain (dlink ?h) (mt_dirty_list U) (L u)"
      using u by (subst dchain_cong [where l' = "dlink (mstreams M)"]) (auto simp: mtask_ok_def dlink_def same)
    with u same \<open>u \<noteq> t\<close> show ?thesis
      by (auto simp: mtask_ok_def)
  qed
  have str: "mstream_ok (L(t := [])) ?ts b r" if r: "?h b = Some r" "mst_state r \<noteq> ST_CLOSED" for b r
  proof (cases "b \<in> set (L t)")
    case True
    with T obtain s where s: "mstreams M b = Some s" "mst_montask s = Some t" "stream_wf s"
      by (auto simp: mtask_ok_def)
    with True r have "r = clean_stream s"
      by (simp add: reset_all_def split: if_splits)
    with s show ?thesis
      by (auto simp: mstream_ok_def clean_stream_def nothing_new_def stream_wf_def st_defs intro!: exI [of _ t])
  next
    case False
    with r have "mstream_ok L (mtasks M) b r"
      using assms(1) by (auto simp: reset_all_def mon_inv_def)
    with False show ?thesis
      by (auto simp: mstream_ok_def)
  qed
  have "mtask_ok (L(t := [])) ?h t (T'\<lparr>mt_dirty_list := ST_DIRTY_END\<rparr>)"
    using assms(3) by (simp add: mtask_ok_def)
  with assms(1) others str show ?thesis
    by (auto simp: mon_inv_def)
qed

lemma after_stop_inv:
  assumes "mon_inv L M" "mtasks M t = Some T" "mworkers M w = Some W" "normalised clk"
  shows "mon_ok (after_stop M t T w W (L t) clk hdr)"
proof -
  define W' where "W' = W\<lparr>mw_outfile := fprintf (mw_outfile W) (hdr @ entry_text M (mon_stopped clk T) (L t) @ [END_LOG_ENTRY])\<rparr>"
  define M' where "M' = M\<lparr>mworkers := (mworkers M)(w \<mapsto> W')\<rparr>"
  have i: "mon_inv L M'"
    using mon_inv_wait [OF assms(1,3)] unfolding M'_def
    by (intro mon_inv_worker assms(1)) (auto simp: W'_def mworker_ok_def split: option.splits)
  have T: "mtask_ok L (mstreams M') t (mon_stopped clk T)"
    using mon_inv_mtask [OF assms(1,2)] assms(4) by (auto simp: mon_stopped_def mtask_ok_def M'_def)
  have t: "mtasks M' t = Some T"
    using assms by (simp add: M'_def)
  show ?thesis
  proof (cases "FLAG (mt_flags T) LPEL_MON_STREAM")
    case True
    then have "after_stop M t T w W (L t) clk hdr = M'\<lparr>mstreams := reset_all (L t) (mstreams M'),
        mtasks := (mtasks M')(t \<mapsto> (mon_stopped clk T)\<lparr>mt_dirty_list := ST_DIRTY_END\<rparr>)\<rparr>"
      by (simp add: after_stop_def M'_def W'_def Let_def)
    with reset_all_ok [OF i t T] show ?thesis
      unfolding mon_ok_def by metis
  next
    case False
    then have "after_stop M t T w W (L t) clk hdr = M'\<lparr>mtasks := (mtasks M')(t \<mapsto> mon_stopped clk T)\<rparr>"
      by (simp add: after_stop_def M'_def W'_def Let_def)
    with mon_inv_task [OF i t T] show ?thesis
      unfolding mon_ok_def by metis
  qed
qed

subsection \<open>Calls of the callbacks\<close>

text \<open>
  A call with its arguments: the address a fresh context gets, what \<open>malloc\<close> left there, and the
  clock readings.
\<close>

datatype mevent = MWorkerCreate addr mon_worker_t int lpel_timing_t
  | MWrapperCreate addr mon_worker_t addr lpel_timing_t
  | MWorkerDestroy addr lpel_timing_t
  | MWaitStart addr lpel_timing_t
  | MWaitStop addr lpel_timing_t lpel_timing_t
  | MTaskCreate addr "64 word" "string option" lpel_timing_t
  | MTaskDestroy addr
  | MTaskAssign addr ptr
  | MTaskStart addr lpel_timing_t
  | MTaskStop addr lpel_taskstate_t lpel_timing_t
  | MStreamOpen addr ptr "32 word" char
  | MStreamClose addr
  | MStreamReplace addr "32 word"
  | MStreamReadPrepare addr
  | MStreamReadFinish addr
  | MStreamWritePrepare addr
  | MStreamWriteFinish addr
  | MStreamBlockon addr
  | MStreamWakeup addr

definition mfst :: "(mon_state \<times> 'b) res \<Rightarrow> mon_state run" where
  "mfst r = Some (bindR r (\<lambda>x. Inr (fst x)))"

fun mexec :: "mon_state \<Rightarrow> mevent \<Rightarrow> mon_state run" where
  "mexec M (MWorkerCreate a junk wid clk) = mfst (MonCbWorkerCreate M (Some a) junk wid True clk)"
| "mexec M (MWrapperCreate a junk t clk) = mfst (MonCbWrapperCreate M (Some a) junk (Some t) True clk)"
| "mexec M (MWorkerDestroy a clk) = mfst (MonCbWorkerDestroy M (Some a) clk True)"
| "mexec M (MWaitStart a clk) = Some (MonCbWorkerWaitStart M (Some a) clk)"
| "mexec M (MWaitStop a clk clk2) = Some (MonCbWorkerWaitStop M (Some a) clk clk2)"
| "mexec M (MTaskCreate t tid name clk) = mfst (LpelMonTaskCreate M (Some t) tid name clk)"
| "mexec M (MTaskDestroy t) = Some (MonCbTaskDestroy M (Some t))"
| "mexec M (MTaskAssign t mw) = Some (MonCbTaskAssign M (Some t) mw)"
| "mexec M (MTaskStart t clk) = Some (MonCbTaskStart M (Some t) clk)"
| "mexec M (MTaskStop t st clk) = MonCbTaskStop M (Some t) st clk"
| "mexec M (MStreamOpen a mt sid mode) = mfst (MonCbStreamOpen M (Some a) mt sid mode)"
| "mexec M (MStreamClose a) = Some (MonCbStreamClose M (Some a))"
| "mexec M (MStreamReplace a sid) = Some (MonCbStreamReplace M (Some a) sid)"
| "mexec M (MStreamReadPrepare a) = Some (MonCbStreamReadPrepare M (Some a))"
| "mexec M (MStreamReadFinish a) = Some (MonCbStreamReadFinish M (Some a))"
| "mexec M (MStreamWritePrepare a) = Some (MonCbStreamWritePrepare M (Some a))"
| "mexec M (MStreamWriteFinish a) = Some (MonCbStreamWriteFinish M (Some a))"
| "mexec M (MStreamBlockon a) = Some (MonCbStreamBlockon M (Some a))"
| "mexec M (MStreamWakeup a) = Some (MonCbStreamWakeup M (Some a))"

text \<open>
  What the callers respect: fresh addresses, contexts that are in use, a clock with normalised
  readings, no call on a stream after its close, and a task context is freed after the streams of
  the task are closed. The log files can be opened and closed.
\<close>

definition mopen :: "mon_state \<Rightarrow> addr \<Rightarrow> bool" where
  "mopen M a \<longleftrightarrow> (case mstreams M a of None \<Rightarrow> False | Some s \<Rightarrow> mst_state s \<noteq> ST_CLOSED)"

definition streams_closed :: "mon_state \<Rightarrow> addr \<Rightarrow> bool" where [code del]:
  "streams_closed M t \<longleftrightarrow>
     (\<forall>a s. mstreams M a = Some s \<and> mst_montask s = Some t \<longrightarrow> mst_state s = ST_CLOSED)"

fun menabled :: "mon_state \<Rightarrow> mevent \<Rightarrow> bool" where
  "menabled M (MWorkerCreate a junk wid clk) \<longleftrightarrow> mworkers M a = None \<and> normalised clk"
| "menabled M (MWrapperCreate a junk t clk) \<longleftrightarrow> mworkers M a = None \<and> mtasks M t \<noteq> None \<and> normalised clk"
| "menabled M (MWorkerDestroy a clk) \<longleftrightarrow> mworkers M a \<noteq> None \<and> normalised clk"
| "menabled M (MWaitStart a clk) \<longleftrightarrow> mworkers M a \<noteq> None \<and> normalised clk"
| "menabled M (MWaitStop a clk clk2) \<longleftrightarrow> mworkers M a \<noteq> None \<and> normalised clk \<and> normalised clk2"
| "menabled M (MTaskCreate t tid name clk) \<longleftrightarrow> mtasks M t = None \<and> normalised clk"
| "menabled M (MTaskDestroy t) \<longleftrightarrow> mtasks M t \<noteq> None \<and> streams_closed M t"
| "menabled M (MTaskAssign t mw) \<longleftrightarrow> mtasks M t \<noteq> None"
| "menabled M (MTaskStart t clk) \<longleftrightarrow> mtasks M t \<noteq> None \<and> normalised clk"
| "menabled M (MTaskStop t st clk) \<longleftrightarrow> normalised clk \<and>
     (case mtasks M t of None \<Rightarrow> False
      | Some T \<Rightarrow> (case mt_mw T of None \<Rightarrow> True | Some w \<Rightarrow> mworkers M w \<noteq> None))"
| "menabled M (MStreamOpen a mt sid mode) \<longleftrightarrow> mstreams M a = None \<and> mode \<in> {CHR ''r'', CHR ''w''} \<and>
     (case mt of None \<Rightarrow> True | Some t \<Rightarrow> mtasks M t \<noteq> None)"
| "menabled M (MStreamClose a) \<longleftrightarrow> mopen M a"
| "menabled M (MStreamReplace a sid) \<longleftrightarrow> mopen M a"
| "menabled M (MStreamReadPrepare a) \<longleftrightarrow> mopen M a"
| "menabled M (MStreamReadFinish a) \<longleftrightarrow> mopen M a"
| "menabled M (MStreamWritePrepare a) \<longleftrightarrow> mopen M a"
| "menabled M (MStreamWriteFinish a) \<longleftrightarrow> mopen M a"
| "menabled M (MStreamBlockon a) \<longleftrightarrow> mopen M a"
| "menabled M (MStreamWakeup a) \<longleftrightarrow> mopen M a"

inductive mreach :: "mon_state \<Rightarrow> bool" where
  start: "normalised clk \<Longrightarrow> mreach (fst (LpelMonInit mon_static cb flags clk))"
| step: "mreach M \<Longrightarrow> menabled M e \<Longrightarrow> mexec M e = Some (Inr M') \<Longrightarrow> mreach M'"

subsection \<open>Every call keeps the invariant\<close>

lemma mfst_Inr [simp]: "mfst (Inr (M, x)) = Some (Inr M)" "mfst (Inl e) = Some (Inl e)"
  by (simp_all add: mfst_def)

definition keeps :: "mon_state run \<Rightarrow> bool" where
  "keeps r \<longleftrightarrow> (\<exists>M'. r = Some (Inr M') \<and> mon_ok M')"

lemma keepsI: "r = Some (Inr M') \<Longrightarrow> mon_inv L M' \<Longrightarrow> keeps r"
  by (auto simp: keeps_def mon_ok_def)

lemma keeps_Inr: "mon_inv L M \<Longrightarrow> keeps (Some (Inr M))"
  by (auto intro: keepsI)

lemma keeps_worker: "mon_inv L M \<Longrightarrow> mworker_ok w \<Longrightarrow>
    keeps (Some (Inr (M\<lparr>mworkers := (mworkers M)(a \<mapsto> w)\<rparr>)))"
  by (rule keeps_Inr, rule mon_inv_worker)

lemma keeps_task: "mon_inv L M \<Longrightarrow> mtasks M t = Some T \<Longrightarrow> mtask_ok L (mstreams M) t T' \<Longrightarrow>
    keeps (Some (Inr (M\<lparr>mtasks := (mtasks M)(t \<mapsto> T')\<rparr>)))"
  by (rule keeps_Inr, rule mon_inv_task)

lemma MarkDirty_keeps: "mon_inv_but a L M \<Longrightarrow> keeps (Some (MarkDirty M (Some a)))"
  using MarkDirty_inv [of a L M] by (auto intro: keepsI keeps_Inr)

lemma change_mark_keeps:
  assumes "mon_inv L M" "mstreams M a = Some s" "mst_state s \<noteq> ST_CLOSED"
    and "mst_dirty (f s) = mst_dirty s" "mst_montask (f s) = mst_montask s" "stream_wf (f s)"
  shows "keeps (Some (bindR (set_stream M (Some a) f) (\<lambda>M. MarkDirty M (Some a))))"
  using set_stream_but [where f = f, OF assms] by (auto intro: MarkDirty_keeps)

lemma Blockon_keeps:
  assumes "mon_inv L M" "mstreams M a = Some s" "mst_state s \<noteq> ST_CLOSED" "stream_wf s"
  shows "keeps (Some (MonCbStreamBlockon M (Some a)))"
proof -
  let ?f = "\<lambda>s. s\<lparr>mst_strevt_flags := mst_strevt_flags s OR ST_BLOCKON\<rparr>"
  have f: "mst_dirty (?f s) = mst_dirty s" "mst_montask (?f s) = mst_montask s" "stream_wf (?f s)"
    using assms(4) by (simp_all add: stream_wf_def)
  obtain M' L' s' where M': "MarkDirty (M\<lparr>mstreams := (mstreams M)(a \<mapsto> ?f s)\<rparr>) (Some a) = Inr M'" "mon_inv L' M'"
    "mstreams M' a = Some s'" "mtasks M' (the (mst_montask s')) \<noteq> None" "mst_montask s' \<noteq> None" "stream_wf s'"
    using MarkDirty_inv [OF set_stream_but(2) [where f = ?f, OF assms(1-3) f]] by blast
  then obtain t T where t: "mst_montask s' = Some t" "mtasks M' t = Some T"
    by auto
  have "mon_inv L' (M'\<lparr>mtasks := (mtasks M')(t \<mapsto> T\<lparr>mt_blockon := c\<rparr>)\<rparr>)" for c
    using mon_inv_mtask [OF M'(2) t(2)] by (intro mon_inv_task [OF M'(2) t(2)]) (simp add: mtask_ok_def)
  with M' t show ?thesis
    by (auto simp: MonCbStreamBlockon_def set_stream_but(1) [where f = ?f, OF assms(1-3) f] stream_wf_def intro: keepsI keeps_Inr)
qed

lemma Open_keeps:
  assumes "mon_inv L M" "menabled M (MStreamOpen a mt sid mode)"
  shows "keeps (mexec M (MStreamOpen a mt sid mode))"
proof (cases mt)
  case None
  with assms show ?thesis
    by (auto simp: MonCbStreamOpen_def intro: keepsI keeps_Inr)
next
  case (Some t)
  with assms obtain T where T: "mtasks M t = Some T"
    by auto
  define s where "s = \<lparr>mst_montask = Some t, mst_dirty = DNull, mst_mode = mode, mst_state = ST_OPENED,
    mst_sid = sid, mst_counter = 0, mst_strevt_flags = 0\<rparr>"
  have "mon_inv_but a L (M\<lparr>mstreams := (mstreams M)(a \<mapsto> s)\<rparr>)"
    using assms T by (intro mon_inv_open) (auto simp: s_def stream_wf_def)
  then obtain M' L' where "MarkDirty (M\<lparr>mstreams := (mstreams M)(a \<mapsto> s)\<rparr>) (Some a) = Inr M'" "mon_inv L' M'"
    using MarkDirty_inv by blast
  with Some T assms show ?thesis
    by (cases "(mt_flags T AND LPEL_MON_STREAM) OR (mt_flags T AND LPEL_MON_TASK) = 0")
      (auto simp: MonCbStreamOpen_def s_def [symmetric] intro: keepsI keeps_Inr)
qed

lemma TaskCreate_keeps:
  assumes "mon_inv L M" "mtasks M t = None" "normalised clk"
  shows "keeps (mexec M (MTaskCreate t tid name clk))"
proof -
  obtain T where "LpelMonTaskCreate M (Some t) tid name clk = Inr (M\<lparr>mtasks := (mtasks M)(t \<mapsto> T)\<rparr>, Some t)"
    "mtask_ok (L(t := [])) (mstreams M) t T"
    using assms mon_inv_begin [OF assms(1)]
    by (cases name) (auto simp: LpelMonTaskCreate_def Let_def mtask_ok_def Diff_normalised)
  with mon_inv_new_task [OF assms(1,2)] show ?thesis
    by (auto intro: keepsI keeps_Inr)
qed

lemma WrapperCreate_keeps:
  assumes "mon_inv L M" "mworkers M a = None" "mtasks M t = Some T" "normalised clk"
  shows "keeps (mexec M (MWrapperCreate a junk t clk))"
proof -
  have "\<exists>w. MonCbWrapperCreate M (Some a) junk (Some t) True clk =
      Inr (M\<lparr>mworkers := (mworkers M)(a \<mapsto> w)\<rparr>, Some a) \<and> mworker_ok w"
    using assms mon_inv_begin [OF assms(1)]
    by (cases "FLAG (mon_flags M) LPEL_MON_WORKER")
      (simp add: MonCbWrapperCreate_def Let_def PrintNormTSns_if split del: if_split,
       rule exI, rule conjI, rule refl, simp add: timing_defs mworker_ok_def)+
  then show ?thesis
    by (auto intro!: keeps_worker [OF assms(1)])
qed

text \<open>
  The calls that fail: the wait statistics of a context are read before they are initialised, or
  cannot be printed.
\<close>

definition reads_uninit :: "mon_state \<Rightarrow> addr \<Rightarrow> bool" where
  "reads_uninit M a \<longleftrightarrow> (case mworkers M a of None \<Rightarrow> False
     | Some w \<Rightarrow> FLAG (mw_flags w) LPEL_MON_LOAD \<and> mw_wait_time w = None)"

fun muninit :: "mon_state \<Rightarrow> mevent \<Rightarrow> bool" where
  "muninit M (MWaitStart a clk) \<longleftrightarrow> reads_uninit M a"
| "muninit M (MWaitStop a clk clk2) \<longleftrightarrow> reads_uninit M a"
| "muninit M (MWorkerDestroy a clk) \<longleftrightarrow> reads_uninit M a"
| "muninit M e \<longleftrightarrow> False"

fun munprintable :: "mon_state \<Rightarrow> mevent \<Rightarrow> bool" where
  "munprintable M (MWorkerDestroy a clk) \<longleftrightarrow> (case mworkers M a of None \<Rightarrow> False
     | Some w \<Rightarrow> FLAG (mw_flags w) LPEL_MON_LOAD \<and> (case mw_wait_time w of None \<Rightarrow> False
       | Some t \<Rightarrow> tv_sec t \<noteq> 0 \<and> tv_nsec t = TIMING_BILLION))"
| "munprintable M e \<longleftrightarrow> False"

definition mresult :: "mon_state \<Rightarrow> mevent \<Rightarrow> bool" where
  "mresult M e \<longleftrightarrow> (if muninit M e then mexec M e = Some (Inl Indeterminate)
     else if munprintable M e then mexec M e = Some (Inl AssertFail) else keeps (mexec M e))"

lemma WaitStart_result:
  assumes "mon_inv L M" "menabled M (MWaitStart a clk)"
  shows "mresult M (MWaitStart a clk)"
proof -
  from assms(2) obtain w where w: "mworkers M a = Some w" "normalised clk"
    by auto
  note ok = mon_inv_wait [OF assms(1) w(1)]
  show ?thesis
  proof (cases "reads_uninit M a")
    case True
    with w have u: "FLAG (mw_flags w) LPEL_MON_LOAD" "mw_wait_cnt w = None"
      using mworker_ok_simps(2) [OF ok] by (auto simp: reads_uninit_def)
    from Wait_uninit(1) [OF w(1) u] True show ?thesis
      by (simp add: mresult_def)
  next
    case False
    with w have i: "FLAG (mw_flags w) LPEL_MON_LOAD \<Longrightarrow> mw_wait_cnt w \<noteq> None"
      using mworker_ok_simps(2) [OF ok] by (auto simp: reads_uninit_def)
    have "mworker_ok (w\<lparr>mw_wait_current := clk,
        mw_wait_cnt := (if FLAG (mw_flags w) LPEL_MON_LOAD then Some (the (mw_wait_cnt w) + 1) else mw_wait_cnt w)\<rparr>)"
      using ok w(2) i by (auto simp: mworker_ok_def split: option.splits)
    with False show ?thesis
      by (auto simp: mresult_def WaitStart_ok [OF w(1) i] intro!: keeps_worker [OF assms(1)])
  qed
qed

lemma WaitStop_result:
  assumes "mon_inv L M" "menabled M (MWaitStop a clk clk2)"
  shows "mresult M (MWaitStop a clk clk2)"
proof -
  from assms(2) obtain w where w: "mworkers M a = Some w" "normalised clk" "normalised clk2"
    by auto
  note ok = mon_inv_wait [OF assms(1) w(1)]
  note n = mon_inv_begin [OF assms(1)] mworker_ok_simps(1) [OF ok] w(2,3)
  show ?thesis
  proof (cases "reads_uninit M a")
    case True
    with w have u: "FLAG (mw_flags w) LPEL_MON_LOAD" "mw_wait_time w = None"
      by (auto simp: reads_uninit_def)
    from Wait_uninit(2) [OF w(1) u n] True show ?thesis
      by (simp add: mresult_def)
  next
    case False
    with w have i: "FLAG (mw_flags w) LPEL_MON_LOAD \<Longrightarrow> mw_wait_time w \<noteq> None"
      by (auto simp: reads_uninit_def)
    obtain w' where w': "MonCbWorkerWaitStop M (Some a) clk clk2 = Inr (M\<lparr>mworkers := (mworkers M)(a \<mapsto> w')\<rparr>)"
      "mw_wid w' = mw_wid w" "mw_wait_cnt w' = mw_wait_cnt w" "normalised (mw_wait_current w')"
      "mw_wait_time w' = (if FLAG (mw_flags w) LPEL_MON_LOAD
        then Some (LpelTimingAdd (the (mw_wait_time w)) (LpelTimingDiff (mw_wait_current w) clk)) else mw_wait_time w)"
      using WaitStop_ok [OF w(1) n i] by blast
    have "mworker_ok w'"
      using ok i w' Add_range Diff_normalised [OF n(2,3)]
      by (auto simp: mworker_ok_def split: option.splits if_splits)
    with w'(1) False show ?thesis
      by (auto simp: mresult_def intro!: keeps_worker [OF assms(1)])
  qed
qed

lemma WorkerDestroy_result:
  assumes "mon_inv L M" "menabled M (MWorkerDestroy a clk)"
  shows "mresult M (MWorkerDestroy a clk)"
proof -
  from assms(2) obtain w where w: "mworkers M a = Some w" "normalised clk"
    by auto
  note d = WorkerDestroy_ok [OF w(1) mon_inv_begin [OF assms(1)] w(2)]
  note ok = mworker_ok_simps [OF mon_inv_wait [OF assms(1) w(1)]]
  have u: "muninit M (MWorkerDestroy a clk) \<longleftrightarrow> MonCbWorkerDestroy M (Some a) clk True = Inl Indeterminate"
    using w d(3) ok(2) by (auto simp: reads_uninit_def)
  have p: "munprintable M (MWorkerDestroy a clk) \<longleftrightarrow> MonCbWorkerDestroy M (Some a) clk True = Inl AssertFail"
    using w d(2) ok(2,4) by (auto simp: normalised_def nsec_range_def split: option.splits)
  show ?thesis
    using d(1) keeps_Inr [OF mon_inv_worker_del [OF assms(1)]] unfolding mresult_def u p by auto
qed

lemma WorkerCreate_keeps:
  assumes "mon_inv L M" "menabled M (MWorkerCreate a junk wid clk)"
  shows "keeps (mexec M (MWorkerCreate a junk wid clk))"
  using WorkerCreate_ok [of M a clk junk wid] mon_inv_begin [OF assms(1)] assms(2)
  by (auto simp: mworker_ok_def nsec_range_def TIMING_BILLION_def intro!: keeps_worker [OF assms(1)])

lemma task_keeps:
  assumes "mon_inv L M"
  shows "menabled M (MTaskDestroy t) \<Longrightarrow> keeps (mexec M (MTaskDestroy t))"
    and "menabled M (MTaskAssign t mw) \<Longrightarrow> keeps (mexec M (MTaskAssign t mw))"
    and "menabled M (MTaskStart t clk) \<Longrightarrow> keeps (mexec M (MTaskStart t clk))"
    and "menabled M (MTaskStop t st clk) \<Longrightarrow> keeps (mexec M (MTaskStop t st clk))"
proof -
  show "keeps (mexec M (MTaskDestroy t))" if "menabled M (MTaskDestroy t)"
    using that by (auto simp: MonCbTaskDestroy_def streams_closed_def intro!: keeps_Inr mon_inv_task_del [OF assms])
  show "keeps (mexec M (MTaskAssign t mw))" if "menabled M (MTaskAssign t mw)"
    using that mon_inv_mtask [OF assms]
    by (auto simp: MonCbTaskAssign_def mtask_ok_def intro!: keeps_task [OF assms])
  show "keeps (mexec M (MTaskStart t clk))" if "menabled M (MTaskStart t clk)"
    using that mon_inv_mtask [OF assms]
    by (auto simp: MonCbTaskStart_def mtask_ok_def LpelTimingNow_def intro!: keeps_task [OF assms])
  show "keeps (mexec M (MTaskStop t st clk))" if "menabled M (MTaskStop t st clk)"
  proof -
    from that obtain T where T: "mtasks M t = Some T" "normalised clk"
      "case mt_mw T of None \<Rightarrow> True | Some w \<Rightarrow> mworkers M w \<noteq> None"
      by (auto split: option.splits)
    show ?thesis
    proof (cases "mt_mw T")
      case None
      with T assms show ?thesis
        by (auto simp: MonCbTaskStop_def intro: keepsI keeps_Inr)
    next
      case (Some w)
      with T obtain W where W: "mworkers M w = Some W"
        by auto
      from TaskStop_ok [OF assms T(1) Some W T(2)] after_stop_inv [OF assms T(1) W T(2)] show ?thesis
        by (auto simp: keeps_def)
    qed
  qed
qed

lemma stream_keeps:
  assumes "mon_inv L M" "mopen M a"
  shows "keeps (mexec M (MStreamClose a))" "keeps (mexec M (MStreamReplace a sid))"
    "keeps (mexec M (MStreamReadFinish a))" "keeps (mexec M (MStreamWriteFinish a))"
    "keeps (mexec M (MStreamBlockon a))" "keeps (mexec M (MStreamWakeup a))"
    "keeps (mexec M (MStreamReadPrepare a))" "keeps (mexec M (MStreamWritePrepare a))"
proof -
  from assms(2) obtain s where s: "mstreams M a = Some s" "mst_state s \<noteq> ST_CLOSED"
    by (auto simp: mopen_def split: option.splits)
  then have wf: "stream_wf s"
    using assms(1) by (auto simp: mon_inv_def mstream_ok_def)
  note ch = change_mark_keeps [OF assms(1) s]
  show "keeps (mexec M (MStreamClose a))" "keeps (mexec M (MStreamReplace a sid))"
    "keeps (mexec M (MStreamReadFinish a))" "keeps (mexec M (MStreamWriteFinish a))"
    using wf by (auto simp: MonCbStreamClose_def MonCbStreamReplace_def MonCbStreamReadFinish_def
        MonCbStreamWriteFinish_def stream_wf_def intro!: ch)
  show "keeps (mexec M (MStreamBlockon a))"
    using Blockon_keeps [OF assms(1) s wf] by simp
  show "keeps (mexec M (MStreamWakeup a))"
    using mon_inv_wakeup [OF assms(1) s] s by (auto simp: MonCbStreamWakeup_def set_stream_def intro: keepsI keeps_Inr)
  show "keeps (mexec M (MStreamReadPrepare a))" "keeps (mexec M (MStreamWritePrepare a))"
    using assms by (auto simp: MonCbStreamReadPrepare_def MonCbStreamWritePrepare_def intro: keepsI keeps_Inr)
qed

lemma mon_start_ok: "normalised clk \<Longrightarrow> mon_inv (\<lambda>_. []) (fst (LpelMonInit mon_static cb flags clk))"
  by (simp add: mon_inv_def LpelMonInit_def mon_static_def LpelTimingNow_def)

lemma mresult_keeps: "keeps (mexec M e) \<Longrightarrow> \<not> muninit M e \<Longrightarrow> \<not> munprintable M e \<Longrightarrow> mresult M e"
  by (simp add: mresult_def)

lemma mexec_result:
  assumes "mon_inv L M" "menabled M e"
  shows "mresult M e"
proof (cases e)
  case (MWrapperCreate a junk t clk)
  with assms show ?thesis
    using WrapperCreate_keeps [OF assms(1)] by (auto simp: mresult_def)
next
  case (MStreamOpen a mt sid mode)
  with assms show ?thesis
    using Open_keeps [OF assms(1)] by (auto simp del: mexec.simps menabled.simps intro: mresult_keeps)
qed (use assms WorkerCreate_keeps [OF assms(1)] WaitStart_result [OF assms(1)] WaitStop_result [OF assms(1)]
    WorkerDestroy_result [OF assms(1)] task_keeps [OF assms(1)] TaskCreate_keeps [OF assms(1)]
    stream_keeps [OF assms(1)] in \<open>simp_all add: mresult_keeps\<close>)

lemma mreach_ok: "mreach M \<Longrightarrow> mon_ok M"
proof (induction rule: mreach.induct)
  case (start clk flags)
  then show ?case
    using mon_start_ok by (auto simp: mon_ok_def)
next
  case (step M e M')
  then obtain L where "mon_inv L M"
    by (auto simp: mon_ok_def)
  from mexec_result [OF this step.hyps(2)] step.hyps(3) show ?case
    by (auto simp: mresult_def keeps_def split: if_splits)
qed

subsection \<open>Properties\<close>

text \<open>
  C33: In every state the callbacks can reach, the contexts are well-formed: the times stored for a
  task and the current wait of a worker are normalised, the total waiting time of a worker has
  nanoseconds from 0 to a full billion (it need not be normalised) or is, for a wrapper context,
  uninitialised, the dirty list of each task is a finite chain of distinct streams of this task that
  ends in \<open>ST_DIRTY_END\<close>, and each open stream has a valid mode and state, a living task, and a
  non-\<open>NULL\<close> link exactly when it is on the dirty list of its task.
\<close>

theorem mon_wellformed:
  assumes "mreach M"
  shows "\<exists>L. (\<forall>t T. mtasks M t = Some T \<longrightarrow> normalised (mt_creat T) \<and> normalised (mt_start T) \<and> normalised (mt_stop T) \<and>
        dchain (dlink (mstreams M)) (mt_dirty_list T) (L t) \<and> distinct (L t) \<and>
        (\<forall>a \<in> set (L t). \<exists>s. mstreams M a = Some s \<and> mst_montask s = Some t)) \<and>
      (\<forall>a s. mstreams M a = Some s \<and> mst_state s \<noteq> ST_CLOSED \<longrightarrow>
        mst_mode s \<in> {CHR ''r'', CHR ''w''} \<and> mst_state s \<in> {ST_INUSE, ST_OPENED, ST_REPLACED} \<and>
        (\<exists>t. mst_montask s = Some t \<and> mtasks M t \<noteq> None \<and> (mst_dirty s \<noteq> DNull \<longleftrightarrow> a \<in> set (L t)))) \<and>
      (\<forall>a w. mworkers M a = Some w \<longrightarrow> normalised (mw_wait_current w) \<and>
        (case mw_wait_time w of None \<Rightarrow> mw_wid w = -1 | Some t \<Rightarrow> 0 \<le> tv_nsec t \<and> tv_nsec t \<le> TIMING_BILLION))"
proof -
  obtain L where L: "mon_inv L M"
    using mreach_ok [OF assms] by (auto simp: mon_ok_def)
  have str: "mst_mode s \<in> {CHR ''r'', CHR ''w''} \<and> mst_state s \<in> {ST_INUSE, ST_OPENED, ST_REPLACED} \<and>
      (\<exists>t. mst_montask s = Some t \<and> mtasks M t \<noteq> None \<and> (mst_dirty s \<noteq> DNull \<longleftrightarrow> a \<in> set (L t)))"
    if s: "mstreams M a = Some s" "mst_state s \<noteq> ST_CLOSED" for a s
  proof -
    obtain t T where t: "stream_wf s" "mst_montask s = Some t" "mtasks M t = Some T"
      "mst_dirty s = DNull \<or> a \<in> set (L t)"
      using L s by (fastforce simp: mon_inv_def mstream_ok_def)
    have "a \<in> set (L t) \<Longrightarrow> dlink (mstreams M) a \<noteq> DNull"
      using mon_inv_mtask [OF L t(3)] by (auto simp: mtask_ok_def dest: dchain_linked)
    with t s show ?thesis
      by (auto simp: dlink_def stream_wf_def)
  qed
  have tsk: "normalised (mt_creat T) \<and> normalised (mt_start T) \<and> normalised (mt_stop T) \<and>
      dchain (dlink (mstreams M)) (mt_dirty_list T) (L t) \<and> distinct (L t) \<and>
      (\<forall>a \<in> set (L t). \<exists>s. mstreams M a = Some s \<and> mst_montask s = Some t)" if "mtasks M t = Some T" for t T
    using mon_inv_mtask [OF L that] by (auto simp: mtask_ok_def dest: dchain_distinct)
  have wrk: "normalised (mw_wait_current w) \<and>
      (case mw_wait_time w of None \<Rightarrow> mw_wid w = -1 | Some t \<Rightarrow> 0 \<le> tv_nsec t \<and> tv_nsec t \<le> TIMING_BILLION)"
    if "mworkers M a = Some w" for a w
    using mon_inv_wait [OF L that] by (auto simp: mworker_ok_def nsec_range_def split: option.splits)
  show ?thesis
    using str tsk wrk by (intro exI [of _ L] conjI allI impI) (blast+)
qed

text \<open>
  C32: From the start of the module on, in whatever order the schedulers call the callbacks (on
  contexts that exist, with normalised clock readings, and not on a closed stream), no callback
  dereferences a bad pointer or loops forever, and every call succeeds with two exceptions, both with
  \<open>LPEL_MON_LOAD\<close> on. A wait or the destruction of a wrapper context reads the wait counter and the
  total waiting time, which \<open>MonCbWrapperCreate\<close> leaves uninitialised. Destroying a context fails the
  assertion of \<open>PrintTiming\<close> exactly when the seconds field of its total is not zero and the
  nanoseconds field is a full billion.
\<close>

theorem mon_callbacks_safe:
  assumes "mreach M" "menabled M e"
  shows "((\<exists>M'. mexec M e = Some (Inr M') \<and> mreach M') \<longleftrightarrow> \<not> muninit M e \<and> \<not> munprintable M e) \<and>
    (mexec M e = Some (Inl Indeterminate) \<longleftrightarrow> muninit M e) \<and>
    (mexec M e = Some (Inl AssertFail) \<longleftrightarrow> munprintable M e) \<and>
    mexec M e \<noteq> None \<and> (\<forall>err. mexec M e = Some (Inl err) \<longrightarrow> err \<in> {Indeterminate, AssertFail}) \<and>
    (\<forall>a w. mworkers M a = Some w \<and> mw_wait_time w = None \<longrightarrow> mw_wid w = -1)"
proof -
  obtain L where L: "mon_inv L M"
    using mreach_ok [OF assms(1)] by (auto simp: mon_ok_def)
  have excl: "\<not> (muninit M e \<and> munprintable M e)"
    by (cases e) (auto simp: reads_uninit_def split: option.splits)
  have "(\<exists>M'. mexec M e = Some (Inr M') \<and> mreach M') \<longleftrightarrow> keeps (mexec M e)"
    using assms mexec_result [OF L assms(2)] by (auto simp: mresult_def keeps_def intro: mreach.step split: if_splits)
  moreover have "\<forall>a w. mworkers M a = Some w \<and> mw_wait_time w = None \<longrightarrow> mw_wid w = -1"
    using mworker_ok_simps(3) [OF mon_inv_wait [OF L]] by blast
  ultimately show ?thesis
    using excl mexec_result [OF L assms(2)] by (auto simp: mresult_def keeps_def split: if_splits)
qed

text \<open>
  C34: When a monitored task stops, its log entry is the head with the state and the times, followed
  by one record for each stream on the dirty list and the end mark. The list has no stream twice,
  only streams of this task, and every open stream of the task that is not on it has nothing to
  report (no item moved, no blocking, not opened or replaced since the last entry). Afterwards the
  list is empty, the streams of the list are reset, the closed ones are freed, all others are
  untouched.
\<close>

theorem task_stop_log:
  assumes "mreach M" "mtasks M t = Some T" "mt_mw T = Some w" "mworkers M w = Some W" "normalised clk"
    and "FLAG (mt_flags T) LPEL_MON_STREAM"
  shows "\<exists>xs hdr M'. dchain (dlink (mstreams M)) (mt_dirty_list T) xs \<and> distinct xs \<and>
    (\<forall>a s. mstreams M a = Some s \<and> mst_montask s = Some t \<and> mst_state s \<noteq> ST_CLOSED \<and> a \<notin> set xs \<longrightarrow>
      mst_dirty s = DNull \<and> nothing_new s) \<and>
    (\<forall>a \<in> set xs. \<exists>s. mstreams M a = Some s \<and> mst_montask s = Some t) \<and>
    MonCbTaskStop M (Some t) st clk = Some (Inr M') \<and>
    task_stop_head (monitoring_begin M) (mon_stopped clk T) st (mw_outfile W) = Inr (fprintf (mw_outfile W) hdr) \<and>
    mworkers M' = (mworkers M)(w \<mapsto> W\<lparr>mw_outfile := fprintf (mw_outfile W)
      (hdr @ concat (map (\<lambda>a. stream_entry (the (mstreams M a))) xs) @ [END_LOG_ENTRY])\<rparr>) \<and>
    mtasks M' = (mtasks M)(t \<mapsto> (mon_stopped clk T)\<lparr>mt_dirty_list := ST_DIRTY_END\<rparr>) \<and>
    mstreams M' = (\<lambda>a. if a \<in> set xs then (case mstreams M a of None \<Rightarrow> None
      | Some s \<Rightarrow> if mst_state s = ST_CLOSED then None else Some (clean_stream s)) else mstreams M a)"
proof -
  obtain L where L: "mon_inv L M"
    using mreach_ok [OF assms(1)] by (auto simp: mon_ok_def)
  have T: "mtask_ok L (mstreams M) t T"
    using L assms(2) by (rule mon_inv_mtask)
  obtain hdr where hdr: "task_stop_head (monitoring_begin M) (mon_stopped clk T) st (mw_outfile W) = Inr (fprintf (mw_outfile W) hdr)"
    "MonCbTaskStop M (Some t) st clk = Some (Inr (after_stop M t T w W (L t) clk hdr))"
    using TaskStop_ok [OF L assms(2-5)] by blast
  have news: "\<forall>a s. mstreams M a = Some s \<and> mst_montask s = Some t \<and> mst_state s \<noteq> ST_CLOSED \<and> a \<notin> set (L t) \<longrightarrow>
      mst_dirty s = DNull \<and> nothing_new s"
    using L by (fastforce simp: mon_inv_def mstream_ok_def)
  show ?thesis
    using T hdr news assms(6)
    by (intro exI [of _ "L t"] exI [of _ hdr] exI [of _ "after_stop M t T w W (L t) clk hdr"])
      (auto simp: mtask_ok_def dchain_distinct after_stop_def entry_text_def reset_all_def Let_def)
qed


text \<open>
  A concrete run: a task on worker 2 opens the stream 7 for reading and 8 for writing, reads two
  items, closes stream 8 and blocks on stream 7.
\<close>

primrec mrun :: "mon_state \<Rightarrow> mevent list \<Rightarrow> mon_state run" where
  "mrun M [] = Some (Inr M)"
| "mrun M (e # es) = (if menabled M e then bindO (mexec M e) (\<lambda>M'. mrun M' es) else None)"

lemma mrun_reach: "mreach M \<Longrightarrow> mrun M es = Some (Inr M') \<Longrightarrow> mreach M'"
  by (induction es arbitrary: M) (auto simp: bindO_eq_Inr intro: mreach.step split: if_splits)

definition mon_ex_events :: "mevent list" where
  "mon_ex_events = [MTaskCreate 1 5 (Some ''filter'') \<lparr>tv_sec = 0, tv_nsec = 1\<rparr>,
     MWorkerCreate 2 load_junk 0 \<lparr>tv_sec = 0, tv_nsec = 2\<rparr>,
     MTaskAssign 1 (Some 2), MTaskStart 1 \<lparr>tv_sec = 0, tv_nsec = 3\<rparr>,
     MStreamOpen 3 (Some 1) 7 (CHR ''r''), MStreamOpen 4 (Some 1) 8 (CHR ''w''),
     MStreamReadPrepare 3, MStreamReadFinish 3, MStreamReadFinish 3,
     MStreamClose 4, MStreamBlockon 3]"

definition mon_ex :: mon_state where
  "mon_ex = (case mrun (fst (LpelMonInit mon_static no_callbacks 16 \<lparr>tv_sec = 0, tv_nsec = 0\<rparr>)) mon_ex_events of
     Some (Inr M) \<Rightarrow> M | _ \<Rightarrow> mon_static)"

lemma mon_ex_run: "mrun (fst (LpelMonInit mon_static no_callbacks 16 \<lparr>tv_sec = 0, tv_nsec = 0\<rparr>)) mon_ex_events = Some (Inr mon_ex)"
proof -
  have "case mrun (fst (LpelMonInit mon_static no_callbacks 16 \<lparr>tv_sec = 0, tv_nsec = 0\<rparr>)) mon_ex_events of
      Some (Inr M) \<Rightarrow> True | _ \<Rightarrow> False"
    by code_simp
  then show ?thesis
    unfolding mon_ex_def by (simp split: option.splits sum.splits)
qed

lemma mon_ex_reach: "mreach mon_ex"
  by (rule mrun_reach [OF mreach.start mon_ex_run]) (simp add: normalised_def TIMING_BILLION_def)

lemma mon_ex_stop: "case MonCbTaskStop mon_ex (Some 1) TASK_BLOCKED \<lparr>tv_sec = 0, tv_nsec = 9\<rparr> of
    Some (Inr M') \<Rightarrow> f_text (mw_outfile (the (mworkers M' 2))) = LOG_FORMAT_VERSION @ ''#I5 8wC0---7rO2?-*#'' \<and>
      mstreams M' 4 = None \<and> mtasks M' 1 \<noteq> None
  | _ \<Rightarrow> False"
  by code_simp

lemma mon_ex_state: "mtasks mon_ex 1 \<noteq> None" "mt_mw (the (mtasks mon_ex 1)) = Some 2"
  "mworkers mon_ex 2 \<noteq> None" "FLAG (mt_flags (the (mtasks mon_ex 1))) LPEL_MON_STREAM"
  "mt_dirty_list (the (mtasks mon_ex 1)) = DStream 4" "dlink (mstreams mon_ex) 4 = DStream 3"
  "dlink (mstreams mon_ex) 3 = ST_DIRTY_END"
  by (code_simp, code_simp, code_simp, code_simp, code_simp, code_simp, code_simp)

theorem mon_wellformed_witness:
  "\<exists>xs. dchain (dlink (mstreams mon_ex)) (mt_dirty_list (the (mtasks mon_ex 1))) xs \<and> distinct xs \<and> xs = [4, 3]"
proof -
  obtain T where T: "mtasks mon_ex 1 = Some T"
    using mon_ex_state by auto
  then obtain xs where xs: "dchain (dlink (mstreams mon_ex)) (mt_dirty_list T) xs" "distinct xs"
    using mon_wellformed [OF mon_ex_reach] by blast
  have "dchain (dlink (mstreams mon_ex)) (mt_dirty_list T) [4, 3]"
    using mon_ex_state T by simp
  with xs T show ?thesis
    by (auto dest: dchain_unique)
qed

text \<open>A wrapper context with \<open>LPEL_MON_LOAD\<close>.\<close>

definition mon_wrap_events :: "mevent list" where
  "mon_wrap_events = [MTaskCreate 1 5 (Some ''filter'') \<lparr>tv_sec = 0, tv_nsec = 1\<rparr>,
     MWrapperCreate 2 load_junk 1 \<lparr>tv_sec = 0, tv_nsec = 2\<rparr>]"

definition mon_wrap :: mon_state where
  "mon_wrap = (case mrun load_start mon_wrap_events of Some (Inr M) \<Rightarrow> M | _ \<Rightarrow> mon_static)"

lemma mon_wrap_reach: "mreach mon_wrap"
proof -
  have "case mrun load_start mon_wrap_events of Some (Inr M) \<Rightarrow> True | _ \<Rightarrow> False"
    by code_simp
  then have "mrun load_start mon_wrap_events = Some (Inr mon_wrap)"
    unfolding mon_wrap_def by (simp split: option.splits sum.splits)
  then show ?thesis
    unfolding load_start_def
    by (intro mrun_reach [OF mreach.start]) (simp_all add: normalised_def TIMING_BILLION_def)
qed

theorem mon_callbacks_safe_witness:
  "(\<exists>M'. mexec mon_ex (MTaskStop 1 TASK_BLOCKED \<lparr>tv_sec = 0, tv_nsec = 9\<rparr>) = Some (Inr M') \<and> mreach M') \<and>
   mexec mon_wrap (MWaitStart 2 \<lparr>tv_sec = 0, tv_nsec = 3\<rparr>) = Some (Inl Indeterminate)"
proof -
  have "menabled mon_ex (MTaskStop 1 TASK_BLOCKED \<lparr>tv_sec = 0, tv_nsec = 9\<rparr>)"
    by code_simp
  from mon_callbacks_safe [OF mon_ex_reach this]
  have 1: "\<exists>M'. mexec mon_ex (MTaskStop 1 TASK_BLOCKED \<lparr>tv_sec = 0, tv_nsec = 9\<rparr>) = Some (Inr M') \<and> mreach M'"
    by simp
  have "menabled mon_wrap (MWaitStart 2 \<lparr>tv_sec = 0, tv_nsec = 3\<rparr>)"
    "muninit mon_wrap (MWaitStart 2 \<lparr>tv_sec = 0, tv_nsec = 3\<rparr>)"
    by (code_simp, code_simp)
  with mon_callbacks_safe [OF mon_wrap_reach, of "MWaitStart 2 \<lparr>tv_sec = 0, tv_nsec = 3\<rparr>"] 1 show ?thesis
    by blast
qed

theorem task_stop_log_witness:
  "\<exists>M'. MonCbTaskStop mon_ex (Some 1) TASK_BLOCKED \<lparr>tv_sec = 0, tv_nsec = 9\<rparr> = Some (Inr M') \<and>
     mt_dirty_list (the (mtasks M' 1)) = ST_DIRTY_END \<and> mstreams M' 4 = None \<and>
     f_text (mw_outfile (the (mworkers M' 2))) = LOG_FORMAT_VERSION @ ''#I5 8wC0---7rO2?-*#''"
proof -
  obtain T W where T: "mtasks mon_ex 1 = Some T" "mt_mw T = Some 2" "mworkers mon_ex 2 = Some W"
    "FLAG (mt_flags T) LPEL_MON_STREAM"
    using mon_ex_state by auto
  have "normalised \<lparr>tv_sec = 0, tv_nsec = 9\<rparr>"
    by (simp add: normalised_def TIMING_BILLION_def)
  from task_stop_log [OF mon_ex_reach T(1-3) this T(4), of TASK_BLOCKED] mon_ex_stop show ?thesis
    by auto
qed

end
