(* ===== verification/Hwloc.thy ===== *)
theory Hwloc
  imports Lpel_Types
begin

text \<open>
  Configuration and placement of threads: \<open>src/lpel_main.c\<close>, \<open>src/lpelcfg.c\<close>, \<open>src/lpel_hwloc.c\<close> and
  the types of \<open>include/lpel_common.h\<close>. The file has three build variants, all modelled: with the
  \<open>hwloc\<close> library (the topology is a tree of objects, walked by \<open>traverse\<close>), with
  \<open>pthread_setaffinity_np\<close>, and without both. The answers of the operating system and of \<open>hwloc\<close>
  (number of processors, environment, success of a binding) are arguments. Calls that change the
  static variables of \<open>lpel_hwloc.c\<close> take and return them as a record.
\<close>

unbundle bit_operations_syntax

subsection \<open>Configuration\<close>

definition LPEL_ERR_SUCCESS :: int where "LPEL_ERR_SUCCESS = 0"
definition LPEL_ERR_FAIL :: int where "LPEL_ERR_FAIL = -1"
definition LPEL_ERR_INVAL :: int where "LPEL_ERR_INVAL = 1"
definition LPEL_ERR_ASSIGN :: int where "LPEL_ERR_ASSIGN = 2"
definition LPEL_ERR_EXCL :: int where "LPEL_ERR_EXCL = 3"

definition LPEL_FLAG_NONE :: "32 word" where "LPEL_FLAG_NONE = 0"
definition LPEL_FLAG_PINNED :: "32 word" where "LPEL_FLAG_PINNED = 1"
definition LPEL_FLAG_EXCLUSIVE :: "32 word" where "LPEL_FLAG_EXCLUSIVE = 2"

datatype lpel_backend_type = DECEN_LPEL | HRC_LPEL

text \<open>The table of monitoring callbacks is left out, it plays no role here.\<close>

record lpel_config_t =
  num_workers :: int
  cfg_proc_workers :: int
  cfg_proc_others :: int
  cfg_flags :: "32 word"
  cfg_type :: lpel_backend_type

text \<open>\<open>LPEL_ICFG\<close> tests the flags of the stored copy of the configuration.\<close>

definition LPEL_ICFG :: "lpel_config_t \<Rightarrow> 32 word \<Rightarrow> bool" where
  "LPEL_ICFG glob f \<longleftrightarrow> cfg_flags glob AND f = f"

text \<open>
  The number of cores: \<open>sysconf\<close> is the answer of the system (\<open>None\<close> in a build without it), \<open>env\<close>
  the variable \<open>LPEL_NUM_WORKERS\<close>, \<open>strtoul\<close> the conversion of the C library with the value of
  \<open>errno = EINVAL\<close> after it. The result is the return code and the value stored, if any.
\<close>

text \<open>A value of type \<open>int\<close>: a sum that overflows is taken to wrap around, as the compilers do.\<close>

definition to_int :: "int \<Rightarrow> int" where
  "to_int n = (n + 2 ^ 31) mod 2 ^ 32 - 2 ^ 31"

definition LpelGetNumCores :: "int option \<Rightarrow> string option \<Rightarrow> (string \<Rightarrow> int \<times> bool) \<Rightarrow> int \<times> int option" where
  "LpelGetNumCores sysconf env strtoul =
    (let proc_avail = (case sysconf of None \<Rightarrow> -1 | Some n \<Rightarrow> n);
         proc_avail = (if proc_avail = -1
           then (case env of None \<Rightarrow> proc_avail
             | Some p \<Rightarrow> (case strtoul p of (n, einval) \<Rightarrow> if \<not> einval then to_int n else proc_avail))
           else proc_avail)
     in if proc_avail = -1 then (LPEL_ERR_FAIL, None) else (0, Some proc_avail))"

subsection \<open>State of the placement module\<close>

record lpel_hw_place_t =
  hp_socket :: int
  hp_core :: int
  hp_pu :: int

text \<open>The objects of a \<open>hwloc\<close> topology: type, CPU set and children.\<close>

datatype hwloc_type = HWLOC_OBJ_SOCKET | HWLOC_OBJ_CORE | HWLOC_OBJ_PU | HWLOC_OBJ_OTHER

datatype 'c hwloc_obj = HwObj (obj_type: hwloc_type) (obj_cpuset: 'c) (obj_children: "'c hwloc_obj list")

text \<open>The static variables of the file, and the four of \<open>traverse\<close>. An array cell that has not been
  written is \<open>None\<close>.\<close>

record 'c hw_state =
  pu_count :: int
  cpu_sets :: "'c option list"
  hw_places :: "lpel_hw_place_t option list"
  tr_index :: nat
  tr_socket :: int
  tr_core :: int
  tr_pu :: int
  cpuset_workers :: "int set"
  cpuset_others :: "int set"
  offset_others :: int
  rot_others :: int
  proc_others :: int
  proc_workers :: int

definition hw_static :: "'c hw_state" where
  "hw_static = \<lparr>pu_count = 0, cpu_sets = [], hw_places = [], tr_index = 0, tr_socket = -1, tr_core = -1,
     tr_pu = -1, cpuset_workers = {}, cpuset_others = {}, offset_others = 0, rot_others = 0,
     proc_others = 0, proc_workers = 0\<rparr>"

subsection \<open>Topology (with hwloc)\<close>

definition visit :: "hwloc_type \<Rightarrow> 'c \<Rightarrow> 'c hw_state \<Rightarrow> 'c hw_state res" where
  "visit ty cs H =
    bindR (assertR (int (tr_index H) < pu_count H)) (\<lambda>_.
    case ty of
      HWLOC_OBJ_SOCKET \<Rightarrow> Inr (H\<lparr>tr_socket := tr_socket H + 1, tr_core := -1, tr_pu := -1\<rparr>)
    | HWLOC_OBJ_CORE \<Rightarrow> Inr (H\<lparr>tr_core := tr_core H + 1, tr_pu := -1\<rparr>)
    | HWLOC_OBJ_PU \<Rightarrow>
        (let H = H\<lparr>tr_pu := tr_pu H + 1\<rparr> in
         bindR (aset (hw_places H) (tr_index H)
           (Some \<lparr>hp_socket = tr_socket H, hp_core = tr_core H, hp_pu = tr_pu H\<rparr>)) (\<lambda>ps.
         bindR (aset (cpu_sets H) (tr_index H) (Some cs)) (\<lambda>ss.
           Inr (H\<lparr>hw_places := ps, cpu_sets := ss, tr_index := tr_index H + 1\<rparr>))))
    | HWLOC_OBJ_OTHER \<Rightarrow> Inr H)"

fun traverse :: "'c hwloc_obj \<Rightarrow> 'c hw_state \<Rightarrow> 'c hw_state res"
  and traverse_children :: "'c hwloc_obj list \<Rightarrow> 'c hw_state \<Rightarrow> 'c hw_state res" where
  "traverse (HwObj ty cs obs) H = bindR (visit ty cs H) (\<lambda>H. traverse_children obs H)"
| "traverse_children [] H = Inr H"
| "traverse_children (ob # obs) H = bindR (traverse ob H) (\<lambda>H. traverse_children obs H)"

text \<open>The loop of \<open>LpelHwLocToWorker\<close> from index \<open>i\<close> on; reading an unwritten cell is an error.\<close>

fun find_place :: "lpel_hw_place_t option list \<Rightarrow> lpel_hw_place_t \<Rightarrow> int \<Rightarrow> int res" where
  "find_place [] place i = Inr (-1)"
| "find_place (c # ps) place i = (case c of None \<Rightarrow> Inl Indeterminate
     | Some p \<Rightarrow> if hp_socket p = hp_socket place \<and> hp_core p = hp_core place \<and> hp_pu p = hp_pu place
         then Inr i else find_place ps place (i + 1))"

definition LpelHwLocToWorker :: "'c hw_state \<Rightarrow> lpel_hw_place_t \<Rightarrow> int res" where
  "LpelHwLocToWorker H place = find_place (hw_places H) place 0"

definition LpelWorkerToHwLoc :: "'c hw_state \<Rightarrow> int \<Rightarrow> lpel_hw_place_t res" where
  "LpelWorkerToHwLoc H wid = (if wid < 0 then Inl OutOfBounds
     else bindR (aget (hw_places H) (nat wid)) (\<lambda>c. case c of None \<Rightarrow> Inl Indeterminate | Some p \<Rightarrow> Inr p))"

definition LpelHwLocInit_hwloc :: "int \<Rightarrow> 'c hwloc_obj \<Rightarrow> 'c hw_state \<Rightarrow> 'c hw_state res" where
  "LpelHwLocInit_hwloc nbobjs root H =
    (let H = H\<lparr>pu_count := nbobjs, cpu_sets := replicate (nat nbobjs) None, hw_places := replicate (nat nbobjs) None\<rparr>
     in traverse root H)"

definition LpelHwLocInit_sysconf :: "int \<Rightarrow> 'c hw_state \<Rightarrow> 'c hw_state" where
  "LpelHwLocInit_sysconf sysconf H = H\<lparr>pu_count := sysconf\<rparr>"

text \<open>Without \<open>hwloc\<close> and \<open>sysconf\<close>: the result of \<open>LpelGetNumCores\<close> is overwritten by its return code.\<close>

definition LpelHwLocInit_plain :: "string option \<Rightarrow> (string \<Rightarrow> int \<times> bool) \<Rightarrow> 'c hw_state \<Rightarrow> 'c hw_state" where
  "LpelHwLocInit_plain env strtoul H =
    (case LpelGetNumCores None env strtoul of (res, v) \<Rightarrow>
      let H = (case v of None \<Rightarrow> H | Some n \<Rightarrow> H\<lparr>pu_count := n\<rparr>)
      in if res = 0 then H\<lparr>pu_count := res\<rparr> else H)"

definition LpelHwLocCleanup :: "'c hw_state \<Rightarrow> 'c hw_state" where
  "LpelHwLocCleanup H = H\<lparr>cpu_sets := [], hw_places := []\<rparr>"

subsection \<open>Checking the configuration\<close>

text \<open>
  \<open>LpelCanSetExclusive\<close>: \<open>caps\<close> is \<open>None\<close> in a build without capabilities, \<open>Some None\<close> when they cannot
  be read and otherwise the value of \<open>CAP_SYS_NICE\<close>.
\<close>

definition LpelCanSetExclusive :: "bool option option \<Rightarrow> int \<times> bool option" where
  "LpelCanSetExclusive caps = (case caps of None \<Rightarrow> (LPEL_ERR_EXCL, None)
     | Some c \<Rightarrow> (case c of None \<Rightarrow> (LPEL_ERR_FAIL, None) | Some b \<Rightarrow> (0, Some b)))"

text \<open>The answer of \<open>LpelCanSetExclusive\<close> has no effect: the return that used it is commented out.\<close>

definition LpelHwLocCheckConfig :: "'c hw_state \<Rightarrow> lpel_config_t \<Rightarrow> lpel_config_t \<Rightarrow> int" where
  "LpelHwLocCheckConfig H glob cfg =
    (if cfg_type cfg = DECEN_LPEL \<and> (num_workers cfg \<le> 0 \<or> cfg_proc_workers cfg \<le> 0) then LPEL_ERR_INVAL
     else if cfg_type cfg \<noteq> DECEN_LPEL \<and> cfg_type cfg = HRC_LPEL \<and>
         (num_workers cfg \<le> 1 \<or> cfg_proc_workers cfg \<le> 0) then LPEL_ERR_INVAL
     else if cfg_proc_others cfg < 0 then LPEL_ERR_INVAL
     else if pu_count H \<noteq> LPEL_ERR_FAIL \<and> to_int (cfg_proc_workers cfg + cfg_proc_others cfg) > pu_count H
       then LPEL_ERR_INVAL
     else if pu_count H \<noteq> LPEL_ERR_FAIL \<and> LPEL_ICFG glob LPEL_FLAG_EXCLUSIVE \<and>
         (cfg_proc_others cfg = 0 \<or> num_workers cfg > cfg_proc_workers cfg) then LPEL_ERR_INVAL
     else if LPEL_ICFG glob LPEL_FLAG_EXCLUSIVE \<and> \<not> LPEL_ICFG glob LPEL_FLAG_PINNED then LPEL_ERR_INVAL
     else 0)"

subsection \<open>Binding threads (with pthread affinity)\<close>

text \<open>\<open>CPU_SET\<close> ignores a number that does not fit into the fixed-size set.\<close>

definition CPU_SETSIZE :: int where "CPU_SETSIZE = 1024"

definition CPU_SET :: "int \<Rightarrow> int set \<Rightarrow> int set" where
  "CPU_SET i s = (if 0 \<le> i \<and> i < CPU_SETSIZE then insert i s else s)"

definition LpelHwLocStart :: "'c hw_state \<Rightarrow> lpel_config_t \<Rightarrow> 'c hw_state" where
  "LpelHwLocStart H cfg =
    (let H = H\<lparr>proc_workers := cfg_proc_workers cfg\<rparr>;
         H = H\<lparr>cpuset_workers := fold CPU_SET [0..proc_workers H - 1] {}\<rparr> in
     if cfg_proc_others cfg = 0
     then H\<lparr>offset_others := 0, proc_others := proc_workers H,
       cpuset_others := fold CPU_SET [0..proc_workers H - 1] {}\<rparr>
     else H\<lparr>offset_others := cfg_proc_workers cfg, proc_others := cfg_proc_others cfg,
       cpuset_others := fold CPU_SET [cfg_proc_workers cfg..to_int (cfg_proc_workers cfg + cfg_proc_others cfg) - 1] {}\<rparr>)"

text \<open>
  \<open>LpelThreadAssign\<close>: \<open>setaff\<close> and \<open>setsched\<close> are the results of the system calls. The result holds the
  new state, the return code and the CPU set that was asked for. The remainder \<open>%\<close> of C has the sign
  of the dividend; both dividends are non-negative where it is used.
\<close>

definition LpelThreadAssign :: "'c hw_state \<Rightarrow> lpel_config_t \<Rightarrow> int \<Rightarrow> int \<Rightarrow> int \<Rightarrow>
    ('c hw_state \<times> int \<times> int set) res" where
  "LpelThreadAssign H glob core setaff setsched =
    bindR (if LPEL_ICFG glob LPEL_FLAG_PINNED
       then if core = LPEL_MAP_OTHERS
         then if proc_others H = 0 then Inl Indeterminate
           else Inr (H\<lparr>rot_others := (rot_others H + 1) mod proc_others H\<rparr>,
             CPU_SET (to_int (rot_others H + offset_others H)) {})
         else bindR (assertR (0 \<le> core \<and> core < num_workers glob)) (\<lambda>_.
           if proc_workers H = 0 then Inl Indeterminate else Inr (H, CPU_SET (core mod proc_workers H) {}))
       else if core = LPEL_MAP_OTHERS then Inr (H, cpuset_others H)
         else Inr (H, cpuset_workers H)) (\<lambda>(H, cpuset).
    if setaff \<noteq> 0 then Inr (H, LPEL_ERR_ASSIGN, cpuset)
    else if LPEL_ICFG glob LPEL_FLAG_EXCLUSIVE \<and> core \<noteq> LPEL_MAP_OTHERS \<and> setsched \<noteq> 0
      then Inr (H, LPEL_ERR_EXCL, cpuset)
    else Inr (H, 0, cpuset))"

text \<open>With \<open>hwloc\<close> the thread is bound to the set of the given processing unit.\<close>

definition LpelThreadAssign_hwloc :: "'c hw_state \<Rightarrow> int \<Rightarrow> ('c \<Rightarrow> int) \<Rightarrow> int res" where
  "LpelThreadAssign_hwloc H core set_cpubind =
    (if core < 0 then Inr 0
     else bindR (aget (cpu_sets H) (nat core)) (\<lambda>c. case c of None \<Rightarrow> Inl Indeterminate
       | Some cs \<Rightarrow> Inr (if set_cpubind cs = -1 then LPEL_ERR_ASSIGN else 0)))"

subsection \<open>Start and stop of the library\<close>

text \<open>
  The workers belong to the scheduler that is linked in: \<open>workers_init\<close> and \<open>workers_spawn\<close> are its
  \<open>LpelWorkersInit\<close> and \<open>LpelWorkersSpawn\<close>. \<open>LpelInit\<close> stores the configuration and initialises the
  placement module with one of the three variants above.
\<close>

definition LpelInit :: "('c hw_state \<Rightarrow> 'c hw_state res) \<Rightarrow> 'c hw_state \<Rightarrow> lpel_config_t \<Rightarrow>
    (lpel_config_t \<times> 'c hw_state) res" where
  "LpelInit hwloc_init H cfg = bindR (hwloc_init H) (\<lambda>H. Inr (cfg, H))"

definition LpelStart :: "(int \<Rightarrow> 'w \<Rightarrow> 'w res) \<Rightarrow> ('w \<Rightarrow> 'w res) \<Rightarrow> lpel_config_t \<Rightarrow> 'c hw_state \<Rightarrow> 'w \<Rightarrow>
    lpel_config_t \<Rightarrow> (int \<times> 'c hw_state \<times> 'w) res" where
  "LpelStart workers_init workers_spawn glob H W cfg =
    (let res = LpelHwLocCheckConfig H glob cfg in
     if res \<noteq> 0 then Inr (res, H, W)
     else let H = LpelHwLocStart H cfg in
       bindR (workers_init (num_workers glob) W) (\<lambda>W.
       bindR (workers_spawn W) (\<lambda>W. Inr (0, H, W))))"

definition LpelStop :: "('w \<Rightarrow> 'w res) \<Rightarrow> 'w \<Rightarrow> 'w res" where
  "LpelStop workers_terminate W = workers_terminate W"

definition LpelCleanup :: "('w \<Rightarrow> 'w res) \<Rightarrow> 'c hw_state \<Rightarrow> 'w \<Rightarrow> ('c hw_state \<times> 'w) res" where
  "LpelCleanup workers_cleanup H W = bindR (workers_cleanup W) (\<lambda>W. Inr (LpelHwLocCleanup H, W))"

end
