(* ===== verification/Hwloc_Props.thy ===== *)
theory Hwloc_Props
  imports Hwloc "HOL-Library.Product_Lexorder"
begin

text \<open>
  The placement module: walking a topology numbers its processing units with distinct places, an
  accepted configuration binds every thread to existing processors, and the fallback build rejects
  every configuration.
\<close>

subsection \<open>The walk as a loop over the objects\<close>

fun preorder :: "'c hwloc_obj \<Rightarrow> (hwloc_type \<times> 'c) list" where
  "preorder (HwObj ty cs obs) = (ty, cs) # concat (map preorder obs)"

primrec visits :: "(hwloc_type \<times> 'c) list \<Rightarrow> 'c hw_state \<Rightarrow> 'c hw_state res" where
  "visits [] H = Inr H"
| "visits (x # xs) H = bindR (visit (fst x) (snd x) H) (\<lambda>H. visits xs H)"

lemma visits_append: "visits (xs @ ys) H = bindR (visits xs H) (\<lambda>H. visits ys H)"
  by (induction xs arbitrary: H) (simp_all add: bindR_assoc)

lemma traverse_visits:
  "traverse ob H = visits (preorder ob) H"
  "traverse_children obs H = visits (concat (map preorder obs)) H"
  by (induction ob H and obs H rule: traverse_traverse_children.induct)
    (auto simp: visits_append bindR_def split: sum.splits)

abbreviation is_pu :: "hwloc_type \<times> 'c \<Rightarrow> bool" where
  "is_pu x \<equiv> fst x = HWLOC_OBJ_PU"

definition pus :: "(hwloc_type \<times> 'c) list \<Rightarrow> (hwloc_type \<times> 'c) list" where
  "pus xs = filter is_pu xs"

lemma pus_simps [simp]: "pus [] = []" "pus (x # xs) = (if is_pu x then x # pus xs else pus xs)"
  "pus (xs @ ys) = pus xs @ pus ys"
  by (simp_all add: pus_def)

subsection \<open>Places are numbered in increasing order\<close>

definition place_key :: "lpel_hw_place_t \<Rightarrow> int \<times> int \<times> int" where
  "place_key p = (hp_socket p, hp_core p, hp_pu p)"

lemma place_key_inj: "place_key p = place_key q \<longleftrightarrow> p = q"
  by (cases p; cases q) (simp add: place_key_def)

definition cur_key :: "'c hw_state \<Rightarrow> int \<times> int \<times> int" where
  "cur_key H = (tr_socket H, tr_core H, tr_pu H)"

definition walk_inv :: "nat \<Rightarrow> (hwloc_type \<times> 'c) list \<Rightarrow> lpel_hw_place_t list \<Rightarrow> 'c hw_state \<Rightarrow> bool" where
  "walk_inv n xs ps H \<longleftrightarrow> pu_count H = int n \<and> tr_index H = length (pus xs) \<and> length ps = tr_index H \<and>
     tr_index H \<le> n \<and>
     hw_places H = map Some ps @ replicate (n - tr_index H) None \<and>
     cpu_sets H = map (\<lambda>x. Some (snd x)) (pus xs) @ replicate (n - tr_index H) None \<and>
     sorted_wrt (<) (map place_key ps) \<and> (\<forall>p \<in> set ps. place_key p \<le> cur_key H)"

lemma snoc_replicate: "i < n \<Longrightarrow> length xs = i \<Longrightarrow>
    (xs @ replicate (n - i) a)[i := b] = xs @ [b] @ replicate (n - Suc i) a"
  by (simp add: list_update_append Suc_diff_Suc [symmetric])

lemma visit_step:
  assumes "walk_inv n xs ps H" "tr_index H < n"
  shows "\<exists>H' ps'. visit ty cs H = Inr H' \<and> walk_inv n (xs @ [(ty, cs)]) ps' H'"
proof -
  have old: "p \<in> set ps \<Longrightarrow> place_key p \<le> cur_key H" for p
    using assms by (auto simp: walk_inv_def)
  show ?thesis
  proof (cases ty)
    case HWLOC_OBJ_SOCKET
    have "cur_key H < cur_key (H\<lparr>tr_socket := tr_socket H + 1, tr_core := -1, tr_pu := -1\<rparr>)"
      by (simp add: cur_key_def)
    with HWLOC_OBJ_SOCKET assms show ?thesis
      by (intro exI [of _ "H\<lparr>tr_socket := tr_socket H + 1, tr_core := -1, tr_pu := -1\<rparr>"] exI [of _ ps])
        (auto simp: visit_def walk_inv_def dest: old)
  next
    case HWLOC_OBJ_CORE
    have "cur_key H < cur_key (H\<lparr>tr_core := tr_core H + 1, tr_pu := -1\<rparr>)"
      by (simp add: cur_key_def)
    with HWLOC_OBJ_CORE assms show ?thesis
      by (intro exI [of _ "H\<lparr>tr_core := tr_core H + 1, tr_pu := -1\<rparr>"] exI [of _ ps])
        (auto simp: visit_def walk_inv_def dest: old)
  next
    case HWLOC_OBJ_PU
    let ?p = "\<lparr>hp_socket = tr_socket H, hp_core = tr_core H, hp_pu = tr_pu H + 1\<rparr>"
    let ?H = "H\<lparr>tr_pu := tr_pu H + 1, hw_places := (hw_places H)[tr_index H := Some ?p],
      cpu_sets := (cpu_sets H)[tr_index H := Some cs], tr_index := tr_index H + 1\<rparr>"
    have k: "place_key ?p = cur_key ?H" "cur_key H < cur_key ?H"
      by (simp_all add: cur_key_def place_key_def)
    have v: "visit ty cs H = Inr ?H"
      using HWLOC_OBJ_PU assms by (simp add: visit_def walk_inv_def)
    have "walk_inv n (xs @ [(ty, cs)]) (ps @ [?p]) ?H"
      using assms HWLOC_OBJ_PU k old
      by (auto simp: walk_inv_def snoc_replicate sorted_wrt_append dest!: old)
    with v show ?thesis
      by blast
  next
    case HWLOC_OBJ_OTHER
    with assms show ?thesis
      by (intro exI [of _ H] exI [of _ ps]) (auto simp: visit_def walk_inv_def)
  qed
qed

lemma visits_total:
  assumes "walk_inv n xs ps H" "length (pus (xs @ ys)) = n"
  shows "ys = [] \<or> is_pu (last ys) \<Longrightarrow> \<exists>H' ps'. visits ys H = Inr H' \<and> walk_inv n (xs @ ys) ps' H'"
    and "ys \<noteq> [] \<and> \<not> is_pu (last ys) \<Longrightarrow> visits ys H = Inl AssertFail"
  using assms
proof (induction ys arbitrary: xs ps H)
  case Nil
  {
    case 1
    then show ?case
      by auto
  next
    case 2
    then show ?case
      by simp
  }
next
  case (Cons y ys)
  {
    case 1
    have "tr_index H < n"
    proof -
      have "pus (y # ys) \<noteq> []"
        using 1(1) by (cases ys rule: rev_cases) auto
      with 1 show ?thesis
        by (auto simp: walk_inv_def)
    qed
    then obtain H1 ps1 where s: "visit (fst y) (snd y) H = Inr H1" "walk_inv n (xs @ [y]) ps1 H1"
      using visit_step [OF 1(2), of "fst y" "snd y"] by auto
    have "ys = [] \<or> is_pu (last ys)"
      using 1(1) by (auto split: if_splits)
    with Cons.IH(1) [of "xs @ [y]" ps1 H1] s 1(3) show ?case
      by auto
  next
    case 2
    show ?case
    proof (cases "tr_index H < n")
      case True
      then obtain H1 ps1 where s: "visit (fst y) (snd y) H = Inr H1" "walk_inv n (xs @ [y]) ps1 H1"
        using visit_step [OF 2(2), of "fst y" "snd y"] by auto
      have "ys \<noteq> []"
      proof
        assume "ys = []"
        with 2 True show False
          by (auto simp: walk_inv_def split: if_splits)
      qed
      with Cons.IH(2) [of "xs @ [y]" ps1 H1] s 2 show ?thesis
        by auto
    next
      case False
      with 2(2) show ?thesis
        by (simp add: visit_def walk_inv_def)
    qed
  }
qed

lemma find_place_found:
  assumes "distinct (map place_key ps)" "i < length ps"
  shows "find_place (map Some ps) (ps ! i) k = Inr (k + int i)"
  using assms
proof (induction ps arbitrary: i k)
  case (Cons p ps)
  show ?case
  proof (cases i)
    case (Suc j)
    with Cons.prems have "place_key (ps ! j) \<in> set (map place_key ps)"
      by simp
    then have "place_key p \<noteq> place_key (ps ! j)"
      using Cons.prems(1) by auto
    with Suc Cons show ?thesis
      by (auto simp: place_key_def)
  qed simp
qed simp

lemma find_place_missing:
  "place_key q \<notin> place_key ` set ps \<Longrightarrow> find_place (map Some ps) q k = Inr (-1)"
  by (induction ps arbitrary: k) (auto simp: place_key_def)

lemma walk_start:
  "walk_inv n [] [] (hw_static\<lparr>pu_count := int n, cpu_sets := replicate n None, hw_places := replicate n None\<rparr>)"
  by (simp add: walk_inv_def hw_static_def)

lemma init_hwloc:
  assumes "length (pus (preorder root)) = n"
  shows "is_pu (last (preorder root)) \<Longrightarrow>
      \<exists>H ps. LpelHwLocInit_hwloc (int n) root hw_static = Inr H \<and> walk_inv n (preorder root) ps H"
    and "\<not> is_pu (last (preorder root)) \<Longrightarrow> LpelHwLocInit_hwloc (int n) root hw_static = Inl AssertFail"
proof -
  have ne: "preorder root \<noteq> []"
    by (cases root) simp
  note v = visits_total [OF walk_start, of "preorder root" n] assms
  show "\<exists>H ps. LpelHwLocInit_hwloc (int n) root hw_static = Inr H \<and> walk_inv n (preorder root) ps H"
    if "is_pu (last (preorder root))"
    using v that by (simp add: LpelHwLocInit_hwloc_def traverse_visits(1))
  show "LpelHwLocInit_hwloc (int n) root hw_static = Inl AssertFail" if "\<not> is_pu (last (preorder root))"
    using v that ne by (simp add: LpelHwLocInit_hwloc_def traverse_visits(1))
qed

lemma visit_full: "walk_inv n xs ps H \<Longrightarrow> length (pus xs) = n \<Longrightarrow> visit ty cs H = Inl AssertFail"
  by (simp add: visit_def walk_inv_def)

lemma hwloc_places_parts:
  assumes "length (pus (preorder root)) = n"
  shows "is_pu (last (preorder root)) \<Longrightarrow> \<exists>H. LpelHwLocInit_hwloc (int n) root hw_static = Inr H \<and>
      (\<forall>i < n. \<exists>p. LpelWorkerToHwLoc H (int i) = Inr p \<and> LpelHwLocToWorker H p = Inr (int i)) \<and>
      (\<forall>p. (\<forall>i < n. LpelWorkerToHwLoc H (int i) \<noteq> Inr p) \<longrightarrow> LpelHwLocToWorker H p = Inr (-1)) \<and>
      (\<forall>i < n. \<forall>f. LpelThreadAssign_hwloc H (int i) f =
        Inr (if f (snd (pus (preorder root) ! i)) = -1 then LPEL_ERR_ASSIGN else 0)) \<and>
      LpelHwLocInit_hwloc (int n) root (LpelHwLocCleanup H) = Inl AssertFail"
    and "\<not> is_pu (last (preorder root)) \<Longrightarrow> LpelHwLocInit_hwloc (int n) root hw_static = Inl AssertFail"
proof -
  show "LpelHwLocInit_hwloc (int n) root hw_static = Inl AssertFail" if "\<not> is_pu (last (preorder root))"
    using init_hwloc(2) [OF assms that] .
  assume "is_pu (last (preorder root))"
  then obtain H ps where H: "LpelHwLocInit_hwloc (int n) root hw_static = Inr H" "walk_inv n (preorder root) ps H"
    using init_hwloc(1) [OF assms] by blast
  have ps: "length ps = n" "hw_places H = map Some ps" "distinct (map place_key ps)"
    "cpu_sets H = map (\<lambda>x. Some (snd x)) (pus (preorder root))"
    using H(2) assms by (auto simp: walk_inv_def strict_sorted_iff)
  have to: "LpelWorkerToHwLoc H (int i) = Inr (ps ! i)" if "i < n" for i
    using that ps by (simp add: LpelWorkerToHwLoc_def)
  have missing: "LpelHwLocToWorker H p = Inr (-1)" if p: "\<forall>i < n. LpelWorkerToHwLoc H (int i) \<noteq> Inr p" for p
  proof -
    have "p \<notin> set ps"
      using p to ps(1) by (metis in_set_conv_nth)
    then have "place_key p \<notin> place_key ` set ps"
      by (auto simp: place_key_inj)
    then show ?thesis
      by (simp add: LpelHwLocToWorker_def ps(2) find_place_missing)
  qed
  have "LpelHwLocInit_hwloc (int n) root (LpelHwLocCleanup H) = Inl AssertFail"
    using H(2) assms by (cases root)
      (simp add: LpelHwLocInit_hwloc_def LpelHwLocCleanup_def visit_def walk_inv_def)
  with H(1) to missing ps show "\<exists>H. LpelHwLocInit_hwloc (int n) root hw_static = Inr H \<and>
      (\<forall>i < n. \<exists>p. LpelWorkerToHwLoc H (int i) = Inr p \<and> LpelHwLocToWorker H p = Inr (int i)) \<and>
      (\<forall>p. (\<forall>i < n. LpelWorkerToHwLoc H (int i) \<noteq> Inr p) \<longrightarrow> LpelHwLocToWorker H p = Inr (-1)) \<and>
      (\<forall>i < n. \<forall>f. LpelThreadAssign_hwloc H (int i) f =
        Inr (if f (snd (pus (preorder root) ! i)) = -1 then LPEL_ERR_ASSIGN else 0)) \<and>
      LpelHwLocInit_hwloc (int n) root (LpelHwLocCleanup H) = Inl AssertFail"
    using assms by (intro exI [of _ H])
      (auto simp: LpelHwLocToWorker_def find_place_found LpelThreadAssign_hwloc_def)
qed

text \<open>
  C36: With \<open>hwloc\<close>, for a topology of any shape whose number of processing units is the one reported:
  if the last object of the walk is a processing unit, the initialisation succeeds and numbers the
  units in the order of the walk; the place of a unit is found back as its number, any other place
  gives \<open>-1\<close>, and worker \<open>i\<close> is bound to the CPU set of the \<open>i\<close>-th unit. If an object follows the last
  unit, the initialisation fails on its assertion. So does a second initialisation: the static
  counters of \<open>traverse\<close> are never reset.
\<close>

theorem hwloc_places:
  assumes "length (pus (preorder root)) = n"
  shows "(is_pu (last (preorder root)) \<longrightarrow> (\<exists>H. LpelHwLocInit_hwloc (int n) root hw_static = Inr H \<and>
      (\<forall>i < n. \<exists>p. LpelWorkerToHwLoc H (int i) = Inr p \<and> LpelHwLocToWorker H p = Inr (int i)) \<and>
      (\<forall>p. (\<forall>i < n. LpelWorkerToHwLoc H (int i) \<noteq> Inr p) \<longrightarrow> LpelHwLocToWorker H p = Inr (-1)) \<and>
      (\<forall>i < n. \<forall>f. LpelThreadAssign_hwloc H (int i) f =
        Inr (if f (snd (pus (preorder root) ! i)) = -1 then LPEL_ERR_ASSIGN else 0)) \<and>
      LpelHwLocInit_hwloc (int n) root (LpelHwLocCleanup H) = Inl AssertFail)) \<and>
    (\<not> is_pu (last (preorder root)) \<longrightarrow> LpelHwLocInit_hwloc (int n) root hw_static = Inl AssertFail)"
  using hwloc_places_parts [OF assms] by (intro conjI impI)

subsection \<open>Binding threads\<close>

lemma to_int_id: "- (2 ^ 31) \<le> n \<Longrightarrow> n < 2 ^ 31 \<Longrightarrow> to_int n = n"
  by (simp add: to_int_def)


lemma fold_CPU_SET: "fold CPU_SET is s = s \<union> {i \<in> set is. 0 \<le> i \<and> i < CPU_SETSIZE}"
  by (induction "is" arbitrary: s) (auto simp: CPU_SET_def)















text \<open>
  In a build with neither \<open>hwloc\<close> nor \<open>sysconf\<close> every configuration is rejected, whatever the
  environment says: the number of cores that \<open>LpelGetNumCores\<close> reports is overwritten by its return
  code \<open>0\<close>, and when it reports none the count stays at \<open>0\<close>, which is not the value that switches the
  check off. \<open>LpelStart\<close> then returns the error and leaves the workers alone. This is for a number of
  processors whose sum does not overflow.
\<close>

theorem plain_build_rejects:
  fixes H :: "'c hw_state"
  assumes "LpelInit (\<lambda>H. Inr (LpelHwLocInit_plain env strtoul H)) hw_static cfg = Inr (glob, H)"
    and "cfg_proc_workers cfg + cfg_proc_others cfg < 2 ^ 31"
  shows "LpelHwLocCheckConfig H glob cfg = LPEL_ERR_INVAL"
    and "LpelStart winit wspawn glob H W cfg = Inr (LPEL_ERR_INVAL, H, W)"
proof -
  have H: "H = LpelHwLocInit_plain env strtoul hw_static" "glob = cfg"
    using assms by (auto simp: LpelInit_def)
  have "pu_count H = 0"
    unfolding H LpelHwLocInit_plain_def
    by (auto simp: LpelGetNumCores_def hw_static_def LPEL_ERR_FAIL_def Let_def split: option.splits prod.splits)
  then show c: "LpelHwLocCheckConfig H glob cfg = LPEL_ERR_INVAL"
    using to_int_id [of "cfg_proc_workers cfg + cfg_proc_others cfg"] assms(2)
    by (cases "cfg_type cfg") (auto simp: LpelHwLocCheckConfig_def LPEL_ERR_FAIL_def)
  show "LpelStart winit wspawn glob H W cfg = Inr (LPEL_ERR_INVAL, H, W)"
    by (simp add: LpelStart_def c) (simp add: LPEL_ERR_INVAL_def)
qed

text \<open>
  The sum of the processors is computed in \<open>int\<close> and may overflow: on a machine with four processors
  a configuration with \<open>INT_MAX\<close> processors for workers and one for others is accepted, and the set
  of the other threads is empty.
\<close>

definition overflow_config :: lpel_config_t where
  "overflow_config = \<lparr>num_workers = 2, cfg_proc_workers = 2147483647, cfg_proc_others = 1, cfg_flags = LPEL_FLAG_PINNED,
     cfg_type = DECEN_LPEL\<rparr>"

theorem check_config_overflow:
  fixes H :: "'c hw_state"
  assumes "pu_count H = 4"
  shows "LpelHwLocCheckConfig H overflow_config overflow_config = 0"
    and "cpuset_others (LpelHwLocStart H overflow_config) = {}"
  using assms by (simp_all add: LpelHwLocCheckConfig_def overflow_config_def to_int_def LPEL_ICFG_def
      LPEL_FLAG_PINNED_def LPEL_FLAG_EXCLUSIVE_def LPEL_ERR_FAIL_def LpelHwLocStart_def fold_CPU_SET CPU_SETSIZE_def)

subsection \<open>Witnesses\<close>

text \<open>One socket with two cores, the first with two processing units; CPU sets as bit masks.\<close>

definition ex_topology :: "nat hwloc_obj" where
  "ex_topology = HwObj HWLOC_OBJ_OTHER 7
     [HwObj HWLOC_OBJ_SOCKET 7
       [HwObj HWLOC_OBJ_CORE 3 [HwObj HWLOC_OBJ_PU 1 [], HwObj HWLOC_OBJ_PU 2 []],
        HwObj HWLOC_OBJ_CORE 4 [HwObj HWLOC_OBJ_PU 4 []]]]"

theorem hwloc_places_witness:
  "\<exists>H. LpelHwLocInit_hwloc 3 ex_topology hw_static = Inr H \<and>
     (\<exists>p. LpelWorkerToHwLoc H 2 = Inr p \<and> LpelHwLocToWorker H p = Inr 2) \<and>
     LpelThreadAssign_hwloc H 1 (\<lambda>cs. if cs = 2 then 0 else -1) = Inr 0 \<and>
     LpelHwLocInit_hwloc 3 ex_topology (LpelHwLocCleanup H) = Inl AssertFail"
proof -
  have p: "pus (preorder ex_topology) = [(HWLOC_OBJ_PU, 1), (HWLOC_OBJ_PU, 2), (HWLOC_OBJ_PU, 4)]"
    "is_pu (last (preorder ex_topology))"
    by (simp_all add: ex_topology_def)
  then have n: "length (pus (preorder ex_topology)) = 3"
    by simp
  obtain H where H: "LpelHwLocInit_hwloc (int 3) ex_topology hw_static = Inr H"
    "\<forall>i < 3. \<exists>p. LpelWorkerToHwLoc H (int i) = Inr p \<and> LpelHwLocToWorker H p = Inr (int i)"
    "\<forall>i < 3. \<forall>f. LpelThreadAssign_hwloc H (int i) f =
        Inr (if f (snd (pus (preorder ex_topology) ! i)) = -1 then LPEL_ERR_ASSIGN else 0)"
    "LpelHwLocInit_hwloc (int 3) ex_topology (LpelHwLocCleanup H) = Inl AssertFail"
    using hwloc_places [OF n, THEN conjunct1, rule_format, OF p(2)] by (elim exE conjE) (rule that)
  have "\<exists>p. LpelWorkerToHwLoc H (int 2) = Inr p \<and> LpelHwLocToWorker H p = Inr (int 2)"
    using H(2) [rule_format, of 2] by simp
  moreover have "LpelThreadAssign_hwloc H (int 1) (\<lambda>cs. if cs = 2 then 0 else -1) = Inr 0"
    by (subst H(3) [rule_format, of 1]) (simp_all add: p(1))
  ultimately show ?thesis
    using H(1,4) by (intro exI [of _ H]) simp
qed

definition ex_config :: lpel_config_t where
  "ex_config = \<lparr>num_workers = 2, cfg_proc_workers = 2, cfg_proc_others = 2, cfg_flags = 3, cfg_type = DECEN_LPEL\<rparr>"





theorem plain_build_rejects_witness:
  "LpelStart (\<lambda>_ W. Inr W) Inr ex_config (hw_static :: nat hw_state) () ex_config
    = Inr (LPEL_ERR_INVAL, hw_static, ())"
proof -
  have "LpelInit (\<lambda>H. Inr (LpelHwLocInit_plain (Some ''4'') (\<lambda>_. (4, False)) H)) (hw_static :: nat hw_state) ex_config
      = Inr (ex_config, hw_static)"
    by (simp add: LpelInit_def LpelHwLocInit_plain_def LpelGetNumCores_def to_int_def hw_static_def)
  from plain_build_rejects(2) [OF this] show ?thesis
    by (simp add: ex_config_def)
qed

end
