(* ===== verification/Spmd_Barrier.thy ===== *)
theory Spmd_Barrier
  imports Spmd
begin

text \<open>
  The barrier of the SPMD extension under every interleaving of the workers: the invariant counts
  the tokens of the semaphores against the workers that have posted, and follows the queue of
  requests through the gap between taking a slot and filling it.
\<close>

subsection \<open>Workers and their requests\<close>

fun act_req :: "spc \<Rightarrow> spmdreq_t option" where
  "act_req (MSignal i r) = Some r"
| "act_req (MEnter r) = Some r"
| "act_req (MExec r) = Some r"
| "act_req (MStop k r) = Some r"
| "act_req (MDone r) = Some r"
| "act_req _ = None"

text \<open>The workers that have posted for master \<open>m\<close> and wait, and those that are in its round at all.\<close>

fun waits_for :: "nat \<Rightarrow> spc \<Rightarrow> bool" where
  "waits_for m (NWait r) = (rq_wctx r = Some m)"
| "waits_for m _ = False"

fun joined :: "nat \<Rightarrow> spc \<Rightarrow> bool" where
  "joined m (NWait r) = (rq_wctx r = Some m)"
| "joined m (NEnter r) = (rq_wctx r = Some m)"
| "joined m (NExec r) = (rq_wctx r = Some m)"
| "joined m (NStop r) = (rq_wctx r = Some m)"
| "joined m _ = False"

fun k_start :: "nat \<Rightarrow> spc \<Rightarrow> nat" where
  "k_start n (MWait k h r) = k"
| "k_start n (MSection h r) = n - 1"
| "k_start n _ = 0"

fun k_stop :: "nat \<Rightarrow> spc \<Rightarrow> nat" where
  "k_stop n (MStop k r) = k"
| "k_stop n (MDone r) = n - 1"
| "k_stop n _ = 0"

text \<open>A worker the active master has still to signal.\<close>

fun unsignalled :: "spc \<Rightarrow> nat \<Rightarrow> bool" where
  "unsignalled (MSignal i r) w = (i \<le> w)"
| "unsignalled _ w = False"

fun in_slot :: "spc \<Rightarrow> bool" where
  "in_slot (QSlot f a t) = True"
| "in_slot _ = False"

fun in_queue :: "spc \<Rightarrow> bool" where
  "in_queue (QWctx i f a t) = True"
| "in_queue (QRest i f a t) = True"
| "in_queue _ = False"

lemma waits_joined: "waits_for m p \<Longrightarrow> joined m p"
  by (cases p) auto

lemma act_not_joined: "act_req p = Some r \<Longrightarrow> \<not> joined m p"
  by (cases p) auto

lemma act_not_queue: "act_req p = Some r \<Longrightarrow> \<not> in_queue p \<and> \<not> in_slot p \<and> k_start n p = 0"
  by (cases p) auto

lemma joined_not: "joined m p \<Longrightarrow> act_req p = None \<and> \<not> in_queue p \<and> \<not> in_slot p \<and> k_start n p = 0"
  by (cases p) auto

subsection \<open>Counting workers\<close>

definition num :: "(spc \<Rightarrow> bool) \<Rightarrow> (nat \<Rightarrow> spc) \<Rightarrow> nat \<Rightarrow> nat" where
  "num P pc n = card {x. x < n \<and> P (pc x)}"

lemma num_upd: "w < n \<Longrightarrow> num P (pc(w := p)) n + of_bool (P (pc w)) = num P pc n + of_bool (P p)"
proof -
  assume w: "w < n"
  let ?R = "{x. x < n \<and> x \<noteq> w \<and> P (pc x)}"
  have "{x. x < n \<and> P ((pc(w := p)) x)} = (if P p then insert w ?R else ?R)"
    "{x. x < n \<and> P (pc x)} = (if P (pc w) then insert w ?R else ?R)"
    using w by auto
  then show ?thesis
    by (simp add: num_def)
qed

lemma num_same: "w < n \<Longrightarrow> P (pc w) = P p \<Longrightarrow> num P (pc(w := p)) n = num P pc n"
  using num_upd [of w n P pc p] by simp

lemma num_0: "num P pc n = 0 \<longleftrightarrow> (\<forall>x < n. \<not> P (pc x))"
  by (auto simp: num_def)

lemma num_all:
  assumes "n - 1 \<le> num P pc n" "w < n" "\<not> P (pc w)" "x < n" "x \<noteq> w"
  shows "P (pc x)"
proof -
  have "{x. x < n \<and> P (pc x)} \<subseteq> {..<n} - {w}"
    using assms by auto
  moreover have "card ({..<n} - {w}) \<le> card {x. x < n \<and> P (pc x)}"
    using assms by (simp add: num_def)
  ultimately have "{x. x < n \<and> P (pc x)} = {..<n} - {w}"
    by (intro card_seteq) auto
  then show ?thesis
    using assms by blast
qed

lemma num_others:
  assumes "w < n" "\<not> P (pc w)" "\<forall>x < n. x \<noteq> w \<longrightarrow> P (pc x)"
  shows "num P pc n = n - 1"
proof -
  have "{x. x < n \<and> P (pc x)} = {..<n} - {w}"
    using assms by auto
  then show ?thesis
    using assms by (simp add: num_def)
qed

lemma num_le: "w < n \<Longrightarrow> \<not> P (pc w) \<Longrightarrow> num P pc n \<le> n - 1"
proof -
  assume w: "w < n" "\<not> P (pc w)"
  have "num P pc n \<le> card ({..<n} - {w})"
    unfolding num_def using w by (intro card_mono) auto
  with w show ?thesis
    by simp
qed

subsection \<open>The invariant\<close>

abbreviation sema :: "spmd_t \<Rightarrow> nat \<Rightarrow> nat" where
  "sema S w \<equiv> sw_sema (sp_worker_data S ! w)"

abbreviation pending :: "spmd_t \<Rightarrow> nat \<Rightarrow> int" where
  "pending S w \<equiv> sw_pending (sp_worker_data S ! w)"

abbreviation slot :: "spmd_t \<Rightarrow> nat \<Rightarrow> spmdreq_t" where
  "slot S i \<equiv> sp_req_queue S ! i"

abbreviation top_worker :: "spmd_t \<Rightarrow> nat option" where
  "top_worker S \<equiv> rq_wctx (slot S (sp_qhead S))"

definition shape :: "nat \<Rightarrow> spmd_t \<Rightarrow> bool" where
  "shape n S \<longleftrightarrow> 0 < n \<and> sp_num_workers S = int n \<and> length (sp_worker_data S) = n \<and>
     length (sp_req_queue S) = n \<and> sp_qhead S < n"

text \<open>What holds for the program counter of one worker, \<open>A\<close> is the active master.\<close>

fun pc_ok :: "nat \<Rightarrow> nat option \<Rightarrow> nat option \<Rightarrow> nat \<Rightarrow> spmdreq_t \<Rightarrow> nat \<Rightarrow> spc \<Rightarrow> bool" where
  "pc_ok n A B h ask w (HRead i) \<longleftrightarrow> i = h"
| "pc_ok n A B h ask w (MWait k i r) \<longleftrightarrow> i = h \<and> r = ask \<and> rq_wctx r = Some w \<and> B = Some w \<and> k \<le> n - 1"
| "pc_ok n A B h ask w (MSection i r) \<longleftrightarrow> i = h \<and> r = ask \<and> rq_wctx r = Some w \<and> B = Some w"
| "pc_ok n A B h ask w (NPost r) \<longleftrightarrow> rq_wctx r \<noteq> None \<and> rq_wctx r = B \<and> rq_wctx r \<noteq> Some w"
| "pc_ok n A B h ask w (NWait r) \<longleftrightarrow> rq_wctx r \<noteq> None \<and> (rq_wctx r = B \<or> rq_wctx r = A) \<and> rq_wctx r \<noteq> Some w"
| "pc_ok n A B h ask w (NEnter r) \<longleftrightarrow> rq_wctx r \<noteq> None \<and> rq_wctx r = A \<and> rq_wctx r \<noteq> Some w"
| "pc_ok n A B h ask w (NExec r) \<longleftrightarrow> rq_wctx r \<noteq> None \<and> rq_wctx r = A \<and> rq_wctx r \<noteq> Some w"
| "pc_ok n A B h ask w (NStop r) \<longleftrightarrow> rq_wctx r \<noteq> None \<and> rq_wctx r = A \<and> rq_wctx r \<noteq> Some w"
| "pc_ok n A B h ask w (QSlot f a t) \<longleftrightarrow> ask = \<lparr>rq_wctx = Some w, rq_func = f, rq_arg = a, rq_task = t\<rparr>"
| "pc_ok n A B h ask w p \<longleftrightarrow> (case act_req p of None \<Rightarrow> True | Some r \<Rightarrow> r = ask \<and> rq_wctx r = Some w)"

definition pcs_ok :: "nat \<Rightarrow> nat option \<Rightarrow> spmd_t \<Rightarrow> (nat \<Rightarrow> spc) \<Rightarrow> (nat \<Rightarrow> spmdreq_t) \<Rightarrow> bool" where
  "pcs_ok n A S pc ask \<longleftrightarrow>
     (\<forall>w < n. pc_ok n A (top_worker S) (sp_qhead S) (ask w) w (pc w)) \<and>
     (\<forall>w < n. act_req (pc w) \<noteq> None \<longleftrightarrow> A = Some w) \<and> (\<forall>a. A = Some a \<longrightarrow> a < n)"

definition owed :: "nat option \<Rightarrow> (nat \<Rightarrow> spc) \<Rightarrow> nat \<Rightarrow> nat" where
  "owed A pc w = (case A of None \<Rightarrow> 0 | Some a \<Rightarrow> of_bool (unsignalled (pc a) w))"

definition needs :: "nat option \<Rightarrow> spc \<Rightarrow> nat" where
  "needs A p = (case A of None \<Rightarrow> 0 | Some a \<Rightarrow> of_bool (waits_for a p))"

definition tokens_ok :: "nat \<Rightarrow> nat option \<Rightarrow> spmd_t \<Rightarrow> (nat \<Rightarrow> spc) \<Rightarrow> bool" where
  "tokens_ok n A S pc \<longleftrightarrow> (\<forall>w < n. if A = Some w
     then sema S w + k_stop n (pc w) + num (joined w) pc n = n - 1
     else sema S w + owed A pc w + k_start n (pc w) =
       (if top_worker S = Some w then num (waits_for w) pc n else 0) + needs A (pc w))"

text \<open>The slots of the queue: the workers \<open>us\<close> own the slots from the head on.\<close>

fun slot_ok :: "nat \<Rightarrow> nat \<Rightarrow> spmdreq_t \<Rightarrow> spmdreq_t \<Rightarrow> spc \<Rightarrow> bool" where
  "slot_ok i w q ask (QWctx j f a t) \<longleftrightarrow> j = i \<and> rq_wctx q = None \<and>
     ask = \<lparr>rq_wctx = Some w, rq_func = f, rq_arg = a, rq_task = t\<rparr>"
| "slot_ok i w q ask (QRest j f a t) \<longleftrightarrow> j = i \<and> rq_wctx q = Some w \<and>
     ask = \<lparr>rq_wctx = Some w, rq_func = f, rq_arg = a, rq_task = t\<rparr>"
| "slot_ok i w q ask p \<longleftrightarrow> q = ask \<and> rq_wctx q = Some w \<and> \<not> in_slot p"

definition queue_ok :: "nat \<Rightarrow> nat option \<Rightarrow> nat list \<Rightarrow> spmd_t \<Rightarrow> (nat \<Rightarrow> spc) \<Rightarrow> (nat \<Rightarrow> spmdreq_t) \<Rightarrow> bool" where
  "queue_ok n A us S pc ask \<longleftrightarrow> distinct us \<and> set us \<subseteq> {..<n} \<and> (\<forall>a. A = Some a \<longrightarrow> a \<notin> set us) \<and>
     (\<forall>j < length us. slot_ok ((sp_qhead S + j) mod n) (us ! j) (slot S ((sp_qhead S + j) mod n)) (ask (us ! j)) (pc (us ! j))) \<and>
     (\<forall>j. length us \<le> j \<and> j < n \<longrightarrow> rq_wctx (slot S ((sp_qhead S + j) mod n)) = None) \<and>
     sp_qtail S mod n = (sp_qhead S + length us) mod n \<and>
     (\<forall>w < n. in_queue (pc w) \<longrightarrow> w \<in> set us) \<and>
     (\<forall>w < n. pending S w = of_bool (w \<in> set us \<or> A = Some w \<or> in_slot (pc w)))"

definition spmd_inv :: "nat \<Rightarrow> nat option \<Rightarrow> nat list \<Rightarrow> spmd_t \<Rightarrow> (nat \<Rightarrow> spc) \<Rightarrow> (nat \<Rightarrow> spmdreq_t) \<Rightarrow> bool" where
  "spmd_inv n A us S pc ask \<longleftrightarrow> shape n S \<and> pcs_ok n A S pc ask \<and> tokens_ok n A S pc \<and> queue_ok n A us S pc ask"

lemma us_length: "queue_ok n A us S pc ask \<Longrightarrow> length us \<le> n"
  using card_mono [of "{..<n}" "set us"] by (simp add: queue_ok_def distinct_card)

lemma top_owner:
  assumes "queue_ok n A us S pc ask" "shape n S" "top_worker S = Some b"
  shows "us \<noteq> [] \<and> us ! 0 = b \<and> b < n \<and> A \<noteq> Some b"
proof -
  have h: "sp_qhead S mod n = sp_qhead S" "0 < n"
    using assms by (auto simp: shape_def)
  have ne: "us \<noteq> []"
  proof
    assume "us = []"
    with assms(1) h have "top_worker S = None"
      by (auto simp: queue_ok_def dest: spec [of _ 0])
    with assms(3) show False
      by simp
  qed
  then have "slot_ok (sp_qhead S) (us ! 0) (slot S (sp_qhead S)) (ask (us ! 0)) (pc (us ! 0))"
    using assms(1) h by (auto simp: queue_ok_def dest: spec [of _ 0])
  with assms(3) have "us ! 0 = b"
    by (cases "pc (us ! 0)") auto
  moreover have "us ! 0 \<in> set us"
    using ne by simp
  ultimately show ?thesis
    using assms(1) ne by (auto simp: queue_ok_def)
qed

subsection \<open>Moves that leave the semaphores alone\<close>

definition plain :: "spc \<Rightarrow> bool" where
  "plain p \<longleftrightarrow> \<not> in_queue p \<and> \<not> in_slot p"

lemma slot_ok_plain: "plain p \<Longrightarrow> slot_ok i w q ask p \<longleftrightarrow> q = ask \<and> rq_wctx q = Some w"
  by (cases p) (auto simp: plain_def)

definition same_queue :: "spmd_t \<Rightarrow> spmd_t \<Rightarrow> bool" where
  "same_queue S S' \<longleftrightarrow> sp_num_workers S' = sp_num_workers S \<and> sp_req_queue S' = sp_req_queue S \<and>
     sp_qhead S' = sp_qhead S \<and> sp_qtail S' = sp_qtail S \<and>
     length (sp_worker_data S') = length (sp_worker_data S)"

lemma shape_same: "shape n S \<Longrightarrow> same_queue S S' \<Longrightarrow> shape n S'"
  by (auto simp: shape_def same_queue_def)

lemma queue_move:
  assumes "queue_ok n A us S pc ask" "w < n" "same_queue S S'" "\<forall>x < n. pending S' x = pending S x"
    and "plain (pc w)" "plain p"
  shows "queue_ok n A us S' (pc(w := p)) ask"
proof -
  have same: "slot_ok i x q a ((pc(w := p)) x) = slot_ok i x q a (pc x)"
    "in_queue ((pc(w := p)) x) = in_queue (pc x)" "in_slot ((pc(w := p)) x) = in_slot (pc x)" for i x q a
    using assms(5,6) by (auto simp: slot_ok_plain) (auto simp: plain_def)
  show ?thesis
    using assms(1,3,4) unfolding queue_ok_def same_queue_def same by simp
qed

lemma pcs_move:
  assumes "pcs_ok n A S pc ask" "w < n" "same_queue S S'"
    and "pc_ok n A (top_worker S) (sp_qhead S) (ask w) w p" "act_req p \<noteq> None \<longleftrightarrow> act_req (pc w) \<noteq> None"
  shows "pcs_ok n A S' (pc(w := p)) ask"
  using assms by (auto simp: pcs_ok_def same_queue_def)

text \<open>All that the token count sees of a program counter.\<close>

definition same_count :: "nat \<Rightarrow> spc \<Rightarrow> spc \<Rightarrow> bool" where
  "same_count n p q \<longleftrightarrow> (\<forall>m. waits_for m p = waits_for m q) \<and> (\<forall>m. joined m p = joined m q) \<and>
     k_start n p = k_start n q \<and> k_stop n p = k_stop n q"

lemma owed_upd_other: "A \<noteq> Some w \<Longrightarrow> owed A (pc(w := p)) x = owed A pc x"
  by (auto simp: owed_def split: option.splits)

lemma tokens_local:
  assumes "tokens_ok n A S pc" "w < n" "same_queue S S'" "\<forall>x < n. sema S' x = sema S x"
    and "same_count n (pc w) p" "A = Some w \<Longrightarrow> \<forall>x < n. x \<noteq> w \<longrightarrow> unsignalled p x = unsignalled (pc w) x"
  shows "tokens_ok n A S' (pc(w := p))"
proof -
  have n: "num (waits_for m) (pc(w := p)) n = num (waits_for m) pc n"
    "num (joined m) (pc(w := p)) n = num (joined m) pc n" for m
    using assms by (auto intro!: num_same simp: same_count_def)
  have o: "x < n \<Longrightarrow> A \<noteq> Some x \<Longrightarrow> owed A (pc(w := p)) x = owed A pc x" for x
    using assms(6) owed_upd_other [of A w pc p x] by (cases "A = Some w") (auto simp: owed_def)
  have c: "k_start n p = k_start n (pc w)" "k_stop n p = k_stop n (pc w)" "needs A p = needs A (pc w)"
    using assms(5) by (auto simp: same_count_def needs_def split: option.splits)
  show ?thesis
    using assms(1,3,4) by (auto simp: tokens_ok_def n o c same_queue_def)
qed

lemma local_move:
  assumes inv: "spmd_inv n A us S pc ask" and "w < n" "same_queue S S'"
    and "\<forall>x < n. sema S' x = sema S x \<and> pending S' x = pending S x"
    and "plain (pc w)" "plain p" "same_count n (pc w) p"
    and "A = Some w \<Longrightarrow> \<forall>x < n. x \<noteq> w \<longrightarrow> unsignalled p x = unsignalled (pc w) x"
    and "pc_ok n A (top_worker S) (sp_qhead S) (ask w) w p" "act_req p \<noteq> None \<longleftrightarrow> act_req (pc w) \<noteq> None"
  shows "spmd_inv n A us S' (pc(w := p)) ask"
proof -
  note i = inv [unfolded spmd_inv_def]
  have "shape n S'"
    using i assms(3) by (blast intro: shape_same)
  moreover have "pcs_ok n A S' (pc(w := p)) ask"
    using i assms by (intro pcs_move [of n A S]) blast+
  moreover have "tokens_ok n A S' (pc(w := p))"
    using i assms by (intro tokens_local [of n A S]) blast+
  moreover have "queue_ok n A us S' (pc(w := p)) ask"
    using i assms by (intro queue_move [of n A us S]) blast+
  ultimately show ?thesis
    by (simp add: spmd_inv_def)
qed

lemma same_queue_refl [simp]: "same_queue S S"
  by (simp add: same_queue_def)

lemma upd_worker_ok:
  assumes "shape n S" "w < n"
  shows "upd_worker S w f = Inr (S\<lparr>sp_worker_data := (sp_worker_data S)[w := f (sp_worker_data S ! w)]\<rparr>)"
    and "same_queue S (S\<lparr>sp_worker_data := (sp_worker_data S)[w := d]\<rparr>)"
  using assms by (auto simp: upd_worker_def shape_def same_queue_def)

definition keeps_inv :: "nat \<Rightarrow> (nat \<Rightarrow> spc) \<Rightarrow> (nat \<Rightarrow> spmdreq_t) \<Rightarrow> nat \<Rightarrow> (spmd_t \<times> spc) res option \<Rightarrow> bool" where
  "keeps_inv n pc ask w r \<longleftrightarrow> (\<exists>S' p A us. r = Some (Inr (S', p)) \<and> spmd_inv n A us S' (pc(w := p)) ask)"

lemma keeps_invI: "r = Some (Inr (S', p)) \<Longrightarrow> spmd_inv n A us S' (pc(w := p)) ask \<Longrightarrow> keeps_inv n pc ask w r"
  by (auto simp: keeps_inv_def)

lemma invD:
  assumes "spmd_inv n A us S pc ask"
  shows "shape n S" "pcs_ok n A S pc ask" "tokens_ok n A S pc" "queue_ok n A us S pc ask"
  using assms by (auto simp: spmd_inv_def)

lemma pc_okD:
  assumes "spmd_inv n A us S pc ask" "w < n"
  shows "pc_ok n A (top_worker S) (sp_qhead S) (ask w) w (pc w)" "act_req (pc w) \<noteq> None \<longleftrightarrow> A = Some w"
  using assms by (auto simp: spmd_inv_def pcs_ok_def)

text \<open>The request at the head, seen by its own worker in the handler.\<close>

lemma top_own:
  assumes "spmd_inv n A us S pc ask" "w < n" "top_worker S = Some w" "plain (pc w)"
  shows "slot S (sp_qhead S) = ask w"
proof -
  note q = invD(4) [OF assms(1)] and s = invD(1) [OF assms(1)]
  have o: "us \<noteq> []" "us ! 0 = w"
    using top_owner [OF q s assms(3)] by auto
  have "sp_qhead S mod n = sp_qhead S"
    using s by (simp add: shape_def)
  then have "slot_ok (sp_qhead S) (us ! 0) (slot S (sp_qhead S)) (ask (us ! 0)) (pc (us ! 0))"
    using q o by (auto simp: queue_ok_def dest: spec [of _ 0])
  with o assms(4) show ?thesis
    by (simp add: slot_ok_plain)
qed

lemma step_read:
  assumes inv: "spmd_inv n A us S pc ask" and w: "w < n" "pc w = HRead h"
  shows "keeps_inv n pc ask w (spmd_step S w (pc w))"
proof -
  have h: "h = sp_qhead S" "h < n" "length (sp_req_queue S) = n" "A \<noteq> Some w"
    using pc_okD [OF inv w(1)] invD(1) [OF inv] w by (auto simp: shape_def)
  let ?q = "slot S (sp_qhead S)"
  have r: "spmd_step S w (pc w) = Some (Inr (S, case top_worker S of None \<Rightarrow> Outside
      | Some m \<Rightarrow> if m = w then MWait 0 h ?q else NPost ?q))"
    using h w by (simp add: handle_read_def split: option.splits)
  have own: "top_worker S = Some w \<Longrightarrow> ?q = ask w"
    using top_own [OF inv w(1)] w(2) by (simp add: plain_def)
  let ?p = "case top_worker S of None \<Rightarrow> Outside | Some m \<Rightarrow> if m = w then MWait 0 h ?q else NPost ?q"
  have "spmd_inv n A us S (pc(w := ?p)) ask"
    using own h w by (intro local_move [OF inv w(1)])
      (auto simp: plain_def same_count_def split: option.splits)
  with r show ?thesis
    by (rule keeps_invI)
qed

lemma step_enter:
  assumes inv: "spmd_inv n A us S pc ask" and w: "w < n" "pc w = Outside"
  shows "spmd_inv n A us S (pc(w := HTop)) ask"
  using w by (intro local_move [OF inv w(1)]) (auto simp: plain_def same_count_def)

lemma step_top:
  assumes inv: "spmd_inv n A us S pc ask" and w: "w < n" "pc w = HTop"
  shows "keeps_inv n pc ask w (spmd_step S w (pc w))"
proof (rule keeps_invI)
  show "spmd_step S w (pc w) = Some (Inr (S, HRead (sp_qhead S)))"
    using w by simp
  show "spmd_inv n A us S (pc(w := HRead (sp_qhead S))) ask"
    using w by (intro local_move [OF inv w(1)]) (auto simp: plain_def same_count_def)
qed

lemma nat_num: "shape n S \<Longrightarrow> nat (sp_num_workers S) = n"
  by (simp add: shape_def)

lemma step_local_master:
  assumes inv: "spmd_inv n A us S pc ask" and w: "w < n"
  shows "pc w = MWait k h r \<Longrightarrow> \<not> k < n - 1 \<Longrightarrow> keeps_inv n pc ask w (spmd_step S w (pc w))"
    and "pc w = MSignal w r \<Longrightarrow> keeps_inv n pc ask w (spmd_step S w (pc w))"
    and "pc w = MSignal i r \<Longrightarrow> n \<le> i \<Longrightarrow> keeps_inv n pc ask w (spmd_step S w (pc w))"
    and "pc w = MStop k r \<Longrightarrow> \<not> k < n - 1 \<Longrightarrow> keeps_inv n pc ask w (spmd_step S w (pc w))"
proof -
  note num = nat_num [OF invD(1) [OF inv]] and pcd = pc_okD [OF inv w]
  show "keeps_inv n pc ask w (spmd_step S w (pc w))" if p: "pc w = MWait k h r" "\<not> k < n - 1"
  proof (rule keeps_invI)
    show "spmd_step S w (pc w) = Some (Inr (S, MSection h r))"
      using p num by simp
    show "spmd_inv n A us S (pc(w := MSection h r)) ask"
      using p pcd by (intro local_move [OF inv w]) (auto simp: plain_def same_count_def)
  qed
  show "keeps_inv n pc ask w (spmd_step S w (pc w))" if p: "pc w = MSignal w r"
  proof (rule keeps_invI)
    show "spmd_step S w (pc w) = Some (Inr (S, MSignal (w + 1) r))"
      using p num w by simp
    show "spmd_inv n A us S (pc(w := MSignal (w + 1) r)) ask"
      using p pcd by (intro local_move [OF inv w]) (auto simp: plain_def same_count_def)
  qed
  show "keeps_inv n pc ask w (spmd_step S w (pc w))" if p: "pc w = MSignal i r" "n \<le> i"
  proof (rule keeps_invI)
    show "spmd_step S w (pc w) = Some (Inr (S, MEnter r))"
      using p num by simp
    show "spmd_inv n A us S (pc(w := MEnter r)) ask"
      using p pcd by (intro local_move [OF inv w]) (auto simp: plain_def same_count_def)
  qed
  show "keeps_inv n pc ask w (spmd_step S w (pc w))" if p: "pc w = MStop k r" "\<not> k < n - 1"
  proof (rule keeps_invI)
    have "A = Some w"
      using pcd p by simp
    then have "sema S w + k + num (joined w) pc n = n - 1"
      using invD(3) [OF inv] w p by (auto simp: tokens_ok_def dest: spec [of _ w])
    with p have k: "k = n - 1"
      by simp
    show "spmd_step S w (pc w) = Some (Inr (S, MDone r))"
      using p num by simp
    show "spmd_inv n A us S (pc(w := MDone r)) ask"
      using p pcd k by (intro local_move [OF inv w]) (auto simp: plain_def same_count_def)
  qed
qed

text \<open>Setting and clearing \<open>curreq\<close> around the requested function.\<close>

lemma step_curreq:
  assumes inv: "spmd_inv n A us S pc ask" and w: "w < n" and p: "pc w \<in> {MEnter r, MExec r, NEnter r, NExec r}"
  shows "keeps_inv n pc ask w (spmd_step S w (pc w))"
proof -
  note s = invD(1) [OF inv] and pcd = pc_okD [OF inv w]
  define f :: "spmd_worker_t \<Rightarrow> spmd_worker_t" where "f = (\<lambda>d. d\<lparr>sw_curreq := (if pc w \<in> {MEnter r, NEnter r} then Some r else None)\<rparr>)"
  define q where "q = (case pc w of MEnter r \<Rightarrow> MExec r | MExec r \<Rightarrow> MStop 0 r | NEnter r \<Rightarrow> NExec r | NExec r \<Rightarrow> NStop r | p \<Rightarrow> p)"
  define S' where "S' = S\<lparr>sp_worker_data := (sp_worker_data S)[w := f (sp_worker_data S ! w)]\<rparr>"
  have len: "length (sp_worker_data S) = n"
    using s by (simp add: shape_def)
  have "spmd_step S w (pc w) = Some (Inr (S', q))"
    using p by (auto simp: go_def upd_worker_ok(1) [OF s w] S'_def f_def q_def)
  moreover have "spmd_inv n A us S' (pc(w := q)) ask"
    using p pcd len w by (intro local_move [OF inv w])
      (auto simp: S'_def upd_worker_ok(2) [OF s w] f_def q_def plain_def same_count_def nth_list_update)
  ultimately show ?thesis
    by (rule keeps_invI)
qed

subsection \<open>Moves on a semaphore\<close>

definition with_sema :: "spmd_t \<Rightarrow> nat \<Rightarrow> nat \<Rightarrow> spmd_t" where
  "with_sema S v k = S\<lparr>sp_worker_data := (sp_worker_data S)[v := (sp_worker_data S ! v)\<lparr>sw_sema := k\<rparr>]\<rparr>"

lemma with_sema_simps:
  assumes "shape n S" "v < n"
  shows "x < n \<Longrightarrow> sema (with_sema S v k) x = (if x = v then k else sema S x)"
    "x < n \<Longrightarrow> pending (with_sema S v k) x = pending S x"
    "same_queue S (with_sema S v k)" "sp_req_queue (with_sema S v k) = sp_req_queue S"
    "sp_qhead (with_sema S v k) = sp_qhead S"
  using assms by (auto simp: with_sema_def shape_def same_queue_def nth_list_update)

lemma sem_post_ok: "shape n S \<Longrightarrow> v < n \<Longrightarrow> sem_post S v = Inr (with_sema S v (Suc (sema S v)))"
  by (simp add: sem_post_def upd_worker_def shape_def with_sema_def)

lemma sem_wait_ok: "shape n S \<Longrightarrow> v < n \<Longrightarrow>
    sem_wait S v = (if sema S v = 0 then None else Some (Inr (with_sema S v (sema S v - 1))))"
  by (simp add: sem_wait_def shape_def with_sema_def)

text \<open>Everything but the tokens, for a step of worker \<open>w\<close> that changes the semaphore of \<open>v\<close>.\<close>

lemma sema_move:
  assumes inv: "spmd_inv n A us S pc ask" and "w < n" "v < n" "plain (pc w)" "plain p"
    and "pc_ok n A (top_worker S) (sp_qhead S) (ask w) w p" "act_req p \<noteq> None \<longleftrightarrow> act_req (pc w) \<noteq> None"
    and "tokens_ok n A (with_sema S v k) (pc(w := p))"
  shows "spmd_inv n A us (with_sema S v k) (pc(w := p)) ask"
proof -
  note i = inv [unfolded spmd_inv_def]
  have s: "shape n S" "same_queue S (with_sema S v k)"
    using i with_sema_simps(3) [of n S v k] assms(3) by auto
  have "shape n (with_sema S v k)"
    using s by (rule shape_same)
  moreover have "pcs_ok n A (with_sema S v k) (pc(w := p)) ask"
    using i assms s by (intro pcs_move [of n A S]) blast+
  moreover have "queue_ok n A us (with_sema S v k) (pc(w := p)) ask"
    using i assms s with_sema_simps(2) [of n S v] by (intro queue_move [of n A us S]) blast+
  ultimately show ?thesis
    using assms(8) by (simp add: spmd_inv_def)
qed

lemma tokensD:
  assumes "tokens_ok n A S pc" "w < n"
  shows "A = Some w \<Longrightarrow> sema S w + k_stop n (pc w) + num (joined w) pc n = n - 1"
    and "A \<noteq> Some w \<Longrightarrow> sema S w + owed A pc w + k_start n (pc w) =
       (if top_worker S = Some w then num (waits_for w) pc n else 0) + needs A (pc w)"
proof -
  from assms have "if A = Some w
     then sema S w + k_stop n (pc w) + num (joined w) pc n = n - 1
     else sema S w + owed A pc w + k_start n (pc w) =
       (if top_worker S = Some w then num (waits_for w) pc n else 0) + needs A (pc w)"
    unfolding tokens_ok_def by blast
  then show "A = Some w \<Longrightarrow> sema S w + k_stop n (pc w) + num (joined w) pc n = n - 1"
    "A \<noteq> Some w \<Longrightarrow> sema S w + owed A pc w + k_start n (pc w) =
       (if top_worker S = Some w then num (waits_for w) pc n else 0) + needs A (pc w)"
    by simp_all
qed

text \<open>The token count after a step, worker by worker.\<close>

lemma tokens_okI:
  assumes "\<And>x. x < n \<Longrightarrow> A = Some x \<Longrightarrow> sema S x + k_stop n (pc x) + num (joined x) pc n = n - 1"
    and "\<And>x. x < n \<Longrightarrow> A \<noteq> Some x \<Longrightarrow> sema S x + owed A pc x + k_start n (pc x) =
       (if top_worker S = Some x then num (waits_for x) pc n else 0) + needs A (pc x)"
  shows "tokens_ok n A S pc"
  using assms by (simp add: tokens_ok_def)

lemma step_master_wait:
  assumes inv: "spmd_inv n A us S pc ask" and w: "w < n" and p: "pc w = MWait k h r" "k < n - 1" and s: "sema S w \<noteq> 0"
  shows "keeps_inv n pc ask w (spmd_step S w (pc w))"
proof (rule keeps_invI)
  note sh = invD(1) [OF inv] and t = invD(3) [OF inv] and pcd = pc_okD [OF inv w]
  let ?S = "with_sema S w (sema S w - 1)" and ?p = "MWait (Suc k) h r"
  show "spmd_step S w (pc w) = Some (Inr (?S, ?p))"
    using p s by (simp add: nat_num [OF sh] sem_wait_ok [OF sh w] go_wait_def go_def)
  have A: "A \<noteq> Some w"
    using pcd p by simp
  have n: "num (waits_for m) (pc(w := ?p)) n = num (waits_for m) pc n" "num (joined m) (pc(w := ?p)) n = num (joined m) pc n" for m
    using w p by (auto intro!: num_same)
  have "tokens_ok n A ?S (pc(w := ?p))"
  proof (rule tokens_okI)
    fix x
    assume x: "x < n" "A = Some x"
    with A tokensD(1) [OF t x] show "sema ?S x + k_stop n ((pc(w := ?p)) x) + num (joined x) (pc(w := ?p)) n = n - 1"
      by (auto simp: with_sema_simps [OF sh w] n)
  next
    fix x
    assume x: "x < n" "A \<noteq> Some x"
    have "needs A ?p = needs A (pc w)" "top_worker S = Some w"
      using p pcd by (auto simp: needs_def split: option.splits)
    with tokensD(2) [OF t x] s p A x w show "sema ?S x + owed A (pc(w := ?p)) x + k_start n ((pc(w := ?p)) x) =
       (if top_worker ?S = Some x then num (waits_for x) (pc(w := ?p)) n else 0) + needs A ((pc(w := ?p)) x)"
      by (cases "x = w") (simp_all add: with_sema_simps [OF sh w] n owed_upd_other)
  qed
  with pcd p show "spmd_inv n A us ?S (pc(w := ?p)) ask"
    by (intro sema_move [OF inv w w]) (auto simp: plain_def)
qed

lemma step_master_stop:
  assumes inv: "spmd_inv n A us S pc ask" and w: "w < n" and p: "pc w = MStop k r" "k < n - 1" and s: "sema S w \<noteq> 0"
  shows "keeps_inv n pc ask w (spmd_step S w (pc w))"
proof (rule keeps_invI)
  note sh = invD(1) [OF inv] and t = invD(3) [OF inv] and pcd = pc_okD [OF inv w]
  let ?S = "with_sema S w (sema S w - 1)" and ?p = "MStop (Suc k) r"
  show "spmd_step S w (pc w) = Some (Inr (?S, ?p))"
    using p s by (simp add: nat_num [OF sh] sem_wait_ok [OF sh w] go_wait_def go_def)
  have A: "A = Some w"
    using pcd p by simp
  have n: "num (waits_for m) (pc(w := ?p)) n = num (waits_for m) pc n" "num (joined m) (pc(w := ?p)) n = num (joined m) pc n" for m
    using w p by (auto intro!: num_same)
  have "tokens_ok n A ?S (pc(w := ?p))"
  proof (rule tokens_okI)
    fix x
    assume x: "x < n" "A = Some x"
    with A s p tokensD(1) [OF t x] show "sema ?S x + k_stop n ((pc(w := ?p)) x) + num (joined x) (pc(w := ?p)) n = n - 1"
      by (auto simp: with_sema_simps [OF sh w] n)
  next
    fix x
    assume x: "x < n" "A \<noteq> Some x"
    from tokensD(2) [OF t x] x p A show "sema ?S x + owed A (pc(w := ?p)) x + k_start n ((pc(w := ?p)) x) =
       (if top_worker ?S = Some x then num (waits_for x) (pc(w := ?p)) n else 0) + needs A ((pc(w := ?p)) x)"
      by (auto simp: with_sema_simps [OF sh w] n owed_def)
  qed
  with pcd p show "spmd_inv n A us ?S (pc(w := ?p)) ask"
    by (intro sema_move [OF inv w w]) (auto simp: plain_def)
qed

lemma step_master_signal:
  assumes inv: "spmd_inv n A us S pc ask" and w: "w < n" and p: "pc w = MSignal i r" "i < n" "i \<noteq> w"
  shows "keeps_inv n pc ask w (spmd_step S w (pc w))"
proof (rule keeps_invI)
  note sh = invD(1) [OF inv] and t = invD(3) [OF inv] and pcd = pc_okD [OF inv w]
  let ?S = "with_sema S i (Suc (sema S i))" and ?p = "MSignal (Suc i) r"
  show "spmd_step S w (pc w) = Some (Inr (?S, ?p))"
    using p by (simp add: nat_num [OF sh] sem_post_ok [OF sh p(2)] go_def)
  have A: "A = Some w"
    using pcd p by simp
  have n: "num (waits_for m) (pc(w := ?p)) n = num (waits_for m) pc n" "num (joined m) (pc(w := ?p)) n = num (joined m) pc n" for m
    using w p by (auto intro!: num_same)
  have "tokens_ok n A ?S (pc(w := ?p))"
  proof (rule tokens_okI)
    fix x
    assume x: "x < n" "A = Some x"
    with A p tokensD(1) [OF t x] show "sema ?S x + k_stop n ((pc(w := ?p)) x) + num (joined x) (pc(w := ?p)) n = n - 1"
      by (auto simp: with_sema_simps [OF sh p(2)] n)
  next
    fix x
    assume x: "x < n" "A \<noteq> Some x"
    from tokensD(2) [OF t x] x p A show "sema ?S x + owed A (pc(w := ?p)) x + k_start n ((pc(w := ?p)) x) =
       (if top_worker ?S = Some x then num (waits_for x) (pc(w := ?p)) n else 0) + needs A ((pc(w := ?p)) x)"
      by (auto simp: with_sema_simps [OF sh p(2)] n owed_def Suc_le_eq of_bool_def)
  qed
  with pcd p show "spmd_inv n A us ?S (pc(w := ?p)) ask"
    by (intro sema_move [OF inv w p(2)]) (auto simp: plain_def)
qed

lemma step_post:
  assumes inv: "spmd_inv n A us S pc ask" and w: "w < n" and p: "pc w = NPost r"
  shows "keeps_inv n pc ask w (spmd_step S w (pc w))"
proof -
  note sh = invD(1) [OF inv] and t = invD(3) [OF inv] and pcd = pc_okD [OF inv w]
  obtain b where b: "rq_wctx r = Some b" "top_worker S = Some b" "b \<noteq> w"
    using pcd p by auto
  have bn: "b < n" "A \<noteq> Some b"
    using top_owner [OF invD(4) [OF inv] sh b(2)] by auto
  have Aw: "A \<noteq> Some w"
    using pcd p by simp
  let ?S = "with_sema S b (Suc (sema S b))" and ?p = "NWait r"
  have n: "num (waits_for b) (pc(w := ?p)) n = num (waits_for b) pc n + 1"
    "m \<noteq> b \<Longrightarrow> num (waits_for m) (pc(w := ?p)) n = num (waits_for m) pc n"
    "m \<noteq> b \<Longrightarrow> num (joined m) (pc(w := ?p)) n = num (joined m) pc n" for m
    using num_upd [OF w, of "waits_for b" pc ?p] p b by (auto intro!: num_same [OF w])
  have "tokens_ok n A ?S (pc(w := ?p))"
  proof (rule tokens_okI)
    fix x
    assume x: "x < n" "A = Some x"
    with bn Aw have "x \<noteq> b" "x \<noteq> w"
      by auto
    with tokensD(1) [OF t x] x show "sema ?S x + k_stop n ((pc(w := ?p)) x) + num (joined x) (pc(w := ?p)) n = n - 1"
      by (auto simp: with_sema_simps [OF sh bn(1)] n)
  next
    fix x
    assume x: "x < n" "A \<noteq> Some x"
    have "needs A ?p = needs A (pc w)"
      using b bn p by (auto simp: needs_def split: option.splits)
    with tokensD(2) [OF t x] x p b Aw show "sema ?S x + owed A (pc(w := ?p)) x + k_start n ((pc(w := ?p)) x) =
       (if top_worker ?S = Some x then num (waits_for x) (pc(w := ?p)) n else 0) + needs A ((pc(w := ?p)) x)"
      by (cases "x = b") (auto simp: with_sema_simps [OF sh bn(1)] n owed_upd_other)
  qed
  then have "spmd_inv n A us ?S (pc(w := ?p)) ask"
    using pcd p b by (intro sema_move [OF inv w bn(1)]) (auto simp: plain_def)
  then show ?thesis
    using p b by (intro keeps_invI [of _ ?S ?p]) (auto simp: sem_post_ok [OF sh bn(1)] go_def)
qed

lemma step_release:
  assumes inv: "spmd_inv n A us S pc ask" and w: "w < n" and p: "pc w = NWait r" and s: "sema S w \<noteq> 0"
  shows "keeps_inv n pc ask w (spmd_step S w (pc w))"
proof -
  note sh = invD(1) [OF inv] and t = invD(3) [OF inv] and pcd = pc_okD [OF inv w]
  obtain a where a: "rq_wctx r = Some a" "top_worker S = Some a \<or> A = Some a" "a \<noteq> w"
    using pcd p by auto
  have Aw: "A \<noteq> Some w"
    using pcd p by simp
  have A: "A = Some a"
  proof (rule ccontr)
    assume "A \<noteq> Some a"
    with a have "needs A (pc w) = 0" "top_worker S \<noteq> Some w"
      using p by (auto simp: needs_def split: option.splits)
    with tokensD(2) [OF t w Aw] s show False
      by simp
  qed
  have top: "top_worker S \<noteq> Some a"
    using top_owner [OF invD(4) [OF inv] sh] A by blast
  let ?S = "with_sema S w (sema S w - 1)" and ?p = "NEnter r"
  have n: "m \<noteq> a \<Longrightarrow> num (waits_for m) (pc(w := ?p)) n = num (waits_for m) pc n"
    "num (joined m) (pc(w := ?p)) n = num (joined m) pc n" for m
    using p a by (auto intro!: num_same [OF w])
  have "tokens_ok n A ?S (pc(w := ?p))"
  proof (rule tokens_okI)
    fix x
    assume x: "x < n" "A = Some x"
    with A a(3) tokensD(1) [OF t x] show "sema ?S x + k_stop n ((pc(w := ?p)) x) + num (joined x) (pc(w := ?p)) n = n - 1"
      by (auto simp: with_sema_simps [OF sh w] n)
  next
    fix x
    assume x: "x < n" "A \<noteq> Some x"
    have "needs A (pc w) = 1" "needs A ?p = 0"
      using A a p by (auto simp: needs_def)
    moreover have "top_worker S = Some x \<Longrightarrow> num (waits_for x) (pc(w := ?p)) n = num (waits_for x) pc n"
      using top by (intro n) auto
    ultimately show "sema ?S x + owed A (pc(w := ?p)) x + k_start n ((pc(w := ?p)) x) =
       (if top_worker ?S = Some x then num (waits_for x) (pc(w := ?p)) n else 0) + needs A ((pc(w := ?p)) x)"
      using tokensD(2) [OF t x] s p Aw x w by (auto simp: with_sema_simps [OF sh w] owed_upd_other)
  qed
  then have "spmd_inv n A us ?S (pc(w := ?p)) ask"
    using pcd p a A by (intro sema_move [OF inv w w]) (auto simp: plain_def)
  then show ?thesis
    using p s by (intro keeps_invI [of _ ?S ?p]) (auto simp: sem_wait_ok [OF sh w] go_def go_wait_def)
qed

lemma step_leave:
  assumes inv: "spmd_inv n A us S pc ask" and w: "w < n" and p: "pc w = NStop r"
  shows "keeps_inv n pc ask w (spmd_step S w (pc w))"
proof -
  note sh = invD(1) [OF inv] and t = invD(3) [OF inv] and pcd = pc_okD [OF inv w]
  obtain a where a: "rq_wctx r = Some a" "A = Some a" "a \<noteq> w"
    using pcd p by auto
  have an: "a < n"
    using invD(2) [OF inv] a by (simp add: pcs_ok_def)
  let ?S = "with_sema S a (Suc (sema S a))" and ?p = "HTop"
  have n: "num (joined a) (pc(w := ?p)) n + 1 = num (joined a) pc n"
    "num (waits_for m) (pc(w := ?p)) n = num (waits_for m) pc n" for m
    using num_upd [OF w, of "joined a" pc ?p] p a by (auto intro!: num_same [OF w])
  have "tokens_ok n A ?S (pc(w := ?p))"
  proof (rule tokens_okI)
    fix x
    assume x: "x < n" "A = Some x"
    with a n(1) tokensD(1) [OF t x] show "sema ?S x + k_stop n ((pc(w := ?p)) x) + num (joined x) (pc(w := ?p)) n = n - 1"
      by (auto simp: with_sema_simps [OF sh an])
  next
    fix x
    assume x: "x < n" "A \<noteq> Some x"
    have "needs A (pc w) = needs A ?p"
      using a p by (auto simp: needs_def)
    with tokensD(2) [OF t x] x a p show "sema ?S x + owed A (pc(w := ?p)) x + k_start n ((pc(w := ?p)) x) =
       (if top_worker ?S = Some x then num (waits_for x) (pc(w := ?p)) n else 0) + needs A ((pc(w := ?p)) x)"
      by (auto simp: with_sema_simps [OF sh an] n owed_def)
  qed
  then have "spmd_inv n A us ?S (pc(w := ?p)) ask"
    using pcd p a by (intro sema_move [OF inv w an]) (auto simp: plain_def)
  then show ?thesis
    using p a by (intro keeps_invI [of _ ?S ?p]) (auto simp: sem_post_ok [OF sh an] go_def)
qed

subsection \<open>Moves on the queue\<close>

lemma slot_ok_not_in: "slot_ok i w q ask p \<Longrightarrow> \<not> in_slot p"
  by (cases p) auto

lemma queueD:
  assumes "queue_ok n A us S pc ask"
  shows "distinct us" "set us \<subseteq> {..<n}" "A = Some a \<Longrightarrow> a \<notin> set us"
    "j < length us \<Longrightarrow> slot_ok ((sp_qhead S + j) mod n) (us ! j) (slot S ((sp_qhead S + j) mod n)) (ask (us ! j)) (pc (us ! j))"
    "length us \<le> j \<Longrightarrow> j < n \<Longrightarrow> rq_wctx (slot S ((sp_qhead S + j) mod n)) = None"
    "sp_qtail S mod n = (sp_qhead S + length us) mod n"
    "w < n \<Longrightarrow> in_queue (pc w) \<Longrightarrow> w \<in> set us"
    "w < n \<Longrightarrow> pending S w = of_bool (w \<in> set us \<or> A = Some w \<or> in_slot (pc w))"
  using assms unfolding queue_ok_def by blast+

text \<open>A new request of worker \<open>w\<close>.\<close>

lemma step_ask:
  assumes inv: "spmd_inv n A us S pc ask" and w: "w < n" "pc w = Outside" "pending S w = 0"
  shows "\<exists>S'. req_pending S (int w) = Inr S' \<and>
    spmd_inv n A us S' (pc(w := QSlot f a t)) (ask(w := \<lparr>rq_wctx = Some w, rq_func = f, rq_arg = a, rq_task = t\<rparr>))"
proof -
  note sh = invD(1) [OF inv] and tk = invD(3) [OF inv] and q = invD(4) [OF inv]
  let ?ask = "ask(w := \<lparr>rq_wctx = Some w, rq_func = f, rq_arg = a, rq_task = t\<rparr>)" and ?pc = "pc(w := QSlot f a t)"
  define S' where "S' = S\<lparr>sp_worker_data := (sp_worker_data S)[w := (sp_worker_data S ! w)\<lparr>sw_pending := 1\<rparr>]\<rparr>"
  have len: "length (sp_worker_data S) = n" "sp_num_workers S = int n"
    using sh by (simp_all add: shape_def)
  have r: "req_pending S (int w) = Inr S'"
    using w len by (simp add: req_pending_def upd_worker_def S'_def)
  have nw: "w \<notin> set us" "A \<noteq> Some w"
    using queueD(8) [OF q w(1)] w(3) by auto
  have d: "sema S' x = sema S x" "pending S' x = (if x = w then 1 else pending S x)" if "x < n" for x
    using that w len by (auto simp: S'_def nth_list_update)
  have sq: "same_queue S S'"
    using len by (simp add: S'_def same_queue_def)
  have "tokens_ok n A S' ?pc"
    using w nw d by (intro tokens_local [OF tk w(1) sq]) (auto simp: same_count_def)
  moreover have "pcs_ok n A S' ?pc ?ask"
    using invD(2) [OF inv] w nw sq by (auto simp: pcs_ok_def same_queue_def)
  moreover have "queue_ok n A us S' ?pc ?ask"
  proof -
    have "slot_ok i (us ! j) s (?ask (us ! j)) (?pc (us ! j)) = slot_ok i (us ! j) s (ask (us ! j)) (pc (us ! j))"
      if "j < length us" for i j s
      using nw that by (metis fun_upd_other nth_mem)
    with q w nw d sq show ?thesis
      unfolding queue_ok_def same_queue_def by auto
  qed
  ultimately show ?thesis
    using r shape_same [OF sh sq] by (auto simp: spmd_inv_def)
qed

lemma step_slot:
  assumes inv: "spmd_inv n A us S pc ask" and w: "w < n" and p: "pc w = QSlot f a t"
  shows "keeps_inv n pc ask w (spmd_step S w (pc w))"
proof -
  note sh = invD(1) [OF inv] and tk = invD(3) [OF inv] and q = invD(4) [OF inv] and pcd = pc_okD [OF inv w]
  let ?i = "sp_qtail S mod n" and ?S = "S\<lparr>sp_qtail := sp_qtail S + 1\<rparr>" and ?p = "QWctx (sp_qtail S mod n) f a t"
  have step: "spmd_step S w (pc w) = Some (Inr (?S, ?p))"
    using p by (simp add: req_slot_def nat_num [OF sh])
  have nw: "w \<notin> set us"
  proof
    assume "w \<in> set us"
    then obtain j where "j < length us" "us ! j = w"
      by (auto simp: in_set_conv_nth)
    with queueD(4) [OF q] slot_ok_not_in p show False
      by (metis in_slot.simps(1))
  qed
  have Aw: "A \<noteq> Some w"
    using pcd p by simp
  have lt: "length us < n"
  proof -
    have "set us \<subseteq> {..<n} - {w}"
      using queueD(2) [OF q] nw by auto
    then have "card (set us) \<le> n - 1"
      using card_mono [of "{..<n} - {w}" "set us"] w by simp
    then show ?thesis
      using queueD(1) [OF q] w by (simp add: distinct_card)
  qed
  have i: "?i = (sp_qhead S + length us) mod n"
    using queueD(6) [OF q] .
  have "spmd_inv n A (us @ [w]) ?S (pc(w := ?p)) ask"
    unfolding spmd_inv_def
  proof (intro conjI)
    show "shape n ?S"
      using sh by (simp add: shape_def)
    show "pcs_ok n A ?S (pc(w := ?p)) ask"
      using invD(2) [OF inv] w Aw by (auto simp: pcs_ok_def)
    have n: "num (waits_for m) (pc(w := ?p)) n = num (waits_for m) pc n" "num (joined m) (pc(w := ?p)) n = num (joined m) pc n" for m
      using p by (auto intro!: num_same [OF w])
    have "needs A ?p = needs A (pc w)"
      using p by (auto simp: needs_def split: option.splits)
    with tk p Aw show "tokens_ok n A ?S (pc(w := ?p))"
      by (auto simp: tokens_ok_def n owed_upd_other)
    have new: "slot_ok ?i w (slot S ?i) (ask w) ?p"
      using queueD(5) [OF q, of "length us"] lt pcd p i by simp
    have "slot_ok ((sp_qhead S + j) mod n) ((us @ [w]) ! j) (slot S ((sp_qhead S + j) mod n)) (ask ((us @ [w]) ! j)) ((pc(w := ?p)) ((us @ [w]) ! j))"
      if "j < length (us @ [w])" for j
    proof (cases "j < length us")
      case True
      then have "us ! j \<noteq> w"
        using nw by (metis nth_mem)
      with True queueD(4) [OF q True] show ?thesis
        by (simp add: nth_append)
    next
      case False
      with that have "j = length us"
        by simp
      with new i show ?thesis
        by simp
    qed
    moreover have "(sp_qtail S + 1) mod n = (sp_qhead S + length (us @ [w])) mod n"
      using i by (metis add.assoc length_append_singleton mod_add_left_eq Suc_eq_plus1)
    ultimately show "queue_ok n A (us @ [w]) ?S (pc(w := ?p)) ask"
      using q nw w Aw p unfolding queue_ok_def by auto
  qed
  with step show ?thesis
    by (rule keeps_invI)
qed

lemma step_wctx:
  assumes inv: "spmd_inv n A us S pc ask" and w: "w < n" and p: "pc w = QWctx i f a t"
  shows "keeps_inv n pc ask w (spmd_step S w (pc w))"
proof -
  note sh = invD(1) [OF inv] and tk = invD(3) [OF inv] and q = invD(4) [OF inv] and pcd = pc_okD [OF inv w]
  have "w \<in> set us"
    using queueD(7) [OF q w] p by simp
  then obtain j where j: "j < length us" "us ! j = w"
    by (auto simp: in_set_conv_nth)
  have sl: "i = (sp_qhead S + j) mod n" "rq_wctx (slot S i) = None"
    "ask w = \<lparr>rq_wctx = Some w, rq_func = f, rq_arg = a, rq_task = t\<rparr>"
    using queueD(4) [OF q j(1)] j p by auto
  have Aw: "A \<noteq> Some w"
    using pcd p by simp
  have len: "length (sp_req_queue S) = n" "i < n" "sp_qhead S < n" "length us \<le> n"
    using sh sl us_length [OF q] by (auto simp: shape_def)
  let ?q = "(slot S i)\<lparr>rq_wctx := Some w\<rparr>"
  let ?S = "S\<lparr>sp_req_queue := (sp_req_queue S)[i := ?q]\<rparr>" and ?p = "QRest i f a t"
  have step: "spmd_step S w (pc w) = Some (Inr (?S, ?p))"
    using p len by (simp add: req_wctx_def upd_req_def go_def)
  have top: "top_worker ?S = (if i = sp_qhead S then Some w else top_worker S)" "i = sp_qhead S \<Longrightarrow> top_worker S = None"
    using len sl by auto
  have n: "num (waits_for m) (pc(w := ?p)) n = num (waits_for m) pc n" "num (joined m) (pc(w := ?p)) n = num (joined m) pc n" for m
    using p by (auto intro!: num_same [OF w])
  have pcs: "pc_ok n A (top_worker ?S) (sp_qhead S) (ask x) x (pc x)" if "x < n" for x
    using pc_okD(1) [OF inv that] top by (cases "pc x") auto
  have none: "num (waits_for w) pc n = 0" if "i = sp_qhead S"
  proof -
    have "\<not> waits_for w (pc x)" if x: "x < n" for x
      using pc_okD(1) [OF inv x] top(2) [OF \<open>i = sp_qhead S\<close>] Aw by (cases "pc x") auto
    then show ?thesis
      by (simp add: num_0)
  qed
  have "spmd_inv n A us ?S (pc(w := ?p)) ask"
    unfolding spmd_inv_def
  proof (intro conjI)
    show "shape n ?S"
      using sh by (simp add: shape_def)
    show "pcs_ok n A ?S (pc(w := ?p)) ask"
      using invD(2) [OF inv] pcs w Aw by (auto simp: pcs_ok_def)
    have nd: "needs A ?p = needs A (pc w)"
      using p by (auto simp: needs_def split: option.splits)
    show "tokens_ok n A ?S (pc(w := ?p))"
    proof (rule tokens_okI)
      fix x
      assume x: "x < n" "A = Some x"
      with tokensD(1) [OF tk x] Aw show "sema ?S x + k_stop n ((pc(w := ?p)) x) + num (joined x) (pc(w := ?p)) n = n - 1"
        by (auto simp: n)
    next
      fix x
      assume x: "x < n" "A \<noteq> Some x"
      have "(if top_worker ?S = Some x then num (waits_for x) pc n else 0) = (if top_worker S = Some x then num (waits_for x) pc n else 0)"
        using top none by auto
      with tokensD(2) [OF tk x] p nd Aw show "sema ?S x + owed A (pc(w := ?p)) x + k_start n ((pc(w := ?p)) x) =
          (if top_worker ?S = Some x then num (waits_for x) (pc(w := ?p)) n else 0) + needs A ((pc(w := ?p)) x)"
        by (auto simp: n owed_upd_other)
    qed
    have "slot_ok ((sp_qhead S + k) mod n) (us ! k) (slot ?S ((sp_qhead S + k) mod n)) (ask (us ! k)) ((pc(w := ?p)) (us ! k))"
      if k: "k < length us" for k
    proof (cases "k = j")
      case True
      then show ?thesis
        using j sl len by simp
    next
      case False
      then have "us ! k \<noteq> w" "(sp_qhead S + k) mod n \<noteq> i"
        using queueD(1) [OF q] j k len sl mod_add_inj [of k n j "sp_qhead S"] by (auto simp: nth_eq_iff_index_eq)
      with queueD(4) [OF q k] show ?thesis
        by simp
    qed
    moreover have "rq_wctx (slot ?S ((sp_qhead S + k) mod n)) = None" if k: "length us \<le> k" "k < n" for k
      using queueD(5) [OF q k] k j len sl mod_add_inj [of k n j "sp_qhead S"] by auto
    ultimately show "queue_ok n A us ?S (pc(w := ?p)) ask"
      using q p unfolding queue_ok_def by auto
  qed
  with step show ?thesis
    by (rule keeps_invI)
qed

lemma step_rest:
  assumes inv: "spmd_inv n A us S pc ask" and w: "w < n" and p: "pc w = QRest i f a t"
  shows "keeps_inv n pc ask w (spmd_step S w (pc w))"
proof -
  note sh = invD(1) [OF inv] and tk = invD(3) [OF inv] and q = invD(4) [OF inv] and pcd = pc_okD [OF inv w]
  have "w \<in> set us"
    using queueD(7) [OF q w] p by simp
  then obtain j where j: "j < length us" "us ! j = w"
    by (auto simp: in_set_conv_nth)
  have sl: "i = (sp_qhead S + j) mod n" "rq_wctx (slot S i) = Some w"
    "ask w = \<lparr>rq_wctx = Some w, rq_func = f, rq_arg = a, rq_task = t\<rparr>"
    using queueD(4) [OF q j(1)] j p by auto
  have Aw: "A \<noteq> Some w"
    using pcd p by simp
  have len: "length (sp_req_queue S) = n" "i < n" "sp_qhead S < n" "length us \<le> n"
    using sh sl us_length [OF q] by (auto simp: shape_def)
  let ?q = "(slot S i)\<lparr>rq_func := f, rq_arg := a, rq_task := t\<rparr>"
  let ?S = "S\<lparr>sp_req_queue := (sp_req_queue S)[i := ?q]\<rparr>" and ?p = "HTop"
  have step: "spmd_step S w (pc w) = Some (Inr (?S, ?p))"
    using p len w sh by (simp add: req_rest_def upd_req_def go_def handle_entry_def shape_def)
  have full: "?q = ask w"
    using sl by (cases "slot S i") simp
  have top: "top_worker ?S = top_worker S"
    using len sl by (cases "i = sp_qhead S") auto
  have n: "num (waits_for m) (pc(w := ?p)) n = num (waits_for m) pc n" "num (joined m) (pc(w := ?p)) n = num (joined m) pc n" for m
    using p by (auto intro!: num_same [OF w])
  have "spmd_inv n A us ?S (pc(w := ?p)) ask"
    unfolding spmd_inv_def
  proof (intro conjI)
    show "shape n ?S"
      using sh by (simp add: shape_def)
    show "pcs_ok n A ?S (pc(w := ?p)) ask"
      using invD(2) [OF inv] top w Aw by (auto simp: pcs_ok_def)
    have nd: "needs A ?p = needs A (pc w)"
      using p by (auto simp: needs_def split: option.splits)
    with tk p Aw top show "tokens_ok n A ?S (pc(w := ?p))"
      by (auto simp: tokens_ok_def n owed_upd_other)
    have "slot_ok ((sp_qhead S + k) mod n) (us ! k) (slot ?S ((sp_qhead S + k) mod n)) (ask (us ! k)) ((pc(w := ?p)) (us ! k))"
      if k: "k < length us" for k
    proof (cases "k = j")
      case True
      then show ?thesis
        using j sl len full by simp
    next
      case False
      then have "us ! k \<noteq> w" "(sp_qhead S + k) mod n \<noteq> i"
        using queueD(1) [OF q] j k len sl mod_add_inj [of k n j "sp_qhead S"] by (auto simp: nth_eq_iff_index_eq)
      with queueD(4) [OF q k] show ?thesis
        by simp
    qed
    moreover have "rq_wctx (slot ?S ((sp_qhead S + k) mod n)) = None" if k: "length us \<le> k" "k < n" for k
      using queueD(5) [OF q k] k j len sl mod_add_inj [of k n j "sp_qhead S"] by auto
    ultimately show "queue_ok n A us ?S (pc(w := ?p)) ask"
      using q p unfolding queue_ok_def by auto
  qed
  with step show ?thesis
    by (rule keeps_invI)
qed

subsection \<open>Begin and end of a round\<close>

text \<open>When the master has done its waits, all other workers wait for it and no round is active.\<close>

lemma section_alone:
  assumes inv: "spmd_inv n A us S pc ask" and w: "w < n" and p: "pc w = MSection h r"
  shows "x < n \<Longrightarrow> x \<noteq> w \<Longrightarrow> waits_for w (pc x)" "A = None" "x < n \<Longrightarrow> sema S x = 0"
proof -
  note tk = invD(3) [OF inv] and pcd = pc_okD [OF inv w]
  have Aw: "A \<noteq> Some w" and top: "top_worker S = Some w"
    using pcd p by auto
  have "needs A (pc w) = 0"
    using p by (simp add: needs_def split: option.splits)
  with tokensD(2) [OF tk w Aw] top p have eq: "sema S w + owed A pc w + (n - 1) = num (waits_for w) pc n"
    by simp
  moreover have "num (waits_for w) pc n \<le> n - 1"
    using p by (intro num_le [OF w]) simp
  ultimately have all: "n - 1 \<le> num (waits_for w) pc n" "sema S w = 0"
    by simp_all
  show wt: "waits_for w (pc x)" if "x < n" "x \<noteq> w" for x
    using num_all [OF all(1) w _ that] p by simp
  show An: "A = None"
  proof (rule ccontr)
    assume "A \<noteq> None"
    then obtain a where a: "A = Some a" "a < n" "act_req (pc a) \<noteq> None"
      using invD(2) [OF inv] by (auto simp: pcs_ok_def)
    with Aw have "waits_for w (pc a)"
      by (intro wt) auto
    with a show False
      by (cases "pc a") auto
  qed
  show "sema S x = 0" if x: "x < n" for x
  proof (cases "x = w")
    case False
    with wt [OF x] tokensD(2) [OF tk x] An top show ?thesis
      by (auto simp: owed_def needs_def)
  qed (use all in simp)
qed

lemma step_section:
  assumes inv: "spmd_inv n A us S pc ask" and w: "w < n" and p: "pc w = MSection h r"
  shows "keeps_inv n pc ask w (spmd_step S w (pc w))"
proof -
  note sh = invD(1) [OF inv] and q = invD(4) [OF inv] and pcd = pc_okD [OF inv w]
  note alone = section_alone [OF inv w p]
  have h: "h = sp_qhead S" "r = ask w" "top_worker S = Some w" "h < n" "length (sp_req_queue S) = n" "rq_wctx r = Some w"
    using pcd p sh by (auto simp: shape_def)
  obtain vs where us: "us = w # vs"
    using top_owner [OF q sh h(3)] by (cases us) auto
  let ?h = "(h + 1) mod n" and ?t = "if sp_qtail S \<ge> n then sp_qtail S mod n else sp_qtail S"
  define S' where "S' = S\<lparr>sp_req_queue := (sp_req_queue S)[h := (slot S h)\<lparr>rq_wctx := None\<rparr>], sp_qhead := ?h, sp_qtail := ?t\<rparr>"
  let ?p = "MSignal 0 r" and ?A = "Some w"
  have step: "spmd_step S w (pc w) = Some (Inr (S', ?p))"
    using p h nat_num [OF sh] by (simp add: master_section_def upd_req_def go_def Let_def S'_def)
  have vs: "w \<notin> set vs" "distinct vs" "set vs \<subseteq> {..<n}" "length us \<le> n"
    using queueD(1,2) [OF q] us_length [OF q] us by auto
  have wait: "waits_for w (pc x) \<and> pc x \<noteq> ?p \<and> plain (pc x) \<and> act_req (pc x) = None \<and> k_start n (pc x) = 0" if "x < n" "x \<noteq> w" for x
    using alone(1) [OF that] by (cases "pc x") (auto simp: plain_def)
  have idx: "(?h + j) mod n = (h + Suc j) mod n" for j
    by (simp add: mod_add_left_eq)
  have other: "(h + Suc j) mod n \<noteq> h" if "Suc j < n" for j
    using mod_add_inj [of "Suc j" n 0 h] that h(4) by simp
  have "spmd_inv n ?A vs S' (pc(w := ?p)) ask"
    unfolding spmd_inv_def
  proof (intro conjI)
    show "shape n S'"
      using sh h(4) by (auto simp: shape_def S'_def)
    show "pcs_ok n ?A S' (pc(w := ?p)) ask"
      unfolding pcs_ok_def
    proof (intro conjI allI impI)
      fix x
      assume x: "x < n"
      show "pc_ok n ?A (top_worker S') (sp_qhead S') (ask x) x ((pc(w := ?p)) x)"
        using h(2,6) wait [OF x] by (cases "x = w"; cases "pc x") auto
      show "act_req ((pc(w := ?p)) x) \<noteq> None \<longleftrightarrow> ?A = Some x"
        using wait [OF x] by auto
    qed (use w in auto)
    show "tokens_ok n ?A S' (pc(w := ?p))"
    proof (rule tokens_okI)
      fix x
      assume x: "x < n" "?A = Some x"
      have "num (joined w) (pc(w := ?p)) n = n - 1"
        using wait waits_joined by (intro num_others [OF w]) auto
      with x alone(3) [OF x(1)] show "sema S' x + k_stop n ((pc(w := ?p)) x) + num (joined x) (pc(w := ?p)) n = n - 1"
        by (auto simp: S'_def)
    next
      fix x
      assume x: "x < n" "?A \<noteq> Some x"
      then have xw: "x \<noteq> w"
        by simp
      have "\<not> waits_for x ((pc(w := ?p)) y)" if "y < n" for y
        using wait [OF that] xw by (cases "pc y") auto
      then have "num (waits_for x) (pc(w := ?p)) n = 0"
        by (simp add: num_0)
      with wait [OF x(1) xw] xw alone(3) [OF x(1)] show "sema S' x + owed ?A (pc(w := ?p)) x + k_start n ((pc(w := ?p)) x) =
          (if top_worker S' = Some x then num (waits_for x) (pc(w := ?p)) n else 0) + needs ?A ((pc(w := ?p)) x)"
        by (simp add: S'_def owed_def needs_def)
    qed
    have sl: "slot_ok ((sp_qhead S' + j) mod n) (vs ! j) (slot S' ((sp_qhead S' + j) mod n)) (ask (vs ! j)) ((pc(w := ?p)) (vs ! j))"
      if j: "j < length vs" for j
    proof -
      have "vs ! j \<noteq> w"
        using vs(1) j by (metis nth_mem)
      moreover have "(h + Suc j) mod n \<noteq> h"
        using other [of j] j vs(4) us by simp
      ultimately show ?thesis
        using queueD(4) [OF q, of "Suc j"] j us h(1) idx by (simp add: S'_def)
    qed
    have free: "rq_wctx (slot S' ((sp_qhead S' + j) mod n)) = None" if j: "length vs \<le> j" "j < n" for j
    proof (cases "Suc j < n")
      case True
      with queueD(5) [OF q, of "Suc j"] j us other [of j] h(1) idx show ?thesis
        by (simp add: S'_def)
    next
      case False
      with j(2) have "(h + Suc j) mod n = h"
        using h(4) by (metis Suc_lessI mod_add_self2 mod_less)
      with h idx show ?thesis
        by (simp add: S'_def)
    qed
    have tail: "sp_qtail S' mod n = (sp_qhead S' + length vs) mod n"
      using queueD(6) [OF q] us h(1) idx [of "length vs"] by (simp add: S'_def)
    have "in_queue ((pc(w := ?p)) x) \<longrightarrow> x \<in> set vs" if "x < n" for x
      using wait [OF that] by (auto simp: plain_def)
    moreover have "pending S' x = of_bool (x \<in> set vs \<or> ?A = Some x \<or> in_slot ((pc(w := ?p)) x))" if "x < n" for x
      using queueD(8) [OF q that] wait [OF that] us alone(2) by (auto simp: S'_def plain_def)
    ultimately show "queue_ok n ?A vs S' (pc(w := ?p)) ask"
      using vs sl free tail unfolding queue_ok_def by auto
  qed
  with step show ?thesis
    by (rule keeps_invI)
qed

lemma step_done:
  assumes inv: "spmd_inv n A us S pc ask" and w: "w < n" and p: "pc w = MDone r"
  shows "keeps_inv n pc ask w (spmd_step S w (pc w))"
proof -
  note sh = invD(1) [OF inv] and tk = invD(3) [OF inv] and q = invD(4) [OF inv] and pcd = pc_okD [OF inv w]
  have A: "A = Some w"
    using pcd p by simp
  have len: "length (sp_worker_data S) = n" "pending S w = 1"
    using sh queueD(8) [OF q w] A by (simp_all add: shape_def)
  define S' where "S' = S\<lparr>sp_worker_data := (sp_worker_data S)[w := (sp_worker_data S ! w)\<lparr>sw_pending := 0\<rparr>]\<rparr>"
  let ?p = "HTop"
  have step: "spmd_step S w (pc w) = Some (Inr (S', ?p))"
    using p len w by (simp add: master_done_def upd_worker_def go_def S'_def)
  have d: "sema S' x = sema S x" "pending S' x = (if x = w then 0 else pending S x)" if "x < n" for x
    using that w len by (auto simp: S'_def nth_list_update)
  have sq: "same_queue S S'"
    using len by (simp add: S'_def same_queue_def)
  have "sema S w + (n - 1) + num (joined w) pc n = n - 1"
    using tokensD(1) [OF tk w A] p by simp
  then have z: "sema S w = 0" "num (joined w) pc n = 0"
    by simp_all
  have nj: "\<not> joined w (pc x)" if "x < n" for x
    using z(2) that by (simp add: num_0)
  have top: "top_worker S \<noteq> Some w"
    using top_owner [OF q sh] A by blast
  have n: "num (waits_for m) (pc(w := ?p)) n = num (waits_for m) pc n" for m
    using p by (auto intro!: num_same [OF w])
  have "spmd_inv n None us S' (pc(w := ?p)) ask"
    unfolding spmd_inv_def
  proof (intro conjI)
    show "shape n S'"
      using sh sq by (rule shape_same)
    show "pcs_ok n None S' (pc(w := ?p)) ask"
      unfolding pcs_ok_def
    proof (intro conjI allI impI)
      fix x
      assume x: "x < n"
      have "pc_ok n None (top_worker S) (sp_qhead S) (ask x) x (pc x)"
        using pc_okD(1) [OF inv x] A nj [OF x] by (cases "pc x") auto
      with sq show "pc_ok n None (top_worker S') (sp_qhead S') (ask x) x ((pc(w := ?p)) x)"
        by (simp add: same_queue_def)
      show "act_req ((pc(w := ?p)) x) \<noteq> None \<longleftrightarrow> None = Some x"
        using pc_okD(2) [OF inv x] A by auto
    qed auto
    show "tokens_ok n None S' (pc(w := ?p))"
    proof (rule tokens_okI)
      fix x
      assume x: "x < n" "None \<noteq> Some x"
      show "sema S' x + owed None (pc(w := ?p)) x + k_start n ((pc(w := ?p)) x) =
          (if top_worker S' = Some x then num (waits_for x) (pc(w := ?p)) n else 0) + needs None ((pc(w := ?p)) x)"
      proof (cases "x = w")
        case True
        with z top sq d [OF x(1)] show ?thesis
          by (simp add: owed_def needs_def same_queue_def)
      next
        case False
        have "\<not> waits_for w (pc x)"
          using nj [OF x(1)] waits_joined by blast
        with tokensD(2) [OF tk x(1)] False A p sq d [OF x(1)] show ?thesis
          by (auto simp: owed_def needs_def same_queue_def n)
      qed
    qed simp
    have "w \<notin> set us"
      using queueD(3) [OF q A] .
    moreover have "slot_ok i (us ! j) s k ((pc(w := ?p)) (us ! j)) = slot_ok i (us ! j) s k (pc (us ! j))"
      if "j < length us" for i j s k
      using calculation that by (metis fun_upd_other nth_mem)
    ultimately show "queue_ok n None us S' (pc(w := ?p)) ask"
      using q A d p sq unfolding queue_ok_def same_queue_def by auto
  qed
  with step show ?thesis
    by (rule keeps_invI)
qed

subsection \<open>Every step keeps the invariant\<close>

text \<open>A step that is possible keeps the invariant; only a wait on an empty semaphore is not possible.\<close>

lemma step_keeps:
  assumes inv: "spmd_inv n A us S pc ask" and w: "w < n"
  shows "keeps_inv n pc ask w (spmd_step S w (pc w)) \<or>
    spmd_step S w (pc w) = None \<and> sema S w = 0 \<and>
      (case pc w of MWait k h r \<Rightarrow> k < n - 1 | MStop k r \<Rightarrow> k < n - 1 | NWait r \<Rightarrow> True | _ \<Rightarrow> False)"
proof (cases "pc w")
  case Outside
  then have "spmd_inv n A us S (pc(w := Outside)) ask"
    using inv by (simp add: fun_upd_idem)
  with Outside show ?thesis
    by (auto intro: keeps_invI)
next
  case (MWait k h r)
  then show ?thesis
    using step_local_master(1) [OF inv w MWait] step_master_wait [OF inv w MWait] nat_num [OF invD(1) [OF inv]]
      sem_wait_ok [OF invD(1) [OF inv] w]
    by (cases "k < n - 1"; cases "sema S w = 0") (auto simp: go_wait_def)
next
  case (MStop k r)
  then show ?thesis
    using step_local_master(4) [OF inv w MStop] step_master_stop [OF inv w MStop] nat_num [OF invD(1) [OF inv]]
      sem_wait_ok [OF invD(1) [OF inv] w]
    by (cases "k < n - 1"; cases "sema S w = 0") (auto simp: go_wait_def)
next
  case (NWait r)
  then show ?thesis
    using step_release [OF inv w NWait] sem_wait_ok [OF invD(1) [OF inv] w]
    by (cases "sema S w = 0") (auto simp: go_wait_def)
next
  case (MSignal i r)
  then show ?thesis
    using step_local_master(2) [OF inv w, of r] step_local_master(3) [OF inv w MSignal] step_master_signal [OF inv w MSignal]
    by (cases "i = w"; cases "i < n") auto
qed (use step_slot [OF inv w] step_wctx [OF inv w] step_rest [OF inv w] step_top [OF inv w] step_read [OF inv w]
      step_section [OF inv w] step_done [OF inv w] step_post [OF inv w] step_leave [OF inv w]
      step_curreq [OF inv w] in auto)

subsection \<open>The system of workers\<close>

record spmd_sys =
  sy_spmd :: spmd_t
  sy_pc :: "nat \<Rightarrow> spc"
  sy_ask :: "nat \<Rightarrow> spmdreq_t"

text \<open>
  A worker enters the handler before it runs a task, a task asks for an SPMD section, or a worker
  goes on inside one of the two functions. \<open>sy_ask\<close> remembers the last request of each worker.
\<close>

datatype sevent = SEnter nat | SAsk nat nat ptr ptr | SStep nat

fun senabled :: "nat \<Rightarrow> spmd_sys \<Rightarrow> sevent \<Rightarrow> bool" where
  "senabled n Y (SEnter w) \<longleftrightarrow> w < n \<and> sy_pc Y w = Outside"
| "senabled n Y (SAsk w f a t) \<longleftrightarrow> w < n \<and> sy_pc Y w = Outside"
| "senabled n Y (SStep w) \<longleftrightarrow> w < n \<and> sy_pc Y w \<noteq> Outside"

fun sexec :: "spmd_sys \<Rightarrow> sevent \<Rightarrow> spmd_sys res option" where
  "sexec Y (SEnter w) = Some (bindR (handle_entry (sy_spmd Y) w) (\<lambda>S. Inr (Y\<lparr>sy_spmd := S, sy_pc := (sy_pc Y)(w := HTop)\<rparr>)))"
| "sexec Y (SAsk w f a t) = Some (bindR (req_pending (sy_spmd Y) (int w)) (\<lambda>S. Inr (Y\<lparr>sy_spmd := S,
     sy_pc := (sy_pc Y)(w := QSlot f a t),
     sy_ask := (sy_ask Y)(w := \<lparr>rq_wctx = Some w, rq_func = f, rq_arg = a, rq_task = t\<rparr>)\<rparr>)))"
| "sexec Y (SStep w) = (case spmd_step (sy_spmd Y) w (sy_pc Y w) of None \<Rightarrow> None
     | Some r \<Rightarrow> Some (bindR r (\<lambda>(S, p). Inr (Y\<lparr>sy_spmd := S, sy_pc := (sy_pc Y)(w := p)\<rparr>))))"

text \<open>A task asks on a worker that has a request pending: the assertion of \<open>LpelSpmdRequest\<close> forbids it.\<close>

fun asks_again :: "spmd_sys \<Rightarrow> sevent \<Rightarrow> bool" where
  "asks_again Y (SAsk w f a t) \<longleftrightarrow> pending (sy_spmd Y) w \<noteq> 0"
| "asks_again Y (SEnter w) \<longleftrightarrow> False"
| "asks_again Y (SStep w) \<longleftrightarrow> False"

inductive sreach :: "nat \<Rightarrow> spmd_sys \<Rightarrow> bool" for n where
  start: "LpelSpmdInit spmd_static junk (int n) = Inr S \<Longrightarrow> sreach n \<lparr>sy_spmd = S, sy_pc = (\<lambda>_. Outside), sy_ask = (\<lambda>_. junk)\<rparr>"
| step: "sreach n Y \<Longrightarrow> senabled n Y e \<Longrightarrow> sexec Y e = Some (Inr Y') \<Longrightarrow> sreach n Y'"

definition sys_inv :: "nat \<Rightarrow> spmd_sys \<Rightarrow> bool" where
  "sys_inv n Y \<longleftrightarrow> (\<exists>A us. spmd_inv n A us (sy_spmd Y) (sy_pc Y) (sy_ask Y))"

lemma spmd_start:
  assumes "LpelSpmdInit spmd_static junk (int n) = Inr S"
  shows "spmd_inv n None [] S (\<lambda>_. Outside) ask"
proof -
  have n: "0 < n"
    using assms by (cases "0 < n") (auto simp: LpelSpmdInit_def)
  have z: "num (waits_for w) (\<lambda>_. Outside) n = 0" for w
    by (simp add: num_0)
  from assms n z show ?thesis
    by (auto simp: LpelSpmdInit_def spmd_inv_def shape_def pcs_ok_def tokens_ok_def queue_ok_def spmd_static_def owed_def needs_def)
qed

lemma sexec_refuses:
  assumes "sys_inv n Y" "senabled n Y e" "asks_again Y e"
  shows "sexec Y e = Some (Inl AssertFail)"
proof (cases e)
  case (SAsk w f a t)
  from assms(1) obtain A us where "shape n (sy_spmd Y)" by (auto simp: sys_inv_def spmd_inv_def)
  with SAsk assms(2,3) show ?thesis by (simp add: req_pending_def shape_def)
qed (use assms in simp_all)

lemma sexec_keeps:
  assumes "sys_inv n Y" "senabled n Y e" "\<not> asks_again Y e"
  shows "(\<exists>Y'. sexec Y e = Some (Inr Y') \<and> sys_inv n Y') \<or> sexec Y e = None"
proof -
  obtain A us where inv: "spmd_inv n A us (sy_spmd Y) (sy_pc Y) (sy_ask Y)"
    using assms(1) by (auto simp: sys_inv_def)
  show ?thesis
  proof (cases e)
    case (SEnter w)
    with assms(2) step_enter [OF inv] invD(1) [OF inv] show ?thesis
      by (auto simp: sys_inv_def handle_entry_def shape_def)
  next
    case (SAsk w f a t)
    with assms(2,3) obtain S' where "req_pending (sy_spmd Y) (int w) = Inr S'"
      "spmd_inv n A us S' ((sy_pc Y)(w := QSlot f a t))
        ((sy_ask Y)(w := \<lparr>rq_wctx = Some w, rq_func = f, rq_arg = a, rq_task = t\<rparr>))"
      using step_ask [OF inv, of w f a t] by auto
    then show ?thesis
      unfolding SAsk sys_inv_def by (intro disjI1) (simp, blast)
  next
    case (SStep w)
    with assms(2) step_keeps [OF inv, of w] consider "sexec Y e = None"
      | S' p A' us' where "spmd_step (sy_spmd Y) w (sy_pc Y w) = Some (Inr (S', p))"
        "spmd_inv n A' us' S' ((sy_pc Y)(w := p)) (sy_ask Y)"
      by (auto simp: keeps_inv_def)
    then show ?thesis
      unfolding SStep sys_inv_def by cases (simp_all, blast)
  qed
qed

lemma sreach_inv: "sreach n Y \<Longrightarrow> sys_inv n Y"
proof (induction rule: sreach.induct)
  case (start junk S)
  then show ?case
    using spmd_start [OF start, of "\<lambda>_. junk"] by (auto simp: sys_inv_def)
next
  case (step Y e Y')
  then show ?case
    using sexec_keeps [of n Y e] sexec_refuses [of n Y e] by (cases "asks_again Y e") auto
qed

subsection \<open>Properties\<close>

text \<open>The request whose function a worker is running.\<close>

fun running :: "spc \<Rightarrow> spmdreq_t option" where
  "running (MExec r) = Some r"
| "running (NExec r) = Some r"
| "running _ = None"

lemma running_master:
  assumes "spmd_inv n A us S pc ask" "w < n" "running (pc w) = Some r"
  shows "rq_wctx r = A \<and> A \<noteq> None"
  using pc_okD [OF assms(1,2)] assms(3) by (cases "pc w") auto

lemma GetVId_mod:
  assumes "0 \<le> self" "self < n" "0 \<le> master" "master < n"
  shows "GetVId n self master = (master - self) mod n"
proof (cases "master - self < 0")
  case True
  have "(master - self) mod n = (master - self + n) mod n"
    by simp
  also have "\<dots> = master - self + n"
    using True assms by (intro mod_pos_pos_trivial) auto
  finally show ?thesis
    using True by (simp add: GetVId_def)
next
  case False
  with assms show ?thesis
    by (simp add: GetVId_def mod_pos_pos_trivial)
qed

text \<open>The virtual ids of a round are a permutation of the workers, the master has \<open>0\<close>.\<close>

lemma GetVId_bij:
  assumes "0 \<le> master" "master < n"
  shows "bij_betw (\<lambda>self. GetVId n self master) {0..<n} {0..<n}" "GetVId n master master = 0"
proof -
  show "GetVId n master master = 0"
    by (simp add: GetVId_def)
  have inj: "inj_on (\<lambda>self. GetVId n self master) {0..<n}"
    using assms by (auto simp: inj_on_def GetVId_def Let_def split: if_splits)
  have "(\<lambda>self. GetVId n self master) ` {0..<n} \<subseteq> {0..<n}"
    using assms by (auto simp: GetVId_mod)
  with inj show "bij_betw (\<lambda>self. GetVId n self master) {0..<n} {0..<n}"
    by (simp add: bij_betw_def endo_inj_surj)
qed

lemma spmd_barrier_parts:
  assumes "sreach n Y"
  shows "senabled n Y e \<Longrightarrow> if asks_again Y e then sexec Y e = Some (Inl AssertFail)
      else sexec Y e = None \<or> (\<exists>Y'. sexec Y e = Some (Inr Y') \<and> sreach n Y')"
    and "w < n \<and> sy_pc Y w = MSection h r \<Longrightarrow> x < n \<and> x \<noteq> w \<Longrightarrow> \<exists>q. sy_pc Y x = NWait q \<and> rq_wctx q = Some w"
    and "x < n \<and> running (sy_pc Y x) = Some q \<Longrightarrow> y < n \<and> running (sy_pc Y y) = Some q' \<Longrightarrow>
      rq_wctx q = rq_wctx q' \<and> (\<exists>m < n. rq_wctx q = Some m)"
    and "w < n \<and> sy_pc Y w = MDone r \<Longrightarrow> r = sy_ask Y w \<and> rq_wctx r = Some w \<and> (\<forall>x < n. \<not> joined w (sy_pc Y x))"
proof -
  obtain A us where inv: "spmd_inv n A us (sy_spmd Y) (sy_pc Y) (sy_ask Y)"
    using sreach_inv [OF assms] by (auto simp: sys_inv_def)
  show "if asks_again Y e then sexec Y e = Some (Inl AssertFail)
      else sexec Y e = None \<or> (\<exists>Y'. sexec Y e = Some (Inr Y') \<and> sreach n Y')" if "senabled n Y e"
    using sexec_keeps [OF sreach_inv [OF assms] that] sexec_refuses [OF sreach_inv [OF assms] that] sreach.step [OF assms that] by auto
  show "\<exists>q. sy_pc Y x = NWait q \<and> rq_wctx q = Some w" if "w < n \<and> sy_pc Y w = MSection h r" "x < n \<and> x \<noteq> w"
    using section_alone(1) [OF inv, of w h r x] that by (cases "sy_pc Y x") auto
  show "rq_wctx q = rq_wctx q' \<and> (\<exists>m < n. rq_wctx q = Some m)"
    if "x < n \<and> running (sy_pc Y x) = Some q" "y < n \<and> running (sy_pc Y y) = Some q'"
    using running_master [OF inv, of x q] running_master [OF inv, of y q'] that invD(2) [OF inv]
    by (auto simp: pcs_ok_def)
  show "r = sy_ask Y w \<and> rq_wctx r = Some w \<and> (\<forall>x < n. \<not> joined w (sy_pc Y x))" if "w < n \<and> sy_pc Y w = MDone r"
  proof -
    have A: "A = Some w" "r = sy_ask Y w" "rq_wctx r = Some w"
      using pc_okD [OF inv, of w] that by auto
    then have "sema (sy_spmd Y) w + (n - 1) + num (joined w) (sy_pc Y) n = n - 1"
      using tokensD(1) [OF invD(3) [OF inv], of w] that by (metis k_stop.simps(2))
    then have "num (joined w) (sy_pc Y) n = 0"
      by linarith
    with A show ?thesis
      by (simp add: num_0)
  qed
qed

text \<open>
  C30: Under every interleaving of the workers, with requests coming at any time, a step inside
  \<open>LpelSpmdRequest\<close> and \<open>LpelSpmdHandleRequests\<close> succeeds or waits on a semaphore, with one exception: a request on a
  worker whose last request is still pending fails the assertion of \<open>LpelSpmdRequest\<close>, and this is the only failure, no other
  assertion fails and no access is out of range. (The exception can be reached, as shown below.) In its critical section a
  master is alone, all other workers wait for
  it in the start barrier. Workers that run a function at the same time run it for a request of the same
  worker. A master leaves the stop barrier only when every other worker has left its round, and the
  request it ends is its own, so the task it wakes is the one that asked.
\<close>

theorem spmd_barrier:
  assumes "sreach n Y"
  shows "(\<forall>e. senabled n Y e \<longrightarrow> (if asks_again Y e then sexec Y e = Some (Inl AssertFail)
      else sexec Y e = None \<or> (\<exists>Y'. sexec Y e = Some (Inr Y') \<and> sreach n Y'))) \<and>
    (\<forall>w h r x. w < n \<and> sy_pc Y w = MSection h r \<and> x < n \<and> x \<noteq> w \<longrightarrow> (\<exists>q. sy_pc Y x = NWait q \<and> rq_wctx q = Some w)) \<and>
    (\<forall>x q y q'. x < n \<and> running (sy_pc Y x) = Some q \<and> y < n \<and> running (sy_pc Y y) = Some q' \<longrightarrow>
      rq_wctx q = rq_wctx q' \<and> (\<exists>m < n. rq_wctx q = Some m)) \<and>
    (\<forall>w r. w < n \<and> sy_pc Y w = MDone r \<longrightarrow>
      r = sy_ask Y w \<and> rq_wctx r = Some w \<and> (\<forall>x < n. \<not> joined w (sy_pc Y x)))"
proof (intro conjI)
  show "\<forall>e. senabled n Y e \<longrightarrow> (if asks_again Y e then sexec Y e = Some (Inl AssertFail)
      else sexec Y e = None \<or> (\<exists>Y'. sexec Y e = Some (Inr Y') \<and> sreach n Y'))"
    using spmd_barrier_parts(1) [OF assms] by blast
  show "\<forall>w h r x. w < n \<and> sy_pc Y w = MSection h r \<and> x < n \<and> x \<noteq> w \<longrightarrow> (\<exists>q. sy_pc Y x = NWait q \<and> rq_wctx q = Some w)"
    using spmd_barrier_parts(2) [OF assms] by blast
  show "\<forall>x q y q'. x < n \<and> running (sy_pc Y x) = Some q \<and> y < n \<and> running (sy_pc Y y) = Some q' \<longrightarrow>
      rq_wctx q = rq_wctx q' \<and> (\<exists>m < n. rq_wctx q = Some m)"
    using spmd_barrier_parts(3) [OF assms] by blast
  show "\<forall>w r. w < n \<and> sy_pc Y w = MDone r \<longrightarrow>
      r = sy_ask Y w \<and> rq_wctx r = Some w \<and> (\<forall>x < n. \<not> joined w (sy_pc Y x))"
    using spmd_barrier_parts(4) [OF assms] by blast
qed

text \<open>
  C31: The barrier does not deadlock: when every worker is inside one of the two functions, some
  worker can go on. A worker that can not is in one of the three waits and its semaphore is \<open>0\<close>.
\<close>

theorem spmd_progress:
  assumes "sreach n Y" "\<forall>w < n. sy_pc Y w \<noteq> Outside"
  shows "\<exists>w < n. sexec Y (SStep w) \<noteq> None"
proof (rule ccontr)
  assume "\<not> ?thesis"
  then have blocked: "spmd_step (sy_spmd Y) w (sy_pc Y w) = None" if "w < n" for w
    using that by (auto split: option.splits)
  obtain A us where inv: "spmd_inv n A us (sy_spmd Y) (sy_pc Y) (sy_ask Y)"
    using sreach_inv [OF assms(1)] by (auto simp: sys_inv_def)
  note tk = invD(3) [OF inv] and sh = invD(1) [OF inv]
  have st: "sema (sy_spmd Y) w = 0 \<and> (case sy_pc Y w of MWait k h r \<Rightarrow> k < n - 1 | MStop k r \<Rightarrow> k < n - 1 | NWait r \<Rightarrow> True | _ \<Rightarrow> False)"
    if "w < n" for w
    using step_keeps [OF inv that] blocked [OF that] by (auto simp: keeps_inv_def)
  have "0 < n"
    using sh by (simp add: shape_def)
  show False
  proof (cases A)
    case (Some a)
    then have a: "a < n" "act_req (sy_pc Y a) \<noteq> None"
      using invD(2) [OF inv] by (auto simp: pcs_ok_def)
    then obtain k r where k: "sy_pc Y a = MStop k r" "k < n - 1"
      using st [OF a(1)] by (cases "sy_pc Y a") auto
    then have "num (joined a) (sy_pc Y) n \<noteq> 0"
      using tokensD(1) [OF tk a(1) Some] st [OF a(1)] by simp
    then obtain x where x: "x < n" "joined a (sy_pc Y x)"
      by (auto simp: num_0)
    then obtain q where q: "sy_pc Y x = NWait q" "rq_wctx q = Some a"
      using st [OF x(1)] by (cases "sy_pc Y x") auto
    have "a \<noteq> x"
      using x a by (cases "sy_pc Y x") auto
    then have "needs A (sy_pc Y x) = 1" "owed A (sy_pc Y) x = 0"
      using q k Some by (auto simp: needs_def owed_def)
    with tokensD(2) [OF tk x(1)] Some \<open>a \<noteq> x\<close> st [OF x(1)] q show False
      by simp
  next
    case None
    have "act_req (sy_pc Y x) = None" if "x < n" for x
      using pc_okD(2) [OF inv that] None by simp
    have wait: "(\<exists>k h r. sy_pc Y x = MWait k h r \<and> k < n - 1) \<or> (\<exists>r. sy_pc Y x = NWait r)" if "x < n" for x
      using st [OF that] \<open>\<And>x. x < n \<Longrightarrow> act_req (sy_pc Y x) = None\<close> [OF that] by (cases "sy_pc Y x") auto
    obtain b where b: "top_worker (sy_spmd Y) = Some b"
      using wait [OF \<open>0 < n\<close>] pc_okD(1) [OF inv \<open>0 < n\<close>] None by auto
    have bn: "b < n"
      using top_owner [OF invD(4) [OF inv] sh b] by simp
    have other: "waits_for b (sy_pc Y x)" if "x < n" "x \<noteq> b" for x
      using wait [OF that(1)] pc_okD(1) [OF inv that(1)] None b that by auto
    obtain k h r where k: "sy_pc Y b = MWait k h r" "k < n - 1"
      using wait [OF bn] pc_okD(1) [OF inv bn] None b by auto
    have "num (waits_for b) (sy_pc Y) n = n - 1"
      using other k by (intro num_others [OF bn]) auto
    with tokensD(2) [OF tk bn] None b k st [OF bn] show False
      by (simp add: owed_def needs_def)
  qed
qed

subsection \<open>Concrete runs\<close>

primrec srun :: "nat \<Rightarrow> spmd_sys \<Rightarrow> sevent list \<Rightarrow> spmd_sys option" where
  "srun n Y [] = Some Y"
| "srun n Y (e # es) = (if senabled n Y e
     then (case sexec Y e of Some (Inr Y') \<Rightarrow> srun n Y' es | _ \<Rightarrow> None) else None)"

lemma srun_reach: "sreach n Y \<Longrightarrow> srun n Y es = Some Y' \<Longrightarrow> sreach n Y'"
  by (induction es arbitrary: Y) (auto split: if_splits option.splits sum.splits intro: sreach.step)

definition sjunk :: spmdreq_t where
  "sjunk = \<lparr>rq_wctx = None, rq_func = 0, rq_arg = None, rq_task = None\<rparr>"

definition sstart :: "nat \<Rightarrow> spmd_sys" where
  "sstart n = (case LpelSpmdInit spmd_static sjunk (int n) of
     Inr S \<Rightarrow> \<lparr>sy_spmd = S, sy_pc = (\<lambda>_. Outside), sy_ask = (\<lambda>_. sjunk)\<rparr>
   | Inl e \<Rightarrow> \<lparr>sy_spmd = spmd_static, sy_pc = (\<lambda>_. Outside), sy_ask = (\<lambda>_. sjunk)\<rparr>)"

lemma sstart_reach: "0 < n \<Longrightarrow> sreach n (sstart n)"
  using sreach.start [of sjunk n] by (simp add: sstart_def LpelSpmdInit_def)

definition send :: "nat \<Rightarrow> sevent list \<Rightarrow> spmd_sys" where
  "send n es = (case srun n (sstart n) es of Some Y \<Rightarrow> Y | None \<Rightarrow> sstart n)"

lemma send_reach: "0 < n \<Longrightarrow> sreach n (send n es)"
  using srun_reach [OF sstart_reach] by (auto simp: send_def sstart_reach split: option.splits)

text \<open>Two workers, the task of worker 0 asks: up to the critical section of its master, and on to the
  stop barrier.\<close>

definition sec_events :: "sevent list" where
  "sec_events = SAsk 0 7 None (Some 5) # replicate 5 (SStep 0) @ [SEnter 1, SStep 1, SStep 1, SStep 1, SStep 0, SStep 0]"

definition done_events :: "sevent list" where
  "done_events = sec_events @ replicate 6 (SStep 0) @ replicate 4 (SStep 1) @ [SStep 0, SStep 0]"

lemma sec_state: "sy_pc (send 2 sec_events) 0 = MSection 0 \<lparr>rq_wctx = Some 0, rq_func = 7, rq_arg = None, rq_task = Some 5\<rparr>"
  by code_simp

lemma done_state: "sy_pc (send 2 done_events) 0 = MDone \<lparr>rq_wctx = Some 0, rq_func = 7, rq_arg = None, rq_task = Some 5\<rparr>"
  by code_simp

theorem spmd_barrier_witness:
  "(\<exists>q. sy_pc (send 2 sec_events) 1 = NWait q \<and> rq_wctx q = Some 0) \<and>
   rq_task (sy_ask (send 2 done_events) 0) = Some 5 \<and>
   \<not> joined 0 (sy_pc (send 2 done_events) 1)"
proof -
  have r: "sreach 2 (send 2 sec_events)" "sreach 2 (send 2 done_events)"
    by (simp_all add: send_reach)
  have "\<exists>q. sy_pc (send 2 sec_events) 1 = NWait q \<and> rq_wctx q = Some 0"
    using spmd_barrier [OF r(1), THEN conjunct2, THEN conjunct1, rule_format, of 0 _ _ 1] sec_state by simp
  moreover have a: "sy_ask (send 2 done_events) 0 = \<lparr>rq_wctx = Some 0, rq_func = 7, rq_arg = None, rq_task = Some 5\<rparr>"
    "\<not> joined 0 (sy_pc (send 2 done_events) 1)"
    using spmd_barrier [OF r(2), THEN conjunct2, THEN conjunct2, THEN conjunct2, rule_format, of 0] done_state by auto
  moreover have "rq_task (sy_ask (send 2 done_events) 0) = Some 5"
    by (simp add: a(1))
  ultimately show ?thesis
    by blast
qed

theorem spmd_progress_witness:
  "\<exists>w < 2. sexec (send 2 sec_events) (SStep w) \<noteq> None"
proof -
  have "\<forall>w < 2. sy_pc (send 2 sec_events) w \<noteq> Outside"
    by code_simp
  from spmd_progress [OF send_reach this] show ?thesis
    by simp
qed

text \<open>
  Taking a slot of the queue and filling it are two steps. Worker 0 has taken the first slot and not
  filled it yet; worker 1 asks, fills the second slot, finds the first one empty and leaves the
  handler with its request pending. When its next task asks too, the assertion of \<open>LpelSpmdRequest\<close>
  that no request is pending fails.
\<close>

definition race_events :: "sevent list" where
  "race_events = [SAsk 0 7 None (Some 5), SStep 0, SAsk 1 8 None (Some 6)] @ replicate 5 (SStep 1)"

theorem spmd_request_race:
  "sreach 2 (send 2 race_events) \<and> senabled 2 (send 2 race_events) (SAsk 1 8 None (Some 9)) \<and>
   asks_again (send 2 race_events) (SAsk 1 8 None (Some 9)) \<and>
   LpelSpmdRequest (sy_spmd (send 2 race_events)) (Some 9) 1 8 None = Inl AssertFail"
proof -
  have "senabled 2 (send 2 race_events) (SAsk 1 8 None (Some 9))" "asks_again (send 2 race_events) (SAsk 1 8 None (Some 9))"
    "LpelSpmdRequest (sy_spmd (send 2 race_events)) (Some 9) 1 8 None = Inl AssertFail"
    by (code_simp, code_simp, code_simp)
  then show ?thesis
    by (simp add: send_reach)
qed

text \<open>
  A worker that copies the request between the two writes of the requester gets the function of an
  older request (here what \<open>malloc\<close> left) for the new one.
\<close>

theorem spmd_stale_function:
  "case sy_pc (send 2 [SAsk 0 7 None (Some 5), SStep 0, SStep 0, SEnter 1, SStep 1, SStep 1]) 1 of
     NPost q \<Rightarrow> rq_wctx q = Some 0 \<and> rq_func q = 0 \<and>
       rq_func (sy_ask (send 2 [SAsk 0 7 None (Some 5), SStep 0, SStep 0, SEnter 1, SStep 1, SStep 1]) 0) = 7
   | _ \<Rightarrow> False"
  by code_simp

end
