(* ===== verification/Spec2Isabelle.thy ===== *)
theory Spec2Isabelle
  imports Decen_Stream Hrc_Stream_Runs Decen_System Decen_Spmd Hrc_System Monitoring_Events Hwloc_Props Spmd_Barrier
begin

text \<open>
  Verification of LPEL, the light-weight parallel execution layer: a C library that runs tasks (user-level
  threads with a machine context of their own) on worker threads and connects them by streams. It has two
  schedulers with one interface. In the \<^emph>\<open>decentralised\<close> one (\<open>src/src/sched/decentralised\<close>) each worker has
  its own ready queues and the workers send each other messages; in the \<^emph>\<open>hierarchical\<close> one
  (\<open>src/src/sched/hierarchy\<close>) a master keeps the ready tasks in a heap ordered by priority and hands them to
  workers that ask. A wrapper is a thread that runs a single task outside the workers.

  \<^bold>\<open>Conventions\<close> (\<open>Lpel_Prelude\<close>, \<open>Lpel_Types\<close>). A struct is a record, an enumeration a datatype, a pointer a
  \<open>nat option\<close> with \<open>None\<close> for \<open>NULL\<close>, the structs of one type a heap (a partial map), so that \<open>malloc\<close> and
  \<open>free\<close> change its domain; what \<open>malloc\<close> returns and what it leaves in the memory are arguments. A function
  that can abort returns \<open>'a res\<close>: a failing \<open>assert\<close>, a bad pointer, an index out of range or the use
  of an uninitialised value is an \<open>Inl\<close>, so a theorem that a call gives \<open>Inr\<close> says that none of them happens.
  Waiting on an empty mailbox is \<open>WouldBlock\<close>. A loop over linked memory is a \<open>partial_function (option)\<close>, where
  \<open>None\<close> means that it does not end; no fuel is used, and the theorems about such loops state that they
  return. Identifiers, counters and indices whose wrap-around matters are words of their C width. A suffix
  \<open>_decen\<close> or \<open>_hrc\<close> tells which of two functions of the same name is meant.

  \<^bold>\<open>Containers.\<close>
  \<^item> \<open>Stream_Buffer\<close>: the interface of stream buffers as a locale, with its laws over the list of items.
    \<open>Decen_Buffer\<close> (\<open>decen_buffer.c\<close>, circular array) and \<open>Hrc_Buffer\<close> (\<open>hrc_buffer.c\<close>, linked list) interpret
    it; both are first in, first out.
  \<^item> \<open>Streamset\<close> (\<open>streamset.c\<close>): circular lists of stream descriptors and iterators; iterating while removing
    visits every element once.
  \<^item> \<open>Mailbox\<close> (\<open>mailbox.c\<close>): one definition per critical section; any interleaving of senders and receivers
    delivers in order and loses no node. The locale \<open>fifo_channel\<close> is what the schedulers rely on: their
    theories see a mailbox as the list of pending messages.
  \<^item> \<open>Decen_Taskqueue\<close> (\<open>decen_taskqueue.c\<close>): the doubly linked queue refines a list, as the locale \<open>task_deque\<close>
    states; \<open>Decen_Scheduler\<close> (\<open>decen_scheduler.c\<close>) builds the priority queues of a worker on it.
  \<^item> \<open>Hrc_Taskqueue\<close> (\<open>hrc_taskqueue.c\<close>): the array heap with its hole-moving loops, proved equal to swaps, and
    the locale \<open>ready_tasks\<close> for the master; \<open>Hrc_Taskpriority\<close> (\<open>taskpriority.c\<close>): the priority functions, with the
    rounding of a \<open>double\<close> as an argument.

  \<^bold>\<open>Streams.\<close> \<open>Stream_Protocol\<close> is the abstract protocol of counters, poll tokens and wakeups between a consumer
  and its producers, with its invariant. \<open>Stream_System\<close> interleaves the atomic sections of the stream functions
  and shows in the locale \<open>stream_sections\<close> that sections with the stated effects simulate the protocol.
  \<open>Decen_Stream\<close> (\<open>decen_stream.c\<close>) and \<open>Hrc_Stream\<close>, \<open>Hrc_Stream_Runs\<close> (\<open>hrc_stream.c\<close>) translate the functions
  and interpret the locale: no assertion fails, no item is lost or reordered, no wakeup is lost, polling
  returns. \<open>Hrc_Context\<close> has the free lists of streams and descriptors of a worker.

  \<^bold>\<open>The decentralised scheduler.\<close> \<open>Decen_Types\<close>, \<open>Decen_Worker\<close> (\<open>decen_worker.c\<close>), \<open>Decen_Task\<close> (\<open>decen_task.c\<close>,
  \<open>task_migration.c\<close>, \<open>mutex.c\<close>, \<open>sema.c\<close>) hold the model; a function that gives up the processor is translated
  up to the switch and returns which task or worker loop continues. \<open>Decen_Place\<close> gives every task one
  place, \<open>Decen_Runs\<close> shows that the functions move tasks between places, \<open>Decen_System\<close> lets all workers run:
  every step that is due succeeds, every task is in one place, some worker can go on while a task can. These
  three are for the migration policies other than \<open>LPEL_MIG_WAIT_PROP\<close> and for tasks mapped to workers: with
  \<open>LPEL_MIG_WAIT_PROP\<close> the dispatcher of a blocking task can send this very task to another worker before
  its context is saved (\<open>wait_prop_sends_itself\<close>), and a wrapper whose task yields loses it.
  \<open>Spmd\<close> (\<open>spmdext.c\<close>) models the barrier in which all workers meet, with a program counter per worker;
  \<open>Spmd_Barrier\<close> shows which steps fail (a second request of a worker that has one pending), that the others
  are safe and do not deadlock, and two races of its request queue; \<open>Decen_Spmd\<close> has the task operation that
  asks for it. The set-up of the workers initialises the module; the calls of \<open>LpelSpmdHandleRequests\<close> in the
  worker loop and the dispatcher are not steps of \<open>Decen_System\<close>, which has no requests.

  \<^bold>\<open>The hierarchical scheduler.\<close> \<open>Hrc_Types\<close>, \<open>Hrc_Store\<close>, \<open>Hrc_Task\<close> (\<open>hrc_task.c\<close>), \<open>Hrc_Master\<close> (the master of
  \<open>hrc_worker_op.c\<close>, which refines an abstract dispatcher), \<open>Hrc_Worker\<close> (workers, wrappers, set-up and clean-up:
  \<open>hrc_worker_op.c\<close>, \<open>hrc_worker_init.c\<close>). \<open>Hrc_Place\<close>, \<open>Hrc_Events\<close> and \<open>Hrc_System\<close> let master, workers, wrappers and
  tasks run together: safety, one context per running task, no lost wakeup, one request per idle worker,
  progress and an orderly end. The flag \<open>d\<close> of the invariants says that no demand limit is in use: safety,
  the wakeups, the requests and the end hold for every configuration, while with a demand limit the master
  may keep a task of priority \<open>LPEL_DBL_MIN\<close> in its queue although workers wait (\<open>cfg_ok\<close> excludes
  this where it matters).

  \<^bold>\<open>Around the schedulers.\<close>
  \<^item> \<open>Timing\<close> (\<open>timing.c\<close>): time values; \<open>Monitoring\<close> (\<open>modimpl/monitoring.c\<close>): contexts, dirty lists, callbacks and the
    text of the log files. \<open>Monitoring_Log\<close> reads the printed numbers back and follows the waiting times of a
    worker; \<open>Monitoring_Events\<close> allows any order of callbacks and shows that they keep their lists intact
    and report each change of a stream once. The wait statistics of a context are optional values: a wrapper
    context has none, and reading them is an error of the model.
  \<^item> \<open>Hwloc\<close> (\<open>lpel_hwloc.c\<close>, \<open>lpel_main.c\<close>, \<open>lpelcfg.c\<close>): configuration, placement of threads in all build variants,
    start and stop; \<open>Hwloc_Props\<close> shows that accepted configurations ask for existing processors,
    as long as the processors fit into a CPU set; sums of \<open>int\<close> wrap around, so a sum that overflows is accepted.
    The section below joins the start of the library with that of the decentralised scheduler.

  \<^bold>\<open>Assumptions.\<close> A critical section under a lock, an atomic operation and, in the two system theories, a stretch of
  code between two switches of a machine context are one step: apart from the mailboxes, the model lets a
  thread use only the records that a message hands over. Where the code does not keep to this, the step hides
  it: a round of the hierarchical master recomputes priorities from streams and descriptors of running tasks
  without a lock, and its safety is that of rounds that do not overlap with such tasks. In the stream
  sections of the hierarchical scheduler the counters that follow a semaphore operation are updated in
  the step of that operation; closing a stream is not part of these runs. The copy of an SPMD request is one
  access. The clients of the schedulers behave as the stream functions do: a task
  announces that it blocks, and each such task is woken once. Running tasks of the hierarchical scheduler
  change streams only in ways that keep the store well-formed. Migration policies name an existing
  worker. Clock readings are normalised. Memory is not exhausted. The heap of the master holds fewer
  than \<open>2 ^ 30\<close> tasks; counts of removed tasks are unbounded. Fields of a new task that \<open>LpelTaskCreate\<close> of the
  hierarchical scheduler leaves uninitialised and nothing reads first are \<open>NULL\<close> or \<open>0\<close>. In the schedulers' own theories the monitoring callbacks are off.

  \<^bold>\<open>Not modelled.\<close> Machine contexts and stacks (\<open>src/ctx\<close>, \<open>src/include/arch\<close>: assembly and compiler
  intrinsics), the code of the tasks, creation and joining of POSIX threads, the port to the SCC
  processor (\<open>scc\<close>, which drives hardware through headers that are not part of the repository), the archived
  earlier versions of the library under \<open>archive\<close> and the test programs. User events of the monitoring
  module have no code in the source.
\<close>

section \<open>From the configuration to the running scheduler\<close>
















end
